(* ===== verification/CPrelude.thy ===== *)
theory CPrelude
  imports Main
begin

text \<open>
  Conventions shared by every component: the faults a C operation can run into, the result
  type that carries them, 32-bit range checks on \<open>int\<close> arithmetic, bounds-checked arrays, and
  the generic lemmas about them. The collection \<open>c_simps\<close> holds the equations that evaluate
  fault-carrying code; component theories add their own accessors to it.
\<close>

named_theorems c_simps \<open>equations that evaluate fault-carrying C code\<close>

section \<open>Faults and results\<close>

text \<open>
  \<open>AssertFailed\<close> is a failing \<open>assert\<close> (the build never defines \<open>NDEBUG\<close>). The others are
  undefined behaviour of C that the model turns into a value: a read through a null pointer, an
  access outside an object, a read of storage that was never written, an \<open>int\<close> result that does
  not fit 32 bits, an access to or release of freed storage, and a division by zero. \<open>OutOfFuel\<close>
  is not a fault of C: a loop or recursion modelled with fuel returns it when the fuel is too small,
  so a theorem that such code returns also shows that it stops.
\<close>

datatype cfault =
    AssertFailed
  | NullDeref
  | OutOfBounds
  | Uninitialised
  | IntOverflow
  | UseAfterFree
  | DivByZero
  | OutOfFuel

type_synonym 'a res = "cfault + 'a"

fun rbind :: "'a res \<Rightarrow> ('a \<Rightarrow> 'b res) \<Rightarrow> 'b res" where
  "rbind (Inl e) f = Inl e"
| "rbind (Inr x) f = f x"

lemma rbind_cong [fundef_cong]:
  "m = m' \<Longrightarrow> (\<And>x. m' = Inr x \<Longrightarrow> f x = g x) \<Longrightarrow> rbind m f = rbind m' g"
  by (cases m') auto

lemma rbind_eq_Inr [c_simps]:
  "rbind m f = Inr y \<longleftrightarrow> (\<exists>x. m = Inr x \<and> f x = Inr y)"
  by (cases m) auto

lemma rbind_eq_Inl [c_simps]:
  "rbind m f = Inl e \<longleftrightarrow> m = Inl e \<or> (\<exists>x. m = Inr x \<and> f x = Inl e)"
  by (cases m) auto

lemma rbind_assoc: "rbind (rbind m f) g = rbind m (\<lambda>x. rbind (f x) g)"
  by (cases m) auto

lemma rbind_Inr_right [simp]: "rbind m Inr = m"
  by (cases m) auto

lemma rbind_if: "rbind (if b then m else n) f = (if b then rbind m f else rbind n f)"
  by simp

text \<open>A loop over a sequence of values whose body updates a state and may fault.\<close>

fun rfold :: "('e \<Rightarrow> 's \<Rightarrow> 's res) \<Rightarrow> 'e list \<Rightarrow> 's \<Rightarrow> 's res" where
  "rfold f [] s = Inr s"
| "rfold f (x # xs) s = rbind (f x s) (rfold f xs)"

lemma rfold_append: "rfold f (xs @ ys) s = rbind (rfold f xs s) (rfold f ys)"
  by (induction xs arbitrary: s) (auto simp: rbind_assoc cong: rbind_cong)

lemma rfold_Inr: "rfold (\<lambda>x s. Inr (g x s)) xs s = Inr (fold g xs s)"
  by (induction xs arbitrary: s) auto

text \<open>\<open>ok m P\<close>: the code returns, and its result satisfies \<open>P\<close>; \<open>ok_step\<close> follows a sequence of calls.\<close>

definition ok :: "'a res \<Rightarrow> ('a \<Rightarrow> bool) \<Rightarrow> bool" where
  "ok m P \<longleftrightarrow> (case m of Inl e \<Rightarrow> False | Inr x \<Rightarrow> P x)"

lemma ok_simps [simp]: "ok (Inr x) P = P x" "ok (Inl e) P = False"
  by (simp_all add: ok_def)

lemma ok_step: "ok m P \<Longrightarrow> (\<And>x. P x \<Longrightarrow> ok (f x) Q) \<Longrightarrow> ok (rbind m f) Q"
  by (cases m) auto

lemma ok_mono: "ok m P \<Longrightarrow> (\<And>x. P x \<Longrightarrow> Q x) \<Longrightarrow> ok m Q"
  by (cases m) auto

lemma ok_return [simp]: "ok (rbind m (\<lambda>x. Inr (f x))) Q = ok m (\<lambda>x. Q (f x))"
  by (cases m) auto

section \<open>32-bit \<open>int\<close> arithmetic\<close>

text \<open>
  Signed overflow is undefined in C; \<open>c_int\<close> passes a value through exactly when it fits an
  \<open>int\<close>. \<open>c_nat\<close> does the same for quantities the code keeps non-negative.
\<close>

definition INT_MAX :: int where
  "INT_MAX = 2147483647"

definition c_int :: "int \<Rightarrow> int res" where
  "c_int n = (if - INT_MAX - 1 \<le> n \<and> n \<le> INT_MAX then Inr n else Inl IntOverflow)"

definition c_nat :: "nat \<Rightarrow> nat res" where
  "c_nat n = (if int n \<le> INT_MAX then Inr n else Inl IntOverflow)"

definition LONG_MAX :: int where
  "LONG_MAX = 9223372036854775807"

definition c_long :: "int \<Rightarrow> int res" where
  "c_long n = (if - LONG_MAX - 1 \<le> n \<and> n \<le> LONG_MAX then Inr n else Inl IntOverflow)"

text \<open>Division truncates towards zero.\<close>

definition c_div :: "int \<Rightarrow> int \<Rightarrow> int res" where
  "c_div a b = (if b = 0 then Inl DivByZero else Inr (sgn a * sgn b * (\<bar>a\<bar> div \<bar>b\<bar>)))"

lemma c_int_Inr [c_simps]: "c_int n = Inr m \<longleftrightarrow> m = n \<and> - INT_MAX - 1 \<le> n \<and> n \<le> INT_MAX"
  by (auto simp: c_int_def)

lemma c_nat_Inr [c_simps]: "c_nat n = Inr m \<longleftrightarrow> m = n \<and> int n \<le> INT_MAX"
  by (auto simp: c_nat_def)

lemma c_long_Inr [c_simps]: "c_long n = Inr m \<longleftrightarrow> m = n \<and> - LONG_MAX - 1 \<le> n \<and> n \<le> LONG_MAX"
  by (auto simp: c_long_def)

lemma c_long_ok: "- LONG_MAX - 1 \<le> n \<Longrightarrow> n \<le> LONG_MAX \<Longrightarrow> c_long n = Inr n"
  by (simp add: c_long_def)

lemma c_div_pos: "0 \<le> a \<Longrightarrow> 0 < b \<Longrightarrow> c_div a b = Inr (a div b)"
  by (cases "a = 0") (simp_all add: c_div_def)

lemma c_int_ok: "- INT_MAX - 1 \<le> n \<Longrightarrow> n \<le> INT_MAX \<Longrightarrow> c_int n = Inr n"
  by (simp add: c_int_def)

lemma c_nat_ok: "int n \<le> INT_MAX \<Longrightarrow> c_nat n = Inr n"
  by (simp add: c_nat_def)

section \<open>Bounds-checked arrays\<close>

definition arr_get :: "'a list \<Rightarrow> int \<Rightarrow> 'a res" where
  "arr_get a i = (if 0 \<le> i \<and> i < int (length a) then Inr (a ! nat i) else Inl OutOfBounds)"

definition arr_set :: "'a list \<Rightarrow> int \<Rightarrow> 'a \<Rightarrow> 'a list res" where
  "arr_set a i x = (if 0 \<le> i \<and> i < int (length a) then Inr (a[nat i := x]) else Inl OutOfBounds)"

lemma arr_get_ok [c_simps]: "0 \<le> i \<Longrightarrow> i < int (length a) \<Longrightarrow> arr_get a i = Inr (a ! nat i)"
  by (simp add: arr_get_def)

lemma arr_set_ok [c_simps]: "0 \<le> i \<Longrightarrow> i < int (length a) \<Longrightarrow> arr_set a i x = Inr (a[nat i := x])"
  by (simp add: arr_set_def)

lemma arr_get_Inr: "arr_get a i = Inr x \<longleftrightarrow> 0 \<le> i \<and> i < int (length a) \<and> x = a ! nat i"
  by (auto simp: arr_get_def)

lemma arr_set_Inr: "arr_set a i x = Inr b \<longleftrightarrow> 0 \<le> i \<and> i < int (length a) \<and> b = a[nat i := x]"
  by (auto simp: arr_set_def)

lemma arr_set_length: "arr_set a i x = Inr b \<Longrightarrow> length b = length a"
  by (auto simp: arr_set_Inr)

end
