(* ===== verification/SomRandom.thy ===== *)
theory SomRandom
  imports CPrelude
begin

unbundle bit_operations_syntax

text \<open>
  \<open>som/Random.c\<close>: the linear congruential generator every benchmark draws from. The static
  variable \<open>seed\<close> is the state. The lemmas show that the \<open>int\<close> products never overflow, that the
  mask makes the generator arithmetic modulo 65536, and that its period is the full 65536.
\<close>

definition Random_init :: int where
  "Random_init = 74755"

definition Random_reset :: int where
  "Random_reset = Random_init"

definition Random_next :: "int \<Rightarrow> (int \<times> int) res" where
  "Random_next seed =
     rbind (c_int (seed * 1309)) (\<lambda>p.
     rbind (c_int (p + 13849)) (\<lambda>q.
       let seed = q AND 65535 in Inr (seed, seed)))"

definition rstep :: "int \<Rightarrow> int" where
  "rstep s = (s * 1309 + 13849) mod 65536"

lemma and_65535: "n AND 65535 = n mod (65536 :: int)"
proof -
  have "n AND mask 16 = take_bit 16 n" by (simp add: take_bit_eq_mask)
  then show ?thesis by (simp add: mask_eq_exp_minus_1 take_bit_eq_mod)
qed

lemma Random_next_rstep:
  assumes "0 \<le> s" "s \<le> Random_init"
  shows "Random_next s = Inr (rstep s, rstep s)"
proof -
  have "s * 1309 \<le> 74755 * 1309" "0 \<le> s * 1309"
    using assms unfolding Random_init_def by linarith+
  then show ?thesis
    by (simp add: Random_next_def rstep_def c_int_def INT_MAX_def and_65535 Let_def)
qed

lemma rstep_range: "0 \<le> rstep s" "rstep s < 65536" "rstep s \<le> Random_init"
proof -
  show b: "0 \<le> rstep s" "rstep s < 65536" by (simp_all add: rstep_def)
  from b show "rstep s \<le> Random_init" by (simp add: Random_init_def)
qed

text \<open>\<open>n\<close> draws, as the loop of a client that collects them.\<close>

fun draws :: "nat \<Rightarrow> int \<Rightarrow> (int list \<times> int) res" where
  "draws 0 s = Inr ([], s)"
| "draws (Suc n) s = rbind (Random_next s) (\<lambda>(x, s). rbind (draws n s) (\<lambda>(xs, s). Inr (x # xs, s)))"

lemma draws_ok:
  "0 \<le> s \<Longrightarrow> s \<le> Random_init \<Longrightarrow>
   draws n s = Inr (map (\<lambda>i. (rstep ^^ Suc i) s) [0..<n], (rstep ^^ n) s)"
proof (induction n arbitrary: s)
  case (Suc n)
  have "[0..<Suc n] = 0 # map Suc [0..<n]" by (simp add: map_Suc_upt upt_conv_Cons del: upt_Suc)
  with Suc.prems Suc.IH [of "rstep s"] rstep_range [of s] show ?case
    by (simp add: Random_next_rstep funpow_swap1 del: upt_Suc)
qed simp

section \<open>Period\<close>

text \<open>
  Iterating the step \<open>m\<close> times is again affine modulo 65536; doubling \<open>m\<close> squares the multiplier.
  Sixteen doublings compute the iterate of order 32768 (addition of 32768) and of order 65536 (the
  identity), which pins the period of every seed.
\<close>

definition affine :: "nat \<Rightarrow> int \<Rightarrow> int \<Rightarrow> bool" where
  "affine m a c \<longleftrightarrow> (\<forall>s. 0 \<le> s \<longrightarrow> s < 65536 \<longrightarrow> (rstep ^^ m) s = (s * a + c) mod 65536)"


lemma affine_double:
  assumes "affine m a c"
  shows "affine (m + m) (a * a mod 65536) ((c * a + c) mod 65536)"
  unfolding affine_def
proof (intro allI impI)
  fix s :: int assume s: "0 \<le> s" "s < 65536"
  let ?t = "(s * a + c) mod 65536"
  have "(rstep ^^ (m + m)) s = (rstep ^^ m) ((rstep ^^ m) s)" by (simp add: funpow_add)
  also have "\<dots> = (?t * a + c) mod 65536" using assms s by (simp add: affine_def)
  also have "\<dots> = ((s * a + c) * a + c) mod 65536"
    by (metis mod_add_left_eq mod_mult_left_eq)
  also have "(s * a + c) * a + c = s * (a * a) + (c * a + c)" by (simp add: algebra_simps)
  also have "(s * (a * a) + (c * a + c)) mod 65536 =
      (s * (a * a mod 65536) + (c * a + c) mod 65536) mod 65536"
    by (intro mod_add_cong) (simp_all add: mod_mult_right_eq)
  finally show "(rstep ^^ (m + m)) s = (s * (a * a mod 65536) + (c * a + c) mod 65536) mod 65536" .
qed

fun doubled :: "nat \<Rightarrow> int \<times> int" where
  "doubled 0 = (1309, 13849)"
| "doubled (Suc k) = (case doubled k of (a, c) \<Rightarrow> (a * a mod 65536, (c * a + c) mod 65536))"

lemma affine_doubled: "affine (2 ^ k) (fst (doubled k)) (snd (doubled k))"
proof (induction k)
  case (Suc k)
  from affine_double [OF Suc] show ?case by (cases "doubled k") (simp add: mult_2)
qed (simp add: affine_def rstep_def)

lemma affine_32768: "affine 32768 1 32768"
proof -
  have "doubled 15 = (1, 32768)" by (simp add: eval_nat_numeral)
  then show ?thesis using affine_doubled [of 15] by simp
qed

lemma rstep_65536: "0 \<le> s \<Longrightarrow> s < 65536 \<Longrightarrow> (rstep ^^ 65536) s = s"
  using affine_double [OF affine_32768] by (simp add: affine_def)

lemma rstep_iter_range: "0 \<le> s \<Longrightarrow> s < 65536 \<Longrightarrow> 0 \<le> (rstep ^^ n) s \<and> (rstep ^^ n) s < 65536"
  by (cases n) (auto simp: rstep_range)

lemma rstep_mult: "(rstep ^^ m) s = s \<Longrightarrow> (rstep ^^ (m * k)) s = s"
  by (induction k) (auto simp: funpow_add)

lemma dvd_pow2: "(d :: nat) dvd 2 ^ n \<Longrightarrow> \<exists>k\<le>n. d = 2 ^ k"
proof (induction n arbitrary: d)
  case (Suc n)
  show ?case
  proof (cases "even d")
    case True
    then obtain e where e: "d = 2 * e" by auto
    with Suc.prems have "e dvd 2 ^ n" by simp
    with Suc.IH obtain k where "k \<le> n" "e = 2 ^ k" by blast
    with e show ?thesis by (intro exI [of _ "Suc k"]) simp
  next
    case False
    then have "coprime d 2" by simp
    with Suc.prems have "d dvd 2 ^ n" by (simp add: coprime_dvd_mult_right_iff)
    with Suc.IH show ?thesis using le_Suc_eq by blast
  qed
qed simp

text \<open>A return time that divides 65536 is 65536: a smaller one would divide 32768.\<close>

lemma rstep_order:
  assumes s: "0 \<le> s" "s < 65536" and m: "0 < m" "(rstep ^^ m) s = s"
  shows "65536 dvd m"
proof -
  have g: "(rstep ^^ gcd m 65536) s = s"
  proof -
    obtain x y where xy: "m * x = 65536 * y + gcd m 65536"
      using bezout_nat [of m 65536] m(1) by auto
    have "(rstep ^^ (m * x)) s = (rstep ^^ gcd m 65536) ((rstep ^^ (65536 * y)) s)"
      by (simp only: xy add.commute [of "65536 * y"] funpow_add comp_apply)
    also have "\<dots> = (rstep ^^ gcd m 65536) s"
      by (simp only: rstep_mult [OF rstep_65536 [OF s]])
    finally show ?thesis by (simp only: rstep_mult [OF m(2)])
  qed
  have p: "(65536 :: nat) = 2 ^ 16" by simp
  obtain k where k: "k \<le> 16" "gcd m 65536 = 2 ^ k"
    using dvd_pow2 [of "gcd m 65536" 16] unfolding p by auto
  have "k = 16"
  proof (rule ccontr)
    assume "k \<noteq> 16"
    with k(1) have "2 ^ k * 2 ^ (15 - k) = (2 :: nat) ^ 15" by (simp flip: power_add)
    then have "(32768 :: nat) = 2 ^ k * 2 ^ (15 - k)" by simp
    then have "(rstep ^^ 32768) s = s"
      using rstep_mult [OF g, of "2 ^ (15 - k)"] unfolding k(2) by (simp only:)
    moreover have "(rstep ^^ 32768) s = (s + 32768) mod 65536"
      using affine_32768 s by (simp add: affine_def)
    ultimately show False using s by presburger
  qed
  with k(2) have "gcd m 65536 = 65536" by simp
  then show ?thesis by (metis gcd_dvd1)
qed

lemma rstep_inj:
  assumes s: "0 \<le> s" "s < 65536" and ij: "i < j" "j < 65536"
  shows "(rstep ^^ i) s \<noteq> (rstep ^^ j) s"
proof
  assume eq: "(rstep ^^ i) s = (rstep ^^ j) s"
  let ?t = "(rstep ^^ i) s"
  have "(rstep ^^ (j - i)) ?t = ?t"
    using eq ij by (metis comp_apply funpow_add le_add_diff_inverse2 less_imp_le)
  then have "65536 dvd j - i"
    using rstep_order [of ?t "j - i"] rstep_iter_range [OF s] ij by auto
  with ij show False by (auto dest: dvd_imp_le)
qed

lemma rstep_orbit:
  assumes s: "0 \<le> s" "s < 65536"
  shows "(\<lambda>i. (rstep ^^ i) s) ` {..<65536} = {0..<65536}"
proof (rule card_subset_eq)
  show "(\<lambda>i. (rstep ^^ i) s) ` {..<65536} \<subseteq> {0..<65536}"
    using rstep_iter_range [OF s] by auto
  have "inj_on (\<lambda>i. (rstep ^^ i) s) {..<65536}"
    using rstep_inj [OF s] by (intro linorder_inj_onI) auto
  then show "card ((\<lambda>i. (rstep ^^ i) s) ` {..<65536}) = card {0..<65536 :: int}"
    by (simp add: card_image)
qed simp

section \<open>Properties\<close>

text \<open>C31: the first 65536 numbers drawn after \<open>Random_reset\<close> are all the numbers from 0 to 65535,
  each once, and no product overflows on the way: the generator has full period.\<close>

theorem Random_full_period:
  "\<exists>xs s. draws 65536 Random_reset = Inr (xs, s) \<and> distinct xs \<and> set xs = {0..<65536}"
proof -
  let ?s = "rstep Random_init"
  have s: "0 \<le> ?s" "?s < 65536" by (rule rstep_range)+
  obtain n :: nat where n: "n = 65536" by blast
  let ?xs = "map (\<lambda>i. (rstep ^^ Suc i) Random_init) [0..<n]"
  have eq: "?xs = map (\<lambda>i. (rstep ^^ i) ?s) [0..<n]" by (simp only: funpow_Suc_right comp_apply)
  have "draws n Random_reset = Inr (?xs, (rstep ^^ n) Random_init)"
    using draws_ok [of Random_init n] by (simp add: Random_reset_def Random_init_def)
  moreover have "set ?xs = {0..<65536}"
    using rstep_orbit [OF s] unfolding eq set_map set_upt atLeast0LessThan n [symmetric] .
  moreover have "inj_on (\<lambda>i. (rstep ^^ i) ?s) {0..<n}"
    using rstep_inj [OF s] unfolding n [symmetric] by (intro linorder_inj_onI) auto
  then have "distinct ?xs" unfolding eq by (simp add: distinct_map)
  ultimately show ?thesis unfolding n by blast
qed

end
