(* ===== verification/SomInterfaces.thy ===== *)
theory SomInterfaces
  imports CPrelude
begin

text \<open>
  The contracts between the SOM library and its clients. \<open>growable_seq\<close> is what a client of
  \<open>som/Vector.c\<close> relies on, \<open>map_store\<close> what a client of a keyed container (\<open>som/Dictionary.c\<close>,
  \<open>RedBlackTree.c\<close>) relies on. Both keep a resource side condition, \<open>room s n\<close>: \<open>n\<close> more
  insertions cannot drive a size or index out of \<open>int\<close>.
\<close>

locale growable_seq =
  fixes rep :: "'s \<Rightarrow> 'e list \<Rightarrow> bool"
    and room :: "'s \<Rightarrow> nat \<Rightarrow> bool"
    and append :: "'s \<Rightarrow> 'e \<Rightarrow> 's res"
    and clear :: "'s \<Rightarrow> 's"
    and size :: "'s \<Rightarrow> int"
    and hasSome :: "'s \<Rightarrow> ('e \<Rightarrow> bool) \<Rightarrow> bool res"
  assumes append_ok: "rep s xs \<Longrightarrow> room s (Suc n) \<Longrightarrow>
      \<exists>s'. append s x = Inr s' \<and> rep s' (xs @ [x]) \<and> room s' n"
    and clear_ok: "rep s xs \<Longrightarrow> rep (clear s) []"
    and size_ok: "rep s xs \<Longrightarrow> size s = int (length xs)"
    and hasSome_ok: "rep s xs \<Longrightarrow> hasSome s p = Inr (list_ex p xs)"
    and room_less: "room s (Suc n) \<Longrightarrow> room s n"
begin

lemma append_all:
  "rep s xs \<Longrightarrow> room s (length ys + n) \<Longrightarrow>
   \<exists>s'. rfold (\<lambda>y s. append s y) ys s = Inr s' \<and> rep s' (xs @ ys) \<and> room s' n"
proof (induction ys arbitrary: s xs)
  case (Cons y ys)
  from append_ok [OF Cons.prems(1), of "length ys + n" y] Cons.prems(2)
  obtain s' where s': "append s y = Inr s'" "rep s' (xs @ [y])" "room s' (length ys + n)" by auto
  from Cons.IH [OF s'(2,3)] s'(1) show ?case by simp
qed simp

text \<open>Appending every element for which no stored element satisfies a test.\<close>

lemma append_unless:
  "rep s xs \<Longrightarrow> room s (length ys + n) \<Longrightarrow>
   \<exists>s'. rfold (\<lambda>y s. rbind (hasSome s (t y)) (\<lambda>b. if b then Inr s else append s y)) ys s = Inr s' \<and>
     rep s' (fold (\<lambda>y xs. if list_ex (t y) xs then xs else xs @ [y]) ys xs) \<and> room s' n"
proof (induction ys arbitrary: s xs)
  case (Cons y ys)
  show ?case
  proof (cases "list_ex (t y) xs")
    case True
    with Cons.IH [OF Cons.prems(1) room_less] Cons.prems show ?thesis
      by (simp add: hasSome_ok)
  next
    case False
    from append_ok [OF Cons.prems(1), of "length ys + n" y] Cons.prems(2)
    obtain s' where s': "append s y = Inr s'" "rep s' (xs @ [y])" "room s' (length ys + n)" by auto
    from Cons.IH [OF s'(2,3)] s'(1) False Cons.prems(1) show ?thesis by (simp add: hasSome_ok)
  qed
qed simp

end

text \<open>
  \<open>abs s\<close> is the finite map a container stands for. Insertion is a map update; a lookup returns
  the stored value and is total on well-formed states.
\<close>

locale map_store =
  fixes inv :: "'s \<Rightarrow> bool"
    and abs :: "'s \<Rightarrow> 'k \<Rightarrow> 'v option"
    and room :: "'s \<Rightarrow> nat \<Rightarrow> bool"
    and put :: "'k \<Rightarrow> 'v \<Rightarrow> 's \<Rightarrow> 's res"
    and lookup :: "'k \<Rightarrow> 's \<Rightarrow> 'v option res"
  assumes put_ok: "inv s \<Longrightarrow> room s (Suc n) \<Longrightarrow>
      \<exists>s'. put k v s = Inr s' \<and> inv s' \<and> abs s' = (abs s)(k \<mapsto> v) \<and> room s' n"
    and lookup_ok: "inv s \<Longrightarrow> lookup k s = Inr (abs s k)"
begin

lemma put_all:
  "inv s \<Longrightarrow> room s (length kvs + n) \<Longrightarrow>
   \<exists>s'. rfold (\<lambda>(k, v). put k v) kvs s = Inr s' \<and> inv s' \<and> abs s' = abs s ++ map_of (rev kvs) \<and>
     room s' n"
proof (induction kvs arbitrary: s)
  case (Cons kv kvs)
  obtain k v where kv: "kv = (k, v)" by force
  from put_ok [OF Cons.prems(1), of "length kvs + n" k v] Cons.prems(2)
  obtain s' where s': "put k v s = Inr s'" "inv s'" "abs s' = (abs s)(k \<mapsto> v)"
    "room s' (length kvs + n)" by auto
  from Cons.IH [OF s'(2,4)] obtain s'' where s'': "rfold (\<lambda>(k, v). put k v) kvs s' = Inr s''"
    "inv s''" "abs s'' = abs s' ++ map_of (rev kvs)" "room s'' n" by blast
  have "abs s'' = abs s ++ map_of (rev (kv # kvs))"
    unfolding s''(3) s'(3) kv by (simp add: map_add_assoc)
  with s'' s'(1) show ?case by (simp add: kv)
qed simp

text \<open>After a sequence of insertions, a lookup sees the last value written to its key.\<close>

lemma lookup_after_puts:
  assumes "inv s" "room s (length kvs)"
  shows "rbind (rfold (\<lambda>(k, v). put k v) kvs s) (lookup k) =
    Inr (case map_of (rev kvs) k of None \<Rightarrow> abs s k | Some v \<Rightarrow> Some v)"
proof -
  from put_all [OF assms(1), of kvs 0] assms(2)
  obtain s' where "rfold (\<lambda>(k, v). put k v) kvs s = Inr s'" "inv s'"
    "abs s' = abs s ++ map_of (rev kvs)" by auto
  then show ?thesis by (auto simp: lookup_ok map_add_def)
qed

end

end
