(* ===== verification/SomVector.thy ===== *)
theory SomVector
  imports SomInterfaces
begin

text \<open>
  \<open>som/Vector.c\<close>: the growable array of fixed-size cells that the other containers and the
  benchmarks are built on. The element type is a HOL type with a \<open>0\<close>, the value of a cell that
  \<open>memset\<close> has cleared; a cell of \<open>elemSize\<close> bytes is one list entry, so \<open>memcpy\<close> of a cell is a
  list update and \<open>memcmp\<close> of two cells is equality. Cells that \<open>malloc\<close> returned and nobody
  wrote are \<open>None\<close>. The \<open>int\<close> fields are \<open>nat\<close>: no operation ever stores a negative number in
  them. Allocation is assumed to succeed, as the code assumes it.
\<close>

section \<open>State\<close>

record 'e vector =
  firstIdx :: nat
  lastIdx :: nat
  vlength :: nat
  elemSize :: nat
  storage :: "'e option list"

text \<open>Reading the cell at an index, as a dereference of \<open>&storage[i * elemSize]\<close> does.\<close>

definition cell :: "'e vector \<Rightarrow> int \<Rightarrow> 'e res" where
  "cell me i =
     (if 0 \<le> i \<and> i < int (length (storage me))
      then (case storage me ! nat i of None \<Rightarrow> Inl Uninitialised | Some e \<Rightarrow> Inr e)
      else Inl OutOfBounds)"

section \<open>Growing\<close>

definition Vector_expand :: "'e::zero vector \<Rightarrow> int \<Rightarrow> 'e vector res" where
  "Vector_expand me newLength =
     (if newLength \<le> int (vlength me) then Inr me
      else rbind (c_nat (nat newLength * elemSize me)) (\<lambda>bytes.
        Inr (me\<lparr>storage := storage me @ replicate (nat newLength - vlength me) (Some 0),
                vlength := nat newLength\<rparr>)))"

function enlarge_loop :: "int \<Rightarrow> nat \<Rightarrow> nat res" where
  "enlarge_loop idx newLength =
     (if int newLength \<le> idx
      then rbind (c_nat (newLength * 2)) (\<lambda>l. rbind (c_nat (l + 50)) (\<lambda>l'. enlarge_loop idx l'))
      else Inr newLength)"
  by pat_completeness auto
termination
  by (relation "measure (\<lambda>(idx, newLength). nat (idx + 1) - newLength)") (auto simp: c_simps)

declare enlarge_loop.simps [simp del]

definition enlarge :: "'e::zero vector \<Rightarrow> int \<Rightarrow> 'e vector res" where
  "enlarge me idx =
     rbind (enlarge_loop idx (vlength me)) (\<lambda>newLength. Vector_expand me (int newLength))"

section \<open>Construction and access\<close>

definition Vector_create :: "nat \<Rightarrow> int \<Rightarrow> 'e::zero vector res" where
  "Vector_create eSize len =
     Vector_expand \<lparr>firstIdx = 0, lastIdx = 0, vlength = 0, elemSize = eSize, storage = []\<rparr> len"

definition Vector_createDefault :: "nat \<Rightarrow> 'e::zero vector res" where
  "Vector_createDefault eSize = Vector_create eSize 0"

definition Vector_at :: "'e vector \<Rightarrow> int \<Rightarrow> 'e res" where
  "Vector_at me idx = (if idx < 0 \<or> idx \<ge> int (vlength me) then Inl AssertFailed else cell me idx)"

definition Vector_atPut :: "'e::zero vector \<Rightarrow> int \<Rightarrow> 'e \<Rightarrow> 'e vector res" where
  "Vector_atPut me idx val =
     rbind (if idx \<ge> int (vlength me) then enlarge me idx else Inr me) (\<lambda>me.
       rbind (arr_set (storage me) idx (Some val)) (\<lambda>st.
         let me = me\<lparr>storage := st\<rparr>
         in Inr (if int (lastIdx me) < idx + 1 then me\<lparr>lastIdx := nat (idx + 1)\<rparr> else me)))"

definition Vector_append :: "'e::zero vector \<Rightarrow> 'e \<Rightarrow> 'e vector res" where
  "Vector_append me elem =
     rbind (if lastIdx me \<ge> vlength me then enlarge me (int (lastIdx me)) else Inr me) (\<lambda>me.
       rbind (arr_set (storage me) (int (lastIdx me)) (Some elem)) (\<lambda>st.
         Inr (me\<lparr>storage := st, lastIdx := lastIdx me + 1\<rparr>)))"

definition Vector_isEmpty :: "'e vector \<Rightarrow> bool" where
  "Vector_isEmpty me \<longleftrightarrow> lastIdx me = firstIdx me"

definition Vector_removeFirst :: "'e vector \<Rightarrow> ('e \<times> 'e vector) res" where
  "Vector_removeFirst me =
     (if Vector_isEmpty me then Inl AssertFailed
      else let me = me\<lparr>firstIdx := firstIdx me + 1\<rparr>
           in rbind (cell me (int (firstIdx me) - 1)) (\<lambda>e. Inr (e, me)))"

definition Vector_removeAll :: "'e vector \<Rightarrow> 'e vector" where
  "Vector_removeAll me = me\<lparr>firstIdx := 0, lastIdx := 0\<rparr>"

definition Vector_size :: "'e vector \<Rightarrow> int" where
  "Vector_size me = int (lastIdx me) - int (firstIdx me)"

definition Vector_capacity :: "'e vector \<Rightarrow> int" where
  "Vector_capacity me = int (vlength me)"

definition Vector_copy :: "'e::zero vector \<Rightarrow> 'e vector res" where
  "Vector_copy inp =
     rbind (Vector_create (elemSize inp) (int (vlength inp))) (\<lambda>me.
       Inr (me\<lparr>firstIdx := firstIdx inp, lastIdx := lastIdx inp,
               storage := take (vlength inp) (storage inp)\<rparr>))"

section \<open>Iteration\<close>

text \<open>
  The callback receives the cell and the state that the C code reaches through \<open>data\<close>. No callback
  of the program changes the vector it is called from, so the bounds are read from \<open>me\<close>.
\<close>

function forEach_loop :: "'e vector \<Rightarrow> ('e \<Rightarrow> 's \<Rightarrow> 's res) \<Rightarrow> nat \<Rightarrow> 's \<Rightarrow> 's res" where
  "forEach_loop me iter i s =
     (if i < lastIdx me
      then rbind (cell me (int i)) (\<lambda>e. rbind (iter e s) (\<lambda>s'. forEach_loop me iter (i + 1) s'))
      else Inr s)"
  by pat_completeness auto
termination
  by (relation "measure (\<lambda>(me, iter, i, s). lastIdx me - i)") auto

declare forEach_loop.simps [simp del]

definition Vector_forEach :: "'e vector \<Rightarrow> ('e \<Rightarrow> 's \<Rightarrow> 's res) \<Rightarrow> 's \<Rightarrow> 's res" where
  "Vector_forEach me iter s = forEach_loop me iter (firstIdx me) s"

function hasSome_loop :: "'e vector \<Rightarrow> ('e \<Rightarrow> bool) \<Rightarrow> nat \<Rightarrow> bool res" where
  "hasSome_loop me iter i =
     (if i < lastIdx me
      then rbind (cell me (int i)) (\<lambda>e. if iter e then Inr True else hasSome_loop me iter (i + 1))
      else Inr False)"
  by pat_completeness auto
termination
  by (relation "measure (\<lambda>(me, iter, i). lastIdx me - i)") auto

declare hasSome_loop.simps [simp del]

definition Vector_hasSome :: "'e vector \<Rightarrow> ('e \<Rightarrow> bool) \<Rightarrow> bool res" where
  "Vector_hasSome me iter = hasSome_loop me iter (firstIdx me)"

section \<open>Removal by value\<close>

record 'e Vector_remove_Iterator =
  newArray :: "'e option list"
  newLast :: nat
  found :: bool

definition Vector_remove_iter ::
    "'e \<Rightarrow> 'e \<Rightarrow> 'e Vector_remove_Iterator \<Rightarrow> 'e Vector_remove_Iterator res" where
  "Vector_remove_iter obj value me =
     (if value = obj then Inr (me\<lparr>found := True\<rparr>)
      else rbind (arr_set (newArray me) (int (newLast me)) (Some value)) (\<lambda>a.
             Inr (me\<lparr>newArray := a, newLast := newLast me + 1\<rparr>)))"

definition Vector_remove :: "'e vector \<Rightarrow> 'e \<Rightarrow> (bool \<times> 'e vector) res" where
  "Vector_remove me obj =
     (if vlength me = 0 then Inr (False, me)
      else rbind (Vector_forEach me (Vector_remove_iter obj)
                    \<lparr>newArray = replicate (vlength me) None, newLast = 0, found = False\<rparr>) (\<lambda>it.
             Inr (found it, me\<lparr>storage := newArray it, lastIdx := newLast it, firstIdx := 0\<rparr>)))"

section \<open>Sorting\<close>

text \<open>\<open>swap\<close> is \<open>assert(0)\<close>: it never returns.\<close>

definition Vector_swap :: "'e vector \<Rightarrow> int \<Rightarrow> int \<Rightarrow> unit res" where
  "Vector_swap me i j = Inl AssertFailed"

function sort_down :: "'e vector \<Rightarrow> ('e \<Rightarrow> 'e \<Rightarrow> int) \<Rightarrow> 'e \<Rightarrow> int \<Rightarrow> int \<Rightarrow> int res" where
  "sort_down me c dij k l =
     (if k \<le> l
      then rbind (cell me l) (\<lambda>x. if c dij x \<le> 0 then sort_down me c dij k (l - 1) else Inr l)
      else Inr l)"
  by pat_completeness auto
termination
  by (relation "measure (\<lambda>(me, c, dij, k, l). nat (l + 1 - k))") auto

function sort_up :: "'e vector \<Rightarrow> ('e \<Rightarrow> 'e \<Rightarrow> int) \<Rightarrow> 'e \<Rightarrow> int \<Rightarrow> int \<Rightarrow> int res" where
  "sort_up me c dij k l =
     (if k \<le> l
      then rbind (cell me k) (\<lambda>x. if c x dij \<le> 0 then sort_up me c dij (k + 1) l else Inr k)
      else Inr k)"
  by pat_completeness auto
termination
  by (relation "measure (\<lambda>(me, c, dij, k, l). nat (l + 1 - k))") auto

declare sort_down.simps [simp del] sort_up.simps [simp del]

lemma sort_down_le: "sort_down me c dij k l = Inr l' \<Longrightarrow> l' \<le> l"
proof (induction me c dij k l rule: sort_down.induct)
  case (1 me c dij k l)
  from "1.prems" show ?case
    by (subst (asm) sort_down.simps) (force simp: c_simps split: if_splits dest: "1.IH")
qed

lemma sort_up_ge: "sort_up me c dij k l = Inr k' \<Longrightarrow> k \<le> k'"
proof (induction me c dij k l rule: sort_up.induct)
  case (1 me c dij k l)
  from "1.prems" show ?case
    by (subst (asm) sort_up.simps) (force simp: c_simps split: if_splits dest: "1.IH")
qed

text \<open>The \<open>while (true)\<close> loop of \<open>sort\<close>; its result is the final \<open>k\<close> and \<open>l\<close>.\<close>

function sort_partition ::
    "'e vector \<Rightarrow> ('e \<Rightarrow> 'e \<Rightarrow> int) \<Rightarrow> 'e \<Rightarrow> int \<Rightarrow> int \<Rightarrow> (int \<times> int) res" where
  "sort_partition me c dij k l =
     rbind (sort_down me c dij k l) (\<lambda>l'.
       rbind (sort_up me c dij (k + 1) l') (\<lambda>k'.
         if k' > l' then Inr (k', l')
         else rbind (Vector_swap me k' l') (\<lambda>u. sort_partition me c dij k' l')))"
  by pat_completeness auto
termination
  by (relation "measure (\<lambda>(me, c, dij, k, l). nat (l + 1 - k))")
     (auto simp: Vector_swap_def)

declare sort_partition.simps [simp del]

lemma sort_partition_bounds:
  "sort_partition me c dij k l = Inr (k', l') \<Longrightarrow> k < k' \<and> l' \<le> l"
  by (subst (asm) sort_partition.simps)
     (auto simp: c_simps Vector_swap_def split: if_splits dest: sort_down_le sort_up_ge)

function vsort :: "'e vector \<Rightarrow> ('e \<Rightarrow> 'e \<Rightarrow> int) \<Rightarrow> int \<Rightarrow> int \<Rightarrow> unit res" where
  "vsort me c i j =
     (let n = j + 1 - i in
      if n \<le> 1 then Inr ()
      else
        rbind (cell me i) (\<lambda>di.
        rbind (cell me j) (\<lambda>dj.
        rbind (if c di dj > 0 then rbind (Vector_swap me i j) (\<lambda>u. Inr (dj, di)) else Inr (di, dj))
          (\<lambda>(di, dj).
        if n > 2 then
          rbind (c_int (i + j)) (\<lambda>ipj. let ij = ipj div 2 in
          rbind (cell me ij) (\<lambda>dij.
          rbind (if c di dij \<le> 0
                 then (if c dij dj > 0 then rbind (Vector_swap me j ij) (\<lambda>u. Inr dj) else Inr dij)
                 else rbind (Vector_swap me i ij) (\<lambda>u. Inr di)) (\<lambda>dij.
          if n > 3 then
            rbind (sort_partition me c dij i (j - 1)) (\<lambda>(k, l).
            rbind (vsort me c i l) (\<lambda>u. vsort me c k j))
          else Inr ())))
        else Inr ()))))"
  by pat_completeness auto
termination
  by (relation "measure (\<lambda>(me, c, i, j). nat (j + 1 - i))") (auto dest: sort_partition_bounds)

declare vsort.simps [simp del]

definition Vector_sort :: "'e vector \<Rightarrow> ('e \<Rightarrow> 'e \<Rightarrow> int) \<Rightarrow> 'e vector res" where
  "Vector_sort me c =
     (if Vector_size me > 0
      then rbind (vsort me c (int (firstIdx me)) (int (lastIdx me) - 1)) (\<lambda>u. Inr me)
      else Inr me)"


section \<open>Representation\<close>

text \<open>
  \<open>vinv\<close> is the data-structure invariant; \<open>vrep v xs\<close> says that the live cells of \<open>v\<close> are
  initialised and hold \<open>xs\<close>. \<open>vroom v n\<close> bounds the indices so that \<open>n\<close> more cells can be appended
  without the size computations leaving \<open>int\<close>.
\<close>

definition vinv :: "'e vector \<Rightarrow> bool" where
  "vinv v \<longleftrightarrow> firstIdx v \<le> lastIdx v \<and> lastIdx v \<le> vlength v \<and>
     vlength v = length (storage v) \<and> 0 < elemSize v"

definition vrep :: "'e vector \<Rightarrow> 'e list \<Rightarrow> bool" where
  "vrep v xs \<longleftrightarrow> vinv v \<and>
     take (lastIdx v - firstIdx v) (drop (firstIdx v) (storage v)) = map Some xs"

definition vroom :: "'e vector \<Rightarrow> nat \<Rightarrow> bool" where
  "vroom v n \<longleftrightarrow> int ((2 * (lastIdx v + n) + 50) * elemSize v) \<le> INT_MAX"

lemma vrep_length: "vrep v xs \<Longrightarrow> length xs = lastIdx v - firstIdx v"
  by (auto simp: vrep_def vinv_def dest!: arg_cong [where f = length])

lemma vrep_last: "vrep v xs \<Longrightarrow> lastIdx v = firstIdx v + length xs"
  by (frule vrep_length) (simp add: vrep_def vinv_def)

lemma vrep_nth:
  assumes "vrep v xs" "i < length xs"
  shows "storage v ! (firstIdx v + i) = Some (xs ! i)"
proof -
  have "take (lastIdx v - firstIdx v) (drop (firstIdx v) (storage v)) ! i = map Some xs ! i"
    using assms(1) by (simp add: vrep_def)
  then show ?thesis
    using assms vrep_length [OF assms(1)] by (simp add: vrep_def vinv_def)
qed

lemma vrep_cell:
  assumes "vrep v xs" "i < length xs"
  shows "cell v (int (firstIdx v + i)) = Inr (xs ! i)"
  using assms vrep_nth [OF assms] vrep_last [OF assms(1)]
  by (simp add: cell_def vrep_def vinv_def nat_int_add)

lemma vrepI:
  assumes "vinv v" "lastIdx v = firstIdx v + length xs"
    and "\<And>i. i < length xs \<Longrightarrow> storage v ! (firstIdx v + i) = Some (xs ! i)"
  shows "vrep v xs"
proof -
  have "take (lastIdx v - firstIdx v) (drop (firstIdx v) (storage v)) = map Some xs"
    using assms by (intro nth_equalityI) (auto simp: vinv_def)
  with assms(1) show ?thesis by (simp add: vrep_def)
qed

lemma vroom_mono: "vroom v n \<Longrightarrow> m \<le> n \<Longrightarrow> vroom v m"
proof -
  assume "vroom v n" "m \<le> n"
  moreover from \<open>m \<le> n\<close> have "(2 * (lastIdx v + m) + 50) * elemSize v \<le> (2 * (lastIdx v + n) + 50) * elemSize v"
    by (intro mult_right_mono) auto
  ultimately show ?thesis unfolding vroom_def by linarith
qed

section \<open>Growing preserves the contents\<close>

lemma enlarge_loop_ok:
  "0 \<le> idx \<Longrightarrow> 2 * idx + 50 \<le> INT_MAX \<Longrightarrow>
   \<exists>r. enlarge_loop idx n = Inr r \<and> idx < int r \<and> n \<le> r \<and> (int r \<le> 2 * idx + 50 \<or> r = n)"
proof (induction idx n rule: enlarge_loop.induct)
  case (1 idx n)
  show ?case
  proof (cases "int n \<le> idx")
    case True
    with "1.prems" have c: "c_nat (n * 2) = Inr (n * 2)" "c_nat (n * 2 + 50) = Inr (n * 2 + 50)"
      by (simp_all add: c_nat_def)
    obtain r where r: "enlarge_loop idx (n * 2 + 50) = Inr r" "idx < int r" "n * 2 + 50 \<le> r"
      "int r \<le> 2 * idx + 50 \<or> r = n * 2 + 50"
      using "1.IH" [OF True c(1) c(2)] "1.prems" by blast
    from r(1) True c have "enlarge_loop idx n = Inr r"
      by (subst enlarge_loop.simps) simp
    with r True show ?thesis by auto
  next
    case False
    then have "enlarge_loop idx n = Inr n"
      by (subst enlarge_loop.simps) simp
    with False show ?thesis by auto
  qed
qed

lemma Vector_expand_ok:
  assumes "vinv v" "newLength * int (elemSize v) \<le> INT_MAX"
  shows "\<exists>v'. Vector_expand v newLength = Inr v' \<and> vinv v' \<and> firstIdx v' = firstIdx v \<and>
    lastIdx v' = lastIdx v \<and> elemSize v' = elemSize v \<and>
    int (vlength v') = max newLength (int (vlength v)) \<and>
    storage v' = storage v @ replicate (nat newLength - vlength v) (Some 0)"
proof (cases "newLength \<le> int (vlength v)")
  case True
  with assms(1) show ?thesis by (auto simp: Vector_expand_def)
next
  case False
  with assms have "c_nat (nat newLength * elemSize v) = Inr (nat newLength * elemSize v)"
    by (auto intro!: c_nat_ok)
  with False assms(1) show ?thesis by (auto simp: Vector_expand_def vinv_def)
qed

lemma enlarge_ok:
  assumes "vinv v" "0 \<le> idx" "(2 * idx + 50) * int (elemSize v) \<le> INT_MAX" "int (vlength v) \<le> idx"
  shows "\<exists>v' n. enlarge v idx = Inr v' \<and> vinv v' \<and> firstIdx v' = firstIdx v \<and>
    lastIdx v' = lastIdx v \<and> elemSize v' = elemSize v \<and> idx < int (vlength v') \<and>
    storage v' = storage v @ replicate n (Some 0)"
proof -
  from assms(1) have e: "1 \<le> int (elemSize v)" by (simp add: vinv_def)
  with assms(2) have "(2 * idx + 50) * 1 \<le> (2 * idx + 50) * int (elemSize v)"
    by (intro mult_left_mono) auto
  with assms(3) have "2 * idx + 50 \<le> INT_MAX" by simp
  then obtain r where r: "enlarge_loop idx (vlength v) = Inr r" "idx < int r"
      "int r \<le> 2 * idx + 50 \<or> r = vlength v"
    using enlarge_loop_ok [OF assms(2)] by blast
  then have "int r \<le> 2 * idx + 50" using assms(2,4) by auto
  then have "int r * int (elemSize v) \<le> INT_MAX"
    using assms(3) e by (meson mult_right_mono of_nat_0_le_iff order_trans)
  from Vector_expand_ok [OF assms(1) this] r show ?thesis
    by (auto simp: enlarge_def)
qed

lemma vrep_extend:
  assumes "vrep v xs" "vinv v'" "firstIdx v' = firstIdx v" "lastIdx v' = lastIdx v"
    "storage v' = storage v @ ys"
  shows "vrep v' xs"
  using assms by (simp add: vrep_def vinv_def)

section \<open>The operations on represented vectors\<close>

lemma Vector_expand_vrep:
  assumes "vrep v xs" "newLength * int (elemSize v) \<le> INT_MAX"
  shows "\<exists>v'. Vector_expand v newLength = Inr v' \<and> vrep v' xs \<and> lastIdx v' = lastIdx v \<and>
    elemSize v' = elemSize v \<and> int (vlength v') = max newLength (int (vlength v))"
proof -
  have "vinv v" using assms(1) by (simp add: vrep_def)
  from Vector_expand_ok [OF this assms(2)] show ?thesis
    using vrep_extend [OF assms(1)] by blast
qed

lemma Vector_create_vrep:
  assumes "0 < e" "len * int e \<le> INT_MAX"
  shows "\<exists>v. Vector_create e len = Inr v \<and> vrep v [] \<and> lastIdx v = 0 \<and> elemSize v = e \<and>
    int (vlength v) = max len 0"
proof -
  let ?v = "\<lparr>firstIdx = 0, lastIdx = 0, vlength = 0, elemSize = e, storage = []\<rparr>"
  have "vrep ?v []" using assms(1) by (simp add: vrep_def vinv_def)
  from Vector_expand_vrep [OF this, of len] assms(2) show ?thesis
    by (auto simp: Vector_create_def)
qed

lemma Vector_createDefault_vrep:
  "0 < e \<Longrightarrow> \<exists>v. Vector_createDefault e = Inr v \<and> vrep v [] \<and> lastIdx v = 0 \<and> elemSize v = e"
  using Vector_create_vrep [of e 0] by (auto simp: Vector_createDefault_def INT_MAX_def)

lemma vector_set_last:
  assumes "vrep v xs" "lastIdx v < vlength v"
  shows "vrep (v\<lparr>storage := (storage v)[lastIdx v := Some x], lastIdx := lastIdx v + 1\<rparr>) (xs @ [x])"
proof (rule vrepI)
  show "vinv (v\<lparr>storage := (storage v)[lastIdx v := Some x], lastIdx := lastIdx v + 1\<rparr>)"
    using assms by (auto simp: vrep_def vinv_def)
qed (use assms vrep_last [OF assms(1)] in
  \<open>auto simp: nth_append vrep_nth vrep_def vinv_def nth_list_update\<close>)

lemma Vector_append_vrep:
  assumes "vrep v xs" "vroom v (Suc n)"
  shows "\<exists>v'. Vector_append v x = Inr v' \<and> vrep v' (xs @ [x]) \<and> vroom v' n"
proof -
  have step: "\<exists>v''. rbind (arr_set (storage v') (int (lastIdx v')) (Some x))
        (\<lambda>st. Inr (v'\<lparr>storage := st, lastIdx := lastIdx v' + 1\<rparr>)) = Inr v'' \<and>
      vrep v'' (xs @ [x]) \<and> vroom v'' n"
    if "vrep v' xs" "lastIdx v' < vlength v'" "lastIdx v' = lastIdx v" "elemSize v' = elemSize v" for v'
    using that assms(2) vector_set_last [OF that(1,2), of x]
    by (auto simp: arr_set_ok vrep_def vinv_def vroom_def)
  show ?thesis
  proof (cases "vlength v \<le> lastIdx v")
    case True
    have "(2 * int (lastIdx v) + 50) * int (elemSize v) \<le> INT_MAX"
      using vroom_mono [OF assms(2), of 0] by (simp add: vroom_def algebra_simps)
    with True assms(1) obtain v' n where v': "enlarge v (int (lastIdx v)) = Inr v'" "vinv v'"
        "firstIdx v' = firstIdx v" "lastIdx v' = lastIdx v" "elemSize v' = elemSize v"
        "int (lastIdx v) < int (vlength v')" "storage v' = storage v @ replicate n (Some 0)"
      using enlarge_ok [of v "int (lastIdx v)"] by (auto simp: vrep_def)
    with True step [of v'] vrep_extend [OF assms(1) v'(2,3,4,7)] show ?thesis
      by (simp add: Vector_append_def)
  next
    case False
    with step [OF assms(1)] show ?thesis by (simp add: Vector_append_def)
  qed
qed

lemma Vector_removeAll_vrep: "vrep v xs \<Longrightarrow> vrep (Vector_removeAll v) []"
  by (simp add: vrep_def vinv_def Vector_removeAll_def)

lemma Vector_size_vrep: "vrep v xs \<Longrightarrow> Vector_size v = int (length xs)"
  by (simp add: Vector_size_def vrep_last)

lemma Vector_isEmpty_vrep: "vrep v xs \<Longrightarrow> Vector_isEmpty v \<longleftrightarrow> xs = []"
  by (frule vrep_last) (simp add: Vector_isEmpty_def)

lemma Vector_removeFirst_vrep:
  assumes "vrep v (x # xs)"
  shows "\<exists>v'. Vector_removeFirst v = Inr (x, v') \<and> vrep v' xs \<and> lastIdx v' = lastIdx v \<and>
    elemSize v' = elemSize v"
proof -
  have ne: "\<not> Vector_isEmpty v" using Vector_isEmpty_vrep [OF assms] by simp
  have c: "cell (v\<lparr>firstIdx := Suc (firstIdx v)\<rparr>) (int (firstIdx v)) = Inr x"
    using vrep_cell [OF assms, of 0] by (simp add: cell_def split: if_splits)
  have "vrep (v\<lparr>firstIdx := firstIdx v + 1\<rparr>) xs"
    using assms vrep_last [OF assms] vrep_nth [OF assms, of "Suc _"]
    by (intro vrepI) (auto simp: vrep_def vinv_def)
  with ne c show ?thesis by (auto simp: Vector_removeFirst_def Let_def)
qed

lemma Vector_removeFirst_empty: "vrep v [] \<Longrightarrow> Vector_removeFirst v = Inl AssertFailed"
  by (simp add: Vector_removeFirst_def Vector_isEmpty_vrep)

lemma Vector_at_vrep:
  assumes "vrep v xs" "firstIdx v = 0" "0 \<le> i" "i < int (length xs)"
  shows "Vector_at v i = Inr (xs ! nat i)"
  using assms vrep_cell [OF assms(1), of "nat i"] vrep_last [OF assms(1)]
  by (auto simp: Vector_at_def vrep_def vinv_def)

lemma forEach_loop_rfold:
  assumes "vrep v xs"
  shows "k \<le> length xs \<Longrightarrow> forEach_loop v f (firstIdx v + k) s = rfold f (drop k xs) s"
proof (induction "length xs - k" arbitrary: k s)
  case 0
  then show ?case using vrep_last [OF assms] by (subst forEach_loop.simps) simp
next
  case (Suc n)
  then have k: "k < length xs" by simp
  have IH: "forEach_loop v f (firstIdx v + Suc k) s' = rfold f (drop (Suc k) xs) s'" for s'
    using Suc.hyps(2) k by (intro Suc.hyps(1)) auto
  have "cell v (int (firstIdx v + k)) = Inr (xs ! k)" by (rule vrep_cell [OF assms k])
  then have "forEach_loop v f (firstIdx v + k) s =
      rbind (f (xs ! k) s) (\<lambda>s'. forEach_loop v f (firstIdx v + Suc k) s')"
    using k vrep_last [OF assms] by (subst forEach_loop.simps) simp
  also have "\<dots> = rfold f (xs ! k # drop (Suc k) xs) s"
    by (simp only: IH rfold.simps)
  finally show ?case using k by (simp only: Cons_nth_drop_Suc)
qed

lemma Vector_forEach_vrep: "vrep v xs \<Longrightarrow> Vector_forEach v f s = rfold f xs s"
  using forEach_loop_rfold [of v xs 0 f s] by (simp add: Vector_forEach_def)

lemma hasSome_loop_list_ex:
  assumes "vrep v xs"
  shows "k \<le> length xs \<Longrightarrow> hasSome_loop v p (firstIdx v + k) = Inr (list_ex p (drop k xs))"
proof (induction "length xs - k" arbitrary: k)
  case 0
  then show ?case using vrep_last [OF assms] by (subst hasSome_loop.simps) simp
next
  case (Suc n)
  then have k: "k < length xs" by simp
  have c: "cell v (int (firstIdx v + k)) = Inr (xs ! k)" by (rule vrep_cell [OF assms k])
  have "hasSome_loop v p (firstIdx v + Suc k) = Inr (list_ex p (drop (Suc k) xs))"
    using Suc.hyps(2) k by (intro Suc.hyps(1)) auto
  with c k show ?case
    using vrep_last [OF assms] by (subst hasSome_loop.simps) (simp flip: Cons_nth_drop_Suc)
qed

lemma Vector_hasSome_vrep: "vrep v xs \<Longrightarrow> Vector_hasSome v p = Inr (list_ex p xs)"
  using hasSome_loop_list_ex [of v xs 0 p] by (simp add: Vector_hasSome_def)


lemma vector_set_at:
  assumes "vrep v xs" "i < length xs"
  shows "vrep (v\<lparr>storage := (storage v)[firstIdx v + i := Some x]\<rparr>) (xs[i := x])"
  using assms vrep_last [OF assms(1)]
  by (intro vrepI) (auto simp: vrep_nth vrep_def vinv_def nth_list_update)

lemma Vector_atPut_vrep:
  assumes "vrep v xs" "firstIdx v = 0" "0 \<le> i" "i < int (length xs)"
  shows "\<exists>v'. Vector_atPut v i x = Inr v' \<and> vrep v' (xs[nat i := x]) \<and> firstIdx v' = 0 \<and>
    lastIdx v' = lastIdx v \<and> elemSize v' = elemSize v"
  using assms vector_set_at [OF assms(1), of "nat i" x] vrep_last [OF assms(1)]
  by (auto simp: Vector_atPut_def arr_set_ok vrep_def vinv_def Let_def)

lemma remove_fold:
  assumes "length (filter (\<lambda>x. x \<noteq> obj) xs) + newLast it \<le> length (newArray it)"
  shows "\<exists>it'. rfold (Vector_remove_iter obj) xs it = Inr it' \<and>
    newLast it' = newLast it + length (filter (\<lambda>x. x \<noteq> obj) xs) \<and>
    length (newArray it') = length (newArray it) \<and>
    found it' = (found it \<or> obj \<in> set xs) \<and>
    take (newLast it') (newArray it') =
      take (newLast it) (newArray it) @ map Some (filter (\<lambda>x. x \<noteq> obj) xs)"
  using assms
proof (induction xs arbitrary: it)
  case Nil
  then show ?case by simp
next
  case (Cons x xs)
  show ?case
  proof (cases "x = obj")
    case True
    with Cons.prems Cons.IH [of "it\<lparr>found := True\<rparr>"] show ?thesis
      by (auto simp: Vector_remove_iter_def)
  next
    case False
    let ?it = "it\<lparr>newArray := (newArray it)[newLast it := Some x], newLast := newLast it + 1\<rparr>"
    have "Vector_remove_iter obj x it = Inr ?it"
      using False Cons.prems by (auto simp: Vector_remove_iter_def arr_set_ok)
    moreover have "take (newLast ?it) (newArray ?it) = take (newLast it) (newArray it) @ [Some x]"
      using False Cons.prems by (auto simp: take_Suc_conv_app_nth)
    ultimately show ?thesis
      using False Cons.prems Cons.IH [of ?it] by auto
  qed
qed

lemma Vector_remove_vrep:
  assumes "vrep v xs"
  shows "\<exists>v'. Vector_remove v obj = Inr (obj \<in> set xs, v') \<and>
    vrep v' (filter (\<lambda>x. x \<noteq> obj) xs) \<and> lastIdx v' \<le> lastIdx v \<and> elemSize v' = elemSize v"
proof (cases "vlength v = 0")
  case True
  then have "xs = []" using assms vrep_last [OF assms] by (simp add: vrep_def vinv_def)
  with True assms show ?thesis by (simp add: Vector_remove_def)
next
  case False
  let ?it = "\<lparr>newArray = replicate (vlength v) None, newLast = 0, found = False\<rparr>"
  have "length xs \<le> lastIdx v" using vrep_last [OF assms] by simp
  with length_filter_le [of "\<lambda>x. x \<noteq> obj" xs]
  have le: "length (filter (\<lambda>x. x \<noteq> obj) xs) \<le> lastIdx v" "lastIdx v \<le> vlength v"
    using assms by (linarith, simp add: vrep_def vinv_def)
  then obtain it where it: "rfold (Vector_remove_iter obj) xs ?it = Inr it"
      "newLast it = length (filter (\<lambda>x. x \<noteq> obj) xs)" "length (newArray it) = vlength v"
      "found it \<longleftrightarrow> obj \<in> set xs"
      "take (newLast it) (newArray it) = map Some (filter (\<lambda>x. x \<noteq> obj) xs)"
    using remove_fold [of obj xs ?it] by auto
  moreover have "newLast it \<le> vlength v" "newLast it \<le> lastIdx v"
    using it(2) le by linarith+
  ultimately show ?thesis
    using False assms Vector_forEach_vrep [OF assms, of "Vector_remove_iter obj" ?it]
    by (auto simp: Vector_remove_def vrep_def vinv_def)
qed

lemma Vector_copy_vrep:
  fixes v :: "'e::zero vector"
  assumes "vrep v xs" "int (vlength v * elemSize v) \<le> INT_MAX"
  shows "\<exists>v'. Vector_copy v = Inr v' \<and> vrep v' xs \<and> vlength v' = vlength v"
proof -
  have "0 < elemSize v" using assms(1) by (simp add: vrep_def vinv_def)
  then obtain v0 :: "'e vector" where "Vector_create (elemSize v) (int (vlength v)) = Inr v0"
      "vrep v0 []" "elemSize v0 = elemSize v" "int (vlength v0) = int (vlength v)"
    using Vector_create_vrep [of "elemSize v" "int (vlength v)", where 'a = 'e] assms(2)
    by (auto simp: max_def split: if_splits)
  with assms(1) show ?thesis by (auto simp: Vector_copy_def vrep_def vinv_def)
qed

section \<open>When \<open>sort\<close> returns\<close>

text \<open>\<open>cmp_preorder\<close> is what the callers of \<open>Vector_sort\<close> promise of the comparison.\<close>

definition cmp_preorder :: "('e \<Rightarrow> 'e \<Rightarrow> int) \<Rightarrow> bool" where
  "cmp_preorder c \<longleftrightarrow> (\<forall>a b. c a b \<le> 0 \<or> c b a \<le> 0) \<and>
     (\<forall>a b d. c a b \<le> 0 \<longrightarrow> c b d \<le> 0 \<longrightarrow> c a d \<le> 0)"

definition range_sorted :: "('e \<Rightarrow> 'e \<Rightarrow> int) \<Rightarrow> (int \<Rightarrow> 'e) \<Rightarrow> int \<Rightarrow> int \<Rightarrow> bool" where
  "range_sorted c f i j \<longleftrightarrow> (\<forall>a b. i \<le> a \<longrightarrow> a < b \<longrightarrow> b \<le> j \<longrightarrow> c (f a) (f b) \<le> 0)"

lemma sort_down_char:
  assumes "\<And>m. k \<le> m \<Longrightarrow> m \<le> l \<Longrightarrow> cell v m = Inr (f m)"
  shows "\<exists>l'. sort_down v c d k l = Inr l' \<and> l' \<le> l \<and> (k \<le> l + 1 \<longrightarrow> k - 1 \<le> l') \<and>
    (\<forall>m. l' < m \<longrightarrow> m \<le> l \<longrightarrow> c d (f m) \<le> 0) \<and> (k \<le> l' \<longrightarrow> \<not> c d (f l') \<le> 0)"
  using assms
proof (induction "nat (l + 1 - k)" arbitrary: l)
  case 0
  then show ?case by (subst sort_down.simps) auto
next
  case (Suc n)
  then have kl: "k \<le> l" by linarith
  show ?case
  proof (cases "c d (f l) \<le> 0")
    case True
    obtain l' where l': "sort_down v c d k (l - 1) = Inr l'" "l' \<le> l - 1" "k - 1 \<le> l'"
      "\<forall>m. l' < m \<longrightarrow> m \<le> l - 1 \<longrightarrow> c d (f m) \<le> 0" "k \<le> l' \<longrightarrow> \<not> c d (f l') \<le> 0"
      using Suc.hyps(1) [of "l - 1"] Suc.hyps(2) Suc.prems kl by fastforce
    have "c d (f m) \<le> 0" if "l' < m" "m \<le> l" for m
      using that l'(4) True by (cases "m = l") auto
    with l' True kl Suc.prems [of l] show ?thesis by (subst sort_down.simps) auto
  next
    case False
    with kl Suc.prems [of l] show ?thesis by (subst sort_down.simps) auto
  qed
qed

lemma sort_up_char:
  assumes "\<And>m. k \<le> m \<Longrightarrow> m \<le> l \<Longrightarrow> cell v m = Inr (f m)"
  shows "\<exists>k'. sort_up v c d k l = Inr k' \<and> k \<le> k' \<and>
    (\<forall>m. k \<le> m \<longrightarrow> m < k' \<longrightarrow> c (f m) d \<le> 0) \<and> (k' \<le> l \<longrightarrow> \<not> c (f k') d \<le> 0)"
  using assms
proof (induction "nat (l + 1 - k)" arbitrary: k)
  case 0
  then show ?case by (subst sort_up.simps) auto
next
  case (Suc n)
  then have kl: "k \<le> l" by linarith
  show ?case
  proof (cases "c (f k) d \<le> 0")
    case True
    obtain k' where k': "sort_up v c d (k + 1) l = Inr k'" "k + 1 \<le> k'"
      "\<forall>m. k + 1 \<le> m \<longrightarrow> m < k' \<longrightarrow> c (f m) d \<le> 0" "k' \<le> l \<longrightarrow> \<not> c (f k') d \<le> 0"
      using Suc.hyps(1) [of "k + 1"] Suc.hyps(2) Suc.prems kl by fastforce
    have "c (f m) d \<le> 0" if "k \<le> m" "m < k'" for m
      using that k'(3) True by (cases "m = k") auto
    with k' True kl Suc.prems [of k] show ?thesis by (subst sort_up.simps) auto
  next
    case False
    with kl Suc.prems [of k] show ?thesis by (subst sort_up.simps) auto
  qed
qed

text \<open>
  With no swap possible, the partition loop either stops after one round with the two sides
  separated by the pivot, or asserts because it found a pair to exchange.
\<close>

lemma sort_partition_char:
  assumes "\<And>m. i \<le> m \<Longrightarrow> m < j \<Longrightarrow> cell v m = Inr (f m)" and "i < j"
  obtains k l where "i < k" "i - 1 \<le> l" "l < j"
    "\<forall>m. i < m \<longrightarrow> m < k \<longrightarrow> c (f m) d \<le> 0" "\<forall>m. l < m \<longrightarrow> m < j \<longrightarrow> c d (f m) \<le> 0"
    "k \<le> l \<longrightarrow> \<not> c (f k) d \<le> 0 \<and> \<not> c d (f l) \<le> 0"
    "sort_partition v c d i (j - 1) = (if l < k then Inr (k, l) else Inl AssertFailed)"
proof -
  obtain l where l: "sort_down v c d i (j - 1) = Inr l" "l \<le> j - 1" "i - 1 \<le> l"
      "\<forall>m. l < m \<longrightarrow> m \<le> j - 1 \<longrightarrow> c d (f m) \<le> 0" "i \<le> l \<longrightarrow> \<not> c d (f l) \<le> 0"
    using sort_down_char [of i "j - 1" v f c d] assms by fastforce
  obtain k where k: "sort_up v c d (i + 1) l = Inr k" "i + 1 \<le> k"
      "\<forall>m. i + 1 \<le> m \<longrightarrow> m < k \<longrightarrow> c (f m) d \<le> 0" "k \<le> l \<longrightarrow> \<not> c (f k) d \<le> 0"
    using sort_up_char [of "i + 1" l v f c d] assms(1) l(2) by fastforce
  have "sort_partition v c d i (j - 1) = (if l < k then Inr (k, l) else Inl AssertFailed)"
    using l(1) k(1) by (subst sort_partition.simps) (auto simp: Vector_swap_def)
  with l k show ?thesis by (intro that [of k l]) auto
qed


lemma range_sorted_le:
  "range_sorted c f i j \<Longrightarrow> i \<le> a \<Longrightarrow> a < b \<Longrightarrow> b \<le> j \<Longrightarrow> c (f a) (f b) \<le> 0"
  by (simp add: range_sorted_def)

lemma range_sorted_sub: "range_sorted c f i j \<Longrightarrow> i \<le> i' \<Longrightarrow> j' \<le> j \<Longrightarrow> range_sorted c f i' j'"
  by (auto simp: range_sorted_def)

lemma range_sorted_join:
  assumes c: "cmp_preorder c" and "c (f i) d \<le> 0" "c d (f j) \<le> 0"
    and lo: "\<forall>m. i < m \<longrightarrow> m < k \<longrightarrow> c (f m) d \<le> 0" and hi: "\<forall>m. l < m \<longrightarrow> m < j \<longrightarrow> c d (f m) \<le> 0"
    and "range_sorted c f i l" "range_sorted c f k j" "l < k"
  shows "range_sorted c f i j"
  unfolding range_sorted_def
proof (intro allI impI)
  fix a b assume ab: "i \<le> a" "a < b" "b \<le> j"
  consider "b \<le> l" | "k \<le> a" | "a < k" "l < b" by linarith
  then show "c (f a) (f b) \<le> 0"
  proof cases
    case 3
    have "c (f a) d \<le> 0" using 3 ab assms(2) lo by (cases "a = i") auto
    moreover have "c d (f b) \<le> 0" using 3 ab assms(3) hi by (cases "b = j") auto
    ultimately show ?thesis using c by (auto simp: cmp_preorder_def)
  qed (use assms ab in \<open>auto simp: range_sorted_def\<close>)
qed

lemma range_sorted_no_swap:
  assumes "cmp_preorder c" "range_sorted c f i j" "i < k" "k \<le> l" "l < j"
    and "\<not> c (f k) d \<le> 0" "\<not> c d (f l) \<le> 0"
  shows False
proof -
  have "c (f k) (f l) \<le> 0"
  proof (cases "k = l")
    case True
    with assms(1) show ?thesis by (auto simp: cmp_preorder_def)
  qed (use assms in \<open>auto simp: range_sorted_def\<close>)
  moreover have "c (f l) d \<le> 0" using assms(1,7) by (auto simp: cmp_preorder_def)
  ultimately show False using assms(1,6) by (auto simp: cmp_preorder_def)
qed

text \<open>The tail of \<open>sort\<close> for more than three cells, once the pivot \<open>d\<close> is chosen.\<close>

lemma vsort_tail:
  assumes c: "cmp_preorder c" and cells: "\<And>m. i \<le> m \<Longrightarrow> m \<le> j \<Longrightarrow> cell v m = Inr (f m)" and "i < j"
    and id: "c (f i) d \<le> 0" and dj: "c d (f j) \<le> 0"
    and IH: "\<And>i' j'. i \<le> i' \<Longrightarrow> j' \<le> j \<Longrightarrow> j' - i' < j - i \<Longrightarrow>
      vsort v c i' j' = (if range_sorted c f i' j' then Inr () else Inl AssertFailed)"
  shows "rbind (sort_partition v c d i (j - 1)) (\<lambda>(k, l). rbind (vsort v c i l) (\<lambda>u. vsort v c k j)) =
    (if range_sorted c f i j then Inr () else Inl AssertFailed)"
proof -
  obtain k l where kl: "i < k" "l < j"
      "\<forall>m. i < m \<longrightarrow> m < k \<longrightarrow> c (f m) d \<le> 0" "\<forall>m. l < m \<longrightarrow> m < j \<longrightarrow> c d (f m) \<le> 0"
      "k \<le> l \<longrightarrow> \<not> c (f k) d \<le> 0 \<and> \<not> c d (f l) \<le> 0"
      "sort_partition v c d i (j - 1) = (if l < k then Inr (k, l) else Inl AssertFailed)"
    by (rule sort_partition_char [of i j v f c d]) (use cells \<open>i < j\<close> in auto)
  show ?thesis
  proof (cases "l < k")
    case True
    have "range_sorted c f i j \<longleftrightarrow> range_sorted c f i l \<and> range_sorted c f k j"
      using range_sorted_join [OF c id dj kl(3,4) _ _ True] kl(1,2)
      by (auto intro: range_sorted_sub)
    with True kl(1,2,6) IH [of i l] IH [of k j] show ?thesis by simp
  next
    case False
    then have "\<not> range_sorted c f i j"
      using range_sorted_no_swap [OF c, of f i j k l d] kl by auto
    with False kl(6) show ?thesis by simp
  qed
qed

lemma vsort_char:
  assumes c: "cmp_preorder c" and ij: "0 \<le> i" "2 * j \<le> INT_MAX"
    and cells: "\<And>m. i \<le> m \<Longrightarrow> m \<le> j \<Longrightarrow> cell v m = Inr (f m)"
  shows "vsort v c i j = (if range_sorted c f i j then Inr () else Inl AssertFailed)"
  using ij cells
proof (induction "nat (j - i)" arbitrary: i j rule: less_induct)
  case less
  note cell_at = less.prems(3)
  show ?case
  proof (cases "i < j")
    case False
    then have "range_sorted c f i j" by (auto simp: range_sorted_def)
    with False show ?thesis by (subst vsort.simps) simp
  next
    case True
    define m where "m = (i + j) div 2"
    have m: "i \<le> m" "m < j" and mc: "c_int (i + j) = Inr (i + j)"
      using True less.prems(1,2) by (auto simp: m_def c_int_def INT_MAX_def)
    have IH: "vsort v c i' j' = (if range_sorted c f i' j' then Inr () else Inl AssertFailed)"
      if "i \<le> i'" "j' \<le> j" "j' - i' < j - i" for i' j'
      using that less.prems True by (intro less.hyps) auto
    have unfold: "vsort v c i j =
      (if c (f i) (f j) > 0 then Inl AssertFailed
       else if j - i < 2 then Inr ()
       else if c (f i) (f m) > 0 \<or> c (f m) (f j) > 0 then Inl AssertFailed
       else if j - i < 3 then Inr ()
       else rbind (sort_partition v c (f m) i (j - 1)) (\<lambda>(k, l). rbind (vsort v c i l) (\<lambda>u. vsort v c k j)))"
      using True m mc cell_at [of i] cell_at [of j] cell_at [of m]
      by (subst vsort.simps) (auto simp: Vector_swap_def Let_def m_def)
    show ?thesis
    proof (cases "c (f i) (f j) > 0 \<or> (j - i \<ge> 2 \<and> (c (f i) (f m) > 0 \<or> c (f m) (f j) > 0))")
      case bad: True
      moreover have "i \<noteq> m" if "j - i \<ge> 2" using that by (auto simp: m_def)
      ultimately have "\<not> range_sorted c f i j"
        using m True
          range_sorted_le [of c f i j i j] range_sorted_le [of c f i j i m] range_sorted_le [of c f i j m j]
        by linarith
      with bad unfold show ?thesis by auto
    next
      case ok: False
      show ?thesis
      proof (cases "j - i < 3")
        case True
        have m_mid: "m = i + 1" if "j = i + 2" using that by (simp add: m_def)
        have "c (f a) (f b) \<le> 0" if ab: "i \<le> a" "a < b" "b \<le> j" for a b
        proof -
          consider "a = i" "b = j" | "a = i" "b = m" "j = i + 2" | "a = m" "b = j" "j = i + 2"
            using ab True \<open>i < j\<close> m_mid by (smt (verit, ccfv_threshold))
          then show ?thesis using ok by cases auto
        qed
        then have "range_sorted c f i j" by (simp add: range_sorted_def)
        with ok True unfold show ?thesis by auto
      next
        case False
        with ok unfold vsort_tail [OF c cell_at \<open>i < j\<close>, of "f m"] IH show ?thesis by auto
      qed
    qed
  qed
qed

lemma range_sorted_vrep:
  assumes "vrep v xs" and f: "\<And>m. f m = xs ! nat (m - int (firstIdx v))"
  shows "range_sorted c f (int (firstIdx v)) (int (lastIdx v) - 1) \<longleftrightarrow>
    sorted_wrt (\<lambda>a b. c a b \<le> 0) xs"
proof
  assume r: "range_sorted c f (int (firstIdx v)) (int (lastIdx v) - 1)"
  have "c (xs ! a) (xs ! b) \<le> 0" if "a < b" "b < length xs" for a b
    using r [unfolded range_sorted_def, rule_format, of "int (firstIdx v + a)" "int (firstIdx v + b)"]
      that vrep_last [OF assms(1)] by (simp add: f)
  then show "sorted_wrt (\<lambda>a b. c a b \<le> 0) xs" by (simp add: sorted_wrt_iff_nth_less)
next
  assume "sorted_wrt (\<lambda>a b. c a b \<le> 0) xs"
  then show "range_sorted c f (int (firstIdx v)) (int (lastIdx v) - 1)"
    using vrep_last [OF assms(1)] by (auto simp: range_sorted_def f sorted_wrt_iff_nth_less)
qed

lemma Vector_sort_char:
  assumes "cmp_preorder c" "vrep v xs" "2 * int (lastIdx v) \<le> INT_MAX"
  shows "Vector_sort v c =
    (if sorted_wrt (\<lambda>a b. c a b \<le> 0) xs then Inr v else Inl AssertFailed)"
proof (cases "xs = []")
  case True
  with assms(2) show ?thesis by (simp add: Vector_sort_def Vector_size_vrep)
next
  case False
  let ?f = "\<lambda>m. xs ! nat (m - int (firstIdx v))"
  have "cell v m = Inr (?f m)" if "int (firstIdx v) \<le> m" "m \<le> int (lastIdx v) - 1" for m
    using that vrep_cell [OF assms(2), of "nat (m - int (firstIdx v))"] vrep_last [OF assms(2)]
    by (simp add: nat_less_iff)
  then have "vsort v c (int (firstIdx v)) (int (lastIdx v) - 1) =
      (if sorted_wrt (\<lambda>a b. c a b \<le> 0) xs then Inr () else Inl AssertFailed)"
    using vsort_char [OF assms(1), of "int (firstIdx v)" "int (lastIdx v) - 1" v ?f] assms(3)
      range_sorted_vrep [OF assms(2), of ?f c] by simp
  with False assms(2) show ?thesis
    by (simp add: Vector_sort_def Vector_size_vrep)
qed

section \<open>The contract for clients\<close>

interpretation vec: growable_seq vrep vroom Vector_append Vector_removeAll Vector_size Vector_hasSome
  by unfold_locales
     (auto simp: Vector_append_vrep Vector_removeAll_vrep Vector_size_vrep Vector_hasSome_vrep
       intro: vroom_mono)

section \<open>Properties\<close>

lemma Vector_append_firstIdx: "Vector_append v x = Inr v' \<Longrightarrow> firstIdx v' = firstIdx v"
  by (auto simp: Vector_append_def enlarge_def Vector_expand_def c_simps split: if_splits)

lemma Vector_appends_firstIdx:
  "rfold (\<lambda>y v. Vector_append v y) ys v = Inr v' \<Longrightarrow> firstIdx v' = firstIdx v"
proof (induction ys arbitrary: v)
  case (Cons y ys)
  then obtain v1 where "Vector_append v y = Inr v1" "rfold (\<lambda>y v. Vector_append v y) ys v1 = Inr v'"
    by (auto simp: c_simps)
  with Cons.IH [of v1] Vector_append_firstIdx [of v y v1] show ?case by simp
qed simp

text \<open>\<open>n\<close> calls of \<open>Vector_removeFirst\<close>, collecting what they return.\<close>

fun Vector_drain :: "nat \<Rightarrow> 'e vector \<Rightarrow> ('e list \<times> 'e vector) res" where
  "Vector_drain 0 v = Inr ([], v)"
| "Vector_drain (Suc n) v =
     rbind (Vector_removeFirst v) (\<lambda>(x, v). rbind (Vector_drain n v) (\<lambda>(xs, v). Inr (x # xs, v)))"

lemma Vector_drain_vrep: "vrep v xs \<Longrightarrow> \<exists>v'. Vector_drain (length xs) v = Inr (xs, v') \<and> vrep v' []"
proof (induction xs arbitrary: v)
  case (Cons x xs)
  from Vector_removeFirst_vrep [OF Cons.prems] obtain v1 where
    "Vector_removeFirst v = Inr (x, v1)" "vrep v1 xs" by blast
  with Cons.IH [of v1] show ?case by auto
qed simp

text \<open>C30: a vector filled by appends holds exactly the appended values: its size is their number,
  \<open>Vector_at\<close> reads each of them at its index, and removing from the front returns them in order
  until the vector is empty. Growing along the way never faults.\<close>

theorem Vector_fifo:
  fixes ys :: "'e::zero list"
  assumes "0 < e" "int ((2 * length ys + 50) * e) \<le> INT_MAX"
  shows "\<exists>v v'. rbind (Vector_createDefault e) (rfold (\<lambda>y v. Vector_append v y) ys) = Inr v \<and>
    Vector_size v = int (length ys) \<and> (\<forall>i<length ys. Vector_at v (int i) = Inr (ys ! i)) \<and>
    Vector_drain (length ys) v = Inr (ys, v') \<and> Vector_isEmpty v'"
proof -
  obtain v0 :: "'e vector" where v0: "Vector_createDefault e = Inr v0" "vrep v0 []" "lastIdx v0 = 0" "elemSize v0 = e"
    using Vector_createDefault_vrep [OF assms(1)] by blast
  then have "vroom v0 (length ys + 0)" using assms(2) by (simp add: vroom_def)
  from vec.append_all [OF v0(2) this] obtain v where
    v: "rfold (\<lambda>y v. Vector_append v y) ys v0 = Inr v" "vrep v ys" by auto
  have first: "firstIdx v = 0"
    using Vector_appends_firstIdx [OF v(1)] v0(2) by (simp add: vrep_def vinv_def v0(3))
  from Vector_drain_vrep [OF v(2)] obtain v' where "Vector_drain (length ys) v = Inr (ys, v')" "vrep v' []"
    by blast
  with v0(1) v first show ?thesis
    by (auto simp: vec.size_ok Vector_at_vrep Vector_isEmpty_vrep)
qed

lemma Vector_fifo_witness:
  "\<exists>v v'. rbind (Vector_createDefault 4) (rfold (\<lambda>y v. Vector_append v y) [7, 8, 9 :: int]) = Inr v \<and>
    Vector_size v = 3 \<and> Vector_drain 3 v = Inr ([7, 8, 9], v') \<and> Vector_isEmpty v'"
  using Vector_fifo [of 4 "[7, 8, 9 :: int]"]
  by (auto simp: INT_MAX_def numeral_3_eq_3 simp del: Vector_drain.simps)



text \<open>C33: \<open>Vector_remove\<close> drops every cell equal to its argument, keeps the others in order, says
  whether there was one, and leaves a vector whose cells start at index 0.\<close>

theorem Vector_remove_filters:
  assumes "vrep v xs"
  shows "\<exists>v'. Vector_remove v x = Inr (x \<in> set xs, v') \<and> vrep v' (filter (\<lambda>y. y \<noteq> x) xs) \<and>
    (0 < vlength v \<longrightarrow> firstIdx v' = 0)"
proof -
  from Vector_remove_vrep [OF assms, of x] obtain v' where
    v': "Vector_remove v x = Inr (x \<in> set xs, v')" "vrep v' (filter (\<lambda>y. y \<noteq> x) xs)" by blast
  moreover have "firstIdx v' = 0" if "0 < vlength v"
    using v'(1) that by (clarsimp simp: Vector_remove_def rbind_eq_Inr)
  ultimately show ?thesis by (intro exI [of _ v'] conjI impI)
qed

lemma Vector_remove_filters_witness:
  "\<exists>v'. Vector_remove \<lparr>firstIdx = 1, lastIdx = 4, vlength = 4, elemSize = 4,
      storage = [Some 9, Some 5, Some 6, Some (5 :: int)]\<rparr> 5 = Inr (True, v') \<and> vrep v' [6] \<and>
    firstIdx v' = 0"
proof -
  have "vrep \<lparr>firstIdx = 1, lastIdx = 4, vlength = 4, elemSize = 4,
      storage = [Some 9, Some 5, Some 6, Some (5 :: int)]\<rparr> [5, 6, 5]"
    by (simp add: vrep_def vinv_def numeral_eq_Suc)
  from Vector_remove_filters [OF this, of 5] show ?thesis by auto
qed

end
