(* ===== verification/SomSet.thy ===== *)
theory SomSet
  imports SomVector
begin

text \<open>
  \<open>som/Set.c\<close>: a set stored as a vector. The membership callback returns the \<open>memcmp\<close> result
  itself, which is nonzero when the cells differ; the lemmas state what \<open>Set_contains\<close> and
  \<open>Set_add\<close> compute with that callback.
\<close>

section \<open>State and operations\<close>

record 'e som_set =
  items :: "'e vector"
  set_elemSize :: nat

definition Set_create :: "nat \<Rightarrow> 'e::zero som_set res" where
  "Set_create eSize =
     rbind (Vector_createDefault eSize) (\<lambda>v. Inr \<lparr>items = v, set_elemSize = eSize\<rparr>)"

definition Set_size :: "'e som_set option \<Rightarrow> int" where
  "Set_size me = (case me of None \<Rightarrow> 0 | Some s \<Rightarrow> Vector_size (items s))"

definition Set_forEach :: "'e som_set \<Rightarrow> ('e \<Rightarrow> 's \<Rightarrow> 's res) \<Rightarrow> 's \<Rightarrow> 's res" where
  "Set_forEach me iter s = Vector_forEach (items me) iter s"

definition Set_hasSome :: "'e som_set \<Rightarrow> ('e \<Rightarrow> bool) \<Rightarrow> bool res" where
  "Set_hasSome me iter = Vector_hasSome (items me) iter"

definition Set_removeAll :: "'e som_set \<Rightarrow> 'e som_set" where
  "Set_removeAll me = me\<lparr>items := Vector_removeAll (items me)\<rparr>"

text \<open>\<open>memcmp(value, obj, elemSize)\<close> converted to \<open>bool\<close>: true exactly when the cells differ.\<close>

definition Set_contains_iter :: "'e \<Rightarrow> 'e \<Rightarrow> bool" where
  "Set_contains_iter obj value \<longleftrightarrow> value \<noteq> obj"

definition Set_contains :: "'e som_set \<Rightarrow> 'e \<Rightarrow> bool res" where
  "Set_contains me obj = Set_hasSome me (Set_contains_iter obj)"

definition Set_add :: "'e \<Rightarrow> 'e::zero som_set \<Rightarrow> 'e som_set res" where
  "Set_add obj me =
     rbind (Set_contains me obj) (\<lambda>b.
       if \<not> b then rbind (Vector_append (items me) obj) (\<lambda>v. Inr (me\<lparr>items := v\<rparr>)) else Inr me)"

section \<open>What the operations compute\<close>

definition srep :: "'e::zero som_set \<Rightarrow> 'e list \<Rightarrow> bool" where
  "srep s xs \<longleftrightarrow> vrep (items s) xs"

lemma Set_create_srep:
  assumes "0 < e"
  shows "\<exists>s :: 'e::zero som_set. Set_create e = Inr s \<and> srep s [] \<and>
    lastIdx (items s) = 0 \<and> elemSize (items s) = e"
proof -
  from Vector_createDefault_vrep [OF assms] obtain v :: "'e vector" where
    "Vector_createDefault e = Inr v" "vrep v []" "lastIdx v = 0" "elemSize v = e" by blast
  then show ?thesis by (simp add: Set_create_def srep_def)
qed

lemma Set_forEach_srep: "srep s xs \<Longrightarrow> Set_forEach s f t = rfold f xs t"
  by (simp add: Set_forEach_def srep_def Vector_forEach_vrep)

lemma Set_size_srep: "srep s xs \<Longrightarrow> Set_size (Some s) = int (length xs)"
  by (simp add: Set_size_def srep_def vec.size_ok)

lemma Set_removeAll_srep: "srep s xs \<Longrightarrow> srep (Set_removeAll s) []"
  by (simp add: Set_removeAll_def srep_def vec.clear_ok)

lemma Set_contains_srep: "srep s xs \<Longrightarrow> Set_contains s x = Inr (\<exists>y\<in>set xs. y \<noteq> x)"
  by (simp add: Set_contains_def Set_hasSome_def Set_contains_iter_def srep_def vec.hasSome_ok
      list_ex_iff)

lemma Set_add_items:
  "Set_add x s =
     rbind (rbind (Vector_hasSome (items s) (Set_contains_iter x))
             (\<lambda>b. if b then Inr (items s) else Vector_append (items s) x))
       (\<lambda>v. Inr (s\<lparr>items := v\<rparr>))"
  by (cases "Vector_hasSome (items s) (Set_contains_iter x)")
     (auto simp: Set_add_def Set_contains_def Set_hasSome_def)

lemma Set_adds_items:
  "rfold Set_add ys s =
     rbind (rfold (\<lambda>y v. rbind (Vector_hasSome v (Set_contains_iter y))
                     (\<lambda>b. if b then Inr v else Vector_append v y)) ys (items s))
       (\<lambda>v. Inr (s\<lparr>items := v\<rparr>))"
proof (induction ys arbitrary: s)
  case (Cons y ys)
  have "rbind (Set_add y s) (rfold Set_add ys) =
    rbind (rbind (rbind (Vector_hasSome (items s) (Set_contains_iter y))
             (\<lambda>b. if b then Inr (items s) else Vector_append (items s) y))
       (\<lambda>v. Inr (s\<lparr>items := v\<rparr>))) (rfold Set_add ys)"
    by (simp only: Set_add_items)
  then show ?case
    by (simp add: Cons.IH rbind_assoc)
qed simp

text \<open>
  A value is added only while every stored value equals it, so the vector keeps the copies of the
  first value and drops every other value.
\<close>

lemma fold_keep_first:
  "(\<forall>z\<in>set xs. z = x) \<Longrightarrow> xs \<noteq> [] \<Longrightarrow>
   fold (\<lambda>y zs. if list_ex (Set_contains_iter y) zs then zs else zs @ [y]) ys xs =
   xs @ filter (\<lambda>y. y = x) ys"
proof (induction ys arbitrary: xs)
  case (Cons y ys)
  have "list_ex (Set_contains_iter y) xs \<longleftrightarrow> y \<noteq> x"
    using Cons.prems by (cases xs) (auto simp: list_ex_iff Set_contains_iter_def)
  with Cons show ?case by auto
qed simp

lemma Set_adds_srep:
  assumes "srep s []" "vroom (items s) (length ys)"
  shows "\<exists>s'. rfold Set_add ys s = Inr s' \<and> srep s' (filter (\<lambda>y. y = hd ys) ys)"
proof -
  let ?c = "\<lambda>y zs. if list_ex (Set_contains_iter y) zs then zs else zs @ [y]"
  have "fold ?c ys [] = filter (\<lambda>y. y = hd ys) ys"
  proof (cases ys)
    case (Cons y ys')
    with fold_keep_first [of "[y]" y ys'] show ?thesis by simp
  qed simp
  with vec.append_unless [of "items s" "[]" ys 0 Set_contains_iter] assms show ?thesis
    by (auto simp: Set_adds_items srep_def)
qed

section \<open>Properties\<close>

text \<open>C34: adding the values \<open>ys\<close> to an empty set stores every copy of the first value and none of
  the others, because \<open>Set_contains\<close> reports whether some stored value differs.\<close>

theorem Set_adds_keep_first:
  fixes ys :: "'e::zero list"
  assumes "0 < e" "int ((2 * length ys + 50) * e) \<le> INT_MAX"
  shows "\<exists>s. rbind (Set_create e) (rfold Set_add ys) = Inr s \<and>
    (\<forall>f t. Set_forEach s f t = rfold f (filter (\<lambda>y. y = hd ys) ys) t) \<and>
    (\<forall>x. Set_contains s x = Inr (\<exists>y\<in>set ys. y = hd ys \<and> y \<noteq> x))"
proof -
  obtain s0 :: "'e som_set" where s0: "Set_create e = Inr s0" "srep s0 []" "lastIdx (items s0) = 0" "elemSize (items s0) = e"
    using Set_create_srep [OF assms(1)] by blast
  then have "vroom (items s0) (length ys)" using assms(2) by (simp add: vroom_def)
  from Set_adds_srep [OF s0(2) this] obtain s where
    s: "rfold Set_add ys s0 = Inr s" "srep s (filter (\<lambda>y. y = hd ys) ys)" by blast
  with s0(1) show ?thesis by (auto simp: Set_forEach_srep Set_contains_srep)
qed

lemma Set_adds_keep_first_witness:
  "\<exists>s. rbind (Set_create 4) (rfold Set_add [1, 2, 1 :: int]) = Inr s \<and>
    Set_forEach s (\<lambda>x xs. Inr (xs @ [x])) [] = Inr [1, 1] \<and> Set_contains s 1 = Inr False"
proof -
  have "int ((2 * length [1, 2, 1 :: int] + 50) * 4) \<le> INT_MAX" by (simp add: INT_MAX_def)
  from Set_adds_keep_first [OF _ this] obtain s where
    s: "rbind (Set_create 4) (rfold Set_add [1, 2, 1 :: int]) = Inr s"
      "\<forall>f t. Set_forEach s f t = rfold f (filter (\<lambda>y. y = hd [1, 2, 1]) [1, 2, 1]) (t :: int list)"
      "\<forall>x. Set_contains s x = Inr (\<exists>y\<in>set [1, 2, 1]. y = hd [1, 2, 1] \<and> y \<noteq> x)" by auto
  then show ?thesis by auto
qed

end
