(* ===== verification/SomDictionary.thy ===== *)
theory SomDictionary
  imports SomVector "HOL-Library.Multiset"
begin

unbundle bit_operations_syntax

text \<open>
  \<open>som/Dictionary.c\<close>: a chained hash table whose length is a power of two. A chain of \<open>Entry\<close>
  nodes is the list of its entries, head first; a null bucket is the empty list. The hash is the
  program's \<open>int\<close>, so masking and shifting act on two's complement as gcc compiles them. The client's
  hash function is a field of the state, as in the code. Freed memory is not modelled: the functions
  that only free (\<open>Entry_dispose\<close>, \<open>Dictionary_dispose\<close>) have no definition.
\<close>

section \<open>State\<close>

record ('k, 'v) entry =
  e_hash :: int
  e_key :: 'k
  e_value :: 'v

record ('k, 'v) dictionary =
  buckets :: "('k, 'v) entry list list"
  dlength :: nat
  sz :: nat
  keyLen :: nat
  valueLen :: nat
  hash_fn :: "'k \<Rightarrow> int"

definition INITIAL_CAPACITY :: nat where
  "INITIAL_CAPACITY = 16"

section \<open>Operations\<close>

definition Entry_create :: "int \<Rightarrow> 'k \<Rightarrow> 'v \<Rightarrow> ('k, 'v) entry" where
  "Entry_create h key val = \<lparr>e_hash = h, e_key = key, e_value = val\<rparr>"

definition Entry_match :: "('k, 'v) entry \<Rightarrow> int \<Rightarrow> 'k \<Rightarrow> bool" where
  "Entry_match e h key \<longleftrightarrow> e_hash e = h \<and> key = e_key e"

definition Dictionary_create :: "nat \<Rightarrow> nat \<Rightarrow> ('k \<Rightarrow> int) option \<Rightarrow> ('k, 'v) dictionary res" where
  "Dictionary_create kLen vLen hash =
     (case hash of
        None \<Rightarrow> Inl AssertFailed
      | Some f \<Rightarrow> Inr \<lparr>buckets = replicate INITIAL_CAPACITY [], dlength = INITIAL_CAPACITY, sz = 0,
                        keyLen = kLen, valueLen = vLen, hash_fn = f\<rparr>)"

definition getBucketIdx :: "('k, 'v) dictionary \<Rightarrow> int \<Rightarrow> int" where
  "getBucketIdx me h = (int (dlength me) - 1) AND h"

definition getBucket :: "('k, 'v) dictionary \<Rightarrow> int \<Rightarrow> ('k, 'v) entry list res" where
  "getBucket me h =
     (let idx = getBucketIdx me h
      in if idx < int (dlength me) then arr_get (buckets me) idx else Inl AssertFailed)"

definition dict_size :: "('k, 'v) dictionary \<Rightarrow> nat" where
  "dict_size me = sz me"

definition dict_isEmpty :: "('k, 'v) dictionary \<Rightarrow> bool" where
  "dict_isEmpty me \<longleftrightarrow> sz me = 0"

definition dict_hash :: "('k, 'v) dictionary \<Rightarrow> 'k \<Rightarrow> int" where
  "dict_hash me key = (let h = hash_fn me key in h XOR drop_bit 16 h)"

text \<open>
  The loop of \<open>splitBucket\<close> moves each entry behind the tail of one of two chains; the chains are
  the pair of accumulators.
\<close>

fun split_loop ::
    "int \<Rightarrow> ('k, 'v) entry list \<Rightarrow> ('k, 'v) entry list \<times> ('k, 'v) entry list \<Rightarrow>
     ('k, 'v) entry list \<times> ('k, 'v) entry list" where
  "split_loop oldLen [] (lo, hi) = (lo, hi)"
| "split_loop oldLen (current # rest) (lo, hi) =
     (if e_hash current AND oldLen = 0
      then split_loop oldLen rest (lo @ [current], hi)
      else split_loop oldLen rest (lo, hi @ [current]))"

text \<open>\<open>assert(idx < me->length); me->buckets[idx] = chain\<close>.\<close>

definition bucket_set ::
    "('k, 'v) dictionary \<Rightarrow> int \<Rightarrow> ('k, 'v) entry list \<Rightarrow> ('k, 'v) dictionary res" where
  "bucket_set me idx chain =
     (if idx < int (dlength me)
      then rbind (arr_set (buckets me) idx chain) (\<lambda>b. Inr (me\<lparr>buckets := b\<rparr>))
      else Inl AssertFailed)"

definition splitBucket ::
    "('k, 'v) dictionary \<Rightarrow> nat \<Rightarrow> nat \<Rightarrow> ('k, 'v) entry list \<Rightarrow> ('k, 'v) dictionary res" where
  "splitBucket me oldLen i head =
     (let (lo, hi) = split_loop (int oldLen) head ([], [])
      in rbind (if lo \<noteq> [] then bucket_set me (int i) lo else Inr me) (\<lambda>me.
           if hi \<noteq> [] then bucket_set me (int i + int oldLen) hi else Inr me))"

definition transfer_one ::
    "('k, 'v) entry list list \<Rightarrow> nat \<Rightarrow> nat \<Rightarrow> ('k, 'v) dictionary \<Rightarrow> ('k, 'v) dictionary res" where
  "transfer_one oldStorage oldLen i me =
     rbind (arr_get oldStorage (int i)) (\<lambda>chain.
       case chain of
         [] \<Rightarrow> Inr me
       | [current] \<Rightarrow> bucket_set me (e_hash current AND (int (dlength me) - 1)) [current]
       | _ \<Rightarrow> splitBucket me oldLen i chain)"

definition transferEntries ::
    "('k, 'v) dictionary \<Rightarrow> ('k, 'v) entry list list \<Rightarrow> nat \<Rightarrow> ('k, 'v) dictionary res" where
  "transferEntries me oldStorage oldLen = rfold (transfer_one oldStorage oldLen) [0..<oldLen] me"

text \<open>The second result is the new \<open>sz\<close>.\<close>

fun insertBucketEntry ::
    "'k \<Rightarrow> 'v \<Rightarrow> int \<Rightarrow> nat \<Rightarrow> ('k, 'v) entry list \<Rightarrow> (('k, 'v) entry list \<times> nat) res" where
  "insertBucketEntry key val h n [] = Inl NullDeref"
| "insertBucketEntry key val h n (current # rest) =
     (if Entry_match current h key then Inr (current\<lparr>e_value := val\<rparr> # rest, n)
      else if rest = []
           then rbind (c_nat (n + 1)) (\<lambda>s. Inr ([current, Entry_create h key val], s))
      else rbind (insertBucketEntry key val h n rest) (\<lambda>(rest', s). Inr (current # rest', s)))"

definition resize :: "('k, 'v) dictionary \<Rightarrow> ('k, 'v) dictionary res" where
  "resize me =
     (let oldStorage = buckets me; oldLen = dlength me
      in rbind (c_nat (oldLen * 2)) (\<lambda>newLen.
           transferEntries (me\<lparr>dlength := newLen, buckets := replicate newLen []\<rparr>)
             oldStorage oldLen))"

definition Dictionary_removeAll :: "('k, 'v) dictionary \<Rightarrow> ('k, 'v) dictionary res" where
  "Dictionary_removeAll me =
     rbind (rfold (\<lambda>i b. arr_set b (int i) []) [0..<dlength me] (buckets me)) (\<lambda>b.
       Inr (me\<lparr>buckets := b, sz := 0\<rparr>))"

fun chain_at :: "int \<Rightarrow> 'k \<Rightarrow> ('k, 'v) entry list \<Rightarrow> 'v option" where
  "chain_at h key [] = None"
| "chain_at h key (e # rest) = (if Entry_match e h key then Some (e_value e) else chain_at h key rest)"

definition Dictionary_at :: "'k \<Rightarrow> ('k, 'v) dictionary \<Rightarrow> 'v option res" where
  "Dictionary_at key me =
     (let h = dict_hash me key in rbind (getBucket me h) (\<lambda>e. Inr (chain_at h key e)))"

fun chain_contains :: "int \<Rightarrow> 'k \<Rightarrow> ('k, 'v) entry list \<Rightarrow> bool" where
  "chain_contains h key [] = False"
| "chain_contains h key (e # rest) = (if Entry_match e h key then True else chain_contains h key rest)"

definition Dictionary_containsKey :: "'k \<Rightarrow> ('k, 'v) dictionary \<Rightarrow> bool res" where
  "Dictionary_containsKey key me =
     (let h = dict_hash me key in rbind (getBucket me h) (\<lambda>e. Inr (chain_contains h key e)))"

definition Dictionary_atPut :: "'k \<Rightarrow> 'v \<Rightarrow> ('k, 'v) dictionary \<Rightarrow> ('k, 'v) dictionary res" where
  "Dictionary_atPut key val me =
     (let h = dict_hash me key; i = getBucketIdx me h in
      if \<not> i < int (dlength me) then Inl AssertFailed
      else
        rbind (arr_get (buckets me) i) (\<lambda>current.
        rbind (if current = []
               then rbind (c_nat (sz me + 1)) (\<lambda>s. Inr ([Entry_create h key val], s))
               else insertBucketEntry key val h (sz me) current) (\<lambda>(chain, s).
        rbind (arr_set (buckets me) i chain) (\<lambda>b.
          let me = me\<lparr>buckets := b, sz := s\<rparr>
          in if sz me > dlength me then resize me else Inr me))))"

definition Dictionary_collect ::
    "(('k, 'v) entry \<Rightarrow> 'e) \<Rightarrow> ('k, 'v) dictionary \<Rightarrow> 'e::zero vector \<Rightarrow> 'e vector res" where
  "Dictionary_collect f me out =
     rbind (Vector_expand (Vector_removeAll out) (int (sz me))) (\<lambda>out.
       rfold (\<lambda>i out. rbind (arr_get (buckets me) (int i)) (\<lambda>chain.
                rfold (\<lambda>e out. Vector_append out (f e)) chain out)) [0..<dlength me] out)"

definition Dictionary_getKeys :: "('k::zero, 'v) dictionary \<Rightarrow> 'k vector \<Rightarrow> 'k vector res" where
  "Dictionary_getKeys me keys = Dictionary_collect e_key me keys"

definition Dictionary_getValues :: "('k, 'v::zero) dictionary \<Rightarrow> 'v vector \<Rightarrow> 'v vector res" where
  "Dictionary_getValues me vals = Dictionary_collect e_value me vals"

section \<open>Masking and splitting\<close>

lemma and_pow2_mask: "(2 ^ n - 1) AND h = h mod (2 ^ n :: int)"
  by (simp add: and.commute [of _ h] flip: mask_eq_exp_minus_1 take_bit_eq_mask take_bit_eq_mod)

lemma and_pow2_zero: "h AND (2 ^ n :: int) = 0 \<longleftrightarrow> \<not> bit h n"
  by (rule and_exp_eq_0_iff_not_bit)

lemma mod_double: "(h :: int) mod (2 * 2 ^ n) = h mod 2 ^ n + (if bit h n then 2 ^ n else 0)"
  using take_bit_Suc_from_most [of n h]
  by (simp add: take_bit_eq_mod of_bool_def algebra_simps split: if_splits)

lemma split_loop_filter:
  "split_loop m es (lo, hi) =
    (lo @ filter (\<lambda>e. e_hash e AND m = 0) es, hi @ filter (\<lambda>e. e_hash e AND m \<noteq> 0) es)"
  by (induction es arbitrary: lo hi) auto

section \<open>Well-formed tables\<close>

text \<open>
  Every entry is in the bucket its hash selects and carries the hash of its key; no key is stored
  twice; \<open>sz\<close> counts the entries. \<open>placed\<close> is the part of this that \<open>resize\<close> starts from.
\<close>

definition entries :: "('k, 'v) entry list list \<Rightarrow> ('k, 'v) entry list" where
  "entries b = concat b"

definition placed :: "('k \<Rightarrow> int) \<Rightarrow> nat \<Rightarrow> ('k, 'v) entry list list \<Rightarrow> bool" where
  "placed f len b \<longleftrightarrow> length b = len \<and>
     (\<forall>i<len. \<forall>e\<in>set (b ! i). e_hash e = f (e_key e) XOR drop_bit 16 (f (e_key e)) \<and>
        int i = e_hash e mod int len)"

definition dinv :: "('k, 'v) dictionary \<Rightarrow> bool" where
  "dinv d \<longleftrightarrow> (\<exists>n. dlength d = 2 ^ n \<and> n \<le> 30) \<and>
     placed (hash_fn d) (dlength d) (buckets d) \<and>
     distinct (map e_key (entries (buckets d))) \<and>
     sz d = length (entries (buckets d)) \<and> sz d \<le> dlength d"

definition dabs :: "('k, 'v) dictionary \<Rightarrow> 'k \<Rightarrow> 'v option" where
  "dabs d = map_of (map (\<lambda>e. (e_key e, e_value e)) (entries (buckets d)))"

text \<open>The table doubles up to 2^30 buckets; one more doubling would overflow \<open>int\<close>.\<close>

definition droom :: "('k, 'v) dictionary \<Rightarrow> nat \<Rightarrow> bool" where
  "droom d n \<longleftrightarrow> sz d + n \<le> 2 ^ 30"

lemma placedI:
  assumes "length b = len"
    and "\<And>i e. i < len \<Longrightarrow> e \<in> set (b ! i) \<Longrightarrow>
      e_hash e = f (e_key e) XOR drop_bit 16 (f (e_key e)) \<and> int i = e_hash e mod int len"
  shows "placed f len b"
  using assms by (simp add: placed_def)

lemma set_entries: "set (entries b) = (\<Union>i<length b. set (b ! i))"
  unfolding entries_def set_concat by (auto simp: set_conv_nth) 

lemma mset_entries: "mset (entries b) = (\<Sum>i<length b. mset (b ! i))"
  by (simp add: entries_def mset_concat sum_list_sum_nth atLeast0LessThan)

lemma mset_entries_update:
  "i < length b \<Longrightarrow> mset (entries (b[i := c])) + mset (b ! i) = mset (entries b) + mset c"
  unfolding mset_entries
  by (auto simp: sum.remove [of "{..<length b}" i] nth_list_update intro!: sum.cong)

section \<open>Doubling\<close>

lemma transferEntries_prefix:
  assumes n: "oldLen = 2 ^ n" and old: "length old = oldLen" "placed f oldLen old"
    and d: "dlength d = 2 * oldLen" "buckets d = replicate (2 * oldLen) []" and m: "m \<le> oldLen"
  shows "\<exists>b. rfold (transfer_one old oldLen) [0..<m] d = Inr (d\<lparr>buckets := b\<rparr>) \<and>
    length b = 2 * oldLen \<and>
    (\<forall>i<oldLen. b ! i = (if i < m then filter (\<lambda>e. \<not> bit (e_hash e) n) (old ! i) else []) \<and>
       b ! (i + oldLen) = (if i < m then filter (\<lambda>e. bit (e_hash e) n) (old ! i) else []))"
  using m
proof (induction m)
  case 0
  show ?case using d by (intro exI [of _ "buckets d"]) auto
next
  case (Suc m)
  then obtain b where b: "rfold (transfer_one old oldLen) [0..<m] d = Inr (d\<lparr>buckets := b\<rparr>)"
      "length b = 2 * oldLen"
      "\<forall>i<oldLen. b ! i = (if i < m then filter (\<lambda>e. \<not> bit (e_hash e) n) (old ! i) else []) \<and>
       b ! (i + oldLen) = (if i < m then filter (\<lambda>e. bit (e_hash e) n) (old ! i) else [])"
    by auto
  let ?lo = "filter (\<lambda>e. \<not> bit (e_hash e) n) (old ! m)"
  let ?hi = "filter (\<lambda>e. bit (e_hash e) n) (old ! m)"
  let ?b = "b[m := ?lo, m + oldLen := ?hi]"
  have len: "m < oldLen" using Suc.prems by simp
  have bm: "b ! m = []" "b ! (m + oldLen) = []" using b(3) len by auto
  have same: "b[m := []] = b" "b[m + oldLen := []] = b" "b[m := c, m + oldLen := []] = b[m := c]" for c
    using bm list_update_id [of b m] list_update_id [of b "m + oldLen"]
      list_update_id [of "b[m := c]" "m + oldLen"] len by auto
  have hash: "e_hash e mod int oldLen = int m" if "e \<in> set (old ! m)" for e
    using old(2) len that by (simp add: placed_def)
  have "transfer_one old oldLen m (d\<lparr>buckets := b\<rparr>) = Inr (d\<lparr>buckets := ?b\<rparr>)"
  proof (cases "old ! m" rule: remdups_adj.cases)
    case 1
    then show ?thesis using bm b(2) len old(1) d(1)
      by (simp add: transfer_one_def arr_get_ok same)
  next
    case (2 e)
    have "e_hash e AND (int (2 * oldLen) - 1) = e_hash e mod (2 * 2 ^ n)"
      using and_pow2_mask [of "Suc n" "e_hash e"] n by (simp add: and.commute)
    also have "\<dots> = int m + (if bit (e_hash e) n then int oldLen else 0)"
      using mod_double [of "e_hash e" n] hash [of e] 2 n by simp
    finally show ?thesis using 2 bm b(2) len old(1) d(1)
      by (auto simp: transfer_one_def arr_get_ok bucket_set_def arr_set_ok nat_add_distrib
          same list_update_swap)
  next
    case (3 e e' es)
    have "h AND int oldLen = 0 \<longleftrightarrow> \<not> bit h n" for h
      using and_pow2_zero [of h n] n by simp
    then show ?thesis using 3 bm b(2) len old(1) d(1)
      by (auto simp: transfer_one_def arr_get_ok splitBucket_def split_loop_filter bucket_set_def
          arr_set_ok nat_add_distrib nat_int_add same
          simp flip: list_update_swap [of m "m + oldLen"])
  qed
  moreover have "length ?b = 2 * oldLen" using b(2) by simp
  moreover have "\<forall>i<oldLen. ?b ! i = (if i < Suc m then filter (\<lambda>e. \<not> bit (e_hash e) n) (old ! i) else []) \<and>
       ?b ! (i + oldLen) = (if i < Suc m then filter (\<lambda>e. bit (e_hash e) n) (old ! i) else [])"
    using b(2,3) len by (auto simp: nth_list_update less_Suc_eq)
  ultimately show ?case using b(1)
    by (intro exI [of _ ?b] conjI) (simp_all add: rfold_append)
qed

lemma mset_concat_split:
  "mset (concat (map (\<lambda>i. filter (\<lambda>e. \<not> p e) (g i)) xs)) + mset (concat (map (\<lambda>i. filter p (g i)) xs)) =
   mset (concat (map g xs))"
proof -
  have "mset (filter (\<lambda>e. \<not> p e) ys) + mset (filter p ys) = mset ys" for ys
    by (induction ys) auto
  then show ?thesis
    by (induction xs) (auto simp: union_assoc union_lcomm)
qed

lemma resize_ok:
  assumes n: "dlength d = 2 ^ n" "n < 30" and p: "placed f (dlength d) (buckets d)"
  shows "\<exists>b. resize d = Inr (d\<lparr>dlength := 2 * dlength d, buckets := b\<rparr>) \<and>
    placed f (2 * dlength d) b \<and> mset (entries b) = mset (entries (buckets d))"
proof -
  let ?L = "dlength d" and ?old = "buckets d"
  let ?lo = "\<lambda>i. filter (\<lambda>e. \<not> bit (e_hash e) n) (?old ! i)"
  let ?hi = "\<lambda>i. filter (\<lambda>e. bit (e_hash e) n) (?old ! i)"
  have "(2 :: nat) ^ n \<le> 2 ^ 29" using n(2) by (intro power_increasing) auto
  then have "?L \<le> 536870912" unfolding n(1) by simp
  then have len: "c_nat (?L * 2) = Inr (2 * ?L)"
    unfolding c_nat_def INT_MAX_def by simp
  have old: "length ?old = ?L" using p by (simp add: placed_def)
  from transferEntries_prefix [OF n(1) old p, of "d\<lparr>dlength := 2 * ?L, buckets := replicate (2 * ?L) []\<rparr>" ?L]
  obtain b where b: "resize d = Inr (d\<lparr>dlength := 2 * ?L, buckets := b\<rparr>)" "length b = 2 * ?L"
      "\<forall>i<?L. b ! i = ?lo i \<and> b ! (i + ?L) = ?hi i"
    using len by (auto simp: resize_def transferEntries_def Let_def)
  have hi: "b ! i = ?hi (i - ?L)" if "?L \<le> i" "i < 2 * ?L" for i
    using conjunct2 [OF b(3) [rule_format, of "i - ?L"]] that by (simp add: less_diff_conv2)
  have b_eq: "b = map ?lo [0..<?L] @ map ?hi [0..<?L]"
  proof (rule nth_equalityI)
    fix i assume "i < length b"
    then show "b ! i = (map ?lo [0..<?L] @ map ?hi [0..<?L]) ! i"
      using b(2,3) hi by (auto simp: nth_append not_less)
  qed (simp add: b(2))
  have "mset (entries b) = mset (concat (map ((!) ?old) [0..<?L]))"
    unfolding b_eq entries_def by (simp add: mset_concat_split)
  then have m: "mset (entries b) = mset (entries ?old)"
    by (simp add: entries_def map_nth flip: old)
  have "placed f (2 * ?L) b"
  proof (rule placedI [OF b(2)])
    fix i e assume i: "i < 2 * ?L" "e \<in> set (b ! i)"
    have old_e: "e_hash e = f (e_key e) XOR drop_bit 16 (f (e_key e)) \<and> int j = e_hash e mod 2 ^ n"
      if "j < ?L" "e \<in> set (?old ! j)" for j
      using p that n(1) by (auto simp: placed_def)
    have "int i = e_hash e mod (2 * 2 ^ n) \<and> (\<exists>j<?L. e \<in> set (?old ! j))"
    proof (cases "i < ?L")
      case True
      with b(3) i(2) have "e \<in> set (?old ! i)" "\<not> bit (e_hash e) n" by auto
      with old_e [OF True] True show ?thesis by (auto simp: mod_double)
    next
      case False
      then have "i - ?L < ?L" using i(1) by simp
      moreover from hi [of i] False i have "e \<in> set (?old ! (i - ?L))" "bit (e_hash e) n"
        by auto
      ultimately show ?thesis using old_e [of "i - ?L"] n(1) False
        by (auto simp: mod_double of_nat_diff)
    qed
    with old_e n(1) show "e_hash e = f (e_key e) XOR drop_bit 16 (f (e_key e)) \<and>
        int i = e_hash e mod int (2 * ?L)"
      by auto
  qed
  with b(1) m show ?thesis by blast
qed

section \<open>Lookup\<close>

abbreviation assocs :: "('k, 'v) entry list \<Rightarrow> ('k \<times> 'v) list" where
  "assocs es \<equiv> map (\<lambda>e. (e_key e, e_value e)) es"

lemma map_of_entries_bucket:
  assumes "i < length b" and "\<And>j. j < length b \<Longrightarrow> j \<noteq> i \<Longrightarrow> k \<notin> e_key ` set (b ! j)"
  shows "map_of (assocs (entries b)) k = map_of (assocs (b ! i)) k"
proof -
  have no: "map_of (assocs (concat cs)) k = None" if "\<And>c. c \<in> set cs \<Longrightarrow> k \<notin> e_key ` set c" for cs
    using that by (force simp: map_of_eq_None_iff)
  have "entries b = concat (take i b) @ b ! i @ concat (drop (Suc i) b)"
    unfolding entries_def using id_take_nth_drop [OF assms(1)] by (metis concat.simps(2) concat_append)
  moreover have "map_of (assocs (concat (take i b))) k = None"
  proof (rule no)
    fix c assume "c \<in> set (take i b)"
    then obtain m where "m < i" "c = b ! m" by (auto simp: in_set_conv_nth)
    with assms show "k \<notin> e_key ` set c" by simp
  qed
  moreover have "map_of (assocs (concat (drop (Suc i) b))) k = None"
  proof (rule no)
    fix c assume "c \<in> set (drop (Suc i) b)"
    then obtain m where m: "m < length b - Suc i" "c = b ! (Suc i + m)"
      by (auto simp: in_set_conv_nth)
    with assms(2) [of "Suc i + m"] show "k \<notin> e_key ` set c" by simp
  qed
  ultimately show ?thesis by (auto simp: map_add_def split: option.splits)
qed

definition bucket_of :: "('k, 'v) dictionary \<Rightarrow> 'k \<Rightarrow> nat" where
  "bucket_of d k = nat (dict_hash d k mod int (dlength d))"

lemma dinv_length: "dinv d \<Longrightarrow> length (buckets d) = dlength d \<and> 0 < dlength d"
  by (auto simp: dinv_def placed_def)

lemma dinv_bucket_idx:
  assumes "dinv d"
  shows "getBucketIdx d (dict_hash d k) = int (bucket_of d k)" "bucket_of d k < dlength d"
proof -
  obtain n where n: "dlength d = 2 ^ n" using assms by (auto simp: dinv_def)
  then show "getBucketIdx d (dict_hash d k) = int (bucket_of d k)"
    using and_pow2_mask [of n "dict_hash d k"] by (simp add: getBucketIdx_def bucket_of_def)
  show "bucket_of d k < dlength d"
    using n by (simp add: bucket_of_def nat_less_iff)
qed

lemma dinv_entry:
  assumes "dinv d" "i < dlength d" "e \<in> set (buckets d ! i)"
  shows "e_hash e = dict_hash d (e_key e)" "i = bucket_of d (e_key e)"
proof -
  have *: "e_hash e = dict_hash d (e_key e) \<and> int i = e_hash e mod int (dlength d)"
    using assms by (auto simp: dinv_def placed_def dict_hash_def Let_def)
  then show "e_hash e = dict_hash d (e_key e)" "i = bucket_of d (e_key e)"
    by (auto simp: bucket_of_def)
qed

lemma dinv_match:
  "dinv d \<Longrightarrow> e \<in> set (buckets d ! bucket_of d k) \<Longrightarrow>
   Entry_match e (dict_hash d k) k \<longleftrightarrow> e_key e = k"
  using dinv_entry [of d "bucket_of d k" e] dinv_bucket_idx(2) [of d k]
  by (auto simp: Entry_match_def)

lemma getBucket_ok: "dinv d \<Longrightarrow> getBucket d (dict_hash d k) = Inr (buckets d ! bucket_of d k)"
  using dinv_bucket_idx [of d k] dinv_length [of d]
  by (simp add: getBucket_def arr_get_ok)

lemma chain_at_map_of:
  "(\<And>e. e \<in> set c \<Longrightarrow> Entry_match e h k \<longleftrightarrow> e_key e = k) \<Longrightarrow> chain_at h k c = map_of (assocs c) k"
  by (induction c) auto

lemma chain_contains_iff:
  "(\<And>e. e \<in> set c \<Longrightarrow> Entry_match e h k \<longleftrightarrow> e_key e = k) \<Longrightarrow>
   chain_contains h k c \<longleftrightarrow> map_of (assocs c) k \<noteq> None"
  by (induction c) auto

lemma dabs_bucket: "dinv d \<Longrightarrow> dabs d k = map_of (assocs (buckets d ! bucket_of d k)) k"
  unfolding dabs_def
  using dinv_bucket_idx(2) [of d k] dinv_length [of d] dinv_entry(2) [of d]
  by (intro map_of_entries_bucket) auto

lemma Dictionary_at_ok: "dinv d \<Longrightarrow> Dictionary_at k d = Inr (dabs d k)"
  by (simp add: Dictionary_at_def getBucket_ok dabs_bucket chain_at_map_of dinv_match)

lemma Dictionary_containsKey_ok: "dinv d \<Longrightarrow> Dictionary_containsKey k d = Inr (dabs d k \<noteq> None)"
  by (simp add: Dictionary_containsKey_def getBucket_ok dabs_bucket chain_contains_iff dinv_match)

section \<open>Insertion\<close>

text \<open>What one chain looks like after an insertion.\<close>

definition chain_put ::
    "'k \<Rightarrow> 'v \<Rightarrow> int \<Rightarrow> ('k, 'v) entry list \<Rightarrow> ('k, 'v) entry list \<Rightarrow> bool" where
  "chain_put k v h c c' \<longleftrightarrow>
     map_of (assocs c') = (map_of (assocs c))(k \<mapsto> v) \<and>
     map e_key c' = (if k \<in> e_key ` set c then map e_key c else map e_key c @ [k]) \<and>
     (\<forall>e\<in>set c'. (e_hash e, e_key e) = (h, k) \<or> (e_hash e, e_key e) \<in> (\<lambda>e. (e_hash e, e_key e)) ` set c)"

lemma insertBucketEntry_ok:
  assumes "c \<noteq> []" "\<And>e. e \<in> set c \<Longrightarrow> Entry_match e h k \<longleftrightarrow> e_key e = k" "distinct (map e_key c)"
    and "c_nat (n + 1) = Inr (n + 1)"
  shows "\<exists>c'. insertBucketEntry k v h n c = Inr (c', n + length c' - length c) \<and> chain_put k v h c c'"
  using assms(1-3)
proof (induction c)
  case (Cons e es)
  have match: "Entry_match e h k \<longleftrightarrow> e_key e = k" using Cons.prems(2) by simp
  consider "e_key e = k" | "e_key e \<noteq> k" "es = []" | "e_key e \<noteq> k" "es \<noteq> []" by blast
  then show ?case
  proof cases
    case 1
    have "chain_put k v h (e # es) (e\<lparr>e_value := v\<rparr> # es)"
      using 1 by (auto simp: chain_put_def)
    with 1 match show ?thesis by simp
  next
    case 2
    have "chain_put k v h [e] [e, Entry_create h k v]"
      using 2 by (auto simp: chain_put_def Entry_create_def fun_upd_twist)
    with 2 match assms(4) show ?thesis by simp
  next
    case 3
    with Cons.IH Cons.prems obtain c' where c': "insertBucketEntry k v h n es = Inr (c', n + length c' - length es)"
      "chain_put k v h es c'" by auto
    have "chain_put k v h (e # es) (e # c')"
      using c'(2) 3 by (auto simp: chain_put_def fun_upd_twist)
    with c' 3 match show ?thesis by simp
  qed
qed simp

lemma chain_put_new: "chain_put k v h [] [Entry_create h k v]"
  by (simp add: chain_put_def Entry_create_def)

lemma chain_put_length:
  "chain_put k v h c c' \<Longrightarrow> length c' = length c + (if k \<in> e_key ` set c then 0 else 1)"
  by (auto simp: chain_put_def dest!: arg_cong [where f = length] split: if_splits)

text \<open>Putting the changed chain back keeps the table well formed, its size aside.\<close>

lemma bucket_put:
  fixes d :: "('k, 'v) dictionary"
  assumes d: "dinv d" and c: "chain_put k v (dict_hash d k) (buckets d ! bucket_of d k) c'"
  defines "b \<equiv> (buckets d)[bucket_of d k := c']"
  shows "placed (hash_fn d) (dlength d) b" "distinct (map e_key (entries b))"
    "map_of (assocs (entries b)) = (dabs d)(k \<mapsto> v)"
    "length (entries b) + length (buckets d ! bucket_of d k) = sz d + length c'"
proof -
  let ?i = "bucket_of d k" and ?c = "buckets d ! bucket_of d k"
  note i = dinv_bucket_idx(2) [OF d, of k] and len = dinv_length [OF d]
  have mset: "mset (entries b) + mset ?c = mset (entries (buckets d)) + mset c'"
    unfolding b_def using mset_entries_update [of ?i "buckets d" c'] i len by simp
  have b_at: "e_hash e = dict_hash d (e_key e) \<and> j = bucket_of d (e_key e)"
    if j: "j < dlength d" "e \<in> set (b ! j)" for j e
  proof (cases "j = ?i")
    case True
    with j i len have "e \<in> set c'" by (simp add: b_def)
    with c consider "e_hash e = dict_hash d k" "e_key e = k"
      | e' where "e' \<in> set ?c" "e_hash e = e_hash e'" "e_key e = e_key e'"
      by (fastforce simp: chain_put_def)
    then show ?thesis
    proof cases
      case 2
      with dinv_entry [OF d i 2(1)] True show ?thesis by simp
    qed (use True in simp)
  next
    case False
    with j dinv_entry [OF d j(1)] show ?thesis by (simp add: b_def)
  qed
  have "int (bucket_of d x) = dict_hash d x mod int (dlength d)" for x
    using len by (simp add: bucket_of_def)
  with b_at len show "placed (hash_fn d) (dlength d) b"
    by (intro placedI) (auto simp: b_def dict_hash_def Let_def)
  show "map_of (assocs (entries b)) = (dabs d)(k \<mapsto> v)"
  proof
    fix x
    have x: "map_of (assocs (entries b)) x = map_of (assocs (b ! bucket_of d x)) x"
      using b_at dinv_bucket_idx(2) [OF d, of x] len
      by (intro map_of_entries_bucket) (auto simp: b_def)
    show "map_of (assocs (entries b)) x = ((dabs d)(k \<mapsto> v)) x"
    proof (cases "bucket_of d x = ?i")
      case True
      with x i len have "map_of (assocs (entries b)) x = map_of (assocs c') x" by (simp add: b_def)
      also have "\<dots> = ((map_of (assocs ?c))(k \<mapsto> v)) x" using c by (simp add: chain_put_def)
      finally show ?thesis using dabs_bucket [OF d, of x] True by simp
    next
      case False
      with x dabs_bucket [OF d, of x] show ?thesis by (auto simp: b_def)
    qed
  qed
  have keys: "mset (map e_key (entries b)) + mset (map e_key ?c) =
      mset (map e_key (entries (buckets d))) + mset (map e_key c')"
    using arg_cong [OF mset, of "image_mset e_key"] by simp
  show "distinct (map e_key (entries b))"
  proof (cases "k \<in> e_key ` set ?c")
    case True
    with c keys have "mset (map e_key (entries b)) = mset (map e_key (entries (buckets d)))"
      by (simp add: chain_put_def)
    with d show ?thesis unfolding dinv_def by (metis mset_eq_imp_distinct_iff)
  next
    case False
    with c keys have "mset (map e_key (entries b)) = mset (k # map e_key (entries (buckets d)))"
      by (simp add: chain_put_def)
    moreover have "k \<notin> e_key ` set (entries (buckets d))"
      using False dinv_entry(2) [OF d] len by (auto simp: set_entries)
    then have "distinct (k # map e_key (entries (buckets d)))"
      using d by (simp add: dinv_def)
    ultimately show ?thesis by (metis mset_eq_imp_distinct_iff)
  qed
  have "size (mset (entries b) + mset ?c) = size (mset (entries (buckets d)) + mset c')"
    unfolding mset ..
  with d show "length (entries b) + length ?c = sz d + length c'" by (simp add: dinv_def)
qed

lemma dinv_resize:
  assumes "placed (hash_fn d) (dlength d) (buckets d)" "distinct (map e_key (entries (buckets d)))"
    and "sz d = length (entries (buckets d))" "dlength d = 2 ^ n" "n < 30" "sz d \<le> 2 * dlength d"
  shows "\<exists>d'. resize d = Inr d' \<and> dinv d' \<and> dabs d' = dabs d \<and> sz d' = sz d"
proof -
  from resize_ok [OF assms(4,5,1)] obtain b where
    b: "resize d = Inr (d\<lparr>dlength := 2 * dlength d, buckets := b\<rparr>)"
      "placed (hash_fn d) (2 * dlength d) b" "mset (entries b) = mset (entries (buckets d))" by auto
  have dist: "distinct (map e_key (entries b))"
    using assms(2) b(3) by (metis mset_eq_imp_distinct_iff mset_map)
  have "length (entries b) = length (entries (buckets d))" using b(3) by (metis size_mset)
  moreover have "map_of (assocs (entries b)) = map_of (assocs (entries (buckets d)))"
    using b(3) dist assms(2)
    by (intro map_of_inject_set [THEN iffD2]) (auto simp: comp_def dest: mset_eq_setD)
  ultimately have "dinv (d\<lparr>dlength := 2 * dlength d, buckets := b\<rparr>)"
      "dabs (d\<lparr>dlength := 2 * dlength d, buckets := b\<rparr>) = dabs d"
    using b(2) dist assms(3-6) by (auto simp: dinv_def dabs_def intro!: exI [of _ "Suc n"])
  with b(1) show ?thesis by simp
qed

lemma Dictionary_atPut_ok:
  assumes d: "dinv d" and room: "droom d (Suc m)"
  shows "\<exists>d'. Dictionary_atPut k v d = Inr d' \<and> dinv d' \<and> dabs d' = (dabs d)(k \<mapsto> v) \<and> droom d' m"
proof -
  let ?h = "dict_hash d k" and ?i = "bucket_of d k"
  let ?c = "buckets d ! ?i"
  have sz: "c_nat (sz d + 1) = Inr (sz d + 1)"
    using room by (intro c_nat_ok) (auto simp: droom_def INT_MAX_def)
  have "\<exists>c'. (if ?c = [] then rbind (c_nat (sz d + 1)) (\<lambda>s. Inr ([Entry_create ?h k v], s))
      else insertBucketEntry k v ?h (sz d) ?c) = Inr (c', sz d + length c' - length ?c) \<and>
    chain_put k v ?h ?c c'"
  proof (cases "?c = []")
    case False
    have "distinct (concat (map (map e_key) (buckets d)))"
      using d by (simp add: dinv_def entries_def map_concat)
    moreover have "?c \<in> set (buckets d)"
      using dinv_length [OF d] dinv_bucket_idx(2) [OF d, of k] by (simp add: nth_mem)
    ultimately have "distinct (map e_key ?c)" by (auto simp: distinct_concat_iff)
    with False insertBucketEntry_ok [OF False dinv_match [OF d] _ sz] show ?thesis by simp
  qed (use sz chain_put_new in auto)
  then obtain c' where c': "(if ?c = [] then rbind (c_nat (sz d + 1)) (\<lambda>s. Inr ([Entry_create ?h k v], s))
      else insertBucketEntry k v ?h (sz d) ?c) = Inr (c', sz d + length c' - length ?c)"
    "chain_put k v ?h ?c c'" by blast
  let ?b = "(buckets d)[?i := c']"
  let ?s = "sz d + length c' - length ?c"
  let ?d = "d\<lparr>buckets := ?b, sz := ?s\<rparr>"
  note put = bucket_put [OF d c'(2)]
  have s: "?s = length (entries ?b)" "?s \<le> sz d + 1"
    using put(4) chain_put_length [OF c'(2)] by auto
  have step: "Dictionary_atPut k v d = (if dlength d < ?s then resize ?d else Inr ?d)"
    using c'(1) dinv_bucket_idx [OF d, of k] dinv_length [OF d]
    by (simp add: Dictionary_atPut_def Let_def arr_get_ok arr_set_ok)
  obtain n where n: "dlength d = 2 ^ n" "n \<le> 30" and szd: "sz d \<le> dlength d" "0 < dlength d"
    using d dinv_length [OF d] by (auto simp: dinv_def)
  have abs: "dabs ?d = (dabs d)(k \<mapsto> v)" using put(3) by (simp add: dabs_def)
  show ?thesis
  proof (cases "dlength d < ?s")
    case True
    with s(2) room have "(2 :: nat) ^ n < 2 ^ 30" by (simp add: droom_def n(1))
    then have "n < 30" by (rule power_less_imp_less_exp [rotated]) simp
    with dinv_resize [of ?d n] put(1,2) s n(1) szd obtain d' where
      "resize ?d = Inr d'" "dinv d'" "dabs d' = dabs ?d" "sz d' = ?s" by auto
    with step True abs s(2) room show ?thesis by (auto simp: droom_def)
  next
    case False
    then have "dinv ?d" using put(1,2) s(1) n by (auto simp: dinv_def)
    with step False abs s(2) room show ?thesis by (auto simp: droom_def)
  qed
qed

section \<open>Construction, clearing and enumeration\<close>

lemma Dictionary_create_ok:
  "\<exists>d. Dictionary_create kl vl (Some f) = Inr d \<and> dinv d \<and> dabs d = Map.empty \<and> sz d = 0 \<and>
    hash_fn d = f"
  by (auto simp: Dictionary_create_def dinv_def placed_def entries_def dabs_def INITIAL_CAPACITY_def
      intro!: exI [of _ 4])

lemma clear_buckets:
  "n \<le> length b \<Longrightarrow> rfold (\<lambda>i b. arr_set b (int i) []) [0..<n] b = Inr (replicate n [] @ drop n b)"
proof (induction n)
  case (Suc n)
  then have "drop n b = b ! n # drop (Suc n) b" by (simp add: Cons_nth_drop_Suc)
  with Suc show ?case
    by (simp add: rfold_append arr_set_def list_update_append replicate_append_same)
qed simp

lemma Dictionary_removeAll_ok:
  assumes "dinv d"
  shows "\<exists>d'. Dictionary_removeAll d = Inr d' \<and> dinv d' \<and> dabs d' = Map.empty \<and>
    dlength d' = dlength d"
  using assms dinv_length [OF assms]
  by (auto simp: Dictionary_removeAll_def clear_buckets dinv_def placed_def entries_def dabs_def)

lemma dabs_dom: "dom (dabs d) = e_key ` set (entries (buckets d))"
  by (force simp: dabs_def dom_map_of_conv_image_fst)

lemma dinv_card: "dinv d \<Longrightarrow> sz d = card (dom (dabs d))"
  unfolding dabs_dom by (simp add: dinv_def distinct_card flip: set_map)

lemma rfold_buckets:
  "rfold (\<lambda>i s. rbind (arr_get b (int i)) (\<lambda>c. rfold g c s)) [0..<length b] s = rfold g (concat b) s"
proof -
  have "n \<le> length b \<Longrightarrow>
      rfold (\<lambda>i s. rbind (arr_get b (int i)) (\<lambda>c. rfold g c s)) [0..<n] s = rfold g (concat (take n b)) s" for n
    by (induction n) (auto simp: rfold_append arr_get_ok take_Suc_conv_app_nth cong: rbind_cong)
  from this [of "length b"] show ?thesis by simp
qed

lemma rfold_map: "rfold (\<lambda>e. g (f e)) xs s = rfold g (map f xs) s"
  by (induction xs arbitrary: s) (auto cong: rbind_cong)

lemma Dictionary_collect_ok:
  assumes d: "dinv d" and v: "vrep v xs"
    and room: "int ((2 * sz d + 50) * elemSize v) \<le> INT_MAX"
  shows "\<exists>v'. Dictionary_collect f d v = Inr v' \<and> vrep v' (map f (entries (buckets d)))"
proof -
  let ?v = "Vector_removeAll v"
  have v0: "vrep ?v []" "lastIdx ?v = 0" "elemSize ?v = elemSize v"
    using vec.clear_ok [OF v] by (simp_all add: Vector_removeAll_def)
  have "sz d * elemSize v \<le> (2 * sz d + 50) * elemSize v" by (intro mult_right_mono) auto
  then have "int (sz d) * int (elemSize ?v) \<le> INT_MAX"
    using room v0(3) by (metis of_nat_le_iff of_nat_mult order_trans)
  from Vector_expand_vrep [OF v0(1) this] obtain v1 where v1: "Vector_expand ?v (int (sz d)) = Inr v1"
      "vrep v1 []" "lastIdx v1 = 0" "elemSize v1 = elemSize v"
    using v0(2,3) by auto
  have "vroom v1 (length (map f (entries (buckets d))) + 0)"
    using room v1(3,4) d by (simp add: vroom_def dinv_def)
  from vec.append_all [OF v1(2) this] obtain v2 where
    "rfold (\<lambda>y s. Vector_append s y) (map f (entries (buckets d))) v1 = Inr v2"
    "vrep v2 (map f (entries (buckets d)))" by auto
  with v1(1) dinv_length [OF d] show ?thesis
    using rfold_buckets [of "buckets d" "\<lambda>e out. Vector_append out (f e)"]
      rfold_map [of "\<lambda>y s. Vector_append s y" f]
    by (simp add: Dictionary_collect_def entries_def)
qed

interpretation dict: map_store dinv dabs droom Dictionary_atPut Dictionary_at
  by unfold_locales (auto simp: Dictionary_atPut_ok Dictionary_at_ok)

section \<open>Properties\<close>

text \<open>C1: a dictionary is a map. After any sequence of at most 2^30 insertions into a fresh one,
  whatever the hash function does, looking a key up returns the value last stored under it, or null
  when there is none; no assertion fails and no index or size leaves its range, resizes included.\<close>

theorem Dictionary_is_map:
  fixes kvs :: "('k \<times> 'v) list" and f :: "'k \<Rightarrow> int"
  assumes "length kvs \<le> 2 ^ 30"
  shows "rbind (Dictionary_create kl vl (Some f)) (\<lambda>d.
      rbind (rfold (\<lambda>(k, v). Dictionary_atPut k v) kvs d) (Dictionary_at k)) =
    Inr (map_of (rev kvs) k)"
proof -
  obtain d :: "('k, 'v) dictionary" where
    d: "Dictionary_create kl vl (Some f) = Inr d" "dinv d" "dabs d = Map.empty" "sz d = 0"
    using Dictionary_create_ok by blast
  then have "droom d (length kvs)" using assms by (simp add: droom_def)
  from dict.lookup_after_puts [OF d(2) this, of k] d(1,3) show ?thesis
    by (simp split: option.splits)
qed

lemma Dictionary_is_map_witness:
  "rbind (Dictionary_create 4 8 (Some (\<lambda>k. 7))) (\<lambda>d.
      rbind (rfold (\<lambda>(k, v). Dictionary_atPut k v) [(1 :: int, ''a''), (2, ''b''), (1, ''c'')] d)
        (Dictionary_at 1)) = Inr (Some ''c'')"
  by (subst Dictionary_is_map) simp_all

text \<open>C2: an insertion keeps the table well formed (every entry in the bucket of its hash, no key
  twice, power-of-two length) and its bookkeeping exact: \<open>sz\<close> is the number of keys, and the table
  has grown whenever the entries would have outnumbered the buckets.\<close>

theorem Dictionary_atPut_invariant:
  assumes "dinv d" "sz d < 2 ^ 30"
  shows "\<exists>d'. Dictionary_atPut k v d = Inr d' \<and> dinv d' \<and> sz d' = card (insert k (dom (dabs d))) \<and>
    sz d' \<le> dlength d'"
proof -
  from assms(2) have "droom d (Suc 0)" by (simp add: droom_def)
  from dict.put_ok [OF assms(1) this, of k v] obtain d' where
    d': "Dictionary_atPut k v d = Inr d'" "dinv d'" "dabs d' = (dabs d)(k \<mapsto> v)" by blast
  with dinv_card [OF d'(2)] show ?thesis by (simp add: dinv_def)
qed

lemma Dictionary_atPut_invariant_witness:
  "\<exists>d d'. Dictionary_create 4 4 (Some (\<lambda>k. k)) = Inr d \<and>
    Dictionary_atPut (3 :: int) True d = Inr d' \<and> dinv d' \<and> sz d' = 1"
proof -
  obtain d :: "(int, bool) dictionary" where
    d: "Dictionary_create 4 4 (Some (\<lambda>k. k)) = Inr d" "dinv d" "dabs d = Map.empty" "sz d = 0"
    using Dictionary_create_ok by blast
  with Dictionary_atPut_invariant [OF d(2), of 3 True] show ?thesis by auto
qed

text \<open>C32: \<open>Dictionary_getKeys\<close> and \<open>Dictionary_getValues\<close> fill their vectors in the same order:
  the keys are the stored keys, each once, and pairing the two lists gives the map back. What the
  vectors held before is gone.\<close>

theorem Dictionary_keys_values_aligned:
  fixes d :: "('k::zero, 'v::zero) dictionary"
  assumes "dinv d" "vrep kv xs" "vrep vv ys"
    and "int ((2 * sz d + 50) * elemSize kv) \<le> INT_MAX" "int ((2 * sz d + 50) * elemSize vv) \<le> INT_MAX"
  shows "\<exists>kv' ks vv' vs. Dictionary_getKeys d kv = Inr kv' \<and> vrep kv' ks \<and>
    Dictionary_getValues d vv = Inr vv' \<and> vrep vv' vs \<and>
    distinct ks \<and> set ks = dom (dabs d) \<and> length ks = length vs \<and> map_of (zip ks vs) = dabs d"
proof -
  let ?e = "entries (buckets d)"
  from Dictionary_collect_ok [OF assms(1,2,4), of e_key] obtain kv' where
    k: "Dictionary_getKeys d kv = Inr kv'" "vrep kv' (map e_key ?e)"
    by (auto simp: Dictionary_getKeys_def)
  from Dictionary_collect_ok [OF assms(1,3,5), of e_value] obtain vv' where
    v: "Dictionary_getValues d vv = Inr vv'" "vrep vv' (map e_value ?e)"
    by (auto simp: Dictionary_getValues_def)
  have "zip (map e_key ?e) (map e_value ?e) = assocs ?e" by (simp add: zip_map_map zip_same_conv_map)
  moreover have "distinct (map e_key ?e)" using assms(1) by (simp add: dinv_def)
  moreover have "set (map e_key ?e) = dom (dabs d)" by (simp add: dabs_dom)
  ultimately show ?thesis using k v
    by (intro exI [of _ kv'] exI [of _ "map e_key ?e"] exI [of _ vv'] exI [of _ "map e_value ?e"])
      (simp add: dabs_def)
qed

lemma Dictionary_keys_values_aligned_witness:
  "\<exists>d kv' ks vv' vs. Dictionary_create 4 4 (Some (\<lambda>k :: int. k)) = Inr d \<and>
    Dictionary_getKeys d \<lparr>firstIdx = 0, lastIdx = 0, vlength = 0, elemSize = 4, storage = []\<rparr> = Inr kv' \<and>
    vrep kv' ks \<and>
    Dictionary_getValues d \<lparr>firstIdx = 0, lastIdx = 0, vlength = 0, elemSize = 4, storage = []\<rparr> = Inr vv' \<and>
    vrep vv' (vs :: int list) \<and> map_of (zip ks vs) = Map.empty"
proof -
  obtain d :: "(int, int) dictionary" where
    d: "Dictionary_create 4 4 (Some (\<lambda>k. k)) = Inr d" "dinv d" "dabs d = Map.empty" "sz d = 0"
    using Dictionary_create_ok by blast
  let ?v = "\<lparr>firstIdx = 0, lastIdx = 0, vlength = 0, elemSize = 4, storage = []\<rparr> :: int vector"
  have "vrep ?v []" by (simp add: vrep_def vinv_def)
  from Dictionary_keys_values_aligned [OF d(2) this this] d show ?thesis
    by (fastforce simp: INT_MAX_def)
qed

end
