(* ===== verification/AwfyRun.thy ===== *)
theory AwfyRun
  imports CPrelude
begin

text \<open>
  \<open>Benchmark.c\<close> and \<open>Run.c\<close>: the harness that runs a benchmark, times it and reports. A
  \<open>Benchmark\<close> is its record of function pointers; \<open>'s\<close> is the state the benchmark object and the
  library below it keep. \<open>gettimeofday\<close> is a parameter: \<open>clock t\<close> is the pair of seconds and
  microseconds that its \<open>t\<close>-th call returns. Printed lines are events, newest last.
\<close>

section \<open>The inner loop\<close>

record 's benchmark =
  bm_benchmark :: "'s \<Rightarrow> (int \<times> 's) res"
  bm_verifyResult :: "'s \<Rightarrow> int \<Rightarrow> bool"
  bm_innerBenchmarkLoop :: "(int \<Rightarrow> 's \<Rightarrow> (bool \<times> 's) res) option"

fun inner_loop :: "'s benchmark \<Rightarrow> nat \<Rightarrow> 's \<Rightarrow> (bool \<times> 's) res" where
  "inner_loop me 0 s = Inr (True, s)"
| "inner_loop me (Suc i) s =
     rbind (bm_benchmark me s) (\<lambda>(result, s).
       if \<not> bm_verifyResult me s result then Inr (False, s) else inner_loop me i s)"

definition Benchmark_innerBenchmarkLoop :: "'s benchmark \<Rightarrow> int \<Rightarrow> 's \<Rightarrow> (bool \<times> 's) res" where
  "Benchmark_innerBenchmarkLoop me innerIterations s = inner_loop me (nat innerIterations) s"

section \<open>Runs\<close>

record 's run =
  run_name :: string
  benchmarkSuite :: "'s benchmark option"
  numIterations :: int
  innerIterations :: int
  run_total :: int

datatype event =
    UnknownBenchmark string
  | Starting string
  | IncorrectResult
  | IterationRuntime string int
  | Report string int int int
  | BlankLine

record 's world =
  w_state :: 's
  w_ticks :: nat
  w_out :: "event list"

definition print :: "event \<Rightarrow> 's world \<Rightarrow> 's world" where
  "print e w = w\<lparr>w_out := w_out w @ [e]\<rparr>"

definition gettime :: "(nat \<Rightarrow> int \<times> int) \<Rightarrow> 's world \<Rightarrow> (int \<times> int) \<times> 's world" where
  "gettime clock w = (clock (w_ticks w), w\<lparr>w_ticks := Suc (w_ticks w)\<rparr>)"

text \<open>The table of \<open>Run_getSuiteFromName\<close>; \<open>suite\<close> maps a constructor to the object it creates.\<close>

datatype suite_id =
    Bounce | List | Mandelbrot | Permute | Queens | Sieve | Storage | Towers
  | NBody | Richards | Json | CD | Havlak | DeltaBlue

definition Run_getSuiteFromName :: "string \<Rightarrow> suite_id option" where
  "Run_getSuiteFromName name =
     (if name = ''Bounce'' then Some Bounce
      else if name = ''List'' then Some List
      else if name = ''Mandelbrot'' then Some Mandelbrot
      else if name = ''Permute'' then Some Permute
      else if name = ''Queens'' then Some Queens
      else if name = ''Sieve'' then Some Sieve
      else if name = ''Storage'' then Some Storage
      else if name = ''Towers'' then Some Towers
      else if name = ''NBody'' then Some NBody
      else if name = ''Richards'' then Some Richards
      else if name = ''Json'' then Some Json
      else if name = ''CD'' then Some CD
      else if name = ''Havlak'' then Some Havlak
      else if name = ''DeltaBlue'' then Some DeltaBlue
      else None)"

definition Run_init :: "(suite_id \<Rightarrow> 's benchmark) \<Rightarrow> string \<Rightarrow> 's run" where
  "Run_init suite name =
     \<lparr>run_name = name, benchmarkSuite = map_option suite (Run_getSuiteFromName name),
      numIterations = 1, innerIterations = 1, run_total = 0\<rparr>"

definition Run_setNumIterations :: "'s run \<Rightarrow> int \<Rightarrow> 's run" where
  "Run_setNumIterations me n = me\<lparr>numIterations := n\<rparr>"

definition Run_setInnerIterations :: "'s run \<Rightarrow> int \<Rightarrow> 's run" where
  "Run_setInnerIterations me n = me\<lparr>innerIterations := n\<rparr>"

definition measure_run ::
    "(nat \<Rightarrow> int \<times> int) \<Rightarrow> 's benchmark \<Rightarrow> 's run \<times> 's world \<Rightarrow> ('s run \<times> 's world) res" where
  "measure_run clock bench rw =
     (case rw of (me, w) \<Rightarrow>
      let (start, w) = gettime clock w;
          loop = (case bm_innerBenchmarkLoop bench of
                    None \<Rightarrow> Benchmark_innerBenchmarkLoop bench
                  | Some f \<Rightarrow> f)
      in rbind (loop (innerIterations me) (w_state w)) (\<lambda>(ok, s).
           let w = w\<lparr>w_state := s\<rparr> in
           if \<not> ok then Inr (me, print IncorrectResult w)
           else
             let (stop, w) = gettime clock w in
             rbind (c_long (fst stop - fst start)) (\<lambda>seconds.
             rbind (c_long (snd stop - snd start)) (\<lambda>microseconds.
             rbind (c_long (seconds * 1000000)) (\<lambda>us.
             rbind (c_long (us + microseconds)) (\<lambda>runTime.
             rbind (c_long (run_total me + runTime)) (\<lambda>t.
               Inr (me\<lparr>run_total := t\<rparr>, print (IterationRuntime (run_name me) runTime) w))))))))"

definition doRuns ::
    "(nat \<Rightarrow> int \<times> int) \<Rightarrow> 's benchmark \<Rightarrow> 's run \<times> 's world \<Rightarrow> ('s run \<times> 's world) res" where
  "doRuns clock bench rw =
     rfold (\<lambda>i. measure_run clock bench) [0..<nat (numIterations (fst rw))] rw"

definition reportBenchmark :: "'s run \<times> 's world \<Rightarrow> ('s run \<times> 's world) res" where
  "reportBenchmark rw =
     (case rw of (me, w) \<Rightarrow>
        rbind (c_div (run_total me) (numIterations me)) (\<lambda>avg.
          Inr (me, print (Report (run_name me) (numIterations me) avg (run_total me)) w)))"

text \<open>The result also says whether control came back or left by \<open>longjmp\<close>.\<close>

definition Run_runBenchmark ::
    "(nat \<Rightarrow> int \<times> int) \<Rightarrow> 's run \<Rightarrow> 's world \<Rightarrow> (bool \<times> 's run \<times> 's world) res" where
  "Run_runBenchmark clock me w =
     (case benchmarkSuite me of
        None \<Rightarrow> Inr (False, me, print (UnknownBenchmark (run_name me)) w)
      | Some bench \<Rightarrow>
          rbind (doRuns clock bench (me, print (Starting (run_name me)) w)) (\<lambda>rw.
          rbind (reportBenchmark rw) (\<lambda>(me, w). Inr (True, me, print BlankLine w))))"

section \<open>What a run prints\<close>

lemma inner_loop_stops:
  "bm_benchmark me s = Inr (r, s') \<Longrightarrow> \<not> bm_verifyResult me s' r \<Longrightarrow> 0 < n \<Longrightarrow>
   inner_loop me n s = Inr (False, s')"
  by (cases n) auto

text \<open>The runtime of the \<open>i\<close>-th iteration when the clock is read from tick \<open>t\<close> on.\<close>

definition runtime :: "(nat \<Rightarrow> int \<times> int) \<Rightarrow> nat \<Rightarrow> nat \<Rightarrow> int" where
  "runtime clock t i =
     (fst (clock (t + 2 * i + 1)) - fst (clock (t + 2 * i))) * 1000000 +
     (snd (clock (t + 2 * i + 1)) - snd (clock (t + 2 * i)))"

text \<open>A clock that never goes backwards, counts less than 2^40 seconds and proper microseconds.\<close>

definition good_clock :: "(nat \<Rightarrow> int \<times> int) \<Rightarrow> bool" where
  "good_clock clock \<longleftrightarrow>
     (\<forall>t. 0 \<le> fst (clock t) \<and> fst (clock t) < 2 ^ 40 \<and> 0 \<le> snd (clock t) \<and> snd (clock t) < 1000000 \<and>
        fst (clock t) * 1000000 + snd (clock t) \<le> fst (clock (Suc t)) * 1000000 + snd (clock (Suc t)))"

lemma runtime_nonneg: "good_clock clock \<Longrightarrow> 0 \<le> runtime clock t i"
  unfolding good_clock_def runtime_def
  by (drule spec [of _ "t + 2 * i"]) (simp add: algebra_simps)

lemma runtimes_telescope:
  assumes "good_clock clock"
  shows "(\<Sum>i<n. runtime clock t i) \<le>
    fst (clock (t + 2 * n)) * 1000000 + snd (clock (t + 2 * n)) - (fst (clock t) * 1000000 + snd (clock t))"
proof (induction n)
  case (Suc n)
  have "fst (clock k) * 1000000 + snd (clock k) \<le> fst (clock (Suc k)) * 1000000 + snd (clock (Suc k))" for k
    using assms by (simp add: good_clock_def)
  from this [of "Suc (t + 2 * n)"] Suc show ?case by (simp add: runtime_def algebra_simps)
qed simp

lemma runtimes_bounded:
  assumes "good_clock clock"
  shows "(\<Sum>i<n. runtime clock t i) \<le> LONG_MAX"
proof -
  have b: "0 \<le> fst (clock k) * 1000000 + snd (clock k)" "fst (clock k) < 2 ^ 40" "snd (clock k) < 1000000" for k
    using assms by (simp_all add: good_clock_def)
  from runtimes_telescope [OF assms, of t n] b(1) [of t] b(2,3) [of "t + 2 * n"] show ?thesis
    by (simp add: LONG_MAX_def)
qed

text \<open>The loop that \<open>measure\<close> calls: the one of the benchmark, or the default.\<close>

definition bench_loop :: "'s benchmark \<Rightarrow> int \<Rightarrow> 's \<Rightarrow> (bool \<times> 's) res" where
  "bench_loop bench = (case bm_innerBenchmarkLoop bench of None \<Rightarrow> Benchmark_innerBenchmarkLoop bench | Some f \<Rightarrow> f)"

lemma measure_run_ok:
  assumes "good_clock clock" and "bench_loop bench (innerIterations me) (w_state w) = Inr (True, s)"
    and "0 \<le> run_total me" "run_total me + runtime clock (w_ticks w) 0 \<le> LONG_MAX"
  shows "measure_run clock bench (me, w) =
    Inr (me\<lparr>run_total := run_total me + runtime clock (w_ticks w) 0\<rparr>,
      \<lparr>w_state = s, w_ticks = w_ticks w + 2,
       w_out = w_out w @ [IterationRuntime (run_name me) (runtime clock (w_ticks w) 0)]\<rparr>)"
proof -
  let ?t = "w_ticks w"
  have b: "0 \<le> fst (clock k)" "fst (clock k) < 1099511627776" "0 \<le> snd (clock k)" "snd (clock k) < 1000000" for k
    using assms(1) by (simp_all add: good_clock_def)
  have "c_long (fst (clock (Suc ?t)) - fst (clock ?t)) = Inr (fst (clock (Suc ?t)) - fst (clock ?t))"
    "c_long (snd (clock (Suc ?t)) - snd (clock ?t)) = Inr (snd (clock (Suc ?t)) - snd (clock ?t))"
    "c_long ((fst (clock (Suc ?t)) - fst (clock ?t)) * 1000000) =
      Inr ((fst (clock (Suc ?t)) - fst (clock ?t)) * 1000000)"
    using b [of ?t] b [of "Suc ?t"] by (intro c_long_ok; simp add: LONG_MAX_def)+
  moreover have "c_long (runtime clock ?t 0) = Inr (runtime clock ?t 0)"
    "c_long (run_total me + runtime clock ?t 0) = Inr (run_total me + runtime clock ?t 0)"
    using assms(3,4) runtime_nonneg [OF assms(1), of ?t 0] by (simp_all add: c_long_def LONG_MAX_def)
  ultimately show ?thesis using assms(2)
    by (simp add: measure_run_def gettime_def print_def runtime_def Let_def flip: bench_loop_def)
qed

text \<open>What a run of \<open>n\<close> iterations prints when the clock is read from tick \<open>t\<close> on.\<close>

definition run_output :: "(nat \<Rightarrow> int \<times> int) \<Rightarrow> nat \<Rightarrow> string \<Rightarrow> nat \<Rightarrow> event list" where
  "run_output clock t name n = [Starting name] @ map (\<lambda>i. IterationRuntime name (runtime clock t i)) [0..<n] @
     [Report name (int n) ((\<Sum>i<n. runtime clock t i) div int n) (\<Sum>i<n. runtime clock t i), BlankLine]"

text \<open>
  The contract of a benchmark that the harness can run with \<open>k\<close> inner iterations: from every good
  state its loop succeeds and leaves a good state.
\<close>

locale running_benchmark =
  fixes bench :: "'s benchmark"
    and good :: "'s \<Rightarrow> bool"
    and k :: int
  assumes loop: "good s \<Longrightarrow> \<exists>s'. bench_loop bench k s = Inr (True, s') \<and> good s'"
begin

lemma doRuns_ok:
  assumes clock: "good_clock clock" and start: "good (w_state w)" "run_total me = 0" "innerIterations me = k"
  shows "\<exists>s. rfold (\<lambda>i. measure_run clock bench) [0..<n] (me, w) =
    Inr (me\<lparr>run_total := \<Sum>i<n. runtime clock (w_ticks w) i\<rparr>,
      \<lparr>w_state = s, w_ticks = w_ticks w + 2 * n,
       w_out = w_out w @ map (\<lambda>i. IterationRuntime (run_name me) (runtime clock (w_ticks w) i)) [0..<n]\<rparr>) \<and>
    good s"
proof (induction n)
  case 0
  show ?case using start by (cases w) simp
next
  case (Suc n)
  then obtain s where s: "rfold (\<lambda>i. measure_run clock bench) [0..<n] (me, w) =
    Inr (me\<lparr>run_total := \<Sum>i<n. runtime clock (w_ticks w) i\<rparr>,
      \<lparr>w_state = s, w_ticks = w_ticks w + 2 * n,
       w_out = w_out w @ map (\<lambda>i. IterationRuntime (run_name me) (runtime clock (w_ticks w) i)) [0..<n]\<rparr>)"
    "good s" by blast
  from loop [OF s(2)] obtain s' where s': "bench_loop bench (innerIterations me) s = Inr (True, s')" "good s'"
    using start(3) by blast
  have "runtime clock (w_ticks w + 2 * n) 0 = runtime clock (w_ticks w) n" by (simp add: runtime_def)
  moreover have "0 \<le> (\<Sum>i<n. runtime clock (w_ticks w) i)"
    by (intro sum_nonneg runtime_nonneg clock)
  moreover have "(\<Sum>i<n. runtime clock (w_ticks w) i) + runtime clock (w_ticks w) n \<le> LONG_MAX"
    using runtimes_bounded [OF clock, of "w_ticks w" "Suc n"] by simp
  ultimately show ?case using s(1) s' measure_run_ok [OF clock, of bench
      "me\<lparr>run_total := \<Sum>i<n. runtime clock (w_ticks w) i\<rparr>" _ s']
    by (simp add: rfold_append)
qed

text \<open>The whole output of a run of \<open>n \<ge> 1\<close> iterations.\<close>

lemma runBenchmark_ok:
  assumes "good_clock clock" "good (w_state w)" "run_total me = 0" "innerIterations me = k"
    and "benchmarkSuite me = Some bench" "numIterations me = int n" "0 < n"
  shows "\<exists>me' w'. Run_runBenchmark clock me w = Inr (True, me', w') \<and> good (w_state w') \<and>
    w_ticks w' = w_ticks w + 2 * n \<and> w_out w' = w_out w @ run_output clock (w_ticks w) (run_name me) n"
proof -
  let ?w = "print (Starting (run_name me)) w"
  let ?t = "\<Sum>i<n. runtime clock (w_ticks w) i"
  have "0 \<le> ?t" by (intro sum_nonneg runtime_nonneg assms(1))
  then have "c_div ?t (int n) = Inr (?t div int n)" using assms(7) by (intro c_div_pos) auto
  moreover obtain s where "rfold (\<lambda>i. measure_run clock bench) [0..<n] (me, ?w) =
    Inr (me\<lparr>run_total := ?t\<rparr>,
      \<lparr>w_state = s, w_ticks = w_ticks w + 2 * n,
       w_out = w_out ?w @ map (\<lambda>i. IterationRuntime (run_name me) (runtime clock (w_ticks w) i)) [0..<n]\<rparr>)"
    "good s"
    using doRuns_ok [OF assms(1), of ?w me n] assms(2-4) by (auto simp: print_def)
  ultimately show ?thesis using assms(5,6)
    by (simp add: Run_runBenchmark_def doRuns_def reportBenchmark_def print_def run_output_def)
qed

end

text \<open>
  The contract of a benchmark with the default loop: from every good state it returns a result that
  its own check accepts, and leaves a good state. It runs with any number of inner iterations.
\<close>

locale verified_benchmark =
  fixes bench :: "'s benchmark"
    and good :: "'s \<Rightarrow> bool"
  assumes step: "good s \<Longrightarrow>
      \<exists>r s'. bm_benchmark bench s = Inr (r, s') \<and> bm_verifyResult bench s' r \<and> good s'"
    and default_loop: "bm_innerBenchmarkLoop bench = None"
begin

lemma inner_loop_ok: "good s \<Longrightarrow> \<exists>s'. inner_loop bench n s = Inr (True, s') \<and> good s'"
proof (induction n arbitrary: s)
  case (Suc n)
  from step [OF Suc.prems] obtain r s' where
    "bm_benchmark bench s = Inr (r, s')" "bm_verifyResult bench s' r" "good s'" by blast
  with Suc.IH show ?case by auto
qed simp

lemma default_loop_ok: "good s \<Longrightarrow> \<exists>s'. bench_loop bench k s = Inr (True, s') \<and> good s'"
  using inner_loop_ok by (simp add: bench_loop_def default_loop Benchmark_innerBenchmarkLoop_def)

end

sublocale verified_benchmark \<subseteq> running: running_benchmark bench good k for k
  by unfold_locales (rule default_loop_ok)

text \<open>A benchmark object without state of its own.\<close>

definition plain_benchmark :: "int res \<Rightarrow> (int \<Rightarrow> bool) \<Rightarrow> unit benchmark" where
  "plain_benchmark b v =
     \<lparr>bm_benchmark = (\<lambda>s. rbind b (\<lambda>r. Inr (r, s))), bm_verifyResult = (\<lambda>s r. v r),
      bm_innerBenchmarkLoop = None\<rparr>"

lemma plain_benchmark_ok: "b = Inr r \<Longrightarrow> v r \<Longrightarrow> verified_benchmark (plain_benchmark b v) (\<lambda>s. True)"
  by unfold_locales (auto simp: plain_benchmark_def)

end
