(* ===== verification/AwfyPermute.thy ===== *)
theory AwfyPermute
  imports AwfyRun
begin

text \<open>
  \<open>Permute.c\<close>: the recursive permutation generator. The recursion argument is a \<open>nat\<close>; the
  benchmark starts it at 6 and only ever decrements a nonzero value.
\<close>

record permute_state =
  p_count :: int
  p_v :: "int list"

definition permute_swap :: "nat \<Rightarrow> nat \<Rightarrow> permute_state \<Rightarrow> permute_state res" where
  "permute_swap i j me =
     rbind (arr_get (p_v me) (int i)) (\<lambda>tmp.
     rbind (arr_get (p_v me) (int j)) (\<lambda>vj.
     rbind (arr_set (p_v me) (int i) vj) (\<lambda>v.
     rbind (arr_set v (int j) tmp) (\<lambda>v. Inr (me\<lparr>p_v := v\<rparr>)))))"

definition permute_tick :: "permute_state \<Rightarrow> permute_state res" where
  "permute_tick me = rbind (c_int (p_count me + 1)) (\<lambda>c. Inr (me\<lparr>p_count := c\<rparr>))"

fun permute :: "nat \<Rightarrow> permute_state \<Rightarrow> permute_state res" where
  "permute 0 me = permute_tick me"
| "permute (Suc n1) me =
     rbind (permute_tick me) (\<lambda>me.
     rbind (permute n1 me) (\<lambda>me.
       rfold (\<lambda>i me. rbind (permute_swap n1 i me) (\<lambda>me.
                       rbind (permute n1 me) (\<lambda>me. permute_swap n1 i me)))
         (rev [0..<Suc n1]) me))"

definition permute_benchmark :: "int res" where
  "permute_benchmark =
     rbind (permute 6 \<lparr>p_count = 0, p_v = replicate 6 0\<rparr>) (\<lambda>me. Inr (p_count me))"

definition permute_verifyResult :: "int \<Rightarrow> bool" where
  "permute_verifyResult result \<longleftrightarrow> result = 8660"

section \<open>The array is restored and the calls are counted\<close>

fun permute_calls :: "nat \<Rightarrow> nat" where
  "permute_calls 0 = 1"
| "permute_calls (Suc n) = 1 + (n + 2) * permute_calls n"

definition swapped :: "nat \<Rightarrow> nat \<Rightarrow> 'a list \<Rightarrow> 'a list" where
  "swapped i j v = v[i := v ! j, j := v ! i]"

lemma swapped_swapped: "i < length v \<Longrightarrow> j < length v \<Longrightarrow> swapped i j (swapped i j v) = v"
  by (auto simp: swapped_def list_eq_iff_nth_eq nth_list_update)

lemma swapped_length [simp]: "length (swapped i j v) = length v"
  by (simp add: swapped_def)

lemma permute_swap_ok:
  "i < length (p_v me) \<Longrightarrow> j < length (p_v me) \<Longrightarrow>
   permute_swap i j me = Inr (me\<lparr>p_v := swapped i j (p_v me)\<rparr>)"
  by (simp add: permute_swap_def arr_get_ok arr_set_ok swapped_def)

lemma permute_tick_ok:
  "0 \<le> p_count me \<Longrightarrow> p_count me + 1 \<le> INT_MAX \<Longrightarrow>
   permute_tick me = Inr (me\<lparr>p_count := p_count me + 1\<rparr>)"
  by (simp add: permute_tick_def c_int_def INT_MAX_def)

lemma permute_calls_pos: "0 < permute_calls n"
  by (cases n) auto

lemma permute_ok:
  "n \<le> length (p_v me) \<Longrightarrow> 0 \<le> p_count me \<Longrightarrow> p_count me + int (permute_calls n) \<le> INT_MAX \<Longrightarrow>
   permute n me = Inr (me\<lparr>p_count := p_count me + int (permute_calls n)\<rparr>)"
proof (induction n arbitrary: me)
  case (Suc n)
  let ?k = "permute_calls n"
  have body: "rfold (\<lambda>i me. rbind (permute_swap n i me) (\<lambda>me.
        rbind (permute n me) (\<lambda>me. permute_swap n i me))) is me' =
      Inr (me'\<lparr>p_count := p_count me' + int (length is * ?k)\<rparr>)"
    if "\<forall>i\<in>set is. i \<le> n" "n < length (p_v me')" "0 \<le> p_count me'"
      "p_count me' + int (length is * ?k) \<le> INT_MAX" for "is" me'
    using that
  proof (induction "is" arbitrary: me')
    case (Cons i "is")
    have "int (length (i # is) * ?k) = int ?k + int (length is * ?k)" by simp
    then have c: "p_count me' + int ?k \<le> INT_MAX" using Cons.prems(4) by linarith
    have i: "i < length (p_v me')" using Cons.prems by auto
    have "permute n (me'\<lparr>p_v := swapped n i (p_v me')\<rparr>) =
        Inr (me'\<lparr>p_v := swapped n i (p_v me'), p_count := p_count me' + int ?k\<rparr>)"
      using Suc.IH [of "me'\<lparr>p_v := swapped n i (p_v me')\<rparr>"] Cons.prems c by simp
    moreover from Cons.IH [of "me'\<lparr>p_count := p_count me' + int ?k\<rparr>"] Cons.prems
    have "rfold (\<lambda>i me. rbind (permute_swap n i me) (\<lambda>me.
        rbind (permute n me) (\<lambda>me. permute_swap n i me))) is (me'\<lparr>p_count := p_count me' + int ?k\<rparr>) =
      Inr (me'\<lparr>p_count := p_count me' + int ?k + int (length is * ?k)\<rparr>)"
      by (simp add: algebra_simps)
    ultimately show ?case
      using Cons.prems i by (simp add: permute_swap_ok swapped_swapped algebra_simps)
  qed simp
  have calls: "int (permute_calls (Suc n)) = 1 + int ?k + int (Suc n * ?k)" by (simp add: algebra_simps)
  then have room: "p_count me + 1 + int ?k + int (Suc n * ?k) \<le> INT_MAX" using Suc.prems(3) by linarith
  then have room1: "p_count me + 1 + int ?k \<le> INT_MAX" by linarith
  have "permute n (me\<lparr>p_count := p_count me + 1\<rparr>) = Inr (me\<lparr>p_count := p_count me + 1 + int ?k\<rparr>)"
    using Suc.IH [of "me\<lparr>p_count := p_count me + 1\<rparr>"] Suc.prems(1,2) room1 by simp
  moreover have "permute_tick me = Inr (me\<lparr>p_count := p_count me + 1\<rparr>)"
    using Suc.prems(2) room1 by (intro permute_tick_ok) auto
  ultimately show ?case
    using body [of "rev [0..<Suc n]" "me\<lparr>p_count := p_count me + 1 + int ?k\<rparr>"] Suc.prems(1,2)
      room calls by (simp add: algebra_simps del: upt_Suc permute_calls.simps)
qed (auto simp: permute_tick_ok)

lemma permute_benchmark_result: "permute_benchmark = Inr 8660"
proof -
  have "permute_calls 6 = 8660" by code_simp
  then show ?thesis by (simp add: permute_benchmark_def permute_ok INT_MAX_def)
qed

section \<open>The benchmark object\<close>

definition Permute_create :: "unit benchmark" where
  "Permute_create = plain_benchmark permute_benchmark permute_verifyResult"

interpretation permute: verified_benchmark Permute_create "\<lambda>s. True"
  unfolding Permute_create_def by (rule plain_benchmark_ok) (simp_all add: permute_benchmark_result permute_verifyResult_def)

section \<open>Properties\<close>

text \<open>C37: \<open>permute n\<close> on an array of at least \<open>n\<close> cells leaves the array as it was and advances the
  counter by the number of calls, \<open>1 + (n + 1) * calls (n - 1)\<close>; no index leaves the array.\<close>

theorem permute_restores_array:
  assumes "n \<le> length (p_v me)" "0 \<le> p_count me" "p_count me + int (permute_calls n) \<le> INT_MAX"
  shows "permute n me = Inr (me\<lparr>p_count := p_count me + int (permute_calls n)\<rparr>)"
  by (rule permute_ok [OF assms])

lemma permute_restores_array_witness:
  "permute 3 \<lparr>p_count = 0, p_v = [5, 6, 7]\<rparr> = Inr \<lparr>p_count = 41, p_v = [5, 6, 7]\<rparr>"
  using permute_restores_array [of 3 "\<lparr>p_count = 0, p_v = [5, 6, 7]\<rparr>"]
  by (simp add: numeral_3_eq_3 INT_MAX_def del: permute.simps)

end
