(* ===== verification/AwfyQueens.thy ===== *)
theory AwfyQueens
  imports AwfyRun
begin

text \<open>
  \<open>Queens.c\<close>: eight queens by backtracking over the columns. \<open>freeRows\<close>, \<open>freeMaxs\<close> and
  \<open>freeMins\<close> mark the rows and the two families of diagonals that are still free;
  \<open>queenRows[r]\<close> is the column of the queen in row \<open>r\<close>. The recursion of \<open>placeQueen\<close> goes from
  column \<open>c\<close> to \<open>c + 1\<close> and stops at 7, so it is written on \<open>7 - c\<close>.
\<close>

section \<open>State and operations\<close>

record queens_state =
  freeMaxs :: "bool list"
  freeRows :: "bool list"
  freeMins :: "bool list"
  queenRows :: "int list"

text \<open>The conjunction short-circuits, so the diagonals are read only for a free row.\<close>

definition getRowColumn :: "queens_state \<Rightarrow> int \<Rightarrow> int \<Rightarrow> bool res" where
  "getRowColumn me r c =
     rbind (arr_get (freeRows me) r) (\<lambda>a.
       if a then rbind (arr_get (freeMaxs me) (c + r)) (\<lambda>b.
         if b then arr_get (freeMins me) (c - r + 7) else Inr False)
       else Inr False)"

definition setRowColumn :: "int \<Rightarrow> int \<Rightarrow> bool \<Rightarrow> queens_state \<Rightarrow> queens_state res" where
  "setRowColumn r c v me =
     rbind (arr_set (freeRows me) r v) (\<lambda>fr.
     rbind (arr_set (freeMaxs me) (c + r) v) (\<lambda>fx.
     rbind (arr_set (freeMins me) (c - r + 7) v) (\<lambda>fn.
       Inr (me\<lparr>freeRows := fr, freeMaxs := fx, freeMins := fn\<rparr>))))"

text \<open>The loop over the rows; \<open>next\<close> is the recursive call for the following column.\<close>

fun row_loop ::
    "(queens_state \<Rightarrow> (bool \<times> queens_state) res) \<Rightarrow> int \<Rightarrow> nat list \<Rightarrow> queens_state \<Rightarrow>
     (bool \<times> queens_state) res" where
  "row_loop next c [] me = Inr (False, me)"
| "row_loop next c (r # rs) me =
     rbind (getRowColumn me (int r) c) (\<lambda>free.
       if free then
         rbind (arr_set (queenRows me) (int r) c) (\<lambda>q.
         rbind (setRowColumn (int r) c False (me\<lparr>queenRows := q\<rparr>)) (\<lambda>me.
           if c = 7 then Inr (True, me)
           else rbind (next me) (\<lambda>(found, me).
             if found then Inr (True, me)
             else rbind (setRowColumn (int r) c True me) (\<lambda>me. row_loop next c rs me))))
       else row_loop next c rs me)"

fun placeQueen :: "nat \<Rightarrow> queens_state \<Rightarrow> (bool \<times> queens_state) res" where
  "placeQueen 0 me = row_loop (\<lambda>me. Inr (False, me)) 7 [0..<8] me"
| "placeQueen (Suc k) me = row_loop (placeQueen k) (7 - int (Suc k)) [0..<8] me"

definition queens_init :: queens_state where
  "queens_init = \<lparr>freeMaxs = replicate 16 True, freeRows = replicate 8 True,
     freeMins = replicate 16 True, queenRows = replicate 8 (- 1)\<rparr>"

definition queens :: "bool res" where
  "queens = rbind (placeQueen 7 queens_init) (\<lambda>(res, me). Inr res)"

text \<open>\<open>result && queens(me)\<close>, ten times; the \<open>bool\<close> is returned as an \<open>int\<close>.\<close>

definition queens_benchmark :: "int res" where
  "queens_benchmark =
     rbind (rfold (\<lambda>i result. if result then queens else Inr False) [0..<10] True) (\<lambda>result.
       Inr (if result then 1 else 0))"

definition queens_verifyResult :: "int \<Rightarrow> bool" where
  "queens_verifyResult result \<longleftrightarrow> result \<noteq> 0"

section \<open>Boards\<close>

text \<open>
  A board gives the row of the queen of each of the first columns. \<open>safe\<close> says that no two queens
  attack each other.
\<close>

definition attack :: "nat list \<Rightarrow> nat \<Rightarrow> nat \<Rightarrow> bool" where
  "attack qs i j \<longleftrightarrow> qs ! i = qs ! j \<or> i + qs ! i = j + qs ! j \<or>
     int i - int (qs ! i) = int j - int (qs ! j)"

definition safe :: "nat list \<Rightarrow> bool" where
  "safe qs \<longleftrightarrow> (\<forall>q\<in>set qs. q < 8) \<and> (\<forall>j<length qs. \<forall>i<j. \<not> attack qs i j)"

text \<open>The state marks exactly the lines the board occupies.\<close>

definition represents :: "queens_state \<Rightarrow> nat list \<Rightarrow> bool" where
  "represents me qs \<longleftrightarrow> length (freeRows me) = 8 \<and> length (freeMaxs me) = 16 \<and>
     length (freeMins me) = 16 \<and> length (queenRows me) = 8 \<and>
     (\<forall>r<8. freeRows me ! r \<longleftrightarrow> r \<notin> set qs) \<and>
     (\<forall>s<16. freeMaxs me ! s \<longleftrightarrow> (\<forall>i<length qs. i + qs ! i \<noteq> s)) \<and>
     (\<forall>s<16. freeMins me ! s \<longleftrightarrow> (\<forall>i<length qs. int i - int (qs ! i) + 7 \<noteq> int s)) \<and>
     (\<forall>i<length qs. queenRows me ! (qs ! i) = int i)"

definition extendable :: "nat list \<Rightarrow> bool" where
  "extendable qs \<longleftrightarrow> (\<exists>ext. length (qs @ ext) = 8 \<and> safe (qs @ ext))"

lemma safe_snoc:
  "safe (qs @ [r]) \<longleftrightarrow> safe qs \<and> r < 8 \<and> r \<notin> set qs \<and>
     (\<forall>i<length qs. i + qs ! i \<noteq> length qs + r) \<and>
     (\<forall>i<length qs. int i - int (qs ! i) \<noteq> int (length qs) - int r)"
proof -
  have "(\<forall>j<length (qs @ [r]). \<forall>i<j. \<not> attack (qs @ [r]) i j) \<longleftrightarrow>
      (\<forall>j<length qs. \<forall>i<j. \<not> attack qs i j) \<and>
      (\<forall>i<length qs. qs ! i \<noteq> r \<and> i + qs ! i \<noteq> length qs + r \<and>
         int i - int (qs ! i) \<noteq> int (length qs) - int r)"
    by (auto simp: less_Suc_eq attack_def nth_append)
  moreover have "(\<forall>i<length qs. qs ! i \<noteq> r) \<longleftrightarrow> r \<notin> set qs" by (auto simp: in_set_conv_nth)
  ultimately show ?thesis by (auto simp: safe_def)
qed

lemma safe_prefix: "safe (qs @ ext) \<Longrightarrow> safe qs"
proof (induction ext rule: rev_induct)
  case (snoc x ext)
  then have "safe ((qs @ ext) @ [x])" by simp
  then have "safe (qs @ ext)" by (simp only: safe_snoc)
  with snoc.IH show ?case by simp
qed simp

lemma safe_bound: "safe qs \<Longrightarrow> i < length qs \<Longrightarrow> qs ! i < 8"
  by (simp add: safe_def)

lemma getRowColumn_ok:
  assumes "represents me qs" "length qs < 8" "r < 8" "safe qs"
  shows "getRowColumn me (int r) (int (length qs)) = Inr (safe (qs @ [r]))"
proof -
  let ?c = "length qs"
  have "int ?c - int r + 7 = int (?c + 7 - r)" using assms(3) by simp
  moreover have "?c + 7 - r < 16" "?c + r < 16" using assms(2,3) by simp_all
  moreover have "int i - int (qs ! i) + 7 \<noteq> int (?c + 7 - r) \<longleftrightarrow> int i - int (qs ! i) \<noteq> int ?c - int r" for i
    using assms(3) by (simp add: of_nat_diff)
  ultimately show ?thesis
    using assms by (simp add: getRowColumn_def arr_get_def represents_def safe_snoc nat_int_add)
qed

text \<open>The arrays that \<open>setRowColumn\<close> writes, apart from the record of the solution.\<close>

definition marks :: "queens_state \<Rightarrow> bool list \<times> bool list \<times> bool list" where
  "marks me = (freeRows me, freeMaxs me, freeMins me)"

definition marked :: "nat \<Rightarrow> nat \<Rightarrow> bool \<Rightarrow> queens_state \<Rightarrow> queens_state" where
  "marked r c v me =
     me\<lparr>freeRows := (freeRows me)[r := v], freeMaxs := (freeMaxs me)[c + r := v],
        freeMins := (freeMins me)[c + 7 - r := v]\<rparr>"

lemma setRowColumn_ok:
  assumes "length (freeRows me) = 8" "length (freeMaxs me) = 16" "length (freeMins me) = 16"
    "r < 8" "c < 8"
  shows "setRowColumn (int r) (int c) v me = Inr (marked r c v me)"
proof -
  have "nat (int c - int r + 7) = c + 7 - r" using assms(4) by linarith
  with assms show ?thesis by (simp add: setRowColumn_def arr_set_def marked_def nat_int_add)
qed

lemma represents_marked:
  assumes "represents me qs" "length qs < 8" "safe (qs @ [r])"
  shows "represents (marked r (length qs) False (me\<lparr>queenRows := (queenRows me)[r := int (length qs)]\<rparr>)) (qs @ [r])"
proof -
  let ?c = "length qs"
  have r: "r < 8" "r \<notin> set qs" using assms(3) by (auto simp: safe_snoc)
  have "int ?c - int r + 7 = int s \<longleftrightarrow> s = ?c + 7 - r" for s using r(1) by linarith
  with assms(1,2) r show ?thesis
    by (auto simp: represents_def marked_def nth_list_update nth_append less_Suc_eq)
qed

text \<open>Taking the queen back restores the marks.\<close>

lemma marks_restore:
  assumes "represents me qs" "length qs < 8" "safe (qs @ [r])"
    and "marks me' = marks (marked r (length qs) False me)"
  shows "marks (marked r (length qs) True me') = marks me"
proof -
  let ?c = "length qs"
  have "r < 8" "freeRows me ! r" "freeMaxs me ! (?c + r)" "freeMins me ! (?c + 7 - r)"
    using assms(1-3) by (auto simp: represents_def safe_snoc)
  with assms(4) show ?thesis
    by (simp add: marks_def marked_def list_update_same_conv) (metis list_update_id)
qed

section \<open>The search is sound and complete\<close>

lemma represents_marks:
  "marks me' = marks me \<Longrightarrow> length (queenRows me') = 8 \<Longrightarrow>
   (\<And>i. i < length qs \<Longrightarrow> queenRows me' ! (qs ! i) = int i) \<Longrightarrow> represents me qs \<Longrightarrow> represents me' qs"
  by (auto simp: represents_def marks_def)

lemma marked_sel [simp]:
  "queenRows (marked r c v me) = queenRows me"
  "length (freeRows (marked r c v me)) = length (freeRows me)"
  "length (freeMaxs (marked r c v me)) = length (freeMaxs me)"
  "length (freeMins (marked r c v me)) = length (freeMins me)"
  by (simp_all add: marked_def)

lemma marks_queenRows [simp]: "marks (marked r c v (me\<lparr>queenRows := q\<rparr>)) = marks (marked r c v me)"
  by (simp add: marks_def marked_def)

definition outcome :: "nat list \<Rightarrow> queens_state \<Rightarrow> bool \<Rightarrow> queens_state \<Rightarrow> bool" where
  "outcome qs me b me' \<longleftrightarrow>
     (if b then \<exists>ext. length (qs @ ext) = 8 \<and> safe (qs @ ext) \<and> represents me' (qs @ ext)
      else marks me' = marks me \<and> represents me' qs)"

lemma outcome_marks: "outcome qs me' b m \<Longrightarrow> marks me' = marks me \<Longrightarrow> outcome qs me b m"
  by (auto simp: outcome_def split: if_splits)

lemma extendable_step:
  "length qs < 8 \<Longrightarrow> extendable qs \<longleftrightarrow> (\<exists>r\<in>set [0..<8]. extendable (qs @ [r]))"
proof
  assume "length qs < 8" "extendable qs"
  then obtain r ext where e: "length (qs @ r # ext) = 8" "safe (qs @ r # ext)"
    unfolding extendable_def by (metis append.right_neutral less_irrefl list.exhaust)
  then have "safe ((qs @ [r]) @ ext)" by simp
  then have "r < 8" using safe_prefix [of "qs @ [r]" ext] by (simp add: safe_snoc)
  with e show "\<exists>r\<in>set [0..<8]. extendable (qs @ [r])"
    unfolding extendable_def by (intro bexI [of _ r] exI [of _ ext]) auto
next
  assume "\<exists>r\<in>set [0..<8]. extendable (qs @ [r])"
  then obtain r ext where "length ((qs @ [r]) @ ext) = 8" "safe ((qs @ [r]) @ ext)"
    unfolding extendable_def by blast
  then show "extendable qs" unfolding extendable_def by (intro exI [of _ "r # ext"]) auto
qed

lemma extendable_full: "length qs = 8 \<Longrightarrow> extendable qs \<longleftrightarrow> safe qs"
  by (auto simp: extendable_def)

lemma extendable_safe: "extendable qs \<Longrightarrow> safe qs"
  by (auto simp: extendable_def dest: safe_prefix)

text \<open>One row: the queen is placed, the rest is tried, and the queen is taken back.\<close>

lemma row_loop_ok:
  assumes rec: "\<And>me r. length qs < 7 \<Longrightarrow> represents me (qs @ [r]) \<Longrightarrow> safe (qs @ [r]) \<Longrightarrow>
      \<exists>me'. next me = Inr (extendable (qs @ [r]), me') \<and> outcome (qs @ [r]) me (extendable (qs @ [r])) me'"
    and "length qs < 8" "safe qs" "\<forall>r\<in>set rs. r < 8" "represents me qs"
  shows "\<exists>me'. row_loop next (int (length qs)) rs me = Inr (\<exists>r\<in>set rs. extendable (qs @ [r]), me') \<and>
    outcome qs me (\<exists>r\<in>set rs. extendable (qs @ [r])) me'"
  using assms(4,5)
proof (induction rs arbitrary: me)
  case (Cons r rs)
  let ?c = "length qs"
  have r: "r < 8" using Cons.prems(1) by simp
  note get = getRowColumn_ok [OF Cons.prems(2) assms(2) r assms(3)]
  have rest: "\<exists>me''. row_loop next (int ?c) rs me' = Inr (\<exists>r\<in>set rs. extendable (qs @ [r]), me'') \<and>
      outcome qs me (\<exists>r\<in>set rs. extendable (qs @ [r])) me''" if "represents me' qs" "marks me' = marks me" for me'
  proof -
    have "\<forall>r\<in>set rs. r < 8" using Cons.prems(1) by simp
    from Cons.IH [OF this that(1)] show ?thesis using outcome_marks [OF _ that(2)] by blast
  qed
  show ?case
  proof (cases "safe (qs @ [r])")
    case False
    then have "\<not> extendable (qs @ [r])" using extendable_safe by blast
    with rest [OF Cons.prems(2)] get False show ?thesis by auto
  next
    case True
    let ?q = "me\<lparr>queenRows := (queenRows me)[r := int ?c]\<rparr>"
    let ?m1 = "marked r ?c False ?q"
    note rep = represents_marked [OF Cons.prems(2) assms(2) True]
    have set1: "setRowColumn (int r) (int ?c) False ?q = Inr ?m1"
      "arr_set (queenRows me) (int r) (int ?c) = Inr ((queenRows me)[r := int ?c])"
      using Cons.prems(2) r assms(2) by (auto simp: represents_def arr_set_ok intro!: setRowColumn_ok)
    show ?thesis
    proof (cases "?c = 7")
      case c7: True
      with True have "extendable (qs @ [r])" by (simp add: extendable_full)
      moreover from this rep True c7 have "outcome qs me True ?m1"
        unfolding outcome_def by (auto intro!: exI [of _ "[r]"])
      ultimately show ?thesis using get True set1 c7 by simp
    next
      case False
      with assms(2) have "?c < 7" by simp
      from rec [OF this rep True] obtain m2 where
        m2: "next ?m1 = Inr (extendable (qs @ [r]), m2)" "outcome (qs @ [r]) ?m1 (extendable (qs @ [r])) m2"
        by blast
      show ?thesis
      proof (cases "extendable (qs @ [r])")
        case ext: True
        with m2(2) have "outcome qs me True m2"
          unfolding outcome_def by (auto intro: exI [of _ "r # _"])
        with ext m2(1) get True set1 False show ?thesis by auto
      next
        case noext: False
        with m2(2) have m2': "marks m2 = marks (marked r ?c False me)" "represents m2 (qs @ [r])"
          by (auto simp: outcome_def)
        let ?m3 = "marked r ?c True m2"
        have set3: "setRowColumn (int r) (int ?c) True m2 = Inr ?m3"
          using m2'(2) r assms(2) by (intro setRowColumn_ok) (auto simp: represents_def)
        have m3: "marks ?m3 = marks me" by (rule marks_restore [OF Cons.prems(2) assms(2) True m2'(1)])
        have "represents ?m3 qs"
        proof (rule represents_marks [OF m3 _ _ Cons.prems(2)])
          show "length (queenRows ?m3) = 8" using m2'(2) by (simp add: represents_def)
          show "queenRows ?m3 ! (qs ! i) = int i" if "i < length qs" for i
            using m2'(2) that by (auto simp: represents_def nth_append dest: spec [of _ i])
        qed
        from rest [OF this m3] noext m2(1) get True set1 set3 False show ?thesis by auto
      qed
    qed
  qed
qed (use assms(3) in \<open>auto simp: outcome_def\<close>)

lemma placeQueen_ok:
  "represents me qs \<Longrightarrow> safe qs \<Longrightarrow> length qs + k = 7 \<Longrightarrow>
   \<exists>me'. placeQueen k me = Inr (extendable qs, me') \<and> outcome qs me (extendable qs) me'"
proof (induction k arbitrary: qs me)
  case 0
  then show ?case
    using row_loop_ok [of qs "\<lambda>me. Inr (False, me)" "[0..<8]" me] extendable_step [of qs] by simp
next
  case (Suc k)
  then have len: "length qs < 8" "7 - int (Suc k) = int (length qs)" by simp_all
  show ?case
    unfolding placeQueen.simps len(2) extendable_step [OF len(1)]
    by (rule row_loop_ok) (use Suc in \<open>auto simp del: upt_Suc\<close>)
qed

lemma represents_init: "represents queens_init []"
  by (simp add: represents_def queens_init_def)

lemma solution_safe: "safe [0, 4, 7, 5, 2, 6, 1, 3]"
  by (simp add: safe_def attack_def All_less_Suc numeral_eq_Suc)

lemma queens_true: "queens = Inr True"
proof -
  have "extendable []" unfolding extendable_def using solution_safe
    by (intro exI [of _ "[0, 4, 7, 5, 2, 6, 1, 3]"]) simp
  with placeQueen_ok [OF represents_init, of 7] show ?thesis
    by (auto simp: queens_def safe_def)
qed

lemma queens_benchmark_result: "queens_benchmark = Inr 1"
proof -
  have "rfold (\<lambda>i result. if result then queens else Inr False) is True = Inr True" for "is" :: "nat list"
    by (induction "is") (auto simp: queens_true)
  then show ?thesis by (simp add: queens_benchmark_def)
qed

section \<open>The benchmark object\<close>

definition Queens_create :: "unit benchmark" where
  "Queens_create = plain_benchmark queens_benchmark queens_verifyResult"

interpretation queens: verified_benchmark Queens_create "\<lambda>s. True"
  unfolding Queens_create_def by (rule plain_benchmark_ok [OF queens_benchmark_result]) (simp add: queens_verifyResult_def)

section \<open>Properties\<close>

text \<open>C6: the backtracking search is sound and complete. From a state that marks exactly the lines of
  a safe board of \<open>c\<close> columns, \<open>placeQueen\<close> answers whether the board can be completed to eight
  queens; if so the state it leaves represents such a completion, and if not every mark is back as
  it was.\<close>

theorem placeQueen_sound_complete:
  assumes "represents me qs" "safe qs" "length qs + k = 7"
  shows "\<exists>found me'. placeQueen k me = Inr (found, me') \<and>
    (found \<longleftrightarrow> (\<exists>ext. length (qs @ ext) = 8 \<and> safe (qs @ ext))) \<and>
    (if found then \<exists>ext. length (qs @ ext) = 8 \<and> safe (qs @ ext) \<and> represents me' (qs @ ext)
     else marks me' = marks me \<and> represents me' qs)"
proof -
  from placeQueen_ok [OF assms] obtain me' where
    "placeQueen k me = Inr (extendable qs, me')" "outcome qs me (extendable qs) me'" by blast
  then show ?thesis unfolding extendable_def outcome_def by blast
qed

lemma placeQueen_sound_complete_witness:
  "\<exists>me' ext. placeQueen 7 queens_init = Inr (True, me') \<and> length ext = 8 \<and> safe ext \<and> represents me' ext"
proof -
  have "safe []" by (simp add: safe_def)
  from placeQueen_sound_complete [OF represents_init this, of 7] obtain found me' where
    p: "placeQueen 7 queens_init = Inr (found, me')" "found \<longleftrightarrow> (\<exists>ext. length ext = 8 \<and> safe ext)"
      "if found then \<exists>ext. length ext = 8 \<and> safe ext \<and> represents me' ext
       else marks me' = marks queens_init \<and> represents me' []" unfolding append_Nil by auto
  have "length [0, 4, 7, 5, 2, 6, 1, 3 :: nat] = 8" by simp
  then have found using p(2) solution_safe by blast
  with p show ?thesis by auto
qed

end
