(* ===== verification/AwfySieve.thy ===== *)
theory AwfySieve
  imports AwfyRun
begin

text \<open>
  \<open>Sieve.c\<close>: the sieve of Eratosthenes. \<open>flags[i - 1]\<close> stands for the number \<open>i\<close>. The counters are
  \<open>nat\<close>; additions that could leave \<open>int\<close> go through \<open>c_nat\<close>.
\<close>

section \<open>Operations\<close>

text \<open>The inner \<open>while\<close> loop, with step \<open>i = m + 1\<close>; the code runs it with \<open>i \<ge> 2\<close>.\<close>

function sieve_mark :: "nat \<Rightarrow> nat \<Rightarrow> nat \<Rightarrow> bool list \<Rightarrow> bool list res" where
  "sieve_mark limit m k flags =
     (if k \<le> limit
      then rbind (arr_set flags (int k - 1) False) (\<lambda>flags.
           rbind (c_nat (k + Suc m)) (\<lambda>k'. sieve_mark limit m k' flags))
      else Inr flags)"
  by pat_completeness auto
termination
  by (relation "measure (\<lambda>(limit, m, k, flags). Suc limit - k)") (auto simp: c_simps)

declare sieve_mark.simps [simp del]

text \<open>One iteration of the \<open>for\<close> loop.\<close>

definition sieve_step :: "nat \<Rightarrow> nat \<Rightarrow> bool list \<times> int \<Rightarrow> (bool list \<times> int) res" where
  "sieve_step limit i st =
     (case st of (flags, primeCount) \<Rightarrow>
        rbind (arr_get flags (int i - 1)) (\<lambda>b.
          if b
          then rbind (c_int (primeCount + 1)) (\<lambda>primeCount.
               rbind (c_nat (i + i)) (\<lambda>k.
               rbind (sieve_mark limit (i - 1) k flags) (\<lambda>flags. Inr (flags, primeCount))))
          else Inr (flags, primeCount)))"

definition sieve :: "bool list \<Rightarrow> nat \<Rightarrow> int res" where
  "sieve flags limit =
     rbind (rfold (sieve_step limit) [2..<Suc limit] (flags, 0)) (\<lambda>(flags, primeCount). Inr primeCount)"

definition sieve_benchmark :: "int res" where
  "sieve_benchmark =
     (let count = 5000; flags = replicate count False in
      rbind (rfold (\<lambda>i flags. arr_set flags (int i) True) [0..<count] flags) (\<lambda>flags.
        sieve flags count))"

definition sieve_verifyResult :: "int \<Rightarrow> bool" where
  "sieve_verifyResult result \<longleftrightarrow> 669 = result"

section \<open>The sieve counts the primes\<close>

definition is_prime :: "nat \<Rightarrow> bool" where
  "is_prime n \<longleftrightarrow> 2 \<le> n \<and> (\<forall>d. d dvd n \<longrightarrow> d = 1 \<or> d = n)"

lemma sieve_mark_ok:
  assumes "1 \<le> k" "limit \<le> length flags" "int (limit + Suc m) \<le> INT_MAX"
  shows "\<exists>f. sieve_mark limit m k flags = Inr f \<and> length f = length flags \<and>
    (\<forall>j. 1 \<le> j \<longrightarrow> j \<le> limit \<longrightarrow>
       f ! (j - 1) = (flags ! (j - 1) \<and> \<not> (k \<le> j \<and> Suc m dvd j - k)))"
  using assms
proof (induction limit m k flags rule: sieve_mark.induct)
  case (1 limit m k flags)
  show ?case
  proof (cases "k \<le> limit")
    case True
    let ?f = "flags[k - 1 := False]"
    have s: "arr_set flags (int k - 1) False = Inr ?f"
      using "1.prems" True by (simp add: arr_set_def nat_diff_distrib)
    have c: "c_nat (k + Suc m) = Inr (k + Suc m)"
      using "1.prems"(3) True by (intro c_nat_ok) simp
    from "1.IH" [OF True s c] "1.prems" obtain f where
      f: "sieve_mark limit m (k + Suc m) ?f = Inr f" "length f = length flags"
        "\<forall>j. 1 \<le> j \<longrightarrow> j \<le> limit \<longrightarrow>
          f ! (j - 1) = (?f ! (j - 1) \<and> \<not> (k + Suc m \<le> j \<and> Suc m dvd j - (k + Suc m)))"
      by auto
    have "f ! (j - 1) = (flags ! (j - 1) \<and> \<not> (k \<le> j \<and> Suc m dvd j - k))" if j: "1 \<le> j" "j \<le> limit" for j
    proof (cases "j = k")
      case True
      with f(3) j "1.prems" show ?thesis by simp
    next
      case False
      have "(k + Suc m \<le> j \<and> Suc m dvd j - (k + Suc m)) \<longleftrightarrow> (k \<le> j \<and> Suc m dvd j - k)"
      proof (cases "k + Suc m \<le> j")
        case True
        then have "j - k = (j - (k + Suc m)) + Suc m" by simp
        then have "Suc m dvd j - k \<longleftrightarrow> Suc m dvd j - (k + Suc m)"
          by (metis dvd_add_left_iff dvd_refl)
        with True show ?thesis by simp
      next
        case far: False
        with False show ?thesis by (auto dest: dvd_imp_le)
      qed
      moreover have "?f ! (j - 1) = flags ! (j - 1)"
        using False j "1.prems"(1) by (auto simp: nth_list_update)
      ultimately show ?thesis using f(3) [rule_format, OF j] by (simp only: )
    qed
    with True s c f(1,2) show ?thesis by (subst sieve_mark.simps) auto
  next
    case False
    then show ?thesis by (subst sieve_mark.simps) auto
  qed
qed

text \<open>After the iterations below \<open>m\<close>, a flag is up when no smaller number from 2 to \<open>m - 1\<close> divides.\<close>

definition sieved :: "nat \<Rightarrow> nat \<Rightarrow> bool list \<Rightarrow> bool" where
  "sieved limit m flags \<longleftrightarrow> limit \<le> length flags \<and>
     (\<forall>j. 1 \<le> j \<longrightarrow> j \<le> limit \<longrightarrow>
        flags ! (j - 1) = (\<forall>d. 2 \<le> d \<longrightarrow> d < m \<longrightarrow> d dvd j \<longrightarrow> d = j))"

lemma is_prime_no_divisor:
  "2 \<le> m \<Longrightarrow> is_prime m \<longleftrightarrow> (\<forall>d. 2 \<le> d \<longrightarrow> d < m \<longrightarrow> d dvd m \<longrightarrow> d = m)"
proof -
  assume m: "2 \<le> m"
  have "d = 0 \<or> d = 1 \<or> (2 \<le> d \<and> d < m) \<or> d = m" if "d dvd m" for d
    using that m dvd_imp_le [of d m] by linarith
  with m show ?thesis unfolding is_prime_def by (metis dvd_0_left_iff less_irrefl not_numeral_le_zero
      numeral_le_one_iff semiring_norm(69))
qed

lemma sieve_step_ok:
  assumes "sieved limit m flags" "2 \<le> m" "m \<le> limit" "int (2 * limit) \<le> INT_MAX"
    and "0 \<le> pc" "pc + 1 \<le> INT_MAX"
  shows "\<exists>f. sieve_step limit m (flags, pc) = Inr (f, if is_prime m then pc + 1 else pc) \<and>
    sieved limit (Suc m) f"
proof -
  have len: "limit \<le> length flags" using assms(1) by (simp add: sieved_def)
  have flag: "flags ! (j - 1) = (\<forall>d. 2 \<le> d \<longrightarrow> d < m \<longrightarrow> d dvd j \<longrightarrow> d = j)" if "1 \<le> j" "j \<le> limit" for j
    using assms(1) that by (simp add: sieved_def)
  have get: "arr_get flags (int m - 1) = Inr (is_prime m)"
    using flag [of m] is_prime_no_divisor [OF assms(2)] assms(2,3) len
    by (simp add: arr_get_def nat_diff_distrib)
  have split: "(\<forall>d. 2 \<le> d \<longrightarrow> d < Suc m \<longrightarrow> d dvd j \<longrightarrow> d = j) \<longleftrightarrow>
      flags ! (j - 1) \<and> (m dvd j \<longrightarrow> m = j)" if "1 \<le> j" "j \<le> limit" for j
    using flag [OF that] assms(2) by (auto simp: less_Suc_eq)
  show ?thesis
  proof (cases "is_prime m")
    case True
    have "c_int (pc + 1) = Inr (pc + 1)" "c_nat (m + m) = Inr (m + m)"
      using assms(3-6) by (auto simp: c_int_def c_nat_def INT_MAX_def)
    moreover obtain f where f: "sieve_mark limit (m - 1) (m + m) flags = Inr f" "length f = length flags"
        "\<forall>j. 1 \<le> j \<longrightarrow> j \<le> limit \<longrightarrow>
          f ! (j - 1) = (flags ! (j - 1) \<and> \<not> (m + m \<le> j \<and> m dvd j - (m + m)))"
      using sieve_mark_ok [of "m + m" limit flags "m - 1"] assms(2-4) len by auto
    moreover have "(m + m \<le> j \<and> m dvd j - (m + m)) \<longleftrightarrow> \<not> (m dvd j \<longrightarrow> m = j)" if "1 \<le> j" for j
    proof -
      have "m dvd j \<longrightarrow> m = j \<or> m + m \<le> j"
        using that assms(2) by (auto elim!: dvdE) (metis One_nat_def Suc_leI add_le_mono mult_2_right
            mult_le_mono2 nat_mult_1_right not_less_eq_eq numeral_2_eq_2 one_le_mult_iff order_antisym_conv)
      moreover have "m dvd j \<longleftrightarrow> m dvd j - (m + m)" if "m + m \<le> j"
        using that by (metis dvd_add_right_iff dvd_refl dvd_diffD dvd_diff_nat dvd_add)
      ultimately show ?thesis using assms(2) by auto
    qed
    ultimately show ?thesis using get True len split
      by (auto simp: sieve_step_def sieved_def)
  next
    case False
    then obtain d where d: "2 \<le> d" "d < m" "d dvd m"
      using is_prime_no_divisor [OF assms(2)] by blast
    have "m dvd j \<longrightarrow> m = j" if "flags ! (j - 1)" "1 \<le> j" "j \<le> limit" for j
      using flag [OF that(2,3)] that(1,2) d by (metis dvd_imp_le dvd_trans leD less_le_trans zero_less_one)
    with get False split len show ?thesis by (auto simp: sieve_step_def sieved_def)
  qed
qed

lemma sieve_ok:
  assumes "limit \<le> length flags" "\<forall>j<limit. flags ! j" "int (2 * limit) \<le> INT_MAX"
  shows "sieve flags limit = Inr (int (card {p. is_prime p \<and> p \<le> limit}))"
proof -
  have "\<exists>f. rfold (sieve_step limit) [2..<m] (flags, 0) = Inr (f, int (card {p. is_prime p \<and> p < m})) \<and>
      sieved limit m f" if "2 \<le> m" "m \<le> Suc limit" for m
    using that
  proof (induction m)
    case (Suc m)
    show ?case
    proof (cases "2 \<le> m")
      case True
      with Suc obtain f where f: "rfold (sieve_step limit) [2..<m] (flags, 0) =
          Inr (f, int (card {p. is_prime p \<and> p < m}))" "sieved limit m f" by auto
      have fin: "finite {p. is_prime p \<and> p < m}" by simp
      have "card {p. is_prime p \<and> p < m} \<le> card {..<m}" by (intro card_mono) auto
      then have "int (card {p. is_prime p \<and> p < m}) + 1 \<le> INT_MAX"
        using assms(3) Suc.prems(2) True by simp
      from sieve_step_ok [OF f(2) True _ assms(3) _ this] Suc.prems obtain f' where
        "sieve_step limit m (f, int (card {p. is_prime p \<and> p < m})) =
          Inr (f', if is_prime m then int (card {p. is_prime p \<and> p < m}) + 1 else int (card {p. is_prime p \<and> p < m}))"
        "sieved limit (Suc m) f'" by auto
      moreover have "{p. is_prime p \<and> p < Suc m} =
          (if is_prime m then insert m {p. is_prime p \<and> p < m} else {p. is_prime p \<and> p < m})"
        by (auto simp: less_Suc_eq)
      ultimately show ?thesis using f(1) True fin by (simp add: rfold_append)
    next
      case False
      with Suc.prems have "Suc m = 2" by simp
      moreover have "{p. is_prime p \<and> p < 2} = {}" by (auto simp: is_prime_def)
      moreover have "sieved limit 2 flags" using assms(1,2) by (auto simp: sieved_def)
      ultimately show ?thesis by (simp only: upt_conv_Nil order_refl rfold.simps) simp
    qed
  qed simp
  from this [of "Suc limit"] show ?thesis
  proof (cases "2 \<le> Suc limit")
    case False
    moreover from False have "{p. is_prime p \<and> p \<le> limit} = {}" by (auto simp: is_prime_def)
    ultimately show ?thesis by (simp add: sieve_def del: upt_Suc)
  qed (auto simp: sieve_def less_Suc_eq_le simp del: upt_Suc)
qed

section \<open>The result of the benchmark\<close>

text \<open>
  Below 71 * 71 a number is prime when none of the primes below 71 divides it properly; the count up
  to 5000 is evaluated with this test.
\<close>

definition small_primes :: "int list" where
  "small_primes = [2, 3, 5, 7, 11, 13, 17, 19, 23, 29, 31, 37, 41, 43, 47, 53, 59, 61, 67]"

definition prime_test :: "int \<Rightarrow> bool" where
  "prime_test n \<longleftrightarrow> list_all (\<lambda>p. n mod p \<noteq> 0 \<or> n = p) small_primes"

lemma small_divisor: "list_all (\<lambda>q. list_ex (\<lambda>p. q mod p = 0) small_primes) [2..70]"
  by code_simp

lemma small_divisor_ex:
  assumes "2 \<le> q" "q \<le> 70"
  shows "\<exists>p\<in>set small_primes. q mod p = 0"
proof -
  have "q \<in> {2..70}" using assms by simp
  then show ?thesis using small_divisor unfolding list_all_iff list_ex_iff set_upto by blast
qed

lemma composite_small_divisor:
  assumes "2 \<le> n" "n < 5041" "\<not> is_prime n"
  obtains q where "2 \<le> q" "q < 71" "q dvd n" "q < n"
proof -
  from assms(1,3) obtain d where d: "d dvd n" "d \<noteq> 1" "d \<noteq> n" by (auto simp: is_prime_def)
  then obtain e where e: "n = d * e" by blast
  with assms(1) d have de: "2 \<le> d" "2 \<le> e" by (cases d; cases e; auto)+
  have "d < 71 \<or> e < 71"
  proof (rule ccontr)
    assume "\<not> ?thesis"
    then have "71 * 71 \<le> d * e" by (intro mult_le_mono) auto
    with e assms(2) show False by simp
  qed
  with de e show ?thesis using that [of d] that [of e] by force
qed

lemma prime_test_iff:
  assumes "2 \<le> n" "n < 5041"
  shows "is_prime n \<longleftrightarrow> prime_test (int n)"
proof
  assume p: "is_prime n"
  have "int n = q" if "q \<in> set small_primes" "int n mod q = 0" for q
  proof -
    have "2 \<le> q" using that(1) by (auto simp: small_primes_def)
    then have "nat q dvd n" "nat q \<noteq> 1" "0 \<le> q" using that(2) by (auto simp: nat_dvd_iff mod_eq_0_iff_dvd)
    moreover from this(1) p have "nat q = 1 \<or> nat q = n" unfolding is_prime_def by blast
    ultimately show ?thesis by linarith
  qed
  then show "prime_test (int n)" by (auto simp: prime_test_def list_all_iff)
next
  assume t: "prime_test (int n)"
  show "is_prime n"
  proof (rule ccontr)
    assume "\<not> is_prime n"
    with assms obtain q where q: "2 \<le> q" "q < 71" "q dvd n" "q < n"
      using composite_small_divisor by blast
    then obtain p where p: "p \<in> set small_primes" "int q mod p = 0"
      using small_divisor_ex [of "int q"] by auto
    then have "p \<le> int q" using q(1) by (auto simp: mod_eq_0_iff_dvd intro: zdvd_imp_le)
    moreover have "int n mod p = 0"
      using p(2) q(3) by (meson dvd_trans mod_eq_0_iff_dvd int_dvd_int_iff)
    ultimately show False using t p(1) q(4) by (auto simp: prime_test_def list_all_iff)
  qed
qed

fun count_primes :: "int list \<Rightarrow> int" where
  "count_primes [] = 0"
| "count_primes (n # ns) = (if prime_test n then 1 else 0) + count_primes ns"

definition count_range :: "int \<Rightarrow> int \<Rightarrow> int" where
  "count_range a b = count_primes [a..b]"

lemma primes_block1: "count_range 2 700 = 125"
  by code_simp

lemma primes_block2: "count_range 701 1400 = 97"
  by code_simp

lemma primes_block3: "count_range 1401 2100 = 95"
  by code_simp

lemma primes_block4: "count_range 2101 2800 = 90"
  by code_simp

lemma primes_block5: "count_range 2801 3500 = 82"
  by code_simp

lemma primes_block6: "count_range 3501 4200 = 85"
  by code_simp

lemma primes_block7: "count_range 4201 5000 = 95"
  by code_simp

lemma count_primes_append: "count_primes (xs @ ys) = count_primes xs + count_primes ys"
  by (induction xs) auto

lemma count_range_split:
  "a \<le> m \<Longrightarrow> m < b \<Longrightarrow> count_range a b = count_range a m + count_range (m + 1) b"
  using upto_split1 [of a "m + 1" b] by (simp add: count_range_def count_primes_append)

lemma count_range_669: "count_range 2 5000 = 669"
  by (simp add: count_range_split [of 2 700] count_range_split [of 701 1400] count_range_split [of 1401 2100]
      count_range_split [of 2101 2800] count_range_split [of 2801 3500] count_range_split [of 3501 4200]
      primes_block1 primes_block2 primes_block3 primes_block4 primes_block5 primes_block6 primes_block7)

lemma count_primes_filter: "count_primes ns = int (length (filter prime_test ns))"
  by (induction ns) auto

lemma map_int_upt: "map int [a..<b] = [int a..int b - 1]"
  by (rule nth_equalityI) auto

lemma prime_count_range:
  assumes "n < 5041"
  shows "int (card {p. is_prime p \<and> p \<le> n}) = count_range 2 (int n)"
proof -
  let ?ps = "filter (\<lambda>n. prime_test (int n)) [2..<Suc n]"
  have "p \<in> {p. is_prime p \<and> p \<le> n} \<longleftrightarrow> p \<in> set ?ps" for p
    using prime_test_iff [of p] assms
    by (cases "2 \<le> p") (auto simp: is_prime_def [of p] simp del: upt_Suc)
  then have "{p. is_prime p \<and> p \<le> n} = set ?ps" by blast
  moreover have "card (set ?ps) = length ?ps" by (rule distinct_card) simp
  ultimately have "card {p. is_prime p \<and> p \<le> n} = length ?ps" by (simp only:)
  also have "\<dots> = length (filter prime_test (map int [2..<Suc n]))"
    by (simp only: filter_map length_map comp_def)
  finally show ?thesis
    by (simp add: count_range_def count_primes_filter map_int_upt del: upt_Suc)
qed

lemma prime_count_5000: "int (card {p. is_prime p \<and> p \<le> 5000}) = 669"
  using prime_count_range [of 5000] count_range_669 by simp

lemma raise_flags:
  "n \<le> length f \<Longrightarrow>
   rfold (\<lambda>i flags. arr_set flags (int i) True) [0..<n] f = Inr (replicate n True @ drop n f)"
proof (induction n)
  case (Suc n)
  then have "drop n f = f ! n # drop (Suc n) f" by (simp add: Cons_nth_drop_Suc)
  with Suc show ?case
    by (simp add: rfold_append arr_set_def list_update_append replicate_append_same)
qed simp

lemma sieve_benchmark_result: "sieve_benchmark = Inr 669"
proof -
  have "rfold (\<lambda>i flags. arr_set flags (int i) True) [0..<5000] (replicate 5000 False) =
      Inr (replicate 5000 True)"
    using raise_flags [of 5000 "replicate 5000 False"] by simp
  moreover have "sieve (replicate 5000 True) 5000 = Inr 669"
    using sieve_ok [of 5000 "replicate 5000 True"] by (simp add: prime_count_5000 INT_MAX_def)
  ultimately show ?thesis by (simp only: sieve_benchmark_def Let_def rbind.simps)
qed

section \<open>The benchmark object\<close>

definition Sieve_create :: "unit benchmark" where
  "Sieve_create = plain_benchmark sieve_benchmark sieve_verifyResult"

interpretation sieve: verified_benchmark Sieve_create "\<lambda>s. True"
  unfolding Sieve_create_def by (rule plain_benchmark_ok) (simp_all add: sieve_benchmark_result sieve_verifyResult_def)

section \<open>Properties\<close>

text \<open>C28: on an array whose flags are all up, \<open>sieve\<close> returns the number of primes up to \<open>limit\<close>,
  without an index outside the array or an overflow.\<close>

theorem sieve_counts_primes:
  assumes "limit \<le> length flags" "\<forall>j<limit. flags ! j" "int (2 * limit) \<le> INT_MAX"
  shows "sieve flags limit =
    Inr (int (card {p. p \<le> limit \<and> 2 \<le> p \<and> (\<forall>d. d dvd p \<longrightarrow> d = 1 \<or> d = p)}))"
proof -
  have "{p. p \<le> limit \<and> 2 \<le> p \<and> (\<forall>d. d dvd p \<longrightarrow> d = 1 \<or> d = p)} = {p. is_prime p \<and> p \<le> limit}"
    by (auto simp: is_prime_def)
  then show ?thesis using sieve_ok [OF assms] by simp
qed

lemma sieve_counts_primes_witness:
  "int (card {p. p \<le> 6 \<and> 2 \<le> p \<and> (\<forall>d. d dvd p \<longrightarrow> d = 1 \<or> d = (p :: nat))}) = 3"
proof -
  have "sieve (replicate 6 True) 6 = Inr 3" by code_simp
  with sieve_counts_primes [of 6 "replicate 6 True"] show ?thesis by (simp add: INT_MAX_def)
qed

end
