(* ===== verification/AwfyStorage.thy ===== *)
theory AwfyStorage
  imports SomRandom AwfyRun
begin

text \<open>
  \<open>Storage.c\<close>: builds a tree of arrays of depth 7 and counts the nodes. A \<open>TreeArray\<close> is the list
  of its \<open>Tree\<close>s; the trees of a leaf array have no subtrees (\<open>calloc\<close> left their arrays null).
  The state is \<open>count\<close> and the seed of \<open>som/Random.c\<close>. \<open>freeTree\<close> only releases memory and is not
  modelled.
\<close>

datatype tree_array = TreeArray "tree_array list"

fun ta_arr :: "tree_array \<Rightarrow> tree_array list" where
  "ta_arr (TreeArray ts) = ts"

record storage_state =
  s_count :: int
  s_seed :: int

text \<open>
  \<open>buildTreeDepth d\<close> is the call with \<open>depth = d + 1\<close>; the code stops at \<open>depth == 1\<close> and never
  calls it with less. \<open>build_subs\<close> is its loop over the four children.
\<close>

fun build_subs ::
    "(storage_state \<Rightarrow> (tree_array \<times> storage_state) res) \<Rightarrow> nat \<Rightarrow> storage_state \<Rightarrow>
     (tree_array list \<times> storage_state) res" where
  "build_subs f 0 me = Inr ([], me)"
| "build_subs f (Suc i) me =
     rbind (f me) (\<lambda>(t, me). rbind (build_subs f i me) (\<lambda>(ts, me). Inr (t # ts, me)))"

fun buildTreeDepth :: "nat \<Rightarrow> storage_state \<Rightarrow> (tree_array \<times> storage_state) res" where
  "buildTreeDepth 0 me =
     rbind (c_int (s_count me + 1)) (\<lambda>c.
     rbind (Random_next (s_seed me)) (\<lambda>(r, seed).
       let len = r mod 10 + 1
       in Inr (TreeArray (replicate (nat len) (TreeArray [])), me\<lparr>s_count := c, s_seed := seed\<rparr>)))"
| "buildTreeDepth (Suc d) me =
     rbind (c_int (s_count me + 1)) (\<lambda>c.
     rbind (build_subs (buildTreeDepth d) 4 (me\<lparr>s_count := c\<rparr>)) (\<lambda>(ts, me).
       Inr (TreeArray ts, me)))"

definition storage_benchmark :: "int res" where
  "storage_benchmark =
     rbind (buildTreeDepth 6 \<lparr>s_count = 0, s_seed = Random_reset\<rparr>) (\<lambda>(arr, me). Inr (s_count me))"

definition storage_verifyResult :: "int \<Rightarrow> bool" where
  "storage_verifyResult result \<longleftrightarrow> 5461 = result"

section \<open>Shape and count\<close>

text \<open>A full tree: four children down to the leaf arrays, which hold one to ten empty trees.\<close>

fun full_tree :: "nat \<Rightarrow> tree_array \<Rightarrow> bool" where
  "full_tree 0 t \<longleftrightarrow> (\<exists>n\<in>{1..10}. ta_arr t = replicate n (TreeArray []))"
| "full_tree (Suc d) t \<longleftrightarrow> length (ta_arr t) = 4 \<and> (\<forall>s\<in>set (ta_arr t). full_tree d s)"

fun arrays :: "nat \<Rightarrow> nat" where
  "arrays 0 = 1"
| "arrays (Suc d) = 1 + 4 * arrays d"

lemma arrays_geometric: "3 * arrays d + 1 = 4 ^ Suc d"
  by (induction d) (auto simp: algebra_simps)

definition seed_ok :: "storage_state \<Rightarrow> bool" where
  "seed_ok me \<longleftrightarrow> 0 \<le> s_seed me \<and> s_seed me \<le> Random_init"

lemma leaf_length: "\<exists>n\<in>{1..10}. nat (rstep s mod 10 + 1) = n"
proof -
  have "0 \<le> rstep s mod 10" "rstep s mod 10 < 10" by auto
  then have "1 \<le> nat (rstep s mod 10 + 1)" "nat (rstep s mod 10 + 1) \<le> 10" by linarith+
  then show ?thesis by auto
qed

lemma build_subs_ok:
  assumes step: "\<And>me. seed_ok me \<Longrightarrow> 0 \<le> s_count me \<Longrightarrow> s_count me + int k \<le> INT_MAX \<Longrightarrow>
      \<exists>t me'. f me = Inr (t, me') \<and> full_tree d t \<and> s_count me' = s_count me + int k \<and> seed_ok me'"
    and "seed_ok me" "0 \<le> s_count me" "s_count me + int (i * k) \<le> INT_MAX"
  shows "\<exists>ts me'. build_subs f i me = Inr (ts, me') \<and> length ts = i \<and> (\<forall>t\<in>set ts. full_tree d t) \<and>
    s_count me' = s_count me + int (i * k) \<and> seed_ok me'"
  using assms(2-4)
proof (induction i arbitrary: me)
  case (Suc i)
  have le: "int (Suc i * k) = int k + int (i * k)" by simp
  then have "s_count me + int k \<le> INT_MAX" using Suc.prems(3) by linarith
  from step [OF Suc.prems(1,2) this] obtain t me1 where
    1: "f me = Inr (t, me1)" "full_tree d t" "s_count me1 = s_count me + int k" "seed_ok me1" by blast
  have "0 \<le> s_count me1" "s_count me1 + int (i * k) \<le> INT_MAX"
    using 1(3) Suc.prems(2,3) le by linarith+
  from Suc.IH [OF 1(4) this] obtain ts me2 where
    2: "build_subs f i me1 = Inr (ts, me2)" "length ts = i" "\<forall>t\<in>set ts. full_tree d t"
      "s_count me2 = s_count me1 + int (i * k)" "seed_ok me2" by blast
  from 1 2 show ?case by simp
qed simp

lemma buildTreeDepth_ok:
  "seed_ok me \<Longrightarrow> 0 \<le> s_count me \<Longrightarrow> s_count me + int (arrays d) \<le> INT_MAX \<Longrightarrow>
   \<exists>t me'. buildTreeDepth d me = Inr (t, me') \<and> full_tree d t \<and>
     s_count me' = s_count me + int (arrays d) \<and> seed_ok me'"
proof (induction d arbitrary: me)
  case 0
  then have "c_int (s_count me + 1) = Inr (s_count me + 1)"
    by (intro c_int_ok) (auto simp: INT_MAX_def)
  with 0 leaf_length [of "s_seed me"] show ?case
    by (auto simp: Random_next_rstep seed_ok_def rstep_range Let_def)
next
  case (Suc d)
  have a: "int (arrays (Suc d)) = 1 + int (4 * arrays d)" by simp
  then have c: "c_int (s_count me + 1) = Inr (s_count me + 1)"
    using Suc.prems(2,3) by (intro c_int_ok) (simp_all add: INT_MAX_def)
  have "\<exists>ts me'. build_subs (buildTreeDepth d) 4 (me\<lparr>s_count := s_count me + 1\<rparr>) = Inr (ts, me') \<and>
      length ts = 4 \<and> (\<forall>t\<in>set ts. full_tree d t) \<and>
      s_count me' = s_count (me\<lparr>s_count := s_count me + 1\<rparr>) + int (4 * arrays d) \<and> seed_ok me'"
    using Suc.prems a by (intro build_subs_ok Suc.IH) (auto simp: seed_ok_def)
  with c show ?case by auto
qed

lemma storage_benchmark_result: "storage_benchmark = Inr 5461"
proof -
  have "arrays 6 = 5461" by code_simp
  with buildTreeDepth_ok [of "\<lparr>s_count = 0, s_seed = Random_reset\<rparr>" 6] show ?thesis
    by (auto simp: storage_benchmark_def seed_ok_def Random_reset_def Random_init_def INT_MAX_def
        simp del: arrays.simps buildTreeDepth.simps)
qed

section \<open>The benchmark object\<close>

definition Storage_create :: "unit benchmark" where
  "Storage_create = plain_benchmark storage_benchmark storage_verifyResult"

interpretation storage: verified_benchmark Storage_create "\<lambda>s. True"
  unfolding Storage_create_def by (rule plain_benchmark_ok) (simp_all add: storage_benchmark_result storage_verifyResult_def)

section \<open>Properties\<close>

text \<open>C36: \<open>buildTreeDepth\<close> at depth \<open>d + 1\<close> builds a full tree with four subtrees in every inner
  array and one to ten empty trees in every leaf array, and counts its \<open>(4^(d+1) - 1) / 3\<close> arrays.\<close>

theorem buildTreeDepth_full:
  assumes "0 \<le> s_seed me" "s_seed me \<le> Random_init" "0 \<le> s_count me"
    and "3 * s_count me + 4 ^ Suc d \<le> 3 * INT_MAX"
  shows "\<exists>t me'. buildTreeDepth d me = Inr (t, me') \<and> full_tree d t \<and>
    3 * s_count me' + 1 = 3 * s_count me + 4 ^ Suc d"
proof -
  have "int (3 * arrays d + 1) = int (4 ^ Suc d)" unfolding arrays_geometric ..
  then have a: "3 * int (arrays d) + 1 = 4 ^ Suc d" by simp
  have "s_count me + int (arrays d) \<le> INT_MAX" using a assms(4) by linarith
  from buildTreeDepth_ok [OF _ assms(3) this] assms(1,2) obtain t me' where
    t: "buildTreeDepth d me = Inr (t, me')" "full_tree d t" "s_count me' = s_count me + int (arrays d)"
    by (auto simp: seed_ok_def)
  from t(3) a have "3 * s_count me' + 1 = 3 * s_count me + 4 ^ Suc d" by linarith
  with t(1,2) show ?thesis by blast
qed

lemma buildTreeDepth_full_witness:
  "\<exists>t me'. buildTreeDepth 1 \<lparr>s_count = 0, s_seed = 74755\<rparr> = Inr (t, me') \<and> full_tree 1 t \<and>
    s_count me' = 5"
proof -
  from buildTreeDepth_full [of "\<lparr>s_count = 0, s_seed = 74755\<rparr>" 1] obtain t me' where
    "buildTreeDepth 1 \<lparr>s_count = 0, s_seed = 74755\<rparr> = Inr (t, me')" "full_tree 1 t"
    "3 * s_count me' + 1 = 16"
    by (auto simp: Random_init_def INT_MAX_def simp del: buildTreeDepth.simps full_tree.simps)
  then show ?thesis by auto
qed

end
