(* ===== verification/AwfyBounce.thy ===== *)
theory AwfyBounce
  imports SomRandom AwfyRun
begin

text \<open>
  \<open>Bounce.c\<close>: a hundred balls in a 500 by 500 box. A ball is the C struct; the seed of
  \<open>som/Random.c\<close> is passed along.
\<close>

record ball =
  ball_x :: int
  ball_y :: int
  xVel :: int
  yVel :: int

definition Ball_init :: "int \<Rightarrow> (ball \<times> int) res" where
  "Ball_init seed =
     rbind (Random_next seed) (\<lambda>(r1, seed).
     rbind (Random_next seed) (\<lambda>(r2, seed).
     rbind (Random_next seed) (\<lambda>(r3, seed).
     rbind (Random_next seed) (\<lambda>(r4, seed).
       Inr (\<lparr>ball_x = r1 mod 500, ball_y = r2 mod 500, xVel = r3 mod 300 - 150,
             yVel = r4 mod 300 - 150\<rparr>, seed)))))"

text \<open>The four tests run in sequence, each on the state the earlier ones left.\<close>

definition Ball_bounce :: "ball \<Rightarrow> (bool \<times> ball) res" where
  "Ball_bounce me =
     (let xLimit = 500; yLimit = 500 in
      rbind (c_int (ball_x me + xVel me)) (\<lambda>x.
      rbind (c_int (ball_y me + yVel me)) (\<lambda>y.
        let me = me\<lparr>ball_x := x, ball_y := y\<rparr>;
            (bounced, me) =
              (if ball_x me > xLimit
               then (True, me\<lparr>ball_x := xLimit, xVel := 0 - \<bar>xVel me\<bar>\<rparr>) else (False, me));
            (bounced, me) =
              (if ball_x me < 0 then (True, me\<lparr>ball_x := 0, xVel := \<bar>xVel me\<bar>\<rparr>) else (bounced, me));
            (bounced, me) =
              (if ball_y me > yLimit
               then (True, me\<lparr>ball_y := yLimit, yVel := 0 - \<bar>yVel me\<bar>\<rparr>) else (bounced, me));
            (bounced, me) =
              (if ball_y me < 0 then (True, me\<lparr>ball_y := 0, yVel := \<bar>yVel me\<bar>\<rparr>) else (bounced, me))
        in Inr (bounced, me))))"

fun init_balls :: "nat \<Rightarrow> int \<Rightarrow> (ball list \<times> int) res" where
  "init_balls 0 seed = Inr ([], seed)"
| "init_balls (Suc n) seed =
     rbind (Ball_init seed) (\<lambda>(b, seed). rbind (init_balls n seed) (\<lambda>(bs, seed). Inr (b # bs, seed)))"

text \<open>One pass of the inner loop over the balls, with the running bounce count.\<close>

fun bounce_all :: "ball list \<Rightarrow> int \<Rightarrow> (ball list \<times> int) res" where
  "bounce_all [] bounces = Inr ([], bounces)"
| "bounce_all (b # bs) bounces =
     rbind (Ball_bounce b) (\<lambda>(bounced, b).
     rbind (if bounced then c_int (bounces + 1) else Inr bounces) (\<lambda>bounces.
     rbind (bounce_all bs bounces) (\<lambda>(bs, bounces). Inr (b # bs, bounces))))"

fun bounce_rounds :: "nat \<Rightarrow> ball list \<Rightarrow> int \<Rightarrow> (ball list \<times> int) res" where
  "bounce_rounds 0 bs bounces = Inr (bs, bounces)"
| "bounce_rounds (Suc n) bs bounces =
     rbind (bounce_all bs bounces) (\<lambda>(bs, bounces). bounce_rounds n bs bounces)"

definition bounce_benchmark :: "int res" where
  "bounce_benchmark =
     rbind (init_balls 100 Random_reset) (\<lambda>(bs, seed).
     rbind (bounce_rounds 50 bs 0) (\<lambda>(bs, bounces). Inr bounces))"

definition bounce_verifyResult :: "int \<Rightarrow> bool" where
  "bounce_verifyResult result \<longleftrightarrow> 1331 = result"

section \<open>Balls stay in the box\<close>

definition in_box :: "ball \<Rightarrow> bool" where
  "in_box b \<longleftrightarrow> 0 \<le> ball_x b \<and> ball_x b \<le> 500 \<and> 0 \<le> ball_y b \<and> ball_y b \<le> 500 \<and>
     \<bar>xVel b\<bar> \<le> 150 \<and> \<bar>yVel b\<bar> \<le> 150"

text \<open>
  One coordinate of a bounce: clamped to the box, and the speed turned away from the wall that was
  crossed.
\<close>

definition wall :: "int \<Rightarrow> int \<Rightarrow> int \<times> int" where
  "wall p v =
     (if p + v > 500 then (500, - \<bar>v\<bar>) else if p + v < 0 then (0, \<bar>v\<bar>) else (p + v, v))"

lemma Ball_bounce_wall:
  assumes "in_box b"
  shows "Ball_bounce b =
    Inr (ball_x b + xVel b \<notin> {0..500} \<or> ball_y b + yVel b \<notin> {0..500},
      \<lparr>ball_x = fst (wall (ball_x b) (xVel b)), ball_y = fst (wall (ball_y b) (yVel b)),
       xVel = snd (wall (ball_x b) (xVel b)), yVel = snd (wall (ball_y b) (yVel b))\<rparr>)"
proof -
  have "c_int (ball_x b + xVel b) = Inr (ball_x b + xVel b)"
    "c_int (ball_y b + yVel b) = Inr (ball_y b + yVel b)"
    using assms by (auto simp: in_box_def c_int_def INT_MAX_def)
  then show ?thesis by (simp add: Ball_bounce_def Let_def wall_def)
qed

lemma wall_bounds:
  "0 \<le> p \<Longrightarrow> p \<le> 500 \<Longrightarrow> 0 \<le> fst (wall p v) \<and> fst (wall p v) \<le> 500 \<and> \<bar>snd (wall p v)\<bar> = \<bar>v\<bar>"
  by (auto simp: wall_def)

lemma Ball_bounce_ok:
  assumes "in_box b"
  shows "\<exists>r b'. Ball_bounce b = Inr (r, b') \<and> in_box b' \<and> \<bar>xVel b'\<bar> = \<bar>xVel b\<bar> \<and> \<bar>yVel b'\<bar> = \<bar>yVel b\<bar>"
  using assms wall_bounds [of "ball_x b" "xVel b"] wall_bounds [of "ball_y b" "yVel b"]
  by (simp add: Ball_bounce_wall in_box_def)

lemma Ball_init_ok:
  assumes "0 \<le> s" "s \<le> Random_init"
  shows "\<exists>b s'. Ball_init s = Inr (b, s') \<and> in_box b \<and> 0 \<le> s' \<and> s' \<le> Random_init"
  using assms
  by (auto simp: Ball_init_def Random_next_rstep rstep_range in_box_def abs_le_iff
      intro: order_trans [OF less_imp_le [OF pos_mod_bound]])

lemma init_balls_ok:
  "0 \<le> s \<Longrightarrow> s \<le> Random_init \<Longrightarrow>
   \<exists>bs s'. init_balls n s = Inr (bs, s') \<and> length bs = n \<and> (\<forall>b\<in>set bs. in_box b)"
proof (induction n arbitrary: s)
  case (Suc n)
  from Ball_init_ok [OF Suc.prems] obtain b s1 where
    "Ball_init s = Inr (b, s1)" "in_box b" "0 \<le> s1" "s1 \<le> Random_init" by auto
  with Suc.IH [of s1] show ?case by auto
qed simp

lemma bounce_all_ok:
  "\<forall>b\<in>set bs. in_box b \<Longrightarrow> 0 \<le> k \<Longrightarrow> k + int (length bs) \<le> INT_MAX \<Longrightarrow>
   \<exists>bs' k'. bounce_all bs k = Inr (bs', k') \<and> length bs' = length bs \<and> (\<forall>b\<in>set bs'. in_box b) \<and>
     k \<le> k' \<and> k' \<le> k + int (length bs)"
proof (induction bs arbitrary: k)
  case (Cons b bs)
  from Ball_bounce_ok [of b] Cons.prems(1) obtain r b' where
    b: "Ball_bounce b = Inr (r, b')" "in_box b'" by auto
  have "(if r then c_int (k + 1) else Inr k) = Inr (if r then k + 1 else k)"
    using Cons.prems by (auto simp: c_int_def INT_MAX_def)
  moreover from Cons.IH [of "if r then k + 1 else k"] Cons.prems have
    "\<exists>bs' k'. bounce_all bs (if r then k + 1 else k) = Inr (bs', k') \<and> length bs' = length bs \<and>
      (\<forall>b\<in>set bs'. in_box b) \<and> k \<le> k' \<and> k' \<le> k + 1 + int (length bs)"
    by (cases r) auto
  ultimately show ?case using b by auto
qed simp

lemma bounce_rounds_ok:
  "\<forall>b\<in>set bs. in_box b \<Longrightarrow> 0 \<le> k \<Longrightarrow> k + int (n * length bs) \<le> INT_MAX \<Longrightarrow>
   \<exists>bs' k'. bounce_rounds n bs k = Inr (bs', k') \<and> (\<forall>b\<in>set bs'. in_box b) \<and>
     k \<le> k' \<and> k' \<le> k + int (n * length bs)"
proof (induction n arbitrary: bs k)
  case (Suc n)
  have le: "int (Suc n * length bs) = int (length bs) + int (n * length bs)" by simp
  then have "k + int (length bs) \<le> INT_MAX" using Suc.prems(3) by linarith
  from bounce_all_ok [OF Suc.prems(1,2) this] obtain bs1 k1 where
    1: "bounce_all bs k = Inr (bs1, k1)" "length bs1 = length bs" "\<forall>b\<in>set bs1. in_box b"
      "k \<le> k1" "k1 \<le> k + int (length bs)" by blast
  have "0 \<le> k1" "k1 + int (n * length bs1) \<le> INT_MAX"
    using 1(2,4,5) Suc.prems(2,3) le by simp_all
  from Suc.IH [OF 1(3) this] 1 le show ?case by fastforce
qed simp

section \<open>The result of the benchmark\<close>

text \<open>
  Every ball moves on its own, so the count is the sum over the balls of how often each bounces;
  that sum is evaluated ball by ball.
\<close>

definition ball_next :: "ball \<Rightarrow> ball" where
  "ball_next b =
     \<lparr>ball_x = fst (wall (ball_x b) (xVel b)), ball_y = fst (wall (ball_y b) (yVel b)),
      xVel = snd (wall (ball_x b) (xVel b)), yVel = snd (wall (ball_y b) (yVel b))\<rparr>"

definition ball_out :: "ball \<Rightarrow> bool" where
  "ball_out b \<longleftrightarrow> ball_x b + xVel b > 500 \<or> ball_x b + xVel b < 0 \<or>
     ball_y b + yVel b > 500 \<or> ball_y b + yVel b < 0"

fun ball_bounces :: "nat \<Rightarrow> ball \<Rightarrow> int" where
  "ball_bounces 0 b = 0"
| "ball_bounces (Suc n) b = (if ball_out b then 1 else 0) + ball_bounces n (ball_next b)"

lemma Ball_bounce_next: "in_box b \<Longrightarrow> Ball_bounce b = Inr (ball_out b, ball_next b)"
  by (auto simp: Ball_bounce_wall ball_next_def ball_out_def)

lemma ball_next_in_box: "in_box b \<Longrightarrow> in_box (ball_next b)"
  using Ball_bounce_ok [of b] by (auto simp: Ball_bounce_next)

abbreviation outs :: "ball list \<Rightarrow> int" where
  "outs bs \<equiv> \<Sum>b\<leftarrow>bs. if ball_out b then 1 else 0"

lemma outs_bounds: "0 \<le> outs bs" "outs bs \<le> int (length bs)"
  by (induction bs) auto

lemma bounce_all_eq:
  "\<forall>b\<in>set bs. in_box b \<Longrightarrow> 0 \<le> k \<Longrightarrow> k + int (length bs) \<le> INT_MAX \<Longrightarrow>
   bounce_all bs k = Inr (map ball_next bs, k + outs bs)"
  by (induction bs arbitrary: k) (auto simp: Ball_bounce_next c_int_def INT_MAX_def)

lemma bounce_rounds_eq:
  "\<forall>b\<in>set bs. in_box b \<Longrightarrow> 0 \<le> k \<Longrightarrow> k + int (n * length bs) \<le> INT_MAX \<Longrightarrow>
   \<exists>bs'. bounce_rounds n bs k = Inr (bs', k + (\<Sum>b\<leftarrow>bs. ball_bounces n b))"
proof (induction n arbitrary: bs k)
  case (Suc n)
  have le: "int (Suc n * length bs) = int (length bs) + int (n * length bs)" by simp
  then have b: "bounce_all bs k = Inr (map ball_next bs, k + outs bs)"
    using Suc.prems(3) by (intro bounce_all_eq [OF Suc.prems(1,2)]) linarith
  have "0 \<le> k + outs bs" "k + outs bs + int (n * length (map ball_next bs)) \<le> INT_MAX"
    using outs_bounds [of bs] Suc.prems(2,3) le by simp_all
  from Suc.IH [OF _ this] Suc.prems(1) obtain bs' where
    "bounce_rounds n (map ball_next bs) (k + outs bs) =
      Inr (bs', k + outs bs + (\<Sum>b\<leftarrow>map ball_next bs. ball_bounces n b))"
    by (auto simp: ball_next_in_box)
  with b show ?case by (simp add: sum_list_addf comp_def)
next
  case (0 bs)
  have "(\<Sum>b\<leftarrow>bs. ball_bounces 0 b) = 0" by (induction bs) auto
  then show ?case by simp
qed

definition ball_of :: "int \<Rightarrow> int \<Rightarrow> int \<Rightarrow> int \<Rightarrow> ball" where
  "ball_of a b c d =
     \<lparr>ball_x = a mod 500, ball_y = b mod 500, xVel = c mod 300 - 150, yVel = d mod 300 - 150\<rparr>"

text \<open>The draws that initialise \<open>n\<close> balls, and the balls made of consecutive groups of four.\<close>

fun seeds :: "nat \<Rightarrow> int \<Rightarrow> int list" where
  "seeds 0 s = []"
| "seeds (Suc n) s = rstep s # seeds n (rstep s)"

fun balls_of :: "int list \<Rightarrow> ball list" where
  "balls_of (a # b # c # d # r) = ball_of a b c d # balls_of r"
| "balls_of _ = []"

lemma init_balls_seeds:
  "0 \<le> s \<Longrightarrow> s \<le> Random_init \<Longrightarrow> \<exists>s'. init_balls n s = Inr (balls_of (seeds (4 * n) s), s')"
proof (induction n arbitrary: s)
  case (Suc n)
  have "4 * Suc n = Suc (Suc (Suc (Suc (4 * n))))" by simp
  then show ?case
    using Suc.IH [of "rstep (rstep (rstep (rstep s)))"] Suc.prems unfolding \<open>4 * Suc n = _\<close>
    by (auto simp: Ball_init_def Random_next_rstep rstep_range ball_of_def)
qed simp

lemma sum_bounces_1331: "(\<Sum>b\<leftarrow>balls_of (seeds 400 Random_init). ball_bounces 50 b) = 1331"
  by code_simp

lemma bounce_benchmark_result: "bounce_benchmark = Inr 1331"
proof -
  have r: "0 \<le> Random_init" "Random_init \<le> Random_init" by (simp_all add: Random_init_def)
  obtain s' where i: "init_balls 100 Random_init = Inr (balls_of (seeds 400 Random_init), s')"
    using init_balls_seeds [OF r, of 100] by auto
  with init_balls_ok [OF r, of 100] have
    "length (balls_of (seeds 400 Random_init)) = 100" "\<forall>b\<in>set (balls_of (seeds 400 Random_init)). in_box b"
    by auto
  with bounce_rounds_eq [of "balls_of (seeds 400 Random_init)" 0 50] obtain bs' where
    "bounce_rounds 50 (balls_of (seeds 400 Random_init)) 0 = Inr (bs', 1331)"
    unfolding sum_bounces_1331 by (auto simp: INT_MAX_def)
  with i show ?thesis by (simp add: bounce_benchmark_def Random_reset_def)
qed

section \<open>The benchmark object\<close>

definition Bounce_create :: "unit benchmark" where
  "Bounce_create = plain_benchmark bounce_benchmark bounce_verifyResult"

interpretation bounce: verified_benchmark Bounce_create "\<lambda>s. True"
  unfolding Bounce_create_def by (rule plain_benchmark_ok) (simp_all add: bounce_benchmark_result bounce_verifyResult_def)

section \<open>Properties\<close>

text \<open>C35: a ball in the box stays in the box: after a bounce both coordinates are again between 0 and
  500, each speed is unchanged up to its sign, the answer says whether a wall was crossed, and
  nothing overflows.\<close>

theorem Ball_bounce_in_box:
  assumes "in_box b"
  shows "\<exists>b'. Ball_bounce b =
      Inr (\<not> (0 \<le> ball_x b + xVel b \<and> ball_x b + xVel b \<le> 500 \<and>
              0 \<le> ball_y b + yVel b \<and> ball_y b + yVel b \<le> 500), b') \<and>
    in_box b' \<and> \<bar>xVel b'\<bar> = \<bar>xVel b\<bar> \<and> \<bar>yVel b'\<bar> = \<bar>yVel b\<bar>"
  using assms wall_bounds [of "ball_x b" "xVel b"] wall_bounds [of "ball_y b" "yVel b"]
  by (simp add: Ball_bounce_wall in_box_def) blast

lemma Ball_bounce_in_box_witness:
  "\<exists>b'. Ball_bounce \<lparr>ball_x = 450, ball_y = 20, xVel = 100, yVel = - 30\<rparr> = Inr (True, b') \<and> in_box b'"
proof -
  have "in_box \<lparr>ball_x = 450, ball_y = 20, xVel = 100, yVel = - 30\<rparr>" by (simp add: in_box_def)
  from Ball_bounce_in_box [OF this] show ?thesis by auto
qed

end
