(* ===== verification/AwfyTowers.thy ===== *)
theory AwfyTowers
  imports AwfyRun
begin

text \<open>
  \<open>Towers.c\<close>: the Towers of Hanoi. A pile is the linked list of its disks, top first, given by
  their sizes; \<open>TowersDisk_setNext\<close> and the store to \<open>piles\<close> make consing and taking the tail. The
  recursion of \<open>moveDisks\<close> runs on \<open>disks - 1\<close>, so its argument here is the predecessor: the code
  never calls it with fewer than one disk.
\<close>

section \<open>State and operations\<close>

record towers =
  piles :: "int list list"
  movesDone :: int

definition PilesCount :: nat where
  "PilesCount = 3"

definition pushDisk :: "int \<Rightarrow> int \<Rightarrow> towers \<Rightarrow> towers res" where
  "pushDisk disk pile me =
     rbind (arr_get (piles me) pile) (\<lambda>top.
       if top \<noteq> [] \<and> disk \<ge> hd top then Inl AssertFailed
       else rbind (arr_set (piles me) pile (disk # top)) (\<lambda>ps. Inr (me\<lparr>piles := ps\<rparr>)))"

definition popDiskFrom :: "int \<Rightarrow> towers \<Rightarrow> (int \<times> towers) res" where
  "popDiskFrom pile me =
     rbind (arr_get (piles me) pile) (\<lambda>top.
       case top of
         [] \<Rightarrow> Inl AssertFailed
       | disk # rest \<Rightarrow>
           rbind (arr_set (piles me) pile rest) (\<lambda>ps. Inr (disk, me\<lparr>piles := ps\<rparr>)))"

definition moveTopDisk :: "int \<Rightarrow> int \<Rightarrow> towers \<Rightarrow> towers res" where
  "moveTopDisk fromPile toPile me =
     rbind (popDiskFrom fromPile me) (\<lambda>(disk, me).
     rbind (pushDisk disk toPile me) (\<lambda>me.
     rbind (c_int (movesDone me + 1)) (\<lambda>m. Inr (me\<lparr>movesDone := m\<rparr>))))"

definition buildTowerAt :: "int \<Rightarrow> nat \<Rightarrow> towers \<Rightarrow> towers res" where
  "buildTowerAt pile disks me = rfold (\<lambda>i me. pushDisk (int i) pile me) (rev [0..<Suc disks]) me"

text \<open>\<open>moveDisks n f t\<close> is the call for \<open>n + 1\<close> disks.\<close>

fun moveDisks :: "nat \<Rightarrow> int \<Rightarrow> int \<Rightarrow> towers \<Rightarrow> towers res" where
  "moveDisks 0 fromPile toPile me = moveTopDisk fromPile toPile me"
| "moveDisks (Suc n) fromPile toPile me =
     (let otherPile = (3 - fromPile) - toPile in
      rbind (moveDisks n fromPile otherPile me) (\<lambda>me.
      rbind (moveTopDisk fromPile toPile me) (\<lambda>me.
        moveDisks n otherPile toPile me)))"

definition towers_benchmark :: "towers res" where
  "towers_benchmark =
     rbind (buildTowerAt 0 13 \<lparr>piles = replicate PilesCount [], movesDone = 0\<rparr>) (\<lambda>me.
       moveDisks 12 0 1 (me\<lparr>movesDone := 0\<rparr>))"

definition towers_verifyResult :: "int \<Rightarrow> bool" where
  "towers_verifyResult result \<longleftrightarrow> result = 8191"

section \<open>Moving a tower\<close>

text \<open>
  A pile is ordered when every disk is smaller than the ones below it. A state is well formed when
  it has three ordered piles.
\<close>

definition ordered :: "towers \<Rightarrow> bool" where
  "ordered me \<longleftrightarrow> length (piles me) = PilesCount \<and> (\<forall>p\<in>set (piles me). sorted_wrt (<) p)"

definition distinct_piles :: "int \<Rightarrow> int \<Rightarrow> bool" where
  "distinct_piles f t \<longleftrightarrow> 0 \<le> f \<and> f < 3 \<and> 0 \<le> t \<and> t < 3 \<and> f \<noteq> t"

text \<open>The effect of moving the top \<open>length ds\<close> disks, \<open>ds\<close>, when \<open>rest\<close> lies below them.\<close>

definition moved :: "int \<Rightarrow> int \<Rightarrow> int list \<Rightarrow> int list \<Rightarrow> int \<Rightarrow> towers \<Rightarrow> towers" where
  "moved f t ds rest k me =
     me\<lparr>piles := (piles me)[nat f := rest, nat t := ds @ piles me ! nat t],
        movesDone := movesDone me + k\<rparr>"

lemma moveTopDisk_ok:
  assumes "distinct_piles f t" "length (piles me) = 3" "piles me ! nat f = d # rest"
    and "piles me ! nat t = [] \<or> d < hd (piles me ! nat t)"
    and "0 \<le> movesDone me" "movesDone me + 1 \<le> INT_MAX"
  shows "moveTopDisk f t me = Inr (moved f t [d] rest 1 me)"
  using assms
  by (auto simp: moveTopDisk_def popDiskFrom_def pushDisk_def arr_get_ok arr_set_ok c_int_def moved_def
      distinct_piles_def INT_MAX_def nth_list_update nat_eq_iff)

text \<open>No disk of \<open>ds\<close> is put on a smaller one: all three piles hold only larger disks below.\<close>

definition clear_for :: "int list \<Rightarrow> int list \<Rightarrow> towers \<Rightarrow> int \<Rightarrow> bool" where
  "clear_for ds rest me f \<longleftrightarrow>
     (\<forall>d\<in>set ds. (\<forall>x\<in>set rest. d < x) \<and>
        (\<forall>p<3. p \<noteq> nat f \<longrightarrow> (\<forall>x\<in>set (piles me ! p). d < x)))"

lemma moveDisks_ok:
  assumes "distinct_piles f t" "length (piles me) = 3" "piles me ! nat f = ds @ rest"
    and "length ds = Suc n" "sorted_wrt (<) ds" "clear_for ds rest me f"
    and "0 \<le> movesDone me" "movesDone me + (2 ^ Suc n - 1) \<le> INT_MAX"
  shows "moveDisks n f t me = Inr (moved f t ds rest (2 ^ Suc n - 1) me)"
  using assms
proof (induction n arbitrary: f t ds rest me)
  case 0
  then obtain d where "ds = [d]" by (cases ds) auto
  moreover from 0 have t: "nat t < 3" "nat t \<noteq> nat f" by (auto simp: distinct_piles_def)
  moreover have "d < hd (piles me ! nat t)" if "ds = [d]" "piles me ! nat t \<noteq> []" for d
    using 0(6) that t by (simp add: clear_for_def)
  ultimately show ?case using 0 by (auto intro!: moveTopDisk_ok)
next
  case (Suc n)
  let ?o = "3 - f - t"
  obtain es d where ds: "ds = es @ [d]" "length es = Suc n"
    using Suc.prems(4) by (metis length_Suc_conv_rev)
  have fto: "distinct_piles f ?o" "distinct_piles ?o t" "distinct_piles f t" "nat t < 3" "nat f < 3"
      "nat ?o < 3" "nat t \<noteq> nat f" "nat ?o \<noteq> nat f" "nat t \<noteq> nat ?o"
      "\<And>p. p < 3 \<Longrightarrow> p \<noteq> nat ?o \<Longrightarrow> p = nat f \<or> p = nat t"
  proof -
    have "f = 0 \<or> f = 1 \<or> f = 2" "t = 0 \<or> t = 1 \<or> t = 2" "f \<noteq> t"
      using Suc.prems(1) by (auto simp: distinct_piles_def)
    then show "distinct_piles f ?o" "distinct_piles ?o t" "distinct_piles f t" "nat t < 3" "nat f < 3"
      "nat ?o < 3" "nat t \<noteq> nat f" "nat ?o \<noteq> nat f" "nat t \<noteq> nat ?o"
      "\<And>p. p < 3 \<Longrightarrow> p \<noteq> nat ?o \<Longrightarrow> p = nat f \<or> p = nat t"
      by (auto simp: distinct_piles_def)
  qed
  have es: "sorted_wrt (<) es" "\<forall>x\<in>set es. x < d"
    using Suc.prems(5) ds by (auto simp: sorted_wrt_append)
  have two: "(1 :: int) \<le> 2 ^ n" by simp
  let ?k = "2 ^ Suc n - 1 :: int"
  let ?m1 = "moved f ?o es (d # rest) ?k me"
  have 1: "moveDisks n f ?o me = Inr ?m1"
  proof (rule Suc.IH [OF fto(1) Suc.prems(2) _ ds(2) es(1) _ Suc.prems(7)])
    show "piles me ! nat f = es @ d # rest" using Suc.prems(3) ds by simp
    show "clear_for es (d # rest) me f" using Suc.prems(6) ds es by (auto simp: clear_for_def)
    show "movesDone me + (2 ^ Suc n - 1) \<le> INT_MAX" using Suc.prems(8) two unfolding power_Suc by linarith
  qed
  let ?m2 = "moved f t [d] rest 1 ?m1"
  have p1: "length (piles ?m1) = 3" "piles ?m1 ! nat f = d # rest" "piles ?m1 ! nat t = piles me ! nat t"
      "piles ?m1 ! nat ?o = es @ piles me ! nat ?o" "movesDone ?m1 = movesDone me + ?k"
    using Suc.prems(2) fto by (simp_all add: moved_def)
  have 2: "moveTopDisk f t ?m1 = Inr ?m2"
  proof (rule moveTopDisk_ok [OF fto(3) p1(1,2)])
    have "d < hd (piles me ! nat t)" if "piles me ! nat t \<noteq> []"
      using Suc.prems(6) ds that fto by (auto simp: clear_for_def)
    then show "piles ?m1 ! nat t = [] \<or> d < hd (piles ?m1 ! nat t)" unfolding p1 by blast
    show "0 \<le> movesDone ?m1" "movesDone ?m1 + 1 \<le> INT_MAX"
      unfolding p1 using Suc.prems(7,8) two unfolding power_Suc by linarith+
  qed
  have p2: "length (piles ?m2) = 3" "piles ?m2 ! nat f = rest" "piles ?m2 ! nat t = d # piles me ! nat t"
      "piles ?m2 ! nat ?o = es @ piles me ! nat ?o" "movesDone ?m2 = movesDone me + ?k + 1"
    using p1 fto by (simp_all add: moved_def)
  have 3: "moveDisks n ?o t ?m2 = Inr (moved ?o t es (piles me ! nat ?o) ?k ?m2)"
  proof (rule Suc.IH [OF fto(2) p2(1,4) ds(2) es(1)])
    have x_rest: "x < y" if "x \<in> set es" "y \<in> set rest" for x y
      using Suc.prems(6) that by (simp add: clear_for_def ds(1))
    have x_pile: "x < y" if "x \<in> set es" "y \<in> set (piles me ! p)" "p < 3" "p \<noteq> nat f" for x y p
      using Suc.prems(6) that by (simp add: clear_for_def ds(1))
    have x_m2: "x < y" if x: "x \<in> set es" and p: "p < 3" "p \<noteq> nat ?o" "y \<in> set (piles ?m2 ! p)" for x y p
    proof -
      from p(1,2) consider "p = nat f" | "p = nat t" using fto(10) by blast
      then show ?thesis
      proof cases
        case 1
        with p(3) p2(2) x_rest x show ?thesis by simp
      next
        case 2
        with p(3) p2(3) have "y = d \<or> y \<in> set (piles me ! nat t)" by simp
        with x es(2) x_pile [OF x _ fto(4,7)] show ?thesis by blast
      qed
    qed
    show "clear_for es (piles me ! nat ?o) ?m2 ?o"
      unfolding clear_for_def using x_m2 x_pile [OF _ _ fto(6,8)] by blast
    show "0 \<le> movesDone ?m2" "movesDone ?m2 + (2 ^ Suc n - 1) \<le> INT_MAX"
      unfolding p2 using Suc.prems(7,8) two unfolding power_Suc by linarith+
  qed
  let ?l = "(piles ?m2)[nat ?o := piles me ! nat ?o, nat t := es @ piles ?m2 ! nat t]"
  let ?r = "(piles me)[nat f := rest, nat t := ds @ piles me ! nat t]"
  have "?l = ?r"
  proof (rule nth_equalityI)
    show "length ?l = length ?r" using p2(1) Suc.prems(2) by simp
    fix p assume "p < length ?l"
    then have "p < 3" using p2(1) by simp
    then consider "p = nat ?o" | "p = nat f" | "p = nat t" using fto(10) by blast
    then show "?l ! p = ?r ! p"
    proof cases
      case 1
      then have "?l ! p = piles me ! nat ?o" using p2(1) fto(6,9) by simp
      moreover have "?r ! p = piles me ! nat ?o" using 1 fto(8,9) by simp
      ultimately show ?thesis by (rule trans [OF _ sym])
    next
      case 2
      then have "?l ! p = piles ?m2 ! nat f" using fto(7,8) by simp
      moreover have "?r ! p = rest" using 2 Suc.prems(2) fto(5,7) by simp
      ultimately show ?thesis unfolding p2(2) by (rule trans [OF _ sym])
    next
      case 3
      then have "?l ! p = es @ piles ?m2 ! nat t" using p2(1) fto(4) by simp
      moreover have "?r ! p = ds @ piles me ! nat t" using 3 Suc.prems(2) fto(4) by simp
      ultimately show ?thesis unfolding p2(3) ds(1) by simp
    qed
  qed
  moreover have "movesDone ?m2 + ?k = movesDone me + (2 ^ Suc (Suc n) - 1)"
    unfolding p2(5) by simp
  ultimately have "moved ?o t es (piles me ! nat ?o) ?k ?m2 = moved f t ds rest (2 ^ Suc (Suc n) - 1) me"
    unfolding moved_def [of ?o t es] moved_def [of f t ds] by (simp add: moved_def)
  with 1 2 3 show ?case by (simp add: Let_def)
qed

lemma build_ok:
  "buildTowerAt 0 m \<lparr>piles = replicate PilesCount [], movesDone = 0\<rparr> =
   Inr \<lparr>piles = [map int [0..<Suc m], [], []], movesDone = 0\<rparr>"
proof -
  have *: "k \<le> Suc m \<Longrightarrow> rfold (\<lambda>i me. pushDisk (int i) 0 me) (rev [k..<Suc m])
      \<lparr>piles = [[], [], []], movesDone = 0\<rparr> = Inr \<lparr>piles = [map int [k..<Suc m], [], []], movesDone = 0\<rparr>" for k
  proof (induction "Suc m - k" arbitrary: k)
    case (Suc j)
    then have k: "[k..<Suc m] = k # [Suc k..<Suc m]" by (simp add: upt_conv_Cons del: upt_Suc)
    have "map int [Suc k..<Suc m] = [] \<or> int k < hd (map int [Suc k..<Suc m])"
      by (cases "Suc k < Suc m") (auto simp: upt_conv_Cons simp del: upt_Suc)
    with Suc k show ?case
      by (auto simp: rfold_append pushDisk_def arr_get_ok arr_set_ok not_le simp del: upt_Suc)
  qed simp
  from * [of 0] show ?thesis
    by (simp add: buildTowerAt_def PilesCount_def numeral_3_eq_3 del: upt_Suc)
qed

lemma towers_benchmark_result:
  "towers_benchmark = Inr \<lparr>piles = [[13], map int [0..<13], []], movesDone = 8191\<rparr>"
proof -
  let ?me = "\<lparr>piles = [map int [0..<14], [], []], movesDone = 0\<rparr>"
  have split: "map int [0..<14] = map int [0..<13] @ [13]" by (simp add: upt_rec)
  have "moveDisks 12 0 1 ?me = Inr (moved 0 1 (map int [0..<13]) [13] (2 ^ Suc 12 - 1) ?me)"
  proof (rule moveDisks_ok)
    show "clear_for (map int [0..<13]) [13] ?me 0"
      by (auto simp: clear_for_def less_Suc_eq numeral_3_eq_3)
  qed (auto simp: distinct_piles_def split sorted_wrt_map INT_MAX_def)
  then show ?thesis
    by (simp add: towers_benchmark_def build_ok moved_def)
qed

section \<open>The benchmark object\<close>

definition Towers_create :: "unit benchmark" where
  "Towers_create = plain_benchmark (rbind towers_benchmark (\<lambda>me. Inr (movesDone me))) towers_verifyResult"

interpretation towers: verified_benchmark Towers_create "\<lambda>s. True"
  unfolding Towers_create_def by (rule plain_benchmark_ok) (simp_all add: towers_benchmark_result towers_verifyResult_def)

section \<open>Properties\<close>

text \<open>C29: moving the top \<open>n + 1\<close> disks of a pile is correct: when the disks are ordered and every
  other disk in play is larger, \<open>moveDisks\<close> never fails an assertion, puts exactly these disks in
  order on the target pile, leaves the third pile as it was and counts \<open>2^(n+1) - 1\<close> moves.\<close>

theorem moveDisks_moves_tower:
  assumes "distinct_piles f t" "length (piles me) = 3" "piles me ! nat f = ds @ rest"
    and "length ds = Suc n" "sorted_wrt (<) ds" "clear_for ds rest me f"
    and "0 \<le> movesDone me" "movesDone me + (2 ^ Suc n - 1) \<le> INT_MAX"
  shows "moveDisks n f t me =
    Inr (me\<lparr>piles := (piles me)[nat f := rest, nat t := ds @ piles me ! nat t],
            movesDone := movesDone me + (2 ^ Suc n - 1)\<rparr>)"
  using moveDisks_ok [OF assms] by (simp add: moved_def)

lemma moveDisks_moves_tower_witness:
  "moveDisks 1 0 2 \<lparr>piles = [[1, 2, 5], [7], [4]], movesDone = 10\<rparr> =
    Inr \<lparr>piles = [[5], [7], [1, 2, 4]], movesDone = 13\<rparr>"
  using moveDisks_moves_tower [of 0 2 "\<lparr>piles = [[1, 2, 5], [7], [4]], movesDone = 10\<rparr>" "[1, 2]" "[5]" 1]
  by (simp add: distinct_piles_def clear_for_def INT_MAX_def All_less_Suc numeral_3_eq_3 numeral_2_eq_2
      del: moveDisks.simps)

end
