(* ===== verification/AwfyList.thy ===== *)
theory AwfyList
  imports AwfyRun
begin

text \<open>
  \<open>List.c\<close> and \<open>Object.c\<close>: the Takeuchi function on reference-counted linked lists. The heap maps
  addresses to the elements that are allocated; \<open>fresh\<close> is the next address \<open>malloc\<close> returns and a
  freed address is not reused. A null pointer is \<open>None\<close>. \<open>Element_deinit\<close> is the only destructor the
  code installs, so it is called directly instead of through \<open>deinit\<close>.
\<close>

section \<open>State and operations\<close>

record element =
  refCount :: int
  e_val :: int
  e_next :: "nat option"

record heap =
  cells :: "nat \<Rightarrow> element option"
  fresh :: nat

definition deref :: "heap \<Rightarrow> nat option \<Rightarrow> (nat \<times> element) res" where
  "deref h p =
     (case p of
        None \<Rightarrow> Inl NullDeref
      | Some a \<Rightarrow> (case cells h a of None \<Rightarrow> Inl UseAfterFree | Some e \<Rightarrow> Inr (a, e)))"

definition store :: "nat \<Rightarrow> element \<Rightarrow> heap \<Rightarrow> heap" where
  "store a e h = h\<lparr>cells := (cells h)(a := Some e)\<rparr>"

definition free_cell :: "nat \<Rightarrow> heap \<Rightarrow> heap res" where
  "free_cell a h =
     (case cells h a of None \<Rightarrow> Inl UseAfterFree | Some e \<Rightarrow> Inr (h\<lparr>cells := (cells h)(a := None)\<rparr>))"

definition Object_addRef :: "nat option \<Rightarrow> heap \<Rightarrow> heap res" where
  "Object_addRef me h =
     (case me of
        None \<Rightarrow> Inr h
      | Some a \<Rightarrow>
          rbind (deref h me) (\<lambda>(a, e).
          rbind (c_int (refCount e + 1)) (\<lambda>c. Inr (store a (e\<lparr>refCount := c\<rparr>) h))))"

text \<open>
  The release of the last reference runs \<open>Element_deinit\<close>, which is \<open>Element_setNext(me, 0)\<close>: it
  releases the successor, clears the link, and then the element is freed.
\<close>

fun Object_release :: "nat \<Rightarrow> nat option \<Rightarrow> heap \<Rightarrow> heap res" where
  "Object_release 0 me h = Inl OutOfFuel"
| "Object_release (Suc fuel) me h =
     (case me of
        None \<Rightarrow> Inr h
      | Some a \<Rightarrow>
          rbind (deref h me) (\<lambda>(a, e).
          rbind (c_int (refCount e - 1)) (\<lambda>c.
            let h = store a (e\<lparr>refCount := c\<rparr>) h in
            if c \<le> 0 then
              rbind (Object_release fuel (e_next e) h) (\<lambda>h.
              rbind (deref h me) (\<lambda>(a, e). free_cell a (store a (e\<lparr>e_next := None\<rparr>) h)))
            else Inr h)))"

definition Element_setNext :: "nat \<Rightarrow> nat option \<Rightarrow> nat option \<Rightarrow> heap \<Rightarrow> heap res" where
  "Element_setNext fuel me e h =
     rbind (deref h me) (\<lambda>(a, el).
     rbind (Object_release fuel (e_next el) h) (\<lambda>h.
     rbind (deref h me) (\<lambda>(a, el). Inr (store a (el\<lparr>e_next := e\<rparr>) h))))"

text \<open>\<open>Object_init\<close> leaves the count at 0 and \<open>Element_create\<close> takes the first reference.\<close>

definition Element_create :: "int \<Rightarrow> heap \<Rightarrow> (nat option \<times> heap) res" where
  "Element_create v h =
     (let a = fresh h;
          h = store a \<lparr>refCount = 0, e_val = v, e_next = None\<rparr> (h\<lparr>fresh := Suc a\<rparr>)
      in rbind (Object_addRef (Some a) h) (\<lambda>h. Inr (Some a, h)))"

fun Element_length :: "nat \<Rightarrow> nat option \<Rightarrow> heap \<Rightarrow> int res" where
  "Element_length 0 me h = Inl OutOfFuel"
| "Element_length (Suc fuel) me h =
     rbind (deref h me) (\<lambda>(a, e).
       if e_next e = None then Inr 1
       else rbind (Element_length fuel (e_next e) h) (\<lambda>n. c_int (1 + n)))"

definition Element_getNext :: "nat option \<Rightarrow> heap \<Rightarrow> nat option res" where
  "Element_getNext me h = rbind (deref h me) (\<lambda>(a, e). Inr (e_next e))"

fun makeList :: "nat \<Rightarrow> heap \<Rightarrow> (nat option \<times> heap) res" where
  "makeList 0 h = Inr (None, h)"
| "makeList (Suc n) h =
     rbind (Element_create (int (Suc n)) h) (\<lambda>(e, h).
     rbind (makeList n h) (\<lambda>(rest, h).
     rbind (Element_setNext 1 e rest h) (\<lambda>h. Inr (e, h))))"

fun isShorterThan :: "nat \<Rightarrow> nat option \<Rightarrow> nat option \<Rightarrow> heap \<Rightarrow> bool res" where
  "isShorterThan 0 xTail yTail h = Inl OutOfFuel"
| "isShorterThan (Suc fuel) xTail yTail h =
     (if yTail = None then Inr False
      else if xTail = None then Inr True
      else rbind (Element_getNext xTail h) (\<lambda>x.
           rbind (Element_getNext yTail h) (\<lambda>y. isShorterThan fuel x y h)))"

text \<open>\<open>loops\<close> is the fuel of \<open>isShorterThan\<close>, \<open>fuel\<close> that of the recursion.\<close>

fun list_tail ::
    "nat \<Rightarrow> nat \<Rightarrow> nat option \<Rightarrow> nat option \<Rightarrow> nat option \<Rightarrow> heap \<Rightarrow> (nat option \<times> heap) res" where
  "list_tail loops 0 x y z h = Inl OutOfFuel"
| "list_tail loops (Suc fuel) x y z h =
     rbind (isShorterThan loops y x h) (\<lambda>shorter.
       if shorter then
         rbind (Element_getNext x h) (\<lambda>x'.
         rbind (list_tail loops fuel x' y z h) (\<lambda>(xx, h).
         rbind (Element_getNext y h) (\<lambda>y'.
         rbind (list_tail loops fuel y' z x h) (\<lambda>(yy, h).
         rbind (Element_getNext z h) (\<lambda>z'.
         rbind (list_tail loops fuel z' x y h) (\<lambda>(zz, h).
         rbind (list_tail loops fuel xx yy zz h) (\<lambda>(r, h).
         rbind (Object_release loops xx h) (\<lambda>h.
         rbind (Object_release loops yy h) (\<lambda>h.
         rbind (Object_release loops zz h) (\<lambda>h. Inr (r, h)))))))))))
       else rbind (Object_addRef z h) (\<lambda>h. Inr (z, h)))"

definition list_benchmark :: "(int \<times> heap) res" where
  "list_benchmark =
     rbind (makeList 15 \<lparr>cells = (\<lambda>a. None), fresh = 0\<rparr>) (\<lambda>(x, h).
     rbind (makeList 10 h) (\<lambda>(y, h).
     rbind (makeList 6 h) (\<lambda>(z, h).
     rbind (list_tail 100 100 x y z h) (\<lambda>(result, h).
     rbind (Element_length 100 result h) (\<lambda>res.
     rbind (Object_release 100 result h) (\<lambda>h.
     rbind (Object_release 100 x h) (\<lambda>h.
     rbind (Object_release 100 y h) (\<lambda>h.
     rbind (Object_release 100 z h) (\<lambda>h. Inr (res, h))))))))))"

definition list_verifyResult :: "int \<Rightarrow> bool" where
  "list_verifyResult result \<longleftrightarrow> 10 = result"

section \<open>Lists in the heap\<close>

fun chain :: "(nat \<Rightarrow> element option) \<Rightarrow> nat option \<Rightarrow> nat list \<Rightarrow> bool" where
  "chain m p [] \<longleftrightarrow> p = None"
| "chain m p (a # as) \<longleftrightarrow> p = Some a \<and> (\<exists>e. m a = Some e \<and> chain m (e_next e) as)"

text \<open>The Takeuchi function on lengths, with the null dereferences of the code.\<close>

fun tak :: "nat \<Rightarrow> nat \<Rightarrow> nat \<Rightarrow> nat \<Rightarrow> nat res" where
  "tak 0 x y z = Inl OutOfFuel"
| "tak (Suc fuel) x y z =
     (if y < x then
        rbind (tak fuel (x - 1) y z) (\<lambda>a.
        if y = 0 then Inl NullDeref else
        rbind (tak fuel (y - 1) z x) (\<lambda>b.
        if z = 0 then Inl NullDeref else
        rbind (tak fuel (z - 1) x y) (\<lambda>c. tak fuel a b c)))
      else Inr z)"

definition add_ref :: "nat option \<Rightarrow> heap \<Rightarrow> heap" where
  "add_ref p h =
     (case p of
        None \<Rightarrow> h
      | Some a \<Rightarrow> (case cells h a of
                     None \<Rightarrow> h
                   | Some e \<Rightarrow> store a (e\<lparr>refCount := refCount e + 1\<rparr>) h))"

text \<open>Every allocated element is referenced, with room for \<open>n\<close> more references.\<close>

definition counts :: "nat \<Rightarrow> heap \<Rightarrow> bool" where
  "counts n h \<longleftrightarrow> (\<forall>a e. cells h a = Some e \<longrightarrow> 1 \<le> refCount e \<and> refCount e + int n \<le> INT_MAX)"

lemma chain_None: "chain m None as \<longleftrightarrow> as = []"
  by (cases as) auto

lemma chain_Some: "chain m (Some a) as \<longleftrightarrow> (\<exists>e bs. as = a # bs \<and> m a = Some e \<and> chain m (e_next e) bs)"
  by (cases as) auto

lemma chain_add_ref: "chain (cells (add_ref p h)) q as \<longleftrightarrow> chain (cells h) q as"
  by (induction as arbitrary: q) (auto simp: add_ref_def store_def split: option.splits)

lemma chain_add_refI: "chain (cells h) q as \<Longrightarrow> chain (cells (add_ref p h)) q as"
  by (simp add: chain_add_ref)

lemma countsD: "counts n h \<Longrightarrow> cells h a = Some e \<Longrightarrow> 1 \<le> refCount e \<and> refCount e + int n \<le> INT_MAX"
  by (simp add: counts_def)

lemma getNext_Nil: "Element_getNext None h = Inl NullDeref"
  by (simp add: Element_getNext_def deref_def)

lemma getNext_Cons:
  "chain (cells h) p (a # as) \<Longrightarrow> \<exists>q. Element_getNext p h = Inr q \<and> chain (cells h) q as"
  by (auto simp: Element_getNext_def deref_def)

lemma isShorterThan_chain:
  "chain (cells h) x as \<Longrightarrow> chain (cells h) y bs \<Longrightarrow> length bs < fuel \<Longrightarrow>
   isShorterThan fuel x y h = Inr (length as < length bs)"
proof (induction fuel arbitrary: x y as bs)
  case (Suc fuel)
  show ?case
  proof (cases bs)
    case (Cons b bs')
    show ?thesis
    proof (cases as)
      case as: (Cons a as')
      from getNext_Cons Suc.prems(1)[unfolded as] obtain q where
        "Element_getNext x h = Inr q" "chain (cells h) q as'" by blast
      moreover from getNext_Cons Suc.prems(2)[unfolded Cons] obtain r where
        "Element_getNext y h = Inr r" "chain (cells h) r bs'" by blast
      ultimately show ?thesis using Suc Cons as by auto
    qed (use Suc.prems Cons in auto)
  qed (use Suc.prems in simp)
qed simp

lemma addRef_ok:
  assumes "chain (cells h) p as" "counts (Suc n) h"
  shows "Object_addRef p h = Inr (add_ref p h)"
proof (cases p)
  case (Some a)
  with assms(1) obtain e where e: "cells h a = Some e" by (auto simp: chain_Some)
  then have "c_int (refCount e + 1) = Inr (refCount e + 1)"
    using countsD [OF assms(2) e] by (intro c_int_ok) (auto simp: INT_MAX_def)
  with Some e show ?thesis by (simp add: Object_addRef_def add_ref_def deref_def)
qed (simp add: Object_addRef_def add_ref_def)

lemma counts_add_ref: "counts (Suc n) h \<Longrightarrow> counts n (add_ref p h)"
  by (fastforce simp: counts_def add_ref_def store_def split: option.splits if_splits)

lemma counts_mono: "counts n h \<Longrightarrow> m \<le> n \<Longrightarrow> counts m h"
  by (fastforce simp: counts_def)

text \<open>Releasing a reference that was added on top of an existing one frees nothing.\<close>

lemma release_add_ref:
  assumes "chain (cells h) p as" "counts (Suc n) h" "0 < fuel"
  shows "Object_release fuel p (add_ref p h) = Inr h"
proof (cases p)
  case None
  with assms(3) show ?thesis by (cases fuel) (auto simp: add_ref_def)
next
  case (Some a)
  with assms(1) obtain e where e: "cells h a = Some e" by (auto simp: chain_Some)
  then have "1 \<le> refCount e" "refCount e \<le> INT_MAX" using countsD [OF assms(2) e] by auto
  moreover from e have "(cells h)(a := Some e) = cells h" by auto
  ultimately show ?thesis using assms(3) Some e
    by (cases fuel) (auto simp: add_ref_def store_def deref_def c_int_def INT_MAX_def Let_def)
qed

lemma add_ref_commute: "add_ref p (add_ref q h) = add_ref q (add_ref p h)"
  by (auto simp: add_ref_def store_def fun_upd_twist split: option.splits)

section \<open>The recursion on the heap follows the recursion on lengths\<close>

text \<open>
  \<open>agrees\<close> compares a run of \<open>list_tail\<close> with a run of \<open>tak\<close>: the same fault, or a list of the
  computed length whose head carries one more reference, every other count as before.
\<close>

definition agrees :: "nat \<Rightarrow> heap \<Rightarrow> (nat option \<times> heap) res \<Rightarrow> nat res \<Rightarrow> bool" where
  "agrees loops h r t \<longleftrightarrow>
     (case t of
        Inl e \<Rightarrow> r = Inl e
      | Inr n \<Rightarrow> \<exists>p ps. r = Inr (p, add_ref p h) \<and> chain (cells h) p ps \<and> length ps = n \<and> n < loops)"

lemma agrees_bind:
  assumes "agrees loops h r t"
    and "\<And>p ps. chain (cells h) p ps \<Longrightarrow> length ps < loops \<Longrightarrow>
      agrees loops h0 (f (p, add_ref p h)) (g (length ps))"
  shows "agrees loops h0 (rbind r f) (rbind t g)"
proof (cases t)
  case (Inr n)
  with assms(1) obtain p ps where "r = Inr (p, add_ref p h)" "chain (cells h) p ps" "length ps = n" "n < loops"
    by (auto simp: agrees_def)
  with assms(2) [of p ps] Inr show ?thesis by simp
qed (use assms(1) in \<open>simp add: agrees_def\<close>)

lemma agrees_getNext:
  assumes "chain (cells h) p ps" and "\<And>q. chain (cells h) q (tl ps) \<Longrightarrow> ps \<noteq> [] \<Longrightarrow> agrees loops h0 (f q) t"
  shows "agrees loops h0 (rbind (Element_getNext p h) f) (if length ps = 0 then Inl NullDeref else t)"
proof (cases ps)
  case Nil
  with assms(1) show ?thesis by (simp add: getNext_Nil agrees_def)
next
  case (Cons a as)
  with getNext_Cons [of h p a as] assms show ?thesis by auto
qed

lemma release_three:
  assumes "chain (cells h) x xs" "chain (cells h) y ys" "chain (cells h) z zs" "counts 4 h" "0 < loops"
  shows "rbind (Object_release loops x (add_ref r (add_ref z (add_ref y (add_ref x h))))) (\<lambda>h.
      rbind (Object_release loops y h) (\<lambda>h. rbind (Object_release loops z h) (\<lambda>h. Inr (r, h)))) =
    Inr (r, add_ref r h)"
proof -
  have c: "counts 3 (add_ref r h)" "counts 2 (add_ref z (add_ref r h))"
    "counts 1 (add_ref y (add_ref z (add_ref r h)))"
    using assms(4) by (simp_all add: counts_add_ref numeral_eq_Suc)
  have "add_ref r (add_ref z (add_ref y (add_ref x h))) =
      add_ref x (add_ref y (add_ref z (add_ref r h)))"
    by (metis add_ref_commute)
  moreover have "Object_release loops x (add_ref x (add_ref y (add_ref z (add_ref r h)))) =
      Inr (add_ref y (add_ref z (add_ref r h)))"
    using assms(1,5) c(3) by (intro release_add_ref [of _ _ xs 0]) (auto simp: chain_add_ref)
  moreover have "Object_release loops y (add_ref y (add_ref z (add_ref r h))) = Inr (add_ref z (add_ref r h))"
    using assms(2,5) counts_mono [OF c(2), of 1]
    by (intro release_add_ref [of _ _ ys 0]) (auto simp: chain_add_ref)
  moreover have "Object_release loops z (add_ref z (add_ref r h)) = Inr (add_ref r h)"
    using assms(3,5) counts_mono [OF c(1), of 1]
    by (intro release_add_ref [of _ _ zs 0]) (auto simp: chain_add_ref)
  ultimately show ?thesis by simp
qed

lemma list_tail_agrees:
  assumes "chain (cells h) x xs" "chain (cells h) y ys" "chain (cells h) z zs"
    and "length xs < loops" "length ys < loops" "length zs < loops" "counts (4 * fuel) h"
  shows "agrees loops h (list_tail loops fuel x y z h) (tak fuel (length xs) (length ys) (length zs))"
  using assms
proof (induction fuel arbitrary: x y z xs ys zs h)
  case (Suc fuel)
  note short = isShorterThan_chain [OF Suc.prems(2,1,4)]
  show ?case
  proof (cases "length ys < length xs")
    case False
    with short Suc.prems(3,6,7) show ?thesis
      by (auto simp: agrees_def addRef_ok [of h z zs "3 + 4 * fuel"])
  next
    case True
    have call: "agrees loops h' (list_tail loops fuel q u v h') (tak fuel (length ps - 1) (length us) (length vs))"
      if "chain (cells h') q (tl ps)" "ps \<noteq> []" "chain (cells h') u us" "chain (cells h') v vs"
        "length ps < loops" "length us < loops" "length vs < loops" "counts (4 * fuel) h'"
      for h' q u v ps us vs
      using Suc.IH [OF that(1,3,4) _ that(6-8)] that(2,5) by simp
    have c: "counts (n + 4 * fuel) h" if "n \<le> 4" for n
      by (rule counts_mono [OF Suc.prems(7)]) (use that in simp)
    have c1: "counts (3 + 4 * fuel) (add_ref a h)" for a
      by (rule counts_add_ref, rule counts_mono [OF c [of 4]]) simp_all
    have c2: "counts (2 + 4 * fuel) (add_ref b (add_ref a h))" for a b
      by (rule counts_add_ref, rule counts_mono [OF c1 [of a]]) simp
    have c3: "counts (4 * fuel) (add_ref d (add_ref b (add_ref a h)))" for a b d
      by (rule counts_add_ref, rule counts_mono [OF c2 [of b a]]) simp
    have tak_eq: "tak (Suc fuel) (length xs) (length ys) (length zs) =
      (if length xs = 0 then Inl NullDeref else
       rbind (tak fuel (length xs - 1) (length ys) (length zs)) (\<lambda>a.
       if length ys = 0 then Inl NullDeref else
       rbind (tak fuel (length ys - 1) (length zs) (length xs)) (\<lambda>b.
       if length zs = 0 then Inl NullDeref else
       rbind (tak fuel (length zs - 1) (length xs) (length ys)) (\<lambda>c.
       rbind (tak fuel a b c) Inr))))"
      unfolding rbind_Inr_right using True by auto
    have tail_eq: "list_tail loops (Suc fuel) x y z h =
       rbind (Element_getNext x h) (\<lambda>x'.
       rbind (list_tail loops fuel x' y z h) (\<lambda>(xx, h).
       rbind (Element_getNext y h) (\<lambda>y'.
       rbind (list_tail loops fuel y' z x h) (\<lambda>(yy, h).
       rbind (Element_getNext z h) (\<lambda>z'.
       rbind (list_tail loops fuel z' x y h) (\<lambda>(zz, h).
       rbind (list_tail loops fuel xx yy zz h) (\<lambda>(r, h).
       rbind (Object_release loops xx h) (\<lambda>h.
       rbind (Object_release loops yy h) (\<lambda>h.
       rbind (Object_release loops zz h) (\<lambda>h. Inr (r, h)))))))))))"
      using True short by simp
    note px = Suc.prems(1) note py = Suc.prems(2) note pz = Suc.prems(3)
    note lx = Suc.prems(4) note ly = Suc.prems(5) note lz = Suc.prems(6)
    show ?thesis
      unfolding tak_eq tail_eq
      apply (rule agrees_getNext [OF px])
      subgoal premises x' for x'
        apply (rule agrees_bind [OF call [OF x' py pz lx ly lz c [of 0, simplified]]], simp only: prod.case)
        subgoal premises xx for xx as
          apply (rule agrees_getNext [OF chain_add_refI [OF py]])
          subgoal premises y' for y'
            apply (rule agrees_bind [OF call [OF y' chain_add_refI [OF pz] chain_add_refI [OF px] ly lz lx counts_mono [OF c1]]], simp, simp only: prod.case)
            subgoal premises yy for yy bs
              apply (rule agrees_getNext [OF chain_add_refI [OF chain_add_refI [OF pz]]])
              subgoal premises z' for z'
                apply (rule agrees_bind [OF call [OF z' chain_add_refI [OF chain_add_refI [OF px]] chain_add_refI [OF chain_add_refI [OF py]] lz lx ly counts_mono [OF c2]]], simp, simp only: prod.case)
                subgoal premises zz for zz cs
                  apply (rule agrees_bind [OF Suc.IH [OF _ _ _ xx(2) yy(2) zz(2) c3]])
                  using xx(1) yy(1) zz(1)
                     apply (simp_all add: chain_add_ref)[3]
                  subgoal for p ps
                    using release_three [of h xx as yy bs zz cs loops p] xx(1) yy(1) zz(1) zz(2) c [of 4]
                    by (auto simp: chain_add_ref agrees_def counts_mono [of "4 + 4 * fuel" h 4])
                  done
                done
              done
            done
          done
        done
      done
  qed
qed (simp add: agrees_def)

text \<open>With a nonempty second and third list nothing is dereferenced through a null pointer.\<close>

lemma tak_no_null:
  "(y < x \<longrightarrow> 0 < y \<and> 0 < z) \<Longrightarrow>
   (case tak fuel x y z of Inl e \<Rightarrow> e = OutOfFuel | Inr n \<Rightarrow> 0 < z \<longrightarrow> 0 < n)"
proof (induction fuel arbitrary: x y z)
  case (Suc fuel)
  show ?case
  proof (cases "y < x")
    case True
    with Suc.prems have pos: "0 < x" "0 < y" "0 < z" by auto
    note a = Suc.IH [of y "x - 1" z] and b = Suc.IH [of z "y - 1" x] and c = Suc.IH [of x "z - 1" y]
    show ?thesis
    proof (cases "tak fuel (x - 1) y z")
      case 1: (Inr n1)
      show ?thesis
      proof (cases "tak fuel (y - 1) z x")
        case 2: (Inr n2)
        show ?thesis
        proof (cases "tak fuel (z - 1) x y")
          case 3: (Inr n3)
          with 1 2 a b c pos Suc.IH [of n2 n1 n3] True show ?thesis by (auto split: sum.splits)
        qed (use 1 2 c pos True in simp)
      qed (use 1 b pos True in simp)
    qed (use a pos True in simp)
  qed simp
qed simp

section \<open>The benchmark\<close>

text \<open>The elements that \<open>makeList n\<close> allocates from address \<open>k\<close> on.\<close>

definition segment :: "nat \<Rightarrow> nat \<Rightarrow> nat \<Rightarrow> element option" where
  "segment k n = (\<lambda>a. if k \<le> a \<and> a < k + n
     then Some \<lparr>refCount = 1, e_val = int (n - (a - k)), e_next = (if Suc a < k + n then Some (Suc a) else None)\<rparr>
     else None)"

lemma makeList_ok:
  "\<forall>a\<ge>fresh h. cells h a = None \<Longrightarrow>
   makeList n h = Inr (if n = 0 then None else Some (fresh h),
     \<lparr>cells = cells h ++ segment (fresh h) n, fresh = fresh h + n\<rparr>)"
proof (induction n arbitrary: h)
  case 0
  have "cells h ++ segment (fresh h) 0 = cells h" by (rule ext) (auto simp: segment_def map_add_def)
  then show ?case by simp
next
  case (Suc n)
  let ?k = "fresh h"
  let ?e = "\<lparr>refCount = 1, e_val = int (Suc n), e_next = None\<rparr>"
  let ?h = "\<lparr>cells = (cells h)(?k \<mapsto> ?e), fresh = Suc ?k\<rparr>"
  let ?rest = "if n = 0 then None else Some (Suc ?k)"
  have 1: "Element_create (int (Suc n)) h = Inr (Some ?k, ?h)"
    by (cases h) (simp add: Element_create_def Object_addRef_def deref_def store_def c_int_def
        INT_MAX_def Let_def)
  have 2: "makeList n ?h = Inr (?rest, \<lparr>cells = cells ?h ++ segment (Suc ?k) n, fresh = Suc ?k + n\<rparr>)"
  proof -
    have "\<forall>a\<ge>fresh ?h. cells ?h a = None" using Suc.prems by simp
    from Suc.IH [OF this] show ?thesis by (simp only: heap.select_convs)
  qed
  have k: "(cells ?h ++ segment (Suc ?k) n) ?k = Some ?e" by (simp add: map_add_def segment_def)
  have "(cells ?h ++ segment (Suc ?k) n)(?k \<mapsto> ?e\<lparr>e_next := ?rest\<rparr>) = cells h ++ segment ?k (Suc n)"
    by (rule ext) (auto simp: map_add_def segment_def)
  with 1 2 k show ?case by (simp add: Element_setNext_def deref_def store_def)
qed

lemma segment_chain:
  "\<forall>a. k \<le> a \<longrightarrow> a < k + n \<longrightarrow> m a = segment k n a \<Longrightarrow>
   chain m (if n = 0 then None else Some k) [k..<k + n]"
proof (induction n arbitrary: k)
  case (Suc n)
  have "chain m (if n = 0 then None else Some (Suc k)) [Suc k..<Suc k + n]"
    using Suc.prems by (intro Suc.IH) (auto simp: segment_def)
  moreover have "[k..<k + Suc n] = k # [Suc k..<Suc k + n]" by (simp add: upt_conv_Cons del: upt_Suc)
  ultimately show ?case using Suc.prems by (auto simp: segment_def simp del: upt_Suc)
qed simp

lemma release_list:
  "chain (cells h) p ps \<Longrightarrow> distinct ps \<Longrightarrow> \<forall>a\<in>set ps. \<exists>e. cells h a = Some e \<and> refCount e = 1 \<Longrightarrow>
   length ps < fuel \<Longrightarrow> Object_release fuel p h = Inr (h\<lparr>cells := cells h |` (- set ps)\<rparr>)"
proof (induction ps arbitrary: p h fuel)
  case Nil
  then show ?case by (cases fuel) (auto simp: restrict_map_def)
next
  case (Cons a ps)
  obtain f where f: "fuel = Suc f" using Cons.prems(4) by (cases fuel) auto
  obtain e where e: "p = Some a" "cells h a = Some e" "refCount e = 1" "chain (cells h) (e_next e) ps"
    using Cons.prems(1,3) by auto
  let ?h = "store a (e\<lparr>refCount := 0\<rparr>) h"
  have same: "cells ?h b = cells h b" if "b \<in> set ps" for b
    using that Cons.prems(2) by (auto simp: store_def)
  then have "chain (cells ?h) q qs \<longleftrightarrow> chain (cells h) q qs" if "set qs \<subseteq> set ps" for q qs
    using that by (induction qs arbitrary: q) auto
  with e(4) have "chain (cells ?h) (e_next e) ps" by simp
  from Cons.IH [OF this, of f] Cons.prems(2-4) same f
  have "Object_release f (e_next e) ?h = Inr (?h\<lparr>cells := cells ?h |` (- set ps)\<rparr>)" by simp
  moreover have "(cells ?h |` (- set ps)) a = Some (e\<lparr>refCount := 0\<rparr>)"
    using Cons.prems(2) by (simp add: store_def)
  moreover have "(cells ?h |` (- set ps))(a := None) = cells h |` (- set (a # ps))"
    by (rule ext) (auto simp: store_def restrict_map_def)
  ultimately show ?case using e f
    by (simp add: deref_def c_int_def INT_MAX_def free_cell_def store_def Let_def)
qed

lemma chain_restrict: "chain m p ps \<Longrightarrow> set ps \<inter> S = {} \<Longrightarrow> chain (m |` (- S)) p ps"
  by (induction ps arbitrary: p) auto

lemma Element_length_chain:
  "chain (cells h) p ps \<Longrightarrow> ps \<noteq> [] \<Longrightarrow> length ps < fuel \<Longrightarrow> int (length ps) \<le> INT_MAX \<Longrightarrow>
   Element_length fuel p h = Inr (int (length ps))"
proof (induction ps arbitrary: p fuel)
  case (Cons a ps)
  obtain f where f: "fuel = Suc f" using Cons.prems(3) by (cases fuel) auto
  obtain e where e: "p = Some a" "cells h a = Some e" "chain (cells h) (e_next e) ps"
    using Cons.prems(1) by auto
  show ?case
  proof (cases ps)
    case Nil
    with e f show ?thesis by (simp add: deref_def)
  next
    case (Cons b qs)
    then have "e_next e \<noteq> None" using e(3) by auto
    with Cons.IH [OF e(3)] Cons.prems f e Cons show ?thesis
      by (auto simp: deref_def c_int_def INT_MAX_def)
  qed
qed simp

lemma tak_15_10_6: "tak 100 15 10 6 = Inr 10"
  by code_simp

lemma list_benchmark_result: "list_benchmark = Inr (10, \<lparr>cells = (\<lambda>a. None), fresh = 31\<rparr>)"
proof -
  define m where "m = segment 0 15 ++ segment 15 10 ++ segment 25 6"
  define xs ys zs where lists: "xs = [0..<15 :: nat]" "ys = [15..<25 :: nat]" "zs = [25..<31 :: nat]"
  let ?h = "\<lparr>cells = m, fresh = 31\<rparr>"
  have m: "m a = (if a < 15 then segment 0 15 a else if a < 25 then segment 15 10 a else segment 25 6 a)" for a
    by (auto simp: m_def segment_def map_add_def)
  have sets: "distinct xs" "distinct ys" "distinct zs" "length xs = 15" "length ys = 10" "length zs = 6"
    "set xs = {0..<15}" "set ys = {15..<25}" "set zs = {25..<31}" 
    unfolding lists by (simp_all only: distinct_upt set_upt length_upt)
  have "makeList 15 \<lparr>cells = (\<lambda>a. None), fresh = 0\<rparr> = Inr (Some 0, \<lparr>cells = segment 0 15, fresh = 15\<rparr>)"
    using makeList_ok [of "\<lparr>cells = (\<lambda>a. None), fresh = 0\<rparr>" 15] by (simp add: map_add_def)
  moreover have "makeList 10 \<lparr>cells = segment 0 15, fresh = 15\<rparr> =
      Inr (Some 15, \<lparr>cells = segment 0 15 ++ segment 15 10, fresh = 25\<rparr>)"
    using makeList_ok [of "\<lparr>cells = segment 0 15, fresh = 15\<rparr>" 10] by (simp add: segment_def)
  moreover have "makeList 6 \<lparr>cells = segment 0 15 ++ segment 15 10, fresh = 25\<rparr> =
      Inr (Some 25, \<lparr>cells = segment 0 15 ++ segment 15 10 ++ segment 25 6, fresh = 31\<rparr>)"
    using makeList_ok [of "\<lparr>cells = segment 0 15 ++ segment 15 10, fresh = 25\<rparr>" 6]
    by (simp add: segment_def map_add_def)
  ultimately have make: "rbind (makeList 15 \<lparr>cells = (\<lambda>a. None), fresh = 0\<rparr>) (\<lambda>(x, h).
      rbind (makeList 10 h) (\<lambda>(y, h). rbind (makeList 6 h) (\<lambda>(z, h). k x y z h))) =
    k (Some 0) (Some 15) (Some 25) ?h" for k :: "_ \<Rightarrow> _ \<Rightarrow> _ \<Rightarrow> _ \<Rightarrow> (int \<times> heap) res"
    by (simp add: m_def)
  have x: "chain m (Some 0) xs" and y: "chain m (Some 15) ys" and z: "chain m (Some 25) zs"
    using segment_chain [of 0 15 m] segment_chain [of 15 10 m] segment_chain [of 25 6 m]
    by (simp_all add: m lists)
  have rc: "\<exists>e. m a = Some e \<and> refCount e = 1" if "a < 31" for a
    using that by (auto simp: m segment_def)
  have "counts (4 * 100) ?h" by (auto simp: counts_def m segment_def INT_MAX_def split: if_splits)
  with list_tail_agrees [of ?h "Some 0" "xs" "Some 15" "ys" "Some 25" "zs" 100 100] x y z sets
  obtain p ps where p: "list_tail 100 100 (Some 0) (Some 15) (Some 25) ?h = Inr (p, add_ref p ?h)"
      "chain m p ps" "length ps = 10"
    by (auto simp: tak_15_10_6 agrees_def)
  have len: "Element_length 100 p (add_ref p ?h) = Inr 10"
  proof -
    have "ps \<noteq> []" using p(3) by auto
    with Element_length_chain [of "add_ref p ?h" p ps 100] p show ?thesis
      by (simp add: chain_add_ref INT_MAX_def)
  qed
  have "counts (Suc 0) ?h" by (rule counts_mono [OF \<open>counts (4 * 100) ?h\<close>]) simp
  with p have rel: "Object_release 100 p (add_ref p ?h) = Inr ?h"
    by (intro release_add_ref [of _ _ ps 0]) auto
  let ?m1 = "m |` (- set xs)"
  let ?m2 = "?m1 |` (- set ys)"
  have relx: "Object_release 100 (Some 0) ?h = Inr \<lparr>cells = ?m1, fresh = 31\<rparr>"
    using release_list [of ?h "Some 0" "xs" 100] x rc sets by simp
  have rely: "Object_release 100 (Some 15) \<lparr>cells = ?m1, fresh = 31\<rparr> = Inr \<lparr>cells = ?m2, fresh = 31\<rparr>"
    using release_list [of "\<lparr>cells = ?m1, fresh = 31\<rparr>" "Some 15" "ys" 100] rc sets
      chain_restrict [OF y, of "set xs"] by (auto simp: restrict_map_def)
  have relz: "Object_release 100 (Some 25) \<lparr>cells = ?m2, fresh = 31\<rparr> =
      Inr \<lparr>cells = ?m2 |` (- set zs), fresh = 31\<rparr>"
    using release_list [of "\<lparr>cells = ?m2, fresh = 31\<rparr>" "Some 25" "zs" 100] rc sets
      chain_restrict [OF chain_restrict [OF z, of "set xs"], of "set ys"] by (auto simp: restrict_map_def)
  have "?m2 |` (- set zs) = (\<lambda>a. None)"
    by (rule ext) (auto simp: restrict_map_def m segment_def sets)
  with relz have relz': "Object_release 100 (Some 25) \<lparr>cells = ?m2, fresh = 31\<rparr> =
      Inr \<lparr>cells = (\<lambda>a. None), fresh = 31\<rparr>" by (simp only:)
  show ?thesis
    unfolding list_benchmark_def make by (simp only: p(1) len rel relx rely relz' rbind.simps prod.case)
qed

section \<open>The benchmark object\<close>

definition List_create :: "unit benchmark" where
  "List_create = plain_benchmark (rbind list_benchmark (\<lambda>(res, h). Inr res)) list_verifyResult"

interpretation list: verified_benchmark List_create "\<lambda>s. True"
  unfolding List_create_def by (rule plain_benchmark_ok) (simp_all add: list_benchmark_result list_verifyResult_def)

section \<open>Properties\<close>

text \<open>C7: the recursion on reference-counted lists follows the Takeuchi function on their lengths. On
  a heap where every element is referenced, \<open>tail\<close> faults exactly when the function on lengths does
  (a null dereference, or fuel), and otherwise returns a list of the computed length and leaves the
  heap as it was except for one more reference on the result: nothing is leaked, freed or touched
  after it was freed.\<close>

theorem list_tail_refines_tak:
  assumes "chain (cells h) x xs" "chain (cells h) y ys" "chain (cells h) z zs"
    and "length xs < loops" "length ys < loops" "length zs < loops" "counts (4 * fuel) h"
  shows "case tak fuel (length xs) (length ys) (length zs) of
      Inl e \<Rightarrow> list_tail loops fuel x y z h = Inl e
    | Inr n \<Rightarrow> \<exists>p ps. list_tail loops fuel x y z h = Inr (p, add_ref p h) \<and>
        chain (cells h) p ps \<and> length ps = n"
  using list_tail_agrees [OF assms] by (auto simp: agrees_def split: sum.splits)

lemma list_tail_refines_tak_witness:
  "\<exists>p ps. list_tail 9 9 (Some 0) None (Some 1)
      \<lparr>cells = (\<lambda>a. None)(0 \<mapsto> \<lparr>refCount = 1, e_val = 1, e_next = None\<rparr>,
         1 \<mapsto> \<lparr>refCount = 1, e_val = 1, e_next = None\<rparr>), fresh = 2\<rparr> = Inl NullDeref"
  using list_tail_refines_tak [of "\<lparr>cells = (\<lambda>a. None)(0 \<mapsto> \<lparr>refCount = 1, e_val = 1, e_next = None\<rparr>,
      1 \<mapsto> \<lparr>refCount = 1, e_val = 1, e_next = None\<rparr>), fresh = 2\<rparr>" "Some 0" "[0]" None "[]" "Some 1" "[1]" 9 9]
  by (auto simp: counts_def INT_MAX_def numeral_eq_Suc split: if_splits simp del: list_tail.simps)

text \<open>C38: the benchmark returns 10 and frees everything it allocated: of the 31 elements created
  none is left in the heap.\<close>

theorem list_benchmark_no_leak:
  "list_benchmark = Inr (10, \<lparr>cells = (\<lambda>a. None), fresh = 31\<rparr>)"
  by (rule list_benchmark_result)

end
