(* ===== verification/AwfyRedBlackTree.thy ===== *)
theory AwfyRedBlackTree
  imports SomInterfaces
begin

text \<open>
  \<open>RedBlackTree.c\<close>: a map as a red-black tree of heap nodes with parent pointers. The heap maps the
  addresses of allocated nodes to the C struct; \<open>fresh\<close> is the address of the next allocation and a
  null pointer is \<open>None\<close>. Keys and values are copied on insertion, so a cell is a HOL value. A walk
  along the pointers has one more step of fuel than nodes were ever allocated; more steps would mean
  a cycle, and the code would not return.
\<close>

section \<open>State\<close>

datatype color = RED | BLACK

record ('k, 'v) node =
  n_key :: 'k
  n_value :: 'v
  n_left :: "nat option"
  n_right :: "nat option"
  n_parent :: "nat option"
  n_color :: color

record ('k, 'v) rbtree =
  nodes :: "nat \<Rightarrow> ('k, 'v) node option"
  fresh :: nat
  root :: "nat option"
  isNewEntry :: bool
  newNode :: "nat option"
  oldValue :: "'v option"
  keySize :: nat
  valueSize :: nat
  compare :: "'k \<Rightarrow> 'k \<Rightarrow> int"

definition nd :: "('k, 'v) rbtree \<Rightarrow> nat option \<Rightarrow> ('k, 'v) node res" where
  "nd me p =
     (case p of
        None \<Rightarrow> Inl NullDeref
      | Some a \<Rightarrow> (case nodes me a of None \<Rightarrow> Inl UseAfterFree | Some n \<Rightarrow> Inr n))"

definition field :: "(('k, 'v) node \<Rightarrow> 'f) \<Rightarrow> nat option \<Rightarrow> ('k, 'v) rbtree \<Rightarrow> 'f res" where
  "field f p me = rbind (nd me p) (\<lambda>n. Inr (f n))"

definition upd ::
    "(('k, 'v) node \<Rightarrow> ('k, 'v) node) \<Rightarrow> nat option \<Rightarrow> ('k, 'v) rbtree \<Rightarrow> ('k, 'v) rbtree res" where
  "upd f p me = rbind (nd me p) (\<lambda>n. Inr (me\<lparr>nodes := (nodes me)(the p \<mapsto> f n)\<rparr>))"

text \<open>\<open>p == 0 || p->color == BLACK\<close>.\<close>

definition is_black :: "nat option \<Rightarrow> ('k, 'v) rbtree \<Rightarrow> bool res" where
  "is_black p me = (if p = None then Inr True else rbind (field n_color p me) (\<lambda>c. Inr (c = BLACK)))"

section \<open>Searching and walking\<close>

definition Node_create :: "'k \<Rightarrow> 'v \<Rightarrow> ('k, 'v) rbtree \<Rightarrow> nat option \<times> ('k, 'v) rbtree" where
  "Node_create key val me =
     (Some (fresh me),
      me\<lparr>nodes := (nodes me)(fresh me \<mapsto> \<lparr>n_key = key, n_value = val, n_left = None,
             n_right = None, n_parent = None, n_color = RED\<rparr>),
         fresh := Suc (fresh me)\<rparr>)"

fun minimum_loop :: "nat \<Rightarrow> nat option \<Rightarrow> ('k, 'v) rbtree \<Rightarrow> nat option res" where
  "minimum_loop 0 current me = Inl OutOfFuel"
| "minimum_loop (Suc fuel) current me =
     rbind (field n_left current me) (\<lambda>l.
       if l \<noteq> None then minimum_loop fuel l me else Inr current)"

definition Node_treeMinimum :: "nat option \<Rightarrow> ('k, 'v) rbtree \<Rightarrow> nat option res" where
  "Node_treeMinimum x me = minimum_loop (Suc (fresh me)) x me"

fun successor_loop :: "nat \<Rightarrow> nat option \<Rightarrow> nat option \<Rightarrow> ('k, 'v) rbtree \<Rightarrow> nat option res" where
  "successor_loop 0 x y me = Inl OutOfFuel"
| "successor_loop (Suc fuel) x y me =
     (if y \<noteq> None then
        rbind (field n_right y me) (\<lambda>r.
          if x = r then rbind (field n_parent y me) (\<lambda>p. successor_loop fuel y p me) else Inr y)
      else Inr y)"

definition Node_successor :: "nat option \<Rightarrow> ('k, 'v) rbtree \<Rightarrow> nat option res" where
  "Node_successor x me =
     rbind (field n_right x me) (\<lambda>r.
       if r \<noteq> None then Node_treeMinimum r me
       else rbind (field n_parent x me) (\<lambda>y. successor_loop (Suc (fresh me)) x y me))"

definition RedBlackTree_create ::
    "nat \<Rightarrow> nat \<Rightarrow> ('k \<Rightarrow> 'k \<Rightarrow> int) option \<Rightarrow> ('k, 'v) rbtree res" where
  "RedBlackTree_create kSize vSize f =
     (if kSize = 0 \<or> vSize = 0 then Inl AssertFailed
      else (case f of
              None \<Rightarrow> Inl AssertFailed
            | Some c \<Rightarrow> Inr \<lparr>nodes = (\<lambda>a. None), fresh = 0, root = None, isNewEntry = False,
                newNode = None, oldValue = None, keySize = kSize, valueSize = vSize, compare = c\<rparr>))"

fun find_loop :: "nat \<Rightarrow> 'k \<Rightarrow> nat option \<Rightarrow> ('k, 'v) rbtree \<Rightarrow> nat option res" where
  "find_loop 0 key current me = Inl OutOfFuel"
| "find_loop (Suc fuel) key current me =
     (if current \<noteq> None then
        rbind (nd me current) (\<lambda>n.
          let comparisonResult = compare me key (n_key n) in
          if comparisonResult = 0 then Inr current
          else find_loop fuel key (if comparisonResult < 0 then n_left n else n_right n) me)
      else Inr None)"

definition findNode :: "'k \<Rightarrow> ('k, 'v) rbtree \<Rightarrow> nat option res" where
  "findNode key me = find_loop (Suc (fresh me)) key (root me) me"

section \<open>Insertion\<close>

definition InsertResult ::
    "bool \<Rightarrow> nat option \<Rightarrow> 'v option \<Rightarrow> ('k, 'v) rbtree \<Rightarrow> ('k, 'v) rbtree" where
  "InsertResult isNew new old me = me\<lparr>isNewEntry := isNew, newNode := new, oldValue := old\<rparr>"

text \<open>
  The walk of \<open>treeInsert\<close>: \<open>Inl\<close> a node with the key, whose value is to be replaced, or \<open>Inr\<close> the
  last node before the null pointer.
\<close>

fun insert_walk ::
    "nat \<Rightarrow> 'k \<Rightarrow> nat option \<Rightarrow> nat option \<Rightarrow> ('k, 'v) rbtree \<Rightarrow> (nat option + nat option) res" where
  "insert_walk 0 key y x me = Inl OutOfFuel"
| "insert_walk (Suc fuel) key y x me =
     (if x \<noteq> None then
        rbind (nd me x) (\<lambda>n.
          let comparisonResult = compare me key (n_key n) in
          if comparisonResult < 0 then insert_walk fuel key x (n_left n) me
          else if comparisonResult > 0 then insert_walk fuel key x (n_right n) me
          else Inr (Inl x))
      else Inr (Inr y))"

definition treeInsert :: "'k \<Rightarrow> 'v \<Rightarrow> ('k, 'v) rbtree \<Rightarrow> ('k, 'v) rbtree res" where
  "treeInsert key val me =
     rbind (insert_walk (Suc (fresh me)) key None (root me) me) (\<lambda>w.
       case w of
         Inl x \<Rightarrow>
           rbind (field n_value x me) (\<lambda>old.
           rbind (upd (\<lambda>n. n\<lparr>n_value := val\<rparr>) x me) (\<lambda>me.
             Inr (InsertResult False None (Some old) me)))
       | Inr y \<Rightarrow>
           let (z, me) = Node_create key val me in
           rbind (upd (\<lambda>n. n\<lparr>n_parent := y\<rparr>) z me) (\<lambda>me.
           rbind (if y = None then Inr (me\<lparr>root := z\<rparr>)
                  else rbind (field n_key y me) (\<lambda>k.
                         if compare me key k < 0 then upd (\<lambda>n. n\<lparr>n_left := z\<rparr>) y me
                         else upd (\<lambda>n. n\<lparr>n_right := z\<rparr>) y me)) (\<lambda>me.
             Inr (InsertResult True z None me))))"

text \<open>Makes \<open>new\<close> the child of \<open>par\<close> that \<open>old\<close> was, or the root.\<close>

definition replace_child ::
    "nat option \<Rightarrow> nat option \<Rightarrow> nat option \<Rightarrow> ('k, 'v) rbtree \<Rightarrow> ('k, 'v) rbtree res" where
  "replace_child par old new me =
     (if par = None then Inr (me\<lparr>root := new\<rparr>)
      else rbind (field n_left par me) (\<lambda>l.
             if old = l then upd (\<lambda>n. n\<lparr>n_left := new\<rparr>) par me
             else upd (\<lambda>n. n\<lparr>n_right := new\<rparr>) par me))"

definition leftRotate :: "nat option \<Rightarrow> ('k, 'v) rbtree \<Rightarrow> ('k, 'v) rbtree res" where
  "leftRotate x me =
     rbind (field n_right x me) (\<lambda>y.
     rbind (field n_left y me) (\<lambda>yl.
     rbind (upd (\<lambda>n. n\<lparr>n_right := yl\<rparr>) x me) (\<lambda>me.
     rbind (if yl \<noteq> None then upd (\<lambda>n. n\<lparr>n_parent := x\<rparr>) yl me else Inr me) (\<lambda>me.
     rbind (field n_parent x me) (\<lambda>xp.
     rbind (upd (\<lambda>n. n\<lparr>n_parent := xp\<rparr>) y me) (\<lambda>me.
     rbind (replace_child xp x y me) (\<lambda>me.
     rbind (upd (\<lambda>n. n\<lparr>n_left := x\<rparr>) y me) (\<lambda>me.
       upd (\<lambda>n. n\<lparr>n_parent := y\<rparr>) x me))))))))"

definition rightRotate :: "nat option \<Rightarrow> ('k, 'v) rbtree \<Rightarrow> ('k, 'v) rbtree res" where
  "rightRotate y me =
     rbind (field n_left y me) (\<lambda>x.
     rbind (field n_right x me) (\<lambda>xr.
     rbind (upd (\<lambda>n. n\<lparr>n_left := xr\<rparr>) y me) (\<lambda>me.
     rbind (if xr \<noteq> None then upd (\<lambda>n. n\<lparr>n_parent := y\<rparr>) xr me else Inr me) (\<lambda>me.
     rbind (field n_parent y me) (\<lambda>yp.
     rbind (upd (\<lambda>n. n\<lparr>n_parent := yp\<rparr>) x me) (\<lambda>me.
     rbind (replace_child yp y x me) (\<lambda>me.
     rbind (upd (\<lambda>n. n\<lparr>n_right := y\<rparr>) x me) (\<lambda>me.
       upd (\<lambda>n. n\<lparr>n_parent := x\<rparr>) y me))))))))"

abbreviation set_color :: "color \<Rightarrow> nat option \<Rightarrow> ('k, 'v) rbtree \<Rightarrow> ('k, 'v) rbtree res" where
  "set_color c \<equiv> upd (\<lambda>n. n\<lparr>n_color := c\<rparr>)"

text \<open>
  One turn of the \<open>while\<close> loop of \<open>RedBlackTree_put\<close>, given the parent \<open>p\<close> of \<open>x\<close> and its parent
  \<open>g\<close>. \<open>near\<close>, \<open>far\<close> and the two rotations are exchanged in the second half of the code.
\<close>

definition fixup_turn ::
    "(('k, 'v) node \<Rightarrow> nat option) \<Rightarrow> (('k, 'v) node \<Rightarrow> nat option) \<Rightarrow>
     (nat option \<Rightarrow> ('k, 'v) rbtree \<Rightarrow> ('k, 'v) rbtree res) \<Rightarrow>
     (nat option \<Rightarrow> ('k, 'v) rbtree \<Rightarrow> ('k, 'v) rbtree res) \<Rightarrow>
     nat option \<Rightarrow> nat option \<Rightarrow> nat option \<Rightarrow> ('k, 'v) rbtree \<Rightarrow> (nat option \<times> ('k, 'v) rbtree) res" where
  "fixup_turn near far rotNear rotFar x p g me =
     rbind (field far g me) (\<lambda>y.
     rbind (is_black y me) (\<lambda>black.
       if \<not> black then
         rbind (set_color BLACK p me) (\<lambda>me.
         rbind (set_color BLACK y me) (\<lambda>me.
         rbind (set_color RED g me) (\<lambda>me. Inr (g, me))))
       else
         rbind (field far p me) (\<lambda>inner.
         rbind (if x = inner then rbind (rotNear p me) (\<lambda>me. Inr (p, me)) else Inr (x, me)) (\<lambda>(x, me).
         rbind (field n_parent x me) (\<lambda>p.
         rbind (set_color BLACK p me) (\<lambda>me.
         rbind (field n_parent p me) (\<lambda>g.
         rbind (set_color RED g me) (\<lambda>me.
         rbind (rotFar g me) (\<lambda>me. Inr (x, me))))))))))"

fun put_fixup :: "nat \<Rightarrow> nat option \<Rightarrow> ('k, 'v) rbtree \<Rightarrow> ('k, 'v) rbtree res" where
  "put_fixup 0 x me = Inl OutOfFuel"
| "put_fixup (Suc fuel) x me =
     (if x = root me then Inr me
      else
        rbind (field n_parent x me) (\<lambda>p.
        rbind (field n_color p me) (\<lambda>c.
          if c \<noteq> RED then Inr me
          else
            rbind (field n_parent p me) (\<lambda>g.
            rbind (field n_left g me) (\<lambda>gl.
            rbind (if p = gl then fixup_turn n_left n_right leftRotate rightRotate x p g me
                   else fixup_turn n_right n_left rightRotate leftRotate x p g me) (\<lambda>(x, me).
              put_fixup fuel x me))))))"

definition RedBlackTree_put :: "'k \<Rightarrow> 'v \<Rightarrow> ('k, 'v) rbtree \<Rightarrow> ('v option \<times> ('k, 'v) rbtree) res" where
  "RedBlackTree_put key val me =
     rbind (treeInsert key val me) (\<lambda>me.
       if \<not> isNewEntry me then Inr (oldValue me, me)
       else
         rbind (put_fixup (Suc (fresh me)) (newNode me) me) (\<lambda>me.
         rbind (set_color BLACK (root me) me) (\<lambda>me. Inr (None, me))))"

section \<open>Removal\<close>

text \<open>
  One turn of the \<open>while\<close> loop of \<open>removeFixup\<close>, again with the two sides as arguments: \<open>x\<close> is the
  \<open>near\<close> child of \<open>xParent\<close> and its sibling \<open>w\<close> the \<open>far\<close> one.
\<close>

definition remove_case1 ::
    "(('k, 'v) node \<Rightarrow> nat option) \<Rightarrow> (nat option \<Rightarrow> ('k, 'v) rbtree \<Rightarrow> ('k, 'v) rbtree res) \<Rightarrow>
     nat option \<Rightarrow> ('k, 'v) rbtree \<Rightarrow> (nat option \<times> ('k, 'v) rbtree) res" where
  "remove_case1 far rotNear xParent me =
     rbind (field far xParent me) (\<lambda>w.
     rbind (field n_color w me) (\<lambda>c.
       if c = RED then
         rbind (set_color BLACK w me) (\<lambda>me.
         rbind (set_color RED xParent me) (\<lambda>me.
         rbind (rotNear xParent me) (\<lambda>me.
         rbind (field far xParent me) (\<lambda>w. Inr (w, me)))))
       else Inr (w, me)))"

definition remove_case3 ::
    "(('k, 'v) node \<Rightarrow> nat option) \<Rightarrow> (('k, 'v) node \<Rightarrow> nat option) \<Rightarrow>
     (nat option \<Rightarrow> ('k, 'v) rbtree \<Rightarrow> ('k, 'v) rbtree res) \<Rightarrow>
     nat option \<Rightarrow> nat option \<Rightarrow> ('k, 'v) rbtree \<Rightarrow> (nat option \<times> ('k, 'v) rbtree) res" where
  "remove_case3 near far rotFar w xParent me =
     rbind (field far w me) (\<lambda>wf.
     rbind (is_black wf me) (\<lambda>b.
       if b then
         rbind (field near w me) (\<lambda>wn.
         rbind (set_color BLACK wn me) (\<lambda>me.
         rbind (set_color RED w me) (\<lambda>me.
         rbind (rotFar w me) (\<lambda>me.
         rbind (field far xParent me) (\<lambda>w. Inr (w, me))))))
       else Inr (w, me)))"

definition remove_case4 ::
    "(('k, 'v) node \<Rightarrow> nat option) \<Rightarrow> (nat option \<Rightarrow> ('k, 'v) rbtree \<Rightarrow> ('k, 'v) rbtree res) \<Rightarrow>
     nat option \<Rightarrow> nat option \<Rightarrow> ('k, 'v) rbtree \<Rightarrow> (nat option \<times> nat option \<times> ('k, 'v) rbtree) res" where
  "remove_case4 far rotNear w xParent me =
     rbind (field n_color xParent me) (\<lambda>c.
     rbind (set_color c w me) (\<lambda>me.
     rbind (set_color BLACK xParent me) (\<lambda>me.
     rbind (field far w me) (\<lambda>wf.
     rbind (if wf \<noteq> None then set_color BLACK wf me else Inr me) (\<lambda>me.
     rbind (rotNear xParent me) (\<lambda>me.
     rbind (field n_parent (root me) me) (\<lambda>xp. Inr (root me, xp, me))))))))"

definition remove_case24 ::
    "(('k, 'v) node \<Rightarrow> nat option) \<Rightarrow> (('k, 'v) node \<Rightarrow> nat option) \<Rightarrow>
     (nat option \<Rightarrow> ('k, 'v) rbtree \<Rightarrow> ('k, 'v) rbtree res) \<Rightarrow>
     (nat option \<Rightarrow> ('k, 'v) rbtree \<Rightarrow> ('k, 'v) rbtree res) \<Rightarrow>
     nat option \<Rightarrow> nat option \<Rightarrow> ('k, 'v) rbtree \<Rightarrow> (nat option \<times> nat option \<times> ('k, 'v) rbtree) res" where
  "remove_case24 near far rotNear rotFar w xParent me =
     rbind (field near w me) (\<lambda>wn.
     rbind (is_black wn me) (\<lambda>nb.
     rbind (if nb then rbind (field far w me) (\<lambda>wf. is_black wf me) else Inr False) (\<lambda>both.
       if both then
         rbind (set_color RED w me) (\<lambda>me.
         rbind (field n_parent xParent me) (\<lambda>xp. Inr (xParent, xp, me)))
       else
         rbind (remove_case3 near far rotFar w xParent me) (\<lambda>(w, me).
           remove_case4 far rotNear w xParent me))))"

definition remove_turn ::
    "(('k, 'v) node \<Rightarrow> nat option) \<Rightarrow> (('k, 'v) node \<Rightarrow> nat option) \<Rightarrow>
     (nat option \<Rightarrow> ('k, 'v) rbtree \<Rightarrow> ('k, 'v) rbtree res) \<Rightarrow>
     (nat option \<Rightarrow> ('k, 'v) rbtree \<Rightarrow> ('k, 'v) rbtree res) \<Rightarrow>
     nat option \<Rightarrow> ('k, 'v) rbtree \<Rightarrow> (nat option \<times> nat option \<times> ('k, 'v) rbtree) res" where
  "remove_turn near far rotNear rotFar xParent me =
     rbind (remove_case1 far rotNear xParent me) (\<lambda>(w, me).
       remove_case24 near far rotNear rotFar w xParent me)"

fun remove_loop ::
    "nat \<Rightarrow> nat option \<Rightarrow> nat option \<Rightarrow> ('k, 'v) rbtree \<Rightarrow> (nat option \<times> ('k, 'v) rbtree) res" where
  "remove_loop 0 x xParent me = Inl OutOfFuel"
| "remove_loop (Suc fuel) x xParent me =
     (if x = root me then Inr (x, me)
      else
        rbind (is_black x me) (\<lambda>b.
          if \<not> b then Inr (x, me)
          else
            rbind (field n_left xParent me) (\<lambda>l.
            rbind (if x = l then remove_turn n_left n_right leftRotate rightRotate xParent me
                   else remove_turn n_right n_left rightRotate leftRotate xParent me)
              (\<lambda>(x, xParent, me). remove_loop fuel x xParent me))))"

definition removeFixup :: "nat option \<Rightarrow> nat option \<Rightarrow> ('k, 'v) rbtree \<Rightarrow> ('k, 'v) rbtree res" where
  "removeFixup x xParent me =
     rbind (remove_loop (Suc (fresh me)) x xParent me) (\<lambda>(x, me).
       if x \<noteq> None then set_color BLACK x me else Inr me)"

text \<open>
  The three stages of \<open>RedBlackTree_remove\<close>: the choice of the node \<open>y\<close> to unlink, its unlinking
  (which returns \<open>x\<close> and \<open>xParent\<close>), and moving \<open>y\<close> to the place of \<open>z\<close> where they differ.
\<close>

definition remove_choose :: "nat option \<Rightarrow> ('k, 'v) rbtree \<Rightarrow> nat option res" where
  "remove_choose z me =
     rbind (nd me z) (\<lambda>n. if n_left n = None \<or> n_right n = None then Inr z else Node_successor z me)"

definition remove_unlink ::
    "nat option \<Rightarrow> ('k, 'v) rbtree \<Rightarrow> (nat option \<times> nat option \<times> ('k, 'v) rbtree) res" where
  "remove_unlink y me =
     rbind (nd me y) (\<lambda>n.
       let x = (if n_left n \<noteq> None then n_left n else n_right n); xParent = n_parent n in
       rbind (if x \<noteq> None then upd (\<lambda>n. n\<lparr>n_parent := xParent\<rparr>) x me else Inr me) (\<lambda>me.
       rbind (replace_child xParent y x me) (\<lambda>me. Inr (x, xParent, me))))"

definition remove_move :: "nat option \<Rightarrow> nat option \<Rightarrow> ('k, 'v) rbtree \<Rightarrow> ('k, 'v) rbtree res" where
  "remove_move y z me =
     rbind (nd me z) (\<lambda>n.
     rbind (upd (\<lambda>m. m\<lparr>n_parent := n_parent n, n_color := n_color n, n_left := n_left n,
                        n_right := n_right n\<rparr>) y me) (\<lambda>me.
     rbind (if n_left n \<noteq> None then upd (\<lambda>m. m\<lparr>n_parent := y\<rparr>) (n_left n) me else Inr me) (\<lambda>me.
     rbind (if n_right n \<noteq> None then upd (\<lambda>m. m\<lparr>n_parent := y\<rparr>) (n_right n) me else Inr me) (\<lambda>me.
       replace_child (n_parent n) z y me))))"

definition RedBlackTree_remove :: "'k \<Rightarrow> ('k, 'v) rbtree \<Rightarrow> ('v option \<times> ('k, 'v) rbtree) res" where
  "RedBlackTree_remove key me =
     rbind (findNode key me) (\<lambda>z.
       if z = None then Inr (None, me)
       else
         rbind (remove_choose z me) (\<lambda>y.
         rbind (remove_unlink y me) (\<lambda>(x, xParent, me).
         rbind (field n_color y me) (\<lambda>c.
         rbind (if c = BLACK then removeFixup x xParent me else Inr me) (\<lambda>me.
         rbind (if y \<noteq> z then remove_move y z me else Inr me) (\<lambda>me.
         rbind (field n_value z me) (\<lambda>v. Inr (Some v, me))))))))"

section \<open>Lookup, iteration and disposal\<close>

definition RedBlackTree_get :: "'k \<Rightarrow> ('k, 'v) rbtree \<Rightarrow> 'v option res" where
  "RedBlackTree_get key me =
     rbind (findNode key me) (\<lambda>node.
       if node = None then Inr None else rbind (field n_value node me) (\<lambda>v. Inr (Some v)))"

text \<open>The callback \<open>iter\<close> works on its own \<open>data\<close>; no caller changes the tree from inside it.\<close>

fun forEach_loop_rb ::
    "nat \<Rightarrow> ('k \<Rightarrow> 'v \<Rightarrow> 'd \<Rightarrow> 'd res) \<Rightarrow> nat option \<Rightarrow> 'd \<Rightarrow> ('k, 'v) rbtree \<Rightarrow> 'd res" where
  "forEach_loop_rb 0 iter current data me = Inl OutOfFuel"
| "forEach_loop_rb (Suc fuel) iter current data me =
     (if current \<noteq> None then
        rbind (nd me current) (\<lambda>n.
        rbind (iter (n_key n) (n_value n) data) (\<lambda>data.
        rbind (Node_successor current me) (\<lambda>current. forEach_loop_rb fuel iter current data me)))
      else Inr data)"

definition RedBlackTree_forEach ::
    "('k \<Rightarrow> 'v \<Rightarrow> 'd \<Rightarrow> 'd res) \<Rightarrow> 'd \<Rightarrow> ('k, 'v) rbtree \<Rightarrow> 'd res" where
  "RedBlackTree_forEach iter data me =
     (if root me = None then Inr data
      else rbind (Node_treeMinimum (root me) me) (\<lambda>current.
             forEach_loop_rb (Suc (fresh me)) iter current data me))"

text \<open>\<open>free\<close> of a node takes it out of the heap; its key and value go with it.\<close>

fun Node_dispose :: "nat \<Rightarrow> nat option \<Rightarrow> ('k, 'v) rbtree \<Rightarrow> ('k, 'v) rbtree res" where
  "Node_dispose 0 p me = Inl OutOfFuel"
| "Node_dispose (Suc fuel) p me =
     rbind (field n_left p me) (\<lambda>l.
     rbind (if l \<noteq> None then Node_dispose fuel l me else Inr me) (\<lambda>me.
     rbind (field n_right p me) (\<lambda>r.
     rbind (if r \<noteq> None then Node_dispose fuel r me else Inr me) (\<lambda>me.
       Inr (me\<lparr>nodes := (nodes me)(the p := None)\<rparr>)))))"

definition RedBlackTree_dispose :: "('k, 'v) rbtree \<Rightarrow> (nat \<Rightarrow> ('k, 'v) node option) res" where
  "RedBlackTree_dispose me =
     rbind (if root me \<noteq> None then Node_dispose (Suc (fresh me)) (root me) me else Inr me)
       (\<lambda>me. Inr (nodes me))"

end
