(* ===== verification/RedBlackShape.thy ===== *)
theory RedBlackShape
  imports AwfyRedBlackTree
begin

text \<open>
  What the heap of \<open>RedBlackTree.c\<close> represents: trees labelled with node addresses, contexts (paths
  from a node to the root) for the parent pointers, and the representation relation \<open>rep\<close>. Every
  pointer operation is shown to rewrite the represented tree at a focus and to leave the rest of the
  heap alone.
\<close>

section \<open>Trees with addresses and contexts\<close>

datatype ('k, 'v) atree =
    Lf
  | Br "('k, 'v) atree" nat color 'k 'v "('k, 'v) atree"

fun rp :: "('k, 'v) atree \<Rightarrow> nat option" where
  "rp Lf = None"
| "rp (Br l a c k v r) = Some a"

fun inord :: "('k, 'v) atree \<Rightarrow> (nat \<times> 'k \<times> 'v) list" where
  "inord Lf = []"
| "inord (Br l a c k v r) = inord l @ (a, k, v) # inord r"

abbreviation addrs :: "('k, 'v) atree \<Rightarrow> nat list" where
  "addrs t \<equiv> map fst (inord t)"

text \<open>A frame is a parent without the child in focus: \<open>FL\<close> when the focus is its left child.\<close>

datatype ('k, 'v) frame =
    FL nat color 'k 'v "('k, 'v) atree"
  | FR "('k, 'v) atree" nat color 'k 'v

fun plug :: "('k, 'v) frame list \<Rightarrow> ('k, 'v) atree \<Rightarrow> ('k, 'v) atree" where
  "plug [] t = t"
| "plug (FL a c k v r # cs) t = plug cs (Br t a c k v r)"
| "plug (FR l a c k v # cs) t = plug cs (Br l a c k v t)"

fun par :: "('k, 'v) frame list \<Rightarrow> nat option" where
  "par [] = None"
| "par (FL a c k v r # cs) = Some a"
| "par (FR l a c k v # cs) = Some a"

fun lefts :: "('k, 'v) frame list \<Rightarrow> (nat \<times> 'k \<times> 'v) list" where
  "lefts [] = []"
| "lefts (FL a c k v r # cs) = lefts cs"
| "lefts (FR l a c k v # cs) = lefts cs @ inord l @ [(a, k, v)]"

fun rights :: "('k, 'v) frame list \<Rightarrow> (nat \<times> 'k \<times> 'v) list" where
  "rights [] = []"
| "rights (FL a c k v r # cs) = (a, k, v) # inord r @ rights cs"
| "rights (FR l a c k v # cs) = rights cs"

lemma inord_plug [simp]: "inord (plug cs t) = lefts cs @ inord t @ rights cs"
  by (induction cs t rule: plug.induct) auto

lemma rp_None [simp]: "rp t = None \<longleftrightarrow> t = Lf"
  by (cases t) auto

lemma None_rp [simp]: "None = rp t \<longleftrightarrow> t = Lf"
  by (cases t) auto

lemma par_None [simp]: "par cs = None \<longleftrightarrow> cs = []"
  by (cases cs rule: par.cases) auto

lemma plug_Lf [simp]: "plug cs t = Lf \<longleftrightarrow> cs = [] \<and> t = Lf"
  by (induction cs t rule: plug.induct) auto

lemma rp_addr: "rp t = Some a \<Longrightarrow> a \<in> fst ` set (inord t)"
  by (cases t) auto

lemma rp_not_addr [simp]:
  "a \<notin> fst ` set (inord t) \<Longrightarrow> rp t \<noteq> Some a"
  "a \<notin> fst ` set (inord t) \<Longrightarrow> Some a \<noteq> rp t"
  by (cases t; auto)+

lemma plug_append: "plug (cs @ ds) t = plug ds (plug cs t)"
  by (induction cs t rule: plug.induct) auto

lemma lefts_append [simp]: "lefts (cs @ ds) = lefts ds @ lefts cs"
  by (induction cs rule: lefts.induct) auto

lemma rights_append [simp]: "rights (cs @ ds) = rights cs @ rights ds"
  by (induction cs rule: lefts.induct) auto

text \<open>Every entry of a tree has a zipper.\<close>

lemma inord_zipper:
  "inord t = xs @ (a, k, v) # ys \<Longrightarrow>
   \<exists>cs l c r. t = plug cs (Br l a c k v r) \<and> xs = lefts cs @ inord l \<and> ys = inord r @ rights cs"
proof (induction t arbitrary: xs ys)
  case (Br l b d k' v' r)
  from Br.prems consider
      (left) zs where "inord l = xs @ (a, k, v) # zs" "ys = zs @ (b, k', v') # inord r"
    | (here) "xs = inord l" "(a, k, v) = (b, k', v')" "ys = inord r"
    | (right) zs where "xs = inord l @ (b, k', v') # zs" "inord r = zs @ (a, k, v) # ys"
    by (auto simp: append_eq_append_conv2 Cons_eq_append_conv append_eq_Cons_conv)
  then show ?case
  proof cases
    case left
    from Br.IH(1) [OF left(1)] obtain cs l' c r' where z: "l = plug cs (Br l' a c k v r')"
      "xs = lefts cs @ inord l'" "zs = inord r' @ rights cs" by blast
    show ?thesis
      by (rule exI [of _ "cs @ [FL b d k' v' r]"], rule exI [of _ l'], rule exI [of _ c],
          rule exI [of _ r']) (simp add: z left(2) plug_append)
  next
    case here
    show ?thesis
      by (rule exI [of _ "[]"], rule exI [of _ l], rule exI [of _ d], rule exI [of _ r])
        (use here in simp)
  next
    case right
    from Br.IH(2) [OF right(2)] obtain cs l' c r' where z: "r = plug cs (Br l' a c k v r')"
      "zs = lefts cs @ inord l'" "ys = inord r' @ rights cs" by blast
    show ?thesis
      by (rule exI [of _ "cs @ [FR l b d k' v']"], rule exI [of _ l'], rule exI [of _ c],
          rule exI [of _ r']) (simp add: z right(1) plug_append)
  qed
qed simp

fun rootc :: "('k, 'v) frame list \<Rightarrow> nat option \<Rightarrow> nat option" where
  "rootc [] p = p"
| "rootc (FL a c k v r # cs) p = rootc cs (Some a)"
| "rootc (FR l a c k v # cs) p = rootc cs (Some a)"

lemma rp_plug [simp]: "rp (plug cs t) = rootc cs (rp t)"
  by (induction cs t rule: plug.induct) auto

section \<open>The representation relation\<close>

fun holds :: "(nat \<Rightarrow> ('k, 'v) node option) \<Rightarrow> nat option \<Rightarrow> ('k, 'v) atree \<Rightarrow> bool" where
  "holds m p Lf = True"
| "holds m p (Br l a c k v r) =
     (m a = Some \<lparr>n_key = k, n_value = v, n_left = rp l, n_right = rp r, n_parent = p, n_color = c\<rparr> \<and>
      holds m (Some a) l \<and> holds m (Some a) r)"

fun holdsc :: "(nat \<Rightarrow> ('k, 'v) node option) \<Rightarrow> nat option \<Rightarrow> ('k, 'v) frame list \<Rightarrow> bool" where
  "holdsc m p [] = True"
| "holdsc m p (FL a c k v r # cs) =
     (m a = Some \<lparr>n_key = k, n_value = v, n_left = p, n_right = rp r, n_parent = par cs, n_color = c\<rparr> \<and>
      holds m (Some a) r \<and> holdsc m (Some a) cs)"
| "holdsc m p (FR l a c k v # cs) =
     (m a = Some \<lparr>n_key = k, n_value = v, n_left = rp l, n_right = p, n_parent = par cs, n_color = c\<rparr> \<and>
      holds m (Some a) l \<and> holdsc m (Some a) cs)"

lemma holds_plug: "holds m None (plug cs t) \<longleftrightarrow> holdsc m (rp t) cs \<and> holds m (par cs) t"
  by (induction cs t rule: plug.induct) auto

lemma holds_upd [simp]: "a \<notin> fst ` set (inord t) \<Longrightarrow> holds (m(a := n)) p t = holds m p t"
  by (induction t arbitrary: p) auto

lemma holdsc_upd [simp]:
  "a \<notin> fst ` set (lefts cs) \<Longrightarrow> a \<notin> fst ` set (rights cs) \<Longrightarrow>
   holdsc (m(a := n)) p cs = holdsc m p cs"
  by (induction cs arbitrary: p rule: lefts.induct) (auto simp: image_Un)

lemma holds_cong:
  "(\<And>a. a \<in> fst ` set (inord t) \<Longrightarrow> m a = m' a) \<Longrightarrow> holds m p t = holds m' p t"
  by (induction t arbitrary: p) auto

text \<open>
  \<open>rest t me\<close> is everything of a state that the tree \<open>t\<close> does not own; \<open>rep t R me\<close> says that \<open>me\<close>
  holds the tree \<open>t\<close> and besides it exactly \<open>R\<close>.
\<close>

definition rest :: "('k, 'v) atree \<Rightarrow> ('k, 'v) rbtree \<Rightarrow> ('k, 'v) rbtree" where
  "rest t me = me\<lparr>nodes := nodes me |` (- set (addrs t)), root := None\<rparr>"

definition rep :: "('k, 'v) atree \<Rightarrow> ('k, 'v) rbtree \<Rightarrow> ('k, 'v) rbtree \<Rightarrow> bool" where
  "rep t R me \<longleftrightarrow> holds (nodes me) None t \<and> distinct (addrs t) \<and> root me = rp t \<and>
     (\<forall>a\<in>set (addrs t). a < fresh me) \<and> rest t me = R"


lemma nd_Some [simp]: "nodes me a = Some n \<Longrightarrow> nd me (Some a) = Inr n"
  by (simp add: nd_def)

lemma upd_Some [simp]:
  "nodes me a = Some n \<Longrightarrow> upd f (Some a) me = Inr (me\<lparr>nodes := (nodes me)(a \<mapsto> f n)\<rparr>)"
  by (simp add: upd_def)

lemma field_Some [simp]: "nodes me a = Some n \<Longrightarrow> field f (Some a) me = Inr (f n)"
  by (simp add: field_def)

lemmas rep_defs = rep_def holds_plug rest_def replace_child_def image_Un

lemma leftRotate_rep:
  assumes "rep (plug cs (Br a x c k v (Br b y c' k' v' d))) R me"
  shows "ok (leftRotate (Some x) me) (rep (plug cs (Br (Br a x c k v b) y c' k' v' d)) R)"
  using assms by (cases cs rule: par.cases; cases b) (simp_all add: leftRotate_def rep_defs insert_commute)

lemma rightRotate_rep:
  assumes "rep (plug cs (Br (Br a x c k v b) y c' k' v' d)) R me"
  shows "ok (rightRotate (Some y) me) (rep (plug cs (Br a x c k v (Br b y c' k' v' d))) R)"
  using assms by (cases cs rule: par.cases; cases b) (simp_all add: rightRotate_def rep_defs insert_commute)

lemma set_color_rep:
  assumes "rep (plug cs (Br l a c k v r)) R me"
  shows "ok (set_color c' (Some a) me) (rep (plug cs (Br l a c' k v r)) R)"
  using assms by (cases cs rule: par.cases) (simp_all add: rep_defs insert_commute)

lemma set_value_rep:
  assumes "rep (plug cs (Br l a c k v r)) R me"
  shows "ok (upd (\<lambda>n. n\<lparr>n_value := v'\<rparr>) (Some a) me) (rep (plug cs (Br l a c k v' r)) R)"
  using assms by (cases cs rule: par.cases) (simp_all add: rep_defs insert_commute)

lemma rep_node:
  assumes "rep (plug cs (Br l a c k v r)) R me"
  shows "nodes me a = Some \<lparr>n_key = k, n_value = v, n_left = rp l, n_right = rp r,
    n_parent = par cs, n_color = c\<rparr>"
  using assms by (simp add: rep_def holds_plug)

lemma rep_root: "rep t R me \<Longrightarrow> root me = rp t"
  by (simp add: rep_def)

end
