(* ===== verification/RedBlackPut.thy ===== *)
theory RedBlackPut
  imports RedBlackShape
begin

text \<open>
  \<open>RedBlackTree_put\<close>: the colour and height invariant \<open>rb\<close> of trees and \<open>rbc\<close> of contexts, the turns
  of the fix-up loop as rewrites of the represented tree, and insertion as a map update.
\<close>

section \<open>Colours, black height and order\<close>

fun blk :: "('k, 'v) atree \<Rightarrow> bool" where
  "blk Lf = True"
| "blk (Br l a c k v r) = (c = BLACK)"

text \<open>\<open>rb t n\<close>: no red node has a red child, and every path to a leaf has \<open>n\<close> black nodes.\<close>

fun rb :: "('k, 'v) atree \<Rightarrow> nat \<Rightarrow> bool" where
  "rb Lf n = (n = 0)"
| "rb (Br l a RED k v r) n = (rb l n \<and> rb r n \<and> blk l \<and> blk r)"
| "rb (Br l a BLACK k v r) n = (0 < n \<and> rb l (n - 1) \<and> rb r (n - 1))"

text \<open>\<open>rbc cs n\<close>: what \<open>cs\<close> must be for a tree of black height \<open>n\<close> to fit in; a red frame has a black parent.\<close>

fun black_top :: "('k, 'v) frame list \<Rightarrow> bool" where
  "black_top [] = True"
| "black_top (FL a c k v r # cs) = (c = BLACK)"
| "black_top (FR l a c k v # cs) = (c = BLACK)"

fun rbc :: "('k, 'v) frame list \<Rightarrow> nat \<Rightarrow> bool" where
  "rbc [] n = True"
| "rbc (FL a c k v s # cs) n =
     (rb s n \<and> (if c = RED then blk s \<and> cs \<noteq> [] \<and> black_top cs \<and> rbc cs n else rbc cs (Suc n)))"
| "rbc (FR s a c k v # cs) n =
     (rb s n \<and> (if c = RED then blk s \<and> cs \<noteq> [] \<and> black_top cs \<and> rbc cs n else rbc cs (Suc n)))"

lemma not_RED [simp]: "c \<noteq> RED \<longleftrightarrow> c = BLACK"
  by (cases c) auto

lemma rb_plug: "rbc cs n \<Longrightarrow> rb t n \<Longrightarrow> blk t \<or> black_top cs \<Longrightarrow> \<exists>N. rb (plug cs t) N"
proof (induction cs arbitrary: t n rule: lefts.induct)
  case (2 a c k v r cs)
  then show ?case by (cases c) auto
next
  case (3 l a c k v cs)
  then show ?case by (cases c) auto
qed auto

definition paint :: "color \<Rightarrow> ('k, 'v) atree \<Rightarrow> ('k, 'v) atree" where
  "paint c t = (case t of Lf \<Rightarrow> Lf | Br l a d k v r \<Rightarrow> Br l a c k v r)"

lemma paint_simps [simp]:
  "paint c Lf = Lf" "paint c (Br l a d k v r) = Br l a c k v r"
  "inord (paint c t) = inord t" "rp (paint c t) = rp t" "blk (paint BLACK t)"
  by (auto simp: paint_def split: atree.splits)

lemma rb_paint: "rb t n \<Longrightarrow> \<exists>N. rb (paint BLACK t) N"
proof (cases t)
  case (Br l a c k v r)
  then show "rb t n \<Longrightarrow> ?thesis" by (cases c) (auto intro: exI [of _ "Suc n"] exI [of _ n])
qed auto

definition comparator :: "('k \<Rightarrow> 'k \<Rightarrow> int) \<Rightarrow> bool" where
  "comparator c \<longleftrightarrow>
     (\<forall>x y. c x y = 0 \<longleftrightarrow> x = y) \<and> (\<forall>x y. c x y < 0 \<longleftrightarrow> c y x > 0) \<and>
     (\<forall>x y z. c x y < 0 \<longrightarrow> c y z < 0 \<longrightarrow> c x z < 0)"

abbreviation keys :: "(nat \<times> 'k \<times> 'v) list \<Rightarrow> 'k list" where
  "keys xs \<equiv> map (\<lambda>(a, k, v). k) xs"

definition ascending :: "('k \<Rightarrow> 'k \<Rightarrow> int) \<Rightarrow> (nat \<times> 'k \<times> 'v) list \<Rightarrow> bool" where
  "ascending c xs \<longleftrightarrow> sorted_wrt (\<lambda>x y. c x y < 0) (keys xs)"

section \<open>Reading nodes through the representation\<close>

lemma rep_fields:
  assumes "rep (plug cs (Br l a c k v r)) R me"
  shows "field n_left (Some a) me = Inr (rp l)" "field n_right (Some a) me = Inr (rp r)"
    "field n_parent (Some a) me = Inr (par cs)" "field n_color (Some a) me = Inr c"
    "field n_key (Some a) me = Inr k" "field n_value (Some a) me = Inr v"
    "nd me (Some a) = Inr \<lparr>n_key = k, n_value = v, n_left = rp l, n_right = rp r,
       n_parent = par cs, n_color = c\<rparr>"
  using rep_node [OF assms] by simp_all

lemma rep_is_black: "rep (plug cs t) R me \<Longrightarrow> is_black (rp t) me = Inr (blk t)"
  by (cases t) (simp_all add: is_black_def rep_fields)

lemma rep_distinct: "rep t R me \<Longrightarrow> distinct (addrs t)"
  by (simp add: rep_def)

section \<open>The fix-up loop\<close>

text \<open>The facts above for the children and grandchildren of the node in focus.\<close>

lemmas rep_fields_L = rep_fields [of "FL g cg kg vg s # cs" for g cg kg vg s cs, simplified]
lemmas rep_fields_R = rep_fields [of "FR s g cg kg vg # cs" for g cg kg vg s cs, simplified]
lemmas rep_fields_LL = rep_fields_L [of "FL g cg kg vg s # cs" for g cg kg vg s cs, simplified]
lemmas rep_fields_LR = rep_fields_R [of "FL g cg kg vg s # cs" for g cg kg vg s cs, simplified]
lemmas rep_fields_RL = rep_fields_L [of "FR s g cg kg vg # cs" for g cg kg vg s cs, simplified]
lemmas rep_fields_RR = rep_fields_R [of "FR s g cg kg vg # cs" for g cg kg vg s cs, simplified]

lemmas rep_reads = rep_fields rep_fields_L rep_fields_R rep_fields_LL rep_fields_LR rep_fields_RL
  rep_fields_RR

lemmas rep_is_black_L = rep_is_black [of "FL g cg kg vg s # cs" for g cg kg vg s cs, simplified]
lemmas rep_is_black_R = rep_is_black [of "FR s g cg kg vg # cs" for g cg kg vg s cs, simplified]

lemmas set_color_L = set_color_rep [of "FL g cg kg vg s # cs" for g cg kg vg s cs, simplified]
lemmas set_color_R = set_color_rep [of "FR s g cg kg vg # cs" for g cg kg vg s cs, simplified]

lemmas leftRotate_L = leftRotate_rep [of "FL g cg kg vg s # cs" for g cg kg vg s cs, simplified]
lemmas rightRotate_R = rightRotate_rep [of "FR s g cg kg vg # cs" for g cg kg vg s cs, simplified]

lemma turn_left_red:
  assumes "rep (plug cs (Br (Br pl p cp kp vp pr) g cg kg vg (Br ul u RED ku vu ur))) R me"
  shows "ok (fixup_turn n_left n_right leftRotate rightRotate x (Some p) (Some g) me)
    (\<lambda>(x', me'). x' = Some g \<and>
       rep (plug cs (Br (Br pl p BLACK kp vp pr) g RED kg vg (Br ul u BLACK ku vu ur))) R me')"
  using assms rep_is_black_R [OF assms] unfolding fixup_turn_def
  apply (simp add: rep_reads)
  apply (rule ok_step, erule set_color_L)
  apply (rule ok_step, erule set_color_R)
  apply (rule ok_step, erule set_color_rep)
  apply simp
  done

lemma turn_left_outer:
  assumes "rep (plug cs (Br (Br (Br l x RED k v r) p cp kp vp pr) g cg kg vg u)) R me" "blk u"
  shows "ok (fixup_turn n_left n_right leftRotate rightRotate (Some x) (Some p) (Some g) me)
    (\<lambda>(x', me'). x' = Some x \<and>
       rep (plug cs (Br (Br l x RED k v r) p BLACK kp vp (Br pr g RED kg vg u))) R me')"
  using assms rep_is_black_R [OF assms(1)] rep_distinct [OF assms(1)] unfolding fixup_turn_def
  apply (simp add: rep_reads)
  apply (rule ok_step, erule set_color_L)
  apply (simp add: rep_reads)
  apply (rule ok_step, erule set_color_rep)
  apply (rule ok_step, erule rightRotate_rep)
  apply simp
  done

lemma turn_left_inner:
  assumes "rep (plug cs (Br (Br pl p cp kp vp (Br l x RED k v r)) g cg kg vg u)) R me" "blk u"
  shows "ok (fixup_turn n_left n_right leftRotate rightRotate (Some x) (Some p) (Some g) me)
    (\<lambda>(x', me'). x' = Some p \<and>
       rep (plug cs (Br (Br pl p cp kp vp l) x BLACK k v (Br r g RED kg vg u))) R me')"
  using assms rep_is_black_R [OF assms(1)] unfolding fixup_turn_def
  apply (simp add: rep_reads rbind_assoc)
  apply (rule ok_step, erule leftRotate_L)
  apply (simp add: rep_reads)
  apply (rule ok_step, erule set_color_L)
  apply (simp add: rep_reads)
  apply (rule ok_step, erule set_color_rep)
  apply (rule ok_step, erule rightRotate_rep)
  apply simp
  done

lemma turn_right_red:
  assumes "rep (plug cs (Br (Br ul u RED ku vu ur) g cg kg vg (Br pl p cp kp vp pr))) R me"
  shows "ok (fixup_turn n_right n_left rightRotate leftRotate x (Some p) (Some g) me)
    (\<lambda>(x', me'). x' = Some g \<and>
       rep (plug cs (Br (Br ul u BLACK ku vu ur) g RED kg vg (Br pl p BLACK kp vp pr))) R me')"
  using assms rep_is_black_L [OF assms] unfolding fixup_turn_def
  apply (simp add: rep_reads)
  apply (rule ok_step, erule set_color_R)
  apply (rule ok_step, erule set_color_L)
  apply (rule ok_step, erule set_color_rep)
  apply simp
  done

lemma turn_right_outer:
  assumes "rep (plug cs (Br u g cg kg vg (Br pl p cp kp vp (Br l x RED k v r)))) R me" "blk u"
  shows "ok (fixup_turn n_right n_left rightRotate leftRotate (Some x) (Some p) (Some g) me)
    (\<lambda>(x', me'). x' = Some x \<and>
       rep (plug cs (Br (Br u g RED kg vg pl) p BLACK kp vp (Br l x RED k v r))) R me')"
  using assms rep_is_black_L [OF assms(1)] rep_distinct [OF assms(1)] unfolding fixup_turn_def
  apply (simp add: rep_reads)
  apply (rule ok_step, erule set_color_R)
  apply (simp add: rep_reads)
  apply (rule ok_step, erule set_color_rep)
  apply (rule ok_step, erule leftRotate_rep)
  apply simp
  done

lemma turn_right_inner:
  assumes "rep (plug cs (Br u g cg kg vg (Br (Br l x RED k v r) p cp kp vp pr))) R me" "blk u"
  shows "ok (fixup_turn n_right n_left rightRotate leftRotate (Some x) (Some p) (Some g) me)
    (\<lambda>(x', me'). x' = Some p \<and>
       rep (plug cs (Br (Br u g RED kg vg l) x BLACK k v (Br r p cp kp vp pr))) R me')"
  using assms rep_is_black_L [OF assms(1)] unfolding fixup_turn_def
  apply (simp add: rep_reads rbind_assoc)
  apply (rule ok_step, erule rightRotate_R)
  apply (simp add: rep_reads)
  apply (rule ok_step, erule set_color_R)
  apply (simp add: rep_reads)
  apply (rule ok_step, erule set_color_rep)
  apply (rule ok_step, erule leftRotate_rep)
  apply simp
  done

text \<open>
  A turn at a red node \<open>x\<close> below a red parent either moves to the grandparent, two frames up, or
  leaves a tree in which \<open>x'\<close> has a black parent.
\<close>

definition red_at ::
    "('k, 'v) atree \<Rightarrow> ('k, 'v) rbtree \<Rightarrow> nat option \<Rightarrow> ('k, 'v) frame list \<Rightarrow> ('k, 'v) rbtree \<Rightarrow> bool" where
  "red_at T R x cs me \<longleftrightarrow>
     (\<exists>t n. rep (plug cs t) R me \<and> inord (plug cs t) = inord T \<and> rp t = x \<and> t \<noteq> Lf \<and> \<not> blk t \<and>
        rb t n \<and> rbc cs n)"

definition turn_done ::
    "('k, 'v) atree \<Rightarrow> ('k, 'v) rbtree \<Rightarrow> nat option \<Rightarrow> ('k, 'v) frame list \<Rightarrow> ('k, 'v) rbtree \<Rightarrow> bool" where
  "turn_done T R x cs me \<longleftrightarrow>
     red_at T R x cs me \<or> (\<exists>f ds. red_at T R x (f # ds) me \<and> black_top (f # ds))"

lemma red_atI:
  "rep (plug cs (Br l a RED k v r)) R me \<Longrightarrow> lefts cs @ inord (Br l a RED k v r) @ rights cs = inord T \<Longrightarrow>
   rb (Br l a RED k v r) n \<Longrightarrow> rbc cs n \<Longrightarrow> red_at T R (Some a) cs me"
  unfolding red_at_def by (intro exI [of _ "Br l a RED k v r"] exI [of _ n]) simp

lemma red_atE:
  assumes "red_at T R x cs me"
  obtains l a k v r n where "rep (plug cs (Br l a RED k v r)) R me" "x = Some a"
    "lefts cs @ inord (Br l a RED k v r) @ rights cs = inord T" "rb l n" "rb r n" "blk l" "blk r" "rbc cs n"
proof -
  from assms obtain t n where t: "rep (plug cs t) R me" "inord (plug cs t) = inord T" "rp t = x" "t \<noteq> Lf"
    "\<not> blk t" "rb t n" "rbc cs n" by (auto simp: red_at_def)
  from t(4,5) obtain l a c k v r where "t = Br l a c k v r" "c = RED"
    by (cases t) (auto, metis color.exhaust)
  with t that show ?thesis by auto
qed

lemma turn_done_up:
  "rep (plug cs (Br l a RED k v r)) R me \<Longrightarrow> lefts cs @ inord (Br l a RED k v r) @ rights cs = inord T \<Longrightarrow>
   rb (Br l a RED k v r) n \<Longrightarrow> rbc cs n \<Longrightarrow> turn_done T R (Some a) cs me"
  unfolding turn_done_def by (blast intro: red_atI)

lemma turn_done_L:
  "rep (plug cs (Br (Br l a RED k v r) p BLACK kp vp s)) R me \<Longrightarrow>
   lefts cs @ inord (Br (Br l a RED k v r) p BLACK kp vp s) @ rights cs = inord T \<Longrightarrow>
   rb (Br l a RED k v r) n \<Longrightarrow> rb s n \<Longrightarrow> rbc cs (Suc n) \<Longrightarrow> turn_done T R (Some a) cs me"
  unfolding turn_done_def
  by (intro disjI2 exI [of _ "FL p BLACK kp vp s"] exI [of _ cs] conjI red_atI) simp_all

lemma turn_done_R:
  "rep (plug cs (Br s p BLACK kp vp (Br l a RED k v r))) R me \<Longrightarrow>
   lefts cs @ inord (Br s p BLACK kp vp (Br l a RED k v r)) @ rights cs = inord T \<Longrightarrow>
   rb (Br l a RED k v r) n \<Longrightarrow> rb s n \<Longrightarrow> rbc cs (Suc n) \<Longrightarrow> turn_done T R (Some a) cs me"
  unfolding turn_done_def
  by (intro disjI2 exI [of _ "FR s p BLACK kp vp"] exI [of _ cs] conjI red_atI) simp_all

lemma red_cases:
  assumes "\<not> blk t"
  obtains l a k v r where "t = Br l a RED k v r"
  using assms by (cases t) (auto, metis color.exhaust)

lemma put_turn_LL:
  assumes r: "rep (plug cs (Br (Br (Br l x RED k v r) p RED kp vp s) g BLACK kg vg u)) R me"
    and io: "lefts cs @ inord (Br (Br (Br l x RED k v r) p RED kp vp s) g BLACK kg vg u) @ rights cs = inord T"
    and b: "rb l n" "rb r n" "blk l" "blk r" "rb s n" "blk s" "rb u n" "rbc cs (Suc n)"
  shows "ok (fixup_turn n_left n_right leftRotate rightRotate (Some x) (Some p) (Some g) me)
    (\<lambda>(x', me'). turn_done T R x' cs me')"
proof (cases "blk u")
  case True
  show ?thesis
    by (rule ok_mono [OF turn_left_outer [OF r True]])
      (use io b True in \<open>auto intro!: turn_done_L [where n = n]\<close>)
next
  case False
  then obtain ul a ku vu ur where u: "u = Br ul a RED ku vu ur" by (rule red_cases)
  show ?thesis
    by (rule ok_mono [OF turn_left_red [OF r [unfolded u]]])
      (use io b in \<open>auto simp: u intro!: turn_done_up [where n = "Suc n"]\<close>)
qed

lemma put_turn_LR:
  assumes r: "rep (plug cs (Br (Br s p RED kp vp (Br l x RED k v r)) g BLACK kg vg u)) R me"
    and io: "lefts cs @ inord (Br (Br s p RED kp vp (Br l x RED k v r)) g BLACK kg vg u) @ rights cs = inord T"
    and b: "rb l n" "rb r n" "blk l" "blk r" "rb s n" "blk s" "rb u n" "rbc cs (Suc n)"
  shows "ok (fixup_turn n_left n_right leftRotate rightRotate (Some x) (Some p) (Some g) me)
    (\<lambda>(x', me'). turn_done T R x' cs me')"
proof (cases "blk u")
  case True
  show ?thesis
    by (rule ok_mono [OF turn_left_inner [OF r True]])
      (use io b True in \<open>auto intro!: turn_done_L [where n = n]\<close>)
next
  case False
  then obtain ul a ku vu ur where u: "u = Br ul a RED ku vu ur" by (rule red_cases)
  show ?thesis
    by (rule ok_mono [OF turn_left_red [OF r [unfolded u]]])
      (use io b in \<open>auto simp: u intro!: turn_done_up [where n = "Suc n"]\<close>)
qed

lemma put_turn_RR:
  assumes r: "rep (plug cs (Br u g BLACK kg vg (Br s p RED kp vp (Br l x RED k v r)))) R me"
    and io: "lefts cs @ inord (Br u g BLACK kg vg (Br s p RED kp vp (Br l x RED k v r))) @ rights cs = inord T"
    and b: "rb l n" "rb r n" "blk l" "blk r" "rb s n" "blk s" "rb u n" "rbc cs (Suc n)"
  shows "ok (fixup_turn n_right n_left rightRotate leftRotate (Some x) (Some p) (Some g) me)
    (\<lambda>(x', me'). turn_done T R x' cs me')"
proof (cases "blk u")
  case True
  show ?thesis
    by (rule ok_mono [OF turn_right_outer [OF r True]])
      (use io b True in \<open>auto intro!: turn_done_R [where n = n]\<close>)
next
  case False
  then obtain ul a ku vu ur where u: "u = Br ul a RED ku vu ur" by (rule red_cases)
  show ?thesis
    by (rule ok_mono [OF turn_right_red [OF r [unfolded u]]])
      (use io b in \<open>auto simp: u intro!: turn_done_up [where n = "Suc n"]\<close>)
qed

lemma put_turn_RL:
  assumes r: "rep (plug cs (Br u g BLACK kg vg (Br (Br l x RED k v r) p RED kp vp s))) R me"
    and io: "lefts cs @ inord (Br u g BLACK kg vg (Br (Br l x RED k v r) p RED kp vp s)) @ rights cs = inord T"
    and b: "rb l n" "rb r n" "blk l" "blk r" "rb s n" "blk s" "rb u n" "rbc cs (Suc n)"
  shows "ok (fixup_turn n_right n_left rightRotate leftRotate (Some x) (Some p) (Some g) me)
    (\<lambda>(x', me'). turn_done T R x' cs me')"
proof (cases "blk u")
  case True
  show ?thesis
    by (rule ok_mono [OF turn_right_inner [OF r True]])
      (use io b True in \<open>auto intro!: turn_done_R [where n = n]\<close>)
next
  case False
  then obtain ul a ku vu ur where u: "u = Br ul a RED ku vu ur" by (rule red_cases)
  show ?thesis
    by (rule ok_mono [OF turn_right_red [OF r [unfolded u]]])
      (use io b in \<open>auto simp: u intro!: turn_done_up [where n = "Suc n"]\<close>)
qed

definition settled ::
    "('k, 'v) atree \<Rightarrow> ('k, 'v) rbtree \<Rightarrow> ('k, 'v) rbtree \<Rightarrow> bool" where
  "settled T R me \<longleftrightarrow> (\<exists>T' n. rep T' R me \<and> inord T' = inord T \<and> rb T' n)"

lemma red_at_settled:
  assumes "red_at T R x cs me" "black_top cs"
  shows "settled T R me"
proof -
  from assms(1) obtain t n where t: "rep (plug cs t) R me" "inord (plug cs t) = inord T" "rb t n" "rbc cs n"
    by (auto simp: red_at_def)
  from rb_plug [OF t(4,3)] assms(2) t(1,2) show ?thesis by (auto simp: settled_def)
qed

lemma rootc_addr: "rootc cs p = Some a \<Longrightarrow> p = Some a \<or> a \<in> fst ` set (lefts cs @ rights cs)"
  by (induction cs p rule: rootc.induct) (auto simp: image_Un)

lemma rep_not_root:
  assumes "rep (plug cs (Br l a c k v r)) R me" "cs \<noteq> []"
  shows "root me \<noteq> Some a"
proof
  assume "root me = Some a"
  with rep_root [OF assms(1)] have *: "rootc cs (Some a) = Some a" by simp
  show False
  proof (cases cs rule: par.cases)
    case (2 b d k' v' s ds)
    with * rootc_addr [of ds "Some b" a] rep_distinct [OF assms(1)] show False by auto
  next
    case (3 s b d k' v' ds)
    with * rootc_addr [of ds "Some b" a] rep_distinct [OF assms(1)] show False by auto
  qed (use assms(2) in simp)
qed

text \<open>A red node whose parent is red has a black grandparent, on one of four paths.\<close>

lemma red_frames:
  assumes "rbc cs n" "\<not> black_top cs"
  obtains
    (LL) p kp vp s g kg vg u ds where "cs = FL p RED kp vp s # FL g BLACK kg vg u # ds"
      "rb s n" "blk s" "rb u n" "rbc ds (Suc n)"
  | (LR) p kp vp s g kg vg u ds where "cs = FR s p RED kp vp # FL g BLACK kg vg u # ds"
      "rb s n" "blk s" "rb u n" "rbc ds (Suc n)"
  | (RL) p kp vp s g kg vg u ds where "cs = FL p RED kp vp s # FR u g BLACK kg vg # ds"
      "rb s n" "blk s" "rb u n" "rbc ds (Suc n)"
  | (RR) p kp vp s g kg vg u ds where "cs = FR s p RED kp vp # FR u g BLACK kg vg # ds"
      "rb s n" "blk s" "rb u n" "rbc ds (Suc n)"
proof (cases cs rule: par.cases)
  case (2 p c kp vp s fs)
  with assms have "c = RED" by (cases c) auto
  with 2 assms LL RL show ?thesis by (cases fs rule: black_top.cases) auto
next
  case (3 s p c kp vp fs)
  with assms have "c = RED" by (cases c) auto
  with 3 assms LR RR show ?thesis by (cases fs rule: black_top.cases) auto
qed (use assms in auto)

lemma put_fixup_stops:
  assumes "red_at T R x cs me" "black_top cs"
  shows "ok (put_fixup (Suc fuel) x me) (settled T R)"
  using assms(1)
proof (rule red_atE)
  fix l a k v r n
  assume x: "rep (plug cs (Br l a RED k v r)) R me" "x = Some a"
  show ?thesis
    using x assms(2) red_at_settled [OF assms]
    by (cases cs rule: par.cases) (auto simp: rep_reads rep_root)
qed

lemma put_after_turn:
  assumes "turn_done T R x cs me" "length cs < fuel"
    and "\<And>x cs me. red_at T R x cs me \<Longrightarrow> length cs < fuel \<Longrightarrow> ok (put_fixup fuel x me) (settled T R)"
  shows "ok (put_fixup fuel x me) (settled T R)"
proof (cases "red_at T R x cs me")
  case False
  with assms(1) obtain f ds where "red_at T R x (f # ds) me" "black_top (f # ds)"
    by (auto simp: turn_done_def)
  from put_fixup_stops [OF this] assms(2) show ?thesis by (cases fuel) auto
qed (use assms in blast)

lemma put_fixup_turn:
  assumes "red_at T R x cs me" "\<not> black_top cs"
  shows "\<exists>ds. length ds < length cs \<and> ok (rbind (field n_parent x me) (\<lambda>p.
        rbind (field n_parent p me) (\<lambda>g. rbind (field n_left g me) (\<lambda>gl.
          if p = gl then fixup_turn n_left n_right leftRotate rightRotate x p g me
          else fixup_turn n_right n_left rightRotate leftRotate x p g me))))
     (\<lambda>(x, me). turn_done T R x ds me)"
  using assms(1)
proof (rule red_atE)
  fix l a k v r n
  assume x: "rep (plug cs (Br l a RED k v r)) R me" "x = Some a"
    and io: "lefts cs @ inord (Br l a RED k v r) @ rights cs = inord T"
    and b: "rb l n" "rb r n" "blk l" "blk r" "rbc cs n"
  note r = rep_distinct [OF x(1)]
  from b(5) assms(2) show ?thesis
  proof (cases rule: red_frames)
    case (LL p kp vp s g kg vg u ds)
    show ?thesis
      by (rule exI [of _ ds])
        (use x io b LL r put_turn_LL [of ds l a k v r p kp vp s g kg vg u R me T n] in \<open>simp add: rep_reads\<close>)
  next
    case (LR p kp vp s g kg vg u ds)
    show ?thesis
      by (rule exI [of _ ds])
        (use x io b LR r put_turn_LR [of ds s p kp vp l a k v r g kg vg u R me T n] in \<open>simp add: rep_reads\<close>)
  next
    case (RL p kp vp s g kg vg u ds)
    from r RL have pu: "Some p \<noteq> rp u" by simp
    show ?thesis
      by (rule exI [of _ ds])
        (use x io b pu RL put_turn_RL [of ds u g kg vg l a k v r p kp vp s R me T n] in \<open>simp add: rep_reads\<close>)
  next
    case (RR p kp vp s g kg vg u ds)
    from r RR have pu: "Some p \<noteq> rp u" by simp
    show ?thesis
      by (rule exI [of _ ds])
        (use x io b pu RR put_turn_RR [of ds u g kg vg s p kp vp l a k v r R me T n] in \<open>simp add: rep_reads\<close>)
  qed
qed

lemma put_fixup_rep:
  "red_at T R x cs me \<Longrightarrow> length cs < fuel \<Longrightarrow> ok (put_fixup fuel x me) (settled T R)"
proof (induction fuel arbitrary: x cs me)
  case (Suc fuel)
  show ?case
  proof (cases "black_top cs")
    case True
    show ?thesis by (rule put_fixup_stops [OF Suc.prems(1) True])
  next
    case False
    from put_fixup_turn [OF Suc.prems(1) False] obtain ds where
      ds: "length ds < length cs" and turn: "ok (rbind (field n_parent x me) (\<lambda>p.
        rbind (field n_parent p me) (\<lambda>g. rbind (field n_left g me) (\<lambda>gl.
          if p = gl then fixup_turn n_left n_right leftRotate rightRotate x p g me
          else fixup_turn n_right n_left rightRotate leftRotate x p g me))))
     (\<lambda>(x, me). turn_done T R x ds me)" by blast
    have "ok (rbind (rbind (field n_parent x me) (\<lambda>p.
        rbind (field n_parent p me) (\<lambda>g. rbind (field n_left g me) (\<lambda>gl.
          if p = gl then fixup_turn n_left n_right leftRotate rightRotate x p g me
          else fixup_turn n_right n_left rightRotate leftRotate x p g me))))
        (\<lambda>(x, me). put_fixup fuel x me)) (settled T R)"
      by (rule ok_step [OF turn])
        (use ds Suc.prems(2) in \<open>auto intro!: put_after_turn [OF _ _ Suc.IH]\<close>)
    moreover have "x \<noteq> root me" "\<exists>p. field n_parent x me = Inr p \<and> field n_color p me = Inr RED"
    proof -
      from Suc.prems(1) show "x \<noteq> root me"
        by (rule red_atE) (use False rep_not_root in force)
      from Suc.prems(1) show "\<exists>p. field n_parent x me = Inr p \<and> field n_color p me = Inr RED"
      proof (rule red_atE)
        fix l a k v r n
        assume x: "rep (plug cs (Br l a RED k v r)) R me" "x = Some a" and "rbc cs n"
        from this(3) False show ?thesis by (cases rule: red_frames) (use x in \<open>auto simp: rep_reads\<close>)
      qed
    qed
    ultimately show ?thesis by (auto simp: rbind_assoc)
  qed
qed simp

end
