(* ===== verification/RedBlackMap.thy ===== *)
theory RedBlackMap
  imports RedBlackPut
begin

text \<open>
  The red-black tree as a map: \<open>RedBlackTree_put\<close> is a map update that returns the previous value and
  keeps the invariant \<open>rb_inv\<close>, \<open>RedBlackTree_get\<close> a lookup, and \<open>RedBlackTree_forEach\<close> a left-to-right
  pass over the entries in key order. The tree is an instance of the interface \<open>map_store\<close>.
\<close>

section \<open>Abstraction and invariant\<close>

fun read_tree :: "nat \<Rightarrow> (nat \<Rightarrow> ('k, 'v) node option) \<Rightarrow> nat option \<Rightarrow> ('k, 'v) atree" where
  "read_tree 0 m p = Lf"
| "read_tree (Suc n) m p =
     (case p of
        None \<Rightarrow> Lf
      | Some a \<Rightarrow>
          (case m a of
             None \<Rightarrow> Lf
           | Some d \<Rightarrow> Br (read_tree n m (n_left d)) a (n_color d) (n_key d) (n_value d)
                         (read_tree n m (n_right d))))"

definition tree_of :: "('k, 'v) rbtree \<Rightarrow> ('k, 'v) atree" where
  "tree_of me = read_tree (fresh me) (nodes me) (root me)"

definition entries :: "('k, 'v) rbtree \<Rightarrow> ('k \<times> 'v) list" where
  "entries me = map snd (inord (tree_of me))"

definition rb_map :: "('k, 'v) rbtree \<Rightarrow> 'k \<Rightarrow> 'v option" where
  "rb_map me = map_of (entries me)"

definition bounded :: "('k, 'v) rbtree \<Rightarrow> bool" where
  "bounded R \<longleftrightarrow> (\<forall>a. nodes R a \<noteq> None \<longrightarrow> a < fresh R)"

definition rb_state :: "('k, 'v) atree \<Rightarrow> ('k, 'v) rbtree \<Rightarrow> ('k, 'v) rbtree \<Rightarrow> bool" where
  "rb_state t R me \<longleftrightarrow>
     rep t R me \<and> (\<exists>n. rb t n) \<and> blk t \<and> ascending (compare R) (inord t) \<and> comparator (compare R) \<and>
     bounded R"

definition rb_inv :: "('k, 'v) rbtree \<Rightarrow> bool" where
  "rb_inv me \<longleftrightarrow> rb_state (tree_of me) (rest (tree_of me) me) me"

fun height :: "('k, 'v) atree \<Rightarrow> nat" where
  "height Lf = 0"
| "height (Br l a c k v r) = Suc (max (height l) (height r))"

lemma height_le_size: "height t \<le> length (inord t)"
  by (induction t) auto

lemma rep_size: "rep t R me \<Longrightarrow> length (inord t) \<le> fresh me"
proof -
  assume r: "rep t R me"
  then have "set (addrs t) \<subseteq> {..<fresh me}" by (auto simp: rep_def)
  then have "card (set (addrs t)) \<le> fresh me" using card_mono [of "{..<fresh me}"] by simp
  with distinct_card [OF rep_distinct [OF r]] show ?thesis by simp
qed

lemma rep_height: "rep t R me \<Longrightarrow> height t \<le> fresh me"
  using height_le_size [of t] rep_size [of t R me] by simp

lemma context_length: "length cs \<le> length (lefts cs @ rights cs)"
  by (induction cs rule: lefts.induct) auto

lemma read_tree_holds: "holds m p t \<Longrightarrow> height t \<le> n \<Longrightarrow> read_tree n m (rp t) = t"
proof (induction t arbitrary: n p)
  case Lf
  then show ?case by (cases n) auto
next
  case (Br l a c k v r)
  then show ?case by (cases n) auto
qed

lemma tree_of_rep: "rep t R me \<Longrightarrow> tree_of me = t"
  using rep_height [of t R me] read_tree_holds [of "nodes me" None t "fresh me"]
  by (simp add: tree_of_def rep_def)

lemma rep_rest:
  assumes "rep t R me"
  shows "fresh me = fresh R" "compare me = compare R" "keySize me = keySize R"
    "valueSize me = valueSize R" "isNewEntry me = isNewEntry R" "newNode me = newNode R"
    "oldValue me = oldValue R"
  using assms by (auto simp: rep_def rest_def)

lemma rb_state_inv: "rb_state t R me \<Longrightarrow> rb_inv me"
proof -
  assume s: "rb_state t R me"
  then have r: "rep t R me" by (simp add: rb_state_def)
  then have "rest t me = R" by (simp add: rep_def)
  with s tree_of_rep [OF r] show ?thesis by (simp add: rb_inv_def)
qed

lemma rb_state_map: "rb_state t R me \<Longrightarrow> rb_map me = map_of (map snd (inord t))"
  using tree_of_rep by (auto simp: rb_map_def entries_def rb_state_def)

lemma rb_invE:
  assumes "rb_inv me"
  obtains t R n where "rb_state t R me" "rep t R me" "rb t n" "blk t" "ascending (compare R) (inord t)"
    "comparator (compare R)" "bounded R" "tree_of me = t"
  using assms unfolding rb_inv_def rb_state_def by blast

section \<open>Keys in order\<close>

lemma ascending_append [simp]:
  "ascending c (xs @ ys) \<longleftrightarrow>
   ascending c xs \<and> ascending c ys \<and> (\<forall>x\<in>set (keys xs). \<forall>y\<in>set (keys ys). c x y < 0)"
  by (simp add: ascending_def sorted_wrt_append)

lemma ascending_Cons [simp]:
  "ascending c ((a, k, v) # ys) \<longleftrightarrow> ascending c ys \<and> (\<forall>y\<in>set (keys ys). c k y < 0)"
  by (auto simp: ascending_def)

lemma ascending_Nil [simp]: "ascending c []"
  by (simp add: ascending_def)

lemma comparatorD:
  assumes "comparator c"
  shows "c x y = 0 \<longleftrightarrow> x = y" "c x y < 0 \<longleftrightarrow> c y x > 0" "c x y < 0 \<Longrightarrow> c y z < 0 \<Longrightarrow> c x z < 0"
    "c x y > 0 \<Longrightarrow> c y z > 0 \<Longrightarrow> c x z > 0"
  using assms unfolding comparator_def by blast+

definition fits :: "('k \<Rightarrow> 'k \<Rightarrow> int) \<Rightarrow> 'k \<Rightarrow> ('k, 'v) frame list \<Rightarrow> bool" where
  "fits c key cs \<longleftrightarrow>
     (\<forall>k\<in>set (keys (lefts cs)). c key k > 0) \<and> (\<forall>k\<in>set (keys (rights cs)). c key k < 0)"

lemma fits_Nil [simp]: "fits c key []"
  by (simp add: fits_def)

lemma fits_FL:
  assumes "comparator c" "ascending c (inord (plug cs (Br l a d k v r)))" "fits c key cs" "c key k < 0"
  shows "fits c key (FL a d k v r # cs)"
  using assms comparatorD(3) [OF assms(1), of key k] by (auto simp: fits_def)

lemma fits_FR:
  assumes "comparator c" "ascending c (inord (plug cs (Br l a d k v r)))" "fits c key cs" "c key k > 0"
  shows "fits c key (FR l a d k v # cs)"
proof -
  have "c key x > 0" if "c x k < 0" for x
    using that assms(4) comparatorD(2,4) [OF assms(1)] by blast
  with assms show ?thesis by (auto simp: fits_def)
qed

lemma fits_map:
  assumes "comparator c" "fits c key cs"
  shows "map_of (map snd (lefts cs)) key = None" "map_of (map snd (rights cs)) key = None"
  using assms comparatorD(1) [OF assms(1), of key key] by (fastforce simp: fits_def map_of_eq_None_iff)+

text \<open>Where a search by key ends: at a node with that key, or at the leaf where it belongs.\<close>

definition search_result ::
    "('k \<Rightarrow> 'k \<Rightarrow> int) \<Rightarrow> 'k \<Rightarrow> ('k, 'v) atree \<Rightarrow> nat option + nat option \<Rightarrow> bool" where
  "search_result c key t w \<longleftrightarrow>
     (case w of
        Inl x \<Rightarrow> \<exists>cs l a d v r. x = Some a \<and> t = plug cs (Br l a d key v r) \<and> fits c key cs
      | Inr y \<Rightarrow> \<exists>cs. y = par cs \<and> t = plug cs Lf \<and> fits c key cs)"

lemma insert_walk_rep:
  assumes "comparator (compare R)"
  shows "rep (plug cs t) R me \<Longrightarrow> ascending (compare R) (inord (plug cs t)) \<Longrightarrow> fits (compare R) key cs \<Longrightarrow>
    height t < fuel \<Longrightarrow>
    ok (insert_walk fuel key (par cs) (rp t) me) (search_result (compare R) key (plug cs t))"
proof (induction t arbitrary: cs fuel)
  case Lf
  then show ?case by (cases fuel) (auto simp: search_result_def)
next
  case (Br l a d k v r)
  from Br.prems(4) obtain f where fuel: "fuel = Suc f" "height l < f" "height r < f" by (cases fuel) auto
  note fields = rep_fields [OF Br.prems(1)] and cmp = rep_rest(2) [OF Br.prems(1)]
  consider (lt) "compare R key k < 0" | (eq) "compare R key k = 0" | (gt) "compare R key k > 0" by linarith
  then show ?case
  proof cases
    case lt
    with Br.IH(1) [of "FL a d k v r # cs" f] fits_FL [OF assms Br.prems(2,3) lt] Br.prems fuel
    show ?thesis by (simp add: fields cmp)
  next
    case eq
    with comparatorD(1) [OF assms] have "key = k" by blast
    with Br.prems(3) have "search_result (compare R) key (plug cs (Br l a d k v r)) (Inl (Some a))"
      using \<open>key = k\<close> by (simp add: search_result_def) blast
    with fuel eq show ?thesis by (simp add: fields cmp)
  next
    case gt
    with Br.IH(2) [of "FR l a d k v # cs" f] fits_FR [OF assms Br.prems(2,3) gt] Br.prems fuel
    show ?thesis by (simp add: fields cmp)
  qed
qed

text \<open>What a search says about the map.\<close>

lemma ascending_map_of:
  assumes "comparator c" "ascending c (xs @ (a, k, v) # ys)"
  shows "map_of (map snd (xs @ (a, k, w) # ys)) = (map_of (map snd (xs @ ys)))(k \<mapsto> w)"
proof -
  from assms comparatorD(1) [OF assms(1), of k k] have "k \<notin> fst ` set (map snd xs)" by fastforce
  then have "map_of (map snd xs) k = None" by (simp add: map_of_eq_None_iff)
  then show ?thesis by (auto simp: map_add_def fun_eq_iff split: option.splits)
qed

lemma ascending_get:
  assumes "comparator c" "ascending c (xs @ (a, k, v) # ys)"
  shows "map_of (map snd (xs @ (a, k, v) # ys)) k = Some v"
  by (simp only: ascending_map_of [OF assms]) simp

definition find_result :: "'k \<Rightarrow> ('k, 'v) atree \<Rightarrow> nat option \<Rightarrow> bool" where
  "find_result key t x \<longleftrightarrow>
     (case x of
        None \<Rightarrow> map_of (map snd (inord t)) key = None
      | Some a \<Rightarrow> \<exists>cs l d v r. t = plug cs (Br l a d key v r))"

lemma find_loop_rep:
  assumes "comparator (compare R)"
  shows "rep (plug cs t) R me \<Longrightarrow> ascending (compare R) (inord (plug cs t)) \<Longrightarrow> fits (compare R) key cs \<Longrightarrow>
    height t < fuel \<Longrightarrow> ok (find_loop fuel key (rp t) me) (find_result key (plug cs t))"
proof (induction t arbitrary: cs fuel)
  case Lf
  from fits_map [OF assms Lf.prems(3)] Lf.prems show ?case
    by (cases fuel) (auto simp: find_result_def map_add_def)
next
  case (Br l a d k v r)
  from Br.prems(4) obtain f where fuel: "fuel = Suc f" "height l < f" "height r < f" by (cases fuel) auto
  note fields = rep_fields [OF Br.prems(1)] and cmp = rep_rest(2) [OF Br.prems(1)]
  consider (lt) "compare R key k < 0" | (eq) "compare R key k = 0" | (gt) "compare R key k > 0" by linarith
  then show ?case
  proof cases
    case lt
    with Br.IH(1) [of "FL a d k v r # cs" f] fits_FL [OF assms Br.prems(2,3) lt] Br.prems fuel
    show ?thesis by (simp add: fields cmp)
  next
    case eq
    with comparatorD(1) [OF assms] have "key = k" by blast
    then have "find_result key (plug cs (Br l a d k v r)) (Some a)"
      by (simp add: find_result_def) blast
    with fuel eq show ?thesis by (simp add: fields cmp)
  next
    case gt
    with Br.IH(2) [of "FR l a d k v # cs" f] fits_FR [OF assms Br.prems(2,3) gt] Br.prems fuel
    show ?thesis by (simp add: fields cmp)
  qed
qed

lemma findNode_rep:
  assumes "rb_state t R me"
  shows "ok (findNode key me) (find_result key t)"
proof -
  from assms have r: "rep t R me" by (simp add: rb_state_def)
  from find_loop_rep [of R "[]" t me key "Suc (fresh me)"] assms rep_height [OF r] rep_root [OF r]
  show ?thesis by (simp add: findNode_def rb_state_def)
qed

lemma get_state:
  assumes "rb_state t R me"
  shows "RedBlackTree_get key me = Inr (rb_map me key)"
proof -
  from findNode_rep [OF assms, of key] obtain x where x: "findNode key me = Inr x" "find_result key t x"
    by (cases "findNode key me") auto
  show ?thesis
  proof (cases x)
    case None
    with x show ?thesis by (simp add: RedBlackTree_get_def find_result_def rb_state_map [OF assms])
  next
    case (Some a)
    with x(2) obtain cs l d v r where t: "t = plug cs (Br l a d key v r)" by (auto simp: find_result_def)
    from assms have "rep (plug cs (Br l a d key v r)) R me" "comparator (compare R)"
      "ascending (compare R) ((lefts cs @ inord l) @ (a, key, v) # inord r @ rights cs)"
      by (simp_all add: rb_state_def t)
    with ascending_get [OF this(2,3)] x(1) Some show ?thesis
      by (simp add: RedBlackTree_get_def rep_fields rb_state_map [OF assms] t)
  qed
qed

section \<open>Insertion\<close>

lemma rep_InsertResult:
  "rep t R me \<Longrightarrow> rep t (InsertResult b n old R) (InsertResult b n old me)"
  by (auto simp: rep_def rest_def InsertResult_def)

lemma restrict_fresh:
  "m z = None \<Longrightarrow> m |` (- insert z A) = m |` (- A)"
  "m z = None \<Longrightarrow> m |` (- insert a (insert z A)) = m |` (- insert a A)"
  by (auto simp: restrict_map_def fun_eq_iff)

lemma bounded_fresh:
  assumes "rep t R me" "bounded R"
  shows "nodes me (fresh me) = None" "fresh me \<notin> fst ` set (inord t)"
proof -
  from assms(1) show a: "fresh me \<notin> fst ` set (inord t)" by (auto simp: rep_def)
  from assms rep_rest(1) [OF assms(1)] have "nodes R (fresh me) = None" by (auto simp: bounded_def)
  with a assms(1) show "nodes me (fresh me) = None" by (auto simp: rep_def rest_def restrict_map_def split: if_splits)
qed

definition attach :: "'k \<Rightarrow> 'v \<Rightarrow> nat option \<Rightarrow> ('k, 'v) rbtree \<Rightarrow> ('k, 'v) rbtree res" where
  "attach key val y me =
     (let (z, me) = Node_create key val me in
      rbind (upd (\<lambda>n. n\<lparr>n_parent := y\<rparr>) z me) (\<lambda>me.
      rbind (if y = None then Inr (me\<lparr>root := z\<rparr>)
             else rbind (field n_key y me) (\<lambda>k.
                    if compare me key k < 0 then upd (\<lambda>n. n\<lparr>n_left := z\<rparr>) y me
                    else upd (\<lambda>n. n\<lparr>n_right := z\<rparr>) y me)) (\<lambda>me.
        Inr (InsertResult True z None me))))"

lemma attach_rep:
  assumes r: "rep (plug cs Lf) R me" and "bounded R" and "fits (compare R) key cs"
  shows "ok (attach key val (par cs) me)
    (rep (plug cs (Br Lf (fresh R) RED key val Lf))
       (InsertResult True (Some (fresh R)) None (R\<lparr>fresh := Suc (fresh R)\<rparr>)))"
proof -
  note fr = bounded_fresh [OF assms(1,2)]
  from assms(3) rep_rest(1,2) [OF r] fr r show ?thesis
    by (cases cs rule: par.cases)
      (auto simp: attach_def Node_create_def InsertResult_def fits_def rep_defs restrict_fresh
        insert_commute less_Suc_eq)
qed

lemma treeInsert_attach:
  "treeInsert key val me =
     rbind (insert_walk (Suc (fresh me)) key None (root me) me) (\<lambda>w.
       case w of
         Inl x \<Rightarrow>
           rbind (field n_value x me) (\<lambda>old.
           rbind (upd (\<lambda>n. n\<lparr>n_value := val\<rparr>) x me) (\<lambda>me.
             Inr (InsertResult False None (Some old) me)))
       | Inr y \<Rightarrow> attach key val y me)"
  unfolding treeInsert_def attach_def ..

lemma rb_plug_root_black:
  assumes "rb t' m" "rep t' R me" "t' \<noteq> Lf"
  shows "ok (set_color BLACK (root me) me) (\<lambda>me. rep (paint BLACK t') R me \<and> (\<exists>n. rb (paint BLACK t') n))"
proof -
  from assms(3) obtain l a c k v r where t: "t' = Br l a c k v r" by (cases t') auto
  with assms(2) have "rep (plug [] (Br l a c k v r)) R me" by simp
  from set_color_rep [OF this, of BLACK] rb_paint [OF assms(1)] rep_root [OF assms(2)] show ?thesis
    by (auto simp: t elim: ok_mono)
qed

lemma rb_unplug:
  "rb (plug cs t) N \<Longrightarrow> blk (plug cs t) \<Longrightarrow>
   \<exists>n. rb t n \<and> rbc cs n \<and> (blk t \<or> cs \<noteq> [] \<and> black_top cs)"
proof (induction cs arbitrary: t rule: lefts.induct)
  case (2 a c k v r cs)
  from 2(1) [of "Br t a c k v r"] 2(2,3) show ?case by (cases c) auto
next
  case (3 l a c k v cs)
  from 3(1) [of "Br l a c k v t"] 3(2,3) show ?case by (cases c) auto
qed auto

text \<open>The two outcomes of \<open>RedBlackTree_put\<close>: a value is replaced, or a red node attached and fixed up.\<close>

lemma put_replace:
  assumes s: "rb_state t R me" and t: "t = plug cs (Br l a d key v r)"
    and w: "insert_walk (Suc (fresh me)) key None (root me) me = Inr (Inl (Some a))"
  shows "\<exists>t' R' me'. RedBlackTree_put key val me = Inr (rb_map me key, me') \<and> rb_state t' R' me' \<and>
    nodes R' = nodes R \<and> compare R' = compare R \<and> rb_map me' = (rb_map me)(key \<mapsto> val)"
proof -
  let ?t = "plug cs (Br l a d key val r)" and ?R = "InsertResult False None (Some v) R"
  from s have r: "rep (plug cs (Br l a d key v r)) R me" and c: "comparator (compare R)"
    and as: "ascending (compare R) ((lefts cs @ inord l) @ (a, key, v) # inord r @ rights cs)"
    by (simp_all add: rb_state_def t)
  from set_value_rep [OF r, of val] obtain me1 where
    me1: "upd (\<lambda>n. n\<lparr>n_value := val\<rparr>) (Some a) me = Inr me1" "rep ?t R me1"
    by (cases "upd (\<lambda>n. n\<lparr>n_value := val\<rparr>) (Some a) me") auto
  let ?me = "InsertResult False None (Some v) me1"
  have m: "rb_map me = (map_of (map snd (lefts cs @ inord l @ inord r @ rights cs)))(key \<mapsto> v)"
    using ascending_map_of [OF c as, of v] by (simp add: rb_state_map [OF s] t)
  have R: "nodes ?R = nodes R" "compare ?R = compare R" "fresh ?R = fresh R"
    by (simp_all add: InsertResult_def)
  have "RedBlackTree_put key val me = Inr (rb_map me key, ?me)"
    using me1(1) by (simp add: RedBlackTree_put_def treeInsert_attach w rep_fields [OF r] m InsertResult_def
        del: insert_walk.simps)
  moreover have st: "rb_state ?t ?R ?me"
  proof -
    from s obtain N where N: "rb (plug cs (Br l a d key v r)) N" "blk (plug cs (Br l a d key v r))"
      by (auto simp: rb_state_def t)
    from rb_unplug [OF N] have "\<exists>N. rb ?t N" by (cases d) (auto intro!: rb_plug)
    moreover from N(2) have "blk ?t" by (cases cs rule: rev_cases) (auto simp: plug_append, (case_tac y; auto))
    moreover from s have "bounded ?R" by (simp add: rb_state_def bounded_def R)
    ultimately show ?thesis
      using rep_InsertResult [OF me1(2)] c as by (simp add: rb_state_def R)
  qed
  moreover have "rb_map ?me = (rb_map me)(key \<mapsto> val)"
    using ascending_map_of [OF c as, of val] by (simp add: rb_state_map [OF st] m)
  ultimately show ?thesis using R by blast
qed

lemma put_attach:
  assumes s: "rb_state t R me" and t: "t = plug cs Lf" and fits: "fits (compare R) key cs"
    and w: "insert_walk (Suc (fresh me)) key None (root me) me = Inr (Inr (par cs))"
  shows "\<exists>t' R' me'. RedBlackTree_put key val me = Inr (rb_map me key, me') \<and> rb_state t' R' me' \<and>
    nodes R' = nodes R \<and> compare R' = compare R \<and> rb_map me' = (rb_map me)(key \<mapsto> val)"
proof -
  let ?x = "Br Lf (fresh R) RED key val Lf"
  let ?R = "InsertResult True (Some (fresh R)) None (R\<lparr>fresh := Suc (fresh R)\<rparr>)"
  from s have r: "rep (plug cs Lf) R me" and c: "comparator (compare R)" and b: "bounded R"
    by (simp_all add: rb_state_def t)
  from s have as: "ascending (compare R) (lefts cs @ (fresh R, key, val) # rights cs)"
    using fits comparatorD(2) [OF c] by (auto simp: rb_state_def t fits_def)
  have R: "nodes ?R = nodes R" "compare ?R = compare R" "fresh ?R = Suc (fresh R)"
    by (simp_all add: InsertResult_def)
  from attach_rep [OF r b fits, of val] obtain me1 where
    me1: "attach key val (par cs) me = Inr me1" "rep (plug cs ?x) ?R me1"
    by (cases "attach key val (par cs) me") auto
  from s obtain N where "rb (plug cs Lf) N" "blk (plug cs Lf)" by (auto simp: rb_state_def t)
  from rb_unplug [OF this] have "rbc cs 0" by auto
  then have "red_at (plug cs ?x) ?R (Some (fresh R)) cs me1"
    by (intro red_atI [where n = 0]) (use me1(2) in auto)
  moreover have "length cs < Suc (fresh me1)"
    using context_length [of cs] rep_size [OF me1(2)] by simp
  ultimately have "ok (put_fixup (Suc (fresh me1)) (Some (fresh R)) me1) (settled (plug cs ?x) ?R)"
    by (rule put_fixup_rep)
  then obtain me2 t2 n where me2: "put_fixup (Suc (fresh me1)) (Some (fresh R)) me1 = Inr me2"
    "rep t2 ?R me2" "inord t2 = lefts cs @ (fresh R, key, val) # rights cs" "rb t2 n"
    by (cases "put_fixup (Suc (fresh me1)) (Some (fresh R)) me1") (auto simp: settled_def)
  from me2(3) have "t2 \<noteq> Lf" by auto
  from rb_plug_root_black [OF me2(4,2) this] obtain me3 n' where
    me3: "set_color BLACK (root me2) me2 = Inr me3" "rep (paint BLACK t2) ?R me3" "rb (paint BLACK t2) n'"
    by (cases "set_color BLACK (root me2) me2") auto
  from fits_map [OF c fits] have m: "rb_map me key = None"
    by (simp add: rb_state_map [OF s] t map_add_def)
  have "RedBlackTree_put key val me = Inr (rb_map me key, me3)"
    using me1 me2(1) me3(1) rep_rest(5,6) [OF me1(2)]
    by (simp add: RedBlackTree_put_def treeInsert_attach w m InsertResult_def
        del: insert_walk.simps put_fixup.simps)
  moreover have st: "rb_state (paint BLACK t2) ?R me3"
    using me3(2,3) as me2(3) c b by (auto simp: rb_state_def R bounded_def less_Suc_eq)
  moreover have "rb_map me3 = (rb_map me)(key \<mapsto> val)"
    using ascending_map_of [OF c as, of val] by (simp add: rb_state_map [OF st] rb_state_map [OF s] me2(3) t)
  ultimately show ?thesis using R by blast
qed

lemma put_state:
  assumes s: "rb_state t R me"
  shows "\<exists>t' R' me'. RedBlackTree_put key val me = Inr (rb_map me key, me') \<and> rb_state t' R' me' \<and>
    nodes R' = nodes R \<and> compare R' = compare R \<and> rb_map me' = (rb_map me)(key \<mapsto> val)"
proof -
  from s have r: "rep t R me" by (simp add: rb_state_def)
  from insert_walk_rep [of R "[]" t me key "Suc (fresh me)"] s rep_height [OF r] rep_root [OF r]
  have "ok (insert_walk (Suc (fresh me)) key None (root me) me) (search_result (compare R) key t)"
    by (simp add: rb_state_def del: insert_walk.simps)
  then obtain w where w: "insert_walk (Suc (fresh me)) key None (root me) me = Inr w"
    "search_result (compare R) key t w"
    by (cases "insert_walk (Suc (fresh me)) key None (root me) me") (auto simp del: insert_walk.simps)
  show ?thesis
  proof (cases w)
    case (Inl x)
    with w(2) obtain cs l a d v r where "x = Some a" "t = plug cs (Br l a d key v r)"
      by (auto simp: search_result_def)
    with put_replace [OF s this(2)] w(1) Inl show ?thesis by (simp del: insert_walk.simps)
  next
    case (Inr y)
    with w(2) obtain cs where "y = par cs" "t = plug cs Lf" "fits (compare R) key cs"
      by (auto simp: search_result_def)
    with put_attach [OF s this(2,3)] w(1) Inr show ?thesis by (simp del: insert_walk.simps)
  qed
qed

section \<open>The map interface\<close>

text \<open>The insertion as the interface sees it: the state after \<open>RedBlackTree_put\<close>.\<close>

definition rb_put :: "'k \<Rightarrow> 'v \<Rightarrow> ('k, 'v) rbtree \<Rightarrow> ('k, 'v) rbtree res" where
  "rb_put key val me = rbind (RedBlackTree_put key val me) (\<lambda>(old, me). Inr me)"

interpretation rbt: map_store rb_inv rb_map "\<lambda>me n. True" rb_put RedBlackTree_get
proof unfold_locales
  fix s :: "('k, 'v) rbtree" and k v
  assume "rb_inv s"
  then obtain t R where "rb_state t R s" by (rule rb_invE)
  from put_state [OF this, of k v] show
    "\<exists>s'. rb_put k v s = Inr s' \<and> rb_inv s' \<and> rb_map s' = (rb_map s)(k \<mapsto> v) \<and> True"
    by (auto simp: rb_put_def dest: rb_state_inv)
next
  fix s :: "('k, 'v) rbtree" and k
  assume "rb_inv s"
  then obtain t R where "rb_state t R s" by (rule rb_invE)
  from get_state [OF this] show "RedBlackTree_get k s = Inr (rb_map s k)" .
qed

lemma create_state:
  assumes "comparator c" "0 < kSize" "0 < vSize"
  shows "\<exists>R me. RedBlackTree_create kSize vSize (Some c) = Inr me \<and> rb_state Lf R me \<and>
    nodes R = Map.empty \<and> compare R = c"
  using assms
  by (auto simp: RedBlackTree_create_def rb_state_def rep_def rest_def bounded_def restrict_map_def
      intro!: exI [of _ 0])

end
