(* ===== verification/RedBlackIter.thy ===== *)
theory RedBlackIter
  imports RedBlackMap
begin

text \<open>
  Iteration, height and disposal of the red-black tree: \<open>Node_successor\<close> walks the entries in order,
  a tree of \<open>n\<close> entries has height at most \<open>2 log (n + 1)\<close>, and disposing frees exactly the tree's nodes.
\<close>

section \<open>Iteration\<close>

definition first :: "(nat \<times> 'k \<times> 'v) list \<Rightarrow> nat option" where
  "first xs = (case xs of [] \<Rightarrow> None | e # _ \<Rightarrow> Some (fst e))"

lemma first_simps [simp]: "first [] = None" "first (e # xs) = Some (fst e)"
  by (simp_all add: first_def)

lemma first_append: "first (xs @ ys) = (if xs = [] then first ys else first xs)"
  by (cases xs) auto

lemma inord_Nil [simp]: "inord t = [] \<longleftrightarrow> t = Lf"
  by (cases t) auto

lemma minimum_loop_rep:
  "rep (plug cs t) R me \<Longrightarrow> t \<noteq> Lf \<Longrightarrow> height t \<le> fuel \<Longrightarrow>
   minimum_loop fuel (rp t) me = Inr (first (inord t))"
proof (induction t arbitrary: cs fuel)
  case (Br l a d k v r)
  from Br.prems(3) obtain f where "fuel = Suc f" "height l \<le> f" by (cases fuel) auto
  with Br.IH(1) [of "FL a d k v r # cs" f] Br.prems(1) show ?case
    by (auto simp: rep_fields first_append)
qed simp

lemma successor_loop_rep:
  "rep (plug cs t) R me \<Longrightarrow> t \<noteq> Lf \<Longrightarrow> length cs < fuel \<Longrightarrow>
   successor_loop fuel (rp t) (par cs) me = Inr (first (rights cs))"
proof (induction cs arbitrary: t fuel rule: lefts.induct)
  case 1
  then show ?case by (cases fuel) auto
next
  case (2 a d k v s cs)
  from 2(2,3) rep_distinct [OF 2(2)] obtain b where "rp t = Some b" "b \<notin> fst ` set (inord s)"
    by (cases t) auto
  with 2(2,4) show ?case by (cases fuel) (auto simp: rep_reads)
next
  case (3 s a d k v cs)
  from 3(1) [of "Br s a d k v t"] 3(2-) show ?case by (cases fuel) (auto simp: rep_reads)
qed

lemma Node_successor_rep:
  assumes r: "rep t R me" and t: "inord t = xs @ (a, k, v) # ys"
  shows "Node_successor (Some a) me = Inr (first ys)"
proof -
  from inord_zipper [OF t] obtain cs l d s where z: "t = plug cs (Br l a d k v s)"
    "ys = inord s @ rights cs" by blast
  note r' = r [unfolded z(1)]
  show ?thesis
  proof (cases "s = Lf")
    case True
    have "length cs < Suc (fresh me)"
      using context_length [of cs] rep_size [OF r'] by simp
    from successor_loop_rep [OF r' _ this] True z(2) show ?thesis
      by (simp add: Node_successor_def rep_fields [OF r'] del: successor_loop.simps)
  next
    case False
    have "rep (plug (FR l a d k v # cs) s) R me" using r' by simp
    moreover have "height s \<le> Suc (fresh me)"
      using height_le_size [of s] rep_size [OF r'] by simp
    ultimately have "minimum_loop (Suc (fresh me)) (rp s) me = Inr (first (inord s))"
      using False by (intro minimum_loop_rep)
    with False z(2) show ?thesis
      by (simp add: Node_successor_def Node_treeMinimum_def rep_fields [OF r'] first_append
          del: minimum_loop.simps)
  qed
qed

lemma forEach_loop_rb_rep:
  "rep t R me \<Longrightarrow> inord t = xs @ ys \<Longrightarrow> length ys < fuel \<Longrightarrow>
   forEach_loop_rb fuel iter (first ys) data me = rfold (\<lambda>(a, k, v). iter k v) ys data"
proof (induction ys arbitrary: xs fuel data)
  case Nil
  then show ?case by (cases fuel) auto
next
  case (Cons e ys)
  obtain a k v where e: "e = (a, k, v)" by (cases e) auto
  from Cons.prems(2) e have io: "inord t = xs @ (a, k, v) # ys" by simp
  from inord_zipper [OF io] obtain cs l d s where z: "t = plug cs (Br l a d k v s)" by blast
  obtain f where f: "fuel = Suc f" "length ys < f" using Cons.prems(3) by (cases fuel) auto
  have IH: "forEach_loop_rb f iter (first ys) data' me = rfold (\<lambda>(a, k, v). iter k v) ys data'" for data'
    by (rule Cons.IH [OF Cons.prems(1), of "xs @ [e]"]) (use Cons.prems(2) f in auto)
  show ?case
    using Node_successor_rep [OF Cons.prems(1) io] rep_fields(7) [OF Cons.prems(1) [unfolded z]]
    by (simp add: f e IH cong: rbind_cong)
qed

lemma rfold_snd: "rfold (\<lambda>(a, k, v). f k v) ys s = rfold (\<lambda>(k, v). f k v) (map snd ys) s"
  by (induction ys arbitrary: s) (auto cong: rbind_cong)

lemma forEach_rep:
  assumes r: "rep t R me"
  shows "RedBlackTree_forEach iter data me = rfold (\<lambda>(k, v). iter k v) (map snd (inord t)) data"
proof (cases "t = Lf")
  case False
  have "minimum_loop (Suc (fresh me)) (rp t) me = Inr (first (inord t))"
    by (rule minimum_loop_rep [of "[]" t R]) (use False r rep_height [OF r] in auto)
  moreover have "forEach_loop_rb (Suc (fresh me)) iter (first (inord t)) data me =
      rfold (\<lambda>(a, k, v). iter k v) (inord t) data"
    by (rule forEach_loop_rb_rep [OF r, of "[]"]) (use rep_size [OF r] in auto)
  ultimately show ?thesis
    using False rep_root [OF r]
    by (simp add: RedBlackTree_forEach_def Node_treeMinimum_def rfold_snd
        del: minimum_loop.simps forEach_loop_rb.simps)
qed (use rep_root [OF r] in \<open>simp add: RedBlackTree_forEach_def\<close>)

section \<open>Height\<close>

lemma rb_size: "rb t n \<Longrightarrow> 2 ^ n \<le> Suc (length (inord t))"
proof (induction t arbitrary: n)
  case (Br l a c k v r)
  show ?case
  proof (cases c)
    case RED
    with Br.IH(1) [of n] Br.prems show ?thesis by auto
  next
    case BLACK
    with Br.prems obtain m where n: "n = Suc m" "rb l m" "rb r m" by (cases n) auto
    from Br.IH(1) [OF n(2)] Br.IH(2) [OF n(3)] show ?thesis by (simp add: n(1))
  qed
qed simp

lemma rb_height: "rb t n \<Longrightarrow> height t \<le> 2 * n + (if blk t then 0 else 1)"
proof (induction t arbitrary: n)
  case (Br l a c k v r)
  show ?case
  proof (cases c)
    case RED
    with Br.IH(1) [of n] Br.IH(2) [of n] Br.prems show ?thesis by auto
  next
    case BLACK
    with Br.prems obtain m where n: "n = Suc m" "rb l m" "rb r m" by (cases n) auto
    from Br.IH(1) [OF n(2)] Br.IH(2) [OF n(3)] BLACK show ?thesis
      by (simp add: n(1) split: if_splits)
  qed
qed simp

lemma rb_inv_height:
  assumes "rb_inv me"
  shows "2 ^ ((height (tree_of me) + 1) div 2) \<le> Suc (length (entries me))"
proof -
  from assms obtain t R n where t: "rb t n" "blk t" "tree_of me = t" by (rule rb_invE)
  from rb_height [OF t(1)] t(2) have "(height t + 1) div 2 \<le> n" by simp
  then have "(2::nat) ^ ((height t + 1) div 2) \<le> 2 ^ n" by (rule power_increasing) simp
  with rb_size [OF t(1)] show ?thesis unfolding t(3) entries_def length_map by (blast intro: le_trans)
qed

section \<open>Disposal\<close>

lemma restrict_map_UNIV: "m |` UNIV = m"
  by (simp add: restrict_map_def)

lemma Node_dispose_holds:
  "holds (nodes me) p t \<Longrightarrow> distinct (addrs t) \<Longrightarrow> t \<noteq> Lf \<Longrightarrow> height t \<le> fuel \<Longrightarrow>
   Node_dispose fuel (rp t) me = Inr (me\<lparr>nodes := nodes me |` (- set (addrs t))\<rparr>)"
proof (induction t arbitrary: p fuel me)
  case (Br l a d k v r)
  from Br.prems(4) obtain f where f: "fuel = Suc f" "height l \<le> f" "height r \<le> f" by (cases fuel) auto
  let ?me = "me\<lparr>nodes := nodes me |` (- set (addrs l))\<rparr>"
  let ?n = "\<lparr>n_key = k, n_value = v, n_left = rp l, n_right = rp r, n_parent = p, n_color = d\<rparr>"
  from Br.prems(1,2) have a: "nodes me a = Some ?n" "a \<notin> set (addrs l)"
    and h: "holds (nodes me) (Some a) l" "holds (nodes me) (Some a) r"
    and dist: "distinct (addrs l)" "distinct (addrs r)" by auto
  have l: "(if rp l \<noteq> None then Node_dispose f (rp l) me else Inr me) = Inr ?me"
    by (cases "l = Lf") (simp_all add: Br.IH(1) [OF h(1) dist(1) _ f(2)] restrict_map_UNIV)
  have "holds (nodes ?me) (Some a) r = holds (nodes me) (Some a) r"
    by (rule holds_cong) (use Br.prems(2) in \<open>force simp: restrict_map_def\<close>)
  with h have "holds (nodes ?me) (Some a) r" by blast
  from Br.IH(2) [OF this dist(2) _ f(3)]
  have r: "(if rp r \<noteq> None then Node_dispose f (rp r) ?me else Inr ?me) =
      Inr (?me\<lparr>nodes := nodes ?me |` (- set (addrs r))\<rparr>)"
    by (cases "r = Lf") (simp_all add: restrict_map_UNIV)
  have a': "nodes ?me a = Some ?n" using a by simp
  have "Node_dispose fuel (Some a) me =
      Inr (me\<lparr>nodes := (nodes me |` (- set (addrs l)) |` (- set (addrs r)))(a := None)\<rparr>)"
    unfolding f(1) Node_dispose.simps field_Some [of me, OF a(1)] rbind.simps node.select_convs l
      field_Some [of ?me, OF a'] r by simp
  then show ?case
    by (simp add: restrict_map_def fun_eq_iff image_Un)
qed simp

lemma dispose_rep:
  assumes r: "rep t R me"
  shows "RedBlackTree_dispose me = Inr (nodes R)"
proof -
  from r have R: "nodes R = nodes me |` (- set (addrs t))" by (auto simp: rep_def rest_def)
  show ?thesis
  proof (cases "t = Lf")
    case False
    from Node_dispose_holds [of me None t "Suc (fresh me)"] r False rep_height [OF r]
    show ?thesis by (auto simp: RedBlackTree_dispose_def rep_def R simp del: Node_dispose.simps)
  qed (use rep_root [OF r] in \<open>simp add: RedBlackTree_dispose_def R restrict_map_def\<close>)
qed

end
