(* ===== verification/RedBlackRemove.thy ===== *)
theory RedBlackRemove
  imports RedBlackIter
begin

text \<open>
  \<open>RedBlackTree_remove\<close>: the turns of \<open>removeFixup\<close> as rewrites of the represented tree, the loop's
  invariant (one subtree is a black node short of its context), and removal as deletion from the map.
\<close>

section \<open>The cases of one turn\<close>

lemmas set_color_RL = set_color_L [of "FR s g cg kg vg # cs" for g cg kg vg s cs, simplified]
lemmas set_color_RR = set_color_R [of "FR s g cg kg vg # cs" for g cg kg vg s cs, simplified]
lemmas set_color_LL = set_color_L [of "FL g cg kg vg s # cs" for g cg kg vg s cs, simplified]
lemmas set_color_LR = set_color_R [of "FL g cg kg vg s # cs" for g cg kg vg s cs, simplified]
lemmas leftRotate_R = leftRotate_rep [of "FR s g cg kg vg # cs" for g cg kg vg s cs, simplified]
lemmas rightRotate_L = rightRotate_rep [of "FL g cg kg vg s # cs" for g cg kg vg s cs, simplified]

lemma rep_root_parent: "rep t R me \<Longrightarrow> t \<noteq> Lf \<Longrightarrow> field n_parent (root me) me = Inr None"
  by (cases t) (auto simp: rep_def)

lemma case1_left:
  assumes "rep (plug cs (Br t p c kp vp (Br a w RED kw vw b))) R me"
  shows "ok (remove_case1 n_right leftRotate (Some p) me)
    (\<lambda>(w', me'). w' = rp a \<and> rep (plug cs (Br (Br t p RED kp vp a) w BLACK kw vw b)) R me')"
  using assms unfolding remove_case1_def
  apply (simp add: rep_reads)
  apply (rule ok_step, erule set_color_R)
  apply (rule ok_step, erule set_color_rep)
  apply (rule ok_step, erule leftRotate_rep)
  apply (simp add: rep_reads)
  done

lemma case1_right:
  assumes "rep (plug cs (Br (Br a w RED kw vw b) p c kp vp t)) R me"
  shows "ok (remove_case1 n_left rightRotate (Some p) me)
    (\<lambda>(w', me'). w' = rp b \<and> rep (plug cs (Br a w BLACK kw vw (Br b p RED kp vp t))) R me')"
  using assms unfolding remove_case1_def
  apply (simp add: rep_reads)
  apply (rule ok_step, erule set_color_L)
  apply (rule ok_step, erule set_color_rep)
  apply (rule ok_step, erule rightRotate_rep)
  apply (simp add: rep_reads)
  done

lemma case3_left:
  assumes "rep (plug cs (Br t p c kp vp (Br (Br a m RED km vm b) w BLACK kw vw d))) R me" "blk d"
  shows "ok (remove_case3 n_left n_right rightRotate (Some w) (Some p) me)
    (\<lambda>(w', me'). w' = Some m \<and>
       rep (plug cs (Br t p c kp vp (Br a m BLACK km vm (Br b w RED kw vw d)))) R me')"
proof -
  have "is_black (rp d) me = Inr True"
    using rep_is_black [of "FR (Br a m RED km vm b) w BLACK kw vw # FR t p c kp vp # cs" d R me] assms by simp
  with assms show ?thesis
    unfolding remove_case3_def
    apply (simp add: rep_reads)
    apply (rule ok_step, erule set_color_RL)
    apply (rule ok_step, erule set_color_R)
    apply (rule ok_step, erule rightRotate_R)
    apply (simp add: rep_reads)
    done
qed

lemma case3_right:
  assumes "rep (plug cs (Br (Br d w BLACK kw vw (Br a m RED km vm b)) p c kp vp t)) R me" "blk d"
  shows "ok (remove_case3 n_right n_left leftRotate (Some w) (Some p) me)
    (\<lambda>(w', me'). w' = Some m \<and>
       rep (plug cs (Br (Br (Br d w RED kw vw a) m BLACK km vm b) p c kp vp t)) R me')"
proof -
  have "is_black (rp d) me = Inr True"
    using rep_is_black [of "FL w BLACK kw vw (Br a m RED km vm b) # FL p c kp vp t # cs" d R me] assms by simp
  with assms show ?thesis
    unfolding remove_case3_def
    apply (simp add: rep_reads)
    apply (rule ok_step, erule set_color_LR)
    apply (rule ok_step, erule set_color_L)
    apply (rule ok_step, erule leftRotate_L)
    apply (simp add: rep_reads)
    done
qed

lemma case3_skip_left:
  assumes "rep (plug cs (Br t p c kp vp (Br a w cw kw vw d))) R me" "\<not> blk d"
  shows "remove_case3 n_left n_right rot (Some w) (Some p) me = Inr (Some w, me)"
  using rep_is_black [of "FR a w cw kw vw # FR t p c kp vp # cs" d R me] assms
  by (simp add: remove_case3_def rep_reads)

lemma case3_skip_right:
  assumes "rep (plug cs (Br (Br d w cw kw vw a) p c kp vp t)) R me" "\<not> blk d"
  shows "remove_case3 n_right n_left rot (Some w) (Some p) me = Inr (Some w, me)"
  using rep_is_black [of "FL w cw kw vw a # FL p c kp vp t # cs" d R me] assms
  by (simp add: remove_case3_def rep_reads)

lemma case4_left:
  assumes "rep (plug cs (Br t p c kp vp (Br a w cw kw vw (Br d f cf kf vf e)))) R me"
  shows "ok (remove_case4 n_right leftRotate (Some w) (Some p) me)
    (\<lambda>(x', xp', me'). x' = root me' \<and>
       rep (plug cs (Br (Br t p BLACK kp vp a) w c kw vw (Br d f BLACK kf vf e))) R me')"
  using assms unfolding remove_case4_def
  apply (simp add: rep_reads)
  apply (rule ok_step, erule set_color_R)
  apply (rule ok_step, erule set_color_rep)
  apply (simp add: rep_reads)
  apply (rule ok_step, erule set_color_RR)
  apply (rule ok_step, erule leftRotate_rep)
  apply (simp add: rep_root_parent)
  done

lemma case4_right:
  assumes "rep (plug cs (Br (Br (Br d f cf kf vf e) w cw kw vw a) p c kp vp t)) R me"
  shows "ok (remove_case4 n_left rightRotate (Some w) (Some p) me)
    (\<lambda>(x', xp', me'). x' = root me' \<and>
       rep (plug cs (Br (Br d f BLACK kf vf e) w c kw vw (Br a p BLACK kp vp t))) R me')"
  using assms unfolding remove_case4_def
  apply (simp add: rep_reads)
  apply (rule ok_step, erule set_color_L)
  apply (rule ok_step, erule set_color_rep)
  apply (simp add: rep_reads)
  apply (rule ok_step, erule set_color_LL)
  apply (rule ok_step, erule rightRotate_rep)
  apply (simp add: rep_root_parent)
  done

section \<open>The loop\<close>

text \<open>
  \<open>deficit\<close>: the focus \<open>x\<close> has one black node less than its context \<open>cs\<close> asks for. \<open>repaired\<close>: the loop
  can stop at \<open>x\<close>, and painting \<open>x\<close> black makes the whole tree a red-black tree.
\<close>

definition deficit ::
    "('k, 'v) atree \<Rightarrow> ('k, 'v) rbtree \<Rightarrow> nat option \<Rightarrow> nat option \<Rightarrow> ('k, 'v) frame list \<Rightarrow>
     ('k, 'v) rbtree \<Rightarrow> bool" where
  "deficit T R x xp cs me \<longleftrightarrow>
     (\<exists>t n. rep (plug cs t) R me \<and> inord (plug cs t) = inord T \<and> rp t = x \<and> par cs = xp \<and>
        rbc cs (Suc n) \<and> (if blk t then rb t n else rb (paint BLACK t) (Suc n)))"

definition repaired :: "('k, 'v) atree \<Rightarrow> ('k, 'v) rbtree \<Rightarrow> nat option \<Rightarrow> ('k, 'v) rbtree \<Rightarrow> bool" where
  "repaired T R x me \<longleftrightarrow>
     (\<exists>cs t N. rep (plug cs t) R me \<and> inord (plug cs t) = inord T \<and> rp t = x \<and> (cs = [] \<or> \<not> blk t) \<and>
        rb (plug cs (paint BLACK t)) N \<and> blk (plug cs (paint BLACK t)))"

lemma rbc_blk: "rbc cs n \<Longrightarrow> cs \<noteq> [] \<or> blk t \<Longrightarrow> blk (plug cs t)"
proof (induction cs arbitrary: t n rule: lefts.induct)
  case (2 a c k v r cs)
  then show ?case by (cases c) auto
next
  case (3 l a c k v cs)
  then show ?case by (cases c) auto
qed auto

lemma repaired_here:
  assumes "rep (plug cs t) R me" "lefts cs @ inord t @ rights cs = inord T" "rp t = x" "\<not> blk t"
    "rb (paint BLACK t) (Suc n)" "rbc cs (Suc n)"
  shows "repaired T R x me"
  using assms rb_plug [OF assms(6,5)] rbc_blk [OF assms(6), of "paint BLACK t"]
  by (auto simp: repaired_def)

lemma repaired_root:
  assumes "rep (plug cs t) R me" "lefts cs @ inord t @ rights cs = inord T" "rb t n" "rbc cs n"
    "blk t \<or> black_top cs" "x = root me"
  shows "repaired T R x me"
proof -
  from rb_plug [OF assms(4,3,5)] rb_paint obtain N where "rb (paint BLACK (plug cs t)) N" by blast
  then show ?thesis
    unfolding repaired_def
    by (intro exI [of _ "[]"] exI [of _ "plug cs t"] exI [of _ N])
      (use assms(1,2,6) rep_root [OF assms(1)] in simp)
qed

text \<open>\<open>fit c cs n\<close>: a frame of colour \<open>c\<close> over subtrees of black height \<open>n\<close> may sit in \<open>cs\<close>.\<close>

definition fit :: "color \<Rightarrow> ('k, 'v) frame list \<Rightarrow> nat \<Rightarrow> bool" where
  "fit c cs n \<longleftrightarrow> (if c = RED then cs \<noteq> [] \<and> black_top cs \<and> rbc cs n else rbc cs (Suc n))"

lemma fit_simps [simp]:
  "fit RED cs n \<longleftrightarrow> cs \<noteq> [] \<and> black_top cs \<and> rbc cs n"
  "fit BLACK cs n \<longleftrightarrow> rbc cs (Suc n)"
  by (simp_all add: fit_def)

definition recoloured ::
    "('k, 'v) atree \<Rightarrow> ('k, 'v) rbtree \<Rightarrow> color \<Rightarrow> ('k, 'v) frame list \<Rightarrow>
     nat option \<times> nat option \<times> ('k, 'v) rbtree \<Rightarrow> bool" where
  "recoloured T R c cs r \<longleftrightarrow>
     (case r of (x', xp', me') \<Rightarrow>
        c = BLACK \<and> deficit T R x' xp' cs me' \<or> repaired T R x' me')"

lemma recoloured_repaired: "repaired T R x me \<Longrightarrow> recoloured T R c cs (x, xp, me)"
  by (simp add: recoloured_def)

lemma case2_result:
  assumes "rep (plug cs (Br l p c kp vp r)) R me" "lefts cs @ inord (Br l p c kp vp r) @ rights cs = inord T"
    "rb l n" "rb r n" "fit c cs (Suc n)"
  shows "recoloured T R c cs (Some p, par cs, me)"
proof (cases c)
  case RED
  have "repaired T R (Some p) me"
    by (rule repaired_here [OF assms(1,2), where n = n]) (use RED assms(3-) in auto)
  then show ?thesis by (rule recoloured_repaired)
next
  case BLACK
  then have "deficit T R (Some p) (par cs) cs me"
    unfolding deficit_def
    by (intro exI [of _ "Br l p c kp vp r"] exI [of _ "Suc n"]) (use assms in auto)
  with BLACK show ?thesis by (simp add: recoloured_def)
qed

lemma case4_result:
  assumes "rep (plug cs (Br (Br a p BLACK kp vp b) w c kw vw (Br d f BLACK kf vf e))) R me"
    "lefts cs @ inord (Br (Br a p BLACK kp vp b) w c kw vw (Br d f BLACK kf vf e)) @ rights cs = inord T"
    "rb a n" "rb b n" "rb d n" "rb e n" "fit c cs (Suc n)" "x = root me"
  shows "recoloured T R c cs (x, xp, me)"
proof (cases c)
  case RED
  then show ?thesis
    by (intro recoloured_repaired repaired_root [OF assms(1,2), where n = "Suc n"])
      (use assms(3-) in auto)
next
  case BLACK
  then show ?thesis
    by (intro recoloured_repaired repaired_root [OF assms(1,2), where n = "Suc (Suc n)"])
      (use assms(3-) in auto)
qed

lemma turn24_left:
  assumes r: "rep (plug cs (Br t p c kp vp (Br a w BLACK kw vw d))) R me"
    and io: "lefts cs @ inord (Br t p c kp vp (Br a w BLACK kw vw d)) @ rights cs = inord T"
    and b: "rb t n" "blk t" "rb a n" "rb d n" "fit c cs (Suc n)"
  shows "ok (remove_case24 n_left n_right leftRotate rightRotate (Some w) (Some p) me)
    (recoloured T R c cs)"
proof -
  have blk: "is_black (rp a) me = Inr (blk a)" "is_black (rp d) me = Inr (blk d)"
    using rep_is_black [of "FL w BLACK kw vw d # FR t p c kp vp # cs" a R me]
      rep_is_black [of "FR a w BLACK kw vw # FR t p c kp vp # cs" d R me] r by simp_all
  consider (two) "blk a" "blk d" | (three) "blk d" "\<not> blk a" | (four) "\<not> blk d" by blast
  then show ?thesis
  proof cases
    case two
    then show ?thesis
      using r unfolding remove_case24_def
      apply (simp add: rep_reads blk)
      apply (rule ok_step, erule set_color_R)
      apply (simp add: rep_reads)
      apply (erule case2_result [where n = n]; use io b two in simp)
      done
  next
    case three
    then obtain al m km vm ar where a: "a = Br al m RED km vm ar" using red_cases by blast
    show ?thesis
      using r three(1) b(3) unfolding remove_case24_def a
      apply (simp add: rep_reads blk(1) [unfolded a, simplified] blk(2))
      apply (rule ok_step, erule (1) case3_left)
      apply clarsimp
      apply (rule ok_mono, erule case4_left)
      apply clarsimp
      apply (erule case4_result [where n = n]; use io b three a in simp)
      done
  next
    case four
    then obtain dl m km vm dr where d: "d = Br dl m RED km vm dr" using red_cases by blast
    show ?thesis
      using r b(4) case3_skip_left [OF r four] unfolding remove_case24_def
      apply (simp add: rep_reads blk four)
      apply (rule ok_mono, rule case4_left, simp add: d)
      apply clarsimp
      apply (erule case4_result [where n = n]; use io b d in simp)
      done
  qed
qed

lemma turn24_right:
  assumes r: "rep (plug cs (Br (Br d w BLACK kw vw a) p c kp vp t)) R me"
    and io: "lefts cs @ inord (Br (Br d w BLACK kw vw a) p c kp vp t) @ rights cs = inord T"
    and b: "rb t n" "blk t" "rb a n" "rb d n" "fit c cs (Suc n)"
  shows "ok (remove_case24 n_right n_left rightRotate leftRotate (Some w) (Some p) me)
    (recoloured T R c cs)"
proof -
  have blk: "is_black (rp a) me = Inr (blk a)" "is_black (rp d) me = Inr (blk d)"
    using rep_is_black [of "FR d w BLACK kw vw # FL p c kp vp t # cs" a R me]
      rep_is_black [of "FL w BLACK kw vw a # FL p c kp vp t # cs" d R me] r by simp_all
  consider (two) "blk a" "blk d" | (three) "blk d" "\<not> blk a" | (four) "\<not> blk d" by blast
  then show ?thesis
  proof cases
    case two
    then show ?thesis
      using r unfolding remove_case24_def
      apply (simp add: rep_reads blk)
      apply (rule ok_step, erule set_color_L)
      apply (simp add: rep_reads)
      apply (erule case2_result [where n = n]; use io b two in simp)
      done
  next
    case three
    then obtain al m km vm ar where a: "a = Br al m RED km vm ar" using red_cases by blast
    show ?thesis
      using r three(1) b(3) unfolding remove_case24_def a
      apply (simp add: rep_reads blk(1) [unfolded a, simplified] blk(2))
      apply (rule ok_step, erule (1) case3_right)
      apply clarsimp
      apply (rule ok_mono, erule case4_right)
      apply clarsimp
      apply (erule case4_result [where n = n]; use io b three a in simp)
      done
  next
    case four
    then obtain dl m km vm dr where d: "d = Br dl m RED km vm dr" using red_cases by blast
    show ?thesis
      using r b(4) case3_skip_right [OF r four] unfolding remove_case24_def
      apply (simp add: rep_reads blk four)
      apply (rule ok_mono, rule case4_right, simp add: d)
      apply clarsimp
      apply (erule case4_result [where n = n]; use io b d in simp)
      done
  qed
qed

text \<open>A whole turn: a red sibling is rotated away first, which leaves the parent red.\<close>

lemma black_cases:
  assumes "blk t" "rb t (Suc n)"
  obtains l a k v r where "t = Br l a BLACK k v r" "rb l n" "rb r n"
  using assms by (cases t) auto

lemma turn_left:
  assumes r: "rep (plug cs (Br t p c kp vp w)) R me"
    and io: "lefts cs @ inord (Br t p c kp vp w) @ rights cs = inord T"
    and b: "rb t n" "blk t" "rb w (Suc n)" "blk w \<or> c = BLACK" "fit c cs (Suc n)"
  shows "ok (remove_turn n_left n_right leftRotate rightRotate (Some p) me)
    (\<lambda>(x, xp, me). deficit T R x xp cs me \<or> repaired T R x me)"
proof (cases "blk w")
  case True
  then obtain a y ky vy d where w: "w = Br a y BLACK ky vy d" "rb a n" "rb d n"
    using b(3) by (rule black_cases)
  have "remove_case1 n_right leftRotate (Some p) me = Inr (Some y, me)"
    using r by (simp add: remove_case1_def rep_reads w)
  with turn24_left [OF r [unfolded w(1)] io [unfolded w(1)] b(1,2) w(2,3) b(5)] show ?thesis
    by (auto simp: remove_turn_def recoloured_def elim: ok_mono)
next
  case False
  then obtain a y ky vy d where w: "w = Br a y RED ky vy d" using red_cases by blast
  with b(3) have "blk a" "rb a (Suc n)" "rb d (Suc n)" by auto
  from this(1,2) obtain a1 z kz vz a2 where a: "a = Br a1 z BLACK kz vz a2" "rb a1 n" "rb a2 n"
    by (rule black_cases)
  from False b(4) have c: "c = BLACK" by simp
  show ?thesis
    using r unfolding remove_turn_def w
    apply (rule ok_step [OF case1_left])
    apply (clarsimp simp: a)
    apply (rule ok_mono)
    apply (rule turn24_left [where cs = "FL y BLACK ky vy d # cs" and T = T and n = n and c = RED and
        kp = kp and vp = vp and kw = kz and vw = vz and R = R and t = t and p = p and w = z and a = a1 and d = a2])
    using io b a w c \<open>rb d (Suc n)\<close> apply (simp_all add: recoloured_def split: prod.splits)
    done
qed

lemma turn_right:
  assumes r: "rep (plug cs (Br w p c kp vp t)) R me"
    and io: "lefts cs @ inord (Br w p c kp vp t) @ rights cs = inord T"
    and b: "rb t n" "blk t" "rb w (Suc n)" "blk w \<or> c = BLACK" "fit c cs (Suc n)"
  shows "ok (remove_turn n_right n_left rightRotate leftRotate (Some p) me)
    (\<lambda>(x, xp, me). deficit T R x xp cs me \<or> repaired T R x me)"
proof (cases "blk w")
  case True
  then obtain d y ky vy a where w: "w = Br d y BLACK ky vy a" "rb d n" "rb a n"
    using b(3) by (rule black_cases)
  have "remove_case1 n_left rightRotate (Some p) me = Inr (Some y, me)"
    using r by (simp add: remove_case1_def rep_reads w)
  with turn24_right [OF r [unfolded w(1)] io [unfolded w(1)] b(1,2) w(3,2) b(5)] show ?thesis
    by (auto simp: remove_turn_def recoloured_def elim: ok_mono)
next
  case False
  then obtain d y ky vy a where w: "w = Br d y RED ky vy a" using red_cases by blast
  with b(3) have "blk a" "rb a (Suc n)" "rb d (Suc n)" by auto
  from this(1,2) obtain a1 z kz vz a2 where a: "a = Br a1 z BLACK kz vz a2" "rb a1 n" "rb a2 n"
    by (rule black_cases)
  from False b(4) have c: "c = BLACK" by simp
  show ?thesis
    using r unfolding remove_turn_def w
    apply (rule ok_step [OF case1_right])
    apply (clarsimp simp: a)
    apply (rule ok_mono)
    apply (rule turn24_right [where cs = "FR d y BLACK ky vy # cs" and T = T and n = n and c = RED and
        kp = kp and vp = vp and kw = kz and vw = vz and R = R and t = t and p = p and w = z and d = a1 and a = a2])
    using io b a w c \<open>rb d (Suc n)\<close> apply (simp_all add: recoloured_def split: prod.splits)
    done
qed

lemma repaired_stops: "repaired T R x me \<Longrightarrow> remove_loop (Suc fuel) x xp me = Inr (x, me)"
  unfolding repaired_def
  by (auto simp: rep_is_black dest: rep_root)

lemma deficit_root:
  assumes "rep t R me" "inord t = inord T" "if blk t then rb t n else rb (paint BLACK t) (Suc n)"
  shows "repaired T R (rp t) me"
proof -
  from assms(3) rb_paint [of t n] obtain N where "rb (paint BLACK t) N" by (auto split: if_splits)
  with assms(1,2) show ?thesis
    unfolding repaired_def by (intro exI [of _ "[]"] exI [of _ t] exI [of _ N]) simp
qed

lemma rep_focus_not_root:
  assumes "rep (plug (f # cs) t) R me"
  shows "rp t \<noteq> root me"
proof (cases t)
  case Lf
  then show ?thesis using rep_root [OF assms] by (cases f) (auto simp flip: rp_plug)
next
  case (Br l a c k v r)
  with rep_not_root assms show ?thesis by (metis list.distinct(1) rp.simps(2))
qed

lemma remove_loop_rep:
  "deficit T R x xp cs me \<Longrightarrow> length cs < fuel \<Longrightarrow>
   ok (remove_loop fuel x xp me) (\<lambda>(x, me). repaired T R x me)"
proof (induction fuel arbitrary: x xp cs me)
  case (Suc fuel)
  from Suc.prems(1) obtain t n where t: "rep (plug cs t) R me" "inord (plug cs t) = inord T" "rp t = x"
    "par cs = xp" "rbc cs (Suc n)" "if blk t then rb t n else rb (paint BLACK t) (Suc n)"
    by (auto simp: deficit_def)
  have next_turn: "ok (remove_loop fuel x' xp' me') (\<lambda>(x, me). repaired T R x me)"
    if "deficit T R x' xp' ds me' \<or> repaired T R x' me'" "length ds < fuel" for x' xp' ds me'
    using that Suc.IH [of x' xp' ds me'] repaired_stops [of T R x' me' "fuel - 1" xp']
    by (cases fuel) (auto simp del: remove_loop.simps)
  have go: "ok (rbind turn (\<lambda>(x', xp', me'). remove_loop fuel x' xp' me')) (\<lambda>(x, me). repaired T R x me)"
    if turn: "ok turn (\<lambda>(x, xp, me). deficit T R x xp ds me \<or> repaired T R x me)" and ds: "length ds < fuel"
    for turn ds
    by (rule ok_step [OF turn]) (clarsimp, rule next_turn [OF _ ds], simp)
  have blk: "is_black x me = Inr (blk t)" using rep_is_black [OF t(1)] t(3) by simp
  show ?case
  proof (cases cs)
    case Nil
    with t deficit_root [of t R me T n] rep_root [of t R me] show ?thesis by simp
  next
    case (Cons f ds)
    from rep_focus_not_root [of f ds t R me] t(1,3) Cons have root: "x \<noteq> root me" by simp
    show ?thesis
    proof (cases "blk t")
      case False
      with t repaired_here [of cs t R me T x n] root blk show ?thesis by simp
    next
      case True
      show ?thesis
      proof (cases f)
        case (FL p c kp vp w)
        with t(5) Cons have "rb w (Suc n)" "blk w \<or> c = BLACK" "fit c ds (Suc n)"
          by (cases c; auto)+
        with turn_left [of ds t p c kp vp w R me T n] t True Cons FL
        have "ok (remove_turn n_left n_right leftRotate rightRotate (Some p) me)
          (\<lambda>(x, xp, me). deficit T R x xp ds me \<or> repaired T R x me)" by simp
        moreover have "field n_left xp me = Inr x" "xp = Some p"
          using t(1,3,4) Cons FL by (auto simp: rep_fields)
        ultimately show ?thesis
          using root blk True Suc.prems(2) Cons go [of _ ds] by simp
      next
        case (FR w p c kp vp)
        with t(5) Cons have w: "rb w (Suc n)" "blk w \<or> c = BLACK" "fit c ds (Suc n)"
          by (cases c; auto)+
        with turn_right [of ds w p c kp vp t R me T n] t True Cons FR
        have "ok (remove_turn n_right n_left rightRotate leftRotate (Some p) me)
          (\<lambda>(x, xp, me). deficit T R x xp ds me \<or> repaired T R x me)" by simp
        moreover have "field n_left xp me = Inr (rp w)" "xp = Some p"
          using t(1,3,4) Cons FR by (auto simp: rep_fields)
        moreover have "x \<noteq> rp w"
          using w(1) rep_distinct [OF t(1)] t(3) Cons FR by (cases w; cases t) auto
        ultimately show ?thesis
          using root blk True Suc.prems(2) Cons go [of _ ds] by simp
      qed
    qed
  qed
qed simp

lemma removeFixup_rep:
  assumes "deficit T R x xp cs me"
  shows "ok (removeFixup x xp me) (\<lambda>me. \<exists>t N. rep t R me \<and> inord t = inord T \<and> rb t N \<and> blk t)"
proof -
  from assms obtain t where "rep (plug cs t) R me" by (auto simp: deficit_def)
  from context_length [of cs] rep_size [OF this] have "length cs < Suc (fresh me)" by simp
  from remove_loop_rep [OF assms this] show ?thesis
    unfolding removeFixup_def
  proof (rule ok_step)
    fix y :: "nat option \<times> ('a, 'b) rbtree"
    obtain x' me' where y: "y = (x', me')" by force
    assume "case y of (x, me) \<Rightarrow> repaired T R x me"
    then obtain cs t N where t: "rep (plug cs t) R me'" "inord (plug cs t) = inord T" "rp t = x'"
      "rb (plug cs (paint BLACK t)) N" "blk (plug cs (paint BLACK t))" by (auto simp: y repaired_def)
    then have "ok (if x' \<noteq> None then set_color BLACK x' me' else Inr me')
      (\<lambda>me. rep (plug cs (paint BLACK t)) R me)"
      using set_color_rep [of cs _ _ _ _ _ _ R me' BLACK] by (cases t) auto
    moreover from t(2) have "inord (plug cs (paint BLACK t)) = inord T" by simp
    ultimately show "ok (case y of (x, me) \<Rightarrow> if x \<noteq> None then set_color BLACK x me else Inr me)
      (\<lambda>me. \<exists>t N. rep t R me \<and> inord t = inord T \<and> rb t N \<and> blk t)"
      using t(4,5) unfolding y prod.case by (blast intro: ok_mono)
  qed
qed

section \<open>Unlinking and moving nodes\<close>

text \<open>\<open>outside A me me'\<close>: the states agree but for the nodes in \<open>A\<close> and the root.\<close>

definition outside :: "nat set \<Rightarrow> ('k, 'v) rbtree \<Rightarrow> ('k, 'v) rbtree \<Rightarrow> bool" where
  "outside A me me' \<longleftrightarrow>
     (\<forall>b. b \<notin> A \<longrightarrow> nodes me' b = nodes me b) \<and>
     (\<forall>n. me'\<lparr>nodes := n, root := None\<rparr> = me\<lparr>nodes := n, root := None\<rparr>)"

lemma unlink_no_left:
  assumes "rep (plug cs (Br Lf a d k v r)) R me"
  shows "ok (remove_unlink (Some a) me) (\<lambda>(x, xp, me'). x = rp r \<and> xp = par cs \<and>
    rep (plug cs r) (rest (plug cs r) me') me' \<and> outside (set (addrs (plug cs r))) me me')"
  using assms
  by (cases cs rule: par.cases; cases r)
    (simp_all add: remove_unlink_def rep_def holds_plug replace_child_def image_Un Let_def outside_def)

lemma unlink_no_right:
  assumes "rep (plug cs (Br l a d k v Lf)) R me" "l \<noteq> Lf"
  shows "ok (remove_unlink (Some a) me) (\<lambda>(x, xp, me'). x = rp l \<and> xp = par cs \<and>
    rep (plug cs l) (rest (plug cs l) me') me' \<and> outside (set (addrs (plug cs l))) me me')"
  using assms
  by (cases cs rule: par.cases; cases l)
    (simp_all add: remove_unlink_def rep_def holds_plug replace_child_def image_Un Let_def outside_def)

lemma unlink_outside:
  assumes "rep (plug cs (Br l a d k v r)) R me" "l = Lf \<or> r = Lf" "ch = (if l = Lf then r else l)"
  shows "ok (remove_unlink (Some a) me) (\<lambda>(x, xp, me'). x = rp ch \<and> xp = par cs \<and>
    rep (plug cs ch) (rest (plug cs ch) me') me' \<and> outside (set (addrs (plug cs ch))) me me')"
proof (cases "l = Lf")
  case True
  show ?thesis
    unfolding assms(3) if_P [OF True] by (rule unlink_no_left [OF assms(1) [unfolded True]])
next
  case False
  with assms(2) have r: "r = Lf" by simp
  show ?thesis
    unfolding assms(3) if_not_P [OF False] by (rule unlink_no_right [OF assms(1) [unfolded r] False])
qed

lemma outside_rest:
  assumes r: "rep t R me" and o: "outside (set (addrs t')) me me'"
    and sub: "insert a (set (addrs t')) = set (addrs t)" "a \<notin> set (addrs t')"
  shows "rest t' me' = R\<lparr>nodes := (nodes R)(a := nodes me a)\<rparr>"
proof -
  from r have R: "R = rest t me" by (simp add: rep_def)
  from o have o1: "nodes me' b = nodes me b" if "b \<notin> set (addrs t')" for b
    using that by (simp add: outside_def)
  have nodes: "nodes me' |` (- set (addrs t')) = (nodes me |` (- set (addrs t)))(a := nodes me a)"
  proof
    fix b
    show "(nodes me' |` (- set (addrs t'))) b = ((nodes me |` (- set (addrs t)))(a := nodes me a)) b"
      unfolding sub(1) [symmetric] using sub(2) o1 [of b] by (auto simp: restrict_map_def)
  qed
  from o have eq: "me'\<lparr>nodes := n, root := None\<rparr> = me\<lparr>nodes := n, root := None\<rparr>" for n
    unfolding outside_def by blast
  show ?thesis unfolding rest_def nodes eq R by simp
qed

lemma unlink_rep:
  assumes r: "rep (plug cs (Br l a d k v r)) R me" and ch: "l = Lf \<or> r = Lf" "ch = (if l = Lf then r else l)"
  shows "ok (remove_unlink (Some a) me) (\<lambda>(x, xp, me'). x = rp ch \<and> xp = par cs \<and>
    rep (plug cs ch) (R\<lparr>nodes := (nodes R)(a \<mapsto> \<lparr>n_key = k, n_value = v, n_left = rp l,
       n_right = rp r, n_parent = par cs, n_color = d\<rparr>)\<rparr>) me')"
proof -
  have sub: "insert a (set (addrs (plug cs ch))) = set (addrs (plug cs (Br l a d k v r)))"
    "a \<notin> set (addrs (plug cs ch))"
    using ch rep_distinct [OF r] by auto
  show ?thesis
    by (rule ok_mono [OF unlink_outside [OF r ch]])
      (use outside_rest [OF r _ sub] rep_node [OF r] in auto)
qed

text \<open>\<open>remove_move\<close> puts the unlinked node \<open>b\<close> in the place of \<open>a\<close>.\<close>

lemma holdsc_cong:
  "(\<And>a. a \<in> fst ` set (lefts cs @ rights cs) \<Longrightarrow> m a = m' a) \<Longrightarrow> holdsc m p cs = holdsc m' p cs"
proof (induction cs arbitrary: p rule: lefts.induct)
  case (2 a c k v r cs)
  have "holds m (Some a) r = holds m' (Some a) r" by (rule holds_cong) (use 2(2) in auto)
  moreover have "holdsc m (Some a) cs = holdsc m' (Some a) cs" by (rule 2(1)) (use 2(2) in auto)
  ultimately show ?case using 2(2) [of a] by simp
next
  case (3 l a c k v cs)
  have "holds m (Some a) l = holds m' (Some a) l" by (rule holds_cong) (use 3(2) in auto)
  moreover have "holdsc m (Some a) cs = holdsc m' (Some a) cs" by (rule 3(1)) (use 3(2) in auto)
  ultimately show ?case using 3(2) [of a] by simp
qed simp

lemma reparent:
  assumes "holds (nodes me) p t" "distinct (addrs t)"
  obtains m where "(if rp t \<noteq> None then upd (\<lambda>n. n\<lparr>n_parent := q\<rparr>) (rp t) me else Inr me) =
      Inr (me\<lparr>nodes := m\<rparr>)" "holds m q t" "\<And>x. x \<notin> set (addrs t) \<Longrightarrow> m x = nodes me x"
proof (cases t)
  case Lf
  with that [of "nodes me"] show thesis by simp
next
  case (Br l a c k v r)
  with assms that [of "(nodes me)(a \<mapsto> \<lparr>n_key = k, n_value = v, n_left = rp l, n_right = rp r,
    n_parent = q, n_color = c\<rparr>)"] show thesis by simp
qed

lemma replace_child_context:
  assumes "holdsc (nodes me) (Some a) cs" "a \<notin> fst ` set (lefts cs @ rights cs)"
    "distinct (map fst (lefts cs @ rights cs))"
  obtains m r where "replace_child (par cs) (Some a) q me = Inr (me\<lparr>nodes := m, root := r\<rparr>)"
    "cs = [] \<Longrightarrow> r = q" "cs \<noteq> [] \<Longrightarrow> r = root me" "holdsc m q cs"
    "\<And>x. x \<notin> fst ` set (lefts cs @ rights cs) \<Longrightarrow> m x = nodes me x"
proof (cases cs rule: par.cases)
  case 1
  with that [of q "nodes me"] show thesis by (simp add: replace_child_def)
next
  case (2 b c k v r ds)
  with assms that [of "root me" "(nodes me)(b \<mapsto> \<lparr>n_key = k, n_value = v, n_left = q, n_right = rp r,
    n_parent = par ds, n_color = c\<rparr>)"] show thesis by (simp add: replace_child_def image_Un)
next
  case (3 l b c k v ds)
  with assms that [of "root me" "(nodes me)(b \<mapsto> \<lparr>n_key = k, n_value = v, n_left = rp l, n_right = q,
    n_parent = par ds, n_color = c\<rparr>)"] show thesis by (simp add: replace_child_def image_Un)
qed

lemma move_outside:
  assumes r: "rep (plug cs (Br l a c k v r)) R me" and b: "nodes me b = Some n" "b < fresh me"
    "b \<notin> set (addrs (plug cs (Br l a c k v r)))"
  shows "ok (remove_move (Some b) (Some a) me) (\<lambda>me'.
    rep (plug cs (Br l b c (n_key n) (n_value n) r)) (rest (plug cs (Br l b c (n_key n) (n_value n) r)) me') me' \<and>
    outside (set (addrs (plug cs (Br l b c (n_key n) (n_value n) r)))) me me')"
proof -
  let ?C = "fst ` set (lefts cs @ rights cs)"
  from r have h: "holdsc (nodes me) (Some a) cs" "holds (nodes me) (Some a) l" "holds (nodes me) (Some a) r"
    by (simp_all add: rep_def holds_plug)
  from rep_distinct [OF r] have d: "distinct (addrs l)" "distinct (addrs r)" "distinct (map fst (lefts cs @ rights cs))"
    "a \<notin> ?C" "set (addrs l) \<inter> ?C = {}" "set (addrs r) \<inter> ?C = {}" "set (addrs l) \<inter> set (addrs r) = {}"
    "a \<notin> set (addrs l)" "a \<notin> set (addrs r)"
    by auto
  from b(3) have bn: "b \<notin> ?C" "b \<notin> set (addrs l)" "b \<notin> set (addrs r)" "b \<noteq> a" by auto
  let ?n = "\<lparr>n_key = n_key n, n_value = n_value n, n_left = rp l, n_right = rp r, n_parent = par cs, n_color = c\<rparr>"
  let ?m1 = "(nodes me)(b \<mapsto> ?n)"
  have up: "upd (\<lambda>m. m\<lparr>n_parent := par cs, n_color := c, n_left := rp l, n_right := rp r\<rparr>) (Some b) me =
      Inr (me\<lparr>nodes := ?m1\<rparr>)"
    using b(1) by (cases n) simp
  have "holds ?m1 (Some a) l" using h(2) bn(2) by simp
  from reparent [of "me\<lparr>nodes := ?m1\<rparr>", simplified, OF this d(1), of "Some b"] obtain m2 where
    m2: "(if rp l \<noteq> None then upd (\<lambda>n. n\<lparr>n_parent := Some b\<rparr>) (rp l) (me\<lparr>nodes := ?m1\<rparr>)
      else Inr (me\<lparr>nodes := ?m1\<rparr>)) = Inr (me\<lparr>nodes := m2\<rparr>)" "holds m2 (Some b) l"
      "\<And>x. x \<notin> set (addrs l) \<Longrightarrow> m2 x = ?m1 x" by auto
  have "holds m2 (Some a) r = holds (nodes me) (Some a) r"
  proof (rule holds_cong)
    fix x assume "x \<in> fst ` set (inord r)"
    with d(7) bn(3) have "x \<notin> set (addrs l)" "x \<noteq> b" unfolding set_map by blast+
    with m2(3) show "m2 x = nodes me x" by simp
  qed
  with h(3) have "holds m2 (Some a) r" by blast
  from reparent [of "me\<lparr>nodes := m2\<rparr>", simplified, OF this d(2), of "Some b"] obtain m3 where
    m3: "(if rp r \<noteq> None then upd (\<lambda>n. n\<lparr>n_parent := Some b\<rparr>) (rp r) (me\<lparr>nodes := m2\<rparr>)
      else Inr (me\<lparr>nodes := m2\<rparr>)) = Inr (me\<lparr>nodes := m3\<rparr>)" "holds m3 (Some b) r"
      "\<And>x. x \<notin> set (addrs r) \<Longrightarrow> m3 x = m2 x" by auto
  have "holdsc m3 (Some a) cs = holdsc (nodes me) (Some a) cs"
  proof (rule holdsc_cong)
    fix x assume "x \<in> ?C"
    with d(5,6) bn(1) have "x \<notin> set (addrs l)" "x \<notin> set (addrs r)" "x \<noteq> b" by blast+
    with m2(3) m3(3) show "m3 x = nodes me x" by simp
  qed
  with h(1) have "holdsc m3 (Some a) cs" by blast
  from replace_child_context [of "me\<lparr>nodes := m3\<rparr>", simplified, OF this d(4)[simplified] d(3)[simplified], of "Some b"]
  obtain m4 q where
    m4: "replace_child (par cs) (Some a) (Some b) (me\<lparr>nodes := m3\<rparr>) = Inr (me\<lparr>nodes := m4, root := q\<rparr>)"
      "holdsc m4 (Some b) cs" "\<And>x. x \<notin> ?C \<Longrightarrow> m4 x = m3 x"
      and q: "cs = [] \<Longrightarrow> q = Some b" "cs \<noteq> [] \<Longrightarrow> q = root me"
    unfolding set_append by blast
  have out: "m4 x = (if x = b then Some ?n else nodes me x)" if "x \<notin> ?C" "x \<notin> set (addrs l)" "x \<notin> set (addrs r)" for x
    using that m4(3) m3(3) m2(3) by simp
  have "holds m4 (Some b) l = holds m2 (Some b) l"
  proof (rule holds_cong)
    fix x assume "x \<in> fst ` set (inord l)"
    with d(5,7) have "x \<notin> ?C" "x \<notin> set (addrs r)" unfolding set_map by blast+
    with m4(3) m3(3) show "m4 x = m2 x" by simp
  qed
  moreover have "holds m4 (Some b) r = holds m3 (Some b) r"
  proof (rule holds_cong)
    fix x assume "x \<in> fst ` set (inord r)"
    with d(6) have "x \<notin> ?C" unfolding set_map by blast
    with m4(3) show "m4 x = m3 x" by simp
  qed
  ultimately have "holds m4 None (plug cs (Br l b c (n_key n) (n_value n) r))"
    using m2(2) m3(2) m4(2) out [OF bn(1-3)] by (simp add: holds_plug)
  moreover have "q = rootc cs (Some b)"
    using rep_root [OF r] q by (cases cs rule: par.cases) simp_all
  moreover have "remove_move (Some b) (Some a) me =
      Inr (me\<lparr>nodes := m4, root := q\<rparr>)"
    unfolding remove_move_def nd_Some [of me, OF rep_node [OF r]] rbind.simps node.select_convs up
      m2(1) m3(1) m4(1) ..
  moreover have "distinct (addrs (plug cs (Br l b c (n_key n) (n_value n) r)))"
    using rep_distinct [OF r] bn by (simp add: image_Un)
  moreover have "\<forall>x\<in>set (addrs (plug cs (Br l b c (n_key n) (n_value n) r))). x < fresh me"
    using r b(2) by (simp add: rep_def)
  ultimately show ?thesis
    unfolding rep_def outside_def using out by (simp add: image_Un)
qed

lemma move_rep:
  assumes r: "rep (plug cs (Br l a c k v r)) R me" and b: "nodes R b = Some n" "b < fresh me"
    "b \<notin> set (addrs (plug cs (Br l a c k v r)))"
  shows "ok (remove_move (Some b) (Some a) me) (rep (plug cs (Br l b c (n_key n) (n_value n) r))
    (R\<lparr>nodes := (nodes R)(b := None, a \<mapsto> \<lparr>n_key = k, n_value = v, n_left = rp l, n_right = rp r,
       n_parent = par cs, n_color = c\<rparr>)\<rparr>))"
proof -
  let ?t = "plug cs (Br l a c k v r)" and ?t' = "plug cs (Br l b c (n_key n) (n_value n) r)"
  let ?A = "set (addrs (plug cs Lf)) \<union> set (addrs l) \<union> set (addrs r)"
  from r have R: "R = rest ?t me" by (simp add: rep_def)
  with b(1,3) have nb: "nodes me b = Some n" by (simp add: rest_def restrict_map_def split: if_splits)
  have A: "set (addrs ?t) = insert a ?A" "set (addrs ?t') = insert b ?A" by auto
  from rep_distinct [OF r] have aA: "a \<notin> ?A" by auto
  have "rest ?t' me' = R\<lparr>nodes := (nodes R)(b := None, a := nodes me a)\<rparr>"
    if o: "outside (set (addrs ?t')) me me'" for me'
  proof -
    from b(3) A have ab: "a \<noteq> b" "b \<notin> ?A" by auto
    from o have o1: "nodes me' x = nodes me x" if "x \<noteq> b" "x \<notin> ?A" for x
      using that unfolding outside_def A by blast
    have nodes: "nodes me' |` (- insert b ?A) = (nodes me |` (- insert a ?A))(b := None, a := nodes me a)"
    proof
      fix x
      show "(nodes me' |` (- insert b ?A)) x = ((nodes me |` (- insert a ?A))(b := None, a := nodes me a)) x"
        using o1 [of x] ab aA by (auto simp: restrict_map_def)
    qed
    from o have eq: "me'\<lparr>nodes := n, root := None\<rparr> = me\<lparr>nodes := n, root := None\<rparr>" for n
      unfolding outside_def by blast
    show ?thesis unfolding rest_def A nodes eq R by simp
  qed
  note rest = this [unfolded rep_node [OF r]]
  show ?thesis
  proof (rule ok_mono [OF move_outside [OF r nb b(2,3)]])
    fix x
    assume "rep ?t' (rest ?t' x) x \<and> outside (set (addrs ?t')) me x"
    then show "rep ?t' (R\<lparr>nodes := (nodes R)(b := None, a \<mapsto> \<lparr>n_key = k, n_value = v, n_left = rp l,
      n_right = rp r, n_parent = par cs, n_color = c\<rparr>)\<rparr>) x"
      using rest by metis
  qed
qed

section \<open>Removal from the map\<close>

text \<open>Unlinking a node and repairing the colours, as one step.\<close>

lemma unlink_fixup:
  assumes r: "rep (plug cs (Br l a d k v r)) R me" and b: "rb (plug cs (Br l a d k v r)) N"
      "blk (plug cs (Br l a d k v r))"
    and ch: "l = Lf \<or> r = Lf" "ch = (if l = Lf then r else l)"
  shows "ok (rbind (remove_unlink (Some a) me) (\<lambda>(x, xParent, me).
      rbind (field n_color (Some a) me) (\<lambda>c. if c = BLACK then removeFixup x xParent me else Inr me)))
    (\<lambda>me'. \<exists>t N. rep t (R\<lparr>nodes := (nodes R)(a \<mapsto> \<lparr>n_key = k, n_value = v, n_left = rp l,
       n_right = rp r, n_parent = par cs, n_color = d\<rparr>)\<rparr>) me' \<and>
       inord t = lefts cs @ inord ch @ rights cs \<and> rb t N \<and> blk t)"
proof (rule ok_step [OF unlink_rep [OF r ch]])
  let ?n = "\<lparr>n_key = k, n_value = v, n_left = rp l, n_right = rp r, n_parent = par cs, n_color = d\<rparr>"
  let ?R = "R\<lparr>nodes := (nodes R)(a \<mapsto> ?n)\<rparr>"
  fix y
  assume y: "case y of (x, xp, me') \<Rightarrow> x = rp ch \<and> xp = par cs \<and> rep (plug cs ch) ?R me'"
  then obtain me1 where me1: "y = (rp ch, par cs, me1)" "rep (plug cs ch) ?R me1" by (cases y) auto
  have "a \<notin> set (addrs (plug cs ch))" using rep_distinct [OF r] ch by auto
  moreover from me1(2) have "nodes (rest (plug cs ch) me1) a = Some ?n" by (simp add: rep_def)
  ultimately have node: "nodes me1 a = Some ?n" by (simp add: rest_def)
  from rb_unplug [OF b] obtain m where m: "rb (Br l a d k v r) m" "rbc cs m"
    "d = BLACK \<or> cs \<noteq> [] \<and> black_top cs" by auto
  have "ok (if d = BLACK then removeFixup (rp ch) (par cs) me1 else Inr me1)
    (\<lambda>me'. \<exists>t N. rep t ?R me' \<and> inord t = inord (plug cs ch) \<and> rb t N \<and> blk t)"
  proof (cases d)
    case RED
    with m ch have "rb ch m" "black_top cs" "cs \<noteq> []" by auto
    with rb_plug [OF m(2) this(1)] rbc_blk [OF m(2)] me1(2) RED show ?thesis by auto
  next
    case BLACK
    with m(1) obtain m' where m': "m = Suc m'" "rb l m'" "rb r m'" by (cases m) auto
    with ch have "rb ch m'" by auto
    then have "if blk ch then rb ch m' else rb (paint BLACK ch) (Suc m')" by (auto elim: red_cases)
    with me1(2) m(2) m'(1) have "deficit (plug cs ch) ?R (rp ch) (par cs) cs me1"
      unfolding deficit_def by blast
    from removeFixup_rep [OF this] BLACK show ?thesis by simp
  qed
  with node show "ok (case y of (x, xParent, me) \<Rightarrow>
      rbind (field n_color (Some a) me) (\<lambda>c. if c = BLACK then removeFixup x xParent me else Inr me))
    (\<lambda>me'. \<exists>t N. rep t ?R me' \<and> inord t = lefts cs @ inord ch @ rights cs \<and> rb t N \<and> blk t)"
    by (simp add: me1(1))
qed

lemma leftmost:
  "t \<noteq> Lf \<Longrightarrow> \<exists>cs b d k v r. t = plug cs (Br Lf b d k v r) \<and> lefts cs = []"
proof (induction t)
  case (Br l a c k v r)
  show ?case
  proof (cases "l = Lf")
    case True
    then have "Br l a c k v r = plug [] (Br Lf a c k v r)" by simp
    then show ?thesis by (metis lefts.simps(1))
  next
    case False
    with Br.IH(1) obtain cs b d k' v' r' where "l = plug cs (Br Lf b d k' v' r')" "lefts cs = []" by blast
    then have "Br l a c k v r = plug (cs @ [FL a c k v r]) (Br Lf b d k' v' r')"
      "lefts (cs @ [FL a c k v r]) = []" by (simp_all add: plug_append)
    then show ?thesis by blast
  qed
qed simp

lemma rb_plug_cong:
  "(\<And>n. rb t n = rb t' n) \<Longrightarrow> blk t = blk t' \<Longrightarrow> rb (plug cs t) N = rb (plug cs t') N \<and> blk (plug cs t) = blk (plug cs t')"
proof (induction cs arbitrary: t t' rule: lefts.induct)
  case (2 a c k v r cs)
  show ?case unfolding plug.simps by (rule 2(1)) (use 2(2,3) in \<open>cases c; auto\<close>)+
next
  case (3 l a c k v cs)
  show ?case unfolding plug.simps by (rule 3(1)) (use 3(2,3) in \<open>cases c; auto\<close>)+
qed simp

lemma rep_outside: "rep t R me \<Longrightarrow> a \<notin> set (addrs t) \<Longrightarrow> nodes me a = nodes R a"
  by (auto simp: rep_def rest_def restrict_map_def)

text \<open>
  The heap after \<open>RedBlackTree_remove\<close>: the tree without the entry at \<open>a\<close>, and besides the old rest the
  unlinked node, which the code does not free.
\<close>

definition removed ::
    "('k, 'v) rbtree \<Rightarrow> (nat \<times> 'k \<times> 'v) list \<Rightarrow> nat \<Rightarrow> 'k \<Rightarrow> 'v \<Rightarrow> ('k, 'v) rbtree \<Rightarrow> bool" where
  "removed R es a key v me \<longleftrightarrow>
     (\<exists>t N n. rep t (R\<lparr>nodes := (nodes R)(a \<mapsto> n)\<rparr>) me \<and> n_key n = key \<and> n_value n = v \<and>
        inord t = es \<and> rb t N \<and> blk t)"

lemma remove_single:
  assumes r: "rep (plug cs (Br l a d key v r)) R me" and b: "rb (plug cs (Br l a d key v r)) N"
      "blk (plug cs (Br l a d key v r))"
    and ch: "l = Lf \<or> r = Lf" and f: "findNode key me = Inr (Some a)"
  shows "ok (RedBlackTree_remove key me) (\<lambda>(w, me'). w = Some v \<and>
    removed R (lefts cs @ inord l @ inord r @ rights cs) a key v me')"
proof -
  let ?R = "R\<lparr>nodes := (nodes R)(a \<mapsto> \<lparr>n_key = key, n_value = v, n_left = rp l, n_right = rp r,
    n_parent = par cs, n_color = d\<rparr>)\<rparr>"
  have c: "remove_choose (Some a) me = Inr (Some a)"
    using ch by (auto simp: remove_choose_def rep_fields [OF r])
  from unlink_fixup [OF r b ch refl] obtain me1 t N' where
    me1: "rbind (remove_unlink (Some a) me) (\<lambda>(x, xParent, me).
      rbind (field n_color (Some a) me) (\<lambda>c. if c = BLACK then removeFixup x xParent me else Inr me)) = Inr me1"
      "rep t ?R me1" "inord t = lefts cs @ inord (if l = Lf then r else l) @ rights cs" "rb t N'" "blk t"
    by (cases "rbind (remove_unlink (Some a) me) (\<lambda>(x, xParent, me).
      rbind (field n_color (Some a) me) (\<lambda>c. if c = BLACK then removeFixup x xParent me else Inr me))") auto
  have es: "inord t = lefts cs @ inord l @ inord r @ rights cs" using me1(3) ch by auto
  with rep_distinct [OF r] have "a \<notin> set (addrs t)" by auto
  from rep_outside [OF me1(2) this] have "field n_value (Some a) me1 = Inr v" by simp
  moreover have "RedBlackTree_remove key me =
      rbind (rbind (remove_unlink (Some a) me) (\<lambda>(x, xParent, me).
        rbind (field n_color (Some a) me) (\<lambda>c. if c = BLACK then removeFixup x xParent me else Inr me)))
      (\<lambda>me. rbind (field n_value (Some a) me) (\<lambda>v. Inr (Some v, me)))"
    by (simp add: RedBlackTree_remove_def f c rbind_assoc case_prod_unfold cong: rbind_cong)
  ultimately have "RedBlackTree_remove key me = Inr (Some v, me1)" by (simp add: me1(1))
  moreover have "removed R (inord t) a key v me1"
    unfolding removed_def
    by (rule exI [of _ t], rule exI [of _ N'], rule exI) (intro conjI, rule me1(2), simp_all add: me1(4,5))
  ultimately show ?thesis by (simp add: es)
qed

lemma remove_double:
  assumes r: "rep (plug cs (Br l a d key v r)) R me" and b: "rb (plug cs (Br l a d key v r)) N"
      "blk (plug cs (Br l a d key v r))"
    and ch: "l \<noteq> Lf" "r \<noteq> Lf" and f: "findNode key me = Inr (Some a)"
    and R: "bounded R"
  shows "ok (RedBlackTree_remove key me) (\<lambda>(w, me'). w = Some v \<and>
    removed R (lefts cs @ inord l @ inord r @ rights cs) a key v me')"
proof -
  from leftmost [OF ch(2)] obtain ds b d' k' v' r' where y: "r = plug ds (Br Lf b d' k' v' r')" "lefts ds = []"
    by blast
  let ?cs = "ds @ FR l a d key v # cs"
  have T: "plug cs (Br l a d key v r) = plug ?cs (Br Lf b d' k' v' r')" by (simp add: y plug_append)
  let ?n = "\<lparr>n_key = k', n_value = v', n_left = None, n_right = rp r', n_parent = par ?cs, n_color = d'\<rparr>"
  let ?R = "R\<lparr>nodes := (nodes R)(b \<mapsto> ?n)\<rparr>"
  have "Node_successor (Some a) me = Inr (first (inord r @ rights cs))"
    by (rule Node_successor_rep [OF r, of "lefts cs @ inord l" a key v]) simp
  moreover have "first (inord r @ rights cs) = Some b" by (simp add: y)
  ultimately have c: "remove_choose (Some a) me = Inr (Some b)"
    using ch by (simp add: remove_choose_def rep_fields [OF r])
  let ?unlink = "rbind (remove_unlink (Some b) me) (\<lambda>(x, xParent, me).
      rbind (field n_color (Some b) me) (\<lambda>c. if c = BLACK then removeFixup x xParent me else Inr me))"
  from unlink_fixup [OF r [unfolded T] b [unfolded T] _ refl] obtain me1 t N' where
    me1: "?unlink = Inr me1" "rep t ?R me1" "inord t = lefts ?cs @ inord r' @ rights ?cs" "rb t N'" "blk t"
    by (cases ?unlink) auto
  from me1(3) y(2) have io: "inord t = (lefts cs @ inord l) @ (a, key, v) # (inord r' @ rights ds @ rights cs)"
    by simp
  from inord_zipper [OF io] obtain es l2 c2 r2 where z: "t = plug es (Br l2 a c2 key v r2)"
    "lefts cs @ inord l = lefts es @ inord l2" "inord r' @ rights ds @ rights cs = inord r2 @ rights es" by blast
  from rep_distinct [OF r] have "distinct (map fst (lefts cs @ inord l @ (a, key, v) # (b, k', v') #
      inord r' @ rights ds @ rights cs))" by (simp add: y)
  then have ab: "a \<noteq> b" "b \<notin> set (addrs t)" "a \<notin> fst ` set (lefts cs @ inord l @ (b, k', v') # inord r' @ rights ds @ rights cs)"
    unfolding io by auto
  have "b < fresh me" using r by (simp add: rep_def y)
  with rep_rest(1) [OF r] rep_rest(1) [OF me1(2)] have "b < fresh me1" by simp
  from move_rep [OF me1(2) [unfolded z(1)] _ this ab(2) [unfolded z(1)], of ?n] obtain me2 where
    me2: "remove_move (Some b) (Some a) me1 = Inr me2"
      "rep (plug es (Br l2 b c2 k' v' r2)) (?R\<lparr>nodes := (nodes ?R)(b := None, a \<mapsto> \<lparr>n_key = key, n_value = v,
        n_left = rp l2, n_right = rp r2, n_parent = par es, n_color = c2\<rparr>)\<rparr>) me2"
    by (cases "remove_move (Some b) (Some a) me1") auto
  from r have "nodes R b = None" by (auto simp: rep_def rest_def y)
  with me2(2) have me2': "rep (plug es (Br l2 b c2 k' v' r2)) (R\<lparr>nodes := (nodes R)(a \<mapsto> \<lparr>n_key = key, n_value = v,
        n_left = rp l2, n_right = rp r2, n_parent = par es, n_color = c2\<rparr>)\<rparr>) me2" by (simp add: fun_upd_idem)
  have es: "inord (plug es (Br l2 b c2 k' v' r2)) = lefts cs @ inord l @ inord r @ rights cs"
    using z(2,3) by (simp add: y flip: append_assoc)
  have "a \<notin> set (addrs (plug es (Br l2 b c2 k' v' r2)))" unfolding es using ab(3) by (simp add: y image_Un)
  from rep_outside [OF me2' this] have val: "field n_value (Some a) me2 = Inr v" by simp
  have "RedBlackTree_remove key me = rbind ?unlink (\<lambda>me. rbind (remove_move (Some b) (Some a) me)
      (\<lambda>me. rbind (field n_value (Some a) me) (\<lambda>v. Inr (Some v, me))))"
    using ab(1) by (simp add: RedBlackTree_remove_def f c rbind_assoc case_prod_unfold cong: rbind_cong)
  with val have "RedBlackTree_remove key me = Inr (Some v, me2)" by (simp add: me1(1) me2(1))
  moreover from rb_plug_cong [of "Br l2 a c2 key v r2" "Br l2 b c2 k' v' r2" es N'] me1(4,5)
  have "rb (plug es (Br l2 b c2 k' v' r2)) N'" "blk (plug es (Br l2 b c2 k' v' r2))"
    unfolding z(1) by (cases c2; simp)+
  then have "removed R (lefts cs @ inord l @ inord r @ rights cs) a key v me2"
    unfolding removed_def
    by - (rule exI [of _ "plug es (Br l2 b c2 k' v' r2)"], rule exI [of _ N'], rule exI,
      intro conjI, rule me2', simp_all only: es node.select_convs)
  ultimately show ?thesis by simp
qed

lemma ascending_del:
  assumes "comparator c" "ascending c (xs @ (a, k, v) # ys)"
  shows "map_of (map snd (xs @ ys)) = (map_of (map snd (xs @ (a, k, v) # ys)))(k := None)"
proof -
  from assms comparatorD(1) [OF assms(1), of k k] have "k \<notin> fst ` set (map snd (xs @ ys))" by fastforce
  then have "map_of (map snd (xs @ ys)) k = None" by (simp add: map_of_eq_None_iff image_Un)
  then have "map_of (map snd (xs @ ys)) = (map_of (map snd (xs @ ys)))(k := None)"
    by (simp add: fun_upd_idem)
  then show ?thesis unfolding ascending_map_of [OF assms, of v] by simp
qed

text \<open>
  Removal returns the value and deletes the key. Where the key was present, one more node is left over
  outside the tree.
\<close>

lemma remove_state:
  assumes s: "rb_state t R me"
  shows "\<exists>t' R' me'. RedBlackTree_remove key me = Inr (rb_map me key, me') \<and> rb_state t' R' me' \<and>
    compare R' = compare R \<and> rb_map me' = (rb_map me)(key := None) \<and>
    (case rb_map me key of
       None \<Rightarrow> R' = R
     | Some v \<Rightarrow> \<exists>a n. R' = R\<lparr>nodes := (nodes R)(a \<mapsto> n)\<rparr> \<and> nodes R a = None \<and> n_key n = key \<and> n_value n = v)"
proof -
  from findNode_rep [OF s, of key] obtain x where x: "findNode key me = Inr x" "find_result key t x"
    by (cases "findNode key me") auto
  show ?thesis
  proof (cases x)
    case None
    with x have "rb_map me key = None" by (simp add: find_result_def rb_state_map [OF s])
    with x(1) None s show ?thesis
      by (intro exI [of _ t] exI [of _ R] exI [of _ me]) (auto simp: RedBlackTree_remove_def)
  next
    case (Some a)
    with x(2) obtain cs l d v r where t: "t = plug cs (Br l a d key v r)" by (auto simp: find_result_def)
    from s obtain N where rr: "rep (plug cs (Br l a d key v r)) R me" "rb (plug cs (Br l a d key v r)) N"
      "blk (plug cs (Br l a d key v r))" and c: "comparator (compare R)" and b: "bounded R"
      and as: "ascending (compare R) ((lefts cs @ inord l) @ (a, key, v) # (inord r @ rights cs))"
      by (auto simp: rb_state_def t)
    have "ok (RedBlackTree_remove key me) (\<lambda>(w, me'). w = Some v \<and>
      removed R (lefts cs @ inord l @ inord r @ rights cs) a key v me')"
      using remove_single [OF rr] remove_double [OF rr] x(1) b Some by blast
    then obtain me' t' N' n where rem: "RedBlackTree_remove key me = Inr (Some v, me')"
      "rep t' (R\<lparr>nodes := (nodes R)(a \<mapsto> n)\<rparr>) me'" "n_key n = key" "n_value n = v"
      "inord t' = lefts cs @ inord l @ inord r @ rights cs" "rb t' N'" "blk t'"
      by (cases "RedBlackTree_remove key me") (auto simp: removed_def)
    have m: "rb_map me key = Some v"
      using ascending_get [OF c as] by (simp add: rb_state_map [OF s] t)
    have "nodes R a = None" "a < fresh R"
      using rr(1) rep_rest(1) [OF rr(1)] by (auto simp: rep_def rest_def)
    moreover from this(2) b have "bounded (R\<lparr>nodes := (nodes R)(a \<mapsto> n)\<rparr>)" by (simp add: bounded_def)
    with rem(2,5,6,7) as c have st: "rb_state t' (R\<lparr>nodes := (nodes R)(a \<mapsto> n)\<rparr>) me'"
      by (auto simp: rb_state_def)
    moreover have "rb_map me' = (rb_map me)(key := None)"
      using ascending_del [OF c as] by (simp add: rb_state_map [OF st] rb_state_map [OF s] rem(5) t)
    ultimately show ?thesis
      using rem(1,3,4) m
      by (intro exI [of _ t'] exI [of _ "R\<lparr>nodes := (nodes R)(a \<mapsto> n)\<rparr>"] exI [of _ me']) auto
  qed
qed

end
