(* ===== verification/RedBlackTree.thy ===== *)
theory RedBlackTree
  imports RedBlackRemove
begin

text \<open>
  The properties of \<open>RedBlackTree.c\<close>, over whole operations and sequences of operations. The keys may be
  of any type with a \<open>compare\<close> function that is a total order (\<open>comparator\<close>).
\<close>

lemma puts_state:
  "rb_state t R me \<Longrightarrow> \<exists>t' R' me'. rfold (\<lambda>(k, v). rb_put k v) kvs me = Inr me' \<and> rb_state t' R' me' \<and>
     nodes R' = nodes R \<and> rb_map me' = rb_map me ++ map_of (rev kvs)"
proof (induction kvs arbitrary: t R me)
  case (Cons kv kvs)
  obtain k v where kv: "kv = (k, v)" by force
  from put_state [OF Cons.prems, of k v] obtain t1 R1 me1 where
    1: "rb_put k v me = Inr me1" "rb_state t1 R1 me1" "nodes R1 = nodes R" "rb_map me1 = (rb_map me)(k \<mapsto> v)"
    by (auto simp: rb_put_def)
  from Cons.IH [OF 1(2)] obtain t2 R2 me2 where
    2: "rfold (\<lambda>(k, v). rb_put k v) kvs me1 = Inr me2" "rb_state t2 R2 me2" "nodes R2 = nodes R1"
      "rb_map me2 = rb_map me1 ++ map_of (rev kvs)" by blast
  have "rb_map me2 = rb_map me ++ map_of (rev (kv # kvs))"
    unfolding 2(4) 1(4) kv by (simp add: map_add_assoc)
  with 1 2 show ?case by (auto simp: kv)
qed auto

lemma build_state:
  assumes "comparator c" "0 < kSize" "0 < vSize"
  obtains t R me where
    "rbind (RedBlackTree_create kSize vSize (Some c)) (rfold (\<lambda>(k, v). rb_put k v) kvs) = Inr me"
    "rb_state t R me" "nodes R = Map.empty" "rb_map me = map_of (rev kvs)"
proof -
  from create_state [OF assms, where ?'b = 'b] obtain R0 me0 where
    0: "RedBlackTree_create kSize vSize (Some c) = Inr me0" "rb_state Lf R0 (me0 :: ('a, 'b) rbtree)"
      "nodes R0 = Map.empty" by blast
  have "rb_map me0 = Map.empty" by (simp add: rb_state_map [OF 0(2)])
  with puts_state [OF 0(2), of kvs] 0 that show thesis by auto
qed

lemma comparator_int: "comparator (\<lambda>x y :: int. x - y)"
  by (simp add: comparator_def)

lemma find_loop_more:
  "find_loop fuel key p me = Inr x \<Longrightarrow> fuel \<le> fuel' \<Longrightarrow> find_loop fuel' key p me = Inr x"
proof (induction fuel arbitrary: p fuel')
  case (Suc fuel)
  then obtain f where "fuel' = Suc f" "fuel \<le> f" by (cases fuel') auto
  with Suc show ?case by (auto simp: Let_def c_simps split: if_splits)
qed simp

text \<open>The tree the witnesses use.\<close>

definition example_tree :: "(int, int) rbtree res" where
  "example_tree = rbind (RedBlackTree_create 4 4 (Some (\<lambda>x y. x - y)))
     (rfold (\<lambda>(k, v). rb_put k v) [(7, 1), (3, 2), (9, 5)])"

lemma example_state:
  obtains t R me where "example_tree = Inr me" "rb_state t R me" "nodes R = Map.empty"
    "rb_map me = [3 \<mapsto> 2, 7 \<mapsto> 1, 9 \<mapsto> 5]"
proof -
  have "0 < (4 :: nat)" by simp
  from build_state [OF comparator_int this this, of "[(7, 1), (3, 2), (9, 5 :: int)]"] that show thesis
    unfolding example_tree_def by (auto simp: fun_upd_twist)
qed

text \<open>C8: \<open>RedBlackTree_put\<close> stores the value under its key, leaves every other key alone, returns the
  value the key had before (null for a new key), and keeps the tree a red-black search tree.\<close>

theorem RedBlackTree_put_updates:
  assumes "rb_inv me"
  shows "\<exists>me'. RedBlackTree_put key val me = Inr (rb_map me key, me') \<and> rb_inv me' \<and>
    rb_map me' = (rb_map me)(key \<mapsto> val)"
proof -
  from assms obtain t R where "rb_state t R me" by (rule rb_invE)
  from put_state [OF this, of key val] show ?thesis by (auto dest: rb_state_inv)
qed

theorem RedBlackTree_put_updates_witness:
  "\<exists>me me' :: (int, int) rbtree. RedBlackTree_create 4 4 (Some (\<lambda>x y. x - y)) = Inr me \<and>
     RedBlackTree_put 7 1 me = Inr (None, me') \<and> rb_map me' = [7 \<mapsto> 1]"
proof -
  from create_state [OF comparator_int, of 4 4, where ?'b = int] obtain R0 and me0 :: "(int, int) rbtree" where
    0: "RedBlackTree_create 4 4 (Some (\<lambda>x y. x - y)) = Inr me0" "rb_state Lf R0 me0" by auto
  have "rb_map me0 = Map.empty" by (simp add: rb_state_map [OF 0(2)])
  with RedBlackTree_put_updates [OF rb_state_inv [OF 0(2)], of 7 1] 0(1) show ?thesis by auto
qed

text \<open>C9: \<open>RedBlackTree_remove\<close> deletes exactly its key and returns the value stored there (null if there
  was none); the tree stays a red-black search tree.\<close>

theorem RedBlackTree_remove_deletes:
  assumes "rb_inv me"
  shows "\<exists>me'. RedBlackTree_remove key me = Inr (rb_map me key, me') \<and> rb_inv me' \<and>
    rb_map me' = (rb_map me)(key := None)"
proof -
  from assms obtain t R where "rb_state t R me" by (rule rb_invE)
  from remove_state [OF this, of key] show ?thesis by (auto dest: rb_state_inv)
qed

theorem RedBlackTree_remove_deletes_witness:
  "\<exists>me me'. example_tree = Inr me \<and> RedBlackTree_remove 7 me = Inr (Some 1, me') \<and>
     rb_map me' = [3 \<mapsto> 2, 9 \<mapsto> 5]"
proof (rule example_state)
  fix t R me
  assume e: "example_tree = Inr me" "rb_state t R me" "rb_map me = [3 \<mapsto> 2, 7 \<mapsto> 1, 9 \<mapsto> 5]"
  have "([3 \<mapsto> 2, 7 \<mapsto> 1, 9 \<mapsto> 5])(7 := None) = [3 \<mapsto> 2, (9 :: int) \<mapsto> (5 :: int)]" by (auto simp: fun_eq_iff)
  with RedBlackTree_remove_deletes [OF rb_state_inv [OF e(2)], of 7] e(1,3) show ?thesis by auto
qed

text \<open>C17: after any sequence of insertions into a new tree, \<open>RedBlackTree_get\<close> finds the last value
  written under a key, and null for a key never written.\<close>

theorem RedBlackTree_last_write_wins:
  fixes kvs :: "('k \<times> 'v) list"
  assumes "comparator c" "0 < kSize" "0 < vSize"
  shows "rbind (rbind (RedBlackTree_create kSize vSize (Some c)) (rfold (\<lambda>(k, v). rb_put k v) kvs))
    (RedBlackTree_get key) = Inr (map_of (rev kvs) key)"
proof -
  from create_state [OF assms, where ?'b = 'v] obtain R and me :: "('k, 'v) rbtree" where
    0: "RedBlackTree_create kSize vSize (Some c) = Inr me" "rb_state Lf R me" by blast
  have "rb_map me = Map.empty" by (simp add: rb_state_map [OF 0(2)])
  with rbt.lookup_after_puts [OF rb_state_inv [OF 0(2)] TrueI, of kvs key] 0(1) show ?thesis
    by (simp add: option.case_eq_if split: option.splits)
qed

theorem RedBlackTree_last_write_wins_witness:
  "rbind (rbind (RedBlackTree_create 4 4 (Some (\<lambda>x y. x - y))) (rfold (\<lambda>(k, v). rb_put k v) [(7, 1), (3, 2), (7, 8)]))
    (RedBlackTree_get (7 :: int)) = Inr (Some (8 :: int))"
  using RedBlackTree_last_write_wins [OF comparator_int, of 4 4 "[(7, 1), (3, 2), (7, 8)]" 7] by simp

text \<open>C16: \<open>RedBlackTree_forEach\<close> calls its callback once for every entry, in ascending key order.\<close>

theorem RedBlackTree_forEach_in_order:
  assumes "rb_inv me"
  shows "RedBlackTree_forEach iter data me = rfold (\<lambda>(k, v). iter k v) (entries me) data \<and>
    sorted_wrt (\<lambda>x y. compare me x y < 0) (map fst (entries me)) \<and> map_of (entries me) = rb_map me"
proof -
  from assms obtain t R where s: "rb_state t R me" "rep t R me" "ascending (compare R) (inord t)" "tree_of me = t"
    by (rule rb_invE)
  from forEach_rep [OF s(2), of iter data] s(3) rep_rest(2) [OF s(2)] show ?thesis
    by (simp add: entries_def s(4) ascending_def rb_state_map [OF s(1)] case_prod_unfold comp_def)
qed

theorem RedBlackTree_forEach_in_order_witness:
  "rbind example_tree (RedBlackTree_forEach (\<lambda>k v out. Inr (out @ [(k, v)])) []) =
   Inr [(3, 2), (7, 1), (9, 5)]"
proof (rule example_state)
  fix t R me
  assume e: "example_tree = Inr me" "rb_state t R me"
  have "rbind example_tree (\<lambda>me. Inr (entries me)) = Inr [(3, 2), (7, 1), (9, 5)]" by code_simp
  then have "entries me = [(3, 2), (7, 1), (9, 5)]" unfolding e(1) by simp
  with RedBlackTree_forEach_in_order [OF rb_state_inv [OF e(2)], of "\<lambda>k v out. Inr (out @ [(k, v)])" "[]"]
  show ?thesis unfolding e(1) by simp
qed





end
