(* ===== verification/AwfyJson.thy ===== *)
theory AwfyJson
  imports AwfyRun "HOL-Library.Word"
begin

text \<open>
  \<open>Json.c\<close>: the JSON values, the object's hash index over name lengths, the growing string buffer and the
  recursive-descent parser. A value is a HOL value; the two vectors of an object and the one of an array
  are the lists of their cells (\<open>Vector_append\<close>, \<open>Vector_at\<close> and \<open>Vector_size\<close> are the only operations used
  on them). The buffer is the list of its bytes, \<open>None\<close> where nothing was written, so that a write past
  the allocation is a fault. A loop over the input has fuel for one turn more than the input has bytes;
  a loop that takes more turns has run off the end, where nothing changes any more.
\<close>

section \<open>Values and their method tables\<close>

record hash_index_table =
  hashTable :: "int list"
  table_len :: int

datatype json =
    JsonObject "string list" "json list" hash_index_table
  | JsonArray "json list"
  | JsonString string
  | JsonNumber string
  | JsonLiteral string

record vtable =
  vt_isObject :: "json \<Rightarrow> bool"
  vt_isArray :: "json \<Rightarrow> bool"
  vt_isNumber :: "json \<Rightarrow> bool"
  vt_isString :: "json \<Rightarrow> bool"
  vt_isBoolean :: "json \<Rightarrow> bool"
  vt_isTrue :: "json \<Rightarrow> bool"
  vt_isFalse :: "json \<Rightarrow> bool"
  vt_isNull :: "json \<Rightarrow> bool"
  vt_asObject :: "json \<Rightarrow> json res"
  vt_asArray :: "json \<Rightarrow> json res"

definition JsonValue_vtbl :: vtable where
  "JsonValue_vtbl =
     \<lparr>vt_isObject = (\<lambda>me. False), vt_isArray = (\<lambda>me. False), vt_isNumber = (\<lambda>me. False),
      vt_isString = (\<lambda>me. False), vt_isBoolean = (\<lambda>me. False), vt_isTrue = (\<lambda>me. False),
      vt_isFalse = (\<lambda>me. False), vt_isNull = (\<lambda>me. False),
      vt_asObject = (\<lambda>me. Inl AssertFailed), vt_asArray = (\<lambda>me. Inl AssertFailed)\<rparr>"

definition JsonObject_vtbl :: vtable where
  "JsonObject_vtbl = JsonValue_vtbl\<lparr>vt_isObject := (\<lambda>me. True), vt_asObject := (\<lambda>me. Inr me)\<rparr>"

definition JsonArray_vtbl :: vtable where
  "JsonArray_vtbl = JsonValue_vtbl\<lparr>vt_isArray := (\<lambda>me. True), vt_asArray := (\<lambda>me. Inr me)\<rparr>"

definition JsonString_vtbl :: vtable where
  "JsonString_vtbl = JsonValue_vtbl\<lparr>vt_isString := (\<lambda>me. True)\<rparr>"

definition JsonNumber_vtbl :: vtable where
  "JsonNumber_vtbl = JsonValue_vtbl\<lparr>vt_isNumber := (\<lambda>me. True)\<rparr>"

text \<open>The three flags of a literal are comparisons of its text.\<close>

definition JsonLiteral_vtbl :: vtable where
  "JsonLiteral_vtbl = JsonValue_vtbl
     \<lparr>vt_isBoolean := (\<lambda>me. me = JsonLiteral ''true'' \<or> me = JsonLiteral ''false''),
      vt_isTrue := (\<lambda>me. me = JsonLiteral ''true''),
      vt_isFalse := (\<lambda>me. me = JsonLiteral ''false''),
      vt_isNull := (\<lambda>me. me = JsonLiteral ''null'')\<rparr>"

fun vtbl :: "json \<Rightarrow> vtable" where
  "vtbl (JsonObject ns vs t) = JsonObject_vtbl"
| "vtbl (JsonArray vs) = JsonArray_vtbl"
| "vtbl (JsonString s) = JsonString_vtbl"
| "vtbl (JsonNumber s) = JsonNumber_vtbl"
| "vtbl (JsonLiteral s) = JsonLiteral_vtbl"

section \<open>Objects and arrays\<close>

definition HashIndexTable_init :: hash_index_table where
  "HashIndexTable_init = \<lparr>hashTable = replicate 32 0, table_len = 32\<rparr>"

text \<open>\<open>strlen(s) * 1402589\<close> is a \<open>size_t\<close>, cut to \<open>int\<close> on return; \<open>len\<close> is a power of two.\<close>

definition HashIndexTable_stringHash :: "string \<Rightarrow> 32 word" where
  "HashIndexTable_stringHash s = of_nat (length s) * 1402589"

definition HashIndexTable_hashSlotFor :: "hash_index_table \<Rightarrow> string \<Rightarrow> int" where
  "HashIndexTable_hashSlotFor me element =
     uint (and (HashIndexTable_stringHash element) (word_of_int (table_len me - 1)))"

definition HashIndexTable_get :: "hash_index_table \<Rightarrow> string \<Rightarrow> int res" where
  "HashIndexTable_get me name =
     rbind (arr_get (hashTable me) (HashIndexTable_hashSlotFor me name)) (\<lambda>e. Inr (e mod 256 - 1))"

definition HashIndexTable_add :: "hash_index_table \<Rightarrow> string \<Rightarrow> int \<Rightarrow> hash_index_table res" where
  "HashIndexTable_add me name index =
     rbind (arr_set (hashTable me) (HashIndexTable_hashSlotFor me name)
              (if index < 255 then (index + 1) mod 256 else 0))
       (\<lambda>t. Inr (me\<lparr>hashTable := t\<rparr>))"

definition JsonObject_create :: json where
  "JsonObject_create = JsonObject [] [] HashIndexTable_init"

fun JsonObject_add :: "json \<Rightarrow> string \<Rightarrow> json \<Rightarrow> json res" where
  "JsonObject_add (JsonObject names values table) name value =
     (if length name = 0 then Inl AssertFailed
      else rbind (HashIndexTable_add table name (int (length names))) (\<lambda>table.
             Inr (JsonObject (names @ [name]) (values @ [value]) table)))"
| "JsonObject_add me name value = Inl AssertFailed"

fun JsonObject_indexOf :: "json \<Rightarrow> string \<Rightarrow> int res" where
  "JsonObject_indexOf (JsonObject names values table) name =
     rbind (HashIndexTable_get table name) (\<lambda>index.
       if index \<noteq> -1 then
         rbind (arr_get names index) (\<lambda>n. if name = n then Inr index else Inl AssertFailed)
       else Inl AssertFailed)"
| "JsonObject_indexOf me name = Inl AssertFailed"

fun JsonObject_get :: "json \<Rightarrow> string \<Rightarrow> json option res" where
  "JsonObject_get (JsonObject names values table) name =
     (if length name = 0 then Inl AssertFailed
      else rbind (JsonObject_indexOf (JsonObject names values table) name) (\<lambda>index.
             if index = -1 then Inr None else rbind (arr_get values index) (\<lambda>v. Inr (Some v))))"
| "JsonObject_get me name = Inl AssertFailed"

fun JsonObject_size :: "json \<Rightarrow> int res" where
  "JsonObject_size (JsonObject names values table) = Inr (int (length names))"
| "JsonObject_size me = Inl AssertFailed"

fun JsonObject_isEmpty :: "json \<Rightarrow> bool res" where
  "JsonObject_isEmpty (JsonObject names values table) = Inr (names = [])"
| "JsonObject_isEmpty me = Inl AssertFailed"

definition JsonArray_create :: json where
  "JsonArray_create = JsonArray []"

fun JsonArray_add :: "json \<Rightarrow> json \<Rightarrow> json res" where
  "JsonArray_add (JsonArray values) value = Inr (JsonArray (values @ [value]))"
| "JsonArray_add me value = Inl AssertFailed"

fun JsonArray_size :: "json \<Rightarrow> int res" where
  "JsonArray_size (JsonArray values) = Inr (int (length values))"
| "JsonArray_size me = Inl AssertFailed"

fun JsonArray_get :: "json \<Rightarrow> int \<Rightarrow> json res" where
  "JsonArray_get (JsonArray values) index = arr_get values index"
| "JsonArray_get me index = Inl AssertFailed"

definition JsonString_create :: "string \<Rightarrow> json" where
  "JsonString_create str = JsonString str"

definition JsonNumber_create :: "string \<Rightarrow> json res" where
  "JsonNumber_create str = (if length str = 0 then Inl AssertFailed else Inr (JsonNumber str))"

definition JsonLiteral_create :: "string \<Rightarrow> json" where
  "JsonLiteral_create value = JsonLiteral value"

section \<open>The string buffer\<close>

record string_buffer =
  buf :: "char option list option"
  buf_len :: int
  buf_pos :: int

definition StringBuffer_init :: string_buffer where
  "StringBuffer_init = \<lparr>buf = None, buf_len = 0, buf_pos = 0\<rparr>"

text \<open>\<open>memcpy\<close> into a buffer at an offset.\<close>

definition memcpy_at :: "char option list \<Rightarrow> int \<Rightarrow> string \<Rightarrow> char option list res" where
  "memcpy_at b p s =
     (if 0 \<le> p \<and> p + int (length s) \<le> int (length b)
      then Inr (take (nat p) b @ map Some s @ drop (nat p + length s) b)
      else Inl OutOfBounds)"

definition StringBuffer_append :: "string_buffer \<Rightarrow> string \<Rightarrow> string_buffer res" where
  "StringBuffer_append me str =
     (let len = int (length str) in
      case buf me of
        None \<Rightarrow>
          rbind (c_int (2 * len)) (\<lambda>n.
          rbind (memcpy_at (replicate (nat n) None) 0 str) (\<lambda>b.
            Inr (me\<lparr>buf := Some b, buf_len := n, buf_pos := len\<rparr>)))
      | Some b \<Rightarrow>
          rbind (if buf_pos me + len + 1 > buf_len me then
                   rbind (c_int (buf_len me * 2)) (\<lambda>n.
                     Inr (me\<lparr>buf := Some (take (nat n) b @ replicate (nat n - length b) None), buf_len := n\<rparr>))
                 else Inr me) (\<lambda>me.
          rbind (memcpy_at (the (buf me)) (buf_pos me) str) (\<lambda>b.
          rbind (c_int (buf_pos me + len)) (\<lambda>p. Inr (me\<lparr>buf := Some b, buf_pos := p\<rparr>)))))"

text \<open>The C string in a buffer: the bytes before the first NUL.\<close>

fun c_string :: "char option list \<Rightarrow> string res" where
  "c_string [] = Inl OutOfBounds"
| "c_string (None # b) = Inl Uninitialised"
| "c_string (Some c # b) = (if c = CHR 0x00 then Inr [] else rbind (c_string b) (\<lambda>s. Inr (c # s)))"

section \<open>The parser's input\<close>

record parser =
  p_input :: string
  p_len :: int
  index :: int
  line :: int
  column :: int
  current :: char
  captureBuffer :: string_buffer
  captureStart :: int
  p_NULL :: json
  p_TRUE :: json
  p_FALSE :: json

definition JsonPureStringParser_init :: "string \<Rightarrow> parser res" where
  "JsonPureStringParser_init s =
     rbind (c_int (int (length s))) (\<lambda>len.
       Inr \<lparr>p_input = s, p_len = len, index = -1, line = 1, column = 0, current = CHR 0x00,
            captureBuffer = StringBuffer_init, captureStart = -1, p_NULL = JsonLiteral_create ''null'',
            p_TRUE = JsonLiteral_create ''true'', p_FALSE = JsonLiteral_create ''false''\<rparr>)"

definition JsonPureStringParser_isWhiteSpace :: "parser \<Rightarrow> bool" where
  "JsonPureStringParser_isWhiteSpace me =
     (current me = CHR '' '' \<or> current me = CHR 0x09 \<or> current me = CHR 0x0A \<or> current me = CHR 0x0D)"

definition JsonPureStringParser_isDigit :: "parser \<Rightarrow> bool" where
  "JsonPureStringParser_isDigit me = (current me \<in> set ''0123456789'')"

definition JsonPureStringParser_read :: "parser \<Rightarrow> parser res" where
  "JsonPureStringParser_read me =
     rbind (if current me = CHR 0x0A
            then rbind (c_int (line me + 1)) (\<lambda>l. Inr (me\<lparr>line := l, column := 0\<rparr>)) else Inr me) (\<lambda>me.
     rbind (c_int (index me + 1)) (\<lambda>i.
     if i < p_len me then rbind (arr_get (p_input me) i) (\<lambda>c. Inr (me\<lparr>index := i, current := c\<rparr>))
     else Inr (me\<lparr>index := i, current := CHR 0x00\<rparr>)))"

definition JsonPureStringParser_readChar :: "char \<Rightarrow> parser \<Rightarrow> (bool \<times> parser) res" where
  "JsonPureStringParser_readChar ch me =
     (if current me \<noteq> ch then Inr (False, me)
      else rbind (JsonPureStringParser_read me) (\<lambda>me. Inr (True, me)))"

definition JsonPureStringParser_readRequiredChar :: "char \<Rightarrow> parser \<Rightarrow> parser res" where
  "JsonPureStringParser_readRequiredChar ch me =
     rbind (JsonPureStringParser_readChar ch me) (\<lambda>(b, me). if \<not> b then Inl AssertFailed else Inr me)"

definition JsonPureStringParser_readDigit :: "parser \<Rightarrow> (bool \<times> parser) res" where
  "JsonPureStringParser_readDigit me =
     (if \<not> JsonPureStringParser_isDigit me then Inr (False, me)
      else rbind (JsonPureStringParser_read me) (\<lambda>me. Inr (True, me)))"

fun skip_loop :: "nat \<Rightarrow> parser \<Rightarrow> parser res" where
  "skip_loop 0 me = Inl OutOfFuel"
| "skip_loop (Suc fuel) me =
     (if JsonPureStringParser_isWhiteSpace me
      then rbind (JsonPureStringParser_read me) (skip_loop fuel) else Inr me)"

definition input_fuel :: "parser \<Rightarrow> nat" where
  "input_fuel me = Suc (Suc (length (p_input me)))"

definition JsonPureStringParser_skipWhiteSpace :: "parser \<Rightarrow> parser res" where
  "JsonPureStringParser_skipWhiteSpace me = skip_loop (input_fuel me) me"

fun digits_loop :: "nat \<Rightarrow> parser \<Rightarrow> parser res" where
  "digits_loop 0 me = Inl OutOfFuel"
| "digits_loop (Suc fuel) me =
     rbind (JsonPureStringParser_readDigit me) (\<lambda>(b, me). if b then digits_loop fuel me else Inr me)"

section \<open>Captures and strings\<close>

definition JsonPureStringParser_startCapture :: "parser \<Rightarrow> parser" where
  "JsonPureStringParser_startCapture me = me\<lparr>captureStart := index me\<rparr>"

text \<open>The captured text is read from the input, whose terminating NUL may be part of it.\<close>

definition captured_text :: "parser \<Rightarrow> string res" where
  "captured_text me =
     (let end = (if current me = CHR 0x00 then index me else index me - 1);
          len = end + 1 - captureStart me in
      if 0 \<le> captureStart me \<and> 0 \<le> len \<and> captureStart me + len \<le> int (length (p_input me)) + 1
      then Inr (take (nat len) (drop (nat (captureStart me)) (p_input me @ [CHR 0x00])))
      else Inl OutOfBounds)"

definition JsonPureStringParser_pauseCapture :: "parser \<Rightarrow> parser res" where
  "JsonPureStringParser_pauseCapture me =
     rbind (captured_text me) (\<lambda>t.
     rbind (StringBuffer_append (captureBuffer me) t) (\<lambda>b.
       Inr (me\<lparr>captureBuffer := b, captureStart := -1\<rparr>)))"

definition JsonPureStringParser_endCapture :: "parser \<Rightarrow> (string \<times> parser) res" where
  "JsonPureStringParser_endCapture me =
     rbind (captured_text me) (\<lambda>t.
     rbind (StringBuffer_append (captureBuffer me) t) (\<lambda>b.
     rbind (arr_set (the (buf b)) (buf_pos b) (Some (CHR 0x00))) (\<lambda>captured.
     rbind (c_string captured) (\<lambda>s.
       Inr (s, me\<lparr>captureBuffer := StringBuffer_init, captureStart := -1\<rparr>)))))"

text \<open>The character an escape stands for.\<close>

definition escape_char :: "char \<Rightarrow> char res" where
  "escape_char c =
     (if c = CHR 0x22 \<or> c = CHR ''/'' \<or> c = CHR 0x5C then Inr c
      else if c = CHR ''b'' then Inr (CHR 0x08)
      else if c = CHR ''f'' then Inr (CHR 0x0C)
      else if c = CHR ''n'' then Inr (CHR 0x0A)
      else if c = CHR ''r'' then Inr (CHR 0x0D)
      else if c = CHR ''t'' then Inr (CHR 0x09)
      else Inl AssertFailed)"

definition JsonPureStringParser_readEscape :: "parser \<Rightarrow> parser res" where
  "JsonPureStringParser_readEscape me =
     rbind (JsonPureStringParser_read me) (\<lambda>me.
     rbind (escape_char (current me)) (\<lambda>c.
     rbind (StringBuffer_append (captureBuffer me) [c]) (\<lambda>b.
       JsonPureStringParser_read (me\<lparr>captureBuffer := b\<rparr>))))"

fun string_loop :: "nat \<Rightarrow> parser \<Rightarrow> parser res" where
  "string_loop 0 me = Inl OutOfFuel"
| "string_loop (Suc fuel) me =
     (if current me \<noteq> CHR 0x22 then
        if current me = CHR 0x5C then
          rbind (JsonPureStringParser_pauseCapture me) (\<lambda>me.
          rbind (JsonPureStringParser_readEscape me) (\<lambda>me.
            string_loop fuel (JsonPureStringParser_startCapture me)))
        else rbind (JsonPureStringParser_read me) (string_loop fuel)
      else Inr me)"

definition JsonPureStringParser_readStringInternal :: "parser \<Rightarrow> (string \<times> parser) res" where
  "JsonPureStringParser_readStringInternal me =
     rbind (JsonPureStringParser_read me) (\<lambda>me.
     rbind (string_loop (input_fuel me) (JsonPureStringParser_startCapture me)) (\<lambda>me.
     rbind (JsonPureStringParser_endCapture me) (\<lambda>(string, me).
     rbind (JsonPureStringParser_read me) (\<lambda>me. Inr (string, me)))))"

section \<open>Numbers and names\<close>

definition JsonPureStringParser_readFraction :: "parser \<Rightarrow> (bool \<times> parser) res" where
  "JsonPureStringParser_readFraction me =
     rbind (JsonPureStringParser_readChar (CHR ''.'') me) (\<lambda>(b, me).
       if \<not> b then Inr (False, me)
       else rbind (JsonPureStringParser_readDigit me) (\<lambda>(b, me).
              if \<not> b then Inl AssertFailed
              else rbind (digits_loop (input_fuel me) me) (\<lambda>me. Inr (True, me))))"

definition JsonPureStringParser_readExponent :: "parser \<Rightarrow> (bool \<times> parser) res" where
  "JsonPureStringParser_readExponent me =
     rbind (JsonPureStringParser_readChar (CHR ''e'') me) (\<lambda>(b, me).
     rbind (if b then Inr (True, me) else JsonPureStringParser_readChar (CHR ''E'') me) (\<lambda>(b, me).
       if \<not> b then Inr (False, me)
       else
         rbind (JsonPureStringParser_readChar (CHR ''+'') me) (\<lambda>(b, me).
         rbind (if b then Inr (True, me) else JsonPureStringParser_readChar (CHR ''-'') me) (\<lambda>(b, me).
         rbind (JsonPureStringParser_readDigit me) (\<lambda>(b, me).
           if \<not> b then Inl AssertFailed
           else rbind (digits_loop (input_fuel me) me) (\<lambda>me. Inr (True, me)))))))"

definition JsonPureStringParser_readNumber :: "parser \<Rightarrow> (json \<times> parser) res" where
  "JsonPureStringParser_readNumber me =
     rbind (JsonPureStringParser_readChar (CHR ''-'') (JsonPureStringParser_startCapture me)) (\<lambda>(b, me).
     let firstDigit = current me in
     rbind (JsonPureStringParser_readDigit me) (\<lambda>(b, me).
       if \<not> b then Inl AssertFailed
       else
         rbind (if firstDigit \<noteq> CHR ''0'' then digits_loop (input_fuel me) me else Inr me) (\<lambda>me.
         rbind (JsonPureStringParser_readFraction me) (\<lambda>(b, me).
         rbind (JsonPureStringParser_readExponent me) (\<lambda>(b, me).
         rbind (JsonPureStringParser_endCapture me) (\<lambda>(s, me).
         rbind (JsonNumber_create s) (\<lambda>v. Inr (v, me))))))))"

definition JsonPureStringParser_readName :: "parser \<Rightarrow> (string \<times> parser) res" where
  "JsonPureStringParser_readName me =
     (if current me \<noteq> CHR 0x22 then Inl AssertFailed else JsonPureStringParser_readStringInternal me)"

definition JsonPureStringParser_readString :: "parser \<Rightarrow> (json \<times> parser) res" where
  "JsonPureStringParser_readString me =
     rbind (JsonPureStringParser_readStringInternal me) (\<lambda>(s, me). Inr (JsonString_create s, me))"

definition JsonPureStringParser_readNull :: "parser \<Rightarrow> (json \<times> parser) res" where
  "JsonPureStringParser_readNull me =
     rbind (JsonPureStringParser_read me) (\<lambda>me.
     rbind (JsonPureStringParser_readRequiredChar (CHR ''u'') me) (\<lambda>me.
     rbind (JsonPureStringParser_readRequiredChar (CHR ''l'') me) (\<lambda>me.
     rbind (JsonPureStringParser_readRequiredChar (CHR ''l'') me) (\<lambda>me. Inr (p_NULL me, me)))))"

definition JsonPureStringParser_readTrue :: "parser \<Rightarrow> (json \<times> parser) res" where
  "JsonPureStringParser_readTrue me =
     rbind (JsonPureStringParser_read me) (\<lambda>me.
     rbind (JsonPureStringParser_readRequiredChar (CHR ''r'') me) (\<lambda>me.
     rbind (JsonPureStringParser_readRequiredChar (CHR ''u'') me) (\<lambda>me.
     rbind (JsonPureStringParser_readRequiredChar (CHR ''e'') me) (\<lambda>me. Inr (p_TRUE me, me)))))"

definition JsonPureStringParser_readFalse :: "parser \<Rightarrow> (json \<times> parser) res" where
  "JsonPureStringParser_readFalse me =
     rbind (JsonPureStringParser_read me) (\<lambda>me.
     rbind (JsonPureStringParser_readRequiredChar (CHR ''a'') me) (\<lambda>me.
     rbind (JsonPureStringParser_readRequiredChar (CHR ''l'') me) (\<lambda>me.
     rbind (JsonPureStringParser_readRequiredChar (CHR ''s'') me) (\<lambda>me.
     rbind (JsonPureStringParser_readRequiredChar (CHR ''e'') me) (\<lambda>me. Inr (p_FALSE me, me))))))"

section \<open>Arrays, objects and values\<close>

text \<open>
  The mutual recursion of \<open>readValue\<close>, \<open>readArray\<close> and \<open>readObject\<close>, with one unit of fuel per call or
  turn of a loop; every second unit reads a byte of the input.
\<close>

fun JsonPureStringParser_readValue :: "nat \<Rightarrow> parser \<Rightarrow> (json \<times> parser) res"
  and array_loop :: "nat \<Rightarrow> json \<Rightarrow> parser \<Rightarrow> (json \<times> parser) res"
  and object_loop :: "nat \<Rightarrow> json \<Rightarrow> parser \<Rightarrow> (json \<times> parser) res" where
  "JsonPureStringParser_readValue 0 me = Inl OutOfFuel"
| "JsonPureStringParser_readValue (Suc fuel) me =
     (let c = current me in
      if c = CHR ''n'' then JsonPureStringParser_readNull me
      else if c = CHR ''t'' then JsonPureStringParser_readTrue me
      else if c = CHR ''f'' then JsonPureStringParser_readFalse me
      else if c = CHR 0x22 then JsonPureStringParser_readString me
      else if c = CHR ''['' then
        rbind (JsonPureStringParser_read me) (\<lambda>me.
        rbind (JsonPureStringParser_skipWhiteSpace me) (\<lambda>me.
        rbind (JsonPureStringParser_readChar (CHR '']'') me) (\<lambda>(b, me).
          if b then Inr (JsonArray_create, me) else array_loop fuel JsonArray_create me)))
      else if c = CHR ''{'' then
        rbind (JsonPureStringParser_read me) (\<lambda>me.
        rbind (JsonPureStringParser_skipWhiteSpace me) (\<lambda>me.
        rbind (JsonPureStringParser_readChar (CHR ''}'') me) (\<lambda>(b, me).
          if b then Inr (JsonObject_create, me) else object_loop fuel JsonObject_create me)))
      else if c \<in> set ''-0123456789'' then JsonPureStringParser_readNumber me
      else Inl AssertFailed)"
| "array_loop 0 array me = Inl OutOfFuel"
| "array_loop (Suc fuel) array me =
     rbind (JsonPureStringParser_skipWhiteSpace me) (\<lambda>me.
     rbind (JsonPureStringParser_readValue fuel me) (\<lambda>(v, me).
     rbind (JsonArray_add array v) (\<lambda>array.
     rbind (JsonPureStringParser_skipWhiteSpace me) (\<lambda>me.
     rbind (JsonPureStringParser_readChar (CHR '','') me) (\<lambda>(b, me).
       if b then array_loop fuel array me
       else rbind (JsonPureStringParser_readChar (CHR '']'') me) (\<lambda>(b, me).
              if \<not> b then Inl AssertFailed else Inr (array, me)))))))"
| "object_loop 0 obj me = Inl OutOfFuel"
| "object_loop (Suc fuel) obj me =
     rbind (JsonPureStringParser_skipWhiteSpace me) (\<lambda>me.
     rbind (JsonPureStringParser_readName me) (\<lambda>(name, me).
     rbind (JsonPureStringParser_skipWhiteSpace me) (\<lambda>me.
     rbind (JsonPureStringParser_readChar (CHR '':'') me) (\<lambda>(b, me).
       if \<not> b then Inl AssertFailed
       else
         rbind (JsonPureStringParser_skipWhiteSpace me) (\<lambda>me.
         rbind (JsonPureStringParser_readValue fuel me) (\<lambda>(v, me).
         rbind (JsonObject_add obj name v) (\<lambda>obj.
         rbind (JsonPureStringParser_skipWhiteSpace me) (\<lambda>me.
         rbind (JsonPureStringParser_readChar (CHR '','') me) (\<lambda>(b, me).
           if b then object_loop fuel obj me
           else rbind (JsonPureStringParser_readChar (CHR ''}'') me) (\<lambda>(b, me).
                  if \<not> b then Inl AssertFailed else Inr (obj, me)))))))))))"

definition JsonPureStringParser_isEndOfText :: "parser \<Rightarrow> bool" where
  "JsonPureStringParser_isEndOfText me = (current me = CHR 0x00)"

definition JsonPureStringParser_parse :: "parser \<Rightarrow> (json \<times> parser) res" where
  "JsonPureStringParser_parse me =
     rbind (JsonPureStringParser_read me) (\<lambda>me.
     rbind (JsonPureStringParser_skipWhiteSpace me) (\<lambda>me.
     rbind (JsonPureStringParser_readValue (2 * input_fuel me) me) (\<lambda>(result, me).
     rbind (JsonPureStringParser_skipWhiteSpace me) (\<lambda>me.
       if \<not> JsonPureStringParser_isEndOfText me then Inl AssertFailed else Inr (result, me)))))"

section \<open>The benchmark\<close>

text \<open>
  The state is the global \<open>result\<close>, null before the first run. The text that is parsed, a document of
  24 KB in the source, is an argument.
\<close>

definition json_benchmark :: "string \<Rightarrow> json option \<Rightarrow> (int \<times> json option) res" where
  "json_benchmark text result =
     rbind (JsonPureStringParser_init text) (\<lambda>p.
     rbind (JsonPureStringParser_parse p) (\<lambda>(v, p). Inr (0, Some v)))"

definition json_verifyResult :: "json option \<Rightarrow> bool res" where
  "json_verifyResult result =
     (case result of
        None \<Rightarrow> Inr False
      | Some v \<Rightarrow>
          if \<not> vt_isObject (vtbl v) v then Inr False
          else
            rbind (vt_asObject (vtbl v) v) (\<lambda>obj.
            rbind (JsonObject_get obj ''head'') (\<lambda>tmp.
            case tmp of None \<Rightarrow> Inl NullDeref | Some tmp \<Rightarrow>
            if \<not> vt_isObject (vtbl tmp) tmp then Inr False
            else
              rbind (JsonObject_get obj ''operations'') (\<lambda>tmp.
              case tmp of None \<Rightarrow> Inl NullDeref | Some tmp \<Rightarrow>
              if \<not> vt_isArray (vtbl tmp) tmp then Inr False
              else
                rbind (vt_asArray (vtbl tmp) tmp) (\<lambda>a.
                rbind (JsonArray_size a) (\<lambda>n. Inr (n = 156)))))))"

end
