(* ===== verification/JsonParse.thy ===== *)
theory JsonParse
  imports AwfyJson
begin

text \<open>
  The JSON parser against the grammar: where the parser stands in its input (\<open>at\<close>), the texts of the
  grammar without escapes and empty strings (\<open>json_text\<close>), and that the parser reads each of them back.
\<close>

section \<open>The position in the input\<close>

definition cur :: "string \<Rightarrow> char" where
  "cur rest = (case rest of [] \<Rightarrow> CHR 0x00 | c # cs \<Rightarrow> c)"

lemma cur_simps [simp]: "cur [] = CHR 0x00" "cur (c # cs) = c"
  by (simp_all add: cur_def)

lemma cur_append: "cur (xs @ ys) = (if xs = [] then cur ys else cur xs)"
  by (cases xs) auto

definition at :: "string_buffer \<Rightarrow> int \<Rightarrow> string \<Rightarrow> string \<Rightarrow> parser \<Rightarrow> bool" where
  "at b s pre rest me \<longleftrightarrow>
     p_input me = pre @ rest \<and> p_len me = int (length (pre @ rest)) \<and> index me = int (length pre) \<and>
     current me = cur rest \<and> captureBuffer me = b \<and> captureStart me = s \<and>
     1 \<le> line me \<and> line me \<le> int (length pre) + 1 \<and>
     p_NULL me = JsonLiteral ''null'' \<and> p_TRUE me = JsonLiteral ''true'' \<and> p_FALSE me = JsonLiteral ''false'' \<and>
     2 * int (length (pre @ rest)) + 2 \<le> INT_MAX"

lemma at_current: "at b s pre rest me \<Longrightarrow> current me = cur rest"
  by (simp add: at_def)

lemma read_at:
  assumes "at b s pre (c # rest) me"
  shows "ok (JsonPureStringParser_read me) (at b s (pre @ [c]) rest)"
  using assms
  by (cases rest) (auto simp: at_def JsonPureStringParser_read_def c_int_def arr_get_def nth_append INT_MAX_def)

lemma readChar_at:
  assumes "at b s pre (c # rest) me"
  shows "ok (JsonPureStringParser_readChar c me) (\<lambda>(r, me). r \<and> at b s (pre @ [c]) rest me)"
  using assms read_at [OF assms] unfolding JsonPureStringParser_readChar_def by (simp add: at_current)

lemma readChar_not:
  assumes "at b s pre rest me" "cur rest \<noteq> c"
  shows "JsonPureStringParser_readChar c me = Inr (False, me)"
  using assms by (simp add: JsonPureStringParser_readChar_def at_current)

lemma required_at:
  assumes "at b s pre (c # rest) me"
  shows "ok (JsonPureStringParser_readRequiredChar c me) (at b s (pre @ [c]) rest)"
  unfolding JsonPureStringParser_readRequiredChar_def
  by (rule ok_step [OF readChar_at [OF assms]]) auto

definition blanks :: "string \<Rightarrow> bool" where
  "blanks w \<longleftrightarrow> set w \<subseteq> {CHR '' '', CHR 0x09, CHR 0x0A, CHR 0x0D}"

lemma blanks_simps [simp]: "blanks []" "blanks (c # w) \<longleftrightarrow> c \<in> {CHR '' '', CHR 0x09, CHR 0x0A, CHR 0x0D} \<and> blanks w"
  by (auto simp: blanks_def)

lemma skip_loop_at:
  "at b s pre (w @ rest) me \<Longrightarrow> blanks w \<Longrightarrow> \<not> blanks [cur rest] \<Longrightarrow> length w < fuel \<Longrightarrow>
   ok (skip_loop fuel me) (at b s (pre @ w) rest)"
proof (induction w arbitrary: pre fuel me)
  case Nil
  then show ?case by (cases fuel) (auto simp: JsonPureStringParser_isWhiteSpace_def at_current)
next
  case (Cons c w)
  obtain f where f: "fuel = Suc f" "length w < f" using Cons.prems(4) by (cases fuel) auto
  have "JsonPureStringParser_isWhiteSpace me"
    using Cons.prems(1,2) by (auto simp: JsonPureStringParser_isWhiteSpace_def at_current)
  moreover have "ok (skip_loop f me') (at b s (pre @ c # w) rest)" if "at b s (pre @ [c]) (w @ rest) me'" for me'
    using Cons.IH [OF that] Cons.prems(2,3) f by simp
  ultimately show ?case
    using read_at [of b s pre c "w @ rest" me] Cons.prems(1) f by (auto intro: ok_step)
qed

lemma input_fuel_at: "at b s pre rest me \<Longrightarrow> input_fuel me = Suc (Suc (length pre + length rest))"
  by (simp add: input_fuel_def at_def)

lemma skip_at:
  assumes "at b s pre (w @ rest) me" "blanks w" "\<not> blanks [cur rest]"
  shows "ok (JsonPureStringParser_skipWhiteSpace me) (at b s (pre @ w) rest)"
  unfolding JsonPureStringParser_skipWhiteSpace_def
  by (rule skip_loop_at [OF assms]) (simp add: input_fuel_at [OF assms(1)])

lemma skip_none:
  assumes "at b s pre rest me" "\<not> blanks [cur rest]"
  shows "ok (JsonPureStringParser_skipWhiteSpace me) (at b s pre rest)"
  using skip_at [of b s pre "[]" rest me] assms by simp

definition digit :: "char \<Rightarrow> bool" where
  "digit c \<longleftrightarrow> c \<in> set ''0123456789''"

lemma readDigit_at:
  assumes "at b s pre (c # rest) me" "digit c"
  shows "ok (JsonPureStringParser_readDigit me) (\<lambda>(r, me). r \<and> at b s (pre @ [c]) rest me)"
  using assms(2) at_current [OF assms(1)] read_at [OF assms(1)]
  unfolding JsonPureStringParser_readDigit_def JsonPureStringParser_isDigit_def digit_def [symmetric] by simp

lemma readDigit_not:
  assumes "at b s pre rest me" "\<not> digit (cur rest)"
  shows "JsonPureStringParser_readDigit me = Inr (False, me)"
  using assms by (simp add: JsonPureStringParser_readDigit_def JsonPureStringParser_isDigit_def digit_def at_current)

lemma digits_loop_at:
  "at b s pre (ds @ rest) me \<Longrightarrow> list_all digit ds \<Longrightarrow> \<not> digit (cur rest) \<Longrightarrow> length ds < fuel \<Longrightarrow>
   ok (digits_loop fuel me) (at b s (pre @ ds) rest)"
proof (induction ds arbitrary: pre fuel me)
  case Nil
  then show ?case by (cases fuel) (auto simp: readDigit_not)
next
  case (Cons c ds)
  obtain f where f: "fuel = Suc f" "length ds < f" using Cons.prems(4) by (cases fuel) auto
  have "ok (digits_loop f me') (at b s (pre @ c # ds) rest)" if "at b s (pre @ [c]) (ds @ rest) me'" for me'
    using Cons.IH [OF that] Cons.prems(2,3) f by simp
  then show ?case
    using readDigit_at [of b s pre c "ds @ rest" me] Cons.prems(1,2) f by (auto intro!: ok_step)
qed

section \<open>Strings\<close>

text \<open>The strings that need no escape: not empty, and without quotes, backslashes and NUL.\<close>

definition plain :: "string \<Rightarrow> bool" where
  "plain t \<longleftrightarrow> t \<noteq> [] \<and> CHR 0x22 \<notin> set t \<and> CHR 0x5C \<notin> set t \<and> CHR 0x00 \<notin> set t"

lemma startCapture_at:
  "at b s pre rest me \<Longrightarrow> at b (int (length pre)) pre rest (JsonPureStringParser_startCapture me)"
  by (simp add: at_def JsonPureStringParser_startCapture_def)

lemma string_loop_at:
  "at b s pre (t @ CHR 0x22 # rest) me \<Longrightarrow> CHR 0x22 \<notin> set t \<Longrightarrow> CHR 0x5C \<notin> set t \<Longrightarrow> length t < fuel \<Longrightarrow>
   ok (string_loop fuel me) (at b s (pre @ t) (CHR 0x22 # rest))"
proof (induction t arbitrary: pre fuel me)
  case Nil
  then show ?case by (cases fuel) (auto simp: at_current)
next
  case (Cons c t)
  obtain f where f: "fuel = Suc f" "length t < f" using Cons.prems(4) by (cases fuel) auto
  have "ok (string_loop f me') (at b s (pre @ c # t) (CHR 0x22 # rest))"
    if "at b s (pre @ [c]) (t @ CHR 0x22 # rest) me'" for me'
    using Cons.IH [OF that] Cons.prems(2,3) f by simp
  then show ?case
    using read_at [of b s pre c "t @ CHR 0x22 # rest" me] Cons.prems(1-3) f by (auto simp: at_current intro: ok_step)
qed

lemma captured_text_at:
  assumes "at b (int (length pre)) (pre @ t) rest me"
  shows "captured_text me = Inr (t @ (if cur rest = CHR 0x00 then [cur rest] else []))"
proof (cases "cur rest = CHR 0x00")
  case True
  with assms show ?thesis
    by (cases rest) (auto simp: captured_text_def at_def Let_def nat_add_distrib)
next
  case False
  with assms show ?thesis
    by (cases rest) (auto simp: captured_text_def at_def Let_def nat_add_distrib)
qed

lemma c_string_plain: "CHR 0x00 \<notin> set t \<Longrightarrow> c_string (map Some t @ Some (CHR 0x00) # b) = Inr t"
  by (induction t) auto

lemma append_first:
  assumes "2 * int (length t) \<le> INT_MAX"
  shows "StringBuffer_append StringBuffer_init t = Inr \<lparr>buf = Some (map Some t @ replicate (length t) None),
    buf_len = 2 * int (length t), buf_pos = int (length t)\<rparr>"
proof -
  have "nat (2 * int (length t)) = length t + length t" by simp
  then show ?thesis
    using assms
    by (simp add: StringBuffer_append_def StringBuffer_init_def Let_def c_int_def memcpy_at_def replicate_add INT_MAX_def)
qed

lemma update_after:
  assumes "length u = Suc n"
  shows "(map Some u @ replicate (length u) None)[length u := x] = map Some u @ x # replicate n None"
proof -
  have "(map Some u @ replicate (Suc n) None)[length (map Some u) := x] = map Some u @ x # replicate n None"
    unfolding list_update_append by simp
  then show ?thesis using assms by simp
qed

lemma endCapture_at:
  assumes at: "at StringBuffer_init (int (length pre)) (pre @ t) rest me"
    and t: "t \<noteq> []" "CHR 0x00 \<notin> set t"
  shows "ok (JsonPureStringParser_endCapture me) (\<lambda>(r, me). r = t \<and> at StringBuffer_init (-1) (pre @ t) rest me)"
proof -
  define u where "u = t @ (if cur rest = CHR 0x00 then [cur rest] else [])"
  have len: "2 * int (length u) \<le> INT_MAX" using at by (simp add: at_def u_def)
  obtain n where n: "length u = Suc n" using t(1) by (cases t) (simp_all add: u_def)
  have "c_string (map Some u @ Some (CHR 0x00) # replicate n None) = Inr t"
    using c_string_plain [OF t(2), of "Some (CHR 0x00) # replicate n None"]
      c_string_plain [OF t(2), of "replicate n None"] by (auto simp: u_def)
  moreover have "arr_set (map Some u @ replicate (length u) None) (int (length u)) (Some (CHR 0x00)) =
      Inr (map Some u @ Some (CHR 0x00) # replicate n None)"
  proof -
    have "0 < length u" using n by simp
    then show ?thesis by (simp add: arr_set_def update_after [OF n])
  qed
  moreover have "at StringBuffer_init (-1) (pre @ t) rest (me\<lparr>captureBuffer := StringBuffer_init, captureStart := -1\<rparr>)"
    using at by (simp add: at_def)
  moreover have "captureBuffer me = StringBuffer_init" using at by (simp add: at_def)
  moreover have "captured_text me = Inr u" using captured_text_at [OF at] by (simp add: u_def)
  ultimately show ?thesis
    using append_first [OF len] by (simp add: JsonPureStringParser_endCapture_def)
qed

lemma readString_at:
  assumes "at StringBuffer_init s pre (CHR 0x22 # t @ CHR 0x22 # rest) me" "plain t"
  shows "ok (JsonPureStringParser_readStringInternal me)
    (\<lambda>(r, me). r = t \<and> at StringBuffer_init (-1) (pre @ CHR 0x22 # t @ [CHR 0x22]) rest me)"
  unfolding JsonPureStringParser_readStringInternal_def
proof (rule ok_step [OF read_at [OF assms(1)]])
  fix me1
  assume 1: "at StringBuffer_init s (pre @ [CHR 0x22]) (t @ CHR 0x22 # rest) me1"
  from startCapture_at [OF this] have 2: "at StringBuffer_init (int (length (pre @ [CHR 0x22]))) (pre @ [CHR 0x22])
    (t @ CHR 0x22 # rest) (JsonPureStringParser_startCapture me1)" .
  show "ok (rbind (string_loop (input_fuel me1) (JsonPureStringParser_startCapture me1)) (\<lambda>me.
      rbind (JsonPureStringParser_endCapture me) (\<lambda>(string, me).
      rbind (JsonPureStringParser_read me) (\<lambda>me. Inr (string, me)))))
    (\<lambda>(r, me). r = t \<and> at StringBuffer_init (-1) (pre @ CHR 0x22 # t @ [CHR 0x22]) rest me)"
  proof (rule ok_step [OF string_loop_at [OF 2]])
    fix me2
    assume "at StringBuffer_init (int (length (pre @ [CHR 0x22]))) ((pre @ [CHR 0x22]) @ t) (CHR 0x22 # rest) me2"
    from endCapture_at [OF this] assms(2)
    have "ok (JsonPureStringParser_endCapture me2) (\<lambda>(r, me). r = t \<and>
      at StringBuffer_init (-1) ((pre @ [CHR 0x22]) @ t) (CHR 0x22 # rest) me)" by (simp add: plain_def)
    then show "ok (rbind (JsonPureStringParser_endCapture me2) (\<lambda>(string, me).
        rbind (JsonPureStringParser_read me) (\<lambda>me. Inr (string, me))))
      (\<lambda>(r, me). r = t \<and> at StringBuffer_init (-1) (pre @ CHR 0x22 # t @ [CHR 0x22]) rest me)"
      by (rule ok_step) (auto intro!: ok_step [OF read_at])
  qed (use assms(2) input_fuel_at [OF 1] in \<open>auto simp: plain_def\<close>)
qed

section \<open>Numbers\<close>

text \<open>The characters that can follow a value: blanks, a separator, a closing bracket or the end.\<close>

definition follow :: "string \<Rightarrow> bool" where
  "follow rest \<longleftrightarrow> cur rest \<in> {CHR '' '', CHR 0x09, CHR 0x0A, CHR 0x0D, CHR '','', CHR '']'', CHR ''}'', CHR 0x00}"

lemma followD:
  assumes "follow rest"
  shows "\<not> digit (cur rest)" "cur rest \<noteq> CHR ''.''" "cur rest \<noteq> CHR ''e''" "cur rest \<noteq> CHR ''E''"
  using assms by (auto simp: follow_def digit_def)

text \<open>Decimal digits, at least one; the fraction; the exponent; the integer part without leading zeros.\<close>

definition digits1 :: "string \<Rightarrow> bool" where
  "digits1 ds \<longleftrightarrow> ds \<noteq> [] \<and> list_all digit ds"

definition fraction :: "string \<Rightarrow> bool" where
  "fraction t \<longleftrightarrow> t = [] \<or> hd t = CHR ''.'' \<and> digits1 (tl t)"

definition exponent :: "string \<Rightarrow> bool" where
  "exponent t \<longleftrightarrow> t = [] \<or> hd t \<in> {CHR ''e'', CHR ''E''} \<and>
     (digits1 (tl t) \<or> tl t \<noteq> [] \<and> hd (tl t) \<in> {CHR ''+'', CHR ''-''} \<and> digits1 (tl (tl t)))"

definition integer_part :: "string \<Rightarrow> bool" where
  "integer_part t \<longleftrightarrow> t = ''0'' \<or> digits1 t \<and> hd t \<noteq> CHR ''0''"

definition number :: "string \<Rightarrow> bool" where
  "number t \<longleftrightarrow> (\<exists>sgn i f e. t = sgn @ i @ f @ e \<and> sgn \<in> {'''', ''-''} \<and> integer_part i \<and> fraction f \<and> exponent e)"

lemma input_fuel_gt: "at b s pre (t @ rest) me \<Longrightarrow> length t < input_fuel me"
  by (simp add: input_fuel_at)

lemma digits1_at:
  assumes "at b s pre (ds @ rest) me" "digits1 ds" "\<not> digit (cur rest)"
  shows "ok (JsonPureStringParser_readDigit me) (\<lambda>(r, me). r \<and>
           ok (digits_loop (input_fuel me) me) (at b s (pre @ ds) rest))"
proof -
  obtain d ds' where ds: "ds = d # ds'" "digit d" "list_all digit ds'"
    using assms(2) by (cases ds) (auto simp: digits1_def)
  have "ok (digits_loop (input_fuel me') me') (at b s (pre @ ds) rest)" if "at b s (pre @ [d]) (ds' @ rest) me'" for me'
    using digits_loop_at [OF that ds(3) assms(3) input_fuel_gt [OF that]] ds(1) by simp
  then show ?thesis
    using readDigit_at [of b s pre d "ds' @ rest" me] assms(1) ds by (auto intro: ok_mono)
qed

lemma digits_tail:
  assumes "ok (JsonPureStringParser_readDigit me) (\<lambda>(r, me). r \<and> ok (digits_loop (input_fuel me) me) Q)"
  shows "ok (rbind (JsonPureStringParser_readDigit me) (\<lambda>(b, me).
           if \<not> b then Inl AssertFailed else rbind (digits_loop (input_fuel me) me) (\<lambda>me. Inr (True, me))))
         (\<lambda>(r, me). Q me)"
  by (rule ok_step [OF assms]) auto

lemma fraction_at:
  assumes at: "at b s pre (f @ rest) me" and f: "fraction f" and stop: "\<not> digit (cur rest)" "cur rest \<noteq> CHR ''.''"
  shows "ok (JsonPureStringParser_readFraction me) (\<lambda>(r, me). at b s (pre @ f) rest me)"
proof (cases "f = []")
  case True
  then show ?thesis
    using at stop(2) by (simp add: JsonPureStringParser_readFraction_def readChar_not)
next
  case False
  then obtain ds where ds: "f = CHR ''.'' # ds" "digits1 ds" using f by (cases f) (auto simp: fraction_def)
  have at': "at b s pre (CHR ''.'' # ds @ rest) me" using at ds by simp
  have "ok (rbind (JsonPureStringParser_readDigit me') (\<lambda>(b, me).
           if \<not> b then Inl AssertFailed else rbind (digits_loop (input_fuel me) me) (\<lambda>me. Inr (True, me))))
         (\<lambda>(r, me). at b s (pre @ f) rest me)" if "at b s (pre @ [CHR ''.'']) (ds @ rest) me'" for me'
    by (rule digits_tail) (use digits1_at [OF that ds(2) stop(1)] ds(1) in simp)
  then show ?thesis
    unfolding JsonPureStringParser_readFraction_def by (auto intro: ok_step [OF readChar_at [OF at']])
qed

text \<open>One of two characters, tried in order.\<close>

lemma either_at:
  assumes "at b s pre (c # rest) me" "c = x \<or> c = y"
  shows "ok (rbind (JsonPureStringParser_readChar x me) (\<lambda>(b, me).
           if b then Inr (True, me) else JsonPureStringParser_readChar y me))
         (\<lambda>(r, me). r \<and> at b s (pre @ [c]) rest me)"
proof (cases "c = x")
  case True
  with assms(1) show ?thesis by (auto intro: ok_step [OF readChar_at])
next
  case False
  with assms have "c = y" "JsonPureStringParser_readChar x me = Inr (False, me)" by (auto intro: readChar_not)
  with assms(1) show ?thesis by (simp add: readChar_at)
qed

lemma either_not:
  assumes "at b s pre rest me" "cur rest \<noteq> x" "cur rest \<noteq> y"
  shows "rbind (JsonPureStringParser_readChar x me) (\<lambda>(b, me).
           if b then Inr (True, me) else JsonPureStringParser_readChar y me) = Inr (False, me)"
  using assms by (simp add: readChar_not)

lemma exponent_unfold: "JsonPureStringParser_readExponent me =
     rbind (rbind (JsonPureStringParser_readChar (CHR ''e'') me) (\<lambda>(b, me).
              if b then Inr (True, me) else JsonPureStringParser_readChar (CHR ''E'') me)) (\<lambda>(b, me).
       if \<not> b then Inr (False, me)
       else
         rbind (rbind (JsonPureStringParser_readChar (CHR ''+'') me) (\<lambda>(b, me).
              if b then Inr (True, me) else JsonPureStringParser_readChar (CHR ''-'') me)) (\<lambda>(b, me).
         rbind (JsonPureStringParser_readDigit me) (\<lambda>(b, me).
           if \<not> b then Inl AssertFailed
           else rbind (digits_loop (input_fuel me) me) (\<lambda>me. Inr (True, me)))))"
  unfolding JsonPureStringParser_readExponent_def rbind_assoc
  by (intro arg_cong2 [where f = rbind] refl ext) (auto split: prod.split simp: rbind_assoc intro!: arg_cong2 [where f = rbind] ext)

lemma exponent_at:
  assumes at: "at b s pre (e @ rest) me" and e: "exponent e"
    and stop: "\<not> digit (cur rest)" "cur rest \<noteq> CHR ''e''" "cur rest \<noteq> CHR ''E''"
  shows "ok (JsonPureStringParser_readExponent me) (\<lambda>(r, me). at b s (pre @ e) rest me)"
proof (cases "e = []")
  case True
  then show ?thesis
    using at stop by (simp add: exponent_unfold either_not)
next
  case False
  then obtain c e' where c: "e = c # e'" "c = CHR ''e'' \<or> c = CHR ''E''"
    "digits1 e' \<or> e' \<noteq> [] \<and> hd e' \<in> {CHR ''+'', CHR ''-''} \<and> digits1 (tl e')"
    using e by (cases e) (auto simp: exponent_def)
  let ?rest = "rbind (rbind (JsonPureStringParser_readChar (CHR ''+'') me') (\<lambda>(b, me).
              if b then Inr (True, me) else JsonPureStringParser_readChar (CHR ''-'') me)) (\<lambda>(b, me).
         rbind (JsonPureStringParser_readDigit me) (\<lambda>(b, me).
           if \<not> b then Inl AssertFailed
           else rbind (digits_loop (input_fuel me) me) (\<lambda>me. Inr (True, me))))"
  have tail: "ok (rbind (JsonPureStringParser_readDigit me') (\<lambda>(b, me).
           if \<not> b then Inl AssertFailed else rbind (digits_loop (input_fuel me) me) (\<lambda>me. Inr (True, me))))
         (\<lambda>(r, me). at b s (pre @ e) rest me)"
    if "at b s p (ds @ rest) me'" "digits1 ds" "p @ ds = pre @ e" for p ds me'
    by (rule digits_tail) (use digits1_at [OF that(1,2) stop(1)] that(3) in simp)
  have "ok (rbind (rbind (JsonPureStringParser_readChar (CHR ''+'') me') (\<lambda>(b, me).
              if b then Inr (True, me) else JsonPureStringParser_readChar (CHR ''-'') me)) (\<lambda>(b, me).
         rbind (JsonPureStringParser_readDigit me) (\<lambda>(b, me).
           if \<not> b then Inl AssertFailed
           else rbind (digits_loop (input_fuel me) me) (\<lambda>me. Inr (True, me)))))
     (\<lambda>(r, me). at b s (pre @ e) rest me)" if me': "at b s (pre @ [c]) (e' @ rest) me'" for me'
  proof (cases "digits1 e'")
    case True
    then have "cur (e' @ rest) \<noteq> CHR ''+''" "cur (e' @ rest) \<noteq> CHR ''-''"
      by (cases e'; auto simp: digits1_def digit_def)+
    then show ?thesis using tail [OF me' True] c(1) by (simp add: either_not [OF me'])
  next
    case False
    then obtain x ds where ds: "e' = x # ds" "x = CHR ''+'' \<or> x = CHR ''-''" "digits1 ds"
      using c(3) by (cases e') auto
    have "at b s (pre @ [c]) (x # ds @ rest) me'" using me' ds(1) by simp
    from either_at [OF this ds(2)] show ?thesis
      by (rule ok_step) (use tail [where p = "(pre @ [c]) @ [x]" and ds = ds] ds c(1) in auto)
  qed
  moreover have "at b s pre (c # e' @ rest) me" using at c(1) by simp
  ultimately show ?thesis
    unfolding exponent_unfold by (auto intro: ok_step [OF either_at [OF _ c(2)]])
qed

lemma integer_at:
  assumes at: "at b s pre (i @ rest) me" and i: "integer_part i" and stop: "\<not> digit (cur rest)"
  shows "ok (JsonPureStringParser_readDigit me) (\<lambda>(r, me'). r \<and>
    ok (if current me \<noteq> CHR ''0'' then digits_loop (input_fuel me') me' else Inr me') (at b s (pre @ i) rest))"
proof (cases "i = ''0''")
  case True
  then show ?thesis
    using readDigit_at [of b s pre "CHR ''0''" rest me] at at_current [OF at] by (simp add: digit_def)
next
  case False
  with i have d: "digits1 i" "hd i \<noteq> CHR ''0''" by (auto simp: integer_part_def)
  then have "current me \<noteq> CHR ''0''" using at_current [OF at] by (cases i) (auto simp: digits1_def)
  with digits1_at [OF at d(1) stop] show ?thesis by simp
qed

lemma digit_NUL [simp]: "\<not> digit (CHR 0x00)"
  by (simp add: digit_def)

lemma digits1_chars: "digits1 ds \<Longrightarrow> CHR 0x00 \<notin> set ds"
  by (auto simp: digits1_def list_all_iff)

lemma number_not_empty:
  assumes "number t"
  shows "t \<noteq> [] \<and> hd t \<in> set ''-0123456789'' \<and> CHR 0x00 \<notin> set t"
proof -
  obtain sgn i f e where t: "t = sgn @ i @ f @ e" "sgn = '''' \<or> sgn = ''-''" "integer_part i" "fraction f" "exponent e"
    using assms by (auto simp: number_def)
  have i: "i \<noteq> [] \<and> digit (hd i) \<and> CHR 0x00 \<notin> set i"
    using t(3) unfolding integer_part_def
  proof
    assume "i = ''0''"
    then show ?thesis by (simp add: digit_def)
  next
    assume "digits1 i \<and> hd i \<noteq> CHR ''0''"
    with digits1_chars [of i] show ?thesis by (cases i) (auto simp: digits1_def)
  qed
  have f: "CHR 0x00 \<notin> set f"
    using t(4) digits1_chars [of "tl f"] by (cases f) (auto simp: fraction_def)
  have "CHR 0x00 \<notin> set e"
  proof (cases e)
    case (Cons c e')
    then show ?thesis
      using t(5) digits1_chars [of e'] digits1_chars [of "tl e'"] by (cases e') (auto simp: exponent_def)
  qed simp
  with i f t(1,2) have "t \<noteq> [] \<and> (digit (hd t) \<or> hd t = CHR ''-'') \<and> CHR 0x00 \<notin> set t"
    by (cases i) auto
  then show ?thesis by (auto simp: digit_def)
qed

lemma readNumber_at:
  assumes at: "at StringBuffer_init s pre (t @ rest) me" and t: "number t" and stop: "follow rest"
  shows "ok (JsonPureStringParser_readNumber me)
    (\<lambda>(r, me). r = JsonNumber t \<and> at StringBuffer_init (-1) (pre @ t) rest me)"
proof -
  obtain sgn i f e where t': "t = sgn @ i @ f @ e" "sgn = '''' \<or> sgn = ''-''" "integer_part i" "fraction f" "exponent e"
    using t by (auto simp: number_def)
  define p where "p = int (length pre)"
  note s = followD [OF stop]
  have e1: "cur (e @ rest) \<noteq> CHR ''.''" "\<not> digit (cur (e @ rest))"
    using s t'(5) by (cases e; auto simp: exponent_def digit_def)+
  have f1: "\<not> digit (cur (f @ e @ rest))"
    using e1(2) t'(4) by (cases f) (auto simp: fraction_def digit_def)
  have i1: "cur (i @ f @ e @ rest) \<noteq> CHR ''-''"
    using t'(3) by (cases i) (auto simp: integer_part_def digits1_def digit_def)
  let ?me = "JsonPureStringParser_startCapture me"
  have st: "at StringBuffer_init p pre (sgn @ i @ f @ e @ rest) ?me"
    using startCapture_at [OF at] t'(1) by (simp add: p_def)
  have step1: "ok (JsonPureStringParser_readChar (CHR ''-'') ?me)
      (\<lambda>(r, me). at StringBuffer_init p (pre @ sgn) (i @ f @ e @ rest) me)"
    using t'(2)
  proof
    assume "sgn = ''''"
    with st show ?thesis by (simp add: readChar_not [OF _ i1])
  next
    assume "sgn = ''-''"
    with st show ?thesis by (auto intro: ok_mono [OF readChar_at])
  qed
  have end4: "ok (rbind (JsonPureStringParser_endCapture me4) (\<lambda>(s, me). rbind (JsonNumber_create s) (\<lambda>v. Inr (v, me))))
      (\<lambda>(r, me). r = JsonNumber t \<and> at StringBuffer_init (-1) (pre @ t) rest me)"
    if "at StringBuffer_init p (pre @ t) rest me4" for me4
    using number_not_empty [OF t] endCapture_at [OF that [unfolded p_def]]
    by (auto simp: JsonNumber_create_def elim: ok_step)
  have end3: "ok (rbind (JsonPureStringParser_readFraction me3) (\<lambda>(b, me).
         rbind (JsonPureStringParser_readExponent me) (\<lambda>(b, me).
         rbind (JsonPureStringParser_endCapture me) (\<lambda>(s, me).
         rbind (JsonNumber_create s) (\<lambda>v. Inr (v, me))))))
      (\<lambda>(r, me). r = JsonNumber t \<and> at StringBuffer_init (-1) (pre @ t) rest me)"
    if "at StringBuffer_init p (pre @ sgn @ i) (f @ e @ rest) me3" for me3
  proof (rule ok_step [OF fraction_at [OF that t'(4) e1(2,1)]], clarify)
    fix r me4
    assume "at StringBuffer_init p ((pre @ sgn @ i) @ f) (e @ rest) me4"
    from exponent_at [OF this t'(5) s(1,3,4)]
    have "ok (JsonPureStringParser_readExponent me4) (\<lambda>(r, me). at StringBuffer_init p (pre @ t) rest me)"
      by (simp add: t'(1))
    then show "ok (rbind (JsonPureStringParser_readExponent me4) (\<lambda>(b, me).
         rbind (JsonPureStringParser_endCapture me) (\<lambda>(s, me).
         rbind (JsonNumber_create s) (\<lambda>v. Inr (v, me)))))
      (\<lambda>(r, me). r = JsonNumber t \<and> at StringBuffer_init (-1) (pre @ t) rest me)"
      by (rule ok_step) (use end4 in auto)
  qed
  have end2: "ok (rbind m (\<lambda>me.
         rbind (JsonPureStringParser_readFraction me) (\<lambda>(b, me).
         rbind (JsonPureStringParser_readExponent me) (\<lambda>(b, me).
         rbind (JsonPureStringParser_endCapture me) (\<lambda>(s, me).
         rbind (JsonNumber_create s) (\<lambda>v. Inr (v, me)))))))
      (\<lambda>(r, me). r = JsonNumber t \<and> at StringBuffer_init (-1) (pre @ t) rest me)"
    if "ok m (at StringBuffer_init p ((pre @ sgn) @ i) (f @ e @ rest))" for m
    by (rule ok_step [OF that]) (use end3 in simp)
  show ?thesis
    unfolding JsonPureStringParser_readNumber_def Let_def
  proof (rule ok_step [OF step1], clarify)
    fix r me2
    assume "at StringBuffer_init p (pre @ sgn) (i @ f @ e @ rest) me2"
    from integer_at [OF this t'(3) f1]
    show "ok (rbind (JsonPureStringParser_readDigit me2) (\<lambda>(b, me).
        if \<not> b then Inl AssertFailed
        else rbind (if current me2 \<noteq> CHR ''0'' then digits_loop (input_fuel me) me else Inr me) (\<lambda>me.
         rbind (JsonPureStringParser_readFraction me) (\<lambda>(b, me).
         rbind (JsonPureStringParser_readExponent me) (\<lambda>(b, me).
         rbind (JsonPureStringParser_endCapture me) (\<lambda>(s, me).
         rbind (JsonNumber_create s) (\<lambda>v. Inr (v, me))))))))
      (\<lambda>(r, me). r = JsonNumber t \<and> at StringBuffer_init (-1) (pre @ t) rest me)"
      by (rule ok_step) (use end2 [where m = "digits_loop a b" for a b] end2 [where m = "Inr b" for b] in auto)
  qed
qed

section \<open>The grammar\<close>

text \<open>
  \<open>json_text v t\<close>: the text \<open>t\<close>, without blanks around it, denotes the value \<open>v\<close>. \<open>elements\<close> and
  \<open>members\<close> start at the first character of their first entry and include the blanks after the last one.
\<close>

inductive json_text :: "json \<Rightarrow> string \<Rightarrow> bool"
  and elements :: "json list \<Rightarrow> string \<Rightarrow> bool"
  and members :: "(string \<times> json) list \<Rightarrow> string \<Rightarrow> bool" where
  null: "json_text (JsonLiteral ''null'') ''null''"
| true: "json_text (JsonLiteral ''true'') ''true''"
| false: "json_text (JsonLiteral ''false'') ''false''"
| str: "plain t \<Longrightarrow> json_text (JsonString t) (CHR 0x22 # t @ [CHR 0x22])"
| num: "number t \<Longrightarrow> json_text (JsonNumber t) t"
| empty_array: "blanks w \<Longrightarrow> json_text (JsonArray []) (CHR ''['' # w @ [CHR '']''])"
| array: "blanks w \<Longrightarrow> elements vs t \<Longrightarrow> json_text (JsonArray vs) (CHR ''['' # w @ t @ [CHR '']''])"
| empty_object: "blanks w \<Longrightarrow> json_text JsonObject_create (CHR ''{'' # w @ [CHR ''}''])"
| obj: "blanks w \<Longrightarrow> members ms t \<Longrightarrow> rfold (\<lambda>(n, v) obj. JsonObject_add obj n v) ms JsonObject_create = Inr obj \<Longrightarrow>
    json_text obj (CHR ''{'' # w @ t @ [CHR ''}''])"
| element: "json_text v t \<Longrightarrow> blanks w \<Longrightarrow> elements [v] (t @ w)"
| more_elements: "json_text v t \<Longrightarrow> blanks w1 \<Longrightarrow> blanks w2 \<Longrightarrow> elements vs u \<Longrightarrow>
    elements (v # vs) (t @ w1 @ CHR '','' # w2 @ u)"
| member: "plain n \<Longrightarrow> blanks w1 \<Longrightarrow> blanks w2 \<Longrightarrow> json_text v t \<Longrightarrow> blanks w3 \<Longrightarrow>
    members [(n, v)] (CHR 0x22 # n @ CHR 0x22 # w1 @ CHR '':'' # w2 @ t @ w3)"
| more_members: "plain n \<Longrightarrow> blanks w1 \<Longrightarrow> blanks w2 \<Longrightarrow> json_text v t \<Longrightarrow> blanks w3 \<Longrightarrow> blanks w4 \<Longrightarrow> members ms u \<Longrightarrow>
    members ((n, v) # ms) (CHR 0x22 # n @ CHR 0x22 # w1 @ CHR '':'' # w2 @ t @ w3 @ CHR '','' # w4 @ u)"

text \<open>The characters a text can start with.\<close>

definition starter :: "char \<Rightarrow> bool" where
  "starter c \<longleftrightarrow> c \<in> set ''ntf[{-0123456789'' \<or> c = CHR 0x22"

lemma starterD: "starter c \<Longrightarrow> \<not> blanks [c] \<and> c \<noteq> CHR '']'' \<and> c \<noteq> CHR ''}''"
  by (auto simp: starter_def)

lemma text_start:
  "json_text v t \<Longrightarrow> t \<noteq> [] \<and> starter (hd t)"
  "elements vs t \<Longrightarrow> t \<noteq> [] \<and> starter (hd t)"
  "members ms t \<Longrightarrow> t \<noteq> [] \<and> hd t = CHR 0x22"
  by (induction rule: json_text_elements_members.inducts)
    (auto simp: starter_def dest: number_not_empty)

lemma blanks_follow: "blanks w \<Longrightarrow> follow rest \<Longrightarrow> follow (w @ rest)"
  by (cases w) (auto simp: follow_def)

lemma follow_punct [simp]: "follow (CHR '','' # r)" "follow (CHR '']'' # r)" "follow (CHR ''}'' # r)" "follow []"
  by (auto simp: follow_def)

lemma cur_hd: "t \<noteq> [] \<Longrightarrow> cur (t @ r) = hd t"
  by (cases t) auto

text \<open>A keyword: the first character is read without a check, the others are required.\<close>

lemma at_literals: "at b s pre rest me \<Longrightarrow>
    p_NULL me = JsonLiteral ''null'' \<and> p_TRUE me = JsonLiteral ''true'' \<and> p_FALSE me = JsonLiteral ''false''"
  by (simp add: at_def)

lemma keyword_at:
  "at b s pre (''null'' @ rest) me \<Longrightarrow>
     ok (JsonPureStringParser_readNull me) (\<lambda>(r, me). r = JsonLiteral ''null'' \<and> at b s (pre @ ''null'') rest me)"
  "at b s pre (''true'' @ rest) me \<Longrightarrow>
     ok (JsonPureStringParser_readTrue me) (\<lambda>(r, me). r = JsonLiteral ''true'' \<and> at b s (pre @ ''true'') rest me)"
  "at b s pre (''false'' @ rest) me \<Longrightarrow>
     ok (JsonPureStringParser_readFalse me) (\<lambda>(r, me). r = JsonLiteral ''false'' \<and> at b s (pre @ ''false'') rest me)"
  unfolding JsonPureStringParser_readNull_def JsonPureStringParser_readTrue_def JsonPureStringParser_readFalse_def append.simps
  by (auto intro!: ok_step [OF read_at] ok_step [OF required_at] ok_mono [OF required_at] dest: at_literals)

section \<open>Reading a text back\<close>

text \<open>The parser between two tokens, wherever the last capture started.\<close>

definition here :: "string \<Rightarrow> string \<Rightarrow> parser \<Rightarrow> bool" where
  "here pre rest me \<longleftrightarrow> (\<exists>s. at StringBuffer_init s pre rest me)"

lemma here_read: "here pre (c # rest) me \<Longrightarrow> ok (JsonPureStringParser_read me) (here (pre @ [c]) rest)"
  unfolding here_def by (erule exE, rule ok_mono [OF read_at]) auto

lemma here_skip:
  "here pre (w @ rest) me \<Longrightarrow> blanks w \<Longrightarrow> \<not> blanks [cur rest] \<Longrightarrow>
   ok (JsonPureStringParser_skipWhiteSpace me) (here (pre @ w) rest)"
  unfolding here_def by (erule exE, rule ok_mono [OF skip_at]) auto

lemma here_char:
  "here pre (c # rest) me \<Longrightarrow> ok (JsonPureStringParser_readChar c me) (\<lambda>(r, me). r \<and> here (pre @ [c]) rest me)"
  unfolding here_def by (erule exE, rule ok_mono [OF readChar_at]) auto

lemma here_not: "here pre rest me \<Longrightarrow> cur rest \<noteq> c \<Longrightarrow> JsonPureStringParser_readChar c me = Inr (False, me)"
  unfolding here_def by (auto intro: readChar_not)

lemma here_current: "here pre rest me \<Longrightarrow> current me = cur rest"
  unfolding here_def by (auto dest: at_current)

lemma here_name:
  assumes "here pre (CHR 0x22 # n @ CHR 0x22 # rest) me" "plain n"
  shows "ok (JsonPureStringParser_readName me) (\<lambda>(r, me). r = n \<and> here (pre @ CHR 0x22 # n @ [CHR 0x22]) rest me)"
  using assms here_current [OF assms(1)] unfolding here_def JsonPureStringParser_readName_def
  by (auto intro: ok_mono [OF readString_at])

lemma here_number:
  assumes "here pre (t @ rest) me" "number t" "follow rest"
  shows "ok (JsonPureStringParser_readNumber me) (\<lambda>(r, me). r = JsonNumber t \<and> here (pre @ t) rest me)"
  using assms unfolding here_def by (auto intro: ok_mono [OF readNumber_at])

lemma here_string:
  assumes "here pre (CHR 0x22 # t @ CHR 0x22 # rest) me" "plain t"
  shows "ok (JsonPureStringParser_readString me)
    (\<lambda>(r, me). r = JsonString t \<and> here (pre @ CHR 0x22 # t @ [CHR 0x22]) rest me)"
  using assms unfolding here_def JsonPureStringParser_readString_def JsonString_create_def
  by (auto intro!: ok_step [OF readString_at])

lemma here_keyword:
  "here pre (''null'' @ rest) me \<Longrightarrow>
     ok (JsonPureStringParser_readNull me) (\<lambda>(r, me). r = JsonLiteral ''null'' \<and> here (pre @ ''null'') rest me)"
  "here pre (''true'' @ rest) me \<Longrightarrow>
     ok (JsonPureStringParser_readTrue me) (\<lambda>(r, me). r = JsonLiteral ''true'' \<and> here (pre @ ''true'') rest me)"
  "here pre (''false'' @ rest) me \<Longrightarrow>
     ok (JsonPureStringParser_readFalse me) (\<lambda>(r, me). r = JsonLiteral ''false'' \<and> here (pre @ ''false'') rest me)"
  unfolding here_def by (erule exE, rule ok_mono [OF keyword_at(1)] ok_mono [OF keyword_at(2)] ok_mono [OF keyword_at(3)], assumption, fastforce)+

text \<open>
  What the three mutually recursive functions do with a text, an element list or a member list, each with
  fuel for its length.
\<close>

definition reads_value :: "json \<Rightarrow> string \<Rightarrow> bool" where
  "reads_value v t \<longleftrightarrow> (\<forall>pre rest me fuel. here pre (t @ rest) me \<longrightarrow> follow rest \<longrightarrow> length t \<le> fuel \<longrightarrow>
     ok (JsonPureStringParser_readValue fuel me) (\<lambda>(r, me). r = v \<and> here (pre @ t) rest me))"

definition reads_elements :: "json list \<Rightarrow> string \<Rightarrow> bool" where
  "reads_elements vs t \<longleftrightarrow> (\<forall>pre w rest me fuel us. here pre (w @ t @ CHR '']'' # rest) me \<longrightarrow> blanks w \<longrightarrow> length t < fuel \<longrightarrow>
     ok (array_loop fuel (JsonArray us) me)
        (\<lambda>(r, me). r = JsonArray (us @ vs) \<and> here (pre @ w @ t @ '']'') rest me))"

definition reads_members :: "(string \<times> json) list \<Rightarrow> string \<Rightarrow> bool" where
  "reads_members ms t \<longleftrightarrow> (\<forall>pre w rest me fuel obj obj'. here pre (w @ t @ CHR ''}'' # rest) me \<longrightarrow> blanks w \<longrightarrow>
     length t < fuel \<longrightarrow> rfold (\<lambda>(n, v) obj. JsonObject_add obj n v) ms obj = Inr obj' \<longrightarrow>
     ok (object_loop fuel obj me) (\<lambda>(r, me). r = obj' \<and> here (pre @ w @ t @ ''}'') rest me))"

lemma starter_blanks: "starter (hd t) \<Longrightarrow> t \<noteq> [] \<Longrightarrow> \<not> blanks [cur (t @ r)]"
  using starterD [of "hd t"] by (simp add: cur_hd)

lemma reads_array:
  assumes "blanks w" "reads_elements vs t" "elements vs t"
  shows "reads_value (JsonArray vs) (CHR ''['' # w @ t @ '']'')"
  unfolding reads_value_def
proof (intro allI impI)
  fix pre rest me fuel
  assume h: "here pre ((CHR ''['' # w @ t @ '']'') @ rest) me" and fuel: "length (CHR ''['' # w @ t @ '']'') \<le> fuel"
  have t: "t \<noteq> []" "starter (hd t)" using text_start(2) [OF assms(3)] by auto
  obtain f where f: "fuel = Suc f" "length t < f" using fuel by (cases fuel) auto
  have c: "current me = CHR ''[''" using here_current [OF h] by simp
  have loop: "ok (array_loop f JsonArray_create me1) (\<lambda>(r, me). r = JsonArray vs \<and> here (pre @ CHR ''['' # w @ t @ '']'') rest me)"
    if "here (pre @ CHR ''['' # w) (t @ CHR '']'' # rest) me1" for me1
    using assms(2) [unfolded reads_elements_def, rule_format, of "pre @ CHR ''['' # w" "[]" rest me1 f "[]"] that f(2)
    by (simp add: JsonArray_create_def)
  have fin: "ok (rbind (JsonPureStringParser_readChar (CHR '']'') me1) (\<lambda>(b, me).
          if b then Inr (JsonArray_create, me) else array_loop f JsonArray_create me))
      (\<lambda>(r, me). r = JsonArray vs \<and> here (pre @ CHR ''['' # w @ t @ '']'') rest me)"
    if h1: "here (pre @ CHR ''['' # w) (t @ CHR '']'' # rest) me1" for me1
    using loop [OF h1] here_not [OF h1, of "CHR '']''"] t starterD [OF t(2)] by (simp add: cur_hd)
  have skip: "ok (JsonPureStringParser_skipWhiteSpace me1) (here (pre @ CHR ''['' # w) (t @ CHR '']'' # rest))"
    if "here (pre @ [CHR ''['']) (w @ t @ CHR '']'' # rest) me1" for me1
    using here_skip [OF that assms(1)] starter_blanks [OF t(2,1)] by simp
  have read: "ok (JsonPureStringParser_read me) (here (pre @ [CHR ''['']) (w @ t @ CHR '']'' # rest))"
    using here_read [of pre "CHR ''[''" "w @ t @ CHR '']'' # rest" me] h by simp
  show "ok (JsonPureStringParser_readValue fuel me)
      (\<lambda>(r, me). r = JsonArray vs \<and> here (pre @ CHR ''['' # w @ t @ '']'') rest me)"
    unfolding f(1) JsonPureStringParser_readValue.simps Let_def c by (auto intro!: ok_step [OF read] ok_step [OF skip] fin)
qed

lemma reads_object:
  assumes "blanks w" "reads_members ms t" "members ms t"
    "rfold (\<lambda>(n, v) obj. JsonObject_add obj n v) ms JsonObject_create = Inr obj"
  shows "reads_value obj (CHR ''{'' # w @ t @ ''}'')"
  unfolding reads_value_def
proof (intro allI impI)
  fix pre rest me fuel
  assume h: "here pre ((CHR ''{'' # w @ t @ ''}'') @ rest) me" and fuel: "length (CHR ''{'' # w @ t @ ''}'') \<le> fuel"
  have t: "t \<noteq> []" "hd t = CHR 0x22" using text_start(3) [OF assms(3)] by auto
  obtain f where f: "fuel = Suc f" "length t < f" using fuel by (cases fuel) auto
  have c: "current me = CHR ''{''" using here_current [OF h] by simp
  have loop: "ok (object_loop f JsonObject_create me1) (\<lambda>(r, me). r = obj \<and> here (pre @ CHR ''{'' # w @ t @ ''}'') rest me)"
    if "here (pre @ CHR ''{'' # w) (t @ CHR ''}'' # rest) me1" for me1
    using assms(2) [unfolded reads_members_def, rule_format, of "pre @ CHR ''{'' # w" "[]" rest me1 f JsonObject_create obj]
      that f(2) assms(4) by simp
  have fin: "ok (rbind (JsonPureStringParser_readChar (CHR ''}'') me1) (\<lambda>(b, me).
          if b then Inr (JsonObject_create, me) else object_loop f JsonObject_create me))
      (\<lambda>(r, me). r = obj \<and> here (pre @ CHR ''{'' # w @ t @ ''}'') rest me)"
    if h1: "here (pre @ CHR ''{'' # w) (t @ CHR ''}'' # rest) me1" for me1
    using loop [OF h1] here_not [OF h1, of "CHR ''}''"] t by (simp add: cur_hd)
  have skip: "ok (JsonPureStringParser_skipWhiteSpace me1) (here (pre @ CHR ''{'' # w) (t @ CHR ''}'' # rest))"
    if "here (pre @ [CHR ''{'']) (w @ t @ CHR ''}'' # rest) me1" for me1
    using here_skip [OF that assms(1)] t by (simp add: cur_hd)
  have read: "ok (JsonPureStringParser_read me) (here (pre @ [CHR ''{'']) (w @ t @ CHR ''}'' # rest))"
    using here_read [of pre "CHR ''{''" "w @ t @ CHR ''}'' # rest" me] h by simp
  show "ok (JsonPureStringParser_readValue fuel me)
      (\<lambda>(r, me). r = obj \<and> here (pre @ CHR ''{'' # w @ t @ ''}'') rest me)"
    unfolding f(1) JsonPureStringParser_readValue.simps Let_def c by (auto intro!: ok_step [OF read] ok_step [OF skip] fin)
qed

text \<open>The values that take one call.\<close>

lemma reads_empty_array:
  assumes "blanks w"
  shows "reads_value (JsonArray []) (CHR ''['' # w @ '']'')"
  unfolding reads_value_def
proof (intro allI impI)
  fix pre rest me fuel
  assume h: "here pre ((CHR ''['' # w @ '']'') @ rest) me" and fuel: "length (CHR ''['' # w @ '']'') \<le> fuel"
  obtain f where f: "fuel = Suc f" using fuel by (cases fuel) auto
  have c: "current me = CHR ''[''" using here_current [OF h] by simp
  have "ok (JsonPureStringParser_skipWhiteSpace me1) (here (pre @ CHR ''['' # w) (CHR '']'' # rest))"
    if "here (pre @ [CHR ''['']) (w @ CHR '']'' # rest) me1" for me1
    using here_skip [OF that assms] by simp
  moreover have "ok (JsonPureStringParser_read me) (here (pre @ [CHR ''['']) (w @ CHR '']'' # rest))"
    using here_read [of pre "CHR ''[''" "w @ CHR '']'' # rest" me] h by simp
  moreover have "ok (JsonPureStringParser_readChar (CHR '']'') me1) (\<lambda>(r, me). r \<and> here (pre @ CHR ''['' # w @ '']'') rest me)"
    if "here (pre @ CHR ''['' # w) (CHR '']'' # rest) me1" for me1
    using here_char [OF that] by simp
  ultimately show "ok (JsonPureStringParser_readValue fuel me)
      (\<lambda>(r, me). r = JsonArray [] \<and> here (pre @ CHR ''['' # w @ '']'') rest me)"
    unfolding f(1) JsonPureStringParser_readValue.simps Let_def c
    by (force simp: JsonArray_create_def elim!: ok_step)
qed

lemma reads_empty_object:
  assumes "blanks w"
  shows "reads_value JsonObject_create (CHR ''{'' # w @ ''}'')"
  unfolding reads_value_def
proof (intro allI impI)
  fix pre rest me fuel
  assume h: "here pre ((CHR ''{'' # w @ ''}'') @ rest) me" and fuel: "length (CHR ''{'' # w @ ''}'') \<le> fuel"
  obtain f where f: "fuel = Suc f" using fuel by (cases fuel) auto
  have c: "current me = CHR ''{''" using here_current [OF h] by simp
  have "ok (JsonPureStringParser_skipWhiteSpace me1) (here (pre @ CHR ''{'' # w) (CHR ''}'' # rest))"
    if "here (pre @ [CHR ''{'']) (w @ CHR ''}'' # rest) me1" for me1
    using here_skip [OF that assms] by simp
  moreover have "ok (JsonPureStringParser_read me) (here (pre @ [CHR ''{'']) (w @ CHR ''}'' # rest))"
    using here_read [of pre "CHR ''{''" "w @ CHR ''}'' # rest" me] h by simp
  moreover have "ok (JsonPureStringParser_readChar (CHR ''}'') me1) (\<lambda>(r, me). r \<and> here (pre @ CHR ''{'' # w @ ''}'') rest me)"
    if "here (pre @ CHR ''{'' # w) (CHR ''}'' # rest) me1" for me1
    using here_char [OF that] by simp
  ultimately show "ok (JsonPureStringParser_readValue fuel me)
      (\<lambda>(r, me). r = JsonObject_create \<and> here (pre @ CHR ''{'' # w @ ''}'') rest me)"
    unfolding f(1) JsonPureStringParser_readValue.simps Let_def c
    by (force elim!: ok_step)
qed

lemma reads_keyword:
  "reads_value (JsonLiteral ''null'') ''null''"
  "reads_value (JsonLiteral ''true'') ''true''"
  "reads_value (JsonLiteral ''false'') ''false''"
proof -
  have one: "\<exists>f. fuel = Suc f" if "length (c # t) \<le> fuel" for c :: char and t fuel using that by (cases fuel) auto
  show "reads_value (JsonLiteral ''null'') ''null''" "reads_value (JsonLiteral ''true'') ''true''"
    "reads_value (JsonLiteral ''false'') ''false''"
    unfolding reads_value_def
    by (intro allI impI, drule one, erule exE, frule here_current, simp add: here_keyword [simplified] Let_def)+
qed

lemma reads_string: "plain t \<Longrightarrow> reads_value (JsonString t) (CHR 0x22 # t @ [CHR 0x22])"
  unfolding reads_value_def
proof (intro allI impI)
  fix pre rest me fuel
  assume t: "plain t" and h: "here pre ((CHR 0x22 # t @ [CHR 0x22]) @ rest) me"
    and fuel: "length (CHR 0x22 # t @ [CHR 0x22]) \<le> fuel"
  obtain f where f: "fuel = Suc f" using fuel by (cases fuel) auto
  show "ok (JsonPureStringParser_readValue fuel me) (\<lambda>(r, me). r = JsonString t \<and> here (pre @ CHR 0x22 # t @ [CHR 0x22]) rest me)"
    using here_string [of pre t rest me] here_current [OF h] h t f by (simp add: Let_def)
qed

lemma reads_number: "number t \<Longrightarrow> reads_value (JsonNumber t) t"
  unfolding reads_value_def
proof (intro allI impI)
  fix pre rest me fuel
  assume t: "number t" and h: "here pre (t @ rest) me" and r: "follow rest" and fuel: "length t \<le> fuel"
  note n = number_not_empty [OF t]
  obtain f where f: "fuel = Suc f" using fuel n by (cases fuel) auto
  have c: "current me \<in> set ''-0123456789''" using here_current [OF h] n by (simp add: cur_hd)
  then have "JsonPureStringParser_readValue fuel me = JsonPureStringParser_readNumber me"
    unfolding f JsonPureStringParser_readValue.simps Let_def by auto
  then show "ok (JsonPureStringParser_readValue fuel me) (\<lambda>(r, me). r = JsonNumber t \<and> here (pre @ t) rest me)"
    using here_number [OF h t r] by simp
qed

text \<open>One turn of each loop, up to the separator \<open>x\<close>.\<close>

lemma array_turn:
  assumes h: "here pre (w0 @ t @ w1 @ x # rest) me" and w: "blanks w0" "blanks w1"
    and x: "x = CHR '','' \<or> x = CHR '']''" and t: "reads_value v t" "t \<noteq> []" "starter (hd t)" and f: "length t \<le> f"
    and K: "\<And>me. here (pre @ w0 @ t @ w1) (x # rest) me \<Longrightarrow>
      ok (rbind (JsonPureStringParser_readChar (CHR '','') me) (\<lambda>(b, me).
         if b then array_loop f (JsonArray (us @ [v])) me
         else rbind (JsonPureStringParser_readChar (CHR '']'') me) (\<lambda>(b, me).
                if \<not> b then Inl AssertFailed else Inr (JsonArray (us @ [v]), me)))) Q"
  shows "ok (array_loop (Suc f) (JsonArray us) me) Q"
proof -
  have fol: "follow (w1 @ x # rest)" using x by (intro blanks_follow [OF w(2)]) auto
  have skip1: "ok (JsonPureStringParser_skipWhiteSpace me) (here (pre @ w0) (t @ w1 @ x # rest))"
    using here_skip [OF h w(1)] starter_blanks [OF t(3,2)] by simp
  have val: "ok (JsonPureStringParser_readValue f me1) (\<lambda>(r, me). r = v \<and> here (pre @ w0 @ t) (w1 @ x # rest) me)"
    if "here (pre @ w0) (t @ w1 @ x # rest) me1" for me1
    using t(1) [unfolded reads_value_def, rule_format, OF that fol f] by simp
  have skip2: "ok (JsonPureStringParser_skipWhiteSpace me1) (here (pre @ w0 @ t @ w1) (x # rest))"
    if "here (pre @ w0 @ t) (w1 @ x # rest) me1" for me1
    using here_skip [OF that w(2)] x by auto
  show ?thesis
    unfolding array_loop.simps
    by (rule ok_step [OF skip1], rule ok_step [OF val], assumption, clarify, unfold JsonArray_add.simps rbind.simps,
        rule ok_step [OF skip2], assumption, rule K, assumption)
qed

lemma object_turn:
  assumes h: "here pre (w0 @ CHR 0x22 # n @ CHR 0x22 # w1 @ CHR '':'' # w2 @ t @ w3 @ x # rest) me"
    and w: "blanks w0" "blanks w1" "blanks w2" "blanks w3"
    and x: "x = CHR '','' \<or> x = CHR ''}''" and n: "plain n"
    and t: "reads_value v t" "t \<noteq> []" "starter (hd t)" and f: "length t \<le> f"
    and add: "JsonObject_add obj n v = Inr obj'"
    and K: "\<And>me. here (pre @ w0 @ CHR 0x22 # n @ CHR 0x22 # w1 @ CHR '':'' # w2 @ t @ w3) (x # rest) me \<Longrightarrow>
      ok (rbind (JsonPureStringParser_readChar (CHR '','') me) (\<lambda>(b, me).
         if b then object_loop f obj' me
         else rbind (JsonPureStringParser_readChar (CHR ''}'') me) (\<lambda>(b, me).
                if \<not> b then Inl AssertFailed else Inr (obj', me)))) Q"
  shows "ok (object_loop (Suc f) obj me) Q"
proof -
  let ?p = "pre @ w0 @ CHR 0x22 # n @ CHR 0x22 # w1 @ CHR '':'' # w2"
  let ?r = "CHR '':'' # w2 @ t @ w3 @ x # rest"
  have fol: "follow (w3 @ x # rest)" using x by (intro blanks_follow [OF w(4)]) auto
  have skip0: "ok (JsonPureStringParser_skipWhiteSpace me) (here (pre @ w0) (CHR 0x22 # n @ CHR 0x22 # w1 @ ?r))"
    using here_skip [OF h w(1)] by simp
  have name: "ok (JsonPureStringParser_readName me1) (\<lambda>(r, me). r = n \<and>
      here (pre @ w0 @ CHR 0x22 # n @ [CHR 0x22]) (w1 @ ?r) me)"
    if "here (pre @ w0) (CHR 0x22 # n @ CHR 0x22 # w1 @ ?r) me1" for me1
    using here_name [OF that n] by simp
  have skip1: "ok (JsonPureStringParser_skipWhiteSpace me1) (here (pre @ w0 @ CHR 0x22 # n @ CHR 0x22 # w1) ?r)"
    if "here (pre @ w0 @ CHR 0x22 # n @ [CHR 0x22]) (w1 @ ?r) me1" for me1
    using here_skip [OF that w(2)] by simp
  have colon: "ok (JsonPureStringParser_readChar (CHR '':'') me1) (\<lambda>(b, me). b = True \<and>
      here (pre @ w0 @ CHR 0x22 # n @ CHR 0x22 # w1 @ [CHR '':'']) (w2 @ t @ w3 @ x # rest) me)"
    if "here (pre @ w0 @ CHR 0x22 # n @ CHR 0x22 # w1) ?r me1" for me1
    using here_char [OF that] by simp
  have skip2: "ok (JsonPureStringParser_skipWhiteSpace me1) (here ?p (t @ w3 @ x # rest))"
    if "here (pre @ w0 @ CHR 0x22 # n @ CHR 0x22 # w1 @ [CHR '':'']) (w2 @ t @ w3 @ x # rest) me1" for me1
    using here_skip [OF that w(3)] starter_blanks [OF t(3,2)] by simp
  have val: "ok (JsonPureStringParser_readValue f me1) (\<lambda>(r, me). r = v \<and> here (?p @ t) (w3 @ x # rest) me)"
    if "here ?p (t @ w3 @ x # rest) me1" for me1
    using t(1) [unfolded reads_value_def, rule_format, OF that fol f] by simp
  have skip3: "ok (JsonPureStringParser_skipWhiteSpace me1) (here (?p @ t @ w3) (x # rest))"
    if "here (?p @ t) (w3 @ x # rest) me1" for me1
    using here_skip [OF that w(4)] x by auto
  show ?thesis
    unfolding object_loop.simps
    by (rule ok_step [OF skip0], rule ok_step [OF name], assumption, clarify, rule ok_step [OF skip1], assumption,
        rule ok_step [OF colon], assumption, clarify, unfold not_True_eq_False if_False, rule ok_step [OF skip2], assumption,
        rule ok_step [OF val], assumption, clarify, unfold add rbind.simps, rule ok_step [OF skip3], assumption,
        rule K, simp)
qed

lemma reads_element:
  assumes "json_text v t" "reads_value v t" "blanks w"
  shows "reads_elements [v] (t @ w)"
  unfolding reads_elements_def
proof (intro allI impI)
  fix pre w0 rest me fuel us
  assume h: "here pre (w0 @ (t @ w) @ CHR '']'' # rest) me" and w0: "blanks w0" and fuel: "length (t @ w) < fuel"
  note t = text_start(1) [OF assms(1)]
  obtain f where f: "fuel = Suc f" "length t \<le> f" using fuel by (cases fuel) auto
  have h': "here pre (w0 @ t @ w @ CHR '']'' # rest) me" using h by simp
  show "ok (array_loop fuel (JsonArray us) me)
      (\<lambda>(r, me). r = JsonArray (us @ [v]) \<and> here (pre @ w0 @ (t @ w) @ '']'') rest me)"
    unfolding f(1)
  proof (rule array_turn [OF h' w0 assms(3) _ assms(2) _ _ f(2)])
    fix me1
    assume h1: "here (pre @ w0 @ t @ w) (CHR '']'' # rest) me1"
    have "ok (JsonPureStringParser_readChar (CHR '']'') me1) (\<lambda>(b, me). b = True \<and> here (pre @ w0 @ (t @ w) @ '']'') rest me)"
      using here_char [OF h1] by simp
    then show "ok (rbind (JsonPureStringParser_readChar (CHR '','') me1) (\<lambda>(b, me).
         if b then array_loop f (JsonArray (us @ [v])) me
         else rbind (JsonPureStringParser_readChar (CHR '']'') me) (\<lambda>(b, me).
                if \<not> b then Inl AssertFailed else Inr (JsonArray (us @ [v]), me))))
       (\<lambda>(r, me). r = JsonArray (us @ [v]) \<and> here (pre @ w0 @ (t @ w) @ '']'') rest me)"
      using here_not [OF h1, of "CHR '',''"] by (auto elim!: ok_step)
  qed (use t in auto)
qed

lemma reads_more_elements:
  assumes "json_text v t" "reads_value v t" "blanks w1" "blanks w2" "reads_elements vs u"
  shows "reads_elements (v # vs) (t @ w1 @ CHR '','' # w2 @ u)"
  unfolding reads_elements_def
proof (intro allI impI)
  let ?u = "t @ w1 @ CHR '','' # w2 @ u"
  fix pre w0 rest me fuel us
  assume h: "here pre (w0 @ ?u @ CHR '']'' # rest) me" and w0: "blanks w0" and fuel: "length ?u < fuel"
  note t = text_start(1) [OF assms(1)]
  obtain f where f: "fuel = Suc f" "length t \<le> f" "length u < f" using fuel by (cases fuel) auto
  have h': "here pre (w0 @ t @ w1 @ CHR '','' # w2 @ u @ CHR '']'' # rest) me" using h by simp
  show "ok (array_loop fuel (JsonArray us) me)
      (\<lambda>(r, me). r = JsonArray (us @ v # vs) \<and> here (pre @ w0 @ ?u @ '']'') rest me)"
    unfolding f(1)
  proof (rule array_turn [OF h' w0 assms(3) _ assms(2) _ _ f(2)])
    fix me1
    assume h1: "here (pre @ w0 @ t @ w1) (CHR '','' # w2 @ u @ CHR '']'' # rest) me1"
    have loop: "ok (array_loop f (JsonArray (us @ [v])) me2)
        (\<lambda>(r, me). r = JsonArray (us @ v # vs) \<and> here (pre @ w0 @ ?u @ '']'') rest me)"
      if "here (pre @ w0 @ t @ w1 @ [CHR '','']) (w2 @ u @ CHR '']'' # rest) me2" for me2
      using assms(5) [unfolded reads_elements_def, rule_format, OF that assms(4) f(3), of "us @ [v]"] by simp
    have "ok (JsonPureStringParser_readChar (CHR '','') me1)
        (\<lambda>(b, me). b = True \<and> here (pre @ w0 @ t @ w1 @ [CHR '','']) (w2 @ u @ CHR '']'' # rest) me)"
      using here_char [OF h1] by simp
    then show "ok (rbind (JsonPureStringParser_readChar (CHR '','') me1) (\<lambda>(b, me).
         if b then array_loop f (JsonArray (us @ [v])) me
         else rbind (JsonPureStringParser_readChar (CHR '']'') me) (\<lambda>(b, me).
                if \<not> b then Inl AssertFailed else Inr (JsonArray (us @ [v]), me))))
       (\<lambda>(r, me). r = JsonArray (us @ v # vs) \<and> here (pre @ w0 @ ?u @ '']'') rest me)"
      by (rule ok_step) (use loop in auto)
  qed (use t in auto)
qed

lemma reads_member:
  assumes "plain n" "blanks w1" "blanks w2" "json_text v t" "reads_value v t" "blanks w3"
  shows "reads_members [(n, v)] (CHR 0x22 # n @ CHR 0x22 # w1 @ CHR '':'' # w2 @ t @ w3)"
  unfolding reads_members_def
proof (intro allI impI)
  let ?u = "CHR 0x22 # n @ CHR 0x22 # w1 @ CHR '':'' # w2 @ t @ w3"
  fix pre w0 rest me fuel obj obj'
  assume h: "here pre (w0 @ ?u @ CHR ''}'' # rest) me" and w0: "blanks w0" and fuel: "length ?u < fuel"
    and r: "rfold (\<lambda>(n, v) obj. JsonObject_add obj n v) [(n, v)] obj = Inr obj'"
  have add: "JsonObject_add obj n v = Inr obj'" using r by (cases "JsonObject_add obj n v") auto
  note t = text_start(1) [OF assms(4)]
  obtain f where f: "fuel = Suc f" "length t \<le> f" using fuel by (cases fuel) auto
  have h': "here pre (w0 @ CHR 0x22 # n @ CHR 0x22 # w1 @ CHR '':'' # w2 @ t @ w3 @ CHR ''}'' # rest) me" using h by simp
  show "ok (object_loop fuel obj me) (\<lambda>(r, me). r = obj' \<and> here (pre @ w0 @ ?u @ ''}'') rest me)"
    unfolding f(1)
  proof (rule object_turn [OF h' w0 assms(2,3,6) _ assms(1,5) _ _ f(2) add])
    fix me1
    assume h1: "here (pre @ w0 @ ?u) (CHR ''}'' # rest) me1"
    have "ok (JsonPureStringParser_readChar (CHR ''}'') me1) (\<lambda>(b, me). b = True \<and> here (pre @ w0 @ ?u @ ''}'') rest me)"
      using here_char [OF h1] by simp
    then show "ok (rbind (JsonPureStringParser_readChar (CHR '','') me1) (\<lambda>(b, me).
         if b then object_loop f obj' me
         else rbind (JsonPureStringParser_readChar (CHR ''}'') me) (\<lambda>(b, me).
                if \<not> b then Inl AssertFailed else Inr (obj', me))))
       (\<lambda>(r, me). r = obj' \<and> here (pre @ w0 @ ?u @ ''}'') rest me)"
      using here_not [OF h1, of "CHR '',''"] by (auto elim!: ok_step)
  qed (use t in auto)
qed

lemma reads_more_members:
  assumes "plain n" "blanks w1" "blanks w2" "json_text v t" "reads_value v t" "blanks w3" "blanks w4" "reads_members ms u"
  shows "reads_members ((n, v) # ms) (CHR 0x22 # n @ CHR 0x22 # w1 @ CHR '':'' # w2 @ t @ w3 @ CHR '','' # w4 @ u)"
  unfolding reads_members_def
proof (intro allI impI)
  let ?hd = "CHR 0x22 # n @ CHR 0x22 # w1 @ CHR '':'' # w2 @ t @ w3"
  let ?u = "CHR 0x22 # n @ CHR 0x22 # w1 @ CHR '':'' # w2 @ t @ w3 @ CHR '','' # w4 @ u"
  fix pre w0 rest me fuel obj obj'
  assume h: "here pre (w0 @ ?u @ CHR ''}'' # rest) me" and w0: "blanks w0" and fuel: "length ?u < fuel"
    and r: "rfold (\<lambda>(n, v) obj. JsonObject_add obj n v) ((n, v) # ms) obj = Inr obj'"
  obtain obj1 where add: "JsonObject_add obj n v = Inr obj1"
    and r1: "rfold (\<lambda>(n, v) obj. JsonObject_add obj n v) ms obj1 = Inr obj'" using r by (auto simp: rbind_eq_Inr)
  note t = text_start(1) [OF assms(4)]
  obtain f where f: "fuel = Suc f" "length t \<le> f" "length u < f" using fuel by (cases fuel) auto
  have h': "here pre (w0 @ CHR 0x22 # n @ CHR 0x22 # w1 @ CHR '':'' # w2 @ t @ w3 @ CHR '','' # w4 @ u @ CHR ''}'' # rest) me"
    using h by simp
  show "ok (object_loop fuel obj me) (\<lambda>(r, me). r = obj' \<and> here (pre @ w0 @ ?u @ ''}'') rest me)"
    unfolding f(1)
  proof (rule object_turn [OF h' w0 assms(2,3,6) _ assms(1,5) _ _ f(2) add])
    fix me1
    assume h1: "here (pre @ w0 @ ?hd) (CHR '','' # w4 @ u @ CHR ''}'' # rest) me1"
    have loop: "ok (object_loop f obj1 me2) (\<lambda>(r, me). r = obj' \<and> here (pre @ w0 @ ?u @ ''}'') rest me)"
      if "here (pre @ w0 @ ?hd @ [CHR '','']) (w4 @ u @ CHR ''}'' # rest) me2" for me2
      using assms(8) [unfolded reads_members_def, rule_format, OF that assms(7) f(3) r1] by simp
    have "ok (JsonPureStringParser_readChar (CHR '','') me1)
        (\<lambda>(b, me). b = True \<and> here (pre @ w0 @ ?hd @ [CHR '','']) (w4 @ u @ CHR ''}'' # rest) me)"
      using here_char [OF h1] by simp
    then show "ok (rbind (JsonPureStringParser_readChar (CHR '','') me1) (\<lambda>(b, me).
         if b then object_loop f obj1 me
         else rbind (JsonPureStringParser_readChar (CHR ''}'') me) (\<lambda>(b, me).
                if \<not> b then Inl AssertFailed else Inr (obj1, me))))
       (\<lambda>(r, me). r = obj' \<and> here (pre @ w0 @ ?u @ ''}'') rest me)"
      by (rule ok_step) (use loop in auto)
  qed (use t in auto)
qed

lemma reads_grammar:
  "json_text v t \<Longrightarrow> reads_value v t"
  "elements vs t \<Longrightarrow> reads_elements vs t"
  "members ms t \<Longrightarrow> reads_members ms t"
  by (induction rule: json_text_elements_members.inducts)
    (blast intro: reads_keyword reads_string reads_number reads_empty_array reads_array reads_empty_object reads_object
      reads_element reads_more_elements reads_member reads_more_members)+

text \<open>The first character is read before anything else.\<close>

lemma parse_start:
  assumes "JsonPureStringParser_init t = Inr me" "2 * int (length t) + 2 \<le> INT_MAX"
  shows "ok (JsonPureStringParser_read me) (here [] t)"
proof -
  define p where "p = \<lparr>p_input = t, p_len = int (length t), index = -1, line = 1, column = 0, current = CHR 0x00,
      captureBuffer = StringBuffer_init, captureStart = -1, p_NULL = JsonLiteral ''null'',
      p_TRUE = JsonLiteral ''true'', p_FALSE = JsonLiteral ''false''\<rparr>"
  have "me = p"
    using assms by (simp add: p_def JsonPureStringParser_init_def c_int_ok INT_MAX_def JsonLiteral_create_def)
  moreover have "JsonPureStringParser_read p = Inr (p\<lparr>index := 0, current := cur t\<rparr>)"
    by (cases t) (simp_all add: p_def JsonPureStringParser_read_def c_int_ok INT_MAX_def arr_get_def)
  moreover have "at StringBuffer_init (-1) [] t (p\<lparr>index := 0, current := cur t\<rparr>)"
    using assms(2) by (simp add: at_def p_def)
  ultimately show ?thesis by (auto simp: here_def)
qed

lemma parse_text:
  assumes "json_text v t" "blanks w1" "blanks w2" "2 * int (length (w1 @ t @ w2)) + 2 \<le> INT_MAX"
  shows "ok (rbind (JsonPureStringParser_init (w1 @ t @ w2)) JsonPureStringParser_parse) (\<lambda>(r, me). r = v)"
proof -
  note t = text_start(1) [OF assms(1)]
  have fol: "follow w2" using blanks_follow [OF assms(3), of "[]"] by simp
  obtain me where me: "JsonPureStringParser_init (w1 @ t @ w2) = Inr me"
    using assms(4) by (simp add: JsonPureStringParser_init_def c_int_def INT_MAX_def)
  have skip1: "ok (JsonPureStringParser_skipWhiteSpace me1) (here w1 (t @ w2))" if "here [] (w1 @ t @ w2) me1" for me1
    using here_skip [OF that assms(2)] starter_blanks [of t w2] t by simp
  have val: "ok (JsonPureStringParser_readValue (2 * input_fuel me1) me1) (\<lambda>(r, me). r = v \<and> here (w1 @ t) w2 me)"
    if h: "here w1 (t @ w2) me1" for me1
  proof -
    have "length t \<le> 2 * input_fuel me1" using h by (auto simp: here_def input_fuel_at)
    then show ?thesis using reads_grammar(1) [OF assms(1), unfolded reads_value_def, rule_format, OF h fol] by simp
  qed
  have skip2: "ok (JsonPureStringParser_skipWhiteSpace me1) (here (w1 @ t @ w2) [])" if "here (w1 @ t) w2 me1" for me1
    using here_skip [of "w1 @ t" w2 "[]" me1] that assms(3) by simp
  have fin: "JsonPureStringParser_isEndOfText me1" if "here (w1 @ t @ w2) [] me1" for me1
    using here_current [OF that] by (simp add: JsonPureStringParser_isEndOfText_def)
  show ?thesis
    unfolding me rbind.simps JsonPureStringParser_parse_def
    by (rule ok_step [OF parse_start [OF me assms(4)]], rule ok_step [OF skip1], assumption, rule ok_step [OF val], assumption,
        clarify, rule ok_step [OF skip2], assumption, use fin in auto)
qed

section \<open>What the parser cannot read\<close>

text \<open>An empty string stores its terminating NUL behind an allocation of zero bytes.\<close>

lemma empty_string_faults:
  assumes "at StringBuffer_init s pre (CHR 0x22 # CHR 0x22 # rest) me"
  shows "JsonPureStringParser_readStringInternal me = Inl OutOfBounds"
proof -
  obtain me1 where r: "JsonPureStringParser_read me = Inr me1" "at StringBuffer_init s (pre @ [CHR 0x22]) (CHR 0x22 # rest) me1"
    using read_at [OF assms] by (cases "JsonPureStringParser_read me") auto
  let ?me = "JsonPureStringParser_startCapture me1"
  have at: "at StringBuffer_init (int (length (pre @ [CHR 0x22]))) ((pre @ [CHR 0x22]) @ []) (CHR 0x22 # rest) ?me"
    using startCapture_at [OF r(2)] by simp
  have "string_loop (input_fuel me1) ?me = Inr ?me"
    using at_current [OF at] by (simp add: input_fuel_def)
  moreover have "captured_text ?me = Inr []" using captured_text_at [OF at] by simp
  moreover have "captureBuffer ?me = StringBuffer_init" using at by (simp add: at_def)
  ultimately show ?thesis
    using r(1) append_first [of "[]"]
    by (simp add: JsonPureStringParser_readStringInternal_def JsonPureStringParser_endCapture_def arr_set_def INT_MAX_def)
qed

text \<open>A string that starts with an escape appends the escaped character to an allocation of zero bytes.\<close>

lemma first_escape_faults:
  assumes "at StringBuffer_init s pre (CHR 0x22 # CHR 0x5C # c # rest) me" "c \<in> set ''/bfnrt'' \<or> c = CHR 0x22 \<or> c = CHR 0x5C"
  shows "JsonPureStringParser_readStringInternal me = Inl OutOfBounds"
proof -
  obtain me1 where r: "JsonPureStringParser_read me = Inr me1"
    "at StringBuffer_init s (pre @ [CHR 0x22]) (CHR 0x5C # c # rest) me1"
    using read_at [OF assms(1)] by (cases "JsonPureStringParser_read me") auto
  let ?me = "JsonPureStringParser_startCapture me1"
  have at: "at StringBuffer_init (int (length (pre @ [CHR 0x22]))) ((pre @ [CHR 0x22]) @ []) (CHR 0x5C # c # rest) ?me"
    using startCapture_at [OF r(2)] by simp
  let ?b = "\<lparr>buf = Some [], buf_len = 0, buf_pos = 0\<rparr>"
  let ?me2 = "?me\<lparr>captureBuffer := ?b, captureStart := -1\<rparr>"
  have "captured_text ?me = Inr []" using captured_text_at [OF at] by simp
  moreover have "captureBuffer ?me = StringBuffer_init" using at by (simp add: at_def)
  ultimately have pause: "JsonPureStringParser_pauseCapture ?me = Inr ?me2"
    using append_first [of "[]"] by (simp add: JsonPureStringParser_pauseCapture_def INT_MAX_def)
  have "at ?b (-1) (pre @ [CHR 0x22]) (CHR 0x5C # c # rest) ?me2" using r(2)
    by (simp add: at_def JsonPureStringParser_startCapture_def)
  then obtain me3 where me3: "JsonPureStringParser_read ?me2 = Inr me3" "at ?b (-1) (pre @ [CHR 0x22, CHR 0x5C]) (c # rest) me3"
    using read_at [of ?b "-1" "pre @ [CHR 0x22]" "CHR 0x5C" "c # rest" ?me2] by (cases "JsonPureStringParser_read ?me2") auto
  have "captureBuffer me3 = ?b" "current me3 = c" using me3(2) by (auto simp: at_def)
  moreover obtain e where "escape_char c = Inr e" using assms(2) by (auto simp: escape_char_def)
  moreover have "StringBuffer_append ?b [e] = Inl OutOfBounds" for e
    by (simp add: StringBuffer_append_def c_int_def INT_MAX_def memcpy_at_def)
  ultimately have "JsonPureStringParser_readEscape ?me2 = Inl OutOfBounds"
    using me3(1) by (simp add: JsonPureStringParser_readEscape_def)
  moreover have "current ?me = CHR 0x5C" using at_current [OF at] by simp
  ultimately show ?thesis
    using r(1) pause by (simp add: JsonPureStringParser_readStringInternal_def input_fuel_def)
qed

text \<open>
  A string without closing quote: the loop that looks for it passes the end of the input, where the current
  character stays NUL, and ends at no number of turns.
\<close>

lemma string_loop_past:
  assumes "current me = CHR 0x00" "p_len me \<le> index me"
  shows "string_loop fuel me \<noteq> Inr r"
  using assms
proof (induction fuel arbitrary: me)
  case (Suc fuel)
  have "string_loop fuel me' \<noteq> Inr r" if "JsonPureStringParser_read me = Inr me'" for me'
    using that Suc.prems by (intro Suc.IH) (auto simp: JsonPureStringParser_read_def rbind_eq_Inr c_int_Inr split: if_splits)
  then show ?case using Suc.prems by (auto simp: rbind_eq_Inr)
qed simp

lemma unterminated:
  assumes "at b s pre t me" "CHR 0x22 \<notin> set t" "CHR 0x5C \<notin> set t"
  shows "string_loop fuel me \<noteq> Inr r"
  using assms
proof (induction t arbitrary: pre fuel me)
  case Nil
  then show ?case by (intro string_loop_past) (auto simp: at_def)
next
  case (Cons c t)
  show ?case
  proof (cases fuel)
    case (Suc f)
    obtain me' where "JsonPureStringParser_read me = Inr me'" "at b s (pre @ [c]) t me'"
      using read_at [OF Cons.prems(1)] by (cases "JsonPureStringParser_read me") auto
    then show ?thesis using Cons.IH [of "pre @ [c]" me' f] Cons.prems at_current [OF Cons.prems(1)] Suc by auto
  qed simp
qed

end
