(* ===== verification/JsonTable.thy ===== *)
theory JsonTable
  imports AwfyJson
begin

text \<open>
  The hash index of a JSON object: the slot of a name depends on its length modulo 32 only, and holds the
  position of the last member added with such a name.
\<close>

lemma uint_hash: "uint (of_nat n * 1402589 :: 32 word) mod 32 = int n * 29 mod 32"
proof -
  have "uint (of_nat n * 1402589 :: 32 word) = (int n mod 2 ^ 32) * 1402589 mod 2 ^ 32"
    using take_bit_eq_mod [of 32 "int n"] by (simp add: uint_word_ariths unsigned_of_nat of_nat_take_bit)
  then have "uint (of_nat n * 1402589 :: 32 word) mod 32 = (int n mod 2 ^ 32 mod 32) * 1402589 mod 32"
    by (simp add: mod_mod_cancel mod_mult_left_eq)
  also have "\<dots> = int n * 1402589 mod 32" by (simp add: mod_mod_cancel mod_mult_left_eq)
  also have "int n * 1402589 = int n * 29 + 32 * (43830 * int n)" by simp
  finally show ?thesis by (simp only: mod_mult_self2)
qed

lemma hash_slot:
  assumes "table_len t = 32"
  shows "HashIndexTable_hashSlotFor t s = int (length s) * 29 mod 32"
proof -
  have "(31 :: 32 word) = mask 5" by (simp add: mask_eq_exp_minus_1)
  then have "and w 31 = take_bit 5 w" for w :: "32 word" by (simp add: take_bit_eq_mask)
  moreover have "uint (take_bit 5 w) = uint w mod 32" for w :: "32 word"
    using take_bit_eq_mod [of 5 "uint w"] by (simp add: unsigned_take_bit_eq)
  ultimately show ?thesis
    using assms by (simp add: HashIndexTable_hashSlotFor_def HashIndexTable_stringHash_def uint_hash)
qed

lemma mod29: "int a * 29 mod 32 = int b * 29 mod 32 \<longleftrightarrow> a mod 32 = b mod 32"
proof
  have *: "x mod 32 = (x * 29 mod 32) * 21 mod 32" for x :: int
  proof -
    have "(x * 29 mod 32) * 21 mod 32 = (x * 29) * 21 mod 32" by (rule mod_mult_left_eq)
    also have "(x * 29) * 21 = x + 32 * (19 * x)" by simp
    finally show ?thesis by (simp only: mod_mult_self2)
  qed
  assume "int a * 29 mod 32 = int b * 29 mod 32"
  then have "int a mod 32 = int b mod 32" using * [of "int a"] * [of "int b"] by simp
  then have "int (a mod 32) = int (b mod 32)" by (simp add: zmod_int)
  then show "a mod 32 = b mod 32" by (simp only: of_nat_eq_iff)
next
  assume "a mod 32 = b mod 32"
  then have "int (a mod 32) = int (b mod 32)" by simp
  then have "int a mod 32 = int b mod 32" by (simp add: zmod_int)
  then show "int a * 29 mod 32 = int b * 29 mod 32" by (rule mod_mult_cong) simp
qed

definition same_slot :: "string \<Rightarrow> string \<Rightarrow> bool" where
  "same_slot n m \<longleftrightarrow> length n mod 32 = length m mod 32"

text \<open>The members added so far whose names fall in the slot of \<open>n\<close>; the entry names the last of them.\<close>

definition rivals :: "string \<Rightarrow> (string \<times> json) list \<Rightarrow> (string \<times> json) list" where
  "rivals n ms = filter (\<lambda>(m, v). same_slot n m) ms"

lemma rivals_snoc [simp]: "rivals n (ms @ [(m, v)]) = (if same_slot n m then rivals n ms @ [(m, v)] else rivals n ms)"
  by (simp add: rivals_def)

definition entry :: "(string \<times> json) list \<Rightarrow> string \<Rightarrow> int \<Rightarrow> bool" where
  "entry ms n e \<longleftrightarrow> (if rivals n ms = [] then e = 0
     else 1 \<le> e \<and> e \<le> int (length ms) \<and> ms ! nat (e - 1) = last (rivals n ms))"

definition object_of :: "(string \<times> json) list \<Rightarrow> json \<Rightarrow> bool" where
  "object_of ms obj \<longleftrightarrow> (\<exists>T. obj = JsonObject (map fst ms) (map snd ms) \<lparr>hashTable = T, table_len = 32\<rparr> \<and>
     length T = 32 \<and> (\<forall>n. entry ms n (T ! nat (int (length n) * 29 mod 32))))"

lemma object_of_create: "object_of [] JsonObject_create"
  by (auto simp: object_of_def JsonObject_create_def HashIndexTable_init_def entry_def rivals_def)

lemma entry_snoc_other: "entry ms n e \<Longrightarrow> \<not> same_slot n m \<Longrightarrow> entry (ms @ [(m, v)]) n e"
  by (auto simp: entry_def nth_append)

lemma object_of_add:
  assumes "object_of ms obj" "length ms < 255" "n \<noteq> []"
  shows "\<exists>obj'. JsonObject_add obj n v = Inr obj' \<and> object_of (ms @ [(n, v)]) obj'"
proof -
  obtain T where obj: "obj = JsonObject (map fst ms) (map snd ms) \<lparr>hashTable = T, table_len = 32\<rparr>"
    and T: "length T = 32" "\<And>n. entry ms n (T ! nat (int (length n) * 29 mod 32))"
    using assms(1) by (auto simp: object_of_def)
  let ?k = "nat (int (length n) * 29 mod 32)"
  let ?T = "T[?k := int (length ms) + 1]"
  have k: "?k < 32" by simp
  have "JsonObject_add obj n v = Inr (JsonObject (map fst (ms @ [(n, v)])) (map snd (ms @ [(n, v)]))
      \<lparr>hashTable = ?T, table_len = 32\<rparr>)"
    using assms(2,3) T(1) by (simp add: obj HashIndexTable_add_def hash_slot arr_set_def)
  moreover have "entry (ms @ [(n, v)]) m (?T ! nat (int (length m) * 29 mod 32))" for m
  proof (cases "same_slot m n")
    case True
    then have "nat (int (length m) * 29 mod 32) = ?k" by (simp only: same_slot_def mod29 [symmetric])
    with True k T(1) show ?thesis by (simp add: entry_def)
  next
    case False
    then have "nat (int (length m) * 29 mod 32) \<noteq> ?k"
      by (simp add: same_slot_def mod29 [symmetric])
    with False T(2) [of m] show ?thesis by (simp add: entry_snoc_other)
  qed
  ultimately show ?thesis using T(1) by (auto simp: object_of_def)
qed

lemma object_of_fold:
  assumes "rfold (\<lambda>(n, v) obj. JsonObject_add obj n v) ms obj = Inr obj'" "object_of ks obj" "length ks + length ms \<le> 255"
  shows "object_of (ks @ ms) obj' \<and> (\<forall>(n, v)\<in>set ms. n \<noteq> [])"
  using assms
proof (induction ms arbitrary: ks obj)
  case (Cons m ms)
  obtain n v where m: "m = (n, v)" by force
  obtain obj1 where add: "JsonObject_add obj n v = Inr obj1"
    and r: "rfold (\<lambda>(n, v) obj. JsonObject_add obj n v) ms obj1 = Inr obj'"
    using Cons.prems(1) m by (cases "JsonObject_add obj n v") auto
  have n: "n \<noteq> []" using add by (cases obj) (auto split: if_splits)
  have "object_of (ks @ [m]) obj1" using object_of_add [OF Cons.prems(2) _ n, of v] Cons.prems(3) add m by auto
  from Cons.IH [OF r this] Cons.prems(3) n m show ?case by auto
qed auto

lemma get_object_of:
  assumes "object_of ms obj" "length ms \<le> 255" "n \<noteq> []"
  shows "JsonObject_get obj n =
    (if rivals n ms = [] \<or> fst (last (rivals n ms)) \<noteq> n then Inl AssertFailed else Inr (Some (snd (last (rivals n ms)))))"
proof -
  obtain T where obj: "obj = JsonObject (map fst ms) (map snd ms) \<lparr>hashTable = T, table_len = 32\<rparr>"
    and T: "length T = 32" "entry ms n (T ! nat (int (length n) * 29 mod 32))"
    using assms(1) by (auto simp: object_of_def)
  define e where "e = T ! nat (int (length n) * 29 mod 32)"
  have get: "HashIndexTable_get \<lparr>hashTable = T, table_len = 32\<rparr> n = Inr (e mod 256 - 1)"
    using T(1) by (simp add: HashIndexTable_get_def hash_slot arr_get_def e_def)
  show ?thesis
  proof (cases "rivals n ms = []")
    case True
    then have "e = 0" using T(2) by (simp add: entry_def e_def)
    with True get assms(3) show ?thesis by (simp add: obj)
  next
    case False
    then have e: "1 \<le> e" "e \<le> int (length ms)" "ms ! nat (e - 1) = last (rivals n ms)"
      using T(2) by (auto simp: entry_def e_def)
    then have "e mod 256 = e" using assms(2) by simp
    with False get assms(3) e show ?thesis by (auto simp: obj arr_get_def)
  qed
qed

lemma same_slot_refl: "same_slot n n"
  by (simp add: same_slot_def)

end
