(* ===== verification/JsonSpec.thy ===== *)
theory JsonSpec
  imports JsonParse JsonTable
begin

text \<open>
  The properties of \<open>Json.c\<close>: what the parser reads, what a lookup in an object finds, when the benchmark
  verifies its result, and the strings the parser cannot read.
\<close>

lemma parse_value:
  assumes "json_text v t" "blanks w1" "blanks w2" "2 * int (length (w1 @ t @ w2)) + 2 \<le> INT_MAX"
  shows "\<exists>p. rbind (JsonPureStringParser_init (w1 @ t @ w2)) JsonPureStringParser_parse = Inr (v, p)"
  using parse_text [OF assms] by (cases "rbind (JsonPureStringParser_init (w1 @ t @ w2)) JsonPureStringParser_parse") auto

lemma text_object:
  "JsonObject_add obj n v = Inr obj' \<Longrightarrow> \<exists>ns vs t. obj' = JsonObject ns vs t"
  by (cases obj) (auto simp: rbind_eq_Inr split: if_splits)

lemma benchmark_object:
  assumes "blanks w1" "blanks w" "members ms t" "blanks w2"
    "rfold (\<lambda>(n, v) obj. JsonObject_add obj n v) ms JsonObject_create = Inr obj"
    "2 * int (length (w1 @ (CHR ''{'' # w @ t @ ''}'') @ w2)) + 2 \<le> INT_MAX"
  shows "json_benchmark (w1 @ (CHR ''{'' # w @ t @ ''}'') @ w2) r = Inr (0, Some obj)"
  using parse_value [OF obj [OF assms(2,3,5)] assms(1,4,6)] by (auto simp: json_benchmark_def rbind_eq_Inr)


text \<open>The text \<open>{"ab": [1, -2.5e+3, "x"], "c": null}\<close>, with a newline after it.\<close>

definition sample_array :: string where
  "sample_array = CHR ''['' # [] @ (''1'' @ [] @ CHR '','' # '' '' @ ''-2.5e+3'' @ [] @ CHR '','' # '' '' @
     (CHR 0x22 # ''x'' @ [CHR 0x22]) @ []) @ [CHR '']'']"

definition sample_members :: "(string \<times> json) list" where
  "sample_members = [(''ab'', JsonArray [JsonNumber ''1'', JsonNumber ''-2.5e+3'', JsonString ''x'']),
     (''c'', JsonLiteral ''null'')]"

definition sample_text :: string where
  "sample_text = CHR 0x22 # ''ab'' @ CHR 0x22 # [] @ CHR '':'' # '' '' @ sample_array @ [] @ CHR '','' # '' '' @
     (CHR 0x22 # ''c'' @ CHR 0x22 # [] @ CHR '':'' # '' '' @ ''null'' @ [])"

definition sample_object :: json where
  "sample_object = JsonObject (map fst sample_members) (map snd sample_members)
     \<lparr>hashTable = (replicate 32 0)[26 := 1, 29 := 2], table_len = 32\<rparr>"

lemma sample_numbers: "number ''1''" "number ''-2.5e+3''"
proof -
  have "integer_part ''1''" "integer_part ''2''" "fraction []" "fraction ''.5''" "exponent []" "exponent ''e+3''"
    by (simp_all add: integer_part_def fraction_def exponent_def digits1_def digit_def)
  note * = this
  show "number ''1''"
    unfolding number_def
    by (rule exI [of _ "''''"], rule exI [of _ "''1''"], rule exI [of _ "[]"], rule exI [of _ "[]"]) (simp add: *)
  show "number ''-2.5e+3''"
    unfolding number_def
    by (rule exI [of _ "''-''"], rule exI [of _ "''2''"], rule exI [of _ "''.5''"], rule exI [of _ "''e+3''"]) (simp add: *)
qed

lemma sample_elements: "json_text (JsonArray [JsonNumber ''1'', JsonNumber ''-2.5e+3'', JsonString ''x'']) sample_array"
  unfolding sample_array_def
  by (rule array, simp, rule more_elements, rule num, rule sample_numbers, simp, simp, rule more_elements, rule num,
      rule sample_numbers, simp, simp, rule element, rule str) (simp_all add: plain_def)

lemma sample_members_text: "members sample_members sample_text"
  unfolding sample_members_def sample_text_def
  by (rule more_members, simp add: plain_def, simp, simp, rule sample_elements, simp, simp, rule member,
      simp add: plain_def, simp, simp, rule null) simp

lemma sample_fold: "rfold (\<lambda>(n, v) obj. JsonObject_add obj n v) sample_members JsonObject_create = Inr sample_object"
  by (simp add: sample_members_def sample_object_def JsonObject_create_def HashIndexTable_init_def HashIndexTable_add_def
      hash_slot arr_set_def numeral_eq_Suc)

lemma sample_object_text: "json_text sample_object (CHR ''{'' # [] @ sample_text @ [CHR ''}''])"
  by (rule obj [OF _ sample_members_text sample_fold]) simp





text \<open>The text of \<open>n + 1\<close> ones between commas, and a document with as many operations.\<close>

fun ones :: "nat \<Rightarrow> string" where
  "ones 0 = ''1''"
| "ones (Suc n) = ''1'' @ [] @ CHR '','' # [] @ ones n"

lemma ones_elements: "elements (replicate (Suc n) (JsonNumber ''1'')) (ones n)"
proof (induction n)
  case 0
  have "elements [JsonNumber ''1''] (''1'' @ [])"
    by (rule element, rule num, rule sample_numbers) simp
  then show ?case by simp
next
  case (Suc n)
  have "elements (JsonNumber ''1'' # replicate (Suc n) (JsonNumber ''1'')) (''1'' @ [] @ CHR '','' # [] @ ones n)"
    by (rule more_elements, rule num, rule sample_numbers, simp, simp, rule Suc)
  then show ?case by simp
qed

lemma ones_length: "length (ones n) = 2 * n + 1"
  by (induction n) auto

definition ones_members :: "(string \<times> json) list" where
  "ones_members = [(''head'', JsonObject_create), (''operations'', JsonArray (replicate 156 (JsonNumber ''1'')))]"

definition ones_text :: string where
  "ones_text = CHR 0x22 # ''head'' @ CHR 0x22 # [] @ CHR '':'' # [] @ (CHR ''{'' # [] @ ''}'') @ [] @ CHR '','' # [] @
     (CHR 0x22 # ''operations'' @ CHR 0x22 # [] @ CHR '':'' # [] @ (CHR ''['' # [] @ ones 155 @ '']'') @ [])"

lemma ones_members_text: "members ones_members ones_text"
proof -
  have "json_text (JsonArray (replicate (Suc 155) (JsonNumber ''1''))) (CHR ''['' # [] @ ones 155 @ '']'')"
    by (rule array, simp, rule ones_elements)
  then have "json_text (JsonArray (replicate 156 (JsonNumber ''1''))) (CHR ''['' # [] @ ones 155 @ '']'')"
    by (simp only: numeral_eq_Suc pred_numeral_simps BitM.simps eval_nat_numeral)
  then show ?thesis
    unfolding ones_members_def ones_text_def
    by (intro more_members member empty_object) (simp_all add: plain_def)
qed




end
