(* ===== verification/AwfyRichards.thy ===== *)
theory AwfyRichards
  imports AwfyRun "HOL-Library.Word"
begin

text \<open>
  \<open>Richards.c\<close>: the operating-system simulation. Packets and task control blocks are cells of two heaps, a
  pointer is the position of its cell and \<open>None\<close> the null pointer; a queue of packets is a chain of \<open>p_link\<close>
  fields. The private data of a task is a value in its control block, since no other task reaches it, and the
  process function is named by a constructor. The list of all objects (\<open>toDelete\<close>) only serves to free them.
\<close>

unbundle bit_operations_syntax

section \<open>Packets\<close>

definition IDLER :: int where "IDLER = 0"
definition WORKER :: int where "WORKER = 1"
definition HANDLER_A :: int where "HANDLER_A = 2"
definition HANDLER_B :: int where "HANDLER_B = 3"
definition DEVICE_A :: int where "DEVICE_A = 4"
definition DEVICE_B :: int where "DEVICE_B = 5"
definition NUM_TYPES :: nat where "NUM_TYPES = 6"
definition DEVICE_PACKET_KIND :: int where "DEVICE_PACKET_KIND = 0"
definition WORK_PACKET_KIND :: int where "WORK_PACKET_KIND = 1"
definition DATA_SIZE :: nat where "DATA_SIZE = 4"

record packet =
  p_link :: "nat option"
  p_identity :: int
  p_kind :: int
  p_datum :: int
  p_data :: "int list"

type_synonym packets = "packet list"

definition packet_at :: "packets \<Rightarrow> nat \<Rightarrow> packet res" where
  "packet_at ps p = (if p < length ps then Inr (ps ! p) else Inl UseAfterFree)"

definition packet_update :: "nat \<Rightarrow> (packet \<Rightarrow> packet) \<Rightarrow> packets \<Rightarrow> packets res" where
  "packet_update p f ps = rbind (packet_at ps p) (\<lambda>x. Inr (ps[p := f x]))"

definition deref :: "nat option \<Rightarrow> nat res" where
  "deref p = (case p of None \<Rightarrow> Inl NullDeref | Some i \<Rightarrow> Inr i)"

definition Packet_create :: "nat option \<Rightarrow> int \<Rightarrow> int \<Rightarrow> packets \<Rightarrow> nat \<times> packets" where
  "Packet_create link identity kind ps =
     (length ps, ps @ [\<lparr>p_link = link, p_identity = identity, p_kind = kind, p_datum = 0, p_data = replicate DATA_SIZE 0\<rparr>])"

definition Packet_setLink :: "nat \<Rightarrow> nat option \<Rightarrow> packets \<Rightarrow> packets res" where
  "Packet_setLink me aLink = packet_update me (p_link_update (\<lambda>_. aLink))"

definition Packet_getLink :: "nat \<Rightarrow> packets \<Rightarrow> nat option res" where
  "Packet_getLink me ps = rbind (packet_at ps me) (\<lambda>x. Inr (p_link x))"

definition Packet_setDatum :: "nat \<Rightarrow> int \<Rightarrow> packets \<Rightarrow> packets res" where
  "Packet_setDatum me d = packet_update me (p_datum_update (\<lambda>_. d))"

definition Packet_setIdentity :: "nat \<Rightarrow> int \<Rightarrow> packets \<Rightarrow> packets res" where
  "Packet_setIdentity me i = packet_update me (p_identity_update (\<lambda>_. i))"

text \<open>The walk to the last packet, with one unit of fuel per packet of the heap.\<close>

fun append_loop :: "nat \<Rightarrow> nat \<Rightarrow> packets \<Rightarrow> nat res" where
  "append_loop 0 mouse ps = Inl OutOfFuel"
| "append_loop (Suc fuel) mouse ps =
     rbind (Packet_getLink mouse ps) (\<lambda>link. case link of None \<Rightarrow> Inr mouse | Some l \<Rightarrow> append_loop fuel l ps)"

definition RBObject_append :: "nat \<Rightarrow> nat option \<Rightarrow> packets \<Rightarrow> (nat option \<times> packets) res" where
  "RBObject_append packet queueHead ps =
     rbind (Packet_setLink packet None ps) (\<lambda>ps.
       case queueHead of
         None \<Rightarrow> Inr (Some packet, ps)
       | Some h \<Rightarrow>
           rbind (append_loop (length ps) h ps) (\<lambda>mouse.
           rbind (Packet_setLink mouse (Some packet) ps) (\<lambda>ps. Inr (queueHead, ps))))"

section \<open>Task states\<close>

record task_state =
  packetPending :: bool
  taskWaiting :: bool
  taskHolding :: bool

definition TaskState_init :: task_state where
  "TaskState_init = \<lparr>packetPending = False, taskWaiting = False, taskHolding = False\<rparr>"

definition TaskState_packetPending :: "'a task_state_scheme \<Rightarrow> 'a task_state_scheme" where
  "TaskState_packetPending me = me\<lparr>packetPending := True, taskWaiting := False, taskHolding := False\<rparr>"

definition TaskState_running :: "'a task_state_scheme \<Rightarrow> 'a task_state_scheme" where
  "TaskState_running me = me\<lparr>packetPending := False, taskWaiting := False, taskHolding := False\<rparr>"

definition TaskState_waiting :: "'a task_state_scheme \<Rightarrow> 'a task_state_scheme" where
  "TaskState_waiting me = me\<lparr>packetPending := False, taskHolding := False, taskWaiting := True\<rparr>"

definition TaskState_waitingWithPacket :: "'a task_state_scheme \<Rightarrow> 'a task_state_scheme" where
  "TaskState_waitingWithPacket me = me\<lparr>taskHolding := False, taskWaiting := True, packetPending := True\<rparr>"

definition TaskState_isTaskHoldingOrWaiting :: "'a task_state_scheme \<Rightarrow> bool" where
  "TaskState_isTaskHoldingOrWaiting me \<longleftrightarrow> taskHolding me \<or> (\<not> packetPending me \<and> taskWaiting me)"

definition TaskState_isWaitingWithPacket :: "'a task_state_scheme \<Rightarrow> bool" where
  "TaskState_isWaitingWithPacket me \<longleftrightarrow> packetPending me \<and> taskWaiting me \<and> \<not> taskHolding me"

definition TaskState_createRunning :: task_state where
  "TaskState_createRunning = TaskState_running TaskState_init"

definition TaskState_createWaiting :: task_state where
  "TaskState_createWaiting = TaskState_waiting TaskState_init"

definition TaskState_createWaitingWithPacket :: task_state where
  "TaskState_createWaitingWithPacket = TaskState_waitingWithPacket TaskState_init"

section \<open>Tasks and the scheduler\<close>

text \<open>\<open>'q\<close> is the type of a queue of packets: a pointer to its first packet in the program.\<close>

datatype 'q handle =
    DeviceTaskDataRecord 'q
  | HandlerTaskDataRecord 'q 'q
  | IdleTaskDataRecord int int
  | WorkerTaskDataRecord int int

datatype process_function = Device_apply | Handler_apply | Idler_apply | Worker_apply

record 'q tcb = task_state +
  t_link :: "nat option"
  t_identity :: int
  t_priority :: int
  t_input :: 'q
  t_function :: process_function
  t_handle :: "'q handle"

type_synonym task = "nat option tcb"

datatype trace_event = Newline | Number int

record scheduler =
  packets :: packets
  tasks :: "task list"
  taskList :: "nat option"
  currentTask :: "nat option"
  currentTaskIdentity :: int
  taskTable :: "nat option list"
  queuePacketCount :: int
  holdCount :: int
  layout :: int
  traced :: "trace_event list"

definition Scheduler_init :: scheduler where
  "Scheduler_init =
     \<lparr>packets = [], tasks = [], taskList = None, currentTask = None, currentTaskIdentity = 0,
      taskTable = replicate NUM_TYPES None, queuePacketCount = 0, holdCount = 0, layout = 0, traced = []\<rparr>"

definition task_at :: "scheduler \<Rightarrow> nat \<Rightarrow> task res" where
  "task_at s t = (if t < length (tasks s) then Inr (tasks s ! t) else Inl UseAfterFree)"

definition task_update :: "nat \<Rightarrow> (task \<Rightarrow> task) \<Rightarrow> scheduler \<Rightarrow> scheduler res" where
  "task_update t f s = rbind (task_at s t) (\<lambda>x. Inr (s\<lparr>tasks := (tasks s)[t := f x]\<rparr>))"

definition on_packets :: "(packets \<Rightarrow> packets res) \<Rightarrow> scheduler \<Rightarrow> scheduler res" where
  "on_packets f s = rbind (f (packets s)) (\<lambda>ps. Inr (s\<lparr>packets := ps\<rparr>))"

definition TaskControlBlock_create ::
    "nat option \<Rightarrow> int \<Rightarrow> int \<Rightarrow> nat option \<Rightarrow> task_state \<Rightarrow> process_function \<Rightarrow> nat option handle \<Rightarrow> task" where
  "TaskControlBlock_create aLink anIdentity aPriority anInitialWorkQueue anInitialState aBlock aPrivateData =
     \<lparr>packetPending = packetPending anInitialState, taskWaiting = taskWaiting anInitialState,
      taskHolding = taskHolding anInitialState, t_link = aLink, t_identity = anIdentity,
      t_priority = aPriority, t_input = anInitialWorkQueue, t_function = aBlock, t_handle = aPrivateData\<rparr>"

definition Scheduler_createTask ::
    "int \<Rightarrow> int \<Rightarrow> nat option \<Rightarrow> task_state \<Rightarrow> process_function \<Rightarrow> nat option handle \<Rightarrow> scheduler \<Rightarrow> scheduler res" where
  "Scheduler_createTask identity priority work state aBlock data s =
     (let t = length (tasks s) in
      rbind (arr_set (taskTable s) identity (Some t)) (\<lambda>table.
        Inr (s\<lparr>tasks := tasks s @ [TaskControlBlock_create (taskList s) identity priority work state aBlock data],
               taskList := Some t, taskTable := table\<rparr>)))"

definition TaskControlBlock_addInputAndCheckPriority ::
    "nat \<Rightarrow> nat \<Rightarrow> nat option \<Rightarrow> scheduler \<Rightarrow> (nat option \<times> scheduler) res" where
  "TaskControlBlock_addInputAndCheckPriority me packet oldTask s =
     rbind (task_at s me) (\<lambda>m.
       if t_input m = None then
         rbind (task_update me (\<lambda>x. x\<lparr>t_input := Some packet, packetPending := True\<rparr>) s) (\<lambda>s.
         rbind (deref oldTask) (\<lambda>old.
         rbind (task_at s old) (\<lambda>x.
           if t_priority m > t_priority x then Inr (Some me, s) else Inr (oldTask, s))))
       else
         rbind (RBObject_append packet (t_input m) (packets s)) (\<lambda>(tmp, ps).
         rbind (task_update me (\<lambda>x. x\<lparr>t_input := tmp\<rparr>) (s\<lparr>packets := ps\<rparr>)) (\<lambda>s. Inr (oldTask, s))))"

definition Scheduler_findTask :: "int \<Rightarrow> scheduler \<Rightarrow> nat res" where
  "Scheduler_findTask identity s =
     rbind (arr_get (taskTable s) identity) (\<lambda>t. case t of None \<Rightarrow> Inl AssertFailed | Some t \<Rightarrow> Inr t)"

definition Scheduler_holdSelf :: "scheduler \<Rightarrow> (nat option \<times> scheduler) res" where
  "Scheduler_holdSelf s =
     rbind (c_int (holdCount s + 1)) (\<lambda>n.
     rbind (deref (currentTask s)) (\<lambda>t.
     rbind (task_update t (taskHolding_update (\<lambda>_. True)) (s\<lparr>holdCount := n\<rparr>)) (\<lambda>s.
     rbind (task_at s t) (\<lambda>x. Inr (t_link x, s)))))"

definition Scheduler_queuePacket :: "nat \<Rightarrow> scheduler \<Rightarrow> (nat option \<times> scheduler) res" where
  "Scheduler_queuePacket packet s =
     rbind (packet_at (packets s) packet) (\<lambda>p.
     rbind (Scheduler_findTask (p_identity p) s) (\<lambda>t.
     rbind (c_int (queuePacketCount s + 1)) (\<lambda>n.
     rbind (on_packets (Packet_setLink packet None) (s\<lparr>queuePacketCount := n\<rparr>)) (\<lambda>s.
     rbind (on_packets (Packet_setIdentity packet (currentTaskIdentity s)) s) (\<lambda>s.
       TaskControlBlock_addInputAndCheckPriority t packet (currentTask s) s)))))"

definition Scheduler_release :: "int \<Rightarrow> scheduler \<Rightarrow> (nat option \<times> scheduler) res" where
  "Scheduler_release identity s =
     rbind (Scheduler_findTask identity s) (\<lambda>t.
     rbind (task_update t (taskHolding_update (\<lambda>_. False)) s) (\<lambda>s.
     rbind (task_at s t) (\<lambda>x.
     rbind (deref (currentTask s)) (\<lambda>c.
     rbind (task_at s c) (\<lambda>y.
       if t_priority x > t_priority y then Inr (Some t, s) else Inr (currentTask s, s))))))"

definition Scheduler_markWaiting :: "scheduler \<Rightarrow> (nat option \<times> scheduler) res" where
  "Scheduler_markWaiting s =
     rbind (deref (currentTask s)) (\<lambda>t.
     rbind (task_update t (taskWaiting_update (\<lambda>_. True)) s) (\<lambda>s. Inr (currentTask s, s)))"

definition TRACING :: bool where "TRACING = False"

definition Scheduler_trace :: "int \<Rightarrow> scheduler \<Rightarrow> scheduler res" where
  "Scheduler_trace ident s =
     rbind (c_int (layout s - 1)) (\<lambda>l.
       let s = s\<lparr>layout := l\<rparr>;
           s = (if 0 \<ge> l then s\<lparr>traced := traced s @ [Newline], layout := 50\<rparr> else s) in
       Inr (s\<lparr>traced := traced s @ [Number ident]\<rparr>))"

section \<open>The process functions\<close>

text \<open>Each takes the packet it is given, if any, and the task whose private data it works on.\<close>

definition createDevice_apply :: "nat option \<Rightarrow> nat \<Rightarrow> scheduler \<Rightarrow> (nat option \<times> scheduler) res" where
  "createDevice_apply work t s =
     rbind (task_at s t) (\<lambda>x. case t_handle x of
       DeviceTaskDataRecord pending \<Rightarrow>
         (case work of
            None \<Rightarrow>
              (case pending of
                 None \<Rightarrow> Scheduler_markWaiting s
               | Some functionWork \<Rightarrow>
                   rbind (task_update t (t_handle_update (\<lambda>_. DeviceTaskDataRecord None)) s)
                     (Scheduler_queuePacket functionWork))
          | Some functionWork \<Rightarrow>
              rbind (task_update t (t_handle_update (\<lambda>_. DeviceTaskDataRecord work)) s) (\<lambda>s.
              rbind (if TRACING then
                       rbind (packet_at (packets s) functionWork) (\<lambda>p. Scheduler_trace (p_datum p) s)
                     else Inr s) (\<lambda>s.
                Scheduler_holdSelf s)))
     | _ \<Rightarrow> Inl OutOfBounds)"

text \<open>The packet handed to a handler goes to one of its two queues; then it serves its first work packet.\<close>

definition handler_enqueue :: "nat option \<Rightarrow> nat \<Rightarrow> scheduler \<Rightarrow> scheduler res" where
  "handler_enqueue work t s =
     (case work of
        None \<Rightarrow> Inr s
      | Some w \<Rightarrow>
          rbind (packet_at (packets s) w) (\<lambda>p.
          rbind (task_at s t) (\<lambda>x. case t_handle x of
            HandlerTaskDataRecord workIn deviceIn \<Rightarrow>
              if p_kind p = WORK_PACKET_KIND then
                rbind (RBObject_append w workIn (packets s)) (\<lambda>(q, ps).
                  task_update t (t_handle_update (\<lambda>_. HandlerTaskDataRecord q deviceIn)) (s\<lparr>packets := ps\<rparr>))
              else
                rbind (RBObject_append w deviceIn (packets s)) (\<lambda>(q, ps).
                  task_update t (t_handle_update (\<lambda>_. HandlerTaskDataRecord workIn q)) (s\<lparr>packets := ps\<rparr>))
          | _ \<Rightarrow> Inl OutOfBounds)))"

definition handler_serve :: "nat \<Rightarrow> scheduler \<Rightarrow> (nat option \<times> scheduler) res" where
  "handler_serve t s =
     rbind (task_at s t) (\<lambda>x. case t_handle x of
       HandlerTaskDataRecord workIn deviceIn \<Rightarrow>
         (case workIn of
            None \<Rightarrow> Scheduler_markWaiting s
          | Some workPacket \<Rightarrow>
              rbind (packet_at (packets s) workPacket) (\<lambda>w.
              let count = p_datum w in
              if count \<ge> int DATA_SIZE then
                rbind (task_update t (t_handle_update (\<lambda>_. HandlerTaskDataRecord (p_link w) deviceIn)) s)
                  (Scheduler_queuePacket workPacket)
              else
                (case deviceIn of
                   None \<Rightarrow> Scheduler_markWaiting s
                 | Some devicePacket \<Rightarrow>
                     rbind (packet_at (packets s) devicePacket) (\<lambda>d.
                     rbind (task_update t (t_handle_update (\<lambda>_. HandlerTaskDataRecord workIn (p_link d))) s) (\<lambda>s.
                     rbind (arr_get (p_data w) count) (\<lambda>v.
                     rbind (on_packets (Packet_setDatum devicePacket v) s) (\<lambda>s.
                     rbind (c_int (count + 1)) (\<lambda>n.
                     rbind (on_packets (Packet_setDatum workPacket n) s) (\<lambda>s.
                       Scheduler_queuePacket devicePacket s)))))))))
     | _ \<Rightarrow> Inl OutOfBounds)"

definition createHandler_apply :: "nat option \<Rightarrow> nat \<Rightarrow> scheduler \<Rightarrow> (nat option \<times> scheduler) res" where
  "createHandler_apply work t s = rbind (handler_enqueue work t s) (handler_serve t)"

definition createIdler_apply :: "nat option \<Rightarrow> nat \<Rightarrow> scheduler \<Rightarrow> (nat option \<times> scheduler) res" where
  "createIdler_apply work t s =
     rbind (task_at s t) (\<lambda>x. case t_handle x of
       IdleTaskDataRecord control count \<Rightarrow>
         rbind (c_int (count - 1)) (\<lambda>count.
         if count = 0 then
           rbind (task_update t (t_handle_update (\<lambda>_. IdleTaskDataRecord control count)) s) Scheduler_holdSelf
         else
           rbind (c_div control 2) (\<lambda>half.
             if control AND 1 = 0 then
               rbind (task_update t (t_handle_update (\<lambda>_. IdleTaskDataRecord half count)) s)
                 (Scheduler_release DEVICE_A)
             else
               rbind (task_update t (t_handle_update (\<lambda>_. IdleTaskDataRecord (half XOR 53256) count)) s)
                 (Scheduler_release DEVICE_B)))
     | _ \<Rightarrow> Inl OutOfBounds)"

text \<open>The next letter of the alphabet for each of the four cells of a work packet.\<close>

definition worker_fill :: "int list \<Rightarrow> int \<Rightarrow> (int list \<times> int) res" where
  "worker_fill d c =
     rfold (\<lambda>i (d, c).
       rbind (c_int (c + 1)) (\<lambda>c.
       let c = (if c > 26 then 1 else c) in
       rbind (arr_set d (int i) (65 + c - 1)) (\<lambda>d. Inr (d, c)))) [0..<DATA_SIZE] (d, c)"

definition createWorker_apply :: "nat option \<Rightarrow> nat \<Rightarrow> scheduler \<Rightarrow> (nat option \<times> scheduler) res" where
  "createWorker_apply work t s =
     rbind (task_at s t) (\<lambda>x. case t_handle x of
       WorkerTaskDataRecord destination count \<Rightarrow>
         (case work of
            None \<Rightarrow> Scheduler_markWaiting s
          | Some w \<Rightarrow>
              let destination = (if HANDLER_A = destination then HANDLER_B else HANDLER_A) in
              rbind (on_packets (Packet_setIdentity w destination) s) (\<lambda>s.
              rbind (on_packets (Packet_setDatum w 0) s) (\<lambda>s.
              rbind (packet_at (packets s) w) (\<lambda>p.
              rbind (worker_fill (p_data p) count) (\<lambda>(d, c).
              rbind (on_packets (packet_update w (p_data_update (\<lambda>_. d))) s) (\<lambda>s.
              rbind (task_update t (t_handle_update (\<lambda>_. WorkerTaskDataRecord destination c)) s)
                (Scheduler_queuePacket w)))))))
     | _ \<Rightarrow> Inl OutOfBounds)"

fun process_apply :: "process_function \<Rightarrow> nat option \<Rightarrow> nat \<Rightarrow> scheduler \<Rightarrow> (nat option \<times> scheduler) res" where
  "process_apply Device_apply = createDevice_apply"
| "process_apply Handler_apply = createHandler_apply"
| "process_apply Idler_apply = createIdler_apply"
| "process_apply Worker_apply = createWorker_apply"

definition TaskControlBlock_runTask :: "nat \<Rightarrow> scheduler \<Rightarrow> (nat option \<times> scheduler) res" where
  "TaskControlBlock_runTask me s =
     rbind (task_at s me) (\<lambda>x.
     rbind (if TaskState_isWaitingWithPacket x then
              rbind (deref (t_input x)) (\<lambda>message.
              rbind (Packet_getLink message (packets s)) (\<lambda>link.
              rbind (task_update me (\<lambda>x.
                       let x = x\<lparr>t_input := link\<rparr> in
                       if link = None then TaskState_running x else TaskState_packetPending x) s) (\<lambda>s.
                Inr (Some message, s))))
            else Inr (None, s)) (\<lambda>(message, s).
       process_apply (t_function x) message me s))"

section \<open>The scheduler's loop and the benchmark\<close>

fun schedule_loop :: "nat \<Rightarrow> scheduler \<Rightarrow> scheduler res" where
  "schedule_loop 0 s = Inl OutOfFuel"
| "schedule_loop (Suc fuel) s =
     (case currentTask s of
        None \<Rightarrow> Inr s
      | Some t \<Rightarrow>
          rbind (task_at s t) (\<lambda>x.
          if TaskState_isTaskHoldingOrWaiting x then schedule_loop fuel (s\<lparr>currentTask := t_link x\<rparr>)
          else
            let s = s\<lparr>currentTaskIdentity := t_identity x\<rparr> in
            rbind (if TRACING then Scheduler_trace (currentTaskIdentity s) s else Inr s) (\<lambda>s.
            rbind (TaskControlBlock_runTask t s) (\<lambda>(tmp, s).
              schedule_loop fuel (s\<lparr>currentTask := tmp\<rparr>)))))"

definition Scheduler_schedule :: "nat \<Rightarrow> scheduler \<Rightarrow> scheduler res" where
  "Scheduler_schedule fuel s = schedule_loop fuel (s\<lparr>currentTask := taskList s\<rparr>)"

definition Scheduler_createPacket :: "nat option \<Rightarrow> int \<Rightarrow> int \<Rightarrow> scheduler \<Rightarrow> nat option \<times> scheduler" where
  "Scheduler_createPacket link identity kind s =
     (let (p, ps) = Packet_create link identity kind (packets s) in (Some p, s\<lparr>packets := ps\<rparr>))"

definition Scheduler_createDevice :: "int \<Rightarrow> int \<Rightarrow> nat option \<Rightarrow> task_state \<Rightarrow> scheduler \<Rightarrow> scheduler res" where
  "Scheduler_createDevice identity priority workPacket state s =
     Scheduler_createTask identity priority workPacket state Device_apply (DeviceTaskDataRecord None) s"

definition Scheduler_createHandler :: "int \<Rightarrow> int \<Rightarrow> nat option \<Rightarrow> task_state \<Rightarrow> scheduler \<Rightarrow> scheduler res" where
  "Scheduler_createHandler identity priority workPacket state s =
     Scheduler_createTask identity priority workPacket state Handler_apply (HandlerTaskDataRecord None None) s"

definition Scheduler_createIdler :: "int \<Rightarrow> int \<Rightarrow> nat option \<Rightarrow> task_state \<Rightarrow> scheduler \<Rightarrow> scheduler res" where
  "Scheduler_createIdler identity priority work state s =
     Scheduler_createTask identity priority work state Idler_apply (IdleTaskDataRecord 1 10000) s"

definition Scheduler_createWorker :: "int \<Rightarrow> int \<Rightarrow> nat option \<Rightarrow> task_state \<Rightarrow> scheduler \<Rightarrow> scheduler res" where
  "Scheduler_createWorker identity priority workPacket state s =
     Scheduler_createTask identity priority workPacket state Worker_apply (WorkerTaskDataRecord HANDLER_A 0) s"

definition create_tasks :: "scheduler \<Rightarrow> scheduler res" where
  "create_tasks s =
     rbind (Scheduler_createIdler IDLER 0 None TaskState_createRunning s) (\<lambda>s.
     let (workQ, s) = Scheduler_createPacket None WORKER WORK_PACKET_KIND s;
         (workQ, s) = Scheduler_createPacket workQ WORKER WORK_PACKET_KIND s in
     rbind (Scheduler_createWorker WORKER 1000 workQ TaskState_createWaitingWithPacket s) (\<lambda>s.
     let (workQ, s) = Scheduler_createPacket None DEVICE_A DEVICE_PACKET_KIND s;
         (workQ, s) = Scheduler_createPacket workQ DEVICE_A DEVICE_PACKET_KIND s;
         (workQ, s) = Scheduler_createPacket workQ DEVICE_A DEVICE_PACKET_KIND s in
     rbind (Scheduler_createHandler HANDLER_A 2000 workQ TaskState_createWaitingWithPacket s) (\<lambda>s.
     let (workQ, s) = Scheduler_createPacket None DEVICE_B DEVICE_PACKET_KIND s;
         (workQ, s) = Scheduler_createPacket workQ DEVICE_B DEVICE_PACKET_KIND s;
         (workQ, s) = Scheduler_createPacket workQ DEVICE_B DEVICE_PACKET_KIND s in
     rbind (Scheduler_createHandler HANDLER_B 3000 workQ TaskState_createWaitingWithPacket s) (\<lambda>s.
     rbind (Scheduler_createDevice DEVICE_A 4000 None TaskState_createWaiting s) (\<lambda>s.
       Scheduler_createDevice DEVICE_B 5000 None TaskState_createWaiting s)))))"

definition Scheduler_start :: "nat \<Rightarrow> scheduler \<Rightarrow> (bool \<times> scheduler) res" where
  "Scheduler_start fuel s =
     rbind (create_tasks s) (\<lambda>s.
     rbind (Scheduler_schedule fuel s) (\<lambda>s.
       Inr (queuePacketCount s = 23246 \<and> holdCount s = 9297, s)))"

text \<open>The benchmark starts from a fresh scheduler in every iteration and keeps nothing.\<close>

definition richards_benchmark :: "nat \<Rightarrow> int res" where
  "richards_benchmark fuel =
     rbind (Scheduler_start fuel Scheduler_init) (\<lambda>(res, s). Inr (if res then 1 else 0))"

definition richards_verifyResult :: "int \<Rightarrow> bool" where
  "richards_verifyResult result = (result \<noteq> 0)"

definition Richards_create :: "nat \<Rightarrow> unit benchmark" where
  "Richards_create fuel = plain_benchmark (richards_benchmark fuel) richards_verifyResult"

end
