(* ===== verification/RichardsQueues.thy ===== *)
theory RichardsQueues
  imports AwfyRichards
begin

text \<open>
  The task scheduler with its queues as values: an abstract machine whose tasks hold lists of packets, and
  the relation that says which heap of the program it stands for. Every packet belongs to exactly one queue of
  one task (\<open>own\<close>), so that no packet is lost, shared or linked into two queues.
\<close>

section \<open>Chains of packets\<close>

fun queue :: "packets \<Rightarrow> nat option \<Rightarrow> nat list \<Rightarrow> bool" where
  "queue ps h [] \<longleftrightarrow> h = None"
| "queue ps h (x # xs) \<longleftrightarrow> h = Some x \<and> x < length ps \<and> queue ps (p_link (ps ! x)) xs"

lemma queue_None [simp]: "queue ps None xs \<longleftrightarrow> xs = []"
  by (cases xs) auto

lemma queue_Some: "queue ps (Some x) xs \<longleftrightarrow> x < length ps \<and> (\<exists>ys. xs = x # ys \<and> queue ps (p_link (ps ! x)) ys)"
  by (cases xs) auto

lemma queue_cong:
  "length ps' = length ps \<Longrightarrow> (\<And>x. x \<in> set xs \<Longrightarrow> ps' ! x = ps ! x) \<Longrightarrow> queue ps' h xs = queue ps h xs"
  by (induction xs arbitrary: h) auto

lemma queue_less: "queue ps h xs \<Longrightarrow> x \<in> set xs \<Longrightarrow> x < length ps"
  by (induction xs arbitrary: h) auto

lemma queue_append_last:
  "queue ps h xs \<Longrightarrow> xs \<noteq> [] \<Longrightarrow> distinct xs \<Longrightarrow> m < length ps \<Longrightarrow> m \<notin> set xs \<Longrightarrow> p_link (ps ! m) = None \<Longrightarrow>
   queue (ps[last xs := (ps ! last xs)\<lparr>p_link := Some m\<rparr>]) h (xs @ [m])"
proof (induction xs arbitrary: h)
  case (Cons x xs)
  show ?case
  proof (cases "xs = []")
    case True
    then show ?thesis using Cons.prems by auto
  next
    case False
    then have "last xs \<noteq> x" using Cons.prems(3) last_in_set [of xs] by auto
    with False Cons show ?thesis by auto
  qed
qed simp

lemma append_loop_last:
  "queue ps (Some h) xs \<Longrightarrow> length xs \<le> fuel \<Longrightarrow> append_loop fuel h ps = Inr (last xs)"
proof (induction xs arbitrary: h fuel)
  case (Cons x xs)
  obtain f where f: "fuel = Suc f" "length xs \<le> f" using Cons.prems(2) by (cases fuel) auto
  have x: "x = h" "h < length ps" "queue ps (p_link (ps ! h)) xs" using Cons.prems(1) by auto
  show ?case
  proof (cases xs)
    case Nil
    then show ?thesis using x f by (simp add: Packet_getLink_def packet_at_def)
  next
    case (Cons y ys)
    then have "p_link (ps ! h) = Some y" "queue ps (Some y) xs" using x(3) by auto
    then show ?thesis using x f Cons Cons.IH [of y f] by (simp add: Packet_getLink_def packet_at_def)
  qed
qed simp

lemma distinct_bound: "distinct xs \<Longrightarrow> set xs \<subseteq> {..<n} \<Longrightarrow> length xs \<le> n"
  using card_mono [of "{..<n}" "set xs"] by (simp add: distinct_card)

text \<open>The heap after an append: only the links of the new packet and of the last one changed.\<close>

definition relinked :: "packets \<Rightarrow> packets \<Rightarrow> bool" where
  "relinked ps ps' \<longleftrightarrow> length ps' = length ps \<and> (\<forall>i<length ps. \<exists>l. ps' ! i = (ps ! i)\<lparr>p_link := l\<rparr>)"

lemma relink_self [simp]: "\<exists>l. p = p\<lparr>p_link := l\<rparr>"
  by (rule exI [of _ "p_link p"]) simp

lemma append_queue:
  assumes "queue ps h xs" "distinct xs" "m \<notin> set xs" "m < length ps"
  shows "\<exists>h' ps'. RBObject_append m h ps = Inr (h', ps') \<and> queue ps' h' (xs @ [m]) \<and> relinked ps ps' \<and>
    (\<forall>i. i \<notin> set xs \<longrightarrow> i \<noteq> m \<longrightarrow> ps' ! i = ps ! i)"
proof -
  define ps1 where "ps1 = ps[m := (ps ! m)\<lparr>p_link := None\<rparr>]"
  have set1: "Packet_setLink m None ps = Inr ps1"
    using assms(4) by (simp add: Packet_setLink_def packet_update_def packet_at_def ps1_def)
  have q1: "queue ps1 h xs" using assms(1,3) by (subst queue_cong [of ps1 ps]) (auto simp: ps1_def intro!: nth_list_update_neq)
  have m1: "p_link (ps1 ! m) = None" "m < length ps1" using assms(4) by (simp_all add: ps1_def)
  have r1: "ps1 ! i = ps ! i" if "i \<noteq> m" for i using that by (simp add: ps1_def)
  show ?thesis
  proof (cases h)
    case None
    then have "xs = []" using assms(1) by simp
    moreover have "relinked ps ps1" using assms(4) by (auto simp: relinked_def ps1_def nth_list_update)
    ultimately show ?thesis using None set1 m1 r1 by (simp add: RBObject_append_def)
  next
    case (Some x)
    then have xs: "xs \<noteq> []" using assms(1) by auto
    define y where "y = last xs"
    have y: "y < length ps1" "y \<in> set xs" using queue_less [OF q1] xs by (auto simp: y_def)
    let ?ps2 = "ps1[y := (ps1 ! y)\<lparr>p_link := Some m\<rparr>]"
    have "length xs \<le> length ps1"
      using distinct_bound [OF assms(2)] queue_less [OF q1] by (auto simp: subset_iff)
    then have "append_loop (length ps1) x ps1 = Inr y" using append_loop_last [of ps1 x xs] q1 Some by (simp add: y_def)
    moreover have "Packet_setLink y (Some m) ps1 = Inr ?ps2"
      using y by (simp add: Packet_setLink_def packet_update_def packet_at_def)
    ultimately have "RBObject_append m h ps = Inr (h, ?ps2)" using set1 Some by (simp add: RBObject_append_def)
    moreover have "queue ?ps2 h (xs @ [m])"
      using queue_append_last [OF q1 xs assms(2) m1(2) assms(3) m1(1)] by (simp add: y_def)
    moreover have "relinked ps ?ps2"
      unfolding relinked_def
    proof (intro conjI allI impI)
      fix i assume "i < length ps"
      then show "\<exists>l. ?ps2 ! i = (ps ! i)\<lparr>p_link := l\<rparr>"
        using y(2) assms(3) r1 by (cases "i = m"; cases "i = y") (auto simp: ps1_def nth_list_update)
    qed (simp add: ps1_def)
    moreover have "?ps2 ! i = ps ! i" if "i \<notin> set xs" "i \<noteq> m" for i
    proof -
      have "i \<noteq> y" using that(1) y(2) by auto
      then show ?thesis using r1 [OF that(2)] by simp
    qed
    ultimately show ?thesis by blast
  qed
qed

section \<open>The abstract machine\<close>

datatype apacket = Work nat nat | Dev nat

datatype adata = ADev "apacket option" | AHand "apacket list" "apacket list" | AIdle int nat | AWork nat

record atask =
  a_pend :: bool
  a_wait :: bool
  a_hold :: bool
  a_in :: "apacket list"
  a_data :: adata

text \<open>The next task in the list; the receiver of a packet; the packet with the sender as its new identity.\<close>

definition link :: "nat \<Rightarrow> nat option" where
  "link t = (if t = 0 then None else Some (t - 1))"

fun receiver :: "apacket \<Rightarrow> nat" where
  "receiver (Work i d) = i"
| "receiver (Dev i) = i"

fun send_from :: "nat \<Rightarrow> apacket \<Rightarrow> apacket" where
  "send_from t (Work i d) = Work t d"
| "send_from t (Dev i) = Dev t"

type_synonym turn = "nat option \<times> atask list \<times> nat \<times> nat"

text \<open>A turn yields the next task, the tasks, and how many packets were queued and how often a task held itself.\<close>

definition a_queue :: "apacket \<Rightarrow> nat \<Rightarrow> atask list \<Rightarrow> turn" where
  "a_queue p cur ts =
     (let t = receiver p; A = ts ! t in
      if a_in A = [] then (if cur < t then Some t else Some cur, ts[t := A\<lparr>a_in := [send_from cur p], a_pend := True\<rparr>], 1, 0)
      else (Some cur, ts[t := A\<lparr>a_in := a_in A @ [send_from cur p]\<rparr>], 1, 0))"

definition a_mark :: "nat \<Rightarrow> atask list \<Rightarrow> turn" where
  "a_mark cur ts = (Some cur, ts[cur := (ts ! cur)\<lparr>a_wait := True\<rparr>], 0, 0)"

definition a_holdSelf :: "nat \<Rightarrow> atask list \<Rightarrow> turn" where
  "a_holdSelf cur ts = (link cur, ts[cur := (ts ! cur)\<lparr>a_hold := True\<rparr>], 0, 1)"

definition a_release :: "nat \<Rightarrow> nat \<Rightarrow> atask list \<Rightarrow> turn" where
  "a_release d cur ts = (if cur < d then Some d else Some cur, ts[d := (ts ! d)\<lparr>a_hold := False\<rparr>], 0, 0)"

definition a_set :: "nat \<Rightarrow> adata \<Rightarrow> atask list \<Rightarrow> atask list" where
  "a_set cur d ts = ts[cur := (ts ! cur)\<lparr>a_data := d\<rparr>]"

fun a_enqueue :: "apacket option \<Rightarrow> apacket list \<Rightarrow> apacket list \<Rightarrow> apacket list \<times> apacket list" where
  "a_enqueue None w d = (w, d)"
| "a_enqueue (Some (Work i n)) w d = (w @ [Work i n], d)"
| "a_enqueue (Some (Dev i)) w d = (w, d @ [Dev i])"

fun a_handle :: "apacket list \<times> apacket list \<Rightarrow> nat \<Rightarrow> atask list \<Rightarrow> turn option" where
  "a_handle ([], d) cur ts = Some (a_mark cur (a_set cur (AHand [] d) ts))"
| "a_handle (Work i n # w, d) cur ts =
     (if n \<ge> 4 then Some (a_queue (Work i n) cur (a_set cur (AHand w d) ts))
      else
        (case d of
           [] \<Rightarrow> Some (a_mark cur (a_set cur (AHand (Work i n # w) d) ts))
         | Dev j # d \<Rightarrow> Some (a_queue (Dev j) cur (a_set cur (AHand (Work i (n + 1) # w) d) ts))
         | _ \<Rightarrow> None))"
| "a_handle (Dev i # w, d) cur ts = None"

definition a_apply :: "nat \<Rightarrow> apacket option \<Rightarrow> atask list \<Rightarrow> turn option" where
  "a_apply cur work ts =
     (case a_data (ts ! cur) of
        ADev pending \<Rightarrow>
          (case work of
             None \<Rightarrow>
               (case pending of
                  None \<Rightarrow> Some (a_mark cur ts)
                | Some p \<Rightarrow> Some (a_queue p cur (a_set cur (ADev None) ts)))
           | Some p \<Rightarrow> if pending = None then Some (a_holdSelf cur (a_set cur (ADev (Some p)) ts)) else None)
      | AHand w d \<Rightarrow> a_handle (a_enqueue work w d) cur ts
      | AWork dest \<Rightarrow>
          (case work of
             None \<Rightarrow> Some (a_mark cur ts)
           | Some p \<Rightarrow>
               let dest = (if dest = 2 then 3 else 2);
                   p = (case p of Work i n \<Rightarrow> Work dest 0 | Dev i \<Rightarrow> Dev dest) in
               Some (a_queue p cur (a_set cur (AWork dest) ts)))
      | AIdle control n \<Rightarrow>
          if n = 0 \<or> work \<noteq> None then None
          else if n = 1 then Some (a_holdSelf cur (a_set cur (AIdle control 0) ts))
          else if even control then Some (a_release 4 cur (a_set cur (AIdle (control div 2) (n - 1)) ts))
          else Some (a_release 5 cur (a_set cur (AIdle ((control div 2) XOR 53256) (n - 1)) ts)))"

definition a_turn :: "nat \<Rightarrow> atask list \<Rightarrow> turn option" where
  "a_turn cur ts =
     (let A = ts ! cur in
      if a_hold A \<or> (\<not> a_pend A \<and> a_wait A) then Some (link cur, ts, 0, 0)
      else if a_pend A \<and> a_wait A \<and> \<not> a_hold A then
        (case a_in A of
           [] \<Rightarrow> None
         | p # q \<Rightarrow> a_apply cur (Some p)
             (ts[cur := A\<lparr>a_in := q, a_pend := (q \<noteq> []), a_wait := False, a_hold := False\<rparr>]))
      else a_apply cur None ts)"

section \<open>The relation between heap and queues\<close>

definition packet_wf :: "packet \<Rightarrow> bool" where
  "packet_wf p \<longleftrightarrow> length (p_data p) = 4 \<and> 0 \<le> p_identity p \<and> p_identity p < 6 \<and>
     (p_kind p = WORK_PACKET_KIND \<longrightarrow> 0 \<le> p_datum p)"

definition abs_packet :: "packet \<Rightarrow> apacket" where
  "abs_packet p =
     (if p_kind p = WORK_PACKET_KIND then Work (nat (p_identity p)) (nat (p_datum p)) else Dev (nat (p_identity p)))"

definition holds_queue :: "packets \<Rightarrow> nat option \<Rightarrow> nat list \<Rightarrow> apacket list \<Rightarrow> bool" where
  "holds_queue ps h xs as \<longleftrightarrow> queue ps h xs \<and> as = map (\<lambda>x. abs_packet (ps ! x)) xs"

text \<open>
  The twelve queues: the inputs of the tasks 0 to 5, the work and device queues of the handlers 2 and 3 (6 and 7,
  8 and 9) and the pending packets of the devices 4 and 5 (10 and 11).
\<close>

definition slots :: "nat \<Rightarrow> nat set" where
  "slots t = {t} \<union> (if t \<in> {2, 3} then {t + 4, t + 6} else if t \<in> {4, 5} then {t + 6} else {})"

fun data_rel :: "packets \<Rightarrow> (nat \<Rightarrow> nat list) \<Rightarrow> nat \<Rightarrow> nat option handle \<Rightarrow> adata \<Rightarrow> bool" where
  "data_rel ps Q t (DeviceTaskDataRecord p) (ADev a) \<longleftrightarrow> t \<in> {4, 5} \<and>
     (case p of None \<Rightarrow> a = None \<and> Q (t + 6) = []
      | Some m \<Rightarrow> a = Some (abs_packet (ps ! m)) \<and> Q (t + 6) = [m])"
| "data_rel ps Q t (HandlerTaskDataRecord w d) (AHand aw ad) \<longleftrightarrow> t \<in> {2, 3} \<and>
     holds_queue ps w (Q (t + 4)) aw \<and> holds_queue ps d (Q (t + 6)) ad"
| "data_rel ps Q t (IdleTaskDataRecord control count) (AIdle c n) \<longleftrightarrow> t = 0 \<and>
     control = c \<and> count = int n \<and> 0 \<le> c \<and> n \<le> 10000"
| "data_rel ps Q t (WorkerTaskDataRecord dest count) (AWork adest) \<longleftrightarrow> t = 1 \<and>
     dest = int adest \<and> 0 \<le> count \<and> count \<le> 26"
| "data_rel ps Q t h a \<longleftrightarrow> False"

definition function_of :: "nat \<Rightarrow> process_function" where
  "function_of t = [Idler_apply, Worker_apply, Handler_apply, Handler_apply, Device_apply, Device_apply] ! t"

definition task_rel :: "packets \<Rightarrow> (nat \<Rightarrow> nat list) \<Rightarrow> nat \<Rightarrow> task \<Rightarrow> atask \<Rightarrow> bool" where
  "task_rel ps Q t T A \<longleftrightarrow>
     packetPending T = a_pend A \<and> taskWaiting T = a_wait A \<and> taskHolding T = a_hold A \<and> t_link T = link t \<and>
     t_identity T = int t \<and> t_priority T = 1000 * int t \<and> t_function T = function_of t \<and>
     holds_queue ps (t_input T) (Q t) (a_in A) \<and> data_rel ps Q t (t_handle T) (a_data A)"

definition owned :: "(nat \<Rightarrow> nat list) \<Rightarrow> (nat \<Rightarrow> nat) \<Rightarrow> bool" where
  "owned Q own \<longleftrightarrow> (\<forall>i<12. distinct (Q i) \<and> set (Q i) = {p. p < 8 \<and> own p = i})"

definition sched_rel :: "(nat \<Rightarrow> nat list) \<Rightarrow> (nat \<Rightarrow> nat) \<Rightarrow> scheduler \<Rightarrow> atask list \<Rightarrow> bool" where
  "sched_rel Q own s ts \<longleftrightarrow>
     length (packets s) = 8 \<and> length (tasks s) = 6 \<and> length ts = 6 \<and> taskTable s = map Some [0..<6] \<and>
     (\<forall>p<8. packet_wf (packets s ! p)) \<and> owned Q own \<and>
     (\<forall>t<6. task_rel (packets s) Q t (tasks s ! t) (ts ! t))"

subsection \<open>Frames\<close>

lemma abs_packet_link [simp]: "abs_packet (p\<lparr>p_link := l\<rparr>) = abs_packet p"
  by (simp add: abs_packet_def)

lemma packet_wf_link [simp]: "packet_wf (p\<lparr>p_link := l\<rparr>) = packet_wf p"
  by (simp add: packet_wf_def)

lemma relinkedD: "relinked ps ps' \<Longrightarrow> i < length ps \<Longrightarrow> abs_packet (ps' ! i) = abs_packet (ps ! i)"
  "relinked ps ps' \<Longrightarrow> i < length ps \<Longrightarrow> packet_wf (ps' ! i) = packet_wf (ps ! i)"
  "relinked ps ps' \<Longrightarrow> i < length ps \<Longrightarrow> p_identity (ps' ! i) = p_identity (ps ! i)"
  unfolding relinked_def by fastforce+

lemma holds_queue_cong:
  "holds_queue ps h xs as \<Longrightarrow> length ps' = length ps \<Longrightarrow> (\<And>x. x \<in> set xs \<Longrightarrow> ps' ! x = ps ! x) \<Longrightarrow> holds_queue ps' h xs as"
  using queue_cong [of ps' ps xs h] by (auto simp: holds_queue_def)

lemma data_rel_cong:
  assumes "data_rel ps Q t h a" "length ps' = length ps"
    "\<And>i. i \<in> slots t - {t} \<Longrightarrow> Q' i = Q i \<and> (\<forall>x\<in>set (Q i). ps' ! x = ps ! x)"
  shows "data_rel ps' Q' t h a"
  using assms
  by (cases "(ps, Q, t, h, a)" rule: data_rel.cases)
    (auto simp: slots_def split: option.splits intro!: holds_queue_cong [of ps _ _ _ ps'])

lemma task_rel_cong:
  assumes "task_rel ps Q t T A" "length ps' = length ps"
    "\<And>i. i \<in> slots t \<Longrightarrow> Q' i = Q i \<and> (\<forall>x\<in>set (Q i). ps' ! x = ps ! x)"
  shows "task_rel ps' Q' t T A"
proof -
  have "holds_queue ps' (t_input T) (Q' t) (a_in A)"
    using assms(1) assms(3) [of t] holds_queue_cong [OF _ assms(2), of "t_input T" "Q t" "a_in A"]
    by (simp add: task_rel_def slots_def)
  moreover have "data_rel ps' Q' t (t_handle T) (a_data A)"
    using assms(1) by (intro data_rel_cong [OF _ assms(2)]) (use assms(3) in \<open>auto simp: task_rel_def\<close>)
  ultimately show ?thesis using assms(1) by (simp add: task_rel_def)
qed

lemma slots_disjoint: "t < 6 \<Longrightarrow> t' < 6 \<Longrightarrow> t \<noteq> t' \<Longrightarrow> slots t \<inter> slots t' = {}"
  by (auto simp: slots_def split: if_splits)

lemma slots_less: "t < 6 \<Longrightarrow> i \<in> slots t \<Longrightarrow> i < 12"
  by (auto simp: slots_def split: if_splits)

lemma owned_notin: "owned Q own \<Longrightarrow> i < 12 \<Longrightarrow> own p \<noteq> i \<Longrightarrow> p \<notin> set (Q i)"
  by (auto simp: owned_def)

lemma owned_less: "owned Q own \<Longrightarrow> i < 12 \<Longrightarrow> p \<in> set (Q i) \<Longrightarrow> p < 8"
  by (auto simp: owned_def)

text \<open>A packet taken out of a queue, and put into one.\<close>

lemma owned_take: "owned Q own \<Longrightarrow> i < 12 \<Longrightarrow> Q i = m # xs \<Longrightarrow> owned (Q(i := xs)) (own(m := 12))"
proof -
  assume o: "owned Q own" and i: "i < 12" and Q: "Q i = m # xs"
  have "distinct (Q i)" "set (Q i) = {p. p < 8 \<and> own p = i}" using o i unfolding owned_def by blast+
  then have d: "distinct (m # xs)" "set (m # xs) = {p. p < 8 \<and> own p = i}" by (simp_all only: Q)
  have "m \<in> set (m # xs)" "m \<notin> set xs" using d(1) by simp_all
  then have xs: "distinct xs" "set xs = {p. p < 8 \<and> own p = i} - {m}" "own m = i"
    using d(1) d(2) [symmetric] by auto
  have "distinct (if j = i then xs else Q j) \<and>
      set (if j = i then xs else Q j) = {p. p < 8 \<and> (if p = m then 12 else own p) = j}" if "j < 12" for j
  proof (cases "j = i")
    case True
    then show ?thesis using xs i by auto
  next
    case False
    have "distinct (Q j) \<and> set (Q j) = {p. p < 8 \<and> own p = j}" using o that unfolding owned_def by blast
    then show ?thesis using False xs(3) that by auto
  qed
  then show ?thesis by (simp add: owned_def fun_upd_def)
qed

lemma owned_put: "owned Q own \<Longrightarrow> i < 12 \<Longrightarrow> own m = 12 \<Longrightarrow> m < 8 \<Longrightarrow> owned (Q(i := Q i @ [m])) (own(m := i))"
  unfolding owned_def by auto

text \<open>One task and one of its queues change; nothing else does.\<close>

lemma sched_rel_update:
  assumes rel: "sched_rel Q own s ts" and t: "t < 6" "i \<in> slots t"
    and Q': "\<And>j. j \<noteq> i \<Longrightarrow> Q' j = Q j" and own': "owned Q' own'"
    and ps: "length ps = 8" "\<And>p. p < 8 \<Longrightarrow> packet_wf (ps ! p)"
      "\<And>j p. j < 12 \<Longrightarrow> j \<noteq> i \<Longrightarrow> p \<in> set (Q j) \<Longrightarrow> ps ! p = packets s ! p"
    and tr: "task_rel ps Q' t T A"
  shows "sched_rel Q' own' (s\<lparr>packets := ps, tasks := (tasks s)[t := T]\<rparr>) (ts[t := A])"
proof -
  have "task_rel ps Q' t' ((tasks s)[t := T] ! t') (ts[t := A] ! t')" if t': "t' < 6" for t'
  proof (cases "t' = t")
    case True
    then show ?thesis using rel t tr by (simp add: sched_rel_def)
  next
    case False
    then have "task_rel (packets s) Q t' (tasks s ! t') (ts ! t')" using rel t' by (simp add: sched_rel_def)
    then have "task_rel ps Q' t' (tasks s ! t') (ts ! t')"
    proof (rule task_rel_cong)
      fix j assume j: "j \<in> slots t'"
      then have "j \<noteq> i" "j < 12" using slots_disjoint [OF t(1) t'] t(2) False slots_less [OF t' j] by auto
      then show "Q' j = Q j \<and> (\<forall>x\<in>set (Q j). ps ! x = packets s ! x)" using Q' ps(3) by blast
    qed (use rel ps(1) in \<open>simp add: sched_rel_def\<close>)
    with False show ?thesis by simp
  qed
  then show ?thesis using rel own' ps(1,2) by (simp add: sched_rel_def)
qed

lemma sched_rel_task: "sched_rel Q own s ts \<Longrightarrow> t < 6 \<Longrightarrow> task_rel (packets s) Q t (tasks s ! t) (ts ! t)"
  by (simp add: sched_rel_def)

lemma sched_rel_lengths: "sched_rel Q own s ts \<Longrightarrow> length (packets s) = 8 \<and> length (tasks s) = 6 \<and> length ts = 6"
  by (simp add: sched_rel_def)

lemma sched_rel_owned: "sched_rel Q own s ts \<Longrightarrow> owned Q own"
  by (simp add: sched_rel_def)

lemma task_at_rel: "sched_rel Q own s ts \<Longrightarrow> t < 6 \<Longrightarrow> task_at s t = Inr (tasks s ! t)"
  by (simp add: sched_rel_def task_at_def)

lemma task_update_rel: "sched_rel Q own s ts \<Longrightarrow> t < 6 \<Longrightarrow>
    task_update t f s = Inr (s\<lparr>tasks := (tasks s)[t := f (tasks s ! t)]\<rparr>)"
  by (simp add: task_update_def task_at_rel)

lemma packet_at_rel: "sched_rel Q own s ts \<Longrightarrow> p < 8 \<Longrightarrow> packet_at (packets s) p = Inr (packets s ! p)"
  by (simp add: sched_rel_def packet_at_def)

lemma findTask_rel: "sched_rel Q own s ts \<Longrightarrow> 0 \<le> i \<Longrightarrow> i < 6 \<Longrightarrow> Scheduler_findTask i s = Inr (nat i)"
  by (simp add: Scheduler_findTask_def arr_get_def sched_rel_def)

text \<open>Fields of a floating packet may change freely.\<close>

lemma sched_rel_packet:
  assumes "sched_rel Q own s ts" "own m = 12" "m < 8" "packet_wf v"
  shows "sched_rel Q own (s\<lparr>packets := (packets s)[m := v]\<rparr>) ts"
proof -
  have m: "m \<notin> set (Q i)" if "i < 12" for i using owned_notin [OF sched_rel_owned [OF assms(1)] that] assms(2) that by simp
  have "task_rel ((packets s)[m := v]) Q t (tasks s ! t) (ts ! t)" if t: "t < 6" for t
  proof (rule task_rel_cong [OF sched_rel_task [OF assms(1) t]])
    fix i assume "i \<in> slots t"
    then have "i < 12" by (rule slots_less [OF t])
    then show "Q i = Q i \<and> (\<forall>x\<in>set (Q i). (packets s)[m := v] ! x = packets s ! x)"
      using m by (auto intro!: nth_list_update_neq)
  qed simp
  moreover have "packet_wf ((packets s)[m := v] ! p)" if "p < 8" for p
    using assms that by (cases "p = m") (auto simp: sched_rel_def)
  ultimately show ?thesis using assms(1) by (simp add: sched_rel_def)
qed

text \<open>Flags and counters.\<close>

lemma sched_rel_counters [simp]:
  "sched_rel Q own (s\<lparr>queuePacketCount := n\<rparr>) ts = sched_rel Q own s ts"
  "sched_rel Q own (s\<lparr>holdCount := n\<rparr>) ts = sched_rel Q own s ts"
  "sched_rel Q own (s\<lparr>currentTask := c\<rparr>) ts = sched_rel Q own s ts"
  "sched_rel Q own (s\<lparr>currentTaskIdentity := i\<rparr>) ts = sched_rel Q own s ts"
  by (simp_all add: sched_rel_def)

section \<open>Moving packets\<close>

lemma holds_queue_append:
  assumes "holds_queue ps h xs as" "queue ps' h' (xs @ [m])" "relinked ps ps'"
  shows "holds_queue ps' h' (xs @ [m]) (as @ [abs_packet (ps ! m)])"
proof -
  have "x < length ps" if "x \<in> set (xs @ [m])" for x
    using queue_less [OF assms(2) that] assms(3) by (simp add: relinked_def)
  then have "map (\<lambda>x. abs_packet (ps' ! x)) (xs @ [m]) = map (\<lambda>x. abs_packet (ps ! x)) (xs @ [m])"
    using relinkedD(1) [OF assms(3)] by (intro map_cong) auto
  then show ?thesis using assms(1,2) by (simp add: holds_queue_def)
qed

text \<open>A floating packet enters slot \<open>i\<close> of task \<open>t\<close>, by an append that gives \<open>h'\<close> and \<open>ps'\<close>.\<close>

definition touched :: "packets \<Rightarrow> nat list \<Rightarrow> nat \<Rightarrow> packets \<Rightarrow> bool" where
  "touched ps xs m ps' \<longleftrightarrow> relinked ps ps' \<and> (\<forall>i. i \<notin> set xs \<longrightarrow> i \<noteq> m \<longrightarrow> ps' ! i = ps ! i)"

definition appended :: "packets \<Rightarrow> nat list \<Rightarrow> nat \<Rightarrow> nat option \<Rightarrow> packets \<Rightarrow> bool" where
  "appended ps xs m h' ps' \<longleftrightarrow> queue ps' h' (xs @ [m]) \<and> touched ps xs m ps'"

lemma touched_refl: "touched ps xs m ps"
  by (simp add: touched_def relinked_def)

lemma touched_length: "touched ps xs m ps' \<Longrightarrow> length ps' = length ps"
  by (simp add: touched_def relinked_def)

lemma append_rel:
  assumes "holds_queue ps h xs as" "distinct xs" "m \<notin> set xs" "m < length ps"
  shows "\<exists>h' ps'. RBObject_append m h ps = Inr (h', ps') \<and> appended ps xs m h' ps'"
  using append_queue [of ps h xs m] assms by (auto simp: holds_queue_def appended_def touched_def)

lemma touched_frame:
  assumes "owned Q own" "touched ps (Q i) m ps'" "own m = 12" "i < 12" "j < 12" "j \<noteq> i" "x \<in> set (Q j)"
  shows "ps' ! x = ps ! x"
proof -
  have "own x = j" using assms(1,5,7) by (auto simp: owned_def)
  then have "x \<notin> set (Q i)" "x \<noteq> m" using assms by (auto simp: owned_def)
  then show ?thesis using assms(2) by (simp add: touched_def)
qed

lemma sched_rel_put:
  assumes rel: "sched_rel Q own s ts" and t: "t < 6" "i \<in> slots t" and m: "own m = 12" "m < 8"
    and app: "touched (packets s) (Q i) m ps'" and tr: "task_rel ps' (Q(i := Q i @ [m])) t T A"
  shows "sched_rel (Q(i := Q i @ [m])) (own(m := i)) (s\<lparr>packets := ps', tasks := (tasks s)[t := T]\<rparr>) (ts[t := A])"
proof (rule sched_rel_update [OF rel t])
  have i: "i < 12" by (rule slots_less [OF t])
  show "owned (Q(i := Q i @ [m])) (own(m := i))"
    by (rule owned_put [OF sched_rel_owned [OF rel] i m])
  show "length ps' = 8" using app rel by (simp add: touched_def relinked_def sched_rel_def)
  show "packet_wf (ps' ! p)" if "p < 8" for p
    using app rel that relinkedD(2) [of "packets s" ps' p] by (simp add: touched_def sched_rel_def)
  show "ps' ! p = packets s ! p" if "j < 12" "j \<noteq> i" "p \<in> set (Q j)" for j p
    by (rule touched_frame [OF sched_rel_owned [OF rel] app m(1) i that])
  show "task_rel ps' (Q(i := Q i @ [m])) t T A" by (rule tr)
qed simp

lemma put_input:
  assumes rel: "sched_rel Q own s ts" and t: "t < 6" and m: "own m = 12" "m < 8"
    and app: "appended (packets s) (Q t) m h' ps'"
  shows "sched_rel (Q(t := Q t @ [m])) (own(m := t))
     (s\<lparr>packets := ps', tasks := (tasks s)[t := (tasks s ! t)\<lparr>t_input := h', packetPending := b\<rparr>]\<rparr>)
     (ts[t := (ts ! t)\<lparr>a_in := a_in (ts ! t) @ [abs_packet (packets s ! m)], a_pend := b\<rparr>])"
proof (rule sched_rel_put [OF rel t _ m])
  show app': "touched (packets s) (Q t) m ps'" using app by (simp add: appended_def)
  show "t \<in> slots t" by (simp add: slots_def)
  have tr: "task_rel (packets s) Q t (tasks s ! t) (ts ! t)" by (rule sched_rel_task [OF rel t])
  have "data_rel ps' (Q(t := Q t @ [m])) t (t_handle (tasks s ! t)) (a_data (ts ! t))"
  proof (rule data_rel_cong)
    show "data_rel (packets s) Q t (t_handle (tasks s ! t)) (a_data (ts ! t))" using tr by (simp add: task_rel_def)
    show "length ps' = length (packets s)" by (rule touched_length [OF app'])
    fix i assume i: "i \<in> slots t - {t}"
    then have "i < 12" using slots_less [OF t] by auto
    then show "(Q(t := Q t @ [m])) i = Q i \<and> (\<forall>x\<in>set (Q i). ps' ! x = packets s ! x)"
      using i t touched_frame [OF sched_rel_owned [OF rel] app' m(1)] by auto
  qed
  moreover have "holds_queue ps' h' (Q t @ [m]) (a_in (ts ! t) @ [abs_packet (packets s ! m)])"
    using tr app by (intro holds_queue_append) (auto simp: task_rel_def appended_def touched_def)
  ultimately show "task_rel ps' (Q(t := Q t @ [m])) t ((tasks s ! t)\<lparr>t_input := h', packetPending := b\<rparr>)
      ((ts ! t)\<lparr>a_in := a_in (ts ! t) @ [abs_packet (packets s ! m)], a_pend := b\<rparr>)"
    using tr by (simp add: task_rel_def)
qed

text \<open>The states with every packet in a queue, and the effect of a turn on them.\<close>

definition sched_state :: "scheduler \<Rightarrow> atask list \<Rightarrow> bool" where
  "sched_state s ts \<longleftrightarrow> (\<exists>Q own. sched_rel Q own s ts \<and> (\<forall>p<8. own p < 12))"

definition floating :: "nat \<Rightarrow> scheduler \<Rightarrow> atask list \<Rightarrow> bool" where
  "floating m s ts \<longleftrightarrow> m < 8 \<and> (\<exists>Q own. sched_rel Q own s ts \<and> own m = 12 \<and> (\<forall>p<8. p \<noteq> m \<longrightarrow> own p < 12))"

fun effect :: "scheduler \<Rightarrow> turn \<Rightarrow> nat option \<times> scheduler \<Rightarrow> bool" where
  "effect s (r, ts, q, h) (r', s') \<longleftrightarrow> r' = r \<and> sched_state s' ts \<and>
     queuePacketCount s' = queuePacketCount s + int q \<and> holdCount s' = holdCount s + int h"

definition runs :: "nat \<Rightarrow> scheduler \<Rightarrow> bool" where
  "runs cur s \<longleftrightarrow> cur < 6 \<and> currentTask s = Some cur \<and> currentTaskIdentity s = int cur \<and>
     0 \<le> queuePacketCount s \<and> queuePacketCount s < INT_MAX \<and> 0 \<le> holdCount s \<and> holdCount s < INT_MAX"

lemma floating_packet:
  assumes "floating m s ts" "packet_wf v"
  shows "floating m (s\<lparr>packets := (packets s)[m := v]\<rparr>) ts"
proof -
  obtain Q own where "sched_rel Q own s ts" "own m = 12" "m < 8" "\<forall>p<8. p \<noteq> m \<longrightarrow> own p < 12"
    using assms(1) unfolding floating_def by blast
  then show ?thesis
    unfolding floating_def using sched_rel_packet [of Q own s ts m v] assms(2) by blast
qed

lemma sched_stateI: "sched_rel Q own s ts \<Longrightarrow> \<forall>p<8. own p < 12 \<Longrightarrow> sched_state s ts"
  unfolding sched_state_def by blast

lemma queuePacket_effect:
  assumes "floating m s ts" "runs cur s"
  shows "ok (Scheduler_queuePacket m s) (effect s (a_queue (abs_packet (packets s ! m)) cur ts))"
proof -
  obtain Q own where rel0: "sched_rel Q own s ts" and m: "own m = 12" "m < 8" and own: "\<forall>p<8. p \<noteq> m \<longrightarrow> own p < 12"
    using assms(1) by (auto simp: floating_def)
  define p where "p = packets s ! m"
  define t where "t = nat (p_identity p)"
  have p: "packet_wf p" using rel0 m(2) by (simp add: p_def sched_rel_def)
  then have t: "t < 6" "p_identity p = int t" by (auto simp: packet_wf_def t_def)
  have rt: "receiver (abs_packet p) = t" by (simp add: abs_packet_def t_def)
  define v where "v = p\<lparr>p_link := None, p_identity := int cur\<rparr>"
  have v: "packet_wf v" "abs_packet v = send_from cur (abs_packet p)" "p_link v = None"
    using p assms(2) by (auto simp: v_def packet_wf_def abs_packet_def runs_def)
  let ?s1 = "s\<lparr>queuePacketCount := queuePacketCount s + 1, packets := (packets s)[m := v]\<rparr>"
  have rel: "sched_rel Q own ?s1 ts"
    using sched_rel_packet [OF rel0 m v(1)] sched_rel_counters(1) [of Q own _ _ ts]
    by (simp add: sched_rel_def)
  have len: "length (packets s) = 8" using rel0 by (simp add: sched_rel_def)
  have start: "Scheduler_queuePacket m s = TaskControlBlock_addInputAndCheckPriority t m (Some cur) ?s1"
    using assms(2) m(2) t findTask_rel [OF rel0, of "p_identity p"] len
    by (simp add: Scheduler_queuePacket_def packet_at_def p_def [symmetric] runs_def c_int_def on_packets_def
        Packet_setLink_def Packet_setIdentity_def packet_update_def v_def)
  let ?T = "tasks s ! t" and ?A = "ts ! t"
  have tr: "task_rel (packets ?s1) Q t ?T ?A" using sched_rel_task [OF rel t(1)] by simp
  have cur: "cur < 6" "t_priority (tasks s ! cur) = 1000 * int cur"
    using assms(2) sched_rel_task [OF rel0, of cur] by (auto simp: runs_def task_rel_def)
  have mq: "m \<notin> set (Q t)" "distinct (Q t)"
    using sched_rel_owned [OF rel0] m t by (auto simp: owned_def)
  have full: "\<forall>p<8. (own(m := t)) p < 12" using own t(1) by auto
  show ?thesis
  proof (cases "t_input ?T")
    case None
    then have e: "Q t = []" "a_in ?A = []" using tr by (auto simp: task_rel_def holds_queue_def)
    have "appended (packets ?s1) (Q t) m (Some m) (packets ?s1)"
      using m(2) len v(3) by (simp add: appended_def e touched_refl)
    from put_input [OF rel t(1) m this, of True]
    have rel': "sched_rel (Q(t := [m])) (own(m := t))
        (?s1\<lparr>tasks := (tasks s)[t := ?T\<lparr>t_input := Some m, packetPending := True\<rparr>]\<rparr>)
        (ts[t := ?A\<lparr>a_in := [send_from cur (abs_packet p)], a_pend := True\<rparr>])"
      using m(2) len by (simp add: e v)
    have pri: "t_priority (tasks s ! t) = 1000 * int t" using tr by (simp add: task_rel_def)
    have "task_at (?s1\<lparr>tasks := (tasks s)[t := ?T\<lparr>t_input := Some m, packetPending := True\<rparr>]\<rparr>) cur =
        Inr ((tasks s)[t := ?T\<lparr>t_input := Some m, packetPending := True\<rparr>] ! cur)"
      using task_at_rel [OF rel' cur(1)] by simp
    moreover have "t_priority ((tasks s)[t := ?T\<lparr>t_input := Some m, packetPending := True\<rparr>] ! cur) = 1000 * int cur"
      using cur pri sched_rel_lengths [OF rel0] by (cases "cur = t") auto
    moreover have "task_at ?s1 t = Inr ?T" using task_at_rel [OF rel t(1)] by simp
    ultimately have "Scheduler_queuePacket m s = Inr (if cur < t then Some t else Some cur,
        ?s1\<lparr>tasks := (tasks s)[t := ?T\<lparr>t_input := Some m, packetPending := True\<rparr>]\<rparr>)"
      using None pri by (simp add: start TaskControlBlock_addInputAndCheckPriority_def deref_def
          task_update_rel [OF rel t(1)])
    then show ?thesis
      using sched_stateI [OF rel' full] by (auto simp: a_queue_def p_def [symmetric] rt e)
  next
    case (Some h)
    then have "a_in ?A \<noteq> []" using tr by (auto simp: task_rel_def holds_queue_def queue_Some)
    obtain h' ps' where app: "RBObject_append m (t_input ?T) (packets ?s1) = Inr (h', ps')"
      "appended (packets ?s1) (Q t) m h' ps'"
      using append_rel [of "packets ?s1" "t_input ?T" "Q t" "a_in ?A" m] tr mq m(2) len by (auto simp: task_rel_def)
    have pend: "packetPending ?T = a_pend ?A" using tr by (simp add: task_rel_def)
    have same: "?T\<lparr>t_input := h', packetPending := a_pend ?A\<rparr> = ?T\<lparr>t_input := h'\<rparr>"
      by (simp add: pend [symmetric])
    from put_input [OF rel t(1) m app(2), of "a_pend ?A"]
    have rel': "sched_rel (Q(t := Q t @ [m])) (own(m := t))
        (?s1\<lparr>packets := ps', tasks := (tasks s)[t := ?T\<lparr>t_input := h'\<rparr>]\<rparr>)
        (ts[t := ?A\<lparr>a_in := a_in ?A @ [send_from cur (abs_packet p)]\<rparr>])"
      using m(2) len by (simp add: same v)
    have "Scheduler_queuePacket m s = Inr (Some cur, ?s1\<lparr>packets := ps', tasks := (tasks s)[t := ?T\<lparr>t_input := h'\<rparr>]\<rparr>)"
      using Some app(1) task_at_rel [OF rel t(1)] t(1) sched_rel_lengths [OF rel0]
      by (simp add: start TaskControlBlock_addInputAndCheckPriority_def task_update_def task_at_def)
    then show ?thesis
      using sched_stateI [OF rel' full] \<open>a_in ?A \<noteq> []\<close> by (auto simp: a_queue_def p_def [symmetric] rt Let_def)
  qed
qed

section \<open>Tasks that change without a packet moving\<close>

text \<open>New flags or data for one task, with the queues untouched.\<close>

lemma sched_rel_task_update:
  assumes rel: "sched_rel Q own s ts" and t: "t < 6" and tr: "task_rel (packets s) Q t T A"
  shows "sched_rel Q own (s\<lparr>tasks := (tasks s)[t := T]\<rparr>) (ts[t := A])"
  using rel t tr by (auto simp: sched_rel_def nth_list_update)

lemma sched_state_update:
  assumes "sched_state s ts" "t < 6"
    "\<And>Q ps. task_rel ps Q t (tasks s ! t) (ts ! t) \<Longrightarrow> task_rel ps Q t (f (tasks s ! t)) (g (ts ! t))"
  shows "sched_state (s\<lparr>tasks := (tasks s)[t := f (tasks s ! t)]\<rparr>) (ts[t := g (ts ! t)])"
proof -
  obtain Q own where rel: "sched_rel Q own s ts" "\<forall>p<8. own p < 12" using assms(1) by (auto simp: sched_state_def)
  show ?thesis
    by (rule sched_stateI [OF sched_rel_task_update [OF rel(1) assms(2) assms(3)] rel(2)])
      (rule sched_rel_task [OF rel(1) assms(2)])
qed

lemma sched_state_task: "sched_state s ts \<Longrightarrow> t < 6 \<Longrightarrow> \<exists>Q. task_rel (packets s) Q t (tasks s ! t) (ts ! t)"
  by (auto simp: sched_state_def intro: sched_rel_task)

lemma sched_state_lengths: "sched_state s ts \<Longrightarrow> length (packets s) = 8 \<and> length (tasks s) = 6 \<and> length ts = 6"
  by (auto simp: sched_state_def dest: sched_rel_lengths)

lemma sched_state_counters [simp]:
  "sched_state (s\<lparr>queuePacketCount := n\<rparr>) ts = sched_state s ts"
  "sched_state (s\<lparr>holdCount := n\<rparr>) ts = sched_state s ts"
  "sched_state (s\<lparr>currentTask := c\<rparr>) ts = sched_state s ts"
  "sched_state (s\<lparr>currentTaskIdentity := i\<rparr>) ts = sched_state s ts"
  by (simp_all add: sched_state_def)

lemma sched_state_cong:
  "packets s = packets s' \<Longrightarrow> tasks s = tasks s' \<Longrightarrow> taskTable s = taskTable s' \<Longrightarrow> sched_state s ts = sched_state s' ts"
  by (simp add: sched_state_def sched_rel_def)

lemma sched_state_task_at: "sched_state s ts \<Longrightarrow> t < 6 \<Longrightarrow> task_at s t = Inr (tasks s ! t)"
  by (simp add: sched_state_lengths task_at_def)

lemma markWaiting_effect:
  assumes "sched_state s ts" "runs cur s"
  shows "ok (Scheduler_markWaiting s) (effect s (a_mark cur ts))"
proof -
  have c: "cur < 6" "currentTask s = Some cur" using assms(2) by (auto simp: runs_def)
  have "sched_state (s\<lparr>tasks := (tasks s)[cur := (tasks s ! cur)\<lparr>taskWaiting := True\<rparr>]\<rparr>)
      (ts[cur := (ts ! cur)\<lparr>a_wait := True\<rparr>])"
    using sched_state_update [OF assms(1) c(1), of "taskWaiting_update (\<lambda>_. True)" "a_wait_update (\<lambda>_. True)"]
    by (simp add: task_rel_def)
  then show ?thesis
    using c sched_state_task_at [OF assms(1) c(1)]
    by (simp add: Scheduler_markWaiting_def a_mark_def deref_def task_update_def)
qed

lemma holdSelf_effect:
  assumes "sched_state s ts" "runs cur s"
  shows "ok (Scheduler_holdSelf s) (effect s (a_holdSelf cur ts))"
proof -
  have c: "cur < 6" "currentTask s = Some cur" "c_int (holdCount s + 1) = Inr (holdCount s + 1)"
    using assms(2) by (auto simp: runs_def c_int_def)
  have "sched_state (s\<lparr>tasks := (tasks s)[cur := (tasks s ! cur)\<lparr>taskHolding := True\<rparr>]\<rparr>)
      (ts[cur := (ts ! cur)\<lparr>a_hold := True\<rparr>])"
    using sched_state_update [OF assms(1) c(1), of "taskHolding_update (\<lambda>_. True)" "a_hold_update (\<lambda>_. True)"]
    by (simp add: task_rel_def)
  moreover have "t_link (tasks s ! cur) = link cur"
    using sched_state_task [OF assms(1) c(1)] by (auto simp: task_rel_def)
  moreover have "length (tasks s) = 6" using sched_state_lengths [OF assms(1)] by simp
  ultimately show ?thesis
    using c sched_state_cong [of "s\<lparr>holdCount := holdCount s + 1, tasks := (tasks s)[cur := (tasks s ! cur)\<lparr>taskHolding := True\<rparr>]\<rparr>"
        "s\<lparr>tasks := (tasks s)[cur := (tasks s ! cur)\<lparr>taskHolding := True\<rparr>]\<rparr>"]
    by (simp add: Scheduler_holdSelf_def a_holdSelf_def deref_def task_update_def task_at_def)
qed

section \<open>Taking packets\<close>

lemma effect_from:
  assumes "ok m (effect s' r)" "queuePacketCount s' = queuePacketCount s" "holdCount s' = holdCount s"
  shows "ok m (effect s r)"
proof (rule ok_mono [OF assms(1)])
  fix x assume "effect s' r x"
  then show "effect s r x" using assms(2,3) by (cases r; cases x) auto
qed

lemma runs_cong [simp]: "runs cur (s\<lparr>tasks := T\<rparr>) = runs cur s" "runs cur (s\<lparr>packets := P\<rparr>) = runs cur s"
  by (simp_all add: runs_def)

text \<open>The first packet leaves slot \<open>i\<close>; the packets themselves do not change.\<close>

lemma sched_rel_take:
  assumes rel: "sched_rel Q own s ts" and full: "\<forall>p<8. own p < 12" and t: "t < 6" "i \<in> slots t" and Q: "Q i = m # xs"
    and tr: "task_rel (packets s) (Q(i := xs)) t T A"
  shows "floating m (s\<lparr>tasks := (tasks s)[t := T]\<rparr>) (ts[t := A])"
proof -
  have i: "i < 12" by (rule slots_less [OF t])
  have "sched_rel (Q(i := xs)) (own(m := 12)) (s\<lparr>packets := packets s, tasks := (tasks s)[t := T]\<rparr>) (ts[t := A])"
    using rel owned_take [OF sched_rel_owned [OF rel] i Q]
    by (intro sched_rel_update [OF rel t]) (auto simp: sched_rel_def tr)
  moreover have "s\<lparr>packets := packets s, tasks := (tasks s)[t := T]\<rparr> = s\<lparr>tasks := (tasks s)[t := T]\<rparr>" by simp
  moreover have "m < 8" using owned_less [OF sched_rel_owned [OF rel] i, of m] Q by simp
  moreover have "(own(m := 12)) m = 12" "\<forall>p<8. p \<noteq> m \<longrightarrow> (own(m := 12)) p < 12" using full by simp_all
  ultimately show ?thesis unfolding floating_def by metis
qed

text \<open>What a task sees in its input queue.\<close>

lemma input_Nil: "task_rel ps Q t T A \<Longrightarrow> t_input T = None \<longleftrightarrow> a_in A = []"
  by (cases "t_input T") (auto simp: task_rel_def holds_queue_def queue_Some)

lemma take_input:
  assumes st: "sched_state s ts" and t: "t < 6" and m: "t_input (tasks s ! t) = Some m"
    and f: "\<And>Q. task_rel (packets s) Q t ((tasks s ! t)\<lparr>t_input := p_link (packets s ! m)\<rparr>) ((ts ! t)\<lparr>a_in := tl (a_in (ts ! t))\<rparr>) \<Longrightarrow>
      task_rel (packets s) Q t T A"
  shows "floating m (s\<lparr>tasks := (tasks s)[t := T]\<rparr>) (ts[t := A]) \<and> m < 8 \<and>
    a_in (ts ! t) = abs_packet (packets s ! m) # tl (a_in (ts ! t)) \<and>
    (p_link (packets s ! m) = None \<longleftrightarrow> tl (a_in (ts ! t)) = [])"
proof -
  obtain Q own where rel: "sched_rel Q own s ts" and full: "\<forall>p<8. own p < 12" using st by (auto simp: sched_state_def)
  have tr: "task_rel (packets s) Q t (tasks s ! t) (ts ! t)" by (rule sched_rel_task [OF rel t])
  obtain xs where Q: "Q t = m # xs" and q: "m < length (packets s)" "queue (packets s) (p_link (packets s ! m)) xs"
    using tr m by (auto simp: task_rel_def holds_queue_def queue_Some)
  have a: "a_in (ts ! t) = map (\<lambda>x. abs_packet (packets s ! x)) (m # xs)" using tr Q by (simp add: task_rel_def holds_queue_def)
  have "data_rel (packets s) (Q(t := xs)) t (t_handle (tasks s ! t)) (a_data (ts ! t))"
  proof (rule data_rel_cong)
    show "data_rel (packets s) Q t (t_handle (tasks s ! t)) (a_data (ts ! t))" using tr by (simp add: task_rel_def)
  qed simp_all
  then have "task_rel (packets s) (Q(t := xs)) t ((tasks s ! t)\<lparr>t_input := p_link (packets s ! m)\<rparr>)
      ((ts ! t)\<lparr>a_in := tl (a_in (ts ! t))\<rparr>)"
    using tr q(2) Q by (simp add: task_rel_def holds_queue_def)
  from f [OF this] have "floating m (s\<lparr>tasks := (tasks s)[t := T]\<rparr>) (ts[t := A])"
    by (intro sched_rel_take [OF rel full t _ Q]) (auto simp: slots_def)
  moreover have "p_link (packets s ! m) = None \<longleftrightarrow> xs = []" using q(2) by (cases xs) auto
  ultimately show ?thesis using a q(1) rel by (simp add: sched_rel_def)
qed

text \<open>A packet taken from slot \<open>i\<close>, which belongs to the private data of the task.\<close>

lemma take_data:
  assumes st: "sched_state s ts" and t: "t < 6" and i: "i \<in> slots t - {t}"
    and D: "\<And>Q. data_rel (packets s) Q t (t_handle (tasks s ! t)) (a_data (ts ! t)) \<Longrightarrow>
      \<exists>xs. Q i = m # xs \<and> data_rel (packets s) (Q(i := xs)) t h d"
  shows "floating m (s\<lparr>tasks := (tasks s)[t := (tasks s ! t)\<lparr>t_handle := h\<rparr>]\<rparr>) (a_set t d ts)"
proof -
  obtain Q own where rel: "sched_rel Q own s ts" and full: "\<forall>p<8. own p < 12" using st by (auto simp: sched_state_def)
  have tr: "task_rel (packets s) Q t (tasks s ! t) (ts ! t)" by (rule sched_rel_task [OF rel t])
  obtain xs where xs: "Q i = m # xs" "data_rel (packets s) (Q(i := xs)) t h d"
    using D [of Q] tr by (auto simp: task_rel_def)
  have "holds_queue (packets s) (t_input (tasks s ! t)) ((Q(i := xs)) t) (a_in (ts ! t))"
    using tr i by (simp add: task_rel_def)
  then have "task_rel (packets s) (Q(i := xs)) t ((tasks s ! t)\<lparr>t_handle := h\<rparr>) ((ts ! t)\<lparr>a_data := d\<rparr>)"
    using tr xs(2) by (simp add: task_rel_def)
  then show ?thesis
    unfolding a_set_def using i by (intro sched_rel_take [OF rel full t _ xs(1)]) auto
qed

lemma put_data:
  assumes rel: "sched_rel Q own s ts" and m: "own m = 12" "m < 8" and full: "\<forall>p<8. p \<noteq> m \<longrightarrow> own p < 12"
    and t: "t < 6" and i: "i \<in> slots t - {t}"
    and app: "touched (packets s) (Q i) m ps'" and dr: "data_rel ps' (Q(i := Q i @ [m])) t h d"
  shows "sched_state (s\<lparr>packets := ps', tasks := (tasks s)[t := (tasks s ! t)\<lparr>t_handle := h\<rparr>]\<rparr>) (a_set t d ts)"
proof -
  have tr: "task_rel (packets s) Q t (tasks s ! t) (ts ! t)" by (rule sched_rel_task [OF rel t])
  have i12: "i < 12" using slots_less [OF t] i by auto
  have "holds_queue ps' (t_input (tasks s ! t)) ((Q(i := Q i @ [m])) t) (a_in (ts ! t))"
  proof (rule holds_queue_cong)
    show "holds_queue (packets s) (t_input (tasks s ! t)) ((Q(i := Q i @ [m])) t) (a_in (ts ! t))"
      using tr i by (simp add: task_rel_def)
    show "length ps' = length (packets s)" by (rule touched_length [OF app])
    show "ps' ! x = packets s ! x" if "x \<in> set ((Q(i := Q i @ [m])) t)" for x
      using touched_frame [OF sched_rel_owned [OF rel] app m(1) i12, of t x] that i t by simp
  qed
  then have "task_rel ps' (Q(i := Q i @ [m])) t ((tasks s ! t)\<lparr>t_handle := h\<rparr>) ((ts ! t)\<lparr>a_data := d\<rparr>)"
    using tr dr by (simp add: task_rel_def)
  from sched_rel_put [OF rel t _ m app this] i
  show ?thesis unfolding a_set_def using full i12 by (intro sched_stateI) auto
qed

end
