(* ===== verification/RichardsSteps.thy ===== *)
theory RichardsSteps
  imports RichardsQueues
begin

text \<open>
  The steps of the scheduler against the abstract machine: each process function, the turn of a task and any
  number of turns of the loop do to the heap what the abstract machine does to the queues.
\<close>

section \<open>The process functions\<close>

lemma effect_queue:
  assumes "floating m s ts" "runs cur s" "abs_packet (packets s ! m) = p"
  shows "ok (Scheduler_queuePacket m s) (effect s (a_queue p cur ts))"
  using queuePacket_effect [OF assms(1,2)] assms(3) by simp

lemma data_rel_cases:
  assumes "data_rel ps Q t h a"
  obtains (device) p q where "h = DeviceTaskDataRecord p" "a = ADev q" "t \<in> {4, 5}"
  | (handler) w d aw ad where "h = HandlerTaskDataRecord w d" "a = AHand aw ad" "t \<in> {2, 3}"
  | (idler) c n where "h = IdleTaskDataRecord c (int n)" "a = AIdle c n" "t = 0" "0 \<le> c" "n \<le> 10000"
  | (worker) dest c where "h = WorkerTaskDataRecord (int dest) c" "a = AWork dest" "t = 1" "0 \<le> c" "c \<le> 26"
  using assms by (cases h; cases a) auto

lemma device_effect:
  assumes st: "sched_state s ts" and r: "runs cur s" and h: "t_handle (tasks s ! cur) = DeviceTaskDataRecord p"
    and a: "a_apply cur None ts = Some u"
  shows "ok (createDevice_apply None cur s) (effect s u)"
proof -
  have c: "cur < 6" using r by (simp add: runs_def)
  obtain Q where "task_rel (packets s) Q cur (tasks s ! cur) (ts ! cur)" using sched_state_task [OF st c] by blast
  then obtain q where q: "a_data (ts ! cur) = ADev q" "cur \<in> {4, 5}"
    "case p of None \<Rightarrow> q = None | Some m \<Rightarrow> q = Some (abs_packet (packets s ! m))"
    using h by (cases "a_data (ts ! cur)") (auto simp: task_rel_def split: option.splits)
  show ?thesis
  proof (cases p)
    case None
    then have "u = a_mark cur ts" using a q by (simp add: a_apply_def)
    then show ?thesis
      using None markWaiting_effect [OF st r] sched_state_task_at [OF st c] h by (simp add: createDevice_apply_def)
  next
    case (Some m)
    let ?s = "s\<lparr>tasks := (tasks s)[cur := (tasks s ! cur)\<lparr>t_handle := DeviceTaskDataRecord None\<rparr>]\<rparr>"
    have "floating m ?s (a_set cur (ADev None) ts)"
      by (rule take_data [OF st c, of "cur + 6"]) (use q(1,2) h Some in \<open>auto simp: slots_def split: option.splits\<close>)
    then have "ok (Scheduler_queuePacket m ?s) (effect ?s (a_queue (abs_packet (packets s ! m)) cur (a_set cur (ADev None) ts)))"
      by (rule effect_queue) (use r in simp_all)
    then show ?thesis
      using Some a q h sched_state_task_at [OF st c]
      by (auto simp: createDevice_apply_def a_apply_def task_update_def intro: effect_from)
  qed
qed

lemma device_effect_packet:
  assumes fl: "floating m s ts" and r: "runs cur s" and h: "t_handle (tasks s ! cur) = DeviceTaskDataRecord p"
    and d: "cur \<in> {4, 5}" and a: "a_apply cur (Some (abs_packet (packets s ! m))) ts = Some u"
  shows "ok (createDevice_apply (Some m) cur s) (effect s u)"
proof -
  have c: "cur < 6" using r by (simp add: runs_def)
  obtain Q own where rel: "sched_rel Q own s ts" and m: "own m = 12" "m < 8" "\<forall>p<8. p \<noteq> m \<longrightarrow> own p < 12"
    using fl by (auto simp: floating_def)
  have tr: "task_rel (packets s) Q cur (tasks s ! cur) (ts ! cur)" by (rule sched_rel_task [OF rel c])
  obtain q where q: "a_data (ts ! cur) = ADev q"
    using tr h by (cases "a_data (ts ! cur)") (auto simp: task_rel_def)
  have q': "q = None" "u = a_holdSelf cur (a_set cur (ADev (Some (abs_packet (packets s ! m)))) ts)"
    using a q by (auto simp: a_apply_def split: if_splits)
  let ?s = "s\<lparr>packets := packets s, tasks := (tasks s)[cur := (tasks s ! cur)\<lparr>t_handle := DeviceTaskDataRecord (Some m)\<rparr>]\<rparr>"
  have "sched_state ?s (a_set cur (ADev (Some (abs_packet (packets s ! m)))) ts)"
  proof (rule put_data [OF rel m c, of "cur + 6"])
    show "cur + 6 \<in> slots cur - {cur}" using d by (auto simp: slots_def)
    have "Q (cur + 6) = []" using tr h q q'(1) by (simp add: task_rel_def split: option.splits)
    then show "data_rel (packets s) (Q(cur + 6 := Q (cur + 6) @ [m])) cur (DeviceTaskDataRecord (Some m))
        (ADev (Some (abs_packet (packets s ! m))))" using d by auto
  qed (rule touched_refl)
  then have "sched_state (s\<lparr>tasks := (tasks s)[cur := (tasks s ! cur)\<lparr>t_handle := DeviceTaskDataRecord (Some m)\<rparr>]\<rparr>)
      (a_set cur (ADev (Some (abs_packet (packets s ! m)))) ts)" by simp
  from holdSelf_effect [OF this, of cur] r
  have "ok (Scheduler_holdSelf (s\<lparr>tasks := (tasks s)[cur := (tasks s ! cur)\<lparr>t_handle := DeviceTaskDataRecord (Some m)\<rparr>]\<rparr>)) (effect s u)"
    by (auto simp: q'(2) intro: effect_from)
  then show ?thesis
    using h task_at_rel [OF rel c] by (simp add: createDevice_apply_def task_update_def TRACING_def)
qed

lemma handler_enqueue_state:
  assumes fl: "floating m s ts" and c: "cur \<in> {2, 3}" and h: "t_handle (tasks s ! cur) = HandlerTaskDataRecord w d"
    and a: "a_data (ts ! cur) = AHand aw ad" "a_enqueue (Some (abs_packet (packets s ! m))) aw ad = (aw', ad')"
  shows "ok (handler_enqueue (Some m) cur s) (\<lambda>s'. sched_state s' (a_set cur (AHand aw' ad') ts) \<and>
    (\<exists>ps T. s' = s\<lparr>packets := ps, tasks := T\<rparr>))"
proof -
  obtain Q own where rel: "sched_rel Q own s ts" and m: "own m = 12" "m < 8" "\<forall>p<8. p \<noteq> m \<longrightarrow> own p < 12"
    using fl by (auto simp: floating_def)
  have c6: "cur < 6" using c by auto
  have tr: "task_rel (packets s) Q cur (tasks s ! cur) (ts ! cur)" by (rule sched_rel_task [OF rel c6])
  then have w: "holds_queue (packets s) w (Q (cur + 4)) aw" and d: "holds_queue (packets s) d (Q (cur + 6)) ad"
    using h a(1) by (simp_all add: task_rel_def)
  have slots: "cur + 4 \<in> slots cur - {cur}" "cur + 6 \<in> slots cur - {cur}" using c by (auto simp: slots_def)
  have i12: "cur + 4 < 12" "cur + 6 < 12" using c by auto
  have o: "m \<notin> set (Q i)" "distinct (Q i)" if "i < 12" for i
    using sched_rel_owned [OF rel] m that by (auto simp: owned_def)
  have len: "m < length (packets s)" using m(2) sched_rel_lengths [OF rel] by simp
  have at: "packet_at (packets s) m = Inr (packets s ! m)" "task_at s cur = Inr (tasks s ! cur)"
    using packet_at_rel [OF rel m(2)] task_at_rel [OF rel c6] by auto
  have frame: "holds_queue ps' q (Q j) as"
    if "holds_queue (packets s) q (Q j) as" "touched (packets s) (Q i) m ps'" "i < 12" "j < 12" "j \<noteq> i" for i j q as ps'
    using holds_queue_cong [OF that(1) touched_length [OF that(2)]]
      touched_frame [OF sched_rel_owned [OF rel] that(2) m(1) that(3,4,5)] by blast
  show ?thesis
  proof (cases "p_kind (packets s ! m) = WORK_PACKET_KIND")
    case True
    then have e: "aw' = aw @ [abs_packet (packets s ! m)]" "ad' = ad" using a(2) by (auto simp: abs_packet_def)
    obtain h' ps' where app: "RBObject_append m w (packets s) = Inr (h', ps')" "appended (packets s) (Q (cur + 4)) m h' ps'"
      using append_rel [OF w o(2) [OF i12(1)] o(1) [OF i12(1)] len] by blast
    then have t: "touched (packets s) (Q (cur + 4)) m ps'" "relinked (packets s) ps'" "queue ps' h' (Q (cur + 4) @ [m])"
      by (auto simp: appended_def touched_def)
    have "data_rel ps' (Q(cur + 4 := Q (cur + 4) @ [m])) cur (HandlerTaskDataRecord h' d) (AHand aw' ad')"
      using c holds_queue_append [OF w t(3,2)] frame [OF d t(1) i12] by (simp add: e)
    from put_data [OF rel m c6 slots(1) t(1) this]
    have "sched_state (s\<lparr>packets := ps', tasks := (tasks s)[cur := (tasks s ! cur)\<lparr>t_handle := HandlerTaskDataRecord h' d\<rparr>]\<rparr>)
      (a_set cur (AHand aw' ad') ts)" .
    then show ?thesis
      using True app(1) at h c6 sched_rel_lengths [OF rel]
      by (auto simp: handler_enqueue_def task_update_def task_at_def)
  next
    case False
    then have e: "aw' = aw" "ad' = ad @ [abs_packet (packets s ! m)]" using a(2) by (auto simp: abs_packet_def)
    obtain h' ps' where app: "RBObject_append m d (packets s) = Inr (h', ps')" "appended (packets s) (Q (cur + 6)) m h' ps'"
      using append_rel [OF d o(2) [OF i12(2)] o(1) [OF i12(2)] len] by blast
    then have t: "touched (packets s) (Q (cur + 6)) m ps'" "relinked (packets s) ps'" "queue ps' h' (Q (cur + 6) @ [m])"
      by (auto simp: appended_def touched_def)
    have "data_rel ps' (Q(cur + 6 := Q (cur + 6) @ [m])) cur (HandlerTaskDataRecord w h') (AHand aw' ad')"
      using c holds_queue_append [OF d t(3,2)] frame [OF w t(1) i12(2,1)] by (simp add: e)
    from put_data [OF rel m c6 slots(2) t(1) this]
    have "sched_state (s\<lparr>packets := ps', tasks := (tasks s)[cur := (tasks s ! cur)\<lparr>t_handle := HandlerTaskDataRecord w h'\<rparr>]\<rparr>)
      (a_set cur (AHand aw' ad') ts)" .
    then show ?thesis
      using False app(1) at h c6 sched_rel_lengths [OF rel]
      by (auto simp: handler_enqueue_def task_update_def task_at_def)
  qed
qed

lemma a_set_a_set [simp]: "a_set t d (a_set t e ts) = a_set t d ts"
  by (cases "t < length ts") (simp_all add: a_set_def list_update_beyond)

lemma a_set_same: "t < length ts \<Longrightarrow> a_data (ts ! t) = d \<Longrightarrow> a_set t d ts = ts"
  by (auto simp: a_set_def)

lemma a_data_set [simp]: "t < length ts \<Longrightarrow> a_data (a_set t d ts ! t) = d"
  by (simp add: a_set_def)

lemma a_handle_set: "a_handle q cur (a_set cur d ts) = a_handle q cur ts"
  by (cases "(q, cur, ts)" rule: a_handle.cases) (auto split: list.splits apacket.splits)

text \<open>The first work packet of a handler gets a new datum while another packet floats.\<close>

lemma bump_work:
  assumes fl: "floating y s ts" and c: "cur \<in> {2, 3}" and h: "t_handle (tasks s ! cur) = HandlerTaskDataRecord (Some m) d"
    and a: "a_data (ts ! cur) = AHand (Work i n # w) ad" and v: "v = int (n + 1)"
  shows "floating y (s\<lparr>packets := (packets s)[m := (packets s ! m)\<lparr>p_datum := v\<rparr>]\<rparr>) (a_set cur (AHand (Work i (n + 1) # w) ad) ts)"
proof -
  obtain Q own where rel: "sched_rel Q own s ts" and y: "own y = 12" "y < 8" "\<forall>p<8. p \<noteq> y \<longrightarrow> own p < 12"
    using fl by (auto simp: floating_def)
  have c6: "cur < 6" using c by auto
  have tr: "task_rel (packets s) Q cur (tasks s ! cur) (ts ! cur)" by (rule sched_rel_task [OF rel c6])
  then have hq: "holds_queue (packets s) (Some m) (Q (cur + 4)) (Work i n # w)" and hd: "holds_queue (packets s) d (Q (cur + 6)) ad"
    using h a by (simp_all add: task_rel_def)
  then obtain xs where xs: "Q (cur + 4) = m # xs" "m < length (packets s)" "queue (packets s) (p_link (packets s ! m)) xs"
    by (auto simp: holds_queue_def queue_Some)
  have i12: "cur + 4 < 12" "cur + 6 < 12" "cur < 12" using c by auto
  have o: "distinct (m # xs)" "own m = cur + 4"
    using sched_rel_owned [OF rel] i12(1) xs(1) unfolding owned_def by (metis, metis (mono_tags, lifting) list.set_intros(1) mem_Collect_eq)
  have ab: "abs_packet (packets s ! m) = Work i n" "w = map (\<lambda>x. abs_packet (packets s ! x)) xs"
    using hq xs(1) by (auto simp: holds_queue_def)
  let ?p = "(packets s ! m)\<lparr>p_datum := v\<rparr>" and ?ps = "(packets s)[m := (packets s ! m)\<lparr>p_datum := v\<rparr>]"
  have other: "m \<notin> set (Q j)" if "j < 12" "j \<noteq> cur + 4" for j
    using sched_rel_owned [OF rel] that o(2) by (auto simp: owned_def)
  have same: "?ps ! x = packets s ! x" if "x \<noteq> m" for x using that by simp
  have hq': "holds_queue ?ps (Some m) (Q (cur + 4)) (Work i (n + 1) # w)"
  proof -
    have "queue ?ps (p_link (packets s ! m)) xs"
      using xs(3) o(1) queue_cong [of ?ps "packets s" xs] by (auto intro!: same)
    moreover have "abs_packet ?p = Work i (n + 1)" using ab(1) v by (auto simp: abs_packet_def split: if_splits)
    moreover have "map (\<lambda>x. abs_packet (?ps ! x)) xs = w" using o(1) ab(2) by (auto intro!: map_cong arg_cong [of _ _ abs_packet] same)
    ultimately show ?thesis using xs(1,2) by (simp add: holds_queue_def)
  qed
  have "task_rel ?ps Q cur (tasks s ! cur) ((ts ! cur)\<lparr>a_data := AHand (Work i (n + 1) # w) ad\<rparr>)"
  proof -
    have "holds_queue ?ps d (Q (cur + 6)) ad"
      using holds_queue_cong [OF hd, of ?ps] other [OF i12(2)] same by fastforce
    moreover have "holds_queue ?ps (t_input (tasks s ! cur)) (Q cur) (a_in (ts ! cur))"
      using holds_queue_cong [of "packets s" _ "Q cur" _ ?ps] tr other [OF i12(3)] same by (fastforce simp: task_rel_def)
    ultimately show ?thesis using tr hq' h c by (simp add: task_rel_def)
  qed
  note tr' = this
  have "sched_rel Q own (s\<lparr>packets := ?ps, tasks := (tasks s)[cur := tasks s ! cur]\<rparr>)
      (ts[cur := (ts ! cur)\<lparr>a_data := AHand (Work i (n + 1) # w) ad\<rparr>])"
  proof (rule sched_rel_update [OF rel c6, of "cur + 4" Q own ?ps])
    show "task_rel ?ps Q cur (tasks s ! cur) ((ts ! cur)\<lparr>a_data := AHand (Work i (n + 1) # w) ad\<rparr>)" by (rule tr')
    show "cur + 4 \<in> slots cur" using c by (auto simp: slots_def)
    show "packet_wf (?ps ! p)" if "p < 8" for p
      using that rel v xs(2) by (cases "p = m") (auto simp: sched_rel_def packet_wf_def)
    show "?ps ! p = packets s ! p" if "j < 12" "j \<noteq> cur + 4" "p \<in> set (Q j)" for j p
      using that other same by metis
  qed (use rel in \<open>auto simp: sched_rel_def\<close>)
  then have "sched_rel Q own (s\<lparr>packets := ?ps\<rparr>) (a_set cur (AHand (Work i (n + 1) # w) ad) ts)"
    by (simp add: a_set_def)
  then show ?thesis unfolding floating_def using y by blast
qed

lemma data_rel_handler:
  assumes "sched_state s ts" "cur < 6" "t_handle (tasks s ! cur) = HandlerTaskDataRecord w d"
  obtains Q own aw ad where "sched_rel Q own s ts" "a_data (ts ! cur) = AHand aw ad" "cur \<in> {2, 3}"
    "holds_queue (packets s) w (Q (cur + 4)) aw" "holds_queue (packets s) d (Q (cur + 6)) ad"
proof -
  obtain Q own where rel: "sched_rel Q own s ts" using assms(1) by (auto simp: sched_state_def)
  have "task_rel (packets s) Q cur (tasks s ! cur) (ts ! cur)" by (rule sched_rel_task [OF rel assms(2)])
  then obtain aw ad where "a_data (ts ! cur) = AHand aw ad" "cur \<in> {2, 3}"
    "holds_queue (packets s) w (Q (cur + 4)) aw" "holds_queue (packets s) d (Q (cur + 6)) ad"
    using assms(3) by (cases "a_data (ts ! cur)") (auto simp: task_rel_def)
  with rel that show thesis by blast
qed

lemma holds_queue_None: "holds_queue ps None xs as \<longleftrightarrow> xs = [] \<and> as = []"
  by (auto simp: holds_queue_def)

lemma holds_queue_Some: "holds_queue ps (Some m) xs as \<longleftrightarrow>
    (\<exists>ys bs. xs = m # ys \<and> m < length ps \<and> as = abs_packet (ps ! m) # bs \<and> holds_queue ps (p_link (ps ! m)) ys bs)"
  by (auto simp: holds_queue_def queue_Some)

lemma holds_queue_cases: "holds_queue ps h xs as \<Longrightarrow> h = None \<and> as = [] \<or>
    (\<exists>m. h = Some m \<and> m < length ps \<and> as = abs_packet (ps ! m) # tl as)"
  by (cases h) (auto simp: holds_queue_None holds_queue_Some)

text \<open>A packet is taken from one of the two queues of a handler.\<close>

lemma take_work:
  assumes "sched_state s ts" "t_handle (tasks s ! cur) = HandlerTaskDataRecord (Some m) d" "cur \<in> {2, 3}"
    "a_data (ts ! cur) = AHand aw ad"
  shows "floating m (s\<lparr>tasks := (tasks s)[cur := (tasks s ! cur)\<lparr>t_handle := HandlerTaskDataRecord (p_link (packets s ! m)) d\<rparr>]\<rparr>)
     (a_set cur (AHand (tl aw) ad) ts)"
proof (rule take_data [OF assms(1)])
  show "cur + 4 \<in> slots cur - {cur}" using assms(3) by (auto simp: slots_def)
  show "\<exists>xs. Q (cur + 4) = m # xs \<and> data_rel (packets s) (Q(cur + 4 := xs)) cur
      (HandlerTaskDataRecord (p_link (packets s ! m)) d) (AHand (tl aw) ad)"
    if "data_rel (packets s) Q cur (t_handle (tasks s ! cur)) (a_data (ts ! cur))" for Q
    using that assms(2-4) by (auto simp: holds_queue_Some)
qed (use assms(3) in auto)

lemma take_device:
  assumes "sched_state s ts" "t_handle (tasks s ! cur) = HandlerTaskDataRecord w (Some m)" "cur \<in> {2, 3}"
    "a_data (ts ! cur) = AHand aw ad"
  shows "floating m (s\<lparr>tasks := (tasks s)[cur := (tasks s ! cur)\<lparr>t_handle := HandlerTaskDataRecord w (p_link (packets s ! m))\<rparr>]\<rparr>)
     (a_set cur (AHand aw (tl ad)) ts)"
proof (rule take_data [OF assms(1)])
  show "cur + 6 \<in> slots cur - {cur}" using assms(3) by (auto simp: slots_def)
  show "\<exists>xs. Q (cur + 6) = m # xs \<and> data_rel (packets s) (Q(cur + 6 := xs)) cur
      (HandlerTaskDataRecord w (p_link (packets s ! m))) (AHand aw (tl ad))"
    if "data_rel (packets s) Q cur (t_handle (tasks s ! cur)) (a_data (ts ! cur))" for Q
    using that assms(2-4) by (auto simp: holds_queue_Some)
qed (use assms(3) in auto)

text \<open>The end of the handler: a device packet gets its datum, the work packet moves on to the next one.\<close>

lemma serve_device:
  assumes fl: "floating y s ts" and r: "runs cur s" and c: "cur \<in> {2, 3}"
    and h: "t_handle (tasks s ! cur) = HandlerTaskDataRecord (Some m) d"
    and a: "a_data (ts ! cur) = AHand (Work i n # w) ad" and n: "n < 4" and j: "abs_packet (packets s ! y) = Dev j"
  shows "ok (rbind (on_packets (Packet_setDatum y v) s) (\<lambda>s. rbind (c_int (int n + 1)) (\<lambda>k.
     rbind (on_packets (Packet_setDatum m k) s) (\<lambda>s. Scheduler_queuePacket y s))))
     (effect s (a_queue (Dev j) cur (a_set cur (AHand (Work i (n + 1) # w) ad) ts)))"
proof -
  obtain Q own where rel: "sched_rel Q own s ts" and y: "own y = 12" "y < 8" using fl by (auto simp: floating_def)
  have c6: "cur < 6" using c by auto
  have "task_rel (packets s) Q cur (tasks s ! cur) (ts ! cur)" by (rule sched_rel_task [OF rel c6])
  then have hq: "holds_queue (packets s) (Some m) (Q (cur + 4)) (Work i n # w)" using h a by (simp add: task_rel_def)
  then have m: "m < length (packets s)" "m \<in> set (Q (cur + 4))" by (auto simp: holds_queue_Some)
  have "cur + 4 < 12" using c by auto
  then have "own m = cur + 4" using sched_rel_owned [OF rel] m(2) by (auto simp: owned_def)
  then have ym: "y \<noteq> m" using y c by auto
  let ?q = "(packets s ! y)\<lparr>p_datum := v\<rparr>"
  let ?s1 = "s\<lparr>packets := (packets s)[y := ?q]\<rparr>"
  let ?s2 = "?s1\<lparr>packets := (packets ?s1)[m := (packets ?s1 ! m)\<lparr>p_datum := int (n + 1)\<rparr>]\<rparr>"
  have kind: "p_kind (packets s ! y) \<noteq> WORK_PACKET_KIND" using j by (auto simp: abs_packet_def split: if_splits)
  then have wf: "packet_wf ?q" "abs_packet ?q = Dev j"
    using rel y(2) j by (auto simp: sched_rel_def packet_wf_def abs_packet_def)
  have f1: "floating y ?s1 ts" by (rule floating_packet [OF fl wf(1)])
  have f2: "floating y ?s2 (a_set cur (AHand (Work i (n + 1) # w) ad) ts)"
    by (rule bump_work [OF f1 c _ a]) (simp_all add: h)
  have len: "length (packets s) = 8" using sched_rel_lengths [OF rel] by simp
  have "ok (Scheduler_queuePacket y ?s2) (effect ?s2 (a_queue (Dev j) cur (a_set cur (AHand (Work i (n + 1) # w) ad) ts)))"
    by (rule effect_queue [OF f2]) (use r wf(2) ym y(2) len in simp_all)
  then have *: "ok (Scheduler_queuePacket y ?s2) (effect s (a_queue (Dev j) cur (a_set cur (AHand (Work i (n + 1) # w) ad) ts)))"
    by (rule effect_from) simp_all
  have "c_int (int n + 1) = Inr (int (n + 1))" using n by (simp add: c_int_def INT_MAX_def)
  then show ?thesis
    using * y(2) m(1) len by (simp add: on_packets_def Packet_setDatum_def packet_update_def packet_at_def)
qed

lemma handler_serve_effect:
  assumes st: "sched_state s ts" and r: "runs cur s" and h: "t_handle (tasks s ! cur) = HandlerTaskDataRecord w d"
    and a: "a_data (ts ! cur) = AHand aw ad" "a_handle (aw, ad) cur ts = Some u"
  shows "ok (handler_serve cur s) (effect s u)"
proof -
  have c6: "cur < 6" using r by (simp add: runs_def)
  obtain Q own where rel: "sched_rel Q own s ts" and c: "cur \<in> {2, 3}"
    and hw: "holds_queue (packets s) w (Q (cur + 4)) aw" and hd: "holds_queue (packets s) d (Q (cur + 6)) ad"
    using data_rel_handler [OF st c6 h] a(1) by (metis adata.inject(2))
  have at: "task_at s cur = Inr (tasks s ! cur)" by (rule task_at_rel [OF rel c6])
  have lt: "cur < length ts" "cur < length (tasks s)" using c6 sched_rel_lengths [OF rel] by auto
  have same: "a_set cur (AHand aw ad) ts = ts" by (rule a_set_same [OF lt(1) a(1)])
  have mark: "ok (Scheduler_markWaiting s) (effect s (a_mark cur ts))" by (rule markWaiting_effect [OF st r])
  show ?thesis
  proof (cases w)
    case None
    then have "aw = []" using hw by (simp add: holds_queue_None)
    then show ?thesis using None a(2) h at mark same by (simp add: handler_serve_def)
  next
    case (Some m)
    define p where "p = packets s ! m"
    have m: "m < length (packets s)" "aw = abs_packet p # tl aw" using hw Some by (auto simp: holds_queue_Some p_def)
    then obtain i n where i: "abs_packet p = Work i n" using a(2) by (cases "abs_packet p") (auto, metis a_handle.simps(3) option.distinct(1))
    have pw: "packet_wf p" using rel m(1) by (simp add: sched_rel_def p_def)
    then have n: "p_datum p = int n" "length (p_data p) = 4" using i by (auto simp: abs_packet_def packet_wf_def split: if_splits)
    have atm: "packet_at (packets s) m = Inr p" using m(1) by (simp add: packet_at_def p_def)
    have u: "a_handle (Work i n # tl aw, ad) cur ts = Some u" using a(2) m(2) i by simp
    show ?thesis
    proof (cases "n \<ge> 4")
      case True
      let ?s = "s\<lparr>tasks := (tasks s)[cur := (tasks s ! cur)\<lparr>t_handle := HandlerTaskDataRecord (p_link p) d\<rparr>]\<rparr>"
      have "floating m ?s (a_set cur (AHand (tl aw) ad) ts)"
        using take_work [OF st _ c a(1), of m d] h Some by (simp add: p_def)
      then have "ok (Scheduler_queuePacket m ?s) (effect ?s (a_queue (Work i n) cur (a_set cur (AHand (tl aw) ad) ts)))"
        by (rule effect_queue) (use r i in \<open>simp_all add: p_def\<close>)
      then have "ok (Scheduler_queuePacket m ?s) (effect s u)"
        using u True by (auto intro: effect_from)
      then show ?thesis
        using True Some h at atm n lt by (simp add: handler_serve_def DATA_SIZE_def task_update_def)
    next
      case False
      show ?thesis
      proof (cases d)
        case None
        then have "ad = []" using hd by (simp add: holds_queue_None)
        then have "u = a_mark cur ts" using u False m(2) i same by simp
        then show ?thesis
          using None False Some h at atm n mark by (simp add: handler_serve_def DATA_SIZE_def)
      next
        case y: (Some y)
        define q where "q = packets s ! y"
        obtain ad' where ylen: "y < length (packets s)" "ad = abs_packet q # ad'"
          using hd y by (auto simp: holds_queue_Some q_def)
        obtain j where j: "abs_packet q = Dev j" using u False ylen(2) by (cases "abs_packet q") auto
        then have u': "u = a_queue (Dev j) cur (a_set cur (AHand (Work i (n + 1) # tl aw) (tl ad)) ts)"
          using u False ylen(2) by simp
        define v where "v = p_data p ! n"
        have v: "arr_get (p_data p) (int n) = Inr v" using n False by (simp add: arr_get_def v_def)
        let ?T = "(tasks s)[cur := (tasks s ! cur)\<lparr>t_handle := HandlerTaskDataRecord w (p_link q)\<rparr>]"
        have f1: "floating y (s\<lparr>tasks := ?T\<rparr>) (a_set cur (AHand aw (tl ad)) ts)"
          using take_device [OF st _ c a(1), of w y] h y by (simp add: q_def)
        have "ok (rbind (on_packets (Packet_setDatum y v) (s\<lparr>tasks := ?T\<rparr>)) (\<lambda>s. rbind (c_int (int n + 1)) (\<lambda>k.
            rbind (on_packets (Packet_setDatum m k) s) (\<lambda>s. Scheduler_queuePacket y s)))) (effect (s\<lparr>tasks := ?T\<rparr>) u)"
          using serve_device [OF f1, of cur m "p_link q" i n "tl aw" "tl ad" j v] r c h Some lt m(2) i j False
          by (simp add: u' q_def)
        then have "ok (rbind (on_packets (Packet_setDatum y v) (s\<lparr>tasks := ?T\<rparr>)) (\<lambda>s. rbind (c_int (int n + 1)) (\<lambda>k.
            rbind (on_packets (Packet_setDatum m k) s) (\<lambda>s. Scheduler_queuePacket y s)))) (effect s u)"
          by (rule effect_from) simp_all
        then show ?thesis
          using False Some h y at atm n v lt ylen(1)
          by (simp add: handler_serve_def DATA_SIZE_def task_update_def q_def packet_at_def)
      qed
    qed
  qed
qed

lemma worker_fill_ok:
  assumes "length d = 4" "0 \<le> c" "c \<le> 26"
  shows "\<exists>d' c'. worker_fill d c = Inr (d', c') \<and> length d' = 4 \<and> 0 \<le> c' \<and> c' \<le> 26"
proof -
  let ?f = "\<lambda>i (d, c). rbind (c_int (c + 1)) (\<lambda>c. let c = (if c > 26 then 1 else c) in
       rbind (arr_set d (int i) (65 + c - 1)) (\<lambda>d. Inr (d, c)))"
  have "\<exists>d' c'. rfold ?f is (d, c) = Inr (d', c') \<and> length d' = 4 \<and> 0 \<le> c' \<and> c' \<le> 26"
    if "list_all (\<lambda>i. i < 4) is" "length d = 4" "0 \<le> c" "c \<le> 26" for "is" d c
    using that
  proof (induction "is" arbitrary: d c)
    case (Cons i "is")
    define c1 where "c1 = (if c + 1 > 26 then 1 else c + 1)"
    have c1: "0 \<le> c1" "c1 \<le> 26" using Cons.prems by (auto simp: c1_def)
    have "?f i (d, c) = Inr (d[i := 65 + c1 - 1], c1)"
      using Cons.prems by (simp add: c_int_def INT_MAX_def arr_set_def c1_def Let_def)
    then have "rfold ?f (i # is) (d, c) = rfold ?f is (d[i := 65 + c1 - 1], c1)" by simp
    then show ?case using Cons.IH [of "d[i := 65 + c1 - 1]" c1] Cons.prems c1 by simp
  qed simp
  then show ?thesis using assms by (simp add: worker_fill_def DATA_SIZE_def list_all_iff)
qed

lemma floating_task_update:
  assumes "floating m s ts" "t < 6"
    "\<And>Q ps. task_rel ps Q t (tasks s ! t) (ts ! t) \<Longrightarrow> task_rel ps Q t T A"
  shows "floating m (s\<lparr>tasks := (tasks s)[t := T]\<rparr>) (ts[t := A])"
  using assms sched_rel_task_update sched_rel_task unfolding floating_def by metis

lemma worker_effect:
  assumes fl: "floating m s ts" and r: "runs cur s" and c: "cur = 1"
    and a: "a_apply cur (Some (abs_packet (packets s ! m))) ts = Some u"
  shows "ok (createWorker_apply (Some m) cur s) (effect s u)"
proof -
  obtain Q own where rel: "sched_rel Q own s ts" and m: "m < 8" using fl by (auto simp: floating_def)
  have c6: "cur < 6" using c by simp
  have tr: "task_rel (packets s) Q cur (tasks s ! cur) (ts ! cur)" by (rule sched_rel_task [OF rel c6])
  then have dr: "data_rel (packets s) Q cur (t_handle (tasks s ! cur)) (a_data (ts ! cur))" by (simp add: task_rel_def)
  then obtain dest count where h: "t_handle (tasks s ! cur) = WorkerTaskDataRecord (int dest) count"
    and ad: "a_data (ts ! cur) = AWork dest" and count: "0 \<le> count" "count \<le> 26"
    by (rule data_rel_cases) (use c in auto)
  define p where "p = packets s ! m"
  have p: "packet_wf p" using rel m by (simp add: p_def sched_rel_def)
  obtain d' c' where fill: "worker_fill (p_data p) count = Inr (d', c')" "length d' = 4" "0 \<le> c'" "c' \<le> 26"
    using worker_fill_ok [of "p_data p" count] p count by (auto simp: packet_wf_def)
  define dest' :: nat where "dest' = (if dest = 2 then 3 else 2)"
  have dest: "(if HANDLER_A = int dest then HANDLER_B else HANDLER_A) = int dest'"
    by (auto simp: HANDLER_A_def HANDLER_B_def dest'_def)
  define v where "v = p\<lparr>p_identity := int dest', p_datum := 0, p_data := d'\<rparr>"
  have v: "packet_wf v" "abs_packet v = (case abs_packet p of Work i n \<Rightarrow> Work dest' 0 | Dev i \<Rightarrow> Dev dest')"
    using p fill(2) by (auto simp: v_def packet_wf_def abs_packet_def dest'_def)
  let ?s1 = "s\<lparr>packets := (packets s)[m := v]\<rparr>"
  let ?T = "(tasks s)[cur := (tasks s ! cur)\<lparr>t_handle := WorkerTaskDataRecord (int dest') c'\<rparr>]"
  have "floating m (?s1\<lparr>tasks := (tasks ?s1)[cur := (tasks s ! cur)\<lparr>t_handle := WorkerTaskDataRecord (int dest') c'\<rparr>]\<rparr>)
      (a_set cur (AWork dest') ts)"
    unfolding a_set_def
    by (rule floating_task_update [OF floating_packet [OF fl v(1)] c6]) (use fill c in \<open>simp add: task_rel_def\<close>)
  then have "ok (Scheduler_queuePacket m (?s1\<lparr>tasks := ?T\<rparr>)) (effect (?s1\<lparr>tasks := ?T\<rparr>) (a_queue (abs_packet v) cur (a_set cur (AWork dest') ts)))"
    by (intro effect_queue) (use r m sched_rel_lengths [OF rel] in simp_all)
  then have "ok (Scheduler_queuePacket m (?s1\<lparr>tasks := ?T\<rparr>)) (effect s (a_queue (abs_packet v) cur (a_set cur (AWork dest') ts)))"
    by (rule effect_from) simp_all
  moreover have "u = a_queue (abs_packet v) cur (a_set cur (AWork dest') ts)"
    using a ad by (simp add: a_apply_def v(2) p_def Let_def flip: dest'_def)
  moreover have "createWorker_apply (Some m) cur s = Scheduler_queuePacket m (?s1\<lparr>tasks := ?T\<rparr>)"
    using h task_at_rel [OF rel c6] m sched_rel_lengths [OF rel] fill(1) c
    by (simp add: createWorker_apply_def dest on_packets_def Packet_setIdentity_def Packet_setDatum_def packet_update_def
        packet_at_def p_def [symmetric] v_def task_update_def task_at_def Let_def)
  ultimately show ?thesis by simp
qed

lemma worker_effect_none:
  assumes st: "sched_state s ts" and r: "runs cur s" and h: "t_handle (tasks s ! cur) = WorkerTaskDataRecord d n"
    and a: "a_apply cur None ts = Some u"
  shows "ok (createWorker_apply None cur s) (effect s u)"
proof -
  have c6: "cur < 6" using r by (simp add: runs_def)
  obtain Q where "task_rel (packets s) Q cur (tasks s ! cur) (ts ! cur)" using sched_state_task [OF st c6] by blast
  then obtain dest where "a_data (ts ! cur) = AWork dest" using h by (cases "a_data (ts ! cur)") (auto simp: task_rel_def)
  then have "u = a_mark cur ts" using a by (simp add: a_apply_def)
  then show ?thesis
    using markWaiting_effect [OF st r] sched_state_task_at [OF st c6] h by (simp add: createWorker_apply_def)
qed

lemma handler_effect:
  assumes fl: "floating m s ts" and r: "runs cur s" and c: "cur \<in> {2, 3}"
    and a: "a_apply cur (Some (abs_packet (packets s ! m))) ts = Some u"
  shows "ok (createHandler_apply (Some m) cur s) (effect s u)"
proof -
  obtain Q own where rel: "sched_rel Q own s ts" using fl by (auto simp: floating_def)
  have c6: "cur < 6" using c by auto
  have "task_rel (packets s) Q cur (tasks s ! cur) (ts ! cur)" by (rule sched_rel_task [OF rel c6])
  then have dr: "data_rel (packets s) Q cur (t_handle (tasks s ! cur)) (a_data (ts ! cur))" by (simp add: task_rel_def)
  then obtain w d aw ad where h: "t_handle (tasks s ! cur) = HandlerTaskDataRecord w d" "a_data (ts ! cur) = AHand aw ad"
    by (rule data_rel_cases) (use c in auto)
  obtain aw' ad' where e: "a_enqueue (Some (abs_packet (packets s ! m))) aw ad = (aw', ad')" by force
  have u: "a_handle (aw', ad') cur ts = Some u" using a h(2) e by (simp add: a_apply_def)
  show ?thesis
    unfolding createHandler_apply_def
  proof (rule ok_step [OF handler_enqueue_state [OF fl c h e]])
    fix s' assume s': "sched_state s' (a_set cur (AHand aw' ad') ts) \<and> (\<exists>ps T. s' = s\<lparr>packets := ps, tasks := T\<rparr>)"
    let ?ts = "a_set cur (AHand aw' ad') ts"
    have ad: "a_data (?ts ! cur) = AHand aw' ad'" using sched_rel_lengths [OF rel] c6 by simp
    obtain Q' where "task_rel (packets s') Q' cur (tasks s' ! cur) (?ts ! cur)" using sched_state_task [of s' ?ts cur] s' c6 by blast
    then obtain w' d' where h': "t_handle (tasks s' ! cur) = HandlerTaskDataRecord w' d'"
      using ad by (cases "t_handle (tasks s' ! cur)") (auto simp: task_rel_def)
    have "runs cur s'" using r s' by auto
    moreover have "a_handle (aw', ad') cur ?ts = Some u" using u by (simp add: a_handle_set)
    ultimately have "ok (handler_serve cur s') (effect s' u)" using handler_serve_effect [OF _ _ h' ad] s' by blast
    then show "ok (handler_serve cur s') (effect s u)" by (rule effect_from) (use s' in auto)
  qed
qed

lemma release_effect:
  assumes st: "sched_state s ts" and r: "runs cur s" and d: "d < 6"
  shows "ok (Scheduler_release (int d) s) (effect s (a_release d cur ts))"
proof -
  have c: "cur < 6" "currentTask s = Some cur" using r by (auto simp: runs_def)
  obtain Q own where rel: "sched_rel Q own s ts" using st by (auto simp: sched_state_def)
  have pri: "t_priority (tasks s ! t) = 1000 * int t" if "t < 6" for t
    using sched_rel_task [OF rel that] by (simp add: task_rel_def)
  let ?T = "(tasks s)[d := (tasks s ! d)\<lparr>taskHolding := False\<rparr>]"
  have st': "sched_state (s\<lparr>tasks := ?T\<rparr>) (ts[d := (ts ! d)\<lparr>a_hold := False\<rparr>])"
    using sched_state_update [OF st d, of "taskHolding_update (\<lambda>_. False)" "a_hold_update (\<lambda>_. False)"]
    by (simp add: task_rel_def)
  have len: "length (tasks s) = 6" using sched_rel_lengths [OF rel] by simp
  have "t_priority (?T ! cur) = 1000 * int cur" "t_priority (?T ! d) = 1000 * int d"
    using pri c d len by (auto simp: nth_list_update)
  then have "Scheduler_release (int d) s = Inr (if cur < d then Some d else Some cur, s\<lparr>tasks := ?T\<rparr>)"
    using findTask_rel [OF rel, of "int d"] d c len by (simp add: Scheduler_release_def task_update_def task_at_def deref_def)
  then show ?thesis using st' by (auto simp: a_release_def)
qed

lemma idler_effect:
  assumes st: "sched_state s ts" and r: "runs cur s" and h: "t_handle (tasks s ! cur) = IdleTaskDataRecord c (int n)"
    and ad: "a_data (ts ! cur) = AIdle c n" "cur = 0" "0 \<le> c" "n \<le> 10000" and a: "a_apply cur None ts = Some u"
  shows "ok (createIdler_apply None cur s) (effect s u)"
proof -
  have c6: "cur < 6" using r by (simp add: runs_def)
  have n: "n \<noteq> 0" using a ad by (cases "n = 0") (auto simp: a_apply_def)
  define upd where "upd c n = s\<lparr>tasks := (tasks s)[cur := (tasks s ! cur)\<lparr>t_handle := IdleTaskDataRecord c (int n)\<rparr>]\<rparr>" for c n
  have st': "sched_state (upd c' n') (a_set cur (AIdle c' n') ts)" if "0 \<le> c'" "n' \<le> 10000" for c' n'
    using sched_state_update [OF st c6, of "t_handle_update (\<lambda>_. IdleTaskDataRecord c' (int n'))" "a_data_update (\<lambda>_. AIdle c' n')"] that ad
    by (simp add: task_rel_def upd_def a_set_def)
  have r': "runs cur (upd c' n')" for c' n' using r by (simp add: upd_def)
  have ret: "ok m (effect s v)" if "ok m (effect (upd c' n') v)" for m c' n' v
    using that by (rule effect_from) (simp_all add: upd_def)
  have start: "createIdler_apply None cur s =
     (if n = 1 then Scheduler_holdSelf (upd c 0)
      else if c AND 1 = 0 then Scheduler_release DEVICE_A (upd (c div 2) (n - 1))
      else Scheduler_release DEVICE_B (upd (c div 2 XOR 53256) (n - 1)))"
    using h sched_state_task_at [OF st c6] c6 sched_state_lengths [OF st] n ad(3,4)
    by (simp add: createIdler_apply_def c_int_def INT_MAX_def c_div_pos task_update_def task_at_def upd_def of_nat_diff)
  have even: "c AND 1 = 0 \<longleftrightarrow> even c" by (simp add: and_one_eq even_iff_mod_2_eq_zero)
  show ?thesis
  proof (cases "n = 1")
    case True
    then have "u = a_holdSelf cur (a_set cur (AIdle c 0) ts)" using a ad by (simp add: a_apply_def)
    then show ?thesis using ret [OF holdSelf_effect [OF st' r', of c 0]] ad(3) start True by simp
  next
    case False
    have x: "0 \<le> c div 2 XOR 53256" using ad(3) by simp
    show ?thesis
    proof (cases "even c")
      case True
      then have "u = a_release 4 cur (a_set cur (AIdle (c div 2) (n - 1)) ts)" using a ad n False by (simp add: a_apply_def)
      then show ?thesis
        using ret [OF release_effect [OF st' r', of "c div 2" "n - 1" 4]] ad(3,4) start False True even by (simp add: DEVICE_A_def)
    next
      case odd: False
      then have "u = a_release 5 cur (a_set cur (AIdle (c div 2 XOR 53256) (n - 1)) ts)" using a ad n False by (simp add: a_apply_def)
      then show ?thesis
        using ret [OF release_effect [OF st' r', of "c div 2 XOR 53256" "n - 1" 5]] x ad(4) start False odd even by (simp add: DEVICE_B_def)
    qed
  qed
qed

lemma apply_effect:
  assumes st: "sched_state s ts" and r: "runs cur s" and a: "a_apply cur None ts = Some u"
  shows "ok (process_apply (t_function (tasks s ! cur)) None cur s) (effect s u)"
proof -
  have c6: "cur < 6" using r by (simp add: runs_def)
  obtain Q where "task_rel (packets s) Q cur (tasks s ! cur) (ts ! cur)" using sched_state_task [OF st c6] by blast
  then have f: "t_function (tasks s ! cur) = function_of cur" and
    dr: "data_rel (packets s) Q cur (t_handle (tasks s ! cur)) (a_data (ts ! cur))" by (simp_all add: task_rel_def)
  from dr show ?thesis
  proof (cases rule: data_rel_cases)
    case (device p q)
    then show ?thesis using f device_effect [OF st r device(1) a] by (auto simp: function_of_def)
  next
    case (handler w d aw ad)
    then have "a_handle (aw, ad) cur ts = Some u" using a by (simp add: a_apply_def)
    from handler_serve_effect [OF st r handler(1,2) this] show ?thesis
      using f handler(3) by (auto simp: function_of_def createHandler_apply_def handler_enqueue_def)
  next
    case (idler c n)
    then show ?thesis using f idler_effect [OF st r idler a] by (simp add: function_of_def)
  next
    case (worker dest c)
    then show ?thesis using f worker_effect_none [OF st r worker(1) a] by (simp add: function_of_def)
  qed
qed

lemma apply_packet_effect:
  assumes fl: "floating m s ts" and r: "runs cur s" and a: "a_apply cur (Some (abs_packet (packets s ! m))) ts = Some u"
  shows "ok (process_apply (t_function (tasks s ! cur)) (Some m) cur s) (effect s u)"
proof -
  have c6: "cur < 6" using r by (simp add: runs_def)
  obtain Q own where rel: "sched_rel Q own s ts" using fl by (auto simp: floating_def)
  have "task_rel (packets s) Q cur (tasks s ! cur) (ts ! cur)" by (rule sched_rel_task [OF rel c6])
  then have f: "t_function (tasks s ! cur) = function_of cur" and
    dr: "data_rel (packets s) Q cur (t_handle (tasks s ! cur)) (a_data (ts ! cur))" by (simp_all add: task_rel_def)
  from dr show ?thesis
  proof (cases rule: data_rel_cases)
    case (device p q)
    then show ?thesis using f device_effect_packet [OF fl r device(1) device(3) a] by (auto simp: function_of_def)
  next
    case (handler w d aw ad)
    then show ?thesis using f handler_effect [OF fl r handler(3) a] by (auto simp: function_of_def)
  next
    case (idler c n)
    then show ?thesis using a by (simp add: a_apply_def)
  next
    case (worker dest c)
    then show ?thesis using f worker_effect [OF fl r worker(3) a] by (simp add: function_of_def)
  qed
qed

lemma runTask_effect:
  assumes st: "sched_state s ts" and r: "runs cur s" and a: "a_turn cur ts = Some u"
    and run: "\<not> TaskState_isTaskHoldingOrWaiting (tasks s ! cur)"
  shows "ok (TaskControlBlock_runTask cur s) (effect s u)"
proof -
  have c6: "cur < 6" using r by (simp add: runs_def)
  let ?T = "tasks s ! cur" and ?A = "ts ! cur"
  obtain Q where tr: "task_rel (packets s) Q cur ?T ?A" using sched_state_task [OF st c6] by blast
  have at: "task_at s cur = Inr ?T" by (rule sched_state_task_at [OF st c6])
  have flags: "packetPending ?T = a_pend ?A" "taskWaiting ?T = a_wait ?A" "taskHolding ?T = a_hold ?A"
    using tr by (auto simp: task_rel_def)
  have nh: "\<not> (a_hold ?A \<or> \<not> a_pend ?A \<and> a_wait ?A)" using run flags by (simp add: TaskState_isTaskHoldingOrWaiting_def)
  show ?thesis
  proof (cases "TaskState_isWaitingWithPacket ?T")
    case False
    then have "a_apply cur None ts = Some u"
      using a nh flags by (auto simp: a_turn_def TaskState_isWaitingWithPacket_def Let_def)
    from apply_effect [OF st r this] show ?thesis using False at by (simp add: TaskControlBlock_runTask_def)
  next
    case True
    then have w: "a_pend ?A" "a_wait ?A" "\<not> a_hold ?A" using flags by (auto simp: TaskState_isWaitingWithPacket_def)
    obtain p q where q: "a_in ?A = p # q" using a w nh by (cases "a_in ?A") (auto simp: a_turn_def)
    obtain m where m: "t_input ?T = Some m" using input_Nil [OF tr] q by (cases "t_input ?T") auto
    define link where "link = p_link (packets s ! m)"
    define T' where "T' = (let x = ?T\<lparr>t_input := link\<rparr> in if link = None then TaskState_running x else TaskState_packetPending x)"
    define A' where "A' = ?A\<lparr>a_in := q, a_pend := (q \<noteq> []), a_wait := False, a_hold := False\<rparr>"
    have "(link = None) = (q = [])"
      using take_input [OF st c6 m, of "?T\<lparr>t_input := link\<rparr>" "?A\<lparr>a_in := tl (a_in ?A)\<rparr>"] q by (simp add: link_def)
    then have new: "task_rel ps Q cur T' A'" if "task_rel ps Q cur (?T\<lparr>t_input := link\<rparr>) (?A\<lparr>a_in := q\<rparr>)" for ps Q
      using that by (auto simp: T'_def A'_def task_rel_def TaskState_running_def TaskState_packetPending_def)
    have take: "floating m (s\<lparr>tasks := (tasks s)[cur := T']\<rparr>) (ts[cur := A']) \<and> m < 8 \<and> p = abs_packet (packets s ! m)"
      using take_input [OF st c6 m, of T' A'] q new by (simp add: link_def)
    have "a_apply cur (Some p) (ts[cur := A']) = Some u"
      using a w nh q by (simp add: a_turn_def A'_def Let_def)
    with take r have "ok (process_apply (t_function ((tasks s)[cur := T'] ! cur)) (Some m) cur (s\<lparr>tasks := (tasks s)[cur := T']\<rparr>))
        (effect (s\<lparr>tasks := (tasks s)[cur := T']\<rparr>) u)"
      using apply_packet_effect [of m "s\<lparr>tasks := (tasks s)[cur := T']\<rparr>" "ts[cur := A']" cur u] by simp
    then have "ok (process_apply (t_function ((tasks s)[cur := T'] ! cur)) (Some m) cur (s\<lparr>tasks := (tasks s)[cur := T']\<rparr>)) (effect s u)"
      by (rule effect_from) simp_all
    moreover have "t_function ((tasks s)[cur := T'] ! cur) = t_function ?T"
      using c6 sched_state_lengths [OF st] by (simp add: T'_def TaskState_running_def TaskState_packetPending_def Let_def)
    moreover have "m < length (packets s)" using take sched_state_lengths [OF st] by simp
    ultimately show ?thesis
      using True at m c6 sched_state_lengths [OF st]
      by (simp add: TaskControlBlock_runTask_def deref_def Packet_getLink_def packet_at_def task_update_def task_at_def
          link_def [symmetric] T'_def)
  qed
qed

section \<open>Turns of the loop\<close>

fun a_steps :: "nat \<Rightarrow> nat option \<Rightarrow> atask list \<Rightarrow> turn option" where
  "a_steps 0 cur ts = Some (cur, ts, 0, 0)"
| "a_steps (Suc k) None ts = None"
| "a_steps (Suc k) (Some c) ts =
     (if c < 6 then
        (case a_turn c ts of
           None \<Rightarrow> None
         | Some (cur, ts, q, h) \<Rightarrow>
             (case a_steps k cur ts of None \<Rightarrow> None | Some (cur, ts, q', h') \<Rightarrow> Some (cur, ts, q + q', h + h')))
      else None)"

lemma a_steps_add:
  "a_steps j cur ts = Some (cur1, ts1, q1, h1) \<Longrightarrow> a_steps k cur1 ts1 = Some (cur2, ts2, q2, h2) \<Longrightarrow>
   a_steps (j + k) cur ts = Some (cur2, ts2, q1 + q2, h1 + h2)"
  by (induction j cur ts arbitrary: q1 h1 rule: a_steps.induct) (auto split: option.splits if_splits)

text \<open>The running task is one of the six, and counters never exceed what the program's \<open>int\<close> can hold.\<close>

lemma turn_simulation:
  assumes st: "sched_state s ts" and c: "currentTask s = Some cur" "cur < 6" and a: "a_turn cur ts = Some u"
    and cnt: "0 \<le> queuePacketCount s" "queuePacketCount s < INT_MAX" "0 \<le> holdCount s" "holdCount s < INT_MAX"
  shows "\<exists>r s'. (\<forall>f. schedule_loop (Suc f) s = schedule_loop f (s'\<lparr>currentTask := r\<rparr>)) \<and> effect s u (r, s')"
proof -
  obtain Q where tr: "task_rel (packets s) Q cur (tasks s ! cur) (ts ! cur)" using sched_state_task [OF st c(2)] by blast
  have at: "task_at s cur = Inr (tasks s ! cur)" by (rule sched_state_task_at [OF st c(2)])
  have flags: "TaskState_isTaskHoldingOrWaiting (tasks s ! cur) \<longleftrightarrow> a_hold (ts ! cur) \<or> \<not> a_pend (ts ! cur) \<and> a_wait (ts ! cur)"
    using tr by (simp add: task_rel_def TaskState_isTaskHoldingOrWaiting_def)
  show ?thesis
  proof (cases "TaskState_isTaskHoldingOrWaiting (tasks s ! cur)")
    case True
    then have "u = (link cur, ts, 0, 0)" using a flags by (simp add: a_turn_def Let_def)
    moreover have "t_link (tasks s ! cur) = link cur" using tr by (simp add: task_rel_def)
    ultimately have "schedule_loop (Suc f) s = schedule_loop f (s\<lparr>currentTask := link cur\<rparr>) \<and> effect s u (link cur, s)" for f
      using True c(1) at st by simp
    then show ?thesis by blast
  next
    case False
    let ?s = "s\<lparr>currentTaskIdentity := int cur\<rparr>"
    have "runs cur ?s" using c cnt by (simp add: runs_def)
    then have "ok (TaskControlBlock_runTask cur ?s) (effect ?s u)"
      using runTask_effect [of ?s ts cur u] st a False by simp
    then have "ok (TaskControlBlock_runTask cur ?s) (effect s u)" by (rule effect_from) simp_all
    then obtain r s' where run: "TaskControlBlock_runTask cur ?s = Inr (r, s')" and e: "effect s u (r, s')"
      by (cases "TaskControlBlock_runTask cur ?s") auto
    have "t_identity (tasks s ! cur) = int cur" using tr by (simp add: task_rel_def)
    then have "schedule_loop (Suc f) s = schedule_loop f (s'\<lparr>currentTask := r\<rparr>)" for f
      using False c(1) at run by (simp add: TRACING_def)
    then show ?thesis using e by blast
  qed
qed

lemma steps_simulation:
  assumes "sched_state s ts" "currentTask s = cur" "a_steps k cur ts = Some (cur', ts', q, h)"
    and "0 \<le> queuePacketCount s" "queuePacketCount s + int q < INT_MAX" "0 \<le> holdCount s" "holdCount s + int h < INT_MAX"
  shows "\<exists>s'. (\<forall>f. schedule_loop (k + f) s = schedule_loop f s') \<and> sched_state s' ts' \<and> currentTask s' = cur' \<and>
    queuePacketCount s' = queuePacketCount s + int q \<and> holdCount s' = holdCount s + int h"
  using assms
proof (induction k arbitrary: s cur ts q h)
  case 0
  then show ?case by (auto intro: exI [of _ s])
next
  case (Suc k)
  then obtain c where c: "cur = Some c" by (cases cur) auto
  obtain cur1 ts1 q1 h1 where t: "a_turn c ts = Some (cur1, ts1, q1, h1)" "c < 6"
    using Suc.prems(3) c by (auto split: option.splits if_splits)
  obtain q2 h2 where r: "a_steps k cur1 ts1 = Some (cur', ts', q2, h2)" "q = q1 + q2" "h = h1 + h2"
    using Suc.prems(3) c t by (auto split: option.splits)
  have cur: "currentTask s = Some c" using Suc.prems(2) c by simp
  have lim: "queuePacketCount s < INT_MAX" "holdCount s < INT_MAX" using Suc.prems(5,7) by auto
  obtain rr s1 where s1: "\<And>f. schedule_loop (Suc f) s = schedule_loop f (s1\<lparr>currentTask := rr\<rparr>)"
    and e: "effect s (cur1, ts1, q1, h1) (rr, s1)"
    using turn_simulation [OF Suc.prems(1) cur t(2,1) Suc.prems(4) lim(1) Suc.prems(6) lim(2)] by blast
  let ?s = "s1\<lparr>currentTask := cur1\<rparr>"
  have e1: "rr = cur1" "sched_state ?s ts1" "queuePacketCount ?s = queuePacketCount s + int q1"
    "holdCount ?s = holdCount s + int h1" using e by auto
  have "\<exists>s'. (\<forall>f. schedule_loop (k + f) ?s = schedule_loop f s') \<and> sched_state s' ts' \<and> currentTask s' = cur' \<and>
    queuePacketCount s' = queuePacketCount ?s + int q2 \<and> holdCount s' = holdCount ?s + int h2"
    using Suc.prems(4-7) e1(3,4) r by (intro Suc.IH [OF e1(2) _ r(1)]) auto
  then show ?case using s1 e1 r(2,3) by (auto simp: add.assoc)
qed

end
