(* ===== verification/RichardsRun.thy ===== *)
theory RichardsRun
  imports RichardsSteps
begin

text \<open>
  The benchmark run: whenever the idle task gets the processor, the other tasks are in one of 64 quiet states,
  which a release of a device takes to another; 9999 releases, chosen by the idle task's shift register, lead
  from the start to the end.
\<close>

section \<open>Quiet states\<close>

text \<open>
  \<open>Both x y dest\<close>: handler A works at the letter \<open>x\<close> of its packet, handler B at \<open>y\<close>, the worker served \<open>dest\<close>
  last. \<open>AtA x k\<close>: both work packets are with handler A, which is at letter \<open>x\<close> of the first one, and \<open>k\<close> device
  packets wait at handler B; \<open>AtB\<close> the other way round. The other device packets are with the devices.
\<close>

datatype quiet = Both nat nat nat | AtA nat nat | AtB nat nat

fun valid :: "quiet \<Rightarrow> bool" where
  "valid (Both x y dest) \<longleftrightarrow> x < 4 \<and> y < 4 \<and> (dest = 2 \<or> dest = 3)"
| "valid (AtA x k) \<longleftrightarrow> x < 4 \<and> k < 4"
| "valid (AtB x k) \<longleftrightarrow> x < 4 \<and> k < 4"

definition idle_task :: "int \<Rightarrow> nat \<Rightarrow> atask" where
  "idle_task c n = \<lparr>a_pend = False, a_wait = False, a_hold = False, a_in = [], a_data = AIdle c n\<rparr>"

definition worker_task :: "nat \<Rightarrow> atask" where
  "worker_task dest = \<lparr>a_pend = False, a_wait = True, a_hold = False, a_in = [], a_data = AWork dest\<rparr>"

definition handler_task :: "apacket list \<Rightarrow> apacket list \<Rightarrow> atask" where
  "handler_task w d = \<lparr>a_pend = False, a_wait = True, a_hold = False, a_in = [], a_data = AHand w d\<rparr>"

text \<open>A device with \<open>j\<close> packets: one pending while it holds itself, the others in its input.\<close>

definition device_task :: "nat \<Rightarrow> nat \<Rightarrow> atask" where
  "device_task h j = \<lparr>a_pend = (1 < j), a_wait = (j = 0), a_hold = (j \<noteq> 0), a_in = replicate (j - 1) (Dev h),
     a_data = ADev (if j = 0 then None else Some (Dev h))\<rparr>"

fun others :: "quiet \<Rightarrow> atask list" where
  "others (Both x y dest) =
     [worker_task dest, handler_task [Work 1 x] [], handler_task [Work 1 y] [], device_task 2 3, device_task 3 3]"
| "others (AtA x k) =
     [worker_task 2, handler_task [Work 1 x, Work 1 0] [], handler_task [] (replicate k (Dev 5)), device_task 2 3, device_task 3 (3 - k)]"
| "others (AtB x k) =
     [worker_task 3, handler_task [] (replicate k (Dev 4)), handler_task [Work 1 x, Work 1 0] [], device_task 2 (3 - k), device_task 3 3]"

text \<open>The next quiet state, with the numbers of packets queued and holds, after a release of device A or B.\<close>

fun release_A :: "quiet \<Rightarrow> quiet \<times> nat \<times> nat" where
  "release_A (Both x y dest) =
     (if x < 3 then (Both (x + 1) y dest, 2, 1) else (if dest = 2 then AtB y 0 else Both 0 y 2, 4, 1))"
| "release_A (AtA x k) = (if x < 3 then (AtA (x + 1) k, 2, 1) else (Both 0 k 3, k + 4, if k < 3 then 1 else 2))"
| "release_A (AtB x k) = (if k < 3 then (AtB x (k + 1), 1, if k < 2 then 1 else 0) else (AtB x k, 0, 0))"

fun release_B :: "quiet \<Rightarrow> quiet \<times> nat \<times> nat" where
  "release_B (Both x y dest) =
     (if y < 3 then (Both x (y + 1) dest, 2, 1) else (if dest = 2 then Both x 0 3 else AtA x 0, 4, 1))"
| "release_B (AtB x k) = (if x < 3 then (AtB (x + 1) k, 2, 1) else (Both k 0 2, k + 4, if k < 3 then 1 else 2))"
| "release_B (AtA x k) = (if k < 3 then (AtA x (k + 1), 1, if k < 2 then 1 else 0) else (AtA x k, 0, 0))"

section \<open>From one quiet state to the next\<close>

text \<open>Turns until the idle task gets the processor, with the number of turns.\<close>

fun a_until :: "nat \<Rightarrow> nat option \<Rightarrow> atask list \<Rightarrow> (nat \<times> turn) option" where
  "a_until 0 cur ts = None"
| "a_until (Suc f) None ts = None"
| "a_until (Suc f) (Some c) ts =
     (if c < 6 then
        (case a_turn c ts of
           None \<Rightarrow> None
         | Some (cur, ts, q, h) \<Rightarrow>
             if cur = Some 0 then Some (1, cur, ts, q, h)
             else
               (case a_until f cur ts of None \<Rightarrow> None | Some (k, cur, ts, q', h') \<Rightarrow> Some (k + 1, cur, ts, q + q', h + h')))
      else None)"

lemma a_until_steps:
  "a_until f cur ts = Some (k, r) \<Longrightarrow> a_steps k cur ts = Some r \<and> fst r = Some 0 \<and> k \<le> f"
  by (induction f cur ts arbitrary: k r rule: a_until.induct) (fastforce split: option.splits if_splits)+

lemma list_update_numeral [simp]: "(x # xs)[numeral k := y] = x # xs[pred_numeral k := y]"
  by (simp add: numeral_eq_Suc)

lemmas machine_simps = a_turn_def a_apply_def a_queue_def a_mark_def a_holdSelf_def a_release_def a_set_def link_def Let_def
  idle_task_def worker_task_def handler_task_def device_task_def

lemma less_4: "x < 4 \<longleftrightarrow> x = 0 \<or> x = 1 \<or> x = 2 \<or> x = (3 :: nat)"
  by auto

definition settles :: "int \<Rightarrow> int \<Rightarrow> quiet \<Rightarrow> quiet \<times> nat \<times> nat \<Rightarrow> bool" where
  "settles c c' q r \<longleftrightarrow> (\<forall>n. \<exists>k. a_until 23 (Some 0) (idle_task c (Suc (Suc n)) # others q) =
     Some (k, Some 0, idle_task c' (Suc n) # others (fst r), snd r))"

lemma settles_Both:
  assumes "x < 4" "y < 4" "dest = 2 \<or> dest = 3"
  shows "even c \<Longrightarrow> settles c (c div 2) (Both x y dest) (release_A (Both x y dest))"
    and "odd c \<Longrightarrow> settles c (c div 2 XOR 53256) (Both x y dest) (release_B (Both x y dest))"
  using assms unfolding less_4 settles_def
  by (elim disjE; simp add: machine_simps numeral_eq_Suc)+

lemma settles_AtA:
  assumes "x < 4" "k < 4"
  shows "even c \<Longrightarrow> settles c (c div 2) (AtA x k) (release_A (AtA x k))"
    and "odd c \<Longrightarrow> settles c (c div 2 XOR 53256) (AtA x k) (release_B (AtA x k))"
  using assms unfolding less_4 settles_def
  by (elim disjE; simp add: machine_simps numeral_eq_Suc)+

lemma settles_AtB:
  assumes "x < 4" "k < 4"
  shows "even c \<Longrightarrow> settles c (c div 2) (AtB x k) (release_A (AtB x k))"
    and "odd c \<Longrightarrow> settles c (c div 2 XOR 53256) (AtB x k) (release_B (AtB x k))"
  using assms unfolding less_4 settles_def
  by (elim disjE; simp add: machine_simps numeral_eq_Suc)+

lemma release_valid: "valid q \<Longrightarrow> valid (fst (release_A q)) \<and> valid (fst (release_B q))"
  by (cases q) auto

lemma settles_valid:
  assumes "valid q"
  shows "even c \<Longrightarrow> settles c (c div 2) q (release_A q)" "odd c \<Longrightarrow> settles c (c div 2 XOR 53256) q (release_B q)"
  using assms settles_Both settles_AtA settles_AtB by (cases q; simp)+

section \<open>The run of the idle task\<close>

text \<open>\<open>drive n\<close>: \<open>n\<close> releases from control word \<open>c\<close> and quiet state \<open>q\<close>, with both counters.\<close>

fun drive :: "nat \<Rightarrow> int \<Rightarrow> quiet \<Rightarrow> nat \<Rightarrow> nat \<Rightarrow> int \<times> quiet \<times> nat \<times> nat" where
  "drive 0 c q a h = (c, q, a, h)"
| "drive (Suc n) c q a h =
     (if even c then (case release_A q of (q, da, dh) \<Rightarrow> drive n (c div 2) q (a + da) (h + dh))
      else (case release_B q of (q, da, dh) \<Rightarrow> drive n (c div 2 XOR 53256) q (a + da) (h + dh)))"

lemma drive_steps:
  "drive n c q a h = (c', q', a', h') \<Longrightarrow> valid q \<Longrightarrow>
   \<exists>k da dh. a_steps k (Some 0) (idle_task c (Suc n) # others q) = Some (Some 0, idle_task c' 1 # others q', da, dh) \<and>
     a' = a + da \<and> h' = h + dh \<and> k \<le> 23 * n"
proof (induction n arbitrary: c q a h)
  case 0
  then show ?case by (auto intro: exI [of _ 0])
next
  case (Suc n)
  define c1 where "c1 = (if even c then c div 2 else c div 2 XOR 53256)"
  obtain q1 da1 dh1 where r: "(if even c then release_A q else release_B q) = (q1, da1, dh1)" by (metis prod_cases3)
  have "settles c c1 q (q1, da1, dh1)" using settles_valid [OF Suc.prems(2), of c] r by (auto simp: c1_def split: if_splits)
  then obtain k1 where "a_until 23 (Some 0) (idle_task c (Suc (Suc n)) # others q) =
      Some (k1, Some 0, idle_task c1 (Suc n) # others q1, da1, dh1)" by (auto simp: settles_def)
  then have s1: "a_steps k1 (Some 0) (idle_task c (Suc (Suc n)) # others q) =
      Some (Some 0, idle_task c1 (Suc n) # others q1, da1, dh1)" "k1 \<le> 23"
    using a_until_steps by blast+
  have "drive n c1 q1 (a + da1) (h + dh1) = (c', q', a', h')" using Suc.prems(1) r by (auto simp: c1_def split: if_splits)
  moreover have "valid q1" using release_valid [OF Suc.prems(2)] r by (auto split: if_splits)
  ultimately obtain k2 da2 dh2 where s2: "a_steps k2 (Some 0) (idle_task c1 (Suc n) # others q1) =
      Some (Some 0, idle_task c' 1 # others q', da2, dh2)" "a' = a + da1 + da2" "h' = h + dh1 + dh2" "k2 \<le> 23 * n"
    using Suc.IH by blast
  show ?case
    using a_steps_add [OF s1(1) s2(1)] s1(2) s2(2-4)
    by (intro exI [of _ "k1 + k2"] exI [of _ "da1 + da2"] exI [of _ "dh1 + dh2"]) simp
qed

text \<open>One rule per quiet state, so that the simplifier runs the register without looking into the branches not taken.\<close>

lemma drive_Both: "drive (numeral m) c (Both x y d) a h =
     (let n = pred_numeral m in
      if even c then
        if x < 3 then drive n (c div 2) (Both (x + 1) y d) (a + 2) (h + 1)
        else if d = 2 then drive n (c div 2) (AtB y 0) (a + 4) (h + 1)
        else drive n (c div 2) (Both 0 y 2) (a + 4) (h + 1)
      else
        if y < 3 then drive n (c div 2 XOR 53256) (Both x (y + 1) d) (a + 2) (h + 1)
        else if d = 2 then drive n (c div 2 XOR 53256) (Both x 0 3) (a + 4) (h + 1)
        else drive n (c div 2 XOR 53256) (AtA x 0) (a + 4) (h + 1))"
  by (simp add: numeral_eq_Suc [of m] Let_def)

lemma drive_AtA: "drive (numeral m) c (AtA x k) a h =
     (let n = pred_numeral m in
      if even c then
        if x < 3 then drive n (c div 2) (AtA (x + 1) k) (a + 2) (h + 1)
        else if k < 3 then drive n (c div 2) (Both 0 k 3) (a + (k + 4)) (h + 1)
        else drive n (c div 2) (Both 0 k 3) (a + (k + 4)) (h + 2)
      else
        if k < 2 then drive n (c div 2 XOR 53256) (AtA x (k + 1)) (a + 1) (h + 1)
        else if k < 3 then drive n (c div 2 XOR 53256) (AtA x (k + 1)) (a + 1) h
        else drive n (c div 2 XOR 53256) (AtA x k) a h)"
  by (simp add: numeral_eq_Suc [of m] Let_def)

lemma drive_AtB: "drive (numeral m) c (AtB x k) a h =
     (let n = pred_numeral m in
      if even c then
        if k < 2 then drive n (c div 2) (AtB x (k + 1)) (a + 1) (h + 1)
        else if k < 3 then drive n (c div 2) (AtB x (k + 1)) (a + 1) h
        else drive n (c div 2) (AtB x k) a h
      else
        if x < 3 then drive n (c div 2 XOR 53256) (AtB (x + 1) k) (a + 2) (h + 1)
        else if k < 3 then drive n (c div 2 XOR 53256) (Both k 0 2) (a + (k + 4)) (h + 1)
        else drive n (c div 2 XOR 53256) (Both k 0 2) (a + (k + 4)) (h + 2))"
  by (simp add: numeral_eq_Suc [of m] Let_def)

lemma drive_run: "drive 9999 1 (Both 3 3 2) 8 2 = (53246, Both 0 0 3, 23246, 9296)"
  by (simp add: drive_Both drive_AtA drive_AtB Let_def del: drive.simps(2)) simp

section \<open>The start\<close>

text \<open>What \<open>create_tasks\<close> leaves: the heap, its queues and the owners of the packets.\<close>

definition first_tasks :: "atask list" where
  "first_tasks =
     [idle_task 1 10000,
      \<lparr>a_pend = True, a_wait = True, a_hold = False, a_in = [Work 1 0, Work 1 0], a_data = AWork 2\<rparr>,
      \<lparr>a_pend = True, a_wait = True, a_hold = False, a_in = [Dev 4, Dev 4, Dev 4], a_data = AHand [] []\<rparr>,
      \<lparr>a_pend = True, a_wait = True, a_hold = False, a_in = [Dev 5, Dev 5, Dev 5], a_data = AHand [] []\<rparr>,
      device_task 2 0, device_task 3 0]"

definition first_queues :: "nat \<Rightarrow> nat list" where
  "first_queues i = (if i = 1 then [1, 0] else if i = 2 then [4, 3, 2] else if i = 3 then [7, 6, 5] else [])"

definition first_owner :: "nat \<Rightarrow> nat" where
  "first_owner p = (if p < 2 then 1 else if p < 5 then 2 else 3)"

text \<open>The body of a bind is looked at only once its argument is known.\<close>

lemma rbind_weak_cong: "m = m' \<Longrightarrow> rbind m f = rbind m' f"
  by simp

definition first_packet :: "nat option \<Rightarrow> int \<Rightarrow> int \<Rightarrow> packet" where
  "first_packet l i k = \<lparr>p_link = l, p_identity = i, p_kind = k, p_datum = 0, p_data = [0, 0, 0, 0]\<rparr>"

definition first_state :: scheduler where
  "first_state =
     \<lparr>packets = [first_packet None 1 1, first_packet (Some 0) 1 1,
        first_packet None 4 0, first_packet (Some 2) 4 0, first_packet (Some 3) 4 0,
        first_packet None 5 0, first_packet (Some 5) 5 0, first_packet (Some 6) 5 0],
      tasks =
       [\<lparr>packetPending = False, taskWaiting = False, taskHolding = False, t_link = None, t_identity = 0, t_priority = 0,
         t_input = None, t_function = Idler_apply, t_handle = IdleTaskDataRecord 1 10000\<rparr>,
        \<lparr>packetPending = True, taskWaiting = True, taskHolding = False, t_link = Some 0, t_identity = 1, t_priority = 1000,
         t_input = Some 1, t_function = Worker_apply, t_handle = WorkerTaskDataRecord 2 0\<rparr>,
        \<lparr>packetPending = True, taskWaiting = True, taskHolding = False, t_link = Some 1, t_identity = 2, t_priority = 2000,
         t_input = Some 4, t_function = Handler_apply, t_handle = HandlerTaskDataRecord None None\<rparr>,
        \<lparr>packetPending = True, taskWaiting = True, taskHolding = False, t_link = Some 2, t_identity = 3, t_priority = 3000,
         t_input = Some 7, t_function = Handler_apply, t_handle = HandlerTaskDataRecord None None\<rparr>,
        \<lparr>packetPending = False, taskWaiting = True, taskHolding = False, t_link = Some 3, t_identity = 4, t_priority = 4000,
         t_input = None, t_function = Device_apply, t_handle = DeviceTaskDataRecord None\<rparr>,
        \<lparr>packetPending = False, taskWaiting = True, taskHolding = False, t_link = Some 4, t_identity = 5, t_priority = 5000,
         t_input = None, t_function = Device_apply, t_handle = DeviceTaskDataRecord None\<rparr>],
      taskList = Some 5, currentTask = None, currentTaskIdentity = 0,
      taskTable = [Some 0, Some 1, Some 2, Some 3, Some 4, Some 5],
      queuePacketCount = 0, holdCount = 0, layout = 0, traced = []\<rparr>"

lemmas create_simps = Scheduler_init_def Scheduler_createIdler_def Scheduler_createWorker_def
  Scheduler_createHandler_def Scheduler_createDevice_def Scheduler_createTask_def Scheduler_createPacket_def Packet_create_def
  TaskControlBlock_create_def TaskState_createRunning_def TaskState_createWaiting_def TaskState_createWaitingWithPacket_def
  TaskState_running_def TaskState_waiting_def TaskState_waitingWithPacket_def TaskState_init_def
  IDLER_def WORKER_def HANDLER_A_def HANDLER_B_def DEVICE_A_def DEVICE_B_def NUM_TYPES_def arr_set_def DATA_SIZE_def
  DEVICE_PACKET_KIND_def WORK_PACKET_KIND_def

lemma create_tasks_ok: "create_tasks Scheduler_init = Inr first_state"
  unfolding create_tasks_def
  by (simp add: create_simps Let_def first_state_def first_packet_def cong: rbind_weak_cong flip: numeral_eq_Suc)
    (simp add: numeral_eq_Suc)

lemma all_numeral: "(\<forall>t<numeral k. P t) \<longleftrightarrow> (\<forall>t<pred_numeral k. P t) \<and> P (pred_numeral k)"
  by (simp add: numeral_eq_Suc All_less_Suc conj_commute)

lemma all_1: "(\<forall>t<1. P t) \<longleftrightarrow> P (0 :: nat)"
  by simp

lemma first_wf: "\<forall>p<8. packet_wf (packets first_state ! p)"
  by (simp add: all_numeral all_1 first_state_def first_packet_def packet_wf_def)

lemma first_owned: "owned first_queues first_owner"
proof -
  have "{p. p < 8 \<and> first_owner p = 1} = {0, 1}" "{p. p < 8 \<and> first_owner p = 2} = {2, 3, 4}"
    "{p. p < 8 \<and> first_owner p = 3} = {5, 6, 7}" by (auto simp: first_owner_def)
  moreover have "{p. p < 8 \<and> first_owner p = i} = {}" if "i \<notin> {1, 2, 3}" for i
    using that by (auto simp: first_owner_def)
  ultimately show ?thesis by (auto simp: owned_def first_queues_def insert_commute)
qed

lemma first_task_rel: "\<forall>t<6. task_rel (packets first_state) first_queues t (tasks first_state ! t) (first_tasks ! t)"
  by (simp add: all_numeral all_1 first_state_def first_packet_def first_tasks_def first_queues_def task_rel_def function_of_def link_def
      holds_queue_def abs_packet_def WORK_PACKET_KIND_def idle_task_def device_task_def)

lemma first_sched_state: "sched_state first_state first_tasks"
proof (rule sched_stateI)
  show "sched_rel first_queues first_owner first_state first_tasks"
    unfolding sched_rel_def using first_wf first_owned first_task_rel
    by (simp add: first_state_def first_tasks_def upt_rec)
  show "\<forall>p<8. first_owner p < 12" by (simp add: first_owner_def)
qed

lemma first_counts: "queuePacketCount first_state = 0" "holdCount first_state = 0"
  by (simp_all add: first_state_def)

section \<open>The whole run\<close>

lemma first_quiet: "\<exists>k. a_until 40 (Some 5) first_tasks = Some (k, Some 0, idle_task 1 10000 # others (Both 3 3 2), 8, 2)"
proof -
  have "\<exists>k. a_until 40 (Some 5) (idle_task 1 n # tl first_tasks) = Some (k, Some 0, idle_task 1 n # others (Both 3 3 2), 8, 2)" for n
    by (simp add: first_tasks_def machine_simps numeral_eq_Suc)
  from this [of 10000] show ?thesis by (simp add: first_tasks_def)
qed

text \<open>The tasks when the idle task has held itself.\<close>

definition last_tasks :: "atask list" where
  "last_tasks = (idle_task 53246 0)\<lparr>a_hold := True\<rparr> # others (Both 0 0 3)"

lemma run_steps: "\<exists>k\<le>230018. a_steps k (Some 5) first_tasks = Some (None, last_tasks, 23246, 9297)"
proof -
  obtain k1 where k1: "a_steps k1 (Some 5) first_tasks = Some (Some 0, idle_task 1 10000 # others (Both 3 3 2), 8, 2)" "k1 \<le> 40"
    using first_quiet a_until_steps by blast
  have n: "10000 = Suc 9999" by simp
  obtain k2 da dh where k2: "a_steps k2 (Some 0) (idle_task 1 (Suc 9999) # others (Both 3 3 2)) =
      Some (Some 0, idle_task 53246 1 # others (Both 0 0 3), da, dh)" "23246 = 8 + da" "9296 = 2 + dh" "k2 \<le> 23 * 9999"
    using drive_steps [OF drive_run] by auto
  have k3: "a_steps 1 (Some 0) (idle_task 53246 1 # others (Both 0 0 3)) = Some (None, last_tasks, 0, 1)"
    by (simp add: last_tasks_def a_turn_def a_apply_def a_holdSelf_def a_set_def link_def idle_task_def Let_def)
  have "a_steps (k1 + (k2 + 1)) (Some 5) first_tasks = Some (None, last_tasks, 8 + (da + 0), 2 + (dh + 1))"
    by (rule a_steps_add [OF k1(1) a_steps_add [OF k2(1) [folded n] k3]])
  then show ?thesis using k1(2) k2 by (intro exI [of _ "k1 + (k2 + 1)"]) simp
qed

lemma run_ok:
  assumes "230018 < fuel"
  shows "\<exists>s. Scheduler_start fuel Scheduler_init = Inr (True, s) \<and> sched_state s last_tasks \<and> currentTask s = None"
proof -
  let ?s = "first_state\<lparr>currentTask := taskList first_state\<rparr>"
  obtain k where k: "k \<le> 230018" "a_steps k (Some 5) first_tasks = Some (None, last_tasks, 23246, 9297)"
    using run_steps by blast
  have start: "sched_state ?s first_tasks" using first_sched_state by simp
  have zero: "currentTask ?s = Some 5" "queuePacketCount ?s = 0" "holdCount ?s = 0"
    by (simp_all add: first_state_def)
  obtain s' where s': "\<And>f. schedule_loop (k + f) ?s = schedule_loop f s'" "sched_state s' last_tasks" "currentTask s' = None"
    "queuePacketCount s' = 23246" "holdCount s' = 9297"
    using steps_simulation [OF start zero(1) k(2)] zero(2,3) by (auto simp: INT_MAX_def)
  obtain f where f: "fuel = k + Suc f" using assms k(1) by (metis less_imp_Suc_add le_less_trans add_Suc_right)
  have "Scheduler_schedule fuel first_state = Inr s'"
    using s'(1) [of "Suc f"] s'(3) by (simp add: Scheduler_schedule_def f)
  then show ?thesis using s' by (simp add: Scheduler_start_def create_tasks_ok)
qed

lemma richards_benchmark_result: "230018 < fuel \<Longrightarrow> richards_benchmark fuel = Inr 1"
  using run_ok [of fuel] by (auto simp: richards_benchmark_def)

interpretation richards: verified_benchmark "Richards_create 230019" "\<lambda>s. True"
  unfolding Richards_create_def
  by (rule plain_benchmark_ok [where r = 1]) (simp_all add: richards_benchmark_result richards_verifyResult_def)

section \<open>Properties\<close>

text \<open>C4: The run of the scheduler from its start ends, without a fault, after fewer than 230019 turns of its loop,
  with exactly the 23246 queued packets and 9297 holds that the benchmark asks for; the idle task has held itself,
  the work packets are with the handlers and every device packet is with its device.\<close>

theorem Scheduler_start_verifies:
  assumes "230018 < fuel"
  shows "\<exists>s. Scheduler_start fuel Scheduler_init = Inr (True, s) \<and> sched_state s last_tasks \<and> currentTask s = None"
  by (rule run_ok [OF assms])

theorem Scheduler_start_verifies_witness:
  "\<exists>s. Scheduler_start 300000 Scheduler_init = Inr (True, s) \<and> sched_state s last_tasks \<and> currentTask s = None"
  by (rule Scheduler_start_verifies) simp

text \<open>C5: The loop of the scheduler refines the machine whose queues are lists of packets: from a heap that stands for
  the tasks \<open>ts\<close>, with every packet in exactly one queue, \<open>k\<close> turns of the loop reach a heap that stands, in the
  same way, for the tasks the machine reaches in \<open>k\<close> turns, with the same next task and counters.\<close>

theorem schedule_loop_refines:
  assumes "sched_state s ts" "a_steps k (currentTask s) ts = Some (cur', ts', q, h)"
    and "0 \<le> queuePacketCount s" "queuePacketCount s + int q < INT_MAX" "0 \<le> holdCount s" "holdCount s + int h < INT_MAX"
  shows "\<exists>s'. (\<forall>fuel. schedule_loop (k + fuel) s = schedule_loop fuel s') \<and> sched_state s' ts' \<and> currentTask s' = cur' \<and>
    queuePacketCount s' = queuePacketCount s + int q \<and> holdCount s' = holdCount s + int h"
  by (rule steps_simulation [OF assms(1) refl assms(2-6)])

theorem schedule_loop_refines_witness:
  "\<exists>k s'. (\<forall>fuel. schedule_loop (k + fuel) (first_state\<lparr>currentTask := Some 5\<rparr>) = schedule_loop fuel s') \<and>
    sched_state s' last_tasks \<and> currentTask s' = None \<and> queuePacketCount s' = 23246 \<and> holdCount s' = 9297"
proof -
  obtain k where "a_steps k (Some 5) first_tasks = Some (None, last_tasks, 23246, 9297)" using run_steps by blast
  then show ?thesis
    using schedule_loop_refines [of "first_state\<lparr>currentTask := Some 5\<rparr>" first_tasks k None last_tasks 23246 9297]
      first_sched_state by (auto simp: first_counts INT_MAX_def)
qed

end
