(* ===== verification/AwfyDeltaBlue.thy ===== *)
theory AwfyDeltaBlue
  imports SomDictionary
begin

text \<open>
  \<open>DeltaBlue.c\<close>: an incremental solver of one-way constraints. Variables and constraints are cells
  of two heaps; a pointer is a number, \<open>0\<close> the null pointer, and an access to a released cell is a
  fault. A \<open>Vector\<close> of pointers is the list of its live cells (theory \<open>SomVector\<close> shows that its
  operations act on that list so); the vectors from which \<open>Vector_removeFirst\<close> takes are read in no
  other way. \<open>Vector_sort\<close>, which asserts on vectors that are not sorted already, is the operation
  of \<open>SomVector\<close> on the vector that holds the list. The strengths are kept in dictionaries, as in
  the code.
\<close>

section \<open>Symbols and strengths\<close>

text \<open>A \<open>Sym*\<close>; the eight objects that exist have different hashes.\<close>

datatype sym = NullSym | Sym int

instantiation sym :: zero
begin
definition zero_sym :: sym where "zero_sym = NullSym"
instance ..
end

definition Sym_create :: "int \<Rightarrow> sym" where
  "Sym_create hash = Sym hash"

fun Sym_hash :: "sym \<Rightarrow> int" where
  "Sym_hash (Sym h) = h"
| "Sym_hash NullSym = 0"

record strength =
  arithmeticValue :: int
  symbolicValue :: sym

text \<open>The static variables of the file; \<open>None\<close> is a null pointer.\<close>

record strengths =
  ABSOLUTE_STRONGEST :: sym
  REQUIRED :: sym
  STRONG_PREFERRED :: sym
  PREFERRED :: sym
  STRONG_DEFAULT :: sym
  DEFAULT :: sym
  WEAK_DEFAULT :: sym
  ABSOLUTE_WEAKEST :: sym
  absoluteWeakest :: "strength option"
  required :: "strength option"
  strengthTable :: "(sym, int) dictionary option"
  strengthConstant :: "(sym, strength) dictionary option"

definition deref :: "'a option \<Rightarrow> 'a res" where
  "deref p = (case p of None \<Rightarrow> Inl NullDeref | Some x \<Rightarrow> Inr x)"

definition Strength_create :: "strengths \<Rightarrow> sym \<Rightarrow> strength res" where
  "Strength_create g symbolic =
    (case strengthTable g of
       None \<Rightarrow> Inl AssertFailed
     | Some t \<Rightarrow>
         rbind (Dictionary_at symbolic t) (\<lambda>r.
         rbind (deref r) (\<lambda>a.
           Inr \<lparr>arithmeticValue = a, symbolicValue = symbolic\<rparr>)))"

definition Strength_createStrengthTable :: "strengths \<Rightarrow> strengths res" where
  "Strength_createStrengthTable g =
    rbind (Dictionary_create 8 4 (Some Sym_hash)) (\<lambda>t.
    rbind (rfold (\<lambda>(k, v). Dictionary_atPut k v)
      [(ABSOLUTE_STRONGEST g, - 10000), (REQUIRED g, - 800), (STRONG_PREFERRED g, - 600), (PREFERRED g, - 400),
       (STRONG_DEFAULT g, - 200), (DEFAULT g, 0), (WEAK_DEFAULT g, 500), (ABSOLUTE_WEAKEST g, 10000)] t) (\<lambda>t.
      Inr (g\<lparr>strengthTable := Some t\<rparr>)))"

definition Strength_createStrengthConstants :: "strengths \<Rightarrow> strengths res" where
  "Strength_createStrengthConstants g =
    rbind (Dictionary_create 8 8 (Some Sym_hash)) (\<lambda>c.
    rbind (Vector_createDefault 8) (\<lambda>keys.
    rbind (deref (strengthTable g)) (\<lambda>t.
    rbind (Dictionary_getKeys t keys) (\<lambda>keys.
    rbind (rfold (\<lambda>i c.
        rbind (Vector_at keys (int i)) (\<lambda>key.
        rbind (Strength_create g key) (\<lambda>tmp.
          Dictionary_atPut key tmp c)))
      [0..<nat (Vector_size keys)] c) (\<lambda>c.
      Inr (g\<lparr>strengthConstant := Some c\<rparr>))))))"

definition Strength_of :: "strengths \<Rightarrow> sym \<Rightarrow> strength res" where
  "Strength_of g s =
    rbind (deref (strengthConstant g)) (\<lambda>c.
    rbind (Dictionary_at s c) (\<lambda>r.
      deref r))"

definition Strength_init :: "strengths \<Rightarrow> strengths res" where
  "Strength_init g =
    (if ABSOLUTE_STRONGEST g \<noteq> 0 then Inr g
     else
       let g = g\<lparr>ABSOLUTE_STRONGEST := Sym_create 0, REQUIRED := Sym_create 1, STRONG_PREFERRED := Sym_create 2,
             PREFERRED := Sym_create 3, STRONG_DEFAULT := Sym_create 4, DEFAULT := Sym_create 5,
             WEAK_DEFAULT := Sym_create 6, ABSOLUTE_WEAKEST := Sym_create 7\<rparr> in
       rbind (Strength_createStrengthTable g) (\<lambda>g.
       rbind (Strength_createStrengthConstants g) (\<lambda>g.
       rbind (Strength_of g (ABSOLUTE_WEAKEST g)) (\<lambda>w.
       rbind (Strength_of g (REQUIRED g)) (\<lambda>r.
         Inr (g\<lparr>absoluteWeakest := Some w, required := Some r\<rparr>))))))"

text \<open>\<open>absoluteWeakest\<close> and \<open>required\<close> are left dangling, as in the code.\<close>

definition Strength_deinit :: "strengths \<Rightarrow> strengths" where
  "Strength_deinit g = g\<lparr>ABSOLUTE_STRONGEST := 0, REQUIRED := 0, STRONG_PREFERRED := 0, PREFERRED := 0,
     STRONG_DEFAULT := 0, DEFAULT := 0, WEAK_DEFAULT := 0, ABSOLUTE_WEAKEST := 0,
     strengthTable := None, strengthConstant := None\<rparr>"

definition Strength_absoluteWeakest :: "strengths \<Rightarrow> strength res" where
  "Strength_absoluteWeakest g = deref (absoluteWeakest g)"

definition Strength_required :: "strengths \<Rightarrow> strength res" where
  "Strength_required g = deref (required g)"

definition Strength_getArithmeticValue :: "strength \<Rightarrow> int" where
  "Strength_getArithmeticValue me = arithmeticValue me"

definition Strength_sameAs :: "strength \<Rightarrow> strength \<Rightarrow> bool" where
  "Strength_sameAs me s \<longleftrightarrow> arithmeticValue me = Strength_getArithmeticValue s"

definition Strength_stronger :: "strength \<Rightarrow> strength \<Rightarrow> bool" where
  "Strength_stronger me s \<longleftrightarrow> arithmeticValue me < Strength_getArithmeticValue s"

definition Strength_weaker :: "strength \<Rightarrow> strength \<Rightarrow> bool" where
  "Strength_weaker me s \<longleftrightarrow> arithmeticValue me > Strength_getArithmeticValue s"

definition Strength_strongest :: "strength \<Rightarrow> strength \<Rightarrow> strength" where
  "Strength_strongest me s = (if Strength_stronger s me then s else me)"

definition Strength_weakest :: "strength \<Rightarrow> strength \<Rightarrow> strength" where
  "Strength_weakest me s = (if Strength_weaker s me then s else me)"

section \<open>The heaps\<close>

type_synonym vid = nat
type_synonym cid = nat

datatype ConstraintType =
    NoType
  | EqualityConstraintType
  | ScaleConstraintType
  | EditConstraintType
  | StayConstraintType

text \<open>The union \<open>Constraint\<close>, with the members of its variants side by side; a constraint is
  accessed through the variant of its type.\<close>

record constr =
  c_type :: ConstraintType
  c_strength :: strength
  u_output :: vid
  u_satisfied :: bool
  b_v1 :: vid
  b_v2 :: vid
  b_direction :: int
  s_scale :: vid
  s_offset :: vid

definition FORWARD :: int where
  "FORWARD = 1"

definition BACKWARD :: int where
  "BACKWARD = 2"

record variable =
  v_value :: int
  constraints :: "cid list"
  determinedBy :: cid
  v_mark :: int
  walkStrength :: strength
  v_stay :: bool

text \<open>The state: the static variables, the two heaps with their next addresses, and the planner.\<close>

record deltablue =
  strs :: strengths
  vars :: "vid \<Rightarrow> variable option"
  v_next :: nat
  cons :: "cid \<Rightarrow> constr option"
  c_next :: nat
  currentMark :: int

definition get_var :: "vid \<Rightarrow> deltablue \<Rightarrow> variable res" where
  "get_var v h = (if v = 0 then Inl NullDeref else case vars h v of None \<Rightarrow> Inl UseAfterFree | Some x \<Rightarrow> Inr x)"

definition upd_var :: "vid \<Rightarrow> (variable \<Rightarrow> variable) \<Rightarrow> deltablue \<Rightarrow> deltablue res" where
  "upd_var v f h = rbind (get_var v h) (\<lambda>x. Inr (h\<lparr>vars := (vars h)(v \<mapsto> f x)\<rparr>))"

definition get_con :: "cid \<Rightarrow> deltablue \<Rightarrow> constr res" where
  "get_con c h = (if c = 0 then Inl NullDeref else case cons h c of None \<Rightarrow> Inl UseAfterFree | Some x \<Rightarrow> Inr x)"

definition upd_con :: "cid \<Rightarrow> (constr \<Rightarrow> constr) \<Rightarrow> deltablue \<Rightarrow> deltablue res" where
  "upd_con c f h = rbind (get_con c h) (\<lambda>x. Inr (h\<lparr>cons := (cons h)(c \<mapsto> f x)\<rparr>))"


section \<open>Variables\<close>

definition Variable_create :: "deltablue \<Rightarrow> (vid \<times> deltablue) res" where
  "Variable_create h =
    rbind (Strength_absoluteWeakest (strs h)) (\<lambda>w.
      Inr (v_next h, h\<lparr>vars := (vars h)(v_next h \<mapsto>
             \<lparr>v_value = 0, constraints = [], determinedBy = 0, v_mark = 0, walkStrength = w, v_stay = True\<rparr>),
           v_next := Suc (v_next h)\<rparr>))"

definition Variable_dispose :: "vid \<Rightarrow> deltablue \<Rightarrow> deltablue res" where
  "Variable_dispose v h = rbind (get_var v h) (\<lambda>x. Inr (h\<lparr>vars := (vars h)(v := None)\<rparr>))"

definition Variable_getStay :: "vid \<Rightarrow> deltablue \<Rightarrow> bool res" where
  "Variable_getStay v h = rbind (get_var v h) (\<lambda>x. Inr (v_stay x))"

definition Variable_setStay :: "vid \<Rightarrow> bool \<Rightarrow> deltablue \<Rightarrow> deltablue res" where
  "Variable_setStay v b = upd_var v (\<lambda>x. x\<lparr>v_stay := b\<rparr>)"

definition Variable_getValue :: "vid \<Rightarrow> deltablue \<Rightarrow> int res" where
  "Variable_getValue v h = rbind (get_var v h) (\<lambda>x. Inr (v_value x))"

definition Variable_setValue :: "vid \<Rightarrow> int \<Rightarrow> deltablue \<Rightarrow> deltablue res" where
  "Variable_setValue v val = upd_var v (\<lambda>x. x\<lparr>v_value := val\<rparr>)"

definition Variable_value :: "int \<Rightarrow> deltablue \<Rightarrow> (vid \<times> deltablue) res" where
  "Variable_value aValue h =
    rbind (Variable_create h) (\<lambda>(v, h). rbind (Variable_setValue v aValue h) (\<lambda>h. Inr (v, h)))"

definition Variable_addConstraint :: "vid \<Rightarrow> cid \<Rightarrow> deltablue \<Rightarrow> deltablue res" where
  "Variable_addConstraint v c = upd_var v (\<lambda>x. x\<lparr>constraints := constraints x @ [c]\<rparr>)"

definition Variable_getConstraints :: "vid \<Rightarrow> deltablue \<Rightarrow> cid list res" where
  "Variable_getConstraints v h = rbind (get_var v h) (\<lambda>x. Inr (constraints x))"

definition Variable_getDeterminedBy :: "vid \<Rightarrow> deltablue \<Rightarrow> cid res" where
  "Variable_getDeterminedBy v h = rbind (get_var v h) (\<lambda>x. Inr (determinedBy x))"

definition Variable_setDeterminedBy :: "vid \<Rightarrow> cid \<Rightarrow> deltablue \<Rightarrow> deltablue res" where
  "Variable_setDeterminedBy v c = upd_var v (\<lambda>x. x\<lparr>determinedBy := c\<rparr>)"

definition Variable_getMark :: "vid \<Rightarrow> deltablue \<Rightarrow> int res" where
  "Variable_getMark v h = rbind (get_var v h) (\<lambda>x. Inr (v_mark x))"

definition Variable_setMark :: "vid \<Rightarrow> int \<Rightarrow> deltablue \<Rightarrow> deltablue res" where
  "Variable_setMark v m = upd_var v (\<lambda>x. x\<lparr>v_mark := m\<rparr>)"

definition Variable_removeConstraint :: "vid \<Rightarrow> cid \<Rightarrow> deltablue \<Rightarrow> deltablue res" where
  "Variable_removeConstraint v c =
    upd_var v (\<lambda>x. x\<lparr>constraints := filter (\<lambda>d. d \<noteq> c) (constraints x),
                     determinedBy := (if determinedBy x = c then 0 else determinedBy x)\<rparr>)"

definition Variable_getWalkStrength :: "vid \<Rightarrow> deltablue \<Rightarrow> strength res" where
  "Variable_getWalkStrength v h = rbind (get_var v h) (\<lambda>x. Inr (walkStrength x))"

definition Variable_setWalkStrength :: "vid \<Rightarrow> strength \<Rightarrow> deltablue \<Rightarrow> deltablue res" where
  "Variable_setWalkStrength v s = upd_var v (\<lambda>x. x\<lparr>walkStrength := s\<rparr>)"

section \<open>Constraints\<close>

text \<open>
  The code sets the type alone; the model clears the other members. The \<open>init\<close> functions set each
  of them before anything reads it, and \<open>addToGraph\<close> sets the direction.
\<close>

definition Constraint_create :: "ConstraintType \<Rightarrow> deltablue \<Rightarrow> cid \<times> deltablue" where
  "Constraint_create t h = (c_next h, h\<lparr>cons := (cons h)(c_next h \<mapsto>
      \<lparr>c_type = t, c_strength = \<lparr>arithmeticValue = 0, symbolicValue = NullSym\<rparr>, u_output = 0, u_satisfied = False,
       b_v1 = 0, b_v2 = 0, b_direction = 0, s_scale = 0, s_offset = 0\<rparr>), c_next := Suc (c_next h)\<rparr>)"

definition Constraint_dispose :: "cid \<Rightarrow> deltablue \<Rightarrow> deltablue res" where
  "Constraint_dispose c h = rbind (get_con c h) (\<lambda>x. Inr (h\<lparr>cons := (cons h)(c := None)\<rparr>))"

text \<open>
  The functions on the variants that the \<open>switch\<close>es call and that have a line each; every \<open>switch\<close>
  on the type asserts in its default branch.
\<close>

definition AbstractConstraint_getStrength :: "constr \<Rightarrow> strength" where [simp]:
  "AbstractConstraint_getStrength x = c_strength x"

definition EditConstraint_isInput :: "constr \<Rightarrow> bool" where [simp]:
  "EditConstraint_isInput x = True"

definition UnaryConstraint_isSatisfied :: "constr \<Rightarrow> bool" where [simp]:
  "UnaryConstraint_isSatisfied x = u_satisfied x"

definition BinaryConstraint_isSatisfied :: "constr \<Rightarrow> bool" where [simp]:
  "BinaryConstraint_isSatisfied x \<longleftrightarrow> b_direction x \<noteq> 0"

definition Constraint_isInput :: "cid \<Rightarrow> deltablue \<Rightarrow> bool res" where
  "Constraint_isInput c h = rbind (get_con c h) (\<lambda>x.
    case c_type x of
      EditConstraintType \<Rightarrow> Inr (EditConstraint_isInput x)
    | NoType \<Rightarrow> Inl AssertFailed
    | _ \<Rightarrow> Inr False)"

definition Constraint_isSatisfied :: "cid \<Rightarrow> deltablue \<Rightarrow> bool res" where
  "Constraint_isSatisfied c h = rbind (get_con c h) (\<lambda>x.
    case c_type x of
      EditConstraintType \<Rightarrow> Inr (UnaryConstraint_isSatisfied x)
    | StayConstraintType \<Rightarrow> Inr (UnaryConstraint_isSatisfied x)
    | EqualityConstraintType \<Rightarrow> Inr (BinaryConstraint_isSatisfied x)
    | ScaleConstraintType \<Rightarrow> Inr (BinaryConstraint_isSatisfied x)
    | NoType \<Rightarrow> Inl AssertFailed)"

definition UnaryConstraint_addToGraph :: "cid \<Rightarrow> constr \<Rightarrow> deltablue \<Rightarrow> deltablue res" where
  "UnaryConstraint_addToGraph c x h =
    rbind (Variable_addConstraint (u_output x) c h) (\<lambda>h.
      upd_con c (\<lambda>x. x\<lparr>u_satisfied := False\<rparr>) h)"

definition BinaryConstraint_addToGraph :: "cid \<Rightarrow> constr \<Rightarrow> deltablue \<Rightarrow> deltablue res" where
  "BinaryConstraint_addToGraph c x h =
    rbind (Variable_addConstraint (b_v1 x) c h) (\<lambda>h.
    rbind (Variable_addConstraint (b_v2 x) c h) (\<lambda>h.
      upd_con c (\<lambda>x. x\<lparr>b_direction := 0\<rparr>) h))"

definition ScaleConstraint_addToGraph :: "cid \<Rightarrow> constr \<Rightarrow> deltablue \<Rightarrow> deltablue res" where
  "ScaleConstraint_addToGraph c x h =
    rbind (Variable_addConstraint (b_v1 x) c h) (\<lambda>h.
    rbind (Variable_addConstraint (b_v2 x) c h) (\<lambda>h.
    rbind (Variable_addConstraint (s_scale x) c h) (\<lambda>h.
    rbind (Variable_addConstraint (s_offset x) c h) (\<lambda>h.
      upd_con c (\<lambda>x. x\<lparr>b_direction := 0\<rparr>) h))))"

definition Constraint_addToGraph :: "cid \<Rightarrow> deltablue \<Rightarrow> deltablue res" where
  "Constraint_addToGraph c h = rbind (get_con c h) (\<lambda>x.
    case c_type x of
      EditConstraintType \<Rightarrow> UnaryConstraint_addToGraph c x h
    | StayConstraintType \<Rightarrow> UnaryConstraint_addToGraph c x h
    | EqualityConstraintType \<Rightarrow> BinaryConstraint_addToGraph c x h
    | ScaleConstraintType \<Rightarrow> ScaleConstraint_addToGraph c x h
    | NoType \<Rightarrow> Inl AssertFailed)"

text \<open>\<open>if (v != 0) Variable_removeConstraint(v, c)\<close>\<close>

definition remove_unless_null :: "vid \<Rightarrow> cid \<Rightarrow> deltablue \<Rightarrow> deltablue res" where
  "remove_unless_null v c h = (if v \<noteq> 0 then Variable_removeConstraint v c h else Inr h)"

definition UnaryConstraint_removeFromGraph :: "cid \<Rightarrow> constr \<Rightarrow> deltablue \<Rightarrow> deltablue res" where
  "UnaryConstraint_removeFromGraph c x h =
    rbind (remove_unless_null (u_output x) c h) (\<lambda>h.
      upd_con c (\<lambda>x. x\<lparr>u_satisfied := False\<rparr>) h)"

definition BinaryConstraint_removeFromGraph :: "cid \<Rightarrow> constr \<Rightarrow> deltablue \<Rightarrow> deltablue res" where
  "BinaryConstraint_removeFromGraph c x h =
    rbind (remove_unless_null (b_v1 x) c h) (\<lambda>h.
    rbind (remove_unless_null (b_v2 x) c h) (\<lambda>h.
      upd_con c (\<lambda>x. x\<lparr>b_direction := 0\<rparr>) h))"

definition ScaleConstraint_removeFromGraph :: "cid \<Rightarrow> constr \<Rightarrow> deltablue \<Rightarrow> deltablue res" where
  "ScaleConstraint_removeFromGraph c x h =
    rbind (remove_unless_null (b_v1 x) c h) (\<lambda>h.
    rbind (remove_unless_null (b_v2 x) c h) (\<lambda>h.
    rbind (remove_unless_null (s_scale x) c h) (\<lambda>h.
    rbind (remove_unless_null (s_offset x) c h) (\<lambda>h.
      upd_con c (\<lambda>x. x\<lparr>b_direction := 0\<rparr>) h))))"

definition Constraint_removeFromGraph :: "cid \<Rightarrow> deltablue \<Rightarrow> deltablue res" where
  "Constraint_removeFromGraph c h = rbind (get_con c h) (\<lambda>x.
    case c_type x of
      EditConstraintType \<Rightarrow> UnaryConstraint_removeFromGraph c x h
    | StayConstraintType \<Rightarrow> UnaryConstraint_removeFromGraph c x h
    | EqualityConstraintType \<Rightarrow> BinaryConstraint_removeFromGraph c x h
    | ScaleConstraintType \<Rightarrow> ScaleConstraint_removeFromGraph c x h
    | NoType \<Rightarrow> Inl AssertFailed)"

section \<open>Choosing a method\<close>

definition UnaryConstraint_chooseMethod :: "cid \<Rightarrow> int \<Rightarrow> constr \<Rightarrow> deltablue \<Rightarrow> deltablue res" where
  "UnaryConstraint_chooseMethod c m x h =
    rbind (Variable_getMark (u_output x) h) (\<lambda>mo.
    rbind (Variable_getWalkStrength (u_output x) h) (\<lambda>w.
      upd_con c (\<lambda>y. y\<lparr>u_satisfied := (mo \<noteq> m \<and> Strength_stronger (c_strength x) w)\<rparr>) h))"

definition BinaryConstraint_chooseMethod :: "cid \<Rightarrow> int \<Rightarrow> constr \<Rightarrow> deltablue \<Rightarrow> deltablue res" where
  "BinaryConstraint_chooseMethod c m x h =
    rbind (Variable_getMark (b_v1 x) h) (\<lambda>m1.
    rbind (Variable_getMark (b_v2 x) h) (\<lambda>m2.
    rbind (Variable_getWalkStrength (b_v1 x) h) (\<lambda>w1.
    rbind (Variable_getWalkStrength (b_v2 x) h) (\<lambda>w2.
    let set = (\<lambda>d. upd_con c (\<lambda>y. y\<lparr>b_direction := d\<rparr>) h) in
      if m1 = m then
        (if m2 \<noteq> m \<and> Strength_stronger (c_strength x) w2 then set FORWARD else set 0)
      else if m2 = m then
        (if m1 \<noteq> m \<and> Strength_stronger (c_strength x) w1 then set BACKWARD else set 0)
      else if Strength_weaker w1 w2 then
        (if Strength_stronger (c_strength x) w1 then set BACKWARD else set 0)
      else
        (if Strength_stronger (c_strength x) w2 then set FORWARD else set 0)))))"

definition Constraint_chooseMethod :: "cid \<Rightarrow> int \<Rightarrow> deltablue \<Rightarrow> deltablue res" where
  "Constraint_chooseMethod c m h = rbind (get_con c h) (\<lambda>x.
    case c_type x of
      EditConstraintType \<Rightarrow> UnaryConstraint_chooseMethod c m x h
    | StayConstraintType \<Rightarrow> UnaryConstraint_chooseMethod c m x h
    | EqualityConstraintType \<Rightarrow> BinaryConstraint_chooseMethod c m x h
    | ScaleConstraintType \<Rightarrow> BinaryConstraint_chooseMethod c m x h
    | NoType \<Rightarrow> Inl AssertFailed)"

section \<open>Executing and recalculating\<close>

definition EqualityConstraint_execute :: "constr \<Rightarrow> deltablue \<Rightarrow> deltablue res" where
  "EqualityConstraint_execute x h =
    (if b_direction x = FORWARD then
       rbind (Variable_getValue (b_v1 x) h) (\<lambda>a. Variable_setValue (b_v2 x) a h)
     else
       rbind (Variable_getValue (b_v2 x) h) (\<lambda>a. Variable_setValue (b_v1 x) a h))"

definition ScaleConstraint_execute :: "constr \<Rightarrow> deltablue \<Rightarrow> deltablue res" where
  "ScaleConstraint_execute x h =
    (if b_direction x = FORWARD then
       rbind (Variable_getValue (b_v1 x) h) (\<lambda>a.
       rbind (Variable_getValue (s_scale x) h) (\<lambda>s.
       rbind (Variable_getValue (s_offset x) h) (\<lambda>off.
       rbind (c_int (a * s)) (\<lambda>p.
       rbind (c_int (p + off)) (\<lambda>r.
         Variable_setValue (b_v2 x) r h)))))
     else
       rbind (Variable_getValue (b_v2 x) h) (\<lambda>a.
       rbind (Variable_getValue (s_offset x) h) (\<lambda>off.
       rbind (Variable_getValue (s_scale x) h) (\<lambda>s.
       rbind (c_int (a - off)) (\<lambda>d.
       rbind (c_div d s) (\<lambda>r.
       rbind (c_int r) (\<lambda>r.
         Variable_setValue (b_v1 x) r h)))))))"

definition UnaryConstraint_execute :: "constr \<Rightarrow> deltablue \<Rightarrow> deltablue res" where [simp]:
  "UnaryConstraint_execute x h = Inr h"

definition Constraint_execute :: "cid \<Rightarrow> deltablue \<Rightarrow> deltablue res" where
  "Constraint_execute c h = rbind (get_con c h) (\<lambda>x.
    case c_type x of
      EditConstraintType \<Rightarrow> UnaryConstraint_execute x h
    | StayConstraintType \<Rightarrow> UnaryConstraint_execute x h
    | EqualityConstraintType \<Rightarrow> EqualityConstraint_execute x h
    | ScaleConstraintType \<Rightarrow> ScaleConstraint_execute x h
    | NoType \<Rightarrow> Inl AssertFailed)"

text \<open>
  The inputs of a constraint, in the order in which \<open>inputsDo\<close> visits them. \<open>inputsHasOne\<close> of a
  scale constraint is the one of binary constraints: it leaves the scale and the offset out.
\<close>

definition binary_input :: "constr \<Rightarrow> vid" where
  "binary_input x = (if b_direction x = FORWARD then b_v1 x else b_v2 x)"

definition UnaryConstraint_inputsDo :: "constr \<Rightarrow> (vid \<Rightarrow> deltablue \<Rightarrow> deltablue res) \<Rightarrow> deltablue \<Rightarrow> deltablue res"
  where [simp]: "UnaryConstraint_inputsDo x f h = Inr h"

definition BinaryConstraint_inputsDo :: "constr \<Rightarrow> (vid \<Rightarrow> deltablue \<Rightarrow> deltablue res) \<Rightarrow> deltablue \<Rightarrow> deltablue res"
  where [simp]: "BinaryConstraint_inputsDo x f h = f (binary_input x) h"

definition ScaleConstraint_inputsDo :: "constr \<Rightarrow> (vid \<Rightarrow> deltablue \<Rightarrow> deltablue res) \<Rightarrow> deltablue \<Rightarrow> deltablue res"
  where [simp]: "ScaleConstraint_inputsDo x f h =
    rbind (f (binary_input x) h) (\<lambda>h. rbind (f (s_scale x) h) (\<lambda>h. f (s_offset x) h))"

definition Constraint_inputsDo :: "cid \<Rightarrow> (vid \<Rightarrow> deltablue \<Rightarrow> deltablue res) \<Rightarrow> deltablue \<Rightarrow> deltablue res" where
  "Constraint_inputsDo c f h = rbind (get_con c h) (\<lambda>x.
    case c_type x of
      EditConstraintType \<Rightarrow> UnaryConstraint_inputsDo x f h
    | StayConstraintType \<Rightarrow> UnaryConstraint_inputsDo x f h
    | EqualityConstraintType \<Rightarrow> BinaryConstraint_inputsDo x f h
    | ScaleConstraintType \<Rightarrow> ScaleConstraint_inputsDo x f h
    | NoType \<Rightarrow> Inl AssertFailed)"

definition UnaryConstraint_inputsHasOne :: "constr \<Rightarrow> (vid \<Rightarrow> deltablue \<Rightarrow> bool res) \<Rightarrow> deltablue \<Rightarrow> bool res"
  where [simp]: "UnaryConstraint_inputsHasOne x f h = Inr False"

definition BinaryConstraint_inputsHasOne :: "constr \<Rightarrow> (vid \<Rightarrow> deltablue \<Rightarrow> bool res) \<Rightarrow> deltablue \<Rightarrow> bool res"
  where [simp]: "BinaryConstraint_inputsHasOne x f h = f (binary_input x) h"

definition Constraint_inputsHasOne :: "cid \<Rightarrow> (vid \<Rightarrow> deltablue \<Rightarrow> bool res) \<Rightarrow> deltablue \<Rightarrow> bool res" where
  "Constraint_inputsHasOne c f h = rbind (get_con c h) (\<lambda>x.
    case c_type x of
      EditConstraintType \<Rightarrow> UnaryConstraint_inputsHasOne x f h
    | StayConstraintType \<Rightarrow> UnaryConstraint_inputsHasOne x f h
    | EqualityConstraintType \<Rightarrow> BinaryConstraint_inputsHasOne x f h
    | ScaleConstraintType \<Rightarrow> BinaryConstraint_inputsHasOne x f h
    | NoType \<Rightarrow> Inl AssertFailed)"

definition UnaryConstraint_markUnsatisfied :: "cid \<Rightarrow> deltablue \<Rightarrow> deltablue res" where [simp]:
  "UnaryConstraint_markUnsatisfied c h = upd_con c (\<lambda>x. x\<lparr>u_satisfied := False\<rparr>) h"

definition BinaryConstraint_markUnsatisfied :: "cid \<Rightarrow> deltablue \<Rightarrow> deltablue res" where [simp]:
  "BinaryConstraint_markUnsatisfied c h = upd_con c (\<lambda>x. x\<lparr>b_direction := 0\<rparr>) h"

definition Constraint_markUnsatisfied :: "cid \<Rightarrow> deltablue \<Rightarrow> deltablue res" where
  "Constraint_markUnsatisfied c h = rbind (get_con c h) (\<lambda>x.
    case c_type x of
      EditConstraintType \<Rightarrow> UnaryConstraint_markUnsatisfied c h
    | StayConstraintType \<Rightarrow> UnaryConstraint_markUnsatisfied c h
    | EqualityConstraintType \<Rightarrow> BinaryConstraint_markUnsatisfied c h
    | ScaleConstraintType \<Rightarrow> BinaryConstraint_markUnsatisfied c h
    | NoType \<Rightarrow> Inl AssertFailed)"

definition UnaryConstraint_getOutput :: "constr \<Rightarrow> vid" where [simp]:
  "UnaryConstraint_getOutput x = u_output x"

definition BinaryConstraint_getOutput :: "constr \<Rightarrow> vid" where [simp]:
  "BinaryConstraint_getOutput x = (if b_direction x = FORWARD then b_v2 x else b_v1 x)"

definition Constraint_getOutput :: "cid \<Rightarrow> deltablue \<Rightarrow> vid res" where
  "Constraint_getOutput c h = rbind (get_con c h) (\<lambda>x.
    case c_type x of
      EditConstraintType \<Rightarrow> Inr (UnaryConstraint_getOutput x)
    | StayConstraintType \<Rightarrow> Inr (UnaryConstraint_getOutput x)
    | EqualityConstraintType \<Rightarrow> Inr (BinaryConstraint_getOutput x)
    | ScaleConstraintType \<Rightarrow> Inr (BinaryConstraint_getOutput x)
    | NoType \<Rightarrow> Inl AssertFailed)"

definition UnaryConstraint_recalculate :: "cid \<Rightarrow> constr \<Rightarrow> deltablue \<Rightarrow> deltablue res" where
  "UnaryConstraint_recalculate c x h =
    rbind (Variable_setWalkStrength (u_output x) (c_strength x) h) (\<lambda>h.
    rbind (Constraint_isInput c h) (\<lambda>i.
    rbind (Variable_setStay (u_output x) (\<not> i) h) (\<lambda>h.
    rbind (Variable_getStay (u_output x) h) (\<lambda>s.
      if s then Constraint_execute c h else Inr h))))"

definition BinaryConstraint_recalculate :: "cid \<Rightarrow> constr \<Rightarrow> deltablue \<Rightarrow> deltablue res" where
  "BinaryConstraint_recalculate c x h =
    (let (inp, out) = (if b_direction x = FORWARD then (b_v1 x, b_v2 x) else (b_v2 x, b_v1 x)) in
     rbind (Variable_getWalkStrength inp h) (\<lambda>w.
     rbind (Variable_setWalkStrength out (Strength_weakest (c_strength x) w) h) (\<lambda>h.
     rbind (Variable_getStay inp h) (\<lambda>s.
     rbind (Variable_setStay out s h) (\<lambda>h.
     rbind (Variable_getStay out h) (\<lambda>s.
       if s then Constraint_execute c h else Inr h))))))"

definition ScaleConstraint_recalculate :: "cid \<Rightarrow> constr \<Rightarrow> deltablue \<Rightarrow> deltablue res" where
  "ScaleConstraint_recalculate c x h =
    (let (inp, out) = (if b_direction x = FORWARD then (b_v1 x, b_v2 x) else (b_v2 x, b_v1 x)) in
     rbind (Variable_getWalkStrength inp h) (\<lambda>w.
     rbind (Variable_setWalkStrength out (Strength_weakest (c_strength x) w) h) (\<lambda>h.
     rbind (Variable_getStay inp h) (\<lambda>s1.
     rbind (Variable_getStay (s_scale x) h) (\<lambda>s2.
     rbind (Variable_getStay (s_offset x) h) (\<lambda>s3.
     rbind (Variable_setStay out (s1 \<and> s2 \<and> s3) h) (\<lambda>h.
     rbind (Variable_getStay out h) (\<lambda>s.
       if s then Constraint_execute c h else Inr h))))))))"

definition Constraint_recalculate :: "cid \<Rightarrow> deltablue \<Rightarrow> deltablue res" where
  "Constraint_recalculate c h = rbind (get_con c h) (\<lambda>x.
    case c_type x of
      EditConstraintType \<Rightarrow> UnaryConstraint_recalculate c x h
    | StayConstraintType \<Rightarrow> UnaryConstraint_recalculate c x h
    | EqualityConstraintType \<Rightarrow> BinaryConstraint_recalculate c x h
    | ScaleConstraintType \<Rightarrow> ScaleConstraint_recalculate c x h
    | NoType \<Rightarrow> Inl AssertFailed)"

section \<open>Inputs known\<close>

definition AbstractConstraint_inputsKnown_iter :: "int \<Rightarrow> vid \<Rightarrow> deltablue \<Rightarrow> bool res" where
  "AbstractConstraint_inputsKnown_iter m v h =
    rbind (Variable_getMark v h) (\<lambda>mv.
      if mv = m then Inr False
      else rbind (Variable_getStay v h) (\<lambda>s.
        if s then Inr False
        else rbind (Variable_getDeterminedBy v h) (\<lambda>d. Inr (d \<noteq> 0))))"

definition AbstractConstraint_inputsKnown :: "cid \<Rightarrow> int \<Rightarrow> deltablue \<Rightarrow> bool res" where
  "AbstractConstraint_inputsKnown c m h =
    rbind (Constraint_inputsHasOne c (AbstractConstraint_inputsKnown_iter m) h) (\<lambda>b. Inr (\<not> b))"

definition AbstractConstraint_satisfy_iter :: "int \<Rightarrow> vid \<Rightarrow> deltablue \<Rightarrow> deltablue res" where
  "AbstractConstraint_satisfy_iter m v h = Variable_setMark v m h"

section \<open>Propagation after a removal\<close>

definition Planner_create :: "deltablue \<Rightarrow> deltablue" where
  "Planner_create h = h\<lparr>currentMark := 1\<rparr>"

definition Planner_newMark :: "deltablue \<Rightarrow> (int \<times> deltablue) res" where
  "Planner_newMark h = rbind (c_int (currentMark h + 1)) (\<lambda>m. Inr (m, h\<lparr>currentMark := m\<rparr>))"

text \<open>
  The constraints of a variable are read once: none of the functions that are passed changes the
  list of a variable.
\<close>

definition consuming_step ::
    "cid \<Rightarrow> (cid \<Rightarrow> 't \<times> deltablue \<Rightarrow> ('t \<times> deltablue) res) \<Rightarrow> cid \<Rightarrow> 't \<times> deltablue \<Rightarrow> ('t \<times> deltablue) res" where
  "consuming_step determiningC f c =
    (\<lambda>(t, h). if c \<noteq> determiningC
      then rbind (Constraint_isSatisfied c h) (\<lambda>s. if s then f c (t, h) else Inr (t, h))
      else Inr (t, h))"

definition Planner_constraintsConsuming ::
    "vid \<Rightarrow> (cid \<Rightarrow> 't \<times> deltablue \<Rightarrow> ('t \<times> deltablue) res) \<Rightarrow> 't \<times> deltablue \<Rightarrow> ('t \<times> deltablue) res" where
  "Planner_constraintsConsuming v f = (\<lambda>(t, h).
    rbind (Variable_getDeterminedBy v h) (\<lambda>d.
    rbind (Variable_getConstraints v h) (\<lambda>cs.
      rfold (consuming_step d f) cs (t, h))))"

definition Planner_removePropagateFrom_iter1 ::
    "cid \<Rightarrow> vid list \<times> deltablue \<Rightarrow> (vid list \<times> deltablue) res" where
  "Planner_removePropagateFrom_iter1 c = (\<lambda>(todo, h).
    rbind (Constraint_recalculate c h) (\<lambda>h.
    rbind (Constraint_getOutput c h) (\<lambda>v.
      Inr (todo @ [v], h))))"

text \<open>The comparison is called on constraints that have just been accessed, so they are live.\<close>

definition con_strength :: "deltablue \<Rightarrow> cid \<Rightarrow> strength" where
  "con_strength h c =
    (case cons h c of Some x \<Rightarrow> AbstractConstraint_getStrength x | None \<Rightarrow> \<lparr>arithmeticValue = 0, symbolicValue = NullSym\<rparr>)"

definition Planner_removePropagateFrom_iter2 :: "deltablue \<Rightarrow> cid \<Rightarrow> cid \<Rightarrow> int" where
  "Planner_removePropagateFrom_iter2 h c1 c2 =
    (if Strength_stronger (con_strength h c1) (con_strength h c2) then - 1 else 1)"

definition unsatisfied_step :: "deltablue \<Rightarrow> cid \<Rightarrow> cid list \<Rightarrow> cid list res" where
  "unsatisfied_step h c unsatisfied =
    rbind (Constraint_isSatisfied c h) (\<lambda>s. Inr (if \<not> s then unsatisfied @ [c] else unsatisfied))"

text \<open>The \<open>while\<close> loop over the variables to do.\<close>

fun removePropagate_loop ::
    "nat \<Rightarrow> vid list \<Rightarrow> cid list \<Rightarrow> deltablue \<Rightarrow> (cid list \<times> deltablue) res" where
  "removePropagate_loop k [] unsatisfied h = Inr (unsatisfied, h)"
| "removePropagate_loop 0 (v # todo) unsatisfied h = Inl OutOfFuel"
| "removePropagate_loop (Suc k) (v # todo) unsatisfied h =
    rbind (Variable_getConstraints v h) (\<lambda>cs.
    rbind (rfold (unsatisfied_step h) cs unsatisfied) (\<lambda>unsatisfied.
    rbind (Planner_constraintsConsuming v Planner_removePropagateFrom_iter1 (todo, h)) (\<lambda>(todo, h).
      removePropagate_loop k todo unsatisfied h)))"

text \<open>The vector that holds the list in its cells.\<close>

definition list_vector :: "'a list \<Rightarrow> 'a vector" where
  "list_vector xs =
    \<lparr>firstIdx = 0, lastIdx = length xs, vlength = length xs, elemSize = 8, storage = map Some xs\<rparr>"

definition Planner_removePropagateFrom :: "nat \<Rightarrow> vid \<Rightarrow> deltablue \<Rightarrow> (cid list \<times> deltablue) res" where
  "Planner_removePropagateFrom k out h =
    rbind (Variable_setDeterminedBy out 0 h) (\<lambda>h.
    rbind (Strength_absoluteWeakest (strs h)) (\<lambda>w.
    rbind (Variable_setWalkStrength out w h) (\<lambda>h.
    rbind (Variable_setStay out True h) (\<lambda>h.
    rbind (removePropagate_loop k [out] [] h) (\<lambda>(unsatisfied, h).
    rbind (Vector_sort (list_vector unsatisfied) (Planner_removePropagateFrom_iter2 h)) (\<lambda>v.
      Inr (unsatisfied, h)))))))"

section \<open>Planning\<close>

definition consuming_append :: "cid \<Rightarrow> cid list \<times> deltablue \<Rightarrow> (cid list \<times> deltablue) res" where
  "consuming_append c = (\<lambda>(coll, h). Inr (coll @ [c], h))"

definition Planner_addConstraintsConsumingTo :: "vid \<Rightarrow> cid list \<Rightarrow> deltablue \<Rightarrow> cid list res" where
  "Planner_addConstraintsConsumingTo v coll h =
    rbind (Planner_constraintsConsuming v consuming_append (coll, h)) (\<lambda>(coll, h). Inr coll)"

fun makePlan_loop :: "nat \<Rightarrow> int \<Rightarrow> cid list \<Rightarrow> cid list \<Rightarrow> deltablue \<Rightarrow> (cid list \<times> deltablue) res" where
  "makePlan_loop k m [] plan h = Inr (plan, h)"
| "makePlan_loop 0 m (c # todo) plan h = Inl OutOfFuel"
| "makePlan_loop (Suc k) m (c # todo) plan h =
    rbind (Constraint_getOutput c h) (\<lambda>out.
    rbind (Variable_getMark out h) (\<lambda>mo.
    rbind (if mo \<noteq> m then AbstractConstraint_inputsKnown c m h else Inr False) (\<lambda>b.
      if b then
        rbind (Variable_setMark out m h) (\<lambda>h.
        rbind (Planner_addConstraintsConsumingTo out todo h) (\<lambda>todo.
          makePlan_loop k m todo (plan @ [c]) h))
      else makePlan_loop k m todo plan h)))"

definition Planner_makePlan :: "nat \<Rightarrow> cid list \<Rightarrow> deltablue \<Rightarrow> (cid list \<times> deltablue) res" where
  "Planner_makePlan k sources h =
    rbind (Planner_newMark h) (\<lambda>(m, h). makePlan_loop k m sources [] h)"

definition source_step :: "deltablue \<Rightarrow> cid \<Rightarrow> cid list \<Rightarrow> cid list res" where
  "source_step h c sources =
    rbind (Constraint_isInput c h) (\<lambda>i.
    rbind (if i then Constraint_isSatisfied c h else Inr False) (\<lambda>b.
      Inr (if b then sources @ [c] else sources)))"

definition Planner_extractPlanFromConstraints ::
    "nat \<Rightarrow> cid list \<Rightarrow> deltablue \<Rightarrow> (cid list \<times> deltablue) res" where
  "Planner_extractPlanFromConstraints k cs h =
    rbind (rfold (source_step h) cs []) (\<lambda>sources. Planner_makePlan k sources h)"

definition Plan_execute :: "cid list \<Rightarrow> deltablue \<Rightarrow> deltablue res" where
  "Plan_execute plan = rfold Constraint_execute plan"

section \<open>Adding and removing a constraint\<close>

text \<open>
  \<open>AbstractConstraint_satisfy\<close>, \<open>Planner_addPropagate\<close>, \<open>Planner_incrementalRemove\<close> and
  \<open>Planner_incrementalAdd\<close> call each other, in one cycle that goes through the call of
  \<open>Planner_incrementalRemove\<close> in \<open>Planner_addPropagate\<close>. So the first functions are defined for
  any \<open>remove\<close>, and \<open>Planner_incrementalRemove\<close> ties the knot by recursion on the fuel, which
  bounds the depth of its calls and the steps of each loop.
\<close>

fun addPropagate_loop ::
    "(cid \<Rightarrow> deltablue \<Rightarrow> deltablue res) \<Rightarrow> nat \<Rightarrow> cid \<Rightarrow> int \<Rightarrow> cid list \<Rightarrow> deltablue \<Rightarrow> (bool \<times> deltablue) res" where
  "addPropagate_loop remove k c m [] h = Inr (True, h)"
| "addPropagate_loop remove 0 c m (d # todo) h = Inl OutOfFuel"
| "addPropagate_loop remove (Suc k) c m (d # todo) h =
    rbind (Constraint_getOutput d h) (\<lambda>out.
    rbind (Variable_getMark out h) (\<lambda>mo.
      if mo = m then rbind (remove c h) (\<lambda>h. Inr (False, h))
      else
        rbind (Constraint_recalculate d h) (\<lambda>h.
        rbind (Constraint_getOutput d h) (\<lambda>out.
        rbind (Planner_addConstraintsConsumingTo out todo h) (\<lambda>todo.
          addPropagate_loop remove k c m todo h)))))"

definition satisfy_with ::
    "(cid \<Rightarrow> deltablue \<Rightarrow> deltablue res) \<Rightarrow> nat \<Rightarrow> cid \<Rightarrow> int \<Rightarrow> deltablue \<Rightarrow> (cid \<times> deltablue) res" where
  "satisfy_with remove k me m h =
    rbind (Constraint_chooseMethod me m h) (\<lambda>h.
    rbind (Constraint_isSatisfied me h) (\<lambda>s.
      if s then
        rbind (Constraint_inputsDo me (AbstractConstraint_satisfy_iter m) h) (\<lambda>h.
        rbind (Constraint_getOutput me h) (\<lambda>out.
        rbind (Variable_getDeterminedBy out h) (\<lambda>overridden.
        rbind (if overridden \<noteq> 0 then Constraint_markUnsatisfied overridden h else Inr h) (\<lambda>h.
        rbind (Variable_setDeterminedBy out me h) (\<lambda>h.
        rbind (addPropagate_loop remove k me m [me] h) (\<lambda>(b, h).
          if \<not> b then Inl AssertFailed
          else rbind (Variable_setMark out m h) (\<lambda>h.
            Inr (overridden, h))))))))
      else
        rbind (get_con me h) (\<lambda>x.
        rbind (Strength_required (strs h)) (\<lambda>r.
          if Strength_sameAs (c_strength x) r then Inl AssertFailed
          else Inr (0, h)))))"

fun incrementalAdd_loop ::
    "(cid \<Rightarrow> deltablue \<Rightarrow> deltablue res) \<Rightarrow> nat \<Rightarrow> nat \<Rightarrow> cid \<Rightarrow> int \<Rightarrow> deltablue \<Rightarrow> deltablue res" where
  "incrementalAdd_loop remove k i overridden m h =
    (if overridden \<noteq> 0 then
       (case i of
          0 \<Rightarrow> Inl OutOfFuel
        | Suc i \<Rightarrow>
            rbind (satisfy_with remove k overridden m h) (\<lambda>(overridden, h).
              incrementalAdd_loop remove k i overridden m h))
     else Inr h)"

declare incrementalAdd_loop.simps [simp del]

definition incrementalAdd_with ::
    "(cid \<Rightarrow> deltablue \<Rightarrow> deltablue res) \<Rightarrow> nat \<Rightarrow> cid \<Rightarrow> deltablue \<Rightarrow> deltablue res" where
  "incrementalAdd_with remove k c h =
    rbind (Planner_newMark h) (\<lambda>(m, h).
    rbind (satisfy_with remove k c m h) (\<lambda>(overridden, h).
      incrementalAdd_loop remove k k overridden m h))"

fun Planner_incrementalRemove :: "nat \<Rightarrow> cid \<Rightarrow> deltablue \<Rightarrow> deltablue res" where
  "Planner_incrementalRemove 0 c h = Inl OutOfFuel"
| "Planner_incrementalRemove (Suc k) c h =
    rbind (Constraint_getOutput c h) (\<lambda>out.
    rbind (Constraint_markUnsatisfied c h) (\<lambda>h.
    rbind (Constraint_removeFromGraph c h) (\<lambda>h.
    rbind (Planner_removePropagateFrom k out h) (\<lambda>(unsatisfied, h).
      rfold (incrementalAdd_with (Planner_incrementalRemove k) k) unsatisfied h))))"

definition Planner_addPropagate :: "nat \<Rightarrow> cid \<Rightarrow> int \<Rightarrow> deltablue \<Rightarrow> (bool \<times> deltablue) res" where
  "Planner_addPropagate k c m h = addPropagate_loop (Planner_incrementalRemove k) k c m [c] h"

definition AbstractConstraint_satisfy :: "nat \<Rightarrow> cid \<Rightarrow> int \<Rightarrow> deltablue \<Rightarrow> (cid \<times> deltablue) res" where
  "AbstractConstraint_satisfy k = satisfy_with (Planner_incrementalRemove k) k"

definition Planner_incrementalAdd :: "nat \<Rightarrow> cid \<Rightarrow> deltablue \<Rightarrow> deltablue res" where
  "Planner_incrementalAdd k = incrementalAdd_with (Planner_incrementalRemove k) k"

definition AbstractConstraint_addConstraint :: "nat \<Rightarrow> cid \<Rightarrow> deltablue \<Rightarrow> deltablue res" where
  "AbstractConstraint_addConstraint k c h =
    rbind (Constraint_addToGraph c h) (\<lambda>h. Planner_incrementalAdd k c h)"

definition AbstractConstraint_destroyConstraint :: "nat \<Rightarrow> cid \<Rightarrow> deltablue \<Rightarrow> deltablue res" where
  "AbstractConstraint_destroyConstraint k c h =
    rbind (Constraint_isSatisfied c h) (\<lambda>s.
    rbind (if s then Planner_incrementalRemove k c h else Inr h) (\<lambda>h.
      Constraint_removeFromGraph c h))"

section \<open>Creating constraints\<close>

definition AbstractConstraint_init :: "cid \<Rightarrow> sym \<Rightarrow> deltablue \<Rightarrow> deltablue res" where
  "AbstractConstraint_init c strength h =
    rbind (Strength_of (strs h) strength) (\<lambda>s. upd_con c (\<lambda>x. x\<lparr>c_strength := s\<rparr>) h)"

definition UnaryConstraint_init :: "nat \<Rightarrow> cid \<Rightarrow> vid \<Rightarrow> sym \<Rightarrow> deltablue \<Rightarrow> deltablue res" where
  "UnaryConstraint_init k me v strength h =
    rbind (AbstractConstraint_init me strength h) (\<lambda>h.
    rbind (upd_con me (\<lambda>x. x\<lparr>u_output := v, u_satisfied := False\<rparr>) h) (\<lambda>h.
      AbstractConstraint_addConstraint k me h))"

definition EditConstraint_create :: "nat \<Rightarrow> vid \<Rightarrow> sym \<Rightarrow> deltablue \<Rightarrow> (cid \<times> deltablue) res" where
  "EditConstraint_create k v strength h =
    (let (me, h) = Constraint_create EditConstraintType h in
     rbind (UnaryConstraint_init k me v strength h) (\<lambda>h. Inr (me, h)))"

definition StayConstraint_create :: "nat \<Rightarrow> vid \<Rightarrow> sym \<Rightarrow> deltablue \<Rightarrow> (cid \<times> deltablue) res" where
  "StayConstraint_create k v strength h =
    (let (me, h) = Constraint_create StayConstraintType h in
     rbind (UnaryConstraint_init k me v strength h) (\<lambda>h. Inr (me, h)))"

definition BinaryConstraint_init :: "cid \<Rightarrow> vid \<Rightarrow> vid \<Rightarrow> sym \<Rightarrow> deltablue \<Rightarrow> deltablue res" where
  "BinaryConstraint_init me var1 var2 strength h =
    rbind (AbstractConstraint_init me strength h) (\<lambda>h.
      upd_con me (\<lambda>x. x\<lparr>b_v1 := var1, b_v2 := var2, b_direction := 0\<rparr>) h)"

definition EqualityConstraint_create ::
    "nat \<Rightarrow> vid \<Rightarrow> vid \<Rightarrow> sym \<Rightarrow> deltablue \<Rightarrow> (cid \<times> deltablue) res" where
  "EqualityConstraint_create k var1 var2 strength h =
    (let (me, h) = Constraint_create EqualityConstraintType h in
     rbind (BinaryConstraint_init me var1 var2 strength h) (\<lambda>h.
     rbind (AbstractConstraint_addConstraint k me h) (\<lambda>h. Inr (me, h))))"

definition ScaleConstraint_create ::
    "nat \<Rightarrow> vid \<Rightarrow> vid \<Rightarrow> vid \<Rightarrow> vid \<Rightarrow> sym \<Rightarrow> deltablue \<Rightarrow> (cid \<times> deltablue) res" where
  "ScaleConstraint_create k src scale offset dest strength h =
    (let (me, h) = Constraint_create ScaleConstraintType h in
     rbind (BinaryConstraint_init me src dest strength h) (\<lambda>h.
     rbind (upd_con me (\<lambda>x. x\<lparr>s_scale := scale, s_offset := offset\<rparr>) h) (\<lambda>h.
     rbind (AbstractConstraint_addConstraint k me h) (\<lambda>h. Inr (me, h)))))"

section \<open>The tests\<close>

text \<open>\<open>*(T**)Vector_at(v, i)\<close> on the list of the cells\<close>

definition list_at :: "'a list \<Rightarrow> int \<Rightarrow> 'a res" where
  "list_at xs i = (if i < 0 \<or> i \<ge> int (length xs) then Inl AssertFailed else Inr (xs ! nat i))"

definition Planner_change :: "nat \<Rightarrow> vid \<Rightarrow> int \<Rightarrow> deltablue \<Rightarrow> deltablue res" where
  "Planner_change k var newValue h =
    rbind (EditConstraint_create k var (PREFERRED (strs h)) h) (\<lambda>(editC, h).
    rbind (Planner_extractPlanFromConstraints k [editC] h) (\<lambda>(plan, h).
    rbind (rfold (\<lambda>i h. rbind (Variable_setValue var newValue h) (\<lambda>h. Plan_execute plan h)) [0..<10] h) (\<lambda>h.
    rbind (AbstractConstraint_destroyConstraint k editC h) (\<lambda>h.
      Constraint_dispose editC h))))"

definition chain_var :: "nat \<Rightarrow> vid list \<times> deltablue \<Rightarrow> (vid list \<times> deltablue) res" where
  "chain_var i = (\<lambda>(vs, h). rbind (Variable_create h) (\<lambda>(v, h). Inr (vs @ [v], h)))"

definition chain_link :: "nat \<Rightarrow> vid list \<Rightarrow> nat \<Rightarrow> cid list \<times> deltablue \<Rightarrow> (cid list \<times> deltablue) res" where
  "chain_link k vs i = (\<lambda>(toDelete, h).
    rbind (list_at vs (int i)) (\<lambda>v1.
    rbind (list_at vs (int i + 1)) (\<lambda>v2.
    rbind (EqualityConstraint_create k v1 v2 (REQUIRED (strs h)) h) (\<lambda>(tmp, h).
      Inr (toDelete @ [tmp], h)))))"

definition chain_execute :: "int \<Rightarrow> vid list \<Rightarrow> cid list \<Rightarrow> nat \<Rightarrow> deltablue \<Rightarrow> deltablue res" where
  "chain_execute n vs plan i h =
    rbind (list_at vs 0) (\<lambda>v.
    rbind (Variable_setValue v (int i) h) (\<lambda>h.
    rbind (Plan_execute plan h) (\<lambda>h.
    rbind (list_at vs n) (\<lambda>v.
    rbind (Variable_getValue v h) (\<lambda>a.
      if a \<noteq> int i then Inl AssertFailed else Inr h)))))"

definition Planner_chainTest :: "nat \<Rightarrow> int \<Rightarrow> deltablue \<Rightarrow> deltablue res" where
  "Planner_chainTest k n h =
    (let h = Planner_create h in
     rbind (c_int (n + 1)) (\<lambda>varsLen.
     rbind (rfold chain_var [0..<nat varsLen] ([], h)) (\<lambda>(vs, h).
     rbind (rfold (chain_link k vs) [0..<nat n] ([], h)) (\<lambda>(toDelete, h).
     rbind (list_at vs n) (\<lambda>v.
     rbind (StayConstraint_create k v (STRONG_DEFAULT (strs h)) h) (\<lambda>(tmp, h).
     rbind (list_at vs 0) (\<lambda>v.
     rbind (EditConstraint_create k v (PREFERRED (strs h)) h) (\<lambda>(editC, h).
     rbind (Planner_extractPlanFromConstraints k [editC] h) (\<lambda>(plan, h).
     rbind (rfold (chain_execute n vs plan) [0..<100] h) (\<lambda>h.
     rbind (AbstractConstraint_destroyConstraint k editC h) (\<lambda>h.
     rbind (rfold Variable_dispose vs h) (\<lambda>h.
       rfold Constraint_dispose (toDelete @ [tmp, editC]) h))))))))))))"

record projection =
  p_src :: vid
  p_dst :: vid
  p_dests :: "vid list"
  p_toDelete :: "vid list"
  p_toDelete2 :: "cid list"

definition projection_pair ::
    "nat \<Rightarrow> vid \<Rightarrow> vid \<Rightarrow> nat \<Rightarrow> projection \<times> deltablue \<Rightarrow> (projection \<times> deltablue) res" where
  "projection_pair k scale offset i = (\<lambda>(p, h).
    rbind (Variable_value (int i) h) (\<lambda>(src, h).
    rbind (Variable_value (int i) h) (\<lambda>(dst, h).
    rbind (StayConstraint_create k src (DEFAULT (strs h)) h) (\<lambda>(tmp, h).
    rbind (ScaleConstraint_create k src scale offset dst (REQUIRED (strs h)) h) (\<lambda>(tmp2, h).
      Inr (\<lparr>p_src = src, p_dst = dst, p_dests = p_dests p @ [dst], p_toDelete = p_toDelete p @ [src, dst],
            p_toDelete2 = p_toDelete2 p @ [tmp, tmp2]\<rparr>, h))))))"

text \<open>The loop of the third and fourth check, which tests all but the last value.\<close>

definition check_dests :: "vid list \<Rightarrow> int \<Rightarrow> int \<Rightarrow> deltablue \<Rightarrow> unit res" where
  "check_dests dests n off h =
    rfold (\<lambda>i u.
      rbind (list_at dests (int i)) (\<lambda>v.
      rbind (Variable_getValue v h) (\<lambda>a.
      rbind (c_int ((int i + 1) * 5)) (\<lambda>x.
      rbind (c_int (x + off)) (\<lambda>x.
        if a \<noteq> x then Inl AssertFailed else Inr ())))))
    [0..<nat (n - 1)] ()"

definition Planner_projectionTest :: "nat \<Rightarrow> int \<Rightarrow> deltablue \<Rightarrow> deltablue res" where
  "Planner_projectionTest k n h =
    (let h = Planner_create h in
     rbind (Variable_value 10 h) (\<lambda>(scale, h).
     rbind (Variable_value 1000 h) (\<lambda>(offset, h).
     rbind (rfold (projection_pair k scale offset) [1..<Suc (nat n)]
       (\<lparr>p_src = 0, p_dst = 0, p_dests = [], p_toDelete = [scale, offset], p_toDelete2 = []\<rparr>, h)) (\<lambda>(p, h).
     rbind (Planner_change k (p_src p) 17 h) (\<lambda>h.
     rbind (Variable_getValue (p_dst p) h) (\<lambda>a. if a \<noteq> 1170 then Inl AssertFailed else
     rbind (Planner_change k (p_dst p) 1050 h) (\<lambda>h.
     rbind (Variable_getValue (p_src p) h) (\<lambda>a. if a \<noteq> 5 then Inl AssertFailed else
     rbind (Planner_change k scale 5 h) (\<lambda>h.
     rbind (check_dests (p_dests p) n 1000 h) (\<lambda>u.
     rbind (Planner_change k offset 2000 h) (\<lambda>h.
     rbind (check_dests (p_dests p) n 2000 h) (\<lambda>u.
     rbind (rfold Variable_dispose (p_toDelete p) h) (\<lambda>h.
       rfold Constraint_dispose (p_toDelete2 p) h)))))))))))))"

definition DeltaBlue_innerBenchmarkLoop :: "nat \<Rightarrow> int \<Rightarrow> deltablue \<Rightarrow> (bool \<times> deltablue) res" where
  "DeltaBlue_innerBenchmarkLoop k innerIterations h =
    rbind (Strength_init (strs h)) (\<lambda>g.
    rbind (Planner_chainTest k innerIterations (h\<lparr>strs := g\<rparr>)) (\<lambda>h.
    rbind (Planner_projectionTest k innerIterations h) (\<lambda>h.
      Inr (True, h\<lparr>strs := Strength_deinit (strs h)\<rparr>))))"

text \<open>The two functions of the benchmark's record that its own loop replaces.\<close>

definition deltablue_benchmark :: "deltablue \<Rightarrow> (int \<times> deltablue) res" where
  "deltablue_benchmark h = Inl AssertFailed"

definition deltablue_verifyResult :: "int \<Rightarrow> bool res" where
  "deltablue_verifyResult result = Inl AssertFailed"

end
