(* ===== verification/DeltaBlueStrengths.thy ===== *)
theory DeltaBlueStrengths
  imports AwfyDeltaBlue
begin

text \<open>
  What \<open>Strength_init\<close> leaves in the static variables of \<open>DeltaBlue.c\<close>: the eight strengths, each
  found in the dictionary \<open>strengthConstant\<close> under its symbol.
\<close>

definition no_strengths :: strengths where
  "no_strengths = \<lparr>ABSOLUTE_STRONGEST = 0, REQUIRED = 0, STRONG_PREFERRED = 0, PREFERRED = 0, STRONG_DEFAULT = 0,
     DEFAULT = 0, WEAK_DEFAULT = 0, ABSOLUTE_WEAKEST = 0, absoluteWeakest = None, required = None,
     strengthTable = None, strengthConstant = None\<rparr>"

definition required_strength :: strength where
  "required_strength = \<lparr>arithmeticValue = - 800, symbolicValue = Sym 1\<rparr>"

definition preferred_strength :: strength where
  "preferred_strength = \<lparr>arithmeticValue = - 400, symbolicValue = Sym 3\<rparr>"

definition strong_default_strength :: strength where
  "strong_default_strength = \<lparr>arithmeticValue = - 200, symbolicValue = Sym 4\<rparr>"

definition default_strength :: strength where
  "default_strength = \<lparr>arithmeticValue = 0, symbolicValue = Sym 5\<rparr>"

definition weakest_strength :: strength where
  "weakest_strength = \<lparr>arithmeticValue = 10000, symbolicValue = Sym 7\<rparr>"

text \<open>The two dictionaries, as the two loops build them.\<close>

definition strength_table :: "(sym, int) dictionary" where
  "strength_table = projr (rbind (Dictionary_create 8 4 (Some Sym_hash)) (rfold (\<lambda>(k, v). Dictionary_atPut k v)
     [(Sym 0, - 10000), (Sym 1, - 800), (Sym 2, - 600), (Sym 3, - 400), (Sym 4, - 200), (Sym 5, 0), (Sym 6, 500),
      (Sym 7, 10000)]))"

definition constants_of :: "strengths \<Rightarrow> (sym, strength) dictionary res" where
  "constants_of g =
    rbind (Dictionary_create 8 8 (Some Sym_hash)) (\<lambda>c.
    rbind (Vector_createDefault 8) (\<lambda>keys.
    rbind (deref (strengthTable g)) (\<lambda>t.
    rbind (Dictionary_getKeys t keys) (\<lambda>keys.
    rfold (\<lambda>i c.
        rbind (Vector_at keys (int i)) (\<lambda>key.
        rbind (Strength_create g key) (\<lambda>tmp.
          Dictionary_atPut key tmp c)))
      [0..<nat (Vector_size keys)] c))))"

definition strength_constants :: "(sym, strength) dictionary" where
  "strength_constants = projr (constants_of (no_strengths\<lparr>strengthTable := Some strength_table\<rparr>))"

definition all_strengths :: strengths where
  "all_strengths = \<lparr>ABSOLUTE_STRONGEST = Sym 0, REQUIRED = Sym 1, STRONG_PREFERRED = Sym 2, PREFERRED = Sym 3,
     STRONG_DEFAULT = Sym 4, DEFAULT = Sym 5, WEAK_DEFAULT = Sym 6, ABSOLUTE_WEAKEST = Sym 7,
     absoluteWeakest = Some weakest_strength, required = Some required_strength,
     strengthTable = Some strength_table, strengthConstant = Some strength_constants\<rparr>"

lemma not_isl: "\<not> isl m \<Longrightarrow> m = Inr (projr m)"
  by (cases m) auto

lemma strength_table_eq:
  "rbind (Dictionary_create 8 4 (Some Sym_hash)) (rfold (\<lambda>(k, v). Dictionary_atPut k v)
     [(Sym 0, - 10000), (Sym 1, - 800), (Sym 2, - 600), (Sym 3, - 400), (Sym 4, - 200), (Sym 5, 0), (Sym 6, 500),
      (Sym 7, 10000)]) = Inr strength_table"
  unfolding strength_table_def by (rule not_isl) code_simp

lemma strength_constants_eq:
  "strengthTable g = Some strength_table \<Longrightarrow> constants_of g = Inr strength_constants"
proof -
  assume g: "strengthTable g = Some strength_table"
  let ?z = "no_strengths\<lparr>strengthTable := Some strength_table\<rparr>"
  have "Strength_create g = Strength_create ?z"
    using g by (simp add: fun_eq_iff Strength_create_def)
  then have "constants_of g = constants_of ?z"
    using g by (simp add: constants_of_def)
  also have "\<dots> = Inr strength_constants"
    unfolding strength_constants_def by (rule not_isl) code_simp
  finally show ?thesis .
qed

lemma createStrengthConstants_eq:
  "strengthTable g = Some strength_table \<Longrightarrow>
    Strength_createStrengthConstants g = Inr (g\<lparr>strengthConstant := Some strength_constants\<rparr>)"
proof -
  assume g: "strengthTable g = Some strength_table"
  have "Strength_createStrengthConstants g = rbind (constants_of g) (\<lambda>c. Inr (g\<lparr>strengthConstant := Some c\<rparr>))"
    by (simp add: Strength_createStrengthConstants_def constants_of_def rbind_assoc del: rbind_Inr_right)
  with strength_constants_eq [OF g] show ?thesis by simp
qed

lemma strength_constants_at:
  "Dictionary_at (Sym 0) strength_constants = Inr (Some \<lparr>arithmeticValue = - 10000, symbolicValue = Sym 0\<rparr>)"
  "Dictionary_at (Sym 1) strength_constants = Inr (Some required_strength)"
  "Dictionary_at (Sym 2) strength_constants = Inr (Some \<lparr>arithmeticValue = - 600, symbolicValue = Sym 2\<rparr>)"
  "Dictionary_at (Sym 3) strength_constants = Inr (Some preferred_strength)"
  "Dictionary_at (Sym 4) strength_constants = Inr (Some strong_default_strength)"
  "Dictionary_at (Sym 5) strength_constants = Inr (Some default_strength)"
  "Dictionary_at (Sym 6) strength_constants = Inr (Some \<lparr>arithmeticValue = 500, symbolicValue = Sym 6\<rparr>)"
  "Dictionary_at (Sym 7) strength_constants = Inr (Some weakest_strength)"
  by code_simp+

lemma deref_Some: "deref (Some x) = Inr x"
  by (simp add: deref_def)

lemma Strength_of_all:
  "Strength_of g s = rbind (Dictionary_at s strength_constants) deref" if "strengthConstant g = Some strength_constants"
  using that by (simp add: Strength_of_def deref_Some)

lemma Strength_init_all:
  assumes "ABSOLUTE_STRONGEST g = 0"
  shows "Strength_init g = Inr all_strengths"
proof -
  have T: "Strength_createStrengthTable g = Inr (g\<lparr>strengthTable := Some strength_table\<rparr>)"
    if "ABSOLUTE_STRONGEST g = Sym 0" "REQUIRED g = Sym 1" "STRONG_PREFERRED g = Sym 2" "PREFERRED g = Sym 3"
      "STRONG_DEFAULT g = Sym 4" "DEFAULT g = Sym 5" "WEAK_DEFAULT g = Sym 6" "ABSOLUTE_WEAKEST g = Sym 7" for g
  proof -
    have "Strength_createStrengthTable g =
        rbind (rbind (Dictionary_create 8 4 (Some Sym_hash)) (rfold (\<lambda>(k, v). Dictionary_atPut k v)
     [(Sym 0, - 10000), (Sym 1, - 800), (Sym 2, - 600), (Sym 3, - 400), (Sym 4, - 200), (Sym 5, 0), (Sym 6, 500),
      (Sym 7, 10000)])) (\<lambda>t. Inr (g\<lparr>strengthTable := Some t\<rparr>))"
      using that by (simp add: Strength_createStrengthTable_def rbind_assoc del: rfold.simps)
    then show ?thesis unfolding strength_table_eq by simp
  qed
  show ?thesis
    using assms
    by (simp add: Strength_init_def Sym_create_def T createStrengthConstants_eq Strength_of_all strength_constants_at
        deref_def all_strengths_def)
qed

text \<open>The facts about the strengths that the proofs use.\<close>

lemma all_strengths_simps [simp]:
  "REQUIRED all_strengths = Sym 1" "PREFERRED all_strengths = Sym 3" "STRONG_DEFAULT all_strengths = Sym 4"
  "DEFAULT all_strengths = Sym 5"
  "Strength_of all_strengths (Sym 1) = Inr required_strength"
  "Strength_of all_strengths (Sym 3) = Inr preferred_strength"
  "Strength_of all_strengths (Sym 4) = Inr strong_default_strength"
  "Strength_of all_strengths (Sym 5) = Inr default_strength"
  "Strength_absoluteWeakest all_strengths = Inr weakest_strength"
  "Strength_required all_strengths = Inr required_strength"
  by (simp_all add: Strength_of_all strength_constants_at deref_def all_strengths_def
      Strength_absoluteWeakest_def Strength_required_def)

end
