(* ===== verification/DeltaBlueTypes.thy ===== *)
theory DeltaBlueTypes
  imports DeltaBlueStrengths
begin

text \<open>
  The typing of the two heaps of \<open>DeltaBlue.c\<close>: every pointer that a live cell holds points to a
  live cell of the right kind, and a variable refers to a constraint only if it is one of the
  constraint's operands. Every operation of the planner keeps it, and started in such a state it
  can stop with a failing \<open>assert\<close> but never accesses a null pointer or a released cell.
\<close>

section \<open>Faults that do not come from memory\<close>

definition benign :: "cfault set" where
  "benign = {AssertFailed, IntOverflow, DivByZero, OutOfFuel}"

definition safe :: "'a res \<Rightarrow> ('a \<Rightarrow> bool) \<Rightarrow> bool" where
  "safe m P \<longleftrightarrow> (case m of Inl e \<Rightarrow> e \<in> benign | Inr x \<Rightarrow> P x)"

lemma safe_simps [simp]: "safe (Inr x) P = P x" "safe (Inl e) P \<longleftrightarrow> e \<in> benign"
  by (simp_all add: safe_def)

lemma benign_simps [simp]:
  "AssertFailed \<in> benign" "IntOverflow \<in> benign" "DivByZero \<in> benign" "OutOfFuel \<in> benign"
  "NullDeref \<notin> benign" "UseAfterFree \<notin> benign" "OutOfBounds \<notin> benign" "Uninitialised \<notin> benign"
  by (simp_all add: benign_def)

lemma safe_step: "safe m P \<Longrightarrow> (\<And>x. P x \<Longrightarrow> safe (f x) Q) \<Longrightarrow> safe (rbind m f) Q"
  by (cases m) auto

lemma safe_mono: "safe m P \<Longrightarrow> (\<And>x. P x \<Longrightarrow> Q x) \<Longrightarrow> safe m Q"
  by (cases m) auto

lemma safe_return [simp]: "safe (rbind m (\<lambda>x. Inr (f x))) Q = safe m (\<lambda>x. Q (f x))"
  by (cases m) auto

lemma safe_any: "safe m (\<lambda>x. True) \<Longrightarrow> (\<And>x. safe (f x) Q) \<Longrightarrow> safe (rbind m f) Q"
  by (cases m) auto

lemma safe_rfold:
  assumes "\<And>x s. x \<in> set xs \<Longrightarrow> I s \<Longrightarrow> safe (f x s) I" "I s"
  shows "safe (rfold f xs s) I"
  using assms by (induction xs arbitrary: s) (auto intro: safe_step)

lemma safe_c_int [simp]: "safe (c_int n) (\<lambda>x. True)"
  by (simp add: c_int_def)

lemma safe_c_div [simp]: "safe (c_div a b) (\<lambda>x. True)"
  by (simp add: c_div_def)

section \<open>Well-typed heaps\<close>

definition operands :: "constr \<Rightarrow> vid set" where
  "operands x = (case c_type x of
     EditConstraintType \<Rightarrow> {u_output x}
   | StayConstraintType \<Rightarrow> {u_output x}
   | EqualityConstraintType \<Rightarrow> {b_v1 x, b_v2 x}
   | ScaleConstraintType \<Rightarrow> {b_v1 x, b_v2 x, s_scale x, s_offset x}
   | NoType \<Rightarrow> {})"

type_synonym layout = "cid \<Rightarrow> vid set option"

definition layout_of :: "deltablue \<Rightarrow> layout" where
  "layout_of h c = map_option operands (cons h c)"

text \<open>\<open>refs L c v\<close>: the constraint \<open>c\<close> is live and \<open>v\<close> is one of its operands.\<close>

definition refs :: "layout \<Rightarrow> cid \<Rightarrow> vid \<Rightarrow> bool" where
  "refs L c v \<longleftrightarrow> (\<exists>vs. L c = Some vs \<and> v \<in> vs)"

definition variable_typed :: "layout \<Rightarrow> vid \<Rightarrow> variable \<Rightarrow> bool" where
  "variable_typed L v x \<longleftrightarrow>
    (\<forall>c \<in> set (constraints x). refs L c v) \<and> (determinedBy x \<noteq> 0 \<longrightarrow> refs L (determinedBy x) v)"

definition strengths_ready :: "strengths \<Rightarrow> bool" where
  "strengths_ready g \<longleftrightarrow> absoluteWeakest g \<noteq> None \<and> required g \<noteq> None \<and>
    (\<forall>s \<in> {ABSOLUTE_STRONGEST g, REQUIRED g, STRONG_PREFERRED g, PREFERRED g, STRONG_DEFAULT g, DEFAULT g,
            WEAK_DEFAULT g, ABSOLUTE_WEAKEST g}. \<exists>x. Strength_of g s = Inr x)"

definition typed :: "vid set \<Rightarrow> layout \<Rightarrow> deltablue \<Rightarrow> bool" where
  "typed V L h \<longleftrightarrow> strengths_ready (strs h) \<and> dom (vars h) = V \<and> layout_of h = L \<and>
    V \<subseteq> {0<..<v_next h} \<and> dom L \<subseteq> {0<..<c_next h} \<and> 0 < v_next h \<and> 0 < c_next h \<and>
    (\<forall>v x. vars h v = Some x \<longrightarrow> variable_typed L v x) \<and>
    (\<forall>c y. cons h c = Some y \<longrightarrow> c_type y \<noteq> NoType \<and> operands y \<subseteq> V)"

definition db_wf :: "deltablue \<Rightarrow> bool" where
  "db_wf h \<longleftrightarrow> typed (dom (vars h)) (layout_of h) h"

lemma dom_layout: "dom (layout_of h) = dom (cons h)"
  by (auto simp: layout_of_def dom_def)

lemma typed_get_var:
  assumes "typed V L h" "v \<in> V"
  shows "\<exists>x. get_var v h = Inr x \<and> vars h v = Some x \<and> variable_typed L v x"
proof -
  from assms obtain x where x: "vars h v = Some x" by (auto simp: typed_def)
  moreover from assms have "v \<noteq> 0" by (auto simp: typed_def)
  moreover from assms x have "variable_typed L v x" by (simp add: typed_def)
  ultimately show ?thesis by (simp add: get_var_def)
qed

lemma typed_get_con:
  assumes "typed V L h" "c \<in> dom L"
  shows "\<exists>y. get_con c h = Inr y \<and> cons h c = Some y \<and> c_type y \<noteq> NoType \<and> operands y \<subseteq> V \<and> L c = Some (operands y)"
proof -
  from assms have L: "layout_of h = L" by (simp add: typed_def)
  with assms(2) obtain y where y: "cons h c = Some y" by (auto simp: layout_of_def dom_def)
  moreover from assms have "c \<noteq> 0" by (auto simp: typed_def)
  moreover from assms(1) y have "c_type y \<noteq> NoType \<and> operands y \<subseteq> V" by (simp add: typed_def)
  moreover from L y have "L c = Some (operands y)" by (auto simp: layout_of_def)
  ultimately show ?thesis by (simp add: get_con_def)
qed

lemma refs_dom: "refs L c v \<Longrightarrow> c \<in> dom L"
  by (auto simp: refs_def)

lemma refs_var:
  assumes "typed V L h" "refs L c v"
  shows "v \<in> V"
  using typed_get_con [OF assms(1) refs_dom [OF assms(2)]] assms(2) by (auto simp: refs_def)

lemma safe_get_var: "typed V L h \<Longrightarrow> v \<in> V \<Longrightarrow> safe (get_var v h) (variable_typed L v)"
  using typed_get_var by fastforce

lemma safe_get_con:
  "typed V L h \<Longrightarrow> c \<in> dom L \<Longrightarrow> safe (get_con c h) (\<lambda>y. c_type y \<noteq> NoType \<and> operands y \<subseteq> V \<and> L c = Some (operands y))"
  using typed_get_con by fastforce

text \<open>Updates that keep the typing.\<close>

lemma typed_set_vars:
  assumes "typed V L h" "vars h v = Some x" "variable_typed L v x'"
  shows "typed V L (h\<lparr>vars := (vars h)(v \<mapsto> x')\<rparr>)"
proof -
  have "variable_typed L w z" if "((vars h)(v \<mapsto> x')) w = Some z" for w z
    using that assms by (cases "w = v") (simp_all add: typed_def)
  moreover have "insert v V = V" using assms(1,2) by (auto simp: typed_def)
  ultimately show ?thesis using assms(1) by (simp add: typed_def layout_of_def fun_eq_iff)
qed

lemma safe_upd_var:
  assumes "typed V L h" "v \<in> V" "\<And>x. variable_typed L v x \<Longrightarrow> variable_typed L v (f x)"
  shows "safe (upd_var v f h) (typed V L)"
proof -
  obtain x where x: "get_var v h = Inr x" "vars h v = Some x" "variable_typed L v x"
    using typed_get_var [OF assms(1,2)] by blast
  with typed_set_vars [OF assms(1) x(2) assms(3) [OF x(3)]] show ?thesis
    by (simp add: upd_var_def)
qed

definition same_layout :: "constr \<Rightarrow> constr \<Rightarrow> bool" where
  "same_layout y y' \<longleftrightarrow> c_type y' = c_type y \<and> operands y' = operands y"

lemma typed_set_cons:
  assumes "typed V L h" "cons h c = Some y" "same_layout y y'"
  shows "typed V L (h\<lparr>cons := (cons h)(c \<mapsto> y')\<rparr>)"
proof -
  have "layout_of (h\<lparr>cons := (cons h)(c \<mapsto> y')\<rparr>) = layout_of h"
    using assms(2,3) by (simp add: layout_of_def fun_eq_iff same_layout_def)
  moreover have "c_type z \<noteq> NoType \<and> operands z \<subseteq> V" if "((cons h)(c \<mapsto> y')) d = Some z" for d z
    using that assms by (cases "d = c") (simp_all add: typed_def same_layout_def)
  ultimately show ?thesis using assms(1) by (simp add: typed_def)
qed

lemma safe_upd_con:
  assumes "typed V L h" "c \<in> dom L" "\<And>y. same_layout y (f y)"
  shows "safe (upd_con c f h) (typed V L)"
proof -
  obtain y where y: "get_con c h = Inr y" "cons h c = Some y"
    using typed_get_con [OF assms(1,2)] by blast
  with typed_set_cons [OF assms(1) y(2) assms(3)] show ?thesis
    by (simp add: upd_con_def)
qed

section \<open>The operations of variables and constraints\<close>

named_theorems safe_ops \<open>the operations keep the typing\<close>

lemma safe_read_var: "typed V L h \<Longrightarrow> v \<in> V \<Longrightarrow> safe (rbind (get_var v h) (\<lambda>x. Inr (f x))) (\<lambda>y. True)"
  using safe_get_var [of V L h v] by (auto intro: safe_mono)

lemma safe_getStay [safe_ops]: "typed V L h \<Longrightarrow> v \<in> V \<Longrightarrow> safe (Variable_getStay v h) (\<lambda>y. True)"
  unfolding Variable_getStay_def by (rule safe_read_var)

lemma safe_getValue [safe_ops]: "typed V L h \<Longrightarrow> v \<in> V \<Longrightarrow> safe (Variable_getValue v h) (\<lambda>y. True)"
  unfolding Variable_getValue_def by (rule safe_read_var)

lemma safe_getMark [safe_ops]: "typed V L h \<Longrightarrow> v \<in> V \<Longrightarrow> safe (Variable_getMark v h) (\<lambda>y. True)"
  unfolding Variable_getMark_def by (rule safe_read_var)

lemma safe_getWalkStrength [safe_ops]:
  "typed V L h \<Longrightarrow> v \<in> V \<Longrightarrow> safe (Variable_getWalkStrength v h) (\<lambda>y. True)"
  unfolding Variable_getWalkStrength_def by (rule safe_read_var)

lemma safe_getConstraints [safe_ops]:
  "typed V L h \<Longrightarrow> v \<in> V \<Longrightarrow> safe (Variable_getConstraints v h) (\<lambda>cs. \<forall>c \<in> set cs. refs L c v)"
  unfolding Variable_getConstraints_def using safe_get_var [of V L h v]
  by (auto simp: variable_typed_def intro: safe_mono)

lemma safe_getDeterminedBy [safe_ops]:
  "typed V L h \<Longrightarrow> v \<in> V \<Longrightarrow> safe (Variable_getDeterminedBy v h) (\<lambda>c. c \<noteq> 0 \<longrightarrow> refs L c v)"
  unfolding Variable_getDeterminedBy_def using safe_get_var [of V L h v]
  by (auto simp: variable_typed_def intro: safe_mono)

lemma safe_setStay [safe_ops]: "typed V L h \<Longrightarrow> v \<in> V \<Longrightarrow> safe (Variable_setStay v b h) (typed V L)"
  unfolding Variable_setStay_def by (rule safe_upd_var) (simp_all add: variable_typed_def)

lemma safe_setValue [safe_ops]: "typed V L h \<Longrightarrow> v \<in> V \<Longrightarrow> safe (Variable_setValue v a h) (typed V L)"
  unfolding Variable_setValue_def by (rule safe_upd_var) (simp_all add: variable_typed_def)

lemma safe_setMark [safe_ops]: "typed V L h \<Longrightarrow> v \<in> V \<Longrightarrow> safe (Variable_setMark v m h) (typed V L)"
  unfolding Variable_setMark_def by (rule safe_upd_var) (simp_all add: variable_typed_def)

lemma safe_setWalkStrength [safe_ops]:
  "typed V L h \<Longrightarrow> v \<in> V \<Longrightarrow> safe (Variable_setWalkStrength v s h) (typed V L)"
  unfolding Variable_setWalkStrength_def by (rule safe_upd_var) (simp_all add: variable_typed_def)

lemma safe_setDeterminedBy [safe_ops]:
  "typed V L h \<Longrightarrow> v \<in> V \<Longrightarrow> c \<noteq> 0 \<longrightarrow> refs L c v \<Longrightarrow> safe (Variable_setDeterminedBy v c h) (typed V L)"
  unfolding Variable_setDeterminedBy_def by (rule safe_upd_var) (simp_all add: variable_typed_def)

lemma safe_addConstraint [safe_ops]:
  "typed V L h \<Longrightarrow> refs L c v \<Longrightarrow> safe (Variable_addConstraint v c h) (typed V L)"
  unfolding Variable_addConstraint_def by (rule safe_upd_var) (auto simp: variable_typed_def dest: refs_var)

lemma safe_removeConstraint [safe_ops]:
  "typed V L h \<Longrightarrow> v \<in> V \<Longrightarrow> safe (Variable_removeConstraint v c h) (typed V L)"
  unfolding Variable_removeConstraint_def by (rule safe_upd_var) (simp_all add: variable_typed_def)

lemma same_layout_simps [simp]:
  "same_layout y (y\<lparr>u_satisfied := b\<rparr>)" "same_layout y (y\<lparr>b_direction := d\<rparr>)"
  by (cases "c_type y"; simp add: same_layout_def operands_def)+

lemma safe_set_satisfied [safe_ops]:
  "typed V L h \<Longrightarrow> c \<in> dom L \<Longrightarrow> safe (upd_con c (\<lambda>y. y\<lparr>u_satisfied := b\<rparr>) h) (typed V L)"
  by (rule safe_upd_con) simp_all

lemma safe_set_direction [safe_ops]:
  "typed V L h \<Longrightarrow> c \<in> dom L \<Longrightarrow> safe (upd_con c (\<lambda>y. y\<lparr>b_direction := d\<rparr>) h) (typed V L)"
  by (rule safe_upd_con) simp_all

text \<open>\<open>con_at V L c x\<close>: what an operation knows of the constraint \<open>x\<close> that it has read at \<open>c\<close>.\<close>

definition con_at :: "vid set \<Rightarrow> layout \<Rightarrow> cid \<Rightarrow> constr \<Rightarrow> bool" where
  "con_at V L c x \<longleftrightarrow> c_type x \<noteq> NoType \<and> operands x \<subseteq> V \<and> L c = Some (operands x)"

lemma safe_con [safe_ops]: "typed V L h \<Longrightarrow> c \<in> dom L \<Longrightarrow> safe (get_con c h) (con_at V L c)"
  by (rule safe_mono [OF safe_get_con]) (simp_all add: con_at_def)

lemma con_at_dom: "con_at V L c x \<Longrightarrow> c \<in> dom L"
  by (auto simp: con_at_def)

lemma con_at_operand: "con_at V L c x \<Longrightarrow> v \<in> operands x \<Longrightarrow> v \<in> V \<and> refs L c v"
  by (auto simp: con_at_def refs_def)

lemma unary_operands: "c_type x = EditConstraintType \<or> c_type x = StayConstraintType \<Longrightarrow> operands x = {u_output x}"
  by (auto simp: operands_def)

lemma equality_operands: "c_type x = EqualityConstraintType \<Longrightarrow> operands x = {b_v1 x, b_v2 x}"
  by (simp add: operands_def)

lemma scale_operands:
  "c_type x = ScaleConstraintType \<Longrightarrow> operands x = {b_v1 x, b_v2 x, s_scale x, s_offset x}"
  by (simp add: operands_def)

lemmas operand_simps = unary_operands equality_operands scale_operands

lemma safe_isInput [safe_ops]: "typed V L h \<Longrightarrow> c \<in> dom L \<Longrightarrow> safe (Constraint_isInput c h) (\<lambda>b. True)"
  unfolding Constraint_isInput_def
  by (rule safe_step, rule safe_ops) (auto split: ConstraintType.split)

lemma safe_isSatisfied [safe_ops]: "typed V L h \<Longrightarrow> c \<in> dom L \<Longrightarrow> safe (Constraint_isSatisfied c h) (\<lambda>b. True)"
  unfolding Constraint_isSatisfied_def
  by (rule safe_step, rule safe_ops) (auto split: ConstraintType.split)

lemma safe_markUnsatisfied [safe_ops]:
  "typed V L h \<Longrightarrow> c \<in> dom L \<Longrightarrow> safe (Constraint_markUnsatisfied c h) (typed V L)"
  unfolding Constraint_markUnsatisfied_def
  by (rule safe_step, rule safe_ops) (auto split: ConstraintType.split intro: safe_ops)

lemma safe_getOutput [safe_ops]:
  "typed V L h \<Longrightarrow> c \<in> dom L \<Longrightarrow> safe (Constraint_getOutput c h) (\<lambda>v. v \<in> V \<and> refs L c v)"
  unfolding Constraint_getOutput_def
  by (rule safe_step, rule safe_ops)
     (auto split: ConstraintType.split simp: con_at_operand operand_simps)

lemma safe_remove_unless_null [safe_ops]:
  "typed V L h \<Longrightarrow> v \<in> V \<Longrightarrow> safe (remove_unless_null v c h) (typed V L)"
  by (simp add: remove_unless_null_def safe_removeConstraint)

lemma safe_addToGraph [safe_ops]:
  "typed V L h \<Longrightarrow> c \<in> dom L \<Longrightarrow> safe (Constraint_addToGraph c h) (typed V L)"
  unfolding Constraint_addToGraph_def
  apply (rule safe_step, rule safe_ops, assumption, assumption)
  apply (auto split: ConstraintType.split simp: operand_simps UnaryConstraint_addToGraph_def BinaryConstraint_addToGraph_def ScaleConstraint_addToGraph_def
      dest: con_at_operand intro!: safe_step safe_ops)
  done

lemma safe_removeFromGraph [safe_ops]:
  "typed V L h \<Longrightarrow> c \<in> dom L \<Longrightarrow> safe (Constraint_removeFromGraph c h) (typed V L)"
  unfolding Constraint_removeFromGraph_def
  by (rule safe_step, rule safe_ops)
     (auto split: ConstraintType.split simp: operand_simps UnaryConstraint_removeFromGraph_def
        BinaryConstraint_removeFromGraph_def ScaleConstraint_removeFromGraph_def
      dest: con_at_operand intro!: safe_step safe_ops)

lemma safe_chooseMethod [safe_ops]:
  "typed V L h \<Longrightarrow> c \<in> dom L \<Longrightarrow> safe (Constraint_chooseMethod c m h) (typed V L)"
  unfolding Constraint_chooseMethod_def
  by (rule safe_step, rule safe_ops)
     (auto split: ConstraintType.split simp: operand_simps UnaryConstraint_chooseMethod_def
        BinaryConstraint_chooseMethod_def Let_def
      dest: con_at_operand intro!: safe_step safe_ops)

lemma safe_execute [safe_ops]:
  "typed V L h \<Longrightarrow> c \<in> dom L \<Longrightarrow> safe (Constraint_execute c h) (typed V L)"
  unfolding Constraint_execute_def
  by (rule safe_step, rule safe_ops)
     (auto split: ConstraintType.split simp: operand_simps EqualityConstraint_execute_def
        ScaleConstraint_execute_def
      dest: con_at_operand intro!: safe_any safe_step [OF safe_getValue] safe_ops)

lemma safe_inputsDo:
  assumes "typed V L h" "c \<in> dom L" "\<And>v h. typed V L h \<Longrightarrow> v \<in> V \<Longrightarrow> safe (f v h) (typed V L)"
  shows "safe (Constraint_inputsDo c f h) (typed V L)"
  unfolding Constraint_inputsDo_def using assms(1,2)
  by (rule_tac safe_step, rule_tac safe_con)
     (auto split: ConstraintType.split simp: operand_simps binary_input_def
      dest: con_at_operand intro!: safe_step assms(3))

lemma safe_inputsHasOne:
  assumes "typed V L h" "c \<in> dom L" "\<And>v. v \<in> V \<Longrightarrow> safe (f v h) (\<lambda>b. True)"
  shows "safe (Constraint_inputsHasOne c f h) (\<lambda>b. True)"
  unfolding Constraint_inputsHasOne_def using assms(1,2)
  by (rule_tac safe_step, rule_tac safe_con)
     (auto split: ConstraintType.split simp: operand_simps binary_input_def
      dest: con_at_operand intro!: assms(3))

lemma safe_satisfy_iter: "typed V L h \<Longrightarrow> v \<in> V \<Longrightarrow> safe (AbstractConstraint_satisfy_iter m v h) (typed V L)"
  unfolding AbstractConstraint_satisfy_iter_def by (rule safe_ops)

lemma safe_inputsKnown [safe_ops]:
  "typed V L h \<Longrightarrow> c \<in> dom L \<Longrightarrow> safe (AbstractConstraint_inputsKnown c m h) (\<lambda>b. True)"
  unfolding AbstractConstraint_inputsKnown_def
  by (auto simp: AbstractConstraint_inputsKnown_iter_def intro!: safe_inputsHasOne safe_any safe_getStay
      safe_getMark safe_mono [OF safe_getDeterminedBy])

lemma safe_recalculate [safe_ops]:
  "typed V L h \<Longrightarrow> c \<in> dom L \<Longrightarrow> safe (Constraint_recalculate c h) (typed V L)"
  unfolding Constraint_recalculate_def
  by (rule safe_step, rule safe_ops)
     (auto split: ConstraintType.split simp: operand_simps UnaryConstraint_recalculate_def
        BinaryConstraint_recalculate_def ScaleConstraint_recalculate_def
      dest: con_at_operand con_at_dom intro!: safe_step safe_ops)

section \<open>The planner\<close>

lemma safe_newMark: "typed V L h \<Longrightarrow> safe (Planner_newMark h) (\<lambda>(m, h'). typed V L h')"
  unfolding Planner_newMark_def
  by (rule safe_step [where P = "\<lambda>x. True"]) (auto simp: typed_def layout_of_def)

lemma safe_constraintsConsuming:
  assumes h: "typed V L h" and v: "v \<in> V"
    and I: "I t" "\<And>c t h. typed V L h \<Longrightarrow> I t \<Longrightarrow> refs L c v \<Longrightarrow> safe (f c (t, h)) (\<lambda>(t, h). typed V L h \<and> I t)"
  shows "safe (Planner_constraintsConsuming v f (t, h)) (\<lambda>(t, h). typed V L h \<and> I t)"
proof -
  have step: "safe (consuming_step d f c s) (\<lambda>(t, h). typed V L h \<and> I t)"
    if c: "refs L c v" and s: "(\<lambda>(t, h). typed V L h \<and> I t) s" for d c s
    using s refs_dom [OF c]
    by (auto simp: consuming_step_def intro!: safe_any safe_isSatisfied I(2) [OF _ _ c])
  show ?thesis
    unfolding Planner_constraintsConsuming_def prod.case
  proof (rule safe_step [OF safe_getDeterminedBy [OF h v]], rule safe_step [OF safe_getConstraints [OF h v]])
    fix d cs
    assume "\<forall>c \<in> set cs. refs L c v"
    then show "safe (rfold (consuming_step d f) cs (t, h)) (\<lambda>(t, h). typed V L h \<and> I t)"
      using h I(1) by (intro safe_rfold step) auto
  qed
qed

lemma safe_addConstraintsConsumingTo [safe_ops]:
  assumes "typed V L h" "v \<in> V" "set coll \<subseteq> dom L"
  shows "safe (Planner_addConstraintsConsumingTo v coll h) (\<lambda>coll. set coll \<subseteq> dom L)"
proof -
  have "safe (Planner_constraintsConsuming v consuming_append (coll, h)) (\<lambda>(t, h). typed V L h \<and> set t \<subseteq> dom L)"
    using assms by (intro safe_constraintsConsuming) (auto simp: consuming_append_def dest: refs_dom)
  then show ?thesis
    unfolding Planner_addConstraintsConsumingTo_def by (rule safe_step) auto
qed

lemma safe_removePropagate_loop:
  "typed V L h \<Longrightarrow> set todo \<subseteq> V \<Longrightarrow> set un \<subseteq> dom L \<Longrightarrow>
    safe (removePropagate_loop k todo un h) (\<lambda>(un, h). typed V L h \<and> set un \<subseteq> dom L)"
proof (induction k arbitrary: todo un h)
  case 0
  then show ?case by (cases todo) auto
next
  case (Suc k todo' un h)
  show ?case
  proof (cases todo')
    case Nil
    with Suc.prems show ?thesis by simp
  next
    case (Cons v todo)
    note prems = Suc.prems [unfolded Cons]
  have v: "v \<in> V" using prems(2) by simp
  show ?thesis
    unfolding Cons removePropagate_loop.simps
  proof (rule safe_step [OF safe_getConstraints [OF prems(1) v]])
    fix cs
    assume cs: "\<forall>c \<in> set cs. refs L c v"
    have un: "safe (rfold (unsatisfied_step h) cs un) (\<lambda>un. set un \<subseteq> dom L)"
      using cs prems by (intro safe_rfold) (auto simp: unsatisfied_step_def dest: refs_dom intro!: safe_mono [OF safe_isSatisfied])
    have it: "safe (Planner_removePropagateFrom_iter1 c (t, h)) (\<lambda>(t, h). typed V L h \<and> set t \<subseteq> V)"
      if "typed V L h" "set t \<subseteq> V" "refs L c v" for c t h
      using that refs_dom [OF that(3)]
      by (auto simp: Planner_removePropagateFrom_iter1_def intro!: safe_step [OF safe_recalculate] safe_mono [OF safe_getOutput])
    have t: "set todo \<subseteq> V" using prems(2) by simp
    have todo: "safe (Planner_constraintsConsuming v Planner_removePropagateFrom_iter1 (todo, h))
        (\<lambda>(t, h). typed V L h \<and> set t \<subseteq> V)"
      by (rule safe_constraintsConsuming [where I = "\<lambda>t. set t \<subseteq> V"]) (fact prems(1) v t it)+
    show "safe (rbind (rfold (unsatisfied_step h) cs un) (\<lambda>unsatisfied.
        rbind (Planner_constraintsConsuming v Planner_removePropagateFrom_iter1 (todo, h)) (\<lambda>(todo, h).
          removePropagate_loop k todo unsatisfied h))) (\<lambda>(un, h). typed V L h \<and> set un \<subseteq> dom L)"
      by (rule safe_step [OF un], rule safe_step [OF todo]) (auto intro: Suc.IH)
  qed
  qed
qed

text \<open>\<open>Vector_sort\<close> reads no cell outside the ones that hold the list, whatever the comparison.\<close>

lemma safe_sort_down:
  "(\<And>i. k \<le> i \<Longrightarrow> i \<le> l \<Longrightarrow> \<exists>x. cell me i = Inr x) \<Longrightarrow> safe (sort_down me c d k l) (\<lambda>r. True)"
proof (induction me c d k l rule: sort_down.induct)
  case (1 me c d k l)
  show ?case
  proof (cases "k \<le> l")
    case True
    with "1.prems" [of l] obtain x where "cell me l = Inr x" by auto
    with True "1.IH" "1.prems" show ?thesis by (subst sort_down.simps) simp
  qed (subst sort_down.simps, simp)
qed

lemma safe_sort_up:
  "(\<And>i. k \<le> i \<Longrightarrow> i \<le> l \<Longrightarrow> \<exists>x. cell me i = Inr x) \<Longrightarrow> safe (sort_up me c d k l) (\<lambda>r. True)"
proof (induction me c d k l rule: sort_up.induct)
  case (1 me c d k l)
  show ?case
  proof (cases "k \<le> l")
    case True
    with "1.prems" [of k] obtain x where "cell me k = Inr x" by auto
    with True "1.IH" "1.prems" show ?thesis by (subst sort_up.simps) simp
  qed (subst sort_up.simps, simp)
qed

lemma safe_sort_partition:
  assumes "\<And>i. k \<le> i \<Longrightarrow> i \<le> l \<Longrightarrow> \<exists>x. cell me i = Inr x"
  shows "safe (sort_partition me c d k l) (\<lambda>(k', l'). k < k' \<and> l' \<le> l)"
proof -
  have "safe (sort_partition me c d k l) (\<lambda>r. True)"
  proof (subst sort_partition.simps, cases "sort_down me c d k l")
    case (Inl e)
    with safe_sort_down [of k l me c d] assms
    show "safe (rbind (sort_down me c d k l) (\<lambda>l'. rbind (sort_up me c d (k + 1) l') (\<lambda>k'.
        if k' > l' then Inr (k', l') else rbind (Vector_swap me k' l') (\<lambda>u. sort_partition me c d k' l')))) (\<lambda>r. True)"
      by simp
  next
    case (Inr l')
    then have "l' \<le> l" by (rule sort_down_le)
    with assms have "safe (sort_up me c d (k + 1) l') (\<lambda>r. True)" by (intro safe_sort_up) simp
    with Inr show "safe (rbind (sort_down me c d k l) (\<lambda>l'. rbind (sort_up me c d (k + 1) l') (\<lambda>k'.
        if k' > l' then Inr (k', l') else rbind (Vector_swap me k' l') (\<lambda>u. sort_partition me c d k' l')))) (\<lambda>r. True)"
      by (auto simp: Vector_swap_def intro!: safe_any)
  qed
  then show ?thesis
    by (cases "sort_partition me c d k l") (auto dest: sort_partition_bounds)
qed

lemma safe_vsort:
  "(\<And>m. i \<le> m \<Longrightarrow> m \<le> j \<Longrightarrow> \<exists>x. cell me m = Inr x) \<Longrightarrow> safe (vsort me c i j) (\<lambda>r. True)"
proof (induction "nat (j + 1 - i)" arbitrary: i j rule: less_induct)
  case less
  show ?case
  proof (cases "j + 1 - i \<le> 1")
    case False
    from False less.prems [of i] less.prems [of j] less.prems [of "(i + j) div 2"]
    obtain di dj dij where d: "cell me i = Inr di" "cell me j = Inr dj" "cell me ((i + j) div 2) = Inr dij"
      by fastforce
    have part: "safe (rbind (sort_partition me c x i (j - 1)) (\<lambda>(k, l). rbind (vsort me c i l) (\<lambda>u. vsort me c k j))) (\<lambda>r. True)"
      for x
    proof (rule safe_step [OF safe_sort_partition])
      show "\<exists>y. cell me m = Inr y" if "i \<le> m" "m \<le> j - 1" for m using that by (intro less.prems) simp_all
    next
      fix kl
      assume "(\<lambda>(k, l). i < k \<and> l \<le> j - 1) kl"
      then obtain k l where kl: "kl = (k, l)" "i < k" "l \<le> j - 1" by auto
      have "safe (vsort me c i l) (\<lambda>r. True)" "safe (vsort me c k j) (\<lambda>r. True)"
        using kl False less.prems by (auto intro!: less.hyps)
      then show "safe (case kl of (k, l) \<Rightarrow> rbind (vsort me c i l) (\<lambda>u. vsort me c k j)) (\<lambda>r. True)"
        by (simp add: kl safe_any)
    qed
    have swap: "Vector_swap me a b = Inl AssertFailed" for a b by (simp add: Vector_swap_def)
    have int: "c_int (i + j) = Inr (i + j) \<or> c_int (i + j) = Inl IntOverflow" by (simp add: c_int_def)
    from int part show ?thesis
      by (subst vsort.simps) (auto simp: d swap Let_def)
  qed (subst vsort.simps, simp)
qed

lemma safe_Vector_sort: "safe (Vector_sort (list_vector xs) c) (\<lambda>v. True)"
proof -
  have "\<exists>x. cell (list_vector xs) m = Inr x" if "0 \<le> m" "m \<le> int (length xs) - 1" for m
    using that by (simp add: cell_def list_vector_def nth_map [of "nat m"])
  then have "safe (vsort (list_vector xs) c 0 (int (length xs) - 1)) (\<lambda>r. True)"
    by (rule safe_vsort)
  then show ?thesis
    by (simp add: Vector_sort_def list_vector_def safe_any)
qed

lemma safe_absoluteWeakest: "typed V L h \<Longrightarrow> safe (Strength_absoluteWeakest (strs h)) (\<lambda>s. True)"
  by (auto simp: typed_def strengths_ready_def Strength_absoluteWeakest_def deref_def)

lemma safe_required: "typed V L h \<Longrightarrow> safe (Strength_required (strs h)) (\<lambda>s. True)"
  by (auto simp: typed_def strengths_ready_def Strength_required_def deref_def)

lemma safe_removePropagateFrom:
  assumes h: "typed V L h" and v: "v \<in> V"
  shows "safe (Planner_removePropagateFrom k v h) (\<lambda>(un, h). typed V L h \<and> set un \<subseteq> dom L)"
proof -
  have loop: "safe (rbind (removePropagate_loop k [v] [] h) (\<lambda>(unsatisfied, h).
      rbind (Vector_sort (list_vector unsatisfied) (Planner_removePropagateFrom_iter2 h)) (\<lambda>u. Inr (unsatisfied, h))))
      (\<lambda>(un, h). typed V L h \<and> set un \<subseteq> dom L)" if "typed V L h" for h
    using v that by (auto intro!: safe_step [OF safe_removePropagate_loop] safe_mono [OF safe_Vector_sort])
  show ?thesis
    unfolding Planner_removePropagateFrom_def using h v
    by (auto intro!: safe_step [OF safe_setDeterminedBy] safe_any [OF safe_absoluteWeakest]
        safe_step [OF safe_setWalkStrength] safe_step [OF safe_setStay] loop)
qed

section \<open>Adding and removing\<close>

text \<open>What \<open>Planner_incrementalRemove\<close> promises to the functions that it is passed to.\<close>

locale remover =
  fixes remove :: "cid \<Rightarrow> deltablue \<Rightarrow> deltablue res"
  assumes safe_remove: "typed V L h \<Longrightarrow> c \<in> dom L \<Longrightarrow> safe (remove c h) (typed V L)"
begin

lemma safe_addPropagate_loop:
  "typed V L h \<Longrightarrow> c \<in> dom L \<Longrightarrow> set todo \<subseteq> dom L \<Longrightarrow>
    safe (addPropagate_loop remove k c m todo h) (\<lambda>(b, h). typed V L h)"
proof (induction k arbitrary: todo h)
  case 0
  then show ?case by (cases todo) auto
next
  case (Suc k)
  show ?case
  proof (cases todo)
    case (Cons d ds)
    with Suc.prems have d: "d \<in> dom L" "set ds \<subseteq> dom L" by auto
    with Suc.prems(1,2) show ?thesis
      by (auto simp: Cons simp del: dom_def intro!: safe_step [OF safe_getOutput] safe_any [OF safe_getMark] safe_mono [OF safe_remove]
          safe_step [OF safe_recalculate] safe_step [OF safe_addConstraintsConsumingTo] Suc.IH)
  qed (use Suc.prems in simp)
qed

lemma safe_satisfy_with:
  assumes h: "typed V L h" and c: "c \<in> dom L"
  shows "safe (satisfy_with remove k c m h) (\<lambda>(overridden, h). typed V L h \<and> (overridden \<noteq> 0 \<longrightarrow> overridden \<in> dom L))"
proof -
  have c0: "c \<noteq> 0" using h c by (auto simp: typed_def)
  have rest: "safe (rbind (Constraint_getOutput c h) (\<lambda>out.
        rbind (Variable_getDeterminedBy out h) (\<lambda>overridden.
        rbind (if overridden \<noteq> 0 then Constraint_markUnsatisfied overridden h else Inr h) (\<lambda>h.
        rbind (Variable_setDeterminedBy out c h) (\<lambda>h.
        rbind (addPropagate_loop remove k c m [c] h) (\<lambda>(b, h).
          if \<not> b then Inl AssertFailed
          else rbind (Variable_setMark out m h) (\<lambda>h. Inr (overridden, h))))))))
      (\<lambda>(overridden, h). typed V L h \<and> (overridden \<noteq> 0 \<longrightarrow> overridden \<in> dom L))" if h: "typed V L h" for h
  proof (rule safe_step [OF safe_getOutput [OF h c]], elim conjE)
    fix out
    assume out: "out \<in> V" "refs L c out"
    show "safe (rbind (Variable_getDeterminedBy out h) (\<lambda>overridden.
        rbind (if overridden \<noteq> 0 then Constraint_markUnsatisfied overridden h else Inr h) (\<lambda>h.
        rbind (Variable_setDeterminedBy out c h) (\<lambda>h.
        rbind (addPropagate_loop remove k c m [c] h) (\<lambda>(b, h).
          if \<not> b then Inl AssertFailed
          else rbind (Variable_setMark out m h) (\<lambda>h. Inr (overridden, h)))))))
      (\<lambda>(overridden, h). typed V L h \<and> (overridden \<noteq> 0 \<longrightarrow> overridden \<in> dom L))"
    proof (rule safe_step [OF safe_getDeterminedBy [OF h out(1)]])
      fix o'
      assume o': "o' \<noteq> 0 \<longrightarrow> refs L o' out"
      have "safe (if o' \<noteq> 0 then Constraint_markUnsatisfied o' h else Inr h) (typed V L)"
        using o' h by (auto intro: safe_markUnsatisfied dest: refs_dom)
      then show "safe (rbind (if o' \<noteq> 0 then Constraint_markUnsatisfied o' h else Inr h) (\<lambda>h.
        rbind (Variable_setDeterminedBy out c h) (\<lambda>h.
        rbind (addPropagate_loop remove k c m [c] h) (\<lambda>(b, h).
          if \<not> b then Inl AssertFailed
          else rbind (Variable_setMark out m h) (\<lambda>h. Inr (o', h))))))
      (\<lambda>(overridden, h). typed V L h \<and> (overridden \<noteq> 0 \<longrightarrow> overridden \<in> dom L))"
        using out o' c
        by (auto intro!: safe_step safe_setDeterminedBy safe_addPropagate_loop safe_mono [OF safe_setMark] dest: refs_dom)
    qed
  qed
  show ?thesis
    unfolding satisfy_with_def using h c
    by (auto intro!: safe_step [OF safe_chooseMethod] safe_any [OF safe_isSatisfied]
        safe_step [OF safe_inputsDo] safe_satisfy_iter rest safe_any [OF safe_required] safe_step [OF safe_con]
        simp del: neq0_conv)
qed

lemma safe_incrementalAdd_loop:
  "typed V L h \<Longrightarrow> c \<noteq> 0 \<longrightarrow> c \<in> dom L \<Longrightarrow> safe (incrementalAdd_loop remove k i c m h) (typed V L)"
proof (induction i arbitrary: c h)
  case (Suc i)
  then show ?case
    by (subst incrementalAdd_loop.simps) (auto intro!: safe_step [OF safe_satisfy_with])
qed (auto simp: incrementalAdd_loop.simps)

lemma safe_incrementalAdd_with:
  "typed V L h \<Longrightarrow> c \<in> dom L \<Longrightarrow> safe (incrementalAdd_with remove k c h) (typed V L)"
  unfolding incrementalAdd_with_def
  by (auto intro!: safe_step [OF safe_newMark] safe_step [OF safe_satisfy_with] safe_incrementalAdd_loop)

end

lemma safe_incrementalRemove:
  "typed V L h \<Longrightarrow> c \<in> dom L \<Longrightarrow> safe (Planner_incrementalRemove k c h) (typed V L)"
proof (induction k arbitrary: c h V L)
  case (Suc k)
  note IH = remover.safe_incrementalAdd_with [OF remover.intro [OF Suc.IH]]
  have "safe (rfold (incrementalAdd_with (Planner_incrementalRemove k) k) un h) (typed V L)"
    if "typed V L h" "set un \<subseteq> dom L" for un h
    using that by (intro safe_rfold IH) auto
  with Suc.prems show ?case
    by (auto intro!: safe_step [OF safe_getOutput] safe_step [OF safe_markUnsatisfied]
        safe_step [OF safe_removeFromGraph] safe_step [OF safe_removePropagateFrom])
qed simp

interpretation planner: remover "Planner_incrementalRemove k" for k
  by (rule remover.intro) (rule safe_incrementalRemove)

lemma safe_incrementalAdd: "typed V L h \<Longrightarrow> c \<in> dom L \<Longrightarrow> safe (Planner_incrementalAdd k c h) (typed V L)"
  unfolding Planner_incrementalAdd_def by (rule planner.safe_incrementalAdd_with)

lemma safe_AddConstraint:
  "typed V L h \<Longrightarrow> c \<in> dom L \<Longrightarrow> safe (AbstractConstraint_addConstraint k c h) (typed V L)"
  unfolding AbstractConstraint_addConstraint_def
  by (auto intro!: safe_step [OF safe_addToGraph] safe_incrementalAdd)

text \<open>\<open>linked S c h\<close>: only variables of \<open>S\<close> refer to the constraint \<open>c\<close>.\<close>

definition linked :: "vid set \<Rightarrow> cid \<Rightarrow> deltablue \<Rightarrow> bool" where
  "linked S c h \<longleftrightarrow> (\<forall>v x. vars h v = Some x \<longrightarrow> c \<in> set (constraints x) \<or> determinedBy x = c \<longrightarrow> v \<in> S)"

lemma linked_removeConstraint:
  assumes "typed V L h" "v \<in> V" "linked S c h" "c \<noteq> 0"
  shows "safe (Variable_removeConstraint v c h) (\<lambda>h'. typed V L h' \<and> linked (S - {v}) c h')"
proof -
  obtain x where x: "get_var v h = Inr x" "vars h v = Some x"
    using typed_get_var [OF assms(1,2)] by blast
  let ?x = "x\<lparr>constraints := filter (\<lambda>d. d \<noteq> c) (constraints x),
             determinedBy := if determinedBy x = c then 0 else determinedBy x\<rparr>"
  have "linked (S - {v}) c (h\<lparr>vars := (vars h)(v \<mapsto> ?x)\<rparr>)"
    using assms(3,4) by (auto simp: linked_def)
  moreover have "typed V L (h\<lparr>vars := (vars h)(v \<mapsto> ?x)\<rparr>)"
    using safe_removeConstraint [OF assms(1,2), of c] x by (simp add: Variable_removeConstraint_def upd_var_def)
  ultimately show ?thesis using x by (simp add: Variable_removeConstraint_def upd_var_def)
qed

lemma linked_removes:
  assumes "typed V L h \<and> linked S c h" "set vs \<subseteq> V" "c \<noteq> 0" "S \<subseteq> set vs"
  shows "safe (rfold (\<lambda>v. remove_unless_null v c) vs h) (\<lambda>h'. typed V L h' \<and> linked {} c h')"
  using assms
proof (induction vs arbitrary: h S)
  case (Cons v vs)
  then have "v \<in> V" by simp
  then have "v \<noteq> 0" using Cons.prems(1) by (auto simp: typed_def)
  with linked_removeConstraint [of V L h v S c] Cons.prems
  have "safe (remove_unless_null v c h) (\<lambda>h'. typed V L h' \<and> linked (S - {v}) c h')"
    by (simp add: remove_unless_null_def)
  moreover have "safe (rfold (\<lambda>v. remove_unless_null v c) vs h') (\<lambda>h'. typed V L h' \<and> linked {} c h')"
    if "typed V L h' \<and> linked (S - {v}) c h'" for h'
    using that Cons.prems by (intro Cons.IH) auto
  ultimately show ?case by (auto intro: safe_step)
qed simp

lemma linked_upd_con:
  assumes "typed V L h \<and> linked {} c h" "c \<in> dom L" "\<And>y. same_layout y (f y)"
  shows "safe (upd_con c f h) (\<lambda>h'. typed V L h' \<and> linked {} c h')"
proof -
  obtain y where "get_con c h = Inr y" using typed_get_con assms(1,2) by blast
  with safe_upd_con [of V L h c f] assms show ?thesis by (simp add: upd_con_def linked_def)
qed

lemma linked_removeFromGraph:
  assumes h: "typed V L h" and c: "c \<in> dom L"
  shows "safe (Constraint_removeFromGraph c h) (\<lambda>h'. typed V L h' \<and> linked {} c h')"
proof -
  obtain y where y: "get_con c h = Inr y" "c_type y \<noteq> NoType" "operands y \<subseteq> V" "L c = Some (operands y)"
    using typed_get_con [OF h c] by blast
  have c0: "c \<noteq> 0" using h c by (auto simp: typed_def)
  have "linked (operands y) c h"
    unfolding linked_def
  proof (intro allI impI)
    fix v x
    assume x: "vars h v = Some x" "c \<in> set (constraints x) \<or> determinedBy x = c"
    with h have "variable_typed L v x" by (simp add: typed_def)
    with x(2) c0 have "refs L c v" by (auto simp: variable_typed_def)
    with y(4) show "v \<in> operands y" by (simp add: refs_def)
  qed
  with h have *: "typed V L h \<and> linked (operands y) c h" ..
  have "safe (rbind (rfold (\<lambda>v. remove_unless_null v c) vs h) (upd_con c f)) (\<lambda>h'. typed V L h' \<and> linked {} c h')"
    if "operands y = set vs" "\<And>y. same_layout y (f y)" for vs f
    using that y(3) c by (intro safe_step [OF linked_removes [OF * _ c0]] linked_upd_con) simp_all
  from this [of "[u_output y]" "\<lambda>x. x\<lparr>u_satisfied := False\<rparr>"] this [of "[b_v1 y, b_v2 y]" "\<lambda>x. x\<lparr>b_direction := 0\<rparr>"]
    this [of "[b_v1 y, b_v2 y, s_scale y, s_offset y]" "\<lambda>x. x\<lparr>b_direction := 0\<rparr>"]
  show ?thesis
    unfolding Constraint_removeFromGraph_def y(1) rbind.simps using y(2)
    by (cases "c_type y")
       (simp_all add: UnaryConstraint_removeFromGraph_def BinaryConstraint_removeFromGraph_def
         ScaleConstraint_removeFromGraph_def operand_simps rbind_assoc)
qed

section \<open>Creation and disposal\<close>

text \<open>What a constraint looks like when its \<open>init\<close> function adds it.\<close>

definition unary_con :: "ConstraintType \<Rightarrow> strength \<Rightarrow> vid \<Rightarrow> constr" where
  "unary_con ty s v = \<lparr>c_type = ty, c_strength = s, u_output = v, u_satisfied = False,
     b_v1 = 0, b_v2 = 0, b_direction = 0, s_scale = 0, s_offset = 0\<rparr>"

definition binary_con :: "ConstraintType \<Rightarrow> strength \<Rightarrow> vid \<Rightarrow> vid \<Rightarrow> vid \<Rightarrow> vid \<Rightarrow> constr" where
  "binary_con ty s v1 v2 sc off = \<lparr>c_type = ty, c_strength = s, u_output = 0, u_satisfied = False,
     b_v1 = v1, b_v2 = v2, b_direction = 0, s_scale = sc, s_offset = off\<rparr>"

definition new_con :: "constr \<Rightarrow> deltablue \<Rightarrow> deltablue" where
  "new_con y h = h\<lparr>c_next := Suc (c_next h), cons := (cons h)(c_next h \<mapsto> y)\<rparr>"

lemma Edit_create_eq:
  "c_next h \<noteq> 0 \<Longrightarrow> Strength_of (strs h) s = Inr t \<Longrightarrow> EditConstraint_create k v s h =
    rbind (AbstractConstraint_addConstraint k (c_next h) (new_con (unary_con EditConstraintType t v) h))
      (\<lambda>h'. Inr (c_next h, h'))"
  by (simp add: EditConstraint_create_def Constraint_create_def UnaryConstraint_init_def new_con_def unary_con_def
      AbstractConstraint_init_def upd_con_def get_con_def rbind_assoc)

lemma Stay_create_eq:
  "c_next h \<noteq> 0 \<Longrightarrow> Strength_of (strs h) s = Inr t \<Longrightarrow> StayConstraint_create k v s h =
    rbind (AbstractConstraint_addConstraint k (c_next h) (new_con (unary_con StayConstraintType t v) h))
      (\<lambda>h'. Inr (c_next h, h'))"
  by (simp add: StayConstraint_create_def Constraint_create_def UnaryConstraint_init_def new_con_def unary_con_def
      AbstractConstraint_init_def upd_con_def get_con_def rbind_assoc)

lemma Equality_create_eq:
  "c_next h \<noteq> 0 \<Longrightarrow> Strength_of (strs h) s = Inr t \<Longrightarrow> EqualityConstraint_create k v1 v2 s h =
    rbind (AbstractConstraint_addConstraint k (c_next h)
        (new_con (binary_con EqualityConstraintType t v1 v2 0 0) h))
      (\<lambda>h'. Inr (c_next h, h'))"
  by (simp add: EqualityConstraint_create_def Constraint_create_def BinaryConstraint_init_def new_con_def binary_con_def
      AbstractConstraint_init_def upd_con_def get_con_def rbind_assoc)

lemma Scale_create_eq:
  "c_next h \<noteq> 0 \<Longrightarrow> Strength_of (strs h) s = Inr t \<Longrightarrow> ScaleConstraint_create k v1 sc off v2 s h =
    rbind (AbstractConstraint_addConstraint k (c_next h)
        (new_con (binary_con ScaleConstraintType t v1 v2 sc off) h))
      (\<lambda>h'. Inr (c_next h, h'))"
  by (simp add: ScaleConstraint_create_def Constraint_create_def BinaryConstraint_init_def new_con_def binary_con_def
      AbstractConstraint_init_def upd_con_def get_con_def rbind_assoc)

lemma typed_new_con:
  assumes h: "typed V L h" and y: "c_type y \<noteq> NoType" "operands y \<subseteq> V"
  shows "typed V (L(c_next h \<mapsto> operands y)) (new_con y h)"
proof -
  have fresh: "refs L c v \<Longrightarrow> refs (L(c_next h \<mapsto> operands y)) c v" for c v
    using h by (auto simp: refs_def typed_def)
  have "variable_typed (L(c_next h \<mapsto> operands y)) v x" if "vars h v = Some x" for v x
  proof -
    from h that have "variable_typed L v x" by (simp add: typed_def)
    then show ?thesis by (auto simp: variable_typed_def intro: fresh)
  qed
  moreover have "layout_of (new_con y h) = L(c_next h \<mapsto> operands y)"
    using h by (auto simp: layout_of_def typed_def fun_eq_iff new_con_def)
  moreover have "dom (L(c_next h \<mapsto> operands y)) \<subseteq> {0<..<Suc (c_next h)}"
    using h by (auto simp: typed_def)
  moreover have "c_type z \<noteq> NoType \<and> operands z \<subseteq> V" if "((cons h)(c_next h \<mapsto> y)) d = Some z" for d z
    using that y h by (cases "d = c_next h") (simp_all add: typed_def)
  ultimately show ?thesis using h by (simp add: typed_def new_con_def)
qed

lemma typed_dispose:
  assumes h: "typed V L h" and c: "linked {} c h"
  shows "typed V (L(c := None)) (h\<lparr>cons := (cons h)(c := None)\<rparr>)"
proof -
  have "variable_typed (L(c := None)) v x" if "vars h v = Some x" for v x
  proof -
    from h that have "variable_typed L v x" by (simp add: typed_def)
    moreover from c that have "c \<notin> set (constraints x)" "determinedBy x \<noteq> c" by (auto simp: linked_def)
    ultimately show ?thesis by (auto simp: variable_typed_def refs_def)
  qed
  moreover have "layout_of (h\<lparr>cons := (cons h)(c := None)\<rparr>) = L(c := None)"
    using h by (auto simp: layout_of_def typed_def fun_eq_iff)
  moreover have "c_type z \<noteq> NoType \<and> operands z \<subseteq> V" if "((cons h)(c := None)) d = Some z" for d z
    using that h by (cases "d = c") (simp_all add: typed_def)
  moreover have "dom (L(c := None)) \<subseteq> {0<..<c_next h}" using h by (auto simp: typed_def)
  ultimately show ?thesis using h by (simp add: typed_def)
qed

lemma safe_new_con:
  assumes h: "typed V L h" and y: "c_type y \<noteq> NoType" "operands y = S" "S \<subseteq> V"
  shows "safe (rbind (AbstractConstraint_addConstraint k (c_next h) (new_con y h)) (\<lambda>h'. Inr (c_next h, h')))
    (\<lambda>(c, h'). c = c_next h \<and> typed V (L(c \<mapsto> S)) h')"
  using typed_new_con [OF h, of y] y by (simp add: safe_AddConstraint)

lemma safe_creates:
  assumes h: "typed V L h" and s: "Strength_of (strs h) s = Inr t" and v: "v \<in> V"
  shows safe_Edit_create: "safe (EditConstraint_create k v s h) (\<lambda>(c, h'). c = c_next h \<and> typed V (L(c \<mapsto> {v})) h')"
    and safe_Stay_create: "safe (StayConstraint_create k v s h) (\<lambda>(c, h'). c = c_next h \<and> typed V (L(c \<mapsto> {v})) h')"
    and safe_Equality_create: "w \<in> V \<Longrightarrow>
      safe (EqualityConstraint_create k v w s h) (\<lambda>(c, h'). c = c_next h \<and> typed V (L(c \<mapsto> {v, w})) h')"
    and safe_Scale_create: "w \<in> V \<Longrightarrow> sc \<in> V \<Longrightarrow> off \<in> V \<Longrightarrow>
      safe (ScaleConstraint_create k v sc off w s h)
        (\<lambda>(c, h'). c = c_next h \<and> typed V (L(c \<mapsto> {v, w, sc, off})) h')"
proof -
  have c: "c_next h \<noteq> 0" using h by (simp add: typed_def)
  note eqs = Edit_create_eq [OF c s] Stay_create_eq [OF c s] Equality_create_eq [OF c s] Scale_create_eq [OF c s]
  note ops = operands_def unary_con_def binary_con_def
  show "safe (EditConstraint_create k v s h) (\<lambda>(c, h'). c = c_next h \<and> typed V (L(c \<mapsto> {v})) h')"
    unfolding eqs by (rule safe_new_con [OF h]) (simp_all add: ops v)
  show "safe (StayConstraint_create k v s h) (\<lambda>(c, h'). c = c_next h \<and> typed V (L(c \<mapsto> {v})) h')"
    unfolding eqs by (rule safe_new_con [OF h]) (simp_all add: ops v)
  show "safe (EqualityConstraint_create k v w s h) (\<lambda>(c, h'). c = c_next h \<and> typed V (L(c \<mapsto> {v, w})) h')"
    if "w \<in> V"
    unfolding eqs by (rule safe_new_con [OF h]) (simp_all add: ops v that)
  show "safe (ScaleConstraint_create k v sc off w s h)
        (\<lambda>(c, h'). c = c_next h \<and> typed V (L(c \<mapsto> {v, w, sc, off})) h')"
    if "w \<in> V" "sc \<in> V" "off \<in> V"
    unfolding eqs by (rule safe_new_con [OF h]) (simp_all add: ops v that)
qed

text \<open>Destroying a constraint leaves no reference to it, so that it can be disposed of.\<close>

lemma safe_destroy:
  assumes h: "typed V L h" and c: "c \<in> dom L"
  shows "safe (AbstractConstraint_destroyConstraint k c h) (\<lambda>h'. typed V L h' \<and> linked {} c h')"
proof -
  have "safe (if s then Planner_incrementalRemove k c h else Inr h) (typed V L)" for s
    using safe_incrementalRemove [OF h c] h by simp
  then show ?thesis
    unfolding AbstractConstraint_destroyConstraint_def
    using linked_removeFromGraph [OF _ c] h c
    by (intro safe_any [OF safe_isSatisfied] safe_step)
qed

lemma safe_Constraint_dispose:
  assumes h: "typed V L h" and c: "c \<in> dom L" and l: "linked {} c h"
  shows "safe (Constraint_dispose c h) (typed V (L(c := None)))"
proof -
  obtain y where "get_con c h = Inr y" using typed_get_con [OF h c] by blast
  with typed_dispose [OF h l] show ?thesis by (simp add: Constraint_dispose_def)
qed

section \<open>Planning and executing\<close>

lemma safe_makePlan_loop:
  "typed V L h \<Longrightarrow> set todo \<subseteq> dom L \<Longrightarrow> set plan \<subseteq> dom L \<Longrightarrow>
    safe (makePlan_loop k m todo plan h) (\<lambda>(plan, h). typed V L h \<and> set plan \<subseteq> dom L)"
proof (induction k arbitrary: todo plan h)
  case 0
  then show ?case by (cases todo) auto
next
  case (Suc k)
  show ?case
  proof (cases todo)
    case (Cons c cs)
    with Suc.prems have c: "c \<in> dom L" "set cs \<subseteq> dom L" by auto
    have "safe (if mo \<noteq> m then AbstractConstraint_inputsKnown c m h else Inr False) (\<lambda>b. True)" for mo
      using Suc.prems(1) c by (auto intro: safe_inputsKnown)
    with Suc.prems c show ?thesis
      unfolding Cons makePlan_loop.simps
      by (intro safe_step [OF safe_getOutput] safe_any [OF safe_getMark] safe_any)
         (auto intro!: safe_step [OF safe_setMark] safe_step [OF safe_addConstraintsConsumingTo] Suc.IH)
  qed (use Suc.prems in simp)
qed

lemma safe_extractPlan:
  assumes h: "typed V L h" and cs: "set cs \<subseteq> dom L"
  shows "safe (Planner_extractPlanFromConstraints k cs h) (\<lambda>(plan, h). typed V L h \<and> set plan \<subseteq> dom L)"
proof -
  have "safe (source_step h c src) (\<lambda>src. set src \<subseteq> dom L)" if "c \<in> set cs" "set src \<subseteq> dom L" for c src
  proof -
    from that cs have c: "c \<in> dom L" by auto
    have "safe (if i then Constraint_isSatisfied c h else Inr False) (\<lambda>b. True)" for i
      using safe_isSatisfied [OF h c] by simp
    with c h that(2) show ?thesis
      unfolding source_step_def by (intro safe_any [OF safe_isInput] safe_any) auto
  qed
  then have "safe (rfold (source_step h) cs []) (\<lambda>src. set src \<subseteq> dom L)"
    by (intro safe_rfold) simp_all
  then show ?thesis
    unfolding Planner_extractPlanFromConstraints_def Planner_makePlan_def
    by (rule safe_step) (auto intro!: safe_step [OF safe_newMark [OF h]] safe_makePlan_loop)
qed

lemma safe_Plan_execute:
  "typed V L h \<Longrightarrow> set plan \<subseteq> dom L \<Longrightarrow> safe (Plan_execute plan h) (typed V L)"
  unfolding Plan_execute_def by (intro safe_rfold safe_execute) auto

lemma safe_change:
  assumes h: "typed V L h" and v: "v \<in> V"
  shows "safe (Planner_change k v a h) (typed V L)"
proof -
  obtain t where t: "Strength_of (strs h) (PREFERRED (strs h)) = Inr t"
    using h by (auto simp: typed_def strengths_ready_def)
  let ?c = "c_next h" let ?L = "L(c_next h \<mapsto> {v})"
  have c: "?c \<in> dom ?L" by simp
  have "?c \<notin> dom L" using h by (auto simp: typed_def)
  then have L: "?L(?c := None) = L" by auto
  have body: "safe (rfold (\<lambda>i h. rbind (Variable_setValue v a h) (\<lambda>h. Plan_execute plan h)) [0..<10] h) (typed V ?L)"
    if "typed V ?L h" "set plan \<subseteq> insert ?c (dom L)" for plan h
    using that v by (intro safe_rfold safe_step [OF safe_setValue] safe_Plan_execute) simp_all
  have last: "safe (Constraint_dispose ?c h') (typed V L)" if "typed V ?L h' \<and> linked {} ?c h'" for h'
    using safe_Constraint_dispose [OF _ c] that unfolding L by blast
  have rest: "safe (rbind (Planner_extractPlanFromConstraints k [?c] h') (\<lambda>(plan, h).
      rbind (rfold (\<lambda>i h. rbind (Variable_setValue v a h) (\<lambda>h. Plan_execute plan h)) [0..<10] h) (\<lambda>h.
      rbind (AbstractConstraint_destroyConstraint k ?c h) (\<lambda>h. Constraint_dispose ?c h)))) (typed V L)"
    if h': "typed V ?L h'" for h'
    by (auto intro!: safe_step [OF safe_extractPlan [OF h']] safe_step [OF body] safe_step [OF safe_destroy [OF _ c]] last)
  show ?thesis
    unfolding Planner_change_def
    by (rule safe_step [OF safe_Edit_create [OF h t v]]) (use rest in auto)
qed

section \<open>Property\<close>

lemma db_wf_typed: "db_wf h \<longleftrightarrow> (\<exists>V L. typed V L h)"
  by (auto simp: db_wf_def typed_def)

lemma typed_wf: "typed V L h \<Longrightarrow> db_wf h \<and> dom (vars h) = V \<and> layout_of h = L"
  by (auto simp: db_wf_def typed_def)

lemma typed_wfD:
  "typed V L h \<Longrightarrow> db_wf h" "typed V L h \<Longrightarrow> dom (vars h) = V" "typed V L h \<Longrightarrow> layout_of h = L"
  by (auto dest: typed_wf)

lemma typed_wf_destroy:
  assumes "typed V L h" "c \<in> dom L"
  shows "safe (AbstractConstraint_destroyConstraint k c h) (\<lambda>h'. db_wf h' \<and> layout_of h' = L \<and>
    safe (Constraint_dispose c h') (\<lambda>h''. db_wf h'' \<and> layout_of h'' = L(c := None)))"
  using assms
  by (auto intro!: safe_mono [OF safe_destroy] safe_mono [OF safe_Constraint_dispose] dest: typed_wfD)

text \<open>C23: The planner keeps the heaps of \<open>DeltaBlue.c\<close> well typed, cycles, overridden constraints and
  failed assertions included: with live operands and any fuel, creating a constraint of any kind, destroying
  one, extracting and executing a plan and \<open>Planner_change\<close> never access a null pointer or a
  released cell; when they return, every pointer held by a live cell points to a live cell of its
  kind, no other constraint has changed its operands, and a destroyed constraint can be released
  because no variable refers to it any more.
\<close>

theorem planner_keeps_typing:
  assumes "db_wf h" "v \<in> dom (vars h)" "w \<in> dom (vars h)" "sc \<in> dom (vars h)" "off \<in> dom (vars h)"
    "c \<in> dom (cons h)" "s \<in> {REQUIRED (strs h), PREFERRED (strs h), STRONG_DEFAULT (strs h), DEFAULT (strs h)}"
  shows
    "safe (EditConstraint_create k v s h)
       (\<lambda>(d, h'). db_wf h' \<and> d \<notin> dom (cons h) \<and> layout_of h' = (layout_of h)(d \<mapsto> {v})) \<and>
     safe (StayConstraint_create k v s h)
       (\<lambda>(d, h'). db_wf h' \<and> d \<notin> dom (cons h) \<and> layout_of h' = (layout_of h)(d \<mapsto> {v})) \<and>
     safe (EqualityConstraint_create k v w s h)
       (\<lambda>(d, h'). db_wf h' \<and> d \<notin> dom (cons h) \<and> layout_of h' = (layout_of h)(d \<mapsto> {v, w})) \<and>
     safe (ScaleConstraint_create k v sc off w s h)
       (\<lambda>(d, h'). db_wf h' \<and> d \<notin> dom (cons h) \<and> layout_of h' = (layout_of h)(d \<mapsto> {v, w, sc, off})) \<and>
     safe (AbstractConstraint_destroyConstraint k c h) (\<lambda>h'. db_wf h' \<and> layout_of h' = layout_of h \<and>
       safe (Constraint_dispose c h') (\<lambda>h''. db_wf h'' \<and> layout_of h'' = (layout_of h)(c := None))) \<and>
     safe (Planner_extractPlanFromConstraints k [c] h) (\<lambda>(plan, h'). db_wf h' \<and> layout_of h' = layout_of h \<and>
       safe (Plan_execute plan h') (\<lambda>h''. db_wf h'' \<and> layout_of h'' = layout_of h)) \<and>
     safe (Planner_change k v a h) (\<lambda>h'. db_wf h' \<and> layout_of h' = layout_of h)"
proof -
  have h: "typed (dom (vars h)) (layout_of h) h" using assms(1) by (simp add: db_wf_def)
  have c: "c \<in> dom (layout_of h)" using assms(6) by (simp add: dom_layout)
  have fresh: "c_next h \<notin> dom (cons h)" using h by (auto simp: typed_def dom_layout)
  obtain t where t: "Strength_of (strs h) s = Inr t"
    using h assms(7) by (auto simp: typed_def strengths_ready_def)
  show ?thesis
    using fresh
    by (intro conjI safe_mono [OF safe_Edit_create [OF h t assms(2)]] safe_mono [OF safe_Stay_create [OF h t assms(2)]]
        safe_mono [OF safe_Equality_create [OF h t assms(2,3)]] safe_mono [OF safe_Scale_create [OF h t assms(2,3,4,5)]]
        typed_wf_destroy [OF h c] safe_mono [OF safe_extractPlan [OF h]] safe_mono [OF safe_change [OF h assms(2)]])
       (use c in \<open>auto dest: typed_wfD intro!: safe_mono [OF safe_Plan_execute]\<close>)
qed

text \<open>Two variables with an equality constraint between them that determines the second.\<close>

definition typed_example :: deltablue where
  "typed_example = \<lparr>strs = all_strengths,
     vars = [1 \<mapsto> \<lparr>v_value = 4, constraints = [1], determinedBy = 0, v_mark = 2, walkStrength = weakest_strength, v_stay = True\<rparr>,
             2 \<mapsto> \<lparr>v_value = 4, constraints = [1], determinedBy = 1, v_mark = 2, walkStrength = weakest_strength, v_stay = True\<rparr>],
     v_next = 3,
     cons = [1 \<mapsto> (binary_con EqualityConstraintType required_strength 1 2 0 0)\<lparr>b_direction := FORWARD\<rparr>],
     c_next = 2, currentMark = 2\<rparr>"

lemma all_strengths_ready: "strengths_ready all_strengths"
  by (simp add: strengths_ready_def all_strengths_def Strength_of_all strength_constants_at deref_def)

lemma planner_keeps_typing_witness:
  "db_wf typed_example \<and>
   safe (Planner_change 20 1 7 typed_example) (\<lambda>h'. db_wf h' \<and> layout_of h' = [1 \<mapsto> {1, 2}]) \<and>
   safe (AbstractConstraint_destroyConstraint 20 1 typed_example) (\<lambda>h'.
     safe (Constraint_dispose 1 h') (\<lambda>h''. db_wf h'' \<and> layout_of h'' = Map.empty))"
proof -
  have L: "layout_of typed_example = [1 \<mapsto> {1, 2}]"
    by (simp add: layout_of_def fun_eq_iff typed_example_def binary_con_def operands_def)
  have wf: "db_wf typed_example"
    unfolding db_wf_def L
    by (auto simp: typed_def L all_strengths_ready variable_typed_def refs_def)
      (auto simp: typed_example_def all_strengths_ready binary_con_def operands_def split: if_splits)
  have "2 \<in> dom (vars typed_example)" "1 \<in> dom (vars typed_example)" "1 \<in> dom (cons typed_example)"
    by (simp_all add: typed_example_def)
  with planner_keeps_typing [OF wf, of 1 2 1 2 1 "DEFAULT (strs typed_example)" 20 7] wf show ?thesis
    by (auto simp: L elim: safe_mono)
qed

end
