(* ===== verification/DeltaBlueEval.thy ===== *)
theory DeltaBlueEval
  imports DeltaBlueTypes
begin

text \<open>
  Running the planner of \<open>DeltaBlue.c\<close> on heaps that are known cell by cell: what the operations do
  to a heap in the normal form \<open>heap h V K\<close> (the variables \<open>V\<close>, the constraints \<open>K\<close>, everything
  else from \<open>h\<close>), and what it means to satisfy a constraint.
\<close>

section \<open>Heaps in normal form\<close>

definition heap :: "deltablue \<Rightarrow> (vid \<Rightarrow> variable option) \<Rightarrow> (cid \<Rightarrow> constr option) \<Rightarrow> deltablue" where
  "heap h V K = h\<lparr>vars := V, cons := K\<rparr>"

lemma heap_simps [simp]:
  "vars (heap h V K) = V" "cons (heap h V K) = K" "strs (heap h V K) = strs h"
  "currentMark (heap h V K) = currentMark h" "v_next (heap h V K) = v_next h" "c_next (heap h V K) = c_next h"
  "(heap h V K)\<lparr>vars := V'\<rparr> = heap h V' K" "(heap h V K)\<lparr>cons := K'\<rparr> = heap h V K'"
  "(heap h V K)\<lparr>currentMark := m\<rparr> = heap (h\<lparr>currentMark := m\<rparr>) V K"
  "(heap h V K)\<lparr>v_next := n\<rparr> = heap (h\<lparr>v_next := n\<rparr>) V K"
  "(heap h V K)\<lparr>c_next := n\<rparr> = heap (h\<lparr>c_next := n\<rparr>) V K"
  "(heap h V K)\<lparr>strs := g\<rparr> = heap (h\<lparr>strs := g\<rparr>) V K"
  by (simp_all add: heap_def)

lemma heap_id: "heap h (vars h) (cons h) = h"
  by (simp add: heap_def)

lemma get_var_eq: "v \<noteq> 0 \<Longrightarrow> vars h v = Some x \<Longrightarrow> get_var v h = Inr x"
  by (simp add: get_var_def)

lemma get_con_eq: "c \<noteq> 0 \<Longrightarrow> cons h c = Some y \<Longrightarrow> get_con c h = Inr y"
  by (simp add: get_con_def)

lemmas variable_ops = Variable_getStay_def Variable_setStay_def Variable_getValue_def Variable_setValue_def
  Variable_addConstraint_def Variable_getConstraints_def Variable_getDeterminedBy_def Variable_setDeterminedBy_def
  Variable_getMark_def Variable_setMark_def Variable_getWalkStrength_def Variable_setWalkStrength_def
  Variable_removeConstraint_def upd_var_def

section \<open>Reading and marking constraints\<close>

definition sat :: "constr \<Rightarrow> bool" where
  "sat y \<longleftrightarrow> (if c_type y = EditConstraintType \<or> c_type y = StayConstraintType then u_satisfied y else b_direction y \<noteq> 0)"

definition unsat :: "constr \<Rightarrow> constr" where
  "unsat y = (if c_type y = EditConstraintType \<or> c_type y = StayConstraintType then y\<lparr>u_satisfied := False\<rparr>
              else y\<lparr>b_direction := 0\<rparr>)"

definition outp :: "constr \<Rightarrow> vid" where
  "outp y = (if c_type y = EditConstraintType \<or> c_type y = StayConstraintType then u_output y
             else if b_direction y = FORWARD then b_v2 y else b_v1 y)"

lemma unsat_simps [simp]: "c_type (unsat y) = c_type y" "\<not> sat (unsat y)"
  by (auto simp: unsat_def sat_def)

lemma isSatisfied_eq:
  "c \<noteq> 0 \<Longrightarrow> cons h c = Some y \<Longrightarrow> c_type y \<noteq> NoType \<Longrightarrow> Constraint_isSatisfied c h = Inr (sat y)"
  by (cases "c_type y") (simp_all add: Constraint_isSatisfied_def get_con_eq sat_def)

lemma getOutput_eq:
  "c \<noteq> 0 \<Longrightarrow> cons h c = Some y \<Longrightarrow> c_type y \<noteq> NoType \<Longrightarrow> Constraint_getOutput c h = Inr (outp y)"
  by (cases "c_type y") (simp_all add: Constraint_getOutput_def get_con_eq outp_def)

lemma markUnsatisfied_eq:
  "c \<noteq> 0 \<Longrightarrow> cons h c = Some y \<Longrightarrow> c_type y \<noteq> NoType \<Longrightarrow>
    Constraint_markUnsatisfied c h = Inr (h\<lparr>cons := (cons h)(c \<mapsto> unsat y)\<rparr>)"
  by (cases "c_type y") (simp_all add: Constraint_markUnsatisfied_def upd_con_def get_con_eq unsat_def)

text \<open>\<open>live K c P\<close>: \<open>c\<close> is a live constraint of \<open>K\<close> with the property \<open>P\<close>.\<close>

definition live :: "(cid \<Rightarrow> constr option) \<Rightarrow> cid \<Rightarrow> (constr \<Rightarrow> bool) \<Rightarrow> bool" where
  "live K c P \<longleftrightarrow> c \<noteq> 0 \<and> (\<exists>y. K c = Some y \<and> c_type y \<noteq> NoType \<and> P y)"

lemma live_mono: "live K c P \<Longrightarrow> (\<And>y. P y \<Longrightarrow> Q y) \<Longrightarrow> live K c Q"
  by (auto simp: live_def)

lemma consuming_eq:
  assumes "\<forall>c \<in> set cs. live (cons h) c (\<lambda>y. True)"
  shows "rfold (consuming_step d consuming_append) cs (coll, h) =
    Inr (coll @ filter (\<lambda>c. c \<noteq> d \<and> live (cons h) c sat) cs, h)"
  using assms
proof (induction cs arbitrary: coll)
  case (Cons c cs)
  then obtain y where y: "c \<noteq> 0" "cons h c = Some y" "c_type y \<noteq> NoType" by (auto simp: live_def)
  then show ?case using Cons
    by (simp add: consuming_step_def consuming_append_def isSatisfied_eq [OF y] live_def)
qed simp

lemma addConstraintsConsumingTo_eq:
  assumes "v \<noteq> 0" "vars h v = Some x" "\<forall>c \<in> set (constraints x). live (cons h) c (\<lambda>y. True)"
  shows "Planner_addConstraintsConsumingTo v coll h =
    Inr (coll @ filter (\<lambda>c. c \<noteq> determinedBy x \<and> live (cons h) c sat) (constraints x))"
  using consuming_eq [OF assms(3)] assms(1,2)
  by (simp add: Planner_addConstraintsConsumingTo_def Planner_constraintsConsuming_def variable_ops get_var_eq)

text \<open>\<open>overriding d K\<close>: the constraints after the overridden one, if any, is marked unsatisfied.\<close>

definition overriding :: "cid \<Rightarrow> (cid \<Rightarrow> constr option) \<Rightarrow> cid \<Rightarrow> constr option" where
  "overriding d K = (if d = 0 then K else K(d := map_option unsat (K d)))"

lemma overriding_eq:
  assumes "d \<noteq> 0 \<longrightarrow> live K d (\<lambda>y. True)"
  shows "(if d \<noteq> 0 then Constraint_markUnsatisfied d (heap h V K) else Inr (heap h V K)) = Inr (heap h V (overriding d K))"
  using assms by (auto simp: overriding_def live_def markUnsatisfied_eq)

lemma overriding_upd: "d \<noteq> c \<Longrightarrow> overriding d (K(c \<mapsto> y)) = (overriding d K)(c \<mapsto> y)"
  by (simp add: overriding_def fun_upd_twist)

lemma overriding_apply: "c \<noteq> d \<Longrightarrow> overriding d K c = K c"
  by (simp add: overriding_def)

section \<open>Satisfying a constraint\<close>

text \<open>
  The run of \<open>AbstractConstraint_satisfy\<close> on a constraint that can be satisfied, from the results
  of its parts: the constraint becomes \<open>y\<close>, the inputs are marked, which gives the variables \<open>W\<close>,
  and the output \<open>b\<close> is recalculated, which gives \<open>B'\<close>; \<open>ds\<close> are the constraints downstream.
\<close>

lemma satisfy_runs:
  assumes c: "c \<noteq> 0" "c_type y \<noteq> NoType" "sat y" "outp y = b"
    and choose: "Constraint_chooseMethod c m (heap h V K) = Inr (heap h V (K(c \<mapsto> y)))"
    and inputs: "Constraint_inputsDo c (AbstractConstraint_satisfy_iter m) (heap h V (K(c \<mapsto> y))) =
      Inr (heap h W (K(c \<mapsto> y)))"
    and b: "b \<noteq> 0" "W b = Some B" "v_mark B \<noteq> m"
    and d: "determinedBy B = d" "d \<noteq> c" "d \<noteq> 0 \<longrightarrow> live K d (\<lambda>y. True)"
    and recalc: "Constraint_recalculate c (heap h (W(b \<mapsto> B\<lparr>determinedBy := c\<rparr>)) ((overriding d K)(c \<mapsto> y))) =
      Inr (heap h (W(b \<mapsto> B')) ((overriding d K)(c \<mapsto> y)))"
    and ds: "Planner_addConstraintsConsumingTo b [] (heap h (W(b \<mapsto> B')) ((overriding d K)(c \<mapsto> y))) = Inr ds"
    and rest: "addPropagate_loop remove k c m ds (heap h (W(b \<mapsto> B')) ((overriding d K)(c \<mapsto> y))) =
      Inr (True, heap h U ((overriding d K)(c \<mapsto> y)))" "U b = Some B''"
  shows "satisfy_with remove (Suc k) c m (heap h V K) =
    Inr (d, heap h (U(b \<mapsto> B''\<lparr>v_mark := m\<rparr>)) ((overriding d K)(c \<mapsto> y)))"
proof -
  let ?K = "(overriding d K)(c \<mapsto> y)"
  have out: "Constraint_getOutput c (heap h V' (K'(c \<mapsto> y))) = Inr b" for V' K'
    using c by (simp add: getOutput_eq)
  have "Constraint_isSatisfied c (heap h V (K(c \<mapsto> y))) = Inr True"
    using c by (simp add: isSatisfied_eq)
  moreover have "Variable_getDeterminedBy b (heap h W (K(c \<mapsto> y))) = Inr d"
    using b d(1) by (simp add: variable_ops get_var_eq)
  moreover have "(if d \<noteq> 0 then Constraint_markUnsatisfied d (heap h W (K(c \<mapsto> y))) else Inr (heap h W (K(c \<mapsto> y)))) =
      Inr (heap h W ?K)"
    using d(2,3) by (subst overriding_eq) (auto simp: live_def overriding_upd)
  moreover have "Variable_setDeterminedBy b c (heap h W ?K) = Inr (heap h (W(b \<mapsto> B\<lparr>determinedBy := c\<rparr>)) ?K)"
    using b by (simp add: variable_ops get_var_eq)
  moreover have "addPropagate_loop remove (Suc k) c m [c] (heap h (W(b \<mapsto> B\<lparr>determinedBy := c\<rparr>)) ?K) =
      Inr (True, heap h U ?K)"
    using b rest(1) by (simp add: out recalc ds variable_ops get_var_eq)
  moreover have "Variable_setMark b m (heap h U ?K) = Inr (heap h (U(b \<mapsto> B''\<lparr>v_mark := m\<rparr>)) ?K)"
    using b rest(2) by (simp add: variable_ops get_var_eq)
  ultimately show ?thesis
    by (simp add: satisfy_with_def choose inputs out del: neq0_conv addPropagate_loop.simps)
qed

text \<open>The output has no satisfied constraint but the overridden one.\<close>

definition idle :: "(cid \<Rightarrow> constr option) \<Rightarrow> cid \<Rightarrow> cid \<Rightarrow> cid list \<Rightarrow> bool" where
  "idle K c d cs \<longleftrightarrow> (\<forall>e \<in> set cs. e \<noteq> c \<longrightarrow> live K e (\<lambda>y. e = d \<or> \<not> sat y))"

lemma idle_consuming:
  assumes x: "idle K c d (constraints x)" "d \<noteq> c" "c \<noteq> 0" "c_type y \<noteq> NoType"
    and v: "v \<noteq> 0" "V v = Some x" "determinedBy x = c"
  shows "Planner_addConstraintsConsumingTo v [] (heap h V ((overriding d K)(c \<mapsto> y))) = Inr []"
proof -
  let ?K = "(overriding d K)(c \<mapsto> y)"
  have live: "live ?K e (\<lambda>y. e = c \<or> \<not> sat y)" if "e \<in> set (constraints x)" for e
    using x that by (cases "e = c") (auto simp: idle_def live_def overriding_def)
  then have "\<forall>e \<in> set (constraints x). live ?K e (\<lambda>y. True)"
    by (blast intro: live_mono)
  moreover have "filter (\<lambda>e. e \<noteq> determinedBy x \<and> live ?K e sat) (constraints x) = []"
  proof -
    have "\<not> (e \<noteq> c \<and> live ?K e sat)" if "e \<in> set (constraints x)" for e
      using live [OF that] by (auto simp: live_def)
    then show ?thesis unfolding v(3) by (simp add: filter_empty_conv)
  qed
  ultimately show ?thesis using addConstraintsConsumingTo_eq [of v "heap h V ?K" x "[]"] v by simp
qed

text \<open>Equality constraints of the strength \<open>REQUIRED\<close>.\<close>

definition eqc :: "vid \<Rightarrow> vid \<Rightarrow> int \<Rightarrow> constr" where
  "eqc a b d = (binary_con EqualityConstraintType required_strength a b 0 0)\<lparr>b_direction := d\<rparr>"

lemma FORWARD_BACKWARD [simp]: "FORWARD \<noteq> 0" "BACKWARD \<noteq> 0" "BACKWARD \<noteq> FORWARD" "FORWARD \<noteq> BACKWARD"
  by (simp_all add: FORWARD_def BACKWARD_def)

lemma eqc_simps [simp]:
  "c_type (eqc a b d) = EqualityConstraintType" "c_strength (eqc a b d) = required_strength"
  "b_v1 (eqc a b d) = a" "b_v2 (eqc a b d) = b" "b_direction (eqc a b d) = d"
  "(eqc a b d)\<lparr>b_direction := d'\<rparr> = eqc a b d'"
  "sat (eqc a b d) \<longleftrightarrow> d \<noteq> 0" "unsat (eqc a b d) = eqc a b 0"
  "outp (eqc a b FORWARD) = b" "outp (eqc a b BACKWARD) = a"
  by (simp_all add: eqc_def binary_con_def sat_def unsat_def outp_def)

lemma satisfy_equality_forward:
  assumes c: "c \<noteq> 0" "K c = Some (eqc a b dir)"
    and a: "a \<noteq> 0" "V a = Some A" and b: "b \<noteq> 0" "V b = Some B" "a \<noteq> b"
    and choose: "v_mark B \<noteq> m" "Strength_stronger required_strength (walkStrength B)"
      "v_mark A = m \<or> \<not> Strength_weaker (walkStrength A) (walkStrength B)"
    and d: "determinedBy B \<noteq> c" "determinedBy B \<noteq> 0 \<longrightarrow> live K (determinedBy B) (\<lambda>y. True)"
    and idle: "idle K c (determinedBy B) (constraints B)"
  shows "satisfy_with remove (Suc k) c m (heap h V K) = Inr (determinedBy B, heap h
    (V(a \<mapsto> A\<lparr>v_mark := m\<rparr>,
      b \<mapsto> B\<lparr>determinedBy := c, walkStrength := Strength_weakest required_strength (walkStrength A), v_stay := v_stay A,
            v_value := (if v_stay A then v_value A else v_value B), v_mark := m\<rparr>))
    ((overriding (determinedBy B) K)(c \<mapsto> eqc a b FORWARD)))"
proof -
  let ?W = "V(a \<mapsto> A\<lparr>v_mark := m\<rparr>)"
  let ?B = "B\<lparr>determinedBy := c, walkStrength := Strength_weakest required_strength (walkStrength A), v_stay := v_stay A,
            v_value := (if v_stay A then v_value A else v_value B)\<rparr>"
  let ?K = "(overriding (determinedBy B) K)(c \<mapsto> eqc a b FORWARD)"
  note get = get_con_eq get_var_eq
  have "Constraint_chooseMethod c m (heap h V K) = Inr (heap h V (K(c \<mapsto> eqc a b FORWARD)))"
    using choose by (simp add: Constraint_chooseMethod_def BinaryConstraint_chooseMethod_def get a b c variable_ops
      upd_con_def Let_def) blast
  moreover have "Constraint_inputsDo c (AbstractConstraint_satisfy_iter m) (heap h V (K(c \<mapsto> eqc a b FORWARD))) =
      Inr (heap h ?W (K(c \<mapsto> eqc a b FORWARD)))"
    using a c by (simp add: Constraint_inputsDo_def get binary_input_def AbstractConstraint_satisfy_iter_def variable_ops)
  moreover have "Constraint_recalculate c (heap h (?W(b \<mapsto> B\<lparr>determinedBy := c\<rparr>)) ?K) = Inr (heap h (?W(b \<mapsto> ?B)) ?K)"
    using a b c by (simp add: Constraint_recalculate_def BinaryConstraint_recalculate_def
        Constraint_execute_def EqualityConstraint_execute_def get variable_ops)
  moreover have "Planner_addConstraintsConsumingTo b [] (heap h (?W(b \<mapsto> ?B)) ?K) = Inr []"
    using idle d(1) b c by (intro idle_consuming [where x = ?B]) simp_all
  ultimately have "satisfy_with remove (Suc k) c m (heap h V K) =
      Inr (determinedBy B, heap h ((?W(b \<mapsto> ?B))(b \<mapsto> ?B\<lparr>v_mark := m\<rparr>)) ?K)"
    using a b c choose(1) d by (intro satisfy_runs [where B = B and ds = "[]"]) simp_all
  then show ?thesis by simp
qed

lemma satisfy_equality_backward:
  assumes c: "c \<noteq> 0" "K c = Some (eqc b a dir)"
    and a: "a \<noteq> 0" "V a = Some A" and b: "b \<noteq> 0" "V b = Some B" "a \<noteq> b"
    and choose: "v_mark B \<noteq> m" "Strength_stronger required_strength (walkStrength B)"
      "v_mark A = m \<or> Strength_weaker (walkStrength B) (walkStrength A)"
    and d: "determinedBy B \<noteq> c" "determinedBy B \<noteq> 0 \<longrightarrow> live K (determinedBy B) (\<lambda>y. True)"
    and idle: "idle K c (determinedBy B) (constraints B)"
  shows "satisfy_with remove (Suc k) c m (heap h V K) = Inr (determinedBy B, heap h
    (V(a \<mapsto> A\<lparr>v_mark := m\<rparr>,
      b \<mapsto> B\<lparr>determinedBy := c, walkStrength := Strength_weakest required_strength (walkStrength A), v_stay := v_stay A,
            v_value := (if v_stay A then v_value A else v_value B), v_mark := m\<rparr>))
    ((overriding (determinedBy B) K)(c \<mapsto> eqc b a BACKWARD)))"
proof -
  let ?W = "V(a \<mapsto> A\<lparr>v_mark := m\<rparr>)"
  let ?B = "B\<lparr>determinedBy := c, walkStrength := Strength_weakest required_strength (walkStrength A), v_stay := v_stay A,
            v_value := (if v_stay A then v_value A else v_value B)\<rparr>"
  let ?K = "(overriding (determinedBy B) K)(c \<mapsto> eqc b a BACKWARD)"
  note get = get_con_eq get_var_eq
  have "Constraint_chooseMethod c m (heap h V K) = Inr (heap h V (K(c \<mapsto> eqc b a BACKWARD)))"
    using choose by (simp add: Constraint_chooseMethod_def BinaryConstraint_chooseMethod_def get a b c variable_ops
      upd_con_def Let_def) blast
  moreover have "Constraint_inputsDo c (AbstractConstraint_satisfy_iter m) (heap h V (K(c \<mapsto> eqc b a BACKWARD))) =
      Inr (heap h ?W (K(c \<mapsto> eqc b a BACKWARD)))"
    using a c by (simp add: Constraint_inputsDo_def get binary_input_def AbstractConstraint_satisfy_iter_def variable_ops)
  moreover have "Constraint_recalculate c (heap h (?W(b \<mapsto> B\<lparr>determinedBy := c\<rparr>)) ?K) = Inr (heap h (?W(b \<mapsto> ?B)) ?K)"
    using a b c by (simp add: Constraint_recalculate_def BinaryConstraint_recalculate_def
        Constraint_execute_def EqualityConstraint_execute_def get variable_ops)
  moreover have "Planner_addConstraintsConsumingTo b [] (heap h (?W(b \<mapsto> ?B)) ?K) = Inr []"
    using idle d(1) b c by (intro idle_consuming [where x = ?B]) simp_all
  ultimately have "satisfy_with remove (Suc k) c m (heap h V K) =
      Inr (determinedBy B, heap h ((?W(b \<mapsto> ?B))(b \<mapsto> ?B\<lparr>v_mark := m\<rparr>)) ?K)"
    using a b c choose(1) d by (intro satisfy_runs [where B = B and ds = "[]"]) simp_all
  then show ?thesis by simp
qed

text \<open>Edit and stay constraints.\<close>

definition unc :: "ConstraintType \<Rightarrow> strength \<Rightarrow> vid \<Rightarrow> bool \<Rightarrow> constr" where
  "unc t s v b = (unary_con t s v)\<lparr>u_satisfied := b\<rparr>"

abbreviation unary_type :: "ConstraintType \<Rightarrow> bool" where
  "unary_type t \<equiv> t = EditConstraintType \<or> t = StayConstraintType"

lemma unc_simps [simp]:
  "c_type (unc t s v b) = t" "c_strength (unc t s v b) = s" "u_output (unc t s v b) = v" "u_satisfied (unc t s v b) = b"
  "(unc t s v b)\<lparr>u_satisfied := b'\<rparr> = unc t s v b'"
  by (simp_all add: unc_def unary_con_def)

lemma unc_ops [simp]:
  "unary_type t \<Longrightarrow> sat (unc t s v b) = b" "unary_type t \<Longrightarrow> unsat (unc t s v b) = unc t s v False"
  "unary_type t \<Longrightarrow> outp (unc t s v b) = v"
  by (auto simp: sat_def unsat_def outp_def)

lemma satisfy_unary:
  assumes c: "c \<noteq> 0" "K c = Some (unc t s v old)" "unary_type t" and v: "v \<noteq> 0" "V v = Some X"
    and choose: "v_mark X \<noteq> m" "Strength_stronger s (walkStrength X)"
    and d: "determinedBy X = d" "d \<noteq> c" "d \<noteq> 0 \<longrightarrow> live K d (\<lambda>y. True)"
    and X': "X' = X\<lparr>determinedBy := c, walkStrength := s, v_stay := (t = StayConstraintType)\<rparr>"
    and K': "K' = (overriding d K)(c \<mapsto> unc t s v True)"
    and ds: "Planner_addConstraintsConsumingTo v [] (heap h (V(v \<mapsto> X')) K') = Inr ds"
    and rest: "addPropagate_loop remove k c m ds (heap h (V(v \<mapsto> X')) K') = Inr (True, heap h U K')" "U v = Some X''"
  shows "satisfy_with remove (Suc k) c m (heap h V K) = Inr (d, heap h (U(v \<mapsto> X''\<lparr>v_mark := m\<rparr>)) K')"
  unfolding K'
proof (rule satisfy_runs)
  note get = get_con_eq get_var_eq
  show "Constraint_chooseMethod c m (heap h V K) = Inr (heap h V (K(c \<mapsto> unc t s v True)))"
    using c v choose by (auto simp: Constraint_chooseMethod_def UnaryConstraint_chooseMethod_def get variable_ops upd_con_def)
  show "Constraint_inputsDo c (AbstractConstraint_satisfy_iter m) (heap h V (K(c \<mapsto> unc t s v True))) =
      Inr (heap h V (K(c \<mapsto> unc t s v True)))"
    using c by (auto simp: Constraint_inputsDo_def get)
  show "Constraint_recalculate c (heap h (V(v \<mapsto> X\<lparr>determinedBy := c\<rparr>)) ((overriding d K)(c \<mapsto> unc t s v True))) =
      Inr (heap h (V(v \<mapsto> X')) ((overriding d K)(c \<mapsto> unc t s v True)))"
    using c v by (auto simp: Constraint_recalculate_def UnaryConstraint_recalculate_def Constraint_isInput_def
        Constraint_execute_def get variable_ops X')
qed (use assms in auto)

lemma satisfy_unary_idle:
  assumes c: "c \<noteq> 0" "K c = Some (unc t s v old)" "unary_type t" and v: "v \<noteq> 0" "V v = Some X"
    and choose: "v_mark X \<noteq> m" "Strength_stronger s (walkStrength X)"
    and d: "determinedBy X \<noteq> c" "determinedBy X \<noteq> 0 \<longrightarrow> live K (determinedBy X) (\<lambda>y. True)"
    and idle: "idle K c (determinedBy X) (constraints X)"
  shows "satisfy_with remove (Suc k) c m (heap h V K) = Inr (determinedBy X, heap h
    (V(v \<mapsto> X\<lparr>determinedBy := c, walkStrength := s, v_stay := (t = StayConstraintType), v_mark := m\<rparr>))
    ((overriding (determinedBy X) K)(c \<mapsto> unc t s v True)))"
proof -
  let ?X = "X\<lparr>determinedBy := c, walkStrength := s, v_stay := (t = StayConstraintType)\<rparr>"
  have "satisfy_with remove (Suc k) c m (heap h V K) = Inr (determinedBy X, heap h
    ((V(v \<mapsto> ?X))(v \<mapsto> ?X\<lparr>v_mark := m\<rparr>)) ((overriding (determinedBy X) K)(c \<mapsto> unc t s v True)))"
  proof (rule satisfy_unary)
    show "Planner_addConstraintsConsumingTo v [] (heap h (V(v \<mapsto> ?X))
        ((overriding (determinedBy X) K)(c \<mapsto> unc t s v True))) = Inr []"
      using idle d(1) v c by (intro idle_consuming [where x = ?X]) auto
  qed (use assms in simp_all)
  then show ?thesis by simp
qed

lemma satisfy_unary_fails:
  assumes c: "c \<noteq> 0" "K c = Some (unc t s v old)" "unary_type t" and v: "v \<noteq> 0" "V v = Some X"
    and choose: "v_mark X = m \<or> \<not> Strength_stronger s (walkStrength X)"
    and s: "Strength_required (strs h) = Inr r" "\<not> Strength_sameAs s r"
  shows "satisfy_with remove k c m (heap h V K) = Inr (0, heap h V (K(c \<mapsto> unc t s v False)))"
proof -
  note get = get_con_eq get_var_eq
  have "Constraint_chooseMethod c m (heap h V K) = Inr (heap h V (K(c \<mapsto> unc t s v False)))"
    using c v choose by (auto simp: Constraint_chooseMethod_def UnaryConstraint_chooseMethod_def get variable_ops upd_con_def)
  then show ?thesis
    using c s by (auto simp: satisfy_with_def isSatisfied_eq get)
qed

section \<open>Cells given by a function of their index\<close>

text \<open>\<open>tab b n F R\<close>: the cells \<open>b\<close> to \<open>b + n - 1\<close> are given by \<open>F\<close>, the others by \<open>R\<close>.\<close>

definition tab :: "nat \<Rightarrow> nat \<Rightarrow> (nat \<Rightarrow> 'a) \<Rightarrow> (nat \<Rightarrow> 'a option) \<Rightarrow> nat \<Rightarrow> 'a option" where
  "tab b n F R = (\<lambda>i. if b \<le> i \<and> i < b + n then Some (F (i - b)) else R i)"

lemma tab_in [simp]: "i < n \<Longrightarrow> tab b n F R (b + i) = Some (F i)"
  by (simp add: tab_def)

lemma tab_out: "j < b \<or> b + n \<le> j \<Longrightarrow> tab b n F R j = R j"
  by (auto simp: tab_def)

lemma tab_upd [simp]: "i < n \<Longrightarrow> (tab b n F R)(b + i \<mapsto> x) = tab b n (F(i := x)) R"
  by (auto simp: tab_def fun_eq_iff)

lemma tab_upd_out: "j < b \<or> b + n \<le> j \<Longrightarrow> (tab b n F R)(j := x) = tab b n F (R(j := x))"
  by (auto simp: tab_def fun_eq_iff)

lemma tab_Suc: "(tab b n F R)(b + n \<mapsto> x) = tab b (Suc n) (F(n := x)) R"
  by (auto simp: tab_def fun_eq_iff)

lemma tab_0 [simp]: "tab b 0 F R = R"
  by (auto simp: tab_def fun_eq_iff)

lemma tab_cong: "(\<And>i. i < n \<Longrightarrow> F i = G i) \<Longrightarrow> tab b n F R = tab b n G R"
  by (auto simp: tab_def fun_eq_iff)

lemma tab_in_Suc [simp]: "Suc i < n \<Longrightarrow> tab b n F R (Suc (b + i)) = Some (F (Suc i))"
  by (simp add: tab_def)

lemma tab_upd_Suc [simp]: "Suc i < n \<Longrightarrow> (tab b n F R)(Suc (b + i) \<mapsto> x) = tab b n (F(Suc i := x)) R"
  using tab_upd [of "Suc i" n b F R x] by simp

lemma tab_at_0 [simp]: "0 < n \<Longrightarrow> tab b n F R b = Some (F 0)"
  by (simp add: tab_def)

lemma tab_upd_0 [simp]: "0 < n \<Longrightarrow> (tab b n F R)(b \<mapsto> x) = tab b n (F(0 := x)) R"
  using tab_upd [of 0 n b F R x] by simp

lemma tab_out_Suc: "j \<noteq> b + i \<Longrightarrow> i < n \<Longrightarrow> n \<le> Suc i \<Longrightarrow> b + n \<le> j \<or> j < b \<Longrightarrow> tab b n F R j = R j"
  by (auto simp: tab_def)

section \<open>Variables\<close>

definition cvar :: "int \<Rightarrow> cid list \<Rightarrow> cid \<Rightarrow> int \<Rightarrow> strength \<Rightarrow> bool \<Rightarrow> variable" where
  "cvar x cs d mk ws st =
    \<lparr>v_value = x, constraints = cs, determinedBy = d, v_mark = mk, walkStrength = ws, v_stay = st\<rparr>"

lemma cvar_simps [simp]:
  "v_value (cvar x cs d mk ws st) = x" "constraints (cvar x cs d mk ws st) = cs"
  "determinedBy (cvar x cs d mk ws st) = d" "v_mark (cvar x cs d mk ws st) = mk"
  "walkStrength (cvar x cs d mk ws st) = ws" "v_stay (cvar x cs d mk ws st) = st"
  "(cvar x cs d mk ws st)\<lparr>v_value := x'\<rparr> = cvar x' cs d mk ws st"
  "(cvar x cs d mk ws st)\<lparr>constraints := cs'\<rparr> = cvar x cs' d mk ws st"
  "(cvar x cs d mk ws st)\<lparr>determinedBy := d'\<rparr> = cvar x cs d' mk ws st"
  "(cvar x cs d mk ws st)\<lparr>v_mark := mk'\<rparr> = cvar x cs d mk' ws st"
  "(cvar x cs d mk ws st)\<lparr>walkStrength := ws'\<rparr> = cvar x cs d mk ws' st"
  "(cvar x cs d mk ws st)\<lparr>v_stay := st'\<rparr> = cvar x cs d mk ws st'"
  by (simp_all add: cvar_def)

section \<open>Strengths\<close>

lemma strength_order [simp]:
  "Strength_stronger required_strength preferred_strength" "Strength_stronger required_strength strong_default_strength"
  "Strength_stronger required_strength default_strength" "Strength_stronger required_strength weakest_strength"
  "Strength_stronger preferred_strength strong_default_strength" "Strength_stronger preferred_strength default_strength"
  "Strength_stronger preferred_strength weakest_strength" "Strength_stronger strong_default_strength weakest_strength"
  "Strength_stronger default_strength weakest_strength"
  "Strength_weakest required_strength preferred_strength = preferred_strength"
  "Strength_weakest required_strength strong_default_strength = strong_default_strength"
  "Strength_weakest required_strength default_strength = default_strength"
  "Strength_weakest required_strength weakest_strength = weakest_strength"
  "\<not> Strength_weaker s s"
  "\<not> Strength_weaker default_strength weakest_strength"
  "\<not> Strength_weaker preferred_strength default_strength"
  "\<not> Strength_sameAs strong_default_strength required_strength" "\<not> Strength_sameAs default_strength required_strength"
  by (simp_all add: Strength_stronger_def Strength_weaker_def Strength_sameAs_def Strength_getArithmeticValue_def
      Strength_weakest_def required_strength_def preferred_strength_def strong_default_strength_def
      default_strength_def weakest_strength_def)

section \<open>Adding a constraint\<close>

lemma incrementalAdd_runs:
  assumes "satisfy_with remove k c (currentMark h + 1) (heap (h\<lparr>currentMark := currentMark h + 1\<rparr>) V K) = Inr (d, H)"
    and "- INT_MAX \<le> currentMark h" "currentMark h < INT_MAX"
  shows "incrementalAdd_with remove k c (heap h V K) = incrementalAdd_loop remove k k d (currentMark h + 1) H"
  using assms by (simp add: incrementalAdd_with_def Planner_newMark_def c_int_ok)

lemma incrementalAdd_loop_0 [simp]: "incrementalAdd_loop remove k i 0 m H = Inr H"
  by (subst incrementalAdd_loop.simps) simp

lemma incrementalAdd_loop_step:
  assumes "satisfy_with remove k c m H = Inr (d, H')" "c \<noteq> 0"
  shows "incrementalAdd_loop remove k (Suc i) c m H = incrementalAdd_loop remove k i d m H'"
  using assms by (subst incrementalAdd_loop.simps) simp

lemma new_con_heap: "new_con y (heap h V K) = heap (h\<lparr>c_next := Suc (c_next h)\<rparr>) V (K(c_next h \<mapsto> y))"
  by (simp add: new_con_def)

lemma binary_con_eqc: "binary_con EqualityConstraintType required_strength a b 0 0 = eqc a b 0"
  by (simp add: eqc_def binary_con_def)

lemma unary_con_unc: "unary_con t s v = unc t s v False"
  by (simp add: unc_def unary_con_def)

lemma addToGraph_equality:
  assumes "c \<noteq> 0" "K c = Some (eqc a b d)" "a \<noteq> 0" "b \<noteq> 0" "a \<noteq> b" "V a = Some A" "V b = Some B"
  shows "Constraint_addToGraph c (heap h V K) = Inr (heap h
    (V(a \<mapsto> A\<lparr>constraints := constraints A @ [c]\<rparr>, b \<mapsto> B\<lparr>constraints := constraints B @ [c]\<rparr>)) (K(c \<mapsto> eqc a b 0)))"
  using assms by (simp add: Constraint_addToGraph_def BinaryConstraint_addToGraph_def get_con_eq get_var_eq variable_ops
      upd_con_def)

lemma addToGraph_unary:
  assumes "c \<noteq> 0" "K c = Some (unc t s v b)" "unary_type t" "v \<noteq> 0" "V v = Some X"
  shows "Constraint_addToGraph c (heap h V K) = Inr (heap h
    (V(v \<mapsto> X\<lparr>constraints := constraints X @ [c]\<rparr>)) (K(c \<mapsto> unc t s v False)))"
  using assms by (auto simp: Constraint_addToGraph_def UnaryConstraint_addToGraph_def get_con_eq get_var_eq variable_ops
      upd_con_def)

lemma overriding_0 [simp]: "overriding 0 K = K"
  by (simp add: overriding_def)

lemma overriding_tab [simp]: "i < n \<Longrightarrow> 0 < b \<Longrightarrow> overriding (b + i) (tab b n F R) = tab b n (F(i := unsat (F i))) R"
  by (simp add: overriding_def)

lemma overriding_tab_0 [simp]: "0 < n \<Longrightarrow> 0 < b \<Longrightarrow> overriding b (tab b n F R) = tab b n (F(0 := unsat (F 0))) R"
  by (simp add: overriding_def)

lemma overriding_tab_Suc [simp]:
  "Suc i < n \<Longrightarrow> overriding (Suc (b + i)) (tab b n F R) = tab b n (F(Suc i := unsat (F (Suc i)))) R"
  by (simp add: overriding_def)

lemma overriding_tab_out: "i \<notin> {b..<b + n} \<Longrightarrow> overriding i (tab b n F R) = tab b n F (overriding i R)"
  by (auto simp: overriding_def tab_def fun_eq_iff)

end
