(* ===== verification/DeltaBluePairs.thy ===== *)
theory DeltaBluePairs
  imports DeltaBlueEval
begin

text \<open>
  The heaps of \<open>Planner_projectionTest\<close>: the variables \<open>scale\<close> and \<open>offset\<close>, and for each pair a
  source, a destination, a stay constraint on the source and a scale constraint between the two.
\<close>

section \<open>Addresses\<close>

definition src_at :: "vid \<Rightarrow> nat \<Rightarrow> vid" where
  "src_at vb p = vb + 2 + 2 * p"

definition dst_at :: "vid \<Rightarrow> nat \<Rightarrow> vid" where
  "dst_at vb p = vb + 3 + 2 * p"

definition stay_at :: "cid \<Rightarrow> nat \<Rightarrow> cid" where
  "stay_at cb p = cb + 2 * p"

definition scale_at :: "cid \<Rightarrow> nat \<Rightarrow> cid" where
  "scale_at cb p = Suc (cb + 2 * p)"

lemma at_not_0 [simp]: "src_at vb p \<noteq> 0" "dst_at vb p \<noteq> 0" "scale_at cb p \<noteq> 0" "0 < cb \<Longrightarrow> stay_at cb p \<noteq> 0"
  by (simp_all add: src_at_def dst_at_def stay_at_def scale_at_def)

lemma two_odd: "2 * p \<noteq> Suc (2 * q)" "Suc (2 * q) \<noteq> 2 * p" for p q :: nat
  by presburger+

lemma at_simps [simp]:
  "src_at vb p = src_at vb q \<longleftrightarrow> p = q" "dst_at vb p = dst_at vb q \<longleftrightarrow> p = q"
  "src_at vb p \<noteq> dst_at vb q" "dst_at vb q \<noteq> src_at vb p"
  "src_at vb p \<noteq> vb" "dst_at vb p \<noteq> vb" "vb \<noteq> src_at vb p" "vb \<noteq> dst_at vb p"
  "src_at vb p \<noteq> Suc vb" "dst_at vb p \<noteq> Suc vb" "Suc vb \<noteq> src_at vb p" "Suc vb \<noteq> dst_at vb p"
  "0 < src_at vb p" "0 < dst_at vb p" "0 < scale_at cb p"
  "stay_at cb p = stay_at cb q \<longleftrightarrow> p = q" "scale_at cb p = scale_at cb q \<longleftrightarrow> p = q"
  "stay_at cb p \<noteq> scale_at cb q" "scale_at cb q \<noteq> stay_at cb p"
  "0 < cb \<Longrightarrow> 0 < stay_at cb p"
  by (auto simp: src_at_def dst_at_def stay_at_def scale_at_def two_odd)

section \<open>Heaps of pairs\<close>

definition pvars ::
    "vid \<Rightarrow> nat \<Rightarrow> variable \<Rightarrow> variable \<Rightarrow> (nat \<Rightarrow> variable) \<Rightarrow> (nat \<Rightarrow> variable) \<Rightarrow> (vid \<Rightarrow> variable option) \<Rightarrow> vid \<Rightarrow> variable option" where
  "pvars vb n A B S D R = (\<lambda>v. if v = vb then Some A else if v = Suc vb then Some B
     else if vb + 2 \<le> v \<and> v < vb + 2 + 2 * n then
       Some (if even (v - (vb + 2)) then S ((v - (vb + 2)) div 2) else D ((v - (vb + 2)) div 2))
     else R v)"

definition pcons ::
    "cid \<Rightarrow> nat \<Rightarrow> (nat \<Rightarrow> constr) \<Rightarrow> (nat \<Rightarrow> constr) \<Rightarrow> (cid \<Rightarrow> constr option) \<Rightarrow> cid \<Rightarrow> constr option" where
  "pcons cb n Y C R = (\<lambda>c. if cb \<le> c \<and> c < cb + 2 * n then
       Some (if even (c - cb) then Y ((c - cb) div 2) else C ((c - cb) div 2))
     else R c)"

lemma dst_at_alt: "dst_at vb p = Suc (src_at vb p)"
  by (simp add: src_at_def dst_at_def)

lemma pvars_at [simp]:
  "pvars vb n A B S D R vb = Some A" "pvars vb n A B S D R (Suc vb) = Some B"
  "p < n \<Longrightarrow> pvars vb n A B S D R (src_at vb p) = Some (S p)"
  "p < n \<Longrightarrow> pvars vb n A B S D R (dst_at vb p) = Some (D p)"
  by (simp_all add: pvars_def src_at_def dst_at_def)

lemma pcons_at [simp]:
  "p < n \<Longrightarrow> pcons cb n Y C R (stay_at cb p) = Some (Y p)"
  "p < n \<Longrightarrow> pcons cb n Y C R (scale_at cb p) = Some (C p)"
  "cb + 2 * n \<le> c \<Longrightarrow> pcons cb n Y C R c = R c"
  by (simp_all add: pcons_def stay_at_def scale_at_def)

lemma even_cases:
  fixes v b n :: nat
  assumes "b \<le> v" "v < b + 2 * n"
  obtains p where "p < n" "v = b + 2 * p" | p where "p < n" "v = Suc (b + 2 * p)"
proof (cases "even (v - b)")
  case True
  then obtain p where p: "v - b = 2 * p" by (rule evenE)
  with assms that(1) [of p] show ?thesis by simp
next
  case False
  then obtain p where p: "v - b = 2 * p + 1" by (rule oddE)
  with assms that(2) [of p] show ?thesis by simp
qed

lemma pvars_upd [simp]:
  "(pvars vb n A B S D R)(vb \<mapsto> x) = pvars vb n x B S D R"
  "(pvars vb n A B S D R)(Suc vb \<mapsto> x) = pvars vb n A x S D R"
  "p < n \<Longrightarrow> (pvars vb n A B S D R)(src_at vb p \<mapsto> x) = pvars vb n A B (S(p := x)) D R"
  "p < n \<Longrightarrow> (pvars vb n A B S D R)(dst_at vb p \<mapsto> x) = pvars vb n A B S (D(p := x)) R"
proof -
  show "(pvars vb n A B S D R)(vb \<mapsto> x) = pvars vb n x B S D R"
    "(pvars vb n A B S D R)(Suc vb \<mapsto> x) = pvars vb n A x S D R"
    by (auto simp: pvars_def fun_eq_iff)
  show "(pvars vb n A B S D R)(src_at vb p \<mapsto> x) = pvars vb n A B (S(p := x)) D R" if p: "p < n"
  proof (rule ext)
    fix v
    show "((pvars vb n A B S D R)(src_at vb p \<mapsto> x)) v = pvars vb n A B (S(p := x)) D R v"
    proof (cases "vb + 2 \<le> v \<and> v < vb + 2 + 2 * n")
      case True
      then consider q where "q < n" "v = src_at vb q" | q where "q < n" "v = dst_at vb q"
        by (metis even_cases src_at_def dst_at_alt)
      then show ?thesis by cases simp_all
    next
      case False
      with p show ?thesis by (auto simp: pvars_def src_at_def)
    qed
  qed
  show "(pvars vb n A B S D R)(dst_at vb p \<mapsto> x) = pvars vb n A B S (D(p := x)) R" if p: "p < n"
  proof (rule ext)
    fix v
    show "((pvars vb n A B S D R)(dst_at vb p \<mapsto> x)) v = pvars vb n A B S (D(p := x)) R v"
    proof (cases "vb + 2 \<le> v \<and> v < vb + 2 + 2 * n")
      case True
      then consider q where "q < n" "v = src_at vb q" | q where "q < n" "v = dst_at vb q"
        by (metis even_cases src_at_def dst_at_alt)
      then show ?thesis by cases simp_all
    next
      case False
      with p show ?thesis by (auto simp: pvars_def dst_at_def)
    qed
  qed
qed

lemma pcons_upd [simp]:
  "p < n \<Longrightarrow> (pcons cb n Y C R)(stay_at cb p \<mapsto> y) = pcons cb n (Y(p := y)) C R"
  "p < n \<Longrightarrow> (pcons cb n Y C R)(scale_at cb p \<mapsto> y) = pcons cb n Y (C(p := y)) R"
  "cb + 2 * n \<le> c \<Longrightarrow> (pcons cb n Y C R)(c := z) = pcons cb n Y C (R(c := z))"
proof -
  have alt: "scale_at cb p = Suc (stay_at cb p)" for p by (simp add: scale_at_def stay_at_def)
  show "(pcons cb n Y C R)(stay_at cb p \<mapsto> y) = pcons cb n (Y(p := y)) C R" if p: "p < n"
  proof (rule ext)
    fix c
    show "((pcons cb n Y C R)(stay_at cb p \<mapsto> y)) c = pcons cb n (Y(p := y)) C R c"
    proof (cases "cb \<le> c \<and> c < cb + 2 * n")
      case True
      then consider q where "q < n" "c = stay_at cb q" | q where "q < n" "c = scale_at cb q"
        by (metis even_cases stay_at_def alt)
      then show ?thesis by cases simp_all
    next
      case False
      with p show ?thesis by (auto simp: pcons_def stay_at_def)
    qed
  qed
  show "(pcons cb n Y C R)(scale_at cb p \<mapsto> y) = pcons cb n Y (C(p := y)) R" if p: "p < n"
  proof (rule ext)
    fix c
    show "((pcons cb n Y C R)(scale_at cb p \<mapsto> y)) c = pcons cb n Y (C(p := y)) R c"
    proof (cases "cb \<le> c \<and> c < cb + 2 * n")
      case True
      then consider q where "q < n" "c = stay_at cb q" | q where "q < n" "c = scale_at cb q"
        by (metis even_cases stay_at_def alt)
      then show ?thesis by cases simp_all
    next
      case False
      with p show ?thesis by (auto simp: pcons_def scale_at_def)
    qed
  qed
  show "cb + 2 * n \<le> c \<Longrightarrow> (pcons cb n Y C R)(c := z) = pcons cb n Y C (R(c := z))"
    by (auto simp: pcons_def fun_eq_iff)
qed

section \<open>Scale constraints\<close>

definition scc :: "vid \<Rightarrow> nat \<Rightarrow> int \<Rightarrow> constr" where
  "scc vb p d = (binary_con ScaleConstraintType required_strength (src_at vb p) (dst_at vb p) vb (Suc vb))\<lparr>b_direction := d\<rparr>"

lemma scc_simps [simp]:
  "c_type (scc vb p d) = ScaleConstraintType" "c_strength (scc vb p d) = required_strength"
  "b_v1 (scc vb p d) = src_at vb p" "b_v2 (scc vb p d) = dst_at vb p" "b_direction (scc vb p d) = d"
  "s_scale (scc vb p d) = vb" "s_offset (scc vb p d) = Suc vb"
  "(scc vb p d)\<lparr>b_direction := d'\<rparr> = scc vb p d'"
  "sat (scc vb p d) \<longleftrightarrow> d \<noteq> 0" "unsat (scc vb p d) = scc vb p 0"
  "outp (scc vb p FORWARD) = dst_at vb p" "outp (scc vb p BACKWARD) = src_at vb p"
  by (simp_all add: scc_def binary_con_def sat_def unsat_def outp_def)

text \<open>What a scale constraint makes of its output.\<close>

definition forward_result :: "variable \<Rightarrow> variable \<Rightarrow> variable \<Rightarrow> variable \<Rightarrow> variable" where
  "forward_result A B X Z = (let st = v_stay X \<and> v_stay A \<and> v_stay B in
     Z\<lparr>walkStrength := Strength_weakest required_strength (walkStrength X), v_stay := st,
       v_value := (if st then v_value X * v_value A + v_value B else v_value Z)\<rparr>)"

lemma forward_result_simps [simp]:
  "forward_result (A\<lparr>v_mark := m\<rparr>) B X Z = forward_result A B X Z"
  "forward_result A (B\<lparr>v_mark := m\<rparr>) X Z = forward_result A B X Z"
  "forward_result A B (X\<lparr>v_mark := m\<rparr>) Z = forward_result A B X Z"
  "constraints (forward_result A B X Z) = constraints Z" "determinedBy (forward_result A B X Z) = determinedBy Z"
  by (simp_all add: forward_result_def Let_def)

definition in_int :: "int \<Rightarrow> bool" where
  "in_int x \<longleftrightarrow> - INT_MAX - 1 \<le> x \<and> x \<le> INT_MAX"

lemma c_int_in [simp]: "in_int x \<Longrightarrow> c_int x = Inr x"
  by (simp add: in_int_def c_int_def)

lemma execute_scale_forward:
  assumes "c \<noteq> 0" "K c = Some (scc vb p FORWARD)" "0 < vb"
    and "V (src_at vb p) = Some X" "V (dst_at vb p) = Some Z" "V vb = Some A" "V (Suc vb) = Some B"
    and "in_int (v_value X * v_value A)" "in_int (v_value X * v_value A + v_value B)"
  shows "Constraint_execute c (heap h V K) =
    Inr (heap h (V(dst_at vb p \<mapsto> Z\<lparr>v_value := v_value X * v_value A + v_value B\<rparr>)) K)"
  using assms by (simp add: Constraint_execute_def ScaleConstraint_execute_def get_con_eq get_var_eq variable_ops)

lemma recalculate_scale_forward:
  assumes "c \<noteq> 0" "K c = Some (scc vb p FORWARD)" "0 < vb"
    and "V (src_at vb p) = Some X" "V (dst_at vb p) = Some Z" "V vb = Some A" "V (Suc vb) = Some B"
    and "in_int (v_value X * v_value A)" "in_int (v_value X * v_value A + v_value B)"
  shows "Constraint_recalculate c (heap h V K) = Inr (heap h (V(dst_at vb p \<mapsto> forward_result A B X Z)) K)"
proof -
  have "Constraint_execute c (heap h (V(dst_at vb p \<mapsto> Z\<lparr>walkStrength := w, v_stay := st\<rparr>)) K) =
      Inr (heap h (V(dst_at vb p \<mapsto> Z\<lparr>walkStrength := w, v_stay := st, v_value := v_value X * v_value A + v_value B\<rparr>)) K)" for w st
    using execute_scale_forward [of c K vb p "V(dst_at vb p \<mapsto> Z\<lparr>walkStrength := w, v_stay := st\<rparr>)" X "Z\<lparr>walkStrength := w, v_stay := st\<rparr>" A B h]
      assms by simp
  then show ?thesis
    using assms by (simp add: Constraint_recalculate_def ScaleConstraint_recalculate_def get_con_eq get_var_eq variable_ops
        forward_result_def Let_def)
qed

lemma satisfy_scale_forward:
  assumes c: "c \<noteq> 0" "K c = Some (scc vb p dir)" "0 < vb"
    and V: "V (src_at vb p) = Some X" "V (dst_at vb p) = Some Z" "V vb = Some A" "V (Suc vb) = Some B"
    and bounds: "in_int (v_value X * v_value A)" "in_int (v_value X * v_value A + v_value B)"
    and choose: "v_mark Z \<noteq> m" "Strength_stronger required_strength (walkStrength Z)"
      "v_mark X = m \<or> \<not> Strength_weaker (walkStrength X) (walkStrength Z)"
    and d: "determinedBy Z \<noteq> c" "determinedBy Z \<noteq> 0 \<longrightarrow> live K (determinedBy Z) (\<lambda>y. True)"
    and idle: "idle K c (determinedBy Z) (constraints Z)"
  shows "satisfy_with remove (Suc k) c m (heap h V K) = Inr (determinedBy Z, heap h
    (V(src_at vb p \<mapsto> X\<lparr>v_mark := m\<rparr>, vb \<mapsto> A\<lparr>v_mark := m\<rparr>, Suc vb \<mapsto> B\<lparr>v_mark := m\<rparr>,
      dst_at vb p \<mapsto> (forward_result A B X (Z\<lparr>determinedBy := c\<rparr>))\<lparr>v_mark := m\<rparr>))
    ((overriding (determinedBy Z) K)(c \<mapsto> scc vb p FORWARD)))"
proof -
  let ?a = "src_at vb p" and ?b = "dst_at vb p"
  let ?W = "V(?a \<mapsto> X\<lparr>v_mark := m\<rparr>, vb \<mapsto> A\<lparr>v_mark := m\<rparr>, Suc vb \<mapsto> B\<lparr>v_mark := m\<rparr>)"
  let ?Z = "forward_result A B X (Z\<lparr>determinedBy := c\<rparr>)"
  let ?K = "(overriding (determinedBy Z) K)(c \<mapsto> scc vb p FORWARD)"
  note get = get_con_eq get_var_eq
  have "Constraint_chooseMethod c m (heap h V K) = Inr (heap h V (K(c \<mapsto> scc vb p FORWARD)))"
    using choose by (simp add: Constraint_chooseMethod_def BinaryConstraint_chooseMethod_def get c V variable_ops
      upd_con_def Let_def) blast
  moreover have "Constraint_inputsDo c (AbstractConstraint_satisfy_iter m) (heap h V (K(c \<mapsto> scc vb p FORWARD))) =
      Inr (heap h ?W (K(c \<mapsto> scc vb p FORWARD)))"
    using c V by (simp add: Constraint_inputsDo_def get binary_input_def AbstractConstraint_satisfy_iter_def variable_ops)
  moreover have "Constraint_recalculate c (heap h (?W(?b \<mapsto> Z\<lparr>determinedBy := c\<rparr>)) ?K) = Inr (heap h (?W(?b \<mapsto> ?Z)) ?K)"
    using recalculate_scale_forward [of c ?K vb p "?W(?b \<mapsto> Z\<lparr>determinedBy := c\<rparr>)" "X\<lparr>v_mark := m\<rparr>" "Z\<lparr>determinedBy := c\<rparr>"
        "A\<lparr>v_mark := m\<rparr>" "B\<lparr>v_mark := m\<rparr>" h] c V bounds
    by simp
  moreover have "Planner_addConstraintsConsumingTo ?b [] (heap h (?W(?b \<mapsto> ?Z)) ?K) = Inr []"
    using idle d(1) c by (intro idle_consuming [where x = ?Z]) simp_all
  ultimately have "satisfy_with remove (Suc k) c m (heap h V K) =
      Inr (determinedBy Z, heap h ((?W(?b \<mapsto> ?Z))(?b \<mapsto> ?Z\<lparr>v_mark := m\<rparr>)) ?K)"
    using V c choose(1) d by (intro satisfy_runs [where B = Z and ds = "[]"]) simp_all
  then show ?thesis by simp
qed

definition backward_result :: "variable \<Rightarrow> variable \<Rightarrow> variable \<Rightarrow> variable \<Rightarrow> int \<Rightarrow> variable" where
  "backward_result A B X Z q = (let st = v_stay X \<and> v_stay A \<and> v_stay B in
     Z\<lparr>walkStrength := Strength_weakest required_strength (walkStrength X), v_stay := st,
       v_value := (if st then q else v_value Z)\<rparr>)"

lemma backward_result_simps [simp]:
  "backward_result (A\<lparr>v_mark := m\<rparr>) B X Z q = backward_result A B X Z q"
  "backward_result A (B\<lparr>v_mark := m\<rparr>) X Z q = backward_result A B X Z q"
  "backward_result A B (X\<lparr>v_mark := m\<rparr>) Z q = backward_result A B X Z q"
  "constraints (backward_result A B X Z q) = constraints Z" "determinedBy (backward_result A B X Z q) = determinedBy Z"
  by (simp_all add: backward_result_def Let_def)

lemma execute_scale_backward:
  assumes "c \<noteq> 0" "K c = Some (scc vb p BACKWARD)" "0 < vb"
    and "V (dst_at vb p) = Some X" "V (src_at vb p) = Some Z" "V vb = Some A" "V (Suc vb) = Some B"
    and "in_int (v_value X - v_value B)" "c_div (v_value X - v_value B) (v_value A) = Inr q" "in_int q"
  shows "Constraint_execute c (heap h V K) = Inr (heap h (V(src_at vb p \<mapsto> Z\<lparr>v_value := q\<rparr>)) K)"
  using assms by (simp add: Constraint_execute_def ScaleConstraint_execute_def get_con_eq get_var_eq variable_ops)

lemma recalculate_scale_backward:
  assumes "c \<noteq> 0" "K c = Some (scc vb p BACKWARD)" "0 < vb"
    and "V (dst_at vb p) = Some X" "V (src_at vb p) = Some Z" "V vb = Some A" "V (Suc vb) = Some B"
    and "in_int (v_value X - v_value B)" "c_div (v_value X - v_value B) (v_value A) = Inr q" "in_int q"
  shows "Constraint_recalculate c (heap h V K) = Inr (heap h (V(src_at vb p \<mapsto> backward_result A B X Z q)) K)"
proof -
  have "Constraint_execute c (heap h (V(src_at vb p \<mapsto> Z\<lparr>walkStrength := w, v_stay := st\<rparr>)) K) =
      Inr (heap h (V(src_at vb p \<mapsto> Z\<lparr>walkStrength := w, v_stay := st, v_value := q\<rparr>)) K)" for w st
    using execute_scale_backward [of c K vb p "V(src_at vb p \<mapsto> Z\<lparr>walkStrength := w, v_stay := st\<rparr>)" X "Z\<lparr>walkStrength := w, v_stay := st\<rparr>" A B q h]
      assms by simp
  then show ?thesis
    using assms by (simp add: Constraint_recalculate_def ScaleConstraint_recalculate_def get_con_eq get_var_eq variable_ops
        backward_result_def Let_def)
qed

lemma satisfy_scale_backward:
  assumes c: "c \<noteq> 0" "K c = Some (scc vb p dir)" "0 < vb"
    and V: "V (dst_at vb p) = Some X" "V (src_at vb p) = Some Z" "V vb = Some A" "V (Suc vb) = Some B"
    and bounds: "in_int (v_value X - v_value B)" "c_div (v_value X - v_value B) (v_value A) = Inr q" "in_int q"
    and choose: "v_mark Z \<noteq> m" "Strength_stronger required_strength (walkStrength Z)"
      "v_mark X = m \<or> Strength_weaker (walkStrength Z) (walkStrength X)"
    and d: "determinedBy Z \<noteq> c" "determinedBy Z \<noteq> 0 \<longrightarrow> live K (determinedBy Z) (\<lambda>y. True)"
    and idle: "idle K c (determinedBy Z) (constraints Z)"
  shows "satisfy_with remove (Suc k) c m (heap h V K) = Inr (determinedBy Z, heap h
    (V(dst_at vb p \<mapsto> X\<lparr>v_mark := m\<rparr>, vb \<mapsto> A\<lparr>v_mark := m\<rparr>, Suc vb \<mapsto> B\<lparr>v_mark := m\<rparr>,
      src_at vb p \<mapsto> (backward_result A B X (Z\<lparr>determinedBy := c\<rparr>) q)\<lparr>v_mark := m\<rparr>))
    ((overriding (determinedBy Z) K)(c \<mapsto> scc vb p BACKWARD)))"
proof -
  let ?a = "dst_at vb p" and ?b = "src_at vb p"
  let ?W = "V(?a \<mapsto> X\<lparr>v_mark := m\<rparr>, vb \<mapsto> A\<lparr>v_mark := m\<rparr>, Suc vb \<mapsto> B\<lparr>v_mark := m\<rparr>)"
  let ?Z = "backward_result A B X (Z\<lparr>determinedBy := c\<rparr>) q"
  let ?K = "(overriding (determinedBy Z) K)(c \<mapsto> scc vb p BACKWARD)"
  note get = get_con_eq get_var_eq
  have "Constraint_chooseMethod c m (heap h V K) = Inr (heap h V (K(c \<mapsto> scc vb p BACKWARD)))"
    using choose by (simp add: Constraint_chooseMethod_def BinaryConstraint_chooseMethod_def get c V variable_ops
      upd_con_def Let_def) blast
  moreover have "Constraint_inputsDo c (AbstractConstraint_satisfy_iter m) (heap h V (K(c \<mapsto> scc vb p BACKWARD))) =
      Inr (heap h ?W (K(c \<mapsto> scc vb p BACKWARD)))"
    using c V by (simp add: Constraint_inputsDo_def get binary_input_def AbstractConstraint_satisfy_iter_def variable_ops)
  moreover have "Constraint_recalculate c (heap h (?W(?b \<mapsto> Z\<lparr>determinedBy := c\<rparr>)) ?K) = Inr (heap h (?W(?b \<mapsto> ?Z)) ?K)"
    using recalculate_scale_backward [of c ?K vb p "?W(?b \<mapsto> Z\<lparr>determinedBy := c\<rparr>)" "X\<lparr>v_mark := m\<rparr>" "Z\<lparr>determinedBy := c\<rparr>"
        "A\<lparr>v_mark := m\<rparr>" "B\<lparr>v_mark := m\<rparr>" q h] c V bounds
    by simp
  moreover have "Planner_addConstraintsConsumingTo ?b [] (heap h (?W(?b \<mapsto> ?Z)) ?K) = Inr []"
    using idle d(1) c by (intro idle_consuming [where x = ?Z]) simp_all
  ultimately have "satisfy_with remove (Suc k) c m (heap h V K) =
      Inr (determinedBy Z, heap h ((?W(?b \<mapsto> ?Z))(?b \<mapsto> ?Z\<lparr>v_mark := m\<rparr>)) ?K)"
    using V c choose(1) d by (intro satisfy_runs [where B = Z and ds = "[]"]) simp_all
  then show ?thesis by simp
qed

end
