(* ===== verification/DeltaBlueProjection.thy ===== *)
theory DeltaBlueProjection
  imports DeltaBluePairs
begin

text \<open>
  \<open>Planner_projectionTest\<close> on every number of pairs: what \<open>Planner_change\<close> does to a source, a
  destination, the scale and the offset, and the test itself.
\<close>

section \<open>Evaluation\<close>

lemma forward_result_cvar [simp]:
  "forward_result A B (cvar x cx dx mx wx sx) (cvar z cz dz mz wz old) =
    cvar (if sx \<and> v_stay A \<and> v_stay B then x * v_value A + v_value B else z) cz dz mz
      (Strength_weakest required_strength wx) (sx \<and> v_stay A \<and> v_stay B)"
  by (simp add: forward_result_def Let_def)

lemma backward_result_cvar [simp]:
  "backward_result A B (cvar x cx dx mx wx sx) (cvar z cz dz mz wz old) q =
    cvar (if sx \<and> v_stay A \<and> v_stay B then q else z) cz dz mz
      (Strength_weakest required_strength wx) (sx \<and> v_stay A \<and> v_stay B)"
  by (simp add: backward_result_def Let_def)

lemma live_pcons [simp]:
  "0 < cb \<Longrightarrow> p < n \<Longrightarrow> live (pcons cb n Y C R) (stay_at cb p) P \<longleftrightarrow> c_type (Y p) \<noteq> NoType \<and> P (Y p)"
  "p < n \<Longrightarrow> live (pcons cb n Y C R) (scale_at cb p) P \<longleftrightarrow> c_type (C p) \<noteq> NoType \<and> P (C p)"
  "0 < cb \<Longrightarrow> cb + 2 * n \<le> e \<Longrightarrow> live (pcons cb n Y C R) e P \<longleftrightarrow> (\<exists>y. R e = Some y \<and> c_type y \<noteq> NoType \<and> P y)"
  by (auto simp: live_def)

lemma overriding_pcons [simp]:
  "0 < cb \<Longrightarrow> p < n \<Longrightarrow> overriding (stay_at cb p) (pcons cb n Y C R) = pcons cb n (Y(p := unsat (Y p))) C R"
  "p < n \<Longrightarrow> overriding (scale_at cb p) (pcons cb n Y C R) = pcons cb n Y (C(p := unsat (C p))) R"
  by (simp_all add: overriding_def)

definition src_var :: "cid \<Rightarrow> int \<Rightarrow> nat \<Rightarrow> cid list \<Rightarrow> cid \<Rightarrow> int \<Rightarrow> strength \<Rightarrow> bool \<Rightarrow> variable" where
  "src_var cb x p es d mk ws st = cvar x ([stay_at cb p, scale_at cb p] @ es) d mk ws st"

text \<open>One step of the propagation, over a scale constraint that is satisfied from its source.\<close>

lemma propagate_scale:
  assumes p: "p < n" and pos: "0 < vb" "0 < cb" and C: "C p = scc vb p FORWARD"
    and D: "determinedBy (D p) = scale_at cb p" "constraints (D p) = [scale_at cb p]" "v_mark (D p) \<noteq> m"
    and bounds: "in_int (v_value (S p) * v_value A)" "in_int (v_value (S p) * v_value A + v_value B)"
  shows "addPropagate_loop remove (Suc k) c m (scale_at cb p # ds) (heap h (pvars vb n A B S D W) (pcons cb n Y C R)) =
    addPropagate_loop remove k c m ds
      (heap h (pvars vb n A B S (D(p := forward_result A B (S p) (D p))) W) (pcons cb n Y C R))"
proof -
  let ?H = "heap h (pvars vb n A B S D W) (pcons cb n Y C R)"
  let ?D = "D(p := forward_result A B (S p) (D p))"
  let ?H' = "heap h (pvars vb n A B S ?D W) (pcons cb n Y C R)"
  have "Constraint_getOutput (scale_at cb p) ?H = Inr (dst_at vb p)" "Constraint_getOutput (scale_at cb p) ?H' = Inr (dst_at vb p)"
    using p C by (simp_all add: getOutput_eq)
  moreover have "Variable_getMark (dst_at vb p) ?H = Inr (v_mark (D p))"
    using p by (simp add: variable_ops get_var_eq)
  moreover have "Constraint_recalculate (scale_at cb p) ?H = Inr ?H'"
    using recalculate_scale_forward [of "scale_at cb p" "pcons cb n Y C R" vb p "pvars vb n A B S D W" "S p" "D p" A B h] p pos C bounds
    by simp
  moreover have "Planner_addConstraintsConsumingTo (dst_at vb p) ds ?H' = Inr ds"
    using addConstraintsConsumingTo_eq [of "dst_at vb p" ?H' "?D p" ds] p pos D C by simp
  ultimately show ?thesis using D by simp
qed

section \<open>Changing a source\<close>

text \<open>A pair whose source the edit constraint \<open>e\<close> determines.\<close>

lemma change_src_add:
  assumes p: "p < n" and pos: "0 < vb" "0 < cb" and e: "cb + 2 * n \<le> e"
    and m: "ms < m" "md < m" "currentMark h + 1 = m" "- INT_MAX \<le> currentMark h" "currentMark h < INT_MAX"
    and h: "strs h = all_strengths"
    and A: "v_value A = a" "v_stay A" and B: "v_value B = b" "v_stay B"
    and S: "S p = cvar x [stay_at cb p, scale_at cb p] (stay_at cb p) ms default_strength True"
    and D: "D p = cvar z [scale_at cb p] (scale_at cb p) md default_strength True"
    and Y: "Y p = unc StayConstraintType default_strength (src_at vb p) True" and C: "C p = scc vb p FORWARD"
    and bounds: "in_int (x * a)" "in_int (x * a + b)"
  shows "AbstractConstraint_addConstraint (Suc (Suc f)) e (heap h (pvars vb n A B S D W)
      (pcons cb n Y C [e \<mapsto> unc EditConstraintType preferred_strength (src_at vb p) False])) =
    Inr (heap (h\<lparr>currentMark := m\<rparr>) (pvars vb n A B
        (S(p := cvar x [stay_at cb p, scale_at cb p, e] e m preferred_strength False))
        (D(p := cvar z [scale_at cb p] (scale_at cb p) md preferred_strength False)) W)
      (pcons cb n (Y(p := unc StayConstraintType default_strength (src_at vb p) False)) C
        [e \<mapsto> unc EditConstraintType preferred_strength (src_at vb p) True]))"
proof -
  let ?f = "Suc f"
  let ?E = "unc EditConstraintType preferred_strength (src_at vb p)"
  let ?h = "h\<lparr>currentMark := m\<rparr>" and ?remove = "Planner_incrementalRemove (Suc ?f)"
  have e0: "0 < e" and ne: "e \<noteq> stay_at cb p" "stay_at cb p \<noteq> e" "scale_at cb p \<noteq> e" "e \<noteq> scale_at cb p"
    using e p pos by (auto simp: stay_at_def scale_at_def)
  let ?X = "cvar x [stay_at cb p, scale_at cb p, e] (stay_at cb p) ms default_strength True"
  let ?Y = "Y(p := unc StayConstraintType default_strength (src_at vb p) False)"
  let ?X' = "cvar x [stay_at cb p, scale_at cb p, e] e ms preferred_strength False"
  let ?D' = "D(p := cvar z [scale_at cb p] (scale_at cb p) md preferred_strength False)"
  let ?V = "pvars vb n A B (S(p := ?X)) D W" and ?K = "pcons cb n Y C [e \<mapsto> ?E False]"
  let ?K' = "pcons cb n ?Y C [e \<mapsto> ?E True]"
  have add: "Constraint_addToGraph e (heap h (pvars vb n A B S D W) ?K) = Inr (heap h ?V ?K)"
    using addToGraph_unary [where c = e and K = ?K and t = EditConstraintType and s = preferred_strength and v = "src_at vb p"
        and b = False and V = "pvars vb n A B S D W" and X = "S p" and h = h] p e e0 S by simp
  have ds: "Planner_addConstraintsConsumingTo (src_at vb p) [] (heap ?h (?V(src_at vb p \<mapsto> ?X')) ?K') = Inr [scale_at cb p]"
    using addConstraintsConsumingTo_eq [of "src_at vb p" "heap ?h (?V(src_at vb p \<mapsto> ?X')) ?K'" ?X' "[]"] p pos e C ne by simp
  have rest: "addPropagate_loop ?remove ?f e m [scale_at cb p] (heap ?h (?V(src_at vb p \<mapsto> ?X')) ?K') =
      Inr (True, heap ?h (pvars vb n A B (S(p := ?X')) ?D' W) ?K')"
    using propagate_scale [where p = p and n = n and vb = vb and cb = cb and C = C and D = D and m = m and S = "S(p := ?X')"
      and A = A and B = B and remove = ?remove and k = f and c = e and ds = "[]" and h = ?h and W = W and Y = ?Y and R = "[e \<mapsto> ?E True]"]
      p pos C D m bounds A B by simp
  have "satisfy_with ?remove (Suc ?f) e m (heap ?h ?V ?K) =
      Inr (stay_at cb p, heap ?h ((pvars vb n A B (S(p := ?X')) ?D' W)(src_at vb p \<mapsto> ?X'\<lparr>v_mark := m\<rparr>)) ?K')"
    using p pos e0 e ne Y m rest ds
    by (intro satisfy_unary [where X = ?X and X' = ?X' and X'' = ?X' and s = preferred_strength and t = EditConstraintType
        and v = "src_at vb p" and old = False and ds = "[scale_at cb p]"]) simp_all
  moreover have "satisfy_with ?remove (Suc ?f) (stay_at cb p) m
      (heap ?h ((pvars vb n A B (S(p := ?X')) ?D' W)(src_at vb p \<mapsto> ?X'\<lparr>v_mark := m\<rparr>)) ?K') =
      Inr (0, heap ?h ((pvars vb n A B (S(p := ?X')) ?D' W)(src_at vb p \<mapsto> ?X'\<lparr>v_mark := m\<rparr>)) ?K')"
    using p pos h by (subst satisfy_unary_fails [where s = default_strength and t = StayConstraintType and v = "src_at vb p"
        and old = False and X = "?X'\<lparr>v_mark := m\<rparr>" and r = required_strength]) simp_all
  ultimately show ?thesis
    using m p pos by (simp add: AbstractConstraint_addConstraint_def add Planner_incrementalAdd_def incrementalAdd_runs
      incrementalAdd_loop_step del: Planner_incrementalRemove.simps)
qed

section \<open>Plans\<close>

lemma plan_edit:
  assumes e: "0 < e" "K e = Some (unc EditConstraintType s v True)" and v: "v \<noteq> 0" "V v = Some X" "v_mark X \<noteq> currentMark h + 1"
    and m: "- INT_MAX \<le> currentMark h" "currentMark h < INT_MAX"
    and ds: "Planner_addConstraintsConsumingTo v [] (heap (h\<lparr>currentMark := currentMark h + 1\<rparr>)
      (V(v \<mapsto> X\<lparr>v_mark := currentMark h + 1\<rparr>)) K) = Inr ds"
  shows "Planner_extractPlanFromConstraints (Suc k) [e] (heap h V K) =
    makePlan_loop k (currentMark h + 1) ds [e] (heap (h\<lparr>currentMark := currentMark h + 1\<rparr>) (V(v \<mapsto> X\<lparr>v_mark := currentMark h + 1\<rparr>)) K)"
proof -
  let ?h = "h\<lparr>currentMark := currentMark h + 1\<rparr>"
  have "source_step (heap h V K) e [] = Inr [e]"
    using e by (simp add: source_step_def Constraint_isInput_def get_con_eq isSatisfied_eq)
  moreover have "Constraint_getOutput e (heap ?h V K) = Inr v"
    using e by (simp add: getOutput_eq)
  moreover have "AbstractConstraint_inputsKnown e (currentMark h + 1) (heap ?h V K) = Inr True"
    using e by (simp add: AbstractConstraint_inputsKnown_def Constraint_inputsHasOne_def get_con_eq)
  ultimately show ?thesis
    using v ds m by (simp add: Planner_extractPlanFromConstraints_def Planner_makePlan_def Planner_newMark_def c_int_ok
        variable_ops get_var_eq)
qed

lemma plan_scale:
  assumes p: "p < n" and pos: "0 < vb" "0 < cb" and C: "C p = scc vb p FORWARD"
    and D: "determinedBy (D p) = scale_at cb p" "constraints (D p) = [scale_at cb p]" "v_mark (D p) \<noteq> m"
    and S: "v_mark (S p) = m \<or> v_stay (S p)"
  shows "makePlan_loop (Suc k) m (scale_at cb p # ds) plan (heap h (pvars vb n A B S D W) (pcons cb n Y C R)) =
    makePlan_loop k m ds (plan @ [scale_at cb p])
      (heap h (pvars vb n A B S (D(p := (D p)\<lparr>v_mark := m\<rparr>)) W) (pcons cb n Y C R))"
proof -
  let ?H = "heap h (pvars vb n A B S D W) (pcons cb n Y C R)"
  let ?D = "D(p := (D p)\<lparr>v_mark := m\<rparr>)"
  let ?H' = "heap h (pvars vb n A B S ?D W) (pcons cb n Y C R)"
  have "Constraint_getOutput (scale_at cb p) ?H = Inr (dst_at vb p)"
    using p C by (simp add: getOutput_eq)
  moreover have "AbstractConstraint_inputsKnown (scale_at cb p) m ?H = Inr True"
    using p C S by (auto simp: AbstractConstraint_inputsKnown_def Constraint_inputsHasOne_def get_con_eq binary_input_def
        AbstractConstraint_inputsKnown_iter_def variable_ops get_var_eq)
  moreover have "Planner_addConstraintsConsumingTo (dst_at vb p) ds ?H' = Inr ds"
    using addConstraintsConsumingTo_eq [of "dst_at vb p" ?H' "?D p" ds] p pos D C by simp
  ultimately show ?thesis using D p by (simp add: variable_ops get_var_eq)
qed

lemma repeat_idem: "f H = Inr H' \<Longrightarrow> f H' = Inr H' \<Longrightarrow> rfold (\<lambda>i. f) [0..<Suc k] H = Inr H'"
proof (induction k)
  case (Suc k)
  then show ?case
    by (simp add: rfold_append upt_Suc_append [of 0 "Suc k"] del: upt_Suc)
qed simp

lemma change_src_plan:
  assumes p: "p < n" and pos: "0 < vb" "0 < cb" and e: "cb + 2 * n \<le> e"
    and m: "ms < m" "md < m" "currentMark h + 1 = m" "- INT_MAX \<le> currentMark h" "currentMark h < INT_MAX"
    and S: "S p = cvar x [stay_at cb p, scale_at cb p, e] e ms preferred_strength False"
    and D: "D p = cvar z [scale_at cb p] (scale_at cb p) md preferred_strength False"
    and Y: "Y p = unc StayConstraintType default_strength (src_at vb p) False" and C: "C p = scc vb p FORWARD"
    and R: "R e = Some (unc EditConstraintType preferred_strength (src_at vb p) True)"
  shows "Planner_extractPlanFromConstraints (Suc (Suc k)) [e] (heap h (pvars vb n A B S D W) (pcons cb n Y C R)) =
    Inr ([e, scale_at cb p], heap (h\<lparr>currentMark := m\<rparr>) (pvars vb n A B
        (S(p := cvar x [stay_at cb p, scale_at cb p, e] e m preferred_strength False))
        (D(p := cvar z [scale_at cb p] (scale_at cb p) m preferred_strength False)) W) (pcons cb n Y C R))"
proof -
  let ?h = "h\<lparr>currentMark := m\<rparr>"
  have e0: "0 < e" and ne: "stay_at cb p \<noteq> e" "scale_at cb p \<noteq> e"
    using e p pos by (auto simp: stay_at_def scale_at_def)
  let ?X = "cvar x [stay_at cb p, scale_at cb p, e] e m preferred_strength False"
  have ds: "Planner_addConstraintsConsumingTo (src_at vb p) [] (heap ?h (pvars vb n A B (S(p := ?X)) D W) (pcons cb n Y C R)) =
      Inr [scale_at cb p]"
    using addConstraintsConsumingTo_eq [of "src_at vb p" "heap ?h (pvars vb n A B (S(p := ?X)) D W) (pcons cb n Y C R)" ?X "[]"]
      p pos e C Y R ne by simp
  then show ?thesis
    using plan_edit [where e = e and K = "pcons cb n Y C R" and v = "src_at vb p" and V = "pvars vb n A B S D W" and X = "S p"
        and s = preferred_strength and h = h and ds = "[scale_at cb p]" and k = "Suc k"]
      plan_scale [where p = p and n = n and vb = vb and cb = cb and C = C and D = D and m = m and S = "S(p := ?X)" and A = A and B = B
        and k = k and ds = "[]" and plan = "[e]" and h = ?h and W = W and Y = Y and R = R]
      p pos e e0 m S D C R by simp
qed

lemma change_src_execute:
  assumes p: "p < n" and pos: "0 < vb" "0 < cb" and e: "cb + 2 * n \<le> e"
    and A: "v_value A = a" and B: "v_value B = b"
    and S: "S p = cvar x cs d ms ws st" and D: "D p = cvar z cs' d' md ws' st'"
    and C: "C p = scc vb p FORWARD"
    and R: "R e = Some (unc EditConstraintType preferred_strength (src_at vb p) True)"
    and bounds: "in_int (y * a)" "in_int (y * a + b)"
  shows "rfold (\<lambda>i h. rbind (Variable_setValue (src_at vb p) y h) (\<lambda>h. Plan_execute [e, scale_at cb p] h)) [0..<10]
      (heap h (pvars vb n A B S D W) (pcons cb n Y C R)) =
    Inr (heap h (pvars vb n A B (S(p := cvar y cs d ms ws st)) (D(p := cvar (y * a + b) cs' d' md ws' st')) W) (pcons cb n Y C R))"
proof -
  have e0: "0 < e" using e p pos by simp
  have "rbind (Variable_setValue (src_at vb p) y (heap h (pvars vb n A B S D W) (pcons cb n Y C R)))
      (\<lambda>h. Plan_execute [e, scale_at cb p] h) =
    Inr (heap h (pvars vb n A B (S(p := cvar y cs d ms ws st)) (D(p := cvar (y * a + b) cs' d' md ws' st')) W) (pcons cb n Y C R))"
    if "S p = cvar x cs d ms ws st" "D p = cvar z cs' d' md ws' st'" for S D x z
  proof -
    have "Constraint_execute e (heap h V (pcons cb n Y C R)) = Inr (heap h V (pcons cb n Y C R))" for V
      using e e0 R by (simp add: Constraint_execute_def get_con_eq)
    then show ?thesis
      using execute_scale_forward [of "scale_at cb p" "pcons cb n Y C R" vb p "pvars vb n A B (S(p := cvar y cs d ms ws st)) D W"
          "cvar y cs d ms ws st" "D p" A B h] p pos that C A B bounds
      by (simp add: Plan_execute_def variable_ops get_var_eq)
  qed
  note run = this
  have ten: "[0..<10] = [0..<Suc 9]" by simp
  show ?thesis
    unfolding ten using run [of S x D z] S D
      run [of "S(p := cvar y cs d ms ws st)" y "D(p := cvar (y * a + b) cs' d' md ws' st')" "y * a + b"]
    by (intro repeat_idem) simp_all
qed

section \<open>Removing an edit constraint\<close>

lemma Vector_sort_short:
  "Vector_sort (list_vector []) cmp = Inr (list_vector [])"
  "Vector_sort (list_vector [c]) cmp = Inr (list_vector [c])"
  by (simp_all add: Vector_sort_def list_vector_def Vector_size_def vsort.simps)

lemma remove_edit_start:
  assumes e: "0 < e" "K e = Some (unc EditConstraintType s v True)"
    and v: "v \<noteq> 0" "V v = Some (cvar x cs e mk ws st)" and h: "strs h = all_strengths"
    and loop: "removePropagate_loop f [v] [] (heap h (V(v \<mapsto> cvar x (filter (\<lambda>d. d \<noteq> e) cs) 0 mk weakest_strength True))
      (K(e \<mapsto> unc EditConstraintType s v False))) = Inr (un, H)" and short: "length un \<le> 1"
  shows "Planner_incrementalRemove (Suc f) e (heap h V K) =
    rfold (incrementalAdd_with (Planner_incrementalRemove f) f) un H"
proof -
  let ?K = "K(e \<mapsto> unc EditConstraintType s v False)"
  let ?V = "V(v \<mapsto> cvar x (filter (\<lambda>d. d \<noteq> e) cs) 0 mk ws st)"
  have "Constraint_getOutput e (heap h V K) = Inr v"
    using e by (simp add: getOutput_eq)
  moreover have "Constraint_markUnsatisfied e (heap h V K) = Inr (heap h V ?K)"
    using e by (simp add: markUnsatisfied_eq)
  moreover have "Constraint_removeFromGraph e (heap h V ?K) = Inr (heap h ?V ?K)"
    using e v by (simp add: Constraint_removeFromGraph_def UnaryConstraint_removeFromGraph_def get_con_eq
        remove_unless_null_def upd_con_def variable_ops get_var_eq)
  moreover have "Vector_sort (list_vector un) cmp = Inr (list_vector un)" for cmp
    using short by (cases un) (simp_all add: Vector_sort_short)
  ultimately show ?thesis
    using loop v h by (simp add: Planner_removePropagateFrom_def variable_ops get_var_eq)
qed

text \<open>Destroying the edit constraint and disposing of it, once it has been removed.\<close>

lemma destroy_edit:
  assumes e: "cb + 2 * n \<le> e" "0 < e"
    and remove: "Planner_incrementalRemove f e (heap h V (pcons cb n Y C [e \<mapsto> unc EditConstraintType s v True])) =
      Inr (heap h' V' (pcons cb n Y' C' [e \<mapsto> unc EditConstraintType s v False]))"
    and v: "v \<noteq> 0" "V' v = Some X" "e \<notin> set (constraints X)" "determinedBy X \<noteq> e"
  shows "rbind (AbstractConstraint_destroyConstraint f e (heap h V (pcons cb n Y C [e \<mapsto> unc EditConstraintType s v True])))
      (Constraint_dispose e) = Inr (heap h' V' (pcons cb n Y' C' Map.empty))"
proof -
  let ?K = "pcons cb n Y' C' [e \<mapsto> unc EditConstraintType s v False]"
  have "filter (\<lambda>d. d \<noteq> e) (constraints X) = constraints X" using v(3) by (auto simp: filter_id_conv)
  then have "V'(v \<mapsto> X\<lparr>constraints := filter (\<lambda>d. d \<noteq> e) (constraints X), determinedBy := determinedBy X\<rparr>) = V'"
    using v(2) by (simp add: fun_upd_idem)
  then have "Constraint_removeFromGraph e (heap h' V' ?K) = Inr (heap h' V' ?K)"
    using e v by (simp add: Constraint_removeFromGraph_def UnaryConstraint_removeFromGraph_def get_con_eq
        remove_unless_null_def upd_con_def variable_ops get_var_eq)
  moreover have "Constraint_dispose e (heap h' V' ?K) = Inr (heap h' V' (pcons cb n Y' C' Map.empty))"
    using e by (simp add: Constraint_dispose_def get_con_eq)
  ultimately show ?thesis
    using remove e by (simp add: AbstractConstraint_destroyConstraint_def isSatisfied_eq)
qed

lemma recalculate_scale:
  assumes p: "p < n" and pos: "0 < vb" "0 < cb" and C: "C p = scc vb p FORWARD"
    and bounds: "in_int (v_value (S p) * v_value A)" "in_int (v_value (S p) * v_value A + v_value B)"
  shows "Planner_removePropagateFrom_iter1 (scale_at cb p) (todo, heap h (pvars vb n A B S D W) (pcons cb n Y C R)) =
    Inr (todo @ [dst_at vb p], heap h (pvars vb n A B S (D(p := forward_result A B (S p) (D p))) W) (pcons cb n Y C R))"
  using recalculate_scale_forward [of "scale_at cb p" "pcons cb n Y C R" vb p "pvars vb n A B S D W" "S p" "D p" A B h] assms
  by (simp add: Planner_removePropagateFrom_iter1_def getOutput_eq)

text \<open>The removal passes over the destination of a pair.\<close>

lemma remove_loop_dst:
  assumes p: "p < n" and pos: "0 < vb" "0 < cb" and C: "C p = scc vb p FORWARD"
    and D: "determinedBy (D p) = scale_at cb p" "constraints (D p) = [scale_at cb p]"
  shows "removePropagate_loop (Suc k) (dst_at vb p # todo) un (heap h (pvars vb n A B S D W) (pcons cb n Y C R)) =
    removePropagate_loop k todo un (heap h (pvars vb n A B S D W) (pcons cb n Y C R))"
proof -
  let ?H = "heap h (pvars vb n A B S D W) (pcons cb n Y C R)"
  have "Constraint_isSatisfied (scale_at cb p) ?H = Inr True" using p C by (simp add: isSatisfied_eq)
  with p D show ?thesis
    by (simp add: unsatisfied_step_def Planner_constraintsConsuming_def consuming_step_def variable_ops get_var_eq)
qed

lemma change_src_loop:
  assumes p: "p < n" and pos: "0 < vb" "0 < cb"
    and A: "v_value A = a" "v_stay A" and B: "v_value B = b" "v_stay B"
    and S: "S p = cvar x [stay_at cb p, scale_at cb p] 0 ms weakest_strength True"
    and D: "D p = cvar z [scale_at cb p] (scale_at cb p) md ws st"
    and Y: "Y p = unc StayConstraintType default_strength (src_at vb p) False" and C: "C p = scc vb p FORWARD"
    and bounds: "in_int (x * a)" "in_int (x * a + b)"
  shows "removePropagate_loop (Suc (Suc k)) [src_at vb p] [] (heap h (pvars vb n A B S D W) (pcons cb n Y C R)) =
    Inr ([stay_at cb p], heap h (pvars vb n A B S (D(p := cvar (x * a + b) [scale_at cb p] (scale_at cb p) md weakest_strength True)) W)
      (pcons cb n Y C R))"
proof -
  let ?H = "heap h (pvars vb n A B S D W) (pcons cb n Y C R)"
  let ?D = "D(p := cvar (x * a + b) [scale_at cb p] (scale_at cb p) md weakest_strength True)"
  have sat: "Constraint_isSatisfied (scale_at cb p) ?H = Inr True" "Constraint_isSatisfied (stay_at cb p) ?H = Inr False"
    using p C Y pos by (simp_all add: isSatisfied_eq)
  have "Planner_removePropagateFrom_iter1 (scale_at cb p) ([], ?H) = Inr ([dst_at vb p], heap h (pvars vb n A B S ?D W) (pcons cb n Y C R))"
    using recalculate_scale [where p = p and n = n and vb = vb and cb = cb and C = C and S = S and A = A and B = B and D = D and h = h
        and W = W and Y = Y and R = R and todo = "[]"] p pos C S D A B bounds by simp
  moreover have "removePropagate_loop (Suc k) [dst_at vb p] [stay_at cb p] (heap h (pvars vb n A B S ?D W) (pcons cb n Y C R)) =
      Inr ([stay_at cb p], heap h (pvars vb n A B S ?D W) (pcons cb n Y C R))"
    using remove_loop_dst [where p = p and n = n and vb = vb and cb = cb and C = C and D = ?D and k = k and todo = "[]"
        and un = "[stay_at cb p]" and h = h and A = A and B = B and S = S and W = W and Y = Y and R = R] p pos C by simp
  moreover have "Variable_getConstraints (src_at vb p) ?H = Inr [stay_at cb p, scale_at cb p]"
    "Variable_getDeterminedBy (src_at vb p) ?H = Inr 0"
    using p S by (simp_all add: variable_ops get_var_eq)
  ultimately show ?thesis
    using sat pos by (simp add: unsatisfied_step_def Planner_constraintsConsuming_def consuming_step_def)
qed

text \<open>The stay constraint of a pair is satisfied again.\<close>

lemma restore_stay:
  assumes p: "p < n" and pos: "0 < vb" "0 < cb"
    and m: "ms < m" "md < m" "currentMark h + 1 = m" "- INT_MAX \<le> currentMark h" "currentMark h < INT_MAX"
    and A: "v_value A = a" "v_stay A" and B: "v_value B = b" "v_stay B"
    and S: "S p = cvar x [stay_at cb p, scale_at cb p] 0 ms weakest_strength True"
    and D: "D p = cvar z [scale_at cb p] (scale_at cb p) md weakest_strength True"
    and Y: "Y p = unc StayConstraintType default_strength (src_at vb p) False" and C: "C p = scc vb p FORWARD"
    and bounds: "in_int (x * a)" "in_int (x * a + b)"
  shows "incrementalAdd_with remove (Suc (Suc f)) (stay_at cb p) (heap h (pvars vb n A B S D W) (pcons cb n Y C R)) =
    Inr (heap (h\<lparr>currentMark := m\<rparr>) (pvars vb n A B
        (S(p := cvar x [stay_at cb p, scale_at cb p] (stay_at cb p) m default_strength True))
        (D(p := cvar (x * a + b) [scale_at cb p] (scale_at cb p) md default_strength True)) W)
      (pcons cb n (Y(p := unc StayConstraintType default_strength (src_at vb p) True)) C R))"
proof -
  let ?h = "h\<lparr>currentMark := m\<rparr>"
  let ?Y = "Y(p := unc StayConstraintType default_strength (src_at vb p) True)"
  let ?X = "cvar x [stay_at cb p, scale_at cb p] (stay_at cb p) ms default_strength True"
  let ?D = "D(p := cvar (x * a + b) [scale_at cb p] (scale_at cb p) md default_strength True)"
  let ?V = "pvars vb n A B S D W" and ?K' = "pcons cb n ?Y C R"
  have ds: "Planner_addConstraintsConsumingTo (src_at vb p) [] (heap ?h (?V(src_at vb p \<mapsto> ?X)) ?K') = Inr [scale_at cb p]"
    using addConstraintsConsumingTo_eq [of "src_at vb p" "heap ?h (?V(src_at vb p \<mapsto> ?X)) ?K'" ?X "[]"] p pos C by simp
  have rest: "addPropagate_loop remove (Suc f) (stay_at cb p) m [scale_at cb p] (heap ?h (?V(src_at vb p \<mapsto> ?X)) ?K') =
      Inr (True, heap ?h (pvars vb n A B (S(p := ?X)) ?D W) ?K')"
    using propagate_scale [where p = p and n = n and vb = vb and cb = cb and C = C and D = D and m = m and S = "S(p := ?X)"
      and A = A and B = B and remove = remove and k = f and c = "stay_at cb p" and ds = "[]" and h = ?h and W = W and Y = ?Y and R = R]
      p pos C D m bounds A B by simp
  have "satisfy_with remove (Suc (Suc f)) (stay_at cb p) m (heap ?h ?V (pcons cb n Y C R)) =
      Inr (0, heap ?h ((pvars vb n A B (S(p := ?X)) ?D W)(src_at vb p \<mapsto> ?X\<lparr>v_mark := m\<rparr>)) ?K')"
    using p pos Y m S rest ds
    by (intro satisfy_unary [where X = "S p" and X' = ?X and X'' = ?X and s = default_strength and t = StayConstraintType
        and v = "src_at vb p" and old = False and ds = "[scale_at cb p]"]) simp_all
  then show ?thesis using m p by (simp add: incrementalAdd_runs)
qed

section \<open>The settled state\<close>

text \<open>
  The pairs between two changes: every stay and scale constraint is satisfied, the sources have the
  values \<open>sval\<close>, the destinations \<open>dval\<close>; nothing is said of the marks but that none is from the
  future.
\<close>

definition proj_heap ::
    "vid \<Rightarrow> cid \<Rightarrow> nat \<Rightarrow> int \<Rightarrow> int \<Rightarrow> (nat \<Rightarrow> int) \<Rightarrow> (nat \<Rightarrow> int) \<Rightarrow>
      int \<Rightarrow> int \<Rightarrow> (nat \<Rightarrow> int) \<Rightarrow> (nat \<Rightarrow> int) \<Rightarrow> deltablue \<Rightarrow> deltablue" where
  "proj_heap vb cb n a b sval dval ma mb ms md h = heap h
    (pvars vb n (cvar a (map (scale_at cb) [0..<n]) 0 ma weakest_strength True)
      (cvar b (map (scale_at cb) [0..<n]) 0 mb weakest_strength True)
      (\<lambda>p. cvar (sval p) [stay_at cb p, scale_at cb p] (stay_at cb p) (ms p) default_strength True)
      (\<lambda>p. cvar (dval p) [scale_at cb p] (scale_at cb p) (md p) default_strength True) Map.empty)
    (pcons cb n (\<lambda>p. unc StayConstraintType default_strength (src_at vb p) True) (\<lambda>p. scc vb p FORWARD) Map.empty)"

definition proj_state ::
    "vid \<Rightarrow> cid \<Rightarrow> nat \<Rightarrow> int \<Rightarrow> int \<Rightarrow> (nat \<Rightarrow> int) \<Rightarrow> (nat \<Rightarrow> int) \<Rightarrow> deltablue \<Rightarrow> bool" where
  "proj_state vb cb n a b sval dval h \<longleftrightarrow>
    strs h = all_strengths \<and> 0 < vb \<and> 0 < cb \<and> cb + 2 * n \<le> c_next h \<and> - INT_MAX \<le> currentMark h \<and>
    (\<exists>ma mb ms md. ma \<le> currentMark h \<and> mb \<le> currentMark h \<and> (\<forall>p. ms p \<le> currentMark h \<and> md p \<le> currentMark h) \<and>
      h = proj_heap vb cb n a b sval dval ma mb ms md h)"

text \<open>What a change does to everything but the pairs: it leaves \<open>marks\<close> more marks used.\<close>

definition after_change :: "int \<Rightarrow> deltablue \<Rightarrow> deltablue \<Rightarrow> bool" where
  "after_change marks h h' \<longleftrightarrow> currentMark h' = currentMark h + marks \<and> v_next h' = v_next h \<and> c_next h' = Suc (c_next h)"

lemma heap_heap [simp]: "heap (heap h V K) V' K' = heap h V' K'"
  by (simp add: heap_def)

lemma proj_stateI:
  assumes "strs h = all_strengths" "0 < vb" "0 < cb" "cb + 2 * n \<le> c_next h" "- INT_MAX \<le> currentMark h"
    and "ma \<le> currentMark h" "mb \<le> currentMark h" "\<And>p. ms p \<le> currentMark h" "\<And>p. md p \<le> currentMark h"
  shows "proj_state vb cb n a b sval dval (proj_heap vb cb n a b sval dval ma mb ms md h)"
  using assms unfolding proj_state_def
  by (intro conjI exI [of _ ma] exI [of _ mb] exI [of _ ms] exI [of _ md]) (simp_all add: proj_heap_def)

lemma change_starts:
  assumes "0 < c_next h" "strs h = all_strengths"
  shows "Planner_change k v y (heap h V K) =
    rbind (AbstractConstraint_addConstraint k (c_next h) (heap (h\<lparr>c_next := Suc (c_next h)\<rparr>) V
      (K(c_next h \<mapsto> unc EditConstraintType preferred_strength v False)))) (\<lambda>h'.
    rbind (Planner_extractPlanFromConstraints k [c_next h] h') (\<lambda>(plan, h').
    rbind (rfold (\<lambda>i h'. rbind (Variable_setValue v y h') (\<lambda>h'. Plan_execute plan h')) [0..<10] h') (\<lambda>h'.
    rbind (AbstractConstraint_destroyConstraint k (c_next h) h') (\<lambda>h'.
      Constraint_dispose (c_next h) h'))))"
  using assms by (simp add: Planner_change_def Edit_create_eq new_con_heap unary_con_unc rbind_assoc)

lemma change_src:
  assumes st: "proj_state vb cb n a b sval dval h" and p: "p < n" and m: "currentMark h + 3 \<le> INT_MAX"
    and bounds: "in_int (sval p * a)" "in_int (sval p * a + b)" "in_int (y * a)" "in_int (y * a + b)" and k: "4 \<le> k"
  shows "\<exists>h'. Planner_change k (src_at vb p) y h = Inr h' \<and>
    proj_state vb cb n a b (sval(p := y)) (dval(p := y * a + b)) h' \<and> after_change 3 h h'"
proof -
  obtain ma mb ms md where
    h: "strs h = all_strengths" "0 < vb" "0 < cb" "cb + 2 * n \<le> c_next h" "- INT_MAX \<le> currentMark h"
    and mk: "ma \<le> currentMark h" "mb \<le> currentMark h" "\<forall>p. ms p \<le> currentMark h \<and> md p \<le> currentMark h"
    and heap: "h = proj_heap vb cb n a b sval dval ma mb ms md h"
    using st unfolding proj_state_def by blast
  obtain f where f: "k = Suc (Suc (Suc (Suc f)))" using k by (intro that [of "k - 4"]) simp
  define e where "e = c_next h"
  define A where "A = cvar a (map (scale_at cb) [0..<n]) 0 ma weakest_strength True"
  define B where "B = cvar b (map (scale_at cb) [0..<n]) 0 mb weakest_strength True"
  define S where "S = (\<lambda>p. cvar (sval p) [stay_at cb p, scale_at cb p] (stay_at cb p) (ms p) default_strength True)"
  define D where "D = (\<lambda>p. cvar (dval p) [scale_at cb p] (scale_at cb p) (md p) default_strength True)"
  define Y where "Y = (\<lambda>p. unc StayConstraintType default_strength (src_at vb p) True)"
  define C where "C = (\<lambda>p. scc vb p FORWARD)"
  let ?m = "currentMark h"
  define h1 where "h1 = h\<lparr>c_next := Suc e\<rparr>"
  define h2 where "h2 = h1\<lparr>currentMark := ?m + 1\<rparr>"
  define h3 where "h3 = h2\<lparr>currentMark := ?m + 2\<rparr>"
  define h4 where "h4 = h3\<lparr>currentMark := ?m + 3\<rparr>"
  note hs = h1_def h2_def h3_def h4_def
  let ?E = "\<lambda>b. [e \<mapsto> unc EditConstraintType preferred_strength (src_at vb p) b]"
  let ?Y = "Y(p := unc StayConstraintType default_strength (src_at vb p) False)"
  let ?S = "\<lambda>y es d m ws st. S(p := cvar y ([stay_at cb p, scale_at cb p] @ es) d m ws st)"
  let ?D = "\<lambda>z m ws st. D(p := cvar z [scale_at cb p] (scale_at cb p) m ws st)"
  have e: "0 < e" "cb + 2 * n \<le> e" "e \<noteq> stay_at cb p" "e \<noteq> scale_at cb p"
    using h p by (auto simp: e_def stay_at_def scale_at_def)
  have mkp: "ms p \<le> ?m" "md p \<le> ?m" using mk(3) by simp_all
  have 1: "AbstractConstraint_addConstraint k e (heap h1 (pvars vb n A B S D Map.empty) (pcons cb n Y C (?E False))) =
      Inr (heap h2 (pvars vb n A B (?S (sval p) [e] e (?m + 1) preferred_strength False) (?D (dval p) (md p) preferred_strength False) Map.empty)
        (pcons cb n ?Y C (?E True)))"
    using change_src_add [where p = p and n = n and vb = vb and cb = cb and e = e and ms = "ms p" and m = "?m + 1" and md = "md p"
        and h = h1 and A = A and B = B and S = S and D = D and Y = Y and C = C and W = Map.empty and f = "Suc (Suc f)"
        and x = "sval p" and z = "dval p"]
      p h e mkp m bounds by (simp add: f hs A_def B_def S_def D_def Y_def C_def)
  have 2: "Planner_extractPlanFromConstraints k [e] (heap h2 (pvars vb n A B (?S (sval p) [e] e (?m + 1) preferred_strength False)
        (?D (dval p) (md p) preferred_strength False) Map.empty) (pcons cb n ?Y C (?E True))) =
      Inr ([e, scale_at cb p], heap h3 (pvars vb n A B (?S (sval p) [e] e (?m + 2) preferred_strength False)
        (?D (dval p) (?m + 2) preferred_strength False) Map.empty) (pcons cb n ?Y C (?E True)))"
    using change_src_plan [where p = p and n = n and vb = vb and cb = cb and e = e and ms = "?m + 1" and m = "?m + 2" and md = "md p"
        and h = h2 and A = A and B = B and S = "?S (sval p) [e] e (?m + 1) preferred_strength False"
        and D = "?D (dval p) (md p) preferred_strength False" and Y = ?Y and C = C and R = "?E True" and W = Map.empty
        and k = "Suc (Suc f)" and x = "sval p" and z = "dval p"]
      p h e mkp m by (simp add: f hs C_def)
  have 3: "rfold (\<lambda>i h. rbind (Variable_setValue (src_at vb p) y h) (\<lambda>h. Plan_execute [e, scale_at cb p] h)) [0..<10]
      (heap h3 (pvars vb n A B (?S (sval p) [e] e (?m + 2) preferred_strength False)
        (?D (dval p) (?m + 2) preferred_strength False) Map.empty) (pcons cb n ?Y C (?E True))) =
    Inr (heap h3 (pvars vb n A B (?S y [e] e (?m + 2) preferred_strength False)
        (?D (y * a + b) (?m + 2) preferred_strength False) Map.empty) (pcons cb n ?Y C (?E True)))"
    using change_src_execute [where p = p and n = n and vb = vb and cb = cb and e = e and A = A and a = a and B = B and b = b
        and S = "?S (sval p) [e] e (?m + 2) preferred_strength False" and D = "?D (dval p) (?m + 2) preferred_strength False"
        and C = C and R = "?E True" and y = y and h = h3 and W = Map.empty and Y = ?Y and x = "sval p" and z = "dval p"]
      p h e bounds by (simp add: A_def B_def C_def)
  have 4: "Planner_incrementalRemove k e (heap h3 (pvars vb n A B (?S y [e] e (?m + 2) preferred_strength False)
        (?D (y * a + b) (?m + 2) preferred_strength False) Map.empty) (pcons cb n ?Y C (?E True))) =
    Inr (heap h4 (pvars vb n A B (?S y [] (stay_at cb p) (?m + 3) default_strength True)
        (?D (y * a + b) (?m + 2) default_strength True) Map.empty) (pcons cb n Y C (?E False)))"
  proof -
    have "removePropagate_loop (Suc (Suc (Suc f))) [src_at vb p] []
      (heap h3 (pvars vb n A B (?S y [] 0 (?m + 2) weakest_strength True)
        (?D (y * a + b) (?m + 2) preferred_strength False) Map.empty) (pcons cb n ?Y C (?E False))) =
      Inr ([stay_at cb p], heap h3 (pvars vb n A B (?S y [] 0 (?m + 2) weakest_strength True)
        (?D (y * a + b) (?m + 2) weakest_strength True) Map.empty) (pcons cb n ?Y C (?E False)))"
      using change_src_loop [where p = p and n = n and vb = vb and cb = cb and A = A and B = B and a = a and b = b
        and S = "?S y [] 0 (?m + 2) weakest_strength True" and D = "?D (y * a + b) (?m + 2) preferred_strength False"
        and Y = ?Y and C = C and R = "?E False" and h = h3 and W = Map.empty and k = "Suc f" and x = y and z = "y * a + b"
        and ms = "?m + 2" and md = "?m + 2" and ws = preferred_strength and st = False] p h bounds
      by (simp add: A_def B_def C_def del: removePropagate_loop.simps)
    moreover have "incrementalAdd_with (Planner_incrementalRemove (Suc (Suc (Suc f)))) (Suc (Suc (Suc f))) (stay_at cb p)
      (heap h3 (pvars vb n A B (?S y [] 0 (?m + 2) weakest_strength True)
        (?D (y * a + b) (?m + 2) weakest_strength True) Map.empty) (pcons cb n ?Y C (?E False))) =
      Inr (heap h4 (pvars vb n A B (?S y [] (stay_at cb p) (?m + 3) default_strength True)
        (?D (y * a + b) (?m + 2) default_strength True) Map.empty) (pcons cb n (?Y(p := Y p)) C (?E False)))"
      using restore_stay [where p = p and n = n and vb = vb and cb = cb and A = A and B = B and a = a and b = b
        and S = "?S y [] 0 (?m + 2) weakest_strength True" and D = "?D (y * a + b) (?m + 2) weakest_strength True"
        and Y = ?Y and C = C and R = "?E False" and h = h3 and W = Map.empty and f = "Suc f" and x = y and z = "y * a + b"
        and ms = "?m + 2" and md = "?m + 2" and m = "?m + 3" and remove = "Planner_incrementalRemove (Suc (Suc (Suc f)))"]
        p h m bounds by (simp add: A_def B_def C_def Y_def hs)
    ultimately show ?thesis
      using remove_edit_start [where e = e and K = "pcons cb n ?Y C (?E True)" and v = "src_at vb p" and s = preferred_strength
          and V = "pvars vb n A B (?S y [e] e (?m + 2) preferred_strength False) (?D (y * a + b) (?m + 2) preferred_strength False) Map.empty"
          and h = h3 and f = "Suc (Suc (Suc f))" and x = y and cs = "[stay_at cb p, scale_at cb p, e]" and mk = "?m + 2"
          and ws = preferred_strength and st = False and un = "[stay_at cb p]"
          and H = "heap h3 (pvars vb n A B (?S y [] 0 (?m + 2) weakest_strength True)
            (?D (y * a + b) (?m + 2) weakest_strength True) Map.empty) (pcons cb n ?Y C (?E False))"]
        e p h by (simp add: f hs not_sym del: removePropagate_loop.simps)
  qed
  let ?H = "heap h4 (pvars vb n A B (?S y [] (stay_at cb p) (?m + 3) default_strength True)
        (?D (y * a + b) (?m + 2) default_strength True) Map.empty) (pcons cb n Y C Map.empty)"
  have 5: "rbind (AbstractConstraint_destroyConstraint k e (heap h3 (pvars vb n A B (?S y [e] e (?m + 2) preferred_strength False)
        (?D (y * a + b) (?m + 2) preferred_strength False) Map.empty) (pcons cb n ?Y C (?E True)))) (Constraint_dispose e) = Inr ?H"
    by (rule destroy_edit [OF e(2,1) 4]) (use p e h in auto)
  have "Planner_change k (src_at vb p) y (heap h (pvars vb n A B S D Map.empty) (pcons cb n Y C Map.empty)) = Inr ?H"
    using 1 2 3 5 e h by (simp add: change_starts flip: e_def h1_def)
  moreover have "heap h (pvars vb n A B S D Map.empty) (pcons cb n Y C Map.empty) = h"
    by (subst (2) heap) (simp add: proj_heap_def A_def B_def S_def D_def Y_def C_def)
  moreover have "?H = proj_heap vb cb n a b (sval(p := y)) (dval(p := y * a + b)) ma mb (ms(p := ?m + 3)) (md(p := ?m + 2)) h4"
    unfolding proj_heap_def A_def B_def S_def D_def Y_def C_def
    by (intro arg_cong3 [where f = heap] arg_cong2 [where f = "\<lambda>s d. pvars vb n _ _ s d _"] refl) (auto simp: fun_eq_iff)
  moreover have "proj_state vb cb n a b (sval(p := y)) (dval(p := y * a + b))
      (proj_heap vb cb n a b (sval(p := y)) (dval(p := y * a + b)) ma mb (ms(p := ?m + 3)) (md(p := ?m + 2)) h4)"
  proof (rule proj_stateI)
    show "(ms(p := ?m + 3)) q \<le> currentMark h4" "(md(p := ?m + 2)) q \<le> currentMark h4" for q
      using mk(3) [rule_format, of q] by (auto simp: hs)
  qed (use h mk e in \<open>simp_all add: hs e_def\<close>)
  moreover have "after_change 3 h ?H" by (simp add: after_change_def hs e_def)
  ultimately show ?thesis by (intro exI [of _ ?H] conjI) argo+
qed

section \<open>Changing a destination\<close>

lemma change_dst_add:
  assumes p: "p < n" and pos: "0 < vb" "0 < cb" and e: "cb + 2 * n \<le> e"
    and m: "ms < m" "md < m" "currentMark h + 1 = m" "- INT_MAX \<le> currentMark h" "currentMark h < INT_MAX"
    and h: "strs h = all_strengths"
    and A: "v_value A = a" and B: "v_value B = b"
    and S: "S p = cvar x [stay_at cb p, scale_at cb p] (stay_at cb p) ms default_strength True"
    and D: "D p = cvar z [scale_at cb p] (scale_at cb p) md default_strength True"
    and Y: "Y p = unc StayConstraintType default_strength (src_at vb p) True" and C: "C p = scc vb p FORWARD"
    and bounds: "in_int (z - b)" "c_div (z - b) a = Inr q" "in_int q"
  shows "AbstractConstraint_addConstraint (Suc (Suc f)) e (heap h (pvars vb n A B S D W)
      (pcons cb n Y C [e \<mapsto> unc EditConstraintType preferred_strength (dst_at vb p) False])) =
    Inr (heap (h\<lparr>currentMark := m\<rparr>) (pvars vb n (A\<lparr>v_mark := m\<rparr>) (B\<lparr>v_mark := m\<rparr>)
        (S(p := cvar x [stay_at cb p, scale_at cb p] (scale_at cb p) m preferred_strength False))
        (D(p := cvar z [scale_at cb p, e] e m preferred_strength False)) W)
      (pcons cb n (Y(p := unc StayConstraintType default_strength (src_at vb p) False)) (C(p := scc vb p BACKWARD))
        [e \<mapsto> unc EditConstraintType preferred_strength (dst_at vb p) True]))"
proof -
  let ?E = "unc EditConstraintType preferred_strength (dst_at vb p)"
  let ?h = "h\<lparr>currentMark := m\<rparr>" and ?remove = "Planner_incrementalRemove (Suc (Suc f))"
  let ?Y = "Y(p := unc StayConstraintType default_strength (src_at vb p) False)"
  have e0: "0 < e" and ne: "e \<noteq> stay_at cb p" "stay_at cb p \<noteq> e" "scale_at cb p \<noteq> e" "e \<noteq> scale_at cb p"
    using e p pos by (auto simp: stay_at_def scale_at_def)
  let ?X = "cvar z [scale_at cb p, e] (scale_at cb p) md default_strength True"
  let ?X' = "cvar z [scale_at cb p, e] e m preferred_strength False"
  let ?Z = "cvar x [stay_at cb p, scale_at cb p] (scale_at cb p) m preferred_strength False"
  let ?K = "pcons cb n Y C [e \<mapsto> ?E False]" and ?V = "pvars vb n A B S (D(p := ?X)) W"
  have add: "Constraint_addToGraph e (heap h (pvars vb n A B S D W) ?K) = Inr (heap h ?V ?K)"
    using addToGraph_unary [where c = e and K = ?K and t = EditConstraintType and s = preferred_strength and v = "dst_at vb p"
        and b = False and V = "pvars vb n A B S D W" and X = "D p" and h = h] p e e0 D by simp
  have 1: "satisfy_with ?remove (Suc (Suc f)) e m (heap ?h ?V ?K) =
      Inr (scale_at cb p, heap ?h (pvars vb n A B S (D(p := ?X')) W) (pcons cb n Y (C(p := scc vb p 0)) [e \<mapsto> ?E True]))"
    using satisfy_unary_idle [where c = e and K = ?K and V = ?V and X = ?X and v = "dst_at vb p" and m = m and t = EditConstraintType
        and s = preferred_strength and old = False and k = "Suc f" and h = ?h and remove = ?remove] p pos e e0 ne C m
    by (simp add: idle_def)
  have 2: "satisfy_with ?remove (Suc (Suc f)) (scale_at cb p) m
      (heap ?h (pvars vb n A B S (D(p := ?X')) W) (pcons cb n Y (C(p := scc vb p 0)) [e \<mapsto> ?E True])) =
    Inr (stay_at cb p, heap ?h (pvars vb n (A\<lparr>v_mark := m\<rparr>) (B\<lparr>v_mark := m\<rparr>) (S(p := ?Z)) (D(p := ?X')) W)
      (pcons cb n ?Y (C(p := scc vb p BACKWARD)) [e \<mapsto> ?E True]))"
    using satisfy_scale_backward [where c = "scale_at cb p" and K = "pcons cb n Y (C(p := scc vb p 0)) [e \<mapsto> ?E True]" and vb = vb and p = p
        and dir = 0 and V = "pvars vb n A B S (D(p := ?X')) W" and X = ?X' and Z = "S p" and A = A and B = B and q = q and m = m
        and k = "Suc f" and h = ?h and remove = ?remove] p pos e ne S Y m A B bounds by (simp add: idle_def)
  have 3: "satisfy_with ?remove (Suc (Suc f)) (stay_at cb p) m
      (heap ?h (pvars vb n (A\<lparr>v_mark := m\<rparr>) (B\<lparr>v_mark := m\<rparr>) (S(p := ?Z)) (D(p := ?X')) W)
      (pcons cb n ?Y (C(p := scc vb p BACKWARD)) [e \<mapsto> ?E True])) =
    Inr (0, heap ?h (pvars vb n (A\<lparr>v_mark := m\<rparr>) (B\<lparr>v_mark := m\<rparr>) (S(p := ?Z)) (D(p := ?X')) W)
      (pcons cb n ?Y (C(p := scc vb p BACKWARD)) [e \<mapsto> ?E True]))"
    using p pos h by (subst satisfy_unary_fails [where s = default_strength and t = StayConstraintType and v = "src_at vb p"
        and old = False and X = ?Z and r = required_strength]) simp_all
  show ?thesis
    using m p pos by (simp add: AbstractConstraint_addConstraint_def add Planner_incrementalAdd_def incrementalAdd_runs
      incrementalAdd_loop_step [OF 2] incrementalAdd_loop_step [OF 3] 1 del: Planner_incrementalRemove.simps)
qed

lemma change_dst_plan:
  assumes p: "p < n" and pos: "0 < vb" "0 < cb" and e: "cb + 2 * n \<le> e"
    and m: "ms < m" "md < m" "currentMark h + 1 = m" "- INT_MAX \<le> currentMark h" "currentMark h < INT_MAX"
    and S: "S p = cvar x [stay_at cb p, scale_at cb p] (scale_at cb p) ms preferred_strength False"
    and D: "D p = cvar z [scale_at cb p, e] e md preferred_strength False"
    and Y: "Y p = unc StayConstraintType default_strength (src_at vb p) False" and C: "C p = scc vb p BACKWARD"
    and R: "R e = Some (unc EditConstraintType preferred_strength (dst_at vb p) True)"
  shows "Planner_extractPlanFromConstraints (Suc (Suc k)) [e] (heap h (pvars vb n A B S D W) (pcons cb n Y C R)) =
    Inr ([e, scale_at cb p], heap (h\<lparr>currentMark := m\<rparr>) (pvars vb n A B
        (S(p := cvar x [stay_at cb p, scale_at cb p] (scale_at cb p) m preferred_strength False))
        (D(p := cvar z [scale_at cb p, e] e m preferred_strength False)) W) (pcons cb n Y C R))"
proof -
  let ?h = "h\<lparr>currentMark := m\<rparr>" and ?c = "scale_at cb p"
  have e0: "0 < e" and ne: "stay_at cb p \<noteq> e" "scale_at cb p \<noteq> e"
    using e p pos by (auto simp: stay_at_def scale_at_def)
  let ?X = "cvar z [scale_at cb p, e] e m preferred_strength False"
  let ?Z = "cvar x [stay_at cb p, scale_at cb p] (scale_at cb p) m preferred_strength False"
  let ?H = "heap ?h (pvars vb n A B S (D(p := ?X)) W) (pcons cb n Y C R)"
  let ?H' = "heap ?h (pvars vb n A B (S(p := ?Z)) (D(p := ?X)) W) (pcons cb n Y C R)"
  have ds: "Planner_addConstraintsConsumingTo (dst_at vb p) [] ?H = Inr [?c]"
    using addConstraintsConsumingTo_eq [of "dst_at vb p" ?H ?X "[]"] p pos e C Y R ne by simp
  have "makePlan_loop (Suc k) m [?c] [e] ?H = Inr ([e, ?c], ?H')"
  proof -
    have "Constraint_getOutput ?c ?H = Inr (src_at vb p)"
      using p C by (simp add: getOutput_eq)
    moreover have "AbstractConstraint_inputsKnown ?c m ?H = Inr True"
      using p C S by (simp add: AbstractConstraint_inputsKnown_def Constraint_inputsHasOne_def get_con_eq binary_input_def
          AbstractConstraint_inputsKnown_iter_def variable_ops get_var_eq)
    moreover have "Planner_addConstraintsConsumingTo (src_at vb p) [] ?H' = Inr []"
      using addConstraintsConsumingTo_eq [of "src_at vb p" ?H' ?Z "[]"] p pos C Y by simp
    ultimately show ?thesis using p S m by (simp add: variable_ops get_var_eq)
  qed
  then show ?thesis
    using plan_edit [where e = e and K = "pcons cb n Y C R" and v = "dst_at vb p" and V = "pvars vb n A B S D W" and X = "D p"
        and s = preferred_strength and h = h and ds = "[?c]" and k = "Suc k"] ds
      p pos e e0 m D R by simp
qed

lemma change_dst_execute:
  assumes p: "p < n" and pos: "0 < vb" "0 < cb" and e: "cb + 2 * n \<le> e"
    and A: "v_value A = a" and B: "v_value B = b"
    and S: "S p = cvar x cs d ms ws st" and D: "D p = cvar z cs' d' md ws' st'"
    and C: "C p = scc vb p BACKWARD"
    and R: "R e = Some (unc EditConstraintType preferred_strength (dst_at vb p) True)"
    and bounds: "in_int (y - b)" "c_div (y - b) a = Inr q" "in_int q"
  shows "rfold (\<lambda>i h. rbind (Variable_setValue (dst_at vb p) y h) (\<lambda>h. Plan_execute [e, scale_at cb p] h)) [0..<10]
      (heap h (pvars vb n A B S D W) (pcons cb n Y C R)) =
    Inr (heap h (pvars vb n A B (S(p := cvar q cs d ms ws st)) (D(p := cvar y cs' d' md ws' st')) W) (pcons cb n Y C R))"
proof -
  have e0: "0 < e" using e p pos by simp
  have run: "rbind (Variable_setValue (dst_at vb p) y (heap h (pvars vb n A B S D W) (pcons cb n Y C R)))
      (\<lambda>h. Plan_execute [e, scale_at cb p] h) =
    Inr (heap h (pvars vb n A B (S(p := cvar q cs d ms ws st)) (D(p := cvar y cs' d' md ws' st')) W) (pcons cb n Y C R))"
    if "S p = cvar x cs d ms ws st" "D p = cvar z cs' d' md ws' st'" for S D x z
  proof -
    have "Constraint_execute e (heap h V (pcons cb n Y C R)) = Inr (heap h V (pcons cb n Y C R))" for V
      using e e0 R by (simp add: Constraint_execute_def get_con_eq)
    then show ?thesis
      using execute_scale_backward [of "scale_at cb p" "pcons cb n Y C R" vb p "pvars vb n A B S (D(p := cvar y cs' d' md ws' st')) W"
          "cvar y cs' d' md ws' st'" "S p" A B q h] p pos that C A B bounds
      by (simp add: Plan_execute_def variable_ops get_var_eq)
  qed
  have ten: "[0..<10] = [0..<Suc 9]" by simp
  show ?thesis
    unfolding ten using run [of S x D z] S D
      run [of "S(p := cvar q cs d ms ws st)" q "D(p := cvar y cs' d' md ws' st')" y]
    by (intro repeat_idem) simp_all
qed

lemma change_dst_loop:
  assumes p: "p < n" and pos: "0 < vb" "0 < cb"
    and A: "v_value A = a" "v_stay A" and B: "v_value B = b" "v_stay B"
    and S: "S p = cvar x [stay_at cb p, scale_at cb p] (scale_at cb p) ms ws st"
    and D: "D p = cvar z [scale_at cb p] 0 md weakest_strength True"
    and Y: "Y p = unc StayConstraintType default_strength (src_at vb p) False" and C: "C p = scc vb p BACKWARD"
    and bounds: "in_int (z - b)" "c_div (z - b) a = Inr q" "in_int q"
  shows "removePropagate_loop (Suc (Suc k)) [dst_at vb p] [] (heap h (pvars vb n A B S D W) (pcons cb n Y C R)) =
    Inr ([stay_at cb p], heap h (pvars vb n A B
        (S(p := cvar q [stay_at cb p, scale_at cb p] (scale_at cb p) ms weakest_strength True)) D W) (pcons cb n Y C R))"
proof -
  let ?H = "heap h (pvars vb n A B S D W) (pcons cb n Y C R)"
  let ?Z = "cvar q [stay_at cb p, scale_at cb p] (scale_at cb p) ms weakest_strength True"
  let ?H' = "heap h (pvars vb n A B (S(p := ?Z)) D W) (pcons cb n Y C R)"
  have sat: "Constraint_isSatisfied (scale_at cb p) (heap h V (pcons cb n Y C R)) = Inr True"
    "Constraint_isSatisfied (stay_at cb p) (heap h V (pcons cb n Y C R)) = Inr False" for V
    using p C Y pos by (simp_all add: isSatisfied_eq)
  have "Planner_removePropagateFrom_iter1 (scale_at cb p) ([], ?H) = Inr ([src_at vb p], ?H')"
    using recalculate_scale_backward [of "scale_at cb p" "pcons cb n Y C R" vb p "pvars vb n A B S D W" "D p" "S p" A B q h]
      p pos C S D A B bounds by (simp add: Planner_removePropagateFrom_iter1_def getOutput_eq)
  moreover have "removePropagate_loop (Suc k) [src_at vb p] [] ?H' = Inr ([stay_at cb p], ?H')"
    using sat p by (simp add: unsatisfied_step_def Planner_constraintsConsuming_def consuming_step_def variable_ops get_var_eq)
  moreover have "Variable_getConstraints (dst_at vb p) ?H = Inr [scale_at cb p]" "Variable_getDeterminedBy (dst_at vb p) ?H = Inr 0"
    using p D by (simp_all add: variable_ops get_var_eq)
  ultimately show ?thesis
    using sat by (simp add: unsatisfied_step_def Planner_constraintsConsuming_def consuming_step_def)
qed

text \<open>The stay constraint takes its source back from the scale constraint, which turns round.\<close>

lemma restore_stay_scale:
  assumes p: "p < n" and pos: "0 < vb" "0 < cb"
    and m: "ms < m" "md < m" "currentMark h + 1 = m" "- INT_MAX \<le> currentMark h" "currentMark h < INT_MAX"
    and A: "v_value A = a" "v_stay A" and B: "v_value B = b" "v_stay B"
    and S: "S p = cvar x [stay_at cb p, scale_at cb p] (scale_at cb p) ms weakest_strength True"
    and D: "D p = cvar z [scale_at cb p] 0 md weakest_strength True"
    and Y: "Y p = unc StayConstraintType default_strength (src_at vb p) False" and C: "C p = scc vb p BACKWARD"
    and bounds: "in_int (x * a)" "in_int (x * a + b)"
  shows "incrementalAdd_with remove (Suc (Suc f)) (stay_at cb p) (heap h (pvars vb n A B S D W) (pcons cb n Y C R)) =
    Inr (heap (h\<lparr>currentMark := m\<rparr>) (pvars vb n (A\<lparr>v_mark := m\<rparr>) (B\<lparr>v_mark := m\<rparr>)
        (S(p := cvar x [stay_at cb p, scale_at cb p] (stay_at cb p) m default_strength True))
        (D(p := cvar (x * a + b) [scale_at cb p] (scale_at cb p) m default_strength True)) W)
      (pcons cb n (Y(p := unc StayConstraintType default_strength (src_at vb p) True)) (C(p := scc vb p FORWARD)) R))"
proof -
  let ?h = "h\<lparr>currentMark := m\<rparr>"
  let ?Y = "Y(p := unc StayConstraintType default_strength (src_at vb p) True)"
  let ?X = "cvar x [stay_at cb p, scale_at cb p] (stay_at cb p) m default_strength True"
  let ?Z = "cvar (x * a + b) [scale_at cb p] (scale_at cb p) m default_strength True"
  let ?V = "pvars vb n A B S D W"
  have 1: "satisfy_with remove (Suc (Suc f)) (stay_at cb p) m (heap ?h ?V (pcons cb n Y C R)) =
      Inr (scale_at cb p, heap ?h (pvars vb n A B (S(p := ?X)) D W) (pcons cb n ?Y (C(p := scc vb p 0)) R))"
    using satisfy_unary_idle [where c = "stay_at cb p" and K = "pcons cb n Y C R" and V = ?V and X = "S p" and v = "src_at vb p"
        and m = m and t = StayConstraintType and s = default_strength and old = False and k = "Suc f" and h = ?h and remove = remove]
      p pos S C Y m by (simp add: idle_def)
  have 2: "satisfy_with remove (Suc (Suc f)) (scale_at cb p) m
      (heap ?h (pvars vb n A B (S(p := ?X)) D W) (pcons cb n ?Y (C(p := scc vb p 0)) R)) =
    Inr (0, heap ?h (pvars vb n (A\<lparr>v_mark := m\<rparr>) (B\<lparr>v_mark := m\<rparr>) (S(p := ?X)) (D(p := ?Z)) W)
      (pcons cb n ?Y (C(p := scc vb p FORWARD)) R))"
    using satisfy_scale_forward [where c = "scale_at cb p" and K = "pcons cb n ?Y (C(p := scc vb p 0)) R" and vb = vb and p = p
        and dir = 0 and V = "pvars vb n A B (S(p := ?X)) D W" and X = ?X and Z = "D p" and A = A and B = B and m = m
        and k = "Suc f" and h = ?h and remove = remove] p pos D m A B bounds by (simp add: idle_def)
  show ?thesis
    using m p by (simp add: incrementalAdd_runs 1 incrementalAdd_loop_step [OF 2])
qed

lemma change_dst_remove:
  assumes p: "p < n" and pos: "0 < vb" "0 < cb" and e: "cb + 2 * n \<le> e" and h: "strs h = all_strengths"
    and m: "ms < m" "md < m" "currentMark h + 1 = m" "- INT_MAX \<le> currentMark h" "currentMark h < INT_MAX"
    and A: "v_value A = a" "v_stay A" and B: "v_value B = b" "v_stay B"
    and S: "S p = cvar q [stay_at cb p, scale_at cb p] (scale_at cb p) ms ws st"
    and D: "D p = cvar y [scale_at cb p, e] e md ws' st'"
    and Y: "Y p = unc StayConstraintType default_strength (src_at vb p) False" and C: "C p = scc vb p BACKWARD"
    and bounds: "in_int (y - b)" "c_div (y - b) a = Inr q" "in_int q" "in_int (q * a)" "in_int (q * a + b)"
  shows "Planner_incrementalRemove (Suc (Suc (Suc f))) e (heap h (pvars vb n A B S D W)
      (pcons cb n Y C [e \<mapsto> unc EditConstraintType preferred_strength (dst_at vb p) True])) =
    Inr (heap (h\<lparr>currentMark := m\<rparr>) (pvars vb n (A\<lparr>v_mark := m\<rparr>) (B\<lparr>v_mark := m\<rparr>)
        (S(p := cvar q [stay_at cb p, scale_at cb p] (stay_at cb p) m default_strength True))
        (D(p := cvar (q * a + b) [scale_at cb p] (scale_at cb p) m default_strength True)) W)
      (pcons cb n (Y(p := unc StayConstraintType default_strength (src_at vb p) True)) (C(p := scc vb p FORWARD))
        [e \<mapsto> unc EditConstraintType preferred_strength (dst_at vb p) False]))"
proof -
  let ?E = "\<lambda>b. [e \<mapsto> unc EditConstraintType preferred_strength (dst_at vb p) b]"
  let ?D = "D(p := cvar y [scale_at cb p] 0 md weakest_strength True)"
  let ?S = "S(p := cvar q [stay_at cb p, scale_at cb p] (scale_at cb p) ms weakest_strength True)"
  have e0: "0 < e" and ne: "scale_at cb p \<noteq> e" using e p pos by (auto simp: scale_at_def)
  have loop: "removePropagate_loop (Suc (Suc f)) [dst_at vb p] [] (heap h (pvars vb n A B S ?D W) (pcons cb n Y C (?E False))) =
      Inr ([stay_at cb p], heap h (pvars vb n A B ?S ?D W) (pcons cb n Y C (?E False)))"
    using change_dst_loop [where p = p and n = n and vb = vb and cb = cb and A = A and B = B and a = a and b = b
      and S = S and D = ?D and Y = Y and C = C and R = "?E False" and h = h and W = W and k = f and x = q and z = y and q = q
      and ms = ms and md = md and ws = ws and st = st] p pos A B S Y C bounds by (simp del: removePropagate_loop.simps)
  have "incrementalAdd_with (Planner_incrementalRemove (Suc (Suc f))) (Suc (Suc f)) (stay_at cb p)
      (heap h (pvars vb n A B ?S ?D W) (pcons cb n Y C (?E False))) =
    Inr (heap (h\<lparr>currentMark := m\<rparr>) (pvars vb n (A\<lparr>v_mark := m\<rparr>) (B\<lparr>v_mark := m\<rparr>)
        (?S(p := cvar q [stay_at cb p, scale_at cb p] (stay_at cb p) m default_strength True))
        (?D(p := cvar (q * a + b) [scale_at cb p] (scale_at cb p) m default_strength True)) W)
      (pcons cb n (Y(p := unc StayConstraintType default_strength (src_at vb p) True)) (C(p := scc vb p FORWARD)) (?E False)))"
    using restore_stay_scale [where p = p and n = n and vb = vb and cb = cb and A = A and B = B and a = a and b = b
      and S = ?S and D = ?D and Y = Y and C = C and R = "?E False" and h = h and W = W and f = f and x = q and z = y
      and ms = ms and md = md and m = m and remove = "Planner_incrementalRemove (Suc (Suc f))"] p pos m A B Y C bounds by simp
  then show ?thesis
    using loop remove_edit_start [where e = e and K = "pcons cb n Y C (?E True)" and v = "dst_at vb p" and s = preferred_strength
        and V = "pvars vb n A B S D W" and h = h and f = "Suc (Suc f)" and x = y and cs = "[scale_at cb p, e]" and mk = md
        and ws = ws' and st = st' and un = "[stay_at cb p]" and H = "heap h (pvars vb n A B ?S ?D W) (pcons cb n Y C (?E False))"]
      e e0 ne p h D by (simp del: removePropagate_loop.simps Planner_incrementalRemove.simps incrementalAdd_with_def)
qed

lemma change_runs:
  assumes "0 < c_next h" "strs h = all_strengths" and e: "e = c_next h"
    and "AbstractConstraint_addConstraint k e (heap (h\<lparr>c_next := Suc e\<rparr>) V (K(e \<mapsto> unc EditConstraintType preferred_strength v False))) = Inr H1"
    and "Planner_extractPlanFromConstraints k [e] H1 = Inr (plan, H2)"
    and "rfold (\<lambda>i h'. rbind (Variable_setValue v y h') (\<lambda>h'. Plan_execute plan h')) [0..<10] H2 = Inr H3"
    and "rbind (AbstractConstraint_destroyConstraint k e H3) (Constraint_dispose e) = Inr H4"
  shows "Planner_change k v y (heap h V K) = Inr H4"
  using assms by (simp add: change_starts)

lemma change_dst:
  assumes st: "proj_state vb cb n a b sval dval h" and p: "p < n" and m: "currentMark h + 3 \<le> INT_MAX"
    and bounds: "in_int (dval p - b)" "c_div (dval p - b) a = Inr r" "in_int r"
      "in_int (y - b)" "c_div (y - b) a = Inr q" "in_int q" "in_int (q * a)" "in_int (q * a + b)" and k: "4 \<le> k"
  shows "\<exists>h'. Planner_change k (dst_at vb p) y h = Inr h' \<and>
    proj_state vb cb n a b (sval(p := q)) (dval(p := q * a + b)) h' \<and> after_change 3 h h'"
proof -
  obtain ma mb ms md where
    h: "strs h = all_strengths" "0 < vb" "0 < cb" "cb + 2 * n \<le> c_next h" "- INT_MAX \<le> currentMark h"
    and mk: "ma \<le> currentMark h" "mb \<le> currentMark h" "\<forall>p. ms p \<le> currentMark h \<and> md p \<le> currentMark h"
    and heap: "h = proj_heap vb cb n a b sval dval ma mb ms md h"
    using st unfolding proj_state_def by blast
  obtain f where f: "k = Suc (Suc (Suc (Suc f)))" using k by (intro that [of "k - 4"]) simp
  define e where "e = c_next h"
  let ?m = "currentMark h"
  define A where "A = (\<lambda>m. cvar a (map (scale_at cb) [0..<n]) 0 m weakest_strength True)"
  define B where "B = (\<lambda>m. cvar b (map (scale_at cb) [0..<n]) 0 m weakest_strength True)"
  define S where "S = (\<lambda>p. cvar (sval p) [stay_at cb p, scale_at cb p] (stay_at cb p) (ms p) default_strength True)"
  define D where "D = (\<lambda>p. cvar (dval p) [scale_at cb p] (scale_at cb p) (md p) default_strength True)"
  define Y where "Y = (\<lambda>p. unc StayConstraintType default_strength (src_at vb p) True)"
  define C where "C = (\<lambda>p. scc vb p FORWARD)"
  define h1 where "h1 = h\<lparr>c_next := Suc e\<rparr>"
  define h2 where "h2 = h1\<lparr>currentMark := ?m + 1\<rparr>"
  define h3 where "h3 = h2\<lparr>currentMark := ?m + 2\<rparr>"
  define h4 where "h4 = h3\<lparr>currentMark := ?m + 3\<rparr>"
  note hs = h1_def h2_def h3_def h4_def and defs = A_def B_def S_def D_def Y_def C_def
  let ?E = "\<lambda>b. [e \<mapsto> unc EditConstraintType preferred_strength (dst_at vb p) b]"
  let ?Y = "Y(p := unc StayConstraintType default_strength (src_at vb p) False)" and ?C = "C(p := scc vb p BACKWARD)"
  let ?S = "\<lambda>x d m ws st. S(p := cvar x [stay_at cb p, scale_at cb p] d m ws st)"
  let ?D = "\<lambda>z es d m ws st. D(p := cvar z (scale_at cb p # es) d m ws st)"
  let ?V = "\<lambda>x m z m'. pvars vb n (A (?m + 1)) (B (?m + 1)) (?S x (scale_at cb p) m preferred_strength False)
      (?D z [e] e m' preferred_strength False) Map.empty"
  have e: "0 < e" "cb + 2 * n \<le> e" using h by (simp_all add: e_def)
  have mkp: "ms p \<le> ?m" "md p \<le> ?m" using mk(3) by simp_all
  have 1: "AbstractConstraint_addConstraint k e (heap h1 (pvars vb n (A ma) (B mb) S D Map.empty) (pcons cb n Y C (?E False))) =
      Inr (heap h2 (?V (sval p) (?m + 1) (dval p) (?m + 1)) (pcons cb n ?Y ?C (?E True)))"
    using change_dst_add [where p = p and n = n and vb = vb and cb = cb and e = e and ms = "ms p" and m = "?m + 1" and md = "md p"
        and h = h1 and A = "A ma" and B = "B mb" and S = S and D = D and Y = Y and C = C and W = Map.empty and f = "Suc (Suc f)"
        and x = "sval p" and z = "dval p" and a = a and b = b and q = r]
      p h e mkp m bounds by (simp add: f hs defs)
  have 2: "Planner_extractPlanFromConstraints k [e] (heap h2 (?V (sval p) (?m + 1) (dval p) (?m + 1)) (pcons cb n ?Y ?C (?E True))) =
      Inr ([e, scale_at cb p], heap h3 (?V (sval p) (?m + 2) (dval p) (?m + 2)) (pcons cb n ?Y ?C (?E True)))"
    using change_dst_plan [where p = p and n = n and vb = vb and cb = cb and e = e and ms = "?m + 1" and m = "?m + 2" and md = "?m + 1"
        and h = h2 and A = "A (?m + 1)" and B = "B (?m + 1)" and S = "?S (sval p) (scale_at cb p) (?m + 1) preferred_strength False"
        and D = "?D (dval p) [e] e (?m + 1) preferred_strength False" and Y = ?Y and C = ?C and R = "?E True" and W = Map.empty
        and k = "Suc (Suc f)" and x = "sval p" and z = "dval p"]
      p h e mkp m by (simp add: f hs)
  have 3: "rfold (\<lambda>i h. rbind (Variable_setValue (dst_at vb p) y h) (\<lambda>h. Plan_execute [e, scale_at cb p] h)) [0..<10]
      (heap h3 (?V (sval p) (?m + 2) (dval p) (?m + 2)) (pcons cb n ?Y ?C (?E True))) =
    Inr (heap h3 (?V q (?m + 2) y (?m + 2)) (pcons cb n ?Y ?C (?E True)))"
    using change_dst_execute [where p = p and n = n and vb = vb and cb = cb and e = e and A = "A (?m + 1)" and a = a
        and B = "B (?m + 1)" and b = b and S = "?S (sval p) (scale_at cb p) (?m + 2) preferred_strength False"
        and D = "?D (dval p) [e] e (?m + 2) preferred_strength False"
        and C = ?C and R = "?E True" and y = y and q = q and h = h3 and W = Map.empty and Y = ?Y and x = "sval p" and z = "dval p"]
      p h e bounds by (simp add: A_def B_def)
  have 4: "Planner_incrementalRemove k e (heap h3 (?V q (?m + 2) y (?m + 2)) (pcons cb n ?Y ?C (?E True))) =
    Inr (heap h4 (pvars vb n (A (?m + 3)) (B (?m + 3)) (?S q (stay_at cb p) (?m + 3) default_strength True)
        (?D (q * a + b) [] (scale_at cb p) (?m + 3) default_strength True) Map.empty) (pcons cb n Y C (?E False)))"
    using change_dst_remove [where p = p and n = n and vb = vb and cb = cb and e = e and ms = "?m + 2" and m = "?m + 3" and md = "?m + 2"
        and h = h3 and A = "A (?m + 1)" and a = a and B = "B (?m + 1)" and b = b
        and S = "?S q (scale_at cb p) (?m + 2) preferred_strength False"
        and D = "?D y [e] e (?m + 2) preferred_strength False" and C = ?C and Y = ?Y and y = y and q = q and W = Map.empty
        and f = "Suc f" and ws = preferred_strength and st = False and ws' = preferred_strength and st' = False]
      p h e m bounds by (simp add: f hs defs fun_upd_idem del: Planner_incrementalRemove.simps)
  let ?H = "heap h4 (pvars vb n (A (?m + 3)) (B (?m + 3)) (?S q (stay_at cb p) (?m + 3) default_strength True)
        (?D (q * a + b) [] (scale_at cb p) (?m + 3) default_strength True) Map.empty) (pcons cb n Y C Map.empty)"
  have 5: "rbind (AbstractConstraint_destroyConstraint k e (heap h3 (?V q (?m + 2) y (?m + 2)) (pcons cb n ?Y ?C (?E True))))
      (Constraint_dispose e) = Inr ?H"
    by (rule destroy_edit [OF e(2,1) 4, where X = "cvar (q * a + b) [scale_at cb p] (scale_at cb p) (?m + 3) default_strength True"])
      (use p e h in \<open>auto simp: scale_at_def\<close>)
  have "Planner_change k (dst_at vb p) y (heap h (pvars vb n (A ma) (B mb) S D Map.empty) (pcons cb n Y C Map.empty)) = Inr ?H"
    by (rule change_runs [OF _ h(1) e_def _ 2 3 5]) (use 1 e h in \<open>simp_all add: h1_def e_def\<close>)
  moreover have "heap h (pvars vb n (A ma) (B mb) S D Map.empty) (pcons cb n Y C Map.empty) = h"
    by (subst (2) heap) (simp add: proj_heap_def defs)
  moreover have "?H = proj_heap vb cb n a b (sval(p := q)) (dval(p := q * a + b)) (?m + 3) (?m + 3) (ms(p := ?m + 3)) (md(p := ?m + 3)) h4"
    unfolding proj_heap_def defs
    by (intro arg_cong3 [where f = heap] arg_cong2 [where f = "\<lambda>s d. pvars vb n _ _ s d _"] refl) (auto simp: fun_eq_iff)
  moreover have "proj_state vb cb n a b (sval(p := q)) (dval(p := q * a + b))
      (proj_heap vb cb n a b (sval(p := q)) (dval(p := q * a + b)) (?m + 3) (?m + 3) (ms(p := ?m + 3)) (md(p := ?m + 3)) h4)"
  proof (rule proj_stateI)
    show "(ms(p := ?m + 3)) q \<le> currentMark h4" "(md(p := ?m + 3)) q \<le> currentMark h4" for q
      using mk(3) [rule_format, of q] by (auto simp: hs)
  qed (use h mk e in \<open>simp_all add: hs e_def\<close>)
  moreover have "after_change 3 h ?H" by (simp add: after_change_def hs e_def)
  ultimately show ?thesis by (intro exI [of _ ?H] conjI) argo+
qed

end
