(* ===== verification/DeltaBlueInputs.thy ===== *)
theory DeltaBlueInputs
  imports DeltaBlueProjection
begin

text \<open>
  \<open>Planner_change\<close> on the scale and on the offset of \<open>Planner_projectionTest\<close>: every scale
  constraint consumes the changed variable, so a change runs over all pairs.
\<close>

section \<open>Loops over all pairs\<close>

lemma pvars_cong:
  assumes "\<And>p. p < n \<Longrightarrow> S p = S' p" "\<And>p. p < n \<Longrightarrow> D p = D' p"
  shows "pvars vb n A B S D W = pvars vb n A B S' D' W"
proof (rule ext)
  fix v
  show "pvars vb n A B S D W v = pvars vb n A B S' D' W v"
  proof (cases "vb + 2 \<le> v \<and> v < vb + 2 + 2 * n")
    case True
    then have "(v - (vb + 2)) div 2 < n" by (simp add: div_less_iff_less_mult) linarith
    then show ?thesis using assms by (simp add: pvars_def)
  qed (auto simp: pvars_def)
qed

text \<open>The destinations of the pairs \<open>ps\<close> are replaced.\<close>

definition upds :: "nat list \<Rightarrow> (nat \<Rightarrow> 'a) \<Rightarrow> (nat \<Rightarrow> 'a) \<Rightarrow> nat \<Rightarrow> 'a" where
  "upds ps F D = (\<lambda>p. if p \<in> set ps then F p else D p)"

lemma upds_Nil [simp]: "upds [] F D = D"
  by (simp add: upds_def)

lemma upds_Cons: "p \<notin> set ps \<Longrightarrow> F p = x \<Longrightarrow> upds ps F (D(p := x)) = upds (p # ps) F D"
  by (auto simp: upds_def fun_eq_iff)

lemma upds_all: "pvars vb n A B S (upds [0..<n] F D) W = pvars vb n A B S F W"
  by (rule pvars_cong) (simp_all add: upds_def)

definition settled :: "vid \<Rightarrow> cid \<Rightarrow> nat \<Rightarrow> (nat \<Rightarrow> variable) \<Rightarrow> (nat \<Rightarrow> constr) \<Rightarrow> nat \<Rightarrow> bool" where
  "settled vb cb n D C p \<longleftrightarrow> p < n \<and> C p = scc vb p FORWARD \<and>
     determinedBy (D p) = scale_at cb p \<and> constraints (D p) = [scale_at cb p]"

lemma propagate_all:
  assumes "0 < vb" "0 < cb" "distinct ps" "length ps \<le> k"
    and "\<forall>p \<in> set ps. settled vb cb n D C p \<and> v_mark (D p) \<noteq> m \<and>
      in_int (v_value (S p) * v_value A) \<and> in_int (v_value (S p) * v_value A + v_value B)"
    and "\<forall>p \<in> set ps. F p = forward_result A B (S p) (D p)"
  shows "addPropagate_loop remove k c m (map (scale_at cb) ps) (heap h (pvars vb n A B S D W) (pcons cb n Y C R)) =
    Inr (True, heap h (pvars vb n A B S (upds ps F D) W) (pcons cb n Y C R))"
  using assms
proof (induction ps arbitrary: k D)
  case (Cons p ps)
  obtain l where l: "k = Suc l" using Cons.prems(4) by (cases k) auto
  have "addPropagate_loop remove l c m (map (scale_at cb) ps) (heap h (pvars vb n A B S (D(p := F p)) W) (pcons cb n Y C R)) =
    Inr (True, heap h (pvars vb n A B S (upds ps F (D(p := F p))) W) (pcons cb n Y C R))"
    using Cons.prems l by (intro Cons.IH) (auto simp: settled_def)
  then show ?case
    using Cons.prems l propagate_scale [where p = p and n = n and vb = vb and cb = cb and C = C and D = D and m = m and S = S
      and A = A and B = B and remove = remove and k = l and c = c and ds = "map (scale_at cb) ps" and h = h and W = W and Y = Y and R = R]
    by (simp add: settled_def upds_Cons del: addPropagate_loop.simps)
qed simp

lemma plan_all:
  assumes "0 < vb" "0 < cb" "distinct ps" "length ps \<le> k"
    and "\<forall>p \<in> set ps. settled vb cb n D C p \<and> v_mark (D p) \<noteq> m \<and> v_stay (S p)"
    and "\<forall>p \<in> set ps. F p = (D p)\<lparr>v_mark := m\<rparr>"
  shows "makePlan_loop k m (map (scale_at cb) ps) plan (heap h (pvars vb n A B S D W) (pcons cb n Y C R)) =
    Inr (plan @ map (scale_at cb) ps, heap h (pvars vb n A B S (upds ps F D) W) (pcons cb n Y C R))"
  using assms
proof (induction ps arbitrary: k D plan)
  case (Cons p ps)
  obtain l where l: "k = Suc l" using Cons.prems(4) by (cases k) auto
  have "makePlan_loop l m (map (scale_at cb) ps) (plan @ [scale_at cb p]) (heap h (pvars vb n A B S (D(p := F p)) W) (pcons cb n Y C R)) =
    Inr ((plan @ [scale_at cb p]) @ map (scale_at cb) ps, heap h (pvars vb n A B S (upds ps F (D(p := F p))) W) (pcons cb n Y C R))"
    using Cons.prems l by (intro Cons.IH) (auto simp: settled_def)
  then show ?case
    using Cons.prems l plan_scale [where p = p and n = n and vb = vb and cb = cb and C = C and D = D and m = m and S = S
      and A = A and B = B and k = l and plan = plan and ds = "map (scale_at cb) ps" and h = h and W = W and Y = Y and R = R]
    by (simp add: settled_def upds_Cons del: makePlan_loop.simps)
qed simp

lemma execute_all:
  assumes "0 < vb" "0 < cb" "distinct ps"
    and "\<forall>p \<in> set ps. settled vb cb n D C p \<and>
      in_int (v_value (S p) * v_value A) \<and> in_int (v_value (S p) * v_value A + v_value B)"
    and "\<forall>p \<in> set ps. F p = (D p)\<lparr>v_value := v_value (S p) * v_value A + v_value B\<rparr>"
  shows "rfold Constraint_execute (map (scale_at cb) ps) (heap h (pvars vb n A B S D W) (pcons cb n Y C R)) =
    Inr (heap h (pvars vb n A B S (upds ps F D) W) (pcons cb n Y C R))"
  using assms
proof (induction ps arbitrary: D)
  case (Cons p ps)
  have "rfold Constraint_execute (map (scale_at cb) ps) (heap h (pvars vb n A B S (D(p := F p)) W) (pcons cb n Y C R)) =
    Inr (heap h (pvars vb n A B S (upds ps F (D(p := F p))) W) (pcons cb n Y C R))"
    using Cons.prems by (intro Cons.IH) (auto simp: settled_def)
  then show ?case
    using Cons.prems execute_scale_forward [of "scale_at cb p" "pcons cb n Y C R" vb p "pvars vb n A B S D W" "S p" "D p" A B h]
    by (simp add: settled_def upds_Cons)
qed simp

lemma consume_all:
  assumes "0 < vb" "0 < cb" "distinct ps" "d = 0"
    and "\<forall>p \<in> set ps. settled vb cb n D C p \<and>
      in_int (v_value (S p) * v_value A) \<and> in_int (v_value (S p) * v_value A + v_value B)"
    and "\<forall>p \<in> set ps. F p = forward_result A B (S p) (D p)"
  shows "rfold (consuming_step d Planner_removePropagateFrom_iter1) (map (scale_at cb) ps)
      (todo, heap h (pvars vb n A B S D W) (pcons cb n Y C R)) =
    Inr (todo @ map (dst_at vb) ps, heap h (pvars vb n A B S (upds ps F D) W) (pcons cb n Y C R))"
  using assms
proof (induction ps arbitrary: D todo)
  case (Cons p ps)
  have "rfold (consuming_step d Planner_removePropagateFrom_iter1) (map (scale_at cb) ps)
      (todo @ [dst_at vb p], heap h (pvars vb n A B S (D(p := F p)) W) (pcons cb n Y C R)) =
    Inr ((todo @ [dst_at vb p]) @ map (dst_at vb) ps, heap h (pvars vb n A B S (upds ps F (D(p := F p))) W) (pcons cb n Y C R))"
    using Cons.prems by (intro Cons.IH) (auto simp: settled_def)
  moreover have "consuming_step d Planner_removePropagateFrom_iter1 (scale_at cb p) (todo, heap h (pvars vb n A B S D W) (pcons cb n Y C R)) =
    Inr (todo @ [dst_at vb p], heap h (pvars vb n A B S (D(p := F p)) W) (pcons cb n Y C R))"
    using Cons.prems recalculate_scale [where p = p and n = n and vb = vb and cb = cb and C = C and S = S and A = A and B = B
      and D = D and h = h and W = W and Y = Y and R = R and todo = todo]
    by (simp add: settled_def consuming_step_def isSatisfied_eq)
  ultimately show ?case using Cons.prems by (simp add: upds_Cons)
qed simp

lemma remove_loop_all:
  assumes "0 < vb" "0 < cb" "length ps \<le> k" "\<forall>p \<in> set ps. settled vb cb n D C p"
  shows "removePropagate_loop k (map (dst_at vb) ps) un (heap h (pvars vb n A B S D W) (pcons cb n Y C R)) =
    Inr (un, heap h (pvars vb n A B S D W) (pcons cb n Y C R))"
  using assms
proof (induction ps arbitrary: k)
  case (Cons p ps)
  obtain l where l: "k = Suc l" using Cons.prems(3) by (cases k) auto
  show ?case
    using Cons l remove_loop_dst [where p = p and n = n and vb = vb and cb = cb and C = C and D = D and k = l
      and todo = "map (dst_at vb) ps" and un = un and h = h and A = A and B = B and S = S and W = W and Y = Y and R = R]
    by (simp add: settled_def del: removePropagate_loop.simps)
qed simp

lemma all_satisfied:
  "\<forall>p \<in> set ps. p < n \<Longrightarrow> rfold (unsatisfied_step (heap h V (pcons cb n Y (\<lambda>p. scc vb p FORWARD) R))) (map (scale_at cb) ps) un = Inr un"
  by (induction ps) (simp_all add: unsatisfied_step_def isSatisfied_eq)

section \<open>Changing the scale or the offset\<close>

abbreviation psrc :: "cid \<Rightarrow> (nat \<Rightarrow> int) \<Rightarrow> (nat \<Rightarrow> int) \<Rightarrow> nat \<Rightarrow> variable" where
  "psrc cb sval ms \<equiv> \<lambda>p. cvar (sval p) [stay_at cb p, scale_at cb p] (stay_at cb p) (ms p) default_strength True"

abbreviation pdst :: "cid \<Rightarrow> (nat \<Rightarrow> int) \<Rightarrow> (nat \<Rightarrow> int) \<Rightarrow> bool \<Rightarrow> nat \<Rightarrow> variable" where
  "pdst cb dval md st \<equiv> \<lambda>p. cvar (dval p) [scale_at cb p] (scale_at cb p) (md p) default_strength st"

abbreviation pstay :: "vid \<Rightarrow> nat \<Rightarrow> constr" where
  "pstay vb \<equiv> \<lambda>p. unc StayConstraintType default_strength (src_at vb p) True"

abbreviation pscale :: "vid \<Rightarrow> nat \<Rightarrow> constr" where
  "pscale vb \<equiv> \<lambda>p. scc vb p FORWARD"

definition input_bounds :: "nat \<Rightarrow> (int \<Rightarrow> int) \<Rightarrow> (int \<Rightarrow> int) \<Rightarrow> (nat \<Rightarrow> int) \<Rightarrow> int \<Rightarrow> bool" where
  "input_bounds n fa fb sval x \<longleftrightarrow> (\<forall>p < n. in_int (sval p * fa x) \<and> in_int (sval p * fa x + fb x))"

text \<open>
  The variable \<open>v\<close> is the scale or the offset: with the value \<open>X\<close> in it the two are \<open>A X\<close> and
  \<open>B X\<close>, and \<open>fa\<close>, \<open>fb\<close> are their values.
\<close>

locale changed_input =
  fixes vb :: vid and n :: nat and v :: vid and A B :: "variable \<Rightarrow> variable" and fa fb :: "int \<Rightarrow> int"
  assumes v: "v \<noteq> 0" "0 < vb"
    and at: "pvars vb n (A X) (B X) S D W v = Some X"
    and upd: "(pvars vb n (A X) (B X) S D W)(v \<mapsto> Z) = pvars vb n (A Z) (B Z) S D W"
    and stays: "v_stay (A X) \<and> v_stay (B X) \<longleftrightarrow> v_stay X"
    and vals: "v_value (A X) = fa (v_value X)" "v_value (B X) = fb (v_value X)"
begin

lemma result:
  "forward_result (A X) (B X) (cvar x cx dx mx wx True) (cvar z cz dz mz wz old) =
    cvar (if v_stay X then x * fa (v_value X) + fb (v_value X) else z) cz dz mz (Strength_weakest required_strength wx) (v_stay X)"
  using stays [of X] by (simp add: vals)

lemma consuming:
  assumes cb: "0 < cb" and e: "cb + 2 * n \<le> e" and R: "R e = Some (unc EditConstraintType s v b)"
    and X: "constraints X = map (scale_at cb) [0..<n] @ [e]" "determinedBy X = e"
  shows "Planner_addConstraintsConsumingTo v [] (heap h (pvars vb n (A X) (B X) S D W) (pcons cb n Y (pscale vb) R)) =
    Inr (map (scale_at cb) [0..<n])"
proof -
  have ne: "scale_at cb p \<noteq> e" if "p < n" for p using e that by (simp add: scale_at_def)
  then have "filter (\<lambda>c. c \<noteq> e \<and> live (pcons cb n Y (pscale vb) R) c sat) (map (scale_at cb) [0..<n] @ [e]) =
      map (scale_at cb) [0..<n]"
    by (auto simp: filter_id_conv)
  then show ?thesis
    using addConstraintsConsumingTo_eq [of v "heap h (pvars vb n (A X) (B X) S D W) (pcons cb n Y (pscale vb) R)" X "[]"]
      v cb e R at X by auto
qed

lemma input_add:
  assumes cb: "0 < cb" and e: "cb + 2 * n \<le> e" and f: "n \<le> f"
    and m: "mx < m" "\<forall>p. md p < m" "currentMark h + 1 = m" "- INT_MAX \<le> currentMark h" "currentMark h < INT_MAX"
    and X: "X = cvar x (map (scale_at cb) [0..<n]) 0 mx weakest_strength True"
    and X1: "X1 = cvar x (map (scale_at cb) [0..<n] @ [e]) e m preferred_strength False" and bounds: "input_bounds n fa fb sval x"
  shows "AbstractConstraint_addConstraint (Suc f) e (heap h (pvars vb n (A X) (B X) (psrc cb sval ms) (pdst cb dval md True) W)
      (pcons cb n (pstay vb) (pscale vb) [e \<mapsto> unc EditConstraintType preferred_strength v False])) =
    Inr (heap (h\<lparr>currentMark := m\<rparr>) (pvars vb n (A X1) (B X1) (psrc cb sval ms) (pdst cb dval md False) W)
      (pcons cb n (pstay vb) (pscale vb) [e \<mapsto> unc EditConstraintType preferred_strength v True]))"
proof -
  let ?E = "unc EditConstraintType preferred_strength v" and ?h = "h\<lparr>currentMark := m\<rparr>"
  let ?K = "\<lambda>b. pcons cb n (pstay vb) (pscale vb) [e \<mapsto> ?E b]" and ?remove = "Planner_incrementalRemove (Suc f)"
  let ?V = "\<lambda>X st. pvars vb n (A X) (B X) (psrc cb sval ms) (pdst cb dval md st) W"
  let ?X = "cvar x (map (scale_at cb) [0..<n] @ [e]) 0 mx weakest_strength True"
  let ?X' = "cvar x (map (scale_at cb) [0..<n] @ [e]) e mx preferred_strength False"
  have e0: "0 < e" using cb e by simp
  have add: "Constraint_addToGraph e (heap h (?V X True) (?K False)) = Inr (heap h (?V ?X True) (?K False))"
    using addToGraph_unary [where c = e and K = "?K False" and t = EditConstraintType and s = preferred_strength and v = v
        and b = False and V = "?V X True" and X = X and h = h] v e e0 X by (simp add: at upd)
  have ds: "Planner_addConstraintsConsumingTo v [] (heap ?h (?V ?X' True) (?K True)) = Inr (map (scale_at cb) [0..<n])"
    by (rule consuming) (use cb e in simp_all)
  have "addPropagate_loop ?remove f e m (map (scale_at cb) [0..<n]) (heap ?h (?V ?X' True) (?K True)) =
      Inr (True, heap ?h (pvars vb n (A ?X') (B ?X') (psrc cb sval ms) (upds [0..<n] (pdst cb dval md False) (pdst cb dval md True)) W) (?K True))"
    using m(2) bounds v cb f by (intro propagate_all)
      (simp_all add: settled_def less_imp_neq vals input_bounds_def result del: forward_result_cvar)
  then have rest: "addPropagate_loop ?remove f e m (map (scale_at cb) [0..<n]) (heap ?h (?V ?X' True) (?K True)) =
      Inr (True, heap ?h (?V ?X' False) (?K True))"
    by (simp add: upds_all)
  have "satisfy_with ?remove (Suc f) e m (heap ?h (?V ?X True) (?K False)) = Inr (0, heap ?h ((?V ?X' False)(v \<mapsto> ?X'\<lparr>v_mark := m\<rparr>)) (?K True))"
    using v e0 e m ds rest
    by (intro satisfy_unary [where X = ?X and X' = ?X' and X'' = ?X' and s = preferred_strength and t = EditConstraintType
        and v = v and old = False and ds = "map (scale_at cb) [0..<n]"]) (simp_all add: at upd)
  then show ?thesis
    using m X1 by (simp add: AbstractConstraint_addConstraint_def add Planner_incrementalAdd_def incrementalAdd_runs upd
        del: Planner_incrementalRemove.simps)
qed

lemma input_plan:
  assumes cb: "0 < cb" and e: "cb + 2 * n \<le> e" and f: "n \<le> f"
    and m: "mx < m" "\<forall>p. md p < m" "currentMark h + 1 = m" "- INT_MAX \<le> currentMark h" "currentMark h < INT_MAX"
    and X: "X = cvar x (map (scale_at cb) [0..<n] @ [e]) e mx preferred_strength False"
    and X1: "X1 = cvar x (map (scale_at cb) [0..<n] @ [e]) e m preferred_strength False"
  shows "Planner_extractPlanFromConstraints (Suc f) [e] (heap h (pvars vb n (A X) (B X) (psrc cb sval ms) (pdst cb dval md False) W)
      (pcons cb n (pstay vb) (pscale vb) [e \<mapsto> unc EditConstraintType preferred_strength v True])) =
    Inr (e # map (scale_at cb) [0..<n], heap (h\<lparr>currentMark := m\<rparr>) (pvars vb n (A X1) (B X1) (psrc cb sval ms) (pdst cb dval (\<lambda>p. m) False) W)
      (pcons cb n (pstay vb) (pscale vb) [e \<mapsto> unc EditConstraintType preferred_strength v True]))"
proof -
  let ?K = "pcons cb n (pstay vb) (pscale vb) [e \<mapsto> unc EditConstraintType preferred_strength v True]" and ?h = "h\<lparr>currentMark := m\<rparr>"
  let ?V = "\<lambda>X md. pvars vb n (A X) (B X) (psrc cb sval ms) (pdst cb dval md False) W"
  have e0: "0 < e" using cb e by simp
  have ds: "Planner_addConstraintsConsumingTo v [] (heap ?h (?V X1 md) ?K) = Inr (map (scale_at cb) [0..<n])"
    by (rule consuming) (use cb e X1 in simp_all)
  have "makePlan_loop f m (map (scale_at cb) [0..<n]) [e] (heap ?h (?V X1 md) ?K) =
      Inr ([e] @ map (scale_at cb) [0..<n], heap ?h (pvars vb n (A X1) (B X1) (psrc cb sval ms)
        (upds [0..<n] (pdst cb dval (\<lambda>p. m) False) (pdst cb dval md False)) W) ?K)"
    using m(2) v cb f by (intro plan_all) (simp_all add: settled_def less_imp_neq)
  then show ?thesis
    using plan_edit [where e = e and K = ?K and v = v and V = "?V X md" and X = X
        and s = preferred_strength and h = h and ds = "map (scale_at cb) [0..<n]" and k = f] ds
      v e e0 m X X1 by (simp add: at upd upds_all)
qed

lemma input_execute:
  assumes cb: "0 < cb" and e: "cb + 2 * n \<le> e" and bounds: "input_bounds n fa fb sval y"
    and X: "X = cvar x cs dx mx ws st" and X1: "X1 = cvar y cs dx mx ws st"
    and K: "K = pcons cb n (pstay vb) (pscale vb) [e \<mapsto> unc EditConstraintType s v True]"
  shows "rfold (\<lambda>i h. rbind (Variable_setValue v y h) (\<lambda>h. Plan_execute (e # map (scale_at cb) [0..<n]) h)) [0..<10]
      (heap h (pvars vb n (A X) (B X) (psrc cb sval ms) (pdst cb dval md False) W) K) =
    Inr (heap h (pvars vb n (A X1) (B X1) (psrc cb sval ms) (pdst cb (\<lambda>p. sval p * fa y + fb y) md False) W) K)"
proof -
  let ?V = "\<lambda>X dval. pvars vb n (A X) (B X) (psrc cb sval ms) (pdst cb dval md False) W"
  let ?dval = "\<lambda>p. sval p * fa y + fb y"
  have run: "rbind (Variable_setValue v y (heap h (?V (cvar x cs dx mx ws st) dval) K))
      (\<lambda>h. Plan_execute (e # map (scale_at cb) [0..<n]) h) = Inr (heap h (?V X1 ?dval) K)" for x dval
  proof -
    have "rfold Constraint_execute (map (scale_at cb) [0..<n]) (heap h (?V X1 dval) (pcons cb n (pstay vb) (pscale vb) R)) =
      Inr (heap h (pvars vb n (A X1) (B X1) (psrc cb sval ms) (upds [0..<n] (pdst cb ?dval md False) (pdst cb dval md False)) W)
        (pcons cb n (pstay vb) (pscale vb) R))" for R
      using bounds v cb by (intro execute_all) (simp_all add: settled_def X1 vals input_bounds_def)
    moreover have "Constraint_execute e (heap h V K) = Inr (heap h V K)" for V
      using cb e K by (simp add: Constraint_execute_def get_con_eq)
    ultimately show ?thesis
      using v by (simp add: Plan_execute_def variable_ops get_var_eq at upd upds_all X1 K)
  qed
  have ten: "[0..<10] = [0..<Suc 9]" by simp
  show ?thesis
    unfolding ten using run [of x dval] run [of y ?dval] X X1 by (intro repeat_idem) simp_all
qed

lemma input_remove:
  assumes cb: "0 < cb" and e: "cb + 2 * n \<le> e" and f: "n \<le> f" and h: "strs h = all_strengths" and bounds: "input_bounds n fa fb sval y"
    and X: "X = cvar y (map (scale_at cb) [0..<n] @ [e]) e m preferred_strength False"
    and X0: "X0 = cvar y (map (scale_at cb) [0..<n]) 0 m weakest_strength True"
  shows "Planner_incrementalRemove (Suc (Suc f)) e (heap h (pvars vb n (A X) (B X) (psrc cb sval ms) (pdst cb dval md False) W)
      (pcons cb n (pstay vb) (pscale vb) [e \<mapsto> unc EditConstraintType preferred_strength v True])) =
    Inr (heap h (pvars vb n (A X0) (B X0) (psrc cb sval ms) (pdst cb (\<lambda>p. sval p * fa y + fb y) md True) W)
      (pcons cb n (pstay vb) (pscale vb) [e \<mapsto> unc EditConstraintType preferred_strength v False]))"
proof -
  let ?K = "\<lambda>b. pcons cb n (pstay vb) (pscale vb) [e \<mapsto> unc EditConstraintType preferred_strength v b]"
  let ?V = "\<lambda>X dval st. pvars vb n (A X) (B X) (psrc cb sval ms) (pdst cb dval md st) W"
  let ?dval = "\<lambda>p. sval p * fa y + fb y" and ?cs = "map (scale_at cb) [0..<n]"
  have "rfold (consuming_step 0 Planner_removePropagateFrom_iter1) ?cs ([], heap h (?V X0 dval False) (?K False)) =
      Inr ([] @ map (dst_at vb) [0..<n], heap h (pvars vb n (A X0) (B X0) (psrc cb sval ms)
        (upds [0..<n] (pdst cb ?dval md True) (pdst cb dval md False)) W) (?K False))"
    using bounds v cb by (intro consume_all) (simp_all add: settled_def X0 vals input_bounds_def result del: forward_result_cvar)
  then have consume: "rfold (consuming_step 0 Planner_removePropagateFrom_iter1) ?cs ([], heap h (?V X0 dval False) (?K False)) =
      Inr (map (dst_at vb) [0..<n], heap h (?V X0 ?dval True) (?K False))"
    by (simp add: upds_all)
  have rest: "removePropagate_loop f (map (dst_at vb) [0..<n]) [] (heap h (?V X0 ?dval True) (?K False)) =
      Inr ([], heap h (?V X0 ?dval True) (?K False))"
    by (rule remove_loop_all) (use v cb f in \<open>simp_all add: settled_def\<close>)
  have filt: "filter (\<lambda>d. d \<noteq> e) (?cs @ [e]) = ?cs"
    using e by (auto simp: filter_id_conv scale_at_def)
  have "removePropagate_loop (Suc f) [v] [] (heap h (?V X0 dval False) (?K False)) = Inr ([], heap h (?V X0 ?dval True) (?K False))"
    using consume rest v by (simp add: variable_ops get_var_eq at X0 all_satisfied Planner_constraintsConsuming_def)
  then show ?thesis
    using remove_edit_start [where e = e and K = "?K True" and v = v and s = preferred_strength and V = "?V X dval False"
        and h = h and f = "Suc f" and x = y and cs = "?cs @ [e]" and mk = m and ws = preferred_strength and st = False
        and un = "[]" and H = "heap h (?V X0 ?dval True) (?K False)"]
      cb e h v X X0 filt by (simp add: at upd del: removePropagate_loop.simps Planner_incrementalRemove.simps filter_append)
qed

lemma input_change:
  assumes h: "strs h = all_strengths" and cb: "0 < cb" "cb + 2 * n \<le> c_next h" and k: "n + 3 \<le> k"
    and m: "mx \<le> currentMark h" "\<forall>p. md p \<le> currentMark h" "- INT_MAX \<le> currentMark h" "currentMark h + 2 \<le> INT_MAX"
    and bounds: "input_bounds n fa fb sval x" "input_bounds n fa fb sval y"
    and X: "X = cvar x (map (scale_at cb) [0..<n]) 0 mx weakest_strength True"
    and X0: "X0 = cvar y (map (scale_at cb) [0..<n]) 0 (currentMark h + 2) weakest_strength True"
  shows "Planner_change k v y (heap h (pvars vb n (A X) (B X) (psrc cb sval ms) (pdst cb dval md True) Map.empty)
      (pcons cb n (pstay vb) (pscale vb) Map.empty)) =
    Inr (heap (h\<lparr>c_next := Suc (c_next h), currentMark := currentMark h + 2\<rparr>)
      (pvars vb n (A X0) (B X0) (psrc cb sval ms) (pdst cb (\<lambda>p. sval p * fa y + fb y) (\<lambda>p. currentMark h + 2) True) Map.empty)
      (pcons cb n (pstay vb) (pscale vb) Map.empty))"
proof -
  obtain f where f: "k = Suc (Suc f)" "n \<le> f" using k by (intro that [of "k - 2"]) simp_all
  define e where "e = c_next h"
  let ?m = "currentMark h"
  define h1 where "h1 = h\<lparr>c_next := Suc e\<rparr>"
  define h2 where "h2 = h1\<lparr>currentMark := ?m + 1\<rparr>"
  define h3 where "h3 = h2\<lparr>currentMark := ?m + 2\<rparr>"
  note hs = h1_def h2_def h3_def
  let ?K = "\<lambda>b. pcons cb n (pstay vb) (pscale vb) [e \<mapsto> unc EditConstraintType preferred_strength v b]"
  let ?V = "\<lambda>X dval md st. pvars vb n (A X) (B X) (psrc cb sval ms) (pdst cb dval md st) Map.empty"
  let ?X = "\<lambda>x m. cvar x (map (scale_at cb) [0..<n] @ [e]) e m preferred_strength False"
  let ?dval = "\<lambda>p. sval p * fa y + fb y"
  have e: "0 < e" "cb + 2 * n \<le> e" using cb by (simp_all add: e_def)
  have md: "\<forall>p. md p < ?m + 1" "\<forall>p. md p < ?m + 2"
    using m(2) by (auto intro: le_less_trans)
  have 1: "AbstractConstraint_addConstraint k e (heap h1 (?V X dval md True) (?K False)) = Inr (heap h2 (?V (?X x (?m + 1)) dval md False) (?K True))"
    using input_add [where cb = cb and e = e and f = "Suc f" and mx = mx and m = "?m + 1" and md = md and h = h1 and X = X and x = x
        and ?X1.0 = "?X x (?m + 1)" and sval = sval and ms = ms and dval = dval and W = Map.empty] cb e f m md bounds X by (simp add: hs)
  have 2: "Planner_extractPlanFromConstraints k [e] (heap h2 (?V (?X x (?m + 1)) dval md False) (?K True)) =
      Inr (e # map (scale_at cb) [0..<n], heap h3 (?V (?X x (?m + 2)) dval (\<lambda>p. ?m + 2) False) (?K True))"
    using input_plan [where cb = cb and e = e and f = "Suc f" and mx = "?m + 1" and m = "?m + 2" and md = md and h = h2
        and X = "?X x (?m + 1)" and x = x and ?X1.0 = "?X x (?m + 2)" and sval = sval and ms = ms and dval = dval and W = Map.empty]
      cb e f m md by (simp add: hs)
  have 3: "rfold (\<lambda>i h. rbind (Variable_setValue v y h) (\<lambda>h. Plan_execute (e # map (scale_at cb) [0..<n]) h)) [0..<10]
      (heap h3 (?V (?X x (?m + 2)) dval (\<lambda>p. ?m + 2) False) (?K True)) =
    Inr (heap h3 (?V (?X y (?m + 2)) ?dval (\<lambda>p. ?m + 2) False) (?K True))"
    by (rule input_execute) (use cb e bounds in simp_all)
  have 4: "Planner_incrementalRemove k e (heap h3 (?V (?X y (?m + 2)) ?dval (\<lambda>p. ?m + 2) False) (?K True)) =
    Inr (heap h3 (?V X0 ?dval (\<lambda>p. ?m + 2) True) (?K False))"
    unfolding f by (rule input_remove) (use cb e f h bounds X0 in \<open>simp_all add: hs\<close>)
  have 5: "rbind (AbstractConstraint_destroyConstraint k e (heap h3 (?V (?X y (?m + 2)) ?dval (\<lambda>p. ?m + 2) False) (?K True)))
      (Constraint_dispose e) = Inr (heap h3 (?V X0 ?dval (\<lambda>p. ?m + 2) True) (pcons cb n (pstay vb) (pscale vb) Map.empty))"
    by (rule destroy_edit [OF e(2,1) 4 v(1) at]) (use e in \<open>auto simp: X0 scale_at_def\<close>)
  have "Planner_change k v y (heap h (?V X dval md True) (pcons cb n (pstay vb) (pscale vb) Map.empty)) =
      Inr (heap h3 (?V X0 ?dval (\<lambda>p. ?m + 2) True) (pcons cb n (pstay vb) (pscale vb) Map.empty))"
    by (rule change_runs [OF _ h e_def _ 2 3 5]) (use 1 cb e in \<open>simp_all add: h1_def e_def\<close>)
  then show ?thesis by (simp add: hs e_def)
qed

end

text \<open>The scale and the offset of the settled state.\<close>

interpretation scale: changed_input "Suc u" n "Suc u" "\<lambda>X. X" "\<lambda>X. cvar b cs 0 m weakest_strength True" "\<lambda>x. x" "\<lambda>x. b"
  for u n b cs m
  by unfold_locales simp_all

interpretation offset: changed_input "Suc u" n "Suc (Suc u)" "\<lambda>X. cvar a cs 0 m weakest_strength True" "\<lambda>X. X" "\<lambda>x. a" "\<lambda>x. x"
  for u n a cs m
  by unfold_locales simp_all

lemma change_scale:
  assumes st: "proj_state vb cb n a b sval dval h" and m: "currentMark h + 2 \<le> INT_MAX"
    and bounds: "\<forall>p < n. in_int (sval p * a) \<and> in_int (sval p * a + b) \<and> in_int (sval p * y) \<and> in_int (sval p * y + b)"
    and k: "n + 3 \<le> k"
  shows "\<exists>h'. Planner_change k vb y h = Inr h' \<and> proj_state vb cb n y b sval (\<lambda>p. sval p * y + b) h' \<and> after_change 2 h h'"
proof -
  obtain ma mb ms md where
    h: "strs h = all_strengths" "0 < vb" "0 < cb" "cb + 2 * n \<le> c_next h" "- INT_MAX \<le> currentMark h"
    and mk: "ma \<le> currentMark h" "mb \<le> currentMark h" "\<forall>p. ms p \<le> currentMark h \<and> md p \<le> currentMark h"
    and heap: "h = proj_heap vb cb n a b sval dval ma mb ms md h"
    using st unfolding proj_state_def by blast
  obtain u where u: "vb = Suc u" using h(2) by (cases vb) auto
  let ?h = "h\<lparr>c_next := Suc (c_next h), currentMark := currentMark h + 2\<rparr>"
  let ?H = "proj_heap vb cb n y b sval (\<lambda>p. sval p * y + b) (currentMark h + 2) mb ms (\<lambda>p. currentMark h + 2) ?h"
  have "Planner_change k vb y (proj_heap vb cb n a b sval dval ma mb ms md h) = Inr ?H"
    unfolding proj_heap_def
    unfolding u by (rule scale.input_change [where x = a and mx = ma])
      (use h mk m k bounds in \<open>simp_all add: input_bounds_def u\<close>)
  moreover have "proj_state vb cb n y b sval (\<lambda>p. sval p * y + b) ?H"
  proof (rule proj_stateI)
    show "ms p \<le> currentMark ?h" for p using mk(3) [rule_format, of p] by simp
  qed (use h mk in simp_all)
  ultimately show ?thesis using heap by (intro exI [of _ ?H]) (simp add: after_change_def proj_heap_def)
qed

lemma change_offset:
  assumes st: "proj_state vb cb n a b sval dval h" and m: "currentMark h + 2 \<le> INT_MAX"
    and bounds: "\<forall>p < n. in_int (sval p * a) \<and> in_int (sval p * a + b) \<and> in_int (sval p * a + y)"
    and k: "n + 3 \<le> k"
  shows "\<exists>h'. Planner_change k (Suc vb) y h = Inr h' \<and> proj_state vb cb n a y sval (\<lambda>p. sval p * a + y) h' \<and> after_change 2 h h'"
proof -
  obtain ma mb ms md where
    h: "strs h = all_strengths" "0 < vb" "0 < cb" "cb + 2 * n \<le> c_next h" "- INT_MAX \<le> currentMark h"
    and mk: "ma \<le> currentMark h" "mb \<le> currentMark h" "\<forall>p. ms p \<le> currentMark h \<and> md p \<le> currentMark h"
    and heap: "h = proj_heap vb cb n a b sval dval ma mb ms md h"
    using st unfolding proj_state_def by blast
  obtain u where u: "vb = Suc u" using h(2) by (cases vb) auto
  let ?h = "h\<lparr>c_next := Suc (c_next h), currentMark := currentMark h + 2\<rparr>"
  let ?H = "proj_heap vb cb n a y sval (\<lambda>p. sval p * a + y) ma (currentMark h + 2) ms (\<lambda>p. currentMark h + 2) ?h"
  have "Planner_change k (Suc vb) y (proj_heap vb cb n a b sval dval ma mb ms md h) = Inr ?H"
    unfolding proj_heap_def
    unfolding u by (rule offset.input_change [where x = b and mx = mb])
      (use h mk m k bounds in \<open>simp_all add: input_bounds_def u\<close>)
  moreover have "proj_state vb cb n a y sval (\<lambda>p. sval p * a + y) ?H"
  proof (rule proj_stateI)
    show "ms p \<le> currentMark ?h" for p using mk(3) [rule_format, of p] by simp
  qed (use h mk in simp_all)
  ultimately show ?thesis using heap by (intro exI [of _ ?H]) (simp add: after_change_def proj_heap_def)
qed

end
