(* ===== verification/DeltaBlueChain.thy ===== *)
theory DeltaBlueChain
  imports DeltaBlueEval
begin

text \<open>
  \<open>Planner_chainTest\<close> on every length: the states that the chain of equality constraints goes
  through while it is built, while the stay and the edit constraint sweep down and up, while the
  plan is extracted and executed, and while the edit constraint is removed.
\<close>

section \<open>Building the chain\<close>

text \<open>The constraints of the \<open>i\<close>-th variable when the first \<open>k\<close> equalities exist.\<close>

definition links :: "cid \<Rightarrow> nat \<Rightarrow> nat \<Rightarrow> cid list" where
  "links cb k i = (if 0 < i \<and> i \<le> k then [cb + (i - 1)] else []) @ (if i < k then [cb + i] else [])"

definition built_var :: "cid \<Rightarrow> nat \<Rightarrow> (nat \<Rightarrow> int) \<Rightarrow> nat \<Rightarrow> variable" where
  "built_var cb k mk i = cvar 0 (links cb k i) (if 0 < i \<and> i \<le> k then cb + (i - 1) else 0) (mk i) weakest_strength True"

definition link :: "vid \<Rightarrow> int \<Rightarrow> nat \<Rightarrow> constr" where
  "link vb d i = eqc (vb + i) (Suc (vb + i)) d"

lemma create_link:
  assumes k: "k < n" and pos: "0 < vb" "0 < cb" and h: "strs h = all_strengths" "c_next h = cb + k"
    and mk: "\<And>i. mk i \<le> currentMark h" "- INT_MAX \<le> currentMark h" "currentMark h < INT_MAX"
  shows "EqualityConstraint_create (Suc f) (vb + k) (Suc (vb + k)) (REQUIRED all_strengths)
      (heap h (tab vb (Suc n) (built_var cb k mk) Map.empty) (tab cb k (link vb FORWARD) Map.empty)) =
    Inr (cb + k, heap (h\<lparr>currentMark := currentMark h + 1, c_next := Suc (cb + k)\<rparr>)
      (tab vb (Suc n) (built_var cb (Suc k) (mk(k := currentMark h + 1, Suc k := currentMark h + 1))) Map.empty)
      (tab cb (Suc k) (link vb FORWARD) Map.empty))"
proof -
  let ?m = "currentMark h + 1" and ?c = "cb + k"
  let ?K = "(tab cb k (link vb FORWARD) Map.empty)(?c \<mapsto> eqc (vb + k) (Suc (vb + k)) 0)"
  let ?F = "built_var cb k mk"
  let ?A = "cvar 0 (links cb (Suc k) k) (if 0 < k then cb + (k - 1) else 0) (mk k) weakest_strength True"
  let ?B = "cvar 0 [?c] 0 (mk (Suc k)) weakest_strength True"
  let ?V = "tab vb (Suc n) (?F(k := ?A, Suc k := ?B)) Map.empty"
  let ?h = "h\<lparr>c_next := Suc ?c\<rparr>"
  let ?h' = "?h\<lparr>currentMark := ?m\<rparr>"
  have "Constraint_addToGraph ?c (heap ?h (tab vb (Suc n) ?F Map.empty) ?K) = Inr (heap ?h ?V ?K)"
    using addToGraph_equality [where c = ?c and K = ?K and a = "vb + k" and b = "Suc (vb + k)"
        and V = "tab vb (Suc n) ?F Map.empty" and A = "?F k" and B = "?F (Suc k)" and h = ?h] pos k
    by (simp add: built_var_def links_def)
  moreover have "satisfy_with remove (Suc f) ?c ?m (heap ?h' ?V ?K) =
      Inr (0, heap ?h' (tab vb (Suc n) (?F(k := ?A\<lparr>v_mark := ?m\<rparr>, Suc k := ?B\<lparr>determinedBy := ?c, v_mark := ?m\<rparr>)) Map.empty)
        (?K(?c \<mapsto> eqc (vb + k) (Suc (vb + k)) FORWARD)))" for remove
    using satisfy_equality_forward [where c = ?c and K = ?K and V = ?V and a = "vb + k" and b = "Suc (vb + k)" and A = ?A and B = ?B
        and dir = 0 and m = ?m and h = ?h' and k = f and remove = remove] pos k mk(1) [of "Suc k"]
    by (simp add: idle_def overriding_def)
  moreover have "?F(k := ?A\<lparr>v_mark := ?m\<rparr>, Suc k := ?B\<lparr>determinedBy := ?c, v_mark := ?m\<rparr>) =
      built_var cb (Suc k) (mk(k := ?m, Suc k := ?m))"
    by (auto simp: fun_eq_iff built_var_def links_def)
  moreover have "?K(?c \<mapsto> eqc (vb + k) (Suc (vb + k)) FORWARD) = tab cb (Suc k) (link vb FORWARD) Map.empty"
    by (simp add: tab_Suc) (simp add: link_def fun_upd_idem)
  ultimately show ?thesis
    using h pos mk
    by (simp add: Equality_create_eq AbstractConstraint_addConstraint_def Planner_incrementalAdd_def new_con_heap
      binary_con_eqc incrementalAdd_runs)
qed

lemma link_simps [simp]:
  "c_type (link vb d i) = EqualityConstraintType" "sat (link vb d i) \<longleftrightarrow> d \<noteq> 0" "unsat (link vb d i) = link vb 0 i"
  "outp (link vb FORWARD i) = Suc (vb + i)" "outp (link vb BACKWARD i) = vb + i"
  by (simp_all add: link_def)

definition chain_ids :: "nat \<Rightarrow> nat \<Rightarrow> nat list" where
  "chain_ids b n = map (\<lambda>i. b + i) [0..<n]"

lemma chain_ids_simps [simp]:
  "length (chain_ids b n) = n" "i < n \<Longrightarrow> chain_ids b n ! i = b + i" "chain_ids b 0 = []"
  by (simp_all add: chain_ids_def)

lemma chain_ids_Suc: "chain_ids b (Suc n) = chain_ids b n @ [b + n]"
  by (simp add: chain_ids_def)

lemma build_chain:
  assumes pos: "0 < vb" "0 < cb" and h: "strs h = all_strengths" "c_next h = cb" "currentMark h = 1"
    and n: "int n < INT_MAX"
  shows "k \<le> n \<Longrightarrow> \<exists>mk. (\<forall>i. mk i \<le> 1 + int k) \<and>
    rfold (chain_link (Suc f) (chain_ids vb (Suc n))) [0..<k] ([], heap h (tab vb (Suc n) (built_var cb 0 (\<lambda>i. 0)) Map.empty) Map.empty) =
    Inr (chain_ids cb k, heap (h\<lparr>currentMark := 1 + int k, c_next := cb + k\<rparr>)
      (tab vb (Suc n) (built_var cb k mk) Map.empty) (tab cb k (link vb FORWARD) Map.empty))"
proof (induction k)
  case 0
  have "h\<lparr>currentMark := 1, c_next := cb\<rparr> = h" using h by simp
  then show ?case by (intro exI [of _ "\<lambda>i. 0"]) simp
next
  case (Suc k)
  then obtain mk where mk: "\<forall>i. mk i \<le> 1 + int k" and
    run: "rfold (chain_link (Suc f) (chain_ids vb (Suc n))) [0..<k] ([], heap h (tab vb (Suc n) (built_var cb 0 (\<lambda>i. 0)) Map.empty) Map.empty) =
      Inr (chain_ids cb k, heap (h\<lparr>currentMark := 1 + int k, c_next := cb + k\<rparr>)
      (tab vb (Suc n) (built_var cb k mk) Map.empty) (tab cb k (link vb FORWARD) Map.empty))" by auto
  let ?h = "h\<lparr>currentMark := 1 + int k, c_next := cb + k\<rparr>"
  define mk' where "mk' = mk(k := 2 + int k, Suc k := 2 + int k)"
  have at: "list_at (chain_ids vb (Suc n)) (int i) = Inr (vb + i)" if "i \<le> n" for i
    using that by (simp add: list_at_def)
  have at': "list_at (chain_ids vb (Suc n)) (int k + 1) = Inr (Suc (vb + k))"
    using at [of "Suc k"] Suc.prems by (simp add: add.commute)
  have "currentMark ?h + 1 = 2 + int k" by simp
  with create_link [OF _ pos, where n = n and h = ?h and k = k and mk = mk and f = f] Suc.prems mk h n
  have "chain_link (Suc f) (chain_ids vb (Suc n)) k (chain_ids cb k, heap ?h
      (tab vb (Suc n) (built_var cb k mk) Map.empty) (tab cb k (link vb FORWARD) Map.empty)) =
    Inr (chain_ids cb (Suc k), heap (?h\<lparr>currentMark := 2 + int k, c_next := Suc (cb + k)\<rparr>)
      (tab vb (Suc n) (built_var cb (Suc k) mk') Map.empty) (tab cb (Suc k) (link vb FORWARD) Map.empty))"
    by (simp add: mk'_def chain_link_def at at' chain_ids_Suc [of cb])
  moreover have "\<forall>i. mk' i \<le> 1 + int (Suc k)" using mk by (auto simp: mk'_def intro: order_trans)
  moreover have "1 + int (Suc k) = 2 + int k" by simp
  ultimately show ?case
    by (intro exI [of _ mk']) (simp add: rfold_append run)
qed

section \<open>Sweeping down\<close>

text \<open>
  A sweep from the last variable, which the stay constraint now determines, towards the first: the
  variables from \<open>j\<close> on are determined from the right.
\<close>

definition chain_links :: "cid \<Rightarrow> nat \<Rightarrow> nat \<Rightarrow> cid list" where
  "chain_links cb n i = links cb n i @ (if i = n then [cb + n] else [])"

definition down_var :: "cid \<Rightarrow> nat \<Rightarrow> int \<Rightarrow> int \<Rightarrow> (nat \<Rightarrow> int) \<Rightarrow> nat \<Rightarrow> nat \<Rightarrow> variable" where
  "down_var cb n x m mk j i =
    (if i < j then cvar x (chain_links cb n i) (if 0 < i then cb + (i - 1) else 0) (mk i) weakest_strength True
     else cvar x (chain_links cb n i) (cb + i) m strong_default_strength True)"

definition down_con :: "vid \<Rightarrow> nat \<Rightarrow> nat \<Rightarrow> constr" where
  "down_con vb j i = link vb (if j \<le> i then BACKWARD else if Suc i = j then 0 else FORWARD) i"

lemma down_step:
  assumes j: "j < n" and pos: "0 < vb" "0 < cb" and mk: "mk j \<noteq> m"
  shows "satisfy_with remove (Suc f) (cb + j) m
      (heap h (tab vb (Suc n) (down_var cb n x m mk (Suc j)) Map.empty) (tab cb n (down_con vb (Suc j)) R)) =
    Inr (if j = 0 then 0 else cb + (j - 1),
      heap h (tab vb (Suc n) (down_var cb n x m mk j) Map.empty) (tab cb n (down_con vb j) R))"
proof -
  let ?V = "tab vb (Suc n) (down_var cb n x m mk (Suc j)) Map.empty" and ?K = "tab cb n (down_con vb (Suc j)) R"
  define d where "d = (if j = 0 then 0 else cb + (j - 1))"
  have d: "determinedBy (down_var cb n x m mk (Suc j) j) = d" by (simp add: down_var_def d_def)
  have idle: "idle ?K (cb + j) d (constraints (down_var cb n x m mk (Suc j) j))"
    using j pos unfolding d_def by (cases j) (auto simp: idle_def down_var_def chain_links_def links_def live_def down_con_def)
  have "d \<noteq> 0 \<longrightarrow> live ?K d (\<lambda>y. True)" "d \<noteq> cb + j"
    using j pos unfolding d_def by (cases j, simp_all add: live_def down_con_def)+
  then have "satisfy_with remove (Suc f) (cb + j) m (heap h ?V ?K) = Inr (d, heap h
      (?V(Suc (vb + j) \<mapsto> down_var cb n x m mk (Suc j) (Suc j),
          vb + j \<mapsto> down_var cb n x m mk j j))
      ((overriding d ?K)(cb + j \<mapsto> link vb BACKWARD j)))"
    using satisfy_equality_backward [where c = "cb + j" and K = ?K and V = ?V and a = "Suc (vb + j)" and b = "vb + j"
        and A = "down_var cb n x m mk (Suc j) (Suc j)" and B = "down_var cb n x m mk (Suc j) j"
        and m = m and h = h and k = f and remove = remove and dir = 0, unfolded d] idle j pos mk
    by (simp add: down_var_def down_con_def link_def)
  moreover have "?V(Suc (vb + j) \<mapsto> down_var cb n x m mk (Suc j) (Suc j), vb + j \<mapsto> down_var cb n x m mk j j) =
      tab vb (Suc n) (down_var cb n x m mk j) Map.empty"
    using j by (simp, intro tab_cong) (auto simp: down_var_def)
  moreover have "(overriding d ?K)(cb + j \<mapsto> link vb BACKWARD j) = tab cb n (down_con vb j) R"
    using j pos unfolding d_def by (cases j) (auto simp: down_con_def intro!: tab_cong)
  ultimately show ?thesis by (simp add: d_def)
qed

lemma down_sweep:
  assumes pos: "0 < vb" "0 < cb" and mk: "\<And>i. mk i \<noteq> m"
  shows "j \<le> n \<Longrightarrow> j \<le> i \<Longrightarrow> incrementalAdd_loop remove (Suc f) i (if j = 0 then 0 else cb + (j - 1)) m
      (heap h (tab vb (Suc n) (down_var cb n x m mk j) Map.empty) (tab cb n (down_con vb j) R)) =
    Inr (heap h (tab vb (Suc n) (down_var cb n x m mk 0) Map.empty) (tab cb n (down_con vb 0) R))"
proof (induction j arbitrary: i)
  case (Suc j)
  then obtain i' where i: "i = Suc i'" "j \<le> i'" by (cases i) auto
  have "cb + j \<noteq> 0" using pos by simp
  with incrementalAdd_loop_step [OF down_step [OF _ pos mk, where j = j and n = n and f = f and h = h and x = x and R = R] this] Suc.IH [of i'] Suc.prems
  show ?case by (simp add: i del: neq0_conv)
qed simp

text \<open>Adding the stay constraint to a chain that is satisfied from left to right.\<close>

lemma add_stay:
  assumes n: "0 < n" and pos: "0 < vb" "0 < cb" and mk: "\<And>i. mk i \<le> currentMark h"
      "- INT_MAX \<le> currentMark h" "currentMark h < INT_MAX"
    and R: "R (cb + n) = Some (unc StayConstraintType strong_default_strength (vb + n) old)" and f: "n \<le> f"
  shows "incrementalAdd_with remove (Suc f) (cb + n)
      (heap h (tab vb (Suc n) (down_var cb n x m0 mk (Suc n)) Map.empty) (tab cb n (down_con vb (Suc n)) R)) =
    Inr (heap (h\<lparr>currentMark := currentMark h + 1\<rparr>)
      (tab vb (Suc n) (down_var cb n x (currentMark h + 1) mk 0) Map.empty)
      (tab cb n (down_con vb 0) (R(cb + n \<mapsto> unc StayConstraintType strong_default_strength (vb + n) True))))"
proof -
  let ?m = "currentMark h + 1" and ?s = "cb + n"
  let ?V = "tab vb (Suc n) (down_var cb n x m0 mk (Suc n)) Map.empty" and ?K = "tab cb n (down_con vb (Suc n)) R"
  let ?X = "down_var cb n x m0 mk (Suc n) n"
  let ?S = "unc StayConstraintType strong_default_strength (vb + n)"
  define d where "d = cb + (n - 1)"
  obtain n' where n': "n = Suc n'" using n by (cases n) auto
  have X: "determinedBy ?X = d" "constraints ?X = [d, ?s]" "v_mark ?X = mk n" "walkStrength ?X = weakest_strength"
    using n by (simp_all add: down_var_def d_def chain_links_def links_def)
  have K: "?K ?s = R ?s" by (simp add: tab_out)
  have live: "live ?K d (\<lambda>y. True)" using pos by (simp add: live_def d_def n' down_con_def)
  have "mk n \<noteq> ?m" using mk(1) [of n] by simp
  moreover have "idle ?K ?s d [d, ?s]" using live by (simp add: idle_def live_def)
  moreover have "d \<noteq> ?s" using n by (simp add: d_def)
  ultimately have "satisfy_with remove (Suc f) ?s ?m (heap (h\<lparr>currentMark := ?m\<rparr>) ?V ?K) = Inr (d,
      heap (h\<lparr>currentMark := ?m\<rparr>)
       (?V(vb + n \<mapsto> ?X\<lparr>determinedBy := ?s, walkStrength := strong_default_strength, v_stay := True, v_mark := ?m\<rparr>))
       ((overriding d ?K)(?s \<mapsto> ?S True)))"
    using satisfy_unary_idle [where c = ?s and K = ?K and V = ?V and X = ?X and v = "vb + n" and m = ?m and t = StayConstraintType
        and s = strong_default_strength and old = old and k = f and h = "h\<lparr>currentMark := ?m\<rparr>" and remove = remove, unfolded X]
      pos R live by (simp add: K)
  moreover have "?V(vb + n \<mapsto> ?X\<lparr>determinedBy := ?s, walkStrength := strong_default_strength, v_stay := True, v_mark := ?m\<rparr>) =
      tab vb (Suc n) (down_var cb n x ?m mk n) Map.empty"
    by (simp, intro tab_cong) (auto simp: down_var_def less_Suc_eq)
  moreover have "(overriding d ?K)(?s \<mapsto> ?S True) = tab cb n (down_con vb n) (R(?s \<mapsto> ?S True))"
    using pos by (simp add: d_def n' tab_upd_out, intro tab_cong) (auto simp: down_con_def)
  moreover have "incrementalAdd_loop remove (Suc f) (Suc f) d ?m (heap (h\<lparr>currentMark := ?m\<rparr>)
      (tab vb (Suc n) (down_var cb n x ?m mk n) Map.empty) (tab cb n (down_con vb n) (R(?s \<mapsto> ?S True)))) =
    Inr (heap (h\<lparr>currentMark := ?m\<rparr>) (tab vb (Suc n) (down_var cb n x ?m mk 0) Map.empty)
      (tab cb n (down_con vb 0) (R(?s \<mapsto> ?S True))))"
  proof -
    have "mk i \<noteq> ?m" for i using mk(1) [of i] by simp
    from down_sweep [OF pos this, where j = n and n = n and i = "Suc f" and remove = remove and f = f
        and h = "h\<lparr>currentMark := ?m\<rparr>" and x = x and R = "R(?s \<mapsto> ?S True)"] n f
    show ?thesis by (simp add: d_def)
  qed
  ultimately show ?thesis using mk(2,3) by (simp add: incrementalAdd_runs)
qed

section \<open>Sweeping up\<close>

text \<open>
  A sweep from the first variable, which the edit constraint now determines, towards the last: the
  variables up to \<open>j\<close> are determined from the left. At the end the stay constraint is overridden and
  cannot be satisfied again.
\<close>

definition edit_links :: "cid \<Rightarrow> nat \<Rightarrow> nat \<Rightarrow> cid list" where
  "edit_links cb n i = chain_links cb n i @ (if i = 0 then [Suc (cb + n)] else [])"

definition settled_var :: "cid \<Rightarrow> nat \<Rightarrow> int \<Rightarrow> (nat \<Rightarrow> int) \<Rightarrow> nat \<Rightarrow> variable" where
  "settled_var cb n x mk i = cvar x (edit_links cb n i) (cb + i) (mk i) strong_default_strength True"

definition edited_var :: "cid \<Rightarrow> nat \<Rightarrow> int \<Rightarrow> (nat \<Rightarrow> int) \<Rightarrow> nat \<Rightarrow> variable" where
  "edited_var cb n x mk i =
    cvar x (edit_links cb n i) (if i = 0 then Suc (cb + n) else cb + (i - 1)) (mk i) preferred_strength False"

definition up_var :: "cid \<Rightarrow> nat \<Rightarrow> int \<Rightarrow> int \<Rightarrow> (nat \<Rightarrow> int) \<Rightarrow> nat \<Rightarrow> nat \<Rightarrow> variable" where
  "up_var cb n x m mk j i = (if i \<le> j then edited_var cb n x (\<lambda>i. m) i else settled_var cb n x mk i)"

definition up_con :: "vid \<Rightarrow> nat \<Rightarrow> nat \<Rightarrow> constr" where
  "up_con vb j i = link vb (if i < j then FORWARD else if i = j then 0 else BACKWARD) i"

definition up_rest :: "cid \<Rightarrow> nat \<Rightarrow> nat \<Rightarrow> (cid \<Rightarrow> constr option) \<Rightarrow> cid \<Rightarrow> constr option" where
  "up_rest cb n j R = (if j = n then overriding (cb + n) R else R)"

lemma up_step:
  assumes j: "j < n" and pos: "0 < vb" "0 < cb" and mk: "mk (Suc j) \<noteq> m" and R: "live R (cb + n) (\<lambda>y. True)"
  shows "satisfy_with remove (Suc f) (cb + j) m
      (heap h (tab vb (Suc n) (up_var cb n x m mk j) Map.empty) (tab cb n (up_con vb j) R)) =
    Inr (cb + Suc j, heap h (tab vb (Suc n) (up_var cb n x m mk (Suc j)) Map.empty)
      (tab cb n (up_con vb (Suc j)) (up_rest cb n (Suc j) R)))"
proof -
  let ?V = "tab vb (Suc n) (up_var cb n x m mk j) Map.empty" and ?K = "tab cb n (up_con vb j) R"
  let ?A = "up_var cb n x m mk j j" and ?B = "up_var cb n x m mk j (Suc j)"
  have live: "live ?K (Suc (cb + j)) (\<lambda>y. True)"
  proof (cases "Suc j = n")
    case True
    then have "?K (Suc (cb + j)) = R (cb + n)" using tab_out [of "cb + n" cb n] by auto
    with R True show ?thesis by (auto simp: live_def)
  next
    case False
    with j show ?thesis by (simp add: live_def up_con_def)
  qed
  then have "idle ?K (cb + j) (Suc (cb + j)) (constraints ?B)"
    using j by (auto simp: idle_def up_var_def settled_var_def edit_links_def chain_links_def links_def live_def)
  with live have "satisfy_with remove (Suc f) (cb + j) m (heap h ?V ?K) = Inr (Suc (cb + j), heap h
      (?V(vb + j \<mapsto> ?A, Suc (vb + j) \<mapsto> up_var cb n x m mk (Suc j) (Suc j)))
      ((overriding (Suc (cb + j)) ?K)(cb + j \<mapsto> link vb FORWARD j)))"
    using satisfy_equality_forward [where c = "cb + j" and K = ?K and V = ?V and a = "vb + j" and b = "Suc (vb + j)"
        and A = ?A and B = ?B and m = m and h = h and k = f and remove = remove and dir = 0] j pos mk
    by (simp add: up_var_def settled_var_def edited_var_def up_con_def link_def edit_links_def)
  moreover have "?V(vb + j \<mapsto> ?A, Suc (vb + j) \<mapsto> up_var cb n x m mk (Suc j) (Suc j)) =
      tab vb (Suc n) (up_var cb n x m mk (Suc j)) Map.empty"
    using j by (simp, intro tab_cong) (auto simp: up_var_def le_Suc_eq)
  moreover have "(overriding (Suc (cb + j)) ?K)(cb + j \<mapsto> link vb FORWARD j) =
      tab cb n (up_con vb (Suc j)) (up_rest cb n (Suc j) R)"
  proof (cases "Suc j = n")
    case True
    then have "overriding (Suc (cb + j)) ?K = tab cb n (up_con vb j) (overriding (cb + n) R)"
      by (subst overriding_tab_out) auto
    with True j show ?thesis
      by (simp add: up_rest_def, intro tab_cong) (auto simp: up_con_def)
  next
    case False
    with j show ?thesis
      by (simp add: up_rest_def, intro tab_cong) (auto simp: up_con_def)
  qed
  ultimately show ?thesis by simp
qed

lemma up_sweep:
  assumes n: "0 < n" and pos: "0 < vb" "0 < cb" and mk: "\<And>i. mk i \<noteq> m" and strs: "strs h = all_strengths"
    and R: "R (cb + n) = Some (unc StayConstraintType strong_default_strength (vb + n) old)"
  shows "j < n \<Longrightarrow> n < i + j \<Longrightarrow> incrementalAdd_loop remove (Suc f) i (cb + j) m
      (heap h (tab vb (Suc n) (up_var cb n x m mk j) Map.empty) (tab cb n (up_con vb j) R)) =
    Inr (heap h (tab vb (Suc n) (edited_var cb n x (\<lambda>i. m)) Map.empty)
      (tab cb n (link vb FORWARD) (R(cb + n \<mapsto> unc StayConstraintType strong_default_strength (vb + n) False))))"
proof (induction "n - Suc j" arbitrary: i j)
  case 0
  then have j: "n = Suc j" and i: "\<exists>i'. i = Suc (Suc i')" by (auto simp: Suc_diff_Suc intro!: exI [of _ "i - 2"])
  from i obtain i' where i: "i = Suc (Suc i')" by auto
  let ?R = "R(cb + n \<mapsto> unc StayConstraintType strong_default_strength (vb + n) False)"
  have "live R (cb + n) (\<lambda>y. True)" using R pos by (simp add: live_def)
  note step = up_step [where j = j and n = n and mk = mk, OF _ pos mk this, where remove = remove and f = f and h = h and x = x]
  have rest: "up_rest cb n n R = ?R" using R pos by (simp add: up_rest_def overriding_def)
  have V: "tab vb (Suc n) (up_var cb n x m mk n) Map.empty = tab vb (Suc n) (edited_var cb n x (\<lambda>i. m)) Map.empty"
    by (intro tab_cong) (simp add: up_var_def)
  have K: "tab cb n (up_con vb n) ?R = tab cb n (link vb FORWARD) ?R"
    by (intro tab_cong) (simp add: up_con_def)
  have fail: "satisfy_with remove (Suc f) (cb + n) m
      (heap h (tab vb (Suc n) (edited_var cb n x (\<lambda>i. m)) Map.empty) (tab cb n (link vb FORWARD) ?R)) =
    Inr (0, heap h (tab vb (Suc n) (edited_var cb n x (\<lambda>i. m)) Map.empty) (tab cb n (link vb FORWARD) ?R))"
    using satisfy_unary_fails [where c = "cb + n" and V = "tab vb (Suc n) (edited_var cb n x (\<lambda>i. m)) Map.empty"
        and K = "tab cb n (link vb FORWARD) ?R" and t = StayConstraintType and v = "vb + n" and m = m and old = False
        and X = "edited_var cb n x (\<lambda>i. m) n" and s = strong_default_strength and r = required_strength and h = h and k = "Suc f"]
      pos strs
    by (simp add: tab_out edited_var_def tab_upd_out)
  have c: "cb + j \<noteq> 0" "cb + n \<noteq> 0" using pos by simp_all
  have jn: "j < n" using j by simp
  show ?case
    unfolding i
    by (subst incrementalAdd_loop_step [OF step [OF jn, folded j, unfolded rest V K] c(1)],
        subst incrementalAdd_loop_step [OF fail c(2)]) simp
next
  case (Suc k)
  then obtain i' where i: "i = Suc i'" by (cases i) auto
  have "live R (cb + n) (\<lambda>y. True)" using R pos by (simp add: live_def)
  note step = up_step [where j = j and n = n and mk = mk, OF Suc.prems(1) pos mk this, where remove = remove and f = f and h = h and x = x]
  have c: "cb + j \<noteq> 0" using pos by simp
  have j: "Suc j < n" using Suc.hyps(2) by simp
  then have "up_rest cb n (Suc j) R = R" by (simp add: up_rest_def)
  with incrementalAdd_loop_step [OF step c] Suc.hyps(1) [of "Suc j" i'] Suc.hyps(2) Suc.prems j
  show ?case by (simp add: i)
qed

text \<open>Adding the edit constraint to a chain that is satisfied from right to left.\<close>

lemma add_edit:
  assumes n: "0 < n" and pos: "0 < vb" "0 < cb" and mk: "\<And>i. mk i \<le> currentMark h"
      "- INT_MAX \<le> currentMark h" "currentMark h < INT_MAX" and strs: "strs h = all_strengths"
    and S: "R (cb + n) = Some (unc StayConstraintType strong_default_strength (vb + n) True)"
    and E: "R (Suc (cb + n)) = Some (unc EditConstraintType preferred_strength vb old)" and f: "n \<le> f"
  shows "incrementalAdd_with remove (Suc f) (Suc (cb + n))
      (heap h (tab vb (Suc n) (settled_var cb n x mk) Map.empty) (tab cb n (link vb BACKWARD) R)) =
    Inr (heap (h\<lparr>currentMark := currentMark h + 1\<rparr>)
      (tab vb (Suc n) (edited_var cb n x (\<lambda>i. currentMark h + 1)) Map.empty)
      (tab cb n (link vb FORWARD) (R(cb + n \<mapsto> unc StayConstraintType strong_default_strength (vb + n) False,
        Suc (cb + n) \<mapsto> unc EditConstraintType preferred_strength vb True))))"
proof -
  let ?m = "currentMark h + 1" and ?e = "Suc (cb + n)"
  let ?V = "tab vb (Suc n) (settled_var cb n x mk) Map.empty" and ?K = "tab cb n (link vb BACKWARD) R"
  let ?E = "unc EditConstraintType preferred_strength vb"
  let ?X = "settled_var cb n x mk 0"
  have X: "determinedBy ?X = cb" "constraints ?X = [cb, ?e]" "v_mark ?X = mk 0" "walkStrength ?X = strong_default_strength"
    using n by (simp_all add: settled_var_def edit_links_def chain_links_def links_def)
  have K: "?K ?e = R ?e" by (simp add: tab_out)
  have live: "live ?K cb (\<lambda>y. True)" using pos n by (simp add: live_def)
  have ne: "mk i \<noteq> ?m" for i using mk(1) [of i] by simp
  have "idle ?K ?e cb [cb, ?e]" using live by (simp add: idle_def live_def)
  then have "satisfy_with remove (Suc f) ?e ?m (heap (h\<lparr>currentMark := ?m\<rparr>) ?V ?K) = Inr (cb,
      heap (h\<lparr>currentMark := ?m\<rparr>)
       (?V(vb \<mapsto> ?X\<lparr>determinedBy := ?e, walkStrength := preferred_strength, v_stay := False, v_mark := ?m\<rparr>))
       ((overriding cb ?K)(?e \<mapsto> ?E True)))"
    using satisfy_unary_idle [where c = ?e and K = ?K and V = ?V and X = ?X and v = vb and m = ?m and t = EditConstraintType
        and s = preferred_strength and old = old and k = f and h = "h\<lparr>currentMark := ?m\<rparr>" and remove = remove, unfolded X]
      pos E live ne by (simp add: K)
  moreover have "?V(vb \<mapsto> ?X\<lparr>determinedBy := ?e, walkStrength := preferred_strength, v_stay := False, v_mark := ?m\<rparr>) =
      tab vb (Suc n) (up_var cb n x ?m mk 0) Map.empty"
    by (simp, intro tab_cong) (auto simp: up_var_def settled_var_def edited_var_def)
  moreover have "(overriding cb ?K)(?e \<mapsto> ?E True) = tab cb n (up_con vb 0) (R(?e \<mapsto> ?E True))"
    using pos n by (simp add: tab_upd_out, intro tab_cong) (auto simp: up_con_def)
  moreover have "incrementalAdd_loop remove (Suc f) (Suc f) cb ?m (heap (h\<lparr>currentMark := ?m\<rparr>)
      (tab vb (Suc n) (up_var cb n x ?m mk 0) Map.empty) (tab cb n (up_con vb 0) (R(?e \<mapsto> ?E True)))) =
    Inr (heap (h\<lparr>currentMark := ?m\<rparr>) (tab vb (Suc n) (edited_var cb n x (\<lambda>i. ?m)) Map.empty)
      (tab cb n (link vb FORWARD) (R(cb + n \<mapsto> unc StayConstraintType strong_default_strength (vb + n) False, ?e \<mapsto> ?E True))))"
    using up_sweep [where j = 0 and n = n and i = "Suc f" and remove = remove and f = f
        and h = "h\<lparr>currentMark := ?m\<rparr>" and x = x and R = "R(?e \<mapsto> ?E True)" and old = True, OF n pos ne] n f strs S
    by (simp add: fun_upd_twist)
  ultimately show ?thesis using mk(2,3) by (simp add: incrementalAdd_runs)
qed

section \<open>The plan\<close>

text \<open>The chain when the edit constraint drives it from the left.\<close>

definition edited :: "deltablue \<Rightarrow> vid \<Rightarrow> cid \<Rightarrow> nat \<Rightarrow> (nat \<Rightarrow> variable) \<Rightarrow> deltablue" where
  "edited h vb cb n F = heap h (tab vb (Suc n) F Map.empty)
    (tab cb n (link vb FORWARD) [cb + n \<mapsto> unc StayConstraintType strong_default_strength (vb + n) False,
        Suc (cb + n) \<mapsto> unc EditConstraintType preferred_strength vb True])"

lemma edited_cons [simp]:
  "i < n \<Longrightarrow> cons (edited h vb cb n F) (cb + i) = Some (link vb FORWARD i)"
  "cons (edited h vb cb n F) (cb + n) = Some (unc StayConstraintType strong_default_strength (vb + n) False)"
  "cons (edited h vb cb n F) (Suc (cb + n)) = Some (unc EditConstraintType preferred_strength vb True)"
  by (simp_all add: edited_def tab_out)

lemma edited_vars [simp]:
  "i \<le> n \<Longrightarrow> vars (edited h vb cb n F) (vb + i) = Some (F i)"
  "vars (edited h vb cb n F) vb = Some (F 0)"
  "i < n \<Longrightarrow> vars (edited h vb cb n F) (Suc (vb + i)) = Some (F (Suc i))"
  by (simp_all add: edited_def)

lemma edited_upd [simp]:
  "i \<le> n \<Longrightarrow> (edited h vb cb n F)\<lparr>vars := (vars (edited h vb cb n F))(vb + i \<mapsto> x)\<rparr> = edited h vb cb n (F(i := x))"
  "(edited h vb cb n F)\<lparr>vars := (vars (edited h vb cb n F))(vb \<mapsto> x)\<rparr> = edited h vb cb n (F(0 := x))"
  "i < n \<Longrightarrow> (edited h vb cb n F)\<lparr>vars := (vars (edited h vb cb n F))(Suc (vb + i) \<mapsto> x)\<rparr> = edited h vb cb n (F(Suc i := x))"
  by (simp_all add: edited_def)

lemma chain_consuming:
  assumes n: "0 < n" and pos: "0 < vb" "0 < cb" and j: "j \<le> n" and F: "constraints (F j) = edit_links cb n j"
    "determinedBy (F j) = (if j = 0 then Suc (cb + n) else cb + (j - 1))"
  shows "Planner_addConstraintsConsumingTo (vb + j) coll (edited h vb cb n F) =
    Inr (coll @ (if j < n then [cb + j] else []))"
proof -
  let ?K = "cons (edited h vb cb n F)"
  have live: "live ?K (cb + n) P \<longleftrightarrow> P (unc StayConstraintType strong_default_strength (vb + n) False)"
    "live ?K (Suc (cb + n)) P \<longleftrightarrow> P (unc EditConstraintType preferred_strength vb True)" for P
    using pos by (simp_all add: live_def)
  have link: "live ?K (cb + i) P \<longleftrightarrow> P (link vb FORWARD i)" if "i < n" for i P
    using pos that by (simp add: live_def)
  have "\<forall>c \<in> set (edit_links cb n j). live ?K c (\<lambda>y. True)"
    using j n link [of j] link [of "j - 1"]
    by (auto simp: edit_links_def chain_links_def links_def live)
  moreover have "filter (\<lambda>c. c \<noteq> determinedBy (F j) \<and> live ?K c sat) (edit_links cb n j) = (if j < n then [cb + j] else [])"
    using j n link [of j] by (auto simp: F(2) edit_links_def chain_links_def links_def live)
  ultimately show ?thesis
    using addConstraintsConsumingTo_eq [of "vb + j" "edited h vb cb n F" "F j" coll] j pos F(1) by simp
qed

definition marked :: "(nat \<Rightarrow> int) \<Rightarrow> int \<Rightarrow> nat \<Rightarrow> nat \<Rightarrow> int" where
  "marked mk m j i = (if i < j then m else mk i)"

lemma plan_loop:
  assumes n: "0 < n" and pos: "0 < vb" "0 < cb" and mk: "\<And>i. mk i \<noteq> m"
  shows "j \<le> n \<Longrightarrow> n \<le> k + j \<Longrightarrow> makePlan_loop k m (if j < n then [cb + j] else []) plan
      (edited h vb cb n (edited_var cb n x (marked mk m (Suc j)))) =
    Inr (plan @ map ((+) cb) [j..<n], edited h vb cb n (edited_var cb n x (marked mk m (Suc n))))"
proof (induction "n - j" arbitrary: j k plan)
  case (Suc d)
  then have j: "j < n" by simp
  with Suc.prems obtain k' where k: "k = Suc k'" "n \<le> k' + Suc j" by (cases k) auto
  let ?F = "edited_var cb n x (marked mk m (Suc j))"
  let ?F' = "edited_var cb n x (marked mk m (Suc (Suc j)))"
  have upd: "?F(Suc j := (?F (Suc j))\<lparr>v_mark := m\<rparr>) = ?F'"
    by (auto simp: fun_eq_iff edited_var_def marked_def less_Suc_eq)
  have "Constraint_getOutput (cb + j) (edited h vb cb n ?F) = Inr (Suc (vb + j))"
    using j pos by (simp add: getOutput_eq)
  moreover have "Variable_getMark (Suc (vb + j)) (edited h vb cb n ?F) = Inr (mk (Suc j))"
    using j by (simp add: variable_ops get_var_eq edited_var_def marked_def)
  moreover have "AbstractConstraint_inputsKnown (cb + j) m (edited h vb cb n ?F) = Inr True"
    using j pos by (simp add: AbstractConstraint_inputsKnown_def Constraint_inputsHasOne_def get_con_eq binary_input_def
        AbstractConstraint_inputsKnown_iter_def variable_ops get_var_eq edited_var_def marked_def link_def)
  moreover have "Variable_setMark (Suc (vb + j)) m (edited h vb cb n ?F) = Inr (edited h vb cb n ?F')"
    using j by (simp add: variable_ops get_var_eq upd)
  moreover have "Planner_addConstraintsConsumingTo (Suc (vb + j)) [] (edited h vb cb n ?F') =
      Inr (if Suc j < n then [cb + Suc j] else [])"
    using chain_consuming [OF n pos, of "Suc j" ?F' "[]" h] j by (simp add: edited_var_def)
  ultimately show ?case
    using Suc.hyps(1) [of "Suc j" k' "plan @ [cb + j]"] Suc.hyps(2) j mk k upt_conv_Cons [OF j] by simp
qed simp

lemma extract_plan:
  assumes n: "0 < n" and pos: "0 < vb" "0 < cb" and mk: "\<And>i. mk i \<le> currentMark h" "- INT_MAX \<le> currentMark h" "currentMark h < INT_MAX"
    and k: "n < k"
  shows "Planner_extractPlanFromConstraints k [Suc (cb + n)] (edited h vb cb n (edited_var cb n x mk)) =
    Inr (Suc (cb + n) # map ((+) cb) [0..<n],
      edited (h\<lparr>currentMark := currentMark h + 1\<rparr>) vb cb n (edited_var cb n x (marked mk (currentMark h + 1) (Suc n))))"
proof -
  let ?m = "currentMark h + 1" and ?e = "Suc (cb + n)"
  let ?h = "h\<lparr>currentMark := ?m\<rparr>"
  let ?F = "edited_var cb n x mk"
  let ?F' = "edited_var cb n x (marked mk ?m (Suc 0))"
  obtain k' where k': "k = Suc k'" "n \<le> k'" using k by (cases k) auto
  have ne: "mk i \<noteq> ?m" for i using mk(1) [of i] by simp
  have upd: "?F(0 := (?F 0)\<lparr>v_mark := ?m\<rparr>) = ?F'"
    by (auto simp: fun_eq_iff edited_var_def marked_def)
  have "source_step (edited h vb cb n ?F) ?e [] = Inr [?e]"
    by (simp add: source_step_def Constraint_isInput_def get_con_eq isSatisfied_eq)
  moreover have "Planner_newMark (edited h vb cb n ?F) = Inr (?m, edited ?h vb cb n ?F)"
    using mk(2,3) by (simp add: Planner_newMark_def edited_def c_int_ok)
  moreover have "Constraint_getOutput ?e (edited ?h vb cb n ?F) = Inr vb"
    by (simp add: getOutput_eq)
  moreover have "Variable_getMark vb (edited ?h vb cb n ?F) = Inr (mk 0)"
    using pos by (simp add: variable_ops get_var_eq edited_var_def)
  moreover have "AbstractConstraint_inputsKnown ?e ?m (edited ?h vb cb n ?F) = Inr True"
    by (simp add: AbstractConstraint_inputsKnown_def Constraint_inputsHasOne_def get_con_eq)
  moreover have "Variable_setMark vb ?m (edited ?h vb cb n ?F) = Inr (edited ?h vb cb n ?F')"
    using pos by (simp add: variable_ops get_var_eq upd)
  moreover have "Planner_addConstraintsConsumingTo vb [] (edited ?h vb cb n ?F') = Inr [cb]"
    using chain_consuming [OF n pos, of 0 ?F' "[]" ?h] n by (simp add: edited_var_def)
  ultimately show ?thesis
    using plan_loop [OF n pos ne, of 0 k' "[?e]" ?h x] n k' ne
    by (simp add: Planner_extractPlanFromConstraints_def Planner_makePlan_def)
qed

section \<open>Executing the plan\<close>

lemma edited_cong: "(\<And>i. i \<le> n \<Longrightarrow> F i = G i) \<Longrightarrow> edited h vb cb n F = edited h vb cb n G"
  unfolding edited_def by (intro arg_cong2 [where f = "heap h"] tab_cong refl) simp

lemma execute_links:
  assumes pos: "0 < vb" "0 < cb"
  shows "j \<le> n \<Longrightarrow> rfold Constraint_execute (map ((+) cb) [j..<n])
      (edited h vb cb n (\<lambda>i. edited_var cb n (if i \<le> j then y else x) mk i)) =
    Inr (edited h vb cb n (edited_var cb n y mk))"
proof (induction "n - j" arbitrary: j)
  case 0
  then show ?case by (auto intro: edited_cong)
next
  case (Suc d)
  then have j: "j < n" by simp
  let ?F = "\<lambda>j i. edited_var cb n (if i \<le> j then y else x) mk i"
  have "Constraint_execute (cb + j) (edited h vb cb n (?F j)) =
      Inr (edited h vb cb n ((?F j)(Suc j := (?F j (Suc j))\<lparr>v_value := y\<rparr>)))"
    using j pos by (simp add: Constraint_execute_def get_con_eq EqualityConstraint_execute_def variable_ops get_var_eq
        link_def edited_var_def)
  moreover have "(?F j)(Suc j := (?F j (Suc j))\<lparr>v_value := y\<rparr>) = ?F (Suc j)"
    by (auto simp: fun_eq_iff edited_var_def le_Suc_eq)
  ultimately show ?case
    using Suc.hyps(1) [of "Suc j"] Suc.hyps(2) upt_conv_Cons [OF j] by simp
qed

lemma execute_plan:
  assumes pos: "0 < vb" "0 < cb"
  shows "chain_execute (int n) (chain_ids vb (Suc n)) (Suc (cb + n) # map ((+) cb) [0..<n]) i
      (edited h vb cb n (edited_var cb n x mk)) = Inr (edited h vb cb n (edited_var cb n (int i) mk))"
proof -
  let ?F = "\<lambda>j i'. edited_var cb n (if i' \<le> j then int i else x) mk i'"
  have at: "list_at (chain_ids vb (Suc n)) 0 = Inr vb" "list_at (chain_ids vb (Suc n)) (int n) = Inr (vb + n)"
    by (simp_all add: list_at_def)
  have "Variable_setValue vb (int i) (edited h vb cb n (edited_var cb n x mk)) = Inr (edited h vb cb n (?F 0))"
    using pos by (simp add: variable_ops get_var_eq) (auto intro!: edited_cong simp: edited_var_def)
  moreover have "Constraint_execute (Suc (cb + n)) (edited h vb cb n (?F 0)) = Inr (edited h vb cb n (?F 0))"
    by (simp add: Constraint_execute_def get_con_eq)
  moreover note execute_links [OF pos, of 0 n h "int i" x mk]
  moreover have "Variable_getValue (vb + n) (edited h vb cb n (edited_var cb n (int i) mk)) = Inr (int i)"
    using pos by (simp add: variable_ops get_var_eq edited_var_def)
  ultimately show ?thesis
    by (simp add: chain_execute_def at Plan_execute_def)
qed

lemma execute_plan_loop:
  assumes pos: "0 < vb" "0 < cb"
  shows "rfold (chain_execute (int n) (chain_ids vb (Suc n)) (Suc (cb + n) # map ((+) cb) [0..<n])) [0..<Suc i]
      (edited h vb cb n (edited_var cb n x mk)) = Inr (edited h vb cb n (edited_var cb n (int i) mk))"
proof (induction i)
  case (Suc i)
  then show ?case
    by (simp add: rfold_append execute_plan [OF pos] upt_Suc_append [of 0 "Suc i"] del: upt_Suc)
qed (simp add: execute_plan [OF pos, of n 0, simplified])

section \<open>Removing the edit constraint\<close>

definition removed :: "deltablue \<Rightarrow> vid \<Rightarrow> cid \<Rightarrow> nat \<Rightarrow> (nat \<Rightarrow> variable) \<Rightarrow> deltablue" where
  "removed h vb cb n F = heap h (tab vb (Suc n) F Map.empty)
    (tab cb n (link vb FORWARD) [cb + n \<mapsto> unc StayConstraintType strong_default_strength (vb + n) False,
        Suc (cb + n) \<mapsto> unc EditConstraintType preferred_strength vb False])"

lemma removed_cons [simp]:
  "i < n \<Longrightarrow> cons (removed h vb cb n F) (cb + i) = Some (link vb FORWARD i)"
  "0 < n \<Longrightarrow> cons (removed h vb cb n F) cb = Some (link vb FORWARD 0)"
  "Suc i < n \<Longrightarrow> cons (removed h vb cb n F) (Suc (cb + i)) = Some (link vb FORWARD (Suc i))"
  "cons (removed h vb cb n F) (cb + n) = Some (unc StayConstraintType strong_default_strength (vb + n) False)"
  "cons (removed h vb cb n F) (Suc (cb + n)) = Some (unc EditConstraintType preferred_strength vb False)"
  by (simp_all add: removed_def tab_out)

lemma removed_vars [simp]:
  "i \<le> n \<Longrightarrow> vars (removed h vb cb n F) (vb + i) = Some (F i)"
  "vars (removed h vb cb n F) vb = Some (F 0)"
  "i < n \<Longrightarrow> vars (removed h vb cb n F) (Suc (vb + i)) = Some (F (Suc i))"
  by (simp_all add: removed_def)

lemma removed_upd [simp]:
  "i \<le> n \<Longrightarrow> (removed h vb cb n F)\<lparr>vars := (vars (removed h vb cb n F))(vb + i \<mapsto> x)\<rparr> = removed h vb cb n (F(i := x))"
  "(removed h vb cb n F)\<lparr>vars := (vars (removed h vb cb n F))(vb \<mapsto> x)\<rparr> = removed h vb cb n (F(0 := x))"
  "i < n \<Longrightarrow> (removed h vb cb n F)\<lparr>vars := (vars (removed h vb cb n F))(Suc (vb + i) \<mapsto> x)\<rparr> = removed h vb cb n (F(Suc i := x))"
  by (simp_all add: removed_def)

lemma removed_strs [simp]: "strs (removed h vb cb n F) = strs h"
  by (simp add: removed_def)

text \<open>The variables up to \<open>j\<close> have been recalculated.\<close>

definition removed_var :: "cid \<Rightarrow> nat \<Rightarrow> int \<Rightarrow> (nat \<Rightarrow> int) \<Rightarrow> nat \<Rightarrow> nat \<Rightarrow> variable" where
  "removed_var cb n x mk j i = (if i \<le> j
     then cvar x (chain_links cb n i) (if i = 0 then 0 else cb + (i - 1)) (mk i) weakest_strength True
     else cvar x (chain_links cb n i) (cb + (i - 1)) (mk i) preferred_strength False)"

lemma recalculate_next:
  assumes "j < n" "0 < vb" "0 < cb"
  shows "Planner_removePropagateFrom_iter1 (cb + j) (todo, removed h vb cb n (removed_var cb n x mk j)) =
    Inr (todo @ [Suc (vb + j)], removed h vb cb n (removed_var cb n x mk (Suc j)))"
proof -
  have "F(Suc j := cvar x (chain_links cb n (Suc j)) (cb + j) (mk (Suc j)) weakest_strength True) =
      removed_var cb n x mk (Suc j)" if "F = removed_var cb n x mk j \<or> F = removed_var cb n x mk (Suc j)" for F
    using that by (auto simp: fun_eq_iff removed_var_def le_Suc_eq)
  then have "Constraint_recalculate (cb + j) (removed h vb cb n (removed_var cb n x mk j)) =
      Inr (removed h vb cb n (removed_var cb n x mk (Suc j)))"
    using assms by (simp add: Constraint_recalculate_def BinaryConstraint_recalculate_def Constraint_execute_def
        EqualityConstraint_execute_def get_con_eq get_var_eq variable_ops link_def removed_var_def)
  then show ?thesis
    using assms by (simp add: Planner_removePropagateFrom_iter1_def getOutput_eq)
qed

lemma removed_links:
  "0 < n \<Longrightarrow> chain_links cb n 0 = [cb]"
  "Suc j < n \<Longrightarrow> chain_links cb n (Suc j) = [cb + j, Suc (cb + j)]"
  "chain_links cb (Suc j) (Suc j) = [cb + j, Suc (cb + j)]"
  by (simp_all add: chain_links_def links_def)

lemma removed_sat:
  assumes "0 < vb" "0 < cb"
  shows "i < n \<Longrightarrow> Constraint_isSatisfied (cb + i) (removed h vb cb n F) = Inr True"
    and "Constraint_isSatisfied (cb + n) (removed h vb cb n F) = Inr False"
  using assms by (simp_all add: isSatisfied_eq)

lemma removed_consuming:
  assumes n: "0 < n" and pos: "0 < vb" "0 < cb" and j: "j < n"
  shows "Planner_constraintsConsuming (vb + j) Planner_removePropagateFrom_iter1 ([], removed h vb cb n (removed_var cb n x mk j)) =
    Inr ([Suc (vb + j)], removed h vb cb n (removed_var cb n x mk (Suc j)))"
proof (cases j)
  case 0
  then show ?thesis
    using removed_sat(1) [OF pos, of 0 n h] recalculate_next [OF _ pos, of 0 n "[]" h x mk] n pos
    by (simp add: Planner_constraintsConsuming_def consuming_step_def variable_ops get_var_eq removed_var_def removed_links)
next
  case (Suc i)
  then show ?thesis
    using removed_sat(1) [OF pos, of "Suc i" n h] recalculate_next [OF _ pos, of "Suc i" n "[]" h x mk] j pos
    by (simp add: Planner_constraintsConsuming_def consuming_step_def variable_ops get_var_eq removed_var_def removed_links)
qed

lemma removed_unsatisfied:
  assumes n: "0 < n" and pos: "0 < vb" "0 < cb" and j: "j < n"
  shows "rfold (unsatisfied_step (removed h vb cb n F)) (chain_links cb n j) un = Inr un"
  using pos n j by (cases j) (simp_all add: removed_links unsatisfied_step_def isSatisfied_eq)

lemma remove_loop:
  assumes n: "0 < n" and pos: "0 < vb" "0 < cb"
  shows "j \<le> n \<Longrightarrow> n < k + j \<Longrightarrow> removePropagate_loop k [vb + j] [] (removed h vb cb n (removed_var cb n x mk j)) =
    Inr ([cb + n], removed h vb cb n (removed_var cb n x mk n))"
proof (induction "n - j" arbitrary: j k)
  case 0
  then have j: "j = n" by simp
  with 0 obtain k' where k: "k = Suc k'" by (cases k) auto
  obtain n' where n': "n = Suc n'" using n by (cases n) auto
  have cs: "Variable_getConstraints (vb + n) (removed h vb cb n (removed_var cb n x mk n)) = Inr [cb + n', cb + n]"
    using pos by (simp add: variable_ops get_var_eq removed_var_def) (simp add: n' removed_links)
  moreover have "rfold (unsatisfied_step (removed h vb cb n (removed_var cb n x mk n))) [cb + n', cb + n] [] = Inr [cb + n]"
    using removed_sat(1) [OF pos, of n' n h] removed_sat(2) [OF pos, of n h]
    by (simp add: unsatisfied_step_def n')
  moreover have "Variable_getDeterminedBy (vb + n) (removed h vb cb n (removed_var cb n x mk n)) = Inr (cb + n')"
    using pos by (simp add: variable_ops get_var_eq removed_var_def) (simp add: n')
  ultimately show ?case
    using removed_sat(2) [OF pos, of n]
    by (simp add: j k Planner_constraintsConsuming_def consuming_step_def)
next
  case (Suc d)
  then have j: "j < n" by simp
  with Suc.prems obtain k' where k: "k = Suc k'" "n < k' + Suc j" by (cases k) auto
  have cs: "Variable_getConstraints (vb + j) (removed h vb cb n (removed_var cb n x mk j)) = Inr (chain_links cb n j)"
    using pos j by (simp add: variable_ops get_var_eq removed_var_def)
  show ?case
    using Suc.hyps(1) [of "Suc j" k'] Suc.hyps(2) j k
    by (simp add: cs removed_unsatisfied [OF n pos j] removed_consuming [OF n pos j])
qed

lemma Vector_sort_single: "Vector_sort (list_vector [c]) cmp = Inr (list_vector [c])"
  by (simp add: Vector_sort_def list_vector_def Vector_size_def vsort.simps)

definition chain_end :: "deltablue \<Rightarrow> vid \<Rightarrow> cid \<Rightarrow> nat \<Rightarrow> int \<Rightarrow> (nat \<Rightarrow> int) \<Rightarrow> deltablue" where
  "chain_end h vb cb n x mk = heap (h\<lparr>currentMark := currentMark h + 1\<rparr>)
      (tab vb (Suc n) (down_var cb n x (currentMark h + 1) mk 0) Map.empty)
      (tab cb n (down_con vb 0) [cb + n \<mapsto> unc StayConstraintType strong_default_strength (vb + n) True,
        Suc (cb + n) \<mapsto> unc EditConstraintType preferred_strength vb False])"

lemma remove_edit:
  assumes n: "0 < n" and pos: "0 < vb" "0 < cb" and mk: "\<And>i. mk i \<le> currentMark h"
      "- INT_MAX \<le> currentMark h" "currentMark h < INT_MAX" and strs: "strs h = all_strengths" and f: "n < f"
  shows "Planner_incrementalRemove (Suc f) (Suc (cb + n)) (edited h vb cb n (edited_var cb n x mk)) =
    Inr (chain_end h vb cb n x mk)"
proof -
  let ?e = "Suc (cb + n)" and ?F = "edited_var cb n x mk"
  obtain f' where f': "f = Suc f'" using f by (cases f) auto
  let ?G = "?F(0 := cvar x [cb] 0 (mk 0) preferred_strength False)"
  have "Constraint_getOutput ?e (edited h vb cb n ?F) = Inr vb"
    by (simp add: getOutput_eq)
  moreover have "Constraint_markUnsatisfied ?e (edited h vb cb n ?F) = Inr (removed h vb cb n ?F)"
    by (simp add: markUnsatisfied_eq) (simp add: edited_def removed_def tab_upd_out)
  moreover have "Constraint_removeFromGraph ?e (removed h vb cb n ?F) = Inr (removed h vb cb n ?G)"
  proof -
    have "filter (\<lambda>d. d \<noteq> ?e) (edit_links cb n 0) = [cb]" using n by (simp add: edit_links_def removed_links)
    then have "Variable_removeConstraint vb ?e (removed h vb cb n ?F) = Inr (removed h vb cb n ?G)"
      using pos by (simp add: variable_ops get_var_eq edited_var_def)
    moreover have "(removed h vb cb n ?G)\<lparr>cons := (cons (removed h vb cb n ?G))(?e \<mapsto> unc EditConstraintType preferred_strength vb False)\<rparr> =
        removed h vb cb n ?G"
      by (simp add: removed_def tab_upd_out)
    ultimately show ?thesis
      using pos by (simp add: Constraint_removeFromGraph_def UnaryConstraint_removeFromGraph_def get_con_eq
        remove_unless_null_def upd_con_def)
  qed
  moreover have "Planner_removePropagateFrom f vb (removed h vb cb n ?G) =
      Inr ([cb + n], removed h vb cb n (removed_var cb n x mk n))"
  proof -
    have upd: "?F(0 := cvar x [cb] 0 (mk 0) weakest_strength True) = removed_var cb n x mk 0"
      using n by (auto simp: fun_eq_iff edited_var_def removed_var_def edit_links_def removed_links)
    show ?thesis using remove_loop [OF n pos, of 0 f h x mk] f pos
      by (simp add: Planner_removePropagateFrom_def variable_ops get_var_eq strs upd Vector_sort_single)
  qed
  moreover have "incrementalAdd_with (Planner_incrementalRemove f) f (cb + n) (removed h vb cb n (removed_var cb n x mk n)) =
      Inr (chain_end h vb cb n x mk)"
  proof -
    have "removed h vb cb n (removed_var cb n x mk n) =
        heap h (tab vb (Suc n) (down_var cb n x 0 mk (Suc n)) Map.empty)
          (tab cb n (down_con vb (Suc n)) [cb + n \<mapsto> unc StayConstraintType strong_default_strength (vb + n) False,
        ?e \<mapsto> unc EditConstraintType preferred_strength vb False])"
      unfolding removed_def
      by (intro arg_cong2 [where f = "heap h"] tab_cong) (auto simp: removed_var_def down_var_def down_con_def)
    with add_stay [OF n pos mk, where R = "[cb + n \<mapsto> unc StayConstraintType strong_default_strength (vb + n) False,
        ?e \<mapsto> unc EditConstraintType preferred_strength vb False]" and f = f' and x = x and old = False and ?m0.0 = 0 and remove = "Planner_incrementalRemove f"] f
    show ?thesis by (simp add: f' chain_end_def fun_upd_twist)
  qed
  ultimately show ?thesis by simp
qed

section \<open>Creating and disposing of the cells\<close>

lemma create_vars:
  assumes h: "strs h = all_strengths" "v_next h = vb"
  shows "rfold chain_var [0..<k] ([], heap h Map.empty K) =
    Inr (chain_ids vb k, heap (h\<lparr>v_next := vb + k\<rparr>) (tab vb k (\<lambda>i. cvar 0 [] 0 0 weakest_strength True) Map.empty) K)"
proof (induction k)
  case 0
  have "h\<lparr>v_next := vb\<rparr> = h" using h by simp
  then show ?case by simp
next
  case (Suc k)
  have "(tab vb k (\<lambda>i. X) Map.empty)(vb + k \<mapsto> X) = tab vb (Suc k) (\<lambda>i. X) Map.empty" for X :: variable
    unfolding tab_Suc by (simp add: fun_upd_idem)
  then show ?case using Suc h
    by (simp add: rfold_append chain_var_def Variable_create_def chain_ids_Suc flip: cvar_def)
qed

lemma dispose_vars:
  "distinct vs \<Longrightarrow> 0 \<notin> set vs \<Longrightarrow> set vs \<subseteq> dom V \<Longrightarrow>
    rfold Variable_dispose vs (heap h V K) = Inr (heap h (V |` (- set vs)) K)"
proof (induction vs arbitrary: V)
  case (Cons v vs)
  then obtain x where x: "V v = Some x" by auto
  have eq: "(V(v := None)) |` (- set vs) = V |` (- set (v # vs))"
    by (auto simp: restrict_map_def fun_eq_iff)
  have "Variable_dispose v (heap h V K) = Inr (heap h (V(v := None)) K)"
    using x Cons.prems(2) by (simp add: Variable_dispose_def get_var_eq)
  moreover have "rfold Variable_dispose vs (heap h (V(v := None)) K) = Inr (heap h (V |` (- set (v # vs))) K)"
    unfolding eq [symmetric] using Cons.prems by (intro Cons.IH) auto
  ultimately show ?case by simp
qed (simp add: restrict_map_def)

lemma dispose_cons:
  "distinct cs \<Longrightarrow> 0 \<notin> set cs \<Longrightarrow> set cs \<subseteq> dom K \<Longrightarrow>
    rfold Constraint_dispose cs (heap h V K) = Inr (heap h V (K |` (- set cs)))"
proof (induction cs arbitrary: K)
  case (Cons c cs)
  then obtain y where y: "K c = Some y" by auto
  have eq: "(K(c := None)) |` (- set cs) = K |` (- set (c # cs))"
    by (auto simp: restrict_map_def fun_eq_iff)
  have "Constraint_dispose c (heap h V K) = Inr (heap h V (K(c := None)))"
    using y Cons.prems(2) by (simp add: Constraint_dispose_def get_con_eq)
  moreover have "rfold Constraint_dispose cs (heap h V (K(c := None))) = Inr (heap h V (K |` (- set (c # cs))))"
    unfolding eq [symmetric] using Cons.prems by (intro Cons.IH) auto
  ultimately show ?case by simp
qed (simp add: restrict_map_def)

lemma chain_ids_set: "distinct (chain_ids b n)" "set (chain_ids b n) = {b..<b + n}"
  by (auto simp: chain_ids_def distinct_map inj_on_def image_iff)

section \<open>The test\<close>

lemma create_chain_stay:
  assumes n: "0 < n" and pos: "0 < vb" "0 < cb" and mk: "\<And>i. mk i \<le> currentMark h"
      "- INT_MAX \<le> currentMark h" "currentMark h < INT_MAX" and h: "strs h = all_strengths" "c_next h = cb + n" and f: "n \<le> f"
  shows "StayConstraint_create (Suc f) (vb + n) (STRONG_DEFAULT all_strengths)
      (heap h (tab vb (Suc n) (built_var cb n mk) Map.empty) (tab cb n (link vb FORWARD) Map.empty)) =
    Inr (cb + n, heap (h\<lparr>c_next := Suc (cb + n), currentMark := currentMark h + 1\<rparr>)
      (tab vb (Suc n) (down_var cb n 0 (currentMark h + 1) mk 0) Map.empty)
      (tab cb n (down_con vb 0) [cb + n \<mapsto> unc StayConstraintType strong_default_strength (vb + n) True]))"
proof -
  let ?s = "cb + n" and ?S = "unc StayConstraintType strong_default_strength (vb + n)"
  let ?h = "h\<lparr>c_next := Suc ?s\<rparr>"
  let ?V = "tab vb (Suc n) (built_var cb n mk) Map.empty"
  let ?K = "tab cb n (link vb FORWARD) [?s \<mapsto> ?S False]"
  have K: "(tab cb n (link vb FORWARD) Map.empty)(?s \<mapsto> ?S False) = ?K"
    by (simp add: tab_upd_out)
  have "Constraint_addToGraph ?s (heap ?h ?V ?K) =
      Inr (heap ?h (?V(vb + n \<mapsto> (built_var cb n mk n)\<lparr>constraints := links cb n n @ [?s]\<rparr>)) (?K(?s \<mapsto> ?S False)))"
    using addToGraph_unary [where c = ?s and K = ?K and t = StayConstraintType and s = strong_default_strength and v = "vb + n"
        and b = False and V = ?V and X = "built_var cb n mk n" and h = ?h] pos
    by (simp add: tab_out built_var_def)
  moreover have "?V(vb + n \<mapsto> (built_var cb n mk n)\<lparr>constraints := links cb n n @ [?s]\<rparr>) =
      tab vb (Suc n) (down_var cb n 0 0 mk (Suc n)) Map.empty"
    by (simp, intro tab_cong) (auto simp: built_var_def down_var_def chain_links_def)
  moreover have "?K(?s \<mapsto> ?S False) = tab cb n (down_con vb (Suc n)) [?s \<mapsto> ?S False]"
    by (simp add: tab_upd_out, intro tab_cong) (auto simp: down_con_def)
  ultimately show ?thesis
    using add_stay [OF n pos, where h = ?h and mk = mk and f = f and x = 0 and ?m0.0 = 0 and old = False and R = "[?s \<mapsto> ?S False]"
        and remove = "Planner_incrementalRemove (Suc f)"] h f pos mk
    by (simp add: Stay_create_eq new_con_heap unary_con_unc K AbstractConstraint_addConstraint_def Planner_incrementalAdd_def)
qed

lemma create_chain_edit:
  assumes n: "0 < n" and pos: "0 < vb" "0 < cb" and m: "- INT_MAX \<le> currentMark h" "currentMark h < INT_MAX"
    and h: "strs h = all_strengths" "c_next h = Suc (cb + n)" and f: "n \<le> f"
  shows "EditConstraint_create (Suc f) vb (PREFERRED all_strengths)
      (heap h (tab vb (Suc n) (down_var cb n x (currentMark h) mk 0) Map.empty)
        (tab cb n (down_con vb 0) [cb + n \<mapsto> unc StayConstraintType strong_default_strength (vb + n) True])) =
    Inr (Suc (cb + n), edited (h\<lparr>c_next := Suc (Suc (cb + n)), currentMark := currentMark h + 1\<rparr>) vb cb n
      (edited_var cb n x (\<lambda>i. currentMark h + 1)))"
proof -
  let ?e = "Suc (cb + n)" and ?S = "unc StayConstraintType strong_default_strength (vb + n)"
    and ?E = "unc EditConstraintType preferred_strength vb"
  let ?h = "h\<lparr>c_next := Suc ?e\<rparr>"
  let ?V = "tab vb (Suc n) (down_var cb n x (currentMark h) mk 0) Map.empty"
  let ?K = "tab cb n (down_con vb 0) [cb + n \<mapsto> ?S True, ?e \<mapsto> ?E False]"
  have K: "(tab cb n (down_con vb 0) [cb + n \<mapsto> ?S True])(?e \<mapsto> ?E False) = ?K"
    by (simp add: tab_upd_out)
  have "Constraint_addToGraph ?e (heap ?h ?V ?K) =
      Inr (heap ?h (?V(vb \<mapsto> (down_var cb n x (currentMark h) mk 0 0)\<lparr>constraints := chain_links cb n 0 @ [?e]\<rparr>)) (?K(?e \<mapsto> ?E False)))"
    using addToGraph_unary [where c = ?e and K = ?K and t = EditConstraintType and s = preferred_strength and v = vb
        and b = False and V = ?V and X = "down_var cb n x (currentMark h) mk 0 0" and h = ?h] pos
    by (simp add: tab_out down_var_def)
  moreover have "?V(vb \<mapsto> (down_var cb n x (currentMark h) mk 0 0)\<lparr>constraints := chain_links cb n 0 @ [?e]\<rparr>) =
      tab vb (Suc n) (settled_var cb n x (\<lambda>i. currentMark h)) Map.empty"
    by (simp, intro tab_cong) (auto simp: settled_var_def down_var_def edit_links_def)
  moreover have "?K(?e \<mapsto> ?E False) = tab cb n (link vb BACKWARD) [cb + n \<mapsto> ?S True, ?e \<mapsto> ?E False]"
    by (simp add: tab_upd_out, intro tab_cong) (auto simp: down_con_def)
  ultimately show ?thesis
    using add_edit [OF n pos, where h = ?h and mk = "\<lambda>i. currentMark h" and f = f and x = x and old = False
        and R = "[cb + n \<mapsto> ?S True, ?e \<mapsto> ?E False]" and remove = "Planner_incrementalRemove (Suc f)"] h f pos m
    by (simp add: Edit_create_eq new_con_heap unary_con_unc K AbstractConstraint_addConstraint_def Planner_incrementalAdd_def edited_def)
qed

lemma destroy_chain_edit:
  assumes n: "0 < n" and pos: "0 < vb" "0 < cb" and mk: "\<And>i. mk i \<le> currentMark h"
      "- INT_MAX \<le> currentMark h" "currentMark h < INT_MAX" and strs: "strs h = all_strengths" and f: "n < f"
  shows "AbstractConstraint_destroyConstraint (Suc f) (Suc (cb + n)) (edited h vb cb n (edited_var cb n x mk)) =
    Inr (chain_end h vb cb n x mk)"
proof -
  let ?e = "Suc (cb + n)" and ?m = "currentMark h + 1"
  let ?X = "down_var cb n x ?m mk 0 0"
  have e: "?X = cvar x [cb] cb ?m strong_default_strength True"
    using n by (simp add: down_var_def removed_links)
  have V: "vars (chain_end h vb cb n x mk) vb = Some ?X"
    and K: "cons (chain_end h vb cb n x mk) ?e = Some (unc EditConstraintType preferred_strength vb False)"
    by (simp_all add: chain_end_def tab_out)
  have "Variable_removeConstraint vb ?e (chain_end h vb cb n x mk) = Inr (chain_end h vb cb n x mk)"
    using pos n unfolding variable_ops get_var_eq [OF _ V]
    by (simp add: get_var_eq V) (simp add: chain_end_def e removed_links, intro arg_cong2 [where f = "heap _"] tab_cong refl, simp add: e)
  moreover have "upd_con ?e (\<lambda>x. x\<lparr>u_satisfied := False\<rparr>) (chain_end h vb cb n x mk) = Inr (chain_end h vb cb n x mk)"
    using get_con_eq [OF _ K] by (simp add: upd_con_def) (simp add: chain_end_def tab_upd_out)
  ultimately have "Constraint_removeFromGraph ?e (chain_end h vb cb n x mk) = Inr (chain_end h vb cb n x mk)"
    using pos by (simp add: Constraint_removeFromGraph_def UnaryConstraint_removeFromGraph_def get_con_eq K remove_unless_null_def)
  moreover have "Constraint_isSatisfied ?e (edited h vb cb n (edited_var cb n x mk)) = Inr True"
    by (simp add: isSatisfied_eq)
  ultimately show ?thesis
    using remove_edit [OF n pos mk strs f] by (simp add: AbstractConstraint_destroyConstraint_def del: Planner_incrementalRemove.simps)
qed

lemma dispose_chain:
  assumes pos: "0 < vb" "0 < cb"
  shows "rbind (rfold Variable_dispose (chain_ids vb (Suc n)) (chain_end h vb cb n x mk))
      (rfold Constraint_dispose (chain_ids cb n @ [cb + n, Suc (cb + n)])) =
    Inr (heap (h\<lparr>currentMark := currentMark h + 1\<rparr>) Map.empty Map.empty)"
proof -
  let ?h = "h\<lparr>currentMark := currentMark h + 1\<rparr>"
  let ?V = "tab vb (Suc n) (down_var cb n x (currentMark h + 1) mk 0) Map.empty"
  let ?K = "tab cb n (down_con vb 0) [cb + n \<mapsto> unc StayConstraintType strong_default_strength (vb + n) True,
        Suc (cb + n) \<mapsto> unc EditConstraintType preferred_strength vb False]"
  have V: "?V |` (- set (chain_ids vb (Suc n))) = Map.empty"
    by (auto simp: chain_ids_set restrict_map_def tab_def fun_eq_iff)
  have ids: "chain_ids cb n @ [cb + n, Suc (cb + n)] = chain_ids cb (Suc (Suc n))"
    by (simp add: chain_ids_Suc)
  have K: "?K |` (- set (chain_ids cb (Suc (Suc n)))) = Map.empty"
    by (auto simp: chain_ids_set restrict_map_def tab_def fun_eq_iff)
  have "set (chain_ids vb (Suc n)) \<subseteq> dom ?V" "set (chain_ids cb (Suc (Suc n))) \<subseteq> dom ?K"
    by (auto simp: chain_ids_set tab_def dom_def)
  note dom = this
  have "rfold Variable_dispose (chain_ids vb (Suc n)) (heap ?h ?V ?K) = Inr (heap ?h Map.empty ?K)"
    using dispose_vars [OF _ _ dom(1), of ?h ?K] pos unfolding V by (simp add: chain_ids_set)
  moreover have "rfold Constraint_dispose (chain_ids cb (Suc (Suc n))) (heap ?h Map.empty ?K) = Inr (heap ?h Map.empty Map.empty)"
    using dispose_cons [OF _ _ dom(2), of ?h Map.empty] pos unfolding K by (simp add: chain_ids_set)
  ultimately show ?thesis unfolding ids chain_end_def by simp
qed

lemma chainTest_runs:
  assumes n: "0 < n" "int n + 5 \<le> INT_MAX" and pos: "0 < vb" "0 < cb"
    and h: "strs h = all_strengths" "v_next h = vb" "c_next h = cb" "vars h = Map.empty" "cons h = Map.empty" and k: "Suc n < k"
  shows "Planner_chainTest k (int n) h =
    Inr (h\<lparr>currentMark := int n + 5, v_next := vb + Suc n, c_next := Suc (Suc (cb + n))\<rparr>)"
proof -
  obtain f where f: "k = Suc f" "n < f" using k by (cases k) auto
  define h1 where "h1 = h\<lparr>currentMark := 1\<rparr>"
  define h2 where "h2 = h1\<lparr>v_next := vb + Suc n\<rparr>"
  define h3 where "h3 = h2\<lparr>currentMark := 1 + int n, c_next := cb + n\<rparr>"
  define h4 where "h4 = h3\<lparr>c_next := Suc (cb + n), currentMark := 2 + int n\<rparr>"
  define h5 where "h5 = h4\<lparr>c_next := Suc (Suc (cb + n)), currentMark := 3 + int n\<rparr>"
  define h6 where "h6 = h5\<lparr>currentMark := 4 + int n\<rparr>"
  note defs = h1_def h2_def h3_def h4_def h5_def h6_def
  have strs: "strs h2 = all_strengths" "strs h3 = all_strengths" "strs h4 = all_strengths" "strs (edited g vb cb n F) = strs g" for g F
    using h by (simp_all add: defs edited_def)
  let ?vs = "chain_ids vb (Suc n)"
  have at: "list_at ?vs (int n) = Inr (vb + n)" "list_at ?vs 0 = Inr vb"
    by (simp_all add: list_at_def)
  have vars: "rfold chain_var [0..<Suc n] ([], h1) =
      Inr (?vs, heap h2 (tab vb (Suc n) (built_var cb 0 (\<lambda>i. 0)) Map.empty) Map.empty)"
  proof -
    have eq: "heap h1 Map.empty Map.empty = h1" using heap_id [of h1] h by (simp add: h1_def)
    have "(\<lambda>i. cvar 0 [] 0 0 weakest_strength True) = built_var cb 0 (\<lambda>i. 0)"
      by (auto simp: fun_eq_iff built_var_def links_def)
    then show ?thesis using create_vars [of h1 vb "Suc n" Map.empty] h unfolding eq by (simp add: h2_def h1_def del: upt_Suc)
  qed
  obtain mk where mk: "\<forall>i. mk i \<le> 1 + int n" and build: "rfold (chain_link k ?vs) [0..<n] ([], heap h2 (tab vb (Suc n) (built_var cb 0 (\<lambda>i. 0)) Map.empty) Map.empty) =
      Inr (chain_ids cb n, heap h3
        (tab vb (Suc n) (built_var cb n mk) Map.empty) (tab cb n (link vb FORWARD) Map.empty))"
    using build_chain [OF pos, of h2 n n f] h n unfolding f by (auto simp: defs)
  let ?R = "[cb + n \<mapsto> unc StayConstraintType strong_default_strength (vb + n) True]"
  have stay: "StayConstraint_create k (vb + n) (Sym 4)
      (heap h3 (tab vb (Suc n) (built_var cb n mk) Map.empty) (tab cb n (link vb FORWARD) Map.empty)) =
    Inr (cb + n, heap h4 (tab vb (Suc n) (down_var cb n 0 (2 + int n) mk 0) Map.empty) (tab cb n (down_con vb 0) ?R))"
    using create_chain_stay [OF n(1) pos, of mk h3 f] mk h n f by (simp add: defs)
  have edit: "EditConstraint_create k vb (Sym 3)
      (heap h4 (tab vb (Suc n) (down_var cb n 0 (2 + int n) mk 0) Map.empty) (tab cb n (down_con vb 0) ?R)) =
    Inr (Suc (cb + n), edited h5 vb cb n (edited_var cb n 0 (\<lambda>i. 3 + int n)))"
    using create_chain_edit [OF n(1) pos, of h4 f 0 mk] h n f by (simp add: defs)
  let ?plan = "Suc (cb + n) # map ((+) cb) [0..<n]"
  have plan: "Planner_extractPlanFromConstraints k [Suc (cb + n)] (edited h5 vb cb n (edited_var cb n 0 (\<lambda>i. 3 + int n))) =
    Inr (?plan, edited h6 vb cb n (edited_var cb n 0 (marked (\<lambda>i. 3 + int n) (4 + int n) (Suc n))))"
    using extract_plan [OF n(1) pos, of "\<lambda>i. 3 + int n" h5 k 0] n k by (simp add: defs)
  have run: "rfold (chain_execute (int n) ?vs ?plan) [0..<100]
      (edited h6 vb cb n (edited_var cb n 0 (marked (\<lambda>i. 3 + int n) (4 + int n) (Suc n)))) =
    Inr (edited h6 vb cb n (edited_var cb n 99 (marked (\<lambda>i. 3 + int n) (4 + int n) (Suc n))))"
    using execute_plan_loop [OF pos, of n 99 h6 0] by simp
  have destroy: "AbstractConstraint_destroyConstraint k (Suc (cb + n))
      (edited h6 vb cb n (edited_var cb n 99 (marked (\<lambda>i. 3 + int n) (4 + int n) (Suc n)))) =
    Inr (chain_end h6 vb cb n 99 (marked (\<lambda>i. 3 + int n) (4 + int n) (Suc n)))"
    using destroy_chain_edit [OF n(1) pos, of "marked (\<lambda>i. 3 + int n) (4 + int n) (Suc n)" h6 f 99] n f h
    by (simp add: marked_def defs)
  have "c_int (int n + 1) = Inr (1 + int n)" "nat (1 + int n) = Suc n" using n by (simp_all add: c_int_ok add.commute nat_add_distrib)
  moreover have "heap (h6\<lparr>currentMark := currentMark h6 + 1\<rparr>) Map.empty Map.empty =
      h\<lparr>currentMark := int n + 5, v_next := vb + Suc n, c_next := Suc (Suc (cb + n))\<rparr>"
    using h by (simp add: heap_def defs)
  ultimately show ?thesis
    using dispose_chain [OF pos, of n h6 99 "marked (\<lambda>i. 3 + int n) (4 + int n) (Suc n)"] h
    by (simp add: Planner_chainTest_def Planner_create_def vars build at stay edit plan run destroy strs flip: h1_def del: upt_Suc)
qed

end
