(* ===== verification/DeltaBlueTest.thy ===== *)
theory DeltaBlueTest
  imports DeltaBlueInputs DeltaBlueChain
begin

text \<open>
  \<open>Planner_projectionTest\<close> on every number of pairs, and with it the inner loop of the benchmark.
\<close>

section \<open>Building the pairs\<close>

lemma pvars_extend:
  "(pvars vb j A B S D Map.empty)(src_at vb j \<mapsto> X, dst_at vb j \<mapsto> Z) = pvars vb (Suc j) A B (S(j := X)) (D(j := Z)) Map.empty"
proof (rule ext)
  fix v
  show "((pvars vb j A B S D Map.empty)(src_at vb j \<mapsto> X, dst_at vb j \<mapsto> Z)) v =
    pvars vb (Suc j) A B (S(j := X)) (D(j := Z)) Map.empty v"
  proof (cases "v = src_at vb j \<or> v = dst_at vb j")
    case False
    then have range: "vb + 2 \<le> v \<and> v < vb + 2 + 2 * Suc j \<longleftrightarrow> vb + 2 \<le> v \<and> v < vb + 2 + 2 * j"
      by (auto simp: src_at_def dst_at_def)
    show ?thesis
    proof (cases "vb + 2 \<le> v \<and> v < vb + 2 + 2 * j")
      case True
      then have "(v - (vb + 2)) div 2 < j" by (simp add: div_less_iff_less_mult) linarith
      with True False show ?thesis by (simp add: pvars_def)
    next
      case F: False
      with False range show ?thesis by (simp add: pvars_def del: mult_Suc_right) blast
    qed
  qed auto
qed

lemma pcons_extend:
  "(pcons cb j Y C Map.empty)(stay_at cb j \<mapsto> y, scale_at cb j \<mapsto> c) = pcons cb (Suc j) (Y(j := y)) (C(j := c)) Map.empty"
proof (rule ext)
  fix v
  show "((pcons cb j Y C Map.empty)(stay_at cb j \<mapsto> y, scale_at cb j \<mapsto> c)) v =
    pcons cb (Suc j) (Y(j := y)) (C(j := c)) Map.empty v"
  proof (cases "v = stay_at cb j \<or> v = scale_at cb j")
    case False
    then have range: "cb \<le> v \<and> v < cb + 2 * Suc j \<longleftrightarrow> cb \<le> v \<and> v < cb + 2 * j"
      by (auto simp: stay_at_def scale_at_def)
    show ?thesis
    proof (cases "cb \<le> v \<and> v < cb + 2 * j")
      case True
      then have "(v - cb) div 2 < j" by (simp add: div_less_iff_less_mult) linarith
      with True False show ?thesis by (simp add: pcons_def)
    next
      case F: False
      with False range show ?thesis by (simp add: pcons_def del: mult_Suc_right)
    qed
  qed auto
qed

lemma addToGraph_scale:
  assumes "c \<noteq> 0" "K c = Some (scc vb p d)" "0 < vb"
    and "V (src_at vb p) = Some X" "V (dst_at vb p) = Some Z" "V vb = Some A" "V (Suc vb) = Some B"
  shows "Constraint_addToGraph c (heap h V K) = Inr (heap h
    (V(src_at vb p \<mapsto> X\<lparr>constraints := constraints X @ [c]\<rparr>, dst_at vb p \<mapsto> Z\<lparr>constraints := constraints Z @ [c]\<rparr>,
       vb \<mapsto> A\<lparr>constraints := constraints A @ [c]\<rparr>, Suc vb \<mapsto> B\<lparr>constraints := constraints B @ [c]\<rparr>)) (K(c \<mapsto> scc vb p 0)))"
  using assms by (simp add: Constraint_addToGraph_def ScaleConstraint_addToGraph_def get_con_eq get_var_eq variable_ops
      upd_con_def)

lemma Variable_value_heap:
  assumes "strs h = all_strengths" "v_next h \<noteq> 0"
  shows "Variable_value x (heap h V K) =
    Inr (v_next h, heap (h\<lparr>v_next := Suc (v_next h)\<rparr>) (V(v_next h \<mapsto> cvar x [] 0 0 weakest_strength True)) K)"
  using assms by (simp add: Variable_value_def Variable_create_def variable_ops get_var_eq flip: cvar_def)

text \<open>The stay constraint on a new source, and the scale constraint of a new pair.\<close>

lemma create_stay:
  assumes h: "strs h = all_strengths" "c_next h \<noteq> 0" and m: "mk < m" "currentMark h + 1 = m" "- INT_MAX \<le> currentMark h" "currentMark h < INT_MAX"
    and v: "v \<noteq> 0" "V v = Some (cvar x [] 0 mk weakest_strength True)"
  shows "StayConstraint_create (Suc (Suc f)) v (DEFAULT all_strengths) (heap h V K) =
    Inr (c_next h, heap (h\<lparr>c_next := Suc (c_next h), currentMark := m\<rparr>) (V(v \<mapsto> cvar x [c_next h] (c_next h) m default_strength True))
      (K(c_next h \<mapsto> unc StayConstraintType default_strength v True)))"
proof -
  let ?c = "c_next h" and ?h = "h\<lparr>c_next := Suc (c_next h)\<rparr>"
  let ?K = "K(?c \<mapsto> unc StayConstraintType default_strength v False)"
  let ?V = "V(v \<mapsto> cvar x [?c] 0 mk weakest_strength True)"
  have "Constraint_addToGraph ?c (heap ?h V ?K) = Inr (heap ?h ?V ?K)"
    using addToGraph_unary [where c = ?c and K = ?K and t = StayConstraintType and s = default_strength and v = v and b = False
      and V = V and X = "cvar x [] 0 mk weakest_strength True" and h = ?h] h v by simp
  moreover have "satisfy_with remove (Suc (Suc f)) ?c m (heap (?h\<lparr>currentMark := m\<rparr>) ?V ?K) =
      Inr (0, heap (?h\<lparr>currentMark := m\<rparr>) (V(v \<mapsto> cvar x [?c] ?c m default_strength True)) (K(?c \<mapsto> unc StayConstraintType default_strength v True)))" for remove
    using satisfy_unary_idle [where c = ?c and K = ?K and V = ?V and X = "cvar x [?c] 0 mk weakest_strength True" and v = v and m = m
      and t = StayConstraintType and s = default_strength and old = False and k = "Suc f" and h = "?h\<lparr>currentMark := m\<rparr>" and remove = remove]
      h v m by (simp add: idle_def)
  ultimately show ?thesis
    using h m by (simp add: Stay_create_eq [where t = default_strength] new_con_heap unary_con_unc AbstractConstraint_addConstraint_def
      Planner_incrementalAdd_def incrementalAdd_runs del: Planner_incrementalRemove.simps)
qed

lemma create_scale:
  assumes h: "strs h = all_strengths" "c_next h \<noteq> 0" and pos: "0 < vb"
    and m: "md < m" "ms < m" "mA < m" "mB < m" "currentMark h + 1 = m" "- INT_MAX \<le> currentMark h" "currentMark h < INT_MAX"
    and V: "V (src_at vb p) = Some (cvar x [s] s ms default_strength True)" "V (dst_at vb p) = Some (cvar z [] 0 md weakest_strength True)"
      "V vb = Some (cvar a cs 0 mA weakest_strength True)" "V (Suc vb) = Some (cvar b cs' 0 mB weakest_strength True)"
    and bounds: "in_int (x * a)" "in_int (x * a + b)"
  shows "ScaleConstraint_create (Suc (Suc f)) (src_at vb p) vb (Suc vb) (dst_at vb p) (REQUIRED all_strengths) (heap h V K) =
    Inr (c_next h, heap (h\<lparr>c_next := Suc (c_next h), currentMark := m\<rparr>)
      (V(src_at vb p \<mapsto> cvar x [s, c_next h] s m default_strength True, dst_at vb p \<mapsto> cvar (x * a + b) [c_next h] (c_next h) m default_strength True,
         vb \<mapsto> cvar a (cs @ [c_next h]) 0 m weakest_strength True, Suc vb \<mapsto> cvar b (cs' @ [c_next h]) 0 m weakest_strength True))
      (K(c_next h \<mapsto> scc vb p FORWARD)))"
proof -
  let ?c = "c_next h" and ?h = "h\<lparr>c_next := Suc (c_next h)\<rparr>"
  let ?K = "K(?c \<mapsto> scc vb p 0)"
  let ?V = "V(src_at vb p \<mapsto> cvar x [s, ?c] s ms default_strength True, dst_at vb p \<mapsto> cvar z [?c] 0 md weakest_strength True,
         vb \<mapsto> cvar a (cs @ [?c]) 0 mA weakest_strength True, Suc vb \<mapsto> cvar b (cs' @ [?c]) 0 mB weakest_strength True)"
  have con: "binary_con ScaleConstraintType required_strength (src_at vb p) (dst_at vb p) vb (Suc vb) = scc vb p 0"
    by (simp add: scc_def binary_con_def)
  have "Constraint_addToGraph ?c (heap ?h V ?K) = Inr (heap ?h ?V ?K)"
    using addToGraph_scale [where c = ?c and K = ?K and vb = vb and p = p and d = 0 and V = V and h = ?h] h V pos by simp
  moreover have "satisfy_with remove (Suc (Suc f)) ?c m (heap (?h\<lparr>currentMark := m\<rparr>) ?V ?K) =
      Inr (0, heap (?h\<lparr>currentMark := m\<rparr>) (?V(src_at vb p \<mapsto> cvar x [s, ?c] s m default_strength True,
         vb \<mapsto> cvar a (cs @ [?c]) 0 m weakest_strength True, Suc vb \<mapsto> cvar b (cs' @ [?c]) 0 m weakest_strength True,
         dst_at vb p \<mapsto> cvar (x * a + b) [?c] ?c m default_strength True)) (K(?c \<mapsto> scc vb p FORWARD)))" for remove
    using satisfy_scale_forward [where c = ?c and K = ?K and vb = vb and p = p and dir = 0 and V = ?V and X = "cvar x [s, ?c] s ms default_strength True"
      and Z = "cvar z [?c] 0 md weakest_strength True" and A = "cvar a (cs @ [?c]) 0 mA weakest_strength True"
      and B = "cvar b (cs' @ [?c]) 0 mB weakest_strength True" and m = m and k = "Suc f" and h = "?h\<lparr>currentMark := m\<rparr>" and remove = remove]
      h pos m bounds by (simp add: idle_def)
  ultimately show ?thesis
    using h m by (simp add: Scale_create_eq [where t = required_strength] new_con_heap con AbstractConstraint_addConstraint_def
      Planner_incrementalAdd_def incrementalAdd_runs fun_upd_twist del: Planner_incrementalRemove.simps)
qed

definition pair_record :: "vid \<Rightarrow> cid \<Rightarrow> nat \<Rightarrow> projection" where
  "pair_record vb cb j = \<lparr>p_src = (if j = 0 then 0 else src_at vb (j - 1)), p_dst = (if j = 0 then 0 else dst_at vb (j - 1)),
     p_dests = map (dst_at vb) [0..<j],
     p_toDelete = [vb, Suc vb] @ concat (map (\<lambda>p. [src_at vb p, dst_at vb p]) [0..<j]),
     p_toDelete2 = concat (map (\<lambda>p. [stay_at cb p, scale_at cb p]) [0..<j])\<rparr>"

definition built :: "vid \<Rightarrow> cid \<Rightarrow> nat \<Rightarrow> deltablue \<Rightarrow> bool" where
  "built vb cb j h \<longleftrightarrow> proj_state vb cb j 10 1000 (\<lambda>p. int p + 1) (\<lambda>p. (int p + 1) * 10 + 1000) h \<and>
     v_next h = vb + 2 + 2 * j \<and> c_next h = cb + 2 * j \<and> currentMark h = 1 + 2 * int j"

lemma build_pair:
  assumes b: "built vb cb j h" and bounds: "(int j + 1) * 10 + 1000 \<le> INT_MAX" "2 * int j + 3 \<le> INT_MAX"
  shows "\<exists>h'. projection_pair (Suc (Suc f)) vb (Suc vb) (Suc j) (pair_record vb cb j, h) = Inr (pair_record vb cb (Suc j), h') \<and>
    built vb cb (Suc j) h'"
proof -
  obtain ma mb ms md where
    h: "strs h = all_strengths" "0 < vb" "0 < cb" "v_next h = src_at vb j" "c_next h = stay_at cb j" "currentMark h = 1 + 2 * int j"
    and mk: "ma \<le> currentMark h" "mb \<le> currentMark h" "\<forall>p. ms p \<le> currentMark h \<and> md p \<le> currentMark h"
    and heap: "h = proj_heap vb cb j 10 1000 (\<lambda>p. int p + 1) (\<lambda>p. (int p + 1) * 10 + 1000) ma mb ms md h"
    using b unfolding built_def proj_state_def by (auto simp: src_at_def stay_at_def)
  let ?i = "int j + 1" and ?m = "currentMark h"
  let ?A = "\<lambda>n m. cvar 10 (map (scale_at cb) [0..<n]) 0 m weakest_strength True"
  let ?B = "\<lambda>n m. cvar 1000 (map (scale_at cb) [0..<n]) 0 m weakest_strength True"
  let ?S = "psrc cb (\<lambda>p. int p + 1) ms" and ?D = "pdst cb (\<lambda>p. (int p + 1) * 10 + 1000) md True"
  let ?V = "pvars vb j (?A j ma) (?B j mb) ?S ?D Map.empty" and ?K = "pcons cb j (pstay vb) (pscale vb) Map.empty"
  let ?new = "cvar ?i [] 0 0 weakest_strength True" and ?stay = "cvar ?i [stay_at cb j] (stay_at cb j) (?m + 1) default_strength True"
  define h1 where "h1 = h\<lparr>v_next := dst_at vb j\<rparr>"
  define h2 where "h2 = h1\<lparr>v_next := Suc (dst_at vb j)\<rparr>"
  define h3 where "h3 = h2\<lparr>c_next := scale_at cb j, currentMark := ?m + 1\<rparr>"
  define h4 where "h4 = h3\<lparr>c_next := Suc (scale_at cb j), currentMark := ?m + 2\<rparr>"
  note hs = h1_def h2_def h3_def h4_def
  have nxt: "Suc (src_at vb j) = dst_at vb j" "Suc (stay_at cb j) = scale_at cb j"
    by (simp_all add: dst_at_alt scale_at_def stay_at_def)
  have 1: "Variable_value (int (Suc j)) (heap h ?V ?K) = Inr (src_at vb j, heap h1 (?V(src_at vb j \<mapsto> ?new)) ?K)"
    using Variable_value_heap [where h = h and x = ?i and V = ?V and K = ?K] h nxt by (simp add: hs algebra_simps)
  have 2: "Variable_value (int (Suc j)) (heap h1 (?V(src_at vb j \<mapsto> ?new)) ?K) =
      Inr (dst_at vb j, heap h2 (?V(src_at vb j \<mapsto> ?new, dst_at vb j \<mapsto> ?new)) ?K)"
    using Variable_value_heap [where h = h1 and x = ?i and V = "?V(src_at vb j \<mapsto> ?new)" and K = ?K] h nxt by (simp add: hs algebra_simps)
  let ?V2 = "\<lambda>X. pvars vb (Suc j) (?A j ma) (?B j mb) (?S(j := X)) (?D(j := ?new)) Map.empty"
  let ?K3 = "?K(stay_at cb j \<mapsto> unc StayConstraintType default_strength (src_at vb j) True)"
  have 3: "StayConstraint_create (Suc (Suc f)) (src_at vb j) (DEFAULT all_strengths) (heap h2 (?V2 ?new) ?K) =
      Inr (stay_at cb j, heap h3 (?V2 ?stay) ?K3)"
    using create_stay [where h = h2 and mk = 0 and m = "?m + 1" and v = "src_at vb j" and V = "?V2 ?new" and x = ?i and f = f and K = ?K]
      h bounds nxt by (simp add: hs)
  have 4: "ScaleConstraint_create (Suc (Suc f)) (src_at vb j) vb (Suc vb) (dst_at vb j) (REQUIRED all_strengths) (heap h3 (?V2 ?stay) ?K3) =
      Inr (scale_at cb j, heap h4 (pvars vb (Suc j) (?A (Suc j) (?m + 2)) (?B (Suc j) (?m + 2))
          (?S(j := cvar ?i [stay_at cb j, scale_at cb j] (stay_at cb j) (?m + 2) default_strength True))
          (?D(j := cvar (?i * 10 + 1000) [scale_at cb j] (scale_at cb j) (?m + 2) default_strength True)) Map.empty)
        (?K3(scale_at cb j \<mapsto> scc vb j FORWARD)))"
    using create_scale [where h = h3 and vb = vb and p = j and md = 0 and ms = "?m + 1" and mA = ma and mB = mb and m = "?m + 2"
        and V = "?V2 ?stay" and x = ?i and z = ?i and s = "stay_at cb j" and a = 10 and b = 1000 and cs = "map (scale_at cb) [0..<j]"
        and cs' = "map (scale_at cb) [0..<j]" and f = f and K = ?K3]
      h mk bounds by (simp add: hs in_int_def)
  let ?H = "proj_heap vb cb (Suc j) 10 1000 (\<lambda>p. int p + 1) (\<lambda>p. (int p + 1) * 10 + 1000) (?m + 2) (?m + 2) (ms(j := ?m + 2)) (md(j := ?m + 2)) h4"
  have H: "heap h4 (pvars vb (Suc j) (?A (Suc j) (?m + 2)) (?B (Suc j) (?m + 2))
          (?S(j := cvar ?i [stay_at cb j, scale_at cb j] (stay_at cb j) (?m + 2) default_strength True))
          (?D(j := cvar (?i * 10 + 1000) [scale_at cb j] (scale_at cb j) (?m + 2) default_strength True)) Map.empty)
        (?K3(scale_at cb j \<mapsto> scc vb j FORWARD)) = ?H"
    unfolding proj_heap_def pcons_extend
    by (intro arg_cong3 [where f = heap] arg_cong2 [where f = "\<lambda>s d. pvars vb _ _ _ s d _"] arg_cong2 [where f = "\<lambda>s d. pcons cb _ s d _"] refl)
      (auto simp: fun_eq_iff)
  have "projection_pair (Suc (Suc f)) vb (Suc vb) (Suc j) (pair_record vb cb j, heap h ?V ?K) = Inr (pair_record vb cb (Suc j), ?H)"
  proof -
    have strs: "strs (heap h2 V K) = all_strengths" "strs (heap h3 V K) = all_strengths" for V K using h by (simp_all add: hs)
    show ?thesis
      by (simp only: projection_pair_def prod.case rbind.simps 1 2 pvars_extend strs 3 4 H) (simp add: pair_record_def)
  qed
  moreover have "heap h ?V ?K = h" by (subst (2) heap) (simp add: proj_heap_def)
  moreover have "proj_state vb cb (Suc j) 10 1000 (\<lambda>p. int p + 1) (\<lambda>p. (int p + 1) * 10 + 1000) ?H"
  proof (rule proj_stateI)
    show "(ms(j := ?m + 2)) p \<le> currentMark h4" "(md(j := ?m + 2)) p \<le> currentMark h4" for p
      using mk(3) [rule_format, of p] by (auto simp: hs)
  qed (use h in \<open>simp_all add: hs scale_at_def INT_MAX_def\<close>)
  ultimately show ?thesis using h
    by (intro exI [of _ ?H]) (simp add: built_def proj_heap_def hs dst_at_def scale_at_def)
qed

lemma build_pairs:
  assumes "built vb cb 0 h" and bounds: "int n * 10 + 1000 \<le> INT_MAX"
  shows "j \<le> n \<Longrightarrow> \<exists>h'. rfold (projection_pair (Suc (Suc f)) vb (Suc vb)) [1..<Suc j] (pair_record vb cb 0, h) =
    Inr (pair_record vb cb j, h') \<and> built vb cb j h'"
proof (induction j)
  case 0
  then show ?case using assms(1) by simp
next
  case (Suc j)
  then obtain h' where h': "rfold (projection_pair (Suc (Suc f)) vb (Suc vb)) [1..<Suc j] (pair_record vb cb 0, h) =
    Inr (pair_record vb cb j, h')" "built vb cb j h'" by auto
  obtain h'' where "projection_pair (Suc (Suc f)) vb (Suc vb) (Suc j) (pair_record vb cb j, h') = Inr (pair_record vb cb (Suc j), h'')"
    "built vb cb (Suc j) h''"
    using build_pair [OF h'(2), where f = f] Suc.prems bounds by auto
  moreover have "[1..<Suc (Suc j)] = [1..<Suc j] @ [Suc j]" by simp
  ultimately show ?case using h'(1) by (simp only: rfold_append rbind.simps rfold.simps) simp
qed

lemma built_0:
  assumes "strs h = all_strengths" "vars h = Map.empty" "cons h = Map.empty" "v_next h = vb" "c_next h = cb" "0 < vb" "0 < cb"
    and "currentMark h = 1"
  shows "\<exists>h1 h2. Variable_value 10 h = Inr (vb, h1) \<and> Variable_value 1000 h1 = Inr (Suc vb, h2) \<and> built vb cb 0 h2"
proof -
  let ?A = "cvar 10 [] 0 0 weakest_strength True" and ?B = "cvar 1000 [] 0 0 weakest_strength True"
  define h1 where "h1 = heap (h\<lparr>v_next := Suc vb\<rparr>) [vb \<mapsto> ?A] Map.empty"
  define h2 where "h2 = heap (h\<lparr>v_next := Suc (Suc vb)\<rparr>) [vb \<mapsto> ?A, Suc vb \<mapsto> ?B] Map.empty"
  have eq: "heap h Map.empty Map.empty = h" using heap_id [of h] assms by simp
  have "Variable_value 10 (heap h Map.empty Map.empty) = Inr (vb, h1)"
    using Variable_value_heap [where h = h and x = 10 and V = Map.empty and K = Map.empty] assms by (simp add: h1_def)
  then have "Variable_value 10 h = Inr (vb, h1)" by (simp only: eq)
  moreover have "Variable_value 1000 h1 = Inr (Suc vb, h2)"
    using Variable_value_heap [where h = "h\<lparr>v_next := Suc vb\<rparr>" and x = 1000 and V = "[vb \<mapsto> ?A]" and K = Map.empty] assms
    by (simp add: h1_def h2_def)
  moreover have "h2 = proj_heap vb cb 0 10 1000 (\<lambda>p. int p + 1) (\<lambda>p. (int p + 1) * 10 + 1000) 0 0 (\<lambda>p. 0) (\<lambda>p. 0) h2"
    unfolding proj_heap_def
    by (simp add: h2_def) (intro arg_cong3 [where f = heap] refl; auto simp: pvars_def pcons_def fun_eq_iff)
  then have "proj_state vb cb 0 10 1000 (\<lambda>p. int p + 1) (\<lambda>p. (int p + 1) * 10 + 1000) h2"
    using proj_stateI [where h = h2 and vb = vb and cb = cb and n = 0 and ma = 0 and mb = 0 and ms = "\<lambda>p. 0" and md = "\<lambda>p. 0"
      and a = 10 and b = 1000 and sval = "\<lambda>p. int p + 1" and dval = "\<lambda>p. (int p + 1) * 10 + 1000"] assms
    by (simp add: h2_def INT_MAX_def)
  ultimately show ?thesis using assms by (intro exI [of _ h1] exI [of _ h2]) (simp add: built_def h2_def)
qed

section \<open>Checking and disposing\<close>

lemma proj_values:
  assumes "proj_state vb cb n a b sval dval h" "p < n"
  shows "Variable_getValue (src_at vb p) h = Inr (sval p)" "Variable_getValue (dst_at vb p) h = Inr (dval p)"
proof -
  obtain ma mb ms md where h: "h = proj_heap vb cb n a b sval dval ma mb ms md h" using assms unfolding proj_state_def by blast
  have "vars h (src_at vb p) = Some (cvar (sval p) [stay_at cb p, scale_at cb p] (stay_at cb p) (ms p) default_strength True)"
    "vars h (dst_at vb p) = Some (cvar (dval p) [scale_at cb p] (scale_at cb p) (md p) default_strength True)"
    using arg_cong [OF h, of vars] assms(2) by (simp_all add: proj_heap_def)
  then show "Variable_getValue (src_at vb p) h = Inr (sval p)" "Variable_getValue (dst_at vb p) h = Inr (dval p)"
    by (simp_all add: variable_ops get_var_eq)
qed

lemma check_dests_ok:
  assumes st: "proj_state vb cb n a b sval dval h" and n: "int n * 5 + \<bar>off\<bar> \<le> INT_MAX"
    and dval: "\<forall>p. Suc p < n \<longrightarrow> dval p = (int p + 1) * 5 + off"
  shows "check_dests (map (dst_at vb) [0..<n]) (int n) off h = Inr ()"
proof -
  let ?step = "\<lambda>i (u :: unit). rbind (list_at (map (dst_at vb) [0..<n]) (int i)) (\<lambda>v. rbind (Variable_getValue v h) (\<lambda>a.
      rbind (c_int ((int i + 1) * 5)) (\<lambda>x. rbind (c_int (x + off)) (\<lambda>x. if a \<noteq> x then Inl AssertFailed else Inr ()))))"
  have "?step p () = Inr ()" if "Suc p < n" for p
    using that proj_values(2) [OF st, of p] dval n by (simp add: list_at_def c_int_ok)
  then have "rfold ?step [0..<j] () = Inr ()" if "j \<le> n - 1" for j
    using that by (induction j) (simp_all add: rfold_append)
  moreover have "nat (int n - 1) = n - 1" by simp
  ultimately show ?thesis by (simp add: check_dests_def)
qed

lemma pair_ids:
  "p_toDelete (pair_record vb cb n) = [vb..<vb + 2 + 2 * n]" "p_toDelete2 (pair_record vb cb n) = [cb..<cb + 2 * n]"
proof -
  have "concat (map (\<lambda>p. [stay_at cb p, scale_at cb p]) [0..<n]) = [cb..<cb + 2 * n]"
    by (induction n) (simp_all add: stay_at_def scale_at_def)
  then show "p_toDelete2 (pair_record vb cb n) = [cb..<cb + 2 * n]" by (simp add: pair_record_def)
  have "concat (map (\<lambda>p. [src_at vb p, dst_at vb p]) [0..<n]) = [vb + 2..<vb + 2 + 2 * n]"
    by (induction n) (simp_all add: src_at_def dst_at_def)
  then show "p_toDelete (pair_record vb cb n) = [vb..<vb + 2 + 2 * n]"
    by (simp add: pair_record_def upt_conv_Cons del: upt_Suc)
qed

lemma dispose_pairs:
  assumes "proj_state vb cb n a b sval dval h"
  shows "rbind (rfold Variable_dispose (p_toDelete (pair_record vb cb n)) h) (rfold Constraint_dispose (p_toDelete2 (pair_record vb cb n))) =
    Inr (heap h Map.empty Map.empty)"
proof -
  obtain ma mb ms md where pos: "0 < vb" "0 < cb" and h: "h = proj_heap vb cb n a b sval dval ma mb ms md h"
    using assms unfolding proj_state_def by blast
  obtain A B S D Y C where H: "h = heap h (pvars vb n A B S D Map.empty) (pcons cb n Y C Map.empty)"
    using h unfolding proj_heap_def by blast
  let ?V = "pvars vb n A B S D Map.empty" and ?K = "pcons cb n Y C Map.empty"
  have "rfold Variable_dispose [vb..<vb + 2 + 2 * n] (heap h ?V ?K) = Inr (heap h (?V |` (- set [vb..<vb + 2 + 2 * n])) ?K)"
    using pos by (intro dispose_vars) (auto simp: pvars_def)
  moreover have "?V |` (- set [vb..<vb + 2 + 2 * n]) = Map.empty"
    by (auto simp: restrict_map_def pvars_def fun_eq_iff)
  moreover have "rfold Constraint_dispose [cb..<cb + 2 * n] (heap h Map.empty ?K) = Inr (heap h Map.empty (?K |` (- set [cb..<cb + 2 * n])))"
    using pos by (intro dispose_cons) (auto simp: pcons_def)
  moreover have "?K |` (- set [cb..<cb + 2 * n]) = Map.empty"
    by (auto simp: restrict_map_def pcons_def fun_eq_iff)
  ultimately show ?thesis by (subst H) (simp add: pair_ids)
qed

section \<open>The test\<close>

lemma projectionTest_runs:
  assumes n: "0 < n" "int n * 10 + 1000 \<le> INT_MAX" and k: "n + 3 \<le> k" "4 \<le> k"
    and h: "strs h = all_strengths" "vars h = Map.empty" "cons h = Map.empty" "0 < v_next h" "0 < c_next h"
  shows "\<exists>h'. Planner_projectionTest k (int n) h = Inr h' \<and> strs h' = all_strengths \<and> vars h' = Map.empty \<and> cons h' = Map.empty \<and>
    0 < v_next h' \<and> 0 < c_next h'"
proof -
  define vb where "vb = v_next h"
  define cb where "cb = c_next h"
  let ?s0 = "\<lambda>p. int p + 1" and ?d0 = "\<lambda>p. (int p + 1) * 10 + 1000" and ?l = "n - 1"
  let ?s2 = "?s0(?l := 5)"
  obtain f where f: "k = Suc (Suc f)" using k by (intro that [of "k - 2"]) simp
  obtain h1 h2 where start: "Variable_value 10 (Planner_create h) = Inr (vb, h1)" "Variable_value 1000 h1 = Inr (Suc vb, h2)" "built vb cb 0 h2"
    using built_0 [of "Planner_create h" vb cb] h by (auto simp: Planner_create_def vb_def cb_def)
  obtain h3 where h3: "rfold (projection_pair k vb (Suc vb)) [1..<Suc n] (pair_record vb cb 0, h2) = Inr (pair_record vb cb n, h3)" "built vb cb n h3"
    using build_pairs [OF start(3) n(2), of n f] f by auto
  have st3: "proj_state vb cb n 10 1000 ?s0 ?d0 h3" "currentMark h3 = 1 + 2 * int n" using h3(2) by (simp_all add: built_def)
  obtain h4 where h4: "Planner_change k (src_at vb ?l) 17 h3 = Inr h4" "proj_state vb cb n 10 1000 (?s0(?l := 17)) (?d0(?l := 1170)) h4"
      "after_change 3 h3 h4"
    using change_src [OF st3(1), of ?l 17 k] st3(2) n k by (auto simp: in_int_def INT_MAX_def)
  obtain h5 where h5: "Planner_change k (dst_at vb ?l) 1050 h4 = Inr h5" "proj_state vb cb n 10 1000 (?s0(?l := 17, ?l := 5)) (?d0(?l := 1170, ?l := 1050)) h5"
      "after_change 3 h4 h5"
    using change_dst [OF h4(2), of ?l 17 1050 5 k] h4(3) st3(2) n k by (auto simp: in_int_def INT_MAX_def c_div_def after_change_def)
  then have st5: "proj_state vb cb n 10 1000 ?s2 (?d0(?l := 1050)) h5" by simp
  have bounds: "in_int (?s2 p * 10) \<and> in_int (?s2 p * 10 + 1000) \<and> in_int (?s2 p * 5) \<and> in_int (?s2 p * 5 + 1000) \<and> in_int (?s2 p * 5 + 2000)"
    if "p < n" for p using that n by (cases "p = ?l") (auto simp: in_int_def INT_MAX_def)
  obtain h6 where h6: "Planner_change k vb 5 h5 = Inr h6" "proj_state vb cb n 5 1000 ?s2 (\<lambda>p. ?s2 p * 5 + 1000) h6" "after_change 2 h5 h6"
    using change_scale [OF st5, of 5 k] h4(3) h5(3) st3(2) n k bounds by (auto simp: INT_MAX_def after_change_def simp del: fun_upd_apply)
  obtain h7 where h7: "Planner_change k (Suc vb) 2000 h6 = Inr h7" "proj_state vb cb n 5 2000 ?s2 (\<lambda>p. ?s2 p * 5 + 2000) h7" "after_change 2 h6 h7"
    using change_offset [OF h6(2), of 2000 k] h4(3) h5(3) h6(3) st3(2) n k bounds by (auto simp: INT_MAX_def after_change_def simp del: fun_upd_apply)
  have checks: "Variable_getValue (dst_at vb ?l) h4 = Inr 1170" "Variable_getValue (src_at vb ?l) h5 = Inr 5"
    "check_dests (map (dst_at vb) [0..<n]) (int n) 1000 h6 = Inr ()" "check_dests (map (dst_at vb) [0..<n]) (int n) 2000 h7 = Inr ()"
    using proj_values(2) [OF h4(2), of ?l] proj_values(1) [OF st5, of ?l] n check_dests_ok [OF h6(2), of 1000] check_dests_ok [OF h7(2), of 2000]
    by (simp_all add: INT_MAX_def)
  have rec: "p_src (pair_record vb cb n) = src_at vb ?l" "p_dst (pair_record vb cb n) = dst_at vb ?l"
    "p_dests (pair_record vb cb n) = map (dst_at vb) [0..<n]"
    "\<lparr>p_src = 0, p_dst = 0, p_dests = [], p_toDelete = [vb, Suc vb], p_toDelete2 = []\<rparr> = pair_record vb cb 0"
    using n by (simp_all add: pair_record_def)
  have "nat (int n) = n" by simp
  then have "Planner_projectionTest k (int n) h = Inr (heap h7 Map.empty Map.empty)"
    unfolding Planner_projectionTest_def Let_def
    by (simp only: start rbind.simps prod.case rec h3 h4(1) h5(1) h6(1) h7(1) checks dispose_pairs [OF h7(2)] if_False not_True_eq_False simp_thms)
  moreover have "strs h7 = all_strengths" "0 < c_next h7" using h7(2) by (simp_all add: proj_state_def)
  moreover have "v_next h7 = v_next h3" "0 < v_next h3"
    using h3(2) h4(3) h5(3) h6(3) h7(3) by (simp_all add: after_change_def built_def)
  ultimately show ?thesis by (simp add: heap_def)
qed

lemma innerBenchmarkLoop_runs:
  assumes "ABSOLUTE_STRONGEST (strs h) = 0" "vars h = Map.empty" "cons h = Map.empty"
    and "0 < v_next h" "0 < c_next h" "0 < n" "int n * 10 + 1000 \<le> INT_MAX" "n + 3 \<le> k"
  shows "\<exists>h'. DeltaBlue_innerBenchmarkLoop k (int n) h = Inr (True, h') \<and>
    ABSOLUTE_STRONGEST (strs h') = 0 \<and> vars h' = Map.empty \<and> cons h' = Map.empty \<and> 0 < v_next h' \<and> 0 < c_next h'"
proof -
  let ?h = "h\<lparr>strs := all_strengths\<rparr>"
  let ?h1 = "?h\<lparr>currentMark := int n + 5, v_next := v_next h + Suc n, c_next := Suc (Suc (c_next h + n))\<rparr>"
  have chain: "Planner_chainTest k (int n) ?h = Inr ?h1"
    using assms by (intro chainTest_runs) simp_all
  obtain h' where "Planner_projectionTest k (int n) ?h1 = Inr h'" "strs h' = all_strengths" "vars h' = Map.empty" "cons h' = Map.empty"
      "0 < v_next h'" "0 < c_next h'"
    using projectionTest_runs [where n = n and k = k and h = ?h1] assms by auto
  then show ?thesis
    using assms chain by (simp add: DeltaBlue_innerBenchmarkLoop_def Strength_init_all Strength_deinit_def)
qed



end
