(* ===== verification/AwfyHavlak.thy ===== *)
theory AwfyHavlak
  imports SomSet SomDictionary
begin

text \<open>
  \<open>Havlak.c\<close>: the loop recogniser, with the control-flow graphs the benchmark builds. Basic blocks,
  edges, loops, union-find nodes and the two kinds of predecessor collections are cells of heaps; a
  pointer is a number and \<open>0\<close> the null pointer. A vector is the one of \<open>SomVector\<close>, since the
  finder writes to cells behind the size of its vectors.
\<close>

section \<open>Basic blocks and the control-flow graph\<close>

record BasicBlock =
  inEdges :: "nat vector"
  outEdges :: "nat vector"
  bb_name :: int

record BasicBlockEdge =
  e_from :: nat
  e_to :: nat

record SimpleLoop =
  basicBlocks :: "nat som_set"
  children :: "nat som_set"
  l_parent :: nat
  l_isRoot :: bool
  nestingLevel :: int

record UnionFindNode =
  u_parent :: nat
  u_bb :: nat
  u_loop :: nat
  u_dfsNumber :: int

text \<open>The heaps; each next address is greater than every address in use.\<close>

record havlak =
  blocks :: "nat \<Rightarrow> BasicBlock option"
  b_next :: nat
  edges :: "nat \<Rightarrow> BasicBlockEdge option"
  e_next :: nat
  sloops :: "nat \<Rightarrow> SimpleLoop option"
  l_next :: nat
  ufs :: "nat \<Rightarrow> UnionFindNode option"
  u_next :: nat

definition load :: "(nat \<Rightarrow> 'a option) \<Rightarrow> nat \<Rightarrow> 'a res" where
  "load heap p = (if p = 0 then Inl NullDeref else case heap p of None \<Rightarrow> Inl UseAfterFree | Some x \<Rightarrow> Inr x)"

definition set_block :: "nat \<Rightarrow> BasicBlock \<Rightarrow> havlak \<Rightarrow> havlak" where
  "set_block p x h = h\<lparr>blocks := (blocks h)(p \<mapsto> x)\<rparr>"

definition set_loop :: "nat \<Rightarrow> SimpleLoop \<Rightarrow> havlak \<Rightarrow> havlak" where
  "set_loop p x h = h\<lparr>sloops := (sloops h)(p \<mapsto> x)\<rparr>"

definition set_uf :: "nat \<Rightarrow> UnionFindNode \<Rightarrow> havlak \<Rightarrow> havlak" where
  "set_uf p x h = h\<lparr>ufs := (ufs h)(p \<mapsto> x)\<rparr>"

definition BasicBlock_create :: "int \<Rightarrow> havlak \<Rightarrow> (nat \<times> havlak) res" where
  "BasicBlock_create nm h =
    rbind (Vector_createDefault 8) (\<lambda>i.
    rbind (Vector_createDefault 8) (\<lambda>out.
      Inr (b_next h, h\<lparr>blocks := (blocks h)(b_next h \<mapsto> \<lparr>inEdges = i, outEdges = out, bb_name = nm\<rparr>),
        b_next := Suc (b_next h)\<rparr>)))"

definition BasicBlock_dispose :: "nat \<Rightarrow> havlak \<Rightarrow> havlak res" where
  "BasicBlock_dispose b h = rbind (load (blocks h) b) (\<lambda>x. Inr (h\<lparr>blocks := (blocks h)(b := None)\<rparr>))"

definition BasicBlock_getInEdges :: "nat \<Rightarrow> havlak \<Rightarrow> nat vector res" where
  "BasicBlock_getInEdges b h = rbind (load (blocks h) b) (\<lambda>x. Inr (inEdges x))"

definition BasicBlock_getOutEdges :: "nat \<Rightarrow> havlak \<Rightarrow> nat vector res" where
  "BasicBlock_getOutEdges b h = rbind (load (blocks h) b) (\<lambda>x. Inr (outEdges x))"

definition BasicBlock_getNumPred :: "nat \<Rightarrow> havlak \<Rightarrow> int res" where
  "BasicBlock_getNumPred b h = rbind (load (blocks h) b) (\<lambda>x. Inr (Vector_size (inEdges x)))"

definition BasicBlock_addOutEdge :: "nat \<Rightarrow> nat \<Rightarrow> havlak \<Rightarrow> havlak res" where
  "BasicBlock_addOutEdge b to h =
    rbind (load (blocks h) b) (\<lambda>x.
    rbind (Vector_append (outEdges x) to) (\<lambda>v. Inr (set_block b (x\<lparr>outEdges := v\<rparr>) h)))"

definition BasicBlock_addInEdge :: "nat \<Rightarrow> nat \<Rightarrow> havlak \<Rightarrow> havlak res" where
  "BasicBlock_addInEdge b from h =
    rbind (load (blocks h) b) (\<lambda>x.
    rbind (Vector_append (inEdges x) from) (\<lambda>v. Inr (set_block b (x\<lparr>inEdges := v\<rparr>) h)))"

text \<open>The hash of a key that is a live block; the names of blocks never change.\<close>

definition BasicBlock_hash :: "(nat \<Rightarrow> BasicBlock option) \<Rightarrow> nat \<Rightarrow> int" where
  "BasicBlock_hash bs b = (case bs b of Some x \<Rightarrow> bb_name x | None \<Rightarrow> 0)"

record ControlFlowGraph =
  basicBlockMap :: "nat vector"
  startNode :: nat
  edgeList :: "nat vector"

definition ControlFlowGraph_create :: "ControlFlowGraph res" where
  "ControlFlowGraph_create =
    rbind (Vector_createDefault 8) (\<lambda>m.
    rbind (Vector_createDefault 8) (\<lambda>l. Inr \<lparr>basicBlockMap = m, startNode = 0, edgeList = l\<rparr>))"

text \<open>\<open>free\<close> of a pointer into a heap, which may be null.\<close>

definition release :: "(nat \<Rightarrow> 'a option) \<Rightarrow> nat \<Rightarrow> (nat \<Rightarrow> 'a option) res" where
  "release heap p = (if p = 0 then Inr heap else rbind (load heap p) (\<lambda>x. Inr (heap(p := None))))"

definition ControlFlowGraph_dispose :: "ControlFlowGraph \<Rightarrow> havlak \<Rightarrow> havlak res" where
  "ControlFlowGraph_dispose me h =
    rbind (rfold (\<lambda>i h.
        rbind (Vector_at (basicBlockMap me) (int i)) (\<lambda>bb. BasicBlock_dispose bb h))
      [0..<nat (Vector_size (basicBlockMap me))] h) (\<lambda>h.
    rfold (\<lambda>i h.
        rbind (Vector_at (edgeList me) (int i)) (\<lambda>be.
        rbind (release (edges h) be) (\<lambda>es. Inr (h\<lparr>edges := es\<rparr>))))
      [0..<nat (Vector_size (edgeList me))] h)"

definition ControlFlowGraph_addEdge :: "nat \<Rightarrow> ControlFlowGraph \<Rightarrow> ControlFlowGraph res" where
  "ControlFlowGraph_addEdge e me = rbind (Vector_append (edgeList me) e) (\<lambda>v. Inr (me\<lparr>edgeList := v\<rparr>))"

definition ControlFlowGraph_getNumNodes :: "ControlFlowGraph \<Rightarrow> int" where
  "ControlFlowGraph_getNumNodes me = Vector_size (basicBlockMap me)"

definition ControlFlowGraph_getStartBasicBlock :: "ControlFlowGraph \<Rightarrow> nat" where
  "ControlFlowGraph_getStartBasicBlock me = startNode me"

definition ControlFlowGraph_getBasicBlocks :: "ControlFlowGraph \<Rightarrow> nat vector" where
  "ControlFlowGraph_getBasicBlocks me = basicBlockMap me"

definition ControlFlowGraph_createNode ::
    "int \<Rightarrow> ControlFlowGraph \<times> havlak \<Rightarrow> (nat \<times> ControlFlowGraph \<times> havlak) res" where
  "ControlFlowGraph_createNode nm = (\<lambda>(me, h).
    rbind (if nm < Vector_size (basicBlockMap me) then Vector_at (basicBlockMap me) nm else Inr 0) (\<lambda>node.
    rbind (if node \<noteq> 0 then Inr (node, me, h)
           else
             rbind (BasicBlock_create nm h) (\<lambda>(node, h).
             rbind (Vector_atPut (basicBlockMap me) nm node) (\<lambda>v. Inr (node, me\<lparr>basicBlockMap := v\<rparr>, h)))) (\<lambda>(node, me, h).
      Inr (node, if ControlFlowGraph_getNumNodes me = 1 then me\<lparr>startNode := node\<rparr> else me, h))))"

definition BasicBlockEdge_create ::
    "int \<Rightarrow> int \<Rightarrow> ControlFlowGraph \<times> havlak \<Rightarrow> (ControlFlowGraph \<times> havlak) res" where
  "BasicBlockEdge_create fromName toName = (\<lambda>(cfg, h).
    let e = e_next h; h = h\<lparr>e_next := Suc e\<rparr> in
    rbind (ControlFlowGraph_createNode fromName (cfg, h)) (\<lambda>(from, cfg, h).
    rbind (ControlFlowGraph_createNode toName (cfg, h)) (\<lambda>(to, cfg, h).
    let h = h\<lparr>edges := (edges h)(e \<mapsto> \<lparr>e_from = from, e_to = to\<rparr>)\<rparr> in
    rbind (BasicBlock_addOutEdge from to h) (\<lambda>h.
    rbind (BasicBlock_addInEdge to from h) (\<lambda>h.
    rbind (ControlFlowGraph_addEdge e cfg) (\<lambda>cfg.
      Inr (cfg, h)))))))"

section \<open>Loops\<close>

definition SimpleLoop_addChildLoop :: "nat \<Rightarrow> nat \<Rightarrow> havlak \<Rightarrow> havlak res" where
  "SimpleLoop_addChildLoop me child h =
    rbind (load (sloops h) me) (\<lambda>x.
    rbind (Set_add child (children x)) (\<lambda>s. Inr (set_loop me (x\<lparr>children := s\<rparr>) h)))"

definition SimpleLoop_create :: "nat \<Rightarrow> havlak \<Rightarrow> (nat \<times> havlak) res" where
  "SimpleLoop_create bb h =
    rbind (Set_create 8) (\<lambda>b.
    rbind (Set_create 8) (\<lambda>c.
    rbind (if bb \<noteq> 0 then Set_add bb b else Inr b) (\<lambda>b.
      Inr (l_next h, h\<lparr>sloops := (sloops h)(l_next h \<mapsto>
          \<lparr>basicBlocks = b, children = c, l_parent = 0, l_isRoot = False, nestingLevel = 0\<rparr>),
        l_next := Suc (l_next h)\<rparr>))))"

definition SimpleLoop_dispose :: "nat \<Rightarrow> havlak \<Rightarrow> havlak res" where
  "SimpleLoop_dispose me h = rbind (load (sloops h) me) (\<lambda>x. Inr (h\<lparr>sloops := (sloops h)(me := None)\<rparr>))"

definition SimpleLoop_addNode :: "nat \<Rightarrow> nat \<Rightarrow> havlak \<Rightarrow> havlak res" where
  "SimpleLoop_addNode me bb h =
    rbind (load (sloops h) me) (\<lambda>x.
    rbind (Set_add bb (basicBlocks x)) (\<lambda>s. Inr (set_loop me (x\<lparr>basicBlocks := s\<rparr>) h)))"

definition SimpleLoop_getChildren :: "nat \<Rightarrow> havlak \<Rightarrow> nat som_set res" where
  "SimpleLoop_getChildren me h = rbind (load (sloops h) me) (\<lambda>x. Inr (children x))"

definition SimpleLoop_getParent :: "nat \<Rightarrow> havlak \<Rightarrow> nat res" where
  "SimpleLoop_getParent me h = rbind (load (sloops h) me) (\<lambda>x. Inr (l_parent x))"

definition SimpleLoop_getNestingLevel :: "nat \<Rightarrow> havlak \<Rightarrow> int res" where
  "SimpleLoop_getNestingLevel me h = rbind (load (sloops h) me) (\<lambda>x. Inr (nestingLevel x))"

definition SimpleLoop_isRoot :: "nat \<Rightarrow> havlak \<Rightarrow> bool res" where
  "SimpleLoop_isRoot me h = rbind (load (sloops h) me) (\<lambda>x. Inr (l_isRoot x))"

definition SimpleLoop_setIsRoot :: "nat \<Rightarrow> havlak \<Rightarrow> havlak res" where
  "SimpleLoop_setIsRoot me h = rbind (load (sloops h) me) (\<lambda>x. Inr (set_loop me (x\<lparr>l_isRoot := True\<rparr>) h))"

definition SimpleLoop_setParent :: "nat \<Rightarrow> nat \<Rightarrow> havlak \<Rightarrow> havlak res" where
  "SimpleLoop_setParent me parent h =
    rbind (load (sloops h) me) (\<lambda>x. SimpleLoop_addChildLoop parent me (set_loop me (x\<lparr>l_parent := parent\<rparr>) h))"

definition SimpleLoop_setNestingLevel :: "nat \<Rightarrow> int \<Rightarrow> havlak \<Rightarrow> havlak res" where
  "SimpleLoop_setNestingLevel me level h =
    rbind (load (sloops h) me) (\<lambda>x.
    let h = set_loop me (x\<lparr>nestingLevel := level\<rparr>) h in
      if level = 0 then SimpleLoop_setIsRoot me h else Inr h)"

section \<open>Union-find\<close>

definition UnionFindNode_create :: "havlak \<Rightarrow> nat \<times> havlak" where
  "UnionFindNode_create h = (u_next h,
    h\<lparr>ufs := (ufs h)(u_next h \<mapsto> \<lparr>u_parent = 0, u_bb = 0, u_loop = 0, u_dfsNumber = 0\<rparr>), u_next := Suc (u_next h)\<rparr>)"

definition UnionFindNode_initNode :: "nat \<Rightarrow> nat \<Rightarrow> int \<Rightarrow> havlak \<Rightarrow> havlak res" where
  "UnionFindNode_initNode me bb dfsNumber h =
    rbind (load (ufs h) me) (\<lambda>x.
      Inr (set_uf me \<lparr>u_parent = me, u_bb = bb, u_loop = 0, u_dfsNumber = dfsNumber\<rparr> h))"

definition UnionFindNode_unite :: "nat \<Rightarrow> nat \<Rightarrow> havlak \<Rightarrow> havlak res" where
  "UnionFindNode_unite me basicBlock h =
    rbind (load (ufs h) me) (\<lambda>x. Inr (set_uf me (x\<lparr>u_parent := basicBlock\<rparr>) h))"

definition UnionFindNode_getParent :: "nat \<Rightarrow> havlak \<Rightarrow> nat res" where
  "UnionFindNode_getParent me h = rbind (load (ufs h) me) (\<lambda>x. Inr (u_parent x))"

definition UnionFindNode_getBb :: "nat \<Rightarrow> havlak \<Rightarrow> nat res" where
  "UnionFindNode_getBb me h = rbind (load (ufs h) me) (\<lambda>x. Inr (u_bb x))"

definition UnionFindNode_getLoop :: "nat \<Rightarrow> havlak \<Rightarrow> nat res" where
  "UnionFindNode_getLoop me h = rbind (load (ufs h) me) (\<lambda>x. Inr (u_loop x))"

definition UnionFindNode_getDfsNumber :: "nat \<Rightarrow> havlak \<Rightarrow> int res" where
  "UnionFindNode_getDfsNumber me h = rbind (load (ufs h) me) (\<lambda>x. Inr (u_dfsNumber x))"

definition UnionFindNode_setLoop :: "nat \<Rightarrow> nat \<Rightarrow> havlak \<Rightarrow> havlak res" where
  "UnionFindNode_setLoop me l h = rbind (load (ufs h) me) (\<lambda>x. Inr (set_uf me (x\<lparr>u_loop := l\<rparr>) h))"

definition UnionFindNode_findSet_iter :: "nat \<Rightarrow> nat \<Rightarrow> havlak \<Rightarrow> havlak res" where
  "UnionFindNode_findSet_iter parent iter h = UnionFindNode_unite iter parent h"

text \<open>The \<open>while\<close> loop, which collects the nodes that are not children of a root.\<close>

fun findSet_loop :: "nat \<Rightarrow> nat \<Rightarrow> nat vector \<Rightarrow> havlak \<Rightarrow> (nat \<times> nat vector) res" where
  "findSet_loop 0 node nodeList h = Inl OutOfFuel"
| "findSet_loop (Suc k) node nodeList h =
    rbind (UnionFindNode_getParent node h) (\<lambda>p.
      if node = p then Inr (node, nodeList)
      else
        rbind (UnionFindNode_getParent p h) (\<lambda>pp.
        rbind (if p \<noteq> pp then Vector_append nodeList node else Inr nodeList) (\<lambda>nodeList.
          findSet_loop k p nodeList h)))"

definition UnionFindNode_findSet :: "nat \<Rightarrow> nat \<Rightarrow> havlak \<Rightarrow> (nat \<times> havlak) res" where
  "UnionFindNode_findSet k me h =
    rbind (Vector_createDefault 8) (\<lambda>nodeList.
    rbind (findSet_loop k me nodeList h) (\<lambda>(node, nodeList).
    rbind (UnionFindNode_getParent me h) (\<lambda>parent.
    rbind (Vector_forEach nodeList (UnionFindNode_findSet_iter parent) h) (\<lambda>h.
      Inr (node, h)))))"

section \<open>The loop structure\<close>

record LoopStructureGraph =
  root :: nat
  loops :: "nat vector"
  loopCounter :: int

definition LoopStructureGraph_create :: "havlak \<Rightarrow> (LoopStructureGraph \<times> havlak) res" where
  "LoopStructureGraph_create h =
    rbind (SimpleLoop_create 0 h) (\<lambda>(r, h).
    rbind (SimpleLoop_setNestingLevel r 0 h) (\<lambda>h.
    rbind (Vector_createDefault 8) (\<lambda>v.
    rbind (Vector_append v r) (\<lambda>v.
      Inr (\<lparr>root = r, loops = v, loopCounter = 1\<rparr>, h)))))"

definition LoopStructureGraph_dispose :: "LoopStructureGraph \<Rightarrow> havlak \<Rightarrow> havlak res" where
  "LoopStructureGraph_dispose me h =
    rfold (\<lambda>i h. rbind (Vector_at (loops me) (int i)) (\<lambda>sl. SimpleLoop_dispose sl h))
      [0..<nat (Vector_size (loops me))] h"

definition LoopStructureGraph_getNumLoops :: "LoopStructureGraph \<Rightarrow> int" where
  "LoopStructureGraph_getNumLoops me = Vector_size (loops me)"

text \<open>The argument \<open>isReducible\<close> is not used.\<close>

definition LoopStructureGraph_createNewLoop ::
    "nat \<Rightarrow> bool \<Rightarrow> LoopStructureGraph \<times> havlak \<Rightarrow> (nat \<times> LoopStructureGraph \<times> havlak) res" where
  "LoopStructureGraph_createNewLoop bb isReducible = (\<lambda>(me, h).
    rbind (SimpleLoop_create bb h) (\<lambda>(l, h).
    rbind (c_int (loopCounter me + 1)) (\<lambda>c.
    rbind (Vector_append (loops me) l) (\<lambda>v.
      Inr (l, me\<lparr>loopCounter := c, loops := v\<rparr>, h)))))"

definition LoopStructureGraph_calculateNestingLevel_iter :: "nat \<Rightarrow> nat \<Rightarrow> havlak \<Rightarrow> havlak res" where
  "LoopStructureGraph_calculateNestingLevel_iter r l h =
    rbind (SimpleLoop_isRoot l h) (\<lambda>b.
      if b then Inr h
      else rbind (SimpleLoop_getParent l h) (\<lambda>p. if p = 0 then SimpleLoop_setParent l r h else Inr h))"

definition c_max :: "int \<Rightarrow> int \<Rightarrow> int" where
  "c_max a b = (if a > b then a else b)"

text \<open>The recursive call is a parameter here.\<close>

definition LoopStructureGraph_calculateNestingLevelRec_iter ::
    "(nat \<Rightarrow> int \<Rightarrow> havlak \<Rightarrow> havlak res) \<Rightarrow> nat \<Rightarrow> int \<Rightarrow> nat \<Rightarrow> havlak \<Rightarrow> havlak res" where
  "LoopStructureGraph_calculateNestingLevelRec_iter rec l depth liter h =
    rbind (c_int (depth + 1)) (\<lambda>d.
    rbind (rec liter d h) (\<lambda>h.
    rbind (SimpleLoop_getNestingLevel l h) (\<lambda>a.
    rbind (SimpleLoop_getNestingLevel liter h) (\<lambda>b.
    rbind (c_int (1 + b)) (\<lambda>b.
      SimpleLoop_setNestingLevel l (c_max a b) h)))))"

primrec LoopStructureGraph_calculateNestingLevelRec :: "nat \<Rightarrow> nat \<Rightarrow> int \<Rightarrow> havlak \<Rightarrow> havlak res" where
  "LoopStructureGraph_calculateNestingLevelRec 0 l depth h = Inl OutOfFuel"
| "LoopStructureGraph_calculateNestingLevelRec (Suc k) l depth h =
    rbind (SimpleLoop_getChildren l h) (\<lambda>cs.
      Set_forEach cs
        (LoopStructureGraph_calculateNestingLevelRec_iter (LoopStructureGraph_calculateNestingLevelRec k) l depth) h)"

definition LoopStructureGraph_calculateNestingLevel :: "nat \<Rightarrow> LoopStructureGraph \<Rightarrow> havlak \<Rightarrow> havlak res" where
  "LoopStructureGraph_calculateNestingLevel k me h =
    rbind (Vector_forEach (loops me) (LoopStructureGraph_calculateNestingLevel_iter (root me)) h) (\<lambda>h.
      LoopStructureGraph_calculateNestingLevelRec k (root me) 0 h)"

section \<open>The finder\<close>

datatype BasicBlockClass =
    BB_TOP
  | BB_NONHEADER
  | BB_REDUCIBLE
  | BB_SELF
  | BB_IRREDUCIBLE
  | BB_DEAD
  | BB_LAST

instantiation BasicBlockClass :: zero
begin
definition zero_BasicBlockClass :: BasicBlockClass where "zero_BasicBlockClass = BB_TOP"
instance ..
end

text \<open>\<open>0xffffffff\<close> as an \<open>int\<close>.\<close>

definition UNVISITED :: int where
  "UNVISITED = - 1"

definition MAXNONBACKPREDS :: int where
  "MAXNONBACKPREDS = 32 * 1024"

text \<open>
  The finder, with the heaps of the sets and the vectors that the cells of \<open>nonBackPreds\<close> and
  \<open>backPreds\<close> point to.
\<close>

record HavlakLoopFinder =
  f_cfg :: ControlFlowGraph
  f_lsg :: LoopStructureGraph
  nonBackPreds :: "nat vector"
  backPreds :: "nat vector"
  f_number :: "(nat, int) dictionary"
  maxSize :: int
  f_header :: "int vector"
  f_type :: "BasicBlockClass vector"
  f_last :: "int vector"
  f_nodes :: "nat vector"
  f_sets :: "nat \<Rightarrow> int som_set option"
  s_next :: nat
  f_preds :: "nat \<Rightarrow> int vector option"
  p_next :: nat

definition HavlakLoopFinder_init :: "ControlFlowGraph \<Rightarrow> LoopStructureGraph \<Rightarrow> havlak \<Rightarrow> HavlakLoopFinder res" where
  "HavlakLoopFinder_init cfg lsg h =
    rbind (Vector_createDefault 8) (\<lambda>nb.
    rbind (Vector_createDefault 8) (\<lambda>b.
    rbind (Dictionary_create 8 4 (Some (BasicBlock_hash (blocks h)))) (\<lambda>num.
    rbind (Vector_createDefault 4) (\<lambda>hd.
    rbind (Vector_createDefault 4) (\<lambda>ty.
    rbind (Vector_createDefault 4) (\<lambda>la.
    rbind (Vector_createDefault 8) (\<lambda>no.
      Inr \<lparr>f_cfg = cfg, f_lsg = lsg, nonBackPreds = nb, backPreds = b, f_number = num, maxSize = 0, f_header = hd,
           f_type = ty, f_last = la, f_nodes = no, f_sets = Map.empty, s_next = 1, f_preds = Map.empty, p_next = 1\<rparr>)))))))"

text \<open>The loops that dispose the sets of \<open>nonBackPreds\<close> and the vectors of \<open>backPreds\<close>.\<close>

definition dispose_nonBackPreds :: "HavlakLoopFinder \<Rightarrow> HavlakLoopFinder res" where
  "dispose_nonBackPreds me =
    rfold (\<lambda>i me.
        rbind (Vector_at (nonBackPreds me) (int i)) (\<lambda>s.
        rbind (release (f_sets me) s) (\<lambda>ss. Inr (me\<lparr>f_sets := ss\<rparr>))))
      [0..<nat (Vector_size (nonBackPreds me))] me"

definition dispose_backPreds :: "HavlakLoopFinder \<Rightarrow> HavlakLoopFinder res" where
  "dispose_backPreds me =
    rfold (\<lambda>i me.
        rbind (Vector_at (backPreds me) (int i)) (\<lambda>v.
        rbind (release (f_preds me) v) (\<lambda>ps. Inr (me\<lparr>f_preds := ps\<rparr>))))
      [0..<nat (Vector_size (backPreds me))] me"

definition HavlakLoopFinder_deinit :: "HavlakLoopFinder \<times> havlak \<Rightarrow> (HavlakLoopFinder \<times> havlak) res" where
  "HavlakLoopFinder_deinit s =
    rbind (rfold (\<lambda>i (me, h).
        rbind (Vector_at (f_nodes me) (int i)) (\<lambda>n.
        rbind (release (ufs h) n) (\<lambda>us.
        rbind (Vector_atPut (f_nodes me) (int i) 0) (\<lambda>v.
          Inr (me\<lparr>f_nodes := v\<rparr>, h\<lparr>ufs := us\<rparr>)))))
      [0..<nat (Vector_size (f_nodes (fst s)))] s) (\<lambda>(me, h).
    rbind (dispose_nonBackPreds me) (\<lambda>me.
    rbind (dispose_backPreds me) (\<lambda>me. Inr (me, h))))"

text \<open>The dictionary calls the hash function on the key, which reads the block.\<close>

definition number_put :: "nat \<Rightarrow> int \<Rightarrow> HavlakLoopFinder \<times> havlak \<Rightarrow> HavlakLoopFinder res" where
  "number_put b n = (\<lambda>(me, h).
    rbind (load (blocks h) b) (\<lambda>x.
    rbind (Dictionary_atPut b n (f_number me)) (\<lambda>d. Inr (me\<lparr>f_number := d\<rparr>))))"

definition number_at :: "nat \<Rightarrow> HavlakLoopFinder \<times> havlak \<Rightarrow> int option res" where
  "number_at b = (\<lambda>(me, h). rbind (load (blocks h) b) (\<lambda>x. Dictionary_at b (f_number me)))"

definition HavlakLoopFinder_isAncestor :: "HavlakLoopFinder \<Rightarrow> int \<Rightarrow> int \<Rightarrow> bool res" where
  "HavlakLoopFinder_isAncestor me w v =
    (if w \<le> v then rbind (Vector_at (f_last me) w) (\<lambda>l. Inr (v \<le> l)) else Inr False)"

text \<open>One turn of the loop over the out edges; the recursive call is a parameter.\<close>

definition doDFS_step ::
    "(nat \<Rightarrow> int \<Rightarrow> HavlakLoopFinder \<times> havlak \<Rightarrow> (int \<times> HavlakLoopFinder \<times> havlak) res) \<Rightarrow> nat vector \<Rightarrow> nat \<Rightarrow>
      int \<times> HavlakLoopFinder \<times> havlak \<Rightarrow> (int \<times> HavlakLoopFinder \<times> havlak) res" where
  "doDFS_step rec outerBlocks i = (\<lambda>(lastId, s).
    rbind (Vector_at outerBlocks (int i)) (\<lambda>target.
    rbind (number_at target s) (\<lambda>n.
      if n = Some UNVISITED then rbind (c_int (lastId + 1)) (\<lambda>c. rec target c s) else Inr (lastId, s))))"

primrec HavlakLoopFinder_doDFS ::
    "nat \<Rightarrow> nat \<Rightarrow> int \<Rightarrow> HavlakLoopFinder \<times> havlak \<Rightarrow> (int \<times> HavlakLoopFinder \<times> havlak) res" where
  "HavlakLoopFinder_doDFS 0 currentNode current s = Inl OutOfFuel"
| "HavlakLoopFinder_doDFS (Suc k) currentNode current s =
    rbind (Vector_at (f_nodes (fst s)) current) (\<lambda>u.
    rbind (UnionFindNode_initNode u currentNode current (snd s)) (\<lambda>h.
    rbind (number_put currentNode current (fst s, h)) (\<lambda>me.
    rbind (BasicBlock_getOutEdges currentNode h) (\<lambda>outerBlocks.
    rbind (rfold (doDFS_step (HavlakLoopFinder_doDFS k) outerBlocks) [0..<nat (Vector_size outerBlocks)]
      (current, me, h)) (\<lambda>(lastId, me, h).
    rbind (Vector_atPut (f_last me) current lastId) (\<lambda>v.
      Inr (lastId, me\<lparr>f_last := v\<rparr>, h)))))))"

definition HavlakLoopFinder_initAllNodes ::
    "nat \<Rightarrow> HavlakLoopFinder \<times> havlak \<Rightarrow> (HavlakLoopFinder \<times> havlak) res" where
  "HavlakLoopFinder_initAllNodes k = (\<lambda>(me, h).
    let vec = ControlFlowGraph_getBasicBlocks (f_cfg me) in
    rbind (rfold (\<lambda>i me.
        rbind (Vector_at vec (int i)) (\<lambda>bb. number_put bb UNVISITED (me, h))) [0..<nat (Vector_size vec)] me) (\<lambda>me.
    rbind (HavlakLoopFinder_doDFS k (ControlFlowGraph_getStartBasicBlock (f_cfg me)) 0 (me, h)) (\<lambda>(lastId, s).
      Inr s)))"

text \<open>\<open>getNonBackPreds\<close>, and the addition to the set it returns.\<close>

definition getNonBackPreds :: "int \<Rightarrow> HavlakLoopFinder \<Rightarrow> (nat \<times> HavlakLoopFinder) res" where
  "getNonBackPreds i me =
    rbind (Vector_at (nonBackPreds me) i) (\<lambda>s.
      if s = 0 then
        rbind (Set_create 4) (\<lambda>x.
        rbind (Vector_atPut (nonBackPreds me) i (s_next me)) (\<lambda>v.
          Inr (s_next me, me\<lparr>f_sets := (f_sets me)(s_next me \<mapsto> x), s_next := Suc (s_next me), nonBackPreds := v\<rparr>)))
      else Inr (s, me))"

definition addNonBackPred :: "int \<Rightarrow> int \<Rightarrow> HavlakLoopFinder \<Rightarrow> HavlakLoopFinder res" where
  "addNonBackPred i v me =
    rbind (getNonBackPreds i me) (\<lambda>(s, me).
    rbind (load (f_sets me) s) (\<lambda>x.
    rbind (Set_add v x) (\<lambda>x. Inr (me\<lparr>f_sets := (f_sets me)(s \<mapsto> x)\<rparr>))))"

definition HavlakLoopFinder_processEdges_iter ::
    "havlak \<Rightarrow> int \<Rightarrow> nat \<Rightarrow> HavlakLoopFinder \<Rightarrow> HavlakLoopFinder res" where
  "HavlakLoopFinder_processEdges_iter h w nodeV me =
    rbind (number_at nodeV (me, h)) (\<lambda>n.
    case n of
      None \<Rightarrow> Inr me
    | Some v \<Rightarrow>
        if v = UNVISITED then Inr me
        else
          rbind (HavlakLoopFinder_isAncestor me w v) (\<lambda>b.
            if b then
              rbind (Vector_at (backPreds me) w) (\<lambda>tmp.
              rbind (if tmp = 0 then
                  rbind (Vector_createDefault 4) (\<lambda>x.
                  rbind (Vector_atPut (backPreds me) w (p_next me)) (\<lambda>b.
                    Inr (p_next me, me\<lparr>f_preds := (f_preds me)(p_next me \<mapsto> x), p_next := Suc (p_next me), backPreds := b\<rparr>)))
                else Inr (tmp, me)) (\<lambda>(tmp, me).
              rbind (load (f_preds me) tmp) (\<lambda>x.
              rbind (Vector_append x v) (\<lambda>x. Inr (me\<lparr>f_preds := (f_preds me)(tmp \<mapsto> x)\<rparr>)))))
            else addNonBackPred w v me))"

definition HavlakLoopFinder_processEdges :: "nat \<Rightarrow> int \<Rightarrow> HavlakLoopFinder \<times> havlak \<Rightarrow> HavlakLoopFinder res" where
  "HavlakLoopFinder_processEdges nodeW w = (\<lambda>(me, h).
    rbind (BasicBlock_getNumPred nodeW h) (\<lambda>n.
      if n > 0 then
        rbind (BasicBlock_getInEdges nodeW h) (\<lambda>v.
          Vector_forEach v (HavlakLoopFinder_processEdges_iter h w) me)
      else Inr me))"

definition identifyEdges_step :: "havlak \<Rightarrow> nat \<Rightarrow> HavlakLoopFinder \<Rightarrow> HavlakLoopFinder res" where
  "identifyEdges_step h w me =
    rbind (Vector_atPut (f_header me) (int w) 0) (\<lambda>hd.
    rbind (Vector_atPut (f_type me) (int w) BB_NONHEADER) (\<lambda>ty.
    let me = me\<lparr>f_header := hd, f_type := ty\<rparr> in
    rbind (Vector_at (f_nodes me) (int w)) (\<lambda>u.
    rbind (UnionFindNode_getBb u h) (\<lambda>nodeW.
      if nodeW = 0 then rbind (Vector_atPut (f_type me) (int w) BB_DEAD) (\<lambda>ty. Inr (me\<lparr>f_type := ty\<rparr>))
      else HavlakLoopFinder_processEdges nodeW (int w) (me, h)))))"

definition HavlakLoopFinder_identifyEdges :: "int \<Rightarrow> HavlakLoopFinder \<times> havlak \<Rightarrow> HavlakLoopFinder res" where
  "HavlakLoopFinder_identifyEdges sz0 = (\<lambda>(me, h). rfold (identifyEdges_step h) [0..<nat sz0] me)"

section \<open>Finding loops\<close>

text \<open>
  The state of the search at one header \<open>w\<close>: the finder, the heaps, the node pool and the work list.
  The iteration over a set of non-back predecessors reads the set again in each turn, since the
  callback may add to it.
\<close>

type_synonym search = "HavlakLoopFinder \<times> havlak \<times> nat vector \<times> nat vector"

definition HavlakLoopFinder_stepEProcessNonBackPreds_iter_iter :: "nat \<Rightarrow> nat \<Rightarrow> bool" where
  "HavlakLoopFinder_stepEProcessNonBackPreds_iter_iter ydash e \<longleftrightarrow> e = ydash"

definition HavlakLoopFinder_stepEProcessNonBackPreds_iter :: "nat \<Rightarrow> int \<Rightarrow> int \<Rightarrow> search \<Rightarrow> search res" where
  "HavlakLoopFinder_stepEProcessNonBackPreds_iter k w iter = (\<lambda>(me, h, nodePool, workList).
    rbind (Vector_at (f_nodes me) iter) (\<lambda>y.
    rbind (UnionFindNode_findSet k y h) (\<lambda>(ydash, h).
    rbind (UnionFindNode_getDfsNumber ydash h) (\<lambda>d.
    rbind (HavlakLoopFinder_isAncestor me w d) (\<lambda>b.
      if \<not> b then
        rbind (Vector_atPut (f_type me) w BB_IRREDUCIBLE) (\<lambda>ty.
        rbind (addNonBackPred w d (me\<lparr>f_type := ty\<rparr>)) (\<lambda>me. Inr (me, h, nodePool, workList)))
      else if d \<noteq> w then
        rbind (Vector_hasSome nodePool (HavlakLoopFinder_stepEProcessNonBackPreds_iter_iter ydash)) (\<lambda>b.
          if \<not> b then
            rbind (Vector_append workList ydash) (\<lambda>workList.
            rbind (Vector_append nodePool ydash) (\<lambda>nodePool.
              Inr (me, h, nodePool, workList)))
          else Inr (me, h, nodePool, workList))
      else Inr (me, h, nodePool, workList))))))"

fun nonBackPreds_loop :: "nat \<Rightarrow> int \<Rightarrow> nat \<Rightarrow> nat \<Rightarrow> search \<Rightarrow> search res" where
  "nonBackPreds_loop 0 w s i st = Inl OutOfFuel"
| "nonBackPreds_loop (Suc k) w s i st =
    rbind (load (f_sets (fst st)) s) (\<lambda>x.
      if i < lastIdx (items x) then
        rbind (cell (items x) (int i)) (\<lambda>e.
        rbind (HavlakLoopFinder_stepEProcessNonBackPreds_iter (Suc k) w e st) (\<lambda>st.
          nonBackPreds_loop k w s (Suc i) st))
      else Inr st)"

definition HavlakLoopFinder_stepEProcessNonBackPreds :: "nat \<Rightarrow> int \<Rightarrow> nat \<Rightarrow> search \<Rightarrow> search res" where
  "HavlakLoopFinder_stepEProcessNonBackPreds k w x = (\<lambda>(me, h, nodePool, workList).
    rbind (UnionFindNode_getDfsNumber x h) (\<lambda>d.
    rbind (Vector_at (nonBackPreds me) d) (\<lambda>s.
      if s \<noteq> 0 then
        rbind (load (f_sets me) s) (\<lambda>v. nonBackPreds_loop k w s (firstIdx (items v)) (me, h, nodePool, workList))
      else Inr (me, h, nodePool, workList))))"

definition HavlakLoopFinder_stepD_iter ::
    "nat \<Rightarrow> int \<Rightarrow> int \<Rightarrow> HavlakLoopFinder \<times> havlak \<times> nat vector \<Rightarrow> (HavlakLoopFinder \<times> havlak \<times> nat vector) res" where
  "HavlakLoopFinder_stepD_iter k w v = (\<lambda>(me, h, nodePool).
    if v \<noteq> w then
      rbind (Vector_at (f_nodes me) v) (\<lambda>u.
      rbind (UnionFindNode_findSet k u h) (\<lambda>(tmp, h).
      rbind (Vector_append nodePool tmp) (\<lambda>nodePool. Inr (me, h, nodePool))))
    else rbind (Vector_atPut (f_type me) w BB_SELF) (\<lambda>ty. Inr (me\<lparr>f_type := ty\<rparr>, h, nodePool)))"

definition HavlakLoopFinder_stepD ::
    "nat \<Rightarrow> int \<Rightarrow> HavlakLoopFinder \<times> havlak \<times> nat vector \<Rightarrow> (HavlakLoopFinder \<times> havlak \<times> nat vector) res" where
  "HavlakLoopFinder_stepD k w = (\<lambda>(me, h, nodePool).
    rbind (Vector_at (backPreds me) w) (\<lambda>p.
      if p \<noteq> 0 then
        rbind (load (f_preds me) p) (\<lambda>v. Vector_forEach v (HavlakLoopFinder_stepD_iter k w) (me, h, nodePool))
      else Inr (me, h, nodePool)))"

definition HavlakLoopFinder_setLoopAttributes_iter ::
    "int \<Rightarrow> nat \<Rightarrow> nat \<Rightarrow> HavlakLoopFinder \<times> havlak \<Rightarrow> (HavlakLoopFinder \<times> havlak) res" where
  "HavlakLoopFinder_setLoopAttributes_iter w l node = (\<lambda>(me, h).
    rbind (UnionFindNode_getDfsNumber node h) (\<lambda>d.
    rbind (Vector_atPut (f_header me) d w) (\<lambda>hd.
    let me = me\<lparr>f_header := hd\<rparr> in
    rbind (Vector_at (f_nodes me) w) (\<lambda>u.
    rbind (UnionFindNode_unite node u h) (\<lambda>h.
    rbind (UnionFindNode_getLoop node h) (\<lambda>nl.
    rbind (if nl \<noteq> 0 then SimpleLoop_setParent nl l h
           else rbind (UnionFindNode_getBb node h) (\<lambda>bb. SimpleLoop_addNode l bb h)) (\<lambda>h.
      Inr (me, h))))))))"

definition HavlakLoopFinder_setLoopAttributes ::
    "int \<Rightarrow> nat vector \<Rightarrow> nat \<Rightarrow> HavlakLoopFinder \<times> havlak \<Rightarrow> (HavlakLoopFinder \<times> havlak) res" where
  "HavlakLoopFinder_setLoopAttributes w nodePool l = (\<lambda>(me, h).
    rbind (Vector_at (f_nodes me) w) (\<lambda>u.
    rbind (UnionFindNode_setLoop u l h) (\<lambda>h.
      Vector_forEach nodePool (HavlakLoopFinder_setLoopAttributes_iter w l) (me, h))))"

definition HavlakLoopFinder_findLoops_iter :: "nat \<Rightarrow> nat vector \<Rightarrow> nat vector res" where
  "HavlakLoopFinder_findLoops_iter niter workList = Vector_append workList niter"

text \<open>The \<open>while\<close> loop over the work list; the result says whether the algorithm goes on.\<close>

fun workList_loop :: "nat \<Rightarrow> int \<Rightarrow> search \<Rightarrow> (bool \<times> search) res" where
  "workList_loop 0 w st = Inl OutOfFuel"
| "workList_loop (Suc k) w (me, h, nodePool, workList) =
    (if Vector_isEmpty workList then Inr (True, me, h, nodePool, workList)
     else
       rbind (Vector_removeFirst workList) (\<lambda>(x, workList).
       rbind (UnionFindNode_getDfsNumber x h) (\<lambda>d.
       rbind (Vector_at (nonBackPreds me) d) (\<lambda>s.
       rbind (if s = 0 then Inr None else rbind (load (f_sets me) s) (\<lambda>x. Inr (Some x))) (\<lambda>set.
         if Set_size set > MAXNONBACKPREDS then Inr (False, me, h, nodePool, workList)
         else
           rbind (HavlakLoopFinder_stepEProcessNonBackPreds (Suc k) w x (me, h, nodePool, workList)) (\<lambda>st.
             workList_loop k w st))))))"

text \<open>One turn of the loop of step c.\<close>

definition findLoops_step :: "nat \<Rightarrow> int \<Rightarrow> HavlakLoopFinder \<times> havlak \<Rightarrow> (bool \<times> HavlakLoopFinder \<times> havlak) res" where
  "findLoops_step k w = (\<lambda>(me, h).
    rbind (Vector_createDefault 8) (\<lambda>nodePool.
    rbind (Vector_at (f_nodes me) w) (\<lambda>u.
    rbind (UnionFindNode_getBb u h) (\<lambda>nodeW.
      if nodeW = 0 then Inr (True, me, h)
      else
        rbind (HavlakLoopFinder_stepD k w (me, h, nodePool)) (\<lambda>(me, h, nodePool).
        rbind (Vector_createDefault 8) (\<lambda>workList.
        rbind (Vector_forEach nodePool HavlakLoopFinder_findLoops_iter workList) (\<lambda>workList.
        rbind (if Vector_size nodePool \<noteq> 0
               then rbind (Vector_atPut (f_type me) w BB_REDUCIBLE) (\<lambda>ty. Inr (me\<lparr>f_type := ty\<rparr>))
               else Inr me) (\<lambda>me.
        rbind (workList_loop k w (me, h, nodePool, workList)) (\<lambda>(go_on, me, h, nodePool, workList).
          if \<not> go_on then Inr (False, me, h)
          else
            rbind (Vector_at (f_type me) w) (\<lambda>t.
              if Vector_size nodePool > 0 \<or> t = BB_SELF then
                rbind (LoopStructureGraph_createNewLoop nodeW (t \<noteq> BB_IRREDUCIBLE) (f_lsg me, h)) (\<lambda>(l, lsg, h).
                rbind (HavlakLoopFinder_setLoopAttributes w nodePool l (me\<lparr>f_lsg := lsg\<rparr>, h)) (\<lambda>(me, h).
                  Inr (True, me, h)))
              else Inr (True, me, h)))))))))))"

fun findLoops_loop :: "nat \<Rightarrow> int list \<Rightarrow> HavlakLoopFinder \<times> havlak \<Rightarrow> (HavlakLoopFinder \<times> havlak) res" where
  "findLoops_loop k [] s = Inr s"
| "findLoops_loop k (w # ws) s =
    rbind (findLoops_step k w s) (\<lambda>(go_on, s). if go_on then findLoops_loop k ws s else Inr s)"

text \<open>\<open>Vector_expand\<close> on the six vectors.\<close>

definition findLoops_expand :: "int \<Rightarrow> HavlakLoopFinder \<Rightarrow> HavlakLoopFinder res" where
  "findLoops_expand n me =
    (if n > maxSize me then
       rbind (Vector_expand (f_header me) n) (\<lambda>hd.
       rbind (Vector_expand (f_type me) n) (\<lambda>ty.
       rbind (Vector_expand (f_last me) n) (\<lambda>la.
       rbind (Vector_expand (f_nodes me) n) (\<lambda>no.
       rbind (Vector_expand (backPreds me) n) (\<lambda>b.
       rbind (Vector_expand (nonBackPreds me) n) (\<lambda>nb.
         Inr (me\<lparr>f_header := hd, f_type := ty, f_last := la, f_nodes := no, backPreds := b, nonBackPreds := nb,
                 maxSize := n\<rparr>)))))))
     else Inr me)"

definition findLoops_node :: "nat \<Rightarrow> HavlakLoopFinder \<times> havlak \<Rightarrow> (HavlakLoopFinder \<times> havlak) res" where
  "findLoops_node i = (\<lambda>(me, h).
    let (tmp, h) = UnionFindNode_create h in
    rbind (Vector_atPut (f_nodes me) (int i) tmp) (\<lambda>v. Inr (me\<lparr>f_nodes := v\<rparr>, h)))"

text \<open>Everything up to the depth-first search.\<close>

definition findLoops_prepare :: "HavlakLoopFinder \<times> havlak \<Rightarrow> (HavlakLoopFinder \<times> havlak) res" where
  "findLoops_prepare = (\<lambda>(me, h).
    let n = ControlFlowGraph_getNumNodes (f_cfg me) in
    rbind (dispose_nonBackPreds me) (\<lambda>me.
    rbind (dispose_backPreds (me\<lparr>nonBackPreds := Vector_removeAll (nonBackPreds me)\<rparr>)) (\<lambda>me.
    let me = me\<lparr>backPreds := Vector_removeAll (backPreds me)\<rparr> in
    rbind (Dictionary_removeAll (f_number me)) (\<lambda>d.
    rbind (findLoops_expand n (me\<lparr>f_number := d\<rparr>)) (\<lambda>me.
      rfold findLoops_node [0..<nat n] (me, h))))))"

definition HavlakLoopFinder_findLoops :: "nat \<Rightarrow> HavlakLoopFinder \<times> havlak \<Rightarrow> (HavlakLoopFinder \<times> havlak) res" where
  "HavlakLoopFinder_findLoops k = (\<lambda>(me, h).
    if ControlFlowGraph_getStartBasicBlock (f_cfg me) = 0 then Inr (me, h)
    else
      let n = ControlFlowGraph_getNumNodes (f_cfg me) in
      rbind (findLoops_prepare (me, h)) (\<lambda>s.
      rbind (HavlakLoopFinder_initAllNodes k s) (\<lambda>s.
      rbind (HavlakLoopFinder_identifyEdges n s) (\<lambda>me.
      rbind (Vector_atPut (f_header me) 0 0) (\<lambda>hd.
        findLoops_loop k (map int (rev [0..<nat n])) (me\<lparr>f_header := hd\<rparr>, snd s))))))"

section \<open>The benchmark\<close>

record LoopTesterApp =
  app_cfg :: ControlFlowGraph
  app_lsg :: LoopStructureGraph

definition on_cfg :: "(ControlFlowGraph \<times> havlak \<Rightarrow> (ControlFlowGraph \<times> havlak) res) \<Rightarrow>
    LoopTesterApp \<times> havlak \<Rightarrow> (LoopTesterApp \<times> havlak) res" where
  "on_cfg f = (\<lambda>(me, h). rbind (f (app_cfg me, h)) (\<lambda>(cfg, h). Inr (me\<lparr>app_cfg := cfg\<rparr>, h)))"

definition app_node :: "int \<Rightarrow> LoopTesterApp \<times> havlak \<Rightarrow> (LoopTesterApp \<times> havlak) res" where
  "app_node nm = on_cfg (\<lambda>s. rbind (ControlFlowGraph_createNode nm s) (\<lambda>(node, s). Inr s))"

definition app_edge :: "int \<Rightarrow> int \<Rightarrow> LoopTesterApp \<times> havlak \<Rightarrow> (LoopTesterApp \<times> havlak) res" where
  "app_edge a b = on_cfg (BasicBlockEdge_create a b)"

definition LoopTesterApp_init :: "havlak \<Rightarrow> (LoopTesterApp \<times> havlak) res" where
  "LoopTesterApp_init h =
    rbind ControlFlowGraph_create (\<lambda>cfg.
    rbind (LoopStructureGraph_create h) (\<lambda>(lsg, h).
      app_node 0 (\<lparr>app_cfg = cfg, app_lsg = lsg\<rparr>, h)))"

definition LoopTesterApp_deinit :: "LoopTesterApp \<times> havlak \<Rightarrow> havlak res" where
  "LoopTesterApp_deinit = (\<lambda>(me, h).
    rbind (LoopStructureGraph_dispose (app_lsg me) h) (\<lambda>h. ControlFlowGraph_dispose (app_cfg me) h))"

definition LoopTesterApp_buildDiamond :: "int \<Rightarrow> LoopTesterApp \<times> havlak \<Rightarrow> (int \<times> LoopTesterApp \<times> havlak) res" where
  "LoopTesterApp_buildDiamond start s =
    (let bb0 = start in
     rbind (c_int (bb0 + 1)) (\<lambda>b1. rbind (app_edge bb0 b1 s) (\<lambda>s.
     rbind (c_int (bb0 + 2)) (\<lambda>b2. rbind (app_edge bb0 b2 s) (\<lambda>s.
     rbind (c_int (bb0 + 3)) (\<lambda>b3. rbind (app_edge b1 b3 s) (\<lambda>s.
     rbind (app_edge b2 b3 s) (\<lambda>s.
       Inr (b3, s)))))))))"

definition LoopTesterApp_buildConnect :: "int \<Rightarrow> int \<Rightarrow> LoopTesterApp \<times> havlak \<Rightarrow> (LoopTesterApp \<times> havlak) res" where
  "LoopTesterApp_buildConnect start stop s = app_edge start stop s"

definition LoopTesterApp_buildStraight ::
    "int \<Rightarrow> nat \<Rightarrow> LoopTesterApp \<times> havlak \<Rightarrow> (int \<times> LoopTesterApp \<times> havlak) res" where
  "LoopTesterApp_buildStraight start n s =
    rbind (rfold (\<lambda>i s.
      rbind (c_int (start + int i)) (\<lambda>a. rbind (c_int (a + 1)) (\<lambda>b. LoopTesterApp_buildConnect a b s))) [0..<n] s) (\<lambda>s.
    rbind (c_int (start + int n)) (\<lambda>r. Inr (r, s)))"

definition LoopTesterApp_buildBaseLoop :: "int \<Rightarrow> LoopTesterApp \<times> havlak \<Rightarrow> (int \<times> LoopTesterApp \<times> havlak) res" where
  "LoopTesterApp_buildBaseLoop from s =
    rbind (LoopTesterApp_buildStraight from 1 s) (\<lambda>(header, s).
    rbind (LoopTesterApp_buildDiamond header s) (\<lambda>(diamond1, s).
    rbind (LoopTesterApp_buildStraight diamond1 1 s) (\<lambda>(d11, s).
    rbind (LoopTesterApp_buildDiamond d11 s) (\<lambda>(diamond2, s).
    rbind (LoopTesterApp_buildStraight diamond2 1 s) (\<lambda>(footer, s).
    rbind (LoopTesterApp_buildConnect diamond2 d11 s) (\<lambda>s.
    rbind (LoopTesterApp_buildConnect diamond1 header s) (\<lambda>s.
    rbind (LoopTesterApp_buildConnect footer from s) (\<lambda>s.
      LoopTesterApp_buildStraight footer 1 s))))))))"

definition LoopTesterApp_constructSimpleCFG :: "LoopTesterApp \<times> havlak \<Rightarrow> (LoopTesterApp \<times> havlak) res" where
  "LoopTesterApp_constructSimpleCFG s =
    rbind (app_node 0 s) (\<lambda>s.
    rbind (LoopTesterApp_buildBaseLoop 0 s) (\<lambda>(footer, s).
    rbind (app_node 1 s) (\<lambda>s.
      app_edge 0 2 s)))"

definition LoopTesterApp_findLoops ::
    "nat \<Rightarrow> LoopStructureGraph \<Rightarrow> LoopTesterApp \<times> havlak \<Rightarrow> (LoopStructureGraph \<times> havlak) res" where
  "LoopTesterApp_findLoops k loopStructure = (\<lambda>(me, h).
    rbind (HavlakLoopFinder_init (app_cfg me) loopStructure h) (\<lambda>finder.
    rbind (HavlakLoopFinder_findLoops k (finder, h)) (\<lambda>s.
    rbind (HavlakLoopFinder_deinit s) (\<lambda>(finder, h).
      Inr (f_lsg finder, h)))))"

text \<open>\<open>LoopTesterApp_findLoops(me, me->lsg)\<close>\<close>

definition find_own_loops :: "nat \<Rightarrow> LoopTesterApp \<times> havlak \<Rightarrow> (LoopTesterApp \<times> havlak) res" where
  "find_own_loops k = (\<lambda>(me, h).
    rbind (LoopTesterApp_findLoops k (app_lsg me) (me, h)) (\<lambda>(lsg, h). Inr (me\<lparr>app_lsg := lsg\<rparr>, h)))"

definition LoopTesterApp_addDummyLoops :: "nat \<Rightarrow> int \<Rightarrow> LoopTesterApp \<times> havlak \<Rightarrow> (LoopTesterApp \<times> havlak) res" where
  "LoopTesterApp_addDummyLoops k numDummyLoops = rfold (\<lambda>i. find_own_loops k) [0..<nat numDummyLoops]"

definition construct_inner :: "nat \<Rightarrow> int \<times> LoopTesterApp \<times> havlak \<Rightarrow> (int \<times> LoopTesterApp \<times> havlak) res" where
  "construct_inner ppparLoops = (\<lambda>(n, s).
    let top = n in
    rbind (LoopTesterApp_buildStraight n 1 s) (\<lambda>(n, s).
    rbind (rfold (\<lambda>j (n, s). LoopTesterApp_buildBaseLoop n s) [0..<ppparLoops] (n, s)) (\<lambda>(n, s).
    rbind (LoopTesterApp_buildStraight n 1 s) (\<lambda>(bottom, s).
    rbind (LoopTesterApp_buildConnect n top s) (\<lambda>s.
      Inr (bottom, s))))))"

definition construct_outer :: "nat \<Rightarrow> nat \<Rightarrow> int \<times> LoopTesterApp \<times> havlak \<Rightarrow> (int \<times> LoopTesterApp \<times> havlak) res" where
  "construct_outer pparLoops ppparLoops = (\<lambda>(n, s).
    rbind (c_int (n + 1)) (\<lambda>n1.
    rbind (app_node n1 s) (\<lambda>s.
    rbind (LoopTesterApp_buildConnect 2 n1 s) (\<lambda>s.
    rbind (rfold (\<lambda>i. construct_inner ppparLoops) [0..<pparLoops] (n1, s)) (\<lambda>(n, s).
    rbind (LoopTesterApp_buildConnect n 1 s) (\<lambda>s.
      Inr (n, s)))))))"

definition LoopTesterApp_constructCFG ::
    "nat \<Rightarrow> nat \<Rightarrow> nat \<Rightarrow> LoopTesterApp \<times> havlak \<Rightarrow> (LoopTesterApp \<times> havlak) res" where
  "LoopTesterApp_constructCFG parLoops pparLoops ppparLoops s =
    rbind (rfold (\<lambda>i. construct_outer pparLoops ppparLoops) [0..<parLoops] (2, s)) (\<lambda>(n, s). Inr s)"

text \<open>The result is \<open>NumLoops\<close> and \<open>NumNodes\<close>; the vector \<open>toDelete\<close> is the list of its loop structures.\<close>

definition LoopTesterApp_main ::
    "nat \<Rightarrow> int \<Rightarrow> int \<Rightarrow> nat \<Rightarrow> nat \<Rightarrow> nat \<Rightarrow> LoopTesterApp \<times> havlak \<Rightarrow> (int \<times> int \<times> LoopTesterApp \<times> havlak) res" where
  "LoopTesterApp_main k numDummyLoops findLoopIterations parLoops pparLoops ppparLoops s =
    rbind (LoopTesterApp_constructSimpleCFG s) (\<lambda>s.
    rbind (LoopTesterApp_addDummyLoops k numDummyLoops s) (\<lambda>s.
    rbind (LoopTesterApp_constructCFG parLoops pparLoops ppparLoops s) (\<lambda>s.
    rbind (find_own_loops k s) (\<lambda>s.
    rbind (rfold (\<lambda>i (toDelete, me, h).
        rbind (LoopStructureGraph_create h) (\<lambda>(l, h).
        rbind (LoopTesterApp_findLoops k l (me, h)) (\<lambda>(l, h). Inr (toDelete @ [l], me, h))))
      [0..<nat findLoopIterations] ([], s)) (\<lambda>(toDelete, me, h).
    rbind (LoopStructureGraph_calculateNestingLevel k (app_lsg me) h) (\<lambda>h.
    rbind (rfold LoopStructureGraph_dispose toDelete h) (\<lambda>h.
      Inr (LoopStructureGraph_getNumLoops (app_lsg me), ControlFlowGraph_getNumNodes (app_cfg me), me, h))))))))"

definition Havlak_verifyResult :: "int \<Rightarrow> int \<Rightarrow> int \<Rightarrow> bool" where
  "Havlak_verifyResult a b innerIterations =
    (if innerIterations = 15000 then a = 46602 \<and> b = 5213
     else if innerIterations = 1500 then a = 6102 \<and> b = 5213
     else if innerIterations = 150 then a = 2052 \<and> b = 5213
     else if innerIterations = 15 then a = 1647 \<and> b = 5213
     else if innerIterations = 1 then a = 1605 \<and> b = 5213
     else False)"

definition Havlak_innerBenchmarkLoop :: "nat \<Rightarrow> int \<Rightarrow> havlak \<Rightarrow> (bool \<times> havlak) res" where
  "Havlak_innerBenchmarkLoop k innerIterations h =
    rbind (LoopTesterApp_init h) (\<lambda>s.
    rbind (LoopTesterApp_main k innerIterations 50 10 10 5 s) (\<lambda>(numLoops, numNodes, s).
    rbind (LoopTesterApp_deinit s) (\<lambda>h.
      Inr (Havlak_verifyResult numLoops numNodes innerIterations, h))))"

definition havlak_benchmark :: "havlak \<Rightarrow> (int \<times> havlak) res" where
  "havlak_benchmark h = Inl AssertFailed"

definition havlak_verifyResult :: "int \<Rightarrow> bool res" where
  "havlak_verifyResult result = Inl AssertFailed"

definition no_heap :: havlak where
  "no_heap = \<lparr>blocks = Map.empty, b_next = 1, edges = Map.empty, e_next = 1, sloops = Map.empty, l_next = 1,
     ufs = Map.empty, u_next = 1\<rparr>"


end
