(* ===== verification/HavlakUnion.thy ===== *)
theory HavlakUnion
  imports AwfyHavlak
begin

text \<open>
  The union-find structure of \<open>Havlak.c\<close>: what \<open>UnionFindNode_findSet\<close> returns and what its path
  compression does to the paths. The compression links nodes to the parent of the node it started
  from, that parent itself included, so that a path of four nodes or more falls into two.
\<close>

section \<open>Paths\<close>

text \<open>\<open>uf_path u ps\<close>: the nodes \<open>ps\<close>, each the parent of the one before, up to a root.\<close>

fun uf_path :: "(nat \<Rightarrow> UnionFindNode option) \<Rightarrow> nat list \<Rightarrow> bool" where
  "uf_path u [] \<longleftrightarrow> False"
| "uf_path u [r] \<longleftrightarrow> r \<noteq> 0 \<and> (\<exists>x. u r = Some x \<and> u_parent x = r)"
| "uf_path u (a # b # ps) \<longleftrightarrow> a \<noteq> 0 \<and> a \<noteq> b \<and> (\<exists>x. u a = Some x \<and> u_parent x = b) \<and> uf_path u (b # ps)"

lemma getParent_Some: "p \<noteq> 0 \<Longrightarrow> ufs h p = Some x \<Longrightarrow> UnionFindNode_getParent p h = Inr (u_parent x)"
  by (simp add: UnionFindNode_getParent_def load_def)

lemma uf_path_parent: "uf_path (ufs h) (p # ps) \<Longrightarrow> UnionFindNode_getParent p h = Inr (case ps of [] \<Rightarrow> p | q # _ \<Rightarrow> q)"
  by (cases ps) (auto simp: getParent_Some)

lemma uf_path_dom: "uf_path u ps \<Longrightarrow> q \<in> set ps \<Longrightarrow> q \<noteq> 0 \<and> q \<in> dom u"
  by (induction u ps rule: uf_path.induct) auto

lemma uf_path_tl: "uf_path u (a # b # ps) \<Longrightarrow> uf_path u (b # ps)"
  by simp

lemma findSet_loop_path:
  "uf_path (ufs h) (p # ps) \<Longrightarrow> distinct (p # ps) \<Longrightarrow> vrep v xs \<Longrightarrow> vroom v (length ps) \<Longrightarrow> length ps < k \<Longrightarrow>
    \<exists>v'. findSet_loop k p v h = Inr (last (p # ps), v') \<and> vrep v' (xs @ butlast (butlast (p # ps)))"
proof (induction ps arbitrary: p v xs k)
  case Nil
  then show ?case using uf_path_parent [of h p "[]"] by (cases k) auto
next
  case (Cons q ps)
  obtain l where l: "k = Suc l" using Cons.prems by (cases k) auto
  have p: "UnionFindNode_getParent p h = Inr q" "p \<noteq> q" using uf_path_parent [OF Cons.prems(1)] Cons.prems(2) by auto
  have path: "uf_path (ufs h) (q # ps)" "distinct (q # ps)" using Cons.prems by auto
  have q: "UnionFindNode_getParent q h = Inr (case ps of [] \<Rightarrow> q | r # _ \<Rightarrow> r)" by (rule uf_path_parent [OF path(1)])
  show ?case
  proof (cases ps)
    case Nil
    with l p q Cons.prems path show ?thesis using Cons.IH [OF path Cons.prems(3) _, of l] by (auto intro: vroom_mono)
  next
    case (Cons r rs)
    obtain w where w: "Vector_append v p = Inr w" "vrep w (xs @ [p])" "vroom w (length ps)"
      using Vector_append_vrep [OF Cons.prems(3), of "length ps" p] Cons.prems(4) by auto
    have "q \<noteq> r" using path Cons by auto
    moreover obtain v' where "findSet_loop l q w h = Inr (last (q # ps), v')" "vrep v' ((xs @ [p]) @ butlast (butlast (q # ps)))"
      using Cons.IH [OF path w(2,3), of l] Cons.prems(5) l by auto
    ultimately show ?thesis using l p q w(1) Cons by auto
  qed
qed

lemma compress_forEach:
  "\<forall>q \<in> set qs. q \<noteq> 0 \<and> q \<in> dom (ufs h) \<Longrightarrow>
    rfold (UnionFindNode_findSet_iter r) qs h =
    Inr (h\<lparr>ufs := (\<lambda>q. if q \<in> set qs then map_option (\<lambda>x. x\<lparr>u_parent := r\<rparr>) (ufs h q) else ufs h q)\<rparr>)"
proof (induction qs arbitrary: h)
  case (Cons q qs)
  then obtain x where x: "ufs h q = Some x" "q \<noteq> 0" by auto
  let ?h = "set_uf q (x\<lparr>u_parent := r\<rparr>) h"
  have "rfold (UnionFindNode_findSet_iter r) qs ?h =
    Inr (?h\<lparr>ufs := (\<lambda>q. if q \<in> set qs then map_option (\<lambda>x. x\<lparr>u_parent := r\<rparr>) (ufs ?h q) else ufs ?h q)\<rparr>)"
    using Cons.prems by (intro Cons.IH) (auto simp: set_uf_def)
  moreover have "UnionFindNode_findSet_iter r q h = Inr ?h"
    using x by (simp add: UnionFindNode_findSet_iter_def UnionFindNode_unite_def load_def)
  ultimately show ?case using x by (auto simp: set_uf_def fun_eq_iff)
qed simp

text \<open>The heap after the compression of a path.\<close>

definition compressed :: "nat list \<Rightarrow> havlak \<Rightarrow> havlak" where
  "compressed ps h = h\<lparr>ufs := (\<lambda>q. if q \<in> set (butlast (butlast ps))
     then map_option (\<lambda>x. x\<lparr>u_parent := ps ! 1\<rparr>) (ufs h q) else ufs h q)\<rparr>"

lemma findSet_path:
  assumes path: "uf_path (ufs h) ps" "distinct ps" and k: "length ps \<le> k" and room: "(2 * length ps + 50) * 8 \<le> nat INT_MAX"
  shows "UnionFindNode_findSet k (hd ps) h = Inr (last ps, compressed ps h)"
proof -
  obtain p qs where ps: "ps = p # qs" using path(1) by (cases ps) auto
  obtain v :: "nat vector" where v: "Vector_createDefault 8 = Inr v" "vrep v []" "lastIdx v = 0" "elemSize v = 8"
    using Vector_createDefault_vrep [of 8] by auto
  have "vroom v (length qs)" using v room ps by (simp add: vroom_def INT_MAX_def)
  then obtain v' where v': "findSet_loop k p v h = Inr (last ps, v')" "vrep v' (butlast (butlast ps))"
    using findSet_loop_path [of h p qs v "[]" k] path k v(2) ps by auto
  have parent: "UnionFindNode_getParent p h = Inr (case qs of [] \<Rightarrow> p | q # _ \<Rightarrow> q)"
    using uf_path_parent [of h p qs] path(1) ps by simp
  have "set (butlast (butlast ps)) \<subseteq> set ps" by (meson in_set_butlastD subsetI)
  then have "rfold (UnionFindNode_findSet_iter r) (butlast (butlast ps)) h =
    Inr (h\<lparr>ufs := (\<lambda>q. if q \<in> set (butlast (butlast ps)) then map_option (\<lambda>x. x\<lparr>u_parent := r\<rparr>) (ufs h q) else ufs h q)\<rparr>)" for r
    using uf_path_dom [OF path(1)] by (intro compress_forEach) auto
  then have each: "Vector_forEach v' (UnionFindNode_findSet_iter r) h =
    Inr (h\<lparr>ufs := (\<lambda>q. if q \<in> set (butlast (butlast ps)) then map_option (\<lambda>x. x\<lparr>u_parent := r\<rparr>) (ufs h q) else ufs h q)\<rparr>)" for r
    by (simp only: Vector_forEach_vrep [OF v'(2)])
  show ?thesis
  proof (cases qs)
    case Nil
    then show ?thesis using v(1) v'(1) parent each by (simp add: UnionFindNode_findSet_def ps compressed_def)
  next
    case (Cons q rs)
    then have "ps ! 1 = q" by (simp add: ps)
    with Cons show ?thesis using v(1) v'(1) parent each [of q] ps
      by (simp only: UnionFindNode_findSet_def compressed_def list.sel rbind.simps prod.case list.case)
  qed
qed

section \<open>After the compression\<close>

lemma uf_path_cong: "(\<And>q. q \<in> set ps \<Longrightarrow> u q = u' q) \<Longrightarrow> uf_path u ps = uf_path u' ps"
  by (induction u ps rule: uf_path.induct) auto

lemma uf_path_suffix: "uf_path u (ps @ qs) \<Longrightarrow> qs \<noteq> [] \<Longrightarrow> uf_path u qs"
proof (induction ps)
  case (Cons p ps)
  then show ?case by (cases "ps @ qs") auto
qed simp

lemma butlast_butlast: "length xs = n \<Longrightarrow> butlast (butlast (xs @ [a, b])) = xs"
  by (simp add: butlast_append)

lemma path_shapes:
  assumes "uf_path u ps"
  shows "(\<exists>r. ps = [r]) \<or> (\<exists>a b. ps = [a, b]) \<or> (\<exists>p a b. ps = [p, a, b]) \<or> (\<exists>p q rs a b. ps = p # q # rs @ [a, b])"
proof -
  obtain p qs where ps: "ps = p # qs" using assms by (cases ps) auto
  show ?thesis
  proof (cases qs)
    case (Cons q rs)
    then show ?thesis
    proof (cases rs rule: rev_cases)
      case (snoc ss b)
      with ps Cons show ?thesis by (cases ss rule: rev_cases) auto
    qed (simp add: ps)
  qed (simp add: ps)
qed

text \<open>The last two nodes of a path keep their path.\<close>

lemma compressed_end:
  assumes path: "uf_path (ufs h) (ps @ [a, b])" "distinct (ps @ [a, b])"
  shows "uf_path (ufs (compressed (ps @ [a, b]) h)) [a, b]" "uf_path (ufs (compressed (ps @ [a, b]) h)) [b]"
proof -
  have "uf_path (ufs h) [a, b]" using uf_path_suffix [OF path(1)] by simp
  moreover have "a \<notin> set ps" "b \<notin> set ps" using path(2) by auto
  ultimately show "uf_path (ufs (compressed (ps @ [a, b]) h)) [a, b]" "uf_path (ufs (compressed (ps @ [a, b]) h)) [b]"
    by (auto simp: compressed_def butlast_append)
qed

text \<open>The others end at the second node of the path.\<close>

lemma compressed_start:
  assumes path: "uf_path (ufs h) (p # q # ps @ [a, b])" "distinct (p # q # ps @ [a, b])" and r: "r \<in> set (p # q # ps)"
  shows "uf_path (ufs (compressed (p # q # ps @ [a, b]) h)) (if r = q then [q] else [r, q])"
proof -
  have but: "butlast (butlast (p # q # ps @ [a, b])) = p # q # ps" by (simp add: butlast_append)
  have dom: "s \<noteq> 0 \<and> (\<exists>x. ufs h s = Some x)" if "s \<in> set (p # q # ps)" for s
    using uf_path_dom [OF path(1), of s] that by auto
  show ?thesis using dom [of r] dom [of q] r unfolding compressed_def but by auto
qed

text \<open>C25: \<open>UnionFindNode_findSet\<close> returns the root at the end of the path of parents, but its path compression
  links every node except the last two to the parent of the first one, that parent included: when
  the path has four nodes or more, the parent becomes a root of its own, and from then on
  \<open>findSet\<close> finds it, and not the root, from all nodes except the last two. Shorter paths keep
  their root.
\<close>

theorem findSet_splits_long_paths:
  assumes "uf_path (ufs h) ps" "distinct ps" "length ps \<le> k" "(2 * length ps + 50) * 8 \<le> nat INT_MAX" "2 \<le> k"
  shows "\<exists>h'. UnionFindNode_findSet k (hd ps) h = Inr (last ps, h') \<and>
    (\<forall>q \<in> set ps. \<exists>h''. UnionFindNode_findSet k q h' =
      Inr (if 4 \<le> length ps \<and> q \<notin> {last ps, last (butlast ps)} then ps ! 1 else last ps, h'')) \<and>
    (4 \<le> length ps \<longrightarrow> ps ! 1 \<noteq> last ps)"
proof -
  let ?h = "compressed ps h"
  have find: "\<exists>h''. UnionFindNode_findSet k q ?h = Inr (r, h'')"
    if "uf_path (ufs ?h) qs" "distinct qs" "length qs \<le> 2" "hd qs = q" "last qs = r" for qs q r
    using findSet_path [of ?h qs k] that assms(5) by (auto simp: INT_MAX_def)
  have first: "UnionFindNode_findSet k (hd ps) h = Inr (last ps, ?h)" by (rule findSet_path [OF assms(1-4)])
  show ?thesis
  proof (cases "4 \<le> length ps")
    case False
    have "uf_path (ufs ?h) ps"
      using path_shapes [OF assms(1)] assms(1,2) False by (auto simp: compressed_def)
    have "\<exists>h''. UnionFindNode_findSet k q ?h = Inr (last ps, h'')" if "q \<in> set ps" for q
    proof -
      obtain xs ys where ps: "ps = xs @ q # ys" using \<open>q \<in> set ps\<close> by (meson split_list)
      have "UnionFindNode_findSet k (hd (q # ys)) ?h = Inr (last (q # ys), compressed (q # ys) ?h)"
        using uf_path_suffix [of "ufs ?h" xs "q # ys"] \<open>uf_path (ufs ?h) ps\<close> assms(2-4) ps by (intro findSet_path) auto
      then show ?thesis by (simp add: ps)
    qed
    with first False show ?thesis by auto
  next
    case True
    then obtain p q rs a b where more: "ps = p # q # rs @ [a, b]" using path_shapes [OF assms(1)] by auto
    have start: "\<exists>h''. UnionFindNode_findSet k r ?h = Inr (q, h'')" if "r \<in> set (p # q # rs)" for r
      using find [OF compressed_start [OF assms(1,2) [unfolded more] that, folded more]] assms(2) more by auto
    have ends: "\<exists>h''. UnionFindNode_findSet k a ?h = Inr (b, h'')" "\<exists>h''. UnionFindNode_findSet k b ?h = Inr (b, h'')"
      using find [of "[a, b]" a b] find [of "[b]" b b] compressed_end [of h "p # q # rs" a b] assms(1,2) more by auto
    have "last (butlast ps) = a" by (simp add: more butlast_append)
    then show ?thesis using start ends first assms(2) True by (intro exI [of _ ?h]) (auto simp: more)
  qed
qed

text \<open>Four nodes in a row.\<close>

definition four_nodes :: havlak where
  "four_nodes = no_heap\<lparr>ufs := (\<lambda>p. if 1 \<le> p \<and> p \<le> 4
     then Some \<lparr>u_parent = (if p = 4 then 4 else Suc p), u_bb = p, u_loop = 0, u_dfsNumber = int p\<rparr> else None)\<rparr>"

lemma findSet_splits_long_paths_witness:
  "\<exists>h' h''. UnionFindNode_findSet 9 1 four_nodes = Inr (4, h') \<and> UnionFindNode_findSet 9 1 h' = Inr (2, h'')"
proof -
  have "uf_path (ufs four_nodes) [1, 2, 3, 4]" by (simp add: four_nodes_def)
  then show ?thesis
    using findSet_splits_long_paths [where h = four_nodes and ps = "[1, 2, 3, 4]" and k = 9] by (simp add: INT_MAX_def) blast
qed


end
