(* ===== verification/HavlakNumbering.thy ===== *)
theory HavlakNumbering
  imports AwfyHavlak
begin

text \<open>
  Depth-first numberings, apart from the heap: what a call of \<open>HavlakLoopFinder_doDFS\<close> does to the
  numbers of the blocks and to the last descendants. \<open>out\<close> gives the successors of a block, an
  unvisited block has the number \<open>UNVISITED\<close>.
\<close>

type_synonym numbering = "nat \<Rightarrow> int"

text \<open>A path that avoids the blocks up to the number of \<open>x\<close>, \<open>x\<close> itself included.\<close>

definition later :: "(nat \<Rightarrow> nat list) \<Rightarrow> numbering \<Rightarrow> nat \<Rightarrow> nat \<Rightarrow> nat \<Rightarrow> bool" where
  "later out num x a z \<longleftrightarrow> z \<in> set (out a) \<and> num x < num z"

text \<open>The blocks \<open>X\<close> got the numbers \<open>c .. l\<close>.\<close>

definition renumbers :: "nat set \<Rightarrow> int \<Rightarrow> int \<Rightarrow> numbering \<Rightarrow> numbering \<Rightarrow> bool" where
  "renumbers X c l num num' \<longleftrightarrow> 0 \<le> c \<and> (\<forall>x \<in> X. num x = UNVISITED) \<and> (\<forall>x. x \<notin> X \<longrightarrow> num' x = num x) \<and>
     bij_betw num' X {c..l}"

text \<open>
  \<open>closed\<close>: every successor of the block has been visited, and is at most the last descendant unless
  it came before. \<open>spanned\<close>: the numbers up to the last descendant are those of later blocks.
\<close>

definition closed :: "(nat \<Rightarrow> nat list) \<Rightarrow> numbering \<Rightarrow> (int \<Rightarrow> int) \<Rightarrow> nat \<Rightarrow> bool" where
  "closed out num L x \<longleftrightarrow> (\<forall>y \<in> set (out x). num y \<noteq> UNVISITED \<and> (num x \<le> num y \<longrightarrow> num y \<le> L (num x)))"

definition spanned :: "(nat \<Rightarrow> nat list) \<Rightarrow> numbering \<Rightarrow> (int \<Rightarrow> int) \<Rightarrow> nat set \<Rightarrow> nat \<Rightarrow> bool" where
  "spanned out num L X x \<longleftrightarrow> (\<forall>y \<in> X. num x \<le> num y \<and> num y \<le> L (num x) \<longrightarrow> (later out num x)\<^sup>*\<^sup>* x y)"

definition nested :: "(int \<Rightarrow> int) \<Rightarrow> int \<Rightarrow> int \<Rightarrow> bool" where
  "nested L l i \<longleftrightarrow> i \<le> L i \<and> L i \<le> l \<and> (\<forall>j. i \<le> j \<and> j \<le> L i \<longrightarrow> L j \<le> L i)"

definition dfs_result ::
    "(nat \<Rightarrow> nat list) \<Rightarrow> int \<Rightarrow> nat \<Rightarrow> int \<Rightarrow> nat set \<Rightarrow> numbering \<Rightarrow> (int \<Rightarrow> int) \<Rightarrow> numbering \<Rightarrow> (int \<Rightarrow> int) \<Rightarrow> bool" where
  "dfs_result out c b l X num L num' L' \<longleftrightarrow> renumbers X c l num num' \<and> b \<in> X \<and> num' b = c \<and>
     (\<forall>i. i \<notin> {c..l} \<longrightarrow> L' i = L i) \<and> L' c = l \<and> (\<forall>i \<in> {c..l}. nested L' l i) \<and>
     (\<forall>x \<in> X. closed out num' L' x \<and> spanned out num' L' X x)"

text \<open>The same while the first \<open>i\<close> successors of \<open>b\<close> have been looked at.\<close>

definition dfs_partial ::
    "(nat \<Rightarrow> nat list) \<Rightarrow> int \<Rightarrow> nat \<Rightarrow> nat \<Rightarrow> int \<Rightarrow> nat set \<Rightarrow> numbering \<Rightarrow> (int \<Rightarrow> int) \<Rightarrow> numbering \<Rightarrow> (int \<Rightarrow> int) \<Rightarrow> bool" where
  "dfs_partial out c b i l X num L num' L' \<longleftrightarrow> renumbers X c l num num' \<and> b \<in> X \<and> num' b = c \<and>
     (\<forall>j. j \<notin> {c<..l} \<longrightarrow> L' j = L j) \<and> (\<forall>j \<in> {c<..l}. nested L' l j) \<and>
     (\<forall>x \<in> X - {b}. closed out num' L' x \<and> spanned out num' L' X x) \<and>
     (\<forall>y \<in> set (take i (out b)). num' y \<noteq> UNVISITED) \<and> (\<forall>y \<in> X. (later out num' b)\<^sup>*\<^sup>* b y)"

lemma renumbers_range:
  assumes "renumbers X c l num num'" "x \<in> X"
  shows "c \<le> num' x" "num' x \<le> l" "0 \<le> num' x" "num' x \<noteq> UNVISITED"
proof -
  have "num' x \<in> {c..l}" "0 \<le> c" using assms by (auto simp: renumbers_def dest: bij_betwE)
  then show "c \<le> num' x" "num' x \<le> l" "0 \<le> num' x" "num' x \<noteq> UNVISITED" by (auto simp: UNVISITED_def)
qed

lemma partial_init:
  assumes "num b = UNVISITED" "0 \<le> c"
  shows "dfs_partial out c b 0 c {b} num L (num(b := c)) L"
  using assms by (auto simp: dfs_partial_def renumbers_def bij_betw_def)

lemma partial_visited:
  assumes "dfs_partial out c b i l X num L num' L'" "i < length (out b)" "num' (out b ! i) \<noteq> UNVISITED"
  shows "dfs_partial out c b (Suc i) l X num L num' L'"
  using assms by (auto simp: dfs_partial_def take_Suc_conv_app_nth)

text \<open>Numbers that were given stay, so later blocks stay later.\<close>

lemma later_mono:
  assumes "renumbers Y (l + 1) l2 num num'" "num x = num' x" "0 \<le> num x"
  shows "(later out num x)\<^sup>*\<^sup>* a y \<Longrightarrow> (later out num' x)\<^sup>*\<^sup>* a y"
proof (induction rule: rtranclp_induct)
  case (step y z)
  then have "num z \<noteq> UNVISITED" using assms(3) by (simp add: later_def UNVISITED_def)
  then have "z \<notin> Y" using assms(1) by (auto simp: renumbers_def)
  then have "num' z = num z" using assms(1) by (simp add: renumbers_def)
  then have "later out num' x y z" using step(2) assms(2) by (simp add: later_def)
  then show ?case using step(3) by simp
qed simp

lemma later_weaken:
  assumes "num x \<le> num t"
  shows "(later out num t)\<^sup>*\<^sup>* a y \<Longrightarrow> (later out num x)\<^sup>*\<^sup>* a y"
  by (rule rtranclp_mono [THEN predicate2D, rotated]) (use assms in \<open>auto simp: later_def\<close>)

lemma partial_call:
  assumes p: "dfs_partial out c b i l X num L num' L'" "i < length (out b)" and t: "out b ! i = t"
    and r: "dfs_result out (l + 1) t l2 Y num' L' num2 L2"
  shows "dfs_partial out c b (Suc i) l2 (X \<union> Y) num L num2 L2"
proof -
  have X: "renumbers X c l num num'" and b: "b \<in> X" "num' b = c" and Y: "renumbers Y (l + 1) l2 num' num2" "t \<in> Y" "num2 t = l + 1"
    and L2: "\<And>i. i \<notin> {l + 1..l2} \<Longrightarrow> L2 i = L' i" "L2 (l + 1) = l2"
    using p r by (simp_all add: dfs_partial_def dfs_result_def)
  have same: "num2 x = num' x" "x \<notin> Y" if "num' x \<noteq> UNVISITED" for x
    using Y(1) that by (auto simp: renumbers_def)
  have sameX: "num2 x = num' x" "x \<notin> Y" if "x \<in> X" for x
    using renumbers_range [OF X that] same by auto
  have le: "c \<le> l" "l < l2 + 1" "0 \<le> c" using renumbers_range [OF X b(1)] b(2) renumbers_range [OF Y(1,2)] Y(3) by auto
  have "l + 1 \<le> l2" using renumbers_range [OF Y(1,2)] Y(3) by simp
  have "bij_betw num2 X {c..l}"
    using X sameX by (simp add: renumbers_def cong: bij_betw_cong)
  moreover have "bij_betw num2 Y {l + 1..l2}" using Y(1) by (simp add: renumbers_def)
  moreover have "{c..l} \<union> {l + 1..l2} = {c..l2}" "{c..l} \<inter> {l + 1..l2} = {}" using le by auto
  ultimately have bij: "bij_betw num2 (X \<union> Y) {c..l2}" by (metis bij_betw_combine)
  have ren: "renumbers (X \<union> Y) c l2 num num2"
    using X Y(1) bij le sameX by (auto simp: renumbers_def)
  have nest: "nested L2 l2 j" if "j \<in> {c<..l2}" for j
  proof (cases "j \<le> l")
    case True
    then have "nested L' l j" using p(1) that by (simp add: dfs_partial_def)
    then show ?thesis using True L2(1) le by (auto simp: nested_def)
  next
    case False
    then show ?thesis using r that by (auto simp: dfs_result_def)
  qed
  have X': "closed out num2 L2 x \<and> spanned out num2 L2 (X \<union> Y) x" if x: "x \<in> X - {b}" for x
  proof -
    have c: "closed out num' L' x" and s: "spanned out num' L' X x" using p(1) x by (simp_all add: dfs_partial_def)
    have r: "c \<le> num' x" "num' x \<le> l" using renumbers_range [OF X] x by auto
    have "num' x \<noteq> c" using X b x by (auto simp: renumbers_def bij_betw_def inj_on_def)
    then have "L' (num' x) \<le> l" using p(1) r by (auto simp: dfs_partial_def nested_def)
    have L: "L2 (num' x) = L' (num' x)" using L2(1) r by simp
    have "spanned out num2 L2 (X \<union> Y) x"
      unfolding spanned_def
    proof (intro ballI impI)
      fix y assume y: "y \<in> X \<union> Y" "num2 x \<le> num2 y \<and> num2 y \<le> L2 (num2 x)"
      have "y \<in> X"
      proof (rule ccontr)
        assume "y \<notin> X"
        then have "l + 1 \<le> num2 y" using y(1) renumbers_range(1) [OF Y(1)] by blast
        with y(2) \<open>L' (num' x) \<le> l\<close> L sameX(1) [of x] x show False by simp
      qed
      then have "(later out num' x)\<^sup>*\<^sup>* x y"
        using s y(2) L sameX(1) [of x] sameX(1) [of y] x by (simp add: spanned_def)
      then show "(later out num2 x)\<^sup>*\<^sup>* x y"
        using later_mono [OF Y(1), of x out x y] sameX(1) [of x] x r le by simp
    qed
    moreover have "closed out num2 L2 x" using c same sameX x L by (auto simp: closed_def)
    ultimately show ?thesis by simp
  qed
  have Y': "closed out num2 L2 y \<and> spanned out num2 L2 (X \<union> Y) y" if y: "y \<in> Y" for y
  proof -
    have "closed out num2 L2 y" "spanned out num2 L2 Y y" using r y by (simp_all add: dfs_result_def)
    moreover have "\<not> num2 y \<le> num2 x" if "x \<in> X" for x
      using renumbers_range [OF Y(1) y] renumbers_range [OF X that] sameX [OF that] by simp
    ultimately show ?thesis by (auto simp: spanned_def)
  qed
  have bX: "(later out num2 b)\<^sup>*\<^sup>* b x" if "x \<in> X" for x
    using later_mono [OF Y(1), of b out b x] sameX(1) [OF b(1)] b(2) le p(1) that by (simp add: dfs_partial_def)
  have bY: "(later out num2 b)\<^sup>*\<^sup>* b y" if "y \<in> Y" for y
  proof -
    have "spanned out num2 L2 Y t" using r Y(2) by (simp add: dfs_result_def)
    then have "(later out num2 t)\<^sup>*\<^sup>* t y"
      using that renumbers_range [OF Y(1) that] Y(3) L2(2) by (simp add: spanned_def)
    then have "(later out num2 b)\<^sup>*\<^sup>* t y" using later_weaken [of num2 b t out t y] sameX(1) [OF b(1)] b(2) Y(3) le by simp
    moreover have "later out num2 b b t" using t p(2) sameX(1) [OF b(1)] b(2) Y(3) le by (auto simp: later_def)
    ultimately show ?thesis by (rule converse_rtranclp_into_rtranclp [rotated])
  qed
  have take: "\<forall>y \<in> set (take (Suc i) (out b)). num2 y \<noteq> UNVISITED"
    using p t same(1) renumbers_range(4) [OF Y(1,2)] by (auto simp: dfs_partial_def take_Suc_conv_app_nth)
  show ?thesis
    unfolding dfs_partial_def
  proof (intro conjI)
    show "\<forall>j. j \<notin> {c<..l2} \<longrightarrow> L2 j = L j" using p(1) L2(1) le by (auto simp: dfs_partial_def)
    show "num2 b = c" using sameX(1) [OF b(1)] b(2) by simp
    show "\<forall>x \<in> X \<union> Y - {b}. closed out num2 L2 x \<and> spanned out num2 L2 (X \<union> Y) x" using X' Y' by auto
  qed (use ren b nest take bX bY in auto)
qed

lemma partial_finish:
  assumes p: "dfs_partial out c b (length (out b)) l X num L num' L'" and old: "\<And>x. num x < c"
  shows "dfs_result out c b l X num L num' (L'(c := l))"
proof -
  have X: "renumbers X c l num num'" and b: "b \<in> X" "num' b = c" using p by (simp_all add: dfs_partial_def)
  have le: "c \<le> l" using renumbers_range [OF X b(1)] b(2) by simp
  have ne: "num' x \<noteq> c" if "x \<in> X - {b}" for x using that X b by (auto simp: renumbers_def bij_betw_def inj_on_def)
  have other: "closed out num' (L'(c := l)) x" "spanned out num' (L'(c := l)) X x" if "x \<in> X - {b}" for x
    using p that ne [OF that] by (auto simp: dfs_partial_def closed_def spanned_def)
  have "num' y \<le> l" for y
    using renumbers_range [OF X, of y] X old [of y] le by (cases "y \<in> X") (auto simp: renumbers_def)
  then have "closed out num' (L'(c := l)) b" using p b by (auto simp: closed_def dfs_partial_def)
  moreover have "spanned out num' (L'(c := l)) X b" using p by (auto simp: spanned_def dfs_partial_def)
  moreover have "nested (L'(c := l)) l j" if "j \<in> {c..l}" for j
  proof (cases "j = c")
    case True
    have "L' i \<le> l" if "c < i" "i \<le> l" for i using p that by (auto simp: dfs_partial_def nested_def)
    with True le show ?thesis by (auto simp: nested_def)
  next
    case False
    then have "nested L' l j" using p that by (auto simp: dfs_partial_def)
    then show ?thesis using False that by (auto simp: nested_def)
  qed
  ultimately show ?thesis
    using X b p other le by (auto simp: dfs_result_def dfs_partial_def)
qed

end
