(* ===== verification/HavlakDFS.thy ===== *)
theory HavlakDFS
  imports HavlakNumbering
begin

text \<open>
  \<open>HavlakLoopFinder_doDFS\<close> on the heap: the call numbers the blocks as \<open>HavlakNumbering\<close> says,
  records them in the union-find nodes, and touches nothing else.
\<close>

section \<open>Cells behind the size of a vector\<close>

definition vcells :: "'e vector \<Rightarrow> nat \<Rightarrow> bool" where
  "vcells v n \<longleftrightarrow> vlength v = length (storage v) \<and> n \<le> vlength v \<and> (\<forall>i < n. storage v ! i \<noteq> None)"

lemma vcells_at: "vcells v n \<Longrightarrow> i < n \<Longrightarrow> Vector_at v (int i) = Inr (the (storage v ! i))"
  by (auto simp: vcells_def Vector_at_def cell_def)

lemma vcells_put:
  assumes "vcells v n" "i < n"
  shows "\<exists>v'. Vector_atPut v (int i) x = Inr v' \<and> vcells v' n \<and> storage v' = (storage v)[i := Some x]"
  using assms by (auto simp: vcells_def Vector_atPut_def arr_set_ok Let_def nth_list_update)

section \<open>States of the search\<close>

definition dfs_graph :: "(nat \<Rightarrow> BasicBlock option) \<Rightarrow> nat set \<Rightarrow> (nat \<Rightarrow> nat list) \<Rightarrow> bool" where
  "dfs_graph bs V out \<longleftrightarrow> finite V \<and> 0 \<notin> V \<and>
     (\<forall>b \<in> V. \<exists>x. bs b = Some x \<and> vrep (outEdges x) (out b) \<and> firstIdx (outEdges x) = 0 \<and> set (out b) \<subseteq> V)"

definition number_of :: "HavlakLoopFinder \<Rightarrow> nat \<Rightarrow> int" where
  "number_of me b = (case dabs (f_number me) b of None \<Rightarrow> UNVISITED | Some n \<Rightarrow> n)"

definition last_of :: "HavlakLoopFinder \<Rightarrow> int \<Rightarrow> int" where
  "last_of me i = (if i < 0 then 0 else the (storage (f_last me) ! nat i))"

definition dfs_state :: "nat set \<Rightarrow> nat list \<Rightarrow> HavlakLoopFinder \<Rightarrow> havlak \<Rightarrow> bool" where
  "dfs_state V us me h \<longleftrightarrow> dinv (f_number me) \<and> dom (dabs (f_number me)) = V \<and> card V < 2 ^ 30 \<and>
     vrep (f_nodes me) us \<and> firstIdx (f_nodes me) = 0 \<and> length us = card V \<and> distinct us \<and> 0 \<notin> set us \<and>
     set us \<subseteq> dom (ufs h) \<and> vcells (f_last me) (card V)"

text \<open>The union-find node of the block \<open>x\<close> with the number \<open>n\<close>, and the nodes of all blocks \<open>X\<close>.\<close>

definition node_of :: "nat list \<Rightarrow> int \<Rightarrow> nat \<Rightarrow> UnionFindNode" where
  "node_of us n x = \<lparr>u_parent = us ! nat n, u_bb = x, u_loop = 0, u_dfsNumber = n\<rparr>"

definition nodes_set :: "nat list \<Rightarrow> (nat \<Rightarrow> int) \<Rightarrow> nat set \<Rightarrow> havlak \<Rightarrow> havlak \<Rightarrow> bool" where
  "nodes_set us num X h h' \<longleftrightarrow> h' = h\<lparr>ufs := ufs h'\<rparr> \<and>
     (\<forall>x \<in> X. ufs h' (us ! nat (num x)) = Some (node_of us (num x) x)) \<and>
     (\<forall>u. u \<notin> (\<lambda>x. us ! nat (num x)) ` X \<longrightarrow> ufs h' u = ufs h u)"

definition dfs_frame :: "nat set \<Rightarrow> nat list \<Rightarrow> nat set \<Rightarrow> HavlakLoopFinder \<times> havlak \<Rightarrow> HavlakLoopFinder \<times> havlak \<Rightarrow> bool" where
  "dfs_frame V us X = (\<lambda>(me, h) (me', h'). X \<subseteq> V \<and> dfs_state V us me' h' \<and>
     me' = me\<lparr>f_number := f_number me', f_last := f_last me'\<rparr> \<and> nodes_set us (number_of me') X h h')"

definition unvisited :: "nat set \<Rightarrow> HavlakLoopFinder \<Rightarrow> nat set" where
  "unvisited V me = {x \<in> V. number_of me x = UNVISITED}"

text \<open>The visited blocks have the numbers below \<open>c\<close>.\<close>

definition counted :: "nat set \<Rightarrow> HavlakLoopFinder \<Rightarrow> int \<Rightarrow> bool" where
  "counted V me c \<longleftrightarrow> 0 \<le> c \<and> bij_betw (number_of me) (V - unvisited V me) {0..<c}"

lemma number_of_outside: "dom (dabs (f_number me)) = V \<Longrightarrow> b \<notin> V \<Longrightarrow> number_of me b = UNVISITED"
  by (auto simp: number_of_def split: option.splits)

lemma counted_less:
  assumes "counted V me c" "dfs_state V us me h"
  shows "number_of me x < c"
proof (cases "x \<in> V \<and> number_of me x \<noteq> UNVISITED")
  case True
  then have "number_of me x \<in> {0..<c}" using assms(1) by (auto simp: counted_def unvisited_def dest: bij_betwE)
  then show ?thesis by simp
next
  case False
  then have "number_of me x = UNVISITED" using assms(2) number_of_outside by (auto simp: dfs_state_def)
  then show ?thesis using assms(1) by (simp add: counted_def UNVISITED_def)
qed

lemma counted_bound:
  assumes "counted V me c" "finite V" "b \<in> V" "number_of me b = UNVISITED"
  shows "nat c < card V"
proof -
  have "card (V - unvisited V me) = card {0..<c}" using assms(1) by (auto simp: counted_def dest: bij_betw_same_card)
  moreover have "card (V - unvisited V me) < card V"
    using assms(2-4) by (intro psubset_card_mono) (auto simp: unvisited_def)
  ultimately show ?thesis by simp
qed

lemma counted_extend:
  assumes c: "counted V me c" and r: "renumbers X c l (number_of me) (number_of me')" and X: "X \<subseteq> V" "c \<le> l"
  shows "counted V me' (l + 1)" "unvisited V me' = unvisited V me - X"
proof -
  have same: "number_of me' x = number_of me x" if "x \<notin> X" for x using r that by (simp add: renumbers_def)
  have XX: "number_of me' x \<noteq> UNVISITED" "number_of me x = UNVISITED" if "x \<in> X" for x
    using renumbers_range(4) [OF r that] r that by (simp_all add: renumbers_def)
  show un: "unvisited V me' = unvisited V me - X"
  proof (intro set_eqI)
    fix x show "x \<in> unvisited V me' \<longleftrightarrow> x \<in> unvisited V me - X"
      using same [of x] XX [of x] by (cases "x \<in> X") (simp_all add: unvisited_def)
  qed
  have "number_of me' x = number_of me x" if "x \<in> V - unvisited V me" for x
    using same [of x] XX(2) [of x] that by (auto simp: unvisited_def)
  then have "bij_betw (number_of me') (V - unvisited V me) {0..<c}"
    using c bij_betw_cong [of "V - unvisited V me" "number_of me'" "number_of me"] by (simp add: counted_def)
  moreover have "bij_betw (number_of me') X {c..l}" using r by (simp add: renumbers_def)
  moreover have "{0..<c} \<inter> {c..l} = {}" by auto
  ultimately have "bij_betw (number_of me') ((V - unvisited V me) \<union> X) ({0..<c} \<union> {c..l})" by (rule bij_betw_combine)
  moreover have "(V - unvisited V me) \<union> X = V - unvisited V me'" using un X by auto
  moreover have "{0..<c} \<union> {c..l} = {0..<l + 1}" using c X(2) by (auto simp: counted_def)
  ultimately show "counted V me' (l + 1)" using c X(2) by (simp add: counted_def)
qed

lemma nodes_set_trans:
  assumes 1: "nodes_set us num X h h'" and 2: "nodes_set us num' Y h' h''" and same: "\<And>x. x \<in> X \<Longrightarrow> num' x = num x"
    and us: "distinct us" and X: "\<And>x. x \<in> X \<Longrightarrow> 0 \<le> num x \<and> nat (num x) < length us"
    and Y: "\<And>y. y \<in> Y \<Longrightarrow> 0 \<le> num' y \<and> nat (num' y) < length us" and dis: "\<And>x y. x \<in> X \<Longrightarrow> y \<in> Y \<Longrightarrow> num x \<noteq> num' y"
  shows "nodes_set us num' (X \<union> Y) h h''"
proof -
  have sep: "us ! nat (num x) \<noteq> us ! nat (num' y)" if "x \<in> X" "y \<in> Y" for x y
  proof -
    have "nat (num x) \<noteq> nat (num' y)" using dis [OF that] X [OF that(1)] Y [OF that(2)] by (simp add: eq_nat_nat_iff)
    then show ?thesis using us X [OF that(1)] Y [OF that(2)] by (simp add: nth_eq_iff_index_eq)
  qed
  have keep: "ufs h'' (us ! nat (num x)) = ufs h' (us ! nat (num x))" if "x \<in> X" for x
  proof -
    have "us ! nat (num x) \<notin> (\<lambda>y. us ! nat (num' y)) ` Y" using sep [OF that] by (force simp: image_iff)
    then show ?thesis using 2 by (simp add: nodes_set_def)
  qed
  show ?thesis
    unfolding nodes_set_def
  proof (intro conjI)
    show "h'' = h\<lparr>ufs := ufs h''\<rparr>" using 1 2 unfolding nodes_set_def by (metis havlak.update_convs(7) havlak.surjective)
    show "\<forall>x \<in> X \<union> Y. ufs h'' (us ! nat (num' x)) = Some (node_of us (num' x) x)"
      using 1 2 keep same by (auto simp: nodes_set_def)
    show "\<forall>u. u \<notin> (\<lambda>x. us ! nat (num' x)) ` (X \<union> Y) \<longrightarrow> ufs h'' u = ufs h u"
      using 1 2 same by (auto simp: nodes_set_def image_Un)
  qed
qed


lemma counted_le:
  assumes "counted V me c" "finite V"
  shows "nat c \<le> card V"
proof -
  have "card (V - unvisited V me) = card {0..<c}" using assms(1) by (auto simp: counted_def dest: bij_betw_same_card)
  then show ?thesis using card_mono [OF assms(2), of "V - unvisited V me"] by simp
qed

lemma dfs_frame_trans:
  assumes 1: "dfs_frame V us X (me, h) (me', h')" and 2: "dfs_frame V us Y (me', h') (me'', h'')"
    and X: "renumbers X c l num (number_of me')" and Y: "renumbers Y (l + 1) l2 (number_of me') (number_of me'')"
    and le: "l2 < int (length us)" "l \<le> l2"
  shows "dfs_frame V us (X \<union> Y) (me, h) (me'', h'')"
proof -
  have keep: "number_of me'' x = number_of me' x" if "x \<in> X" for x
    using renumbers_range(4) [OF X that] Y by (auto simp: renumbers_def)
  have "nodes_set us (number_of me'') (X \<union> Y) h h''"
  proof (rule nodes_set_trans [where num = "number_of me'" and h' = h'])
    show "distinct us" using 2 by (simp add: dfs_frame_def dfs_state_def)
    show "0 \<le> number_of me' x \<and> nat (number_of me' x) < length us" if "x \<in> X" for x
      using renumbers_range [OF X that] le by auto
    show "0 \<le> number_of me'' y \<and> nat (number_of me'' y) < length us" if "y \<in> Y" for y
      using renumbers_range [OF Y that] le by auto
    show "number_of me' x \<noteq> number_of me'' y" if "x \<in> X" "y \<in> Y" for x y
      using renumbers_range [OF X that(1)] renumbers_range [OF Y that(2)] by auto
  qed (use 1 2 keep in \<open>simp_all add: dfs_frame_def\<close>)
  moreover have "me'' = me\<lparr>f_number := f_number me'', f_last := f_last me''\<rparr>"
  proof -
    have "me' = me\<lparr>f_number := f_number me', f_last := f_last me'\<rparr>" "me'' = me'\<lparr>f_number := f_number me'', f_last := f_last me''\<rparr>"
      using 1 2 by (simp_all add: dfs_frame_def)
    then show ?thesis by (metis HavlakLoopFinder.select_convs HavlakLoopFinder.surjective HavlakLoopFinder.update_convs(5,9))
  qed
  ultimately show ?thesis using 1 2 by (simp add: dfs_frame_def)
qed

section \<open>The entry of a call\<close>

lemma dfs_start:
  assumes st: "dfs_state V us me h" and c: "0 \<le> c" "nat c < card V" and b: "b \<in> V" and bs: "b \<noteq> 0" "blocks h b = Some x"
  shows "\<exists>d. Vector_at (f_nodes me) c = Inr (us ! nat c) \<and>
    UnionFindNode_initNode (us ! nat c) b c h = Inr (set_uf (us ! nat c) (node_of us c b) h) \<and>
    number_put b c (me, set_uf (us ! nat c) (node_of us c b) h) = Inr (me\<lparr>f_number := d\<rparr>) \<and>
    number_of (me\<lparr>f_number := d\<rparr>) = (number_of me)(b := c) \<and>
    dfs_frame V us {b} (me, h) (me\<lparr>f_number := d\<rparr>, set_uf (us ! nat c) (node_of us c b) h)"
proof -
  let ?u = "us ! nat c" and ?h = "set_uf (us ! nat c) (node_of us c b) h"
  have in_us: "?u \<in> set us" "0 \<notin> set us" "set us \<subseteq> dom (ufs h)" using st c by (simp_all add: dfs_state_def)
  have u: "?u \<noteq> 0" using in_us by metis
  have dom: "?u \<in> dom (ufs h)" using in_us by blast
  have "droom (f_number me) (Suc 0)"
    using dinv_card [of "f_number me"] st by (simp add: dfs_state_def droom_def)
  then obtain d where d: "Dictionary_atPut b c (f_number me) = Inr d" "dinv d" "dabs d = (dabs (f_number me))(b \<mapsto> c)"
    using Dictionary_atPut_ok [of "f_number me" 0 b c] st by (auto simp: dfs_state_def)
  have num: "number_of (me\<lparr>f_number := d\<rparr>) = (number_of me)(b := c)" using d(3) by (auto simp: number_of_def)
  have "Vector_at (f_nodes me) c = Inr ?u"
    using st c by (intro Vector_at_vrep) (auto simp: dfs_state_def)
  moreover have "UnionFindNode_initNode ?u b c h = Inr ?h"
    using u dom by (auto simp: UnionFindNode_initNode_def load_def node_of_def)
  moreover have "number_put b c (me, ?h) = Inr (me\<lparr>f_number := d\<rparr>)"
    using d(1) bs by (simp add: number_put_def load_def set_uf_def)
  moreover have "dfs_state V us (me\<lparr>f_number := d\<rparr>) ?h"
    using st d b by (auto simp: dfs_state_def set_uf_def)
  moreover have "nodes_set us (number_of (me\<lparr>f_number := d\<rparr>)) {b} h ?h"
    by (simp add: nodes_set_def num set_uf_def)
  ultimately show ?thesis using num b by (auto simp: dfs_frame_def)
qed


section \<open>The search\<close>

definition dfs_call :: "(nat \<Rightarrow> nat list) \<Rightarrow> nat set \<Rightarrow> nat list \<Rightarrow> int \<Rightarrow> nat \<Rightarrow> HavlakLoopFinder \<times> havlak \<Rightarrow>
    (int \<times> HavlakLoopFinder \<times> havlak) res \<Rightarrow> bool" where
  "dfs_call out V us c b = (\<lambda>(me, h) r. \<exists>l me' h' X. r = Inr (l, me', h') \<and>
     dfs_result out c b l X (number_of me) (last_of me) (number_of me') (last_of me') \<and>
     dfs_frame V us X (me, h) (me', h'))"

text \<open>The loop over the successors, when calls with at most \<open>k\<close> unvisited blocks are as they should be.\<close>

lemma doDFS_loop:
  assumes G: "dfs_graph (blocks h) V out" and x: "blocks h b = Some x" "b \<in> V"
    and c: "counted V me c" "number_of me b = UNVISITED" "card (unvisited V me) \<le> Suc k"
    and start: "number_of me1 = (number_of me)(b := c)" "last_of me1 = last_of me" "dfs_frame V us {b} (me, h) (me1, h1)"
    and rec: "\<And>me h t c. blocks h = blocks h1 \<Longrightarrow> dfs_state V us me h \<Longrightarrow> counted V me c \<Longrightarrow> t \<in> V \<Longrightarrow> number_of me t = UNVISITED \<Longrightarrow>
      card (unvisited V me) \<le> k \<Longrightarrow> dfs_call out V us c t (me, h) (rec t c (me, h))"
  shows "i \<le> length (out b) \<Longrightarrow> \<exists>l me' h' X. rfold (doDFS_step rec (outEdges x)) [0..<i] (c, me1, h1) = Inr (l, me', h') \<and>
    dfs_partial out c b i l X (number_of me) (last_of me) (number_of me') (last_of me') \<and>
    dfs_frame V us X (me, h) (me', h')"
proof (induction i)
  case 0
  have "0 \<le> c" using c(1) by (simp add: counted_def)
  then have "dfs_partial out c b 0 c {b} (number_of me) (last_of me) (number_of me1) (last_of me1)"
    unfolding start(1,2) using c(2) by (rule partial_init [rotated])
  then show ?case using start(3) by auto
next
  case (Suc i)
  then obtain l me' h' X where run: "rfold (doDFS_step rec (outEdges x)) [0..<i] (c, me1, h1) = Inr (l, me', h')"
    and p: "dfs_partial out c b i l X (number_of me) (last_of me) (number_of me') (last_of me')"
    and f: "dfs_frame V us X (me, h) (me', h')" by auto
  let ?t = "out b ! i"
  have out: "vrep (outEdges x) (out b)" "firstIdx (outEdges x) = 0" "set (out b) \<subseteq> V" "finite V" "0 \<notin> V"
    using G x by (auto simp: dfs_graph_def)
  have t: "?t \<in> V" "?t \<noteq> 0" using out(3,5) Suc.prems by (metis Suc_le_lessD in_mono nth_mem)+
  have st: "dfs_state V us me' h'" and X: "renumbers X c l (number_of me) (number_of me')" "X \<subseteq> V" "b \<in> X" "number_of me' b = c"
    using f p by (simp_all add: dfs_frame_def dfs_partial_def)
  have l: "c \<le> l" "0 \<le> c" using renumbers_range [OF X(1,3)] X(4) by auto
  have bs: "blocks h' = blocks h" "blocks h1 = blocks h"
    using f start(3) unfolding dfs_frame_def nodes_set_def by (auto simp del: havlak.unfold_congs) (metis havlak.select_convs(1) havlak.surjective havlak.update_convs(7))+
  obtain y where y: "blocks h' ?t = Some y" using G t(1) bs by (auto simp: dfs_graph_def)
  obtain n where n: "dabs (f_number me') ?t = Some n" using st t(1) by (auto simp: dfs_state_def)
  have at: "Vector_at (outEdges x) (int i) = Inr ?t" "number_at ?t (me', h') = Inr (Some n)"
    using Vector_at_vrep [OF out(1,2), of "int i"] Suc.prems Dictionary_at_ok [of "f_number me'" ?t] st t(2) y n
    by (auto simp: number_at_def load_def dfs_state_def)
  have nil: "rbind m (rfold (doDFS_step rec (outEdges x)) []) = m" for m by (cases m) simp_all
  have step: "rfold (doDFS_step rec (outEdges x)) [0..<Suc i] (c, me1, h1) =
      (if n = UNVISITED then rbind (c_int (l + 1)) (\<lambda>c. rec ?t c (me', h')) else Inr (l, me', h'))"
    using run at by (simp add: rfold_append doDFS_step_def nil)
  show ?case
  proof (cases "n = UNVISITED")
    case False
    then have "dfs_partial out c b (Suc i) l X (number_of me) (last_of me) (number_of me') (last_of me')"
      using partial_visited [OF p] Suc.prems n by (simp add: number_of_def)
    then show ?thesis using step False f by auto
  next
    case True
    then have un: "number_of me' ?t = UNVISITED" using n by (simp add: number_of_def)
    note ext = counted_extend [OF c(1) X(1,2) l(1)]
    have bound: "nat (l + 1) < card V" using counted_bound [OF ext(1) out(4) t(1) un] .
    moreover have "card V < 2 ^ 30" using st by (simp add: dfs_state_def)
    ultimately have "l + 1 < 2 ^ 30" by simp
    then have ci: "c_int (l + 1) = Inr (l + 1)" using l by (intro c_int_ok) (simp_all add: INT_MAX_def)
    have "unvisited V me' \<subset> unvisited V me" using ext(2) X(3) c(2) x(2) by (auto simp: unvisited_def)
    moreover have "finite (unvisited V me)" using out(4) by (simp add: unvisited_def)
    ultimately have "card (unvisited V me') < card (unvisited V me)" by (rule psubset_card_mono [rotated])
    then have "card (unvisited V me') \<le> k" using c(3) by simp
    then have "dfs_call out V us (l + 1) ?t (me', h') (rec ?t (l + 1) (me', h'))"
      using rec st ext(1) t(1) un bs by simp
    then obtain l2 me2 h2 Y where r: "rec ?t (l + 1) (me', h') = Inr (l2, me2, h2)"
      "dfs_result out (l + 1) ?t l2 Y (number_of me') (last_of me') (number_of me2) (last_of me2)"
      "dfs_frame V us Y (me', h') (me2, h2)" by (auto simp: dfs_call_def)
    have Y: "renumbers Y (l + 1) l2 (number_of me') (number_of me2)" "?t \<in> Y" "number_of me2 ?t = l + 1"
      using r(2) by (simp_all add: dfs_result_def)
    have le: "l + 1 \<le> l2" using renumbers_range [OF Y(1,2)] Y(3) by simp
    have "counted V me2 (l2 + 1)"
      using counted_extend [OF ext(1) Y(1) _ le] r(3) by (simp add: dfs_frame_def)
    then have "nat (l2 + 1) \<le> card V" by (rule counted_le [OF _ out(4)])
    then have "dfs_frame V us (X \<union> Y) (me, h) (me2, h2)"
      using dfs_frame_trans [OF f r(3) X(1) Y(1)] le l st by (auto simp: dfs_state_def)
    moreover have "dfs_partial out c b (Suc i) l2 (X \<union> Y) (number_of me) (last_of me) (number_of me2) (last_of me2)"
      using partial_call [OF p _ refl r(2)] Suc.prems by simp
    ultimately show ?thesis using step True ci r(1) by auto
  qed
qed


lemma put_last:
  fixes m n :: HavlakLoopFinder
  shows "n = m\<lparr>f_number := d, f_last := l\<rparr> \<Longrightarrow> n\<lparr>f_last := v\<rparr> = m\<lparr>f_number := d, f_last := v\<rparr>"
  by simp

lemma doDFS_ok:
  assumes G: "dfs_graph bs V out"
  shows "blocks h = bs \<Longrightarrow> dfs_state V us me h \<Longrightarrow> counted V me c \<Longrightarrow> b \<in> V \<Longrightarrow> number_of me b = UNVISITED \<Longrightarrow>
    card (unvisited V me) \<le> k \<Longrightarrow> dfs_call out V us c b (me, h) (HavlakLoopFinder_doDFS k b c (me, h))"
proof (induction k arbitrary: me h c b)
  case 0
  have "finite (unvisited V me)" using G by (simp add: dfs_graph_def unvisited_def)
  moreover have "b \<in> unvisited V me" using 0 by (simp add: unvisited_def)
  ultimately show ?case using 0 by auto
next
  case (Suc k)
  have V: "finite V" "b \<noteq> 0" using G Suc.prems(4) by (auto simp: dfs_graph_def intro: ccontr)
  have c: "0 \<le> c" "nat c < card V" using Suc.prems counted_bound [of V me c b] V by (simp_all add: counted_def)
  obtain x where x: "blocks h b = Some x" "vrep (outEdges x) (out b)" "firstIdx (outEdges x) = 0"
    using G Suc.prems(1,4) by (auto simp: dfs_graph_def)
  let ?u = "us ! nat c" and ?h = "set_uf (us ! nat c) (node_of us c b) h"
  obtain d where d: "Vector_at (f_nodes me) c = Inr ?u" "UnionFindNode_initNode ?u b c h = Inr ?h"
    "number_put b c (me, ?h) = Inr (me\<lparr>f_number := d\<rparr>)" "number_of (me\<lparr>f_number := d\<rparr>) = (number_of me)(b := c)"
    "dfs_frame V us {b} (me, h) (me\<lparr>f_number := d\<rparr>, ?h)"
    using dfs_start [OF Suc.prems(2) c Suc.prems(4) V(2) x(1)] by blast
  have "\<exists>l me' h' X. rfold (doDFS_step (HavlakLoopFinder_doDFS k) (outEdges x)) [0..<length (out b)] (c, me\<lparr>f_number := d\<rparr>, ?h) = Inr (l, me', h') \<and>
    dfs_partial out c b (length (out b)) l X (number_of me) (last_of me) (number_of me') (last_of me') \<and>
    dfs_frame V us X (me, h) (me', h')"
  proof (rule doDFS_loop [where V = V and k = k])
    show "dfs_graph (blocks h) V out" using G Suc.prems(1) by simp
    show "last_of (me\<lparr>f_number := d\<rparr>) = last_of me" by (simp add: last_of_def fun_eq_iff)
    show "dfs_call out V us c' t (me', h') (HavlakLoopFinder_doDFS k t c' (me', h'))"
      if "blocks h' = blocks ?h" "dfs_state V us me' h'" "counted V me' c'" "t \<in> V" "number_of me' t = UNVISITED"
        "card (unvisited V me') \<le> k" for me' h' t c'
      using Suc.IH that Suc.prems(1) by (simp add: set_uf_def)
  qed (use Suc.prems x(1) d in simp_all)
  then obtain l me' h' X where run: "rfold (doDFS_step (HavlakLoopFinder_doDFS k) (outEdges x)) [0..<length (out b)] (c, me\<lparr>f_number := d\<rparr>, ?h) = Inr (l, me', h')"
    and p: "dfs_partial out c b (length (out b)) l X (number_of me) (last_of me) (number_of me') (last_of me')"
    and f: "dfs_frame V us X (me, h) (me', h')" by blast
  have st: "dfs_state V us me' h'" using f by (simp add: dfs_frame_def)
  then have "vcells (f_last me') (card V)" by (simp add: dfs_state_def)
  then obtain v where v: "Vector_atPut (f_last me') c l = Inr v" "vcells v (card V)" "storage v = (storage (f_last me'))[nat c := Some l]"
    using vcells_put [of "f_last me'" "card V" "nat c" l] c by auto
  have vn: "nat c < length (storage (f_last me'))" using \<open>vcells (f_last me') (card V)\<close> c by (simp add: vcells_def)
  have last: "last_of (me'\<lparr>f_last := v\<rparr>) = (last_of me')(c := l)"
    using v(3) vn c(1) by (auto simp: last_of_def fun_eq_iff nth_list_update)
  have num: "number_of (me'\<lparr>f_last := v\<rparr>) = number_of me'" by (simp add: number_of_def fun_eq_iff)
  have edges: "BasicBlock_getOutEdges b ?h = Inr (outEdges x)" "nat (Vector_size (outEdges x)) = length (out b)"
    using x V vrep_last [OF x(2)] by (simp_all add: BasicBlock_getOutEdges_def load_def set_uf_def Vector_size_def)
  have "HavlakLoopFinder_doDFS (Suc k) b c (me, h) = Inr (l, me'\<lparr>f_last := v\<rparr>, h')"
    using d(1-3) edges run v(1) by simp
  moreover have "dfs_result out c b l X (number_of me) (last_of me) (number_of me') (last_of (me'\<lparr>f_last := v\<rparr>))"
    unfolding last using counted_less [OF Suc.prems(3,2)] by (intro partial_finish [OF p])
  moreover have upd: "me'\<lparr>f_last := v\<rparr> = me\<lparr>f_number := f_number me', f_last := v\<rparr>"
    by (rule put_last [where l = "f_last me'"]) (use f in \<open>auto simp only: dfs_frame_def split_conv\<close>)
  moreover have "dfs_frame V us X (me, h) (me'\<lparr>f_last := v\<rparr>, h')"
    unfolding dfs_frame_def prod.case
  proof (intro conjI)
    show "X \<subseteq> V" "nodes_set us (number_of (me'\<lparr>f_last := v\<rparr>)) X h h'" using f num by (simp_all add: dfs_frame_def)
    show "dfs_state V us (me'\<lparr>f_last := v\<rparr>) h'" using st v(2) by (simp add: dfs_state_def)
    show "me'\<lparr>f_last := v\<rparr> = me\<lparr>f_number := f_number (me'\<lparr>f_last := v\<rparr>), f_last := f_last (me'\<lparr>f_last := v\<rparr>)\<rparr>"
      unfolding upd by simp
  qed
  ultimately show ?case unfolding dfs_call_def using num by auto
qed

end
