(* ===== verification/HavlakAncestors.thy ===== *)
theory HavlakAncestors
  imports HavlakDFS
begin

text \<open>
  The start of \<open>HavlakLoopFinder_findLoops\<close>: a new finder prepares its vectors and numbers the blocks
  depth-first. What the numbers, the nodes and \<open>HavlakLoopFinder_isAncestor\<close> say of the graph.
\<close>

section \<open>A new finder\<close>

definition zero_vec :: "nat \<Rightarrow> nat \<Rightarrow> 'e::zero vector" where
  "zero_vec e n = \<lparr>firstIdx = 0, lastIdx = 0, vlength = n, elemSize = e, storage = replicate n (Some 0)\<rparr>"

lemma zero_vec_new: "Vector_createDefault e = Inr (zero_vec e 0)"
  by (simp add: Vector_createDefault_def Vector_create_def Vector_expand_def zero_vec_def)

lemma zero_vec_expand: "0 < n \<Longrightarrow> int n * int e \<le> INT_MAX \<Longrightarrow> Vector_expand (zero_vec e 0) (int n) = Inr (zero_vec e n)"
  by (simp add: Vector_expand_def zero_vec_def c_nat_def)

lemma zero_vec_size: "Vector_size (zero_vec e n) = 0" "Vector_removeAll (zero_vec e n) = zero_vec e n"
  by (simp_all add: Vector_size_def Vector_removeAll_def zero_vec_def)

lemma zero_vec_cells: "vcells (zero_vec e n) n"
  by (simp add: vcells_def zero_vec_def)

definition fresh_node :: UnionFindNode where
  "fresh_node = \<lparr>u_parent = 0, u_bb = 0, u_loop = 0, u_dfsNumber = 0\<rparr>"

lemma findLoops_nodes:
  assumes "f_nodes me = zero_vec 8 n"
  shows "i \<le> n \<Longrightarrow> \<exists>v h'. rfold findLoops_node [0..<i] (me, h) = Inr (me\<lparr>f_nodes := v\<rparr>, h') \<and>
    vrep v (map (\<lambda>j. u_next h + j) [0..<i]) \<and> firstIdx v = 0 \<and> vlength v = n \<and> blocks h' = blocks h \<and>
    u_next h' = u_next h + i \<and> (\<forall>j < i. ufs h' (u_next h + j) = Some fresh_node)"
proof (induction i)
  case 0
  have "me\<lparr>f_nodes := zero_vec 8 n\<rparr> = me" using assms by simp
  then show ?case by (intro exI [of _ "zero_vec 8 n"] exI [of _ h]) (simp add: vrep_def vinv_def zero_vec_def)
next
  case (Suc i)
  then obtain v h' where v: "rfold findLoops_node [0..<i] (me, h) = Inr (me\<lparr>f_nodes := v\<rparr>, h')"
    "vrep v (map (\<lambda>j. u_next h + j) [0..<i])" "firstIdx v = 0" "vlength v = n"
    and h: "blocks h' = blocks h" "u_next h' = u_next h + i" "\<forall>j < i. ufs h' (u_next h + j) = Some fresh_node" by auto
  have i: "lastIdx v = i" "i < n" "length (storage v) = n"
    using vrep_last [OF v(2)] v Suc.prems by (simp_all add: vrep_def vinv_def)
  define v' where "v' = v\<lparr>storage := (storage v)[lastIdx v := Some (u_next h')], lastIdx := lastIdx v + 1\<rparr>"
  have "Vector_atPut v (int i) (u_next h') = Inr v'"
    using i v(4) by (simp add: Vector_atPut_def arr_set_ok v'_def)
  moreover have rep: "vrep v' (map (\<lambda>j. u_next h + j) [0..<Suc i])"
    unfolding v'_def using vector_set_last [OF v(2), of "u_next h'"] i v(4) h(2) by simp
  moreover define h'' where "h'' = h'\<lparr>ufs := (ufs h')(u_next h' \<mapsto> fresh_node), u_next := Suc (u_next h')\<rparr>"
  ultimately have "findLoops_node i (me\<lparr>f_nodes := v\<rparr>, h') = Inr (me\<lparr>f_nodes := v'\<rparr>, h'')"
    by (simp add: findLoops_node_def UnionFindNode_create_def fresh_node_def)
  then have "rfold findLoops_node [0..<Suc i] (me, h) = Inr (me\<lparr>f_nodes := v'\<rparr>, h'')"
    using v(1) by (simp add: rfold_append)
  then show ?case using rep v h by (auto simp: v'_def h''_def less_Suc_eq)
qed

definition ready :: "ControlFlowGraph \<Rightarrow> nat list \<Rightarrow> nat list \<Rightarrow> HavlakLoopFinder \<Rightarrow> havlak \<Rightarrow> bool" where
  "ready cfg bbs us me h \<longleftrightarrow> f_cfg me = cfg \<and> dinv (f_number me) \<and> dabs (f_number me) = Map.empty \<and>
     vrep (f_nodes me) us \<and> firstIdx (f_nodes me) = 0 \<and> length us = length bbs \<and> distinct us \<and> 0 \<notin> set us \<and>
     (\<forall>u \<in> set us. ufs h u = Some fresh_node) \<and> vcells (f_last me) (length bbs)"

lemma prepare_ready:
  assumes map: "vrep (basicBlockMap cfg) bbs" and n: "bbs \<noteq> []" "int (length bbs) * 8 \<le> INT_MAX" and u: "0 < u_next h"
  shows "\<exists>me h' us. rbind (HavlakLoopFinder_init cfg lsg h) (\<lambda>me. findLoops_prepare (me, h)) = Inr (me, h') \<and>
    ready cfg bbs us me h' \<and> blocks h' = blocks h"
proof -
  let ?n = "length bbs"
  obtain d :: "(nat, int) dictionary" where d: "Dictionary_create 8 4 (Some (BasicBlock_hash (blocks h))) = Inr d" "dinv d"
    using Dictionary_create_ok by blast
  obtain d' where d': "Dictionary_removeAll d = Inr d'" "dinv d'" "dabs d' = Map.empty"
    using Dictionary_removeAll_ok [OF d(2)] by blast
  have size: "ControlFlowGraph_getNumNodes cfg = int ?n"
    using Vector_size_vrep [OF map] by (simp add: ControlFlowGraph_getNumNodes_def)
  define me0 where "me0 = \<lparr>f_cfg = cfg, f_lsg = lsg, nonBackPreds = zero_vec 8 ?n, backPreds = zero_vec 8 ?n, f_number = d',
    maxSize = int ?n, f_header = zero_vec 4 ?n, f_type = zero_vec 4 ?n, f_last = zero_vec 4 ?n, f_nodes = zero_vec 8 ?n,
    f_sets = Map.empty, s_next = 1, f_preds = Map.empty, p_next = 1\<rparr>"
  have run: "rbind (HavlakLoopFinder_init cfg lsg h) (\<lambda>me. findLoops_prepare (me, h)) = rfold findLoops_node [0..<?n] (me0, h)"
    using n d(1) d'(1)
    by (simp add: HavlakLoopFinder_init_def zero_vec_new findLoops_prepare_def size dispose_nonBackPreds_def zero_vec_size
        dispose_backPreds_def findLoops_expand_def zero_vec_expand me0_def)
  obtain v h' where v: "rfold findLoops_node [0..<?n] (me0, h) = Inr (me0\<lparr>f_nodes := v\<rparr>, h')"
    "vrep v (map (\<lambda>j. u_next h + j) [0..<?n])" "firstIdx v = 0" "blocks h' = blocks h"
    "\<forall>j < ?n. ufs h' (u_next h + j) = Some fresh_node"
    using findLoops_nodes [of me0 ?n ?n h] by (auto simp: me0_def)
  have "\<forall>x \<in> set (map (\<lambda>j. u_next h + j) [0..<?n]). ufs h' x = Some fresh_node"
    unfolding set_map set_upt by (rule ballI, erule imageE) (use v(5) in simp)
  moreover have "0 \<notin> set (map (\<lambda>j. u_next h + j) [0..<?n])" using u by auto
  ultimately have "ready cfg bbs (map (\<lambda>j. u_next h + j) [0..<?n]) (me0\<lparr>f_nodes := v\<rparr>) h'"
    unfolding ready_def using v d' by (simp add: me0_def zero_vec_cells distinct_map)
  then show ?thesis using run v by auto
qed

section \<open>All blocks unvisited\<close>

lemma number_all:
  assumes bs: "\<And>b. b \<in> set bbs \<Longrightarrow> b \<noteq> 0 \<and> blocks h b \<noteq> None" and map: "vrep m bbs" "firstIdx m = 0"
    and d: "dinv (f_number me)" "dabs (f_number me) = Map.empty" and n: "length bbs < 2 ^ 30"
  shows "i \<le> length bbs \<Longrightarrow> \<exists>d'. rfold (\<lambda>i me. rbind (Vector_at m (int i)) (\<lambda>bb. number_put bb UNVISITED (me, h))) [0..<i] me =
      Inr (me\<lparr>f_number := d'\<rparr>) \<and> dinv d' \<and> dabs d' = (\<lambda>b. if b \<in> set (take i bbs) then Some UNVISITED else None)"
proof (induction i)
  case 0
  have "me\<lparr>f_number := f_number me\<rparr> = me" by simp
  then show ?case using d by (intro exI [of _ "f_number me"]) simp
next
  case (Suc i)
  then obtain d' where d': "rfold (\<lambda>i me. rbind (Vector_at m (int i)) (\<lambda>bb. number_put bb UNVISITED (me, h))) [0..<i] me =
      Inr (me\<lparr>f_number := d'\<rparr>)" "dinv d'" "dabs d' = (\<lambda>b. if b \<in> set (take i bbs) then Some UNVISITED else None)" by auto
  let ?b = "bbs ! i"
  have b: "?b \<noteq> 0" "blocks h ?b \<noteq> None" using bs [of ?b] Suc.prems by auto
  have "dom (dabs d') = set (take i bbs)" using d'(3) by (auto split: if_splits)
  then have "sz d' \<le> i" using dinv_card [OF d'(2)] card_length [of "take i bbs"] by simp
  then have "droom d' (Suc 0)" using n Suc.prems by (simp add: droom_def)
  then obtain e where e: "Dictionary_atPut ?b UNVISITED d' = Inr e" "dinv e" "dabs e = (dabs d')(?b \<mapsto> UNVISITED)"
    using Dictionary_atPut_ok [OF d'(2), of 0 ?b UNVISITED] by auto
  have "Vector_at m (int i) = Inr ?b" using Vector_at_vrep [OF map, of "int i"] Suc.prems by simp
  then have "rfold (\<lambda>i me. rbind (Vector_at m (int i)) (\<lambda>bb. number_put bb UNVISITED (me, h))) [0..<Suc i] me =
      Inr (me\<lparr>f_number := e\<rparr>)"
    using d'(1) e(1) b by (auto simp: rfold_append number_put_def load_def)
  moreover have "dabs e = (\<lambda>b. if b \<in> set (take (Suc i) bbs) then Some UNVISITED else None)"
    unfolding e(3) d'(3) using Suc.prems by (auto simp: take_Suc_conv_app_nth fun_eq_iff)
  ultimately show ?case using e(2) by blast
qed


section \<open>What the search finds\<close>

lemma result_reach:
  assumes r: "dfs_result out c b l X num L num' L'" and num: "\<And>x. num x = UNVISITED"
  shows "X = {y. (\<lambda>x y. y \<in> set (out x))\<^sup>*\<^sup>* b y}"
proof (intro equalityI subsetI CollectI)
  fix y assume y: "y \<in> X"
  have X: "renumbers X c l num num'" "b \<in> X" "num' b = c" "L' c = l" "spanned out num' L' X b" using r by (simp_all add: dfs_result_def)
  then have "(later out num' b)\<^sup>*\<^sup>* b y" using renumbers_range [OF X(1) y] y by (simp add: spanned_def)
  then show "(\<lambda>x y. y \<in> set (out x))\<^sup>*\<^sup>* b y" by (rule rtranclp_mono [THEN predicate2D, rotated]) (auto simp: later_def)
next
  fix y assume "y \<in> {y. (\<lambda>x y. y \<in> set (out x))\<^sup>*\<^sup>* b y}"
  then have "(\<lambda>x y. y \<in> set (out x))\<^sup>*\<^sup>* b y" by simp
  then show "y \<in> X"
  proof (induction rule: rtranclp_induct)
    case base
    show ?case using r by (simp add: dfs_result_def)
  next
    case (step y z)
    then have "num' z \<noteq> UNVISITED" using r by (auto simp: dfs_result_def closed_def)
    then show ?case using r num by (auto simp: dfs_result_def renumbers_def)
  qed
qed

lemma result_ancestor:
  assumes r: "dfs_result out c b l X num L num' L'" and num: "\<And>x. num x = UNVISITED" and x: "x \<in> X" and y: "y \<in> X"
  shows "num' x \<le> num' y \<and> num' y \<le> L' (num' x) \<longleftrightarrow> (later out num' x)\<^sup>*\<^sup>* x y"
proof
  have "spanned out num' L' X x" using r x by (simp add: dfs_result_def)
  then show "num' x \<le> num' y \<and> num' y \<le> L' (num' x) \<Longrightarrow> (later out num' x)\<^sup>*\<^sup>* x y" using y by (simp add: spanned_def)
next
  have X: "renumbers X c l num num'" using r by (simp add: dfs_result_def)
  have nested: "nested L' l (num' x)" using r renumbers_range [OF X x] by (simp add: dfs_result_def)
  assume "(later out num' x)\<^sup>*\<^sup>* x y"
  then have "y \<in> X \<and> num' x \<le> num' y \<and> num' y \<le> L' (num' x)"
  proof (induction rule: rtranclp_induct)
    case base
    show ?case using x nested by (simp add: nested_def)
  next
    case (step y z)
    then have z: "z \<in> set (out y)" "num' x < num' z" by (simp_all add: later_def)
    have "closed out num' L' y" using r step.IH by (simp add: dfs_result_def)
    then have c: "num' z \<noteq> UNVISITED" "num' y \<le> num' z \<longrightarrow> num' z \<le> L' (num' y)" using z(1) by (simp_all add: closed_def)
    moreover have "z \<in> X" using c(1) X num by (auto simp: renumbers_def)
    moreover have "L' (num' y) \<le> L' (num' x)" using nested step.IH by (simp add: nested_def)
    ultimately show ?case using z(2) step.IH by (cases "num' y \<le> num' z") auto
  qed
  then show "num' x \<le> num' y \<and> num' y \<le> L' (num' x)" by simp
qed

lemma isAncestor_last:
  assumes "vcells (f_last me) n" "0 \<le> w" "w < int n"
  shows "HavlakLoopFinder_isAncestor me w v = Inr (w \<le> v \<and> v \<le> last_of me w)"
  using vcells_at [OF assms(1), of "nat w"] assms(2,3) by (simp add: HavlakLoopFinder_isAncestor_def last_of_def)

section \<open>The search from the start block\<close>

lemma initAllNodes_dfs:
  assumes r: "ready cfg bbs us me h" and G: "dfs_graph (blocks h) (set bbs) out"
    and map: "vrep (basicBlockMap cfg) bbs" "firstIdx (basicBlockMap cfg) = 0"
    and n: "distinct bbs" "length bbs < 2 ^ 30" "length bbs \<le> k" and start: "startNode cfg \<in> set bbs"
  shows "\<exists>me' h' l X L. HavlakLoopFinder_initAllNodes k (me, h) = Inr (me', h') \<and>
    dfs_result out 0 (startNode cfg) l X (\<lambda>x. UNVISITED) L (number_of me') (last_of me') \<and>
    X \<subseteq> set bbs \<and> dfs_state (set bbs) us me' h' \<and> nodes_set us (number_of me') X h h'"
proof -
  have bs: "b \<noteq> 0 \<and> blocks h b \<noteq> None" if "b \<in> set bbs" for b using G that by (auto simp: dfs_graph_def intro: ccontr)
  obtain d where d: "rfold (\<lambda>i me. rbind (Vector_at (basicBlockMap cfg) (int i)) (\<lambda>bb. number_put bb UNVISITED (me, h)))
      [0..<length bbs] me = Inr (me\<lparr>f_number := d\<rparr>)" "dinv d" "dabs d = (\<lambda>b. if b \<in> set bbs then Some UNVISITED else None)"
    using number_all [OF bs map, of me "length bbs"] r n(2) by (auto simp: ready_def)
  let ?me = "me\<lparr>f_number := d\<rparr>"
  have num: "number_of ?me = (\<lambda>x. UNVISITED)" using d(3) by (simp add: number_of_def fun_eq_iff)
  have un: "unvisited (set bbs) ?me = set bbs" by (simp add: unvisited_def num)
  have dom: "dom (dabs d) = set bbs" using d(3) by (auto split: if_splits)
  have st: "dfs_state (set bbs) us ?me h"
    using r d(2) dom n distinct_card [OF n(1)] by (auto simp: ready_def dfs_state_def)
  have "counted (set bbs) ?me 0" by (simp add: counted_def un bij_betw_def)
  then have "dfs_call out (set bbs) us 0 (startNode cfg) (?me, h) (HavlakLoopFinder_doDFS k (startNode cfg) 0 (?me, h))"
    using st start n card_length [of bbs] by (intro doDFS_ok [OF G]) (simp_all add: un num)
  then obtain l me' h' X where run: "HavlakLoopFinder_doDFS k (startNode cfg) 0 (?me, h) = Inr (l, me', h')"
    and res: "dfs_result out 0 (startNode cfg) l X (\<lambda>x. UNVISITED) (last_of ?me) (number_of me') (last_of me')"
    and f: "dfs_frame (set bbs) us X (?me, h) (me', h')" by (auto simp: dfs_call_def num)
  have "HavlakLoopFinder_initAllNodes k (me, h) = Inr (me', h')"
    using d(1) run r Vector_size_vrep [OF map(1)]
    by (simp add: HavlakLoopFinder_initAllNodes_def ready_def ControlFlowGraph_getBasicBlocks_def ControlFlowGraph_getStartBasicBlock_def)
  then show ?thesis using res f unfolding dfs_frame_def by blast
qed


lemma initAllNodes_nodes:
  assumes st: "dfs_state V us me' h'" and ns: "nodes_set us num X h h'" and r: "ready cfg bbs us me h"
    and X: "bij_betw num X {0..<int n}" "n \<le> card V"
  shows "b \<in> X \<Longrightarrow> rbind (Vector_at (f_nodes me') (num b)) (\<lambda>u. UnionFindNode_getBb u h') = Inr b"
    and "n \<le> i \<Longrightarrow> i < card V \<Longrightarrow> rbind (Vector_at (f_nodes me') (int i)) (\<lambda>u. UnionFindNode_getBb u h') = Inr 0"
proof -
  have us: "length us = card V" "distinct us" "0 \<notin> set us" "vrep (f_nodes me') us" "firstIdx (f_nodes me') = 0"
    using st by (simp_all add: dfs_state_def)
  have node: "Vector_at (f_nodes me') (int i) = Inr (us ! i)" "us ! i \<noteq> 0" "us ! i \<in> set us" if "i < card V" for i
  proof -
    show "us ! i \<in> set us" "Vector_at (f_nodes me') (int i) = Inr (us ! i)"
      using Vector_at_vrep [OF us(4,5), of "int i"] us(1) that by simp_all
    then show "us ! i \<noteq> 0" using us(3) by metis
  qed
  have range: "0 \<le> num b" "nat (num b) < n" if "b \<in> X" for b using bij_betwE [OF X(1)] that by auto
  show "rbind (Vector_at (f_nodes me') (num b)) (\<lambda>u. UnionFindNode_getBb u h') = Inr b" if "b \<in> X"
  proof -
    have "ufs h' (us ! nat (num b)) = Some (node_of us (num b) b)" using ns that by (simp add: nodes_set_def)
    then show ?thesis
      using node [of "nat (num b)"] range [OF that] X(2) by (simp add: UnionFindNode_getBb_def load_def node_of_def)
  qed
  show "rbind (Vector_at (f_nodes me') (int i)) (\<lambda>u. UnionFindNode_getBb u h') = Inr 0" if i: "n \<le> i" "i < card V"
  proof -
    have "us ! i \<noteq> us ! nat (num b)" if "b \<in> X" for b
      using nth_eq_iff_index_eq [OF us(2), of i "nat (num b)"] range [OF that] i us(1) by simp
    then have "ufs h' (us ! i) = ufs h (us ! i)" using ns by (auto simp: nodes_set_def)
    then show ?thesis
      using node [OF i(2)] r by (simp add: ready_def UnionFindNode_getBb_def load_def fresh_node_def)
  qed
qed

section \<open>Properties\<close>

text \<open>C24: on every well-formed control-flow graph a new finder numbers exactly the blocks that can be
  reached from the start block, \<open>0\<close> being the start block and no number left out or given twice; the
  other blocks stay unvisited. \<open>nodes\<close> leads from a number to its block, and to the null block for
  the numbers that are left over. For reachable blocks \<open>HavlakLoopFinder_isAncestor\<close> answers whether
  there is a path from the one to the other through blocks with greater numbers than the first, so
  that its comparisons decide reachability below the header of a loop.
\<close>

theorem initAllNodes_numbers_reachable:
  assumes "vrep (basicBlockMap cfg) bbs" "firstIdx (basicBlockMap cfg) = 0" "distinct bbs" "startNode cfg \<in> set bbs"
    and "dfs_graph (blocks h) (set bbs) out" "0 < u_next h" "int (length bbs) * 8 \<le> INT_MAX" "length bbs \<le> k"
  shows "\<exists>me h' R. rbind (HavlakLoopFinder_init cfg lsg h) (\<lambda>me.
        rbind (findLoops_prepare (me, h)) (HavlakLoopFinder_initAllNodes k)) = Inr (me, h') \<and>
    R = {b. (\<lambda>a b. b \<in> set (out a))\<^sup>*\<^sup>* (startNode cfg) b} \<and>
    number_of me (startNode cfg) = 0 \<and> bij_betw (number_of me) R {0..<int (card R)} \<and>
    (\<forall>b. b \<notin> R \<longrightarrow> number_of me b = UNVISITED) \<and>
    (\<forall>b \<in> R. rbind (Vector_at (f_nodes me) (number_of me b)) (\<lambda>u. UnionFindNode_getBb u h') = Inr b) \<and>
    (\<forall>i. card R \<le> i \<and> i < length bbs \<longrightarrow>
      rbind (Vector_at (f_nodes me) (int i)) (\<lambda>u. UnionFindNode_getBb u h') = Inr 0) \<and>
    (\<forall>a \<in> R. \<forall>b \<in> R. HavlakLoopFinder_isAncestor me (number_of me a) (number_of me b) =
      Inr ((later out (number_of me) a)\<^sup>*\<^sup>* a b))"
proof -
  have "bbs \<noteq> []" using assms(4) by auto
  then obtain me h1 us where p: "rbind (HavlakLoopFinder_init cfg lsg h) (\<lambda>me. findLoops_prepare (me, h)) = Inr (me, h1)"
    "ready cfg bbs us me h1" "blocks h1 = blocks h"
    using prepare_ready [OF assms(1) _ assms(7,6)] by blast
  have G: "dfs_graph (blocks h1) (set bbs) out" using assms(5) p(3) by simp
  have "length bbs < 2 ^ 30" using assms(7) by (simp add: INT_MAX_def)
  then obtain me' h' l X L where run: "HavlakLoopFinder_initAllNodes k (me, h1) = Inr (me', h')"
    and r: "dfs_result out 0 (startNode cfg) l X (\<lambda>x. UNVISITED) L (number_of me') (last_of me')"
    and X: "X \<subseteq> set bbs" and st: "dfs_state (set bbs) us me' h'" and ns: "nodes_set us (number_of me') X h1 h'"
    using initAllNodes_dfs [OF p(2) _ assms(1,2,3) _ assms(8,4)] G by blast
  have ren: "renumbers X 0 l (\<lambda>x. UNVISITED) (number_of me')" using r by (simp add: dfs_result_def)
  have "card X = card {0..l}" using ren by (auto simp: renumbers_def dest: bij_betw_same_card)
  then have l: "int (card X) = l + 1" using renumbers_range [OF ren] r by (force simp: dfs_result_def)
  then have bij: "bij_betw (number_of me') X {0..<int (card X)}"
    using ren by (simp add: renumbers_def atLeastLessThanPlusOne_atLeastAtMost_int)
  have n: "card X \<le> card (set bbs)" "card (set bbs) = length bbs" using X card_mono [OF finite_set, of X bbs] distinct_card [OF assms(3)] by simp_all
  have anc: "HavlakLoopFinder_isAncestor me' (number_of me' a) (number_of me' b) = Inr ((later out (number_of me') a)\<^sup>*\<^sup>* a b)"
    if "a \<in> X" "b \<in> X" for a b
  proof -
    have "vcells (f_last me') (card (set bbs))" using st by (simp add: dfs_state_def)
    then show ?thesis
      using isAncestor_last [of me' "card (set bbs)" "number_of me' a"] bij_betwE [OF bij] that n
        result_ancestor [OF r refl that] by force
  qed
  have all: "rbind (HavlakLoopFinder_init cfg lsg h) (\<lambda>me.
      rbind (findLoops_prepare (me, h)) (HavlakLoopFinder_initAllNodes k)) = Inr (me', h')"
    using p(1) run by (simp add: rbind_assoc [symmetric])
  have un: "number_of me' b = UNVISITED" if "b \<notin> X" for b using ren that by (simp add: renumbers_def)
  have zero: "number_of me' (startNode cfg) = 0" using r by (simp add: dfs_result_def)
  note nodes = initAllNodes_nodes [OF st ns p(2) bij n(1)]
  show ?thesis
    using all result_reach [OF r refl] zero bij un nodes anc n(2) by (intro exI [of _ me'] exI [of _ h'] exI [of _ X]) simp
qed


text \<open>The blocks \<open>1\<close>, \<open>2\<close>, \<open>3\<close> with a loop from \<open>3\<close> back to \<open>2\<close>, and a dead block \<open>4\<close>.\<close>

definition vec_of :: "nat list \<Rightarrow> nat vector" where
  "vec_of xs = \<lparr>firstIdx = 0, lastIdx = length xs, vlength = length xs, elemSize = 8, storage = map Some xs\<rparr>"

definition small_out :: "nat \<Rightarrow> nat list" where
  "small_out b = (if b = 2 then [3] else if b = 4 then [1] else [2])"

definition small_heap :: havlak where
  "small_heap = no_heap\<lparr>blocks := (\<lambda>b. if b \<in> {1, 2, 3, 4}
     then Some \<lparr>inEdges = vec_of (filter (\<lambda>a. b \<in> set (small_out a)) [1, 2, 3, 4]), outEdges = vec_of (small_out b),
       bb_name = int b\<rparr> else None)\<rparr>"

definition small_cfg :: ControlFlowGraph where
  "small_cfg = \<lparr>basicBlockMap = vec_of [1, 2, 3, 4], startNode = 1, edgeList = vec_of []\<rparr>"

definition small_lsg :: LoopStructureGraph where
  "small_lsg = \<lparr>root = 0, loops = vec_of [], loopCounter = 0\<rparr>"

lemma vec_of_vrep: "vrep (vec_of xs) xs" "firstIdx (vec_of xs) = 0"
  by (simp_all add: vec_of_def vrep_def vinv_def)

lemma small_reach: "{b. (\<lambda>a b. b \<in> set (small_out a))\<^sup>*\<^sup>* 1 b} = {1, 2, 3}"
proof (intro equalityI subsetI)
  fix b assume "b \<in> {b. (\<lambda>a b. b \<in> set (small_out a))\<^sup>*\<^sup>* 1 b}"
  then have "(\<lambda>a b. b \<in> set (small_out a))\<^sup>*\<^sup>* 1 b" by simp
  then show "b \<in> {1, 2, 3}" by (induction rule: rtranclp_induct) (auto simp: small_out_def)
next
  fix b :: nat assume b: "b \<in> {1, 2, 3}"
  have 12: "(\<lambda>a b. b \<in> set (small_out a))\<^sup>*\<^sup>* 1 2" by (rule r_into_rtranclp) (simp add: small_out_def)
  have 13: "(\<lambda>a b. b \<in> set (small_out a))\<^sup>*\<^sup>* 1 3" by (rule rtranclp.rtrancl_into_rtrancl [OF 12]) (simp add: small_out_def)
  show "b \<in> {b. (\<lambda>a b. b \<in> set (small_out a))\<^sup>*\<^sup>* 1 b}" using b 12 13 by auto
qed

lemma initAllNodes_numbers_reachable_witness:
  "\<exists>me h'. rbind (HavlakLoopFinder_init small_cfg small_lsg small_heap) (\<lambda>me.
      rbind (findLoops_prepare (me, small_heap)) (HavlakLoopFinder_initAllNodes 4)) = Inr (me, h') \<and>
    bij_betw (number_of me) {1, 2, 3} {0..<3} \<and> number_of me 4 = UNVISITED \<and>
    rbind (Vector_at (f_nodes me) 3) (\<lambda>u. UnionFindNode_getBb u h') = Inr 0"
proof -
  have "dfs_graph (blocks small_heap) (set [1, 2, 3, 4]) small_out"
    by (simp add: dfs_graph_def small_heap_def vec_of_vrep small_out_def)
  then obtain me h' R where run: "rbind (HavlakLoopFinder_init small_cfg small_lsg small_heap) (\<lambda>me.
      rbind (findLoops_prepare (me, small_heap)) (HavlakLoopFinder_initAllNodes 4)) = Inr (me, h')"
    and R: "R = {b. (\<lambda>a b. b \<in> set (small_out a))\<^sup>*\<^sup>* (startNode small_cfg) b}"
    and res: "bij_betw (number_of me) R {0..<int (card R)}" "\<forall>b. b \<notin> R \<longrightarrow> number_of me b = UNVISITED"
      "\<forall>i. card R \<le> i \<and> i < length [1 :: nat, 2, 3, 4] \<longrightarrow>
        rbind (Vector_at (f_nodes me) (int i)) (\<lambda>u. UnionFindNode_getBb u h') = Inr 0"
    using initAllNodes_numbers_reachable [where cfg = small_cfg and bbs = "[1, 2, 3, 4]" and h = small_heap and out = small_out
        and lsg = small_lsg and k = 4]
    by (force simp: small_cfg_def vec_of_vrep small_heap_def no_heap_def INT_MAX_def)
  have R': "R = {1, 2, 3}" using R small_reach by (simp add: small_cfg_def)
  have "rbind (Vector_at (f_nodes me) 3) (\<lambda>u. UnionFindNode_getBb u h') = Inr 0"
    using res(3) [rule_format, of 3] by (simp add: R')
  then show ?thesis using run res(1,2) by (intro exI [of _ me] exI [of _ h']) (simp add: R')
qed

end
