(* ===== verification/HavlakGraph.thy ===== *)
theory HavlakGraph
  imports HavlakDFS
begin

text \<open>
  The control-flow graphs of the benchmark: the operations on blocks and edges refine a number of
  nodes and a list of edges between their names, and \<open>LoopTesterApp_constructCFG\<close> builds the list
  of edges of its nested loops.
\<close>

section \<open>Vectors of pointers\<close>

definition vec8 :: "nat vector \<Rightarrow> nat list \<Rightarrow> bool" where
  "vec8 v xs \<longleftrightarrow> vrep v xs \<and> firstIdx v = 0 \<and> elemSize v = 8"

lemma vec8_new: "\<exists>v. Vector_createDefault 8 = Inr v \<and> vec8 v []"
  by (auto simp: Vector_createDefault_def Vector_create_def Vector_expand_def vec8_def vrep_def vinv_def)

lemma vec8_append:
  assumes "vec8 v xs" "length xs < 2 ^ 20"
  shows "\<exists>v'. Vector_append v x = Inr v' \<and> vec8 v' (xs @ [x])"
proof -
  have "vroom v (Suc 0)" using assms vrep_last [of v xs] by (simp add: vec8_def vroom_def INT_MAX_def)
  then obtain v' where v': "Vector_append v x = Inr v'" "vrep v' (xs @ [x])"
    using Vector_append_vrep [of v xs 0 x] assms(1) by (auto simp: vec8_def)
  moreover have "elemSize v' = elemSize v"
    using v'(1) by (auto simp: Vector_append_def enlarge_def Vector_expand_def c_simps split: if_splits)
  ultimately show ?thesis using Vector_append_firstIdx [OF v'(1)] assms(1) by (auto simp: vec8_def)
qed

lemma atPut_append: "Vector_atPut v (int (lastIdx v)) x = Vector_append v x"
proof (cases "vlength v \<le> lastIdx v")
  case True
  show ?thesis
  proof (cases "enlarge v (int (lastIdx v))")
    case (Inr w)
    then have "lastIdx w = lastIdx v" by (auto simp: enlarge_def Vector_expand_def c_simps split: if_splits)
    then show ?thesis using True Inr by (simp add: Vector_atPut_def Vector_append_def Let_def nat_add_distrib)
  qed (use True in \<open>simp add: Vector_atPut_def Vector_append_def\<close>)
qed (simp add: Vector_atPut_def Vector_append_def Let_def nat_add_distrib)

lemma vec8_atPut_end:
  assumes "vec8 v xs" "length xs < 2 ^ 20"
  shows "\<exists>v'. Vector_atPut v (int (length xs)) x = Inr v' \<and> vec8 v' (xs @ [x])"
  using vec8_append [OF assms, of x] atPut_append [of v x] vrep_last [of v xs] assms(1) by (simp add: vec8_def)

lemma vec8_at: "vec8 v xs \<Longrightarrow> i < length xs \<Longrightarrow> Vector_at v (int i) = Inr (xs ! i)"
  using Vector_at_vrep [of v xs "int i"] by (simp add: vec8_def)

lemma vec8_size: "vec8 v xs \<Longrightarrow> Vector_size v = int (length xs)"
  using Vector_size_vrep [of v xs] by (simp add: vec8_def)

section \<open>Graphs as lists of edges\<close>

type_synonym edge_list = "(nat \<times> nat) list"

definition succs :: "nat list \<Rightarrow> edge_list \<Rightarrow> nat \<Rightarrow> nat list" where
  "succs bbs es i = map (\<lambda>e. bbs ! snd e) (filter (\<lambda>e. fst e = i) es)"

definition preds :: "nat list \<Rightarrow> edge_list \<Rightarrow> nat \<Rightarrow> nat list" where
  "preds bbs es i = map (\<lambda>e. bbs ! fst e) (filter (\<lambda>e. snd e = i) es)"

definition node_rep :: "nat list \<Rightarrow> edge_list \<Rightarrow> edge_list \<Rightarrow> nat \<Rightarrow> BasicBlock \<Rightarrow> bool" where
  "node_rep bbs eo ei i x \<longleftrightarrow> bb_name x = int i \<and> vec8 (outEdges x) (succs bbs eo i) \<and> vec8 (inEdges x) (preds bbs ei i)"

text \<open>
  The blocks are \<open>bbs\<close>, in the order of their names; the edges are \<open>eo\<close> at their sources, \<open>ei\<close> at
  their targets and \<open>el\<close> in the list, which differ only in the middle of an insertion. The
  addresses of the edges are below \<open>en\<close>.
\<close>

definition graph_rep :: "nat list \<Rightarrow> edge_list \<Rightarrow> edge_list \<Rightarrow> edge_list \<Rightarrow> nat \<Rightarrow> ControlFlowGraph \<times> havlak \<Rightarrow> bool" where
  "graph_rep bbs eo ei el en = (\<lambda>(cfg, h). vec8 (basicBlockMap cfg) bbs \<and> distinct bbs \<and> 0 < b_next h \<and>
     (\<forall>b \<in> set bbs. 0 < b \<and> b < b_next h) \<and> (bbs \<noteq> [] \<longrightarrow> startNode cfg = hd bbs) \<and>
     (\<forall>i < length bbs. \<exists>x. blocks h (bbs ! i) = Some x \<and> node_rep bbs eo ei i x) \<and>
     (\<forall>e \<in> set eo \<union> set ei \<union> set el. fst e < length bbs \<and> snd e < length bbs) \<and> en \<le> e_next h \<and>
     (\<exists>es. vec8 (edgeList cfg) es \<and>
       list_all2 (\<lambda>e (a, b). e < en \<and> edges h e = Some \<lparr>e_from = bbs ! a, e_to = bbs ! b\<rparr>) es el))"

lemma ends_append:
  assumes "\<And>e. e \<in> set es \<Longrightarrow> fst e < length bbs \<and> snd e < length bbs"
  shows "succs (bbs @ cs) es i = succs bbs es i" "preds (bbs @ cs) es i = preds bbs es i"
  using assms by (auto simp: succs_def preds_def nth_append)

lemma no_ends:
  assumes "\<And>e. e \<in> set es \<Longrightarrow> fst e < n \<and> snd e < n"
  shows "succs bbs es n = []" "preds bbs es n = []"
  using assms by (fastforce simp: succs_def preds_def filter_empty_conv)+

lemma createNode_old:
  assumes g: "graph_rep bbs eo ei el en (cfg, h)" and i: "i < length bbs"
  shows "ControlFlowGraph_createNode (int i) (cfg, h) = Inr (bbs ! i, cfg, h)"
proof -
  have v: "vec8 (basicBlockMap cfg) bbs" "startNode cfg = hd bbs" and pos: "\<forall>b \<in> set bbs. 0 < b"
    using g i by (auto simp: graph_rep_def)
  have "bbs ! i \<noteq> 0" using pos i nth_mem by fastforce
  moreover have "cfg\<lparr>startNode := bbs ! i\<rparr> = cfg" if "length bbs = 1"
    using v(2) i that by (cases bbs) auto
  ultimately show ?thesis
    using i by (simp add: ControlFlowGraph_createNode_def ControlFlowGraph_getNumNodes_def vec8_size [OF v(1)] vec8_at [OF v(1) i])
qed

lemma createNode_new:
  assumes g: "graph_rep bbs eo ei el en (cfg, h)" and n: "length bbs < 2 ^ 20"
  shows "\<exists>cfg' h'. ControlFlowGraph_createNode (int (length bbs)) (cfg, h) = Inr (b_next h, cfg', h') \<and>
    graph_rep (bbs @ [b_next h]) eo ei el en (cfg', h') \<and> e_next h' = e_next h"
proof -
  let ?n = "length bbs" and ?b = "b_next h"
  have v: "vec8 (basicBlockMap cfg) bbs" using g by (simp add: graph_rep_def)
  obtain v' where v': "Vector_atPut (basicBlockMap cfg) (int ?n) ?b = Inr v'" "vec8 v' (bbs @ [?b])"
    using vec8_atPut_end [OF v n] by blast
  obtain w where w: "Vector_createDefault 8 = Inr w" "vec8 w []" using vec8_new by blast
  define x where "x = \<lparr>inEdges = w, outEdges = w, bb_name = int ?n\<rparr>"
  define h' where "h' = h\<lparr>blocks := (blocks h)(?b \<mapsto> x), b_next := Suc ?b\<rparr>"
  define cfg' where "cfg' = (if ?n = 0 then cfg\<lparr>basicBlockMap := v', startNode := ?b\<rparr> else cfg\<lparr>basicBlockMap := v'\<rparr>)"
  have run: "ControlFlowGraph_createNode (int ?n) (cfg, h) = Inr (?b, cfg', h')"
    using v' w(1)
    by (simp add: ControlFlowGraph_createNode_def ControlFlowGraph_getNumNodes_def vec8_size [OF v] vec8_size [OF v'(2)]
        BasicBlock_create_def h'_def cfg'_def x_def)
  have ends: "fst e < ?n \<and> snd e < ?n" if "e \<in> set eo \<union> set ei \<union> set el" for e using g that by (simp add: graph_rep_def)
  have node: "\<exists>y. blocks h' ((bbs @ [?b]) ! i) = Some y \<and> node_rep (bbs @ [?b]) eo ei i y" if "i < Suc ?n" for i
  proof (cases "i = ?n")
    case True
    have "succs (bbs @ [?b]) eo ?n = []" "preds (bbs @ [?b]) ei ?n = []"
      using no_ends(1) [of eo ?n] no_ends(2) [of ei ?n] ends by auto
    then show ?thesis using True w(2) by (simp add: h'_def x_def node_rep_def)
  next
    case False
    then have i: "i < ?n" using that by simp
    then obtain y where y: "blocks h (bbs ! i) = Some y" "node_rep bbs eo ei i y" using g by (auto simp: graph_rep_def)
    have "bbs ! i \<noteq> ?b" using g i nth_mem [OF i] by (fastforce simp: graph_rep_def)
    then show ?thesis
      using i y ends_append [of eo bbs "[?b]" i] ends_append [of ei bbs "[?b]" i] ends by (simp add: h'_def nth_append node_rep_def)
  qed
  obtain es where es: "vec8 (edgeList cfg) es" "list_all2 (\<lambda>e (a, b). e < en \<and> edges h e = Some \<lparr>e_from = bbs ! a, e_to = bbs ! b\<rparr>) es el"
    using g by (auto simp: graph_rep_def)
  have es': "list_all2 (\<lambda>e (a, b). e < en \<and> edges h' e = Some \<lparr>e_from = (bbs @ [?b]) ! a, e_to = (bbs @ [?b]) ! b\<rparr>) es el"
  proof (rule list.rel_mono_strong [OF es(2)])
    fix e p assume "p \<in> set el" "case p of (a, b) \<Rightarrow> e < en \<and> edges h e = Some \<lparr>e_from = bbs ! a, e_to = bbs ! b\<rparr>"
    then show "case p of (a, b) \<Rightarrow> e < en \<and> edges h' e = Some \<lparr>e_from = (bbs @ [?b]) ! a, e_to = (bbs @ [?b]) ! b\<rparr>"
      using ends [of p] by (auto simp: nth_append h'_def)
  qed
  have cfg: "edgeList cfg' = edgeList cfg" "basicBlockMap cfg' = v'" "startNode cfg' = hd (bbs @ [?b])"
    using g by (auto simp: cfg'_def graph_rep_def hd_append)
  have "graph_rep (bbs @ [?b]) eo ei el en (cfg', h')"
    unfolding graph_rep_def prod.case
  proof (intro conjI)
    show "vec8 (basicBlockMap cfg') (bbs @ [?b])" using v'(2) cfg by simp
    show "\<exists>es. vec8 (edgeList cfg') es \<and> list_all2 (\<lambda>e (a, b). e < en \<and>
        edges h' e = Some \<lparr>e_from = (bbs @ [?b]) ! a, e_to = (bbs @ [?b]) ! b\<rparr>) es el"
      using es(1) es' cfg(1) by auto
    show "\<forall>i < length (bbs @ [?b]). \<exists>x. blocks h' ((bbs @ [?b]) ! i) = Some x \<and> node_rep (bbs @ [?b]) eo ei i x"
      using node by simp
    show "\<forall>e \<in> set eo \<union> set ei \<union> set el. fst e < length (bbs @ [?b]) \<and> snd e < length (bbs @ [?b])"
      using ends by (simp add: less_SucI)
  qed (use g cfg in \<open>auto simp: graph_rep_def h'_def less_SucI\<close>)
  then show ?thesis using run by (auto simp: h'_def)
qed

lemma createNode_ok:
  assumes g: "graph_rep bbs eo ei el en (cfg, h)" and i: "i \<le> length bbs" "length bbs < 2 ^ 20"
  shows "\<exists>bbs' cfg' h'. ControlFlowGraph_createNode (int i) (cfg, h) = Inr (bbs' ! i, cfg', h') \<and>
    graph_rep bbs' eo ei el en (cfg', h') \<and> length bbs' = max (length bbs) (Suc i) \<and>
    take (length bbs) bbs' = bbs \<and> e_next h' = e_next h"
proof (cases "i = length bbs")
  case True
  then show ?thesis using createNode_new [OF g i(2)] by (force intro!: exI [of _ "bbs @ [b_next h]"])
next
  case False
  then show ?thesis using createNode_old [OF g] i g by (intro exI [of _ bbs]) auto
qed


lemma graph_set_block:
  assumes g: "graph_rep bbs eo ei el en (cfg, h)" and a: "a < length bbs" and y: "node_rep bbs eo' ei' a y"
    and others: "\<And>i. i \<noteq> a \<Longrightarrow> succs bbs eo' i = succs bbs eo i \<and> preds bbs ei' i = preds bbs ei i"
    and ends: "\<And>e. e \<in> set eo' \<union> set ei' \<Longrightarrow> fst e < length bbs \<and> snd e < length bbs"
  shows "graph_rep bbs eo' ei' el en (cfg, set_block (bbs ! a) y h)"
proof -
  have d: "distinct bbs" using g by (simp add: graph_rep_def)
  have node: "\<exists>x. blocks (set_block (bbs ! a) y h) (bbs ! i) = Some x \<and> node_rep bbs eo' ei' i x" if i: "i < length bbs" for i
  proof (cases "i = a")
    case False
    then have "bbs ! i \<noteq> bbs ! a" using d i a by (simp add: nth_eq_iff_index_eq)
    then show ?thesis using g i others [OF False] by (auto simp: graph_rep_def set_block_def node_rep_def)
  qed (use y in \<open>simp add: set_block_def\<close>)
  show ?thesis
    unfolding graph_rep_def prod.case
  proof (intro conjI)
    show "\<forall>i < length bbs. \<exists>x. blocks (set_block (bbs ! a) y h) (bbs ! i) = Some x \<and> node_rep bbs eo' ei' i x"
      using node by simp
    show "\<forall>e \<in> set eo' \<union> set ei' \<union> set el. fst e < length bbs \<and> snd e < length bbs"
      using ends g by (auto simp: graph_rep_def)
  qed (use g in \<open>simp_all add: graph_rep_def set_block_def\<close>)
qed

lemma graph_node:
  assumes "graph_rep bbs eo ei el en (cfg, h)" "a < length bbs"
  obtains x where "load (blocks h) (bbs ! a) = Inr x" "node_rep bbs eo ei a x"
proof -
  obtain x where "blocks h (bbs ! a) = Some x" "node_rep bbs eo ei a x" using assms by (auto simp: graph_rep_def)
  moreover have "bbs ! a \<noteq> 0" using assms nth_mem [OF assms(2)] by (fastforce simp: graph_rep_def)
  ultimately show ?thesis using that by (simp add: load_def)
qed

lemma addOutEdge_ok:
  assumes g: "graph_rep bbs eo ei el en (cfg, h)" and a: "a < length bbs" "b < length bbs" and n: "length eo < 2 ^ 20"
  shows "\<exists>h'. BasicBlock_addOutEdge (bbs ! a) (bbs ! b) h = Inr h' \<and> graph_rep bbs (eo @ [(a, b)]) ei el en (cfg, h') \<and>
    e_next h' = e_next h"
proof -
  obtain x where x: "load (blocks h) (bbs ! a) = Inr x" "node_rep bbs eo ei a x" using graph_node [OF g a(1)] .
  have "length (succs bbs eo a) < 2 ^ 20"
    using le_less_trans [OF length_filter_le n] by (simp add: succs_def)
  then obtain v where v: "Vector_append (outEdges x) (bbs ! b) = Inr v" "vec8 v (succs bbs eo a @ [bbs ! b])"
    using vec8_append [of "outEdges x" "succs bbs eo a" "bbs ! b"] x(2) by (auto simp: node_rep_def)
  have "node_rep bbs (eo @ [(a, b)]) ei a (x\<lparr>outEdges := v\<rparr>)" using x(2) v(2) by (simp add: node_rep_def succs_def)
  then have "graph_rep bbs (eo @ [(a, b)]) ei el en (cfg, set_block (bbs ! a) (x\<lparr>outEdges := v\<rparr>) h)"
    by (rule graph_set_block [OF g a(1)]) (use g a in \<open>auto simp: succs_def graph_rep_def\<close>)
  then show ?thesis using x(1) v(1) by (auto simp: BasicBlock_addOutEdge_def set_block_def)
qed

lemma addInEdge_ok:
  assumes g: "graph_rep bbs eo ei el en (cfg, h)" and a: "a < length bbs" "b < length bbs" and n: "length ei < 2 ^ 20"
  shows "\<exists>h'. BasicBlock_addInEdge (bbs ! b) (bbs ! a) h = Inr h' \<and> graph_rep bbs eo (ei @ [(a, b)]) el en (cfg, h') \<and>
    e_next h' = e_next h"
proof -
  obtain x where x: "load (blocks h) (bbs ! b) = Inr x" "node_rep bbs eo ei b x" using graph_node [OF g a(2)] .
  have "length (preds bbs ei b) < 2 ^ 20"
    using le_less_trans [OF length_filter_le n] by (simp add: preds_def)
  then obtain v where v: "Vector_append (inEdges x) (bbs ! a) = Inr v" "vec8 v (preds bbs ei b @ [bbs ! a])"
    using vec8_append [of "inEdges x" "preds bbs ei b" "bbs ! a"] x(2) by (auto simp: node_rep_def)
  have "node_rep bbs eo (ei @ [(a, b)]) b (x\<lparr>inEdges := v\<rparr>)" using x(2) v(2) by (simp add: node_rep_def preds_def)
  then have "graph_rep bbs eo (ei @ [(a, b)]) el en (cfg, set_block (bbs ! b) (x\<lparr>inEdges := v\<rparr>) h)"
    by (rule graph_set_block [OF g a(2)]) (use g a in \<open>auto simp: preds_def graph_rep_def\<close>)
  then show ?thesis using x(1) v(1) by (auto simp: BasicBlock_addInEdge_def set_block_def)
qed

lemma addEdge_ok:
  assumes g: "graph_rep bbs eo ei el en (cfg, h)" and a: "a < length bbs" "b < length bbs" and n: "length el < 2 ^ 20"
    and e: "edges h en = Some \<lparr>e_from = bbs ! a, e_to = bbs ! b\<rparr>" "Suc en \<le> e_next h"
  shows "\<exists>cfg'. ControlFlowGraph_addEdge en cfg = Inr cfg' \<and> graph_rep bbs eo ei (el @ [(a, b)]) (Suc en) (cfg', h)"
proof -
  obtain es where es: "vec8 (edgeList cfg) es"
    "list_all2 (\<lambda>e (a, b). e < en \<and> edges h e = Some \<lparr>e_from = bbs ! a, e_to = bbs ! b\<rparr>) es el"
    using g by (auto simp: graph_rep_def)
  have "length es < 2 ^ 20" using list_all2_lengthD [OF es(2)] n by simp
  then obtain v where v: "Vector_append (edgeList cfg) en = Inr v" "vec8 v (es @ [en])"
    using vec8_append [OF es(1)] by blast
  have "list_all2 (\<lambda>e (a, b). e < Suc en \<and> edges h e = Some \<lparr>e_from = bbs ! a, e_to = bbs ! b\<rparr>) es el"
    by (rule list_all2_mono [OF es(2)]) auto
  then have "list_all2 (\<lambda>e (a, b). e < Suc en \<and> edges h e = Some \<lparr>e_from = bbs ! a, e_to = bbs ! b\<rparr>) (es @ [en]) (el @ [(a, b)])"
    using e(1) by (simp add: list_all2_appendI)
  then have "graph_rep bbs eo ei (el @ [(a, b)]) (Suc en) (cfg\<lparr>edgeList := v\<rparr>, h)"
    using g a v(2) e(2) by (auto simp: graph_rep_def)
  then show ?thesis using v(1) by (simp add: ControlFlowGraph_addEdge_def)
qed

lemma graph_heap:
  assumes "graph_rep bbs eo ei el en (cfg, h)" "blocks h' = blocks h" "b_next h' = b_next h" "e_next h \<le> e_next h'"
    "\<And>e. e < en \<Longrightarrow> edges h' e = edges h e"
  shows "graph_rep bbs eo ei el en (cfg, h')"
proof -
  obtain es where es: "vec8 (edgeList cfg) es"
    "list_all2 (\<lambda>e (a, b). e < en \<and> edges h e = Some \<lparr>e_from = bbs ! a, e_to = bbs ! b\<rparr>) es el"
    using assms(1) by (auto simp: graph_rep_def)
  have "list_all2 (\<lambda>e (a, b). e < en \<and> edges h' e = Some \<lparr>e_from = bbs ! a, e_to = bbs ! b\<rparr>) es el"
    by (rule list_all2_mono [OF es(2)]) (use assms(5) in auto)
  then have "\<exists>es. vec8 (edgeList cfg) es \<and>
      list_all2 (\<lambda>e (a, b). e < en \<and> edges h' e = Some \<lparr>e_from = bbs ! a, e_to = bbs ! b\<rparr>) es el"
    using es(1) by blast
  then show ?thesis
    unfolding graph_rep_def prod.case by (intro conjI) (use assms(1-4) in \<open>simp_all add: graph_rep_def\<close>)
qed

definition graph :: "nat list \<Rightarrow> edge_list \<Rightarrow> ControlFlowGraph \<times> havlak \<Rightarrow> bool" where
  "graph bbs es s \<longleftrightarrow> graph_rep bbs es es es (e_next (snd s)) s"

lemma createEdge_ok:
  assumes g: "graph bbs es (cfg, h)" and a: "a \<le> length bbs" "b \<le> max (length bbs) (Suc a)"
    and n: "length bbs < 2 ^ 19" "length es < 2 ^ 19"
  shows "\<exists>bbs' s'. BasicBlockEdge_create (int a) (int b) (cfg, h) = Inr s' \<and> graph bbs' (es @ [(a, b)]) s' \<and>
    length bbs' = max (max (length bbs) (Suc a)) (Suc b)"
proof -
  let ?e = "e_next h" and ?h = "h\<lparr>e_next := Suc (e_next h)\<rparr>"
  have "graph_rep bbs es es es ?e (cfg, ?h)"
    by (rule graph_heap [where h = h]) (use g in \<open>simp_all add: graph_def\<close>)
  then obtain bbs1 cfg1 h1 where 1: "ControlFlowGraph_createNode (int a) (cfg, ?h) = Inr (bbs1 ! a, cfg1, h1)"
    "graph_rep bbs1 es es es ?e (cfg1, h1)" "length bbs1 = max (length bbs) (Suc a)" "e_next h1 = Suc ?e"
    using createNode_ok [of bbs es es es ?e cfg ?h a] a n by auto
  obtain bbs2 cfg2 h2 where 2: "ControlFlowGraph_createNode (int b) (cfg1, h1) = Inr (bbs2 ! b, cfg2, h2)"
    "graph_rep bbs2 es es es ?e (cfg2, h2)" "length bbs2 = max (length bbs1) (Suc b)" "take (length bbs1) bbs2 = bbs1"
    "e_next h2 = Suc ?e"
    using createNode_ok [OF 1(2), of b] a n 1(3,4) by auto
  have ab: "a < length bbs2" "b < length bbs2" using 1(3) 2(3) by auto
  have "bbs1 ! a = take (length bbs1) bbs2 ! a" using 2(4) by simp
  then have src: "bbs1 ! a = bbs2 ! a" using 1(3) by simp
  define h3 where "h3 = h2\<lparr>edges := (edges h2)(?e \<mapsto> \<lparr>e_from = bbs2 ! a, e_to = bbs2 ! b\<rparr>)\<rparr>"
  have "graph_rep bbs2 es es es ?e (cfg2, h3)"
    by (rule graph_heap [OF 2(2)]) (simp_all add: h3_def)
  then obtain h4 where 4: "BasicBlock_addOutEdge (bbs2 ! a) (bbs2 ! b) h3 = Inr h4"
    "graph_rep bbs2 (es @ [(a, b)]) es es ?e (cfg2, h4)" "e_next h4 = e_next h3"
    using addOutEdge_ok [of bbs2 es es es ?e cfg2 h3] ab n by auto
  obtain h5 where 5: "BasicBlock_addInEdge (bbs2 ! b) (bbs2 ! a) h4 = Inr h5"
    "graph_rep bbs2 (es @ [(a, b)]) (es @ [(a, b)]) es ?e (cfg2, h5)" "e_next h5 = e_next h4"
    using addInEdge_ok [OF 4(2) ab] n by auto
  have "edges h5 ?e = edges h3 ?e" "e_next h5 = Suc ?e"
    using 4 5 2(5) by (auto simp: BasicBlock_addOutEdge_def BasicBlock_addInEdge_def set_block_def c_simps h3_def)
  then obtain cfg6 where 6: "ControlFlowGraph_addEdge ?e cfg2 = Inr cfg6"
    "graph_rep bbs2 (es @ [(a, b)]) (es @ [(a, b)]) (es @ [(a, b)]) (Suc ?e) (cfg6, h5)"
    using addEdge_ok [OF 5(2) ab] n by (auto simp: h3_def)
  have "BasicBlockEdge_create (int a) (int b) (cfg, h) = Inr (cfg6, h5)"
    using 1(1) 2(1) 4(1) 5(1) 6(1) src by (simp add: BasicBlockEdge_create_def Let_def flip: h3_def)
  then show ?thesis using 6(2) \<open>e_next h5 = Suc ?e\<close> 1(3) 2(3) by (auto simp: graph_def)
qed

end
