(* ===== verification/HavlakConstruct.thy ===== *)
theory HavlakConstruct
  imports HavlakGraph
begin

text \<open>
  \<open>LoopTesterApp_constructSimpleCFG\<close> and \<open>LoopTesterApp_constructCFG\<close> as scripts: lists of nodes to
  create and of names to connect, which the code runs one after the other.
\<close>

section \<open>Scripts\<close>

datatype build = Create nat | Connect nat nat

primrec build_step :: "build \<Rightarrow> LoopTesterApp \<times> havlak \<Rightarrow> (LoopTesterApp \<times> havlak) res" where
  "build_step (Create a) = app_node (int a)"
| "build_step (Connect a b) = app_edge (int a) (int b)"

definition run_build :: "build list \<Rightarrow> LoopTesterApp \<times> havlak \<Rightarrow> (LoopTesterApp \<times> havlak) res" where
  "run_build = rfold build_step"

text \<open>How many nodes there are after a step, and when a step leaves no name without a node.\<close>

primrec grown :: "nat \<Rightarrow> build \<Rightarrow> nat" where
  "grown n (Create a) = max n (Suc a)"
| "grown n (Connect a b) = max n (max (Suc a) (Suc b))"

primrec allowed :: "nat \<Rightarrow> build \<Rightarrow> bool" where
  "allowed n (Create a) \<longleftrightarrow> a \<le> n"
| "allowed n (Connect a b) \<longleftrightarrow> a \<le> n \<and> b \<le> max n (Suc a)"

fun buildable :: "nat \<Rightarrow> build list \<Rightarrow> bool" where
  "buildable n [] \<longleftrightarrow> True"
| "buildable n (c # cs) \<longleftrightarrow> allowed n c \<and> buildable (grown n c) cs"

fun connects :: "build list \<Rightarrow> edge_list" where
  "connects [] = []"
| "connects (Create a # cs) = connects cs"
| "connects (Connect a b # cs) = (a, b) # connects cs"

lemma run_build_simps [simp]:
  "run_build [] s = Inr s" "run_build (c # cs) s = rbind (build_step c s) (run_build cs)"
  "run_build (cs @ ds) s = rbind (run_build cs s) (run_build ds)"
  by (simp_all add: run_build_def rfold_append)

lemma buildable_append: "buildable n (cs @ ds) \<longleftrightarrow> buildable n cs \<and> buildable (foldl grown n cs) ds"
  by (induction cs arbitrary: n) auto

lemma connects_append: "connects (cs @ ds) = connects cs @ connects ds"
  by (induction cs rule: connects.induct) auto

lemma connects_length: "length (connects cs) \<le> length cs"
  by (induction cs rule: connects.induct) auto

lemma grown_le: "n \<le> foldl grown n cs"
proof (induction cs arbitrary: n)
  case (Cons c cs)
  have "n \<le> grown n c" by (cases c) auto
  then show ?case using Cons [of "grown n c"] by simp
qed simp

lemma build_step_ok:
  assumes g: "graph bbs es (app_cfg me, h)" and c: "allowed (length bbs) c" and n: "length bbs < 2 ^ 19" "length es < 2 ^ 19"
  shows "\<exists>bbs' me' h'. build_step c (me, h) = Inr (me', h') \<and> graph bbs' (es @ connects [c]) (app_cfg me', h') \<and>
    length bbs' = grown (length bbs) c"
proof (cases c)
  case (Create a)
  have "graph_rep bbs es es es (e_next h) (app_cfg me, h)" using g by (simp add: graph_def)
  then obtain bbs' cfg' h' where "ControlFlowGraph_createNode (int a) (app_cfg me, h) = Inr (bbs' ! a, cfg', h')"
    "graph_rep bbs' es es es (e_next h) (cfg', h')" "length bbs' = max (length bbs) (Suc a)" "e_next h' = e_next h"
    using createNode_ok [of bbs es es es "e_next h" "app_cfg me" h a] c n Create by auto
  then show ?thesis using Create by (auto simp: app_node_def on_cfg_def graph_def)
next
  case (Connect a b)
  then obtain bbs' s' where "BasicBlockEdge_create (int a) (int b) (app_cfg me, h) = Inr s'"
    "graph bbs' (es @ [(a, b)]) s'" "length bbs' = max (max (length bbs) (Suc a)) (Suc b)"
    using createEdge_ok [OF g, of a b] c n by auto
  then show ?thesis using Connect by (cases s') (auto simp: app_edge_def on_cfg_def max.assoc)
qed

lemma run_build_ok:
  assumes "graph bbs es (app_cfg me, h)" "buildable (length bbs) cs" "foldl grown (length bbs) cs < 2 ^ 19"
    "length es + length cs < 2 ^ 19"
  shows "\<exists>bbs' me' h'. run_build cs (me, h) = Inr (me', h') \<and> graph bbs' (es @ connects cs) (app_cfg me', h') \<and>
    length bbs' = foldl grown (length bbs) cs"
  using assms
proof (induction cs arbitrary: bbs es me h)
  case (Cons c cs)
  have "length bbs < 2 ^ 19" using grown_le [of "length bbs" "c # cs"] Cons.prems(3) by linarith
  then obtain bbs1 me1 h1 where 1: "build_step c (me, h) = Inr (me1, h1)" "graph bbs1 (es @ connects [c]) (app_cfg me1, h1)"
    "length bbs1 = grown (length bbs) c"
    using build_step_ok [OF Cons.prems(1), of c] Cons.prems(2,4) by auto
  have "length (es @ connects [c]) + length cs < 2 ^ 19"
    using Cons.prems(4) connects_length [of "[c]"] by simp
  then obtain bbs' me' h' where "run_build cs (me1, h1) = Inr (me', h')"
    "graph bbs' ((es @ connects [c]) @ connects cs) (app_cfg me', h')" "length bbs' = foldl grown (length bbs1) cs"
    using Cons.IH [OF 1(2)] Cons.prems(2,3) 1(3) by auto
  then show ?case using 1(1,3) connects_append [of "[c]" cs] by auto
qed auto

section \<open>The scripts of the benchmark\<close>

definition straight_script :: "nat \<Rightarrow> nat \<Rightarrow> build list" where
  "straight_script s n = map (\<lambda>i. Connect (s + i) (s + i + 1)) [0..<n]"

definition diamond_script :: "nat \<Rightarrow> build list" where
  "diamond_script s = [Connect s (s + 1), Connect s (s + 2), Connect (s + 1) (s + 3), Connect (s + 2) (s + 3)]"

definition base_script :: "nat \<Rightarrow> build list" where
  "base_script f = straight_script f 1 @ diamond_script (f + 1) @ straight_script (f + 4) 1 @ diamond_script (f + 5) @
     straight_script (f + 8) 1 @ [Connect (f + 8) (f + 5), Connect (f + 4) (f + 1), Connect (f + 9) f] @ straight_script (f + 9) 1"

definition simple_script :: "build list" where
  "simple_script = Create 0 # base_script 0 @ [Create 1, Connect 0 2]"

definition bases_script :: "nat \<Rightarrow> nat \<Rightarrow> build list" where
  "bases_script R f = concat (map (\<lambda>j. base_script (f + 10 * j)) [0..<R])"

definition inner_script :: "nat \<Rightarrow> nat \<Rightarrow> build list" where
  "inner_script R n = straight_script n 1 @ bases_script R (n + 1) @ straight_script (n + 1 + 10 * R) 1 @
     [Connect (n + 1 + 10 * R) n]"

definition inners_script :: "nat \<Rightarrow> nat \<Rightarrow> nat \<Rightarrow> build list" where
  "inners_script Q R n = concat (map (\<lambda>i. inner_script R (n + (2 + 10 * R) * i)) [0..<Q])"

definition outer_script :: "nat \<Rightarrow> nat \<Rightarrow> nat \<Rightarrow> build list" where
  "outer_script Q R n = [Create (n + 1), Connect 2 (n + 1)] @ inners_script Q R (n + 1) @ [Connect (n + 1 + (2 + 10 * R) * Q) 1]"

definition cfg_script :: "nat \<Rightarrow> nat \<Rightarrow> nat \<Rightarrow> build list" where
  "cfg_script P Q R = concat (map (\<lambda>i. outer_script Q R (2 + (1 + (2 + 10 * R) * Q) * i)) [0..<P])"

section \<open>The code runs the scripts\<close>

lemma c_int_nat [simp]: "int n \<le> INT_MAX \<Longrightarrow> c_int (int n) = Inr (int n)"
  by (rule c_int_ok) (simp_all add: INT_MAX_def)

lemma c_int_add: "int (n + m) \<le> INT_MAX \<Longrightarrow> c_int (int n + int m) = Inr (int (n + m))"
  by (simp flip: of_nat_add)

lemma straight_run:
  assumes "int (s + n) \<le> INT_MAX"
  shows "LoopTesterApp_buildStraight (int s) n st = rbind (run_build (straight_script s n) st) (\<lambda>st. Inr (int (s + n), st))"
proof -
  have "rfold (\<lambda>i s'. rbind (c_int (int s + int i)) (\<lambda>a. rbind (c_int (a + 1)) (\<lambda>b. LoopTesterApp_buildConnect a b s'))) [0..<m] st =
      run_build (straight_script s m) st" if "m \<le> n" for m
    using that
  proof (induction m)
    case 0
    show ?case by (simp add: straight_script_def)
  next
    case (Suc m)
    have "c_int (int s + int m) = Inr (int (s + m))" "c_int (int (s + m) + 1) = Inr (int (s + m + 1))"
      using c_int_add [of s m] c_int_add [of "s + m" 1] assms Suc.prems by simp_all
    moreover have "straight_script s (Suc m) = straight_script s m @ [Connect (s + m) (s + m + 1)]"
      by (simp add: straight_script_def)
    ultimately show ?case
      using Suc by (simp add: rfold_append LoopTesterApp_buildConnect_def cong: rbind_cong)
  qed
  then show ?thesis using c_int_add [OF assms] by (simp add: LoopTesterApp_buildStraight_def cong: rbind_cong)
qed


lemma diamond_run:
  assumes "int (s + 3) \<le> INT_MAX"
  shows "LoopTesterApp_buildDiamond (int s) st = rbind (run_build (diamond_script s) st) (\<lambda>st. Inr (int (s + 3), st))"
proof -
  have "c_int (int s + 1) = Inr (int (s + 1))" "c_int (int s + 2) = Inr (int (s + 2))" "c_int (int s + 3) = Inr (int (s + 3))"
    using c_int_add [of s 1] c_int_add [of s 2] c_int_add [of s 3] assms by simp_all
  then show ?thesis
    by (simp add: LoopTesterApp_buildDiamond_def Let_def diamond_script_def rbind_assoc del: of_nat_add of_nat_Suc One_nat_def)
qed

lemma straight1:
  assumes "int (s + 1) \<le> INT_MAX"
  shows "rbind (LoopTesterApp_buildStraight (int s) 1 st) F = rbind (run_build (straight_script s 1) st) (\<lambda>st. F (int (s + 1), st))"
  using straight_run [OF assms, of st] by (simp add: rbind_assoc)

lemma diamond1:
  assumes "int (s + 3) \<le> INT_MAX"
  shows "rbind (LoopTesterApp_buildDiamond (int s) st) F = rbind (run_build (diamond_script s) st) (\<lambda>st. F (int (s + 3), st))"
  using diamond_run [OF assms, of st] by (simp add: rbind_assoc)

lemma base_run:
  assumes "int (f + 10) \<le> INT_MAX"
  shows "LoopTesterApp_buildBaseLoop (int f) st = rbind (run_build (base_script f) st) (\<lambda>st. Inr (int (f + 10), st))"
proof -
  have s: "rbind (LoopTesterApp_buildStraight (int m) 1 st) F = rbind (run_build (straight_script m 1) st) (\<lambda>st. F (int n, st))"
    if "n = m + 1" "m \<le> f + 9" for m n st F
    using straight1 [of m st F] that assms by simp
  have d: "rbind (LoopTesterApp_buildDiamond (int m) st) F = rbind (run_build (diamond_script m) st) (\<lambda>st. F (int n, st))"
    if "n = m + 3" "m \<le> f + 5" for m n st F
    using diamond1 [of m st F] that assms by simp
  have s0: "rbind (LoopTesterApp_buildStraight (int f) 1 st) F = rbind (run_build (straight_script f 1) st) (\<lambda>st. F (int (f + 1), st))" for st F
    by (rule s) simp_all
  have d1: "rbind (LoopTesterApp_buildDiamond (int (f + 1)) st) F = rbind (run_build (diamond_script (f + 1)) st) (\<lambda>st. F (int (f + 4), st))" for st F
    by (rule d) simp_all
  have s4: "rbind (LoopTesterApp_buildStraight (int (f + 4)) 1 st) F = rbind (run_build (straight_script (f + 4) 1) st) (\<lambda>st. F (int (f + 5), st))" for st F
    by (rule s) simp_all
  have d5: "rbind (LoopTesterApp_buildDiamond (int (f + 5)) st) F = rbind (run_build (diamond_script (f + 5)) st) (\<lambda>st. F (int (f + 8), st))" for st F
    by (rule d) simp_all
  have s8: "rbind (LoopTesterApp_buildStraight (int (f + 8)) 1 st) F = rbind (run_build (straight_script (f + 8) 1) st) (\<lambda>st. F (int (f + 9), st))" for st F
    by (rule s) simp_all
  have last: "LoopTesterApp_buildStraight (int (f + 9)) 1 = (\<lambda>st. rbind (run_build (straight_script (f + 9) 1) st) (\<lambda>st. Inr (int (f + 10), st)))"
  proof (rule ext)
    fix st show "LoopTesterApp_buildStraight (int (f + 9)) 1 st = rbind (run_build (straight_script (f + 9) 1) st) (\<lambda>st. Inr (int (f + 10), st))"
      using straight_run [of "f + 9" 1 st] assms by (simp add: add.commute)
  qed
  have "LoopTesterApp_buildBaseLoop (int f) st =
    rbind (run_build (straight_script f 1) st) (\<lambda>st. rbind (run_build (diamond_script (f + 1)) st) (\<lambda>st.
    rbind (run_build (straight_script (f + 4) 1) st) (\<lambda>st. rbind (run_build (diamond_script (f + 5)) st) (\<lambda>st.
    rbind (run_build (straight_script (f + 8) 1) st) (\<lambda>st.
    rbind (app_edge (int (f + 8)) (int (f + 5)) st) (\<lambda>st. rbind (app_edge (int (f + 4)) (int (f + 1)) st) (\<lambda>st.
    rbind (app_edge (int (f + 9)) (int f) st) (\<lambda>st.
    rbind (run_build (straight_script (f + 9) 1) st) (\<lambda>st. Inr (int (f + 10), st))))))))))"
    unfolding LoopTesterApp_buildBaseLoop_def LoopTesterApp_buildConnect_def
    by (simp only: s0 d1 s4 d5 s8 last split_conv)
  then show ?thesis by (simp add: base_script_def rbind_assoc del: of_nat_add of_nat_Suc One_nat_def)
qed


text \<open>A loop whose turns each run a script and move the number of the last node on by \<open>d\<close>.\<close>

lemma chain_run:
  assumes "\<And>k st. k < K \<Longrightarrow> G (int (n + d * k), st) = rbind (run_build (scr (n + d * k)) st) (\<lambda>st. Inr (int (n + d * Suc k), st))"
  shows "rfold (\<lambda>j. G) [0..<K] (int n, st) =
    rbind (run_build (concat (map (\<lambda>j. scr (n + d * j)) [0..<K])) st) (\<lambda>st. Inr (int (n + d * K), st))"
  using assms
proof (induction K)
  case (Suc K)
  have nil: "rbind m (rfold (\<lambda>j. G) []) = m" for m by (cases m) simp_all
  have one: "rfold (\<lambda>j. G) [K] = G" by (rule ext) (simp add: nil)
  have "rfold (\<lambda>j. G) [0..<Suc K] (int n, st) = rbind (rfold (\<lambda>j. G) [0..<K] (int n, st)) (\<lambda>s. G s)"
    by (simp add: rfold_append one)
  also have "\<dots> = rbind (run_build (concat (map (\<lambda>j. scr (n + d * j)) [0..<K])) st) (\<lambda>st. G (int (n + d * K), st))"
    using Suc by (simp add: rbind_assoc)
  also have "\<dots> = rbind (run_build (concat (map (\<lambda>j. scr (n + d * j)) [0..<Suc K])) st) (\<lambda>st. Inr (int (n + d * Suc K), st))"
    by (simp add: rbind_assoc Suc.prems del: of_nat_add of_nat_mult of_nat_Suc mult_Suc_right)
  finally show ?case .
qed simp

lemma step_bound: "k < K \<Longrightarrow> int (n + d * K) \<le> INT_MAX \<Longrightarrow> int (n + d * k + d) \<le> INT_MAX"
proof -
  assume k: "k < K" "int (n + d * K) \<le> INT_MAX"
  have "d * Suc k \<le> d * K" using k(1) by (intro mult_le_mono2) simp
  then have "int (n + d * k + d) \<le> int (n + d * K)" by (simp only: of_nat_le_iff) simp
  then show ?thesis using k(2) by (rule order_trans)
qed

lemma bases_run:
  assumes "int (n + 10 * R) \<le> INT_MAX"
  shows "rfold (\<lambda>j (n, s). LoopTesterApp_buildBaseLoop n s) [0..<R] (int n, st) =
    rbind (run_build (bases_script R n) st) (\<lambda>st. Inr (int (n + 10 * R), st))"
  unfolding bases_script_def
proof (rule chain_run)
  fix k st assume "k < R"
  then have "int (n + 10 * k + 10) \<le> INT_MAX" using assms by simp
  from base_run [OF this, of st] show "(case (int (n + 10 * k), st) of (n, s) \<Rightarrow> LoopTesterApp_buildBaseLoop n s) =
      rbind (run_build (base_script (n + 10 * k)) st) (\<lambda>st. Inr (int (n + 10 * Suc k), st))"
    by (simp add: algebra_simps)
qed

lemma inner_run:
  assumes "int (n + (2 + 10 * R)) \<le> INT_MAX"
  shows "construct_inner R (int n, st) = rbind (run_build (inner_script R n) st) (\<lambda>st. Inr (int (n + (2 + 10 * R)), st))"
proof -
  have s0: "rbind (LoopTesterApp_buildStraight (int n) 1 st) F = rbind (run_build (straight_script n 1) st) (\<lambda>st. F (int (n + 1), st))" for st F
    using straight1 [of n st F] assms by simp
  have s1: "rbind (LoopTesterApp_buildStraight (int (n + 1 + 10 * R)) 1 st) F =
      rbind (run_build (straight_script (n + 1 + 10 * R) 1) st) (\<lambda>st. F (int (n + (2 + 10 * R)), st))" for st F
    using straight1 [of "n + 1 + 10 * R" st F] assms by (simp add: algebra_simps)
  have b: "rbind (rfold (\<lambda>j (n, s). LoopTesterApp_buildBaseLoop n s) [0..<R] (int (n + 1), st)) F =
      rbind (run_build (bases_script R (n + 1)) st) (\<lambda>st. F (int (n + 1 + 10 * R), st))" for st F
    using bases_run [of "n + 1" R st] assms by (simp add: rbind_assoc)
  show ?thesis
    unfolding construct_inner_def Let_def LoopTesterApp_buildConnect_def inner_script_def
    by (simp only: split_conv s0 b s1 run_build_simps build_step.simps rbind_assoc rbind.simps)
qed


lemma inners_run:
  assumes "int (n + (2 + 10 * R) * Q) \<le> INT_MAX"
  shows "rfold (\<lambda>i. construct_inner R) [0..<Q] (int n, st) =
    rbind (run_build (inners_script Q R n) st) (\<lambda>st. Inr (int (n + (2 + 10 * R) * Q), st))"
  unfolding inners_script_def
proof (rule chain_run)
  fix k st assume "k < Q"
  then have "int (n + (2 + 10 * R) * k + (2 + 10 * R)) \<le> INT_MAX" by (rule step_bound [OF _ assms])
  from inner_run [OF this, of st] show "construct_inner R (int (n + (2 + 10 * R) * k), st) =
      rbind (run_build (inner_script R (n + (2 + 10 * R) * k)) st) (\<lambda>st. Inr (int (n + (2 + 10 * R) * Suc k), st))"
    by (simp add: algebra_simps)
qed

lemma outer_run:
  assumes "int (n + (1 + (2 + 10 * R) * Q)) \<le> INT_MAX"
  shows "construct_outer Q R (int n, st) =
    rbind (run_build (outer_script Q R n) st) (\<lambda>st. Inr (int (n + (1 + (2 + 10 * R) * Q)), st))"
proof -
  have c: "c_int (int n + 1) = Inr (int (n + 1))" using c_int_add [of n 1] assms by simp
  have i: "rbind (rfold (\<lambda>i. construct_inner R) [0..<Q] (int (n + 1), st)) F =
      rbind (run_build (inners_script Q R (n + 1)) st) (\<lambda>st. F (int (n + 1 + (2 + 10 * R) * Q), st))" for st F
    using inners_run [of "n + 1" R Q st] assms by (simp add: rbind_assoc)
  have end_: "n + (1 + (2 + 10 * R) * Q) = n + 1 + (2 + 10 * R) * Q" by simp
  have names: "(1 :: int) = int 1" "(2 :: int) = int 2" by simp_all
  show ?thesis
    unfolding construct_outer_def LoopTesterApp_buildConnect_def outer_script_def end_
    by (simp only: split_conv c rbind.simps i run_build_simps build_step.simps rbind_assoc append.simps of_nat_1 of_nat_numeral)
qed

lemma cfg_run:
  assumes "int (2 + (1 + (2 + 10 * R) * Q) * P) \<le> INT_MAX"
  shows "LoopTesterApp_constructCFG P Q R st = run_build (cfg_script P Q R) st"
proof -
  have "rfold (\<lambda>i. construct_outer Q R) [0..<P] (int 2, st) =
    rbind (run_build (cfg_script P Q R) st) (\<lambda>st. Inr (int (2 + (1 + (2 + 10 * R) * Q) * P), st))"
    unfolding cfg_script_def
  proof (rule chain_run)
    fix k st assume "k < P"
    then have "int (2 + (1 + (2 + 10 * R) * Q) * k + (1 + (2 + 10 * R) * Q)) \<le> INT_MAX" by (rule step_bound [OF _ assms])
    from outer_run [OF this, of st] show "construct_outer Q R (int (2 + (1 + (2 + 10 * R) * Q) * k), st) =
        rbind (run_build (outer_script Q R (2 + (1 + (2 + 10 * R) * Q) * k)) st) (\<lambda>st. Inr (int (2 + (1 + (2 + 10 * R) * Q) * Suc k), st))"
      by (simp add: algebra_simps)
  qed
  then show ?thesis by (simp add: LoopTesterApp_constructCFG_def rbind_assoc)
qed

lemma simple_run: "LoopTesterApp_constructSimpleCFG st = run_build simple_script st"
proof -
  have base: "rbind (LoopTesterApp_buildBaseLoop 0 st) F = rbind (run_build (base_script 0) st) (\<lambda>st. F (10, st))" for st F
    using base_run [of 0 st] by (simp add: rbind_assoc INT_MAX_def)
  moreover have "run_build (cs @ ds) = (\<lambda>s. rbind (run_build cs s) (run_build ds))" for cs ds by (rule ext) simp
  moreover have "run_build [Create 1, Connect 0 2] = (\<lambda>s. rbind (app_node 1 s) (app_edge 0 2))"
  proof (rule ext)
    have "run_build [] = Inr" by (rule ext) simp
    then show "run_build [Create 1, Connect 0 2] s = rbind (app_node 1 s) (app_edge 0 2)" for s
      by (simp add: run_build_def) (cases "app_node 1 s"; simp)
  qed
  ultimately show ?thesis by (simp add: LoopTesterApp_constructSimpleCFG_def simple_script_def base)
qed


section \<open>The scripts leave no gaps\<close>

definition spans :: "nat \<Rightarrow> (nat \<Rightarrow> build list) \<Rightarrow> nat \<Rightarrow> bool" where
  "spans l scr d \<longleftrightarrow> (\<forall>N m. l \<le> N \<and> m < N \<longrightarrow> buildable N (scr m) \<and> foldl grown N (scr m) = max N (m + d + 1))"

lemma spansD: "spans l scr d \<Longrightarrow> l \<le> N \<Longrightarrow> m < N \<Longrightarrow> buildable N (scr m) \<and> foldl grown N (scr m) = max N (m + d + 1)"
  by (simp add: spans_def)

lemma spans_chain:
  assumes s: "spans l scr d" and N: "l \<le> N" "n < N"
  shows "buildable N (concat (map (\<lambda>j. scr (n + d * j)) [0..<K])) \<and>
    foldl grown N (concat (map (\<lambda>j. scr (n + d * j)) [0..<K])) = max N (n + d * K + 1)"
proof (induction K)
  case 0
  show ?case using N by simp
next
  case (Suc K)
  let ?N = "max N (n + d * K + 1)"
  have "buildable ?N (scr (n + d * K)) \<and> foldl grown ?N (scr (n + d * K)) = max ?N (n + d * K + d + 1)"
    by (rule spansD [OF s]) (use N in \<open>simp_all add: le_max_iff_disj less_max_iff_disj\<close>)
  then show ?case using Suc by (simp add: buildable_append max.assoc)
qed

lemma base_spans: "spans 1 base_script 10"
  by (simp add: spans_def base_script_def straight_script_def diamond_script_def max.assoc le_max_iff_disj)

lemma bases_spans: "spans 1 (bases_script R) (10 * R)"
  using spans_chain [OF base_spans] by (simp add: spans_def bases_script_def)

lemma spans_between:
  assumes pre: "\<And>N m. l \<le> N \<Longrightarrow> m < N \<Longrightarrow> buildable N (pre m) \<and> foldl grown N (pre m) = max N (m + 2)"
    and mid: "spans 1 mid d"
    and post: "\<And>N m. l \<le> N \<Longrightarrow> m + 1 + d < N \<Longrightarrow> buildable N (post m) \<and> foldl grown N (post m) = max N (m + e + 1)"
    and e: "1 + d \<le> e"
  shows "spans l (\<lambda>m. pre m @ mid (m + 1) @ post m) e"
  unfolding spans_def
proof (intro allI impI)
  fix N m :: nat assume N: "l \<le> N \<and> m < N"
  let ?M = "max N (m + 2)" and ?K = "max (max N (m + 2)) (m + 1 + d + 1)"
  have "buildable ?M (mid (m + 1)) \<and> foldl grown ?M (mid (m + 1)) = ?K"
    by (rule spansD [OF mid]) (simp_all add: le_max_iff_disj less_max_iff_disj)
  moreover have "buildable ?K (post m) \<and> foldl grown ?K (post m) = max ?K (m + e + 1)"
    by (rule post) (use N in \<open>simp_all add: le_max_iff_disj less_max_iff_disj\<close>)
  moreover have "max ?K (m + e + 1) = max N (m + e + 1)" using e by (simp add: max_def)
  ultimately show "buildable N (pre m @ mid (m + 1) @ post m) \<and> foldl grown N (pre m @ mid (m + 1) @ post m) = max N (m + e + 1)"
    using pre [of N m] N by (simp add: buildable_append)
qed

lemma inner_spans: "spans 1 (inner_script R) (2 + 10 * R)"
proof -
  have "spans 1 (\<lambda>n. straight_script n 1 @ bases_script R (n + 1) @ (straight_script (n + 1 + 10 * R) 1 @
      [Connect (n + 1 + 10 * R) n])) (2 + 10 * R)"
    by (rule spans_between [OF _ bases_spans]) (auto simp: straight_script_def max_def)
  then show ?thesis by (simp add: inner_script_def [abs_def])
qed

lemma inners_spans: "spans 1 (inners_script Q R) ((2 + 10 * R) * Q)"
  using spans_chain [OF inner_spans] by (simp add: spans_def inners_script_def)

lemma outer_spans: "spans 3 (outer_script Q R) (1 + (2 + 10 * R) * Q)"
proof -
  have "spans 3 (\<lambda>n. [Create (n + 1), Connect 2 (n + 1)] @ inners_script Q R (n + 1) @
      [Connect (n + 1 + (2 + 10 * R) * Q) 1]) (1 + (2 + 10 * R) * Q)"
    by (rule spans_between [OF _ inners_spans]) (auto simp: max_def)
  then show ?thesis by (simp add: outer_script_def [abs_def])
qed

lemma cfg_spans:
  assumes "3 \<le> N"
  shows "buildable N (cfg_script P Q R) \<and> foldl grown N (cfg_script P Q R) = max N (3 + (1 + (2 + 10 * R) * Q) * P)"
  using spans_chain [OF outer_spans assms, of 2 Q R P] assms by (simp add: cfg_script_def)

lemma simple_spans: "buildable 1 simple_script" "foldl grown 1 simple_script = 11" "length simple_script = 18"
  by (simp_all add: simple_script_def base_script_def straight_script_def diamond_script_def)

lemma script_lengths:
  "length (base_script f) = 15" "length (bases_script R f) = 15 * R" "length (inner_script R n) = 3 + 15 * R"
  "length (inners_script Q R n) = (3 + 15 * R) * Q" "length (outer_script Q R n) = 3 + (3 + 15 * R) * Q"
  "length (cfg_script P Q R) = (3 + (3 + 15 * R) * Q) * P"
proof -
  show base: "length (base_script f) = 15" for f by (simp add: base_script_def straight_script_def diamond_script_def)
  show bases: "length (bases_script R f) = 15 * R" for f by (simp add: bases_script_def length_concat comp_def base sum_list_triv)
  show inner: "length (inner_script R n) = 3 + 15 * R" for n by (simp add: inner_script_def straight_script_def bases)
  show inners: "length (inners_script Q R n) = (3 + 15 * R) * Q" for n
    by (simp add: inners_script_def length_concat comp_def inner sum_list_triv)
  show outer: "length (outer_script Q R n) = 3 + (3 + 15 * R) * Q" for n by (simp add: outer_script_def inners)
  show "length (cfg_script P Q R) = (3 + (3 + 15 * R) * Q) * P"
    by (simp add: cfg_script_def length_concat comp_def outer sum_list_triv)
qed


section \<open>Properties\<close>

lemma lsg_create_ok:
  assumes "0 < l_next h"
  shows "\<exists>lsg h'. LoopStructureGraph_create h = Inr (lsg, h') \<and> blocks h' = blocks h \<and> b_next h' = b_next h \<and>
    edges h' = edges h \<and> e_next h' = e_next h"
proof -
  obtain v where v: "Vector_createDefault 8 = Inr v" "vec8 v []" using vec8_new by blast
  obtain w where w: "Vector_append v (l_next h) = Inr w" using vec8_append [OF v(2), of "l_next h"] by auto
  obtain s :: "nat som_set" where s: "Set_create 8 = Inr s"
    by (auto simp: Set_create_def Vector_createDefault_def Vector_create_def Vector_expand_def)
  show ?thesis
    using assms v(1) w s
    by (simp add: LoopStructureGraph_create_def SimpleLoop_create_def SimpleLoop_setNestingLevel_def SimpleLoop_setIsRoot_def
        load_def set_loop_def)
qed

lemma init_ok:
  assumes "0 < l_next h" "0 < b_next h"
  shows "\<exists>bbs me h'. LoopTesterApp_init h = Inr (me, h') \<and> graph bbs [] (app_cfg me, h') \<and> length bbs = 1"
proof -
  obtain lsg h1 where lsg: "LoopStructureGraph_create h = Inr (lsg, h1)" "b_next h1 = b_next h"
    using lsg_create_ok [OF assms(1)] by blast
  obtain v where v: "Vector_createDefault 8 = Inr v" "vec8 v []" using vec8_new by blast
  define cfg where "cfg = \<lparr>basicBlockMap = v, startNode = 0, edgeList = v\<rparr>"
  have "graph [] [] (cfg, h1)" using v(2) lsg(2) assms(2) by (simp add: graph_def graph_rep_def cfg_def)
  then obtain bbs me h' where "build_step (Create 0) (\<lparr>app_cfg = cfg, app_lsg = lsg\<rparr>, h1) = Inr (me, h')"
    "graph bbs [] (app_cfg me, h')" "length bbs = 1"
    using build_step_ok [of "[]" "[]" "\<lparr>app_cfg = cfg, app_lsg = lsg\<rparr>" h1 "Create 0"] by auto
  then show ?thesis using lsg(1) v(1) by (auto simp: LoopTesterApp_init_def ControlFlowGraph_create_def cfg_def)
qed

text \<open>A refined graph is one on which the depth-first search runs.\<close>

lemma graph_dfs_graph:
  assumes "graph bbs es (cfg, h)"
  shows "dfs_graph (blocks h) (set bbs) (\<lambda>b. map (\<lambda>e. bbs ! snd e) (filter (\<lambda>e. bbs ! fst e = b) es))"
proof -
  let ?out = "\<lambda>b. map (\<lambda>e. bbs ! snd e) (filter (\<lambda>e. bbs ! fst e = b) es)"
  have g: "distinct bbs" "0 \<notin> set bbs" "\<forall>i < length bbs. \<exists>x. blocks h (bbs ! i) = Some x \<and> node_rep bbs es es i x"
    "\<forall>e \<in> set es. fst e < length bbs \<and> snd e < length bbs"
    using assms by (auto simp: graph_def graph_rep_def)
  have "\<exists>x. blocks h b = Some x \<and> vrep (outEdges x) (?out b) \<and> firstIdx (outEdges x) = 0 \<and> set (?out b) \<subseteq> set bbs"
    if "b \<in> set bbs" for b
  proof -
    from that obtain i where "i < length bbs" "bbs ! i = b" by (auto simp: in_set_conv_nth)
    then have i: "i < length bbs" "b = bbs ! i" by simp_all
    have "bbs ! fst e = b \<longleftrightarrow> fst e = i" if "e \<in> set es" for e
      using nth_eq_iff_index_eq [OF g(1), of "fst e" i] g(4) i that by simp
    then have "filter (\<lambda>e. bbs ! fst e = b) es = filter (\<lambda>e. fst e = i) es" by (intro filter_cong refl)
    then have "?out b = succs bbs es i" by (simp add: succs_def)
    moreover have "set (?out b) \<subseteq> set bbs" using g(4) by auto
    ultimately show ?thesis using g(3) i by (auto simp: node_rep_def vec8_def)
  qed
  then show ?thesis using g(2) by (simp add: dfs_graph_def)
qed



end
