(* ===== verification/AwfyMain.thy ===== *)
theory AwfyMain
  imports AwfyRun
begin

text \<open>
  \<open>main.c\<close>: the entry point of the harness, which runs one benchmark with the numbers of iterations
  from the command line, or all of them. \<open>suite\<close> maps a constructor to the benchmark it creates, as
  in \<open>AwfyRun\<close>. The \<open>setjmp\<close> of \<open>run\<close> returns a second time when the benchmark is unknown; both ways
  end in \<open>Run_deinit\<close>.
\<close>

section \<open>Arguments\<close>

text \<open>\<open>atoi\<close> of the standard library; a value that does not fit is undefined there.\<close>

definition is_space :: "char \<Rightarrow> bool" where
  "is_space c \<longleftrightarrow> c = CHR '' '' \<or> (9 \<le> (of_char c :: nat) \<and> (of_char c :: nat) \<le> 13)"

fun digits_value :: "int \<Rightarrow> string \<Rightarrow> int" where
  "digits_value acc [] = acc"
| "digits_value acc (c # cs) =
     (if 48 \<le> (of_char c :: int) \<and> (of_char c :: int) \<le> 57 then digits_value (acc * 10 + (of_char c - 48)) cs else acc)"

definition atoi :: "string \<Rightarrow> int res" where
  "atoi s =
     (case dropWhile is_space s of
        [] \<Rightarrow> Inr 0
      | c # cs \<Rightarrow>
          if c = CHR ''-'' then c_int (- digits_value 0 cs)
          else if c = CHR ''+'' then c_int (digits_value 0 cs)
          else c_int (digits_value 0 (c # cs)))"

section \<open>The program\<close>

definition run_one ::
    "(nat \<Rightarrow> int \<times> int) \<Rightarrow> (suite_id \<Rightarrow> 's benchmark) \<Rightarrow> string \<Rightarrow> int \<Rightarrow> int \<Rightarrow> 's world \<Rightarrow> 's world res" where
  "run_one clock suite what n k w =
     (let r = Run_init suite what;
          r = Run_setNumIterations r n;
          r = Run_setInnerIterations r k
      in rbind (Run_runBenchmark clock r w) (\<lambda>(returned, r, w). Inr w))"

definition runAll :: "(nat \<Rightarrow> int \<times> int) \<Rightarrow> (suite_id \<Rightarrow> 's benchmark) \<Rightarrow> 's world \<Rightarrow> 's world res" where
  "runAll clock suite w =
     rbind (run_one clock suite ''DeltaBlue'' 12000 1 w) (\<lambda>w.
     rbind (run_one clock suite ''Richards'' 100 1 w) (\<lambda>w.
     rbind (run_one clock suite ''Json'' 100 1 w) (\<lambda>w.
     rbind (run_one clock suite ''Havlak'' 10 1 w) (\<lambda>w.
     rbind (run_one clock suite ''CD'' 250 2 w) (\<lambda>w.
     rbind (run_one clock suite ''Bounce'' 1500 1 w) (\<lambda>w.
     rbind (run_one clock suite ''List'' 1500 1 w) (\<lambda>w.
     rbind (run_one clock suite ''Mandelbrot'' 500 1 w) (\<lambda>w.
     rbind (run_one clock suite ''NBody'' 250000 1 w) (\<lambda>w.
     rbind (run_one clock suite ''Permute'' 1000 1 w) (\<lambda>w.
     rbind (run_one clock suite ''Queens'' 1000 1 w) (\<lambda>w.
     rbind (run_one clock suite ''Sieve'' 3000 1 w) (\<lambda>w.
     rbind (run_one clock suite ''Storage'' 1000 1 w) (\<lambda>w.
       run_one clock suite ''Towers'' 600 1 w)))))))))))))"

definition runOnce :: "(nat \<Rightarrow> int \<times> int) \<Rightarrow> (suite_id \<Rightarrow> 's benchmark) \<Rightarrow> 's world \<Rightarrow> 's world res" where
  "runOnce clock suite w =
     rbind (run_one clock suite ''DeltaBlue'' 1 1 w) (\<lambda>w.
     rbind (run_one clock suite ''Richards'' 1 1 w) (\<lambda>w.
     rbind (run_one clock suite ''Json'' 1 1 w) (\<lambda>w.
     rbind (run_one clock suite ''Havlak'' 1 1 w) (\<lambda>w.
     rbind (run_one clock suite ''CD'' 1 2 w) (\<lambda>w.
     rbind (run_one clock suite ''Bounce'' 1 1 w) (\<lambda>w.
     rbind (run_one clock suite ''List'' 1 1 w) (\<lambda>w.
     rbind (run_one clock suite ''Mandelbrot'' 1 1 w) (\<lambda>w.
     rbind (run_one clock suite ''NBody'' 1 1 w) (\<lambda>w.
     rbind (run_one clock suite ''Permute'' 1 1 w) (\<lambda>w.
     rbind (run_one clock suite ''Queens'' 1 1 w) (\<lambda>w.
     rbind (run_one clock suite ''Sieve'' 1 1 w) (\<lambda>w.
     rbind (run_one clock suite ''Storage'' 1 1 w) (\<lambda>w.
       run_one clock suite ''Towers'' 1 1 w)))))))))))))"

text \<open>\<open>argv\<close> has the name of the program first.\<close>

definition harness_main ::
    "(nat \<Rightarrow> int \<times> int) \<Rightarrow> (suite_id \<Rightarrow> 's benchmark) \<Rightarrow> string list \<Rightarrow> 's world \<Rightarrow> 's world res" where
  "harness_main clock suite argv w =
     (if length argv > 1 then
        rbind (if length argv > 2 then atoi (argv ! 2) else Inr 1) (\<lambda>n.
        rbind (if length argv > 3 then atoi (argv ! 3) else Inr 1) (\<lambda>k.
          run_one clock suite (argv ! 1) n k w))
      else runAll clock suite w)"

section \<open>What the program prints\<close>

text \<open>The runs that a command line asks for, and their output one after the other.\<close>

type_synonym job = "string \<times> nat \<times> int"

definition all_jobs :: "job list" where
  "all_jobs =
     [(''DeltaBlue'', 12000, 1), (''Richards'', 100, 1), (''Json'', 100, 1), (''Havlak'', 10, 1), (''CD'', 250, 2),
      (''Bounce'', 1500, 1), (''List'', 1500, 1), (''Mandelbrot'', 500, 1), (''NBody'', 250000, 1), (''Permute'', 1000, 1),
      (''Queens'', 1000, 1), (''Sieve'', 3000, 1), (''Storage'', 1000, 1), (''Towers'', 600, 1)]"

fun asks_for :: "string list \<Rightarrow> job list \<Rightarrow> bool" where
  "asks_for [p, name] js \<longleftrightarrow> js = [(name, 1, 1)]"
| "asks_for [p, name, outer] js \<longleftrightarrow> (\<exists>n. atoi outer = Inr (int n) \<and> js = [(name, n, 1)])"
| "asks_for (p # name # outer # inner # rest) js \<longleftrightarrow>
     (\<exists>n k. atoi outer = Inr (int n) \<and> atoi inner = Inr k \<and> js = [(name, n, k)])"
| "asks_for argv js \<longleftrightarrow> js = all_jobs"

fun jobs_output :: "(nat \<Rightarrow> int \<times> int) \<Rightarrow> nat \<Rightarrow> job list \<Rightarrow> event list" where
  "jobs_output clock t [] = []"
| "jobs_output clock t ((name, n, k) # js) = run_output clock t name n @ jobs_output clock (t + 2 * n) js"

definition run_jobs :: "(nat \<Rightarrow> int \<times> int) \<Rightarrow> (suite_id \<Rightarrow> 's benchmark) \<Rightarrow> job list \<Rightarrow> 's world \<Rightarrow> 's world res" where
  "run_jobs clock suite = rfold (\<lambda>(name, n, k). run_one clock suite name (int n) k)"

lemma runAll_jobs: "runAll clock suite w = run_jobs clock suite all_jobs w"
  by (simp add: runAll_def run_jobs_def all_jobs_def rbind_assoc cong: rbind_cong)

lemma run_jobs_single: "run_jobs clock suite [(name, n, k)] w = run_one clock suite name (int n) k w"
  by (cases "run_one clock suite name (int n) k w") (simp_all add: run_jobs_def)

lemma harness_jobs: "asks_for argv js \<Longrightarrow> harness_main clock suite argv w = run_jobs clock suite js w"
  by (induction argv js rule: asks_for.induct) (auto simp: harness_main_def runAll_jobs run_jobs_single numeral_3_eq_3)

definition runs_well :: "(suite_id \<Rightarrow> 's benchmark) \<Rightarrow> ('s \<Rightarrow> bool) \<Rightarrow> job \<Rightarrow> bool" where
  "runs_well suite good = (\<lambda>(name, n, k). 0 < n \<and>
     (\<exists>id. Run_getSuiteFromName name = Some id \<and> running_benchmark (suite id) good k))"

lemma run_one_ok:
  assumes "good_clock clock" "good (w_state w)" "runs_well suite good (name, n, k)"
  shows "\<exists>w'. run_one clock suite name (int n) k w = Inr w' \<and> good (w_state w') \<and>
    w_ticks w' = w_ticks w + 2 * n \<and> w_out w' = w_out w @ run_output clock (w_ticks w) name n"
proof -
  obtain id where id: "Run_getSuiteFromName name = Some id" "running_benchmark (suite id) good k" and n: "0 < n"
    using assms(3) by (auto simp: runs_well_def)
  let ?r = "Run_setInnerIterations (Run_setNumIterations (Run_init suite name) (int n)) k"
  obtain me' w' where "Run_runBenchmark clock ?r w = Inr (True, me', w')" "good (w_state w')"
    "w_ticks w' = w_ticks w + 2 * n" "w_out w' = w_out w @ run_output clock (w_ticks w) name n"
    using running_benchmark.runBenchmark_ok [OF id(2) assms(1,2), of ?r n] n id(1)
    by (auto simp: Run_setInnerIterations_def Run_setNumIterations_def Run_init_def)
  then show ?thesis by (simp add: run_one_def)
qed

lemma run_jobs_ok:
  assumes "good_clock clock"
  shows "good (w_state w) \<Longrightarrow> \<forall>j \<in> set js. runs_well suite good j \<Longrightarrow>
    \<exists>w'. run_jobs clock suite js w = Inr w' \<and> good (w_state w') \<and> w_out w' = w_out w @ jobs_output clock (w_ticks w) js"
proof (induction js arbitrary: w)
  case (Cons j js)
  obtain name n k where j: "j = (name, n, k)" by (cases j) auto
  obtain w1 where w1: "run_one clock suite name (int n) k w = Inr w1" "good (w_state w1)" "w_ticks w1 = w_ticks w + 2 * n"
    "w_out w1 = w_out w @ run_output clock (w_ticks w) name n"
    using run_one_ok [where good = good, OF assms Cons.prems(1), of suite name n k] Cons.prems(2) j by auto
  then show ?case using Cons.IH [of w1] Cons.prems(2) j by (auto simp: run_jobs_def)
qed (simp add: run_jobs_def)

section \<open>Properties\<close>



text \<open>With \<open>0\<close> iterations the average divides by zero.\<close>

lemma harness_zero_iterations:
  assumes "Run_getSuiteFromName name = Some i" "atoi outer = Inr 0"
  shows "harness_main clock suite [p, name, outer] w = Inl DivByZero"
  using assms by (simp add: harness_main_def run_one_def Run_init_def Run_setNumIterations_def Run_setInnerIterations_def
      Run_runBenchmark_def doRuns_def reportBenchmark_def print_def c_div_def)

end
