(* ===== verification/DeltaBlueRun.thy ===== *)
theory DeltaBlueRun
  imports DeltaBlueTest AwfyRun
begin

text \<open>
  The benchmark object of \<open>DeltaBlue.c\<close> for the harness of \<open>AwfyRun\<close>: it has an inner loop of its own,
  so its other two functions are never called.
\<close>

definition DeltaBlue_create :: "nat \<Rightarrow> deltablue benchmark" where
  "DeltaBlue_create k =
     \<lparr>bm_benchmark = deltablue_benchmark, bm_verifyResult = (\<lambda>h r. deltablue_verifyResult r = Inr True),
      bm_innerBenchmarkLoop = Some (DeltaBlue_innerBenchmarkLoop k)\<rparr>"

text \<open>Nothing is allocated and the strengths are not initialised.\<close>

definition nothing_live :: "deltablue \<Rightarrow> bool" where
  "nothing_live h \<longleftrightarrow> ABSOLUTE_STRONGEST (strs h) = 0 \<and> vars h = Map.empty \<and> cons h = Map.empty \<and>
     0 < v_next h \<and> 0 < c_next h"

lemma deltablue_running:
  assumes "0 < n" "int n * 10 + 1000 \<le> INT_MAX" "n + 3 \<le> k"
  shows "running_benchmark (DeltaBlue_create k) nothing_live (int n)"
  by unfold_locales (use innerBenchmarkLoop_runs assms in \<open>simp add: bench_loop_def DeltaBlue_create_def nothing_live_def\<close>)

text \<open>\<open>main.c\<close> runs it with one inner iteration.\<close>

interpretation deltablue: running_benchmark "DeltaBlue_create 4" nothing_live 1
  using deltablue_running [of 1 4] by (simp add: INT_MAX_def)

end
