(* ===== verification/SuiteBinaryTrees.thy ===== *)
theory SuiteBinaryTrees
  imports CPrelude
begin

text \<open>
  \<open>bench/suite/src/st/binary-trees/c/binary-trees.c\<close>. The nodes live in an explicit heap:
  \<open>malloc\<close> hands out a fresh address with uninitialised fields, \<open>free\<close> removes the cell, and an
  access to a removed cell is a fault. Address \<open>0\<close> is the null pointer. \<open>main\<close> returns the lines
  it prints and the heap it leaves.
\<close>

section \<open>Nodes and the heap\<close>

record tree_node =
  tn_left :: "nat option"
  tn_right :: "nat option"

record tree_heap =
  tn_cells :: "nat \<Rightarrow> tree_node option"
  tn_brk :: nat

definition tn_malloc :: "tree_heap \<Rightarrow> nat \<times> tree_heap" where
  "tn_malloc h = (tn_brk h, h\<lparr>tn_cells := (tn_cells h)(tn_brk h \<mapsto> \<lparr>tn_left = None, tn_right = None\<rparr>),
     tn_brk := Suc (tn_brk h)\<rparr>)"

definition tn_load :: "tree_heap \<Rightarrow> nat \<Rightarrow> tree_node res" where
  "tn_load h t = (if t = 0 then Inl NullDeref else
     case tn_cells h t of None \<Rightarrow> Inl UseAfterFree | Some c \<Rightarrow> Inr c)"

definition tn_store :: "tree_heap \<Rightarrow> nat \<Rightarrow> (tree_node \<Rightarrow> tree_node) \<Rightarrow> tree_heap res" where
  "tn_store h t f = rbind (tn_load h t) (\<lambda>c. Inr (h\<lparr>tn_cells := (tn_cells h)(t \<mapsto> f c)\<rparr>))"

definition tn_read :: "nat option \<Rightarrow> nat res" where
  "tn_read p = (case p of None \<Rightarrow> Inl Uninitialised | Some a \<Rightarrow> Inr a)"

definition tn_free :: "tree_heap \<Rightarrow> nat \<Rightarrow> tree_heap res" where
  "tn_free h t = rbind (tn_load h t) (\<lambda>c. Inr (h\<lparr>tn_cells := (tn_cells h)(t := None)\<rparr>))"

section \<open>The operations\<close>

function bottom_up_tree :: "int \<Rightarrow> tree_heap \<Rightarrow> (nat \<times> tree_heap) res" where
  "bottom_up_tree depth h =
    (case tn_malloc h of (t, h) \<Rightarrow>
      if depth > 0 then
        rbind (bottom_up_tree (depth - 1) h) (\<lambda>(l, h).
        rbind (tn_store h t (tn_left_update (\<lambda>q. Some l))) (\<lambda>h.
        rbind (bottom_up_tree (depth - 1) h) (\<lambda>(r, h).
        rbind (tn_store h t (tn_right_update (\<lambda>q. Some r))) (\<lambda>h.
          Inr (t, h)))))
      else
        rbind (tn_store h t (\<lambda>c. c\<lparr>tn_left := Some 0, tn_right := Some 0\<rparr>)) (\<lambda>h.
          Inr (t, h)))"
  by pat_completeness auto
termination by (relation "measure (\<lambda>(d, h). nat d)") auto

declare bottom_up_tree.simps [simp del]

text \<open>\<open>item_check\<close> and \<open>delete_tree\<close> follow pointers; their fuel bounds the depth they may reach.\<close>

fun item_check :: "nat \<Rightarrow> tree_heap \<Rightarrow> nat \<Rightarrow> int res" where
  "item_check 0 h t = Inl OutOfFuel"
| "item_check (Suc fuel) h t =
    rbind (tn_load h t) (\<lambda>c.
    rbind (tn_read (tn_left c)) (\<lambda>l.
      if l = 0 then Inr 1
      else
        rbind (item_check fuel h l) (\<lambda>a.
        rbind (c_long (1 + a)) (\<lambda>a.
        rbind (tn_read (tn_right c)) (\<lambda>r.
        rbind (item_check fuel h r) (\<lambda>b.
          c_long (a + b)))))))"

fun delete_tree :: "nat \<Rightarrow> nat \<Rightarrow> tree_heap \<Rightarrow> tree_heap res" where
  "delete_tree 0 t h = Inl OutOfFuel"
| "delete_tree (Suc fuel) t h =
    rbind (tn_load h t) (\<lambda>c.
    rbind (tn_read (tn_left c)) (\<lambda>l.
    rbind
      (if l \<noteq> 0 then
        rbind (delete_tree fuel l h) (\<lambda>h.
        rbind (tn_load h t) (\<lambda>c.
        rbind (tn_read (tn_right c)) (\<lambda>r.
          delete_tree fuel r h)))
       else Inr h) (\<lambda>h.
      tn_free h t)))"

datatype tree_line =
    StretchTree int int
  | Trees int int int
  | LongLivedTree int int

text \<open>\<open>1L << s\<close>: undefined when \<open>s\<close> is negative or the result does not fit.\<close>

definition long_shift_one :: "int \<Rightarrow> int res" where
  "long_shift_one s = (if 0 \<le> s \<and> s < 63 then Inr (2 ^ nat s) else Inl IntOverflow)"

fun tree_iterations :: "nat \<Rightarrow> nat \<Rightarrow> int \<Rightarrow> int \<Rightarrow> tree_heap \<Rightarrow> (int \<times> tree_heap) res" where
  "tree_iterations fuel 0 d check h = Inr (check, h)"
| "tree_iterations fuel (Suc i) d check h =
    rbind (bottom_up_tree d h) (\<lambda>(t, h).
    rbind (item_check fuel h t) (\<lambda>c.
    rbind (c_long (check + c)) (\<lambda>check.
    rbind (delete_tree fuel t h) (\<lambda>h.
      tree_iterations fuel i d check h))))"

function depth_loop :: "nat \<Rightarrow> int \<Rightarrow> int \<Rightarrow> int \<Rightarrow> tree_heap \<Rightarrow> (tree_line list \<times> tree_heap) res" where
  "depth_loop fuel min_depth max_depth d h =
    (if d \<le> max_depth then
      rbind (c_int (max_depth - d)) (\<lambda>s.
      rbind (c_int (s + min_depth)) (\<lambda>s.
      rbind (long_shift_one s) (\<lambda>iterations.
      rbind (tree_iterations fuel (nat iterations) d 0 h) (\<lambda>(check, h).
      rbind (c_int (d + 2)) (\<lambda>d'.
      rbind (depth_loop fuel min_depth max_depth d' h) (\<lambda>(ls, h).
        Inr (Trees iterations d check # ls, h)))))))
     else Inr ([], h))"
  by pat_completeness auto
termination
  by (relation "measure (\<lambda>(fuel, lo, hi, d, h). nat (hi + 1 - d))") (auto simp: c_int_Inr)

declare depth_loop.simps [simp del]

text \<open>\<open>arg\<close> is the value of \<open>atoi(argv[1])\<close> where the argument is given.\<close>

definition binary_trees_main :: "nat \<Rightarrow> int option \<Rightarrow> tree_heap \<Rightarrow> (tree_line list \<times> tree_heap) res" where
  "binary_trees_main fuel arg h =
    (let n = (case arg of Some v \<Rightarrow> v | None \<Rightarrow> 10); min_depth = 4;
         max_depth = (if n > min_depth + 2 then n else min_depth + 2) in
     rbind (c_int (max_depth + 1)) (\<lambda>stretch_depth.
     rbind (bottom_up_tree stretch_depth h) (\<lambda>(stretch, h).
     rbind (item_check fuel h stretch) (\<lambda>check.
     rbind (delete_tree fuel stretch h) (\<lambda>h.
     rbind (bottom_up_tree max_depth h) (\<lambda>(long_lived, h).
     rbind (depth_loop fuel min_depth max_depth min_depth h) (\<lambda>(ls, h).
     rbind (item_check fuel h long_lived) (\<lambda>check'.
     rbind (delete_tree fuel long_lived h) (\<lambda>h.
       Inr (StretchTree stretch_depth check # ls @ [LongLivedTree max_depth check'], h))))))))))"

section \<open>Full trees in the heap\<close>

text \<open>A full tree of depth \<open>d\<close> occupies the \<open>tree_size d\<close> cells from its root on.\<close>

fun tree_size :: "nat \<Rightarrow> nat" where
  "tree_size 0 = 1"
| "tree_size (Suc d) = Suc (tree_size d + tree_size d)"

lemma Suc_tree_size: "Suc (tree_size d) = 2 ^ Suc d"
  by (induction d) auto

lemma int_tree_size: "int (tree_size d) = 2 ^ Suc d - 1"
  using arg_cong [OF Suc_tree_size, of int d] by simp

fun full_tree :: "(nat \<Rightarrow> tree_node option) \<Rightarrow> nat \<Rightarrow> nat \<Rightarrow> bool" where
  "full_tree c a 0 \<longleftrightarrow> a \<noteq> 0 \<and> c a = Some \<lparr>tn_left = Some 0, tn_right = Some 0\<rparr>"
| "full_tree c a (Suc d) \<longleftrightarrow> a \<noteq> 0 \<and>
     c a = Some \<lparr>tn_left = Some (Suc a), tn_right = Some (Suc a + tree_size d)\<rparr> \<and>
     full_tree c (Suc a) d \<and> full_tree c (Suc a + tree_size d) d"

lemma full_tree_cong:
  "(\<And>x. a \<le> x \<Longrightarrow> x < a + tree_size d \<Longrightarrow> c' x = c x) \<Longrightarrow> full_tree c' a d = full_tree c a d"
proof (induction d arbitrary: a)
  case (Suc d)
  have "full_tree c' (Suc a) d = full_tree c (Suc a) d"
    by (rule Suc.IH) (rule Suc.prems, auto)
  moreover have "full_tree c' (Suc a + tree_size d) d = full_tree c (Suc a + tree_size d) d"
    by (rule Suc.IH) (rule Suc.prems, auto)
  moreover have "c' a = c a" by (rule Suc.prems) auto
  ultimately show ?case by simp
qed simp

definition heap_ok :: "tree_heap \<Rightarrow> bool" where
  "heap_ok h \<longleftrightarrow> 0 < tn_brk h \<and> (\<forall>a \<ge> tn_brk h. tn_cells h a = None)"

text \<open>What an allocation of \<open>n\<close> cells leaves alone.\<close>

definition grown :: "tree_heap \<Rightarrow> nat \<Rightarrow> tree_heap \<Rightarrow> bool" where
  "grown h n h' \<longleftrightarrow> heap_ok h' \<and> tn_brk h' = tn_brk h + n \<and> (\<forall>a < tn_brk h. tn_cells h' a = tn_cells h a)"

lemma bottom_up_tree_grows:
  "heap_ok h \<Longrightarrow> \<exists>h'. bottom_up_tree (int d) h = Inr (tn_brk h, h') \<and> grown h (tree_size d) h' \<and>
     full_tree (tn_cells h') (tn_brk h) d"
proof (induction d arbitrary: h)
  case 0
  then show ?case
    by (subst bottom_up_tree.simps)
      (auto simp: tn_malloc_def tn_store_def tn_load_def heap_ok_def grown_def)
next
  case (Suc d)
  let ?t = "tn_brk h" and ?s = "tree_size d"
  define h1 where "h1 = snd (tn_malloc h)"
  have h1: "tn_malloc h = (?t, h1)" "heap_ok h1" "tn_brk h1 = Suc ?t"
    "tn_cells h1 ?t = Some \<lparr>tn_left = None, tn_right = None\<rparr>"
    "\<And>a. a < ?t \<Longrightarrow> tn_cells h1 a = tn_cells h a"
    using Suc.prems by (auto simp: h1_def tn_malloc_def heap_ok_def)
  obtain h2 where h2: "bottom_up_tree (int d) h1 = Inr (Suc ?t, h2)" "grown h1 ?s h2"
    "full_tree (tn_cells h2) (Suc ?t) d" using Suc.IH [OF h1(2)] h1(3) by auto
  define h3 where "h3 = h2\<lparr>tn_cells := (tn_cells h2)(?t \<mapsto> \<lparr>tn_left = Some (Suc ?t), tn_right = None\<rparr>)\<rparr>"
  have t2: "tn_cells h2 ?t = Some \<lparr>tn_left = None, tn_right = None\<rparr>" "?t \<noteq> 0"
    using h2(2) h1 Suc.prems by (auto simp: grown_def heap_ok_def)
  have s3: "tn_store h2 ?t (tn_left_update (\<lambda>q. Some (Suc ?t))) = Inr h3"
    using t2 by (simp add: tn_store_def tn_load_def h3_def)
  have ok3: "heap_ok h3" "tn_brk h3 = Suc ?t + ?s"
    using h2(2) h1(3) by (auto simp: heap_ok_def grown_def h3_def)
  obtain h4 where h4: "bottom_up_tree (int d) h3 = Inr (Suc ?t + ?s, h4)" "grown h3 ?s h4"
    "full_tree (tn_cells h4) (Suc ?t + ?s) d" using Suc.IH [OF ok3(1)] ok3(2) by auto
  define h5 where "h5 = h4\<lparr>tn_cells := (tn_cells h4)(?t \<mapsto> \<lparr>tn_left = Some (Suc ?t), tn_right = Some (Suc ?t + ?s)\<rparr>)\<rparr>"
  have t4: "tn_cells h4 ?t = Some \<lparr>tn_left = Some (Suc ?t), tn_right = None\<rparr>"
    using h4(2) ok3 by (simp add: grown_def h3_def)
  have s5: "tn_store h4 ?t (tn_right_update (\<lambda>q. Some (Suc ?t + ?s))) = Inr h5"
    using t4 t2(2) by (simp add: tn_store_def tn_load_def h5_def)
  have run: "bottom_up_tree (int (Suc d)) h = Inr (?t, h5)"
    using h1(1) h2(1) s3 h4(1) s5 by (subst bottom_up_tree.simps) (simp add: algebra_simps)
  have low: "tn_cells h5 a = tn_cells h a" if "a < ?t" for a
  proof -
    have "tn_cells h5 a = tn_cells h4 a" using that by (simp add: h5_def)
    also have "\<dots> = tn_cells h3 a" using h4(2) ok3(2) that by (simp add: grown_def)
    also have "\<dots> = tn_cells h2 a" using that by (simp add: h3_def)
    also have "\<dots> = tn_cells h1 a" using h2(2) h1(3) that by (simp add: grown_def)
    finally show ?thesis using h1(5) [OF that] by simp
  qed
  have mid: "tn_cells h5 a = tn_cells h2 a" if "Suc ?t \<le> a" "a < Suc ?t + ?s" for a
    using that h4(2) ok3(2) by (simp add: grown_def h5_def h3_def)
  have "full_tree (tn_cells h5) (Suc ?t) d"
    using h2(3) full_tree_cong [of "Suc ?t" d "tn_cells h5" "tn_cells h2"] mid by simp
  moreover have "full_tree (tn_cells h5) (Suc ?t + ?s) d"
    using h4(3) full_tree_cong [of "Suc ?t + ?s" d "tn_cells h5" "tn_cells h4"] by (simp add: h5_def)
  moreover have "tn_brk h5 = ?t + tree_size (Suc d)" "heap_ok h5"
    using h4(2) ok3(2) t2(2) by (auto simp: grown_def heap_ok_def h5_def)
  ultimately show ?case using run low t2(2) by (simp add: grown_def h5_def)
qed

lemma item_check_counts:
  "full_tree (tn_cells h) a d \<Longrightarrow> d < fuel \<Longrightarrow> int (tree_size d) \<le> LONG_MAX \<Longrightarrow>
   item_check fuel h a = Inr (int (tree_size d))"
proof (induction d arbitrary: a fuel)
  case 0
  then obtain f where "fuel = Suc f" by (cases fuel) auto
  with 0 show ?case by (simp add: tn_load_def tn_read_def)
next
  case (Suc d)
  then obtain f where f: "fuel = Suc f" "d < f" by (cases fuel) auto
  have "int (tree_size d) \<le> LONG_MAX" using Suc.prems(3) by simp
  note IH = Suc.IH [OF _ f(2) this]
  from Suc.prems show ?case
    by (simp add: f(1) tn_load_def tn_read_def IH c_long_ok add.commute)
qed

definition tn_cut :: "nat \<Rightarrow> nat \<Rightarrow> tree_heap \<Rightarrow> tree_heap" where
  "tn_cut a n h = h\<lparr>tn_cells := (\<lambda>x. if a \<le> x \<and> x < a + n then None else tn_cells h x)\<rparr>"

lemma delete_tree_frees:
  "full_tree (tn_cells h) a d \<Longrightarrow> d < fuel \<Longrightarrow> delete_tree fuel a h = Inr (tn_cut a (tree_size d) h)"
proof (induction d arbitrary: a fuel h)
  case 0
  then obtain f where "fuel = Suc f" by (cases fuel) auto
  with 0 show ?case by (auto simp: tn_load_def tn_read_def tn_free_def tn_cut_def fun_eq_iff)
next
  case (Suc d)
  let ?s = "tree_size d"
  from Suc.prems obtain f where f: "fuel = Suc f" "d < f" by (cases fuel) auto
  let ?h1 = "tn_cut (Suc a) ?s h"
  let ?h2 = "tn_cut (Suc a + ?s) ?s ?h1"
  have c: "tn_cells h a = Some \<lparr>tn_left = Some (Suc a), tn_right = Some (Suc a + ?s)\<rparr>" "a \<noteq> 0"
    using Suc.prems(1) by auto
  have d1: "delete_tree f (Suc a) h = Inr ?h1" using Suc.IH [OF _ f(2)] Suc.prems(1) by simp
  have "full_tree (tn_cells ?h1) (Suc a + ?s) d"
    using Suc.prems(1) full_tree_cong [of "Suc a + ?s" d "tn_cells ?h1" "tn_cells h"] by (simp add: tn_cut_def)
  then have d2: "delete_tree f (Suc a + ?s) ?h1 = Inr ?h2" by (rule Suc.IH [OF _ f(2)])
  have c1: "tn_cells ?h1 a = tn_cells h a" "tn_cells ?h2 a = tn_cells h a" by (auto simp: tn_cut_def)
  have "tn_free ?h2 a = Inr (tn_cut a (tree_size (Suc d)) h)"
    using c c1 by (auto simp: tn_free_def tn_load_def tn_cut_def fun_eq_iff)
  then show ?case using c c1 d1 d2 by (simp add: f(1) tn_load_def tn_read_def)
qed

section \<open>The program\<close>

text \<open>Building, checking and deleting a tree gives back the heap; only the next address moves on.\<close>

lemma build_check_delete:
  assumes "heap_ok h" "d < fuel" "d \<le> 61"
  shows "\<exists>h'. bottom_up_tree (int d) h = Inr (tn_brk h, h') \<and>
    item_check fuel h' (tn_brk h) = Inr (2 ^ Suc d - 1) \<and>
    delete_tree fuel (tn_brk h) h' = Inr (h\<lparr>tn_brk := tn_brk h + tree_size d\<rparr>)"
proof -
  obtain h' where h': "bottom_up_tree (int d) h = Inr (tn_brk h, h')" "grown h (tree_size d) h'"
    "full_tree (tn_cells h') (tn_brk h) d" using bottom_up_tree_grows [OF assms(1)] by blast
  have "(2::int) ^ Suc d \<le> 2 ^ 62" using assms(3) by (intro power_increasing) auto
  then have "int (tree_size d) \<le> LONG_MAX" by (simp add: int_tree_size LONG_MAX_def)
  from item_check_counts [OF h'(3) assms(2) this]
  have "item_check fuel h' (tn_brk h) = Inr (2 ^ Suc d - 1)" by (simp add: int_tree_size)
  moreover have "tn_cut (tn_brk h) (tree_size d) h' = h\<lparr>tn_brk := tn_brk h + tree_size d\<rparr>"
    using h'(2) assms(1) by (auto simp: tn_cut_def grown_def heap_ok_def fun_eq_iff
        intro!: tree_heap.equality)
  ultimately show ?thesis using h'(1) delete_tree_frees [OF h'(3) assms(2)] by auto
qed

lemma heap_ok_brk: "heap_ok h \<Longrightarrow> heap_ok (h\<lparr>tn_brk := tn_brk h + n\<rparr>)"
  by (auto simp: heap_ok_def)

lemma tree_iterations_sum:
  assumes "d < fuel" "d \<le> 61"
  shows "heap_ok h \<Longrightarrow> 0 \<le> check \<Longrightarrow> check + int i * (2 ^ Suc d - 1) \<le> LONG_MAX \<Longrightarrow>
    \<exists>b. tree_iterations fuel i (int d) check h =
      Inr (check + int i * (2 ^ Suc d - 1), h\<lparr>tn_brk := tn_brk h + b\<rparr>)"
proof (induction i arbitrary: check h)
  case 0
  show ?case by (rule exI [of _ 0]) simp
next
  case (Suc i)
  let ?c = "2 ^ Suc d - 1 :: int" and ?h = "h\<lparr>tn_brk := tn_brk h + tree_size d\<rparr>"
  obtain h' where h': "bottom_up_tree (int d) h = Inr (tn_brk h, h')"
    "item_check fuel h' (tn_brk h) = Inr ?c" "delete_tree fuel (tn_brk h) h' = Inr ?h"
    using build_check_delete [OF Suc.prems(1) assms] by blast
  have sum: "check + int (Suc i) * ?c = check + ?c + int i * ?c" by (simp add: algebra_simps)
  have c: "0 \<le> ?c" by simp
  then have "0 \<le> int i * ?c" by simp
  with Suc.prems sum c have le: "0 \<le> check + ?c" "check + ?c \<le> LONG_MAX"
    "check + ?c + int i * ?c \<le> LONG_MAX" by linarith+
  then have cl: "c_long (check + ?c) = Inr (check + ?c)" by (intro c_long_ok) (simp_all add: LONG_MAX_def)
  obtain b where b: "tree_iterations fuel i (int d) (check + ?c) ?h =
      Inr (check + ?c + int i * ?c, ?h\<lparr>tn_brk := tn_brk ?h + b\<rparr>)"
    using Suc.IH [OF heap_ok_brk [OF Suc.prems(1)] le(1,3)] by blast
  show ?case unfolding sum
    by (rule exI [of _ "tree_size d + b"]) (simp only: tree_iterations.simps h' cl b rbind.simps prod.case,
      simp add: add.assoc)
qed

text \<open>The lines of the middle loop, from depth \<open>d\<close> on.\<close>

definition tree_report :: "nat \<Rightarrow> nat \<Rightarrow> tree_line" where
  "tree_report m d = Trees (2 ^ (m - d + 4)) (int d) (2 ^ (m - d + 4) * (2 ^ Suc d - 1))"

definition even_depths :: "nat \<Rightarrow> nat \<Rightarrow> nat list" where
  "even_depths d m = filter even [d..<Suc m]"

lemma even_depths_step: "even d \<Longrightarrow> d \<le> m \<Longrightarrow> even_depths d m = d # even_depths (d + 2) m"
  by (simp add: even_depths_def upt_conv_Cons del: upt_Suc)
    (cases "d = m", simp_all add: upt_conv_Cons [of "Suc d"] del: upt_Suc)

lemma depth_loop_step:
  assumes "m \<le> 58" "m < fuel" "heap_ok h" "4 \<le> d" "d \<le> m"
  shows "\<exists>b. depth_loop fuel 4 (int m) (int d) h =
    rbind (depth_loop fuel 4 (int m) (int (d + 2)) (h\<lparr>tn_brk := tn_brk h + b\<rparr>)) (\<lambda>(ls, h).
      Inr (tree_report m d # ls, h))"
proof -
  obtain k where k: "m = d + k" using le_Suc_ex [OF assms(5)] by blast
  have eq: "(2::int) ^ (k + 4) * 2 ^ Suc d = 2 ^ (m + 5)"
    unfolding k by (simp flip: power_add power_Suc add: add.commute)
  have big: "(2::int) ^ (m + 5) \<le> 2 ^ 63" using assms(1) by (intro power_increasing) auto
  have "(1::int) \<le> 2 ^ (k + 4)" by (rule one_le_power) simp
  then have "(2::int) ^ (k + 4) * (2 ^ Suc d - 1) \<le> 2 ^ (m + 5) - 1"
    unfolding eq [symmetric] right_diff_distrib by simp
  with big have le: "(2::int) ^ (k + 4) * (2 ^ Suc d - 1) \<le> LONG_MAX" by (simp add: LONG_MAX_def)
  have ints: "c_int (int m - int d) = Inr (int k)" "c_int (int k + 4) = Inr (int (k + 4))"
    "c_int (int d + 2) = Inr (int (d + 2))"
    using assms(1) k by (simp_all add: c_int_def INT_MAX_def)
  have sh: "long_shift_one (int (k + 4)) = Inr (2 ^ (k + 4))"
    unfolding long_shift_one_def nat_int using assms(1,4) k by simp
  have ni: "nat (2 ^ (k + 4)) = (2::nat) ^ (k + 4)" by (simp add: nat_power_eq)
  obtain b where b: "tree_iterations fuel (2 ^ (k + 4)) (int d) 0 h =
      Inr (2 ^ (k + 4) * (2 ^ Suc d - 1), h\<lparr>tn_brk := tn_brk h + b\<rparr>)"
    using tree_iterations_sum [of d fuel h 0 "2 ^ (k + 4)"] assms le by auto
  have rep: "tree_report m d = Trees (2 ^ (k + 4)) (int d) (2 ^ (k + 4) * (2 ^ Suc d - 1))"
    by (simp only: tree_report_def k diff_add_inverse)
  have "int d \<le> int m" using assms(5) by simp
  then show ?thesis unfolding rep
    by (intro exI [of _ b], subst depth_loop.simps)
      (simp only: if_True ints rbind.simps sh ni b prod.case)
qed

lemma depth_loop_reports:
  assumes "m \<le> 58" "m < fuel"
  shows "heap_ok h \<Longrightarrow> even d \<Longrightarrow> 4 \<le> d \<Longrightarrow>
    \<exists>b. depth_loop fuel 4 (int m) (int d) h =
      Inr (map (tree_report m) (even_depths d m), h\<lparr>tn_brk := tn_brk h + b\<rparr>)"
proof (induction "Suc m - d" arbitrary: d h rule: less_induct)
  case less
  show ?case
  proof (cases "d \<le> m")
    case False
    then show ?thesis by (intro exI [of _ 0], subst depth_loop.simps) (simp add: even_depths_def)
  next
    case True
    obtain b where b: "depth_loop fuel 4 (int m) (int d) h =
      rbind (depth_loop fuel 4 (int m) (int (d + 2)) (h\<lparr>tn_brk := tn_brk h + b\<rparr>)) (\<lambda>(ls, h).
        Inr (tree_report m d # ls, h))"
      using depth_loop_step [OF assms less.prems(1,3) True] by blast
    have "Suc m - (d + 2) < Suc m - d" "even (d + 2)" "4 \<le> d + 2" using True less.prems by auto
    from less.hyps [OF this(1) heap_ok_brk [OF less.prems(1)] this(2,3)] obtain b' where
      b': "depth_loop fuel 4 (int m) (int (d + 2)) (h\<lparr>tn_brk := tn_brk h + b\<rparr>) =
        Inr (map (tree_report m) (even_depths (d + 2) m), h\<lparr>tn_brk := tn_brk h + b + b'\<rparr>)" by auto
    show ?thesis
      by (rule exI [of _ "b + b'"])
        (simp only: b b' even_depths_step [OF less.prems(2) True] rbind.simps prod.case list.map add.assoc)
  qed
qed


text \<open>Deleting a tree that was allocated first leaves the heap as it was, apart from the next address.\<close>

lemma tn_cut_brk: "tn_cut a n (h\<lparr>tn_brk := b\<rparr>) = tn_cut a n h\<lparr>tn_brk := b\<rparr>"
  by (cases h) (simp add: tn_cut_def fun_eq_iff)

lemma grown_tn_cut:
  "heap_ok h \<Longrightarrow> grown h n h' \<Longrightarrow> tn_cut (tn_brk h) n h' = h\<lparr>tn_brk := tn_brk h + n\<rparr>"
  by (auto simp: tn_cut_def grown_def heap_ok_def fun_eq_iff intro!: tree_heap.equality)

text \<open>C14: for every argument up to 58 the program prints the lines of the benchmark (every tree of
  depth \<open>d\<close> has \<open>2 ^ (d + 1) - 1\<close> nodes), no sum or shift overflows, no freed or uninitialised cell is
  touched, and every allocated node has been freed at the end.\<close>

theorem binary_trees_main_reports:
  assumes "heap_ok h" "n \<le> 58" "max 6 (nat n) + 1 < fuel"
  defines "m \<equiv> max 6 (nat n)"
  shows "\<exists>b. binary_trees_main fuel (Some n) h =
    Inr (StretchTree (int m + 1) (2 ^ (m + 2) - 1) # map (tree_report m) (even_depths 4 m) @
         [LongLivedTree (int m) (2 ^ (m + 1) - 1)], h\<lparr>tn_brk := b\<rparr>)"
proof -
  have m: "6 \<le> m" "m \<le> 58" "m < fuel" "Suc m < fuel" using assms by auto
  have md: "(if 4 + 2 < n then n else 4 + 2) = int m" unfolding m_def by (auto simp: max_def)
  obtain h1 where h1: "bottom_up_tree (int (Suc m)) h = Inr (tn_brk h, h1)"
    "item_check fuel h1 (tn_brk h) = Inr (2 ^ Suc (Suc m) - 1)"
    "delete_tree fuel (tn_brk h) h1 = Inr (h\<lparr>tn_brk := tn_brk h + tree_size (Suc m)\<rparr>)"
    using build_check_delete [OF assms(1) m(4)] m(2) by auto
  define h2 where "h2 = h\<lparr>tn_brk := tn_brk h + tree_size (Suc m)\<rparr>"
  have ok2: "heap_ok h2" unfolding h2_def by (rule heap_ok_brk [OF assms(1)])
  obtain h3 where h3: "bottom_up_tree (int m) h2 = Inr (tn_brk h2, h3)" "grown h2 (tree_size m) h3"
    "full_tree (tn_cells h3) (tn_brk h2) m" using bottom_up_tree_grows [OF ok2] by blast
  have ok3: "heap_ok h3" using h3(2) by (simp add: grown_def)
  obtain b where b: "depth_loop fuel 4 (int m) 4 h3 =
      Inr (map (tree_report m) (even_depths 4 m), h3\<lparr>tn_brk := tn_brk h3 + b\<rparr>)"
    using depth_loop_reports [OF m(2,3) ok3, of 4] by auto
  have "(2::int) ^ Suc m \<le> 2 ^ 63" using m by (intro power_increasing) auto
  then have "int (tree_size m) \<le> LONG_MAX" by (simp add: int_tree_size LONG_MAX_def)
  from item_check_counts [OF _ m(3) this] h3(3)
  have chk: "item_check fuel (h3\<lparr>tn_brk := tn_brk h3 + b\<rparr>) (tn_brk h2) = Inr (2 ^ Suc m - 1)"
    by (simp add: int_tree_size)
  have del: "delete_tree fuel (tn_brk h2) (h3\<lparr>tn_brk := tn_brk h3 + b\<rparr>) = Inr (h\<lparr>tn_brk := tn_brk h3 + b\<rparr>)"
    using delete_tree_frees [of "h3\<lparr>tn_brk := tn_brk h3 + b\<rparr>" "tn_brk h2" m fuel] h3(3) m(3)
      grown_tn_cut [OF ok2 h3(2)] by (simp add: tn_cut_brk h2_def)
  have ci: "c_int (int m + 1) = Inr (int (Suc m))" using m by (simp add: c_int_def INT_MAX_def)
  show ?thesis
    by (rule exI [of _ "tn_brk h3 + b"])
      (simp only: binary_trees_main_def Let_def option.case md ci rbind.simps h1 prod.case
        h2_def [symmetric] h3(1) b chk del, simp)
qed

theorem binary_trees_main_reports_witness:
  "\<exists>b. binary_trees_main 10 (Some 6) \<lparr>tn_cells = Map.empty, tn_brk = 1\<rparr> =
    Inr ([StretchTree 7 255, Trees 64 4 1984, Trees 16 6 2032, LongLivedTree 6 127],
         \<lparr>tn_cells = Map.empty, tn_brk = b\<rparr>)"
proof -
  have "heap_ok \<lparr>tn_cells = Map.empty, tn_brk = 1\<rparr>" by (simp add: heap_ok_def)
  moreover have "even_depths 4 6 = [4, 6]" by (simp add: even_depths_def upt_conv_Cons)
  ultimately show ?thesis
    using binary_trees_main_reports [of "\<lparr>tn_cells = Map.empty, tn_brk = 1\<rparr>" 6 10]
    by (simp add: tree_report_def)
qed


end
