(* ===== verification/SuiteFannkuch.thy ===== *)
theory SuiteFannkuch
  imports CPrelude "HOL-Library.Multiset"
begin

text \<open>
  \<open>bench/suite/src/st/fannkuch-redux/c/fannkuch-redux.c\<close>. The three arrays of 32 \<open>int\<close>s are
  lists whose initial content, uninitialised in the code, is an argument. The program visits the
  permutations of \<open>0 .. n - 1\<close> by rotating prefixes and counts the prefix reversals ("flips") that
  bring \<open>0\<close> to the front of each.
\<close>

section \<open>The program\<close>

record fannkuch =
  fk_perm :: "int list"
  fk_perm1 :: "int list"
  fk_count :: "int list"
  fk_max_flips :: int
  fk_checksum :: int
  fk_perm_count :: int
  fk_r :: int

definition fk_identity :: "int \<Rightarrow> int list \<Rightarrow> int list res" where
  "fk_identity n perm1 = rfold (\<lambda>i p. arr_set p (int i) (int i)) [0..<nat n] perm1"

text \<open>\<open>while (r != 1) { count[r - 1] = r; r--; }\<close>\<close>

function fk_reset :: "int \<Rightarrow> int list \<Rightarrow> int list res" where
  "fk_reset r cnt = (if r \<noteq> 1 then rbind (arr_set cnt (r - 1) r) (\<lambda>cnt. fk_reset (r - 1) cnt)
     else Inr cnt)"
  by pat_completeness auto
termination by (relation "measure (\<lambda>(r, c). nat r)") (auto simp: arr_set_Inr)

declare fk_reset.simps [simp del]

definition fk_copy :: "int \<Rightarrow> int list \<Rightarrow> int list \<Rightarrow> int list res" where
  "fk_copy n perm1 perm =
    rfold (\<lambda>i p. rbind (arr_get perm1 (int i)) (\<lambda>x. arr_set p (int i) x)) [0..<nat n] perm"

text \<open>\<open>for (int i = 0, j = k; i < j; i++, j--)\<close>: the elements between \<open>i\<close> and \<open>j\<close> are swapped.\<close>

function fk_reverse :: "int \<Rightarrow> int \<Rightarrow> int list \<Rightarrow> int list res" where
  "fk_reverse i j perm =
    (if i < j then
      rbind (arr_get perm i) (\<lambda>t.
      rbind (arr_get perm j) (\<lambda>u.
      rbind (arr_set perm i u) (\<lambda>perm.
      rbind (arr_set perm j t) (\<lambda>perm.
        fk_reverse (i + 1) (j - 1) perm))))
     else Inr perm)"
  by pat_completeness auto
termination by (relation "measure (\<lambda>(i, j, p). nat (j - i))") auto

declare fk_reverse.simps [simp del]

fun fk_flips :: "nat \<Rightarrow> int \<Rightarrow> int list \<Rightarrow> (int \<times> int list) res" where
  "fk_flips 0 flips perm = Inl OutOfFuel"
| "fk_flips (Suc fuel) flips perm =
    rbind (arr_get perm 0) (\<lambda>k.
      if k \<noteq> 0 then
        rbind (fk_reverse 0 k perm) (\<lambda>perm.
        rbind (c_int (flips + 1)) (\<lambda>flips.
          fk_flips fuel flips perm))
      else Inr (flips, perm))"

text \<open>\<open>perm0 = perm1[0]; for (i = 0; i < r; i++) perm1[i] = perm1[i + 1]; perm1[r] = perm0;\<close>\<close>

definition fk_rotate :: "int \<Rightarrow> int list \<Rightarrow> int list res" where
  "fk_rotate r perm1 =
    rbind (arr_get perm1 0) (\<lambda>perm0.
    rbind (rfold (\<lambda>i p. rbind (arr_get p (int i + 1)) (\<lambda>x. arr_set p (int i) x)) [0..<nat r] perm1) (\<lambda>perm1.
      arr_set perm1 r perm0))"

lemma rfold_length:
  "rfold f xs p = Inr q \<Longrightarrow> (\<And>x p q. f x p = Inr q \<Longrightarrow> length q = length p) \<Longrightarrow> length q = length p"
  by (induction xs arbitrary: p) (auto simp: rbind_eq_Inr)

lemma fk_rotate_length: "fk_rotate r p = Inr q \<Longrightarrow> length q = length p \<and> 0 \<le> r \<and> r < int (length p)"
  by (force simp: fk_rotate_def rbind_eq_Inr arr_set_Inr dest: rfold_length)

text \<open>The loop that finds the next permutation; \<open>None\<close> when there is none.\<close>

function fk_next :: "int \<Rightarrow> fannkuch \<Rightarrow> fannkuch option res" where
  "fk_next n me =
    (if fk_r me = n then Inr None
     else
      rbind (fk_rotate (fk_r me) (fk_perm1 me)) (\<lambda>p.
      rbind (arr_get (fk_count me) (fk_r me)) (\<lambda>c.
      rbind (c_int (c - 1)) (\<lambda>c.
      rbind (arr_set (fk_count me) (fk_r me) c) (\<lambda>cnt.
        if c > 0 then Inr (Some (me\<lparr>fk_perm1 := p, fk_count := cnt\<rparr>))
        else fk_next n (me\<lparr>fk_perm1 := p, fk_count := cnt, fk_r := fk_r me + 1\<rparr>))))))"
  by pat_completeness auto
termination
  by (relation "measure (\<lambda>(n, me). nat (int (length (fk_perm1 me)) - fk_r me))")
    (auto dest: fk_rotate_length)

declare fk_next.simps [simp del]

text \<open>What is done with one permutation.\<close>

definition fk_visit :: "nat \<Rightarrow> int \<Rightarrow> fannkuch \<Rightarrow> fannkuch res" where
  "fk_visit ffuel n me =
    rbind (fk_reset (fk_r me) (fk_count me)) (\<lambda>cnt.
    rbind (fk_copy n (fk_perm1 me) (fk_perm me)) (\<lambda>perm.
    rbind (fk_flips ffuel 0 perm) (\<lambda>(flips, perm).
    rbind (c_int (fk_checksum me + (if fk_perm_count me mod 2 = 0 then flips else - flips))) (\<lambda>checksum.
      Inr (me\<lparr>fk_count := cnt, fk_r := 1, fk_perm := perm,
        fk_max_flips := (if flips > fk_max_flips me then flips else fk_max_flips me),
        fk_checksum := checksum\<rparr>)))))"

fun fk_loop :: "nat \<Rightarrow> nat \<Rightarrow> int \<Rightarrow> fannkuch \<Rightarrow> (int \<times> int \<times> int) res" where
  "fk_loop ffuel 0 n me = Inl OutOfFuel"
| "fk_loop ffuel (Suc fuel) n me =
    rbind (fk_visit ffuel n me) (\<lambda>me.
    rbind (fk_next n me) (\<lambda>nxt.
      case nxt of
        None \<Rightarrow> Inr (fk_checksum me, n, fk_max_flips me)
      | Some me \<Rightarrow>
          rbind (c_int (fk_perm_count me + 1)) (\<lambda>pc.
            fk_loop ffuel fuel n (me\<lparr>fk_perm_count := pc\<rparr>))))"

text \<open>\<open>arg\<close> is the value of \<open>atoi(argv[1])\<close>; the result is what is printed.\<close>

definition fannkuch_main ::
  "nat \<Rightarrow> nat \<Rightarrow> int option \<Rightarrow> int list \<Rightarrow> int list \<Rightarrow> int list \<Rightarrow> (int \<times> int \<times> int) res" where
  "fannkuch_main ffuel fuel arg perm perm1 cnt =
    (let n = (case arg of Some v \<Rightarrow> v | None \<Rightarrow> 7) in
     rbind (fk_identity n perm1) (\<lambda>perm1.
       fk_loop ffuel fuel n
         \<lparr>fk_perm = perm, fk_perm1 = perm1, fk_count = cnt, fk_max_flips = 0, fk_checksum = 0,
          fk_perm_count = 0, fk_r = n\<rparr>))"

section \<open>Flips\<close>

text \<open>One flip, on the list of the first \<open>n\<close> cells, and the number of flips until \<open>0\<close> is in front.\<close>

definition flip_step :: "int list \<Rightarrow> int list" where
  "flip_step xs = rev (take (Suc (nat (hd xs))) xs) @ drop (Suc (nat (hd xs))) xs"

definition flip_count :: "int list \<Rightarrow> nat" where
  "flip_count xs = (LEAST k. hd ((flip_step ^^ k) xs) = 0)"

abbreviation perm_of :: "nat \<Rightarrow> int list \<Rightarrow> bool" where
  "perm_of n xs \<equiv> mset xs = mset (map int [0..<n])"

lemma perm_ofD:
  assumes "perm_of n xs"
  shows "length xs = n" "distinct xs" "set xs = int ` {..<n}"
proof -
  show "length xs = n" using mset_eq_length [OF assms] by simp
  show "distinct xs" using mset_eq_imp_distinct_iff [OF assms] by (simp add: distinct_map inj_on_def)
  show "set xs = int ` {..<n}" using mset_eq_setD [OF assms] by (auto simp: atLeast0LessThan)
qed

lemma perm_of_hd:
  assumes "perm_of n xs" "0 < n"
  shows "0 \<le> hd xs" "hd xs < int n" "hd xs = xs ! 0"
proof -
  have ne: "xs \<noteq> []" using perm_ofD(1) [OF assms(1)] assms(2) by auto
  then have "hd xs \<in> int ` {..<n}" using perm_ofD(3) [OF assms(1)] hd_in_set by metis
  then show "0 \<le> hd xs" "hd xs < int n" by auto
  show "hd xs = xs ! 0" using ne by (rule hd_conv_nth)
qed

lemma mset_flip_step: "mset (flip_step xs) = mset xs"
  by (simp add: flip_step_def) (metis append_take_drop_id mset_append)

lemma flip_step_nth:
  assumes "nat (hd xs) < length xs" "i < length xs"
  shows "flip_step xs ! i = (if i \<le> nat (hd xs) then xs ! (nat (hd xs) - i) else xs ! i)"
  using assms by (cases "length xs = Suc (nat (hd xs))") (auto simp: flip_step_def nth_append rev_nth min_def)

text \<open>The weight of a permutation: a fixed point \<open>i\<close> counts \<open>2 ^ i\<close>. Every flip makes it larger.\<close>

definition flip_weight :: "nat \<Rightarrow> int list \<Rightarrow> nat" where
  "flip_weight n xs = (\<Sum>i<n. if xs ! i = int i then 2 ^ i else 0)"

lemma sum_powers: "(\<Sum>i<n. 2 ^ i) < (2::nat) ^ n"
  by (induction n) auto

lemma flip_weight_less: "flip_weight n xs < 2 ^ n"
proof -
  have "flip_weight n xs \<le> (\<Sum>i<n. 2 ^ i)" unfolding flip_weight_def by (intro sum_mono) auto
  then show ?thesis using sum_powers [of n] by linarith
qed

lemma flip_weight_step:
  assumes p: "perm_of n xs" "0 < n" and h: "hd xs \<noteq> 0"
  shows "flip_weight n xs < flip_weight n (flip_step xs)"
proof -
  define k where "k = nat (hd xs)"
  note hd = perm_of_hd [OF p]
  have k: "0 < k" "k < n" "xs ! 0 = int k" using hd h by (auto simp: k_def)
  note len = perm_ofD(1) [OF p(1)]
  let ?f = "\<lambda>xs i. if xs ! i = int i then 2 ^ i else 0 :: nat"
  have split: "(\<Sum>i<n. g i) = (\<Sum>i<k. g i) + (g k + (\<Sum>i\<in>{Suc k..<n}. g i))" for g :: "nat \<Rightarrow> nat"
    using k(2) by (simp add: lessThan_atLeast0 sum.atLeast_Suc_lessThan [symmetric]
        sum.atLeastLessThan_concat)
  have nk: "xs ! k \<noteq> int k"
    using nth_eq_iff_index_eq [OF perm_ofD(2) [OF p(1)], of k 0] k len by auto
  have nth: "flip_step xs ! i = (if i \<le> k then xs ! (k - i) else xs ! i)" if "i < n" for i
    using flip_step_nth [of xs i] that k len by (simp add: k_def)
  have "(\<Sum>i<k. ?f xs i) \<le> (\<Sum>i<k. 2 ^ i)" by (intro sum_mono) auto
  also have "\<dots> < 2 ^ k" by (rule sum_powers)
  finally have lo: "(\<Sum>i<k. ?f xs i) < 2 ^ k" .
  have hi: "(\<Sum>i\<in>{Suc k..<n}. ?f (flip_step xs) i) = (\<Sum>i\<in>{Suc k..<n}. ?f xs i)"
    by (rule sum.cong) (simp_all add: nth)
  have "?f (flip_step xs) k = 2 ^ k" "?f xs k = 0" using nth [of k] k nk by simp_all
  with lo show ?thesis unfolding flip_weight_def split [of "?f xs"] split [of "?f (flip_step xs)"] hi by linarith
qed

lemma perm_of_flips: "perm_of n xs \<Longrightarrow> perm_of n ((flip_step ^^ k) xs)"
  by (induction k) (simp_all add: mset_flip_step)

lemma flips_end: "perm_of n xs \<Longrightarrow> 0 < n \<Longrightarrow> \<exists>k. hd ((flip_step ^^ k) xs) = 0 \<and> k + flip_weight n xs < 2 ^ n"
proof (induction "2 ^ n - flip_weight n xs" arbitrary: xs rule: less_induct)
  case less
  show ?case
  proof (cases "hd xs = 0")
    case True
    then show ?thesis using flip_weight_less [of n xs] by (intro exI [of _ 0]) simp
  next
    case False
    have w: "flip_weight n xs < flip_weight n (flip_step xs)"
      by (rule flip_weight_step [OF less.prems False])
    then have "2 ^ n - flip_weight n (flip_step xs) < 2 ^ n - flip_weight n xs"
      using flip_weight_less [of n "flip_step xs"] by linarith
    from less.hyps [OF this] less.prems obtain k where
      k: "hd ((flip_step ^^ k) (flip_step xs)) = 0" "k + flip_weight n (flip_step xs) < 2 ^ n"
      by (auto simp: mset_flip_step)
    with w show ?thesis by (intro exI [of _ "Suc k"]) (simp add: funpow_swap1)
  qed
qed

lemma flip_count_0: "hd xs = 0 \<Longrightarrow> flip_count xs = 0"
  unfolding flip_count_def by (rule Least_eq_0) simp

lemma flip_count_Suc:
  assumes "perm_of n xs" "0 < n" "hd xs \<noteq> 0"
  shows "flip_count xs = Suc (flip_count (flip_step xs))"
proof -
  obtain k where "hd ((flip_step ^^ k) xs) = 0" using flips_end [OF assms(1,2)] by blast
  from Least_Suc [of "\<lambda>k. hd ((flip_step ^^ k) xs) = 0", OF this] assms(3) show ?thesis
    unfolding flip_count_def by (simp add: funpow_swap1)
qed

lemma flip_count_less:
  assumes "perm_of n xs" "0 < n"
  shows "flip_count xs < 2 ^ n"
proof -
  obtain k where k: "hd ((flip_step ^^ k) xs) = 0" "k < 2 ^ n" using flips_end [OF assms] by force
  have "flip_count xs \<le> k" unfolding flip_count_def using k(1) by (rule Least_le)
  with k(2) show ?thesis by simp
qed

text \<open>The loops on the arrays.\<close>

lemma fk_reverse_nth:
  "0 \<le> i \<Longrightarrow> j < int (length p) \<Longrightarrow> \<exists>q. fk_reverse i j p = Inr q \<and> length q = length p \<and>
     (\<forall>x < length p. q ! x = (if i \<le> int x \<and> int x \<le> j then p ! (nat (i + j) - x) else p ! x))"
proof (induction i j p rule: fk_reverse.induct)
  case (1 i j p)
  show ?case
  proof (cases "i < j")
    case False
    have "p ! x = p ! (nat (i + j) - x)" if "i \<le> int x" "int x \<le> j" for x
    proof -
      have "int x = i" "int x = j" using that False by auto
      then have "nat (i + j) - x = x" by linarith
      then show ?thesis by simp
    qed
    then show ?thesis using False by (subst fk_reverse.simps) auto
  next
    case True
    let ?p = "p[nat i := p ! nat j, nat j := p ! nat i]"
    have run: "fk_reverse i j p = fk_reverse (i + 1) (j - 1) ?p"
      using True 1 by (subst fk_reverse.simps) (simp add: arr_get_def arr_set_def)
    obtain q where q: "fk_reverse (i + 1) (j - 1) ?p = Inr q" "length q = length p"
      "\<forall>x < length p. q ! x = (if i + 1 \<le> int x \<and> int x \<le> j - 1 then ?p ! (nat (i + j) - x) else ?p ! x)"
      using True 1 by (fastforce simp: arr_get_def arr_set_def)
    have "q ! x = (if i \<le> int x \<and> int x \<le> j then p ! (nat (i + j) - x) else p ! x)" if x: "x < length p" for x
    proof -
      consider "x = nat i" | "x = nat j" | "i + 1 \<le> int x" "int x \<le> j - 1" | "int x < i \<or> j < int x"
        by linarith
      then show ?thesis
      proof cases
        case 1
        moreover have "nat (i + j) - nat i = nat j" "nat i \<noteq> nat j" using "1.prems"(1) True by linarith+
        ultimately show ?thesis using q(3) x "1.prems"(1) True by simp
      next
        case 2
        moreover have "nat (i + j) - nat j = nat i" "nat i \<noteq> nat j" using "1.prems"(1) True by linarith+
        ultimately show ?thesis using q(3) x "1.prems"(1) True by simp
      next
        case 3
        then have "nat (i + j) - x \<noteq> nat i" "nat (i + j) - x \<noteq> nat j" using "1.prems"(1) by linarith+
        then show ?thesis using q(3) x 3 by simp
      next
        case 4
        then have "x \<noteq> nat i" "x \<noteq> nat j" using "1.prems"(1) True by linarith+
        then show ?thesis using q(3) x 4 by auto
      qed
    qed
    then show ?thesis using run q(1,2) by auto
  qed
qed

lemma fk_reverse_flip:
  assumes "perm_of n (take n p)" "0 < n" "n \<le> length p"
  shows "\<exists>q. fk_reverse 0 (hd (take n p)) p = Inr q \<and> length q = length p \<and> take n q = flip_step (take n p)"
proof -
  let ?k = "hd (take n p)"
  note h = perm_of_hd [OF assms(1,2)]
  obtain q where q: "fk_reverse 0 ?k p = Inr q" "length q = length p"
    "\<forall>x < length p. q ! x = (if 0 \<le> int x \<and> int x \<le> ?k then p ! (nat (0 + ?k) - x) else p ! x)"
    using fk_reverse_nth [of 0 ?k p] h(2) assms(3) by fastforce
  have "take n q ! x = flip_step (take n p) ! x" if "x < n" for x
    using q(3) that assms(3) h(1,2) flip_step_nth [of "take n p" x]
    by (auto simp: nat_less_iff le_nat_iff)
  moreover have "length (flip_step (take n p)) = n"
    using mset_eq_length [OF mset_flip_step, of "take n p"] assms(3) by simp
  ultimately have "take n q = flip_step (take n p)"
    using q(2) assms(3) by (intro nth_equalityI) auto
  then show ?thesis using q by auto
qed

lemma fk_flips_count:
  "perm_of n (take n p) \<Longrightarrow> 0 < n \<Longrightarrow> n \<le> length p \<Longrightarrow> flip_count (take n p) < fuel \<Longrightarrow> 0 \<le> f \<Longrightarrow>
   f + int (flip_count (take n p)) \<le> INT_MAX \<Longrightarrow>
   \<exists>q. fk_flips fuel f p = Inr (f + int (flip_count (take n p)), q) \<and> length q = length p"
proof (induction "flip_count (take n p)" arbitrary: f p fuel)
  case 0
  then obtain g where g: "fuel = Suc g" by (cases fuel) auto
  have "hd (take n p) = 0" using flip_count_Suc [OF 0(2,3)] 0(1) by auto
  then have "p ! 0 = 0" using perm_of_hd(3) [OF 0(2,3)] 0(3) by simp
  moreover have "p \<noteq> []" using 0 by auto
  ultimately show ?case using 0 by (simp add: g arr_get_def)
next
  case (Suc m)
  then obtain g where g: "fuel = Suc g" by (cases fuel) auto
  have h0: "hd (take n p) \<noteq> 0" using flip_count_0 [of "take n p"] Suc(2) by auto
  have m: "m = flip_count (flip_step (take n p))" using flip_count_Suc [OF Suc(3,4) h0] Suc(2) by simp
  obtain q where q: "fk_reverse 0 (hd (take n p)) p = Inr q" "length q = length p"
    "take n q = flip_step (take n p)" using fk_reverse_flip [OF Suc(3-5)] by blast
  have p0: "p ! 0 = hd (take n p)" using perm_of_hd(3) [OF Suc(3,4)] Suc(4) by simp
  have "perm_of n (take n q)" using Suc(3) by (simp add: q(3) mset_flip_step)
  moreover have "n \<le> length q" "flip_count (take n q) < g" "0 \<le> f + 1"
    "f + 1 + int (flip_count (take n q)) \<le> INT_MAX"
    using Suc(2,5-8) q(2,3) m g by auto
  ultimately obtain r where "fk_flips g (f + 1) q = Inr (f + 1 + int m, r)" "length r = length p"
    using Suc(1) [of q g "f + 1", OF _ _ Suc(4)] q(2,3) m by auto
  moreover have "c_int (f + 1) = Inr (f + 1)" using Suc(2,7,8) by (simp add: c_int_def INT_MAX_def)
  moreover have "p \<noteq> []" using Suc(4,5) by auto
  ultimately show ?case using Suc(2,4,5) q(1) h0 p0 by (simp add: g arr_get_def algebra_simps)
qed

lemma fk_copy_prefix:
  assumes "n \<le> length p" "n \<le> length q"
  shows "fk_copy (int n) p q = Inr (take n p @ drop n q)"
  using assms unfolding fk_copy_def nat_int
proof (induction n)
  case (Suc n)
  then have "rfold (\<lambda>i q. rbind (arr_get p (int i)) (arr_set q (int i))) [0..<n] q =
      Inr (take n p @ drop n q)" by simp
  moreover have "(take n p @ drop n q)[n := p ! n] = take (Suc n) p @ drop (Suc n) q"
    using Suc.prems by (simp add: list_update_append take_Suc_conv_app_nth flip: Cons_nth_drop_Suc)
  moreover have "length (take n p @ drop n q) = length q" using Suc.prems by simp
  ultimately show ?case using Suc.prems
    by (simp add: rfold_append arr_get_ok arr_set_ok del: append_take_drop_id)
qed simp

lemma fk_identity_prefix:
  assumes "n \<le> length p"
  shows "fk_identity (int n) p = Inr (map int [0..<n] @ drop n p)"
  using assms unfolding fk_identity_def nat_int
proof (induction n)
  case (Suc n)
  then have "rfold (\<lambda>i q. arr_set q (int i) (int i)) [0..<n] p = Inr (map int [0..<n] @ drop n p)"
    by simp
  moreover have "(map int [0..<n] @ drop n p)[n := int n] = map int [0..<Suc n] @ drop (Suc n) p"
    using Suc.prems by (simp add: list_update_append flip: Cons_nth_drop_Suc)
  ultimately show ?case using Suc.prems by (simp add: rfold_append arr_set_def)
qed simp

text \<open>Rotating the first \<open>m\<close> cells.\<close>

definition rot :: "nat \<Rightarrow> 'a list \<Rightarrow> 'a list" where
  "rot m p = rotate1 (take m p) @ drop m p"

lemma fk_rotate_rot:
  assumes "r < length p"
  shows "fk_rotate (int r) p = Inr (rot (Suc r) p)"
proof -
  have "rfold (\<lambda>i p. rbind (arr_get p (int i + 1)) (arr_set p (int i))) [0..<r] p =
      Inr (take r (tl p) @ drop r p)"
    using assms
  proof (induction r)
    case (Suc r)
    have len: "length (take r (tl p)) = r" using Suc.prems by simp
    have "(take r (tl p) @ drop r p) ! Suc r = p ! Suc r"
      using Suc.prems by (simp only: nth_append len) simp
    moreover have "(take r (tl p) @ drop r p)[r := p ! Suc r] = take (Suc r) (tl p) @ drop (Suc r) p"
      using Suc.prems by (simp only: list_update_append len)
        (simp add: take_Suc_conv_app_nth nth_tl flip: Cons_nth_drop_Suc)
    ultimately show ?case using Suc
      by (simp add: rfold_append arr_get_def arr_set_def nat_add_distrib)
  qed simp
  moreover have "(take r (tl p) @ drop r p)[r := p ! 0] = rot (Suc r) p"
    using assms by (cases p) (simp_all add: rot_def list_update_append min_def flip: Cons_nth_drop_Suc)
  moreover have "length (take r (tl p) @ drop r p) = length p" "p \<noteq> []" using assms by auto
  ultimately show ?thesis using assms by (simp add: fk_rotate_def arr_get_ok arr_set_ok del: length_append)
qed

section \<open>The order of the permutations\<close>

text \<open>
  The arrangements of the first \<open>m\<close> cells in the order of the program: for each rotation of the
  prefix, all arrangements of the prefix that is one shorter.
\<close>

fun arrangements :: "nat \<Rightarrow> 'a list \<Rightarrow> 'a list list" where
  "arrangements 0 p = [p]"
| "arrangements (Suc m) p = concat (map (\<lambda>k. arrangements m ((rot (Suc m) ^^ k) p)) [0..<Suc m])"

declare arrangements.simps [simp del]

lemma length_rot [simp]: "length (rot m p) = length p"
  by (simp add: rot_def)

lemma rot_append: "m \<le> length p \<Longrightarrow> rot m (p @ g) = rot m p @ g"
  by (simp add: rot_def)

lemma length_rot_funpow [simp]: "length ((rot m ^^ k) p) = length p"
  by (induction k) simp_all

lemma rot_funpow_append: "m \<le> length p \<Longrightarrow> (rot m ^^ k) (p @ g) = (rot m ^^ k) p @ g"
  by (induction k) (simp_all add: rot_append)

lemma arrangements_append:
  "m \<le> length p \<Longrightarrow> arrangements m (p @ g) = map (\<lambda>q. q @ g) (arrangements m p)"
proof (induction m arbitrary: p)
  case (Suc m)
  have "arrangements m ((rot (Suc m) ^^ k) (p @ g)) = map (\<lambda>q. q @ g) (arrangements m ((rot (Suc m) ^^ k) p))" for k
    using Suc.prems by (simp add: rot_funpow_append Suc.IH del: funpow.simps)
  then show ?case by (simp add: arrangements.simps map_concat comp_def del: upt_Suc)
qed (simp add: arrangements.simps)

lemma rot_funpow: "m \<le> length p \<Longrightarrow> (rot m ^^ k) p = rotate k (take m p) @ drop m p"
  by (induction k) (simp_all add: rot_def)

lemma mset_rotate1: "mset (rotate1 xs) = mset xs"
  by (cases xs) simp_all

lemma mset_rot: "mset (rot m p) = mset p"
  by (simp add: rot_def mset_rotate1) (metis append_take_drop_id mset_append)

lemma mset_rot_funpow: "mset ((rot m ^^ k) p) = mset p"
  by (induction k) (simp_all add: mset_rot)

lemma drop_rot_funpow: "m \<le> length p \<Longrightarrow> drop m ((rot m ^^ k) p) = drop m p"
  by (simp add: rot_funpow)

lemma length_arrangements: "length (arrangements m p) = fact m"
  by (induction m arbitrary: p)
    (simp_all add: arrangements.simps length_concat comp_def del: upt_Suc, simp add: sum_list_triv)

lemma rot_funpow_cycle: "m \<le> length p \<Longrightarrow> (rot m ^^ m) p = p"
  by (simp add: rot_funpow)

lemma rot_funpow_last:
  assumes "Suc m \<le> length p" "k \<le> m"
  shows "(rot (Suc m) ^^ k) p ! m = p ! (if k = 0 then m else k - 1)"
proof -
  have "(rot (Suc m) ^^ k) p ! m = rotate k (take (Suc m) p) ! m"
    using assms by (simp add: rot_funpow nth_append)
  also have "\<dots> = p ! ((m + k) mod Suc m)" using assms by (simp add: nth_rotate min_def add.commute)
  also have "(m + k) mod Suc m = (if k = 0 then m else k - 1)"
    using assms(2) by (cases k) (simp_all add: mod_if)
  finally show ?thesis .
qed

lemma arrangements_sound:
  "m \<le> length p \<Longrightarrow> q \<in> set (arrangements m p) \<Longrightarrow> mset q = mset p \<and> drop m q = drop m p"
proof (induction m arbitrary: p)
  case 0
  then show ?case by (simp add: arrangements.simps)
next
  case (Suc m)
  then obtain k where "q \<in> set (arrangements m ((rot (Suc m) ^^ k) p))"
    by (auto simp: arrangements.simps simp del: upt_Suc funpow.simps)
  from Suc.IH [OF _ this] Suc.prems(1)
  have q: "mset q = mset p" "drop m q = drop m ((rot (Suc m) ^^ k) p)"
    by (simp_all add: mset_rot_funpow del: funpow.simps)
  from arg_cong [OF q(2), of tl] q(1) show ?case
    using Suc.prems(1) drop_rot_funpow [of "Suc m" p k] by (simp add: drop_Suc tl_drop)
qed

lemma arrangements_last:
  assumes "Suc m \<le> length p" "q \<in> set (arrangements m ((rot (Suc m) ^^ k) p))" "k \<le> m"
  shows "q ! m = p ! (if k = 0 then m else k - 1)"
proof -
  have s: "mset q = mset ((rot (Suc m) ^^ k) p)" "drop m q = drop m ((rot (Suc m) ^^ k) p)"
    using arrangements_sound [OF _ assms(2)] assms(1) by simp_all
  then have "length q = length p" using mset_eq_length by fastforce
  then have "q ! m = (rot (Suc m) ^^ k) p ! m"
    using arg_cong [OF s(2), of "\<lambda>xs. xs ! 0"] assms(1) by simp
  then show ?thesis using rot_funpow_last [OF assms(1,3)] by simp
qed

lemma arrangements_complete:
  "m \<le> length p \<Longrightarrow> mset q = mset p \<Longrightarrow> drop m q = drop m p \<Longrightarrow> q \<in> set (arrangements m p)"
proof (induction m arbitrary: p)
  case 0
  then show ?case by (simp add: arrangements.simps)
next
  case (Suc m)
  have len: "length q = length p" using Suc.prems(2) by (rule mset_eq_length)
  have "mset (take (Suc m) q) + mset (drop (Suc m) q) = mset (take (Suc m) p) + mset (drop (Suc m) p)"
    using Suc.prems(2) by (simp flip: mset_append)
  then have tk: "mset (take (Suc m) q) = mset (take (Suc m) p)" using Suc.prems(3) by simp
  have "q ! m \<in> set (take (Suc m) q)" using Suc.prems(1) len by (auto simp: in_set_conv_nth)
  then have "q ! m \<in> set (take (Suc m) p)" using mset_eq_setD [OF tk] by simp
  then obtain i where i: "i \<le> m" "q ! m = p ! i" using Suc.prems(1)
    by (auto simp: in_set_conv_nth less_Suc_eq_le)
  define k where "k = (if i = m then 0 else Suc i)"
  have k: "k \<le> m" "(rot (Suc m) ^^ k) p ! m = q ! m"
    using i rot_funpow_last [OF Suc.prems(1), of k] by (auto simp: k_def)
  let ?p = "(rot (Suc m) ^^ k) p"
  have "drop m q = drop m ?p"
  proof -
    have "drop m q = q ! m # drop (Suc m) q" "drop m ?p = ?p ! m # drop (Suc m) ?p"
      using Suc.prems(1) len by (simp_all add: Cons_nth_drop_Suc)
    then show ?thesis using k(2) Suc.prems(3) drop_rot_funpow [OF Suc.prems(1), of k] by simp
  qed
  then have "q \<in> set (arrangements m ?p)"
    using Suc.IH [of ?p] Suc.prems(1,2) by (simp add: mset_rot_funpow del: funpow.simps)
  then show ?case using k(1) by (auto simp: arrangements.simps simp del: upt_Suc funpow.simps)
qed

lemma distinct_arrangements: "m \<le> length p \<Longrightarrow> distinct p \<Longrightarrow> distinct (arrangements m p)"
proof (induction m arbitrary: p)
  case (Suc m)
  let ?a = "\<lambda>k. arrangements m ((rot (Suc m) ^^ k) p)"
  have d: "distinct (?a k)" for k
    using Suc.IH [of "(rot (Suc m) ^^ k) p"] Suc.prems mset_eq_imp_distinct_iff [OF mset_rot_funpow [where m = "Suc m" and k = k and p = p]]
    by simp
  have disj: "set (?a i) \<inter> set (?a j) = {}" if "i \<le> m" "j \<le> m" "i \<noteq> j" for i j
  proof -
    have "(if i = 0 then m else i - 1) \<noteq> (if j = 0 then m else j - 1)" using that by auto
    then have "p ! (if i = 0 then m else i - 1) \<noteq> p ! (if j = 0 then m else j - 1)"
      using Suc.prems that by (subst nth_eq_iff_index_eq) auto
    then show ?thesis using arrangements_last [OF Suc.prems(1) _ that(1)] arrangements_last [OF Suc.prems(1) _ that(2)]
      by (metis disjoint_iff)
  qed
  have ne: "?a k \<noteq> []" for k using length_arrangements [of m "(rot (Suc m) ^^ k) p"] by force
  have inj: "inj_on ?a {0..<Suc m}"
  proof (rule inj_onI)
    fix i j assume "i \<in> {0..<Suc m}" "j \<in> {0..<Suc m}" "?a i = ?a j"
    then show "i = j" using disj [of i j] ne [of j] by (metis Int_absorb atLeastLessThan_iff less_Suc_eq_le set_empty)
  qed
  show ?case unfolding arrangements.simps
  proof (rule distinct_concat)
    show "distinct (map ?a [0..<Suc m])" using inj by (simp add: distinct_map del: upt_Suc)
    fix ys zs assume "ys \<in> set (map ?a [0..<Suc m])" "zs \<in> set (map ?a [0..<Suc m])" "ys \<noteq> zs"
    moreover from this obtain i j where "i \<le> m" "j \<le> m" "ys = ?a i" "zs = ?a j"
      by (auto simp: less_Suc_eq_le simp del: upt_Suc)
    ultimately show "set ys \<inter> set zs = {}" using disj [of i j] by blast
  qed (auto simp: d simp del: upt_Suc)
qed (simp add: arrangements.simps)

section \<open>The run of the program\<close>

text \<open>The checksum as the program adds it up, with the checks of \<open>int\<close> arithmetic.\<close>

fun alternating :: "int \<Rightarrow> int list \<Rightarrow> int \<Rightarrow> int res" where
  "alternating i [] c = Inr c"
| "alternating i (f # fs) c = rbind (c_int (c + (if i mod 2 = 0 then f else - f))) (alternating (i + 1) fs)"

lemma alternating_append:
  "alternating i (xs @ ys) c = rbind (alternating i xs c) (alternating (i + int (length xs)) ys)"
proof (induction xs arbitrary: i c)
  case (Cons a xs)
  have "i + 1 + int (length xs) = i + int (length (a # xs))" by simp
  moreover have "alternating (i + 1) (xs @ ys) =
      (\<lambda>c. rbind (alternating (i + 1) xs c) (alternating (i + 1 + int (length xs)) ys))"
    by (rule ext) (rule Cons.IH)
  ultimately show ?case by (simp only: append_Cons alternating.simps rbind_assoc)
qed simp

abbreviation fk_flips_of :: "nat \<Rightarrow> int list list \<Rightarrow> int list" where
  "fk_flips_of n qs \<equiv> map (\<lambda>q. int (flip_count (take n q))) qs"

abbreviation fk_state ::
  "int list \<Rightarrow> int list \<Rightarrow> int list \<Rightarrow> int \<Rightarrow> int \<Rightarrow> int \<Rightarrow> nat \<Rightarrow> fannkuch" where
  "fk_state p q c mx cs pc r \<equiv> \<lparr>fk_perm = p, fk_perm1 = q, fk_count = c, fk_max_flips = mx,
     fk_checksum = cs, fk_perm_count = pc, fk_r = int r\<rparr>"

definition fk_rest :: "nat \<Rightarrow> nat \<Rightarrow> int \<Rightarrow> fannkuch \<Rightarrow> (int \<times> int \<times> int) res" where
  "fk_rest ffuel fuel n me =
    rbind (fk_next n me) (\<lambda>nxt.
      case nxt of
        None \<Rightarrow> Inr (fk_checksum me, n, fk_max_flips me)
      | Some me \<Rightarrow>
          rbind (c_int (fk_perm_count me + 1)) (\<lambda>pc.
            fk_loop ffuel fuel n (me\<lparr>fk_perm_count := pc\<rparr>)))"

lemma fk_loop_Suc: "fk_loop ffuel (Suc fuel) n me = rbind (fk_visit ffuel n me) (fk_rest ffuel fuel n)"
  unfolding fk_loop.simps fk_rest_def ..

text \<open>The conditions on the sizes, and on the arrays, under which the program runs.\<close>

definition fk_sizes :: "nat \<Rightarrow> nat \<Rightarrow> bool" where
  "fk_sizes n ffuel \<longleftrightarrow> 0 < n \<and> 2 ^ n \<le> ffuel \<and> (2::int) ^ n \<le> INT_MAX"

definition fk_arrays :: "nat \<Rightarrow> int list \<Rightarrow> int list \<Rightarrow> int list \<Rightarrow> bool" where
  "fk_arrays n p q c \<longleftrightarrow> n \<le> length p \<and> n \<le> length q \<and> n \<le> length c \<and> perm_of n (take n q)"

definition raise_max :: "int list \<Rightarrow> int \<Rightarrow> int" where
  "raise_max fs m = fold (\<lambda>f m. if f > m then f else m) fs m"

lemma raise_max_append: "raise_max (xs @ ys) m = raise_max ys (raise_max xs m)"
  by (simp add: raise_max_def)

lemma fk_visit_reset:
  assumes "m < length c" "0 < m"
  shows "fk_visit ffuel n (fk_state p q c mx cs pc (Suc m)) = fk_visit ffuel n (fk_state p q (c[m := int (Suc m)]) mx cs pc m)"
  using assms by (simp add: fk_visit_def fk_reset.simps [of "1 + int m"] arr_set_ok cong: if_cong)

lemma fk_visit_one:
  assumes "fk_sizes n ffuel" "fk_arrays n p q c"
  shows "\<exists>p'. length p' = length p \<and> (\<forall>cs. fk_visit ffuel (int n) (fk_state p q c mx cs pc 1) =
    rbind (alternating pc (fk_flips_of n [q]) cs) (\<lambda>cs.
      Inr (fk_state p' q c (raise_max (fk_flips_of n [q]) mx) cs pc 1)))"
proof -
  let ?F = "flip_count (take n q)"
  have perm: "perm_of n (take n q)" "0 < n" "n \<le> length p" "n \<le> length q"
    using assms by (auto simp: fk_sizes_def fk_arrays_def)
  have cp: "fk_copy (int n) q p = Inr (take n q @ drop n p)" by (rule fk_copy_prefix) (use perm in auto)
  have F: "?F < 2 ^ n" by (rule flip_count_less [OF perm(1,2)])
  then have "int ?F < 2 ^ n" by (metis of_nat_less_iff of_nat_numeral of_nat_power)
  then have "int ?F \<le> INT_MAX" using assms(1) unfolding fk_sizes_def by linarith
  then have "0 + int (flip_count (take n (take n q @ drop n p))) \<le> INT_MAX" "?F < ffuel"
    using assms(1) F perm(4) by (auto simp: fk_sizes_def)
  then obtain p' where p': "fk_flips ffuel 0 (take n q @ drop n p) = Inr (int ?F, p')" "length p' = length p"
    using fk_flips_count [of n "take n q @ drop n p" ffuel 0] perm by auto
  show ?thesis
    by (rule exI [of _ p'])
      (simp add: p' cp fk_visit_def fk_reset.simps [of 1] raise_max_def rbind_assoc)
qed

lemma fk_arrays_mset: "fk_arrays n p q c \<Longrightarrow> mset q' = mset q \<Longrightarrow> drop n q' = drop n q \<Longrightarrow>
  length p' = length p \<Longrightarrow> length c' = length c \<Longrightarrow> fk_arrays n p' q' c'"
  unfolding fk_arrays_def
  by (metis add_right_cancel append_take_drop_id mset_append size_mset)

text \<open>
  \<open>fk_level\<close>: entered at level \<open>m\<close>, the loop visits the arrangements of the first \<open>m\<close> cells, restores
  them and goes on to look for a rotation at level \<open>m\<close>.
\<close>

definition fk_level :: "nat \<Rightarrow> nat \<Rightarrow> nat \<Rightarrow> bool" where
  "fk_level n ffuel m \<longleftrightarrow> (\<forall>p q c mx pc fuel. fk_arrays n p q c \<longrightarrow> 0 \<le> pc \<longrightarrow> pc + fact m \<le> INT_MAX + 1 \<longrightarrow>
    (\<exists>p' c'. length p' = length p \<and> length c' = length c \<and> (\<forall>i \<ge> m. c' ! i = c ! i) \<and>
      (\<forall>cs. fk_loop ffuel (fuel + fact m) (int n) (fk_state p q c mx cs pc m) =
        rbind (alternating pc (fk_flips_of n (arrangements m q)) cs) (\<lambda>cs.
          fk_rest ffuel fuel (int n)
            (fk_state p' q c' (raise_max (fk_flips_of n (arrangements m q)) mx) cs (pc + fact m - 1) m)))))"

lemma fk_level_1:
  assumes "fk_sizes n ffuel"
  shows "fk_level n ffuel 1"
  unfolding fk_level_def
proof (intro allI impI)
  fix p q c mx pc fuel
  assume a: "fk_arrays n p q c" "0 \<le> pc" "pc + fact 1 \<le> INT_MAX + 1"
  from fk_visit_one [OF assms a(1)] obtain p' where p': "length p' = length p"
    "\<forall>cs. fk_visit ffuel (int n) (fk_state p q c mx cs pc 1) =
      rbind (alternating pc (fk_flips_of n [q]) cs) (\<lambda>cs.
        Inr (fk_state p' q c (raise_max (fk_flips_of n [q]) mx) cs pc 1))" by blast
  have arr: "arrangements 1 q = [q]" by (simp add: arrangements.simps)
  show "\<exists>p' c'. length p' = length p \<and> length c' = length c \<and> (\<forall>i \<ge> 1. c' ! i = c ! i) \<and>
      (\<forall>cs. fk_loop ffuel (fuel + fact 1) (int n) (fk_state p q c mx cs pc 1) =
        rbind (alternating pc (fk_flips_of n (arrangements 1 q)) cs) (\<lambda>cs.
          fk_rest ffuel fuel (int n)
            (fk_state p' q c' (raise_max (fk_flips_of n (arrangements 1 q)) mx) cs (pc + fact 1 - 1) 1)))"
    unfolding arr using p'
    by (intro exI [of _ p'] exI [of _ c]) (simp add: fk_loop_Suc rbind_assoc del: alternating.simps fk_loop.simps)
qed

text \<open>One rotation at level \<open>m\<close>.\<close>

lemma fk_next_rotate:
  assumes "m < n" "m < length q" "m < length c" "c ! m = int (Suc t)" "int t \<le> INT_MAX"
  shows "fk_next (int n) (fk_state p q c mx cs pc m) =
    (if 0 < t then Inr (Some (fk_state p (rot (Suc m) q) (c[m := int t]) mx cs pc m))
     else fk_next (int n) (fk_state p (rot (Suc m) q) (c[m := int t]) mx cs pc (Suc m)))"
proof -
  have "c_int (int t) = Inr (int t)" using assms(5) by (simp add: c_int_def INT_MAX_def)
  then show ?thesis
    using assms by (subst fk_next.simps) (simp add: fk_rotate_rot arr_get_ok arr_set_ok add.commute)
qed

lemma fk_rest_rotate:
  assumes "m < n" "m < length q" "m < length c" "c ! m = int (Suc t)" "int t \<le> INT_MAX"
    "0 \<le> pc" "0 < t \<longrightarrow> pc + 1 \<le> INT_MAX"
  shows "fk_rest ffuel fuel (int n) (fk_state p q c mx cs pc m) =
    (if 0 < t then fk_loop ffuel fuel (int n) (fk_state p (rot (Suc m) q) (c[m := int t]) mx cs (pc + 1) m)
     else fk_rest ffuel fuel (int n) (fk_state p (rot (Suc m) q) (c[m := int t]) mx cs pc (Suc m)))"
proof -
  have "0 < t \<Longrightarrow> c_int (pc + 1) = Inr (pc + 1)" using assms(6,7) by (simp add: c_int_def INT_MAX_def)
  then show ?thesis by (simp add: fk_rest_def fk_next_rotate [OF assms(1-5)] cong: option.case_cong)
qed

definition later_arrangements :: "nat \<Rightarrow> nat \<Rightarrow> 'a list \<Rightarrow> 'a list list" where
  "later_arrangements m j q = concat (map (\<lambda>k. arrangements m ((rot (Suc m) ^^ k) q)) [Suc j..<Suc m])"

lemma later_arrangements_step:
  "j < m \<Longrightarrow> later_arrangements m j q =
    arrangements m ((rot (Suc m) ^^ Suc j) q) @ later_arrangements m (Suc j) q"
  by (simp add: later_arrangements_def upt_conv_Cons del: upt_Suc funpow.simps)

lemma arrangements_Suc: "arrangements (Suc m) q = arrangements m q @ later_arrangements m 0 q"
  by (simp add: later_arrangements_def arrangements.simps upt_conv_Cons del: upt_Suc)

lemma fk_rotations:
  assumes sz: "fk_sizes n ffuel" and lev: "fk_level n ffuel m" and m: "0 < m" "m < n"
  shows "fk_arrays n p q c \<Longrightarrow> j + t = m \<Longrightarrow> c ! m = int (Suc t) \<Longrightarrow> 0 \<le> pc \<Longrightarrow> int m \<le> INT_MAX \<Longrightarrow>
    pc + int t * fact m \<le> INT_MAX \<Longrightarrow>
    \<exists>p' c'. length p' = length p \<and> length c' = length c \<and> (\<forall>i \<ge> Suc m. c' ! i = c ! i) \<and>
      (\<forall>cs. fk_rest ffuel (fuel + t * fact m) (int n) (fk_state p ((rot (Suc m) ^^ j) q) c mx cs pc m) =
        rbind (alternating (pc + 1) (fk_flips_of n (later_arrangements m j q)) cs) (\<lambda>cs.
          fk_rest ffuel fuel (int n)
            (fk_state p' q c' (raise_max (fk_flips_of n (later_arrangements m j q)) mx) cs (pc + int t * fact m) (Suc m))))"
proof (induction t arbitrary: j p c mx pc)
  case 0
  let ?q = "(rot (Suc m) ^^ j) q"
  have len: "m < length ?q" "m < length c" "Suc m \<le> length q" using 0(1) m(2) by (auto simp: fk_arrays_def)
  have "rot (Suc m) ?q = (rot (Suc m) ^^ Suc m) q" using 0(2) by simp
  also have "\<dots> = q" by (rule rot_funpow_cycle [OF len(3)])
  finally have r: "rot (Suc m) ?q = q" .
  have l: "later_arrangements m j q = []" using 0(2) by (simp add: later_arrangements_def)
  have step: "fk_rest ffuel fuel (int n) (fk_state p ?q c mx cs pc m) =
      fk_rest ffuel fuel (int n) (fk_state p q (c[m := 0]) mx cs pc (Suc m))" for cs
    using fk_rest_rotate [OF m(2) len(1,2), of 0 pc ffuel fuel p mx cs] 0(3,4) r by (simp add: INT_MAX_def)
  show ?case unfolding l
    by (intro exI [of _ p] exI [of _ "c[m := 0]"]) (simp add: step raise_max_def)
next
  case (Suc t)
  let ?q = "(rot (Suc m) ^^ j) q" and ?q' = "(rot (Suc m) ^^ Suc j) q" and ?c = "c[m := int (Suc t)]"
  have len: "m < length ?q" "m < length c" "Suc m \<le> length q" "Suc m \<le> n"
    using Suc.prems(1) m(2) by (auto simp: fk_arrays_def)
  have f1: "1 \<le> (fact m :: int)" by (rule fact_ge_1)
  have pcs: "pc + fact m + int t * fact m \<le> INT_MAX" using Suc.prems(6) by (simp add: algebra_simps)
  have t0: "0 \<le> int t * fact m" by simp
  have step: "fk_rest ffuel (fuel + Suc t * fact m) (int n) (fk_state p ?q c mx cs pc m) =
      fk_loop ffuel (fuel + t * fact m + fact m) (int n) (fk_state p ?q' ?c mx cs (pc + 1) m)" for cs
    using fk_rest_rotate [OF m(2) len(1,2), of "Suc t" pc ffuel "fuel + Suc t * fact m" p mx cs] Suc.prems(2-5)
      pcs f1 t0 by (simp add: algebra_simps)
  have q': "mset ?q' = mset q" "drop n ?q' = drop n q"
  proof -
    show "mset ?q' = mset q" by (rule mset_rot_funpow)
    have "drop (Suc m) ?q' = drop (Suc m) q" by (rule drop_rot_funpow [OF len(3)])
    from arg_cong [OF this, of "drop (n - Suc m)"] show "drop n ?q' = drop n q" using len(4) by simp
  qed
  have a: "fk_arrays n p ?q' ?c" by (rule fk_arrays_mset [OF Suc.prems(1) q']) simp_all
  have le: "0 \<le> pc + 1" "pc + 1 + fact m \<le> INT_MAX + 1" using pcs t0 Suc.prems(4) by linarith+
  obtain p1 c1 where l: "length p1 = length p" "length c1 = length c" "\<forall>i \<ge> m. c1 ! i = ?c ! i"
    "\<forall>cs. fk_loop ffuel (fuel + t * fact m + fact m) (int n) (fk_state p ?q' ?c mx cs (pc + 1) m) =
        rbind (alternating (pc + 1) (fk_flips_of n (arrangements m ?q')) cs) (\<lambda>cs.
          fk_rest ffuel (fuel + t * fact m) (int n)
            (fk_state p1 ?q' c1 (raise_max (fk_flips_of n (arrangements m ?q')) mx) cs (pc + 1 + fact m - 1) m))"
    using lev [unfolded fk_level_def, rule_format, OF a le, of "fuel + t * fact m" mx]
    unfolding length_list_update by blast
  have "fk_arrays n p1 q c1" by (rule fk_arrays_mset [OF Suc.prems(1)]) (simp_all add: l)
  moreover have "c1 ! m = int (Suc t)" "0 \<le> pc + fact m" "Suc j + t = m" "pc + fact m + int t * fact m \<le> INT_MAX"
    using l(3) len(2) Suc.prems(2,4) f1 pcs by simp_all
  ultimately obtain p2 c2 where r: "length p2 = length p1" "length c2 = length c1" "\<forall>i \<ge> Suc m. c2 ! i = c1 ! i"
    "\<And>cs. fk_rest ffuel (fuel + t * fact m) (int n)
          (fk_state p1 ?q' c1 (raise_max (fk_flips_of n (arrangements m ?q')) mx) cs (pc + fact m) m) =
        rbind (alternating (pc + fact m + 1) (fk_flips_of n (later_arrangements m (Suc j) q)) cs) (\<lambda>cs.
          fk_rest ffuel fuel (int n)
            (fk_state p2 q c2 (raise_max (fk_flips_of n (later_arrangements m (Suc j) q))
              (raise_max (fk_flips_of n (arrangements m ?q')) mx)) cs (pc + fact m + int t * fact m) (Suc m)))"
    using Suc.IH [of p1 c1 "Suc j" "pc + fact m" "raise_max (fk_flips_of n (arrangements m ?q')) mx"]
      Suc.prems(5) by blast
  have la: "later_arrangements m j q = arrangements m ?q' @ later_arrangements m (Suc j) q"
    using Suc.prems(2) by (intro later_arrangements_step) simp
  have pe: "pc + 1 + fact m - 1 = pc + fact m" "pc + 1 + fact m = pc + fact m + 1"
    "pc + fact m + int t * fact m = pc + int (Suc t) * fact m" by (simp_all add: algebra_simps)
  have fin: "fk_rest ffuel (fuel + Suc t * fact m) (int n) (fk_state p ?q c mx cs pc m) =
        rbind (alternating (pc + 1) (fk_flips_of n (later_arrangements m j q)) cs) (\<lambda>cs.
          fk_rest ffuel fuel (int n)
            (fk_state p2 q c2 (raise_max (fk_flips_of n (later_arrangements m j q)) mx) cs (pc + int (Suc t) * fact m) (Suc m)))" for cs
    unfolding step l(4) [rule_format] la map_append alternating_append raise_max_append rbind_assoc length_map
      length_arrangements pe of_nat_fact by (simp only: add_diff_cancel_right' r(4) pe(3))
  show ?case
    by (intro exI [of _ p2] exI [of _ c2]) (use fin l r len in \<open>simp del: alternating.simps\<close>)
qed

lemma fk_level_Suc:
  assumes sz: "fk_sizes n ffuel" and lev: "fk_level n ffuel m" and m: "0 < m" "m < n" "int m \<le> INT_MAX"
  shows "fk_level n ffuel (Suc m)"
  unfolding fk_level_def
proof (intro allI impI)
  fix p q c mx pc fuel
  assume a: "fk_arrays n p q c" "0 \<le> pc" "pc + fact (Suc m) \<le> INT_MAX + 1"
  let ?c = "c[m := int (Suc m)]"
  have len: "m < length c" using a(1) m(2) by (simp add: fk_arrays_def)
  have f1: "1 \<le> (fact m :: int)" "0 \<le> int m * fact m" by (simp_all add: fact_ge_1)
  have pcs: "pc + fact m + int m * fact m \<le> INT_MAX + 1" using a(3) by (simp add: algebra_simps)
  have step: "fk_loop ffuel (fuel + fact (Suc m)) (int n) (fk_state p q c mx cs pc (Suc m)) =
      fk_loop ffuel (fuel + m * fact m + fact m) (int n) (fk_state p q ?c mx cs pc m)" for cs
  proof -
    obtain f where f: "fuel + m * fact m + fact m = Suc f" using fact_ge_1 [of m, where 'a = nat]
      by (metis add_gr_0 gr0_conv_Suc not_one_le_zero not_gr_zero)
    have "fuel + fact (Suc m) = Suc f" using f by (simp add: algebra_simps)
    then show ?thesis unfolding f by (simp only: fk_loop_Suc fk_visit_reset [OF len m(1)])
  qed
  have "fk_arrays n p q ?c" using a(1) by (simp add: fk_arrays_def)
  moreover have "pc + fact m \<le> INT_MAX + 1" using pcs f1 by linarith
  ultimately obtain p1 c1 where l: "length p1 = length p" "length c1 = length c" "\<forall>i \<ge> m. c1 ! i = ?c ! i"
    "\<forall>cs. fk_loop ffuel (fuel + m * fact m + fact m) (int n) (fk_state p q ?c mx cs pc m) =
        rbind (alternating pc (fk_flips_of n (arrangements m q)) cs) (\<lambda>cs.
          fk_rest ffuel (fuel + m * fact m) (int n)
            (fk_state p1 q c1 (raise_max (fk_flips_of n (arrangements m q)) mx) cs (pc + fact m - 1) m))"
    using lev [unfolded fk_level_def, rule_format, of p q ?c pc "fuel + m * fact m" mx] a(2)
    unfolding length_list_update by blast
  have "fk_arrays n p1 q c1" by (rule fk_arrays_mset [OF a(1)]) (simp_all add: l)
  moreover have "0 \<le> pc + fact m - 1" "pc + fact m - 1 + int m * fact m \<le> INT_MAX"
    using a(2) f1 pcs by linarith+
  moreover have "c1 ! m = int (Suc m)" "0 + m = m" using l(3) len by simp_all
  ultimately obtain p2 c2 where r: "length p2 = length p1" "length c2 = length c1" "\<forall>i \<ge> Suc m. c2 ! i = c1 ! i"
    "\<And>cs. fk_rest ffuel (fuel + m * fact m) (int n)
          (fk_state p1 ((rot (Suc m) ^^ 0) q) c1 (raise_max (fk_flips_of n (arrangements m q)) mx) cs (pc + fact m - 1) m) =
        rbind (alternating (pc + fact m - 1 + 1) (fk_flips_of n (later_arrangements m 0 q)) cs) (\<lambda>cs.
          fk_rest ffuel fuel (int n)
            (fk_state p2 q c2 (raise_max (fk_flips_of n (later_arrangements m 0 q))
              (raise_max (fk_flips_of n (arrangements m q)) mx)) cs (pc + fact m - 1 + int m * fact m) (Suc m)))"
    using fk_rotations [OF sz lev m(1,2), of p1 q c1 0 m "pc + fact m - 1" fuel
        "raise_max (fk_flips_of n (arrangements m q)) mx"] m(3) by blast
  have pe: "pc + fact m - 1 + int m * fact m = pc + fact (Suc m) - 1" "pc + fact m - 1 + 1 = pc + fact m"
    by (simp_all add: algebra_simps)
  have fin: "fk_loop ffuel (fuel + fact (Suc m)) (int n) (fk_state p q c mx cs pc (Suc m)) =
        rbind (alternating pc (fk_flips_of n (arrangements (Suc m) q)) cs) (\<lambda>cs.
          fk_rest ffuel fuel (int n)
            (fk_state p2 q c2 (raise_max (fk_flips_of n (arrangements (Suc m) q)) mx) cs (pc + fact (Suc m) - 1) (Suc m)))" for cs
    unfolding step l(4) [rule_format] arrangements_Suc map_append alternating_append raise_max_append rbind_assoc
      length_map length_arrangements of_nat_fact
    using r(4) unfolding pe funpow_0 by presburger
  show "\<exists>p' c'. length p' = length p \<and> length c' = length c \<and> (\<forall>i \<ge> Suc m. c' ! i = c ! i) \<and>
      (\<forall>cs. fk_loop ffuel (fuel + fact (Suc m)) (int n) (fk_state p q c mx cs pc (Suc m)) =
        rbind (alternating pc (fk_flips_of n (arrangements (Suc m) q)) cs) (\<lambda>cs.
          fk_rest ffuel fuel (int n)
            (fk_state p' q c' (raise_max (fk_flips_of n (arrangements (Suc m) q)) mx) cs (pc + fact (Suc m) - 1) (Suc m))))"
    by (intro exI [of _ p2] exI [of _ c2] conjI allI fin) (use r l len in simp_all)
qed

lemma fk_level_all:
  assumes "fk_sizes n ffuel" "int n \<le> INT_MAX"
  shows "0 < m \<Longrightarrow> m \<le> n \<Longrightarrow> fk_level n ffuel m"
proof (induction m)
  case (Suc m)
  show ?case
  proof (cases "m = 0")
    case True
    then show ?thesis using fk_level_1 [OF assms(1)] by simp
  next
    case False
    then show ?thesis using fk_level_Suc [OF assms(1) Suc.IH] Suc.prems assms(2) by simp
  qed
qed simp

lemma raise_max_Max: "raise_max fs m = Max (insert m (set fs))"
proof -
  have "raise_max fs m = fold max fs m" unfolding raise_max_def by (rule fold_cong) (auto simp: max_def)
  also have "\<dots> = Max (set (m # fs))" by (rule Max.set_eq_fold [symmetric])
  finally show ?thesis by simp
qed



end
