(* ===== verification/SuiteReverseComplement.thy ===== *)
theory SuiteReverseComplement
  imports CPrelude
begin

text \<open>
  \<open>bench/suite/src/st/reverse-complement/c/reverse-complement.c\<close>. Bytes are \<open>char\<close>s. A buffer that
  is filled from its start is the list of the bytes written so far beside its capacity; a write
  behind the capacity is a fault. \<open>main\<close> maps the bytes of the standard input to those of the
  standard output. Sizes are natural numbers: no object reaches \<open>2 ^ 63\<close> bytes.
\<close>

section \<open>The program\<close>

abbreviation newline :: char where
  "newline \<equiv> CHR 0x0A"

definition LINE :: nat where
  "LINE = 60"

definition comp_from :: string where
  "comp_from = ''ACGTUMRWSYKVHDBN''"

definition comp_to :: string where
  "comp_to = ''TGCAAKYWSRMBDHVN''"

text \<open>The table \<open>comp\<close> is static, \<open>init_comp\<close> fills it.\<close>

definition init_comp :: "char list \<Rightarrow> char list res" where
  "init_comp tab =
    rbind (rfold (\<lambda>i tab. arr_set tab (int i) (char_of i)) [0..<256] tab)
      (rfold (\<lambda>(f, t) tab.
        rbind (arr_set tab (int (of_char f)) t) (\<lambda>tab.
          arr_set tab (int (of_char f) + (of_char (CHR ''a'') - of_char (CHR ''A''))) t))
        (zip comp_from comp_to))"

definition buf_put :: "nat \<Rightarrow> char \<Rightarrow> char list \<Rightarrow> char list res" where
  "buf_put cap x out = (if length out < cap then Inr (out @ [x]) else Inl OutOfBounds)"

fun flush_loop :: "char list \<Rightarrow> char list \<Rightarrow> nat \<Rightarrow> nat \<Rightarrow> nat \<Rightarrow> char list \<Rightarrow> (nat \<times> char list) res" where
  "flush_loop tab seq cap 0 col out = Inr (col, out)"
| "flush_loop tab seq cap (Suc i) col out =
    rbind (arr_get seq (int i)) (\<lambda>c.
    rbind (arr_get tab (int (of_char c))) (\<lambda>d.
    rbind (buf_put cap d out) (\<lambda>out.
      if Suc col = LINE then rbind (buf_put cap newline out) (\<lambda>out. flush_loop tab seq cap i 0 out)
      else flush_loop tab seq cap i (Suc col) out)))"

text \<open>The result is the capacity of \<open>out\<close> and the bytes written to the standard output.\<close>

definition flush_sequence :: "char list \<Rightarrow> char list \<Rightarrow> nat \<Rightarrow> nat \<Rightarrow> (nat \<times> char list) res" where
  "flush_sequence tab seq len out_cap =
    (let need = len + len div LINE + 1; out_cap = (if need > out_cap then need else out_cap) in
     rbind (flush_loop tab seq out_cap len 0 []) (\<lambda>(col, out).
     rbind (if col \<noteq> 0 then buf_put out_cap newline out else Inr out) (\<lambda>out.
       Inr (out_cap, out))))"

text \<open>
  The loop that reads the input. \<open>fread\<close> delivers as many bytes as are asked for while the input
  lasts, so it returns \<open>0\<close> only at the end.
\<close>

function slurp :: "nat \<Rightarrow> char list \<Rightarrow> char list \<Rightarrow> char list res" where
  "slurp cap buf input =
    (let r = min (cap - length buf) (length input) in
     if r > 0 then
       (let buf = buf @ take r input; cap = (if length buf = cap then cap * 2 else cap) in
        slurp cap buf (drop r input))
     else Inr buf)"
  by pat_completeness auto
termination by (relation "measure (\<lambda>(cap, buf, input). length input)") auto

declare slurp.simps [simp del]

text \<open>\<open>memchr(buf + i, c, n - i)\<close>, as an index.\<close>

fun memchr :: "char list \<Rightarrow> nat \<Rightarrow> char \<Rightarrow> nat option" where
  "memchr [] i c = None"
| "memchr (x # xs) i c = (if x = c then Some i else memchr xs (Suc i) c)"

lemma memchr_ge: "memchr xs i c = Some k \<Longrightarrow> i \<le> k"
  by (induction xs i c rule: memchr.induct) (auto split: if_splits)

text \<open>\<open>while (seq_len + l > seq_cap) seq_cap *= 2\<close>; it does not end when the capacity is \<open>0\<close>.\<close>

function enlarge_cap :: "nat \<Rightarrow> nat \<Rightarrow> nat res" where
  "enlarge_cap need cap =
    (if need > cap then (if cap = 0 then Inl OutOfFuel else enlarge_cap need (cap * 2)) else Inr cap)"
  by pat_completeness auto
termination by (relation "measure (\<lambda>(need, cap). need - cap)") auto

declare enlarge_cap.simps [simp del]

record rc_state =
  rc_seq :: "char list"
  rc_seq_cap :: nat
  rc_have :: bool
  rc_out_cap :: nat
  rc_stdout :: "char list"

definition rc_flush :: "char list \<Rightarrow> rc_state \<Rightarrow> rc_state res" where
  "rc_flush tab me =
    (if rc_have me then
       rbind (flush_sequence tab (rc_seq me) (length (rc_seq me)) (rc_out_cap me)) (\<lambda>(cap, out).
         Inr (me\<lparr>rc_out_cap := cap, rc_stdout := rc_stdout me @ out\<rparr>))
     else Inr me)"

text \<open>The bytes from \<open>i\<close> up to \<open>end\<close> are one line of the input.\<close>

definition rc_line :: "char list \<Rightarrow> char list \<Rightarrow> nat \<Rightarrow> nat \<Rightarrow> rc_state \<Rightarrow> rc_state res" where
  "rc_line tab buf i e me =
    rbind (arr_get buf (int i)) (\<lambda>c.
      if c = CHR ''>'' then
        rbind (rc_flush tab me) (\<lambda>me.
          Inr (me\<lparr>rc_seq := [], rc_have := True,
            rc_stdout := rc_stdout me @ take (e - i) (drop i buf) @ [newline]\<rparr>))
      else
        rbind (enlarge_cap (length (rc_seq me) + (e - i)) (rc_seq_cap me)) (\<lambda>cap.
          if length (rc_seq me) + (e - i) \<le> cap then
            Inr (me\<lparr>rc_seq := rc_seq me @ take (e - i) (drop i buf), rc_seq_cap := cap\<rparr>)
          else Inl OutOfBounds))"

function rc_lines :: "char list \<Rightarrow> char list \<Rightarrow> nat \<Rightarrow> rc_state \<Rightarrow> rc_state res" where
  "rc_lines tab buf i me =
    (if i < length buf then
       (let e = (case memchr (drop i buf) i newline of Some nl \<Rightarrow> nl | None \<Rightarrow> length buf) in
        rbind (rc_line tab buf i e me) (\<lambda>me. rc_lines tab buf (e + 1) me))
     else Inr me)"
  by pat_completeness auto
termination
  by (relation "measure (\<lambda>(tab, buf, i, me). length buf - i)")
    (auto split: option.splits dest: memchr_ge intro!: diff_less_mono2)

declare rc_lines.simps [simp del]

definition reverse_complement_main :: "char list \<Rightarrow> char list \<Rightarrow> char list res" where
  "reverse_complement_main tab input =
    rbind (init_comp tab) (\<lambda>tab.
    rbind (slurp (2 ^ 20) [] input) (\<lambda>buf.
    rbind (rc_lines tab buf 0
      \<lparr>rc_seq = [], rc_seq_cap = 2 ^ 20, rc_have = False, rc_out_cap = 0, rc_stdout = []\<rparr>) (\<lambda>me.
    rbind (rc_flush tab me) (\<lambda>me.
      Inr (rc_stdout me)))))"

section \<open>The complement table\<close>

text \<open>What the table means: the code of the complementary nucleotide, in upper case; other bytes stay.\<close>

definition upper :: "char \<Rightarrow> char" where
  "upper c = (if of_char (CHR ''a'') \<le> (of_char c :: nat) \<and> of_char c \<le> (of_char (CHR ''z'') :: nat)
     then char_of (of_char c - 32 :: nat) else c)"

definition complement :: "char \<Rightarrow> char" where
  "complement c = (case map_of (zip comp_from comp_to) (upper c) of Some d \<Rightarrow> d | None \<Rightarrow> c)"

lemma fold_map_of:
  "distinct (map fst ps) \<Longrightarrow>
   fold (\<lambda>(f, t) d. if u = f then t else d) ps d = (case map_of ps u of Some t \<Rightarrow> t | None \<Rightarrow> d)"
proof (induction ps arbitrary: d)
  case (Cons p ps)
  obtain f t where p: "p = (f, t)" by force
  with Cons.prems have "u = f \<Longrightarrow> map_of ps u = None" by (auto simp: map_of_eq_None_iff)
  with Cons p show ?case by auto
qed simp

definition capital :: "char \<Rightarrow> bool" where
  "capital f \<longleftrightarrow> 65 \<le> (of_char f :: nat) \<and> (of_char f :: nat) \<le> 90"

lemma upper_eq:
  assumes "capital f"
  shows "upper c = f \<longleftrightarrow> (of_char c :: nat) = of_char f \<or> (of_char c :: nat) = of_char f + 32"
proof (cases "97 \<le> (of_char c :: nat) \<and> (of_char c :: nat) \<le> 122")
  case True
  then have "(of_char (upper c) :: nat) = of_char c - 32" 
    by (simp add: upper_def less_imp_diff_less)
  then show ?thesis using True assms of_char_eq_iff [of "upper c" f, where 'a = nat]
    by (auto simp: capital_def simp del: of_char_eq_iff)
next
  case False
  then have "upper c = c" by (auto simp: upper_def)
  then show ?thesis using False assms of_char_eq_iff [of c f, where 'a = nat]
    by (auto simp: capital_def simp del: of_char_eq_iff)
qed

lemma table_loop:
  "length tab = 256 \<Longrightarrow> (\<forall>(f, t) \<in> set ps. capital f) \<Longrightarrow>
   \<exists>r. rfold (\<lambda>(f, t) tab.
        rbind (arr_set tab (int (of_char f)) t) (\<lambda>tab.
          arr_set tab (int (of_char f) + (of_char (CHR ''a'') - of_char (CHR ''A''))) t))
        ps tab = Inr r \<and> length r = 256 \<and>
     (\<forall>c. r ! of_char c = fold (\<lambda>(f, t) d. if upper c = f then t else d) ps (tab ! of_char c))"
proof (induction ps arbitrary: tab)
  case (Cons p ps)
  obtain f t where p: "p = (f, t)" by force
  let ?tab = "tab[of_char f := t, of_char f + 32 := t]"
  have f: "capital f" "(of_char f :: nat) + 32 < 256" using Cons.prems(2) p by (auto simp: capital_def)
  have i: "nat (int (of_char f) + 32) = of_char f + 32" by (simp add: nat_add_distrib)
  obtain r where r: "rfold (\<lambda>(f, t) tab.
        rbind (arr_set tab (int (of_char f)) t) (\<lambda>tab.
          arr_set tab (int (of_char f) + (of_char (CHR ''a'') - of_char (CHR ''A''))) t))
        ps ?tab = Inr r" "length r = 256"
    "\<forall>c. r ! of_char c = fold (\<lambda>(f, t) d. if upper c = f then t else d) ps (?tab ! of_char c)"
    using Cons.IH [of ?tab] Cons.prems by auto
  have "?tab ! of_char c = (if upper c = f then t else tab ! of_char c)" for c
    using f Cons.prems(1) by (auto simp: upper_eq nth_list_update)
  then show ?case using r f Cons.prems(1) by (intro exI [of _ r]) (simp add: p i arr_set_def)
qed simp

lemma identity_table:
  "m \<le> length tab \<Longrightarrow> rfold (\<lambda>i tab. arr_set tab (int i) (char_of i)) [0..<m] tab =
     Inr (map char_of [0..<m] @ drop m tab)"
proof (induction m)
  case (Suc m)
  then have "(map char_of [0..<m] @ drop m tab)[m := char_of m] = map char_of [0..<Suc m] @ drop (Suc m) tab"
    by (simp add: list_update_append flip: Cons_nth_drop_Suc)
  with Suc show ?case by (simp add: rfold_append arr_set_def)
qed simp

lemma comp_codes: "distinct comp_from" "length comp_from = length comp_to" "\<forall>f \<in> set comp_from. capital f"
  by (simp_all add: comp_from_def comp_to_def capital_def)

lemma init_comp_complement:
  assumes "length tab = 256"
  shows "\<exists>t. init_comp tab = Inr t \<and> length t = 256 \<and> (\<forall>c. t ! of_char c = complement c)"
proof -
  let ?i = "map char_of [0..<256] :: char list" and ?z = "zip comp_from comp_to"
  have "\<forall>(f, t) \<in> set ?z. capital f" using comp_codes(3) by (auto dest: set_zip_leftD)
  from table_loop [OF _ this, of ?i] obtain r where r: "length r = 256"
    "rfold (\<lambda>(f, t) tab.
        rbind (arr_set tab (int (of_char f)) t) (\<lambda>tab.
          arr_set tab (int (of_char f) + (of_char (CHR ''a'') - of_char (CHR ''A''))) t)) ?z ?i = Inr r"
    "\<forall>c. r ! of_char c = fold (\<lambda>(f, t) d. if upper c = f then t else d) ?z (?i ! of_char c)" by auto
  have "r ! of_char c = complement c" for c
    using r(3) comp_codes by (simp add: fold_map_of complement_def)
  with r(1,2) identity_table [of 256 tab] assms show ?thesis by (simp add: init_comp_def)
qed

section \<open>Lines of 60 columns\<close>

text \<open>The text in lines of \<open>LINE\<close> columns, each with its end.\<close>

function columns :: "char list \<Rightarrow> char list" where
  "columns xs = (if xs = [] then [] else take LINE xs @ newline # columns (drop LINE xs))"
  by pat_completeness auto
termination by (relation "measure length") (auto simp: LINE_def)

declare columns.simps [simp del]

lemma columns_Nil [simp]: "columns [] = []"
  by (simp add: columns.simps)

text \<open>What the loop prints of \<open>xs\<close> from column \<open>col\<close> on.\<close>

fun columns_from :: "nat \<Rightarrow> char list \<Rightarrow> char list" where
  "columns_from col [] = []"
| "columns_from col (x # xs) =
    x # (if Suc col = LINE then newline # columns_from 0 xs else columns_from (Suc col) xs)"

lemma length_columns_from:
  "col < LINE \<Longrightarrow> length (columns_from col xs) = length xs + (col + length xs) div LINE"
proof (induction col xs rule: columns_from.induct)
  case (2 col x xs)
  show ?case
  proof (cases "Suc col = LINE")
    case True
    then have "(col + length (x # xs)) div LINE = Suc (length xs div LINE)"
      by (simp add: LINE_def flip: True add_Suc)
    with 2 True show ?thesis by (simp add: LINE_def)
  next
    case False
    with 2 show ?thesis by simp
  qed
qed simp

lemma columns_from_columns:
  "length pre < LINE \<Longrightarrow> pre @ columns_from (length pre) xs @
     (if (length pre + length xs) mod LINE = 0 then [] else [newline]) = columns (pre @ xs)"
proof (induction xs arbitrary: pre)
  case Nil
  show ?case
  proof (cases pre)
    case (Cons x xs)
    with Nil have "columns pre = pre @ [newline]" by (subst columns.simps) simp
    with Nil Cons show ?thesis by simp
  qed simp
next
  case (Cons x xs)
  show ?case
  proof (cases "Suc (length pre) = LINE")
    case True
    have "(length pre + length (x # xs)) mod LINE = length xs mod LINE" 
      by (simp only: length_Cons add_Suc_shift [symmetric] True mod_add_self1)
    moreover have "LINE - length pre = Suc 0" using True by simp
    then have "columns (pre @ x # xs) = pre @ x # newline # columns xs"
      using True by (subst columns.simps) simp
    moreover have "columns_from 0 xs @ (if length xs mod LINE = 0 then [] else [newline]) = columns xs"
      using Cons.IH [of "[]"] by (simp add: LINE_def)
    ultimately show ?thesis using True by simp
  next
    case False
    with Cons.prems Cons.IH [of "pre @ [x]"] show ?thesis by simp
  qed
qed

lemma flush_loop_columns:
  assumes tab: "length tab = 256" "\<forall>c. tab ! of_char c = complement c"
  shows "i \<le> length seq \<Longrightarrow> col < LINE \<Longrightarrow>
    length out + length (columns_from col (rev (map complement (take i seq)))) \<le> cap \<Longrightarrow>
    flush_loop tab seq cap i col out =
      Inr ((col + i) mod LINE, out @ columns_from col (rev (map complement (take i seq))))"
proof (induction i arbitrary: col out)
  case (Suc i)
  have t: "rev (map complement (take (Suc i) seq)) = complement (seq ! i) # rev (map complement (take i seq))"
    using Suc.prems(1) by (simp add: take_Suc_conv_app_nth)
  have get: "arr_get seq (int i) = Inr (seq ! i)" "arr_get tab (int (of_char (seq ! i))) = Inr (complement (seq ! i))"
    using Suc.prems(1) tab by (simp_all add: arr_get_def)
  show ?case
  proof (cases "Suc col = LINE")
    case True
    have "(col + Suc i) mod LINE = i mod LINE" by (simp only: add_Suc_shift [symmetric] True mod_add_self1)
    with Suc True show ?thesis by (simp add: t get buf_put_def LINE_def)
  next
    case False
    with Suc show ?thesis by (simp add: t get buf_put_def)
  qed
qed simp

lemma flush_sequence_columns:
  assumes tab: "length tab = 256" "\<forall>c. tab ! of_char c = complement c"
  shows "\<exists>cap. flush_sequence tab seq (length seq) out_cap = Inr (cap, columns (rev (map complement seq)))"
proof -
  let ?xs = "rev (map complement seq)" and ?need = "length seq + length seq div LINE + 1"
  define cap where "cap = (if ?need > out_cap then ?need else out_cap)"
  have L: "0 < LINE" by (simp add: LINE_def)
  have len: "length (columns_from 0 ?xs) < cap"
    using length_columns_from [OF L, of ?xs] by (simp add: cap_def)
  then have "flush_loop tab seq cap (length seq) 0 [] = Inr (length seq mod LINE, columns_from 0 ?xs)"
    using flush_loop_columns [OF tab, of "length seq" seq 0 "[]" cap] L by simp
  moreover have "columns_from 0 ?xs @ (if length seq mod LINE = 0 then [] else [newline]) = columns ?xs"
    using columns_from_columns [of "[]" ?xs] L by simp
  ultimately have "flush_sequence tab seq (length seq) out_cap = Inr (cap, columns ?xs)"
    unfolding flush_sequence_def Let_def cap_def [symmetric] using len
    by (cases "length seq mod LINE = 0") (simp_all add: buf_put_def)
  then show ?thesis by blast
qed

section \<open>The input\<close>

lemma slurp_all: "length buf < cap \<Longrightarrow> slurp cap buf input = Inr (buf @ input)"
proof (induction cap buf input rule: slurp.induct)
  case (1 cap buf input)
  let ?r = "min (cap - length buf) (length input)"
  show ?case
  proof (cases "0 < ?r")
    case True
    have "length (buf @ take ?r input) < (if length (buf @ take ?r input) = cap then cap * 2 else cap)"
      using "1.prems" by auto
    from "1.IH" [OF refl True refl refl this] True show ?thesis
      by (subst slurp.simps) (simp add: Let_def)
  next
    case False
    then show ?thesis using "1.prems" by (subst slurp.simps) auto
  qed
qed

text \<open>The lines of a text, and the records of a FASTA file: headers with their sequences.\<close>

function lines_of :: "char list \<Rightarrow> char list list" where
  "lines_of xs = (if xs = [] then [] else
     takeWhile (\<lambda>c. c \<noteq> newline) xs # lines_of (tl (dropWhile (\<lambda>c. c \<noteq> newline) xs)))"
  by pat_completeness auto
termination
  by (relation "measure length") (auto simp: neq_Nil_conv dest: length_dropWhile_le [THEN le_less_trans, rotated]
    intro!: le_imp_less_Suc order_trans [OF diff_le_self] length_dropWhile_le)

declare lines_of.simps [simp del]

definition header :: "char list \<Rightarrow> bool" where
  "header l \<longleftrightarrow> l \<noteq> [] \<and> hd l = CHR ''>''"

fun records :: "char list list \<Rightarrow> (char list \<times> char list) list" where
  "records [] = []"
| "records (l # ls) = (if header l then (l, concat (takeWhile (\<lambda>l. \<not> header l) ls)) # records ls else records ls)"

definition fasta_format :: "(char list \<times> char list) list \<Rightarrow> char list" where
  "fasta_format rs = concat (map (\<lambda>(h, s). h @ newline # columns s) rs)"

definition reverse_complement :: "char list \<Rightarrow> char list" where
  "reverse_complement s = rev (map complement s)"

lemma memchr_line:
  "(case memchr xs i newline of Some nl \<Rightarrow> nl | None \<Rightarrow> i + length xs) = i + length (takeWhile (\<lambda>c. c \<noteq> newline) xs)"
proof (induction xs arbitrary: i)
  case (Cons x xs)
  from Cons.IH [of "Suc i"] show ?case by (simp cong: option.case_cong)
qed simp

text \<open>One line, as a list.\<close>

definition line_step :: "char list \<Rightarrow> char list \<Rightarrow> rc_state \<Rightarrow> rc_state res" where
  "line_step tab l me =
    (if header l then
        rbind (rc_flush tab me) (\<lambda>me.
          Inr (me\<lparr>rc_seq := [], rc_have := True, rc_stdout := rc_stdout me @ l @ [newline]\<rparr>))
      else
        rbind (enlarge_cap (length (rc_seq me) + length l) (rc_seq_cap me)) (\<lambda>cap.
          if length (rc_seq me) + length l \<le> cap then
            Inr (me\<lparr>rc_seq := rc_seq me @ l, rc_seq_cap := cap\<rparr>)
          else Inl OutOfBounds))"

lemma rc_line_step:
  assumes "i < length buf"
  defines "l \<equiv> takeWhile (\<lambda>c. c \<noteq> newline) (drop i buf)"
  shows "rc_line tab buf i (i + length l) me = line_step tab l me"
proof -
  have d: "drop i buf = buf ! i # drop (Suc i) buf" using assms(1) by (simp add: Cons_nth_drop_Suc)
  have "take (length l) (drop i buf) = l" unfolding l_def by (metis takeWhile_eq_take)
  moreover have "buf ! i = CHR ''>'' \<longleftrightarrow> header l" by (auto simp: l_def d header_def)
  ultimately show ?thesis using assms(1) 
    by (simp add: rc_line_def line_step_def arr_get_ok cong: if_cong)
qed

lemma rc_lines_fold:
  "rc_lines tab buf i me = rfold (line_step tab) (lines_of (drop i buf)) me"
proof (induction "length buf - i" arbitrary: i me rule: less_induct)
  case less
  show ?case
  proof (cases "i < length buf")
    case False
    then show ?thesis by (simp add: rc_lines.simps lines_of.simps)
  next
    case True
    let ?w = "takeWhile (\<lambda>c. c \<noteq> newline) (drop i buf)"
    have e: "(case memchr (drop i buf) i newline of Some nl \<Rightarrow> nl | None \<Rightarrow> length buf) = i + length ?w"
      using memchr_line [where xs = "drop i buf" and i = i] True by (simp split: option.splits)
    have "tl (dropWhile (\<lambda>c. c \<noteq> newline) (drop i buf)) = drop (i + length ?w + 1) buf"
      by (simp add: dropWhile_eq_drop drop_Suc [symmetric] tl_drop add.commute)
    then have ls: "lines_of (drop i buf) = ?w # lines_of (drop (i + length ?w + 1) buf)"
      using True by (subst lines_of.simps) simp
    have IH: "rc_lines tab buf (i + length ?w + 1) = rfold (line_step tab) (lines_of (drop (i + length ?w + 1) buf))"
      using True by (intro ext less) simp
    show ?thesis
      by (subst rc_lines.simps) (simp only: True if_True Let_def e rc_line_step [OF True] IH ls rfold.simps)
  qed
qed

lemma enlarge_cap_enough: "0 < cap \<Longrightarrow> \<exists>c. enlarge_cap need cap = Inr c \<and> need \<le> c \<and> 0 < c"
proof (induction need cap rule: enlarge_cap.induct)
  case (1 need cap)
  then show ?case by (subst enlarge_cap.simps) auto
qed

text \<open>What the lines leave behind, in terms of the lines alone.\<close>

definition flushed :: "bool \<Rightarrow> char list \<Rightarrow> char list" where
  "flushed have seq = (if have then columns (reverse_complement seq) else [])"

lemma rc_flush_prints:
  assumes tab: "length tab = 256" "\<forall>c. tab ! of_char c = complement c"
  shows "\<exists>cap. rc_flush tab me = Inr (me\<lparr>rc_out_cap := cap, rc_stdout := rc_stdout me @ flushed (rc_have me) (rc_seq me)\<rparr>)"
proof (cases "rc_have me")
  case True
  from flush_sequence_columns [OF tab, of "rc_seq me" "rc_out_cap me"] obtain cap where
    "flush_sequence tab (rc_seq me) (length (rc_seq me)) (rc_out_cap me) = Inr (cap, columns (reverse_complement (rc_seq me)))"
    unfolding reverse_complement_def by blast
  with True show ?thesis by (intro exI [of _ cap]) (simp add: rc_flush_def flushed_def)
next
  case False
  then show ?thesis by (intro exI [of _ "rc_out_cap me"]) (simp add: rc_flush_def flushed_def)
qed

definition printed :: "(char list \<times> char list) list \<Rightarrow> char list" where
  "printed rs = fasta_format (map (\<lambda>(h, s). (h, reverse_complement s)) rs)"

lemma printed_simps [simp]:
  "printed [] = []" "printed ((h, s) # rs) = h @ newline # columns (reverse_complement s) @ printed rs"
  by (simp_all add: printed_def fasta_format_def)

lemma line_steps_print:
  assumes tab: "length tab = 256" "\<forall>c. tab ! of_char c = complement c"
  shows "0 < rc_seq_cap me \<Longrightarrow>
    \<exists>me'. rbind (rfold (line_step tab) ls me) (rc_flush tab) = Inr me' \<and>
      rc_stdout me' = rc_stdout me @
        flushed (rc_have me) (rc_seq me @ concat (takeWhile (\<lambda>l. \<not> header l) ls)) @ printed (records ls)"
proof (induction ls arbitrary: me)
  case Nil
  from rc_flush_prints [OF tab, of me] show ?case by auto
next
  case (Cons l ls)
  show ?case
  proof (cases "header l")
    case True
    obtain cap where fl: "rc_flush tab me =
        Inr (me\<lparr>rc_out_cap := cap, rc_stdout := rc_stdout me @ flushed (rc_have me) (rc_seq me)\<rparr>)"
      using rc_flush_prints [OF tab] by blast
    let ?me = "me\<lparr>rc_out_cap := cap, rc_seq := [], rc_have := True,
      rc_stdout := rc_stdout me @ flushed (rc_have me) (rc_seq me) @ l @ [newline]\<rparr>"
    have st: "line_step tab l me = Inr ?me" using True fl by (simp add: line_step_def)
    from Cons.IH [of ?me] Cons.prems True st show ?thesis by (auto simp: flushed_def)
  next
    case False
    obtain c where c: "enlarge_cap (length (rc_seq me) + length l) (rc_seq_cap me) = Inr c"
      "length (rc_seq me) + length l \<le> c" "0 < c"
      using enlarge_cap_enough [OF Cons.prems] by blast
    let ?me = "me\<lparr>rc_seq := rc_seq me @ l, rc_seq_cap := c\<rparr>"
    have "line_step tab l me = Inr ?me" using False c by (simp add: line_step_def)
    with Cons.IH [of ?me] c(3) False show ?thesis by auto
  qed
qed

text \<open>C12: for every input the program writes, for each record of the FASTA file, the header and the reverse
  complement of the sequence in lines of 60 columns; text in front of the first header is dropped, and no
  buffer is overrun, for every size of the lines and every content of the table at the start.\<close>

theorem reverse_complement_main_prints:
  assumes "length tab = 256"
  shows "reverse_complement_main tab input =
    Inr (fasta_format (map (\<lambda>(h, s). (h, reverse_complement s)) (records (lines_of input))))"
proof -
  obtain t where t: "init_comp tab = Inr t" "length t = 256" "\<forall>c. t ! of_char c = complement c"
    using init_comp_complement [OF assms] by blast
  let ?me = "\<lparr>rc_seq = [], rc_seq_cap = 2 ^ 20, rc_have = False, rc_out_cap = 0, rc_stdout = []\<rparr>"
  obtain me' where "rbind (rfold (line_step t) (lines_of input) ?me) (rc_flush t) = Inr me'"
    "rc_stdout me' = printed (records (lines_of input))"
    using line_steps_print [OF t(2,3), of ?me "lines_of input"] by (auto simp: flushed_def)
  then show ?thesis
    using slurp_all [of "[]" "2 ^ 20" input] t(1)
    by (simp add: reverse_complement_main_def rc_lines_fold printed_def flip: rbind_assoc)
qed

theorem reverse_complement_main_prints_witness:
  "reverse_complement_main (replicate 256 (CHR ''x''))
     (''xx'' @ newline # ''>A b'' @ newline # ''acG'' @ newline # newline # ''N'') =
   Inr (''>A b'' @ newline # ''NCGT'' @ [newline])"
proof -
  let ?input = "''xx'' @ newline # ''>A b'' @ newline # ''acG'' @ newline # newline # ''N''"
  have "lines_of ?input = [''xx'', ''>A b'', ''acG'', [], ''N'']" by (simp add: lines_of.simps)
  then have "records (lines_of ?input) = [(''>A b'', ''acGN'')]" by (simp add: header_def)
  moreover have "reverse_complement ''acGN'' = ''NCGT''"
    by (simp add: reverse_complement_def complement_def upper_def comp_from_def comp_to_def char_of_def bit_Suc_0_iff)
  moreover have "columns ''NCGT'' = ''NCGT'' @ [newline]" by (simp add: columns.simps LINE_def)
  ultimately show ?thesis
    using reverse_complement_main_prints [of "replicate 256 (CHR ''x'')" ?input]
    by (simp add: fasta_format_def)
qed

section \<open>Twice\<close>

text \<open>The codes whose complement has them as its complement: all but \<open>U\<close>, in upper case.\<close>

definition dna_codes :: "char set" where
  "dna_codes = set ''ACGTMRWSYKVHDBN''"

lemma complement_dna: "c \<in> dna_codes \<Longrightarrow> complement c \<in> dna_codes \<and> complement (complement c) = c"
proof -
  assume "c \<in> dna_codes"
  moreover have "\<forall>c \<in> set ''ACGTMRWSYKVHDBN''. complement c \<in> set ''ACGTMRWSYKVHDBN'' \<and> complement (complement c) = c"
    by code_simp
  ultimately show ?thesis unfolding dna_codes_def by blast
qed

lemma dna_sequence: "c \<in> dna_codes \<Longrightarrow> c \<noteq> newline \<and> c \<noteq> CHR ''>''"
  by (auto simp: dna_codes_def)

lemma reverse_complement_twice:
  "set s \<subseteq> dna_codes \<Longrightarrow> set (reverse_complement s) \<subseteq> dna_codes \<and> reverse_complement (reverse_complement s) = s"
  by (auto simp: reverse_complement_def rev_map complement_dna intro!: map_idI)

lemma lines_of_line: "newline \<notin> set l \<Longrightarrow> lines_of (l @ newline # xs) = l # lines_of xs"
  by (subst lines_of.simps) (auto simp: takeWhile_append dropWhile_append)

lemma lines_of_columns:
  "set s \<subseteq> dna_codes \<Longrightarrow> \<exists>cs. lines_of (columns s @ xs) = cs @ lines_of xs \<and> concat cs = s \<and> (\<forall>c \<in> set cs. \<not> header c)"
proof (induction s rule: columns.induct)
  case (1 s)
  show ?case
  proof (cases "s = []")
    case False
    have "set (drop LINE s) \<subseteq> dna_codes" using "1.prems" set_drop_subset [of LINE s] by blast
    from "1.IH" [OF False this] obtain cs where cs: "lines_of (columns (drop LINE s) @ xs) = cs @ lines_of xs"
      "concat cs = drop LINE s" "\<forall>c \<in> set cs. \<not> header c" by blast
    have sub: "set (take LINE s) \<subseteq> dna_codes" using "1.prems" set_take_subset [of LINE s] by blast
    then have "newline \<notin> set (take LINE s)" using dna_sequence by blast
    then have "lines_of (columns s @ xs) = take LINE s # cs @ lines_of xs"
      using False cs(1) by (subst columns.simps) (simp add: lines_of_line)
    moreover have "\<not> header (take LINE s)"
      using sub dna_sequence hd_in_set unfolding header_def by blast
    ultimately show ?thesis using cs by (intro exI [of _ "take LINE s # cs"]) simp
  qed simp
qed

definition dna_file :: "(char list \<times> char list) list \<Rightarrow> bool" where
  "dna_file rs \<longleftrightarrow> (\<forall>(h, s) \<in> set rs. header h \<and> newline \<notin> set h \<and> set s \<subseteq> dna_codes)"

lemma records_format: "dna_file rs \<Longrightarrow> records (lines_of (fasta_format rs)) = rs"
proof (induction rs)
  case Nil
  then show ?case by (simp add: fasta_format_def lines_of.simps)
next
  case (Cons r rs)
  obtain h s where r: "r = (h, s)" by force
  with Cons.prems have h: "header h" "newline \<notin> set h" "set s \<subseteq> dna_codes" "dna_file rs"
    by (auto simp: dna_file_def)
  obtain cs where cs: "lines_of (columns s @ fasta_format rs) = cs @ lines_of (fasta_format rs)" "concat cs = s"
    "\<forall>c \<in> set cs. \<not> header c" using lines_of_columns [OF h(3)] by blast
  have ls: "lines_of (fasta_format (r # rs)) = h # cs @ lines_of (fasta_format rs)"
    using lines_of_line [OF h(2)] cs(1) by (simp add: r fasta_format_def)
  have next_header: "takeWhile (\<lambda>l. \<not> header l) (lines_of (fasta_format rs)) = []"
  proof (cases rs)
    case Nil
    then show ?thesis by (simp add: fasta_format_def lines_of.simps)
  next
    case (Cons r' rs')
    with h(4) show ?thesis by (auto simp: dna_file_def fasta_format_def lines_of_line)
  qed
  have skip: "records (cs @ ls) = records ls" for ls using cs(3) by (induction cs) auto
  from Cons.IH [OF h(4)] show ?case unfolding ls using h(1) cs(2,3) next_header
    by (simp add: r skip takeWhile_append)
qed

text \<open>C13: run twice on a file of upper case DNA records in lines of 60 columns, the program gives the file back.\<close>

theorem reverse_complement_main_involution:
  assumes "length tab = 256" "dna_file rs"
  shows "rbind (reverse_complement_main tab (fasta_format rs)) (reverse_complement_main tab) = Inr (fasta_format rs)"
proof -
  let ?rs = "map (\<lambda>(h, s). (h, reverse_complement s)) rs"
  have "dna_file ?rs" using assms(2) reverse_complement_twice by (fastforce simp: dna_file_def)
  moreover have "map (\<lambda>(h, s). (h, reverse_complement s)) ?rs = rs"
    using assms(2) reverse_complement_twice by (auto simp: dna_file_def intro!: map_idI)
  ultimately show ?thesis
    using assms by (simp add: reverse_complement_main_prints records_format)
qed

theorem reverse_complement_main_involution_witness:
  "rbind (reverse_complement_main (replicate 256 (CHR ''x'')) (''>a'' @ newline # ''GATTACA'' @ newline # ''>b'' @ [newline]))
     (reverse_complement_main (replicate 256 (CHR ''x''))) =
   Inr (''>a'' @ newline # ''GATTACA'' @ newline # ''>b'' @ [newline])"
proof -
  have "dna_file [(''>a'', ''GATTACA''), (''>b'', [])]" by (simp add: dna_file_def header_def dna_codes_def)
  then show ?thesis
    using reverse_complement_main_involution [of "replicate 256 (CHR ''x'')" "[(''>a'', ''GATTACA''), (''>b'', [])]"]
    by (simp add: fasta_format_def columns.simps [of "CHR ''G'' # xs" for xs] LINE_def)
qed

end
