(* ===== verification/SuiteKmerTable.thy ===== *)
theory SuiteKmerTable
  imports SomInterfaces "HOL-Library.Word"
begin

text \<open>
  The hash table of \<open>bench/suite/src/st/k-nucleotide/c/k-nucleotide.c\<close> (lines 10 to 73): open
  addressing with linear probing, 64-bit keys and 32-bit counters at their width. The pointer that
  \<open>table_slot\<close> returns is the index of the counter. The loop that probes goes round the table; a
  round without an empty slot and without the key never ends, so fuel for one round decides it.
\<close>

unbundle bit_operations_syntax

section \<open>The table\<close>

record table =
  t_keys :: "64 word list"
  t_vals :: "32 word list"
  t_cap :: nat
  t_size :: nat

definition hash64 :: "64 word \<Rightarrow> 64 word" where
  "hash64 k =
    (let k = k XOR drop_bit 33 k;
         k = k * 0xff51afd7ed558ccd;
         k = k XOR drop_bit 33 k
     in k)"

definition table_init :: "nat \<Rightarrow> table" where
  "table_init cap = \<lparr>t_keys = replicate cap 0, t_vals = replicate cap 0, t_cap = cap, t_size = 0\<rparr>"

text \<open>\<open>while (t->keys[i] != 0)\<close>: the index where the loop stops and whether the key is there.\<close>

fun probe :: "nat \<Rightarrow> 64 word list \<Rightarrow> nat \<Rightarrow> 64 word \<Rightarrow> nat \<Rightarrow> (nat \<times> bool) res" where
  "probe 0 keys msk stored i = Inl OutOfFuel"
| "probe (Suc fuel) keys msk stored i =
    rbind (arr_get keys (int i)) (\<lambda>k.
      if k \<noteq> 0 then
        (if k = stored then Inr (i, True) else probe fuel keys msk stored ((i + 1) AND msk))
      else Inr (i, False))"

text \<open>
  \<open>table_slot\<close> and \<open>table_grow\<close> call each other; the fuel bounds the depth of that. \<open>table_put\<close> is
  \<open>*table_slot(t, key) = val\<close>.
\<close>

fun table_slot :: "nat \<Rightarrow> 64 word \<Rightarrow> table \<Rightarrow> (nat \<times> table) res"
  and table_grow :: "nat \<Rightarrow> table \<Rightarrow> table res"
  and grow_step :: "nat \<Rightarrow> table \<Rightarrow> nat \<Rightarrow> table \<Rightarrow> table res" where
  "table_slot 0 key t = Inl OutOfFuel"
| "table_slot (Suc fuel) key t =
    rbind (if (t_size t + 1) * 2 > t_cap t then table_grow fuel t else Inr t) (\<lambda>t.
      let mask = t_cap t - 1; stored = key + 1 in
      rbind (probe (Suc (t_cap t)) (t_keys t) mask stored (unat (hash64 key) AND mask)) (\<lambda>(i, found).
        if found then Inr (i, t)
        else rbind (arr_set (t_keys t) (int i) stored) (\<lambda>keys.
          Inr (i, t\<lparr>t_keys := keys, t_size := t_size t + 1\<rparr>))))"
| "table_grow fuel old = rfold (grow_step fuel old) [0..<t_cap old] (table_init (t_cap old * 2))"
| "grow_step fuel old i t =
    rbind (arr_get (t_keys old) (int i)) (\<lambda>k.
      if k \<noteq> 0 then
        rbind (table_slot fuel (k - 1) t) (\<lambda>(j, t).
        rbind (arr_get (t_vals old) (int i)) (\<lambda>v.
        rbind (arr_set (t_vals t) (int j) v) (\<lambda>vals.
          Inr (t\<lparr>t_vals := vals\<rparr>))))
      else Inr t)"

declare table_slot.simps [simp del] table_grow.simps [simp del] grow_step.simps [simp del]

definition table_get :: "table \<Rightarrow> 64 word \<Rightarrow> 32 word res" where
  "table_get t key =
    (let mask = t_cap t - 1; stored = key + 1 in
     rbind (probe (Suc (t_cap t)) (t_keys t) mask stored (unat (hash64 key) AND mask)) (\<lambda>(i, found).
       if found then arr_get (t_vals t) (int i) else Inr 0))"

text \<open>\<open>(*table_slot(t, key))++\<close>\<close>

definition table_count :: "nat \<Rightarrow> 64 word \<Rightarrow> table \<Rightarrow> table res" where
  "table_count fuel key t =
    rbind (table_slot fuel key t) (\<lambda>(i, t).
    rbind (arr_get (t_vals t) (int i)) (\<lambda>v.
    rbind (arr_set (t_vals t) (int i) (v + 1)) (\<lambda>vals.
      Inr (t\<lparr>t_vals := vals\<rparr>))))"

section \<open>Probing\<close>

text \<open>The slots of a key, in the order in which they are tried.\<close>

definition slot :: "nat \<Rightarrow> 64 word \<Rightarrow> nat \<Rightarrow> nat" where
  "slot cap key d = (unat (hash64 key) + d) mod cap"

text \<open>\<open>at_home\<close>: the key stored in slot \<open>i\<close> is found by probing.\<close>

definition at_home :: "64 word list \<Rightarrow> 64 word \<Rightarrow> nat \<Rightarrow> bool" where
  "at_home keys key i \<longleftrightarrow> (\<exists>d < length keys. i = slot (length keys) key d \<and>
     (\<forall>e < d. keys ! slot (length keys) key e \<noteq> 0))"

definition keys_ok :: "64 word list \<Rightarrow> bool" where
  "keys_ok keys \<longleftrightarrow> (\<exists>b. length keys = 2 ^ Suc b) \<and>
     (\<forall>i < length keys. \<forall>j < length keys. keys ! i = keys ! j \<longrightarrow> keys ! i \<noteq> 0 \<longrightarrow> i = j) \<and>
     (\<forall>i < length keys. keys ! i \<noteq> 0 \<longrightarrow> at_home keys (keys ! i - 1) i)"

definition used :: "64 word list \<Rightarrow> nat" where
  "used keys = card {i. i < length keys \<and> keys ! i \<noteq> 0}"

definition table_ok :: "table \<Rightarrow> bool" where
  "table_ok t \<longleftrightarrow> keys_ok (t_keys t) \<and> length (t_keys t) = t_cap t \<and> length (t_vals t) = t_cap t \<and>
     2 * t_size t \<le> t_cap t \<and> used (t_keys t) = t_size t \<and>
     (\<forall>i < t_cap t. t_keys t ! i = 0 \<longrightarrow> t_vals t ! i = 0)"

text \<open>The finite map a table stands for. The key \<open>- 1\<close> cannot be stored: its mark is \<open>0\<close>.\<close>

definition table_abs :: "table \<Rightarrow> 64 word \<Rightarrow> 32 word option" where
  "table_abs t key = (if key + 1 = 0 then None else map_of (zip (t_keys t) (t_vals t)) (key + 1))"

lemma and_mask:
  "(x :: nat) AND (2 ^ b - 1) = x mod 2 ^ b" "(x :: nat) AND (2 ^ b - Suc 0) = x mod 2 ^ b"
proof -
  have "x AND mask b = x mod 2 ^ b" by (simp add: take_bit_eq_mod flip: take_bit_eq_mask)
  then show "x AND (2 ^ b - 1) = x mod 2 ^ b" "x AND (2 ^ b - Suc 0) = x mod 2 ^ b"
    by (simp_all add: mask_eq_exp_minus_1)
qed

lemma slot_less: "0 < cap \<Longrightarrow> slot cap key d < cap"
  by (simp add: slot_def)

lemma slot_Suc: "slot (2 ^ b) key (Suc d) = (slot (2 ^ b) key d + 1) AND (2 ^ b - 1)"
  by (simp add: and_mask slot_def mod_Suc_eq)

text \<open>The loop stops at the first slot that is empty or holds the key.\<close>

lemma probe_stops:
  assumes "length keys = 2 ^ b"
  shows "d + k < 2 ^ b \<Longrightarrow> keys ! slot (2 ^ b) key (d + k) = 0 \<or> keys ! slot (2 ^ b) key (d + k) = stored \<Longrightarrow>
    (\<forall>e. d \<le> e \<longrightarrow> e < d + k \<longrightarrow> keys ! slot (2 ^ b) key e \<noteq> 0 \<and> keys ! slot (2 ^ b) key e \<noteq> stored) \<Longrightarrow> k < fuel \<Longrightarrow>
    probe fuel keys (2 ^ b - 1) stored (slot (2 ^ b) key d) =
      Inr (slot (2 ^ b) key (d + k), keys ! slot (2 ^ b) key (d + k) \<noteq> 0)"
proof (induction k arbitrary: d fuel)
  case 0
  then obtain f where "fuel = Suc f" by (cases fuel) auto
  with 0 assms show ?case by (auto simp: arr_get_ok slot_less)
next
  case (Suc k)
  then obtain f where f: "fuel = Suc f" "k < f" by (cases fuel) auto
  have "keys ! slot (2 ^ b) key d \<noteq> 0" "keys ! slot (2 ^ b) key d \<noteq> stored" using Suc.prems(3) by simp_all
  moreover have "probe f keys (2 ^ b - 1) stored (slot (2 ^ b) key (Suc d)) =
      Inr (slot (2 ^ b) key (Suc d + k), keys ! slot (2 ^ b) key (Suc d + k) \<noteq> 0)"
    using Suc.prems f(2) by (intro Suc.IH) (auto simp: Suc_le_eq)
  ultimately show ?case using assms by (simp add: f(1) slot_Suc arr_get_ok slot_less)
qed

lemma slot_covers:
  assumes "i < cap"
  shows "\<exists>d < cap. slot cap key d = i"
proof -
  define h where "h = unat (hash64 key) mod cap"
  define d where "d = (if h \<le> i then i - h else cap + i - h)"
  have h: "h < cap" using assms by (simp add: h_def)
  have "(h + d) mod cap = i" using h assms by (auto simp: d_def)
  then have "slot cap key d = i" by (simp add: slot_def h_def mod_add_left_eq)
  moreover have "d < cap" using h assms by (auto simp: d_def)
  ultimately show ?thesis by blast
qed

text \<open>A probe of a table with an empty slot returns, and finds the key exactly if it is there.\<close>

lemma probe_finds:
  assumes ok: "keys_ok keys" and free: "used keys < length keys" and key: "key + 1 \<noteq> 0"
  obtains i f where
    "probe (Suc (length keys)) keys (length keys - 1) (key + 1) (unat (hash64 key) AND (length keys - 1)) = Inr (i, f)"
    "i < length keys" "f \<Longrightarrow> keys ! i = key + 1"
    "\<not> f \<Longrightarrow> keys ! i = 0" "\<not> f \<Longrightarrow> at_home keys key i" "\<not> f \<Longrightarrow> key + 1 \<notin> set keys"
proof -
  obtain b where b: "length keys = 2 ^ b" using ok unfolding keys_ok_def by blast
  let ?k = "\<lambda>d. keys ! slot (2 ^ b) key d" and ?stop = "\<lambda>d. keys ! slot (2 ^ b) key d = 0 \<or> keys ! slot (2 ^ b) key d = key + 1"
  have "\<exists>i < length keys. keys ! i = 0"
  proof (rule ccontr)
    assume "\<not> ?thesis"
    then have "{i. i < length keys \<and> keys ! i \<noteq> 0} = {..<length keys}" by auto
    with free show False by (simp add: used_def)
  qed
  then obtain d0 where d0: "d0 < 2 ^ b" "?stop d0" using slot_covers [of _ "2 ^ b" key] b by metis
  define P where "P = ?stop"
  have "\<exists>d. P d" using d0(2) unfolding P_def by blast
  then obtain d where least: "P d" "\<And>e. e < d \<Longrightarrow> \<not> P e" unfolding exists_least_iff [of P] by blast
  have "d \<le> d0" using least(2) [of d0] d0(2) unfolding P_def by force
  with d0(1) least have d: "?stop d" "d < 2 ^ b" and least: "\<And>e. e < d \<Longrightarrow> \<not> ?stop e" unfolding P_def by auto
  have start: "unat (hash64 key) AND (length keys - 1) = slot (2 ^ b) key 0"
    unfolding b and_mask by (simp add: slot_def)
  have run: "probe (Suc (length keys)) keys (length keys - 1) (key + 1) (unat (hash64 key) AND (length keys - 1)) =
      Inr (slot (2 ^ b) key d, ?k d \<noteq> 0)"
  proof -
    have "\<forall>e. 0 \<le> e \<longrightarrow> e < 0 + d \<longrightarrow> ?k e \<noteq> 0 \<and> ?k e \<noteq> key + 1" using least by (simp del: One_nat_def)
    from probe_stops [OF b, of 0 d key "key + 1" "Suc (2 ^ b)", unfolded add_0, OF d(2,1) this [unfolded add_0]] d(2)
    show ?thesis unfolding start unfolding b by (simp only: less_SucI)
  qed
  have i: "slot (2 ^ b) key d < length keys" using b by (simp add: slot_less)
  have absent: "key + 1 \<notin> set keys" if z: "?k d = 0"
  proof
    assume "key + 1 \<in> set keys"
    then obtain j where j: "j < length keys" "keys ! j = key + 1" by (auto simp: in_set_conv_nth)
    with key have "keys ! j \<noteq> 0" by simp
    with ok j(1) have "at_home keys (keys ! j - 1) j" unfolding keys_ok_def by blast
    then have "at_home keys key j" using j(2) by simp
    then obtain e where e: "e < 2 ^ b" "j = slot (2 ^ b) key e" "\<forall>f < e. ?k f \<noteq> 0" by (auto simp: at_home_def b)
    have "\<not> e < d" using least [of e] j(2) e(2) by auto
    moreover have "\<not> d < e" using e(3) z by auto
    ultimately show False using e(2) j(2) z key by auto
  qed
  show thesis
  proof (rule that [OF run i])
    show "?k d = key + 1" if "?k d \<noteq> 0" using d(1) that by auto
    show "?k d = 0" if "\<not> ?k d \<noteq> 0" using that by simp
    show "at_home keys key (slot (2 ^ b) key d)" using d(2) least by (auto simp: at_home_def b)
    show "key + 1 \<notin> set keys" if "\<not> ?k d \<noteq> 0" using absent that by simp
  qed
qed

lemma at_home_mono:
  "at_home keys key i \<Longrightarrow> length keys' = length keys \<Longrightarrow>
   (\<And>j. j < length keys \<Longrightarrow> keys ! j \<noteq> 0 \<Longrightarrow> keys' ! j \<noteq> 0) \<Longrightarrow> at_home keys' key i"
  unfolding at_home_def by (metis slot_less gr_zeroI not_less_zero)

lemma keys_ok_insert:
  assumes ok: "keys_ok keys" and i: "i < length keys" "keys ! i = 0" "at_home keys key i"
    and key: "key + 1 \<noteq> 0" "key + 1 \<notin> set keys"
  shows "keys_ok (keys[i := key + 1]) \<and> used (keys[i := key + 1]) = Suc (used keys)"
proof
  let ?keys = "keys[i := key + 1]"
  have home: "at_home ?keys k j" if "at_home keys k j" for k j
    using that i(1) key(1) by (rule_tac at_home_mono) (auto simp: nth_list_update)
  have absent: "keys ! j \<noteq> key + 1" if "j < length keys" for j using key(2) that nth_mem by metis
  show "keys_ok ?keys"
    using ok i key home absent unfolding keys_ok_def length_list_update
    by (auto simp: nth_list_update)
  have "{j. j < length ?keys \<and> ?keys ! j \<noteq> 0} = insert i {j. j < length keys \<and> keys ! j \<noteq> 0}"
    using i key by (auto simp: nth_list_update)
  then show "used ?keys = Suc (used keys)" using i by (simp add: used_def)
qed

lemma used_le: "used keys \<le> length keys"
  unfolding used_def by (rule order_trans [OF card_mono [of "{..<length keys}"]]) auto

section \<open>Looking up and inserting\<close>

lemma table_abs_Some:
  assumes "table_ok t" "key + 1 \<noteq> 0"
  shows "table_abs t key = Some v \<longleftrightarrow> (\<exists>i < t_cap t. t_keys t ! i = key + 1 \<and> t_vals t ! i = v)"
proof
  assume "table_abs t key = Some v"
  then have "(key + 1, v) \<in> set (zip (t_keys t) (t_vals t))"
    using assms(2) by (auto simp: table_abs_def dest: map_of_SomeD)
  then show "\<exists>i < t_cap t. t_keys t ! i = key + 1 \<and> t_vals t ! i = v"
    using assms(1) by (auto simp: table_ok_def in_set_zip)
next
  assume "\<exists>i < t_cap t. t_keys t ! i = key + 1 \<and> t_vals t ! i = v"
  then obtain i where i: "i < t_cap t" "t_keys t ! i = key + 1" "t_vals t ! i = v" by blast
  have len: "length (t_keys t) = t_cap t" "length (t_vals t) = t_cap t" using assms(1) by (auto simp: table_ok_def)
  have "(key + 1, v) \<in> set (zip (t_keys t) (t_vals t))" using i len by (auto simp: in_set_zip)
  then have "map_of (zip (t_keys t) (t_vals t)) (key + 1) \<noteq> None"
    unfolding map_of_eq_None_iff by (force simp: image_iff)
  then obtain w where w: "map_of (zip (t_keys t) (t_vals t)) (key + 1) = Some w" by blast
  then have "(key + 1, w) \<in> set (zip (t_keys t) (t_vals t))" by (rule map_of_SomeD)
  then obtain j where "j < t_cap t" "t_keys t ! j = key + 1" "t_vals t ! j = w"
    using len by (auto simp: in_set_zip)
  with i assms have "w = v" unfolding table_ok_def keys_ok_def by metis
  with w assms(2) show "table_abs t key = Some v" by (simp add: table_abs_def)
qed

lemma table_abs_None:
  "table_ok t \<Longrightarrow> key + 1 \<noteq> 0 \<Longrightarrow> table_abs t key = None \<longleftrightarrow> key + 1 \<notin> set (t_keys t)"
  by (simp add: table_abs_def map_of_eq_None_iff table_ok_def map_fst_zip flip: set_map)

lemma table_used_less: "table_ok t \<Longrightarrow> used (t_keys t) < length (t_keys t)"
proof -
  assume ok: "table_ok t"
  then obtain b where "t_cap t = 2 ^ Suc b" by (auto simp: table_ok_def keys_ok_def)
  then have "0 < t_cap t" by simp
  with ok show ?thesis by (auto simp: table_ok_def)
qed

lemma table_get_abs:
  assumes ok: "table_ok t" and key: "key + 1 \<noteq> 0"
  shows "table_get t key = Inr (case table_abs t key of Some v \<Rightarrow> v | None \<Rightarrow> 0)"
proof -
  have len: "length (t_keys t) = t_cap t" "length (t_vals t) = t_cap t" "keys_ok (t_keys t)"
    using ok by (auto simp: table_ok_def)
  from probe_finds [OF len(3) table_used_less [OF ok] key] obtain i f where p:
    "probe (Suc (t_cap t)) (t_keys t) (t_cap t - 1) (key + 1) (unat (hash64 key) AND (t_cap t - 1)) = Inr (i, f)"
    "i < t_cap t" "f \<Longrightarrow> t_keys t ! i = key + 1" "\<not> f \<Longrightarrow> key + 1 \<notin> set (t_keys t)"
    unfolding len(1) by blast
  show ?thesis
  proof (cases f)
    case True
    then have "table_abs t key = Some (t_vals t ! i)" using table_abs_Some [OF ok key] p by blast
    with p True len show ?thesis by (simp add: table_get_def Let_def arr_get_ok)
  next
    case False
    with p table_abs_None [OF ok key] show ?thesis by (simp add: table_get_def Let_def)
  qed
qed

text \<open>Without growing: the slot of the key, with a zero counter when the key is new.\<close>

definition slot_result :: "64 word \<Rightarrow> table \<Rightarrow> nat \<Rightarrow> table \<Rightarrow> bool" where
  "slot_result key t i t' \<longleftrightarrow> table_ok t' \<and> i < t_cap t' \<and> t_keys t' ! i = key + 1 \<and>
     t_vals t' ! i = (case table_abs t key of Some v \<Rightarrow> v | None \<Rightarrow> 0) \<and>
     (\<forall>k. k + 1 \<noteq> 0 \<longrightarrow> k \<noteq> key \<longrightarrow> table_abs t' k = table_abs t k) \<and>
     t_size t' = (if table_abs t key = None then Suc (t_size t) else t_size t)"

lemma table_slot_direct:
  assumes ok: "table_ok t" and key: "key + 1 \<noteq> 0" and room: "2 * Suc (t_size t) \<le> t_cap t"
  shows "\<exists>i t'. table_slot (Suc fuel) key t = Inr (i, t') \<and> slot_result key t i t' \<and> t_cap t' = t_cap t"
proof -
  have len: "length (t_keys t) = t_cap t" "length (t_vals t) = t_cap t" "keys_ok (t_keys t)"
    using ok by (auto simp: table_ok_def)
  from probe_finds [OF len(3) table_used_less [OF ok] key] obtain i f where p:
    "probe (Suc (t_cap t)) (t_keys t) (t_cap t - 1) (key + 1) (unat (hash64 key) AND (t_cap t - 1)) = Inr (i, f)"
    "i < t_cap t" "f \<Longrightarrow> t_keys t ! i = key + 1" "\<not> f \<Longrightarrow> key + 1 \<notin> set (t_keys t)"
    "\<not> f \<Longrightarrow> t_keys t ! i = 0" "\<not> f \<Longrightarrow> at_home (t_keys t) key i"
    unfolding len(1) by blast
  show ?thesis
  proof (cases f)
    case True
    then have "table_abs t key = Some (t_vals t ! i)" using table_abs_Some [OF ok key] p by blast
    with p True ok have "table_slot (Suc fuel) key t = Inr (i, t)" "slot_result key t i t"
      using room by (simp_all add: slot_result_def table_slot.simps)
    then show ?thesis by blast
  next
    case False
    let ?t = "t\<lparr>t_keys := (t_keys t)[i := key + 1], t_size := Suc (t_size t)\<rparr>"
    have z: "t_keys t ! i = 0" using p(5) False by simp
    have run: "table_slot (Suc fuel) key t = Inr (i, ?t)" using p False room len by (simp add: table_slot.simps arr_set_ok)
    have new: "keys_ok (t_keys ?t)" "used (t_keys ?t) = Suc (t_size t)"
      using keys_ok_insert [OF len(3), of i key] p False key len(1) ok by (auto simp: table_ok_def)
    have ok': "table_ok ?t" using ok new room p(2) key unfolding table_ok_def by (auto simp: nth_list_update)
    have none: "table_abs t key = None" using p False table_abs_None [OF ok key] by simp
    have "table_abs ?t k = table_abs t k" if k: "k + 1 \<noteq> 0" "k \<noteq> key" for k
    proof -
      have "(j < t_cap ?t \<and> t_keys ?t ! j = k + 1 \<and> t_vals ?t ! j = v) =
          (j < t_cap t \<and> t_keys t ! j = k + 1 \<and> t_vals t ! j = v)" for j v
        using k p(2) z len(1) by (cases "j = i") auto
      then have "table_abs ?t k = Some v \<longleftrightarrow> table_abs t k = Some v" for v
        unfolding table_abs_Some [OF ok' k(1)] table_abs_Some [OF ok k(1)] by presburger
      then show ?thesis by (metis not_Some_eq)
    qed
    moreover have "t_vals ?t ! i = 0" using ok p False by (simp add: table_ok_def)
    ultimately have "slot_result key t i ?t" using ok' p(2) len none by (simp add: slot_result_def)
    with run show ?thesis by auto
  qed
qed

lemma table_vals_update:
  assumes ok: "table_ok t" and i: "i < t_cap t" "t_keys t ! i = key + 1" and key: "key + 1 \<noteq> 0"
  shows "table_ok (t\<lparr>t_vals := (t_vals t)[i := v]\<rparr>) \<and>
    (\<forall>k. k + 1 \<noteq> 0 \<longrightarrow> table_abs (t\<lparr>t_vals := (t_vals t)[i := v]\<rparr>) k = ((table_abs t)(key \<mapsto> v)) k)"
proof
  let ?t = "t\<lparr>t_vals := (t_vals t)[i := v]\<rparr>"
  show ok': "table_ok ?t" using ok i key by (auto simp: table_ok_def nth_list_update)
  have len: "length (t_vals t) = t_cap t" using ok by (simp add: table_ok_def)
  show "\<forall>k. k + 1 \<noteq> 0 \<longrightarrow> table_abs ?t k = ((table_abs t)(key \<mapsto> v)) k"
  proof (intro allI impI)
    fix k :: "64 word" assume k: "k + 1 \<noteq> 0"
    show "table_abs ?t k = ((table_abs t)(key \<mapsto> v)) k"
    proof (cases "k = key")
      case True
      have "\<exists>j < t_cap ?t. t_keys ?t ! j = key + 1 \<and> t_vals ?t ! j = v" using i len by auto
      with True show ?thesis unfolding table_abs_Some [OF ok' key, symmetric] by simp
    next
      case False
      then have "(j < t_cap ?t \<and> t_keys ?t ! j = k + 1 \<and> t_vals ?t ! j = w) =
          (j < t_cap t \<and> t_keys t ! j = k + 1 \<and> t_vals t ! j = w)" for j w
        using i(2) by (cases "j = i") auto
      then have "table_abs ?t k = Some w \<longleftrightarrow> table_abs t k = Some w" for w
        unfolding table_abs_Some [OF ok' k] table_abs_Some [OF ok k] by presburger
      with False show ?thesis by (simp add: fun_upd_def) (metis not_Some_eq)
    qed
  qed
qed

section \<open>Growing\<close>

lemma table_init_ok: "table_ok (table_init (2 ^ Suc b))"
proof -
  have "used (replicate (2 ^ Suc b) 0) = 0" by (simp add: used_def)
  then show ?thesis by (auto simp: table_ok_def table_init_def keys_ok_def simp del: power_Suc)
qed

lemma table_init_abs: "table_abs (table_init (2 ^ Suc b)) k = None"
  by (cases "k + 1 = 0") (simp_all add: table_abs_def table_init_def map_of_eq_None_iff image_iff in_set_zip)

text \<open>The entries of the first \<open>m\<close> slots.\<close>

definition part_abs :: "nat \<Rightarrow> table \<Rightarrow> 64 word \<Rightarrow> 32 word option" where
  "part_abs m t k = (if \<exists>i < m. t_keys t ! i = k + 1 then table_abs t k else None)"

definition part_used :: "nat \<Rightarrow> table \<Rightarrow> nat" where
  "part_used m t = card {i. i < m \<and> t_keys t ! i \<noteq> 0}"

lemma part_used_Suc: "part_used (Suc m) t = (if t_keys t ! m \<noteq> 0 then Suc (part_used m t) else part_used m t)"
proof -
  have "{i. i < Suc m \<and> t_keys t ! i \<noteq> 0} =
      (if t_keys t ! m \<noteq> 0 then insert m {i. i < m \<and> t_keys t ! i \<noteq> 0} else {i. i < m \<and> t_keys t ! i \<noteq> 0})"
    by (auto simp: less_Suc_eq)
  then show ?thesis by (simp add: part_used_def)
qed

definition grown_part :: "table \<Rightarrow> nat \<Rightarrow> table \<Rightarrow> bool" where
  "grown_part old m t \<longleftrightarrow> table_ok t \<and> t_cap t = t_cap old * 2 \<and> t_size t = part_used m old \<and>
     (\<forall>k. k + 1 \<noteq> 0 \<longrightarrow> table_abs t k = part_abs m old k)"

lemma grow_step_part:
  assumes ok: "table_ok old" and m: "m < t_cap old" and g: "grown_part old m t"
  shows "\<exists>t'. grow_step (Suc fuel) old m t = Inr t' \<and> grown_part old (Suc m) t'"
proof (cases "t_keys old ! m = 0")
  case True
  have "part_abs (Suc m) old k = part_abs m old k" if "k + 1 \<noteq> 0" for k
    using True that by (auto simp: part_abs_def less_Suc_eq)
  then show ?thesis using True m ok g
    by (intro exI [of _ t]) (auto simp: grow_step.simps grown_part_def part_used_Suc arr_get_ok table_ok_def)
next
  case False
  let ?key = "t_keys old ! m - 1"
  have key: "?key + 1 \<noteq> 0" "t_keys old ! m = ?key + 1" using False by simp_all
  have len: "length (t_keys old) = t_cap old" "length (t_vals old) = t_cap old" using ok by (auto simp: table_ok_def)
  have ok_t: "table_ok t" "t_cap t = t_cap old * 2" using g by (auto simp: grown_part_def)
  have absent: "t_keys old ! i \<noteq> ?key + 1" if "i < m" for i
  proof
    assume "t_keys old ! i = ?key + 1"
    then have "t_keys old ! i = t_keys old ! m" "t_keys old ! i \<noteq> 0" using False by simp_all
    moreover have "i < length (t_keys old)" "m < length (t_keys old)" using that m len by simp_all
    ultimately have "i = m" using ok unfolding table_ok_def keys_ok_def by blast
    with that show False by simp
  qed
  have new: "table_abs t ?key = None" using g key(1) absent by (auto simp: grown_part_def part_abs_def)
  have "part_used m old \<le> used (t_keys old)" unfolding part_used_def used_def
    using m len by (intro card_mono) auto
  moreover have "2 \<le> t_cap old" using ok by (auto simp: table_ok_def keys_ok_def)
  moreover have "2 * used (t_keys old) \<le> t_cap old" using ok by (simp add: table_ok_def)
  ultimately have room: "2 * Suc (t_size t) \<le> t_cap t" using g ok_t(2) by (simp add: grown_part_def)
  from table_slot_direct [OF ok_t(1) key(1) room] obtain i t' where
    s: "table_slot (Suc fuel) ?key t = Inr (i, t')" "slot_result ?key t i t'" "t_cap t' = t_cap t" by blast
  have r: "table_ok t'" "i < t_cap t'" "t_keys t' ! i = ?key + 1" "t_size t' = Suc (t_size t)"
    "\<And>k. k + 1 \<noteq> 0 \<Longrightarrow> k \<noteq> ?key \<Longrightarrow> table_abs t' k = table_abs t k"
    using s(2) new by (auto simp: slot_result_def)
  let ?t = "t'\<lparr>t_vals := (t_vals t')[i := t_vals old ! m]\<rparr>"
  note u = table_vals_update [OF r(1-3) key(1), of "t_vals old ! m"]
  have own: "table_abs old ?key = Some (t_vals old ! m)"
    using table_abs_Some [OF ok key(1)] m key(2) by auto
  have "table_abs ?t k = part_abs (Suc m) old k" if k: "k + 1 \<noteq> 0" for k
  proof (cases "k = ?key")
    case True
    have "\<exists>i < Suc m. t_keys old ! i = ?key + 1" using key(2) by auto
    with True u k own show ?thesis by (simp add: part_abs_def)
  next
    case False
    then have "t_keys old ! m \<noteq> k + 1" using key(2) by (metis add_right_cancel)
    then have "part_abs (Suc m) old k = part_abs m old k" by (auto simp: part_abs_def less_Suc_eq)
    with False u k r(5) [OF k False] g show ?thesis by (simp add: grown_part_def)
  qed
  moreover have "length (t_vals t') = t_cap t'" using r(1) by (simp add: table_ok_def)
  ultimately have "grow_step (Suc fuel) old m t = Inr ?t" "grown_part old (Suc m) ?t"
    using m len False s(1,3) r(2,4) u ok_t(2) g key(2)
    by (simp_all add: grow_step.simps arr_get_ok arr_set_ok grown_part_def part_used_Suc)
  then show ?thesis by blast
qed

lemma table_grow_ok:
  assumes ok: "table_ok old"
  shows "\<exists>t. table_grow (Suc fuel) old = Inr t \<and> table_ok t \<and> t_cap t = t_cap old * 2 \<and> t_size t = t_size old \<and>
    (\<forall>k. k + 1 \<noteq> 0 \<longrightarrow> table_abs t k = table_abs old k)"
proof -
  obtain b where b: "t_cap old = 2 ^ Suc b" using ok by (auto simp: table_ok_def keys_ok_def)
  have start: "grown_part old 0 (table_init (t_cap old * 2))"
    using table_init_ok [of "Suc b"] table_init_abs [of "Suc b"]
    by (simp add: grown_part_def part_used_def part_abs_def b mult.commute) (simp add: table_init_def)
  have "m \<le> t_cap old \<Longrightarrow> \<exists>t. rfold (grow_step (Suc fuel) old) [0..<m] (table_init (t_cap old * 2)) = Inr t \<and> grown_part old m t" for m
  proof (induction m)
    case (Suc m)
    then obtain t where t: "rfold (grow_step (Suc fuel) old) [0..<m] (table_init (t_cap old * 2)) = Inr t" "grown_part old m t"
      by auto
    from grow_step_part [OF ok _ t(2)] Suc.prems obtain t' where "grow_step (Suc fuel) old m t = Inr t'" "grown_part old (Suc m) t'"
      by (meson Suc_le_lessD)
    with t(1) show ?case by (simp add: rfold_append)
  qed (use start in simp)
  from this [of "t_cap old"] obtain t where t: "table_grow (Suc fuel) old = Inr t" "grown_part old (t_cap old) t"
    by (auto simp: table_grow.simps)
  have "part_abs (t_cap old) old k = table_abs old k" if k: "k + 1 \<noteq> 0" for k
  proof (cases "table_abs old k")
    case (Some v)
    with table_abs_Some [OF ok k] show ?thesis by (auto simp: part_abs_def)
  qed (simp add: part_abs_def)
  moreover have "part_used (t_cap old) old = t_size old" using ok by (auto simp: part_used_def table_ok_def used_def)
  ultimately show ?thesis using t by (auto simp: grown_part_def)
qed

text \<open>\<open>table_slot\<close> in general, and the increment of a counter.\<close>

lemma table_slot_ok:
  assumes ok: "table_ok t" and key: "key + 1 \<noteq> 0"
  shows "\<exists>i t'. table_slot (Suc (Suc fuel)) key t = Inr (i, t') \<and> slot_result key t i t'"
proof (cases "2 * Suc (t_size t) \<le> t_cap t")
  case True
  from table_slot_direct [OF ok key True] show ?thesis by blast
next
  case False
  from table_grow_ok [OF ok] obtain g where g: "table_grow (Suc fuel) t = Inr g" "table_ok g" "t_cap g = t_cap t * 2"
    "t_size g = t_size t" "\<And>k. k + 1 \<noteq> 0 \<Longrightarrow> table_abs g k = table_abs t k" by blast
  have "2 \<le> t_cap t" using ok by (auto simp: table_ok_def keys_ok_def)
  moreover have "2 * t_size t \<le> t_cap t" using ok by (simp add: table_ok_def)
  ultimately have room: "2 * Suc (t_size g) \<le> t_cap g" using g(3,4) by simp
  from table_slot_direct [OF g(2) key room, of "Suc fuel"] obtain i t' where
    s: "table_slot (Suc (Suc fuel)) key g = Inr (i, t')" "slot_result key g i t'" by blast
  have "table_slot (Suc (Suc fuel)) key t = table_slot (Suc (Suc fuel)) key g"
    using False room g(1) by (simp add: table_slot.simps)
  with s g(4,5) key show ?thesis by (intro exI [of _ i] exI [of _ t']) (simp add: slot_result_def)
qed

lemma table_count_ok:
  assumes ok: "table_ok t" and key: "key + 1 \<noteq> 0"
  shows "\<exists>t'. table_count (Suc (Suc fuel)) key t = Inr t' \<and> table_ok t' \<and>
    (\<forall>k. k + 1 \<noteq> 0 \<longrightarrow> table_abs t' k =
      ((table_abs t)(key \<mapsto> (case table_abs t key of Some v \<Rightarrow> v | None \<Rightarrow> 0) + 1)) k)"
proof -
  from table_slot_ok [OF ok key] obtain i t' where
    s: "table_slot (Suc (Suc fuel)) key t = Inr (i, t')" "slot_result key t i t'" by blast
  then have r: "table_ok t'" "i < t_cap t'" "t_keys t' ! i = key + 1"
    "t_vals t' ! i = (case table_abs t key of Some v \<Rightarrow> v | None \<Rightarrow> 0)"
    "\<And>k. k + 1 \<noteq> 0 \<Longrightarrow> k \<noteq> key \<Longrightarrow> table_abs t' k = table_abs t k" by (auto simp: slot_result_def)
  have len: "length (t_vals t') = t_cap t'" using r(1) by (simp add: table_ok_def)
  note u = table_vals_update [OF r(1-3) key, of "t_vals t' ! i + 1"]
  have "table_count (Suc (Suc fuel)) key t = Inr (t'\<lparr>t_vals := (t_vals t')[i := t_vals t' ! i + 1]\<rparr>)"
    using s(1) r(2) len by (simp add: table_count_def arr_get_ok arr_set_ok)
  with u r(4,5) show ?thesis by auto
qed


end
