(* ===== verification/SuiteKNucleotide.thy ===== *)
theory SuiteKNucleotide
  imports SuiteKmerTable
begin

text \<open>
  The rest of \<open>bench/suite/src/st/k-nucleotide/c/k-nucleotide.c\<close>: packing nucleotides two bits each
  into a key, counting the keys of all windows of a sequence, the two kinds of report, and the
  reading of the FASTA file. The percentages, which the code prints in floating point, are reported
  as the pair of integers they are computed from. \<open>qsort\<close> is insertion sort with the comparison
  function of the code, whose order is total on the entries of a table.
\<close>

unbundle bit_operations_syntax

section \<open>The program\<close>

definition code_of :: "char \<Rightarrow> 64 word" where
  "code_of c = (if c = CHR ''A'' then 0 else if c = CHR ''C'' then 1 else if c = CHR ''G'' then 2 else 3)"

definition letters :: string where
  "letters = ''ACGT''"

text \<open>The shift by \<open>2 * k\<close> is undefined from \<open>64\<close> bits on.\<close>

definition kmer_mask :: "nat \<Rightarrow> 64 word res" where
  "kmer_mask k = (if k = 32 then Inr (NOT 0) else if 2 * k < 64 then Inr (push_bit (2 * k) 1 - 1) else Inl IntOverflow)"

definition count_kmers :: "nat \<Rightarrow> char list \<Rightarrow> nat \<Rightarrow> table \<Rightarrow> table res" where
  "count_kmers fuel seq k t =
    rbind (kmer_mask k) (\<lambda>mask.
    rbind (rfold (\<lambda>i key. rbind (arr_get seq (int i)) (\<lambda>c. Inr (push_bit 2 key OR code_of c))) [0..<k - 1] 0) (\<lambda>key.
    rbind (rfold (\<lambda>i (key, t).
        rbind (arr_get seq (int i)) (\<lambda>c.
        let key = (push_bit 2 key OR code_of c) AND mask in
        rbind (table_count fuel key t) (\<lambda>t. Inr (key, t))))
      (if k = 0 then [] else [k - 1..<length seq]) (key, t)) (\<lambda>(key, t).
      Inr t)))"

definition encode :: "char list \<Rightarrow> 64 word" where
  "encode s = fold (\<lambda>c key. push_bit 2 key OR code_of c) s 0"

record kmer_entry =
  e_key :: "64 word"
  e_count :: "32 word"

definition cmp_entry :: "kmer_entry \<Rightarrow> kmer_entry \<Rightarrow> int" where
  "cmp_entry x y =
    (if e_count x \<noteq> e_count y then (if e_count x > e_count y then -1 else 1)
     else if e_key x < e_key y then -1 else if e_key x > e_key y then 1 else 0)"

fun qsort_insert :: "('a \<Rightarrow> 'a \<Rightarrow> int) \<Rightarrow> 'a \<Rightarrow> 'a list \<Rightarrow> 'a list" where
  "qsort_insert cmp x [] = [x]"
| "qsort_insert cmp x (y # ys) = (if cmp x y \<le> 0 then x # y # ys else y # qsort_insert cmp x ys)"

definition qsort :: "('a \<Rightarrow> 'a \<Rightarrow> int) \<Rightarrow> 'a list \<Rightarrow> 'a list" where
  "qsort cmp xs = foldr (qsort_insert cmp) xs []"

datatype kmer_line =
    KmerShare string "32 word" "64 word"
  | KmerBlank
  | KmerCount "32 word" string

definition table_entries :: "table \<Rightarrow> kmer_entry list" where
  "table_entries t = map (\<lambda>(k, v). \<lparr>e_key = k - 1, e_count = v\<rparr>) (filter (\<lambda>(k, v). k \<noteq> 0) (zip (t_keys t) (t_vals t)))"

text \<open>\<open>name\<close> has room for 32 letters.\<close>

definition kmer_name :: "nat \<Rightarrow> 64 word \<Rightarrow> string res" where
  "kmer_name k key = (if k \<le> 32 then
     Inr (map (\<lambda>j. letters ! unat (drop_bit (2 * (k - 1 - j)) key AND 3)) [0..<k]) else Inl OutOfBounds)"

definition write_frequencies :: "nat \<Rightarrow> char list \<Rightarrow> nat \<Rightarrow> kmer_line list res" where
  "write_frequencies fuel seq k =
    rbind (count_kmers fuel seq k (table_init 64)) (\<lambda>t.
    let e = table_entries t; total = sum_list (map (\<lambda>x. ucast (e_count x)) e) in
    rbind (rfold (\<lambda>x ls. rbind (kmer_name k (e_key x)) (\<lambda>name. Inr (ls @ [KmerShare name (e_count x) total])))
      (qsort cmp_entry e) []) (\<lambda>ls.
      Inr (ls @ [KmerBlank])))"

definition write_count :: "nat \<Rightarrow> char list \<Rightarrow> char list \<Rightarrow> kmer_line list res" where
  "write_count fuel seq frag =
    rbind (count_kmers fuel seq (length frag) (table_init 64)) (\<lambda>t.
    rbind (table_get t (encode frag)) (\<lambda>n.
      Inr [KmerCount n frag]))"

text \<open>\<open>fgets(line, size, stdin)\<close>: at most \<open>size - 1\<close> bytes, up to the end of a line.\<close>

fun fgets_line :: "nat \<Rightarrow> char list \<Rightarrow> char list \<times> char list" where
  "fgets_line 0 xs = ([], xs)"
| "fgets_line (Suc n) [] = ([], [])"
| "fgets_line (Suc n) (x # xs) =
    (if x = CHR 0x0A then ([x], xs) else (case fgets_line n xs of (l, ys) \<Rightarrow> (x # l, ys)))"

definition LINE_SIZE :: nat where
  "LINE_SIZE = 4096"

lemma fgets_line_split: "fgets_line n xs = (l, ys) \<Longrightarrow> xs = l @ ys"
  by (induction n xs arbitrary: l ys rule: fgets_line.induct) (auto split: if_splits prod.splits)

lemma fgets_line_progress:
  assumes "fgets_line (LINE_SIZE - 1) xs = (l, ys)" "xs \<noteq> []"
  shows "length ys < length xs"
proof -
  obtain n where "LINE_SIZE - 1 = Suc n" by (cases "LINE_SIZE - 1") (auto simp: LINE_SIZE_def)
  with assms have "l \<noteq> []" by (cases xs) (auto split: if_splits prod.splits)
  with fgets_line_split [OF assms(1)] show ?thesis by simp
qed

function skip_to_three :: "char list \<Rightarrow> char list" where
  "skip_to_three input =
    (if input = [] then [] else
       (case fgets_line (LINE_SIZE - 1) input of (line, rest) \<Rightarrow>
          if take 6 line = ''>THREE'' then rest else skip_to_three rest))"
  by pat_completeness auto
termination
  by (relation "measure length") (auto intro: fgets_line_progress [OF sym])

declare skip_to_three.simps [simp del]

text \<open>One byte of the sequence: line ends are skipped, letters are made upper case, the buffer grows.\<close>

definition read_base :: "char \<Rightarrow> char list \<times> nat \<Rightarrow> (char list \<times> nat) res" where
  "read_base c = (\<lambda>(seq, cap).
    if c = CHR 0x0A \<or> c = CHR 0x0D then Inr (seq, cap)
    else
      let c = (if (of_char (CHR ''a'') :: nat) \<le> of_char c \<and> of_char c \<le> (of_char (CHR ''z'') :: nat)
               then char_of (of_char c - (of_char (CHR ''a'') - of_char (CHR ''A'')) :: nat) else c);
          cap = (if length seq = cap then cap * 2 else cap)
      in if length seq < cap then Inr (seq @ [c], cap) else Inl OutOfBounds)"

function read_sequence :: "char list \<Rightarrow> char list \<times> nat \<Rightarrow> (char list \<times> nat) res" where
  "read_sequence input s =
    (if input = [] then Inr s else
       (case fgets_line (LINE_SIZE - 1) input of (line, rest) \<Rightarrow>
          if hd line = CHR ''>'' then Inr s
          else rbind (rfold read_base (takeWhile (\<lambda>c. c \<noteq> CHR 0x00) line) s) (\<lambda>s. read_sequence rest s)))"
  by pat_completeness auto
termination
  by (relation "measure (\<lambda>(input, s). length input)")
    (auto intro: fgets_line_progress [OF sym])

declare read_sequence.simps [simp del]

definition fragments :: "string list" where
  "fragments = [''GGT'', ''GGTA'', ''GGTATT'', ''GGTATTTTAATT'', ''GGTATTTTAATTTATAGT'']"

definition k_nucleotide_main :: "nat \<Rightarrow> char list \<Rightarrow> kmer_line list res" where
  "k_nucleotide_main fuel input =
    rbind (read_sequence (skip_to_three input) ([], 2 ^ 16)) (\<lambda>(seq, cap).
    rbind (write_frequencies fuel seq 1) (\<lambda>l1.
    rbind (write_frequencies fuel seq 2) (\<lambda>l2.
    rbind (rfold (\<lambda>frag ls. rbind (write_count fuel seq frag) (\<lambda>l. Inr (ls @ l))) fragments []) (\<lambda>ls.
      Inr (l1 @ l2 @ ls)))))"

section \<open>Keys\<close>

text \<open>A window as a number in base four.\<close>

definition digit :: "char \<Rightarrow> nat" where
  "digit c = unat (code_of c)"

definition kmer_number :: "char list \<Rightarrow> nat" where
  "kmer_number w = foldl (\<lambda>n c. 4 * n + digit c) 0 w"

lemma digit_less: "digit c < 4"
  by (simp add: digit_def code_of_def)

lemma code_of_digit: "code_of c = word_of_nat (digit c)"
  by (simp add: digit_def)

lemma kmer_number_snoc: "kmer_number (w @ [c]) = 4 * kmer_number w + digit c"
  by (simp add: kmer_number_def)

lemma kmer_number_less: "kmer_number w < 4 ^ length w"
proof (induction w rule: rev_induct)
  case (snoc c w)
  with digit_less [of c] show ?case by (simp add: kmer_number_snoc)
qed (simp add: kmer_number_def)

lemma kmer_number_Cons: "kmer_number (c # w) = digit c * 4 ^ length w + kmer_number w"
proof (induction w rule: rev_induct)
  case Nil
  show ?case by (simp add: kmer_number_def)
next
  case (snoc d w)
  then show ?case using kmer_number_snoc [of "c # w" d] by (simp add: kmer_number_snoc algebra_simps)
qed

lemma kmer_number_inj:
  "kmer_number v = kmer_number w \<Longrightarrow> length v = length w \<Longrightarrow> map digit v = map digit w"
proof (induction v arbitrary: w rule: rev_induct)
  case (snoc c v)
  then obtain w' d where w: "w = w' @ [d]" by (cases w rule: rev_cases) auto
  from snoc.prems(1) digit_less [of c] digit_less [of d]
  have "digit c = digit d" "kmer_number v = kmer_number w'" by (simp_all add: w kmer_number_snoc) presburger+
  with snoc w show ?case by simp
qed simp

lemma push_bit_or_digit:
  assumes "d < 4"
  shows "push_bit 2 (word_of_nat n) OR word_of_nat d = (word_of_nat (4 * n + d) :: 64 word)"
proof -
  have "d = 0 \<or> d = 1 \<or> d = 2 \<or> d = 3" using assms by linarith
  then have d: "word_of_nat d = take_bit 2 (word_of_nat d :: 64 word)" by (auto simp: take_bit_eq_mod)
  have "push_bit 2 (word_of_nat n) AND take_bit 2 (word_of_nat d) = (0 :: 64 word)"
    by (rule bit_eqI) (simp add: bit_simps)
  then have "push_bit 2 (word_of_nat n) OR word_of_nat d = push_bit 2 (word_of_nat n) + (word_of_nat d :: 64 word)"
    using d by (simp add: disjunctive_add_eq_or)
  then show ?thesis by (simp add: push_bit_eq_mult mult.commute)
qed

text \<open>Keeping the low \<open>2 * k\<close> bits drops the first nucleotide of a window.\<close>

lemma kmer_mask_ok: "k \<le> 31 \<Longrightarrow> kmer_mask k = Inr (mask (2 * k))"
  by (simp add: kmer_mask_def mask_eq_exp_minus_1 push_bit_eq_mult)

lemma mask_number:
  assumes "k \<le> 31"
  shows "(word_of_nat n :: 64 word) AND mask (2 * k) = word_of_nat (n mod 4 ^ k)"
proof -
  have "take_bit (2 * k) (word_of_nat n :: 64 word) = word_of_nat (take_bit (2 * k) n)"
    by (simp add: bit_eq_iff bit_simps)
  then show ?thesis by (simp add: take_bit_eq_mod power_mult flip: take_bit_eq_mask)
qed

definition window :: "nat \<Rightarrow> char list \<Rightarrow> nat \<Rightarrow> char list" where
  "window k seq j = take k (drop j seq)"

abbreviation kmer_key :: "char list \<Rightarrow> 64 word" where
  "kmer_key w \<equiv> word_of_nat (kmer_number w)"

lemma push_code: "push_bit 2 (kmer_key w) OR code_of c = kmer_key (w @ [c])"
  by (simp add: code_of_digit push_bit_or_digit digit_less kmer_number_snoc)

lemma window_first:
  assumes "1 \<le> k" "k \<le> 31" "k \<le> length seq"
  shows "(push_bit 2 (kmer_key (take (k - 1) seq)) OR code_of (seq ! (k - 1))) AND mask (2 * k) = kmer_key (window k seq 0)"
proof -
  have w: "take (k - 1) seq @ [seq ! (k - 1)] = window k seq 0"
    using assms by (simp add: window_def flip: take_Suc_conv_app_nth)
  have "kmer_number (window k seq 0) mod 4 ^ k = kmer_number (window k seq 0)"
    using kmer_number_less [of "window k seq 0"] assms(3) by (simp add: window_def)
  then show ?thesis unfolding push_code w mask_number [OF assms(2)] by simp
qed

lemma window_roll:
  assumes "1 \<le> k" "k \<le> 31" "j + k < length seq"
  shows "(push_bit 2 (kmer_key (window k seq j)) OR code_of (seq ! (j + k))) AND mask (2 * k) = kmer_key (window k seq (Suc j))"
proof -
  have "window k seq j @ [seq ! (j + k)] = take (Suc k) (drop j seq)"
    using assms by (simp add: window_def take_Suc_conv_app_nth)
  also have "\<dots> = seq ! j # window k seq (Suc j)"
    using assms by (simp add: window_def take_Suc_Cons flip: Cons_nth_drop_Suc)
  finally have w: "window k seq j @ [seq ! (j + k)] = seq ! j # window k seq (Suc j)" .
  have len: "length (window k seq (Suc j)) = k" using assms by (simp add: window_def)
  have "kmer_number (seq ! j # window k seq (Suc j)) mod 4 ^ k = kmer_number (window k seq (Suc j))"
    using kmer_number_less [of "window k seq (Suc j)"] len by (simp add: kmer_number_Cons)
  then show ?thesis unfolding push_code w mask_number [OF assms(2)] by simp
qed

lemma encode_key: "encode s = kmer_key s"
proof (induction s rule: rev_induct)
  case (snoc c s)
  then show ?case by (simp add: encode_def push_code)
qed (simp add: encode_def kmer_number_def)

section \<open>Counting the windows\<close>

definition windows :: "nat \<Rightarrow> char list \<Rightarrow> char list list" where
  "windows k seq = map (window k seq) [0..<length seq + 1 - k]"

lemma count_kmers_windows:
  assumes k: "1 \<le> k" "k \<le> 31" "k \<le> length seq + 1"
  shows "count_kmers fuel seq k t = rfold (table_count fuel) (map kmer_key (windows k seq)) t"
proof -
  have "m \<le> length seq \<Longrightarrow>
      rfold (\<lambda>i key. rbind (arr_get seq (int i)) (\<lambda>c. Inr (push_bit 2 key OR code_of c))) [0..<m] 0 =
      Inr (kmer_key (take m seq))" for m
  proof (induction m)
    case (Suc m)
    then show ?case by (simp add: rfold_append arr_get_ok push_code take_Suc_conv_app_nth)
  qed (simp add: kmer_number_def)
  from this [of "k - 1"] k(3) have first:
    "rfold (\<lambda>i key. rbind (arr_get seq (int i)) (\<lambda>c. Inr (push_bit 2 key OR code_of c))) [0..<k - 1] 0 =
      Inr (kmer_key (take (k - 1) seq))" by simp
  define last where "last j = (if j = 0 then kmer_key (take (k - 1) seq) else kmer_key (window k seq (j - 1)))" for j
  let ?f = "\<lambda>i (key, t). rbind (arr_get seq (int i)) (\<lambda>c. let key = (push_bit 2 key OR code_of c) AND mask (2 * k)
      in rbind (table_count fuel key t) (\<lambda>t. Inr (key, t)))"
  have "k - 1 + j \<le> length seq \<Longrightarrow> rfold ?f [k - 1..<k - 1 + j] (kmer_key (take (k - 1) seq), t) =
      rbind (rfold (table_count fuel) (map (kmer_key \<circ> window k seq) [0..<j]) t) (\<lambda>t. Inr (last j, t))" for j
  proof (induction j)
    case (Suc j)
    have key: "(push_bit 2 (last j) OR code_of (seq ! (k - 1 + j))) AND mask (2 * k) = last (Suc j)"
    proof (cases j)
      case 0
      then show ?thesis using window_first [OF k(1,2)] Suc.prems k(1) by (simp add: last_def)
    next
      case (Suc i)
      have "k - 1 + j = i + k" using Suc k(1) by simp
      then show ?thesis using window_roll [OF k(1,2), of i seq] Suc.prems Suc
        by (simp add: last_def add.commute)
    qed
    have get: "arr_get seq (int (k - 1 + j)) = Inr (seq ! (k - 1 + j))"
      using Suc.prems by (simp add: arr_get_def del: of_nat_add)
    have step: "?f (k - 1 + j) (last j, t) = rbind (table_count fuel (last (Suc j)) t) (\<lambda>t. Inr (last (Suc j), t))" for t
      by (simp only: prod.case get rbind.simps Let_def key)
    have range: "[k - 1..<k - 1 + Suc j] = [k - 1..<k - 1 + j] @ [k - 1 + j]" by simp
    have l: "last (Suc j) = kmer_key (window k seq j)" by (simp add: last_def)
    let ?A = "rfold (table_count fuel) (map (kmer_key \<circ> window k seq) [0..<j]) t"
    have one: "rfold ?f [k - 1 + j] (last j, t) = rbind (table_count fuel (last (Suc j)) t) (\<lambda>t. Inr (last (Suc j), t))" for t
      unfolding rfold.simps step by (cases "table_count fuel (last (Suc j)) t") simp_all
    have "rfold ?f [k - 1..<k - 1 + Suc j] (kmer_key (take (k - 1) seq), t) =
        rbind (rbind ?A (\<lambda>t. Inr (last j, t))) (rfold ?f [k - 1 + j])"
      unfolding range rfold_append by (subst Suc.IH) (use Suc.prems in simp_all)
    also have "\<dots> = rbind ?A (\<lambda>t. rbind (table_count fuel (last (Suc j)) t) (\<lambda>t. Inr (last (Suc j), t)))"
      by (simp only: rbind_assoc rbind.simps one)
    also have "\<dots> = rbind (rfold (table_count fuel) (map (kmer_key \<circ> window k seq) [0..<Suc j]) t) (\<lambda>t. Inr (last (Suc j), t))"
      by (cases ?A) (auto simp: rfold_append l rbind_assoc)
    finally show ?case .
  qed (simp add: last_def)
  from this [of "length seq + 1 - k"] k have loop:
    "rfold ?f [k - 1..<length seq] (kmer_key (take (k - 1) seq), t) =
      rbind (rfold (table_count fuel) (map (kmer_key \<circ> window k seq) [0..<length seq + 1 - k]) t)
        (\<lambda>t. Inr (last (length seq + 1 - k), t))" by simp
  show ?thesis unfolding count_kmers_def kmer_mask_ok [OF k(2)] rbind.simps first
    using k(1) loop by (simp add: rbind_assoc windows_def)
qed

text \<open>The table after a sequence of increments holds how often each key was counted.\<close>

lemma table_counts:
  assumes "\<forall>key \<in> set ks. key + 1 \<noteq> (0 :: 64 word)"
  shows "\<exists>t. rfold (table_count (Suc (Suc fuel))) ks (table_init 64) = Inr t \<and> table_ok t \<and>
    (\<forall>k. k + 1 \<noteq> 0 \<longrightarrow> table_abs t k = (if k \<in> set ks then Some (word_of_nat (count_list ks k)) else None))"
  using assms
proof (induction ks rule: rev_induct)
  case Nil
  have "(64 :: nat) = 2 ^ Suc 5" by simp
  then show ?case using table_init_ok [of 5] table_init_abs [of 5] by simp
next
  case (snoc key ks)
  then obtain t where t: "rfold (table_count (Suc (Suc fuel))) ks (table_init 64) = Inr t" "table_ok t"
    "\<And>k. k + 1 \<noteq> 0 \<Longrightarrow> table_abs t k = (if k \<in> set ks then Some (word_of_nat (count_list ks k)) else None)" by auto
  have key: "key + 1 \<noteq> 0" using snoc.prems by simp
  from table_count_ok [OF t(2) key] obtain t' where t': "table_count (Suc (Suc fuel)) key t = Inr t'" "table_ok t'"
    "\<And>k. k + 1 \<noteq> 0 \<Longrightarrow> table_abs t' k = ((table_abs t)(key \<mapsto> (case table_abs t key of Some v \<Rightarrow> v | None \<Rightarrow> 0) + 1)) k"
    by blast
  have "table_abs t' k = (if k \<in> set (ks @ [key]) then Some (word_of_nat (count_list (ks @ [key]) k)) else None)"
    if "k + 1 \<noteq> 0" for k
    using t'(3) [OF that] t(3) [OF that] t(3) [OF key]
    by (auto simp: add.commute)
  with t(1) t'(1,2) show ?case by (simp add: rfold_append)
qed

section \<open>The reports\<close>

text \<open>How often a fragment occurs, windows that overlap included.\<close>

definition occurrences :: "char list \<Rightarrow> char list \<Rightarrow> nat" where
  "occurrences w seq = length (filter (\<lambda>v. map digit v = map digit w) (windows (length w) seq))"

lemma kmer_number_digits: "kmer_number w = foldl (\<lambda>n d. 4 * n + d) 0 (map digit w)"
  by (simp add: kmer_number_def foldl_map)

lemma kmer_number_bound: "length w \<le> 31 \<Longrightarrow> kmer_number w < 2 ^ 62"
  using kmer_number_less [of w] power_increasing [of "length w" 31 "4::nat"] by simp

lemma kmer_key_eq:
  assumes "length v = length w" "length w \<le> 31"
  shows "kmer_key v = kmer_key w \<longleftrightarrow> map digit v = map digit w"
proof
  assume "kmer_key v = kmer_key w"
  then have "unat (kmer_key v) = unat (kmer_key w)" by simp
  then have "kmer_number v = kmer_number w"
    using kmer_number_bound [of v] kmer_number_bound [of w] assms
    by (simp add: unat_of_nat take_bit_nat_eq_self)
  then show "map digit v = map digit w" using assms(1) by (rule kmer_number_inj)
qed (simp add: kmer_number_digits)

lemma kmer_key_storable:
  assumes "length w \<le> 31"
  shows "kmer_key w + 1 \<noteq> 0"
proof
  assume "kmer_key w + 1 = 0"
  then have "(word_of_nat (kmer_number w + 1) :: 64 word) = 0" by (simp add: add.commute)
  then have "unat (word_of_nat (kmer_number w + 1) :: 64 word) = 0" by simp
  then show False using kmer_number_bound [OF assms] by (simp add: unat_of_nat take_bit_nat_eq_self del: of_nat_Suc)
qed

lemma length_window: "v \<in> set (windows k seq) \<Longrightarrow> k \<le> length seq + 1 \<Longrightarrow> length v = k"
  by (auto simp: windows_def window_def)

lemma count_list_filter: "count_list xs x = length (filter (\<lambda>y. y = x) xs)"
  by (induction xs) auto

lemma window_count:
  assumes "length w = k" "k \<le> 31" "k \<le> length seq + 1"
  shows "count_list (map kmer_key (windows k seq)) (kmer_key w) = occurrences w seq"
proof -
  have "filter (\<lambda>v. kmer_key v = kmer_key w) (windows k seq) = filter (\<lambda>v. map digit v = map digit w) (windows k seq)"
    using kmer_key_eq [of _ w] length_window [of _ k seq] assms by (intro filter_cong) auto
  then show ?thesis using assms by (simp add: count_list_filter filter_map comp_def occurrences_def)
qed

lemma occurrences_pos:
  "length w = k \<Longrightarrow> 0 < occurrences w seq \<longleftrightarrow> (\<exists>v \<in> set (windows k seq). map digit v = map digit w)"
  by (auto simp: occurrences_def filter_empty_conv)

text \<open>What \<open>count_kmers\<close> leaves in a new table.\<close>

definition kmer_table :: "nat \<Rightarrow> char list \<Rightarrow> table \<Rightarrow> bool" where
  "kmer_table k seq t \<longleftrightarrow> table_ok t \<and> (\<forall>key. key + 1 \<noteq> 0 \<longrightarrow> table_abs t key =
     (if key \<in> kmer_key ` set (windows k seq)
      then Some (word_of_nat (count_list (map kmer_key (windows k seq)) key)) else None))"

lemma count_kmers_table:
  assumes "1 \<le> k" "k \<le> 31" "k \<le> length seq + 1"
  shows "\<exists>t. count_kmers (Suc (Suc fuel)) seq k (table_init 64) = Inr t \<and> kmer_table k seq t"
  using table_counts [of "map kmer_key (windows k seq)" fuel] length_window [of _ k seq] kmer_key_storable assms
  by (simp add: count_kmers_windows kmer_table_def)

lemma write_count_occurrences:
  assumes "1 \<le> length frag" "length frag \<le> 31" "length frag \<le> length seq + 1"
  shows "write_count (Suc (Suc fuel)) seq frag = Inr [KmerCount (word_of_nat (occurrences frag seq)) frag]"
proof -
  from count_kmers_table [OF assms, of fuel] obtain t where t:
    "count_kmers (Suc (Suc fuel)) seq (length frag) (table_init 64) = Inr t" "kmer_table (length frag) seq t" by blast
  have ok: "table_ok t" using t(2) by (simp add: kmer_table_def)
  have z: "count_list (map kmer_key (windows (length frag) seq)) (kmer_key frag) = occurrences frag seq"
    by (rule window_count) (use assms in auto)
  have "occurrences frag seq = 0" if "kmer_key frag \<notin> kmer_key ` set (windows (length frag) seq)"
    using that unfolding z [symmetric] by (simp add: count_list_0_iff)
  then have "table_get t (kmer_key frag) = Inr (word_of_nat (occurrences frag seq))"
    using table_get_abs [OF ok kmer_key_storable [OF assms(2)]] t(2) kmer_key_storable [OF assms(2)] z
    by (simp add: kmer_table_def)
  then show ?thesis by (simp add: write_count_def t(1) encode_key)
qed

text \<open>The name of a key: the letters of its digits.\<close>

definition canonical :: "char list \<Rightarrow> string" where
  "canonical w = map (\<lambda>c. letters ! digit c) w"

lemma kmer_number_digit:
  "j < length w \<Longrightarrow> kmer_number w div 4 ^ (length w - 1 - j) mod 4 = digit (w ! j)"
proof (induction w rule: rev_induct)
  case (snoc c w)
  show ?case
  proof (cases "j = length w")
    case True
    then show ?thesis using digit_less [of c] by (simp add: kmer_number_snoc)
  next
    case False
    then have j: "j < length w" "length w - j = Suc (length w - 1 - j)" using snoc.prems by auto
    have "kmer_number (w @ [c]) div 4 ^ (length w - j) = (4 * kmer_number w + digit c) div 4 div 4 ^ (length w - 1 - j)"
      unfolding j(2) power_Suc by (simp add: div_mult2_eq kmer_number_snoc)
    also have "(4 * kmer_number w + digit c) div 4 = kmer_number w" using digit_less [of c] by simp
    finally show ?thesis using snoc.IH [OF j(1)] j(1) by (simp add: nth_append)
  qed
qed simp

lemma kmer_name_canonical:
  assumes "length w = k" "k \<le> 31"
  shows "kmer_name k (kmer_key w) = Inr (canonical w)"
proof -
  have "unat (drop_bit (2 * (k - 1 - j)) (kmer_key w) AND 3) = digit (w ! j)" if "j < k" for j
  proof -
    have "drop_bit (2 * (k - 1 - j)) (kmer_key w) AND 3 = (drop_bit (2 * (k - 1 - j)) (kmer_key w) AND mask 2)"
      by (simp add: mask_eq_exp_minus_1)
    also have "unat \<dots> = take_bit 2 (drop_bit (2 * (k - 1 - j)) (unat (kmer_key w)))"
      by (simp add: take_bit_eq_mask [symmetric] unsigned_take_bit_eq unat_drop_bit_eq)
    also have "\<dots> = kmer_number w div 4 ^ (k - 1 - j) mod 4"
      using kmer_number_bound [of w] assms
      by (simp add: unat_of_nat take_bit_nat_eq_self take_bit_eq_mod drop_bit_eq_div power_mult)
    finally show ?thesis using kmer_number_digit [of j w] that assms by simp
  qed
  then have "map (\<lambda>j. letters ! unat (drop_bit (2 * (k - 1 - j)) (kmer_key w) AND 3)) [0..<k] = map (\<lambda>j. letters ! digit (w ! j)) [0..<k]"
    by simp
  also have "\<dots> = canonical w" using assms(1) by (simp add: canonical_def list_eq_iff_nth_eq)
  finally show ?thesis using assms(2) by (simp add: kmer_name_def)
qed

text \<open>The entries of a table: every stored key once, with its counter.\<close>

lemma table_entries_set:
  assumes "table_ok t"
  shows "set (table_entries t) = {\<lparr>e_key = k, e_count = v\<rparr> | k v. k + 1 \<noteq> 0 \<and> table_abs t k = Some v}"
proof -
  have len: "length (t_keys t) = t_cap t" "length (t_vals t) = t_cap t" using assms by (auto simp: table_ok_def)
  have "\<lparr>e_key = k, e_count = v\<rparr> \<in> set (table_entries t) \<longleftrightarrow> k + 1 \<noteq> 0 \<and> table_abs t k = Some v" for k v
  proof -
    have "\<lparr>e_key = k, e_count = v\<rparr> \<in> set (table_entries t) \<longleftrightarrow>
        (\<exists>i < t_cap t. t_keys t ! i \<noteq> 0 \<and> t_keys t ! i - 1 = k \<and> t_vals t ! i = v)"
      using len by (auto simp: table_entries_def in_set_zip image_iff)
    also have "\<dots> \<longleftrightarrow> (\<exists>i < t_cap t. k + 1 \<noteq> 0 \<and> t_keys t ! i = k + 1 \<and> t_vals t ! i = v)"
      by (auto simp: diff_eq_eq)
    also have "\<dots> \<longleftrightarrow> k + 1 \<noteq> 0 \<and> table_abs t k = Some v" using table_abs_Some [OF assms, of k v] by blast
    finally show ?thesis .
  qed
  then have "x \<in> set (table_entries t) \<longleftrightarrow> (\<exists>k v. x = \<lparr>e_key = k, e_count = v\<rparr> \<and> k + 1 \<noteq> 0 \<and> table_abs t k = Some v)" for x
    by (cases x) auto
  then show ?thesis by blast
qed

lemma distinct_filter_keys:
  "length ks = length vs \<Longrightarrow> (\<forall>i < length ks. \<forall>j < length ks. ks ! i = ks ! j \<longrightarrow> ks ! i \<noteq> 0 \<longrightarrow> i = j) \<Longrightarrow>
   distinct (map fst (filter (\<lambda>(k, v). k \<noteq> (0 :: 'a :: zero)) (zip ks vs)))"
proof (induction ks vs rule: list_induct2)
  case (Cons k ks v vs)
  have "ks ! i = ks ! j \<longrightarrow> ks ! i \<noteq> 0 \<longrightarrow> i = j" if "i < length ks" "j < length ks" for i j
    using Cons.prems [rule_format, of "Suc i" "Suc j"] that by auto
  moreover have "k \<notin> set ks" if "k \<noteq> 0"
  proof
    assume "k \<in> set ks"
    then obtain i where "i < length ks" "ks ! i = k" by (auto simp: in_set_conv_nth)
    with Cons.prems [rule_format, of 0 "Suc i"] that show False by simp
  qed
  ultimately show ?case using Cons.IH by (auto dest: set_zip_leftD)
qed simp

lemma table_entries_distinct:
  assumes "table_ok t"
  shows "distinct (map e_key (table_entries t))"
proof -
  let ?z = "filter (\<lambda>(k, v). k \<noteq> 0) (zip (t_keys t) (t_vals t))"
  have "distinct (map fst ?z)"
    by (rule distinct_filter_keys) (use assms in \<open>auto simp: table_ok_def keys_ok_def\<close>)
  moreover have "map e_key (table_entries t) = map (\<lambda>k. k - 1) (map fst ?z)"
    by (simp add: table_entries_def case_prod_beta)
  ultimately show ?thesis by (simp add: distinct_map inj_on_def)
qed

text \<open>Sorting.\<close>

definition entry_le :: "kmer_entry \<Rightarrow> kmer_entry \<Rightarrow> bool" where
  "entry_le x y \<longleftrightarrow> e_count y < e_count x \<or> e_count x = e_count y \<and> e_key x \<le> e_key y"

lemma cmp_entry_le: "cmp_entry x y \<le> 0 \<longleftrightarrow> entry_le x y"
  by (auto simp: cmp_entry_def entry_le_def)

lemma entry_le_total: "\<not> entry_le x y \<Longrightarrow> entry_le y x"
  by (auto simp: entry_le_def)

lemma entry_le_trans: "entry_le x y \<Longrightarrow> entry_le y z \<Longrightarrow> entry_le x z"
  by (auto simp: entry_le_def)

lemma set_qsort_insert: "set (qsort_insert cmp x ys) = insert x (set ys)"
  by (induction ys) auto

lemma qsort_insert_sorted: "sorted_wrt entry_le ys \<Longrightarrow> sorted_wrt entry_le (qsort_insert cmp_entry x ys)"
  by (induction ys) (auto simp: cmp_entry_le set_qsort_insert dest: entry_le_total intro: entry_le_trans)

lemma qsort_sorted: "sorted_wrt entry_le (qsort cmp_entry xs)"
  by (induction xs) (auto simp: qsort_def qsort_insert_sorted)

lemma set_qsort: "set (qsort cmp xs) = set xs"
  by (induction xs) (auto simp: qsort_def set_qsort_insert)

lemma distinct_keys_insert:
  "distinct (map e_key (qsort_insert cmp x ys)) \<longleftrightarrow> e_key x \<notin> e_key ` set ys \<and> distinct (map e_key ys)"
  by (induction ys) (auto simp: set_qsort_insert)

lemma distinct_keys_qsort: "distinct (map e_key (qsort cmp xs)) \<longleftrightarrow> distinct (map e_key xs)"
proof (induction xs)
  case (Cons x xs)
  have "set (foldr (qsort_insert cmp) xs []) = set xs" using set_qsort [of cmp xs] by (simp add: qsort_def)
  with Cons show ?case by (simp add: qsort_def distinct_keys_insert)
qed (simp add: qsort_def)

text \<open>
  The entries of the table of a sequence, in the order of the report: \<open>kmer_report\<close> lists each window
  that occurs with its number of occurrences, the most frequent first and in the order of the alphabet
  among equals.
\<close>

definition kmer_report :: "nat \<Rightarrow> char list \<Rightarrow> (string \<times> nat) list \<Rightarrow> bool" where
  "kmer_report k seq ls \<longleftrightarrow> distinct (map fst ls) \<and>
     set ls = (\<lambda>w. (canonical w, occurrences w seq)) ` set (windows k seq) \<and>
     sorted_wrt (\<lambda>(v, m) (w, n). n < m \<or> m = n \<and> kmer_number v < kmer_number w) ls"

definition report_lines :: "char list \<Rightarrow> nat \<Rightarrow> (string \<times> nat) list \<Rightarrow> kmer_line list" where
  "report_lines seq k ls =
    map (\<lambda>(w, n). KmerShare w (word_of_nat n) (word_of_nat (length seq + 1 - k))) ls @ [KmerBlank]"

lemma digit_letter: "digit (letters ! digit c) = digit c"
proof -
  have "digit c = 0 \<or> digit c = 1 \<or> digit c = 2 \<or> digit c = 3" using digit_less [of c] by linarith
  then show ?thesis by (elim disjE) (simp_all add: letters_def, simp_all add: digit_def code_of_def)
qed

lemma canonical_simps [simp]:
  "length (canonical w) = length w" "map digit (canonical w) = map digit w"
  "occurrences (canonical w) seq = occurrences w seq" "kmer_number (canonical w) = kmer_number w"
proof -
  show "length (canonical w) = length w" by (simp add: canonical_def)
  moreover show "map digit (canonical w) = map digit w" by (simp add: canonical_def digit_letter)
  ultimately show "occurrences (canonical w) seq = occurrences w seq" "kmer_number (canonical w) = kmer_number w"
    by (simp_all add: occurrences_def kmer_number_digits)
qed

lemma canonical_canonical [simp]: "canonical (canonical w) = canonical w"
  by (simp add: canonical_def digit_letter)

lemma canonical_eq: "canonical v = canonical w \<longleftrightarrow> map digit v = map digit w"
proof
  assume "canonical v = canonical w"
  then show "map digit v = map digit w" using canonical_simps(2) by metis
next
  assume "map digit v = map digit w"
  then have "map ((!) letters) (map digit v) = map ((!) letters) (map digit w)" by simp
  then show "canonical v = canonical w" by (simp add: canonical_def comp_def)
qed

lemma occurrences_le: "occurrences w seq \<le> length seq + 1 - length w"
  unfolding occurrences_def by (rule order_trans [OF length_filter_le]) (simp add: windows_def)


text \<open>The report of a table.\<close>

lemma kmer_entries:
  assumes t: "kmer_table k seq t" and k: "k \<le> 31" "k \<le> length seq + 1"
  shows "set (table_entries t) =
    (\<lambda>w. \<lparr>e_key = kmer_key w, e_count = word_of_nat (occurrences w seq)\<rparr>) ` set (windows k seq)"
proof -
  have len: "length w = k" if "w \<in> set (windows k seq)" for w using length_window that k(2) by blast
  have abs: "table_abs t (kmer_key w) = Some (word_of_nat (occurrences w seq))" if "w \<in> set (windows k seq)" for w
    using t that kmer_key_storable [of w] len [OF that] k window_count [OF len [OF that] k]
    by (simp add: kmer_table_def)
  have "{\<lparr>e_key = key, e_count = v\<rparr> | key v. key + 1 \<noteq> 0 \<and> table_abs t key = Some v} =
      (\<lambda>w. \<lparr>e_key = kmer_key w, e_count = word_of_nat (occurrences w seq)\<rparr>) ` set (windows k seq)" (is "?A = ?B")
  proof
    show "?A \<subseteq> ?B"
    proof
      fix x assume "x \<in> ?A"
      then obtain key v where x: "x = \<lparr>e_key = key, e_count = v\<rparr>" "key + 1 \<noteq> 0" "table_abs t key = Some v" by blast
      then have "key \<in> kmer_key ` set (windows k seq)" using t by (auto simp: kmer_table_def split: if_splits)
      then obtain w where "w \<in> set (windows k seq)" "key = kmer_key w" by blast
      with x abs show "x \<in> ?B" by auto
    qed
    show "?B \<subseteq> ?A" using abs kmer_key_storable len k(1) by blast
  qed
  then show ?thesis using table_entries_set t by (simp add: kmer_table_def)
qed

lemma list_of_image: "set ys \<subseteq> f ` A \<Longrightarrow> \<exists>xs. ys = map f xs \<and> set xs \<subseteq> A"
proof (induction ys)
  case (Cons y ys)
  then obtain x xs where "ys = map f xs" "set xs \<subseteq> A" "y = f x" "x \<in> A" by auto
  then show ?case by (intro exI [of _ "x # xs"]) simp
qed simp

lemma sorted_distinct_keys:
  "sorted_wrt entry_le es \<Longrightarrow> distinct (map e_key es) \<Longrightarrow> sorted_wrt (\<lambda>x y. entry_le x y \<and> e_key x \<noteq> e_key y) es"
  by (induction es) (auto simp: image_iff)

lemma total_of_counts:
  assumes t: "kmer_table k seq t" and k: "k \<le> 31" "k \<le> length seq + 1" and len: "length seq < 2 ^ 32"
    and pos: "1 \<le> k"
  shows "sum_list (map (\<lambda>x. ucast (e_count x)) (table_entries t)) = (word_of_nat (length seq + 1 - k) :: 64 word)"
proof -
  let ?ks = "map kmer_key (windows k seq)"
  let ?h = "\<lambda>key. word_of_nat (count_list ?ks key) :: 64 word"
  have ok: "table_ok t" using t by (simp add: kmer_table_def)
  have cnt: "ucast (e_count x) = ?h (e_key x)" if "x \<in> set (table_entries t)" for x
  proof -
    from that kmer_entries [OF t k] obtain w where w: "w \<in> set (windows k seq)"
      "x = \<lparr>e_key = kmer_key w, e_count = word_of_nat (occurrences w seq)\<rparr>" by auto
    have "occurrences w seq < 2 ^ 32" using occurrences_le [of w seq] length_window [OF w(1) k(2)] len pos by linarith
    then show ?thesis using w window_count [OF length_window [OF w(1) k(2)] k]
      by (simp add: unsigned_of_nat take_bit_nat_eq_self)
  qed
  have keys: "set (map e_key (table_entries t)) = set ?ks" using kmer_entries [OF t k] by (simp add: image_image)
  have "sum_list (map (\<lambda>x. ucast (e_count x)) (table_entries t)) = sum_list (map ?h (map e_key (table_entries t)))"
    using cnt by (simp add: comp_def cong: map_cong)
  also have "\<dots> = sum ?h (set ?ks)"
    using table_entries_distinct [OF ok] keys by (simp only: sum_list_distinct_conv_sum_set)
  also have "\<dots> = word_of_nat (sum (count_list ?ks) (set ?ks))" by simp
  also have "sum (count_list ?ks) (set ?ks) = length ?ks" by (rule sum_count_set) simp_all
  finally show ?thesis by (simp add: windows_def)
qed

lemma write_frequencies_report:
  assumes k: "1 \<le> k" "k \<le> 31" "k \<le> length seq + 1" and len: "length seq < 2 ^ 32"
  shows "\<exists>ls. write_frequencies (Suc (Suc fuel)) seq k = Inr (report_lines seq k ls) \<and> kmer_report k seq ls"
proof -
  from count_kmers_table [OF k, of fuel] obtain t where t:
    "count_kmers (Suc (Suc fuel)) seq k (table_init 64) = Inr t" "kmer_table k seq t" by blast
  have ok: "table_ok t" using t(2) by (simp add: kmer_table_def)
  let ?f = "\<lambda>w. \<lparr>e_key = kmer_key w, e_count = word_of_nat (occurrences w seq)\<rparr>"
  let ?total = "word_of_nat (length seq + 1 - k) :: 64 word"
  define es where "es = qsort cmp_entry (table_entries t)"
  have es: "set es = ?f ` set (windows k seq)" "sorted_wrt (\<lambda>x y. entry_le x y \<and> e_key x \<noteq> e_key y) es"
    "distinct (map e_key es)"
    using kmer_entries [OF t(2) k(2,3)] table_entries_distinct [OF ok]
    by (simp_all add: es_def set_qsort distinct_keys_qsort qsort_sorted sorted_distinct_keys)
  obtain ws where ws: "es = map ?f ws" "set ws \<subseteq> set (windows k seq)" using list_of_image [of es ?f] es(1) by blast
  have wl: "length w = k" "occurrences w seq < 2 ^ 32" "kmer_number w < 2 ^ 62" if "w \<in> set ws" for w
  proof -
    show l: "length w = k" using length_window ws(2) that k(3) by blast
    then show "occurrences w seq < 2 ^ 32" using occurrences_le [of w seq] len k(1) by linarith
    show "kmer_number w < 2 ^ 62" using kmer_number_bound l k(2) by blast
  qed
  have key_eq: "kmer_key v = kmer_key w \<longleftrightarrow> canonical v = canonical w" if "length v = k" "length w = k" for v w
    using kmer_key_eq [of v w] that k(2) by (simp add: canonical_eq)
  let ?g = "\<lambda>w. (canonical w, occurrences w seq)"
  have lines: "rfold (\<lambda>x ls. rbind (kmer_name k (e_key x)) (\<lambda>name. Inr (ls @ [KmerShare name (e_count x) ?total]))) (map ?f vs) ls =
      Inr (ls @ map (\<lambda>(w, n). KmerShare w (word_of_nat n) ?total) (map ?g vs))" if "set vs \<subseteq> set ws" for vs ls
    using that by (induction vs arbitrary: ls) (simp_all add: kmer_name_canonical wl k(2))
  have run: "write_frequencies (Suc (Suc fuel)) seq k = Inr (report_lines seq k (map ?g ws))"
    using lines [of ws "[]"] total_of_counts [OF t(2) k(2,3) len k(1)]
    by (simp add: write_frequencies_def t(1) Let_def report_lines_def ws(1) flip: es_def)
  have "distinct (map kmer_key (map canonical ws))"
    using es(3) by (simp add: ws(1) comp_def del: distinct_map)
  then have "distinct (map canonical ws)" by (rule distinct_map [THEN iffD1, THEN conjunct1])
  then have d: "distinct (map fst (map ?g ws))" by (simp add: comp_def)
  have all: "set (map ?g ws) = ?g ` set (windows k seq)"
  proof
    show "set (map ?g ws) \<subseteq> ?g ` set (windows k seq)" using ws(2) by auto
    show "?g ` set (windows k seq) \<subseteq> set (map ?g ws)"
    proof
      fix x assume "x \<in> ?g ` set (windows k seq)"
      then obtain w where w: "w \<in> set (windows k seq)" "x = ?g w" by blast
      then have "?f w \<in> set (map ?f ws)" using es(1) ws(1) by auto
      then obtain v where v: "v \<in> set ws" "?f v = ?f w" by auto
      then have c: "canonical v = canonical w" using key_eq [of v w] wl(1) [OF v(1)] length_window [OF w(1) k(3)] by simp
      have "occurrences v seq = occurrences w seq" by (metis c canonical_simps(3))
      with c have g: "?g v = ?g w" by simp
      show "x \<in> set (map ?g ws)" unfolding w(2) g [symmetric] set_map by (rule imageI) (rule v(1))
    qed
  qed
  have "(case ?g v of (v', m) \<Rightarrow> case ?g w of (w', n) \<Rightarrow> n < m \<or> m = n \<and> kmer_number v' < kmer_number w')"
    if "v \<in> set ws" "w \<in> set ws" "entry_le (?f v) (?f w) \<and> e_key (?f v) \<noteq> e_key (?f w)" for v w
    using that(3) wl [OF that(1)] wl [OF that(2)]
    by (auto simp: entry_le_def word_less_nat_alt word_le_nat_alt unat_of_nat take_bit_nat_eq_self word_unat_eq_iff)
  then have "sorted_wrt (\<lambda>v w. case ?g v of (v', m) \<Rightarrow> case ?g w of (w', n) \<Rightarrow> n < m \<or> m = n \<and> kmer_number v' < kmer_number w') ws"
    using es(2) unfolding ws(1) sorted_wrt_map by (rule sorted_wrt_mono_rel)
  then have "sorted_wrt (\<lambda>(v, m) (w, n). n < m \<or> m = n \<and> kmer_number v < kmer_number w) (map ?g ws)"
    by (simp add: sorted_wrt_map)
  with run d all show ?thesis unfolding kmer_report_def by blast
qed

section \<open>The whole program\<close>

text \<open>The input as \<open>fgets\<close> cuts it up, and the sequence \<open>THREE\<close> in it.\<close>

function fgets_lines :: "char list \<Rightarrow> char list list" where
  "fgets_lines input =
    (if input = [] then [] else
       (case fgets_line (LINE_SIZE - 1) input of (line, rest) \<Rightarrow> line # fgets_lines rest))"
  by pat_completeness auto
termination by (relation "measure length") (auto intro: fgets_line_progress [OF sym])

declare fgets_lines.simps [simp del]

definition base_of :: "char \<Rightarrow> char" where
  "base_of c = (if (of_char (CHR ''a'') :: nat) \<le> of_char c \<and> of_char c \<le> (of_char (CHR ''z'') :: nat)
     then char_of (of_char c - (of_char (CHR ''a'') - of_char (CHR ''A'')) :: nat) else c)"

definition bases_of :: "char list \<Rightarrow> char list" where
  "bases_of line = map base_of (filter (\<lambda>c. c \<noteq> CHR 0x0A \<and> c \<noteq> CHR 0x0D) (takeWhile (\<lambda>c. c \<noteq> CHR 0x00) line))"

definition sequence_three :: "char list \<Rightarrow> char list" where
  "sequence_three input = concat (map bases_of
     (takeWhile (\<lambda>l. hd l \<noteq> CHR ''>'') (drop 1 (dropWhile (\<lambda>l. take 6 l \<noteq> ''>THREE'') (fgets_lines input)))))"

lemma skip_to_three_lines:
  "fgets_lines (skip_to_three input) = drop 1 (dropWhile (\<lambda>l. take 6 l \<noteq> ''>THREE'') (fgets_lines input))"
proof (induction input rule: skip_to_three.induct)
  case (1 input)
  show ?case
  proof (cases "input = []")
    case False
    obtain l r where lr: "fgets_line (LINE_SIZE - 1) input = (l, r)" by force
    from False lr "1.IH" [OF False lr [symmetric]] show ?thesis
      by (subst skip_to_three.simps, subst (2) fgets_lines.simps) auto
  qed (simp add: skip_to_three.simps fgets_lines.simps)
qed

lemma read_bases:
  "0 < cap \<Longrightarrow> length seq \<le> cap \<Longrightarrow> \<exists>cap'. rfold read_base cs (seq, cap) =
     Inr (seq @ map base_of (filter (\<lambda>c. c \<noteq> CHR 0x0A \<and> c \<noteq> CHR 0x0D) cs), cap') \<and>
     0 < cap' \<and> length (seq @ map base_of (filter (\<lambda>c. c \<noteq> CHR 0x0A \<and> c \<noteq> CHR 0x0D) cs)) \<le> cap'"
proof (induction cs arbitrary: seq cap)
  case (Cons c cs)
  show ?case
  proof (cases "c = CHR 0x0A \<or> c = CHR 0x0D")
    case True
    then have "read_base c (seq, cap) = Inr (seq, cap)" by (simp add: read_base_def)
    then show ?thesis using Cons.IH [OF Cons.prems] True by auto
  next
    case False
    let ?cap = "if length seq = cap then cap * 2 else cap"
    have "read_base c (seq, cap) = Inr (seq @ [base_of c], ?cap)"
      using False Cons.prems by (auto simp: read_base_def base_of_def Let_def)
    moreover have "0 < ?cap" "length (seq @ [base_of c]) \<le> ?cap" using Cons.prems by auto
    ultimately show ?thesis using Cons.IH [of ?cap "seq @ [base_of c]"] False by simp
  qed
qed simp

lemma read_sequence_lines:
  "0 < cap \<Longrightarrow> length seq \<le> cap \<Longrightarrow> \<exists>cap'. read_sequence input (seq, cap) =
     Inr (seq @ concat (map bases_of (takeWhile (\<lambda>l. hd l \<noteq> CHR ''>'') (fgets_lines input))), cap')"
proof (induction "length input" arbitrary: input seq cap rule: less_induct)
  case less
  show ?case
  proof (cases "input = []")
    case True
    then show ?thesis by (simp add: read_sequence.simps fgets_lines.simps)
  next
    case False
    obtain l r where lr: "fgets_line (LINE_SIZE - 1) input = (l, r)" by force
    show ?thesis
    proof (cases "hd l = CHR ''>''")
      case True
      with False lr show ?thesis by (subst read_sequence.simps, subst fgets_lines.simps) simp
    next
      case not_header: False
      obtain cap' where c: "rfold read_base (takeWhile (\<lambda>c. c \<noteq> CHR 0x00) l) (seq, cap) = Inr (seq @ bases_of l, cap')"
        "0 < cap'" "length (seq @ bases_of l) \<le> cap'"
        using read_bases [OF less.prems] unfolding bases_of_def by blast
      have "length r < length input" by (rule fgets_line_progress [OF lr False])
      from less.hyps [OF this c(2,3)] obtain cap'' where "read_sequence r (seq @ bases_of l, cap') =
          Inr ((seq @ bases_of l) @ concat (map bases_of (takeWhile (\<lambda>l. hd l \<noteq> CHR ''>'') (fgets_lines r))), cap'')"
        by blast
      with False lr not_header c(1) show ?thesis
        by (subst read_sequence.simps, subst fgets_lines.simps) simp
    qed
  qed
qed


lemma fgets_line_numeral:
  "fgets_line (numeral n) [] = ([], [])"
  "fgets_line (numeral n) (x # xs) =
    (if x = CHR 0x0A then ([x], xs) else (case fgets_line (pred_numeral n) xs of (l, ys) \<Rightarrow> (x # l, ys)))"
  by (simp_all add: numeral_eq_Suc)


end
