(* ===== verification/Spec2Isabelle.thy ===== *)
theory Spec2Isabelle
  imports SomRandom SomVector SomSet SomDictionary
    AwfyRun AwfyPermute AwfyQueens AwfySieve AwfyStorage AwfyBounce AwfyTowers AwfyList
    RedBlackTree JsonSpec RichardsRun DeltaBlueTypes DeltaBlueTest HavlakUnion HavlakAncestors HavlakConstruct
    AwfyMain DeltaBlueRun
    SuiteBinaryTrees SuiteFannkuch SuiteReverseComplement SuiteKNucleotide
begin

text \<open>
  A verification library for the C programs of this repository: the C port of the "Are We Fast Yet"
  benchmarks in \<open>src/bench/v2/t1-awfy/upstream/C-rochus/\<close> with its container library \<open>som/\<close>, and the
  integer programs of the single-file suite in \<open>src/bench/suite/src/\<close>. The compiler and the runtime
  of the repository are written in Resid itself, not in C; these programs are what its C code is.

  The programs. Each benchmark file exports a \<open>Benchmark\<close> object with two function pointers,
  \<open>benchmark\<close> and \<open>verifyResult\<close>, or with an inner loop of its own; \<open>Run.c\<close> looks the object up by
  name, runs its inner loop a number of times, times every run and prints a report. The benchmarks
  use four containers: \<open>Vector\<close> (a growable array), \<open>Set\<close> (a vector without duplicates), \<open>Dictionary\<close>
  (a chained hash table) and \<open>RedBlackTree\<close>; and the random generator \<open>som/Random.c\<close>.

  How C is modelled (theory \<open>CPrelude\<close>). A function that can fail returns \<open>fault + 'a\<close>: a failing
  \<open>assert\<close> is \<open>AssertFailed\<close>, and what C leaves undefined (a null dereference, an access outside an
  object or after \<open>free\<close>, a read of storage never written, a signed overflow, a division by zero) is
  a fault of its own, so that a theorem with the result \<open>Inr x\<close> also says that none of it happens.
  An \<open>int\<close> is a HOL integer whose operations are checked against 32 bits by \<open>c_int\<close>; unsigned
  integers, whose arithmetic wraps, are words. State is passed explicitly, in records with the
  members of the C structs; programs that share or free structures have a heap from addresses to
  cells. A loop is a recursive function; when its end is not structural it has fuel and
  \<open>OutOfFuel\<close> is the value of running on, and each theorem names enough fuel. Allocation succeeds,
  as the code assumes.

  The library \<open>som/\<close>. \<open>SomRandom\<close> (Random.c): the linear congruential generator, its arithmetic
  without overflow, its full period. \<open>SomVector\<close> (Vector.c): the representation invariant and its
  preservation, the list a vector stands for, first-in-first-out use, removal, and that \<open>Vector_sort\<close>
  returns on sorted vectors only. \<open>SomSet\<close> (Set.c): the set operations with the inverted membership
  test of the code. \<open>SomDictionary\<close> (Dictionary.c): the hash table with its buckets, its invariant,
  refinement of a finite map, and the enumeration of keys and values; up to \<open>2 ^ 30\<close> entries, where
  the doubling of the table would overflow. \<open>SomInterfaces\<close>: the locales \<open>growable_seq\<close> and
  \<open>map_store\<close>, the contracts of vectors and of keyed containers, with the clients' lemmas; they are
  interpreted on the vector, the dictionary and the red-black tree.

  The harness. \<open>AwfyRun\<close> (Benchmark.c, Run.c): the inner loop, the table of names, the timed runs and
  the report; the clock is a parameter. The locale \<open>running_benchmark\<close> states what a benchmark
  promises whose loop succeeds; \<open>verified_benchmark\<close>, for those with the default loop, is one, and each
  small benchmark interprets it, while \<open>DeltaBlueRun\<close> interprets the first with the loop of DeltaBlue.
  \<open>AwfyMain\<close> (main.c): the command line and the output of the whole program.

  The small benchmarks, each with what it computes as a theorem: \<open>AwfyPermute\<close>, \<open>AwfyQueens\<close> (sound
  and complete backtracking), \<open>AwfySieve\<close> (the primes), \<open>AwfyStorage\<close>, \<open>AwfyBounce\<close>, \<open>AwfyTowers\<close>,
  \<open>AwfyList\<close> (Takeuchi's function on reference-counted lists, without leak). Their recursion is
  structural: a \<open>Suc\<close> in an argument stands for the guard of the code. \<open>AwfyList\<close> has fuel 100 for
  the depth of the recursion and for the loops along lists of at most 15 elements.

  RedBlackTree.c. \<open>AwfyRedBlackTree\<close> has the operations on the heap of nodes; \<open>RedBlackShape\<close> the
  trees and contexts the heap represents; \<open>RedBlackPut\<close>, \<open>RedBlackRemove\<close>, \<open>RedBlackIter\<close> the
  rewriting steps of insertion, removal and iteration with the loop invariants of the two fixups;
  \<open>RedBlackMap\<close> the refinement of a finite map; \<open>RedBlackTree\<close> the properties: balance, order,
  lookup after insertions, depth of a search, what disposal frees. The fuel of each walk is
  \<open>Suc (fresh me)\<close>, more than there are nodes.

  Json.c. \<open>AwfyJson\<close> has the values, the hash index of an object, the string buffer and the parser;
  \<open>JsonTable\<close> the index; \<open>JsonParse\<close> the grammar of the texts without empty or escaped strings and
  the parser on them; \<open>JsonSpec\<close> the properties of the parser and of the lookups. \<open>input_fuel\<close> is one
  turn more than the text has bytes. The document of 24 KB that the benchmark parses is an argument.

  Richards.c. \<open>AwfyRichards\<close> has packets, tasks, the scheduler and the four kinds of task;
  \<open>RichardsQueues\<close> an abstract machine with queues as lists and the relation between the two;
  \<open>RichardsSteps\<close> the simulation; \<open>RichardsRun\<close> the whole run through the quiet states between two
  turns of the idle task, with the counts that the program checks. The scheduler loop takes fewer
  than 230019 turns.

  DeltaBlue.c. \<open>AwfyDeltaBlue\<close> has the strengths, the heaps of variables and constraints and the
  planner; the four functions that call each other are tied by the fuel of
  \<open>Planner_incrementalRemove\<close>, which bounds the depth of the calls and the turns of each worklist
  loop. \<open>DeltaBlueStrengths\<close> evaluates the strength tables. \<open>DeltaBlueTypes\<close> states when a heap is
  well-formed and that every operation keeps it so and accesses live cells only, for any fuel.
  \<open>DeltaBlueEval\<close> says what the planner does on heaps known cell by cell, \<open>DeltaBlueChain\<close> runs the
  chain test on every length, \<open>DeltaBluePairs\<close>, \<open>DeltaBlueProjection\<close> and \<open>DeltaBlueInputs\<close> the
  changes of the projection test on every number of pairs, and \<open>DeltaBlueTest\<close> the whole benchmark:
  fuel \<open>n + 3\<close> is enough for \<open>n\<close> iterations.

  Havlak.c. \<open>AwfyHavlak\<close> has the control-flow graph, the loop structure, the union-find nodes, the
  finder and the benchmark, on heaps of blocks, edges, loops and nodes; the sets and vectors behind
  the cells of \<open>nonBackPreds\<close> and \<open>backPreds\<close> are heaps of the finder. \<open>HavlakUnion\<close> says what \<open>findSet\<close>
  returns and what its path compression does to long paths. \<open>HavlakNumbering\<close> is the theory of
  depth-first numberings without a heap, \<open>HavlakDFS\<close> shows that \<open>doDFS\<close> computes one (fuel: the number
  of unvisited blocks, as every call visits one), and \<open>HavlakAncestors\<close> has the start of
  \<open>findLoops\<close>, on every well-formed graph, and what \<open>isAncestor\<close> answers. The fuel of \<open>findSet\<close> bounds
  the path, that of the other loops the turns of one worklist. \<open>HavlakGraph\<close> shows that the operations
  on blocks and edges refine a list of edges, and \<open>HavlakConstruct\<close> that the benchmark builds the
  graph of its nested loops, with at most \<open>2 ^ 16\<close> nodes besides the first three, so that no vector
  outgrows an \<open>int\<close>. No property is stated of the loops found in the end.

  The suite. \<open>SuiteBinaryTrees\<close> (heap of nodes; fuel above the depth, and \<open>n \<le> 58\<close>, where the counts
  still fit), \<open>SuiteFannkuch\<close> (every permutation is visited; \<open>n \<le> 12\<close>, where the checksum fits; fuel
  for \<open>2 ^ n\<close> flips and \<open>n!\<close> permutations), \<open>SuiteReverseComplement\<close> (equality with a reference on
  FASTA records, no buffer overrun), \<open>SuiteKmerTable\<close> and \<open>SuiteKNucleotide\<close> (open addressing and the
  exact counts of the reports; sequences of 17 to \<open>2 ^ 32 - 1\<close> letters, the first so that every
  window exists, the last so that no counter wraps).

  Not modelled. CD.c, NBody.c, Mandelbrot.c and the floating-point programs of the suite: they
  compute with \<open>double\<close>, for which there is no type among the library theories used here.
  The tests of the containers in main.c, which nothing calls. Programs that call PCRE or GMP.
  Printing, except for the events of \<open>Run.c\<close> and the output of the suite's programs. The functions
  that only free (\<open>Vector_dispose\<close>, \<open>Dictionary_dispose\<close> and the like), except for the cells of the heaps that are
  modelled.

  Each theory repeats in its opening text what it holds. A \<open>text\<close> block with a number before a
  theorem states a property in words; the theorem named like it with \<open>_witness\<close> applies it to a
  concrete input. The last section below has the properties that span components.
\<close>

section \<open>Properties that span components\<close>

text \<open>C40: each of eight benchmarks without floating point or their own inner loop passes its own
  result check in every iteration, however many the harness asks for.\<close>

theorem benchmarks_verify:
  "Benchmark_innerBenchmarkLoop Permute_create n s = Inr (True, s) \<and>
   Benchmark_innerBenchmarkLoop Queens_create n s = Inr (True, s) \<and>
   Benchmark_innerBenchmarkLoop Sieve_create n s = Inr (True, s) \<and>
   Benchmark_innerBenchmarkLoop Storage_create n s = Inr (True, s) \<and>
   Benchmark_innerBenchmarkLoop Bounce_create n s = Inr (True, s) \<and>
   Benchmark_innerBenchmarkLoop Towers_create n s = Inr (True, s) \<and>
   Benchmark_innerBenchmarkLoop List_create n s = Inr (True, s) \<and>
   Benchmark_innerBenchmarkLoop (Richards_create 230019) n s = Inr (True, s)"
  using permute.inner_loop_ok [where s = s and n = "nat n"] queens.inner_loop_ok [where s = s and n = "nat n"]
    sieve.inner_loop_ok [where s = s and n = "nat n"] storage.inner_loop_ok [where s = s and n = "nat n"]
    bounce.inner_loop_ok [where s = s and n = "nat n"] towers.inner_loop_ok [where s = s and n = "nat n"]
    list.inner_loop_ok [where s = s and n = "nat n"] richards.inner_loop_ok [where s = s and n = "nat n"]
  by (simp add: Benchmark_innerBenchmarkLoop_def)

end
